(* ===== verification/Prelude.thy ===== *)
theory Prelude
  imports Main "HOL-Library.Word" "HOL-Library.Multiset"
begin

text \<open>
  Shared vocabulary of the development: the machine types of the C code, C arrays and
  kernel bitmaps as functions on indices, the kernel's bitmap searches
  (\<open>find_next_bit\<close>, \<open>find_next_zero_bit\<close>), signed 32-bit wrap-around, and the lemmas on
  them that the component theories use.
\<close>

unbundle bit_operations_syntax

subsection \<open>Machine types\<close>

type_synonym u8 = "8 word"
type_synonym u16 = "16 word"
type_synonym u32 = "32 word"
type_synonym u64 = "64 word"

text \<open>
  A C array (or a bitmap) that the code indexes is a total function on indices; its length
  is kept beside it where the code keeps it. A store is a function update.
\<close>

type_synonym 'a carray = "nat \<Rightarrow> 'a"
type_synonym bitmap = "bool carray"

named_theorems frame "fields an operation leaves alone"

text \<open>Conversion to \<open>int\<close> (32 bits, two's complement) and to \<open>unsigned long\<close>.\<close>

definition s32 :: "int \<Rightarrow> int" where
  "s32 x = (x + 2147483648) mod 4294967296 - 2147483648"

definition to_ulong :: "int \<Rightarrow> nat" where
  "to_ulong x = nat (x mod 18446744073709551616)"

lemma s32_small [simp]: "- 2147483648 \<le> x \<Longrightarrow> x < 2147483648 \<Longrightarrow> s32 x = x"
  by (simp add: s32_def)

lemma s32_range: "- 2147483648 \<le> s32 x \<and> s32 x < 2147483648"
  by (simp add: s32_def)

lemma to_ulong_nonneg [simp]: "0 \<le> x \<Longrightarrow> x < 18446744073709551616 \<Longrightarrow> to_ulong x = nat x"
  by (simp add: to_ulong_def)

subsection \<open>Kernel bitmap searches\<close>

function find_next_bit :: "bitmap \<Rightarrow> nat \<Rightarrow> nat \<Rightarrow> nat" where
  "find_next_bit m sz ofs =
     (if ofs \<ge> sz then sz else if m ofs then ofs else find_next_bit m sz (Suc ofs))"
  by pat_completeness auto
termination
  by (relation "measure (\<lambda>(m, sz, ofs). sz - ofs)") auto

declare find_next_bit.simps [simp del]

definition find_next_zero_bit :: "bitmap \<Rightarrow> nat \<Rightarrow> nat \<Rightarrow> nat" where
  "find_next_zero_bit m = find_next_bit (\<lambda>i. \<not> m i)"

lemma find_next_bit_le: "find_next_bit m sz ofs \<le> sz"
  by (induction m sz ofs rule: find_next_bit.induct) (subst find_next_bit.simps, simp)

lemma find_next_bit_set: "find_next_bit m sz ofs < sz \<Longrightarrow> m (find_next_bit m sz ofs)"
proof (induction m sz ofs rule: find_next_bit.induct)
  case (1 m sz ofs)
  then show ?case by (auto simp: find_next_bit.simps [of m sz ofs] split: if_splits)
qed

lemma find_next_bit_ge: "ofs \<le> sz \<Longrightarrow> ofs \<le> find_next_bit m sz ofs"
proof (induction m sz ofs rule: find_next_bit.induct)
  case (1 m sz ofs)
  show ?case
  proof (cases "ofs < sz \<and> \<not> m ofs")
    case True
    with 1 have "Suc ofs \<le> find_next_bit m sz (Suc ofs)" by simp
    with True show ?thesis by (simp add: find_next_bit.simps [of m sz ofs])
  next
    case False
    with "1.prems" show ?thesis by (auto simp: find_next_bit.simps [of m sz ofs])
  qed
qed

lemma find_next_bit_first: "ofs \<le> i \<Longrightarrow> i < find_next_bit m sz ofs \<Longrightarrow> \<not> m i"
proof (induction m sz ofs rule: find_next_bit.induct)
  case (1 m sz ofs)
  show ?case
  proof (cases "ofs < sz \<and> \<not> m ofs")
    case True
    show ?thesis
    proof (cases "i = ofs")
      case False
      with True 1 show ?thesis by (simp add: find_next_bit.simps [of m sz ofs])
    qed (use True in simp)
  next
    case False
    with "1.prems" find_next_bit_le [of m sz ofs] show ?thesis
      by (auto simp: find_next_bit.simps [of m sz ofs] split: if_splits)
  qed
qed

lemma find_next_bit_hit: "ofs \<le> i \<Longrightarrow> i < sz \<Longrightarrow> m i \<Longrightarrow> find_next_bit m sz ofs \<le> i"
  using find_next_bit_first by (meson not_le_imp_less)

lemma find_next_bit_eqI:
  assumes "ofs \<le> i" "i < sz" "m i" "\<And>j. ofs \<le> j \<Longrightarrow> j < i \<Longrightarrow> \<not> m j"
  shows "find_next_bit m sz ofs = i"
proof -
  let ?f = "find_next_bit m sz ofs"
  have le: "?f \<le> i" using assms(1-3) by (rule find_next_bit_hit)
  moreover have "ofs \<le> ?f" using assms(1,2) by (intro find_next_bit_ge) simp
  moreover have "m ?f" using le assms(2) find_next_bit_set [of m sz ofs] by simp
  ultimately show ?thesis using assms(4) [of ?f] by (auto simp: le_less)
qed

lemma find_next_bit_none:
  assumes "\<And>j. ofs \<le> j \<Longrightarrow> j < sz \<Longrightarrow> \<not> m j"
  shows "find_next_bit m sz ofs = sz"
proof (cases "ofs \<le> sz")
  case True
  then have "ofs \<le> find_next_bit m sz ofs" by (rule find_next_bit_ge)
  then show ?thesis using assms find_next_bit_set [of m sz ofs] find_next_bit_le [of m sz ofs] by (auto simp: le_less)
qed (simp add: find_next_bit.simps)

lemma find_next_bit_skip:
  assumes "ofs \<le> ofs'" "\<And>j. ofs \<le> j \<Longrightarrow> j < ofs' \<Longrightarrow> \<not> m j"
  shows "find_next_bit m sz ofs = find_next_bit m sz ofs'"
proof (cases "find_next_bit m sz ofs' < sz \<and> ofs' \<le> sz")
  case True
  then show ?thesis
    using assms find_next_bit_ge [of ofs' sz m] find_next_bit_first [of ofs' _ m sz] find_next_bit_set [of m sz ofs']
    by (intro find_next_bit_eqI) (auto, meson not_less)
next
  case False
  moreover have "find_next_bit m sz ofs' = sz" if "\<not> ofs' \<le> sz" using that by (simp add: find_next_bit.simps)
  ultimately have e: "find_next_bit m sz ofs' = sz" using find_next_bit_le [of m sz ofs'] by auto
  have "\<not> m j" if "ofs \<le> j" "j < sz" for j
    using assms(2) [OF that(1)] find_next_bit_first [of ofs' j m sz] that e by (cases "j < ofs'") auto
  then show ?thesis unfolding e by (rule find_next_bit_none)
qed

lemmas find_next_zero_bit_le = find_next_bit_le [of "\<lambda>i. \<not> m i" for m, folded find_next_zero_bit_def]

lemma find_next_zero_bit_clear:
  "find_next_zero_bit m sz ofs < sz \<Longrightarrow> \<not> m (find_next_zero_bit m sz ofs)"
  using find_next_bit_set unfolding find_next_zero_bit_def by blast

lemma find_next_zero_bit_hit:
  "ofs \<le> i \<Longrightarrow> i < sz \<Longrightarrow> \<not> m i \<Longrightarrow> find_next_zero_bit m sz ofs \<le> i"
  unfolding find_next_zero_bit_def by (rule find_next_bit_hit)

subsection \<open>Counting the bits of a bitmap\<close>

definition zero_bits :: "bitmap \<Rightarrow> nat \<Rightarrow> nat set" where
  "zero_bits m n = {i. i < n \<and> \<not> m i}"

lemma in_zero_bits: "i \<in> zero_bits m n \<longleftrightarrow> i < n \<and> \<not> m i"
  by (simp add: zero_bits_def)

lemma finite_zero_bits [simp]: "finite (zero_bits m n)"
  by (simp add: zero_bits_def)

lemma zero_bits_set: "i < n \<Longrightarrow> \<not> m i \<Longrightarrow> zero_bits (m(i := True)) n = zero_bits m n - {i}"
  by (auto simp: zero_bits_def)

lemma zero_bits_clear: "i < n \<Longrightarrow> zero_bits (m(i := False)) n = insert i (zero_bits m n)"
  by (auto simp: zero_bits_def)

lemma card_zero_bits_set:
  "i < n \<Longrightarrow> \<not> m i \<Longrightarrow> card (zero_bits (m(i := True)) n) = card (zero_bits m n) - 1"
  by (subst zero_bits_set) (auto simp: zero_bits_def intro!: card_Diff_singleton)

lemma card_zero_bits_clear:
  "i < n \<Longrightarrow> m i \<Longrightarrow> card (zero_bits (m(i := False)) n) = Suc (card (zero_bits m n))"
  by (simp add: zero_bits_clear card_insert_if) (simp add: zero_bits_def)

lemma card_zero_bits_le: "card (zero_bits m n) \<le> n"
  using card_mono [of "{..<n}" "zero_bits m n"] by (auto simp: zero_bits_def)

end
