(* ===== verification/Nvm_Mpt.thy ===== *)
theory Nvm_Mpt
  imports Prelude
begin

text \<open>
  The NVM side of the file system: the on-media NVM super block, the in-memory
  \<open>nvm_sb_info\<close> and the entries of the mapping table (MPT), from \<open>src/nvm.h\<close>.

  An MPT entry is an \<open>unsigned int\<close>: the low three bits are the flags \<open>rw_map\<close>,
  \<open>rw_redirect\<close>, \<open>rw_double\<close>, the upper 29 bits the segment offset on the other device.
  The index range \<open>[0, main_segment_nums)\<close> holds the NVM-to-SSD entries and the range from
  \<open>main_segment_nums\<close> on the SSD-to-NVM entries.
\<close>

subsection \<open>Constants\<close>

abbreviation (input) MAIN_OFFSET :: nat where "MAIN_OFFSET \<equiv> 2"
abbreviation (input) NVM_NSB_DIRTY :: u16 where "NVM_NSB_DIRTY \<equiv> 1"
abbreviation (input) NVM_FIRST_MOUNR :: u16 where "NVM_FIRST_MOUNR \<equiv> 2"
abbreviation (input) LFU_LEVELS :: nat where "LFU_LEVELS \<equiv> 4"
abbreviation (input) NVM_LIMIT_FREE :: nat where "NVM_LIMIT_FREE \<equiv> 5"

abbreviation (input) rw_map :: u32 where "rw_map \<equiv> 1"
abbreviation (input) rw_redirect :: u32 where "rw_redirect \<equiv> 2"
abbreviation (input) rw_double :: u32 where "rw_double \<equiv> 4"
abbreviation (input) rw_bits :: nat where "rw_bits \<equiv> 3"

text \<open>\<open>F2FS_BLKSIZE / sizeof(unsigned int)\<close>, the entries of one MPT page.\<close>

abbreviation (input) entries_per_blk :: nat where "entries_per_blk \<equiv> 1024"

text \<open>The error codes of \<open>nvm.h\<close>, and \<open>EBUG\<close> for a failed \<open>nvm_assert\<close> or \<open>f2fs_bug_on\<close>.\<close>

datatype nvm_err = ELITTLESPACE | ENOHOT | ENVMNOSPACE | ENOCOLD | EBUG

subsection \<open>State\<close>

record heap_node =
  count :: nat
  seg_off :: nat

record max_heap =
  nodes :: "heap_node carray"
  cur_num :: nat
  k :: nat
  max_count :: nat

record min_heap =
  mnodes :: "heap_node carray"
  mcur_num :: nat
  mk :: nat
  min_count :: nat

record nvm_super_block =
  uuid :: "u8 list"
  mpt_blkaddr :: nat
  ra_blkaddr :: nat
  main_blkaddr :: nat
  lfu_blkaddr0 :: nat
  lfu_blkaddr1 :: nat
  ra_blk_nums :: nat
  main_first_segno :: nat
  main_segment_nums :: nat
  main_segment_free_nums :: nat
  mpt_ver_map_bits :: nat
  mpt_entries :: nat

record nvm_sb_info =
  nsb :: nvm_super_block
  nvm_flag :: u16
  mpt :: "u32 carray"
  mpt_dirty_map :: bitmap
  mpt_dirty_map_bits :: nat
  mpt_ver_map :: bitmap
  segment_map :: bitmap
  ckpt_segment_map :: bitmap
  cur_alloc_nvm_segoff :: nat
  now_lfu_counter :: nat
  lfu_count :: "int carray carray"
  mh :: max_heap
  minh :: min_heap

subsection \<open>MPT entries\<close>

definition set_mpt_entry :: "nvm_sb_info \<Rightarrow> nat \<Rightarrow> nat \<Rightarrow> u32 \<Rightarrow> nvm_sb_info" where
  "set_mpt_entry nsbi index offset rw_flag =
     nsbi\<lparr>mpt := (mpt nsbi)(index := (push_bit rw_bits (of_nat offset) OR rw_flag))\<rparr>"

definition get_mpt_entry :: "nvm_sb_info \<Rightarrow> nat \<Rightarrow> u32" where
  "get_mpt_entry nsbi index = mpt nsbi index"

definition get_mpt_value :: "nvm_sb_info \<Rightarrow> nat \<Rightarrow> nat" where
  "get_mpt_value nsbi index = unat (drop_bit rw_bits (mpt nsbi index))"

definition get_map_flag :: "nvm_sb_info \<Rightarrow> nat \<Rightarrow> u32" where
  "get_map_flag nsbi index = mpt nsbi index AND rw_map"

definition set_map_flag :: "nvm_sb_info \<Rightarrow> nat \<Rightarrow> nvm_sb_info" where
  "set_map_flag nsbi index = nsbi\<lparr>mpt := (mpt nsbi)(index := mpt nsbi index OR rw_map)\<rparr>"

definition get_redirect_flag :: "nvm_sb_info \<Rightarrow> nat \<Rightarrow> u32" where
  "get_redirect_flag nsbi index = mpt nsbi index AND rw_redirect"

definition set_redirect_flag :: "nvm_sb_info \<Rightarrow> nat \<Rightarrow> nvm_sb_info" where
  "set_redirect_flag nsbi index = nsbi\<lparr>mpt := (mpt nsbi)(index := mpt nsbi index OR rw_redirect)\<rparr>"

definition clear_redirect_flag :: "nvm_sb_info \<Rightarrow> nat \<Rightarrow> nvm_sb_info" where
  "clear_redirect_flag nsbi index =
     (let low = mpt nsbi index AND (rw_redirect - 1)
      in nsbi\<lparr>mpt := (mpt nsbi)(index :=
           (push_bit (unat rw_redirect) (drop_bit (unat rw_redirect) (mpt nsbi index)) OR low))\<rparr>)"

definition get_double_flag :: "nvm_sb_info \<Rightarrow> nat \<Rightarrow> u32" where
  "get_double_flag nsbi index = mpt nsbi index AND rw_double"

definition set_double_flag :: "nvm_sb_info \<Rightarrow> nat \<Rightarrow> nvm_sb_info" where
  "set_double_flag nsbi index = nsbi\<lparr>mpt := (mpt nsbi)(index := mpt nsbi index OR rw_double)\<rparr>"

definition clear_double_flag :: "nvm_sb_info \<Rightarrow> nat \<Rightarrow> nvm_sb_info" where
  "clear_double_flag nsbi index =
     (let low = mpt nsbi index AND (rw_double - 1)
      in nsbi\<lparr>mpt := (mpt nsbi)(index :=
           (push_bit (unat rw_double) (drop_bit (unat rw_double) (mpt nsbi index)) OR low))\<rparr>)"

definition clear_map :: "nvm_sb_info \<Rightarrow> nat \<Rightarrow> nvm_sb_info" where
  "clear_map nsbi index = nsbi\<lparr>mpt := (mpt nsbi)(index := 0)\<rparr>"

lemmas mpt_ops = set_mpt_entry_def get_mpt_entry_def get_mpt_value_def get_map_flag_def
  set_map_flag_def get_redirect_flag_def set_redirect_flag_def clear_redirect_flag_def
  get_double_flag_def set_double_flag_def clear_double_flag_def clear_map_def

subsection \<open>Free space and heap resets\<close>

text \<open>The comparison is made on \<open>__le32\<close> values, so the product is a 32-bit one.\<close>

definition has_not_enough_free_nvm_secs :: "nvm_sb_info \<Rightarrow> bool" where
  "has_not_enough_free_nvm_secs nsbi \<longleftrightarrow>
     main_segment_free_nums (nsb nsbi)
       < (main_segment_nums (nsb nsbi) * NVM_LIMIT_FREE) mod 4294967296 div 100"

definition reset_max_heap :: "max_heap \<Rightarrow> max_heap" where
  "reset_max_heap h = h\<lparr>cur_num := 0\<rparr>"

definition reset_min_heap :: "min_heap \<Rightarrow> min_heap" where
  "reset_min_heap h = h\<lparr>mcur_num := 0\<rparr>"

subsection \<open>Checkpoint flags of the double-version NVM areas\<close>

abbreviation (input) CP_NSB_VER_FLAG :: u32 where "CP_NSB_VER_FLAG \<equiv> 4096"
abbreviation (input) CP_LFU_VER_FLAG :: u32 where "CP_LFU_VER_FLAG \<equiv> 65536"

definition nvm_switch_nsb_version :: "u32 \<Rightarrow> u32" where
  "nvm_switch_nsb_version ckpt_flags = ckpt_flags XOR CP_NSB_VER_FLAG"

definition nvm_switch_lfu_version :: "u32 \<Rightarrow> u32" where
  "nvm_switch_lfu_version ckpt_flags = ckpt_flags XOR CP_LFU_VER_FLAG"

subsection \<open>Entries bit by bit\<close>

definition mapped :: "nvm_sb_info \<Rightarrow> nat \<Rightarrow> bool" where
  "mapped nsbi i \<longleftrightarrow> get_map_flag nsbi i \<noteq> 0"

lemma and_bit0_iff: "(w :: u32) AND 1 \<noteq> 0 \<longleftrightarrow> bit w 0"
  by (simp add: and_one_eq odd_iff_mod_2_eq_one bit_0)

lemma and_exp_iff: "(w :: u32) AND 2 ^ n \<noteq> 0 \<longleftrightarrow> bit w n"
proof -
  have "w AND 2 ^ n = (if bit w n then 2 ^ n else 0)"
    by (rule bit_eqI) (auto simp: bit_and_iff bit_exp_iff)
  moreover have "bit w n \<Longrightarrow> (2 :: u32) ^ n \<noteq> 0"
    using bit_imp_le_length [of w n] by auto
  ultimately show ?thesis by auto
qed

lemma redirect_iff: "get_redirect_flag nsbi i \<noteq> 0 \<longleftrightarrow> bit (mpt nsbi i) 1"
  using and_exp_iff [of "mpt nsbi i" 1] by (simp add: get_redirect_flag_def)

lemma double_iff: "get_double_flag nsbi i \<noteq> 0 \<longleftrightarrow> bit (mpt nsbi i) 2"
  using and_exp_iff [of "mpt nsbi i" 2] by (simp add: get_double_flag_def)

lemma mapped_iff: "mapped nsbi i \<longleftrightarrow> bit (mpt nsbi i) 0"
  by (simp add: mapped_def get_map_flag_def and_bit0_iff)

lemmas flag_iffs = redirect_iff double_iff mapped_iff

lemma bit_push_drop: "bit (push_bit m (drop_bit m (w :: u32))) n \<longleftrightarrow> m \<le> n \<and> bit w n"
  by (auto simp: bit_push_bit_iff bit_drop_bit_eq dest: bit_imp_le_length)

lemma entry_value:
  assumes "offset < 2 ^ 29" and "f < 8"
  shows "unat (drop_bit rw_bits (push_bit rw_bits (of_nat offset) OR (f :: u32))) = offset"
proof -
  have off: "unat (of_nat offset :: u32) = offset"
    using assms(1) by (simp add: unat_of_nat)
  have sh: "unat (push_bit 3 (of_nat offset :: u32)) = push_bit 3 offset"
    using assms(1) by (simp add: push_bit_eq_mult unat_word_ariths off)
  have "unat f < 8" using assms(2) by (simp add: word_less_nat_alt)
  then have "drop_bit 3 (unat f) = 0" by (simp add: drop_bit_eq_div)
  moreover have "drop_bit 3 (push_bit 3 offset) = offset" by (simp add: drop_bit_eq_div push_bit_eq_mult)
  ultimately show ?thesis by (simp add: unat_drop_bit_eq unsigned_or_eq sh drop_bit_or)
qed

lemma entry_flag: "(push_bit rw_bits w OR f) AND (m :: u32) = (f AND m)" if "m < 8"
proof (rule bit_eqI)
  fix n
  have "n < 3" if "bit m n"
  proof (rule ccontr)
    assume "\<not> n < 3"
    then have "(8 :: nat) \<le> 2 ^ n" using power_increasing [of 3 n "2 :: nat"] by simp
    moreover have "unat m < 8" using \<open>m < 8\<close> by (simp add: word_less_nat_alt)
    ultimately have "\<not> bit (unat m) n" by (simp add: bit_iff_odd)
    with \<open>bit m n\<close> show False by (simp add: bit_unsigned_iff)
  qed
  then show "bit ((push_bit rw_bits w OR f) AND m) n = bit (f AND m) n"
    by (auto simp: bit_and_iff bit_or_iff bit_push_bit_iff)
qed

lemmas entry_flags = entry_flag [where m = 1, simplified] entry_flag [where m = 2, simplified]
  entry_flag [where m = 4, simplified]

text \<open>An \<open>nvm_sb_info\<close> as \<open>kzalloc\<close> leaves it: every field zero.\<close>

definition zero_nsb :: nvm_super_block where
  "zero_nsb = \<lparr>uuid = replicate 16 0, mpt_blkaddr = 0, ra_blkaddr = 0, main_blkaddr = 0,
     lfu_blkaddr0 = 0, lfu_blkaddr1 = 0, ra_blk_nums = 0, main_first_segno = 0,
     main_segment_nums = 0, main_segment_free_nums = 0, mpt_ver_map_bits = 0, mpt_entries = 0\<rparr>"

definition zero_nsbi :: nvm_sb_info where
  "zero_nsbi = \<lparr>nsb = zero_nsb, nvm_flag = 0, mpt = (\<lambda>_. 0), mpt_dirty_map = (\<lambda>_. False),
     mpt_dirty_map_bits = 0, mpt_ver_map = (\<lambda>_. False), segment_map = (\<lambda>_. False),
     ckpt_segment_map = (\<lambda>_. False), cur_alloc_nvm_segoff = 0, now_lfu_counter = 0,
     lfu_count = (\<lambda>_ _. 0),
     mh = \<lparr>nodes = (\<lambda>_. \<lparr>count = 0, seg_off = 0\<rparr>), cur_num = 0, k = 0, max_count = 0\<rparr>,
     minh = \<lparr>mnodes = (\<lambda>_. \<lparr>count = 0, seg_off = 0\<rparr>), mcur_num = 0, mk = 0, min_count = 0\<rparr>\<rparr>"

subsection \<open>Properties of the entries\<close>

text \<open>
  \<open>set_mpt_entry\<close> packs an offset of at most 29 bits and three flags without loss: the
  getters read the offset and each flag back, and no other entry changes.
\<close>

lemma mpt_entry_roundtrip:
  assumes "offset < 2 ^ 29" and "f < 8"
  shows "get_mpt_value (set_mpt_entry nsbi i offset f) i = offset
    \<and> get_map_flag (set_mpt_entry nsbi i offset f) i = f AND rw_map
    \<and> get_redirect_flag (set_mpt_entry nsbi i offset f) i = f AND rw_redirect
    \<and> get_double_flag (set_mpt_entry nsbi i offset f) i = f AND rw_double
    \<and> (\<forall>j. j \<noteq> i \<longrightarrow> get_mpt_entry (set_mpt_entry nsbi i offset f) j = get_mpt_entry nsbi j)"
  using entry_value [OF assms] by (simp add: mpt_ops entry_flags)

text \<open>
  \<open>clear_redirect_flag\<close> clears the redirect bit and nothing else: the entry afterwards is
  the entry before with the bit \<open>rw_redirect\<close> masked out, at every other index unchanged.
\<close>

lemma clear_redirect_exact:
  "get_mpt_entry (clear_redirect_flag nsbi i) j =
     (if j = i then get_mpt_entry nsbi i AND NOT rw_redirect else get_mpt_entry nsbi j)"
proof -
  have "push_bit 2 (drop_bit 2 w) OR (w AND 1) = w AND NOT 2" for w :: u32
  proof (rule bit_eqI)
    fix n assume "possible_bit TYPE(u32) n"
    then have n: "n < 32" by simp
    have "bit (2 :: u32) n \<longleftrightarrow> n = 1" using n bit_exp_iff [of 1 n, where ?'a = u32] by auto
    with n have "bit (w AND NOT 2) n \<longleftrightarrow> bit w n \<and> n \<noteq> 1"
      unfolding bit_and_iff bit_not_iff by simp
    also have "\<dots> \<longleftrightarrow> bit (push_bit 2 (drop_bit 2 w) OR (w AND 1)) n"
      unfolding bit_or_iff bit_and_iff bit_push_drop bit_1_iff
      by (cases "n = 0"; cases "n = 1") auto
    finally show "bit (push_bit 2 (drop_bit 2 w) OR (w AND 1)) n = bit (w AND NOT 2) n" by (rule sym)
  qed
  then show ?thesis by (simp add: mpt_ops)
qed

text \<open>
  C21. \<open>clear_double_flag\<close> shifts by the flag's value (4) where its position (2) is meant: it
  also clears bit 3, the lowest bit of the offset, so an odd offset \<open>v\<close> becomes \<open>v - 1\<close>.
\<close>

theorem clear_double_corrupts_value:
  "get_mpt_value (clear_double_flag nsbi i) i = 2 * (get_mpt_value nsbi i div 2)"
proof -
  let ?u = "unat (mpt nsbi i)"
  have "2 * (?u div 16) * 8 < 2 ^ 32" using unsigned_less [of "mpt nsbi i", where ?'a = nat] by simp
  then have hi: "unat (push_bit 4 (drop_bit 4 (mpt nsbi i))) = 16 * (?u div 16)"
    by (simp add: push_bit_eq_mult unat_word_ariths unat_drop_bit_eq drop_bit_eq_div)
  have "?u AND 3 = ?u mod 4"
    using take_bit_eq_mask [of 2 ?u] by (simp add: take_bit_eq_mod mask_eq_exp_minus_1)
  then have "?u AND 3 < 8" using mod_less_divisor [of 4 ?u] by linarith
  then have "drop_bit 3 (?u AND 3) = 0" by (simp add: drop_bit_eq_div)
  then have "get_mpt_value (clear_double_flag nsbi i) i = 2 * (?u div 16)"
    by (simp add: mpt_ops unat_drop_bit_eq unsigned_or_eq unsigned_and_eq hi drop_bit_or)
      (simp add: drop_bit_eq_div)
  then show ?thesis by (simp add: get_mpt_value_def drop_bit_eq_div unat_div div_mult2_eq [symmetric])
qed

end
