(* ===== verification/Nvm_Alloc.thy ===== *)
theory Nvm_Alloc
  imports Nvm_Mpt
begin

text \<open>
  Allocation of NVM segments and the mapping between SSD and NVM segments, from
  \<open>src/nvm.c\<close> (\<open>nvm_allocate_segment\<close>, \<open>create_mapping\<close>, \<open>unset_mapping\<close>,
  \<open>nvm_set_ckpt_segment_map\<close>) and \<open>src/gc_nvm.c\<close> (\<open>set_double\<close>).

  Every operation runs under \<open>segment_map_lock\<close> or \<open>mpt_lock\<close> and is one step of the model.
  The invariant \<open>mpt_wf\<close> says that the two halves of the table are inverse to each other, that
  every mapped NVM segment is marked in \<open>segment_map\<close> and that the free counter counts the
  clear bits. The interface \<open>seg_mapping\<close> states what the clients of the table rely on.
\<close>

subsection \<open>Operations\<close>

definition set_dirty :: "nvm_sb_info \<Rightarrow> nat \<Rightarrow> nvm_sb_info" where
  "set_dirty nsbi i = nsbi\<lparr>mpt_dirty_map := (mpt_dirty_map nsbi)(i div entries_per_blk := True)\<rparr>"

definition create_mapping :: "nvm_sb_info \<Rightarrow> nat \<Rightarrow> nat \<Rightarrow> u32 \<Rightarrow> nvm_sb_info" where
  "create_mapping nsbi ssd_segoff nvm_segoff rw_flag =
     (let n = main_segment_nums (nsb nsbi);
          nsbi1 = set_mpt_entry nsbi nvm_segoff ssd_segoff rw_flag;
          nsbi2 = set_mpt_entry nsbi1 (n + ssd_segoff) nvm_segoff rw_flag;
          nsbi3 = set_dirty nsbi2 nvm_segoff
      in set_dirty nsbi3 (n + ssd_segoff))"

text \<open>
  The search behind the label \<open>next\<close>: it restarts at 0 when it reaches the end of the map, so
  with no clear bit and a positive free counter it would never return (\<open>None\<close>).
\<close>

partial_function (option) alloc_next :: "nvm_sb_info \<Rightarrow> nat \<Rightarrow> (nvm_err + nat) option" where
  "alloc_next nsbi nvm_segoff =
     (let s = find_next_zero_bit (segment_map nsbi) (main_segment_nums (nsb nsbi)) nvm_segoff
      in if main_segment_nums (nsb nsbi) \<le> s
         then (if main_segment_free_nums (nsb nsbi) > 0 then alloc_next nsbi 0 else Some (Inl EBUG))
         else Some (Inr s))"

declare alloc_next.simps [code]

text \<open>\<open>test_and_set_bit\<close> on \<open>segment_map\<close> with the counter and dirty flag it guards.\<close>

definition take_segment :: "nvm_sb_info \<Rightarrow> nat \<Rightarrow> nvm_sb_info" where
  "take_segment nsbi s =
     (if \<not> segment_map nsbi s
      then nsbi\<lparr>segment_map := (segment_map nsbi)(s := True),
                nsb := (nsb nsbi)\<lparr>main_segment_free_nums := main_segment_free_nums (nsb nsbi) - 1\<rparr>,
                nvm_flag := nvm_flag nsbi OR NVM_NSB_DIRTY\<rparr>
      else nsbi)"

definition nvm_allocate_segment ::
  "nvm_sb_info \<Rightarrow> nat \<Rightarrow> bool \<Rightarrow> ((nvm_err + nat) \<times> nvm_sb_info) option" where
  "nvm_allocate_segment nsbi ssd_segoff is_create_mapping =
     (if main_segment_free_nums (nsb nsbi) = 0 then Some (Inl ENVMNOSPACE, nsbi)
      else if \<not> main_segment_free_nums (nsb nsbi) \<le> main_segment_nums (nsb nsbi)
      then Some (Inl EBUG, nsbi)
      else case alloc_next nsbi (cur_alloc_nvm_segoff nsbi) of
        None \<Rightarrow> None
      | Some (Inl e) \<Rightarrow> Some (Inl e, nsbi)
      | Some (Inr s) \<Rightarrow>
          (let nsbi1 = take_segment nsbi s;
               nsbi2 = nsbi1\<lparr>cur_alloc_nvm_segoff := s + 1\<rparr>;
               nsbi3 = (if is_create_mapping
                        then create_mapping nsbi2 ssd_segoff s (rw_map OR rw_redirect) else nsbi2)
           in Some (Inr s, nsbi3)))"

text \<open>Giving an NVM segment back (\<open>clear_bit\<close> and the counter), under \<open>segment_map_lock\<close>.\<close>

definition release_segment :: "nvm_sb_info \<Rightarrow> nat \<Rightarrow> nvm_sb_info" where
  "release_segment nsbi s =
     nsbi\<lparr>segment_map := (segment_map nsbi)(s := False),
          nsb := (nsb nsbi)\<lparr>main_segment_free_nums := main_segment_free_nums (nsb nsbi) + 1\<rparr>\<rparr>"

definition unset_mapping :: "nvm_sb_info \<Rightarrow> nat \<Rightarrow> nvm_sb_info" where
  "unset_mapping nsbi ssd_segno =
     (let ssd_offset = ssd_segno + main_segment_nums (nsb nsbi)
      in if get_map_flag nsbi ssd_offset \<noteq> 0
         then (let nvm_offset = get_mpt_value nsbi ssd_offset;
                   nsbi1 = clear_map nsbi ssd_offset;
                   nsbi2 = clear_map nsbi1 nvm_offset;
                   nsbi3 = set_dirty nsbi2 ssd_offset;
                   nsbi4 = set_dirty nsbi3 nvm_offset
               in release_segment nsbi4 nvm_offset)
         else nsbi)"

definition set_double :: "nvm_sb_info \<Rightarrow> nat \<Rightarrow> nvm_sb_info" where
  "set_double nsbi ssd_segno =
     (let ssd_offset = ssd_segno + main_segment_nums (nsb nsbi)
      in if get_map_flag nsbi ssd_offset \<noteq> 0
         then (let nvm_offset = get_mpt_value nsbi ssd_offset;
                   nsbi1 = set_double_flag nsbi ssd_offset;
                   nsbi2 = set_double_flag nsbi1 nvm_offset;
                   nsbi3 = set_dirty nsbi2 ssd_offset
               in set_dirty nsbi3 nvm_offset)
         else nsbi)"

text \<open>Bytes of a bitmap of \<open>n\<close> bits: \<open>(n - 1) / BITS_PER_BYTE + 1\<close> on \<open>unsigned int\<close>.\<close>

definition map_bytes :: "nat \<Rightarrow> nat" where
  "map_bytes n = (n + 4294967295) mod 4294967296 div 8 + 1"

definition nvm_set_ckpt_segment_map :: "nvm_sb_info \<Rightarrow> nvm_sb_info" where
  "nvm_set_ckpt_segment_map nsbi =
     nsbi\<lparr>ckpt_segment_map := (\<lambda>i. if i < 8 * map_bytes (main_segment_nums (nsb nsbi))
                                  then segment_map nsbi i else ckpt_segment_map nsbi i)\<rparr>"

subsection \<open>The invariant and the abstract mapping\<close>

abbreviation nvm_segs :: "nvm_sb_info \<Rightarrow> nat" where
  "nvm_segs nsbi \<equiv> main_segment_nums (nsb nsbi)"

abbreviation free_segs :: "nvm_sb_info \<Rightarrow> nat" where
  "free_segs nsbi \<equiv> main_segment_free_nums (nsb nsbi)"

definition nvm_to_ssd_wf :: "nat \<Rightarrow> nvm_sb_info \<Rightarrow> bool" where
  "nvm_to_ssd_wf S nsbi \<longleftrightarrow>
     (\<forall>n < nvm_segs nsbi. mapped nsbi n \<longrightarrow>
        get_mpt_value nsbi n < S \<and> mapped nsbi (nvm_segs nsbi + get_mpt_value nsbi n)
        \<and> get_mpt_value nsbi (nvm_segs nsbi + get_mpt_value nsbi n) = n \<and> segment_map nsbi n)"

definition ssd_to_nvm_wf :: "nat \<Rightarrow> nvm_sb_info \<Rightarrow> bool" where
  "ssd_to_nvm_wf S nsbi \<longleftrightarrow>
     (\<forall>s < S. mapped nsbi (nvm_segs nsbi + s) \<longrightarrow>
        get_mpt_value nsbi (nvm_segs nsbi + s) < nvm_segs nsbi
        \<and> mapped nsbi (get_mpt_value nsbi (nvm_segs nsbi + s))
        \<and> get_mpt_value nsbi (get_mpt_value nsbi (nvm_segs nsbi + s)) = s)"

definition mpt_wf :: "nat \<Rightarrow> nvm_sb_info \<Rightarrow> bool" where
  "mpt_wf S nsbi \<longleftrightarrow> nvm_segs nsbi + S \<le> 2 ^ 29
     \<and> nvm_to_ssd_wf S nsbi \<and> ssd_to_nvm_wf S nsbi
     \<and> free_segs nsbi = card (zero_bits (segment_map nsbi) (nvm_segs nsbi))"

text \<open>The mapping as the redirection uses it: the NVM segment that shadows an SSD segment.\<close>

definition nvm_of :: "nat \<Rightarrow> nvm_sb_info \<Rightarrow> nat \<rightharpoonup> nat" where
  "nvm_of S nsbi s =
     (if s < S \<and> mapped nsbi (nvm_segs nsbi + s) then Some (get_mpt_value nsbi (nvm_segs nsbi + s))
      else None)"

text \<open>An NVM segment that is allocated but maps to nothing yet: the only legal target of a mapping.\<close>

definition bindable :: "nvm_sb_info \<Rightarrow> nat \<Rightarrow> bool" where
  "bindable nsbi n \<longleftrightarrow> n < nvm_segs nsbi \<and> segment_map nsbi n \<and> \<not> mapped nsbi n"

subsection \<open>Frame facts\<close>

lemma set_dirty_frame [simp]:
  "mpt (set_dirty nsbi i) = mpt nsbi" "segment_map (set_dirty nsbi i) = segment_map nsbi"
  "nsb (set_dirty nsbi i) = nsb nsbi" "mapped (set_dirty nsbi i) = mapped nsbi"
  "get_mpt_value (set_dirty nsbi i) = get_mpt_value nsbi"
  by (simp_all add: set_dirty_def mapped_def get_map_flag_def get_mpt_value_def fun_eq_iff)

lemma set_mpt_entry_frame [simp]:
  "segment_map (set_mpt_entry nsbi i v f) = segment_map nsbi" "nsb (set_mpt_entry nsbi i v f) = nsb nsbi"
  by (simp_all add: set_mpt_entry_def)

lemma mapped_set_mpt_entry [simp]:
  "mapped (set_mpt_entry nsbi i v f) j = (if j = i then f AND 1 \<noteq> 0 else mapped nsbi j)"
  by (simp add: mapped_def mpt_ops entry_flags)

lemma value_set_mpt_entry [simp]:
  "v < 2 ^ 29 \<Longrightarrow> f < 8 \<Longrightarrow>
   get_mpt_value (set_mpt_entry nsbi i v f) j = (if j = i then v else get_mpt_value nsbi j)"
  using entry_value [of v f] by (simp add: mpt_ops)

lemma clear_map_frame [simp]:
  "segment_map (clear_map nsbi i) = segment_map nsbi" "nsb (clear_map nsbi i) = nsb nsbi"
  "mapped (clear_map nsbi i) j = (j \<noteq> i \<and> mapped nsbi j)"
  "j \<noteq> i \<Longrightarrow> get_mpt_value (clear_map nsbi i) j = get_mpt_value nsbi j"
  by (simp_all add: mpt_ops mapped_def)

lemma release_segment_frame [simp]:
  "mpt (release_segment nsbi s) = mpt nsbi" "nvm_segs (release_segment nsbi s) = nvm_segs nsbi"
  "mapped (release_segment nsbi s) = mapped nsbi"
  "get_mpt_value (release_segment nsbi s) = get_mpt_value nsbi"
  "segment_map (release_segment nsbi s) = (segment_map nsbi)(s := False)"
  "free_segs (release_segment nsbi s) = Suc (free_segs nsbi)"
  by (simp_all add: release_segment_def mapped_def get_map_flag_def get_mpt_value_def fun_eq_iff)

lemma set_double_flag_frame [simp]:
  "segment_map (set_double_flag nsbi i) = segment_map nsbi" "nsb (set_double_flag nsbi i) = nsb nsbi"
  "mapped (set_double_flag nsbi i) = mapped nsbi"
  by (auto simp: set_double_flag_def mapped_iff fun_eq_iff bit_or_iff)

lemma value_set_double_flag [simp]:
  "get_mpt_value (set_double_flag nsbi i) = get_mpt_value nsbi"
proof
  fix j
  have "drop_bit 3 (4 :: u32) = 0" by simp
  then show "get_mpt_value (set_double_flag nsbi i) j = get_mpt_value nsbi j"
    by (simp add: mpt_ops drop_bit_or)
qed

lemma take_segment_frame [simp]:
  "mpt (take_segment nsbi s) = mpt nsbi" "nvm_segs (take_segment nsbi s) = nvm_segs nsbi"
  "mapped (take_segment nsbi s) = mapped nsbi"
  "get_mpt_value (take_segment nsbi s) = get_mpt_value nsbi"
  by (simp_all add: take_segment_def mapped_def get_map_flag_def get_mpt_value_def fun_eq_iff)

lemma cur_alloc_frame [simp]:
  "mapped (nsbi\<lparr>cur_alloc_nvm_segoff := c\<rparr>) = mapped nsbi"
  "get_mpt_value (nsbi\<lparr>cur_alloc_nvm_segoff := c\<rparr>) = get_mpt_value nsbi"
  by (simp_all add: mapped_def get_map_flag_def get_mpt_value_def fun_eq_iff)

lemmas wf_defs = mpt_wf_def nvm_to_ssd_wf_def ssd_to_nvm_wf_def

subsection \<open>Preservation of the invariant\<close>

lemma mpt_wf_fields:
  assumes "nvm_segs nsbi' = nvm_segs nsbi" and "mapped nsbi' = mapped nsbi"
    and "get_mpt_value nsbi' = get_mpt_value nsbi"
    and "segment_map nsbi' = segment_map nsbi" and "free_segs nsbi' = free_segs nsbi"
  shows "mpt_wf S nsbi' = mpt_wf S nsbi"
  using assms by (simp add: wf_defs)

lemma create_mapping_frame [simp]:
  "nsb (create_mapping nsbi s n f) = nsb nsbi"
  "segment_map (create_mapping nsbi s n f) = segment_map nsbi"
  by (simp_all add: create_mapping_def Let_def)

lemma create_mapping_mapped:
  "mapped (create_mapping nsbi s n f) j =
     (if j = n \<or> j = nvm_segs nsbi + s then f AND 1 \<noteq> 0 else mapped nsbi j)"
  by (simp add: create_mapping_def Let_def)

lemma create_mapping_value:
  assumes "s < 2 ^ 29" and "n < nvm_segs nsbi" and "nvm_segs nsbi \<le> 2 ^ 29" and "f < 8"
  shows "get_mpt_value (create_mapping nsbi s n f) j =
     (if j = nvm_segs nsbi + s then n else if j = n then s else get_mpt_value nsbi j)"
  using assms by (simp add: create_mapping_def Let_def)

lemma create_mapping_wf:
  assumes wf: "mpt_wf S nsbi" and s: "s < S" "nvm_of S nsbi s = None" and n: "bindable nsbi n"
    and f: "f < 8" "f AND 1 \<noteq> 0"
  shows "mpt_wf S (create_mapping nsbi s n f)"
    and "nvm_of S (create_mapping nsbi s n f) = (nvm_of S nsbi)(s \<mapsto> n)"
proof -
  let ?N = "nvm_segs nsbi" and ?m = "create_mapping nsbi s n f"
  have b: "?N + S \<le> 2 ^ 29" "n < ?N" "\<not> mapped nsbi n" "segment_map nsbi n" "\<not> mapped nsbi (?N + s)"
    using wf n s by (auto simp: mpt_wf_def bindable_def nvm_of_def split: if_splits)
  have M: "mapped ?m j = (if j = n \<or> j = ?N + s then True else mapped nsbi j)"
    and V: "get_mpt_value ?m j = (if j = ?N + s then n else if j = n then s else get_mpt_value nsbi j)" for j
    using f b(1,2) s(1) by (simp_all add: create_mapping_mapped create_mapping_value)
  have bw: "mapped nsbi i \<Longrightarrow> i < ?N \<Longrightarrow> get_mpt_value nsbi i \<noteq> s" for i
    using wf b(5) by (auto simp: wf_defs)
  have fw: "mapped nsbi (?N + t) \<Longrightarrow> t < S \<Longrightarrow> get_mpt_value nsbi (?N + t) \<noteq> n" for t
    using wf b(3) by (auto simp: wf_defs)
  have "nvm_to_ssd_wf S ?m"
    unfolding nvm_to_ssd_wf_def create_mapping_frame
  proof (intro allI impI)
    fix i assume i: "i < ?N" "mapped ?m i"
    show "get_mpt_value ?m i < S \<and> mapped ?m (?N + get_mpt_value ?m i)
       \<and> get_mpt_value ?m (?N + get_mpt_value ?m i) = i \<and> segment_map nsbi i"
    proof (cases "i = n")
      case True
      with b s show ?thesis by (simp add: M V)
    next
      case False
      with i have "mapped nsbi i" by (simp add: M)
      with i False wf bw [of i] b(2) show ?thesis by (auto simp: M V wf_defs)
    qed
  qed
  moreover have "ssd_to_nvm_wf S ?m"
    unfolding ssd_to_nvm_wf_def create_mapping_frame
  proof (intro allI impI)
    fix t assume t: "t < S" "mapped ?m (?N + t)"
    show "get_mpt_value ?m (?N + t) < ?N \<and> mapped ?m (get_mpt_value ?m (?N + t))
       \<and> get_mpt_value ?m (get_mpt_value ?m (?N + t)) = t"
    proof (cases "t = s")
      case True
      with b show ?thesis by (simp add: M V)
    next
      case False
      with t b(2) have "mapped nsbi (?N + t)" by (simp add: M)
      with t False wf fw [of t] b(2) show ?thesis by (auto simp: M V wf_defs)
    qed
  qed
  ultimately show "mpt_wf S ?m" using wf by (simp add: mpt_wf_def)
  show "nvm_of S ?m = (nvm_of S nsbi)(s \<mapsto> n)"
    using b s by (auto simp: nvm_of_def M V fun_eq_iff)
qed

lemma nvm_of_inj:
  "mpt_wf S nsbi \<Longrightarrow> nvm_of S nsbi s = Some n \<Longrightarrow> nvm_of S nsbi t = Some n \<Longrightarrow> s = t"
  by (auto simp: nvm_of_def wf_defs split: if_splits) metis

lemma nvm_of_SomeD:
  assumes "mpt_wf S nsbi" and "nvm_of S nsbi s = Some n"
  shows "s < S" "n < nvm_segs nsbi" "mapped nsbi n" "get_mpt_value nsbi n = s" "segment_map nsbi n"
  using assms by (auto simp: nvm_of_def wf_defs split: if_splits)

lemma unset_mapping_None:
  "s < S \<Longrightarrow> nvm_of S nsbi s = None \<Longrightarrow> unset_mapping nsbi s = nsbi"
  by (simp add: unset_mapping_def nvm_of_def mapped_def Let_def add.commute split: if_splits)

lemma unset_mapping_Some:
  assumes "mpt_wf S nsbi" and "nvm_of S nsbi s = Some n"
  shows "mapped (unset_mapping nsbi s) j = (j \<noteq> n \<and> j \<noteq> nvm_segs nsbi + s \<and> mapped nsbi j)"
    and "j \<noteq> n \<Longrightarrow> j \<noteq> nvm_segs nsbi + s \<Longrightarrow> get_mpt_value (unset_mapping nsbi s) j = get_mpt_value nsbi j"
    and "segment_map (unset_mapping nsbi s) = (segment_map nsbi)(n := False)"
    and "free_segs (unset_mapping nsbi s) = Suc (free_segs nsbi)"
    and "nvm_segs (unset_mapping nsbi s) = nvm_segs nsbi"
  using assms
  by (auto simp: unset_mapping_def Let_def nvm_of_def mapped_def [symmetric] add.commute
      split: if_splits)

lemma unset_mapping_wf:
  assumes wf: "mpt_wf S nsbi" and s: "s < S"
  shows "mpt_wf S (unset_mapping nsbi s)"
    and "nvm_of S (unset_mapping nsbi s) = (nvm_of S nsbi)(s := None)"
proof -
  have "mpt_wf S (unset_mapping nsbi s)
      \<and> nvm_of S (unset_mapping nsbi s) = (nvm_of S nsbi)(s := None)"
  proof (cases "nvm_of S nsbi s")
    case None
    with wf s show ?thesis by (simp add: unset_mapping_None fun_upd_idem)
  next
    case (Some n)
    let ?N = "nvm_segs nsbi"
    note D = nvm_of_SomeD [OF wf Some] and U = unset_mapping_Some [OF wf Some]
    have V: "get_mpt_value nsbi (?N + s) = n" "mapped nsbi (?N + s)"
      using Some by (auto simp: nvm_of_def split: if_splits)
    have card: "Suc (free_segs nsbi) = card (zero_bits ((segment_map nsbi)(n := False)) ?N)"
      using wf D by (simp add: card_zero_bits_clear mpt_wf_def)
    have ns: "mapped nsbi i \<Longrightarrow> i < ?N \<Longrightarrow> i \<noteq> n \<Longrightarrow> get_mpt_value nsbi i \<noteq> s" for i
      using wf V by (auto simp: wf_defs)
    have sn: "mapped nsbi (?N + t) \<Longrightarrow> t < S \<Longrightarrow> t \<noteq> s \<Longrightarrow> get_mpt_value nsbi (?N + t) \<noteq> n" for t
      using wf D by (auto simp: wf_defs)
    have "mpt_wf S (unset_mapping nsbi s)"
      using wf D(2) ns sn s
      unfolding wf_defs U(3,4,5) card by (auto simp: U(1,2))
    moreover have "nvm_of S (unset_mapping nsbi s) = (nvm_of S nsbi)(s := None)"
      using D(2) by (auto simp: nvm_of_def U fun_eq_iff)
    ultimately show ?thesis by blast
  qed
  then show "mpt_wf S (unset_mapping nsbi s)"
    "nvm_of S (unset_mapping nsbi s) = (nvm_of S nsbi)(s := None)" by blast+
qed

lemma set_double_wf [simp]:
  "mpt_wf S (set_double nsbi s) = mpt_wf S nsbi" "nvm_of S (set_double nsbi s) = nvm_of S nsbi"
  by (simp_all add: set_double_def Let_def wf_defs nvm_of_def fun_eq_iff)

subsection \<open>Allocation\<close>

lemma alloc_next_here:
  "find_next_zero_bit (segment_map nsbi) (nvm_segs nsbi) c < nvm_segs nsbi \<Longrightarrow>
   alloc_next nsbi c = Some (Inr (find_next_zero_bit (segment_map nsbi) (nvm_segs nsbi) c))"
  by (subst alloc_next.simps) (simp add: Let_def)

text \<open>
  The first clear bit at or behind the cursor \<open>c\<close>, cyclically: no clear bit lies between the cursor
  and it. The search wraps around at most once when some bit is clear.
\<close>

definition first_clear :: "bitmap \<Rightarrow> nat \<Rightarrow> nat \<Rightarrow> nat \<Rightarrow> bool" where
  "first_clear m n c s \<longleftrightarrow> s < n \<and> \<not> m s
     \<and> (\<forall>i < n. \<not> m i \<longrightarrow> (if c \<le> s then i < c \<or> s \<le> i else s \<le> i \<and> i < c))"

lemma first_clear_here:
  assumes "find_next_zero_bit m n c < n"
  shows "first_clear m n c (find_next_zero_bit m n c)"
proof -
  have "c \<le> n" using assms by (auto simp: find_next_zero_bit_def find_next_bit.simps [of _ n c] split: if_splits)
  then have "c \<le> find_next_zero_bit m n c"
    using find_next_bit_ge [of c n "\<lambda>i. \<not> m i"] by (simp add: find_next_zero_bit_def)
  moreover have "i < c \<or> find_next_zero_bit m n c \<le> i" if "i < n" "\<not> m i" for i
    using find_next_zero_bit_hit [of c i n m] that by (cases "c \<le> i") simp_all
  ultimately show ?thesis
    using assms find_next_zero_bit_clear [of m n c] by (simp add: first_clear_def)
qed

lemma first_clear_wraps:
  assumes "n \<le> find_next_zero_bit m n c" and "find_next_zero_bit m n 0 < n"
  shows "first_clear m n c (find_next_zero_bit m n 0)"
proof -
  have above: "i < c" if "i < n" "\<not> m i" for i
    using find_next_zero_bit_hit [of c i n m] assms(1) that by (cases "c \<le> i") auto
  show ?thesis
    using first_clear_here [OF assms(2)] above by (auto simp: first_clear_def dest: leD)
qed

lemma alloc_next_finds:
  assumes "i < nvm_segs nsbi" and "\<not> segment_map nsbi i" and "0 < free_segs nsbi"
  obtains s where "alloc_next nsbi c = Some (Inr s)"
    and "first_clear (segment_map nsbi) (nvm_segs nsbi) c s"
proof -
  let ?f = "find_next_zero_bit (segment_map nsbi) (nvm_segs nsbi)"
  have z: "?f 0 < nvm_segs nsbi"
    using find_next_zero_bit_hit [of 0 i "nvm_segs nsbi" "segment_map nsbi"] assms by simp
  have "alloc_next nsbi c = Some (Inr (if ?f c < nvm_segs nsbi then ?f c else ?f 0))"
    using alloc_next_here [of nsbi c] alloc_next_here [OF z] assms(3)
    by (cases "?f c < nvm_segs nsbi") (simp_all add: alloc_next.simps [of nsbi c] Let_def)
  then show thesis
    using that z first_clear_here [of "segment_map nsbi" "nvm_segs nsbi" c] first_clear_wraps [OF _ z, of c]
    by (cases "?f c < nvm_segs nsbi") simp_all
qed

lemma take_segment_wf:
  assumes "mpt_wf S nsbi" and "s < nvm_segs nsbi" and "\<not> segment_map nsbi s"
  shows "mpt_wf S (take_segment nsbi s)" and "free_segs nsbi = Suc (free_segs (take_segment nsbi s))"
proof -
  have pos: "0 < card (zero_bits (segment_map nsbi) (nvm_segs nsbi))"
    using assms(2,3) by (auto simp: card_gt_0_iff zero_bits_def)
  with assms show "mpt_wf S (take_segment nsbi s)"
    unfolding wf_defs
    by (simp add: take_segment_def mapped_def get_map_flag_def get_mpt_value_def card_zero_bits_set)
  from pos assms show "free_segs nsbi = Suc (free_segs (take_segment nsbi s))"
    by (simp add: take_segment_def mpt_wf_def)
qed

lemma take_segment_bindable:
  "mpt_wf S nsbi \<Longrightarrow> s < nvm_segs nsbi \<Longrightarrow> \<not> segment_map nsbi s \<Longrightarrow> bindable (take_segment nsbi s) s"
  by (auto simp: bindable_def wf_defs) (simp add: take_segment_def)

lemma cur_alloc_wf [simp]:
  "mpt_wf S (nsbi\<lparr>cur_alloc_nvm_segoff := c\<rparr>) = mpt_wf S nsbi"
  "nvm_of S (nsbi\<lparr>cur_alloc_nvm_segoff := c\<rparr>) = nvm_of S nsbi"
  "bindable (nsbi\<lparr>cur_alloc_nvm_segoff := c\<rparr>) = bindable nsbi"
  by (simp_all add: wf_defs nvm_of_def bindable_def fun_eq_iff)

lemma take_segment_nvm_of [simp]: "nvm_of S (take_segment nsbi s) = nvm_of S nsbi"
  by (simp add: nvm_of_def fun_eq_iff)

definition took :: "nvm_sb_info \<Rightarrow> nat \<Rightarrow> nvm_sb_info" where
  "took nsbi s = (take_segment nsbi s)\<lparr>cur_alloc_nvm_segoff := s + 1\<rparr>"

lemma nvm_allocate_segment_unfold:
  assumes wf: "mpt_wf S nsbi" and free: "0 < free_segs nsbi"
  obtains s where "s < nvm_segs nsbi" "\<not> segment_map nsbi s" "\<not> mapped nsbi s"
    "first_clear (segment_map nsbi) (nvm_segs nsbi) (cur_alloc_nvm_segoff nsbi) s"
    "nvm_allocate_segment nsbi ssd cm =
       Some (Inr s, if cm then create_mapping (took nsbi s) ssd s (rw_map OR rw_redirect)
                    else took nsbi s)"
proof -
  have "zero_bits (segment_map nsbi) (nvm_segs nsbi) \<noteq> {}"
    using wf free by (auto simp: mpt_wf_def)
  then obtain i where i: "i < nvm_segs nsbi" "\<not> segment_map nsbi i" by (auto simp: zero_bits_def)
  obtain s where s: "alloc_next nsbi (cur_alloc_nvm_segoff nsbi) = Some (Inr s)"
    and c: "first_clear (segment_map nsbi) (nvm_segs nsbi) (cur_alloc_nvm_segoff nsbi) s"
    by (rule alloc_next_finds [OF i free])
  have S: "s < nvm_segs nsbi" "\<not> segment_map nsbi s" using c by (simp_all add: first_clear_def)
  have "free_segs nsbi \<le> nvm_segs nsbi" using wf card_zero_bits_le by (simp add: mpt_wf_def)
  with s free have "nvm_allocate_segment nsbi ssd cm =
       Some (Inr s, if cm then create_mapping (took nsbi s) ssd s (rw_map OR rw_redirect)
                    else took nsbi s)"
    by (simp add: nvm_allocate_segment_def took_def Let_def)
  moreover have "\<not> mapped nsbi s" using wf S by (auto simp: wf_defs)
  ultimately show thesis using that S c by blast
qed

lemma took_wf:
  assumes "mpt_wf S nsbi" and "s < nvm_segs nsbi" and "\<not> segment_map nsbi s"
  shows "mpt_wf S (took nsbi s)" "bindable (took nsbi s) s" "nvm_of S (took nsbi s) = nvm_of S nsbi"
    "free_segs nsbi = Suc (free_segs (took nsbi s))"
  using assms take_segment_wf [OF assms] take_segment_bindable [OF assms] by (simp_all add: took_def)

lemma map_redirect_flags: "(rw_map OR rw_redirect :: u32) < 8" "(rw_map OR rw_redirect :: u32) AND 1 \<noteq> 0"
  by simp_all

text \<open>The table of a freshly formatted NVM device with \<open>N\<close> segments: nothing mapped, all free.\<close>

definition fresh_nsbi :: "nat \<Rightarrow> nvm_sb_info" where
  "fresh_nsbi N = zero_nsbi\<lparr>nsb := zero_nsb\<lparr>main_segment_nums := N, main_segment_free_nums := N\<rparr>\<rparr>"

lemma fresh_nsbi_simps [simp]:
  "nvm_segs (fresh_nsbi N) = N" "free_segs (fresh_nsbi N) = N" "\<not> mapped (fresh_nsbi N) i"
  "\<not> segment_map (fresh_nsbi N) i" "nvm_of S (fresh_nsbi N) s = None"
  "mpt (fresh_nsbi N) i = 0"
  by (simp_all add: fresh_nsbi_def zero_nsbi_def zero_nsb_def mapped_def get_map_flag_def nvm_of_def)

lemma fresh_nsbi_wf: "N + S \<le> 2 ^ 29 \<Longrightarrow> mpt_wf S (fresh_nsbi N)"
proof -
  have "zero_bits (segment_map (fresh_nsbi N)) N = {..<N}" by (auto simp: zero_bits_def)
  then show "N + S \<le> 2 ^ 29 \<Longrightarrow> ?thesis" by (simp add: wf_defs)
qed

subsection \<open>The interface of the table\<close>

locale seg_mapping =
  fixes lookup :: "'s \<Rightarrow> nat \<Rightarrow> nat option"
    and bind :: "'s \<Rightarrow> nat \<Rightarrow> nat \<Rightarrow> 's"
    and unbind :: "'s \<Rightarrow> nat \<Rightarrow> 's"
    and fresh :: "'s \<Rightarrow> nat \<Rightarrow> bool"
    and src_ok :: "nat \<Rightarrow> bool"
    and invar :: "'s \<Rightarrow> bool"
  assumes lookup_bind: "invar t \<Longrightarrow> src_ok a \<Longrightarrow> lookup t a = None \<Longrightarrow> fresh t b \<Longrightarrow>
      lookup (bind t a b) = (lookup t)(a \<mapsto> b)"
    and invar_bind: "invar t \<Longrightarrow> src_ok a \<Longrightarrow> lookup t a = None \<Longrightarrow> fresh t b \<Longrightarrow> invar (bind t a b)"
    and lookup_unbind: "invar t \<Longrightarrow> src_ok a \<Longrightarrow> lookup (unbind t a) = (lookup t)(a := None)"
    and invar_unbind: "invar t \<Longrightarrow> src_ok a \<Longrightarrow> invar (unbind t a)"
    and lookup_inj: "invar t \<Longrightarrow> lookup t a = Some b \<Longrightarrow> lookup t a' = Some b \<Longrightarrow> a = a'"
    and fresh_unused: "invar t \<Longrightarrow> fresh t b \<Longrightarrow> lookup t a \<noteq> Some b"
begin

lemma bind_unbind:
  assumes "invar t" "src_ok a" "lookup t a = None" "fresh t b"
  shows "lookup (unbind (bind t a b) a) = lookup t"
  using assms by (simp add: lookup_unbind invar_bind lookup_bind fun_upd_idem)

lemma rebind:
  assumes "invar t" "src_ok a" "fresh (unbind t a) b"
  shows "lookup (bind (unbind t a) a b) = (lookup t)(a \<mapsto> b)" "invar (bind (unbind t a) a b)"
  using assms by (simp_all add: lookup_unbind invar_unbind lookup_bind invar_bind)

lemma inj_on_lookup: "invar t \<Longrightarrow> inj_on (lookup t) (dom (lookup t))"
  by (auto simp: inj_on_def dom_def intro: lookup_inj)

end

interpretation mp: seg_mapping "nvm_of S" "\<lambda>t a b. create_mapping t a b (rw_map OR rw_redirect)"
  unset_mapping bindable "\<lambda>a. a < S" "mpt_wf S" for S
proof (unfold_locales, goal_cases)
  case (1 t a b) then show ?case by (intro create_mapping_wf(2)) simp_all
next
  case (2 t a b) then show ?case by (intro create_mapping_wf(1)) simp_all
next
  case (3 t a) then show ?case by (rule unset_mapping_wf(2))
next
  case (4 t a) then show ?case by (rule unset_mapping_wf(1))
next
  case (5 t a b a') then show ?case by (rule nvm_of_inj)
next
  case (6 t b a) then show ?case using nvm_of_SomeD(3) [of S t a b] by (auto simp: bindable_def)
qed

text \<open>A small table with one mapping: SSD segment 2 shadowed by NVM segment 0.\<close>

definition one_mapped :: nvm_sb_info where
  "one_mapped = create_mapping (took (fresh_nsbi 4) 0) 2 0 (rw_map OR rw_redirect)"

lemma one_mapped_wf: "mpt_wf 3 one_mapped" "nvm_of 3 one_mapped = [2 \<mapsto> 0]" "nvm_segs one_mapped = 4"
proof -
  note T = took_wf [OF fresh_nsbi_wf [of 4 3], of 0]
  show "mpt_wf 3 one_mapped" using T mp.invar_bind [of 3 "took (fresh_nsbi 4) 0" 2 0] by (simp add: one_mapped_def)
  have "nvm_of 3 (took (fresh_nsbi 4) 0) = Map.empty" using T by (simp add: fun_eq_iff)
  then show "nvm_of 3 one_mapped = [2 \<mapsto> 0]"
    using T mp.lookup_bind [of 3 "took (fresh_nsbi 4) 0" 2 0] by (simp add: one_mapped_def)
  show "nvm_segs one_mapped = 4" by (simp add: one_mapped_def took_def)
qed

lemma set_ckpt_map_wf [simp]:
  "mpt_wf S (nvm_set_ckpt_segment_map nsbi) = mpt_wf S nsbi"
  "nvm_of S (nvm_set_ckpt_segment_map nsbi) = nvm_of S nsbi"
  by (rule mpt_wf_fields) (simp_all add: nvm_set_ckpt_segment_map_def nvm_of_def mapped_def get_map_flag_def
      get_mpt_value_def fun_eq_iff)

subsection \<open>Properties\<close>

lemma create_mapping_other [simp]:
  "cur_alloc_nvm_segoff (create_mapping nsbi s n f) = cur_alloc_nvm_segoff nsbi"
  "ckpt_segment_map (create_mapping nsbi s n f) = ckpt_segment_map nsbi"
  "nvm_flag (create_mapping nsbi s n f) = nvm_flag nsbi"
  by (simp_all add: create_mapping_def set_mpt_entry_def set_dirty_def Let_def)

lemma took_other [simp]:
  "cur_alloc_nvm_segoff (took nsbi s) = s + 1" "ckpt_segment_map (took nsbi s) = ckpt_segment_map nsbi"
  "\<not> segment_map nsbi s \<Longrightarrow> segment_map (took nsbi s) = (segment_map nsbi)(s := True)"
  "\<not> segment_map nsbi s \<Longrightarrow> nvm_flag (took nsbi s) = nvm_flag nsbi OR NVM_NSB_DIRTY"
  by (simp_all add: took_def take_segment_def)

text \<open>
  C4. \<open>nvm_allocate_segment\<close> always returns. With no free segment it returns \<open>ENVMNOSPACE\<close> and
  changes nothing. Otherwise it hands out the first segment behind the cursor (cyclically) whose
  bit in \<open>segment_map\<close> is clear, sets that bit and no other, decrements the free counter, marks
  the super block dirty, moves the cursor just past the segment, keeps the invariant and, when
  asked to, maps the SSD segment to it and changes no other mapping. \<open>ckpt_segment_map\<close> is neither
  consulted nor changed.
\<close>

theorem nvm_allocate_segment_correct:
  assumes "mpt_wf S nsbi" and "cm \<longrightarrow> ssd < S \<and> nvm_of S nsbi ssd = None"
  shows "if free_segs nsbi = 0 then nvm_allocate_segment nsbi ssd cm = Some (Inl ENVMNOSPACE, nsbi)
    else \<exists>s nsbi'. nvm_allocate_segment nsbi ssd cm = Some (Inr s, nsbi')
      \<and> first_clear (segment_map nsbi) (nvm_segs nsbi) (cur_alloc_nvm_segoff nsbi) s
      \<and> segment_map nsbi' = (segment_map nsbi)(s := True) \<and> Suc (free_segs nsbi') = free_segs nsbi
      \<and> cur_alloc_nvm_segoff nsbi' = s + 1 \<and> nvm_flag nsbi' = nvm_flag nsbi OR NVM_NSB_DIRTY
      \<and> ckpt_segment_map nsbi' = ckpt_segment_map nsbi \<and> mpt_wf S nsbi'
      \<and> nvm_of S nsbi' = (if cm then (nvm_of S nsbi)(ssd \<mapsto> s) else nvm_of S nsbi)"
proof (cases "free_segs nsbi = 0")
  case True
  then show ?thesis by (simp add: nvm_allocate_segment_def)
next
  case False
  then obtain s where s: "s < nvm_segs nsbi" "\<not> segment_map nsbi s"
      and c: "first_clear (segment_map nsbi) (nvm_segs nsbi) (cur_alloc_nvm_segoff nsbi) s"
      and eq: "nvm_allocate_segment nsbi ssd cm =
         Some (Inr s, if cm then create_mapping (took nsbi s) ssd s (rw_map OR rw_redirect)
                      else took nsbi s)"
    using nvm_allocate_segment_unfold [OF assms(1), of ssd cm] by (metis gr0I)
  note T = took_wf [OF assms(1) s]
  show ?thesis
    using False s(2) c T eq assms(2) mp.lookup_bind [of S "took nsbi s" ssd s]
      mp.invar_bind [of S "took nsbi s" ssd s]
    by (cases cm) simp_all
qed

theorem nvm_allocate_segment_correct_witness:
  "(\<exists>nsbi'. nvm_allocate_segment one_mapped 1 True = Some (Inr 1, nsbi')
     \<and> cur_alloc_nvm_segoff nsbi' = 2 \<and> Suc (free_segs nsbi') = 3 \<and> nvm_of 3 nsbi' = [2 \<mapsto> 0, 1 \<mapsto> 1])
   \<and> nvm_allocate_segment (fresh_nsbi 0) 1 True = Some (Inl ENVMNOSPACE, fresh_nsbi 0)"
proof -
  have f: "free_segs one_mapped = 3" "segment_map one_mapped = (\<lambda>_. False)(0 := True)"
    "cur_alloc_nvm_segoff one_mapped = 1"
    using took_wf(4) [OF fresh_nsbi_wf [of 4 3], of 0] by (simp_all add: one_mapped_def fun_eq_iff)
  have "s = 1" if "first_clear (segment_map one_mapped) 4 1 s" for s
    using that by (auto simp: first_clear_def f split: if_splits dest: spec [of _ 1])
  moreover obtain s nsbi' where "nvm_allocate_segment one_mapped 1 True = Some (Inr s, nsbi')"
      "first_clear (segment_map one_mapped) 4 1 s" "Suc (free_segs nsbi') = 3"
      "cur_alloc_nvm_segoff nsbi' = s + 1" "nvm_of 3 nsbi' = [2 \<mapsto> 0, 1 \<mapsto> s]"
    using nvm_allocate_segment_correct [of 3 one_mapped True 1] one_mapped_wf f(1,3) by auto
  ultimately have "\<exists>nsbi'. nvm_allocate_segment one_mapped 1 True = Some (Inr 1, nsbi')
     \<and> cur_alloc_nvm_segoff nsbi' = 2 \<and> Suc (free_segs nsbi') = 3 \<and> nvm_of 3 nsbi' = [2 \<mapsto> 0, 1 \<mapsto> 1]"
    by fastforce
  moreover have "nvm_allocate_segment (fresh_nsbi 0) 1 True = Some (Inl ENVMNOSPACE, fresh_nsbi 0)"
    using nvm_allocate_segment_correct [of 3 "fresh_nsbi 0" True 1] fresh_nsbi_wf [of 0 3] by simp
  ultimately show ?thesis by blast
qed

text \<open>
  C19. \<open>unset_mapping\<close> is deletion: it keeps the invariant, removes the mapping of this SSD
  segment and no other, and gives exactly its NVM segment back to the allocator.
\<close>

theorem unset_mapping_correct:
  assumes "mpt_wf S nsbi" and "s < S"
  shows "mpt_wf S (unset_mapping nsbi s)
    \<and> nvm_of S (unset_mapping nsbi s) = (nvm_of S nsbi)(s := None)
    \<and> (case nvm_of S nsbi s of
         None \<Rightarrow> unset_mapping nsbi s = nsbi
       | Some n \<Rightarrow> segment_map nsbi n \<and> segment_map (unset_mapping nsbi s) = (segment_map nsbi)(n := False)
           \<and> free_segs (unset_mapping nsbi s) = Suc (free_segs nsbi))"
  using assms unset_mapping_Some [OF assms(1)] nvm_of_SomeD(5) [OF assms(1)]
  by (auto simp: mp.invar_unbind mp.lookup_unbind unset_mapping_None split: option.split)

theorem unset_mapping_correct_witness:
  "nvm_of 3 one_mapped 2 = Some 0 \<and> nvm_of 3 (unset_mapping one_mapped 2) = Map.empty
   \<and> segment_map one_mapped 0 \<and> \<not> segment_map (unset_mapping one_mapped 2) 0
   \<and> free_segs one_mapped = 3 \<and> free_segs (unset_mapping one_mapped 2) = 4
   \<and> mpt_wf 3 (unset_mapping one_mapped 2)"
proof -
  have "free_segs one_mapped = 3"
    using took_wf(4) [OF fresh_nsbi_wf [of 4 3], of 0] by (simp add: one_mapped_def)
  then show ?thesis
    using unset_mapping_correct [of 3 one_mapped 2] one_mapped_wf by simp
qed

text \<open>
  C18. The two bitmaps of the allocator do not do what \<open>nvm.h\<close> asks of them. A segment is to be
  handed out only when its bit is clear in \<open>segment_map\<close> and in \<open>ckpt_segment_map\<close>, so that a
  segment the last checkpoint uses is not overwritten before the next one. The check is commented
  out: when an SSD segment is unmapped and no other NVM segment is free, the very next allocation
  hands its shadow out again although \<open>ckpt_segment_map\<close> still marks it.
\<close>

theorem reuse_before_checkpoint:
  assumes "mpt_wf S nsbi" and "nvm_of S nsbi s = Some n" and "ckpt_segment_map nsbi n"
    and "free_segs nsbi = 0" and "cm \<longrightarrow> ssd < S \<and> (ssd = s \<or> nvm_of S nsbi ssd = None)"
  shows "\<exists>nsbi'. nvm_allocate_segment (unset_mapping nsbi s) ssd cm = Some (Inr n, nsbi')
    \<and> ckpt_segment_map nsbi' n \<and> (cm \<longrightarrow> nvm_of S nsbi' ssd = Some n)"
proof -
  let ?u = "unset_mapping nsbi s"
  note D = nvm_of_SomeD [OF assms(1,2)] and U = unset_mapping_Some [OF assms(1,2)]
  have wf: "mpt_wf S ?u" "nvm_of S ?u = (nvm_of S nsbi)(s := None)"
    using assms(1) D(1) by (simp_all add: mp.invar_unbind mp.lookup_unbind)
  have used: "segment_map nsbi i" if "i < nvm_segs nsbi" for i
  proof -
    have "finite (zero_bits (segment_map nsbi) (nvm_segs nsbi))" by (simp add: zero_bits_def)
    then show ?thesis using assms(1,4) that by (auto simp: mpt_wf_def zero_bits_def)
  qed
  have ck: "ckpt_segment_map ?u = ckpt_segment_map nsbi"
    by (simp add: unset_mapping_def clear_map_def set_dirty_def release_segment_def Let_def)
  obtain t where t: "t < nvm_segs ?u" "\<not> segment_map ?u t" "\<not> mapped ?u t"
      "nvm_allocate_segment ?u ssd cm =
         Some (Inr t, if cm then create_mapping (took ?u t) ssd t (rw_map OR rw_redirect) else took ?u t)"
    using nvm_allocate_segment_unfold [OF wf(1), of ssd cm] U(4) by (metis zero_less_Suc)
  have "t = n" using t(1,2) used U(3,5) by (auto split: if_splits)
  with t assms(3,5) ck wf took_wf [OF wf(1) t(1,2)] mp.lookup_bind [of S "took ?u t" ssd t]
  show ?thesis by (cases cm) auto
qed

theorem reuse_before_checkpoint_witness:
  "\<exists>nsbi nsbi'. mpt_wf 3 nsbi \<and> nvm_of 3 nsbi 2 = Some 0
     \<and> nvm_allocate_segment (unset_mapping nsbi 2) 1 True = Some (Inr 0, nsbi')
     \<and> ckpt_segment_map nsbi' 0 \<and> nvm_of 3 nsbi' 1 = Some 0"
proof -
  let ?t = "took (fresh_nsbi 1) 0"
  let ?n = "nvm_set_ckpt_segment_map (create_mapping ?t 2 0 (rw_map OR rw_redirect))"
  note T = took_wf [OF fresh_nsbi_wf [of 1 3], of 0]
  have e: "nvm_of 3 ?t = Map.empty" using T by (simp add: fun_eq_iff)
  have m: "mpt_wf 3 (create_mapping ?t 2 0 (rw_map OR rw_redirect))"
    "nvm_of 3 (create_mapping ?t 2 0 (rw_map OR rw_redirect)) = [2 \<mapsto> 0]"
    using T e mp.invar_bind [of 3 ?t 2 0] mp.lookup_bind [of 3 ?t 2 0] by simp_all
  have n: "mpt_wf 3 ?n" "nvm_of 3 ?n = [2 \<mapsto> 0]" using m by simp_all
  have c: "free_segs ?n = 0" "ckpt_segment_map ?n 0"
    using T(4) by (simp_all add: nvm_set_ckpt_segment_map_def map_bytes_def)
  have "\<exists>nsbi'. nvm_allocate_segment (unset_mapping ?n 2) 1 True = Some (Inr 0, nsbi')
      \<and> ckpt_segment_map nsbi' 0 \<and> nvm_of 3 nsbi' 1 = Some 0"
    using reuse_before_checkpoint [of 3 ?n 2 0 True 1] n c by simp
  moreover have "nvm_of 3 ?n 2 = Some 0" using n(2) by simp
  ultimately show ?thesis using n(1) by blast
qed

subsection \<open>The table as a state machine\<close>

text \<open>
  The steps that change the table: allocation for a new current segment (with mapping) or for a
  migration (without), completing a migration, giving up a migration, unmapping, marking a
  segment as stored twice, and the copy of the map at the end of a checkpoint. The guards are
  those of the callers: \<open>new_curseg\<close> and \<open>hot_to_nvm\<close> only map SSD segments without a mapping.
\<close>

inductive mpt_step :: "nat \<Rightarrow> nvm_sb_info \<Rightarrow> nvm_sb_info \<Rightarrow> bool" for S :: nat where
  alloc: "ssd < S \<Longrightarrow> nvm_of S nsbi ssd = None \<Longrightarrow>
     nvm_allocate_segment nsbi ssd cm = Some (r, nsbi') \<Longrightarrow> mpt_step S nsbi nsbi'"
| bind_hot: "ssd < S \<Longrightarrow> nvm_of S nsbi ssd = None \<Longrightarrow> bindable nsbi n \<Longrightarrow>
     mpt_step S nsbi (create_mapping nsbi ssd n (rw_map OR rw_redirect OR rw_double))"
| give_up: "bindable nsbi n \<Longrightarrow> mpt_step S nsbi (release_segment nsbi n)"
| unmap: "ssd < S \<Longrightarrow> mpt_step S nsbi (unset_mapping nsbi ssd)"
| make_double: "ssd < S \<Longrightarrow> mpt_step S nsbi (set_double nsbi ssd)"
| ckpt: "mpt_step S nsbi (nvm_set_ckpt_segment_map nsbi)"

inductive_cases mpt_stepE: "mpt_step S nsbi nsbi'"

inductive mpt_reachable :: "nat \<Rightarrow> nat \<Rightarrow> nvm_sb_info \<Rightarrow> bool" for N S :: nat where
  mount: "mpt_reachable N S (fresh_nsbi N)"
| step: "mpt_reachable N S nsbi \<Longrightarrow> mpt_step S nsbi nsbi' \<Longrightarrow> mpt_reachable N S nsbi'"

lemma allocate_wf:
  assumes "mpt_wf S nsbi" "ssd < S" "nvm_of S nsbi ssd = None"
    "nvm_allocate_segment nsbi ssd cm = Some (r, nsbi')"
  shows "mpt_wf S nsbi'" "nvm_segs nsbi' = nvm_segs nsbi"
proof -
  have "mpt_wf S nsbi' \<and> nvm_segs nsbi' = nvm_segs nsbi"
  proof (cases "free_segs nsbi = 0")
    case True
    with assms show ?thesis by (simp add: nvm_allocate_segment_def)
  next
    case False
    then obtain s where s: "s < nvm_segs nsbi" "\<not> segment_map nsbi s"
      and eq: "nvm_allocate_segment nsbi ssd cm =
        Some (Inr s, if cm then create_mapping (took nsbi s) ssd s (rw_map OR rw_redirect)
                     else took nsbi s)"
      using nvm_allocate_segment_unfold [OF assms(1)] by (metis gr0I)
    with took_wf [OF assms(1) s] mp.invar_bind [of S "took nsbi s" ssd s] assms(2-4)
    show ?thesis by (auto simp: took_def split: if_splits)
  qed
  then show "mpt_wf S nsbi'" "nvm_segs nsbi' = nvm_segs nsbi" by blast+
qed

lemma release_wf:
  assumes wf: "mpt_wf S nsbi" and n: "bindable nsbi n"
  shows "mpt_wf S (release_segment nsbi n)"
  using assms unfolding wf_defs bindable_def by (auto simp: card_zero_bits_clear)

lemma mpt_step_wf: "mpt_step S nsbi nsbi' \<Longrightarrow> mpt_wf S nsbi \<Longrightarrow> mpt_wf S nsbi'"
proof (induction rule: mpt_step.induct)
  case (alloc ssd nsbi cm r nsbi')
  then show ?case by (blast intro: allocate_wf(1))
next
  case (bind_hot ssd nsbi n)
  then show ?case by (intro create_mapping_wf(1)) simp_all
qed (simp_all add: release_wf mp.invar_unbind)

text \<open>
  C17. In every state the table can reach from a fresh NVM device, no NVM segment shadows two
  SSD segments, every shadow lies inside the NVM main area and is marked as used, the two
  halves of the table agree, and the free counter is the number of clear bits.
\<close>

theorem mpt_reachable_sound:
  assumes "mpt_reachable N S nsbi" and "N + S \<le> 2 ^ 29"
  shows "inj_on (nvm_of S nsbi) (dom (nvm_of S nsbi))
    \<and> (\<forall>s n. nvm_of S nsbi s = Some n \<longrightarrow>
         n < nvm_segs nsbi \<and> segment_map nsbi n \<and> mapped nsbi n \<and> get_mpt_value nsbi n = s)
    \<and> free_segs nsbi = card {i. i < nvm_segs nsbi \<and> \<not> segment_map nsbi i}"
proof -
  have wf: "mpt_wf S nsbi"
    using assms by (induction rule: mpt_reachable.induct) (auto intro: fresh_nsbi_wf mpt_step_wf)
  then have "free_segs nsbi = card {i. i < nvm_segs nsbi \<and> \<not> segment_map nsbi i}"
    by (simp add: mpt_wf_def zero_bits_def)
  with wf nvm_of_SomeD [OF wf] show ?thesis by (simp add: mp.inj_on_lookup)
qed

theorem mpt_reachable_sound_witness:
  "\<exists>nsbi. mpt_reachable 4 3 nsbi \<and> nvm_of 3 nsbi 2 \<noteq> None
     \<and> inj_on (nvm_of 3 nsbi) (dom (nvm_of 3 nsbi))
     \<and> free_segs nsbi = card {i. i < nvm_segs nsbi \<and> \<not> segment_map nsbi i}"
proof -
  obtain s where s: "s < nvm_segs (fresh_nsbi 4)" "\<not> segment_map (fresh_nsbi 4) s"
    and eq: "nvm_allocate_segment (fresh_nsbi 4) 2 True =
      Some (Inr s, create_mapping (took (fresh_nsbi 4) s) 2 s (rw_map OR rw_redirect))" (is "_ = Some (_, ?t)")
    by (rule nvm_allocate_segment_unfold [OF fresh_nsbi_wf [of 4 3], of 2 True]) auto
  have "mpt_reachable 4 3 ?t"
    by (rule mpt_reachable.step [OF mpt_reachable.mount mpt_step.alloc [OF _ _ eq]]) simp_all
  moreover have "nvm_of 3 ?t 2 = Some s"
    using took_wf [OF fresh_nsbi_wf [of 4 3] s] mp.lookup_bind [of 3 "took (fresh_nsbi 4) s" 2 s] by simp
  ultimately show ?thesis
    using mpt_reachable_sound [of 4 3 ?t] by (intro exI [of _ ?t]) simp
qed

end
