(* ===== verification/Geometry.thy ===== *)
theory Geometry
  imports Prelude
begin

text \<open>
  Disk geometry: the constants of a mounted volume (\<open>struct f2fs_sb_info\<close>,
  \<open>struct f2fs_sm_info\<close>, the raw super block) and the address macros of \<open>src/segment.h\<close>.
  Addresses are \<open>block_t\<close>, 32 bits wide: the macros are written with the wrap-around of
  \<open>unsigned int\<close>, and the lemmas say when it does not happen.
\<close>

record f2fs_geo =
  log_blocks_per_seg :: nat
  blocks_per_seg :: nat
  segs_per_sec :: nat
  secs_per_zone :: nat
  total_sections :: nat
  seg0_blkaddr :: nat
  ssd_main_blkaddr :: nat
  segment_count :: nat
  main_segments :: nat
  start_segno :: nat

definition u32_wrap :: "nat \<Rightarrow> nat" where
  "u32_wrap x = x mod 4294967296"

definition u32_sub :: "nat \<Rightarrow> nat \<Rightarrow> nat" where
  "u32_sub a b = (a + (4294967296 - b mod 4294967296)) mod 4294967296"

lemma u32_wrap_small [simp]: "x < 4294967296 \<Longrightarrow> u32_wrap x = x"
  by (simp add: u32_wrap_def)

lemma u32_sub_small [simp]: "b \<le> a \<Longrightarrow> a < 4294967296 \<Longrightarrow> u32_sub a b = a - b"
  by (simp add: u32_sub_def mod_if)

subsection \<open>Address macros\<close>

definition GET_L2R_SEGNO :: "f2fs_geo \<Rightarrow> nat \<Rightarrow> nat" where
  "GET_L2R_SEGNO g segno = u32_sub segno (start_segno g)"

definition GET_R2L_SEGNO :: "f2fs_geo \<Rightarrow> nat \<Rightarrow> nat" where
  "GET_R2L_SEGNO g segno = u32_wrap (segno + start_segno g)"

definition TOTAL_BLKS :: "f2fs_geo \<Rightarrow> nat" where
  "TOTAL_BLKS g = u32_wrap (segment_count g * 2 ^ log_blocks_per_seg g)"

definition MAX_BLKADDR :: "f2fs_geo \<Rightarrow> nat" where
  "MAX_BLKADDR g = u32_wrap (seg0_blkaddr g + TOTAL_BLKS g)"

definition START_BLOCK :: "f2fs_geo \<Rightarrow> nat \<Rightarrow> nat" where
  "START_BLOCK g segno =
     u32_wrap (seg0_blkaddr g + u32_wrap (GET_R2L_SEGNO g segno * 2 ^ log_blocks_per_seg g))"

definition GET_SEGOFF_FROM_SEG0 :: "f2fs_geo \<Rightarrow> nat \<Rightarrow> nat" where
  "GET_SEGOFF_FROM_SEG0 g blk_addr = u32_sub blk_addr (seg0_blkaddr g)"

definition GET_SEGNO_FROM_SEG0 :: "f2fs_geo \<Rightarrow> nat \<Rightarrow> nat" where
  "GET_SEGNO_FROM_SEG0 g blk_addr = drop_bit (log_blocks_per_seg g) (GET_SEGOFF_FROM_SEG0 g blk_addr)"

definition GET_BLKOFF_FROM_SEG0 :: "f2fs_geo \<Rightarrow> nat \<Rightarrow> nat" where
  "GET_BLKOFF_FROM_SEG0 g blk_addr = GET_SEGOFF_FROM_SEG0 g blk_addr AND (blocks_per_seg g - 1)"

definition GET_SEC_FROM_SEG :: "f2fs_geo \<Rightarrow> nat \<Rightarrow> nat" where
  "GET_SEC_FROM_SEG g segno = segno div segs_per_sec g"

definition GET_SEG_FROM_SEC :: "f2fs_geo \<Rightarrow> nat \<Rightarrow> nat" where
  "GET_SEG_FROM_SEC g secno = secno * segs_per_sec g"

definition GET_ZONE_FROM_SEC :: "f2fs_geo \<Rightarrow> nat \<Rightarrow> nat" where
  "GET_ZONE_FROM_SEC g secno = secno div secs_per_zone g"

definition GET_ZONE_FROM_SEG :: "f2fs_geo \<Rightarrow> nat \<Rightarrow> nat" where
  "GET_ZONE_FROM_SEG g segno = GET_ZONE_FROM_SEC g (GET_SEC_FROM_SEG g segno)"

definition SECTOR_FROM_BLOCK :: "nat \<Rightarrow> nat" where
  "SECTOR_FROM_BLOCK blk_addr = push_bit 3 blk_addr"

text \<open>The result of \<open>SECTOR_TO_BLOCK\<close> is stored in a \<open>block_t\<close>.\<close>

definition SECTOR_TO_BLOCK :: "nat \<Rightarrow> nat" where
  "SECTOR_TO_BLOCK sectors = u32_wrap (drop_bit 3 sectors)"

subsection \<open>Current segments\<close>

datatype seg_type = CURSEG_HOT_DATA | CURSEG_WARM_DATA | CURSEG_COLD_DATA
  | CURSEG_HOT_NODE | CURSEG_WARM_NODE | CURSEG_COLD_NODE

definition IS_DATASEG :: "seg_type \<Rightarrow> bool" where
  "IS_DATASEG t \<longleftrightarrow> t \<in> {CURSEG_HOT_DATA, CURSEG_WARM_DATA, CURSEG_COLD_DATA}"

text \<open>The segments of the six logs and the section that foreground GC is cleaning.\<close>

record seg_use =
  curseg_segno :: "seg_type \<Rightarrow> nat"
  cur_victim_sec :: nat

definition IS_CURSEC :: "f2fs_geo \<Rightarrow> seg_use \<Rightarrow> nat \<Rightarrow> bool" where
  "IS_CURSEC g u secno \<longleftrightarrow>
     secno = curseg_segno u CURSEG_HOT_DATA div segs_per_sec g
     \<or> secno = curseg_segno u CURSEG_WARM_DATA div segs_per_sec g
     \<or> secno = curseg_segno u CURSEG_COLD_DATA div segs_per_sec g
     \<or> secno = curseg_segno u CURSEG_HOT_NODE div segs_per_sec g
     \<or> secno = curseg_segno u CURSEG_WARM_NODE div segs_per_sec g
     \<or> secno = curseg_segno u CURSEG_COLD_NODE div segs_per_sec g"

definition sec_usage_check :: "f2fs_geo \<Rightarrow> seg_use \<Rightarrow> nat \<Rightarrow> bool" where
  "sec_usage_check g u secno \<longleftrightarrow> IS_CURSEC g u secno \<or> cur_victim_sec u = secno"

subsection \<open>A sane geometry\<close>

text \<open>
  What \<open>sanity_check_raw_super\<close> and mkfs establish: segments are a power of two of blocks, the
  main area starts on a segment boundary behind segment 0, and the volume fits 32 bits.
\<close>

definition geo_ok :: "f2fs_geo \<Rightarrow> bool" where
  "geo_ok g \<longleftrightarrow> blocks_per_seg g = 2 ^ log_blocks_per_seg g
     \<and> ssd_main_blkaddr g = seg0_blkaddr g + start_segno g * blocks_per_seg g
     \<and> start_segno g + main_segments g = segment_count g
     \<and> seg0_blkaddr g + segment_count g * blocks_per_seg g < 4294967296"

definition main_block :: "f2fs_geo \<Rightarrow> nat \<Rightarrow> nat \<Rightarrow> nat" where
  "main_block g s off = ssd_main_blkaddr g + s * blocks_per_seg g + off"

lemma seg_bound: "s < M \<Longrightarrow> off < b \<Longrightarrow> s * b + off < M * (b :: nat)"
proof -
  assume "s < M" "off < b"
  then have "s * b + off < Suc s * b" by simp
  also have "\<dots> \<le> M * b" using \<open>s < M\<close> by (intro mult_right_mono) simp_all
  finally show ?thesis .
qed

lemma seg_addr_eq:
  assumes "off < b" "off' < (b :: nat)"
  shows "a + s * b + off = a + s' * b + off' \<longleftrightarrow> s = s' \<and> off = off'"
proof
  assume "a + s * b + off = a + s' * b + off'"
  then have "(s * b + off) div b = (s' * b + off') div b" "(s * b + off) mod b = (s' * b + off') mod b" by simp_all
  with assms show "s = s' \<and> off = off'" by simp
qed simp

lemma seg_addr_range:
  assumes "off < (b :: nat)"
  shows "a + s * b \<le> a + s' * b + off \<and> a + s' * b + off < a + s * b + b \<longleftrightarrow> s' = s"
proof
  assume "a + s * b \<le> a + s' * b + off \<and> a + s' * b + off < a + s * b + b"
  then have "s * b \<le> s' * b + off" "s' * b + off < Suc s * b" by auto
  then have "(s' * b + off) div b = s" by (intro div_nat_eqI) (simp_all add: mult.commute)
  with assms show "s' = s" by simp
qed (use assms in simp)

lemma main_block_range:
  assumes "geo_ok g" and "s < main_segments g" and "off < blocks_per_seg g"
  shows "main_block g s off < 4294967296" and "seg0_blkaddr g \<le> main_block g s off"
    and "main_block g s off - seg0_blkaddr g = (start_segno g + s) * blocks_per_seg g + off"
proof -
  have "main_block g s off = seg0_blkaddr g + ((start_segno g + s) * blocks_per_seg g + off)"
    using assms(1) by (simp add: main_block_def geo_ok_def algebra_simps)
  moreover have "(start_segno g + s) * blocks_per_seg g + off < segment_count g * blocks_per_seg g"
    using assms by (intro seg_bound) (auto simp: geo_ok_def)
  ultimately show "main_block g s off < 4294967296" and "seg0_blkaddr g \<le> main_block g s off"
    and "main_block g s off - seg0_blkaddr g = (start_segno g + s) * blocks_per_seg g + off"
    using assms(1) by (auto simp: geo_ok_def)
qed

lemma segno_of_main_block:
  assumes "geo_ok g" and "s < main_segments g" and "off < blocks_per_seg g"
  shows "GET_SEGNO_FROM_SEG0 g (main_block g s off) = start_segno g + s"
    and "GET_BLKOFF_FROM_SEG0 g (main_block g s off) = off"
proof -
  have b: "blocks_per_seg g = 2 ^ log_blocks_per_seg g" using assms(1) by (simp add: geo_ok_def)
  have o: "GET_SEGOFF_FROM_SEG0 g (main_block g s off) = (start_segno g + s) * blocks_per_seg g + off"
    using main_block_range [OF assms] by (simp add: GET_SEGOFF_FROM_SEG0_def)
  show "GET_SEGNO_FROM_SEG0 g (main_block g s off) = start_segno g + s"
    using assms(3) by (simp add: GET_SEGNO_FROM_SEG0_def o drop_bit_eq_div b)
  have "x AND (2 ^ l - 1) = x mod 2 ^ l" for x l :: nat
    using take_bit_eq_mask [of l x] by (simp add: take_bit_eq_mod mask_eq_exp_minus_1)
  then show "GET_BLKOFF_FROM_SEG0 g (main_block g s off) = off"
    using assms(3) by (simp add: GET_BLKOFF_FROM_SEG0_def o b)
qed

lemma segno_of_main_start:
  assumes "geo_ok g"
  shows "GET_SEGNO_FROM_SEG0 g (ssd_main_blkaddr g) = start_segno g"
proof -
  let ?b = "blocks_per_seg g"
  have "start_segno g * ?b \<le> segment_count g * ?b"
    using assms by (intro mult_right_mono) (auto simp: geo_ok_def)
  then have "ssd_main_blkaddr g < 4294967296" "seg0_blkaddr g \<le> ssd_main_blkaddr g"
    "ssd_main_blkaddr g - seg0_blkaddr g = start_segno g * ?b"
    using assms unfolding geo_ok_def by linarith+
  then show ?thesis
    using assms by (simp add: GET_SEGNO_FROM_SEG0_def GET_SEGOFF_FROM_SEG0_def drop_bit_eq_div)
      (simp add: geo_ok_def)
qed

lemma START_BLOCK_main:
  assumes "geo_ok g" and "s < main_segments g"
  shows "START_BLOCK g s = main_block g s 0"
proof -
  let ?b = "blocks_per_seg g"
  have b: "0 < ?b" "2 ^ log_blocks_per_seg g = ?b" using assms(1) by (simp_all add: geo_ok_def)
  note r = main_block_range [OF assms b(1)]
  have "segment_count g \<le> segment_count g * ?b" using b(1) by simp
  moreover have "s + start_segno g < segment_count g" using assms by (simp add: geo_ok_def)
  ultimately have "s + start_segno g < 4294967296" using assms(1) unfolding geo_ok_def by linarith
  moreover have "(s + start_segno g) * ?b < 4294967296" using r by (simp add: add.commute)
  ultimately show ?thesis
    using r by (simp add: START_BLOCK_def GET_R2L_SEGNO_def b(2)) (simp add: add.commute)
qed

lemma sector_roundtrip: "b < 4294967296 \<Longrightarrow> SECTOR_TO_BLOCK (SECTOR_FROM_BLOCK b) = b"
  by (simp add: SECTOR_TO_BLOCK_def SECTOR_FROM_BLOCK_def drop_bit_eq_div push_bit_eq_mult)

end
