(* ===== verification/Nvm_Redirect.thy ===== *)
theory Nvm_Redirect
  imports Nvm_Alloc Geometry
begin

text \<open>
  Redirection of block I/O to the NVM device and the load-dependent placement policies, from
  \<open>src/nvm.c\<close>: \<open>nvm_redirect_bio\<close>, \<open>nvm_redirect_dio\<close>, \<open>get_size_count\<close>, \<open>use_ssd\<close>,
  \<open>nvm_alloc\<close>. A bio carries its sector, number of pages, direction and device; the functions
  also bump the LFU counter of the SSD segment, an \<open>atomic_t\<close>.
\<close>

subsection \<open>Requests\<close>

datatype bdev = SSD | NVM

datatype page_type = DATA | NODE | META | NR_PAGE_TYPE | META_FLUSH | INMEM | INMEM_DROP
  | INMEM_INVALIDATE | INMEM_REVOKE | IPU | OPU

record bio =
  bi_sector :: nat
  bi_vcnt :: nat
  bi_read :: bool
  bi_dev :: bdev

record buffer_head =
  b_blocknr :: nat
  b_bdev :: bdev

subsection \<open>Operations\<close>

definition get_size_count :: "int \<Rightarrow> int" where
  "get_size_count sz = (if sz < 4 then 5 else if sz < 8 then 3 else if sz < 16 then 2 else 1)"

definition lfu_add :: "nvm_sb_info \<Rightarrow> nat \<Rightarrow> int \<Rightarrow> nvm_sb_info" where
  "lfu_add nsbi s c =
     (let l = now_lfu_counter nsbi
      in nsbi\<lparr>lfu_count := (lfu_count nsbi)(l := (lfu_count nsbi l)(s := s32 (lfu_count nsbi l s + c)))\<rparr>)"

definition nvm_redirect_bio ::
  "f2fs_geo \<Rightarrow> nvm_sb_info \<Rightarrow> bio \<Rightarrow> page_type \<Rightarrow> bio \<times> nvm_sb_info" where
  "nvm_redirect_bio g nsbi b type =
     (if type = META \<or> type = META_FLUSH
      then (if nvm_flag nsbi AND NVM_FIRST_MOUNR = 0 \<or> \<not> bi_read b then b\<lparr>bi_dev := NVM\<rparr> else b, nsbi)
      else
        let ssd_blk_addr = SECTOR_TO_BLOCK (bi_sector b);
            ssd_segno = GET_SEGNO_FROM_SEG0 g ssd_blk_addr;
            ssd_main_segoff = u32_sub ssd_segno (GET_SEGNO_FROM_SEG0 g (ssd_main_blkaddr g));
            index = main_segment_nums (nsb nsbi) + ssd_main_segoff;
            offset = GET_BLKOFF_FROM_SEG0 g ssd_blk_addr;
            redirect_flag = get_redirect_flag nsbi index;
            nsbi' = (if bi_read b then lfu_add nsbi ssd_main_segoff (get_size_count (int (bi_vcnt b)))
                     else nsbi)
        in if redirect_flag = 0 then (b, nsbi')
           else
             let nvm_main_segoff = get_mpt_value nsbi index;
                 nvm_blk_addr = u32_wrap (main_blkaddr (nsb nsbi)
                                          + nvm_main_segoff * blocks_per_seg g + offset)
             in (b\<lparr>bi_sector := SECTOR_FROM_BLOCK nvm_blk_addr, bi_dev := NVM\<rparr>, nsbi'))"

definition nvm_redirect_dio ::
  "f2fs_geo \<Rightarrow> nvm_sb_info \<Rightarrow> buffer_head \<Rightarrow> nat \<Rightarrow> bool \<Rightarrow> buffer_head \<times> nvm_sb_info" where
  "nvm_redirect_dio g nsbi bh blk_nums write =
     (let ssd_blk_addr = u32_wrap (b_blocknr bh);
          ssd_segno = GET_SEGNO_FROM_SEG0 g ssd_blk_addr;
          ssd_main_segoff = u32_sub ssd_segno (GET_SEGNO_FROM_SEG0 g (ssd_main_blkaddr g));
          index = main_segment_nums (nsb nsbi) + ssd_main_segoff;
          offset = GET_BLKOFF_FROM_SEG0 g ssd_blk_addr;
          redirect_flag = get_redirect_flag nsbi index;
          nsbi' = (if \<not> write then lfu_add nsbi ssd_main_segoff (get_size_count (s32 (int blk_nums)))
                   else nsbi)
      in if redirect_flag = 0 then (bh, nsbi')
         else
           let nvm_main_segoff = get_mpt_value nsbi index;
               nvm_blk_addr = u32_wrap (main_blkaddr (nsb nsbi)
                                        + nvm_main_segoff * blocks_per_seg g + offset)
           in (bh\<lparr>b_blocknr := nvm_blk_addr, b_bdev := NVM\<rparr>, nsbi'))"

subsection \<open>Load statistics\<close>

text \<open>
  The globals of \<open>nvm.c\<close> that describe the load, and one parsed line of
  \<open>/proc/diskstats\<close> (what \<open>sscanf\<close> stored). All are \<open>unsigned int\<close> but the two sector
  counts, which are \<open>unsigned long\<close> and are truncated when added up.
\<close>

record load_stat =
  pre_ssd_rq_ticks :: u32
  pre_nvm_rq_ticks :: u32
  ssd_aqu_sz :: u32
  nvm_aqu_sz :: u32
  pre_rd_sec :: u32
  pre_wr_sec :: u32
  write_ratio :: u32
  pre_tot_ticks_nvm :: u32
  pre_tot_ticks_ssd :: u32
  util_nvm :: u32
  util_ssd :: u32

record diskstat =
  dev_name :: string
  rd_sec :: u64
  wr_sec :: u64
  tot_ticks :: u32
  rq_ticks :: u32

text \<open>The reading loop of \<open>update_aqu_sz_now\<close>: the last line of each device wins.\<close>

fun rq_ticks_of :: "string \<Rightarrow> string \<Rightarrow> diskstat list \<Rightarrow> u32 \<times> u32 \<Rightarrow> u32 \<times> u32" where
  "rq_ticks_of ssd nvm [] acc = acc"
| "rq_ticks_of ssd nvm (d # ds) (st, nt) =
     rq_ticks_of ssd nvm ds
       (if dev_name d = ssd then (rq_ticks d, nt) else if dev_name d = nvm then (st, rq_ticks d)
        else (st, nt))"

definition set_aqu_sz :: "load_stat \<Rightarrow> u32 \<Rightarrow> u32 \<Rightarrow> load_stat" where
  "set_aqu_sz ls ssd_rq_ticks nvm_rq_ticks =
     (let sa = ssd_rq_ticks - pre_ssd_rq_ticks ls; na = nvm_rq_ticks - pre_nvm_rq_ticks ls
      in ls\<lparr>ssd_aqu_sz := sa, nvm_aqu_sz := na,
            pre_ssd_rq_ticks := (if sa \<noteq> 0 then ssd_rq_ticks else pre_ssd_rq_ticks ls),
            pre_nvm_rq_ticks := (if na \<noteq> 0 then nvm_rq_ticks else pre_nvm_rq_ticks ls)\<rparr>)"

text \<open>The file is \<open>None\<close> when \<open>filp_open\<close> fails: the function returns early.\<close>

definition update_aqu_sz_now :: "string \<Rightarrow> string \<Rightarrow> diskstat list option \<Rightarrow> load_stat \<Rightarrow> load_stat" where
  "update_aqu_sz_now ssd nvm file ls =
     (case file of None \<Rightarrow> ls
      | Some ds \<Rightarrow> (let (st, nt) = rq_ticks_of ssd nvm ds (0, 0) in set_aqu_sz ls st nt))"

text \<open>
  The reading loop of \<open>update_aqu_sz\<close>: besides the ticks it sums the sectors and updates the
  utilisation (\<open>util_count\<close> is 0 at every round, both intervals being 3000 ms).
\<close>

fun aqu_lines :: "string \<Rightarrow> string \<Rightarrow> diskstat list \<Rightarrow> u32 \<times> u32 \<times> u32 \<times> u32 \<times> load_stat
    \<Rightarrow> u32 \<times> u32 \<times> u32 \<times> u32 \<times> load_stat" where
  "aqu_lines ssd nvm [] acc = acc"
| "aqu_lines ssd nvm (d # ds) (st, nt, now_wr, now_rd, ls) =
     aqu_lines ssd nvm ds
       (if dev_name d = ssd
        then (rq_ticks d, nt, now_wr + ucast (wr_sec d), now_rd + ucast (rd_sec d),
              ls\<lparr>util_ssd := 100 * (tot_ticks d - pre_tot_ticks_ssd ls) div 3000,
                 pre_tot_ticks_ssd := tot_ticks d\<rparr>)
        else if dev_name d = nvm
        then (st, rq_ticks d, now_wr + ucast (wr_sec d), now_rd + ucast (rd_sec d),
              ls\<lparr>util_nvm := 100 * (tot_ticks d - pre_tot_ticks_nvm ls) div 3000,
                 pre_tot_ticks_nvm := tot_ticks d\<rparr>)
        else (st, nt, now_wr, now_rd, ls))"

text \<open>
  One round of the thread \<open>update_aqu_sz\<close>; the tick counters persist between rounds. The round is
  skipped when another thread has the lock, and the thread ends (\<open>None\<close>) when the file cannot be
  opened; it ends with the lock held.
\<close>

definition update_aqu_sz_round :: "string \<Rightarrow> string \<Rightarrow> bool \<Rightarrow> diskstat list option \<Rightarrow> u32 \<times> u32 \<times> load_stat
    \<Rightarrow> (u32 \<times> u32 \<times> load_stat) option" where
  "update_aqu_sz_round ssd nvm lock file s =
     (if \<not> lock then Some s
      else case file of None \<Rightarrow> None
       | Some ds \<Rightarrow>
           (let (st0, nt0, ls0) = s;
                (st, nt, now_wr, now_rd, ls1) = aqu_lines ssd nvm ds (st0, nt0, 0, 0, ls0);
                delt = now_wr + now_rd - pre_rd_sec ls1 - pre_wr_sec ls1;
                ratio = (if delt = 0 then 50 else 100 * (now_wr - pre_wr_sec ls1) div delt);
                ls2 = ls1\<lparr>write_ratio := ratio, pre_wr_sec := now_wr, pre_rd_sec := now_rd\<rparr>
            in Some (st, nt, set_aqu_sz ls2 st nt)))"

subsection \<open>Placement policies\<close>

text \<open>
  Share of the NVM in the queue lengths, zero lengths counting as one. The sum is a 32-bit one;
  \<open>None\<close> is the divide fault when it wraps around to zero.
\<close>

definition aqu_ratio :: "load_stat \<Rightarrow> u32 option" where
  "aqu_ratio ls =
     (let s = (if ssd_aqu_sz ls = 0 then 1 else ssd_aqu_sz ls);
          n = (if nvm_aqu_sz ls = 0 then 1 else nvm_aqu_sz ls)
      in if s + n = 0 then None else Some (100 * n div (s + n)))"

definition use_ssd :: "load_stat \<Rightarrow> nvm_sb_info \<Rightarrow> nat \<Rightarrow> bool option" where
  "use_ssd ls nsbi index =
     (if write_ratio ls < 10 \<and> get_double_flag nsbi index \<noteq> 0
      then (case aqu_ratio ls of None \<Rightarrow> None | Some ratio \<Rightarrow> Some (ratio \<ge> 97))
      else Some False)"

text \<open>
  \<open>lock\<close> says whether \<open>spin_trylock\<close> succeeds; only then are the statistics refreshed.
  The result pairs the decision with the statistics; \<open>None\<close> is a divide fault.
\<close>

definition nvm_alloc :: "string \<Rightarrow> string \<Rightarrow> bool \<Rightarrow> diskstat list option \<Rightarrow> load_stat \<Rightarrow> nvm_sb_info
    \<Rightarrow> seg_type \<Rightarrow> (bool \<times> load_stat) option" where
  "nvm_alloc ssd nvm lock file ls nsbi type =
     (if type = CURSEG_HOT_DATA \<or> type = CURSEG_HOT_NODE then Some (True, ls)
      else
        let all = (of_nat (main_segment_nums (nsb nsbi)) :: u32);
            used = all - of_nat (main_segment_free_nums (nsb nsbi));
            ls' = (if lock then update_aqu_sz_now ssd nvm file ls else ls)
        in case aqu_ratio ls' of None \<Rightarrow> None
           | Some ratio \<Rightarrow>
               if 2 * used > all
               then (if all = 0 then None
                     else Some (ratio < 33 - 16 * (2 * used - all) div all, ls'))
               else Some (ratio < 33, ls'))"

subsection \<open>What a redirection does to a block of the main area\<close>

lemma segoff_of_main_block:
  assumes "geo_ok g" and "s < main_segments g" and "off < blocks_per_seg g"
  shows "u32_sub (GET_SEGNO_FROM_SEG0 g (main_block g s off)) (GET_SEGNO_FROM_SEG0 g (ssd_main_blkaddr g)) = s"
proof -
  have "0 < blocks_per_seg g" using assms(3) by simp
  then have "segment_count g \<le> segment_count g * blocks_per_seg g" by simp
  with assms(1,2) have "start_segno g + s < 4294967296" unfolding geo_ok_def by linarith
  then show ?thesis by (simp add: segno_of_main_block [OF assms] segno_of_main_start [OF assms(1)])
qed

text \<open>The image of a block under the table: its NVM address if its segment is redirected.\<close>

definition redirect_target :: "f2fs_geo \<Rightarrow> nvm_sb_info \<Rightarrow> nat \<Rightarrow> nat \<Rightarrow> nat option" where
  "redirect_target g nsbi s off =
     (if get_redirect_flag nsbi (nvm_segs nsbi + s) = 0 then None
      else Some (main_blkaddr (nsb nsbi) + get_mpt_value nsbi (nvm_segs nsbi + s) * blocks_per_seg g + off))"

text \<open>The NVM main area fits 32-bit block addresses and redirected segments are mapped ones.\<close>

definition nvm_ok :: "f2fs_geo \<Rightarrow> nvm_sb_info \<Rightarrow> bool" where
  "nvm_ok g nsbi \<longleftrightarrow> mpt_wf (main_segments g) nsbi
     \<and> main_blkaddr (nsb nsbi) + nvm_segs nsbi * blocks_per_seg g < 4294967296
     \<and> (\<forall>s < main_segments g. get_redirect_flag nsbi (nvm_segs nsbi + s) \<noteq> 0 \<longrightarrow>
          mapped nsbi (nvm_segs nsbi + s))"

lemma redirect_target_range:
  assumes "nvm_ok g nsbi" "s < main_segments g" "off < blocks_per_seg g"
    and t: "redirect_target g nsbi s off = Some b"
  obtains n where "nvm_of (main_segments g) nsbi s = Some n" "n < nvm_segs nsbi"
    "b = main_blkaddr (nsb nsbi) + n * blocks_per_seg g + off"
    "b < main_blkaddr (nsb nsbi) + nvm_segs nsbi * blocks_per_seg g"
proof -
  let ?n = "get_mpt_value nsbi (nvm_segs nsbi + s)"
  from t have r: "get_redirect_flag nsbi (nvm_segs nsbi + s) \<noteq> 0"
    and b: "b = main_blkaddr (nsb nsbi) + ?n * blocks_per_seg g + off"
    by (auto simp: redirect_target_def split: if_splits)
  with assms have n: "nvm_of (main_segments g) nsbi s = Some ?n"
    by (auto simp: nvm_ok_def nvm_of_def)
  then have "?n < nvm_segs nsbi"
    using assms(1) nvm_of_SomeD(2) by (auto simp: nvm_ok_def)
  with seg_bound [OF this assms(3)] b n show thesis by (intro that) auto
qed

lemma redirect_bio_target:
  assumes g: "geo_ok g" and ok: "nvm_ok g nsbi" and s: "s < main_segments g" and off: "off < blocks_per_seg g"
    and sec: "bi_sector b = SECTOR_FROM_BLOCK (main_block g s off)" and ty: "type \<noteq> META" "type \<noteq> META_FLUSH"
  shows "fst (nvm_redirect_bio g nsbi b type) =
    (case redirect_target g nsbi s off of None \<Rightarrow> b
     | Some t \<Rightarrow> b\<lparr>bi_sector := SECTOR_FROM_BLOCK t, bi_dev := NVM\<rparr>)"
proof -
  have blk: "SECTOR_TO_BLOCK (bi_sector b) = main_block g s off"
    unfolding sec by (rule sector_roundtrip, rule main_block_range(1) [OF g s off])
  show ?thesis
  proof (cases "redirect_target g nsbi s off")
    case None
    then show ?thesis
      by (simp add: nvm_redirect_bio_def Let_def ty blk segoff_of_main_block [OF g s off]
          redirect_target_def split: if_splits)
  next
    case (Some t)
    then have "t < 4294967296"
      using ok by (auto simp: nvm_ok_def elim!: redirect_target_range [OF ok s off])
    with Some show ?thesis
      by (auto simp: nvm_redirect_bio_def Let_def ty blk segoff_of_main_block [OF g s off]
          segno_of_main_block(2) [OF g s off] redirect_target_def split: if_splits)
  qed
qed

lemma redirect_target_inj:
  assumes ok: "nvm_ok g nsbi" and s: "s < main_segments g" "s' < main_segments g"
    and off: "off < blocks_per_seg g" "off' < blocks_per_seg g"
    and t: "redirect_target g nsbi s off = Some b" "redirect_target g nsbi s' off' = Some b"
  shows "s = s' \<and> off = off'"
proof -
  let ?b = "blocks_per_seg g"
  obtain n where n: "nvm_of (main_segments g) nsbi s = Some n" "b = main_blkaddr (nsb nsbi) + n * ?b + off"
    by (rule redirect_target_range [OF ok s(1) off(1) t(1)]) blast
  obtain n' where n': "nvm_of (main_segments g) nsbi s' = Some n'" "b = main_blkaddr (nsb nsbi) + n' * ?b + off'"
    by (rule redirect_target_range [OF ok s(2) off(2) t(2)]) blast
  from n(2) n'(2) have "n * ?b + off = n' * ?b + off'" by simp
  then have "(n * ?b + off) div ?b = (n' * ?b + off') div ?b" "(n * ?b + off) mod ?b = (n' * ?b + off') mod ?b"
    by simp_all
  with off have "n = n'" "off = off'" by simp_all
  with n(1) n'(1) ok show ?thesis using nvm_of_inj by (auto simp: nvm_ok_def)
qed

subsection \<open>Properties\<close>

text \<open>A small volume for the witnesses: three main segments of two blocks behind one meta segment.\<close>

definition small_geo :: f2fs_geo where
  "small_geo = \<lparr>log_blocks_per_seg = 1, blocks_per_seg = 2, segs_per_sec = 1, secs_per_zone = 1,
     total_sections = 3, seg0_blkaddr = 4, ssd_main_blkaddr = 6, segment_count = 4,
     main_segments = 3, start_segno = 1\<rparr>"

lemma small_geo_ok: "geo_ok small_geo" "main_segments small_geo = 3" "blocks_per_seg small_geo = 2"
  by (simp_all add: geo_ok_def small_geo_def)

lemma create_mapping_redirect:
  "get_redirect_flag (create_mapping nsbi s n f) j =
     (if j = n \<or> j = nvm_segs nsbi + s then f AND rw_redirect else get_redirect_flag nsbi j)"
  by (simp add: create_mapping_def set_mpt_entry_def set_dirty_def get_redirect_flag_def Let_def entry_flags)

lemma one_mapped_redirect: "get_redirect_flag one_mapped j = (if j = 0 \<or> j = 6 then 2 else 0)"
  by (simp add: one_mapped_def create_mapping_redirect took_def)
    (simp add: get_redirect_flag_def took_def)

lemma one_mapped_ok: "nvm_ok small_geo one_mapped"
proof -
  have m: "main_blkaddr (nsb one_mapped) = 0"
    by (simp add: one_mapped_def took_def take_segment_def fresh_nsbi_def zero_nsb_def)
  have "mapped one_mapped 6"
    using fun_cong [OF one_mapped_wf(2), of 2] one_mapped_wf(3) by (simp add: nvm_of_def split: if_splits)
  then show ?thesis
    using one_mapped_wf by (simp add: nvm_ok_def small_geo_ok m one_mapped_redirect)
qed

lemma one_mapped_target: "redirect_target small_geo one_mapped 2 1 = Some 1"
proof -
  have m: "main_blkaddr (nsb one_mapped) = 0"
    by (simp add: one_mapped_def took_def take_segment_def fresh_nsbi_def zero_nsb_def)
  have "get_mpt_value one_mapped 6 = 0"
    using fun_cong [OF one_mapped_wf(2), of 2] one_mapped_wf(3) by (simp add: nvm_of_def split: if_splits)
  then show ?thesis by (simp add: redirect_target_def one_mapped_wf(3) one_mapped_redirect small_geo_ok m)
qed

text \<open>
  C13. A data or node bio to block \<open>off\<close> of SSD segment \<open>s\<close> goes, when the segment is
  redirected, to block \<open>off\<close> of the NVM segment that shadows it, inside the NVM main area and
  without 32-bit overflow; otherwise the bio is left as it is, on the SSD.
\<close>

theorem nvm_redirect_bio_correct:
  assumes "geo_ok g" and "nvm_ok g nsbi" and "s < main_segments g" and "off < blocks_per_seg g"
    and "bi_sector b = SECTOR_FROM_BLOCK (main_block g s off)" and "type \<notin> {META, META_FLUSH}"
  shows "fst (nvm_redirect_bio g nsbi b type) =
      (if get_redirect_flag nsbi (nvm_segs nsbi + s) = 0 then b
       else b\<lparr>bi_sector := SECTOR_FROM_BLOCK (main_blkaddr (nsb nsbi)
                 + the (nvm_of (main_segments g) nsbi s) * blocks_per_seg g + off), bi_dev := NVM\<rparr>)
    \<and> (get_redirect_flag nsbi (nvm_segs nsbi + s) \<noteq> 0 \<longrightarrow>
         the (nvm_of (main_segments g) nsbi s) < nvm_segs nsbi)"
proof -
  note T = redirect_bio_target [OF assms(1-5)]
  show ?thesis
  proof (cases "redirect_target g nsbi s off")
    case None
    with T assms(6) show ?thesis by (auto simp: redirect_target_def split: if_splits)
  next
    case (Some t)
    obtain n where "nvm_of (main_segments g) nsbi s = Some n" "n < nvm_segs nsbi"
      "t = main_blkaddr (nsb nsbi) + n * blocks_per_seg g + off"
      by (rule redirect_target_range [OF assms(2,3,4) Some]) blast
    with T Some assms(6) show ?thesis by (auto simp: redirect_target_def split: if_splits)
  qed
qed

theorem nvm_redirect_bio_correct_witness:
  "let b = \<lparr>bi_sector = SECTOR_FROM_BLOCK (main_block small_geo 2 1), bi_vcnt = 1, bi_read = True, bi_dev = SSD\<rparr>
   in bi_dev (fst (nvm_redirect_bio small_geo one_mapped b DATA)) = NVM
      \<and> bi_sector (fst (nvm_redirect_bio small_geo one_mapped b DATA)) = SECTOR_FROM_BLOCK 1"
proof -
  have m: "main_blkaddr (nsb one_mapped) = 0"
    by (simp add: one_mapped_def took_def take_segment_def fresh_nsbi_def zero_nsb_def)
  show ?thesis
    unfolding Let_def
    using nvm_redirect_bio_correct [OF small_geo_ok(1) one_mapped_ok, of 2 1
        "\<lparr>bi_sector = SECTOR_FROM_BLOCK (main_block small_geo 2 1), bi_vcnt = 1, bi_read = True, bi_dev = SSD\<rparr>" DATA]
    by (simp add: small_geo_ok one_mapped_redirect one_mapped_wf m)
qed

text \<open>
  C14. Redirection never aliases: two data bios that both end up on the NVM device at the same
  sector were addressed to the same SSD sector.
\<close>

theorem nvm_redirect_bio_no_alias:
  assumes "geo_ok g" and "nvm_ok g nsbi"
    and "s < main_segments g" and "off < blocks_per_seg g" and "bi_sector b = SECTOR_FROM_BLOCK (main_block g s off)"
    and "s' < main_segments g" and "off' < blocks_per_seg g" and "bi_sector b' = SECTOR_FROM_BLOCK (main_block g s' off')"
    and "type \<notin> {META, META_FLUSH}" and "type' \<notin> {META, META_FLUSH}"
    and "bi_dev b = SSD" and "bi_dev b' = SSD"
    and "bi_dev (fst (nvm_redirect_bio g nsbi b type)) = NVM"
    and "bi_dev (fst (nvm_redirect_bio g nsbi b' type')) = NVM"
    and "bi_sector (fst (nvm_redirect_bio g nsbi b type)) = bi_sector (fst (nvm_redirect_bio g nsbi b' type'))"
  shows "bi_sector b = bi_sector b'"
proof -
  have eq: "fst (nvm_redirect_bio g nsbi b type) =
      (case redirect_target g nsbi s off of None \<Rightarrow> b
       | Some t \<Rightarrow> b\<lparr>bi_sector := SECTOR_FROM_BLOCK t, bi_dev := NVM\<rparr>)"
    "fst (nvm_redirect_bio g nsbi b' type') =
      (case redirect_target g nsbi s' off' of None \<Rightarrow> b'
       | Some t \<Rightarrow> b'\<lparr>bi_sector := SECTOR_FROM_BLOCK t, bi_dev := NVM\<rparr>)"
    using redirect_bio_target [OF assms(1-5)] redirect_bio_target [OF assms(1,2,6-8)] assms(9,10) by auto
  then obtain t t' where t: "redirect_target g nsbi s off = Some t" "redirect_target g nsbi s' off' = Some t'"
    using assms(11-14) by (auto split: option.splits)
  with eq assms(15) have "t = t'" by (simp add: SECTOR_FROM_BLOCK_def push_bit_eq_mult)
  with t redirect_target_inj [OF assms(2,3,6,4,7)] assms(5,8) show ?thesis by auto
qed

theorem nvm_redirect_bio_no_alias_witness:
  "let b = \<lparr>bi_sector = SECTOR_FROM_BLOCK (main_block small_geo 2 1), bi_vcnt = 1, bi_read = True, bi_dev = SSD\<rparr>
   in bi_dev (fst (nvm_redirect_bio small_geo one_mapped b DATA)) = NVM \<and> bi_sector b = bi_sector b"
proof -
  let ?b = "\<lparr>bi_sector = SECTOR_FROM_BLOCK (main_block small_geo 2 1), bi_vcnt = 1, bi_read = True, bi_dev = SSD\<rparr>"
  have "fst (nvm_redirect_bio small_geo one_mapped ?b DATA) = ?b\<lparr>bi_sector := SECTOR_FROM_BLOCK 1, bi_dev := NVM\<rparr>"
    by (subst redirect_bio_target [OF small_geo_ok(1) one_mapped_ok, of 2 1])
      (simp_all add: small_geo_ok one_mapped_target [simplified])
  then show ?thesis
    using nvm_redirect_bio_no_alias [OF small_geo_ok(1) one_mapped_ok, of 2 1 ?b 2 1 ?b DATA DATA]
    by (simp add: small_geo_ok)
qed

text \<open>
  Direct I/O and block I/O agree: for a block of the main area and the same number of
  blocks, \<open>nvm_redirect_dio\<close> chooses the device and the block that \<open>nvm_redirect_bio\<close>
  chooses, and leaves the same LFU counters.
\<close>

lemma nvm_redirect_dio_eq_bio:
  assumes "geo_ok g" and "nvm_ok g nsbi" and "s < main_segments g" and "off < blocks_per_seg g"
    and "n < 2 ^ 31" and "type \<notin> {META, META_FLUSH}"
    and "b = \<lparr>bi_sector = SECTOR_FROM_BLOCK (main_block g s off), bi_vcnt = n, bi_read = \<not> w, bi_dev = SSD\<rparr>"
    and "bh = \<lparr>b_blocknr = main_block g s off, b_bdev = SSD\<rparr>"
  shows "b_bdev (fst (nvm_redirect_dio g nsbi bh n w)) = bi_dev (fst (nvm_redirect_bio g nsbi b type))
    \<and> SECTOR_FROM_BLOCK (b_blocknr (fst (nvm_redirect_dio g nsbi bh n w)))
        = bi_sector (fst (nvm_redirect_bio g nsbi b type))
    \<and> snd (nvm_redirect_dio g nsbi bh n w) = snd (nvm_redirect_bio g nsbi b type)"
proof -
  have blk: "SECTOR_TO_BLOCK (SECTOR_FROM_BLOCK (main_block g s off)) = main_block g s off"
    "u32_wrap (main_block g s off) = main_block g s off"
    using main_block_range(1) [OF assms(1,3,4)] by (simp_all add: sector_roundtrip)
  show ?thesis
    using assms(5,6) unfolding assms(7,8)
    by (simp add: nvm_redirect_dio_def nvm_redirect_bio_def blk Let_def)
qed

end
