(* ===== verification/Array_Heap.thy ===== *)
theory Array_Heap
  imports Prelude
begin

text \<open>
  Binary heaps in an array, independent of the order: sifting up, sifting down, and selecting
  the best \<open>k\<close> of a sequence with a heap of size \<open>k\<close>. \<open>R p c\<close> reads ``\<open>p\<close> may be the parent of
  \<open>c\<close>''. The two heaps of \<open>src/nvm.c\<close> are instances (\<open>Nvm_Heap\<close>): the lemmas are proved once
  in the locale \<open>heap_order\<close>.
\<close>

subsection \<open>Reference algorithms\<close>

function sift_up :: "('a \<Rightarrow> 'a \<Rightarrow> bool) \<Rightarrow> 'a carray \<Rightarrow> nat \<Rightarrow> 'a \<Rightarrow> 'a carray" where
  "sift_up R a i x =
     (if 0 < i \<and> \<not> R (a ((i - 1) div 2)) x
      then sift_up R (a(i := a ((i - 1) div 2))) ((i - 1) div 2) x
      else a(i := x))"
  by pat_completeness auto
termination
  by (relation "measure (\<lambda>(R, a, i, x). i)") auto

definition best_child :: "('a \<Rightarrow> 'a \<Rightarrow> bool) \<Rightarrow> 'a carray \<Rightarrow> nat \<Rightarrow> nat \<Rightarrow> nat" where
  "best_child R a n i =
     (if 2 * i + 1 < n - 1 \<and> \<not> R (a (2 * i + 1)) (a (2 * i + 2)) then 2 * i + 2 else 2 * i + 1)"

lemma best_child_gt: "i < best_child R a n i"
  by (simp add: best_child_def)

function sift_down :: "('a \<Rightarrow> 'a \<Rightarrow> bool) \<Rightarrow> 'a carray \<Rightarrow> nat \<Rightarrow> nat \<Rightarrow> 'a \<Rightarrow> 'a carray" where
  "sift_down R a n i x =
     (if i < n \<and> best_child R a n i < n \<and> \<not> R x (a (best_child R a n i))
      then sift_down R (a(i := a (best_child R a n i))) n (best_child R a n i) x
      else a(i := x))"
  by pat_completeness auto
termination
proof (relation "measure (\<lambda>(R, a, n, i, x). n - i)", goal_cases)
  case (2 R a n i x)
  then show ?case using best_child_gt [of i R a n] by auto
qed simp

declare sift_up.simps [simp del] sift_down.simps [simp del]

definition heap_prop :: "('a \<Rightarrow> 'a \<Rightarrow> bool) \<Rightarrow> 'a carray \<Rightarrow> nat \<Rightarrow> bool" where
  "heap_prop R a n \<longleftrightarrow> (\<forall>i. 0 < i \<longrightarrow> i < n \<longrightarrow> R (a ((i - 1) div 2)) (a i))"

definition elems :: "'a carray \<Rightarrow> nat \<Rightarrow> 'a multiset" where
  "elems a n = image_mset a (mset_set {..<n})"

text \<open>Offering an element to a heap of capacity \<open>k\<close>: fill it up, then replace the root by better ones.\<close>

definition offer :: "('a \<Rightarrow> 'a \<Rightarrow> bool) \<Rightarrow> nat \<Rightarrow> 'a \<Rightarrow> 'a carray \<times> nat \<Rightarrow> 'a carray \<times> nat" where
  "offer R k x h = (let (a, n) = h in
     if n < k then (sift_up R a n x, Suc n)
     else if n = 0 \<or> R x (a 0) then (a, n)
     else (sift_down R a n 0 x, n))"

subsection \<open>Elements\<close>

lemma elems_size [simp]: "size (elems a n) = n"
  by (simp add: elems_def)

lemma elems_0 [simp]: "elems a 0 = {#}"
  by (simp add: elems_def)

lemma elems_Suc: "elems a (Suc n) = add_mset (a n) (elems a n)"
  by (simp add: elems_def lessThan_Suc)

lemma elems_cong: "(\<And>i. i < n \<Longrightarrow> a i = b i) \<Longrightarrow> elems a n = elems b n"
  by (simp add: elems_def) (rule image_mset_cong, simp)

lemma elems_iff: "x \<in># elems a n \<longleftrightarrow> (\<exists>i < n. x = a i)"
  by (auto simp: elems_def)

lemma elems_upd: "i < n \<Longrightarrow> add_mset (a i) (elems (a(i := x)) n) = add_mset x (elems a n)"
proof (induction n)
  case (Suc n)
  show ?case
  proof (cases "i = n")
    case True
    have "elems (a(n := x)) n = elems a n" by (rule elems_cong) simp
    moreover have "(a(n := x)) n = x" by simp
    ultimately show ?thesis unfolding True elems_Suc by (metis add_mset_commute)
  next
    case False
    with Suc.prems have "i < n" by simp
    then have "add_mset (a i) (elems (a(i := x)) n) = add_mset x (elems a n)" by (rule Suc.IH)
    then have "add_mset (a n) (add_mset (a i) (elems (a(i := x)) n)) = add_mset (a n) (add_mset x (elems a n))"
      by (rule arg_cong)
    moreover have "(a(i := x)) n = a n" using False by simp
    ultimately show ?thesis unfolding elems_Suc by (metis add_mset_commute)
  qed
qed simp

lemma elems_move:
  assumes "i < n" "j < n" "j \<noteq> i"
  shows "elems ((a(i := a j))(j := x)) n = elems (a(i := x)) n"
proof -
  have "add_mset (a j) (elems ((a(i := a j))(j := x)) n) = add_mset x (elems (a(i := a j)) n)"
    using elems_upd [OF assms(2), of "a(i := a j)" x] assms(3) by simp
  then have "add_mset (a i) (add_mset (a j) (elems ((a(i := a j))(j := x)) n))
      = add_mset (a j) (add_mset x (elems a n))"
    using elems_upd [OF assms(1), of a "a j"] by (metis add_mset_commute)
  also have "\<dots> = add_mset (a j) (add_mset (a i) (elems (a(i := x)) n))"
    using elems_upd [OF assms(1), of a x] by simp
  finally show ?thesis by (simp add: add_mset_commute [of "a i"])
qed

lemma elems_sift_up: "i < n \<Longrightarrow> elems (sift_up R a i x) n = elems (a(i := x)) n"
proof (induction R a i x rule: sift_up.induct)
  case (1 R a i x)
  let ?j = "(i - 1) div 2"
  show ?case
  proof (cases "0 < i \<and> \<not> R (a ?j) x")
    case True
    then have j: "?j < n" "?j \<noteq> i" using "1.prems" by auto
    have "elems ((a(i := a ?j))(?j := x)) n = elems (a(i := x)) n" using "1.prems" j by (rule elems_move)
    moreover have "elems (sift_up R (a(i := a ?j)) ?j x) n = elems ((a(i := a ?j))(?j := x)) n"
      by (rule "1.IH" [OF True j(1)])
    ultimately show ?thesis using True by (subst sift_up.simps) simp
  next
    case False
    then have "sift_up R a i x = a(i := x)" by (subst sift_up.simps) auto
    then show ?thesis by (rule arg_cong)
  qed
qed

lemma elems_sift_down: "i < n \<Longrightarrow> elems (sift_down R a n i x) n = elems (a(i := x)) n"
proof (induction R a n i x rule: sift_down.induct)
  case (1 R a n i x)
  let ?j = "best_child R a n i"
  show ?case
  proof (cases "i < n \<and> ?j < n \<and> \<not> R x (a ?j)")
    case True
    then have j: "?j < n" "?j \<noteq> i" using best_child_gt [of i R a n] by auto
    have "elems (sift_down R a n i x) n = elems (sift_down R (a(i := a ?j)) n ?j x) n"
      using True by (subst sift_down.simps) simp
    also have "\<dots> = elems ((a(i := a ?j))(?j := x)) n" by (rule "1.IH" [OF True j(1)])
    also have "\<dots> = elems (a(i := x)) n" using "1.prems" j by (rule elems_move)
    finally show ?thesis .
  next
    case False
    then have "sift_down R a n i x = a(i := x)" by (subst sift_down.simps) auto
    then show ?thesis by (rule arg_cong)
  qed
qed

text \<open>The element at the hole is never read.\<close>

lemma sift_down_hole: "sift_down R (a(i := y)) n i x = sift_down R a n i x"
proof -
  have b: "best_child R (a(i := y)) n i = best_child R a n i" by (simp add: best_child_def)
  have "(a(i := y)) (best_child R a n i) = a (best_child R a n i)"
    using best_child_gt [of i R a n] by simp
  then show ?thesis by (subst (1 2) sift_down.simps) (simp add: b)
qed

lemma map_filter_skip:
  assumes "i \<le> m" and "\<And>j. i \<le> j \<Longrightarrow> j < m \<Longrightarrow> f j = None"
  shows "List.map_filter f [i..<n] = List.map_filter f [m..<n]"
  using assms
proof (induction "m - i" arbitrary: i)
  case (Suc d)
  then have IH: "List.map_filter f [Suc i..<n] = List.map_filter f [m..<n]" by simp
  show ?case
  proof (cases "i < n")
    case True
    then show ?thesis using Suc IH by (simp add: upt_conv_Cons)
  next
    case False
    then show ?thesis using Suc by simp
  qed
qed simp

subsection \<open>Order\<close>

locale heap_order =
  fixes R :: "'a \<Rightarrow> 'a \<Rightarrow> bool"
  assumes R_trans: "R x y \<Longrightarrow> R y z \<Longrightarrow> R x z"
    and R_total: "R x y \<or> R y x"
begin

lemma R_refl [simp]: "R x x"
  using R_total by blast

text \<open>A heap but for a hole at \<open>i\<close> that is about to receive \<open>x\<close>, moving upwards.\<close>

definition up_inv :: "'a carray \<Rightarrow> nat \<Rightarrow> nat \<Rightarrow> 'a \<Rightarrow> bool" where
  "up_inv a n i x \<longleftrightarrow> i < n
     \<and> (\<forall>c. 0 < c \<longrightarrow> c < n \<longrightarrow> c \<noteq> i \<longrightarrow> (c - 1) div 2 \<noteq> i \<longrightarrow> R (a ((c - 1) div 2)) (a c))
     \<and> (\<forall>c. 0 < c \<longrightarrow> c < n \<longrightarrow> (c - 1) div 2 = i \<longrightarrow>
          R x (a c) \<and> (0 < i \<longrightarrow> R (a ((i - 1) div 2)) (a c)))"

lemma up_inv_step:
  assumes inv: "up_inv a n i x" and i: "0 < i" "\<not> R (a ((i - 1) div 2)) x"
  shows "up_inv (a(i := a ((i - 1) div 2))) n ((i - 1) div 2) x"
proof -
  let ?p = "\<lambda>c. (c - 1) div 2 :: nat" and ?j = "(i - 1) div 2" and ?b = "a(i := a ((i - 1) div 2))"
  have ji: "?j < i" using i(1) by linarith
  have R: "R x (a ?j)" using i(2) R_total by blast
  have old: "R (a (?p c)) (a c)" if "0 < c" "c < n" "c \<noteq> i" "?p c \<noteq> i" for c
    using inv that unfolding up_inv_def by blast
  have kid: "R (a ?j) (a c)" if "0 < c" "c < n" "?p c = i" for c
    using inv that i(1) unfolding up_inv_def by blast
  have "R (?b (?p c)) (?b c)" if c: "0 < c" "c < n" "c \<noteq> ?j" "?p c \<noteq> ?j" for c
    using old [OF c(1,2)] kid [OF c(1,2)] c by (cases "?p c = i") auto
  moreover have "R x (?b c) \<and> (0 < ?j \<longrightarrow> R (?b (?p ?j)) (?b c))" if c: "0 < c" "c < n" "?p c = ?j" for c
  proof -
    have up: "R (a ?j) (?b c)" using old [OF c(1,2)] c(3) ji by (cases "c = i") auto
    have "R (?b (?p ?j)) (a ?j)" if "0 < ?j"
    proof -
      have "?p ?j < ?j" using that by linarith
      then show ?thesis using old [of ?j] ji inv that by (simp add: up_inv_def)
    qed
    with up R R_trans show ?thesis by blast
  qed
  ultimately show ?thesis using inv ji unfolding up_inv_def by (auto simp del: fun_upd_apply)
qed

lemma heap_sift_up: "up_inv a n i x \<Longrightarrow> heap_prop R (sift_up R a i x) n"
proof (induction i arbitrary: a rule: less_induct)
  case (less i)
  show ?case
  proof (cases "0 < i \<and> \<not> R (a ((i - 1) div 2)) x")
    case True
    then have "heap_prop R (sift_up R (a(i := a ((i - 1) div 2))) ((i - 1) div 2) x) n"
      by (intro less.IH up_inv_step less.prems) auto
    with True show ?thesis by (subst sift_up.simps) simp
  next
    case False
    then have eq: "sift_up R a i x = a(i := x)" by (subst sift_up.simps) auto
    show ?thesis
      unfolding eq heap_prop_def
    proof (intro allI impI)
      fix c assume c: "0 < c" "c < n"
      have "(c - 1) div 2 \<noteq> c" using c(1) by linarith
      then show "R ((a(i := x)) ((c - 1) div 2)) ((a(i := x)) c)"
        using less.prems False c unfolding up_inv_def
        by (cases "c = i"; cases "(c - 1) div 2 = i") auto
    qed
  qed
qed

lemma heap_insert: "heap_prop R a n \<Longrightarrow> heap_prop R (sift_up R a n x) (Suc n)"
  by (rule heap_sift_up) (auto simp: up_inv_def heap_prop_def)

text \<open>A heap but for a hole at \<open>i\<close> that is about to receive \<open>x\<close>, moving downwards.\<close>

definition down_inv :: "'a carray \<Rightarrow> nat \<Rightarrow> nat \<Rightarrow> 'a \<Rightarrow> bool" where
  "down_inv a n i x \<longleftrightarrow> i < n
     \<and> (\<forall>c. 0 < c \<longrightarrow> c < n \<longrightarrow> c \<noteq> i \<longrightarrow> (c - 1) div 2 \<noteq> i \<longrightarrow> R (a ((c - 1) div 2)) (a c))
     \<and> (0 < i \<longrightarrow> R (a ((i - 1) div 2)) x
          \<and> (\<forall>c. 0 < c \<longrightarrow> c < n \<longrightarrow> (c - 1) div 2 = i \<longrightarrow> R (a ((i - 1) div 2)) (a c)))"

lemma best_child_best:
  assumes "0 < c" "c < n" "(c - 1) div 2 = i"
  shows "best_child R a n i < n \<and> R (a (best_child R a n i)) (a c)"
proof -
  have "c = 2 * i + 1 \<or> c = 2 * i + 2" using assms(1,3) by presburger
  then show ?thesis using assms(2) R_total by (auto simp: best_child_def)
qed

lemma down_inv_step:
  assumes inv: "down_inv a n i x" and j: "best_child R a n i < n" "\<not> R x (a (best_child R a n i))"
  shows "down_inv (a(i := a (best_child R a n i))) n (best_child R a n i) x"
proof -
  let ?p = "\<lambda>c. (c - 1) div 2 :: nat" and ?j = "best_child R a n i" and ?b = "a(i := a (best_child R a n i))"
  have ij: "i < ?j" by (rule best_child_gt)
  have pj: "?p ?j = i" by (simp add: best_child_def)
  have R: "R (a ?j) x" using j(2) R_total by blast
  have old: "R (a (?p c)) (a c)" if "0 < c" "c < n" "c \<noteq> i" "?p c \<noteq> i" for c
    using inv that unfolding down_inv_def by blast
  have up: "0 < i \<Longrightarrow> R (a (?p i)) (a ?j)" using inv pj ij j(1) unfolding down_inv_def by auto
  have "R (?b (?p c)) (?b c)" if c: "0 < c" "c < n" "c \<noteq> ?j" "?p c \<noteq> ?j" for c
  proof (cases "?p c = i")
    case True
    then have "c \<noteq> i" using c(1) by linarith
    with True best_child_best [OF c(1,2) True] show ?thesis by simp
  next
    case False
    then show ?thesis using old [OF c(1,2)] up c(1) by (cases "c = i") auto
  qed
  moreover have "R (?b (?p ?j)) x" using R pj by simp
  moreover have "R (?b (?p ?j)) (?b c)" if c: "0 < c" "c < n" "?p c = ?j" for c
  proof -
    have "c \<noteq> i" using c ij by linarith
    then show ?thesis using old [OF c(1,2)] c(3) ij pj by simp
  qed
  ultimately show ?thesis using j(1) unfolding down_inv_def by (auto simp del: fun_upd_apply)
qed

lemma heap_sift_down: "down_inv a n i x \<Longrightarrow> heap_prop R (sift_down R a n i x) n"
proof (induction "n - i" arbitrary: a i rule: less_induct)
  case less
  let ?j = "best_child R a n i"
  show ?case
  proof (cases "?j < n \<and> \<not> R x (a ?j)")
    case True
    then have "heap_prop R (sift_down R (a(i := a ?j)) n ?j x) n"
      using best_child_gt [of i R a n] less.prems
      by (intro less.hyps down_inv_step) (auto simp: down_inv_def)
    with True less.prems show ?thesis by (subst sift_down.simps) (simp add: down_inv_def)
  next
    case False
    then have eq: "sift_down R a n i x = a(i := x)" by (subst sift_down.simps) auto
    show ?thesis
      unfolding eq heap_prop_def
    proof (intro allI impI)
      fix c assume c: "0 < c" "c < n"
      have ne: "(c - 1) div 2 \<noteq> c" using c(1) by linarith
      have kid: "R x (a c)" if "(c - 1) div 2 = i"
        using best_child_best [OF c that] False R_trans by blast
      show "R ((a(i := x)) ((c - 1) div 2)) ((a(i := x)) c)"
        using less.prems c ne kid unfolding down_inv_def
        by (cases "c = i"; cases "(c - 1) div 2 = i") auto
    qed
  qed
qed

lemma heap_replace_root: "heap_prop R a n \<Longrightarrow> 0 < n \<Longrightarrow> heap_prop R (sift_down R a n 0 x) n"
  by (rule heap_sift_down) (auto simp: down_inv_def heap_prop_def)

lemma heap_root_top: "heap_prop R a n \<Longrightarrow> i < n \<Longrightarrow> R (a 0) (a i)"
proof (induction i rule: less_induct)
  case (less i)
  show ?case
  proof (cases "i = 0")
    case False
    then have "(i - 1) div 2 < i" by linarith
    with less have "R (a 0) (a ((i - 1) div 2))" by simp
    moreover have "R (a ((i - 1) div 2)) (a i)" using less.prems False by (simp add: heap_prop_def)
    ultimately show ?thesis by (rule R_trans)
  qed simp
qed

subsection \<open>Selecting the best \<open>k\<close>\<close>

text \<open>
  After the elements \<open>cs\<close> have been offered, the heap holds \<open>min k (length cs)\<close> of them, and
  every element left out may sit above every element kept.
\<close>

definition selected :: "nat \<Rightarrow> 'a list \<Rightarrow> 'a carray \<Rightarrow> nat \<Rightarrow> bool" where
  "selected k cs a n \<longleftrightarrow> heap_prop R a n \<and> n = min k (length cs)
     \<and> (\<exists>M. mset cs = elems a n + M \<and> (\<forall>y \<in># M. \<forall>h \<in># elems a n. R y h))"

lemma selected_fill:
  assumes "selected k cs a n" and "n < k"
  shows "selected k (cs @ [x]) (sift_up R a n x) (Suc n)"
proof -
  from assms obtain M where M: "mset cs = elems a n + M" and n: "n = length cs"
    by (auto simp: selected_def)
  then have "size (mset cs) = size (elems a n) + size M" by simp
  with n have "M = {#}" by simp
  have "elems (sift_up R a n x) (Suc n) = elems (a(n := x)) (Suc n)" by (rule elems_sift_up) simp
  also have "\<dots> = add_mset x (elems a n)"
    using elems_cong [of n a "a(n := x)"] by (simp add: elems_Suc)
  finally have "elems (sift_up R a n x) (Suc n) = mset (cs @ [x])" using M \<open>M = {#}\<close> by simp
  with assms n show ?thesis by (auto simp: selected_def heap_insert)
qed

lemma root_above: "heap_prop R a n \<Longrightarrow> h \<in># elems a n \<Longrightarrow> R (a 0) h"
  using heap_root_top by (auto simp: elems_iff)

lemma selected_skip:
  assumes "selected k cs a n" and "\<not> n < k" and x: "n = 0 \<or> R x (a 0)"
  shows "selected k (cs @ [x]) a n"
proof -
  from assms obtain M where M: "mset cs = elems a n + M" "\<forall>y \<in># M. \<forall>h \<in># elems a n. R y h"
    and h: "heap_prop R a n" by (auto simp: selected_def)
  have "R x h" if "h \<in># elems a n" for h
    using root_above [OF h that] x that R_trans by (auto simp: elems_iff)
  with M have "mset (cs @ [x]) = elems a n + add_mset x M
      \<and> (\<forall>y \<in># add_mset x M. \<forall>h \<in># elems a n. R y h)" by simp
  with assms show ?thesis unfolding selected_def by (auto intro!: exI [of _ "add_mset x M"])
qed

lemma selected_replace:
  assumes s: "selected k cs a n" and "\<not> n < k" and x: "0 < n" "\<not> R x (a 0)"
  shows "selected k (cs @ [x]) (sift_down R a n 0 x) n"
proof -
  let ?b = "sift_down R a n 0 x"
  from s obtain M where M: "mset cs = elems a n + M" "\<forall>y \<in># M. \<forall>h \<in># elems a n. R y h"
    and h: "heap_prop R a n" by (auto simp: selected_def)
  have "elems ?b n = elems (a(0 := x)) n" using x(1) by (rule elems_sift_down)
  then have e: "add_mset (a 0) (elems ?b n) = add_mset x (elems a n)"
    using elems_upd [OF x(1), of a x] by simp
  have a0: "a 0 \<in># elems a n" using x(1) by (auto simp: elems_iff)
  then obtain E where E: "elems a n = add_mset (a 0) E" by (metis insert_DiffM)
  with e have Eb: "elems ?b n = add_mset x E" by (simp add: add_mset_commute)
  have above: "R (a 0) h'" if "h' \<in># elems ?b n" for h'
    using that x(2) R_total [of x "a 0"] root_above [OF h, of h'] unfolding Eb E by auto
  moreover have "R y h'" if "y \<in># M" "h' \<in># elems ?b n" for y h'
    using M(2) that(1) a0 above [OF that(2)] R_trans by blast
  moreover have "mset (cs @ [x]) = elems ?b n + add_mset (a 0) M" using M(1) by (simp add: Eb E)
  ultimately have "\<exists>M. mset (cs @ [x]) = elems ?b n + M \<and> (\<forall>y \<in># M. \<forall>h' \<in># elems ?b n. R y h')"
    by (intro exI [of _ "add_mset (a 0) M"]) auto
  moreover have "n = min k (length (cs @ [x]))" using s assms(2) by (auto simp: selected_def)
  ultimately show ?thesis using h x(1) unfolding selected_def by (simp add: heap_replace_root)
qed

lemma selectedD:
  assumes "selected k cs a n"
  shows "heap_prop R a n" "n = min k (length cs)" "elems a n \<subseteq># mset cs"
    "y \<in># mset cs - elems a n \<Longrightarrow> h \<in># elems a n \<Longrightarrow> R y h"
  using assms by (auto simp: selected_def)

lemma offers_selected: "fold (offer R k) cs (a, 0) = (b, n) \<Longrightarrow> selected k cs b n"
proof (induction cs arbitrary: b n rule: rev_induct)
  case Nil
  then show ?case by (simp add: selected_def heap_prop_def)
next
  case (snoc x cs)
  obtain b' n' where f: "fold (offer R k) cs (a, 0) = (b', n')" by force
  with snoc have "selected k cs b' n'" "offer R k x (b', n') = (b, n)" by simp_all
  then show ?case
    using selected_fill [of k cs b' n'] selected_skip [of k cs b' n'] selected_replace [of k cs b' n']
    by (auto simp: offer_def split: if_splits)
qed

end

end
