(* ===== verification/Nvm_Lfu.thy ===== *)
theory Nvm_Lfu
  imports Nvm_Mpt
begin

text \<open>
  The four-level access counters of SSD segments, from \<open>src/nvm.c\<close> (\<open>nvm_move_lfu_count\<close>,
  \<open>calc_count\<close> and the initialisation in \<open>init_nvm_sb_info\<close>). The counters are \<open>atomic_t\<close>;
  \<open>-1\<close> marks a segment that is not in use. The current level counts most: weight 4, then
  3, 2, 1 for the levels behind it.
\<close>

subsection \<open>Operations\<close>

definition init_lfu_count :: "nat \<Rightarrow> int carray carray" where
  "init_lfu_count segs = (\<lambda>i j. if i < LFU_LEVELS \<and> j < segs then - 1 else 0)"

definition nvm_move_lfu_count :: "nat \<Rightarrow> nvm_sb_info \<Rightarrow> nvm_sb_info" where
  "nvm_move_lfu_count segs nsbi =
     (let pre_index = now_lfu_counter nsbi;
          clear_index = (if pre_index = 0 then LFU_LEVELS - 1 else pre_index - 1)
      in nsbi\<lparr>lfu_count := (lfu_count nsbi)(clear_index :=
                (\<lambda>i. if i < segs \<and> lfu_count nsbi pre_index i \<noteq> - 1 then 0
                     else lfu_count nsbi clear_index i)),
              now_lfu_counter := clear_index\<rparr>)"

text \<open>
  The weight of level \<open>i\<close> when level \<open>now\<close> is current. The counter index is always below 4
  (\<open>nvm_move_lfu_count_level\<close>); the code leaves the array uninitialised otherwise.
\<close>

definition lfu_level :: "nat \<Rightarrow> nat \<Rightarrow> int" where
  "lfu_level now i =
     (if now = 0 then [4, 3, 2, 1] ! i
      else if now = 3 then [3, 2, 1, 4] ! i
      else if now = 2 then [2, 1, 4, 3] ! i
      else if now = 1 then [1, 4, 3, 2] ! i
      else 0)"

definition calc_count :: "nvm_sb_info \<Rightarrow> nat \<Rightarrow> int" where
  "calc_count nsbi ssd_segno =
     (let now = now_lfu_counter nsbi;
          raw = map (\<lambda>i. lfu_count nsbi i ssd_segno) [0..<LFU_LEVELS];
          count = map (\<lambda>c. if c = - 1 then 0 else c) raw;
          nums = length (filter (\<lambda>c. c = - 1) raw)
      in if nums = LFU_LEVELS then - 1
         else fold (\<lambda>i acc. s32 (acc + s32 (count ! i * lfu_level now i))) [0..<LFU_LEVELS] 0)"

subsection \<open>Facts\<close>

lemma upt4: "[0..<4] = [0, 1, 2, 3 :: nat]"
  by (simp add: upt_rec)

lemma nvm_move_lfu_count_level:
  "now_lfu_counter nsbi < 4 \<Longrightarrow> now_lfu_counter (nvm_move_lfu_count segs nsbi) < 4"
  by (auto simp: nvm_move_lfu_count_def Let_def)

definition lfu_val :: "nvm_sb_info \<Rightarrow> nat \<Rightarrow> nat \<Rightarrow> int" where
  "lfu_val nsbi i s = (if lfu_count nsbi i s = - 1 then 0 else lfu_count nsbi i s)"

definition lfu_used :: "nvm_sb_info \<Rightarrow> nat \<Rightarrow> bool" where
  "lfu_used nsbi s \<longleftrightarrow> (\<exists>i < 4. lfu_count nsbi i s \<noteq> - 1)"

text \<open>Counters below \<open>2^27\<close> cannot overflow the weighted sum.\<close>

definition lfu_bounded :: "nvm_sb_info \<Rightarrow> nat \<Rightarrow> bool" where
  "lfu_bounded nsbi s \<longleftrightarrow> (\<forall>i < 4. - 1 \<le> lfu_count nsbi i s \<and> lfu_count nsbi i s < 2 ^ 27)"

lemma all_below_4: "(\<forall>i < 4. P i) \<longleftrightarrow> P 0 \<and> P 1 \<and> P 2 \<and> P (3 :: nat)"
  by (auto simp: less_Suc_eq numeral_eq_Suc)

lemma below_4: "(i :: nat) < 4 \<Longrightarrow> i = 0 \<or> i = 1 \<or> i = 2 \<or> i = 3"
  by linarith

lemma sum_below_4: "(\<Sum>i < 4. f i) = f 0 + f 1 + f 2 + (f (3 :: nat) :: int)"
  by (simp add: numeral_eq_Suc)

lemma calc_count_sum:
  assumes b: "lfu_bounded nsbi s" and now: "now_lfu_counter nsbi < 4"
  shows "calc_count nsbi s =
    (if lfu_used nsbi s then \<Sum>i < 4. lfu_val nsbi i s * (4 - int ((i + 4 - now_lfu_counter nsbi) mod 4)) else - 1)"
proof -
  let ?v = "\<lambda>i. lfu_val nsbi i s"
  have v: "0 \<le> ?v i \<and> ?v i < 2 ^ 27" if "i < 4" for i
    using b that by (force simp: lfu_bounded_def lfu_val_def)
  have nums: "length (filter (\<lambda>c. c = - 1) (map (\<lambda>i. lfu_count nsbi i s) [0..<4])) = 4 \<longleftrightarrow> \<not> lfu_used nsbi s"
    using all_below_4 [of "\<lambda>i. lfu_count nsbi i s = - 1"] unfolding upt4 lfu_used_def by auto
  have w: "lfu_level (now_lfu_counter nsbi) i = 4 - int ((i + 4 - now_lfu_counter nsbi) mod 4)" if "i < 4" for i
    using below_4 [OF that] below_4 [OF now] by (elim disjE) (simp_all add: lfu_level_def)
  have l: "1 \<le> lfu_level (now_lfu_counter nsbi) i \<and> lfu_level (now_lfu_counter nsbi) i \<le> 4" if "i < 4" for i
    using below_4 [OF that] below_4 [OF now] by (elim disjE) (simp_all add: lfu_level_def)
  have p: "0 \<le> ?v i * lfu_level (now_lfu_counter nsbi) i \<and> ?v i * lfu_level (now_lfu_counter nsbi) i < 2 ^ 29"
    if "i < 4" for i
  proof -
    have "?v i * lfu_level (now_lfu_counter nsbi) i \<le> ?v i * 4"
      using l [OF that] v [OF that] by (intro mult_left_mono) auto
    with v [OF that] l [OF that] show ?thesis by auto
  qed
  have "calc_count nsbi s = (if lfu_used nsbi s then
      fold (\<lambda>i acc. s32 (acc + s32 (?v i * lfu_level (now_lfu_counter nsbi) i))) [0, 1, 2, 3] 0 else - 1)"
    unfolding calc_count_def Let_def nums by (simp add: upt4 lfu_val_def)
  also have "\<dots> = (if lfu_used nsbi s then \<Sum>i < 4. ?v i * lfu_level (now_lfu_counter nsbi) i else - 1)"
    using p [of 0] p [of 1] p [of 2] p [of 3] by (simp add: sum_below_4)
  finally show ?thesis using w by (simp cong: if_cong)
qed

lemma move_lfu_val:
  assumes "now_lfu_counter nsbi < 4" and "s < segs" and "lfu_count nsbi (now_lfu_counter nsbi) s \<noteq> - 1" and "i < 4"
  shows "lfu_val (nvm_move_lfu_count segs nsbi) i s =
    (if i = (now_lfu_counter nsbi + 3) mod 4 then 0 else lfu_val nsbi i s)"
  using below_4 [OF assms(1)] assms(2,3)
  by (elim disjE) (simp_all add: nvm_move_lfu_count_def Let_def lfu_val_def)

lemma move_lfu_now:
  "now_lfu_counter nsbi < 4 \<Longrightarrow>
   now_lfu_counter (nvm_move_lfu_count segs nsbi) = (now_lfu_counter nsbi + 3) mod 4"
  by (drule below_4) (elim disjE; simp add: nvm_move_lfu_count_def Let_def)

subsection \<open>Properties\<close>

text \<open>
  Ageing: when the counters move on, the weighted count of a segment in use drops by
  exactly the sum of its four level counters, each level losing one in weight and the oldest
  level being cleared for reuse.
\<close>

lemma move_lfu_ages:
  assumes "now_lfu_counter nsbi < 4" and "s < segs"
    and "lfu_count nsbi (now_lfu_counter nsbi) s \<noteq> - 1" and "lfu_bounded nsbi s"
  shows "calc_count (nvm_move_lfu_count segs nsbi) s = calc_count nsbi s - (\<Sum>i < 4. lfu_val nsbi i s)"
proof -
  let ?n = "now_lfu_counter nsbi" and ?m = "nvm_move_lfu_count segs nsbi"
  have "lfu_bounded ?m s"
    using assms(4) by (simp add: lfu_bounded_def nvm_move_lfu_count_def Let_def)
  moreover have "lfu_used ?m s" "lfu_used nsbi s"
    using assms(1,3) by (auto simp: lfu_used_def nvm_move_lfu_count_def Let_def intro!: exI [of _ ?n])
  moreover note nvm_move_lfu_count_level [OF assms(1)]
  ultimately show ?thesis
    using assms(4) below_4 [OF assms(1)]
    by (elim disjE) (simp_all add: calc_count_sum move_lfu_now sum_below_4 move_lfu_val [OF assms(1-3)])
qed

end
