(* ===== verification/Nvm_Heap.thy ===== *)
theory Nvm_Heap
  imports Array_Heap Nvm_Lfu Geometry
begin

text \<open>
  The heaps that choose migration victims, from \<open>src/nvm.c\<close>: a max-heap keeps the coldest
  NVM segments (\<open>get_max_k\<close>), a min-heap the hottest SSD segments (\<open>get_min_k\<close>). A node's
  \<open>count\<close> is an \<open>unsigned long\<close> while the code moves counts through \<open>int\<close> variables; the
  conversions are written out (\<open>to_ulong\<close>, \<open>s32\<close>).
\<close>

subsection \<open>Heap operations\<close>

definition init_max_heap :: "nat \<Rightarrow> max_heap" where
  "init_max_heap kk = \<lparr>nodes = (\<lambda>_. \<lparr>count = 0, seg_off = 0\<rparr>), cur_num = 0, k = kk, max_count = 0\<rparr>"

definition init_min_heap :: "nat \<Rightarrow> min_heap" where
  "init_min_heap kk = \<lparr>mnodes = (\<lambda>_. \<lparr>count = 0, seg_off = 0\<rparr>), mcur_num = 0, mk = kk, min_count = 0\<rparr>"

definition is_empty_heap :: "max_heap \<Rightarrow> bool" where
  "is_empty_heap h \<longleftrightarrow> cur_num h = 0"

definition get_max_heap_top :: "max_heap \<Rightarrow> nat" where
  "get_max_heap_top h = (if is_empty_heap h then 0 else count (nodes h 0))"

function insert_max_loop :: "heap_node carray \<Rightarrow> nat \<Rightarrow> int \<Rightarrow> heap_node carray \<times> nat" where
  "insert_max_loop nd i c =
     (if 0 < i
      then (let j = (i - 1) div 2
            in if to_ulong c \<le> count (nd j) then (nd, i) else insert_max_loop (nd(i := nd j)) j c)
      else (nd, i))"
  by pat_completeness auto
termination
  by (relation "measure (\<lambda>(nd, i, c). i)") auto

definition insert_max_heap :: "max_heap \<Rightarrow> nat \<Rightarrow> int \<Rightarrow> max_heap" where
  "insert_max_heap h sg c =
     (let (nd, i) = insert_max_loop (nodes h) (cur_num h) c
      in h\<lparr>cur_num := cur_num h + 1, nodes := nd(i := \<lparr>count = to_ulong c, seg_off = sg\<rparr>)\<rparr>)"

function insert_min_loop :: "heap_node carray \<Rightarrow> nat \<Rightarrow> int \<Rightarrow> heap_node carray \<times> nat" where
  "insert_min_loop nd i c =
     (if 0 < i
      then (let j = (i - 1) div 2
            in if to_ulong c \<ge> count (nd j) then (nd, i) else insert_min_loop (nd(i := nd j)) j c)
      else (nd, i))"
  by pat_completeness auto
termination
  by (relation "measure (\<lambda>(nd, i, c). i)") auto

definition insert_min_heap :: "min_heap \<Rightarrow> nat \<Rightarrow> int \<Rightarrow> min_heap" where
  "insert_min_heap h sg c =
     (let (nd, i) = insert_min_loop (mnodes h) (mcur_num h) c
      in h\<lparr>mcur_num := mcur_num h + 1, mnodes := nd(i := \<lparr>count = to_ulong c, seg_off = sg\<rparr>)\<rparr>)"

function max_down_loop :: "heap_node carray \<Rightarrow> nat \<Rightarrow> nat \<Rightarrow> int \<Rightarrow> heap_node carray \<times> nat" where
  "max_down_loop nd n i tmp_count =
     (if i < n
      then (let j0 = (i + 1) * 2 - 1;
                j = (if j0 < n - 1 \<and> count (nd j0) < count (nd (j0 + 1)) then j0 + 1 else j0)
            in if j \<ge> n \<or> to_ulong tmp_count \<ge> count (nd j) then (nd, i)
               else max_down_loop (nd(i := nd j)) n j tmp_count)
      else (nd, i))"
  by pat_completeness auto
termination
  by (relation "measure (\<lambda>(nd, n, i, c). n - i)") (auto simp: Let_def split: if_splits)

definition max_heap_adjust_down :: "max_heap \<Rightarrow> max_heap" where
  "max_heap_adjust_down h =
     (let tmp_count = s32 (int (count (nodes h 0)));
          tmp_segoff = seg_off (nodes h 0);
          (nd, i) = max_down_loop (nodes h) (cur_num h) 0 tmp_count
      in h\<lparr>nodes := nd(i := \<lparr>count = to_ulong tmp_count, seg_off = tmp_segoff\<rparr>)\<rparr>)"

function min_down_loop :: "heap_node carray \<Rightarrow> nat \<Rightarrow> nat \<Rightarrow> int \<Rightarrow> heap_node carray \<times> nat" where
  "min_down_loop nd n i tmp_count =
     (if i < n
      then (let j0 = (i + 1) * 2 - 1;
                j = (if j0 < n - 1 \<and> count (nd j0) > count (nd (j0 + 1)) then j0 + 1 else j0)
            in if j \<ge> n \<or> to_ulong tmp_count \<le> count (nd j) then (nd, i)
               else min_down_loop (nd(i := nd j)) n j tmp_count)
      else (nd, i))"
  by pat_completeness auto
termination
  by (relation "measure (\<lambda>(nd, n, i, c). n - i)") (auto simp: Let_def split: if_splits)

definition min_heap_adjust_down :: "min_heap \<Rightarrow> min_heap" where
  "min_heap_adjust_down h =
     (let tmp_count = s32 (int (count (mnodes h 0)));
          tmp_segoff = seg_off (mnodes h 0);
          (nd, i) = min_down_loop (mnodes h) (mcur_num h) 0 tmp_count
      in h\<lparr>mnodes := nd(i := \<lparr>count = to_ulong tmp_count, seg_off = tmp_segoff\<rparr>)\<rparr>)"

declare insert_max_loop.simps [simp del] insert_min_loop.simps [simp del]
  max_down_loop.simps [simp del] min_down_loop.simps [simp del]

subsection \<open>Choosing victims\<close>

text \<open>The conditions \<open>get_max_k\<close> puts on an NVM segment, and its count: \<open>None\<close> skips it.\<close>

definition max_cand :: "f2fs_geo \<Rightarrow> seg_use \<Rightarrow> nvm_sb_info \<Rightarrow> bool \<Rightarrow> nat \<Rightarrow> int option" where
  "max_cand g u nsbi pre_move mpt_index =
     (if get_map_flag nsbi mpt_index = 0 then None
      else if pre_move \<and> get_double_flag nsbi mpt_index \<noteq> 0 then None
      else let ssd_segno = get_mpt_value nsbi mpt_index;
               secno = GET_SEC_FROM_SEG g ssd_segno
           in if sec_usage_check g u secno then None
              else let c = calc_count nsbi ssd_segno in if c \<ge> 0 then Some c else None)"

definition left_segoff :: "nvm_sb_info \<Rightarrow> nat" where
  "left_segoff nsbi = (if cur_alloc_nvm_segoff nsbi < 500 then 0 else cur_alloc_nvm_segoff nsbi - 500)"

definition right_segoff :: "nvm_sb_info \<Rightarrow> nat" where
  "right_segoff nsbi = cur_alloc_nvm_segoff nsbi + 50"

function max_k_fill :: "f2fs_geo \<Rightarrow> seg_use \<Rightarrow> nvm_sb_info \<Rightarrow> bool \<Rightarrow> nat \<Rightarrow> nat \<Rightarrow> max_heap \<Rightarrow> nat \<times> max_heap" where
  "max_k_fill g u nsbi pre_move len i h =
     (if i < len \<and> cur_num h < k h
      then (if left_segoff nsbi \<le> i \<and> i \<le> right_segoff nsbi
            then max_k_fill g u nsbi pre_move len (right_segoff nsbi + 1) h
            else max_k_fill g u nsbi pre_move len (i + 1)
              (case max_cand g u nsbi pre_move i of None \<Rightarrow> h | Some c \<Rightarrow> insert_max_heap h i c))
      else (i, h))"
  by pat_completeness auto
termination
  by (relation "measure (\<lambda>(g, u, nsbi, pre_move, len, i, h). len - i)") auto

function max_k_replace :: "f2fs_geo \<Rightarrow> seg_use \<Rightarrow> nvm_sb_info \<Rightarrow> bool \<Rightarrow> nat \<Rightarrow> nat \<Rightarrow> max_heap \<Rightarrow> max_heap" where
  "max_k_replace g u nsbi pre_move len i h =
     (if i < len
      then (if left_segoff nsbi \<le> i \<and> i \<le> right_segoff nsbi
            then max_k_replace g u nsbi pre_move len (right_segoff nsbi + 1) h
            else max_k_replace g u nsbi pre_move len (i + 1)
              (case max_cand g u nsbi pre_move i of None \<Rightarrow> h
               | Some c \<Rightarrow> if to_ulong c < get_max_heap_top h
                          then max_heap_adjust_down
                                 (h\<lparr>nodes := (nodes h)(0 := \<lparr>count = to_ulong c, seg_off = i\<rparr>)\<rparr>)
                          else h))
      else h)"
  by pat_completeness auto
termination
  by (relation "measure (\<lambda>(g, u, nsbi, pre_move, len, i, h). len - i)") auto

declare max_k_fill.simps [simp del] max_k_replace.simps [simp del]

text \<open>The result is the heap and \<open>Some ENOCOLD\<close> when fewer than \<open>k\<close> segments qualify.\<close>

definition get_max_k :: "f2fs_geo \<Rightarrow> seg_use \<Rightarrow> nvm_sb_info \<Rightarrow> max_heap \<Rightarrow> nat \<Rightarrow> bool
    \<Rightarrow> nvm_err option \<times> max_heap" where
  "get_max_k g u nsbi h len pre_move =
     (let (i, h1) = max_k_fill g u nsbi pre_move len 0 h;
          h2 = max_k_replace g u nsbi pre_move len i h1
      in (if cur_num h2 < k h2 then Some ENOCOLD else None, h2))"

definition min_cand :: "f2fs_geo \<Rightarrow> seg_use \<Rightarrow> nvm_sb_info \<Rightarrow> nat \<Rightarrow> int option" where
  "min_cand g u nsbi segoff =
     (if get_map_flag nsbi (main_segment_nums (nsb nsbi) + segoff) \<noteq> 0 then None
      else let c = calc_count nsbi segoff
           in if c = - 1 then None
              else if sec_usage_check g u (GET_SEC_FROM_SEG g segoff) then None
              else if c > 0 then Some c else None)"

function min_k_fill :: "f2fs_geo \<Rightarrow> seg_use \<Rightarrow> nvm_sb_info \<Rightarrow> nat \<Rightarrow> nat \<Rightarrow> min_heap \<Rightarrow> nat \<times> min_heap" where
  "min_k_fill g u nsbi len i h =
     (if i < len \<and> mcur_num h < mk h
      then min_k_fill g u nsbi len (i + 1)
             (case min_cand g u nsbi i of None \<Rightarrow> h | Some c \<Rightarrow> insert_min_heap h i c)
      else (i, h))"
  by pat_completeness auto
termination
  by (relation "measure (\<lambda>(g, u, nsbi, len, i, h). len - i)") auto

function min_k_replace :: "f2fs_geo \<Rightarrow> seg_use \<Rightarrow> nvm_sb_info \<Rightarrow> nat \<Rightarrow> nat \<Rightarrow> min_heap \<Rightarrow> min_heap" where
  "min_k_replace g u nsbi len i h =
     (if i < len
      then min_k_replace g u nsbi len (i + 1)
             (case min_cand g u nsbi i of None \<Rightarrow> h
              | Some c \<Rightarrow> if to_ulong c > count (mnodes h 0)
                         then min_heap_adjust_down
                                (h\<lparr>mnodes := (mnodes h)(0 := \<lparr>count = to_ulong c, seg_off = i\<rparr>)\<rparr>)
                         else h)
      else h)"
  by pat_completeness auto
termination
  by (relation "measure (\<lambda>(g, u, nsbi, len, i, h). len - i)") auto

declare min_k_fill.simps [simp del] min_k_replace.simps [simp del]

definition get_min_k :: "f2fs_geo \<Rightarrow> seg_use \<Rightarrow> nvm_sb_info \<Rightarrow> min_heap \<Rightarrow> nat \<Rightarrow> nvm_err option \<times> min_heap" where
  "get_min_k g u nsbi h len =
     (let (i, h1) = min_k_fill g u nsbi len 0 h;
          h2 = min_k_replace g u nsbi len i h1
      in (if mcur_num h2 < mk h2 then Some ENOHOT else None, h2))"

subsection \<open>The heap operations are sifting\<close>

definition max_order :: "heap_node \<Rightarrow> heap_node \<Rightarrow> bool" where
  "max_order p c \<longleftrightarrow> count c \<le> count p"

definition min_order :: "heap_node \<Rightarrow> heap_node \<Rightarrow> bool" where
  "min_order p c \<longleftrightarrow> count p \<le> count c"

interpretation maxh: heap_order max_order
  by unfold_locales (auto simp: max_order_def)

interpretation minh: heap_order min_order
  by unfold_locales (auto simp: min_order_def)

lemma insert_max_loop_sift:
  "(case insert_max_loop nd i c of (nd', j) \<Rightarrow> nd'(j := \<lparr>count = to_ulong c, seg_off = sg\<rparr>))
   = sift_up max_order nd i \<lparr>count = to_ulong c, seg_off = sg\<rparr>"
proof (induction nd i c rule: insert_max_loop.induct)
  case (1 nd i c)
  let ?j = "(i - 1) div 2" and ?x = "\<lparr>count = to_ulong c, seg_off = sg\<rparr>"
  show ?case
  proof (cases "0 < i \<and> \<not> max_order (nd ?j) ?x")
    case True
    then have g: "0 < i" "\<not> to_ulong c \<le> count (nd ?j)" by (simp_all add: max_order_def)
    then have "insert_max_loop nd i c = insert_max_loop (nd(i := nd ?j)) ?j c"
      by (subst insert_max_loop.simps) (simp add: Let_def)
    moreover have "sift_up max_order nd i ?x = sift_up max_order (nd(i := nd ?j)) ?j ?x"
      using True by (subst sift_up.simps) simp
    ultimately show ?thesis using "1.IH" [OF g(1) refl g(2)] by (simp only:)
  next
    case False
    then show ?thesis
      by (subst insert_max_loop.simps, subst sift_up.simps) (auto simp: Let_def max_order_def)
  qed
qed

lemma insert_min_loop_sift:
  "(case insert_min_loop nd i c of (nd', j) \<Rightarrow> nd'(j := \<lparr>count = to_ulong c, seg_off = sg\<rparr>))
   = sift_up min_order nd i \<lparr>count = to_ulong c, seg_off = sg\<rparr>"
proof (induction nd i c rule: insert_min_loop.induct)
  case (1 nd i c)
  let ?j = "(i - 1) div 2" and ?x = "\<lparr>count = to_ulong c, seg_off = sg\<rparr>"
  show ?case
  proof (cases "0 < i \<and> \<not> min_order (nd ?j) ?x")
    case True
    then have g: "0 < i" "\<not> to_ulong c \<ge> count (nd ?j)" by (simp_all add: min_order_def)
    then have "insert_min_loop nd i c = insert_min_loop (nd(i := nd ?j)) ?j c"
      by (subst insert_min_loop.simps) (simp add: Let_def)
    moreover have "sift_up min_order nd i ?x = sift_up min_order (nd(i := nd ?j)) ?j ?x"
      using True by (subst sift_up.simps) simp
    ultimately show ?thesis using "1.IH" [OF g(1) refl g(2)] by (simp only:)
  next
    case False
    then show ?thesis
      by (subst insert_min_loop.simps, subst sift_up.simps) (auto simp: Let_def min_order_def)
  qed
qed

lemma max_down_loop_sift:
  "(case max_down_loop nd n i c of (nd', j) \<Rightarrow> nd'(j := \<lparr>count = to_ulong c, seg_off = sg\<rparr>))
   = sift_down max_order nd n i \<lparr>count = to_ulong c, seg_off = sg\<rparr>"
proof (induction nd n i c rule: max_down_loop.induct)
  case (1 nd n i c)
  let ?j = "best_child max_order nd n i" and ?x = "\<lparr>count = to_ulong c, seg_off = sg\<rparr>"
  have j: "?j = (if (i + 1) * 2 - 1 < n - 1 \<and> count (nd ((i + 1) * 2 - 1)) < count (nd ((i + 1) * 2 - 1 + 1))
                 then (i + 1) * 2 - 1 + 1 else (i + 1) * 2 - 1)"
    by (simp add: best_child_def max_order_def not_le algebra_simps)
  show ?case
  proof (cases "i < n \<and> ?j < n \<and> \<not> max_order ?x (nd ?j)")
    case True
    then have g: "i < n" "\<not> (?j \<ge> n \<or> to_ulong c \<ge> count (nd ?j))" by (simp_all add: max_order_def)
    then have "max_down_loop nd n i c = max_down_loop (nd(i := nd ?j)) n ?j c"
      by (subst max_down_loop.simps) (simp only: Let_def flip: j, simp)
    moreover have "sift_down max_order nd n i ?x = sift_down max_order (nd(i := nd ?j)) n ?j ?x"
      using True by (subst sift_down.simps) simp
    ultimately show ?thesis using "1.IH" [OF g(1) refl j g(2)] by (simp only:)
  next
    case False
    then have "max_down_loop nd n i c = (nd, i)"
      by (subst max_down_loop.simps) (simp only: Let_def flip: j, auto simp: max_order_def)
    moreover have "sift_down max_order nd n i ?x = nd(i := ?x)"
      using False by (subst sift_down.simps) auto
    ultimately show ?thesis by simp
  qed
qed

lemma min_down_loop_sift:
  "(case min_down_loop nd n i c of (nd', j) \<Rightarrow> nd'(j := \<lparr>count = to_ulong c, seg_off = sg\<rparr>))
   = sift_down min_order nd n i \<lparr>count = to_ulong c, seg_off = sg\<rparr>"
proof (induction nd n i c rule: min_down_loop.induct)
  case (1 nd n i c)
  let ?j = "best_child min_order nd n i" and ?x = "\<lparr>count = to_ulong c, seg_off = sg\<rparr>"
  have j: "?j = (if (i + 1) * 2 - 1 < n - 1 \<and> count (nd ((i + 1) * 2 - 1)) > count (nd ((i + 1) * 2 - 1 + 1))
                 then (i + 1) * 2 - 1 + 1 else (i + 1) * 2 - 1)"
    by (simp add: best_child_def min_order_def not_le algebra_simps)
  show ?case
  proof (cases "i < n \<and> ?j < n \<and> \<not> min_order ?x (nd ?j)")
    case True
    then have g: "i < n" "\<not> (?j \<ge> n \<or> to_ulong c \<le> count (nd ?j))" by (simp_all add: min_order_def)
    then have "min_down_loop nd n i c = min_down_loop (nd(i := nd ?j)) n ?j c"
      by (subst min_down_loop.simps) (simp only: Let_def flip: j, simp)
    moreover have "sift_down min_order nd n i ?x = sift_down min_order (nd(i := nd ?j)) n ?j ?x"
      using True by (subst sift_down.simps) simp
    ultimately show ?thesis using "1.IH" [OF g(1) refl j g(2)] by (simp only:)
  next
    case False
    then have "min_down_loop nd n i c = (nd, i)"
      by (subst min_down_loop.simps) (simp only: Let_def flip: j, auto simp: min_order_def)
    moreover have "sift_down min_order nd n i ?x = nd(i := ?x)"
      using False by (subst sift_down.simps) auto
    ultimately show ?thesis by simp
  qed
qed

lemma insert_max_heap_sift:
  "insert_max_heap h sg c = h\<lparr>cur_num := cur_num h + 1,
     nodes := sift_up max_order (nodes h) (cur_num h) \<lparr>count = to_ulong c, seg_off = sg\<rparr>\<rparr>"
  using insert_max_loop_sift [where nd = "nodes h" and i = "cur_num h" and c = c and sg = sg]
  by (simp add: insert_max_heap_def split: prod.splits)

lemma insert_min_heap_sift:
  "insert_min_heap h sg c = h\<lparr>mcur_num := mcur_num h + 1,
     mnodes := sift_up min_order (mnodes h) (mcur_num h) \<lparr>count = to_ulong c, seg_off = sg\<rparr>\<rparr>"
  using insert_min_loop_sift [where nd = "mnodes h" and i = "mcur_num h" and c = c and sg = sg]
  by (simp add: insert_min_heap_def split: prod.splits)

lemma max_heap_adjust_down_sift:
  assumes "count x < 2147483648"
  shows "max_heap_adjust_down (h\<lparr>nodes := (nodes h)(0 := x)\<rparr>)
    = h\<lparr>nodes := sift_down max_order (nodes h) (cur_num h) 0 x\<rparr>"
proof -
  have "to_ulong (s32 (int (count x))) = count x" using assms by simp
  then have "\<lparr>count = to_ulong (s32 (int (count x))), seg_off = seg_off x\<rparr> = x" by simp
  then show ?thesis
    using max_down_loop_sift [where nd = "(nodes h)(0 := x)" and n = "cur_num h" and i = 0
      and c = "s32 (int (count x))" and sg = "seg_off x"]
      sift_down_hole [of max_order "nodes h" 0 x "cur_num h" x]
    by (simp add: max_heap_adjust_down_def split: prod.splits)
qed

lemma min_heap_adjust_down_sift:
  assumes "count x < 2147483648"
  shows "min_heap_adjust_down (h\<lparr>mnodes := (mnodes h)(0 := x)\<rparr>)
    = h\<lparr>mnodes := sift_down min_order (mnodes h) (mcur_num h) 0 x\<rparr>"
proof -
  have "to_ulong (s32 (int (count x))) = count x" using assms by simp
  then have "\<lparr>count = to_ulong (s32 (int (count x))), seg_off = seg_off x\<rparr> = x" by simp
  then show ?thesis
    using min_down_loop_sift [where nd = "(mnodes h)(0 := x)" and n = "mcur_num h" and i = 0
      and c = "s32 (int (count x))" and sg = "seg_off x"]
      sift_down_hole [of min_order "mnodes h" 0 x "mcur_num h" x]
    by (simp add: min_heap_adjust_down_def split: prod.splits)
qed

subsection \<open>Scanning is offering the candidates in order\<close>

lemma calc_count_range: "- 2147483648 \<le> calc_count nsbi s \<and> calc_count nsbi s < 2147483648"
  using s32_range by (simp add: calc_count_def Let_def upt4)

definition max_node :: "f2fs_geo \<Rightarrow> seg_use \<Rightarrow> nvm_sb_info \<Rightarrow> bool \<Rightarrow> nat \<Rightarrow> heap_node option" where
  "max_node g u nsbi pre_move i =
     (if left_segoff nsbi \<le> i \<and> i \<le> right_segoff nsbi then None
      else map_option (\<lambda>c. \<lparr>count = nat c, seg_off = i\<rparr>) (max_cand g u nsbi pre_move i))"

text \<open>The NVM segments among the first \<open>len\<close> that may be written back to SSD, with their counts.\<close>

definition max_cands :: "f2fs_geo \<Rightarrow> seg_use \<Rightarrow> nvm_sb_info \<Rightarrow> bool \<Rightarrow> nat \<Rightarrow> heap_node list" where
  "max_cands g u nsbi pre_move len = List.map_filter (max_node g u nsbi pre_move) [0..<len]"

definition min_node :: "f2fs_geo \<Rightarrow> seg_use \<Rightarrow> nvm_sb_info \<Rightarrow> nat \<Rightarrow> heap_node option" where
  "min_node g u nsbi i = map_option (\<lambda>c. \<lparr>count = nat c, seg_off = i\<rparr>) (min_cand g u nsbi i)"

text \<open>The SSD segments among the first \<open>len\<close> that may be brought into NVM, with their counts.\<close>

definition min_cands :: "f2fs_geo \<Rightarrow> seg_use \<Rightarrow> nvm_sb_info \<Rightarrow> nat \<Rightarrow> heap_node list" where
  "min_cands g u nsbi len = List.map_filter (min_node g u nsbi) [0..<len]"

lemma max_cand_range: "max_cand g u nsbi p i = Some c \<Longrightarrow> 0 \<le> c \<and> c < 2147483648"
  using calc_count_range by (auto simp: max_cand_def Let_def split: if_splits)

lemma min_cand_range: "min_cand g u nsbi i = Some c \<Longrightarrow> 0 < c \<and> c < 2147483648"
  using calc_count_range by (auto simp: min_cand_def Let_def split: if_splits)

definition heap_of :: "max_heap \<Rightarrow> heap_node carray \<times> nat" where
  "heap_of h = (nodes h, cur_num h)"

definition mheap_of :: "min_heap \<Rightarrow> heap_node carray \<times> nat" where
  "mheap_of h = (mnodes h, mcur_num h)"

lemma max_node_window:
  assumes "left_segoff nsbi \<le> i" and "i \<le> right_segoff nsbi"
  shows "List.map_filter (max_node g u nsbi p) [i..<len]
    = List.map_filter (max_node g u nsbi p) [right_segoff nsbi + 1..<len]"
  by (rule map_filter_skip) (use assms in \<open>auto simp: max_node_def\<close>)

lemma max_replace_offer:
  assumes "\<not> cur_num h < k h" and "max_cand g u nsbi p i = Some c"
  shows "heap_of (if to_ulong c < get_max_heap_top h
      then max_heap_adjust_down (h\<lparr>nodes := (nodes h)(0 := \<lparr>count = to_ulong c, seg_off = i\<rparr>)\<rparr>) else h)
    = offer max_order (k h) \<lparr>count = nat c, seg_off = i\<rparr> (heap_of h)"
  using max_cand_range [OF assms(2)] assms(1)
  by (auto simp: heap_of_def offer_def get_max_heap_top_def is_empty_heap_def max_order_def
      max_heap_adjust_down_sift)

lemma max_k_replace_offers:
  "\<not> cur_num h < k h \<Longrightarrow>
   heap_of (max_k_replace g u nsbi p len i h)
     = fold (offer max_order (k h)) (List.map_filter (max_node g u nsbi p) [i..<len]) (heap_of h)
   \<and> k (max_k_replace g u nsbi p len i h) = k h"
proof (induction g u nsbi p len i h rule: max_k_replace.induct)
  case (1 g u nsbi p len i h)
  let ?f = "max_node g u nsbi p"
  show ?case
  proof (cases "i < len")
    case in_len: True
    show ?thesis
    proof (cases "left_segoff nsbi \<le> i \<and> i \<le> right_segoff nsbi")
      case True
      then show ?thesis
        using "1.IH"(1) [OF in_len True "1.prems"] in_len max_node_window [of nsbi i g u p len]
        by (subst (1 2) max_k_replace.simps) simp
    next
      case False
      let ?h = "case max_cand g u nsbi p i of None \<Rightarrow> h
        | Some c \<Rightarrow> if to_ulong c < get_max_heap_top h
          then max_heap_adjust_down (h\<lparr>nodes := (nodes h)(0 := \<lparr>count = to_ulong c, seg_off = i\<rparr>)\<rparr>) else h"
      have fields: "k ?h = k h" "cur_num ?h = cur_num h"
        by (auto simp: max_heap_adjust_down_def Let_def split: option.splits prod.splits)
      have step: "max_k_replace g u nsbi p len i h = max_k_replace g u nsbi p len (i + 1) ?h"
        using in_len False by (subst max_k_replace.simps) auto
      have "heap_of ?h = (case ?f i of None \<Rightarrow> heap_of h | Some x \<Rightarrow> offer max_order (k h) x (heap_of h))"
        using max_replace_offer [OF "1.prems", of g u nsbi p i] False
        by (auto simp: max_node_def split: option.splits)
      with "1.IH"(2) [OF in_len False] "1.prems" in_len show ?thesis
        unfolding step fields by (auto simp: upt_conv_Cons split: option.splits)
    qed
  next
    case False
    then show ?thesis by (subst (1 2) max_k_replace.simps) simp
  qed
qed

lemma max_k_fill_offers:
  "cur_num h \<le> k h \<Longrightarrow> max_k_fill g u nsbi p len i h = (j, h') \<Longrightarrow>
   fold (offer max_order (k h)) (List.map_filter (max_node g u nsbi p) [i..<len]) (heap_of h)
     = fold (offer max_order (k h)) (List.map_filter (max_node g u nsbi p) [j..<len]) (heap_of h')
   \<and> k h' = k h \<and> (\<not> cur_num h' < k h' \<or> len \<le> j)"
proof (induction g u nsbi p len i h arbitrary: j h' rule: max_k_fill.induct)
  case (1 g u nsbi p len i h)
  let ?f = "max_node g u nsbi p"
  show ?case
  proof (cases "i < len \<and> cur_num h < k h")
    case go: True
    show ?thesis
    proof (cases "left_segoff nsbi \<le> i \<and> i \<le> right_segoff nsbi")
      case True
      with go have "max_k_fill g u nsbi p len (right_segoff nsbi + 1) h = (j, h')"
        using "1.prems"(2) by (subst (asm) max_k_fill.simps) simp
      from "1.IH"(1) [OF go True "1.prems"(1) this] True show ?thesis
        using max_node_window [of nsbi i g u p len] by simp
    next
      case False
      let ?h = "case max_cand g u nsbi p i of None \<Rightarrow> h | Some c \<Rightarrow> insert_max_heap h i c"
      have fields: "k ?h = k h" "cur_num ?h \<le> k h"
        using go by (auto simp: insert_max_heap_sift split: option.splits)
      have "max_k_fill g u nsbi p len (i + 1) ?h = (j, h')"
        using "1.prems"(2) go False by (subst (asm) max_k_fill.simps) simp
      note IH = "1.IH"(2) [OF go False _ this, unfolded fields(1), OF fields(2)]
      have "heap_of ?h = (case ?f i of None \<Rightarrow> heap_of h | Some x \<Rightarrow> offer max_order (k h) x (heap_of h))"
        using max_cand_range [of g u nsbi p i] go False
        by (auto simp: max_node_def heap_of_def offer_def insert_max_heap_sift split: option.splits)
      with IH go show ?thesis by (auto simp: upt_conv_Cons split: option.splits)
    qed
  next
    case False
    then show ?thesis using "1.prems" by (subst (asm) max_k_fill.simps) auto
  qed
qed

lemma get_max_k_offers:
  assumes "cur_num h = 0" and "get_max_k g u nsbi h len p = (r, h')"
  shows "maxh.selected (k h) (max_cands g u nsbi p len) (nodes h') (cur_num h')"
    and "k h' = k h" and "r = (if cur_num h' < k h then Some ENOCOLD else None)"
proof -
  obtain j h1 where f: "max_k_fill g u nsbi p len 0 h = (j, h1)" by force
  have h': "h' = max_k_replace g u nsbi p len j h1" and r: "r = (if cur_num h' < k h' then Some ENOCOLD else None)"
    using assms(2) f by (auto simp: get_max_k_def Let_def)
  note fill = max_k_fill_offers [OF _ f, unfolded assms(1), simplified]
  have rep: "heap_of h' = fold (offer max_order (k h)) (List.map_filter (max_node g u nsbi p) [j..<len]) (heap_of h1)
      \<and> k h' = k h1"
  proof (cases "cur_num h1 < k h1")
    case True
    with fill have "len \<le> j" by auto
    then show ?thesis unfolding h' by (subst (1 2) max_k_replace.simps) simp
  next
    case False
    then show ?thesis using max_k_replace_offers [OF False, of g u nsbi p len j] fill unfolding h' by simp
  qed
  with fill have "fold (offer max_order (k h)) (max_cands g u nsbi p len) (nodes h, 0) = (nodes h', cur_num h')"
    using assms(1) by (simp add: max_cands_def heap_of_def)
  then show "maxh.selected (k h) (max_cands g u nsbi p len) (nodes h') (cur_num h')"
    by (rule maxh.offers_selected)
  show "k h' = k h" using rep fill by simp
  then show "r = (if cur_num h' < k h then Some ENOCOLD else None)" using r by simp
qed

lemma min_replace_offer:
  assumes "\<not> mcur_num h < mk h" and "0 < mk h" and "min_cand g u nsbi i = Some c"
  shows "mheap_of (if to_ulong c > count (mnodes h 0)
      then min_heap_adjust_down (h\<lparr>mnodes := (mnodes h)(0 := \<lparr>count = to_ulong c, seg_off = i\<rparr>)\<rparr>) else h)
    = offer min_order (mk h) \<lparr>count = nat c, seg_off = i\<rparr> (mheap_of h)"
  using min_cand_range [OF assms(3)] assms(1,2)
  by (auto simp: mheap_of_def offer_def min_order_def min_heap_adjust_down_sift)

lemma min_k_replace_offers:
  "\<not> mcur_num h < mk h \<Longrightarrow> 0 < mk h \<Longrightarrow>
   mheap_of (min_k_replace g u nsbi len i h)
     = fold (offer min_order (mk h)) (List.map_filter (min_node g u nsbi) [i..<len]) (mheap_of h)
   \<and> mk (min_k_replace g u nsbi len i h) = mk h"
proof (induction g u nsbi len i h rule: min_k_replace.induct)
  case (1 g u nsbi len i h)
  show ?case
  proof (cases "i < len")
    case True
    let ?h = "case min_cand g u nsbi i of None \<Rightarrow> h
      | Some c \<Rightarrow> if to_ulong c > count (mnodes h 0)
        then min_heap_adjust_down (h\<lparr>mnodes := (mnodes h)(0 := \<lparr>count = to_ulong c, seg_off = i\<rparr>)\<rparr>) else h"
    have fields: "mk ?h = mk h" "mcur_num ?h = mcur_num h"
      by (auto simp: min_heap_adjust_down_def Let_def split: option.splits prod.splits)
    have step: "min_k_replace g u nsbi len i h = min_k_replace g u nsbi len (i + 1) ?h"
      using True by (subst min_k_replace.simps) auto
    have "mheap_of ?h = (case min_node g u nsbi i of None \<Rightarrow> mheap_of h
        | Some x \<Rightarrow> offer min_order (mk h) x (mheap_of h))"
      using min_replace_offer [OF "1.prems", of g u nsbi i] by (auto simp: min_node_def split: option.splits)
    with "1.IH" [OF True] "1.prems" True show ?thesis
      unfolding step fields by (auto simp: upt_conv_Cons split: option.splits)
  next
    case False
    then show ?thesis by (subst (1 2) min_k_replace.simps) simp
  qed
qed

lemma min_k_fill_offers:
  "mcur_num h \<le> mk h \<Longrightarrow> min_k_fill g u nsbi len i h = (j, h') \<Longrightarrow>
   fold (offer min_order (mk h)) (List.map_filter (min_node g u nsbi) [i..<len]) (mheap_of h)
     = fold (offer min_order (mk h)) (List.map_filter (min_node g u nsbi) [j..<len]) (mheap_of h')
   \<and> mk h' = mk h \<and> (\<not> mcur_num h' < mk h' \<or> len \<le> j)"
proof (induction g u nsbi len i h arbitrary: j h' rule: min_k_fill.induct)
  case (1 g u nsbi len i h)
  show ?case
  proof (cases "i < len \<and> mcur_num h < mk h")
    case True
    let ?h = "case min_cand g u nsbi i of None \<Rightarrow> h | Some c \<Rightarrow> insert_min_heap h i c"
    have fields: "mk ?h = mk h" "mcur_num ?h \<le> mk h"
      using True by (auto simp: insert_min_heap_sift split: option.splits)
    have "min_k_fill g u nsbi len (i + 1) ?h = (j, h')"
      using "1.prems"(2) True by (subst (asm) min_k_fill.simps) simp
    note IH = "1.IH" [OF True _ this, unfolded fields(1), OF fields(2)]
    have "mheap_of ?h = (case min_node g u nsbi i of None \<Rightarrow> mheap_of h
        | Some x \<Rightarrow> offer min_order (mk h) x (mheap_of h))"
      using min_cand_range [of g u nsbi i] True
      by (auto simp: min_node_def mheap_of_def offer_def insert_min_heap_sift split: option.splits)
    with IH True show ?thesis by (auto simp: upt_conv_Cons split: option.splits)
  next
    case False
    then show ?thesis using "1.prems" by (subst (asm) min_k_fill.simps) auto
  qed
qed

lemma get_min_k_offers:
  assumes "mcur_num h = 0" and "0 < mk h" and "get_min_k g u nsbi h len = (r, h')"
  shows "minh.selected (mk h) (min_cands g u nsbi len) (mnodes h') (mcur_num h')"
    and "mk h' = mk h" and "r = (if mcur_num h' < mk h then Some ENOHOT else None)"
proof -
  obtain j h1 where f: "min_k_fill g u nsbi len 0 h = (j, h1)" by force
  have h': "h' = min_k_replace g u nsbi len j h1" and r: "r = (if mcur_num h' < mk h' then Some ENOHOT else None)"
    using assms(3) f by (auto simp: get_min_k_def Let_def)
  note fill = min_k_fill_offers [OF _ f, unfolded assms(1), simplified]
  have rep: "mheap_of h' = fold (offer min_order (mk h)) (List.map_filter (min_node g u nsbi) [j..<len]) (mheap_of h1)
      \<and> mk h' = mk h1"
  proof (cases "mcur_num h1 < mk h1")
    case True
    with fill have "len \<le> j" by auto
    then show ?thesis unfolding h' by (subst (1 2) min_k_replace.simps) simp
  next
    case False
    then show ?thesis using min_k_replace_offers [OF False, of g u nsbi len j] fill assms(2) unfolding h' by simp
  qed
  with fill have "fold (offer min_order (mk h)) (min_cands g u nsbi len) (mnodes h, 0) = (mnodes h', mcur_num h')"
    using assms(1) by (simp add: min_cands_def mheap_of_def)
  then show "minh.selected (mk h) (min_cands g u nsbi len) (mnodes h') (mcur_num h')"
    by (rule minh.offers_selected)
  show "mk h' = mk h" using rep fill by simp
  then show "r = (if mcur_num h' < mk h then Some ENOHOT else None)" using r by simp
qed

subsection \<open>Properties\<close>

text \<open>
  C16. Victim selection for write-back: started on an empty heap, \<open>get_max_k\<close> ends with a
  max-heap of \<open>min k n\<close> of the \<open>n\<close> candidates, none of the candidates left out has been
  accessed less often than one it kept, and it fails with \<open>ENOCOLD\<close> exactly when there are
  fewer than \<open>k\<close> candidates.
\<close>

theorem get_max_k_coldest:
  assumes "cur_num h = 0" and "get_max_k g u nsbi h len p = (r, h')"
  shows "heap_prop (\<lambda>parent child. count child \<le> count parent) (nodes h') (cur_num h')
    \<and> cur_num h' = min (k h) (length (max_cands g u nsbi p len))
    \<and> elems (nodes h') (cur_num h') \<subseteq># mset (max_cands g u nsbi p len)
    \<and> (\<forall>y \<in># mset (max_cands g u nsbi p len) - elems (nodes h') (cur_num h').
          \<forall>x \<in># elems (nodes h') (cur_num h'). count x \<le> count y)
    \<and> r = (if length (max_cands g u nsbi p len) < k h then Some ENOCOLD else None)"
  using maxh.selectedD [OF get_max_k_offers(1) [OF assms]] get_max_k_offers(3) [OF assms]
  by (auto simp: max_order_def heap_prop_def)

text \<open>SSD segments 0, 1, 2 are counted 10, 20, 30; NVM segments 51 and 52 hold segments 2 and 1.\<close>

definition heap_geo :: f2fs_geo where
  "heap_geo = \<lparr>log_blocks_per_seg = 9, blocks_per_seg = 512, segs_per_sec = 1, secs_per_zone = 1,
     total_sections = 8, seg0_blkaddr = 512, ssd_main_blkaddr = 1024, segment_count = 9,
     main_segments = 8, start_segno = 1\<rparr>"

definition heap_use :: seg_use where
  "heap_use = \<lparr>curseg_segno = (\<lambda>_. 7), cur_victim_sec = 6\<rparr>"

definition heap_nsbi :: nvm_sb_info where
  "heap_nsbi = zero_nsbi\<lparr>lfu_count := (\<lambda>i s. int s + 1),
     mpt := (\<lambda>i. if i = 51 then 17 else if i = 52 then 9 else 0)\<rparr>"

lemma heap_counts: "calc_count heap_nsbi 0 = 10" "calc_count heap_nsbi (Suc 0) = 20" "calc_count heap_nsbi 2 = 30"
  by (simp_all add: calc_count_def heap_nsbi_def zero_nsbi_def upt4 lfu_level_def)

lemmas heap_example = heap_counts heap_geo_def heap_use_def sec_usage_check_def IS_CURSEC_def GET_SEC_FROM_SEG_def

lemma heap_entries:
  "get_map_flag heap_nsbi 51 = 1" "get_mpt_value heap_nsbi 51 = 2"
  "get_map_flag heap_nsbi 52 = 1" "get_mpt_value heap_nsbi 52 = 1"
  "get_map_flag heap_nsbi 0 = 0" "get_map_flag heap_nsbi (Suc 0) = 0" "get_map_flag heap_nsbi (Suc (Suc 0)) = 0"
  by (simp_all add: get_map_flag_def get_mpt_value_def heap_nsbi_def)

lemma heap_max_cands:
  "max_cands heap_geo heap_use heap_nsbi False 53 = [\<lparr>count = 30, seg_off = 51\<rparr>, \<lparr>count = 20, seg_off = 52\<rparr>]"
proof -
  let ?f = "max_node heap_geo heap_use heap_nsbi False"
  have w: "left_segoff heap_nsbi = 0" "right_segoff heap_nsbi = 50"
    by (simp_all add: left_segoff_def right_segoff_def heap_nsbi_def zero_nsbi_def)
  then have "List.map_filter ?f [0..<53] = List.map_filter ?f [51..<53]"
    by (intro map_filter_skip) (auto simp: max_node_def)
  moreover have "[51..<53] = [51, 52 :: nat]" by (simp add: upt_rec)
  ultimately show ?thesis
    by (simp add: max_cands_def max_node_def w max_cand_def heap_entries heap_example)
qed

theorem get_max_k_coldest_witness:
  "case get_max_k heap_geo heap_use heap_nsbi (init_max_heap 1) 53 False of
     (r, h) \<Rightarrow> r = None \<and> cur_num h = 1 \<and> elems (nodes h) 1 = {#\<lparr>count = 20, seg_off = 52\<rparr>#}"
proof -
  obtain r h where e: "get_max_k heap_geo heap_use heap_nsbi (init_max_heap 1) 53 False = (r, h)" by force
  note T = get_max_k_coldest [OF _ e, unfolded heap_max_cands, simplified init_max_heap_def, simplified]
  then obtain x where x: "elems (nodes h) 1 = {#x#}" using elems_size [of "nodes h" 1]
    by (metis One_nat_def size_1_singleton_mset)
  with T have "x = \<lparr>count = 20, seg_off = 52\<rparr>" by (auto simp: min_def split: if_splits)
  with T x e show ?thesis by (simp add: min_def)
qed

text \<open>
  Selection of hot segments: started on an empty heap with \<open>k > 0\<close>, \<open>get_min_k\<close> ends with
  a min-heap of \<open>min k n\<close> of the \<open>n\<close> candidates, none of the candidates left out has been
  accessed more often than one it kept, and it fails with \<open>ENOHOT\<close> exactly when there are
  fewer than \<open>k\<close> candidates.
\<close>

lemma get_min_k_hottest:
  assumes "mcur_num h = 0" and "0 < mk h" and "get_min_k g u nsbi h len = (r, h')"
  shows "heap_prop (\<lambda>parent child. count parent \<le> count child) (mnodes h') (mcur_num h')
    \<and> mcur_num h' = min (mk h) (length (min_cands g u nsbi len))
    \<and> elems (mnodes h') (mcur_num h') \<subseteq># mset (min_cands g u nsbi len)
    \<and> (\<forall>y \<in># mset (min_cands g u nsbi len) - elems (mnodes h') (mcur_num h').
          \<forall>x \<in># elems (mnodes h') (mcur_num h'). count y \<le> count x)
    \<and> r = (if length (min_cands g u nsbi len) < mk h then Some ENOHOT else None)"
  using minh.selectedD [OF get_min_k_offers(1) [OF assms]] get_min_k_offers(3) [OF assms]
  by (auto simp: min_order_def heap_prop_def)

end
