(* ===== verification/Bytes.thy ===== *)
theory Bytes
  imports Prelude
begin

text \<open>
  Memory as bytes: little-endian 32-bit words in a byte array (\<open>__le32\<close> on the little-endian
  machines the code runs on) and the two bit orders of its bitmaps, the kernel's
  \<open>test_bit\<close> (least significant first) and \<open>f2fs_test_bit\<close> (\<open>src/f2fs.h\<close>, most significant first).
\<close>

type_synonym page = "u8 carray"

subsection \<open>Copying\<close>

definition mem_write :: "page \<Rightarrow> nat \<Rightarrow> u8 list \<Rightarrow> page" where
  "mem_write mem off bs = (\<lambda>a. if off \<le> a \<and> a < off + length bs then bs ! (a - off) else mem a)"

definition mem_read :: "page \<Rightarrow> nat \<Rightarrow> nat \<Rightarrow> u8 list" where
  "mem_read mem off n = map (\<lambda>j. mem (off + j)) [0..<n]"

lemma length_mem_read [simp]: "length (mem_read m a n) = n"
  by (simp add: mem_read_def)

lemma nth_mem_read [simp]: "i < n \<Longrightarrow> mem_read m a n ! i = m (a + i)"
  by (simp add: mem_read_def)

lemma mem_read_eq_iff: "mem_read m a n = bs \<longleftrightarrow> length bs = n \<and> (\<forall>i < n. m (a + i) = bs ! i)"
  by (auto simp: list_eq_iff_nth_eq)

lemma mem_read_append: "mem_read m a (n + k) = mem_read m a n @ mem_read m (a + n) k"
  by (rule nth_equalityI) (auto simp: nth_append)

lemma mem_read_cong: "(\<And>x. a \<le> x \<Longrightarrow> x < a + n \<Longrightarrow> m x = m' x) \<Longrightarrow> mem_read m a n = mem_read m' a n"
  by (rule nth_equalityI) simp_all

lemma mem_write_at: "mem_read (mem_write m a bs) a (length bs) = bs"
  by (rule nth_equalityI) (simp_all add: mem_write_def)

lemma mem_write_off: "x < a \<or> a + length bs \<le> x \<Longrightarrow> mem_write m a bs x = m x"
  by (auto simp: mem_write_def)

subsection \<open>Words\<close>

definition u32_byte :: "u32 \<Rightarrow> nat \<Rightarrow> u8" where
  "u32_byte w b = ucast (drop_bit (8 * b) w)"

definition u32_at :: "page \<Rightarrow> nat \<Rightarrow> u32" where
  "u32_at p off = ucast (p off) OR push_bit 8 (ucast (p (off + 1)))
     OR push_bit 16 (ucast (p (off + 2))) OR push_bit 24 (ucast (p (off + 3)))"

lemma u32_byte_join:
  "ucast (u32_byte w 0) OR push_bit 8 (ucast (u32_byte w 1))
     OR push_bit 16 (ucast (u32_byte w 2)) OR push_bit 24 (ucast (u32_byte w 3)) = w"
proof (rule bit_eqI)
  fix n assume "possible_bit TYPE(u32) n"
  then have n: "n < 32" by simp
  then consider "n < 8" | "8 \<le> n" "n < 16" | "16 \<le> n" "n < 24" | "24 \<le> n" "n < 32" by linarith
  then show "bit (ucast (u32_byte w 0) OR push_bit 8 (ucast (u32_byte w 1))
     OR push_bit 16 (ucast (u32_byte w 2)) OR push_bit 24 (ucast (u32_byte w 3)) :: u32) n = bit w n"
    by cases (auto simp: bit_simps u32_byte_def)
qed

lemma u32_at_bytes:
  assumes "\<And>b. b < 4 \<Longrightarrow> p (off + b) = u32_byte w b"
  shows "u32_at p off = w"
  using assms [of 0] assms [of 1] assms [of 2] assms [of 3] u32_byte_join [of w]
  by (simp add: u32_at_def)

lemma u32_at_0D: "u32_at p off = 0 \<Longrightarrow> p off = 0"
proof (rule bit_eqI)
  fix n assume z: "u32_at p off = 0" and "possible_bit TYPE(u8) n"
  then have n: "n < 8" by simp
  have "bit (u32_at p off) n \<longleftrightarrow> bit (p off) n" using n by (simp add: u32_at_def bit_simps)
  then show "bit (p off) n = bit 0 n" using z by simp
qed

lemma u32_at_0I: "(\<And>b. b < 4 \<Longrightarrow> p (off + b) = 0) \<Longrightarrow> u32_at p off = 0"
  by (rule u32_at_bytes) (simp add: u32_byte_def)

text \<open>Little-endian bytes of words.\<close>

definition le16 :: "u16 \<Rightarrow> u8 list" where "le16 w = [ucast w, ucast (drop_bit 8 w)]"
definition le32 :: "u32 \<Rightarrow> u8 list" where "le32 w = map (u32_byte w) [0..<4]"
definition u16_at :: "page \<Rightarrow> nat \<Rightarrow> u16" where "u16_at m a = ucast (m a) OR push_bit 8 (ucast (m (a + 1)))"

lemma length_le [simp]: "length (le16 w) = 2" "length (le32 v) = 4"
  by (simp_all add: le16_def le32_def)

lemma u16_at_le16: "mem_read m a 2 = le16 w \<Longrightarrow> u16_at m a = w"
proof -
  assume "mem_read m a 2 = le16 w"
  then have b: "m a = ucast w" "m (a + 1) = ucast (drop_bit 8 w)" unfolding mem_read_eq_iff by (auto simp: le16_def less_2_cases_iff dest: spec [of _ 0] spec [of _ 1])
  show ?thesis unfolding u16_at_def b
  proof (rule bit_eqI)
    fix n assume "possible_bit TYPE(u16) n"
    then have "n < 8 \<or> 8 \<le> n \<and> n < 16" by auto
    then show "bit (ucast (ucast w :: u8) OR push_bit 8 (ucast (ucast (drop_bit 8 w) :: u8)) :: u16) n = bit w n" by (elim disjE) (auto simp: bit_simps)
  qed
qed

lemma u32_at_le32: "mem_read m a 4 = le32 w \<Longrightarrow> u32_at m a = w"
  by (rule u32_at_bytes) (auto simp: mem_read_eq_iff le32_def)

definition le64 :: "64 word \<Rightarrow> u8 list" where "le64 w = le32 (ucast w) @ le32 (ucast (drop_bit 32 w))"
definition u64_at :: "page \<Rightarrow> nat \<Rightarrow> 64 word" where "u64_at m a = ucast (u32_at m a) OR push_bit 32 (ucast (u32_at m (a + 4)))"

lemma length_le64 [simp]: "length (le64 w) = 8"
  by (simp add: le64_def)

lemma u64_at_le64: "mem_read m a 8 = le64 w \<Longrightarrow> u64_at m a = w"
proof -
  assume r: "mem_read m a 8 = le64 w"
  have "mem_read m a (4 + 4) = mem_read m a 4 @ mem_read m (a + 4) 4" by (rule mem_read_append)
  then have "mem_read m a 4 = le32 (ucast w)" "mem_read m (a + 4) 4 = le32 (ucast (drop_bit 32 w))" using r by (simp_all add: le64_def append_eq_append_conv)
  then have b: "u32_at m a = ucast w" "u32_at m (a + 4) = ucast (drop_bit 32 w)" by (simp_all add: u32_at_le32)
  show ?thesis unfolding u64_at_def b
  proof (rule bit_eqI)
    fix n assume "possible_bit TYPE(64 word) n"
    then have "n < 32 \<or> 32 \<le> n \<and> n < 64" by auto
    then show "bit (ucast (ucast w :: u32) OR push_bit 32 (ucast (ucast (drop_bit 32 w) :: u32)) :: 64 word) n = bit w n" by (elim disjE) (auto simp: bit_simps)
  qed
qed

lemma le_mod_simps: "u32_at (mem_write m a (le32 v)) a = v" "u16_at (mem_write m a (le16 w)) a = w" "u64_at (mem_write m a (le64 x)) a = x"
  using mem_write_at [of m a "le32 v"] mem_write_at [of m a "le16 w"] mem_write_at [of m a "le64 x"] by (simp_all add: u32_at_le32 u16_at_le16 u64_at_le64)

lemma word_at_cong:
  "(\<And>x. a \<le> x \<Longrightarrow> x < a + 4 \<Longrightarrow> m x = m' x) \<Longrightarrow> u32_at m a = u32_at m' a"
  "(\<And>x. a \<le> x \<Longrightarrow> x < a + 2 \<Longrightarrow> m x = m' x) \<Longrightarrow> u16_at m a = u16_at m' a"
  "(\<And>x. a \<le> x \<Longrightarrow> x < a + 8 \<Longrightarrow> m x = m' x) \<Longrightarrow> u64_at m a = u64_at m' a"
  by (simp_all add: u32_at_def u16_at_def u64_at_def)

lemma at_mem_write_off:
  "b + 4 \<le> a \<or> a + length bs \<le> b \<Longrightarrow> u32_at (mem_write m a bs) b = u32_at m b"
  "b + 2 \<le> a \<or> a + length bs \<le> b \<Longrightarrow> u16_at (mem_write m a bs) b = u16_at m b"
  "b + 8 \<le> a \<or> a + length bs \<le> b \<Longrightarrow> u64_at (mem_write m a bs) b = u64_at m b"
  by (rule word_at_cong; rule mem_write_off; auto)+

subsection \<open>Bitmaps\<close>

text \<open>Byte \<open>j\<close> of a bitmap, in either order, and the bitmap stored in a byte array.\<close>

definition lsb_byte :: "bitmap \<Rightarrow> nat \<Rightarrow> u8" where
  "lsb_byte m j = horner_sum of_bool 2 (map (\<lambda>i. m (8 * j + i)) [0..<8])"

definition test_bit :: "page \<Rightarrow> nat \<Rightarrow> bool" where
  "test_bit p nr = bit (p (nr div 8)) (nr mod 8)"

definition msb_byte :: "bitmap \<Rightarrow> nat \<Rightarrow> u8" where
  "msb_byte m j = horner_sum of_bool 2 (map (\<lambda>i. m (8 * j + (7 - i))) [0..<8])"

definition f2fs_test_bit :: "page \<Rightarrow> nat \<Rightarrow> bool" where
  "f2fs_test_bit p nr = bit (p (nr div 8)) (7 - nr mod 8)"

lemma test_bit_lsb_byte: "p (nr div 8) = lsb_byte m (nr div 8) \<Longrightarrow> test_bit p nr = m nr"
  by (simp add: test_bit_def lsb_byte_def bit_horner_sum_bit_word_iff)

lemma f2fs_test_bit_msb_byte: "p (nr div 8) = msb_byte m (nr div 8) \<Longrightarrow> f2fs_test_bit p nr = m nr"
proof -
  assume p: "p (nr div 8) = msb_byte m (nr div 8)"
  have i: "7 - nr mod 8 < 8" by simp
  then have "[0..<8] ! (7 - nr mod 8) = 7 - nr mod 8" by simp
  moreover have "8 * (nr div 8) + (7 - (7 - nr mod 8)) = nr"
    using mult_div_mod_eq [of 8 nr] by (simp add: less_Suc_eq_le [symmetric])
  ultimately show ?thesis
    using i by (simp only: p f2fs_test_bit_def msb_byte_def bit_horner_sum_bit_word_iff) simp
qed

end
