(* ===== verification/Seg_State.thy ===== *)
theory Seg_State
  imports Nvm_Redirect Bytes
begin

text \<open>
  The state of the segment manager (\<open>src/segment.h\<close>): the segment information table
  (\<open>struct sit_info\<close> with its \<open>seg_entry\<close> and \<open>sec_entry\<close> arrays), the free map, the dirty lists and
  the six logs, together with the NVM side that allocation and freeing also change. The bitmaps
  of a segment are functions from block offsets in f2fs bit order; locks are left out, every
  operation is one step under the locks its code takes.
\<close>

subsection \<open>Data\<close>

text \<open>\<open>type\<close> is 6 bits wide, the two block counts 10 bits: stores cut them down.\<close>

record seg_entry =
  se_type :: nat
  valid_blocks :: nat
  ckpt_valid_blocks :: nat
  cur_valid_map :: bitmap
  ckpt_valid_map :: bitmap
  discard_map :: bitmap
  se_mtime :: nat

record sit_info =
  sit_base_addr :: nat
  sit_blocks :: nat
  written_valid_blocks :: nat
  sit_bitmap :: bitmap
  dirty_sentries_bitmap :: bitmap
  dirty_sentries :: nat
  sentries :: "seg_entry carray"
  sec_entries :: "nat carray"
  elapsed_time :: nat
  mounted_time :: nat
  min_mtime :: nat
  max_mtime :: nat
  last_victim :: "nat carray"

record free_segmap_info =
  free_segments :: nat
  free_sections :: nat
  free_segmap :: bitmap
  free_secmap :: bitmap

record dirty_seglist_info =
  dirty_segmap :: "bitmap carray"
  nr_dirty :: "int carray"
  victim_secmap :: bitmap

text \<open>The indices of \<open>enum dirty_type\<close> behind the six log types.\<close>

abbreviation (input) DIRTY :: nat where "DIRTY \<equiv> 6"
abbreviation (input) PRE :: nat where "PRE \<equiv> 7"

datatype alloc_mode = LFS | SSR

datatype alloc_dir = ALLOC_RIGHT | ALLOC_LEFT

text \<open>A summary entry as \<open>set_summary\<close> fills it, and the cached summary block of a log.\<close>

record f2fs_summary =
  sum_nid :: nat
  sum_ofs_in_node :: nat
  sum_version :: nat

datatype sum_kind = SUM_TYPE_DATA | SUM_TYPE_NODE

record summary_block =
  sum_entries :: "f2fs_summary carray"
  sum_footer :: "sum_kind option"

record curseg_info =
  sum_blk :: summary_block
  alloc_type :: alloc_mode
  cs_segno :: nat
  cs_next_blkoff :: nat
  cs_zone :: nat
  cs_next_segno :: nat

abbreviation (input) NULL_SEGNO :: nat where "NULL_SEGNO \<equiv> 4294967295"

text \<open>
  The segment manager of a mounted volume; \<open>sum_pages\<close> is the summary area on the medium by
  segment, \<open>need_fsck\<close> the flag \<open>SBI_NEED_FSCK\<close> and \<open>sm_load\<close> the load statistics behind \<open>nvm_alloc\<close>.
\<close>

record sm_state =
  sit_i :: sit_info
  free_i :: free_segmap_info
  dirty_i :: dirty_seglist_info
  curseg_array :: "seg_type \<Rightarrow> curseg_info"
  sum_pages :: "summary_block carray"
  sm_nsbi :: nvm_sb_info
  discard_blks :: nat
  sm_victim_sec :: nat
  need_fsck :: bool
  sm_load :: load_stat

definition f2fs_bug_on :: "bool \<Rightarrow> sm_state \<Rightarrow> sm_state" where
  "f2fs_bug_on c st = (if c then st\<lparr>need_fsck := True\<rparr> else st)"

subsection \<open>Types of segments\<close>

definition type_no :: "seg_type \<Rightarrow> nat" where
  "type_no t = (case t of CURSEG_HOT_DATA \<Rightarrow> 0 | CURSEG_WARM_DATA \<Rightarrow> 1 | CURSEG_COLD_DATA \<Rightarrow> 2
     | CURSEG_HOT_NODE \<Rightarrow> 3 | CURSEG_WARM_NODE \<Rightarrow> 4 | CURSEG_COLD_NODE \<Rightarrow> 5)"

definition IS_NODESEG :: "nat \<Rightarrow> bool" where
  "IS_NODESEG t \<longleftrightarrow> t \<ge> type_no CURSEG_HOT_NODE"

definition all_types :: "seg_type list" where
  "all_types = [CURSEG_HOT_DATA, CURSEG_WARM_DATA, CURSEG_COLD_DATA,
     CURSEG_HOT_NODE, CURSEG_WARM_NODE, CURSEG_COLD_NODE]"

lemma type_no_less [simp]: "type_no t < 6"
  by (cases t) (simp_all add: type_no_def)

lemma set_all_types [simp]: "t \<in> set all_types"
  by (cases t) (simp_all add: all_types_def)

subsection \<open>Access\<close>

definition CURSEG_I :: "sm_state \<Rightarrow> seg_type \<Rightarrow> curseg_info" where
  "CURSEG_I st t = curseg_array st t"

definition get_seg_entry :: "sm_state \<Rightarrow> nat \<Rightarrow> seg_entry" where
  "get_seg_entry st s = sentries (sit_i st) s"

definition set_seg_entry :: "sm_state \<Rightarrow> nat \<Rightarrow> seg_entry \<Rightarrow> sm_state" where
  "set_seg_entry st s se = st\<lparr>sit_i := (sit_i st)\<lparr>sentries := (sentries (sit_i st))(s := se)\<rparr>\<rparr>"

definition set_curseg :: "sm_state \<Rightarrow> seg_type \<Rightarrow> curseg_info \<Rightarrow> sm_state" where
  "set_curseg st t c = st\<lparr>curseg_array := (curseg_array st)(t := c)\<rparr>"

definition get_valid_blocks :: "f2fs_geo \<Rightarrow> sm_state \<Rightarrow> nat \<Rightarrow> bool \<Rightarrow> nat" where
  "get_valid_blocks g st s use_section =
     (if use_section \<and> segs_per_sec g > 1 then sec_entries (sit_i st) (GET_SEC_FROM_SEG g s)
      else valid_blocks (get_seg_entry st s))"

definition IS_CURSEG :: "sm_state \<Rightarrow> nat \<Rightarrow> bool" where
  "IS_CURSEG st s \<longleftrightarrow>
     s = cs_segno (CURSEG_I st CURSEG_HOT_DATA) \<or> s = cs_segno (CURSEG_I st CURSEG_WARM_DATA)
     \<or> s = cs_segno (CURSEG_I st CURSEG_COLD_DATA) \<or> s = cs_segno (CURSEG_I st CURSEG_HOT_NODE)
     \<or> s = cs_segno (CURSEG_I st CURSEG_WARM_NODE) \<or> s = cs_segno (CURSEG_I st CURSEG_COLD_NODE)"

definition sm_use :: "sm_state \<Rightarrow> seg_use" where
  "sm_use st = \<lparr>curseg_segno = (\<lambda>t. cs_segno (CURSEG_I st t)), cur_victim_sec = sm_victim_sec st\<rparr>"

lemma IS_CURSEG_iff: "IS_CURSEG st s \<longleftrightarrow> (\<exists>t. s = cs_segno (CURSEG_I st t))"
  unfolding IS_CURSEG_def using seg_type.exhaust by metis

lemma f2fs_bug_on_False [simp]: "f2fs_bug_on False st = st"
  by (simp add: f2fs_bug_on_def)

lemma f2fs_bug_on_frame [simp]:
  "sit_i (f2fs_bug_on c st) = sit_i st" "free_i (f2fs_bug_on c st) = free_i st"
  "dirty_i (f2fs_bug_on c st) = dirty_i st" "curseg_array (f2fs_bug_on c st) = curseg_array st"
  "sum_pages (f2fs_bug_on c st) = sum_pages st" "sm_nsbi (f2fs_bug_on c st) = sm_nsbi st"
  "discard_blks (f2fs_bug_on c st) = discard_blks st"
  by (simp_all add: f2fs_bug_on_def)

lemma set_seg_entry_frame [simp]:
  "free_i (set_seg_entry st s se) = free_i st" "dirty_i (set_seg_entry st s se) = dirty_i st"
  "curseg_array (set_seg_entry st s se) = curseg_array st" "sum_pages (set_seg_entry st s se) = sum_pages st"
  "sm_nsbi (set_seg_entry st s se) = sm_nsbi st" "need_fsck (set_seg_entry st s se) = need_fsck st"
  "get_seg_entry (set_seg_entry st s se) a = (if a = s then se else get_seg_entry st a)"
  by (simp_all add: set_seg_entry_def get_seg_entry_def)

lemma set_curseg_frame [simp]:
  "free_i (set_curseg st t c) = free_i st" "dirty_i (set_curseg st t c) = dirty_i st"
  "sit_i (set_curseg st t c) = sit_i st" "sum_pages (set_curseg st t c) = sum_pages st"
  "sm_nsbi (set_curseg st t c) = sm_nsbi st" "need_fsck (set_curseg st t c) = need_fsck st"
  "CURSEG_I (set_curseg st t c) u = (if u = t then c else CURSEG_I st u)"
  by (simp_all add: set_curseg_def CURSEG_I_def)

subsection \<open>A small volume for the witnesses\<close>

text \<open>
  Ten main segments of two blocks: segments 0 and 1 are free, 2 lives in NVM and is prefree, 3 has
  one valid block, 4 to 9 hold the logs, which are empty.
\<close>

definition geo10 :: f2fs_geo where
  "geo10 = \<lparr>log_blocks_per_seg = 1, blocks_per_seg = 2, segs_per_sec = 1, secs_per_zone = 1,
     total_sections = 10, seg0_blkaddr = 4, ssd_main_blkaddr = 6, segment_count = 11,
     main_segments = 10, start_segno = 1\<rparr>"

definition seg_with :: "nat \<Rightarrow> nat \<Rightarrow> bitmap \<Rightarrow> seg_entry" where
  "seg_with t n m = \<lparr>se_type = t, valid_blocks = n, ckpt_valid_blocks = n, cur_valid_map = m,
     ckpt_valid_map = m, discard_map = m, se_mtime = 0\<rparr>"

definition sm_example :: sm_state where
  "sm_example = \<lparr>
     sit_i = \<lparr>sit_base_addr = 2, sit_blocks = 1, written_valid_blocks = 1, sit_bitmap = (\<lambda>_. False),
       dirty_sentries_bitmap = (\<lambda>_. False), dirty_sentries = 0,
       sentries = (\<lambda>s. if s = 3 then seg_with 1 1 (\<lambda>i. i = 0) else seg_with (s - 4) 0 (\<lambda>_. False)),
       sec_entries = (\<lambda>_. 0), elapsed_time = 0, mounted_time = 0, min_mtime = 0, max_mtime = 0,
       last_victim = (\<lambda>_. 0)\<rparr>,
     free_i = \<lparr>free_segments = 2, free_sections = 2, free_segmap = (\<lambda>s. 2 \<le> s), free_secmap = (\<lambda>s. 2 \<le> s)\<rparr>,
     dirty_i = \<lparr>dirty_segmap = (\<lambda>t s. t = PRE \<and> s = 2 \<or> t = DIRTY \<and> s = 3 \<or> t = 1 \<and> s = 3),
       nr_dirty = (\<lambda>t. if t \<in> {1, DIRTY, PRE} then 1 else 0), victim_secmap = (\<lambda>_. False)\<rparr>,
     curseg_array = (\<lambda>t. \<lparr>sum_blk = \<lparr>sum_entries = (\<lambda>_. \<lparr>sum_nid = 0, sum_ofs_in_node = 0, sum_version = 0\<rparr>), sum_footer = None\<rparr>,
       alloc_type = LFS, cs_segno = 4 + type_no t, cs_next_blkoff = 0, cs_zone = 4 + type_no t, cs_next_segno = NULL_SEGNO\<rparr>),
     sum_pages = (\<lambda>_. \<lparr>sum_entries = (\<lambda>_. \<lparr>sum_nid = 0, sum_ofs_in_node = 0, sum_version = 0\<rparr>), sum_footer = None\<rparr>),
     sm_nsbi = one_mapped, discard_blks = 0, sm_victim_sec = NULL_SEGNO, need_fsck = False,
     sm_load = \<lparr>pre_ssd_rq_ticks = 0, pre_nvm_rq_ticks = 0, ssd_aqu_sz = 0, nvm_aqu_sz = 0, pre_rd_sec = 0,
       pre_wr_sec = 0, write_ratio = 0, pre_tot_ticks_nvm = 0, pre_tot_ticks_ssd = 0, util_nvm = 0, util_ssd = 0\<rparr>\<rparr>"

lemma geo10_simps [simp]:
  "geo_ok geo10" "main_segments geo10 = 10" "blocks_per_seg geo10 = 2" "segs_per_sec geo10 = 1"
  "total_sections geo10 = 10" "secs_per_zone geo10 = 1"
  by (simp_all add: geo_ok_def geo10_def)

lemma one_mapped_10: "mpt_wf 10 one_mapped" "nvm_of 10 one_mapped = [2 \<mapsto> 0]"
proof -
  note T = took_wf [OF fresh_nsbi_wf [of 4 10], of 0]
  have e: "nvm_of 10 (fresh_nsbi 4) = Map.empty"
    by (simp add: fun_eq_iff nvm_of_def mapped_def get_map_flag_def)
  show "mpt_wf 10 one_mapped" using T mp.invar_bind [of 10 "took (fresh_nsbi 4) 0" 2 0] by (simp add: one_mapped_def)
  show "nvm_of 10 one_mapped = [2 \<mapsto> 0]"
    using T mp.lookup_bind [of 10 "took (fresh_nsbi 4) 0" 2 0] e by (simp add: one_mapped_def)
qed

lemma sm_example_fields [simp]:
  "sm_nsbi sm_example = one_mapped" "free_segmap (free_i sm_example) = (\<lambda>s. 2 \<le> s)"
  "free_secmap (free_i sm_example) = (\<lambda>s. 2 \<le> s)" "free_segments (free_i sm_example) = 2" "free_sections (free_i sm_example) = 2"
  "dirty_segmap (dirty_i sm_example) = (\<lambda>t s. t = PRE \<and> s = 2 \<or> t = DIRTY \<and> s = 3 \<or> t = 1 \<and> s = 3)"
  "need_fsck sm_example = False" "cs_segno (CURSEG_I sm_example t) = 4 + type_no t" "cs_zone (CURSEG_I sm_example t) = 4 + type_no t"
  "cs_next_blkoff (CURSEG_I sm_example t) = 0" "alloc_type (CURSEG_I sm_example t) = LFS"
  "get_seg_entry sm_example s = (if s = 3 then seg_with 1 1 (\<lambda>i. i = 0) else seg_with (s - 4) 0 (\<lambda>_. False))"
  by (simp_all add: sm_example_def CURSEG_I_def get_seg_entry_def)

end
