(* ===== verification/Nvm_Gc.thy ===== *)
theory Nvm_Gc
  imports Nvm_Redirect Nvm_Heap Seg_State
begin

text \<open>
  Data migration between SSD and NVM, from \<open>src/gc_nvm.c\<close>: writing cold NVM segments back
  (\<open>do_cold_to_ssd\<close>, \<open>cold_to_ssd\<close>, \<open>precold_to_ssd\<close>) and copying hot SSD segments into NVM
  (\<open>do_hot_to_nvm\<close>, \<open>hot_to_nvm\<close>). Devices are arrays of blocks whose contents have an arbitrary
  type. Requests are synchronous there (\<open>submit_bio_wait\<close>) and do not fail here; writes by other
  threads do not interleave. The write-back of sparse segments (\<open>do_garbage_collect\<close>) and the
  checkpoint are parameters.
\<close>

subsection \<open>State\<close>

record 'b mig_state =
  ms_nsbi :: nvm_sb_info
  ms_ssd :: "'b carray"
  ms_nvm :: "'b carray"
  ms_sit :: "seg_entry carray"
  ms_free_segmap :: bitmap
  ms_use :: seg_use
  ms_prefree :: nat
  ms_need_fsck :: bool

subsection \<open>Copying the valid blocks of a segment\<close>

text \<open>
  The loop behind \<open>next\<close>: maximal runs of valid blocks, each moved with one read and one write.
  The two inner \<open>while\<close> loops are the bitmap searches of the prelude.
\<close>

function for_runs :: "bitmap \<Rightarrow> nat \<Rightarrow> nat \<Rightarrow> (nat \<Rightarrow> nat \<Rightarrow> 's \<Rightarrow> 's) \<Rightarrow> 's \<Rightarrow> 's" where
  "for_runs cur_map blk_per_seg pos f s =
     (let st_pos = find_next_bit cur_map blk_per_seg pos
      in if st_pos \<ge> blk_per_seg then s
         else let pos1 = find_next_zero_bit cur_map blk_per_seg (st_pos + 1)
              in for_runs cur_map blk_per_seg (pos1 + 1) f (f st_pos (pos1 - st_pos) s))"
  by pat_completeness auto
termination
proof (relation "measure (\<lambda>(m, n, pos, f, s). n - pos)", goal_cases)
  case (2 m n pos f s st_pos pos1)
  then have p: "st_pos < n" "pos \<le> n"
    by (auto simp: find_next_bit.simps [of m n pos] split: if_splits)
  then have "pos \<le> st_pos" using 2(1) find_next_bit_ge [of pos n m] by simp
  moreover have "st_pos + 1 \<le> pos1"
    using 2(3) p find_next_bit_ge [of "st_pos + 1" n] by (simp add: find_next_zero_bit_def)
  ultimately show ?case using p by simp
qed simp

declare for_runs.simps [simp del]

text \<open>
  One request pair through the buffer pages. A bio takes at most \<open>cap\<close> pages; what
  \<open>bio_add_page\<close> refuses is neither read nor written and \<open>f2fs_bug_on\<close> asks for an \<open>fsck\<close>.
\<close>

definition copy_run :: "nat \<Rightarrow> 'b carray \<Rightarrow> nat \<Rightarrow> nat \<Rightarrow> nat \<Rightarrow> 'b carray \<times> bool \<Rightarrow> 'b carray \<times> bool" where
  "copy_run cap src s d cnt dw =
     (\<lambda>b. if d \<le> b \<and> b < d + min cap cnt then src (s + (b - d)) else fst dw b, snd dw \<or> cap < cnt)"

definition do_cold_to_ssd :: "f2fs_geo \<Rightarrow> nat \<Rightarrow> nat \<Rightarrow> bool \<Rightarrow> 'b mig_state \<Rightarrow> 'b mig_state" where
  "do_cold_to_ssd g cap nvm_segoff pre_move st =
     (let nsbi = ms_nsbi st;
          ssd_segoff = get_mpt_value nsbi nvm_segoff;
          se = ms_sit st ssd_segoff
      in if get_map_flag nsbi nvm_segoff = 0 then st
         else let (ssd', w) = for_runs (cur_valid_map se) (blocks_per_seg g) 0
                    (\<lambda>st_pos cnt. copy_run cap (ms_nvm st)
                       (u32_wrap (main_blkaddr (nsb nsbi) + nvm_segoff * blocks_per_seg g + st_pos))
                       (u32_wrap (START_BLOCK g ssd_segoff + st_pos)) cnt)
                    (ms_ssd st, ms_need_fsck st)
              in st\<lparr>ms_ssd := ssd', ms_need_fsck := w,
                    ms_nsbi := (if pre_move then set_double nsbi ssd_segoff
                                else unset_mapping nsbi ssd_segoff)\<rparr>)"

definition do_hot_to_nvm :: "f2fs_geo \<Rightarrow> nat \<Rightarrow> nat \<Rightarrow> nat \<Rightarrow> 'b mig_state \<Rightarrow> 'b mig_state" where
  "do_hot_to_nvm g cap ssd_segoff nvm_segoff st =
     (let nsbi = ms_nsbi st;
          se = ms_sit st ssd_segoff;
          (nvm', w) = for_runs (cur_valid_map se) (blocks_per_seg g) 0
            (\<lambda>st_pos cnt. copy_run cap (ms_ssd st)
               (u32_wrap (START_BLOCK g ssd_segoff + st_pos))
               (u32_wrap (main_blkaddr (nsb nsbi) + nvm_segoff * blocks_per_seg g + st_pos)) cnt)
            (ms_nvm st, ms_need_fsck st)
      in st\<lparr>ms_nvm := nvm', ms_need_fsck := w\<rparr>)"

fun cold_to_ssd_collect :: "f2fs_geo \<Rightarrow> nat \<Rightarrow> nat \<Rightarrow> nat \<Rightarrow> 'b mig_state \<Rightarrow> nat \<times> 'b mig_state" where
  "cold_to_ssd_collect g cap segno 0 st = (0, st)"
| "cold_to_ssd_collect g cap segno (Suc left) st =
     (let (freed, st') = cold_to_ssd_collect g cap (segno + 1) left (do_cold_to_ssd g cap segno False st)
      in (freed + 1, st'))"

subsection \<open>Write-back of cold segments\<close>

text \<open>One victim of the heap. The counters: segments freed by migration, by garbage collection, by unmapping.\<close>

definition cold_victim :: "f2fs_geo \<Rightarrow> nat \<Rightarrow> (nat \<Rightarrow> 'b mig_state \<Rightarrow> nat \<times> 'b mig_state) \<Rightarrow> nat
    \<Rightarrow> (nat \<times> nat \<times> nat) \<times> 'b mig_state \<Rightarrow> (nat \<times> nat \<times> nat) \<times> 'b mig_state" where
  "cold_victim g cap do_garbage_collect nvm_segoff cs =
     (let ((seg_freed, seg_freed_gc, seg_freed_double), st) = cs;
          nsbi = ms_nsbi st;
          ssd_segno = get_mpt_value nsbi nvm_segoff;
          secno = GET_SEC_FROM_SEG g ssd_segno;
          vb = valid_blocks (ms_sit st ssd_segno)
      in if sec_usage_check g (ms_use st) secno then cs
         else if get_double_flag nsbi nvm_segoff \<noteq> 0
         then ((seg_freed, seg_freed_gc, seg_freed_double + 1),
               st\<lparr>ms_nsbi := unset_mapping nsbi (get_mpt_value nsbi nvm_segoff)\<rparr>)
         else if vb = 0 then cs
         else if vb < blocks_per_seg g * 50 div 100
         then (let (n, st') = do_garbage_collect ssd_segno st
               in ((seg_freed, seg_freed_gc + n, seg_freed_double), st'))
         else ((seg_freed + 1, seg_freed_gc, seg_freed_double), do_cold_to_ssd g cap nvm_segoff False st))"

text \<open>The segments of the heap nodes, in array order.\<close>

definition heap_segs :: "heap_node carray \<Rightarrow> nat \<Rightarrow> nat list" where
  "heap_segs nd n = map (\<lambda>i. seg_off (nd i)) [0..<n]"

text \<open>
  \<open>cold_to_ssd\<close>, from the label \<open>gc_more\<close>. A failing checkpoint ends it (\<open>ret\<close>), and so does a
  failing victim selection; both return the total of 0 (\<open>total_freed\<close> is only set on the last
  path). It is repeated as long as free segments are short: \<open>None\<close> if that never ends.
\<close>

partial_function (option) cold_to_ssd :: "f2fs_geo \<Rightarrow> nat \<Rightarrow> (nat \<Rightarrow> 'b mig_state \<Rightarrow> nat \<times> 'b mig_state)
    \<Rightarrow> ('b mig_state \<Rightarrow> bool \<times> 'b mig_state) \<Rightarrow> nat \<times> nat \<times> nat \<Rightarrow> 'b mig_state
    \<Rightarrow> (nat \<times> 'b mig_state) option" where
  "cold_to_ssd g cap do_garbage_collect f2fs_write_checkpoint freed st =
     (let short = has_not_enough_free_nvm_secs (ms_nsbi st);
          (err, st1) = (if short \<and> ms_prefree st \<noteq> 0 then f2fs_write_checkpoint st else (False, st))
      in if err then Some (0, st1)
         else if short \<and> \<not> has_not_enough_free_nvm_secs (ms_nsbi st1) then Some (0, st1)
         else let nsbi = ms_nsbi st1;
                  (r, h) = get_max_k g (ms_use st1) nsbi (reset_max_heap (mh nsbi)) (main_segment_nums (nsb nsbi)) False;
                  st2 = st1\<lparr>ms_nsbi := nsbi\<lparr>mh := h\<rparr>\<rparr>
              in if r \<noteq> None \<or> cur_num h = 0 then Some (0, st2)
                 else let h' = h\<lparr>max_count := count (nodes h 0)\<rparr>;
                          st3 = st2\<lparr>ms_nsbi := (ms_nsbi st2)\<lparr>mh := h'\<rparr>\<rparr>;
                          (freed', st4) = fold (cold_victim g cap do_garbage_collect)
                            (heap_segs (nodes h') (cur_num h')) (freed, st3)
                      in if has_not_enough_free_nvm_secs (ms_nsbi st4)
                         then cold_to_ssd g cap do_garbage_collect f2fs_write_checkpoint freed' st4
                         else (case freed' of (a, b, c) \<Rightarrow> Some (a + b + c, st4)))"

declare cold_to_ssd.simps [code]

definition precold_victim :: "f2fs_geo \<Rightarrow> nat \<Rightarrow> nat \<Rightarrow> nat \<times> 'b mig_state \<Rightarrow> nat \<times> 'b mig_state" where
  "precold_victim g cap segno cs =
     (let (seg_freed, st) = cs;
          ssd_segno = get_mpt_value (ms_nsbi st) segno
      in if sec_usage_check g (ms_use st) (GET_SEC_FROM_SEG g ssd_segno) then cs
         else (seg_freed + 1, do_cold_to_ssd g cap segno True st))"

definition precold_to_ssd :: "f2fs_geo \<Rightarrow> nat \<Rightarrow> 'b mig_state \<Rightarrow> nat \<times> 'b mig_state" where
  "precold_to_ssd g cap st =
     (let nsbi = ms_nsbi st;
          (r, h) = get_max_k g (ms_use st) nsbi (reset_max_heap (mh nsbi)) (main_segment_nums (nsb nsbi)) True;
          st1 = st\<lparr>ms_nsbi := nsbi\<lparr>mh := h\<rparr>\<rparr>
      in if r \<noteq> None \<or> cur_num h = 0 then (0, st1)
         else if (count (nodes h 0) * 3) mod 18446744073709551616 div 2 \<ge> min_count (minh nsbi) then (0, st1)
         else fold (precold_victim g cap) (heap_segs (nodes h) (cur_num h)) (0, st1))"

subsection \<open>Copying hot segments into NVM\<close>

definition can_move :: "nvm_sb_info \<Rightarrow> bool" where
  "can_move nsbi \<longleftrightarrow> min_count (minh nsbi) > 50 \<and> min_count (minh nsbi) > max_count (mh nsbi)"

text \<open>
  The loop over the heap of \<open>hot_to_nvm\<close>; \<open>None\<close> stands for an allocation that never returns
  (ruled out by \<open>nvm_allocate_segment_correct\<close> for a consistent table).
\<close>

fun hot_loop :: "f2fs_geo \<Rightarrow> nat \<Rightarrow> nat list \<Rightarrow> nat \<Rightarrow> 'b mig_state \<Rightarrow> (nat \<times> 'b mig_state) option" where
  "hot_loop g cap [] ret st = Some (ret, st)"
| "hot_loop g cap (ssd_segoff # rest) ret st =
     (if sec_usage_check g (ms_use st) (GET_SEC_FROM_SEG g ssd_segoff) then hot_loop g cap rest ret st
      else case nvm_allocate_segment (ms_nsbi st) ssd_segoff False of None \<Rightarrow> None
         | Some (Inl e, nsbi1) \<Rightarrow> Some (ret, st\<lparr>ms_nsbi := nsbi1\<rparr>)
         | Some (Inr nvm_segoff, nsbi1) \<Rightarrow>
             let st1 = do_hot_to_nvm g cap ssd_segoff nvm_segoff (st\<lparr>ms_nsbi := nsbi1\<rparr>)
             in if ms_free_segmap st1 ssd_segoff
                then (if get_map_flag (ms_nsbi st1) nvm_segoff \<noteq> 0
                      then Some (ret, st1\<lparr>ms_nsbi := release_segment (ms_nsbi st1) nvm_segoff\<rparr>)
                      else hot_loop g cap rest (ret + 1)
                        (st1\<lparr>ms_nsbi := create_mapping (ms_nsbi st1) ssd_segoff nvm_segoff
                                        (rw_map OR rw_redirect OR rw_double)\<rparr>))
                else hot_loop g cap rest ret
                       (st1\<lparr>ms_nsbi := release_segment (ms_nsbi st1) nvm_segoff\<rparr>))"

definition hot_to_nvm :: "f2fs_geo \<Rightarrow> nat \<Rightarrow> 'b mig_state \<Rightarrow> ((nvm_err + nat) \<times> 'b mig_state) option" where
  "hot_to_nvm g cap st =
     (let nsbi = ms_nsbi st
      in if has_not_enough_free_nvm_secs nsbi then Some (Inl ELITTLESPACE, st)
         else let (r, h) = get_min_k g (ms_use st) nsbi (reset_min_heap (minh nsbi)) (main_segments g);
                  st1 = st\<lparr>ms_nsbi := nsbi\<lparr>minh := h\<rparr>\<rparr>
              in if r = Some ENOHOT then Some (Inl ENOHOT, st1)
                 else let h' = h\<lparr>min_count := count (mnodes h 0)\<rparr>;
                          st2 = st1\<lparr>ms_nsbi := (ms_nsbi st1)\<lparr>minh := h'\<rparr>\<rparr>
                      in if \<not> can_move (ms_nsbi st2) then Some (Inl ENOHOT, st2)
                         else map_option (\<lambda>(ret, st'). (Inr ret, st'))
                                (hot_loop g cap (heap_segs (mnodes h') (mcur_num h')) 0 st2))"

subsection \<open>The migration thread\<close>

text \<open>The pause before a round of \<open>data_move_thread\<close>, in milliseconds (\<open>unsigned int\<close>).\<close>

definition move_sleep_time :: "load_stat \<Rightarrow> u32" where
  "move_sleep_time ls =
     (let t = 100 + 1000 * write_ratio ls div 100
      in if util_nvm ls < 30 \<and> util_ssd ls < 30 then t div 2 else t)"

text \<open>One round of \<open>data_move_thread\<close>; \<open>t\<close> (\<open>times\<close> there) counts the rounds modulo 60.\<close>

definition data_move_round :: "f2fs_geo \<Rightarrow> nat \<Rightarrow> (nat \<Rightarrow> 'b mig_state \<Rightarrow> nat \<times> 'b mig_state)
    \<Rightarrow> ('b mig_state \<Rightarrow> bool \<times> 'b mig_state) \<Rightarrow> nat \<Rightarrow> 'b mig_state \<Rightarrow> (nat \<times> 'b mig_state) option" where
  "data_move_round g cap do_garbage_collect f2fs_write_checkpoint t st =
     (let t = (t + 1) mod 60;
          st1 = (if t = 0 then st\<lparr>ms_nsbi := nvm_move_lfu_count (main_segments g) (ms_nsbi st)\<rparr> else st);
          r = (if has_not_enough_free_nvm_secs (ms_nsbi st1)
               then map_option snd (cold_to_ssd g cap do_garbage_collect f2fs_write_checkpoint (0, 0, 0) st1)
               else Some st1)
      in case r of None \<Rightarrow> None
         | Some st2 \<Rightarrow> map_option (\<lambda>(_, st3). (t, st3)) (hot_to_nvm g cap st2))"

subsection \<open>What the copy loop does\<close>

lemma runs_scan:
  assumes "find_next_bit m n pos = p" and "p < n" and "find_next_zero_bit m n (p + 1) = q"
  shows "p < q" "q \<le> n" "\<And>i. pos \<le> i \<Longrightarrow> i < p \<Longrightarrow> \<not> m i" "\<And>i. p \<le> i \<Longrightarrow> i < q \<Longrightarrow> m i" "q < n \<Longrightarrow> \<not> m q"
proof -
  show "p < q" using assms(2,3) find_next_bit_ge [of "p + 1" n "\<lambda>i. \<not> m i"] by (simp add: find_next_zero_bit_def)
  show "q \<le> n" using assms(3) find_next_zero_bit_le by blast
  show "\<not> m i" if "pos \<le> i" "i < p" for i using find_next_bit_first [OF that(1), of m n] that assms(1) by simp
  show "m i" if "p \<le> i" "i < q" for i
    using find_next_bit_set [of m n pos] find_next_bit_first [of "p + 1" i "\<lambda>i. \<not> m i" n] that assms
    by (cases "i = p") (auto simp: find_next_zero_bit_def)
  show "q < n \<Longrightarrow> \<not> m q" using find_next_zero_bit_clear [of m n "p + 1"] assms(3) by simp
qed

text \<open>
  The blocks the loop moves. A request takes the first \<open>cap\<close> blocks of a run, so a valid block is
  within its reach iff one of the \<open>cap\<close> blocks before it is not valid (or the segment starts there).
\<close>

definition in_reach :: "nat \<Rightarrow> bitmap \<Rightarrow> nat \<Rightarrow> bool" where
  "in_reach cap m off \<longleftrightarrow> m off \<and> (off < cap \<or> (\<exists>i \<in> {off - cap..<off}. \<not> m i))"

definition runs_fit :: "nat \<Rightarrow> bitmap \<Rightarrow> nat \<Rightarrow> bool" where
  "runs_fit cap m n \<longleftrightarrow> (\<forall>off < n. m off \<longrightarrow> in_reach cap m off)"

lemma not_runs_fit: "(\<exists>off \<in> {0..<n}. m off \<and> \<not> in_reach cap m off) \<longleftrightarrow> \<not> runs_fit cap m n"
  by (auto simp: runs_fit_def)

lemma in_reach_run:
  assumes "p = 0 \<or> \<not> m (p - 1)" and "\<And>i. p \<le> i \<Longrightarrow> i < q \<Longrightarrow> m i" and "p \<le> off" "off < q"
  shows "in_reach cap m off \<longleftrightarrow> off < p + cap"
proof (cases "off < p + cap")
  case True
  show ?thesis
  proof (cases "off < cap")
    case False
    with True assms(1,3) have "p - 1 \<in> {off - cap..<off}" "\<not> m (p - 1)" by auto
    then show ?thesis using True assms(2-4) by (auto simp: in_reach_def)
  qed (use True assms(2-4) in \<open>simp add: in_reach_def\<close>)
next
  case False
  then have "m i" if "i \<in> {off - cap..<off}" for i using that assms(4) by (intro assms(2)) auto
  then show ?thesis using False by (auto simp: in_reach_def)
qed

lemma for_runs_copy:
  assumes sa: "\<And>p. p < n \<Longrightarrow> sa p = s0 + p" and da: "\<And>p. p < n \<Longrightarrow> da p = d0 + p"
    and "pos = 0 \<or> n < pos \<or> \<not> m (pos - 1)"
  shows "for_runs m n pos (\<lambda>p c. copy_run cap src (sa p) (da p) c) (dst, w) =
    (\<lambda>b. if d0 + pos \<le> b \<and> b < d0 + n \<and> in_reach cap m (b - d0) then src (s0 + (b - d0)) else dst b,
     w \<or> (\<exists>off \<in> {pos..<n}. m off \<and> \<not> in_reach cap m off))"
  using assms(3)
proof (induction "n - pos" arbitrary: pos dst w rule: less_induct)
  case less
  define p where "p = find_next_bit m n pos"
  show ?case
  proof (cases "p \<ge> n")
    case True
    then have no: "\<not> m i" if "pos \<le> i" "i < n" for i
      using find_next_bit_first [of pos i m n] that by (simp add: p_def)
    have "for_runs m n pos (\<lambda>p c. copy_run cap src (sa p) (da p) c) (dst, w) = (dst, w)"
      using True by (subst for_runs.simps) (simp add: p_def)
    then show ?thesis using no by (auto simp: fun_eq_iff in_reach_def)
  next
    case False
    define q where "q = find_next_zero_bit m n (p + 1)"
    have pn: "p < n" using False by simp
    note R = runs_scan [OF p_def [symmetric] pn q_def [symmetric]]
    have pos: "pos \<le> p" "pos < n"
      using pn find_next_bit_ge [of pos n m] by (auto simp: p_def find_next_bit.simps [of m n pos] split: if_splits)
    have front: "p = 0 \<or> \<not> m (p - 1)"
      using less.prems R(3) [of "p - 1"] pos by (cases "p = pos") auto
    have reach: "in_reach cap m i \<longleftrightarrow> i < p + cap" if "p \<le> i" "i < q" for i
      using front R(4) that by (intro in_reach_run [where q = q]) auto
    let ?w = "w \<or> cap < q - p"
    let ?d = "\<lambda>b. if d0 + p \<le> b \<and> b < d0 + p + min cap (q - p) then src (s0 + p + (b - (d0 + p))) else dst b"
    have step: "for_runs m n pos (\<lambda>p c. copy_run cap src (sa p) (da p) c) (dst, w)
        = for_runs m n (q + 1) (\<lambda>p c. copy_run cap src (sa p) (da p) c) (?d, ?w)"
      using False q_def by (subst for_runs.simps) (simp add: Let_def p_def [symmetric] copy_run_def sa [OF pn] da [OF pn] cong: if_cong)
    have lt: "n - (q + 1) < n - pos" using R(1) pos by linarith
    have gap: "q + 1 = 0 \<or> n < q + 1 \<or> \<not> m (q + 1 - 1)" using R(2,5) by (cases "q = n") auto
    have w: "(\<exists>off \<in> {pos..<n}. m off \<and> \<not> in_reach cap m off)
        \<longleftrightarrow> cap < q - p \<or> (\<exists>off \<in> {q + 1..<n}. m off \<and> \<not> in_reach cap m off)" (is "?l \<longleftrightarrow> ?r")
    proof
      assume ?l
      then obtain i where i: "pos \<le> i" "i < n" "m i" "\<not> in_reach cap m i" by auto
      consider "i < p" | "p \<le> i" "i < q" | "i = q" | "q < i" by linarith
      then show ?r
        using i R(3) [of i] R(5) reach [of i] by cases (auto simp: Suc_le_eq)
    next
      assume ?r
      moreover have "p + cap \<in> {pos..<n} \<and> m (p + cap) \<and> \<not> in_reach cap m (p + cap)" if "cap < q - p"
        using that R(2) R(4) [of "p + cap"] reach [of "p + cap"] pos by auto
      moreover have "off \<in> {pos..<n}" if "off \<in> {q + 1..<n}" for off using that R(1) pos by auto
      ultimately show ?l by blast
    qed
    show ?thesis
      unfolding step less.hyps [OF lt gap] w
    proof (intro prod_eqI ext, goal_cases)
      case (1 b)
      consider "b < d0 + p" | "d0 + p \<le> b" "b < d0 + q" | "b = d0 + q" | "d0 + q < b" by linarith
      then show ?case
      proof cases
        case 1
        have "\<not> m (b - d0)" if "d0 + pos \<le> b" using R(3) [of "b - d0"] 1 that pn by linarith
        then have "\<not> (d0 + pos \<le> b \<and> in_reach cap m (b - d0))" by (auto simp: in_reach_def)
        then show ?thesis using 1 R(1) by auto
      next
        case 2
        then show ?thesis using reach [of "b - d0"] R(1,2) pos by auto
      next
        case 3
        then show ?thesis using R(1,5) by (auto simp: in_reach_def)
      next
        case 4
        then show ?thesis using R(1) pos by (auto simp: Suc_le_eq)
      qed
    qed auto
  qed
qed

subsection \<open>The view of a reader\<close>

definition nvm_block :: "f2fs_geo \<Rightarrow> nvm_sb_info \<Rightarrow> nat \<Rightarrow> nat \<Rightarrow> nat" where
  "nvm_block g nsbi n off = main_blkaddr (nsb nsbi) + n * blocks_per_seg g + off"

text \<open>What a read of block \<open>off\<close> of SSD segment \<open>s\<close> returns after redirection.\<close>

definition view :: "f2fs_geo \<Rightarrow> 'b mig_state \<Rightarrow> nat \<Rightarrow> nat \<Rightarrow> 'b" where
  "view g st s off =
     (case redirect_target g (ms_nsbi st) s off of None \<Rightarrow> ms_ssd st (main_block g s off)
      | Some b \<Rightarrow> ms_nvm st b)"

text \<open>
  The table is consistent, every mapping is redirected and only mapped segments are marked double.
  Nothing is assumed of the contents of the devices: a segment is \<open>in_step\<close> if, being marked
  double, it has the same valid blocks on both.
\<close>

definition is_double :: "nvm_sb_info \<Rightarrow> nat \<Rightarrow> nat \<Rightarrow> bool" where
  "is_double nsbi s n \<longleftrightarrow> get_double_flag nsbi n \<noteq> 0 \<or> get_double_flag nsbi (nvm_segs nsbi + s) \<noteq> 0"

definition same_data :: "f2fs_geo \<Rightarrow> 'b mig_state \<Rightarrow> nat \<Rightarrow> nat \<Rightarrow> bool" where
  "same_data g st s n \<longleftrightarrow> (\<forall>off < blocks_per_seg g. cur_valid_map (ms_sit st s) off \<longrightarrow>
     ms_ssd st (main_block g s off) = ms_nvm st (nvm_block g (ms_nsbi st) n off))"

definition in_step :: "f2fs_geo \<Rightarrow> 'b mig_state \<Rightarrow> nat \<Rightarrow> bool" where
  "in_step g st s \<longleftrightarrow> (\<forall>n. nvm_of (main_segments g) (ms_nsbi st) s = Some n \<longrightarrow>
     is_double (ms_nsbi st) s n \<longrightarrow> same_data g st s n)"

definition mig_inv :: "f2fs_geo \<Rightarrow> 'b mig_state \<Rightarrow> bool" where
  "mig_inv g st \<longleftrightarrow> geo_ok g \<and> nvm_ok g (ms_nsbi st)
     \<and> (\<forall>s < main_segments g. mapped (ms_nsbi st) (nvm_segs (ms_nsbi st) + s) \<longrightarrow>
          get_redirect_flag (ms_nsbi st) (nvm_segs (ms_nsbi st) + s) \<noteq> 0)
     \<and> (\<forall>n < nvm_segs (ms_nsbi st). get_double_flag (ms_nsbi st) n \<noteq> 0 \<longrightarrow> mapped (ms_nsbi st) n)"

lemma view_nvm_of:
  assumes "mig_inv g st" and "s < main_segments g"
  shows "view g st s off = (case nvm_of (main_segments g) (ms_nsbi st) s of None \<Rightarrow> ms_ssd st (main_block g s off)
      | Some n \<Rightarrow> ms_nvm st (nvm_block g (ms_nsbi st) n off))"
  using assms by (auto simp: view_def redirect_target_def nvm_of_def mig_inv_def nvm_ok_def nvm_block_def)

lemma nvm_block_lt:
  assumes "nvm_ok g nsbi" and "n < nvm_segs nsbi" and "off < blocks_per_seg g"
  shows "nvm_block g nsbi n off < 4294967296"
  using assms seg_bound [OF assms(2,3)] by (simp add: nvm_ok_def nvm_block_def)

lemma nvm_block_eq:
  "off < blocks_per_seg g \<Longrightarrow> off' < blocks_per_seg g \<Longrightarrow>
   nvm_block g nsbi n off = nvm_block g nsbi n' off' \<longleftrightarrow> n = n' \<and> off = off'"
  unfolding nvm_block_def by (rule seg_addr_eq)

lemma main_block_eq:
  "off < blocks_per_seg g \<Longrightarrow> off' < blocks_per_seg g \<Longrightarrow>
   main_block g s off = main_block g s' off' \<longleftrightarrow> s = s' \<and> off = off'"
  unfolding main_block_def by (rule seg_addr_eq)

text \<open>The device after the valid blocks of one segment have been copied over.\<close>

definition seg_copied :: "f2fs_geo \<Rightarrow> bitmap \<Rightarrow> 'b carray \<Rightarrow> nat \<Rightarrow> 'b carray \<Rightarrow> nat \<Rightarrow> 'b carray" where
  "seg_copied g v src s0 dst d0 =
     (\<lambda>b. if d0 \<le> b \<and> b < d0 + blocks_per_seg g \<and> v (b - d0) then src (s0 + (b - d0)) else dst b)"

lemma wraps:
  assumes "geo_ok g" "nvm_ok g nsbi" "s < main_segments g" "n < nvm_segs nsbi" "p < blocks_per_seg g"
  shows "u32_wrap (main_blkaddr (nsb nsbi) + n * blocks_per_seg g + p) = nvm_block g nsbi n 0 + p"
    and "u32_wrap (START_BLOCK g s + p) = main_block g s 0 + p"
  using nvm_block_lt [OF assms(2,4,5)] main_block_range(1) [OF assms(1,3,5)] START_BLOCK_main [OF assms(1,3)]
  by (simp_all add: u32_wrap_def nvm_block_def main_block_def)

lemma do_cold_to_ssd_eq:
  assumes "geo_ok g" and ok: "nvm_ok g (ms_nsbi st)" and n: "n < nvm_segs (ms_nsbi st)"
    and m: "mapped (ms_nsbi st) n"
  shows "do_cold_to_ssd g cap n pre st =
    (let s = get_mpt_value (ms_nsbi st) n; v = cur_valid_map (ms_sit st s)
     in st\<lparr>ms_ssd := seg_copied g (in_reach cap v) (ms_nvm st) (nvm_block g (ms_nsbi st) n 0)
                      (ms_ssd st) (main_block g s 0),
           ms_need_fsck := ms_need_fsck st \<or> \<not> runs_fit cap v (blocks_per_seg g),
           ms_nsbi := (if pre then set_double (ms_nsbi st) s else unset_mapping (ms_nsbi st) s)\<rparr>)"
proof -
  let ?s = "get_mpt_value (ms_nsbi st) n"
  have s: "?s < main_segments g" using ok n m by (auto simp: nvm_ok_def wf_defs)
  note w = wraps [OF assms(1) ok s n]
  show ?thesis
    using m unfolding do_cold_to_ssd_def Let_def
    by (subst for_runs_copy [OF w(1) w(2)]) (simp_all add: mapped_def seg_copied_def not_runs_fit)
qed

lemma do_hot_to_nvm_eq:
  assumes "geo_ok g" and ok: "nvm_ok g (ms_nsbi st)" and n: "n < nvm_segs (ms_nsbi st)"
    and s: "s < main_segments g"
  shows "do_hot_to_nvm g cap s n st =
    (let v = cur_valid_map (ms_sit st s)
     in st\<lparr>ms_nvm := seg_copied g (in_reach cap v) (ms_ssd st) (main_block g s 0)
                      (ms_nvm st) (nvm_block g (ms_nsbi st) n 0),
           ms_need_fsck := ms_need_fsck st \<or> \<not> runs_fit cap v (blocks_per_seg g)\<rparr>)"
proof -
  note w = wraps [OF assms(1) ok s n]
  show ?thesis
    unfolding do_hot_to_nvm_def Let_def
    by (subst for_runs_copy [OF w(2) w(1)]) (simp_all add: seg_copied_def not_runs_fit)
qed

lemma seg_copied_ssd:
  assumes "off < blocks_per_seg g"
  shows "seg_copied g v src (nvm_block g nsbi n 0) dst (main_block g s 0) (main_block g s' off)
    = (if s' = s \<and> v off then src (nvm_block g nsbi n off) else dst (main_block g s' off))"
  using seg_addr_range [OF assms, of "ssd_main_blkaddr g" s s']
  by (auto simp: seg_copied_def main_block_def nvm_block_def)

lemma seg_copied_nvm:
  assumes "off < blocks_per_seg g"
  shows "seg_copied g v src (main_block g s 0) dst (nvm_block g nsbi n 0) (nvm_block g nsbi n' off)
    = (if n' = n \<and> v off then src (main_block g s off) else dst (nvm_block g nsbi n' off))"
  using seg_addr_range [OF assms, of "main_blkaddr (nsb nsbi)" n n']
  by (auto simp: seg_copied_def main_block_def nvm_block_def)

subsection \<open>Flags after the table operations\<close>

lemma unset_mapping_mpt:
  assumes "mpt_wf S nsbi" and "nvm_of S nsbi s = Some n"
  shows "mpt (unset_mapping nsbi s) = (mpt nsbi)(nvm_segs nsbi + s := 0, n := 0)"
    and "main_blkaddr (nsb (unset_mapping nsbi s)) = main_blkaddr (nsb nsbi)"
  using assms
  by (auto simp: unset_mapping_def Let_def nvm_of_def mapped_def add.commute clear_map_def set_dirty_def release_segment_def
      split: if_splits)

lemma set_double_mpt:
  assumes "mpt_wf S nsbi" and "nvm_of S nsbi s = Some n"
  shows "mpt (set_double nsbi s) j = (if j = nvm_segs nsbi + s \<or> j = n then mpt nsbi j OR rw_double else mpt nsbi j)"
    and "nsb (set_double nsbi s) = nsb nsbi"
  using assms nvm_of_SomeD(2) [OF assms]
  by (auto simp: set_double_def Let_def nvm_of_def mapped_def add.commute set_double_flag_def set_dirty_def
      split: if_splits)

lemma nsbi_flags:
  "mapped nsbi j \<longleftrightarrow> bit (mpt nsbi j) 0" "get_redirect_flag nsbi j \<noteq> 0 \<longleftrightarrow> bit (mpt nsbi j) 1"
  "get_double_flag nsbi j \<noteq> 0 \<longleftrightarrow> bit (mpt nsbi j) 2"
  using and_exp_eq_0_iff_not_bit [of "mpt nsbi j" 0] and_exp_eq_0_iff_not_bit [of "mpt nsbi j" 1]
    and_exp_eq_0_iff_not_bit [of "mpt nsbi j" 2]
  by (simp_all add: mapped_def get_map_flag_def get_redirect_flag_def get_double_flag_def)

lemma mig_invD:
  assumes "mig_inv g st"
  shows "geo_ok g" "nvm_ok g (ms_nsbi st)" "mpt_wf (main_segments g) (ms_nsbi st)"
  using assms by (auto simp: mig_inv_def nvm_ok_def)

lemma mig_invI:
  assumes inv: "mig_inv g st" and wf: "mpt_wf (main_segments g) (ms_nsbi st')"
    and nsb: "nvm_segs (ms_nsbi st') = nvm_segs (ms_nsbi st)"
      "main_blkaddr (nsb (ms_nsbi st')) = main_blkaddr (nsb (ms_nsbi st))"
    and fl: "\<And>s. s < main_segments g \<Longrightarrow>
      bit (mpt (ms_nsbi st') (nvm_segs (ms_nsbi st) + s)) 1 \<longleftrightarrow> bit (mpt (ms_nsbi st') (nvm_segs (ms_nsbi st) + s)) 0"
    and dm: "\<And>n. n < nvm_segs (ms_nsbi st) \<Longrightarrow> bit (mpt (ms_nsbi st') n) 2 \<Longrightarrow> bit (mpt (ms_nsbi st') n) 0"
  shows "mig_inv g st'"
  using assms unfolding mig_inv_def nvm_ok_def nsbi_flags by auto

lemma mig_inv_flags:
  "mig_inv g st \<Longrightarrow> s < main_segments g \<Longrightarrow>
   bit (mpt (ms_nsbi st) (nvm_segs (ms_nsbi st) + s)) 1 \<longleftrightarrow> bit (mpt (ms_nsbi st) (nvm_segs (ms_nsbi st) + s)) 0"
  unfolding mig_inv_def nvm_ok_def nsbi_flags by blast

lemma mig_inv_double:
  "mig_inv g st \<Longrightarrow> n < nvm_segs (ms_nsbi st) \<Longrightarrow> bit (mpt (ms_nsbi st) n) 2 \<Longrightarrow> bit (mpt (ms_nsbi st) n) 0"
  unfolding mig_inv_def nvm_ok_def nsbi_flags by blast

lemma mig_inv_table:
  "ms_nsbi st' = ms_nsbi st \<Longrightarrow> mig_inv g st' = mig_inv g st"
  by (simp add: mig_inv_def)

text \<open>Unmapping: only the unmapped segment can read differently, and does not if the SSD has its data.\<close>

lemma unmap_safe:
  assumes inv: "mig_inv g st" and s: "nvm_of (main_segments g) (ms_nsbi st) s = Some n"
  defines "st' \<equiv> st\<lparr>ms_nsbi := unset_mapping (ms_nsbi st) s\<rparr>"
  shows "mig_inv g st'" "in_step g st t \<Longrightarrow> in_step g st' t"
    "t < main_segments g \<Longrightarrow> view g st' t off = (if t = s then ms_ssd st (main_block g s off) else view g st t off)"
proof -
  let ?N = "nvm_segs (ms_nsbi st)" and ?M = "main_segments g"
  note wf = mig_invD(3) [OF inv] and U = unset_mapping_mpt [OF mig_invD(3) [OF inv] s]
  note D = nvm_of_SomeD [OF wf s]
  have of': "nvm_of ?M (ms_nsbi st') = (nvm_of ?M (ms_nsbi st))(s := None)"
    and wf': "mpt_wf ?M (ms_nsbi st')" and N': "nvm_segs (ms_nsbi st') = ?N"
    using unset_mapping_wf [OF wf D(1)] unset_mapping_Some(5) [OF wf s] by (simp_all add: st'_def)
  have blk: "nvm_block g (ms_nsbi st') i off = nvm_block g (ms_nsbi st) i off" for i off
    using U(2) by (simp add: nvm_block_def st'_def)
  show inv': "mig_inv g st'"
    by (rule mig_invI [OF inv wf' N'])
      (use U mig_inv_flags [OF inv] mig_inv_double [OF inv] D(2) in \<open>auto simp: st'_def\<close>)
  show "in_step g st t \<Longrightarrow> in_step g st' t"
    unfolding in_step_def
  proof (intro allI impI)
    fix i assume st: "\<forall>n. nvm_of ?M (ms_nsbi st) t = Some n \<longrightarrow> is_double (ms_nsbi st) t n \<longrightarrow> same_data g st t n"
      and t: "nvm_of ?M (ms_nsbi st') t = Some i" and d: "is_double (ms_nsbi st') t i"
    then have t': "nvm_of ?M (ms_nsbi st) t = Some i" "t \<noteq> s" using of' by (auto split: if_splits)
    then have "i \<noteq> n" using nvm_of_inj [OF wf s] by auto
    with t' d D(2) nvm_of_SomeD(2) [OF wf t'(1)] have "is_double (ms_nsbi st) t i"
      unfolding is_double_def nsbi_flags N' by (auto simp: st'_def U(1) split: if_splits)
    then show "same_data g st' t i" using st t'(1) by (simp add: same_data_def blk) (simp add: st'_def)
  qed
  show "t < ?M \<Longrightarrow> view g st' t off = (if t = s then ms_ssd st (main_block g s off) else view g st t off)"
    using view_nvm_of [OF inv', of t off] view_nvm_of [OF inv, of t off] of' blk
    by (auto simp: st'_def split: option.splits)
qed

lemma double_safe:
  assumes inv: "mig_inv g st" and s: "nvm_of (main_segments g) (ms_nsbi st) s = Some n"
  defines "st' \<equiv> st\<lparr>ms_nsbi := set_double (ms_nsbi st) s\<rparr>"
  shows "mig_inv g st'" "in_step g st t \<Longrightarrow> (t = s \<Longrightarrow> same_data g st s n) \<Longrightarrow> in_step g st' t"
    "t < main_segments g \<Longrightarrow> view g st' t off = view g st t off"
proof -
  let ?N = "nvm_segs (ms_nsbi st)" and ?M = "main_segments g"
  note wf = mig_invD(3) [OF inv] and U = set_double_mpt [OF mig_invD(3) [OF inv] s]
  note D = nvm_of_SomeD [OF wf s]
  have of': "nvm_of ?M (ms_nsbi st') = nvm_of ?M (ms_nsbi st)" and wf': "mpt_wf ?M (ms_nsbi st')"
    using wf by (simp_all add: st'_def)
  have blk: "nvm_block g (ms_nsbi st') i off = nvm_block g (ms_nsbi st) i off" for i off
    using U(2) by (simp add: nvm_block_def st'_def)
  show inv': "mig_inv g st'"
    by (rule mig_invI [OF inv wf'])
      (use U mig_inv_flags [OF inv] mig_inv_double [OF inv] D(3) in \<open>auto simp: st'_def bit_simps nsbi_flags split: if_splits\<close>)
  show "in_step g st' t" if st: "in_step g st t" and same: "t = s \<Longrightarrow> same_data g st s n"
    unfolding in_step_def
  proof (intro allI impI)
    fix i assume t: "nvm_of ?M (ms_nsbi st') t = Some i" and d: "is_double (ms_nsbi st') t i"
    then have t': "nvm_of ?M (ms_nsbi st) t = Some i" using of' by simp
    have "same_data g st t i"
    proof (cases "t = s")
      case True
      then show ?thesis using same s t' by simp
    next
      case False
      then have "i \<noteq> n" using nvm_of_inj [OF wf s] t' by auto
      with False d D(2) nvm_of_SomeD(2) [OF wf t'] have "is_double (ms_nsbi st) t i"
        unfolding is_double_def nsbi_flags by (auto simp: st'_def U split: if_splits)
      then show ?thesis using st t' by (simp add: in_step_def)
    qed
    then show "same_data g st' t i" by (simp add: same_data_def blk) (simp add: st'_def)
  qed
  show "t < ?M \<Longrightarrow> view g st' t off = view g st t off"
    using view_nvm_of [OF inv', of t off] view_nvm_of [OF inv, of t off] of' blk
    by (auto simp: st'_def split: option.splits)
qed

text \<open>Copying any set of blocks of a mapped segment back to the SSD does not concern a reader.\<close>

lemma copy_back_safe:
  fixes v :: bitmap and w :: bool
  assumes inv: "mig_inv g st" and s: "nvm_of (main_segments g) (ms_nsbi st) s = Some n"
  defines "st' \<equiv> st\<lparr>ms_ssd := seg_copied g v (ms_nvm st) (nvm_block g (ms_nsbi st) n 0)
                      (ms_ssd st) (main_block g s 0), ms_need_fsck := w\<rparr>"
  shows "mig_inv g st'" "in_step g st t \<Longrightarrow> in_step g st' t"
    "t < main_segments g \<Longrightarrow> off < blocks_per_seg g \<Longrightarrow> view g st' t off = view g st t off"
    "(\<And>off. off < blocks_per_seg g \<Longrightarrow> cur_valid_map (ms_sit st s) off \<Longrightarrow> v off) \<Longrightarrow> same_data g st' s n"
proof -
  let ?M = "main_segments g"
  show inv': "mig_inv g st'" using inv mig_inv_table [of st' st g] by (simp add: st'_def)
  have same: "same_data g st t i \<Longrightarrow> nvm_of ?M (ms_nsbi st) t = Some i \<Longrightarrow> same_data g st' t i" for t i
    using s by (auto simp: same_data_def st'_def seg_copied_ssd)
  then show "in_step g st t \<Longrightarrow> in_step g st' t" by (auto simp: in_step_def) (simp_all add: st'_def)
  show "t < ?M \<Longrightarrow> off < blocks_per_seg g \<Longrightarrow> view g st' t off = view g st t off"
    using view_nvm_of [OF inv', of t off] view_nvm_of [OF inv, of t off] s
    by (auto simp: st'_def seg_copied_ssd split: option.splits)
  show "(\<And>off. off < blocks_per_seg g \<Longrightarrow> cur_valid_map (ms_sit st s) off \<Longrightarrow> v off) \<Longrightarrow> same_data g st' s n"
    by (simp add: same_data_def st'_def seg_copied_ssd)
qed

subsection \<open>Copying into NVM\<close>

lemma took_fields [simp]:
  "mpt (took nsbi s) = mpt nsbi" "nvm_segs (took nsbi s) = nvm_segs nsbi"
  "main_blkaddr (nsb (took nsbi s)) = main_blkaddr (nsb nsbi)"
  by (simp_all add: took_def take_segment_def)

lemma release_fields [simp]:
  "main_blkaddr (nsb (release_segment nsbi s)) = main_blkaddr (nsb nsbi)"
  "get_double_flag (release_segment nsbi s) = get_double_flag nsbi"
  by (simp_all add: release_segment_def get_double_flag_def fun_eq_iff)

lemma same_mpt:
  assumes "mpt n' = mpt n" "nvm_segs n' = nvm_segs n" "main_blkaddr (nsb n') = main_blkaddr (nsb n)"
  shows "nvm_of S n' = nvm_of S n" "is_double n' = is_double n" "nvm_block g n' = nvm_block g n"
    "redirect_target g n' = redirect_target g n" "mapped n' = mapped n" "get_mpt_value n' = get_mpt_value n"
  using assms
  by (simp_all add: nvm_of_def is_double_def nvm_block_def redirect_target_def fun_eq_iff mapped_def get_map_flag_def
      get_mpt_value_def get_double_flag_def get_redirect_flag_def)

text \<open>Operations that leave the table entries alone: taking and releasing a segment, the heaps, the counters.\<close>

lemma table_kept_safe:
  assumes inv: "mig_inv g st" and wf: "mpt_wf (main_segments g) n'"
    and eq: "mpt n' = mpt (ms_nsbi st)" "nvm_segs n' = nvm_segs (ms_nsbi st)"
      "main_blkaddr (nsb n') = main_blkaddr (nsb (ms_nsbi st))"
  shows "mig_inv g (st\<lparr>ms_nsbi := n'\<rparr>)" "in_step g (st\<lparr>ms_nsbi := n'\<rparr>) = in_step g st"
    "view g (st\<lparr>ms_nsbi := n'\<rparr>) = view g st"
proof -
  note k = same_mpt [OF eq]
  show "mig_inv g (st\<lparr>ms_nsbi := n'\<rparr>)"
    by (rule mig_invI [OF inv]) (use wf eq mig_inv_flags [OF inv] mig_inv_double [OF inv] in simp_all)
  show "in_step g (st\<lparr>ms_nsbi := n'\<rparr>) = in_step g st" "view g (st\<lparr>ms_nsbi := n'\<rparr>) = view g st"
    by (auto simp: in_step_def same_data_def view_def k fun_eq_iff split: option.splits)
qed

lemma copy_in_safe:
  fixes s :: nat and v :: bitmap and w :: bool
  assumes inv: "mig_inv g st" and n: "bindable (ms_nsbi st) n"
  defines "st' \<equiv> st\<lparr>ms_nvm := seg_copied g v (ms_ssd st) (main_block g s 0)
                   (ms_nvm st) (nvm_block g (ms_nsbi st) n 0), ms_need_fsck := w\<rparr>"
  shows "mig_inv g st'" "in_step g st t \<Longrightarrow> in_step g st' t"
    "t < main_segments g \<Longrightarrow> off < blocks_per_seg g \<Longrightarrow> view g st' t off = view g st t off"
proof -
  let ?M = "main_segments g"
  have free: "nvm_of ?M (ms_nsbi st) t \<noteq> Some n" for t
    using mp.fresh_unused [OF mig_invD(3) [OF inv] n] by simp
  show inv': "mig_inv g st'" using inv mig_inv_table [of st' st g] by (simp add: st'_def)
  have other: "same_data g st' t i = same_data g st t i" if "i \<noteq> n" for t i
    using that by (simp add: same_data_def st'_def seg_copied_nvm)
  show "in_step g st t \<Longrightarrow> in_step g st' t"
    using other free [of t] unfolding in_step_def by (auto simp: st'_def)
  show "t < ?M \<Longrightarrow> off < blocks_per_seg g \<Longrightarrow> view g st' t off = view g st t off"
    using view_nvm_of [OF inv', of t off] view_nvm_of [OF inv, of t off] free [of t]
    by (auto simp: st'_def seg_copied_nvm split: option.splits)
qed

lemma nvm_block_create [simp]: "nvm_block g (create_mapping n s i f) = nvm_block g n"
  by (simp add: nvm_block_def fun_eq_iff)

lemma bind_safe:
  assumes inv: "mig_inv g st" and n: "bindable (ms_nsbi st) n" and s: "s < main_segments g"
    and no: "nvm_of (main_segments g) (ms_nsbi st) s = None"
  defines "st' \<equiv> st\<lparr>ms_nsbi := create_mapping (ms_nsbi st) s n (rw_map OR rw_redirect OR rw_double)\<rparr>"
  shows "mig_inv g st'" "in_step g st t \<Longrightarrow> (t = s \<Longrightarrow> same_data g st s n) \<Longrightarrow> in_step g st' t"
    "t < main_segments g \<Longrightarrow>
       view g st' t off = (if t = s then ms_nvm st (nvm_block g (ms_nsbi st) n off) else view g st t off)"
    "nvm_of (main_segments g) (ms_nsbi st') = (nvm_of (main_segments g) (ms_nsbi st))(s \<mapsto> n)"
proof -
  let ?N = "nvm_segs (ms_nsbi st)" and ?M = "main_segments g"
  note wf = mig_invD(3) [OF inv]
  note C = create_mapping_wf [OF wf s no n, of "rw_map OR rw_redirect OR rw_double"]
  show of': "nvm_of ?M (ms_nsbi st') = (nvm_of ?M (ms_nsbi st))(s \<mapsto> n)"
    unfolding st'_def using C(2) by simp
  have mpt': "mpt (ms_nsbi st') j = (if j = ?N + s then push_bit 3 (of_nat n) OR 7
      else if j = n then push_bit 3 (of_nat s) OR 7 else mpt (ms_nsbi st) j)" for j
    by (simp add: st'_def create_mapping_def set_mpt_entry_def Let_def)
  have nN: "n < ?N" using n by (simp add: bindable_def)
  have blk: "nvm_block g (ms_nsbi st') = nvm_block g (ms_nsbi st)" by (simp add: st'_def nvm_block_def fun_eq_iff)
  show inv': "mig_inv g st'"
  proof (rule mig_invI [OF inv])
    show "mpt_wf ?M (ms_nsbi st')" unfolding st'_def using C(1) by simp
  next
    fix t assume "t < ?M"
    then show "bit (mpt (ms_nsbi st') (?N + t)) 1 \<longleftrightarrow> bit (mpt (ms_nsbi st') (?N + t)) 0"
      using mig_inv_flags [OF inv] nN by (auto simp: mpt' bit_simps)
  next
    fix i assume "i < ?N" "bit (mpt (ms_nsbi st') i) 2"
    then show "bit (mpt (ms_nsbi st') i) 0"
      using mig_inv_double [OF inv] by (auto simp: mpt' bit_simps split: if_splits)
  qed (simp_all add: st'_def)
  show "in_step g st' t" if st: "in_step g st t" and same: "t = s \<Longrightarrow> same_data g st s n"
    unfolding in_step_def
  proof (intro allI impI)
    fix i assume t: "nvm_of ?M (ms_nsbi st') t = Some i" and d: "is_double (ms_nsbi st') t i"
    have "same_data g st t i"
    proof (cases "t = s")
      case True
      then show ?thesis using t of' same by simp
    next
      case False
      then have t': "nvm_of ?M (ms_nsbi st) t = Some i" using t of' by simp
      then have "i \<noteq> n" using mp.fresh_unused [OF wf n] by auto
      with False t' d nvm_of_SomeD(2) [OF wf t'] have "is_double (ms_nsbi st) t i"
        unfolding is_double_def nsbi_flags mpt' using nN by (auto simp: st'_def split: if_splits)
      then show ?thesis using st t' by (simp add: in_step_def)
    qed
    then show "same_data g st' t i" by (simp add: same_data_def blk) (simp add: st'_def)
  qed
  show "t < ?M \<Longrightarrow> view g st' t off = (if t = s then ms_nvm st (nvm_block g (ms_nsbi st) n off) else view g st t off)"
    using view_nvm_of [OF inv', of t off] view_nvm_of [OF inv, of t off] of' blk
    by (auto simp: st'_def split: option.splits)
qed

text \<open>
  What a round of hot migration may change. A valid block reads differently only if its segment
  was mapped in this round and it was out of the reach of its request; then an \<open>fsck\<close> is due.
  Mappings are only added, and a segment whose runs fit stays in step (or becomes it).
\<close>

definition hot_kept :: "f2fs_geo \<Rightarrow> nat \<Rightarrow> 'b mig_state \<Rightarrow> 'b mig_state \<Rightarrow> bool" where
  "hot_kept g cap st st' \<longleftrightarrow>
     (\<forall>s < main_segments g. \<forall>off < blocks_per_seg g. cur_valid_map (ms_sit st s) off \<longrightarrow>
        view g st' s off = view g st s off
        \<or> nvm_of (main_segments g) (ms_nsbi st) s = None \<and> nvm_of (main_segments g) (ms_nsbi st') s \<noteq> None
          \<and> \<not> in_reach cap (cur_valid_map (ms_sit st s)) off \<and> ms_need_fsck st')
     \<and> nvm_of (main_segments g) (ms_nsbi st) \<subseteq>\<^sub>m nvm_of (main_segments g) (ms_nsbi st')
     \<and> (\<forall>s. in_step g st s \<and> runs_fit cap (cur_valid_map (ms_sit st s)) (blocks_per_seg g) \<longrightarrow> in_step g st' s)
     \<and> (ms_need_fsck st \<longrightarrow> ms_need_fsck st') \<and> ms_sit st' = ms_sit st"

lemma hot_kept_refl: "hot_kept g cap st st"
  by (simp add: hot_kept_def)

lemma hot_kept_trans:
  assumes a: "hot_kept g cap st st1" and b: "hot_kept g cap st1 st2"
  shows "hot_kept g cap st st2"
proof -
  let ?f = "\<lambda>st. nvm_of (main_segments g) (ms_nsbi st)"
  have m: "?f st \<subseteq>\<^sub>m ?f st1" "?f st1 \<subseteq>\<^sub>m ?f st2" "?f st \<subseteq>\<^sub>m ?f st2"
    using a b map_le_trans by (auto simp: hot_kept_def)
  have up: "?f st s \<noteq> None \<Longrightarrow> ?f st1 s \<noteq> None" "?f st1 s \<noteq> None \<Longrightarrow> ?f st2 s \<noteq> None" for s
    using m(1,2) by (metis domIff map_le_def)+
  have sit: "ms_sit st1 = ms_sit st" using a by (simp add: hot_kept_def)
  have "view g st2 s off = view g st s off
      \<or> ?f st s = None \<and> ?f st2 s \<noteq> None \<and> \<not> in_reach cap (cur_valid_map (ms_sit st s)) off \<and> ms_need_fsck st2"
    if "s < main_segments g" "off < blocks_per_seg g" "cur_valid_map (ms_sit st s) off" for s off
    using a b that up [of s] sit unfolding hot_kept_def by metis
  then show ?thesis using a b m(3) by (simp add: hot_kept_def)
qed

lemma hot_kept_same:
  assumes "\<And>s off. s < main_segments g \<Longrightarrow> off < blocks_per_seg g \<Longrightarrow> view g st' s off = view g st s off"
    and "nvm_of (main_segments g) (ms_nsbi st') = nvm_of (main_segments g) (ms_nsbi st)"
    and "\<And>s. in_step g st s \<Longrightarrow> in_step g st' s" and "ms_need_fsck st \<Longrightarrow> ms_need_fsck st'" "ms_sit st' = ms_sit st"
  shows "hot_kept g cap st st'"
  using assms by (simp add: hot_kept_def)

lemma table_kept_hot:
  assumes "mig_inv g st" and "mpt_wf (main_segments g) n'"
    and "mpt n' = mpt (ms_nsbi st)" "nvm_segs n' = nvm_segs (ms_nsbi st)"
      "main_blkaddr (nsb n') = main_blkaddr (nsb (ms_nsbi st))"
  shows "hot_kept g cap st (st\<lparr>ms_nsbi := n'\<rparr>)"
  using table_kept_safe [OF assms] same_mpt(1) [OF assms(3-5)] by (intro hot_kept_same) simp_all

text \<open>One segment: taken, copied, and then either mapped or given back.\<close>

lemma hot_one_safe:
  fixes cap :: nat
  assumes inv: "mig_inv g st" and n: "n < nvm_segs (ms_nsbi st)" "\<not> segment_map (ms_nsbi st) n"
    and s: "s < main_segments g" "nvm_of (main_segments g) (ms_nsbi st) s = None"
  defines "c \<equiv> do_hot_to_nvm g cap s n (st\<lparr>ms_nsbi := took (ms_nsbi st) n\<rparr>)"
  defines "b \<equiv> c\<lparr>ms_nsbi := create_mapping (ms_nsbi c) s n (rw_map OR rw_redirect OR rw_double)\<rparr>"
    and "r \<equiv> c\<lparr>ms_nsbi := release_segment (ms_nsbi c) n\<rparr>"
  shows "get_map_flag (ms_nsbi c) n = 0" "ms_free_segmap c = ms_free_segmap st"
    "mig_inv g r" "hot_kept g cap st r"
    "nvm_of (main_segments g) (ms_nsbi r) = nvm_of (main_segments g) (ms_nsbi st)"
    "mig_inv g b" "hot_kept g cap st b"
    "nvm_of (main_segments g) (ms_nsbi b) = (nvm_of (main_segments g) (ms_nsbi st))(s \<mapsto> n)"
proof -
  let ?M = "main_segments g" and ?v = "cur_valid_map (ms_sit st s)"
  let ?a = "st\<lparr>ms_nsbi := took (ms_nsbi st) n\<rparr>"
  note wf = mig_invD(3) [OF inv]
  note T = took_wf [OF wf n]
  have a: "mig_inv g ?a" "hot_kept g cap st ?a"
    using table_kept_safe(1) [OF inv T(1)] table_kept_hot [OF inv T(1)] by simp_all
  have nb: "bindable (ms_nsbi ?a) n" and nN: "n < nvm_segs (ms_nsbi ?a)" using T(2) n by simp_all
  have c: "c = ?a\<lparr>ms_nvm := seg_copied g (in_reach cap ?v) (ms_ssd ?a) (main_block g s 0)
        (ms_nvm ?a) (nvm_block g (ms_nsbi ?a) n 0),
      ms_need_fsck := ms_need_fsck st \<or> \<not> runs_fit cap ?v (blocks_per_seg g)\<rparr>"
    unfolding c_def using do_hot_to_nvm_eq [OF mig_invD(1,2) [OF a(1)] nN s(1), of cap] by (simp add: Let_def)
  have cf: "ms_nsbi c = took (ms_nsbi st) n" "ms_sit c = ms_sit st" "ms_free_segmap c = ms_free_segmap st"
      "ms_need_fsck c = (ms_need_fsck st \<or> \<not> runs_fit cap ?v (blocks_per_seg g))"
    unfolding c by simp_all
  have ci: "mig_inv g c" unfolding c by (rule copy_in_safe [OF a(1) nb])
  have "hot_kept g cap ?a c"
  proof (rule hot_kept_same)
    fix t off assume "t < ?M" "off < blocks_per_seg g"
    then show "view g c t off = view g ?a t off" unfolding c by (rule copy_in_safe(3) [OF a(1) nb])
  next
    fix t assume "in_step g ?a t"
    then show "in_step g c t" unfolding c by (rule copy_in_safe(2) [OF a(1) nb])
  qed (simp_all add: c)
  then have ck: "hot_kept g cap st c" by (rule hot_kept_trans [OF a(2)])
  show "get_map_flag (ms_nsbi c) n = 0" using T(2) cf(1) by (simp add: bindable_def mapped_def)
  show "ms_free_segmap c = ms_free_segmap st" by (rule cf)
  have rw: "mpt_wf ?M (release_segment (ms_nsbi c) n)" using release_wf [OF T(1,2)] cf(1) by simp
  show "mig_inv g r" using table_kept_safe(1) [OF ci rw] by (simp add: r_def)
  show "hot_kept g cap st r" using table_kept_hot [OF ci rw] unfolding r_def by (intro hot_kept_trans [OF ck]) simp
  show "nvm_of ?M (ms_nsbi r) = nvm_of ?M (ms_nsbi st)"
    using same_mpt(1) [of "release_segment (ms_nsbi c) n" "ms_nsbi st" ?M] cf(1) by (simp add: r_def)
  have no: "bindable (ms_nsbi c) n" "nvm_of ?M (ms_nsbi c) s = None" using T(2,3) s(2) cf(1) by simp_all
  note B = bind_safe [OF ci no(1) s(1) no(2), folded b_def]
  show "mig_inv g b" by (rule B(1))
  show of': "nvm_of ?M (ms_nsbi b) = (nvm_of ?M (ms_nsbi st))(s \<mapsto> n)" using B(4) T(3) cf(1) by simp
  have nvm: "ms_nvm c (nvm_block g (ms_nsbi c) n off) =
      (if in_reach cap ?v off then ms_ssd st (main_block g s off) else ms_nvm st (nvm_block g (ms_nsbi c) n off))"
    if "off < blocks_per_seg g" for off
    using that unfolding c by (simp add: seg_copied_nvm)
  have ssd: "view g st s off = ms_ssd st (main_block g s off)" for off using view_nvm_of [OF inv s(1)] s(2) by simp
  have vc: "view g c t off = view g st t off" if "t < ?M" "off < blocks_per_seg g" for t off
    using that copy_in_safe(3) [OF a(1) nb that] table_kept_safe(3) [OF inv T(1)] unfolding c by simp
  have bf: "ms_need_fsck b = ms_need_fsck c" "ms_sit b = ms_sit st" using cf(2) by (simp_all add: b_def)
  show "hot_kept g cap st b"
    unfolding hot_kept_def
  proof (intro conjI allI impI)
    fix t off assume t: "t < ?M" "off < blocks_per_seg g" "cur_valid_map (ms_sit st t) off"
    show "view g b t off = view g st t off \<or> nvm_of ?M (ms_nsbi st) t = None \<and> nvm_of ?M (ms_nsbi b) t \<noteq> None
        \<and> \<not> in_reach cap (cur_valid_map (ms_sit st t)) off \<and> ms_need_fsck b"
    proof (cases "t = s \<and> \<not> in_reach cap ?v off")
      case True
      then have "\<not> runs_fit cap ?v (blocks_per_seg g)" using t by (auto simp: runs_fit_def)
      then show ?thesis using True s(2) of' bf(1) cf(4) by simp
    next
      case False
      then show ?thesis using B(3) [OF t(1), of off] vc [OF t(1,2)] nvm [OF t(2)] ssd by auto
    qed
  next
    show "nvm_of ?M (ms_nsbi st) \<subseteq>\<^sub>m nvm_of ?M (ms_nsbi b)" using of' s(2) by (auto simp: map_le_def)
  next
    fix t assume t: "in_step g st t \<and> runs_fit cap (cur_valid_map (ms_sit st t)) (blocks_per_seg g)"
    then have "in_step g c t" using ck by (simp add: hot_kept_def)
    moreover have "same_data g c s n" if "t = s"
      using t that nvm by (auto simp: same_data_def runs_fit_def cf(2)) (simp add: c)
    ultimately show "in_step g b t" by (rule B(2))
  qed (use bf cf(4) in simp_all)
qed

lemma hot_loop_alloc:
  assumes "\<not> sec_usage_check g (ms_use st) (GET_SEC_FROM_SEG g s)"
    and "nvm_allocate_segment (ms_nsbi st) s False = Some (Inr n, nsbi1)"
    and "c = do_hot_to_nvm g cap s n (st\<lparr>ms_nsbi := nsbi1\<rparr>)" and "get_map_flag (ms_nsbi c) n = 0"
  shows "hot_loop g cap (s # ss) ret st =
    (if ms_free_segmap c s
     then hot_loop g cap ss (ret + 1) (c\<lparr>ms_nsbi := create_mapping (ms_nsbi c) s n (rw_map OR rw_redirect OR rw_double)\<rparr>)
     else hot_loop g cap ss ret (c\<lparr>ms_nsbi := release_segment (ms_nsbi c) n\<rparr>))"
  using assms by (simp add: Let_def)

lemma hot_loop_safe:
  assumes "mig_inv g st" and "distinct ss"
    and "\<And>s. s \<in> set ss \<Longrightarrow> s < main_segments g \<and> nvm_of (main_segments g) (ms_nsbi st) s = None"
  shows "\<exists>r st'. hot_loop g cap ss ret st = Some (r, st') \<and> mig_inv g st' \<and> hot_kept g cap st st'"
  using assms
proof (induction ss arbitrary: ret st)
  case Nil
  then show ?case by (simp add: hot_kept_refl)
next
  case (Cons s ss)
  let ?M = "main_segments g"
  note inv = Cons.prems(1) and wf = mig_invD(3) [OF Cons.prems(1)]
  have s: "s < ?M" "nvm_of ?M (ms_nsbi st) s = None" using Cons.prems(3) by auto
  have rest: "\<And>t. t \<in> set ss \<Longrightarrow> t < ?M \<and> nvm_of ?M (ms_nsbi st) t = None" "distinct ss" "s \<notin> set ss"
    using Cons.prems(2,3) by auto
  note IH = Cons.IH [OF _ rest(2)]
  show ?case
  proof (cases "sec_usage_check g (ms_use st) (GET_SEC_FROM_SEG g s) \<or> free_segs (ms_nsbi st) = 0")
    case True
    then show ?thesis
      using IH [OF inv rest(1)] inv hot_kept_refl by (auto simp: nvm_allocate_segment_def)
  next
    case False
    then have nu: "\<not> sec_usage_check g (ms_use st) (GET_SEC_FROM_SEG g s)" and "0 < free_segs (ms_nsbi st)" by auto
    obtain n where n: "n < nvm_segs (ms_nsbi st)" "\<not> segment_map (ms_nsbi st) n"
      and al: "nvm_allocate_segment (ms_nsbi st) s False = Some (Inr n, took (ms_nsbi st) n)"
      by (rule nvm_allocate_segment_unfold [OF wf \<open>0 < free_segs (ms_nsbi st)\<close>, of s False]) auto
    let ?c = "do_hot_to_nvm g cap s n (st\<lparr>ms_nsbi := took (ms_nsbi st) n\<rparr>)"
    note H = hot_one_safe [OF inv n s, of cap]
    have unf: "hot_loop g cap (s # ss) ret st =
        (if ms_free_segmap st s
         then hot_loop g cap ss (ret + 1) (?c\<lparr>ms_nsbi := create_mapping (ms_nsbi ?c) s n (rw_map OR rw_redirect OR rw_double)\<rparr>)
         else hot_loop g cap ss ret (?c\<lparr>ms_nsbi := release_segment (ms_nsbi ?c) n\<rparr>))"
      unfolding hot_loop_alloc [OF nu al refl H(1)] H(2) ..
    have go: "\<exists>r st'. hot_loop g cap ss i st1 = Some (r, st') \<and> mig_inv g st' \<and> hot_kept g cap st st'"
      if "mig_inv g st1" "hot_kept g cap st st1" "\<And>t. t \<in> set ss \<Longrightarrow> nvm_of ?M (ms_nsbi st1) t = None" for i st1
      using IH [OF that(1), of i] that(3) rest(1) hot_kept_trans [OF that(2)] by blast
    have "nvm_of ?M (create_mapping (ms_nsbi ?c) s n (rw_map OR rw_redirect OR rw_double)) t = None" if "t \<in> set ss" for t
      using H(8) rest(1) [OF that] rest(3) that by auto
    then show ?thesis
      unfolding unf using go [OF H(6,7)] go [OF H(3,4)] H(5) rest(1) by simp
  qed
qed

subsection \<open>The segments the heaps hand out\<close>

lemma heap_segs_elems: "mset (heap_segs nd n) = image_mset seg_off (elems nd n)"
  by (simp add: heap_segs_def elems_def multiset.map_comp comp_def mset_upt atLeast0LessThan)

lemma distinct_submset: "mset xs \<subseteq># mset ys \<Longrightarrow> distinct ys \<Longrightarrow> distinct xs"
proof -
  assume "mset xs \<subseteq># mset ys" "distinct ys"
  then obtain M where "mset ys = mset xs + M" by (auto simp: mset_subset_eq_exists_conv)
  moreover obtain zs where "mset zs = M" using ex_mset by blast
  ultimately have "mset ys = mset (xs @ zs)" by simp
  then have "distinct (xs @ zs)" using \<open>distinct ys\<close> mset_eq_imp_distinct_iff by blast
  then show ?thesis by simp
qed

lemma min_cands_segs: "map seg_off (min_cands g u nsbi len) = filter (\<lambda>i. min_cand g u nsbi i \<noteq> None) [0..<len]"
proof -
  have "map seg_off (List.map_filter (min_node g u nsbi) is) = filter (\<lambda>i. min_cand g u nsbi i \<noteq> None) is" for "is"
    by (induction "is") (auto simp: List.map_filter_def min_node_def)
  then show ?thesis by (simp add: min_cands_def)
qed

lemma max_cands_segs: "set (map seg_off (max_cands g u nsbi p len)) \<subseteq> {..<len}"
  by (auto simp: max_cands_def List.map_filter_def max_node_def split: if_splits)

lemma hot_segs:
  assumes "get_min_k g u nsbi (reset_min_heap (minh nsbi)) len = (r, h)" and "0 < mk (minh nsbi)"
  shows "distinct (heap_segs (mnodes h) (mcur_num h))"
    and "\<And>s. s \<in> set (heap_segs (mnodes h) (mcur_num h)) \<Longrightarrow> s < len \<and> \<not> mapped nsbi (nvm_segs nsbi + s)"
proof -
  let ?c = "min_cands g u nsbi len"
  have "elems (mnodes h) (mcur_num h) \<subseteq># mset ?c"
    using minh.selectedD(3) [OF get_min_k_offers(1) [OF _ _ assms(1)]] assms(2) by (simp add: reset_min_heap_def)
  then have sub: "mset (heap_segs (mnodes h) (mcur_num h)) \<subseteq># mset (map seg_off ?c)"
    unfolding heap_segs_elems by (simp add: image_mset_subseteq_mono)
  have "distinct (map seg_off ?c)" by (simp add: min_cands_segs)
  then show "distinct (heap_segs (mnodes h) (mcur_num h))"
    by (rule distinct_submset [OF sub])
  fix s assume "s \<in> set (heap_segs (mnodes h) (mcur_num h))"
  then have "s \<in> set (map seg_off ?c)" using sub by (metis mset_subset_eqD set_mset_mset)
  then show "s < len \<and> \<not> mapped nsbi (nvm_segs nsbi + s)"
    unfolding min_cands_segs by (auto simp: min_cand_def mapped_def split: if_splits)
qed

lemma cold_segs:
  assumes "get_max_k g u nsbi (reset_max_heap (mh nsbi)) len p = (r, h)" and "n \<in> set (heap_segs (nodes h) (cur_num h))"
  shows "n < len"
proof -
  let ?c = "max_cands g u nsbi p len"
  have "elems (nodes h) (cur_num h) \<subseteq># mset ?c"
    using maxh.selectedD(3) [OF get_max_k_offers(1) [OF _ assms(1)]] by (simp add: reset_max_heap_def)
  then have "mset (heap_segs (nodes h) (cur_num h)) \<subseteq># mset (map seg_off ?c)"
    unfolding heap_segs_elems by (simp add: image_mset_subseteq_mono)
  then have "n \<in> set (map seg_off ?c)" using assms(2) by (metis mset_subset_eqD set_mset_mset)
  then show ?thesis using max_cands_segs by blast
qed

lemma heaps_wf [simp]:
  "mpt_wf S (nsbi\<lparr>mh := h\<rparr>) = mpt_wf S nsbi" "mpt_wf S (nsbi\<lparr>minh := h'\<rparr>) = mpt_wf S nsbi"
  by (rule mpt_wf_fields; simp add: mapped_def get_map_flag_def get_mpt_value_def fun_eq_iff)+

lemma minh_safe:
  assumes "mig_inv g st"
  shows "mig_inv g (st\<lparr>ms_nsbi := (ms_nsbi st)\<lparr>minh := h'\<rparr>\<rparr>)"
    "hot_kept g cap st (st\<lparr>ms_nsbi := (ms_nsbi st)\<lparr>minh := h'\<rparr>\<rparr>)"
  by (rule table_kept_safe table_kept_hot; use assms mig_invD(3) [OF assms] in simp)+

subsection \<open>Volumes for the witnesses\<close>

text \<open>
  SSD segment 2 lives in NVM segment 0 and all blocks are valid. The table fits every geometry
  with three main segments: the small one and one with the 512 blocks per segment of F2FS.
\<close>

definition full_seg :: seg_entry where
  "full_seg = \<lparr>se_type = 0, valid_blocks = 2, ckpt_valid_blocks = 2, cur_valid_map = (\<lambda>_. True),
     ckpt_valid_map = (\<lambda>_. True), discard_map = (\<lambda>_. True), se_mtime = 0\<rparr>"

definition mig_example :: "nat mig_state" where
  "mig_example = \<lparr>ms_nsbi = one_mapped\<lparr>minh := init_min_heap 2\<rparr>, ms_ssd = (\<lambda>b. b), ms_nvm = (\<lambda>b. 1000 + b),
     ms_sit = (\<lambda>_. full_seg), ms_free_segmap = (\<lambda>_. True),
     ms_use = \<lparr>curseg_segno = (\<lambda>_. 100), cur_victim_sec = 100\<rparr>, ms_prefree = 0, ms_need_fsck = False\<rparr>"

lemma one_mapped_double: "get_double_flag one_mapped j = 0"
  by (simp add: one_mapped_def create_mapping_def set_mpt_entry_def set_dirty_def get_double_flag_def Let_def entry_flags)

lemma one_mapped_base: "main_blkaddr (nsb one_mapped) = 0"
  by (simp add: one_mapped_def took_def take_segment_def fresh_nsbi_def zero_nsbi_def zero_nsb_def)

lemma mig_example_fits:
  assumes "geo_ok g" and "main_segments g = 3" and "4 * blocks_per_seg g < 4294967296"
  shows "mig_inv g mig_example" "nvm_of (main_segments g) (ms_nsbi mig_example) = [2 \<mapsto> 0]"
proof -
  let ?n = "one_mapped\<lparr>minh := init_min_heap 2\<rparr>"
  have f: "mpt ?n = mpt one_mapped" "nvm_segs ?n = nvm_segs one_mapped" "main_blkaddr (nsb ?n) = main_blkaddr (nsb one_mapped)"
    by simp_all
  note e = same_mpt [OF f]
  have fl: "get_redirect_flag ?n = get_redirect_flag one_mapped" "get_double_flag ?n = get_double_flag one_mapped"
    by (simp_all add: get_redirect_flag_def get_double_flag_def fun_eq_iff)
  have m: "mapped one_mapped j \<Longrightarrow> j = 0 \<or> j = 6" "mapped one_mapped 6" for j
    by (simp_all add: one_mapped_def create_mapping_mapped split: if_splits)
      (simp add: mapped_def get_map_flag_def fresh_nsbi_def zero_nsbi_def)
  have "mpt_wf 3 ?n" using one_mapped_wf(1) by simp
  then have "nvm_ok g ?n"
    using assms one_mapped_wf(3) m(2) unfolding nvm_ok_def fl e
    by (auto simp: one_mapped_base one_mapped_redirect split: if_splits)
  then show "mig_inv g mig_example"
    using assms(1,2) one_mapped_wf(3) unfolding mig_inv_def mig_example_def
    by (auto simp: e fl one_mapped_redirect one_mapped_double dest!: m(1))
  show "nvm_of (main_segments g) (ms_nsbi mig_example) = [2 \<mapsto> 0]"
    using one_mapped_wf(2) assms(2) by (simp add: mig_example_def e)
qed

lemma mig_example_inv:
  "mig_inv small_geo mig_example" "nvm_of (main_segments small_geo) (ms_nsbi mig_example) 2 = Some 0"
  using mig_example_fits [of small_geo] by (simp_all add: small_geo_ok)

lemma mig_example_fields [simp]:
  "ms_sit mig_example s = full_seg" "valid_blocks full_seg = 2" "cur_valid_map full_seg i" "ms_ssd mig_example b = b"
  "main_block small_geo 2 1 = 11" "mk (minh (ms_nsbi mig_example)) = 2"
  by (simp_all add: mig_example_def full_seg_def main_block_def small_geo_def init_min_heap_def)

lemma mig_example_view: "view small_geo mig_example 2 1 = 1001"
  using one_mapped_target same_mpt(4) [of "ms_nsbi mig_example" one_mapped small_geo]
  by (simp add: view_def) (simp add: mig_example_def)

definition real_geo :: f2fs_geo where
  "real_geo = \<lparr>log_blocks_per_seg = 9, blocks_per_seg = 512, segs_per_sec = 1, secs_per_zone = 1,
     total_sections = 3, seg0_blkaddr = 512, ssd_main_blkaddr = 1024, segment_count = 4,
     main_segments = 3, start_segno = 1\<rparr>"

lemma real_geo_ok: "geo_ok real_geo" "main_segments real_geo = 3" "blocks_per_seg real_geo = 512"
  "main_block real_geo s off = 1024 + s * 512 + off"
  by (simp_all add: geo_ok_def real_geo_def main_block_def)

text \<open>A segment of 511 valid blocks whose two runs fit a bio of \<open>BIO_MAX_PAGES\<close>.\<close>

definition holed_seg :: seg_entry where
  "holed_seg = \<lparr>se_type = 0, valid_blocks = 511, ckpt_valid_blocks = 511, cur_valid_map = (\<lambda>i. i \<noteq> 255),
     ckpt_valid_map = (\<lambda>i. i \<noteq> 255), discard_map = (\<lambda>_. True), se_mtime = 0\<rparr>"

lemma holed_seg_reach: "off < 512 \<Longrightarrow> in_reach 256 (cur_valid_map holed_seg) off \<longleftrightarrow> off \<noteq> 255"
  by (auto simp: in_reach_def holed_seg_def)

lemma holed_seg_fits: "runs_fit 256 (cur_valid_map holed_seg) 512"
  by (simp add: runs_fit_def holed_seg_reach) (simp add: holed_seg_def)

definition real_example :: "nat mig_state" where
  "real_example = mig_example\<lparr>ms_sit := (\<lambda>_. holed_seg)\<rparr>"

lemma real_example_inv:
  "mig_inv real_geo real_example" "nvm_of (main_segments real_geo) (ms_nsbi real_example) = [2 \<mapsto> 0]"
  using mig_example_fits [of real_geo] mig_inv_table [of real_example mig_example real_geo]
  by (simp_all add: real_geo_ok real_example_def)

lemma real_example_fields [simp]: "ms_sit real_example s = holed_seg" "\<not> ms_need_fsck real_example"
  by (simp_all add: real_example_def) (simp add: mig_example_def)

lemma real_example_view: "view real_geo real_example 2 off = 1000 + off"
  using view_nvm_of [OF real_example_inv(1), of 2 off] real_example_inv(2) one_mapped_base
  by (simp add: real_geo_ok nvm_block_def) (simp add: real_example_def mig_example_def)

text \<open>A volume with nothing in NVM on which SSD segment 1 is hot.\<close>

definition hot_example :: "nat mig_state" where
  "hot_example = mig_example\<lparr>ms_sit := (\<lambda>_. holed_seg),
     ms_nsbi := (fresh_nsbi 4)\<lparr>minh := init_min_heap 1, lfu_count := (\<lambda>_ s. if s = 1 then 100 else 0)\<rparr>\<rparr>"

lemma hot_example_fields [simp]:
  "ms_sit hot_example s = holed_seg" "\<not> ms_need_fsck hot_example" "ms_free_segmap hot_example s"
  "mapped (ms_nsbi hot_example) j = False" "nvm_segs (ms_nsbi hot_example) = 4" "free_segs (ms_nsbi hot_example) = 4"
  "nvm_of S (ms_nsbi hot_example) = Map.empty" "segment_map (ms_nsbi hot_example) i = False"
  "get_redirect_flag (ms_nsbi hot_example) j = 0" "get_double_flag (ms_nsbi hot_example) j = 0"
  "main_blkaddr (nsb (ms_nsbi hot_example)) = 0" "mk (minh (ms_nsbi hot_example)) = 1"
  "cur_alloc_nvm_segoff (ms_nsbi hot_example) = 0"
  by (simp_all add: hot_example_def mig_example_def fresh_nsbi_def zero_nsbi_def zero_nsb_def mapped_def get_map_flag_def
      nvm_of_def get_redirect_flag_def get_double_flag_def init_min_heap_def fun_eq_iff)

lemma hot_example_inv: "mig_inv real_geo hot_example"
proof -
  have "zero_bits (segment_map (ms_nsbi hot_example)) 4 = {..<4}" by (auto simp: zero_bits_def)
  then have "mpt_wf 3 (ms_nsbi hot_example)" by (simp add: wf_defs)
  then show ?thesis by (simp add: mig_inv_def nvm_ok_def real_geo_ok)
qed

lemma hot_example_heap:
  "(let (r, h) = get_min_k real_geo (ms_use hot_example) (ms_nsbi hot_example) (reset_min_heap (minh (ms_nsbi hot_example))) 3
    in r = None \<and> heap_segs (mnodes h) (mcur_num h) = [1] \<and> count (mnodes h 0) > 50)"
  by code_simp

lemma hot_example_alloc:
  "nvm_allocate_segment ((ms_nsbi hot_example)\<lparr>minh := h\<rparr>) 1 False = Some (Inr 0, took ((ms_nsbi hot_example)\<lparr>minh := h\<rparr>) 0)"
proof -
  let ?n = "(ms_nsbi hot_example)\<lparr>minh := h\<rparr>"
  have "find_next_zero_bit (segment_map ?n) 4 0 = 0" by (simp add: find_next_zero_bit_def find_next_bit.simps)
  then have "alloc_next ?n 0 = Some (Inr 0)" using alloc_next_here [of ?n 0] by simp
  then show ?thesis by (simp add: nvm_allocate_segment_def took_def)
qed

lemma hot_example_moves:
  obtains st' where "hot_to_nvm real_geo 256 hot_example = Some (Inr 1, st')"
    "nvm_of 3 (ms_nsbi st') = [1 \<mapsto> 0]"
proof -
  obtain r h where h: "get_min_k real_geo (ms_use hot_example) (ms_nsbi hot_example) (reset_min_heap (minh (ms_nsbi hot_example))) 3 = (r, h)"
    by force
  have H: "r = None" "heap_segs (mnodes h) (mcur_num h) = [1]" "count (mnodes h 0) > 50"
    using hot_example_heap unfolding h by simp_all
  let ?h = "h\<lparr>min_count := count (mnodes h 0)\<rparr>"
  let ?st = "hot_example\<lparr>ms_nsbi := (ms_nsbi hot_example)\<lparr>minh := ?h\<rparr>\<rparr>"
  have inv: "mig_inv real_geo ?st" by (rule minh_safe(1) [OF hot_example_inv])
  have no: "nvm_of 3 (ms_nsbi ?st) = Map.empty"
    using same_mpt(1) [of "ms_nsbi ?st" "ms_nsbi hot_example" 3] by simp
  note O = hot_one_safe [OF inv, of 0 1 256]
  let ?c = "do_hot_to_nvm real_geo 256 1 0 (?st\<lparr>ms_nsbi := took (ms_nsbi ?st) 0\<rparr>)"
  let ?b = "?c\<lparr>ms_nsbi := create_mapping (ms_nsbi ?c) 1 0 (rw_map OR rw_redirect OR rw_double)\<rparr>"
  have u: "\<not> sec_usage_check real_geo (ms_use hot_example) (GET_SEC_FROM_SEG real_geo 1)" "\<not> has_not_enough_free_nvm_secs (ms_nsbi hot_example)"
    by (simp_all add: hot_example_def mig_example_def sec_usage_check_def IS_CURSEC_def GET_SEC_FROM_SEG_def real_geo_def
        has_not_enough_free_nvm_secs_def fresh_nsbi_def zero_nsbi_def zero_nsb_def)
  have mc: "max_count (mh (ms_nsbi hot_example)) = 0" by (simp add: hot_example_def fresh_nsbi_def zero_nsbi_def)
  have nf: "get_map_flag (ms_nsbi ?c) 0 = 0" and fs: "ms_free_segmap ?c 1"
    using O(1,2) no by (simp_all add: real_geo_ok)
  have "hot_loop real_geo 256 [1] 0 ?st = Some (1, ?b)"
    using hot_loop_alloc [OF _ _ refl nf, of "[]" 0] u(1) hot_example_alloc [of ?h] fs by (simp del: One_nat_def)
  then have "hot_to_nvm real_geo 256 hot_example = Some (Inr 1, ?b)"
    using h H u(2) mc by (simp add: hot_to_nvm_def real_geo_ok Let_def can_move_def)
  moreover have "nvm_of 3 (ms_nsbi ?b) = [1 \<mapsto> 0]" using O(8) no by (simp add: real_geo_ok)
  ultimately show thesis using that by blast
qed

subsection \<open>Properties\<close>

text \<open>
  C11. Writing a mapped segment back, for any capacity of a bio and any set of valid blocks:
  \<open>do_cold_to_ssd\<close> keeps the table consistent and removes exactly this mapping (a pre-move keeps
  it); it brings every valid block within the reach of its request to its SSD address and leaves
  the other blocks of the segment there as they were; every block of the volume reads as before,
  except blocks of this segment that were not copied when its mapping is dropped; an \<open>fsck\<close> is
  requested iff some run of valid blocks is longer than a bio; and double segments stay in step.
\<close>

theorem do_cold_to_ssd_correct:
  assumes inv: "mig_inv g st" and s: "nvm_of (main_segments g) (ms_nsbi st) s = Some n"
    and st': "st' = do_cold_to_ssd g cap n pre st" and v: "v = cur_valid_map (ms_sit st s)"
  shows "mig_inv g st'
    \<and> nvm_of (main_segments g) (ms_nsbi st') =
        (if pre then nvm_of (main_segments g) (ms_nsbi st) else (nvm_of (main_segments g) (ms_nsbi st))(s := None))
    \<and> (\<forall>off < blocks_per_seg g. ms_ssd st' (main_block g s off) =
         (if in_reach cap v off then view g st s off else ms_ssd st (main_block g s off)))
    \<and> (\<forall>t < main_segments g. \<forall>off < blocks_per_seg g. t \<noteq> s \<or> pre \<or> in_reach cap v off \<longrightarrow>
         view g st' t off = view g st t off)
    \<and> (ms_need_fsck st' \<longleftrightarrow> ms_need_fsck st \<or> \<not> runs_fit cap v (blocks_per_seg g))
    \<and> (\<forall>t. in_step g st t \<and> (t = s \<longrightarrow> runs_fit cap v (blocks_per_seg g)) \<longrightarrow> in_step g st' t)"
proof -
  let ?M = "main_segments g"
  note wf = mig_invD(3) [OF inv] and D = nvm_of_SomeD [OF mig_invD(3) [OF inv] s]
  define c where "c = st\<lparr>ms_ssd := seg_copied g (in_reach cap v) (ms_nvm st) (nvm_block g (ms_nsbi st) n 0)
      (ms_ssd st) (main_block g s 0), ms_need_fsck := ms_need_fsck st \<or> \<not> runs_fit cap v (blocks_per_seg g)\<rparr>"
  have e: "st' = c\<lparr>ms_nsbi := (if pre then set_double (ms_nsbi c) s else unset_mapping (ms_nsbi c) s)\<rparr>"
    using do_cold_to_ssd_eq [OF mig_invD(1,2) [OF inv] D(2,3), of cap pre]
    by (simp add: st' v c_def D(4) Let_def)
  note C = copy_back_safe [OF inv s, where v = "in_reach cap v" and w = "ms_need_fsck st \<or> \<not> runs_fit cap v (blocks_per_seg g)", folded c_def]
  have s': "nvm_of ?M (ms_nsbi c) s = Some n" and wf': "mpt_wf ?M (ms_nsbi c)" using s wf by (simp_all add: c_def)
  note U = unmap_safe [OF C(1) s'] and B = double_safe [OF C(1) s']
  have ssd: "ms_ssd st' (main_block g s off) = (if in_reach cap v off then view g st s off else ms_ssd st (main_block g s off))"
    if "off < blocks_per_seg g" for off
    using view_nvm_of [OF inv D(1), of off] s that by (simp add: e c_def seg_copied_ssd)
  have same: "runs_fit cap v (blocks_per_seg g) \<Longrightarrow> same_data g c s n"
    by (rule C(4)) (simp add: runs_fit_def v)
  show ?thesis
  proof (intro conjI allI impI)
    show "mig_inv g st'" using U(1) B(1) by (simp add: e)
    show "nvm_of ?M (ms_nsbi st') = (if pre then nvm_of ?M (ms_nsbi st) else (nvm_of ?M (ms_nsbi st))(s := None))"
      using unset_mapping_wf(2) [OF wf D(1)] by (simp add: e c_def)
    show "ms_need_fsck st' \<longleftrightarrow> ms_need_fsck st \<or> \<not> runs_fit cap v (blocks_per_seg g)" by (simp add: e c_def)
    fix t off assume t: "t < ?M" "off < blocks_per_seg g" "t \<noteq> s \<or> pre \<or> in_reach cap v off"
    show "view g st' t off = view g st t off"
      using t U(3) [OF t(1), of off] B(3) [OF t(1), of off] C(3) [OF t(1,2)] ssd [OF t(2)]
      by (auto simp: e split: if_splits)
  next
    fix t assume "in_step g st t \<and> (t = s \<longrightarrow> runs_fit cap v (blocks_per_seg g))"
    then show "in_step g st' t" using C(2) [of t] U(2) [of t] B(2) [of t] same by (simp add: e)
  qed (rule ssd)
qed

theorem do_cold_to_ssd_correct_witness:
  "let st' = do_cold_to_ssd real_geo 256 0 False real_example
   in \<not> ms_need_fsck st' \<and> nvm_of 3 (ms_nsbi st') = Map.empty
      \<and> ms_ssd st' (main_block real_geo 2 511) = 1511 \<and> ms_ssd st' (main_block real_geo 2 255) = 2303
      \<and> view real_geo st' 2 511 = view real_geo real_example 2 511"
proof -
  let ?st = "do_cold_to_ssd real_geo 256 0 False real_example"
  have f: "runs_fit 256 (cur_valid_map (ms_sit real_example 2)) 512" "blocks_per_seg real_geo = 512" "main_segments real_geo = 3"
    "ms_ssd real_example b = b" for b
    using holed_seg_fits by (simp_all add: real_geo_ok) (simp add: real_example_def)
  have s: "nvm_of (main_segments real_geo) (ms_nsbi real_example) 2 = Some 0" using real_example_inv(2) by simp
  note T = do_cold_to_ssd_correct [OF real_example_inv(1) s refl refl, of 256 False, unfolded f(2,3)]
  have r: "in_reach 256 (cur_valid_map (ms_sit real_example 2)) 511" "\<not> in_reach 256 (cur_valid_map (ms_sit real_example 2)) 255"
    using holed_seg_reach by simp_all
  have "nvm_of 3 (ms_nsbi real_example) = [2 \<mapsto> 0]" using real_example_inv(2) f(3) by simp
  moreover have ssd: "ms_ssd ?st (main_block real_geo 2 off) = (if in_reach 256 (cur_valid_map (ms_sit real_example 2)) off
      then view real_geo real_example 2 off else ms_ssd real_example (main_block real_geo 2 off))" if "off < 512" for off
    using T that by blast
  have "ms_ssd ?st (main_block real_geo 2 511) = 1511" "ms_ssd ?st (main_block real_geo 2 255) = 2303"
    unfolding ssd [of 511, simplified] ssd [of 255, simplified] using r
    by (simp_all add: real_example_view f(4) real_geo_ok(4) holed_seg_reach)
  moreover have "view real_geo ?st 2 511 = view real_geo real_example 2 511" using T r(1) by simp
  ultimately show ?thesis
    using T f(1) unfolding Let_def by simp
qed

text \<open>
  C15. Copying hot segments into NVM, for any capacity of a bio: \<open>hot_to_nvm\<close> always returns and
  keeps the table consistent. It only adds mappings. A valid block reads differently afterwards
  only if its segment was mapped in this round and the block was out of the reach of its request,
  and then an \<open>fsck\<close> is requested: without that request every valid block of the volume reads as
  before. Segments whose runs fit a bio stay in step on both devices.
\<close>

theorem hot_to_nvm_correct:
  assumes inv: "mig_inv g st" and k: "0 < mk (minh (ms_nsbi st))"
  shows "\<exists>r st'. hot_to_nvm g cap st = Some (r, st') \<and> mig_inv g st' \<and> hot_kept g cap st st'
    \<and> (\<not> ms_need_fsck st' \<longrightarrow> (\<forall>s < main_segments g. \<forall>off < blocks_per_seg g.
         cur_valid_map (ms_sit st s) off \<longrightarrow> view g st' s off = view g st s off))"
proof -
  have "\<exists>r st'. hot_to_nvm g cap st = Some (r, st') \<and> mig_inv g st' \<and> hot_kept g cap st st'"
  proof (cases "has_not_enough_free_nvm_secs (ms_nsbi st)")
    case True
    then show ?thesis using inv by (simp add: hot_to_nvm_def hot_kept_refl)
  next
    case enough: False
    obtain r h where h: "get_min_k g (ms_use st) (ms_nsbi st) (reset_min_heap (minh (ms_nsbi st))) (main_segments g) = (r, h)"
      by force
    let ?h = "h\<lparr>min_count := count (mnodes h 0)\<rparr>"
    let ?st2 = "st\<lparr>ms_nsbi := (ms_nsbi st)\<lparr>minh := ?h\<rparr>\<rparr>"
    note safe = minh_safe [OF inv]
    have segs: "distinct (heap_segs (mnodes ?h) (mcur_num ?h))"
      "\<And>s. s \<in> set (heap_segs (mnodes ?h) (mcur_num ?h)) \<Longrightarrow> s < main_segments g
          \<and> nvm_of (main_segments g) (ms_nsbi ?st2) s = None"
      using hot_segs [OF h k] by (auto simp: nvm_of_def mapped_def get_map_flag_def)
    obtain r' st' where l: "hot_loop g cap (heap_segs (mnodes ?h) (mcur_num ?h)) 0 ?st2 = Some (r', st')"
        "mig_inv g st'" "hot_kept g cap ?st2 st'"
      using hot_loop_safe [OF safe(1) segs, of cap 0] by blast
    have "hot_kept g cap st st'" using hot_kept_trans [OF safe(2) l(3)] by simp
    then show ?thesis
      using enough h l(1,2) safe by (auto simp: hot_to_nvm_def Let_def)
  qed
  then obtain r st' where "hot_to_nvm g cap st = Some (r, st')" "mig_inv g st'" "hot_kept g cap st st'" by blast
  moreover have "\<not> ms_need_fsck st' \<longrightarrow> (\<forall>s < main_segments g. \<forall>off < blocks_per_seg g.
      cur_valid_map (ms_sit st s) off \<longrightarrow> view g st' s off = view g st s off)"
    using \<open>hot_kept g cap st st'\<close> unfolding hot_kept_def by blast
  ultimately show ?thesis by blast
qed

theorem hot_to_nvm_correct_witness:
  "\<exists>st'. hot_to_nvm real_geo 256 hot_example = Some (Inr 1, st') \<and> nvm_of 3 (ms_nsbi st') 1 = Some 0
     \<and> view real_geo st' 1 511 = view real_geo hot_example 1 511"
proof -
  obtain st' where s: "hot_to_nvm real_geo 256 hot_example = Some (Inr 1, st')" "nvm_of 3 (ms_nsbi st') = [1 \<mapsto> 0]"
    by (rule hot_example_moves)
  have "hot_kept real_geo 256 hot_example st'"
    using hot_to_nvm_correct [OF hot_example_inv, of 256] s(1) by simp
  then have k: "view real_geo st' s off = view real_geo hot_example s off \<or> \<not> in_reach 256 (cur_valid_map holed_seg) off"
    if "s < 3" "off < 512" "cur_valid_map holed_seg off" for s off
    using that unfolding hot_kept_def real_geo_ok hot_example_fields by blast
  have "view real_geo st' 1 511 = view real_geo hot_example 1 511"
    using k [of 1 511] holed_seg_reach [of 511] by (simp add: holed_seg_def)
  with s show ?thesis by simp
qed

text \<open>A write that is redirected: it goes to the target the redirection computes, as \<open>nvm_redirect_bio\<close> sends it.\<close>

definition redirected_write :: "f2fs_geo \<Rightarrow> nat \<Rightarrow> nat \<Rightarrow> 'b \<Rightarrow> 'b mig_state \<Rightarrow> 'b mig_state" where
  "redirected_write g s off x st =
     (case redirect_target g (ms_nsbi st) s off of
        None \<Rightarrow> st\<lparr>ms_ssd := (ms_ssd st)(main_block g s off := x)\<rparr>
      | Some b \<Rightarrow> st\<lparr>ms_nvm := (ms_nvm st)(b := x)\<rparr>)"





end
