(* ===== verification/Nvm_Store.thy ===== *)
theory Nvm_Store
  imports Bytes Nvm_Alloc Nvm_Heap
begin

text \<open>
  How the NVM tables reach stable storage and come back, from \<open>src/nvm.c\<close> and the NVM parts of
  \<open>f2fs_write_checkpoint\<close> and \<open>do_checkpoint\<close> (\<open>src/checkpoint.c\<close>). The meta area is an array of
  4096-byte pages. Every MPT page has two copies, one segment apart; the version map says which
  copy is current. The NVM super block has two copies too, in blocks 0 and 1, and the checkpoint
  flag \<open>CP_NSB_VER_FLAG\<close> says which one is current. Page reads and allocations do not fail here.
\<close>

type_synonym meta_area = "page carray"

datatype mount_err = EINVAL

subsection \<open>Writing the MPT\<close>

text \<open>The block to write next for an MPT page: the copy that is not current becomes current.\<close>

definition get_next_mpt_page :: "nat \<Rightarrow> nvm_sb_info \<Rightarrow> nat \<Rightarrow> nat \<times> nvm_sb_info" where
  "get_next_mpt_page bps nsbi mpt_pgoff =
     (let block_addr = mpt_blkaddr (nsb nsbi) + mpt_pgoff;
          block_addr = (if \<not> mpt_ver_map nsbi mpt_pgoff then block_addr + bps else block_addr)
      in (block_addr, nsbi\<lparr>mpt_ver_map := (mpt_ver_map nsbi)(mpt_pgoff := \<not> mpt_ver_map nsbi mpt_pgoff)\<rparr>))"

definition get_current_mpt_page :: "nat \<Rightarrow> nvm_sb_info \<Rightarrow> nat \<Rightarrow> nat" where
  "get_current_mpt_page bps nsbi mpt_pgoff =
     (let block_addr = mpt_blkaddr (nsb nsbi) + mpt_pgoff
      in if mpt_ver_map nsbi mpt_pgoff then block_addr + bps else block_addr)"

text \<open>The 4096 bytes of MPT page \<open>i\<close> in the cache, copied over a page.\<close>

definition memcpy_mpt :: "u32 carray \<Rightarrow> nat \<Rightarrow> page \<Rightarrow> page" where
  "memcpy_mpt t i p =
     (\<lambda>j. if j < 4096 then u32_byte (t (4096 * i div 4 + j div 4)) (j mod 4) else p j)"

partial_function (option) flush_mpt_loop ::
    "bool \<Rightarrow> nat \<Rightarrow> nat \<Rightarrow> meta_area \<Rightarrow> nvm_sb_info \<Rightarrow> (meta_area \<times> nvm_sb_info) option" where
  "flush_mpt_loop flush_all bps mpt_pgoff m nsbi =
     (if mpt_pgoff = mpt_dirty_map_bits nsbi then Some (m, nsbi)
      else let n1 = nsbi\<lparr>nvm_flag := nvm_flag nsbi OR NVM_NSB_DIRTY\<rparr>;
               (addr, n2) = get_next_mpt_page bps n1 mpt_pgoff;
               m1 = m(addr := memcpy_mpt (mpt n2) mpt_pgoff (m addr));
               n3 = n2\<lparr>mpt_dirty_map := (mpt_dirty_map n2)(mpt_pgoff := False)\<rparr>
           in flush_mpt_loop flush_all bps
                (if flush_all then mpt_pgoff + 1
                 else find_next_bit (mpt_dirty_map n3) (mpt_dirty_map_bits n3) (mpt_pgoff + 1)) m1 n3)"

definition nvm_flush_mpt_pages :: "bool \<Rightarrow> nat \<Rightarrow> meta_area \<Rightarrow> nvm_sb_info \<Rightarrow> (meta_area \<times> nvm_sb_info) option" where
  "nvm_flush_mpt_pages flush_all bps m nsbi =
     flush_mpt_loop flush_all bps
       (if flush_all then 0 else find_next_bit (mpt_dirty_map nsbi) (mpt_dirty_map_bits nsbi) 0) m nsbi"

subsection \<open>Writing the NVM super block\<close>

text \<open>
  The eleven 32-bit fields behind the \<open>uuid\<close> fill bytes 16 to 59 of \<open>struct nvm_super_block\<close>; \<open>map\<close>
  starts at byte 60. The two padding bytes at its end hold nothing that is read back.
\<close>

definition nsb_words :: "nvm_super_block \<Rightarrow> u32 list" where
  "nsb_words b = map of_nat [mpt_blkaddr b, ra_blkaddr b, main_blkaddr b, lfu_blkaddr0 b, lfu_blkaddr1 b,
     ra_blk_nums b, main_first_segno b, main_segment_nums b, main_segment_free_nums b,
     mpt_ver_map_bits b, mpt_entries b]"

definition nsb_byte :: "nvm_super_block \<Rightarrow> nat \<Rightarrow> u8" where
  "nsb_byte b j = (if j < 16 then uuid b ! j else u32_byte (nsb_words b ! ((j - 16) div 4)) ((j - 16) mod 4))"

definition nvm_flush_nsb_pages :: "meta_area \<Rightarrow> nvm_sb_info \<Rightarrow> nat \<Rightarrow> meta_area" where
  "nvm_flush_nsb_pages m nsbi block_addr =
     (let mpt_ver_map_bytes = map_bytes (mpt_ver_map_bits (nsb nsbi));
          segment_map_bytes = map_bytes (main_segment_nums (nsb nsbi));
          p = m block_addr
      in m(block_addr :=
           (\<lambda>j. if j < 60 then nsb_byte (nsb nsbi) j
                else if j < 60 + mpt_ver_map_bytes then msb_byte (mpt_ver_map nsbi) (j - 60)
                else if j < 60 + mpt_ver_map_bytes + segment_map_bytes
                then lsb_byte (segment_map nsbi) (j - 60 - mpt_ver_map_bytes)
                else p j)))"

subsection \<open>Reading the tables\<close>

definition init_nvm_sb_info :: "nat \<Rightarrow> nvm_sb_info \<Rightarrow> nvm_super_block \<Rightarrow> nvm_sb_info" where
  "init_nvm_sb_info segment_count_main nsbi b =
     nsbi\<lparr>nsb := b, mpt_ver_map := (\<lambda>_. False), segment_map := (\<lambda>_. False),
          ckpt_segment_map := (\<lambda>_. False), mpt_dirty_map_bits := mpt_ver_map_bits b,
          mpt_dirty_map := (\<lambda>_. False), mpt := (\<lambda>_. 0), lfu_count := init_lfu_count segment_count_main,
          now_lfu_counter := 0, mh := init_max_heap 50, minh := init_min_heap 20\<rparr>"

text \<open>\<open>strncmp(...) == 0\<close>: equal up to the first NUL or \<open>n\<close> characters.\<close>

fun strncmp_eq :: "nat \<Rightarrow> u8 list \<Rightarrow> u8 list \<Rightarrow> bool" where
  "strncmp_eq 0 _ _ = True"
| "strncmp_eq (Suc n) (a # as) (b # bs) = (a = b \<and> (a = 0 \<or> strncmp_eq n as bs))"
| "strncmp_eq (Suc n) _ _ = False"

definition sanity_check_nvm_super :: "u8 list \<Rightarrow> nvm_super_block \<Rightarrow> bool" where
  "sanity_check_nvm_super raw_uuid b = (if \<not> strncmp_eq 16 (uuid b) raw_uuid then True else False)"

definition nsb_at :: "page \<Rightarrow> nvm_super_block" where
  "nsb_at p =
     (let f = (\<lambda>i. unat (u32_at p (16 + 4 * i)))
      in \<lparr>uuid = map p [0..<16], mpt_blkaddr = f 0, ra_blkaddr = f 1, main_blkaddr = f 2,
          lfu_blkaddr0 = f 3, lfu_blkaddr1 = f 4, ra_blk_nums = f 5, main_first_segno = f 6,
          main_segment_nums = f 7, main_segment_free_nums = f 8, mpt_ver_map_bits = f 9,
          mpt_entries = f 10\<rparr>)"

text \<open>\<open>nsbi\<close> is the structure as \<open>f2fs_fill_super\<close> leaves it before this call.\<close>

definition read_nvm_super_block ::
    "u8 list \<Rightarrow> nat \<Rightarrow> u32 \<Rightarrow> meta_area \<Rightarrow> nvm_sb_info \<Rightarrow> mount_err + nvm_sb_info" where
  "read_nvm_super_block raw_uuid segment_count_main ckpt_flags m nsbi =
     (let block = (if ckpt_flags AND CP_NSB_VER_FLAG \<noteq> 0 then 1 else 0);
          page = m block;
          super = nsb_at page
      in if sanity_check_nvm_super raw_uuid super then Inl EINVAL
         else let n1 = init_nvm_sb_info segment_count_main nsbi super;
                  vb = map_bytes (mpt_ver_map_bits super);
                  sb = map_bytes (main_segment_nums super);
                  n2 = n1\<lparr>mpt_ver_map := (\<lambda>i. if i div 8 < vb then f2fs_test_bit (\<lambda>j. page (60 + j)) i
                                             else mpt_ver_map n1 i)\<rparr>;
                  n3 = n2\<lparr>segment_map := (\<lambda>i. if i div 8 < sb then test_bit (\<lambda>j. page (60 + vb + j)) i
                                             else segment_map n2 i)\<rparr>
              in Inr (n3\<lparr>ckpt_segment_map := (\<lambda>i. if i div 8 < sb then segment_map n3 i
                                                 else ckpt_segment_map n3 i)\<rparr>))"

definition f2fs_get_mpt :: "nat \<Rightarrow> meta_area \<Rightarrow> nvm_sb_info \<Rightarrow> nvm_sb_info" where
  "f2fs_get_mpt bps m nsbi =
     fold (\<lambda>i n. n\<lparr>mpt := (\<lambda>e. if 4096 * i div 4 \<le> e \<and> e < 4096 * i div 4 + 1024
                             then u32_at (m (get_current_mpt_page bps n i)) (4 * (e - 4096 * i div 4))
                             else mpt n e)\<rparr>)
       [0..<mpt_ver_map_bits (nsb nsbi)] nsbi"

text \<open>
  Reading the tables back: the super block with its maps and then the MPT, with the flags of the
  checkpoint pack. It is the composition of the two readers above that says what the meta area
  holds. It models no code of \<open>f2fs_fill_super\<close>: the branch that is meant to call the readers in
  this order for a volume that has been mounted before leaves through a \<open>goto\<close> in front of them.
\<close>

definition nvm_read_back :: "nat \<Rightarrow> u8 list \<Rightarrow> nat \<Rightarrow> u32 \<Rightarrow> meta_area \<Rightarrow> nvm_sb_info \<Rightarrow> mount_err + nvm_sb_info" where
  "nvm_read_back bps raw_uuid segment_count_main ckpt_flags m nsbi =
     (case read_nvm_super_block raw_uuid segment_count_main ckpt_flags m nsbi of
        Inl e \<Rightarrow> Inl e | Inr n \<Rightarrow> Inr (f2fs_get_mpt bps m n))"

subsection \<open>Checkpointing\<close>

text \<open>The NVM part of \<open>f2fs_write_checkpoint\<close>, before the checkpoint pack is written.\<close>

definition nvm_checkpoint_flush ::
    "nat \<Rightarrow> u32 \<Rightarrow> meta_area \<Rightarrow> nvm_sb_info \<Rightarrow> (meta_area \<times> nvm_sb_info) option" where
  "nvm_checkpoint_flush bps ckpt_flags m nsbi =
     (case nvm_flush_mpt_pages False bps m nsbi of None \<Rightarrow> None
      | Some (m1, n1) \<Rightarrow>
          if nvm_flag n1 AND NVM_NSB_DIRTY \<noteq> 0
          then (let block_addr = (if ckpt_flags AND CP_NSB_VER_FLAG = 0 then 1 else 0)
                in Some (nvm_flush_nsb_pages m1 n1 block_addr, n1))
          else Some (m1, n1))"

text \<open>The NVM part of \<open>do_checkpoint\<close>: the flags that go into the checkpoint pack.\<close>

definition nvm_checkpoint_commit :: "u32 \<Rightarrow> nvm_sb_info \<Rightarrow> u32 \<times> nvm_sb_info" where
  "nvm_checkpoint_commit ckpt_flags nsbi =
     (if nvm_flag nsbi AND NVM_NSB_DIRTY \<noteq> 0
      then (nvm_switch_nsb_version ckpt_flags, nsbi\<lparr>nvm_flag := nvm_flag nsbi XOR NVM_NSB_DIRTY\<rparr>)
      else (ckpt_flags, nsbi))"

subsection \<open>Flushing the MPT\<close>

definition next_addr :: "nat \<Rightarrow> nvm_sb_info \<Rightarrow> nat \<Rightarrow> nat" where
  "next_addr bps n pg = fst (get_next_mpt_page bps n pg)"

text \<open>The pages from \<open>i\<close> on that a flush writes.\<close>

definition to_flush :: "bool \<Rightarrow> nvm_sb_info \<Rightarrow> nat \<Rightarrow> nat \<Rightarrow> bool" where
  "to_flush flush_all n i pg \<longleftrightarrow> i \<le> pg \<and> pg < mpt_dirty_map_bits n \<and> (flush_all \<or> mpt_dirty_map n pg)"

lemma addr_disjoint:
  assumes "pg < bits" "pg' < bits" "bits \<le> bps"
  shows "next_addr bps n pg = next_addr bps n pg' \<longleftrightarrow> pg = pg'"
    and "next_addr bps n pg \<noteq> get_current_mpt_page bps n pg'"
  using assms by (auto simp: next_addr_def get_next_mpt_page_def get_current_mpt_page_def Let_def)

definition flushed_nsbi :: "bool \<Rightarrow> nvm_sb_info \<Rightarrow> nat \<Rightarrow> nvm_sb_info" where
  "flushed_nsbi fa n i =
     n\<lparr>mpt_ver_map := (\<lambda>pg. if to_flush fa n i pg then \<not> mpt_ver_map n pg else mpt_ver_map n pg),
       mpt_dirty_map := (\<lambda>pg. \<not> to_flush fa n i pg \<and> mpt_dirty_map n pg),
       nvm_flag := (if \<exists>pg < mpt_dirty_map_bits n. to_flush fa n i pg then nvm_flag n OR NVM_NSB_DIRTY else nvm_flag n)\<rparr>"

definition flushed_meta :: "bool \<Rightarrow> nat \<Rightarrow> meta_area \<Rightarrow> nvm_sb_info \<Rightarrow> nat \<Rightarrow> meta_area \<Rightarrow> bool" where
  "flushed_meta fa bps m n i m' \<longleftrightarrow>
     (\<forall>pg. to_flush fa n i pg \<longrightarrow> m' (next_addr bps n pg) = memcpy_mpt (mpt n) pg (m (next_addr bps n pg)))
     \<and> (\<forall>a. (\<forall>pg. to_flush fa n i pg \<longrightarrow> a \<noteq> next_addr bps n pg) \<longrightarrow> m' a = m a)"

text \<open>One round of the loop.\<close>

definition flush_step :: "nat \<Rightarrow> nvm_sb_info \<Rightarrow> nvm_sb_info" where
  "flush_step i n = n\<lparr>nvm_flag := nvm_flag n OR NVM_NSB_DIRTY,
     mpt_ver_map := (mpt_ver_map n)(i := \<not> mpt_ver_map n i), mpt_dirty_map := (mpt_dirty_map n)(i := False)\<rparr>"

lemma flush_loop_step:
  assumes "i \<noteq> mpt_dirty_map_bits n"
  shows "flush_mpt_loop fa bps i m n =
    flush_mpt_loop fa bps (if fa then i + 1 else find_next_bit (mpt_dirty_map (flush_step i n)) (mpt_dirty_map_bits n) (i + 1))
      (m(next_addr bps n i := memcpy_mpt (mpt n) i (m (next_addr bps n i)))) (flush_step i n)"
  using assms
  by (subst flush_mpt_loop.simps) (simp add: get_next_mpt_page_def next_addr_def flush_step_def Let_def)

lemma flush_step_fields [simp]:
  "mpt_dirty_map_bits (flush_step i n) = mpt_dirty_map_bits n" "mpt (flush_step i n) = mpt n"
  "nsb (flush_step i n) = nsb n" "mpt_dirty_map (flush_step i n) j \<longleftrightarrow> j \<noteq> i \<and> mpt_dirty_map n j"
  by (simp_all add: flush_step_def)

lemma next_addr_step: "pg \<noteq> i \<Longrightarrow> next_addr bps (flush_step i n) pg = next_addr bps n pg"
  by (simp add: next_addr_def get_next_mpt_page_def flush_step_def Let_def)

lemma flush_mpt_loop_result:
  assumes "i \<le> mpt_dirty_map_bits n" and "mpt_dirty_map_bits n \<le> bps"
    and "fa \<or> i = mpt_dirty_map_bits n \<or> mpt_dirty_map n i"
  shows "\<exists>m'. flush_mpt_loop fa bps i m n = Some (m', flushed_nsbi fa n i) \<and> flushed_meta fa bps m n i m'"
  using assms
proof (induction "mpt_dirty_map_bits n - i" arbitrary: i m n rule: less_induct)
  case less
  let ?B = "mpt_dirty_map_bits n"
  show ?case
  proof (cases "i = ?B")
    case True
    then have "to_flush fa n i pg = False" for pg by (simp add: to_flush_def)
    then show ?thesis using True
      by (intro exI [of _ m]) (subst flush_mpt_loop.simps, simp add: flushed_nsbi_def flushed_meta_def)
  next
    case False
    let ?n = "flush_step i n" and ?a = "next_addr bps n i"
    let ?m = "m(?a := memcpy_mpt (mpt n) i (m ?a))"
    define j where "j = (if fa then i + 1 else find_next_bit (mpt_dirty_map ?n) ?B (i + 1))"
    have ij: "i < j" "j \<le> ?B"
      using False less.prems(1) find_next_bit_le [of "mpt_dirty_map ?n" ?B "i + 1"]
        find_next_bit_ge [of "i + 1" ?B "mpt_dirty_map ?n"] by (auto simp: j_def)
    have jd: "fa \<or> j = ?B \<or> mpt_dirty_map ?n j"
      using find_next_bit_le [of "mpt_dirty_map ?n" ?B "i + 1"] find_next_bit_set [of "mpt_dirty_map ?n" ?B "i + 1"]
      unfolding j_def by (auto simp: less_le)
    have tf: "to_flush fa n i pg \<longleftrightarrow> pg = i \<or> to_flush fa ?n j pg" for pg
    proof -
      have "\<not> mpt_dirty_map ?n pg" if "\<not> fa" "i < pg" "pg < j"
        using that find_next_bit_first [of "i + 1" pg "mpt_dirty_map ?n" ?B] by (simp add: j_def)
      then show ?thesis using ij less.prems(1,3) False by (fastforce simp: to_flush_def j_def)
    qed
    have nt: "\<not> to_flush fa ?n j i" using ij by (simp add: to_flush_def)
    obtain m' where m': "flush_mpt_loop fa bps j ?m ?n = Some (m', flushed_nsbi fa ?n j)" "flushed_meta fa bps ?m ?n j m'"
    proof -
      have "mpt_dirty_map_bits ?n - j < ?B - i" using ij by simp
      from less.hyps [OF this _ _ jd [folded flush_step_fields(1) [of i n]], of ?m] that ij less.prems(2) show ?thesis
        by auto
    qed
    have "flushed_nsbi fa ?n j = flushed_nsbi fa n i"
    proof -
      have "i < ?B" using False less.prems(1) by simp
      then show ?thesis using nt unfolding flushed_nsbi_def tf
        by (auto simp: flush_step_def fun_eq_iff or.assoc dest: spec [of _ i])
    qed
    moreover have "flushed_meta fa bps m n i m'"
      unfolding flushed_meta_def
    proof (intro conjI allI impI)
      fix pg assume pg: "to_flush fa n i pg"
      then have b: "pg < ?B" "i < ?B" by (auto simp: to_flush_def)
      show "m' (next_addr bps n pg) = memcpy_mpt (mpt n) pg (m (next_addr bps n pg))"
      proof (cases "pg = i")
        case True
        have "?a \<noteq> next_addr bps ?n q" if "to_flush fa ?n j q" for q
        proof -
          have "q < ?B" "q \<noteq> i" using that ij by (auto simp: to_flush_def)
          then show ?thesis using addr_disjoint(1) [OF b(2), of q bps n] less.prems(2) next_addr_step [of q i bps n] by auto
        qed
        then have "m' ?a = ?m ?a" using m'(2) unfolding flushed_meta_def by blast
        with True show ?thesis by simp
      next
        case False
        then have q: "to_flush fa ?n j pg" using pg tf by blast
        have "next_addr bps n pg \<noteq> ?a" using addr_disjoint(1) [OF b, of bps n] less.prems(2) False by simp
        moreover have "m' (next_addr bps ?n pg) = memcpy_mpt (mpt ?n) pg (?m (next_addr bps ?n pg))"
          using m'(2) q unfolding flushed_meta_def by blast
        ultimately show ?thesis using next_addr_step [OF False, of bps n] by simp
      qed
    next
      fix a assume a: "\<forall>pg. to_flush fa n i pg \<longrightarrow> a \<noteq> next_addr bps n pg"
      then have "a \<noteq> ?a" using tf by blast
      moreover have "a \<noteq> next_addr bps ?n pg" if "to_flush fa ?n j pg" for pg
        using a that tf nt next_addr_step [of pg i bps n] by metis
      ultimately show "m' a = m a" using m'(2) unfolding flushed_meta_def by simp
    qed
    ultimately show ?thesis using m'(1) flush_loop_step [OF False, of fa bps m] unfolding j_def by auto
  qed
qed

lemma nvm_flush_mpt_pages_result:
  assumes "mpt_dirty_map_bits n \<le> bps"
  shows "\<exists>m'. nvm_flush_mpt_pages fa bps m n = Some (m', flushed_nsbi fa n 0) \<and> flushed_meta fa bps m n 0 m'"
proof (cases fa)
  case True
  then show ?thesis using flush_mpt_loop_result [of 0 n bps fa m] assms by (simp add: nvm_flush_mpt_pages_def)
next
  case False
  let ?i = "find_next_bit (mpt_dirty_map n) (mpt_dirty_map_bits n) 0"
  have i: "?i \<le> mpt_dirty_map_bits n" "?i = mpt_dirty_map_bits n \<or> mpt_dirty_map n ?i"
    using find_next_bit_le [of "mpt_dirty_map n" "mpt_dirty_map_bits n" 0]
      find_next_bit_set [of "mpt_dirty_map n" "mpt_dirty_map_bits n" 0] by (auto simp: less_le)
  have "to_flush fa n ?i = to_flush fa n 0"
    using find_next_bit_first [of 0 _ "mpt_dirty_map n" "mpt_dirty_map_bits n"] False
    by (auto simp: to_flush_def fun_eq_iff) (meson not_le)
  then have "flushed_nsbi fa n ?i = flushed_nsbi fa n 0" "flushed_meta fa bps m n ?i = flushed_meta fa bps m n 0"
    by (simp_all add: flushed_nsbi_def flushed_meta_def fun_eq_iff)
  then show ?thesis using flush_mpt_loop_result [OF i(1) assms, of fa m] i(2) False by (simp add: nvm_flush_mpt_pages_def)
qed

subsection \<open>Reading back\<close>

lemma u32_at_memcpy:
  assumes "e < 1024"
  shows "u32_at (memcpy_mpt t i p) (4 * e) = t (1024 * i + e)"
proof (rule u32_at_bytes)
  fix b :: nat assume "b < 4"
  with assms have "4 * e + b < 4096" "(4 * e + b) div 4 = e" "(4 * e + b) mod 4 = b" by auto
  then show "memcpy_mpt t i p (4 * e + b) = u32_byte (t (1024 * i + e)) b" by (simp add: memcpy_mpt_def)
qed

lemma f2fs_get_mpt_upto:
  "fold (\<lambda>i n. n\<lparr>mpt := (\<lambda>e. if 4096 * i div 4 \<le> e \<and> e < 4096 * i div 4 + 1024
       then u32_at (m (get_current_mpt_page bps n i)) (4 * (e - 4096 * i div 4)) else mpt n e)\<rparr>) [0..<b] n
   = n\<lparr>mpt := (\<lambda>e. if e < 1024 * b then u32_at (m (get_current_mpt_page bps n (e div 1024))) (4 * (e mod 1024))
                  else mpt n e)\<rparr>"
proof (induction b)
  case (Suc b)
  have c: "get_current_mpt_page bps (n\<lparr>mpt := f\<rparr>) i = get_current_mpt_page bps n i" for f i
    by (simp add: get_current_mpt_page_def)
  have e: "e div 1024 = b \<and> e mod 1024 = e - 1024 * b" if "1024 * b \<le> e" "e < 1024 * b + 1024" for e
  proof -
    have "e div 1024 = b" using that by (intro div_nat_eqI) auto
    then show ?thesis by (simp add: minus_mult_div_eq_mod [symmetric])
  qed
  have b: "4096 * b div 4 = 1024 * b" by simp
  show ?case unfolding upt_Suc_append [OF le0] fold_append comp_def Suc.IH using e
    by (simp add: c b fun_eq_iff)
qed simp

lemma f2fs_get_mpt_eq:
  "f2fs_get_mpt bps m n = n\<lparr>mpt := (\<lambda>e. if e < 1024 * mpt_ver_map_bits (nsb n)
      then u32_at (m (get_current_mpt_page bps n (e div 1024))) (4 * (e mod 1024)) else mpt n e)\<rparr>"
  unfolding f2fs_get_mpt_def by (rule f2fs_get_mpt_upto)

definition nsb_fits :: "nvm_super_block \<Rightarrow> bool" where
  "nsb_fits b \<longleftrightarrow> length (uuid b) = 16 \<and>
     (\<forall>x \<in> set [mpt_blkaddr b, ra_blkaddr b, main_blkaddr b, lfu_blkaddr0 b, lfu_blkaddr1 b,
        ra_blk_nums b, main_first_segno b, main_segment_nums b, main_segment_free_nums b,
        mpt_ver_map_bits b, mpt_entries b]. x < 4294967296)"

lemma u32_at_nsb:
  assumes "\<And>j. j < 60 \<Longrightarrow> p j = nsb_byte b j" and "i < 11"
  shows "u32_at p (16 + 4 * i) = nsb_words b ! i"
proof (rule u32_at_bytes)
  fix c :: nat assume "c < 4"
  with assms(2) have "16 + 4 * i + c < 60" "(4 * i + c) div 4 = i" "(4 * i + c) mod 4 = c" by auto
  then show "p (16 + 4 * i + c) = u32_byte (nsb_words b ! i) c" using assms(1) by (simp add: nsb_byte_def)
qed

lemma nsb_at_bytes:
  assumes p: "\<And>j. j < 60 \<Longrightarrow> p j = nsb_byte b j" and b: "nsb_fits b"
  shows "nsb_at p = b"
proof -
  have u: "map p [0..<16] = uuid b"
    using b p by (intro nth_equalityI) (auto simp: nsb_fits_def nsb_byte_def)
  have w: "unat (u32_at p (16 + 4 * i)) = unat (nsb_words b ! i)" if "i < 11" for i
    using u32_at_nsb [OF p that] by simp
  have s: "unat (of_nat x :: u32) = x" if "x < 4294967296" for x
    using that by (simp add: unat_of_nat take_bit_nat_eq_self)
  show ?thesis
    using w [of 0] w [of 1] w [of 2] w [of 3] w [of 4] w [of 5] w [of 6] w [of 7] w [of 8] w [of 9] w [of 10] b u
    by (simp add: nsb_at_def Let_def nsb_words_def nsb_fits_def s)
qed

lemma map_bytes_covers: "i < n \<Longrightarrow> n < 4294967296 \<Longrightarrow> i div 8 < map_bytes n"
proof -
  assume "i < n" "n < 4294967296"
  then have "(n + 4294967295) mod 4294967296 = n - 1"
    using mod_add_self2 [of "n - 1" 4294967296] by (simp add: add.commute)
  then have "map_bytes n = (n - 1) div 8 + 1" by (simp only: map_bytes_def)
  moreover have "i div 8 \<le> (n - 1) div 8" using \<open>i < n\<close> by (intro div_le_mono) simp
  ultimately show ?thesis by simp
qed

subsection \<open>What is stored\<close>

definition nsb_block :: "u32 \<Rightarrow> nat" where
  "nsb_block ckpt_flags = (if ckpt_flags AND CP_NSB_VER_FLAG \<noteq> 0 then 1 else 0)"

text \<open>
  The layout that \<open>f2fs_fill_super\<close> sets up: the MPT lies behind the two super blocks, one copy
  of it fits a segment, the super block with its maps fits a page, the \<open>uuid\<close> is the volume's.
\<close>

definition store_layout :: "nat \<Rightarrow> u8 list \<Rightarrow> nvm_sb_info \<Rightarrow> bool" where
  "store_layout bps raw_uuid n \<longleftrightarrow>
     nsb_fits (nsb n) \<and> mpt_dirty_map_bits n = mpt_ver_map_bits (nsb n)
     \<and> mpt_ver_map_bits (nsb n) \<le> bps \<and> 2 \<le> mpt_blkaddr (nsb n)
     \<and> 60 + map_bytes (mpt_ver_map_bits (nsb n)) + map_bytes (main_segment_nums (nsb n)) \<le> 4096
     \<and> strncmp_eq 16 (uuid (nsb n)) raw_uuid"

text \<open>The super block copy in page \<open>p\<close> locates the same MPT copies as the one in memory.\<close>

definition nsb_locates :: "page \<Rightarrow> nvm_sb_info \<Rightarrow> bool" where
  "nsb_locates p n \<longleftrightarrow>
     mpt_blkaddr (nsb_at p) = mpt_blkaddr (nsb n) \<and> mpt_ver_map_bits (nsb_at p) = mpt_ver_map_bits (nsb n)
     \<and> (\<forall>i < mpt_ver_map_bits (nsb n). f2fs_test_bit (\<lambda>j. p (60 + j)) i = mpt_ver_map n i)"

definition nsb_complete :: "page \<Rightarrow> nvm_sb_info \<Rightarrow> bool" where
  "nsb_complete p n \<longleftrightarrow> nsb_at p = nsb n
     \<and> (\<forall>i < main_segment_nums (nsb n).
          test_bit (\<lambda>j. p (60 + map_bytes (mpt_ver_map_bits (nsb n)) + j)) i = segment_map n i)"

text \<open>Every change that is not in the meta area yet is marked dirty.\<close>

definition stored :: "nat \<Rightarrow> u32 \<Rightarrow> meta_area \<Rightarrow> nvm_sb_info \<Rightarrow> bool" where
  "stored bps ckpt_flags m n \<longleftrightarrow>
     nsb_locates (m (nsb_block ckpt_flags)) n
     \<and> (\<forall>e < 1024 * mpt_ver_map_bits (nsb n). \<not> mpt_dirty_map n (e div 1024) \<longrightarrow>
          u32_at (m (get_current_mpt_page bps n (e div 1024))) (4 * (e mod 1024)) = mpt n e)
     \<and> (nvm_flag n AND NVM_NSB_DIRTY = 0 \<longrightarrow> (\<forall>pg < mpt_ver_map_bits (nsb n). \<not> mpt_dirty_map n pg) \<longrightarrow>
          nsb_complete (m (nsb_block ckpt_flags)) n)"

lemma nsb_block_switch: "nsb_block (nvm_switch_nsb_version f) = 1 - nsb_block f"
proof -
  have "x AND 4096 = 0 \<longleftrightarrow> \<not> bit x 12" for x :: u32
    using and_exp_eq_0_iff_not_bit [of x 12] by simp
  moreover have "bit (f XOR 4096) 12 \<longleftrightarrow> \<not> bit f 12" by (simp add: bit_simps)
  ultimately show ?thesis by (simp add: nsb_block_def nvm_switch_nsb_version_def)
qed

lemma flushed_fields [simp]:
  "nsb (flushed_nsbi fa n i) = nsb n" "mpt (flushed_nsbi fa n i) = mpt n"
  "segment_map (flushed_nsbi fa n i) = segment_map n"
  "mpt_dirty_map_bits (flushed_nsbi fa n i) = mpt_dirty_map_bits n"
  by (simp_all add: flushed_nsbi_def)

text \<open>After a flush the current copies hold the whole table; the copies that were current are untouched.\<close>

lemma flushed_current:
  assumes lay: "store_layout bps u n" and st: "stored bps f m n" and fl: "flushed_meta False bps m n 0 m'"
    and e: "e < 1024 * mpt_ver_map_bits (nsb n)"
  shows "u32_at (m' (get_current_mpt_page bps (flushed_nsbi False n 0) (e div 1024))) (4 * (e mod 1024)) = mpt n e"
proof (cases "mpt_dirty_map n (e div 1024)")
  case True
  let ?pg = "e div 1024"
  have pg: "?pg < mpt_ver_map_bits (nsb n)" using e by (simp add: less_mult_imp_div_less mult.commute)
  then have tf: "to_flush False n 0 ?pg" using True lay by (simp add: to_flush_def store_layout_def)
  then have "get_current_mpt_page bps (flushed_nsbi False n 0) ?pg = next_addr bps n ?pg"
    by (simp add: get_current_mpt_page_def next_addr_def get_next_mpt_page_def flushed_nsbi_def Let_def)
  moreover have "m' (next_addr bps n ?pg) = memcpy_mpt (mpt n) ?pg (m (next_addr bps n ?pg))"
    using fl tf unfolding flushed_meta_def by blast
  ultimately show ?thesis using u32_at_memcpy [of "e mod 1024" "mpt n" ?pg] by simp
next
  case False
  let ?pg = "e div 1024"
  have pg: "?pg < mpt_ver_map_bits (nsb n)" using e by (simp add: less_mult_imp_div_less mult.commute)
  then have "get_current_mpt_page bps (flushed_nsbi False n 0) ?pg = get_current_mpt_page bps n ?pg"
    using False by (simp add: get_current_mpt_page_def flushed_nsbi_def to_flush_def Let_def)
  moreover have "m' (get_current_mpt_page bps n ?pg) = m (get_current_mpt_page bps n ?pg)"
    using fl addr_disjoint(2) [OF _ pg, of _ bps n] lay
    unfolding flushed_meta_def store_layout_def to_flush_def by metis
  ultimately show ?thesis using st False e by (simp add: stored_def)
qed

lemma flushed_old:
  assumes "store_layout bps u n" and "flushed_meta fa bps m n 0 m'" and "pg < mpt_ver_map_bits (nsb n)"
  shows "m' (get_current_mpt_page bps n pg) = m (get_current_mpt_page bps n pg)"
  using assms addr_disjoint(2) [OF _ assms(3), of _ bps n]
  unfolding flushed_meta_def store_layout_def to_flush_def by metis

lemma flushed_low:
  assumes "store_layout bps u n" and "flushed_meta fa bps m n 0 m'" and "b < 2"
  shows "m' b = m b"
proof -
  have "b \<noteq> next_addr bps n pg" for pg
    using assms(1,3) by (simp add: next_addr_def get_next_mpt_page_def store_layout_def Let_def)
  then show ?thesis using assms(2) unfolding flushed_meta_def by metis
qed

lemma current_ge_2: "store_layout bps u n \<Longrightarrow> 2 \<le> get_current_mpt_page bps n pg"
  by (simp add: get_current_mpt_page_def store_layout_def Let_def)

lemma nsb_page_written:
  assumes "nsb_fits (nsb n)"
  shows "nsb_locates (nvm_flush_nsb_pages m n b b) n" "nsb_complete (nvm_flush_nsb_pages m n b b) n"
proof -
  let ?p = "nvm_flush_nsb_pages m n b b"
  have at: "nsb_at ?p = nsb n" using assms by (intro nsb_at_bytes) (simp_all add: nvm_flush_nsb_pages_def Let_def)
  have fit: "mpt_ver_map_bits (nsb n) < 4294967296" "main_segment_nums (nsb n) < 4294967296"
    using assms by (simp_all add: nsb_fits_def)
  have "f2fs_test_bit (\<lambda>j. ?p (60 + j)) i = mpt_ver_map n i" if "i < mpt_ver_map_bits (nsb n)" for i
    using map_bytes_covers [OF that fit(1)]
    by (intro f2fs_test_bit_msb_byte) (simp add: nvm_flush_nsb_pages_def Let_def)
  with at show "nsb_locates ?p n" by (simp add: nsb_locates_def)
  have "test_bit (\<lambda>j. ?p (60 + map_bytes (mpt_ver_map_bits (nsb n)) + j)) i = segment_map n i"
    if "i < main_segment_nums (nsb n)" for i
    using map_bytes_covers [OF that fit(2)]
    by (intro test_bit_lsb_byte) (simp add: nvm_flush_nsb_pages_def Let_def)
  with at show "nsb_complete ?p n" by (simp add: nsb_complete_def)
qed

subsection \<open>Mounting a stored state\<close>

lemma nvm_read_back_eq:
  assumes "nsb_block f = nsb_block f'" and "m (nsb_block f) = m' (nsb_block f)"
    and "\<And>n. read_nvm_super_block u segs f m n0 = Inr n \<Longrightarrow>
      (\<forall>pg < mpt_ver_map_bits (nsb n). m (get_current_mpt_page bps n pg) = m' (get_current_mpt_page bps n pg))"
  shows "nvm_read_back bps u segs f' m' n0 = nvm_read_back bps u segs f m n0"
proof -
  have r: "read_nvm_super_block u segs f' m' n0 = read_nvm_super_block u segs f m n0"
    using assms(1,2) by (simp add: read_nvm_super_block_def nsb_block_def Let_def split: if_splits)
  show ?thesis
  proof (cases "read_nvm_super_block u segs f m n0")
    case (Inr n)
    have "f2fs_get_mpt bps m' n = f2fs_get_mpt bps m n"
      using assms(3) [OF Inr] unfolding f2fs_get_mpt_eq
      by (simp add: less_mult_imp_div_less mult.commute cong: if_cong)
    with Inr r show ?thesis by (simp add: nvm_read_back_def)
  qed (simp add: nvm_read_back_def r)
qed

lemma read_nvm_super_block_stored:
  assumes "nsb_locates (m (nsb_block f)) n" and "nsb_fits (nsb n)" and "strncmp_eq 16 (uuid (nsb_at (m (nsb_block f)))) u"
  shows "\<exists>n1. read_nvm_super_block u segs f m n0 = Inr n1 \<and> nsb n1 = nsb_at (m (nsb_block f))
    \<and> (\<forall>i < mpt_ver_map_bits (nsb n). mpt_ver_map n1 i = mpt_ver_map n i)
    \<and> (nsb_complete (m (nsb_block f)) n \<longrightarrow> (\<forall>i < main_segment_nums (nsb n). segment_map n1 i = segment_map n i))"
proof -
  let ?p = "m (nsb_block f)"
  have fit: "mpt_ver_map_bits (nsb n) < 4294967296" "main_segment_nums (nsb n) < 4294967296"
    using assms(2) by (simp_all add: nsb_fits_def)
  note c = map_bytes_covers [OF _ fit(1)] map_bytes_covers [OF _ fit(2)]
  have p: "(if f AND CP_NSB_VER_FLAG \<noteq> 0 then 1 else 0) = nsb_block f" by (simp add: nsb_block_def)
  show ?thesis
    using assms c
    unfolding read_nvm_super_block_def Let_def p nsb_locates_def nsb_complete_def sanity_check_nvm_super_def
    by (auto simp: init_nvm_sb_info_def)
qed

lemma nvm_read_back_stored:
  assumes lay: "store_layout bps u n" and st: "nsb_locates (m (nsb_block f)) n" "nsb_complete (m (nsb_block f)) n"
    and t: "\<And>e. e < 1024 * mpt_ver_map_bits (nsb n) \<Longrightarrow>
      u32_at (m (get_current_mpt_page bps n (e div 1024))) (4 * (e mod 1024)) = mpt n e"
  shows "\<exists>n1. nvm_read_back bps u segs f m n0 = Inr n1 \<and> nsb n1 = nsb n
    \<and> (\<forall>i < mpt_ver_map_bits (nsb n). mpt_ver_map n1 i = mpt_ver_map n i)
    \<and> (\<forall>i < main_segment_nums (nsb n). segment_map n1 i = segment_map n i)
    \<and> (\<forall>e < 1024 * mpt_ver_map_bits (nsb n). mpt n1 e = mpt n e)"
proof -
  have at: "nsb_at (m (nsb_block f)) = nsb n" using st(2) by (simp add: nsb_complete_def)
  obtain n1 where n1: "read_nvm_super_block u segs f m n0 = Inr n1" "nsb n1 = nsb n"
      "\<forall>i < mpt_ver_map_bits (nsb n). mpt_ver_map n1 i = mpt_ver_map n i"
      "\<forall>i < main_segment_nums (nsb n). segment_map n1 i = segment_map n i"
    using read_nvm_super_block_stored [of m f n u segs n0] st lay at by (auto simp: store_layout_def)
  have "get_current_mpt_page bps n1 (e div 1024) = get_current_mpt_page bps n (e div 1024)"
    if "e < 1024 * mpt_ver_map_bits (nsb n)" for e
  proof -
    have "e div 1024 < mpt_ver_map_bits (nsb n)" using that by (simp add: less_mult_imp_div_less mult.commute)
    then show ?thesis using n1(2,3) by (simp add: get_current_mpt_page_def)
  qed
  with n1 t show ?thesis by (simp add: nvm_read_back_def f2fs_get_mpt_eq)
qed

subsection \<open>Properties\<close>

lemma flag_bit: "x AND (1 :: u16) = 0 \<longleftrightarrow> \<not> bit x 0"
  using and_exp_eq_0_iff_not_bit [of x 0] by simp

lemma flag_switch: "bit x 0 \<Longrightarrow> (x XOR 1) AND (1 :: u16) = 0"
  unfolding flag_bit by (simp add: bit_simps)

lemma checkpoint_flush_result:
  assumes lay: "store_layout bps u n"
  obtains m1 where "flushed_meta False bps m n 0 m1"
    and "nvm_checkpoint_flush bps f m n = Some
      (if nvm_flag (flushed_nsbi False n 0) AND NVM_NSB_DIRTY \<noteq> 0
       then nvm_flush_nsb_pages m1 (flushed_nsbi False n 0) (1 - nsb_block f) else m1, flushed_nsbi False n 0)"
proof -
  have "mpt_dirty_map_bits n \<le> bps" using lay by (simp add: store_layout_def)
  from nvm_flush_mpt_pages_result [OF this, of False m] obtain m1 where
    "nvm_flush_mpt_pages False bps m n = Some (m1, flushed_nsbi False n 0)" "flushed_meta False bps m n 0 m1" by auto
  then show ?thesis by (intro that [of m1]) (auto simp: nvm_checkpoint_flush_def nsb_block_def)
qed

lemma checkpoint_untouched:
  assumes lay: "store_layout bps u n" and fl: "nvm_checkpoint_flush bps f m n = Some (m', n')"
  shows "m' (nsb_block f) = m (nsb_block f)"
    and "pg < mpt_ver_map_bits (nsb n) \<Longrightarrow> m' (get_current_mpt_page bps n pg) = m (get_current_mpt_page bps n pg)"
proof -
  obtain m1 where m1: "flushed_meta False bps m n 0 m1"
    and m': "m' = (if nvm_flag n' AND NVM_NSB_DIRTY \<noteq> 0 then nvm_flush_nsb_pages m1 n' (1 - nsb_block f) else m1)"
  proof -
    obtain m1 where "flushed_meta False bps m n 0 m1" "nvm_checkpoint_flush bps f m n = Some
        (if nvm_flag (flushed_nsbi False n 0) AND NVM_NSB_DIRTY \<noteq> 0
         then nvm_flush_nsb_pages m1 (flushed_nsbi False n 0) (1 - nsb_block f) else m1, flushed_nsbi False n 0)"
      by (rule checkpoint_flush_result [OF lay])
    then show ?thesis using that fl by auto
  qed
  have b: "nsb_block f < 2" "1 - nsb_block f \<noteq> nsb_block f" by (auto simp: nsb_block_def)
  have other: "m' a = m1 a" if "a \<noteq> 1 - nsb_block f" for a using that m' by (simp add: nvm_flush_nsb_pages_def Let_def)
  show "m' (nsb_block f) = m (nsb_block f)" using other [of "nsb_block f"] b flushed_low [OF lay m1] by simp
  assume pg: "pg < mpt_ver_map_bits (nsb n)"
  have "get_current_mpt_page bps n pg \<noteq> 1 - nsb_block f" using current_ge_2 [OF lay, of pg] by linarith
  then show "m' (get_current_mpt_page bps n pg) = m (get_current_mpt_page bps n pg)"
    using other flushed_old [OF lay m1 pg] by simp
qed

lemma checkpoint_committed:
  assumes lay: "store_layout bps u n" and st: "stored bps f m n"
    and fl: "nvm_checkpoint_flush bps f m n = Some (m', n')" and co: "nvm_checkpoint_commit f n' = (f', n'')"
  shows "nsb_locates (m' (nsb_block f')) n''" "nsb_complete (m' (nsb_block f')) n''"
    and "e < 1024 * mpt_ver_map_bits (nsb n) \<Longrightarrow>
      u32_at (m' (get_current_mpt_page bps n'' (e div 1024))) (4 * (e mod 1024)) = mpt n e"
    and "nsb n'' = nsb n \<and> mpt n'' = mpt n \<and> segment_map n'' = segment_map n
      \<and> mpt_dirty_map_bits n'' = mpt_dirty_map_bits n
      \<and> nvm_flag n'' AND NVM_NSB_DIRTY = 0 \<and> (\<forall>pg < mpt_ver_map_bits (nsb n). \<not> mpt_dirty_map n'' pg)"
proof -
  let ?n = "flushed_nsbi False n 0"
  obtain m1 where m1: "flushed_meta False bps m n 0 m1" and r: "nvm_checkpoint_flush bps f m n = Some
      (if nvm_flag ?n AND NVM_NSB_DIRTY \<noteq> 0 then nvm_flush_nsb_pages m1 ?n (1 - nsb_block f) else m1, ?n)"
    by (rule checkpoint_flush_result [OF lay])
  then have n': "n' = ?n" and m': "m' = (if nvm_flag ?n AND NVM_NSB_DIRTY \<noteq> 0
      then nvm_flush_nsb_pages m1 ?n (1 - nsb_block f) else m1)" using fl by auto
  have n'': "n'' = ?n\<lparr>nvm_flag := nvm_flag n''\<rparr>" and fz: "nvm_flag n'' AND NVM_NSB_DIRTY = 0"
    using co flag_switch unfolding n' nvm_checkpoint_commit_def by (auto simp: flag_bit split: if_splits)
  have clean: "\<not> mpt_dirty_map ?n pg" if "pg < mpt_ver_map_bits (nsb n)" for pg
    using that lay by (simp add: flushed_nsbi_def to_flush_def store_layout_def)
  have same: "nsb n'' = nsb n" "mpt n'' = mpt n" "segment_map n'' = segment_map n" "mpt_ver_map n'' = mpt_ver_map ?n"
      "mpt_dirty_map n'' = mpt_dirty_map ?n" "mpt_dirty_map_bits n'' = mpt_dirty_map_bits n"
    by (subst n'', simp)+
  with fz clean show "nsb n'' = nsb n \<and> mpt n'' = mpt n \<and> segment_map n'' = segment_map n
      \<and> mpt_dirty_map_bits n'' = mpt_dirty_map_bits n
      \<and> nvm_flag n'' AND NVM_NSB_DIRTY = 0 \<and> (\<forall>pg < mpt_ver_map_bits (nsb n). \<not> mpt_dirty_map n'' pg)" by simp
  have cur: "get_current_mpt_page bps n'' pg = get_current_mpt_page bps ?n pg" for pg
    using same by (simp add: get_current_mpt_page_def)
  have lay': "store_layout bps u ?n" using lay by (simp add: store_layout_def)
  have "m' a = m1 a" if "2 \<le> a" for a
  proof -
    have "a \<noteq> 1 - nsb_block f" using that by linarith
    then show ?thesis using m' by (simp add: nvm_flush_nsb_pages_def Let_def)
  qed
  with current_ge_2 [OF lay'] flushed_current [OF lay st m1]
  show "e < 1024 * mpt_ver_map_bits (nsb n) \<Longrightarrow>
      u32_at (m' (get_current_mpt_page bps n'' (e div 1024))) (4 * (e mod 1024)) = mpt n e" by (simp add: cur)
  have "nsb_locates (m' (nsb_block f')) ?n \<and> nsb_complete (m' (nsb_block f')) ?n"
  proof (cases "nvm_flag ?n AND NVM_NSB_DIRTY = 0")
    case True
    then have nd: "\<not> to_flush False n 0 pg" for pg
      by (auto simp: flushed_nsbi_def to_flush_def flag_bit bit_simps split: if_splits)
    then have id: "?n = n" "m1 = m" using m1 by (auto simp: flushed_nsbi_def flushed_meta_def)
    have "f' = f" using co True unfolding n' by (simp add: nvm_checkpoint_commit_def)
    moreover have "\<forall>pg < mpt_ver_map_bits (nsb n). \<not> mpt_dirty_map n pg" using clean id by simp
    ultimately show ?thesis using st True m' unfolding stored_def id by simp
  next
    case False
    then have "f' = nvm_switch_nsb_version f" using co unfolding n' by (simp add: nvm_checkpoint_commit_def)
    then have "m' (nsb_block f') = nvm_flush_nsb_pages m1 ?n (nsb_block f') (nsb_block f')"
      using False m' by (simp add: nsb_block_switch)
    then show ?thesis using nsb_page_written [of ?n] lay by (simp add: store_layout_def)
  qed
  then show "nsb_locates (m' (nsb_block f')) n''" "nsb_complete (m' (nsb_block f')) n''"
    using same by (simp_all add: nsb_locates_def nsb_complete_def)
qed

text \<open>
  What may be on the medium when the system stops during a flush: every byte of every block is
  the old one or the new one, whichever writes have completed or are torn.
\<close>

definition crash_state :: "meta_area \<Rightarrow> meta_area \<Rightarrow> meta_area \<Rightarrow> bool" where
  "crash_state m m' c \<longleftrightarrow> (\<forall>a j. c a j = m a j \<or> c a j = m' a j)"

lemma crash_state_kept: "crash_state m m' c \<Longrightarrow> m' a = m a \<Longrightarrow> c a = m a"
  by (auto simp: crash_state_def fun_eq_iff) (metis)


text \<open>A zeroed meta area with the super block written to block 0 stores an all-zero table.\<close>

lemma zero_meta_stored:
  assumes f: "nsb_fits (nsb n)" and a: "2 \<le> mpt_blkaddr (nsb n)"
    and z: "\<And>e. mpt_dirty_map n (e div 1024) \<or> mpt n e = 0"
  shows "stored bps 0 (nvm_flush_nsb_pages (\<lambda>_ _. 0) n 0) n"
proof -
  have c: "get_current_mpt_page bps n i \<noteq> 0" for i using a by (simp add: get_current_mpt_page_def Let_def)
  have "nvm_flush_nsb_pages (\<lambda>_ _. 0) n 0 (get_current_mpt_page bps n i) = (\<lambda>_. 0)" for i
    unfolding nvm_flush_nsb_pages_def Let_def fun_upd_other [OF c] ..
  then show ?thesis
    using nsb_page_written [OF f, of "\<lambda>_ _. 0" 0] z by (auto simp: stored_def nsb_block_def u32_at_def)
qed

definition store_example :: nvm_sb_info where
  "store_example = zero_nsbi\<lparr>nsb := zero_nsb\<lparr>mpt_blkaddr := 2, main_segment_nums := 4, mpt_ver_map_bits := 1,
       mpt_entries := 7\<rparr>, mpt_dirty_map_bits := 1, mpt := (\<lambda>_. 0)(3 := 9), mpt_dirty_map := (\<lambda>_. True)\<rparr>"

lemma strncmp_eq_refl: "n \<le> length a \<Longrightarrow> strncmp_eq n a a"
proof (induction n arbitrary: a)
  case (Suc n)
  then show ?case by (cases a) auto
qed simp

lemma store_example_ok:
  "store_layout 1 (replicate 16 0) store_example"
  "stored 1 0 (nvm_flush_nsb_pages (\<lambda>_ _. 0) store_example 0) store_example"
proof -
  have f: "nsb_fits (nsb store_example)" by (simp add: store_example_def nsb_fits_def zero_nsb_def)
  then show "store_layout 1 (replicate 16 0) store_example"
    using strncmp_eq_refl [of 16 "replicate 16 0"]
    by (simp add: store_layout_def) (simp add: store_example_def zero_nsb_def map_bytes_def)
  show "stored 1 0 (nvm_flush_nsb_pages (\<lambda>_ _. 0) store_example 0) store_example"
    by (rule zero_meta_stored [OF f]) (simp_all add: store_example_def)
qed


text \<open>
  An operation marks its changes when every MPT entry it changes lies on a page it leaves
  dirty, and a change of the super block or the segment map leaves the super block or some
  page dirty.
\<close>

definition marked :: "nvm_sb_info \<Rightarrow> nvm_sb_info \<Rightarrow> bool" where
  "marked n n' \<longleftrightarrow>
     mpt_blkaddr (nsb n') = mpt_blkaddr (nsb n) \<and> mpt_ver_map_bits (nsb n') = mpt_ver_map_bits (nsb n)
     \<and> main_segment_nums (nsb n') = main_segment_nums (nsb n) \<and> mpt_ver_map n' = mpt_ver_map n
     \<and> (nvm_flag n' AND NVM_NSB_DIRTY = 0 \<longrightarrow> nvm_flag n AND NVM_NSB_DIRTY = 0)
     \<and> (\<forall>pg. mpt_dirty_map n pg \<longrightarrow> mpt_dirty_map n' pg)
     \<and> (\<forall>e < 1024 * mpt_ver_map_bits (nsb n). mpt n' e \<noteq> mpt n e \<longrightarrow> mpt_dirty_map n' (e div 1024))
     \<and> (nsb n' = nsb n \<and> segment_map n' = segment_map n
        \<or> nvm_flag n' AND NVM_NSB_DIRTY \<noteq> 0 \<or> (\<exists>pg < mpt_ver_map_bits (nsb n). mpt_dirty_map n' pg))"

lemma marked_stored:
  assumes "stored bps f m n" and "marked n n'"
  shows "stored bps f m n'"
proof -
  have "get_current_mpt_page bps n' pg = get_current_mpt_page bps n pg" for pg
    using assms(2) by (simp add: get_current_mpt_page_def marked_def)
  then show ?thesis using assms unfolding stored_def marked_def nsb_locates_def nsb_complete_def by metis
qed

lemma marked_trans: "marked a b \<Longrightarrow> marked b c \<Longrightarrow> marked a c"
  unfolding marked_def by metis

lemma marked_create_mapping:
  "marked n (create_mapping n ssd nvm fl)"
  by (auto simp: marked_def create_mapping_def set_mpt_entry_def set_dirty_def Let_def)

lemma marked_unset_mapping:
  assumes "nvm_segs n + ssd < 1024 * mpt_ver_map_bits (nsb n)"
  shows "marked n (unset_mapping n ssd)"
proof -
  have "(ssd + nvm_segs n) div 1024 < mpt_ver_map_bits (nsb n)"
    using assms by (intro less_mult_imp_div_less) (simp add: mult.commute add.commute)
  then show ?thesis
    by (auto simp: marked_def unset_mapping_def release_segment_def clear_map_def set_dirty_def Let_def)
qed

lemma marked_set_double: "marked n (set_double n ssd)"
  by (auto simp: marked_def set_double_def set_double_flag_def set_dirty_def Let_def)

lemma marked_took: "marked n (took n s)"
  by (auto simp: marked_def took_def take_segment_def flag_bit bit_simps)

lemma marked_ckpt: "marked n (nvm_set_ckpt_segment_map n)"
  by (simp add: marked_def nvm_set_ckpt_segment_map_def)

text \<open>
  Nothing is lost at a checkpoint: allocating an NVM segment (with or without a mapping),
  mapping, unmapping and marking a segment as double keep the state stored, so \<open>checkpoint_atomic\<close> applies
  after any sequence of them.
\<close>

lemma mapping_ops_stored:
  assumes "stored bps f m n" and "mpt_wf S n" and "nvm_segs n + S \<le> 1024 * mpt_ver_map_bits (nsb n)" and "ssd < S"
  shows "(\<forall>r n1. nvm_allocate_segment n ssd cm = Some (r, n1) \<longrightarrow> stored bps f m n1)
    \<and> stored bps f m (create_mapping n ssd nvm fl) \<and> stored bps f m (unset_mapping n ssd)
    \<and> stored bps f m (set_double n ssd) \<and> stored bps f m (nvm_set_ckpt_segment_map n)"
proof -
  note keep = marked_stored [OF assms(1)]
  have "stored bps f m (create_mapping n ssd nvm fl)" "stored bps f m (set_double n ssd)"
      "stored bps f m (nvm_set_ckpt_segment_map n)"
    by (intro keep marked_create_mapping marked_set_double marked_ckpt)+
  moreover have "stored bps f m (unset_mapping n ssd)" using assms(3,4) by (intro keep marked_unset_mapping) simp
  moreover have "stored bps f m n1" if a: "nvm_allocate_segment n ssd cm = Some (r, n1)" for r n1
  proof (cases "free_segs n = 0")
    case True
    with a assms(1) show ?thesis by (simp add: nvm_allocate_segment_def)
  next
    case False
    then obtain s where "nvm_allocate_segment n ssd cm =
        Some (Inr s, if cm then create_mapping (took n s) ssd s (rw_map OR rw_redirect) else took n s)"
      using nvm_allocate_segment_unfold [OF assms(2)] by (metis gr0I)
    with a have "marked n n1"
      using marked_trans [OF marked_took marked_create_mapping] marked_took by (auto split: if_splits)
    then show ?thesis by (rule keep)
  qed
  ultimately show ?thesis by blast
qed

lemma clean_checkpoint:
  assumes "nvm_flag n AND NVM_NSB_DIRTY = 0" and "\<forall>pg < mpt_dirty_map_bits n. \<not> mpt_dirty_map n pg"
  shows "nvm_checkpoint_flush bps f m n = Some (m, n)" "nvm_checkpoint_commit f n = (f, n)"
proof -
  have "find_next_bit (mpt_dirty_map n) (mpt_dirty_map_bits n) 0 = mpt_dirty_map_bits n"
    using find_next_bit_set [of "mpt_dirty_map n" "mpt_dirty_map_bits n" 0] assms(2)
      find_next_bit_le [of "mpt_dirty_map n" "mpt_dirty_map_bits n" 0] by (force simp: le_less)
  then have "nvm_flush_mpt_pages False bps m n = Some (m, n)"
    by (simp add: nvm_flush_mpt_pages_def flush_mpt_loop.simps)
  then show "nvm_checkpoint_flush bps f m n = Some (m, n)" using assms(1) by (simp add: nvm_checkpoint_flush_def)
  show "nvm_checkpoint_commit f n = (f, n)" using assms(1) by (simp add: nvm_checkpoint_commit_def)
qed

lemma took_layout:
  assumes "store_layout bps u n" and "\<not> segment_map n s"
  shows "store_layout bps u (took n s)"
  using assms by (simp add: store_layout_def nsb_fits_def took_def take_segment_def less_imp_diff_less)


definition free_example :: nvm_sb_info where
  "free_example = zero_nsbi\<lparr>nsb := zero_nsb\<lparr>mpt_blkaddr := 2, main_segment_nums := 4, main_segment_free_nums := 4,
     mpt_ver_map_bits := 1, mpt_entries := 7\<rparr>, mpt_dirty_map_bits := 1\<rparr>"


end
