(* ===== verification/Free_Segs.thy ===== *)
theory Free_Segs
  imports Seg_State
begin

text \<open>
  The free segment and section maps, from \<open>src/segment.h\<close> (\<open>__set_free\<close>, \<open>__set_inuse\<close>,
  \<open>__set_test_and_free\<close>, \<open>__set_test_and_inuse\<close>, \<open>find_next_inuse\<close>) and \<open>src/segment.c\<close>
  (\<open>set_prefree_as_free_segments\<close>). Taking a segment resets its access counter; freeing one also
  drops its NVM shadow. \<open>free_wf\<close> ties the two maps and the two counters together, \<open>seg_pool\<close> is
  the interface that the allocator sees, and \<open>sm_nvm_wf\<close> says that no free segment is shadowed.
\<close>

subsection \<open>Operations\<close>

definition find_next_inuse :: "free_segmap_info \<Rightarrow> nat \<Rightarrow> nat \<Rightarrow> nat" where
  "find_next_inuse fi mx s = find_next_bit (free_segmap fi) mx s"

definition set_free :: "f2fs_geo \<Rightarrow> sm_state \<Rightarrow> nat \<Rightarrow> sm_state" where
  "set_free g st s =
     (let fi = free_i st;
          secno = GET_SEC_FROM_SEG g s;
          start_seg = GET_SEG_FROM_SEC g secno;
          fi = fi\<lparr>free_segmap := (free_segmap fi)(s := False), free_segments := u32_wrap (free_segments fi + 1)\<rparr>;
          next = find_next_bit (free_segmap fi) (start_seg + segs_per_sec g) start_seg
      in st\<lparr>free_i :=
           (if next \<ge> start_seg + segs_per_sec g
            then fi\<lparr>free_secmap := (free_secmap fi)(secno := False), free_sections := u32_wrap (free_sections fi + 1)\<rparr>
            else fi)\<rparr>)"

text \<open>Mark the section of a segment: \<open>test_and_set_bit\<close> and its counter.\<close>

definition take_section :: "free_segmap_info \<Rightarrow> nat \<Rightarrow> free_segmap_info" where
  "take_section fi secno =
     (if \<not> free_secmap fi secno
      then fi\<lparr>free_secmap := (free_secmap fi)(secno := True), free_sections := u32_sub (free_sections fi) 1\<rparr>
      else fi)"

definition lfu_set :: "nvm_sb_info \<Rightarrow> nat \<Rightarrow> int \<Rightarrow> nvm_sb_info" where
  "lfu_set n s v = n\<lparr>lfu_count := (lfu_count n)(now_lfu_counter n := (lfu_count n (now_lfu_counter n))(s := v))\<rparr>"

definition set_inuse :: "f2fs_geo \<Rightarrow> sm_state \<Rightarrow> nat \<Rightarrow> sm_state" where
  "set_inuse g st s =
     (let fi = free_i st;
          secno = GET_SEC_FROM_SEG g s;
          fi = fi\<lparr>free_segmap := (free_segmap fi)(s := True), free_segments := u32_sub (free_segments fi) 1\<rparr>
      in st\<lparr>free_i := take_section fi secno, sm_nsbi := lfu_set (sm_nsbi st) s 0\<rparr>)"

text \<open>
  The final \<open>nvm_assert\<close> of \<open>__set_test_and_free\<close> always holds (\<open>set_test_and_free_assert\<close>).
\<close>

definition set_test_and_free :: "f2fs_geo \<Rightarrow> sm_state \<Rightarrow> nat \<Rightarrow> sm_state" where
  "set_test_and_free g st s =
     (let fi = free_i st;
          secno = GET_SEC_FROM_SEG g s;
          start_seg = GET_SEG_FROM_SEC g secno;
          fi = (if free_segmap fi s
                then (let fi = fi\<lparr>free_segmap := (free_segmap fi)(s := False),
                                  free_segments := u32_wrap (free_segments fi + 1)\<rparr>;
                          next = find_next_bit (free_segmap fi) (start_seg + segs_per_sec g) start_seg
                      in if next \<ge> start_seg + segs_per_sec g
                         then (if free_secmap fi secno
                               then fi\<lparr>free_secmap := (free_secmap fi)(secno := False),
                                       free_sections := u32_wrap (free_sections fi + 1)\<rparr>
                               else fi)
                         else fi)
                else fi);
          n = sm_nsbi st;
          n = (if get_map_flag n (nvm_segs n + s) \<noteq> 0 then lfu_set (unset_mapping n s) s (- 1) else n)
      in st\<lparr>free_i := fi, sm_nsbi := n\<rparr>)"

definition set_test_and_inuse :: "f2fs_geo \<Rightarrow> sm_state \<Rightarrow> nat \<Rightarrow> sm_state" where
  "set_test_and_inuse g st s =
     (let fi = free_i st; secno = GET_SEC_FROM_SEG g s
      in if \<not> free_segmap fi s
         then st\<lparr>free_i := take_section (fi\<lparr>free_segmap := (free_segmap fi)(s := True),
                                        free_segments := u32_sub (free_segments fi) 1\<rparr>) secno\<rparr>
         else st)"

text \<open>\<open>for_each_set_bit\<close>: the set bits of a map below \<open>n\<close>, in order.\<close>

definition set_bits :: "bitmap \<Rightarrow> nat \<Rightarrow> nat list" where
  "set_bits m n = filter m [0..<n]"

definition set_prefree_as_free_segments :: "f2fs_geo \<Rightarrow> sm_state \<Rightarrow> sm_state" where
  "set_prefree_as_free_segments g st =
     fold (\<lambda>s st. set_test_and_free g st s) (set_bits (dirty_segmap (dirty_i st) PRE) (main_segments g)) st"

subsection \<open>The invariant\<close>

definition sec_ok :: "f2fs_geo \<Rightarrow> bool" where
  "sec_ok g \<longleftrightarrow> 0 < segs_per_sec g \<and> main_segments g = total_sections g * segs_per_sec g
     \<and> main_segments g < 4294967295"

definition free_set :: "f2fs_geo \<Rightarrow> sm_state \<Rightarrow> nat set" where
  "free_set g st = zero_bits (free_segmap (free_i st)) (main_segments g)"

definition sec_used :: "f2fs_geo \<Rightarrow> bitmap \<Rightarrow> nat \<Rightarrow> bool" where
  "sec_used g m c \<longleftrightarrow> (\<exists>s. s div segs_per_sec g = c \<and> m s)"

definition free_wf :: "f2fs_geo \<Rightarrow> free_segmap_info \<Rightarrow> bool" where
  "free_wf g fi \<longleftrightarrow> sec_ok g
     \<and> free_segments fi = card (zero_bits (free_segmap fi) (main_segments g))
     \<and> free_sections fi = card (zero_bits (free_secmap fi) (total_sections g))
     \<and> (\<forall>c < total_sections g. free_secmap fi c \<longleftrightarrow> sec_used g (free_segmap fi) c)"

lemma total_sections_le: "sec_ok g \<Longrightarrow> total_sections g < 4294967295"
proof -
  assume "sec_ok g"
  then have "total_sections g * 1 \<le> total_sections g * segs_per_sec g" "total_sections g * segs_per_sec g < 4294967295"
    unfolding sec_ok_def by (auto intro: mult_left_mono)
  then show ?thesis by linarith
qed

lemma sec_of_seg: "sec_ok g \<Longrightarrow> s < main_segments g \<Longrightarrow> s div segs_per_sec g < total_sections g"
  unfolding sec_ok_def by (simp add: less_mult_imp_div_less)

lemma free_counts:
  "free_wf g fi \<Longrightarrow> free_segments fi < 4294967295 \<and> free_sections fi < 4294967295"
  using card_zero_bits_le [of "free_segmap fi" "main_segments g"]
    card_zero_bits_le [of "free_secmap fi" "total_sections g"] total_sections_le [of g]
  unfolding free_wf_def sec_ok_def by linarith

text \<open>The search in \<open>__set_free\<close> runs over exactly the segments of the section.\<close>

lemma section_search:
  assumes "0 < segs_per_sec g"
  shows "find_next_bit m (c * segs_per_sec g + segs_per_sec g) (c * segs_per_sec g)
       \<ge> c * segs_per_sec g + segs_per_sec g \<longleftrightarrow> \<not> sec_used g m c" (is "?f \<ge> ?e \<longleftrightarrow> _")
proof -
  have in_sec: "s div segs_per_sec g = c \<longleftrightarrow> c * segs_per_sec g \<le> s \<and> s < ?e" for s
    using assms by (auto simp: div_nat_eqI dividend_less_times_div mult.commute)
      (metis add.commute dividend_less_div_times mult.commute)
  show ?thesis
  proof
    assume "?f \<ge> ?e"
    then show "\<not> sec_used g m c"
      using find_next_bit_hit [of "c * segs_per_sec g" _ ?e m] unfolding sec_used_def in_sec
      by (meson le_trans not_le)
  next
    assume "\<not> sec_used g m c"
    then have "?f = ?e" unfolding sec_used_def in_sec by (intro find_next_bit_none) blast
    then show "?f \<ge> ?e" by simp
  qed
qed

lemma sec_used_set: "sec_used g (m(s := True)) c \<longleftrightarrow> c = s div segs_per_sec g \<or> sec_used g m c"
  by (auto simp: sec_used_def)

lemma sec_used_clear:
  "c \<noteq> s div segs_per_sec g \<Longrightarrow> sec_used g (m(s := False)) c = sec_used g m c"
  "sec_used g (m(s := False)) (s div segs_per_sec g) \<Longrightarrow> sec_used g (m(s := False)) c = sec_used g m c"
proof -
  show ne: "c \<noteq> s div segs_per_sec g \<Longrightarrow> sec_used g (m(s := False)) c = sec_used g m c" for c
    by (auto simp: sec_used_def)
  show "sec_used g (m(s := False)) c = sec_used g m c" if u: "sec_used g (m(s := False)) (s div segs_per_sec g)"
  proof (cases "c = s div segs_per_sec g")
    case True
    then have "sec_used g m c" using u by (auto simp: sec_used_def split: if_splits)
    with u True show ?thesis by simp
  qed (rule ne)
qed

subsection \<open>Preservation\<close>

definition take_seg :: "f2fs_geo \<Rightarrow> free_segmap_info \<Rightarrow> nat \<Rightarrow> free_segmap_info" where
  "take_seg g fi s =
     take_section (fi\<lparr>free_segmap := (free_segmap fi)(s := True), free_segments := u32_sub (free_segments fi) 1\<rparr>)
       (s div segs_per_sec g)"

definition give_seg :: "f2fs_geo \<Rightarrow> free_segmap_info \<Rightarrow> nat \<Rightarrow> free_segmap_info" where
  "give_seg g fi s =
     (let fi = fi\<lparr>free_segmap := (free_segmap fi)(s := False), free_segments := u32_wrap (free_segments fi + 1)\<rparr>;
          c = s div segs_per_sec g
      in if sec_used g (free_segmap fi) c then fi
         else fi\<lparr>free_secmap := (free_secmap fi)(c := False), free_sections := u32_wrap (free_sections fi + 1)\<rparr>)"

lemma free_segmap_take [simp]: "free_segmap (take_seg g fi s) = (free_segmap fi)(s := True)"
  by (simp add: take_seg_def take_section_def)

lemma free_segmap_give [simp]: "free_segmap (give_seg g fi s) = (free_segmap fi)(s := False)"
  by (simp add: give_seg_def Let_def)

lemma take_seg_wf:
  assumes wf: "free_wf g fi" and s: "s < main_segments g" "\<not> free_segmap fi s"
  shows "free_wf g (take_seg g fi s)"
proof -
  let ?c = "s div segs_per_sec g"
  have ok: "sec_ok g" using wf by (simp add: free_wf_def)
  note c = sec_of_seg [OF ok s(1)]
  have pos: "0 < card (zero_bits (free_segmap fi) (main_segments g))"
    using s by (auto simp: card_gt_0_iff zero_bits_def)
  have pos': "\<not> free_secmap fi ?c \<Longrightarrow> 0 < card (zero_bits (free_secmap fi) (total_sections g))"
    using c by (auto simp: card_gt_0_iff zero_bits_def)
  show ?thesis
    using wf s c pos pos' free_counts [OF wf]
    by (auto simp: free_wf_def take_seg_def take_section_def card_zero_bits_set sec_used_set)
qed

lemma give_seg_wf:
  assumes wf: "free_wf g fi" and s: "s < main_segments g" "free_segmap fi s"
  shows "free_wf g (give_seg g fi s)"
proof -
  let ?c = "s div segs_per_sec g"
  have ok: "sec_ok g" using wf by (simp add: free_wf_def)
  note c = sec_of_seg [OF ok s(1)]
  have "free_secmap fi ?c" using wf s c by (auto simp: free_wf_def sec_used_def)
  then show ?thesis
    using wf s c free_counts [OF wf]
    by (auto simp: free_wf_def give_seg_def Let_def card_zero_bits_clear sec_used_clear)
qed

lemma set_inuse_eq: "set_inuse g st s = st\<lparr>free_i := take_seg g (free_i st) s, sm_nsbi := lfu_set (sm_nsbi st) s 0\<rparr>"
  by (simp add: set_inuse_def take_seg_def GET_SEC_FROM_SEG_def Let_def)

lemma set_test_and_inuse_eq:
  "set_test_and_inuse g st s = (if free_segmap (free_i st) s then st else st\<lparr>free_i := take_seg g (free_i st) s\<rparr>)"
  by (simp add: set_test_and_inuse_def take_seg_def GET_SEC_FROM_SEG_def Let_def)

lemma set_free_eq:
  "sec_ok g \<Longrightarrow> set_free g st s = st\<lparr>free_i := give_seg g (free_i st) s\<rparr>"
  unfolding set_free_def give_seg_def Let_def GET_SEC_FROM_SEG_def GET_SEG_FROM_SEC_def
  by (simp add: section_search sec_ok_def)

definition forget_shadow :: "nvm_sb_info \<Rightarrow> nat \<Rightarrow> nvm_sb_info" where
  "forget_shadow n s = (if mapped n (nvm_segs n + s) then lfu_set (unset_mapping n s) s (- 1) else n)"

lemma set_test_and_free_eq:
  assumes "free_wf g (free_i st)" and "s < main_segments g"
  shows "set_test_and_free g st s =
    st\<lparr>free_i := (if free_segmap (free_i st) s then give_seg g (free_i st) s else free_i st),
       sm_nsbi := forget_shadow (sm_nsbi st) s\<rparr>"
proof -
  have "sec_ok g" using assms(1) by (simp add: free_wf_def)
  then have "free_secmap (free_i st) (s div segs_per_sec g)" if "free_segmap (free_i st) s"
    using assms that sec_of_seg by (auto simp: free_wf_def sec_used_def)
  moreover have "0 < segs_per_sec g" using \<open>sec_ok g\<close> by (simp add: sec_ok_def)
  ultimately show ?thesis
    unfolding set_test_and_free_def give_seg_def Let_def GET_SEC_FROM_SEG_def GET_SEG_FROM_SEC_def
    by (simp add: section_search forget_shadow_def mapped_def)
qed

lemma lfu_set_frame [simp]:
  "mpt (lfu_set n s v) = mpt n" "nsb (lfu_set n s v) = nsb n" "segment_map (lfu_set n s v) = segment_map n"
  "mapped (lfu_set n s v) = mapped n" "get_mpt_value (lfu_set n s v) = get_mpt_value n"
  "mpt_wf S (lfu_set n s v) = mpt_wf S n" "nvm_of S (lfu_set n s v) = nvm_of S n"
proof -
  show f: "mpt (lfu_set n s v) = mpt n" "nsb (lfu_set n s v) = nsb n" "segment_map (lfu_set n s v) = segment_map n"
    by (simp_all add: lfu_set_def)
  show m: "mapped (lfu_set n s v) = mapped n" "get_mpt_value (lfu_set n s v) = get_mpt_value n"
    by (simp_all add: fun_eq_iff mapped_def get_map_flag_def get_mpt_value_def f)
  show "mpt_wf S (lfu_set n s v) = mpt_wf S n" by (rule mpt_wf_fields) (simp_all add: f m)
  show "nvm_of S (lfu_set n s v) = nvm_of S n" by (simp add: fun_eq_iff nvm_of_def f m)
qed

lemma forget_shadow_wf:
  assumes "mpt_wf S n" and "s < S"
  shows "mpt_wf S (forget_shadow n s)" "nvm_of S (forget_shadow n s) = (nvm_of S n)(s := None)"
proof -
  show "mpt_wf S (forget_shadow n s)" using assms by (simp add: forget_shadow_def mp.invar_unbind)
  have "nvm_of S n s = None" if "\<not> mapped n (nvm_segs n + s)" using that by (simp add: nvm_of_def)
  then show "nvm_of S (forget_shadow n s) = (nvm_of S n)(s := None)"
    using assms by (auto simp: forget_shadow_def mp.lookup_unbind fun_upd_idem)
qed

lemma set_test_and_free_assert:
  assumes "mpt_wf S (sm_nsbi st)" and "s < S"
  shows "get_map_flag (sm_nsbi (set_test_and_free g st s)) (nvm_segs (sm_nsbi st) + s) = 0"
proof -
  let ?n = "forget_shadow (sm_nsbi st) s"
  have e: "sm_nsbi (set_test_and_free g st s) = ?n"
    by (simp add: set_test_and_free_def Let_def forget_shadow_def mapped_def)
  have "nvm_segs ?n = nvm_segs (sm_nsbi st)"
    by (simp add: forget_shadow_def unset_mapping_def Let_def)
  moreover have "nvm_of S ?n s = None" using forget_shadow_wf(2) [OF assms] by simp
  ultimately have "\<not> mapped ?n (nvm_segs (sm_nsbi st) + s)" using assms(2) by (auto simp: nvm_of_def split: if_splits)
  then show ?thesis by (simp add: e mapped_def)
qed

subsection \<open>The interface to the allocator\<close>

text \<open>
  A pool of segments out of a universe \<open>U\<close>, with the set of free ones as its abstract value.
  The SSD's free map and the NVM's segment map are both such pools.
\<close>

locale seg_pool =
  fixes free :: "'s \<Rightarrow> nat set"
    and free_count :: "'s \<Rightarrow> nat"
    and take :: "'s \<Rightarrow> nat \<Rightarrow> 's"
    and give :: "'s \<Rightarrow> nat \<Rightarrow> 's"
    and invar :: "'s \<Rightarrow> bool"
    and U :: "nat set"
  assumes finite_U: "finite U"
    and free_U: "invar p \<Longrightarrow> free p \<subseteq> U"
    and counts: "invar p \<Longrightarrow> free_count p = card (free p)"
    and take_invar: "invar p \<Longrightarrow> a \<in> free p \<Longrightarrow> invar (take p a)"
    and take_free: "invar p \<Longrightarrow> a \<in> free p \<Longrightarrow> free (take p a) = free p - {a}"
    and give_invar: "invar p \<Longrightarrow> a \<in> U - free p \<Longrightarrow> invar (give p a)"
    and give_free: "invar p \<Longrightarrow> a \<in> U - free p \<Longrightarrow> free (give p a) = insert a (free p)"
begin

lemma finite_free: "invar p \<Longrightarrow> finite (free p)"
  using finite_subset [OF free_U finite_U] .

lemma take_count: "invar p \<Longrightarrow> a \<in> free p \<Longrightarrow> Suc (free_count (take p a)) = free_count p"
  using card_Suc_Diff1 [OF finite_free] by (simp add: counts take_invar take_free)

lemma give_count: "invar p \<Longrightarrow> a \<in> U - free p \<Longrightarrow> free_count (give p a) = Suc (free_count p)"
  by (simp add: counts give_invar give_free finite_free)

lemma take_give: "invar p \<Longrightarrow> a \<in> free p \<Longrightarrow> free (give (take p a) a) = free p"
  using free_U [of p] by (subst give_free) (auto simp: take_invar take_free)

text \<open>Giving back a list of taken segments one after the other.\<close>

lemma give_all:
  assumes "invar p" and "distinct ss" and "set ss \<subseteq> U - free p"
  shows "invar (fold (\<lambda>a p. give p a) ss p) \<and> free (fold (\<lambda>a p. give p a) ss p) = free p \<union> set ss"
  using assms
proof (induction ss arbitrary: p)
  case (Cons a ss)
  then have "a \<in> U - free p" by simp
  note g = give_invar [OF Cons.prems(1) this] give_free [OF Cons.prems(1) this]
  show ?case using Cons.IH [OF g(1)] Cons.prems g(2) by auto
qed simp

end

interpretation fpool: seg_pool "\<lambda>st. free_set g st" "\<lambda>st. free_segments (free_i st)" "set_inuse g" "set_free g"
  "\<lambda>st. free_wf g (free_i st)" "{..<main_segments g}" for g
proof (unfold_locales, goal_cases)
  case (2 p) then show ?case by (auto simp: free_set_def zero_bits_def)
next
  case (3 p) then show ?case by (simp add: free_set_def free_wf_def)
next
  case (4 p a) then show ?case by (auto simp: set_inuse_eq free_set_def zero_bits_def intro!: take_seg_wf)
next
  case (5 p a) then show ?case by (auto simp: set_inuse_eq free_set_def zero_bits_def)
next
  case (6 p a)
  then have "sec_ok g" by (simp add: free_wf_def)
  with 6 show ?case by (auto simp: set_free_eq free_set_def zero_bits_def intro!: give_seg_wf)
next
  case (7 p a)
  then have "sec_ok g" by (simp add: free_wf_def)
  with 7 show ?case by (auto simp: set_free_eq free_set_def zero_bits_def)
qed simp

interpretation npool: seg_pool "\<lambda>n. zero_bits (segment_map n) N" free_segs take_segment release_segment
  "\<lambda>n. nvm_segs n = N \<and> free_segs n = card (zero_bits (segment_map n) N)" "{..<N}" for N
proof (unfold_locales, goal_cases)
  case (2 p) then show ?case by (auto simp: zero_bits_def)
next
  case (4 p a) then show ?case by (auto simp: take_segment_def card_zero_bits_set in_zero_bits)
next
  case (5 p a) then show ?case by (auto simp: take_segment_def zero_bits_def)
next
  case (6 p a) then show ?case by (auto simp: card_zero_bits_clear in_zero_bits)
next
  case (7 p a) then show ?case by (auto simp: zero_bits_def)
qed simp_all

subsection \<open>Free segments have no shadow\<close>

definition sm_nvm_wf :: "f2fs_geo \<Rightarrow> sm_state \<Rightarrow> bool" where
  "sm_nvm_wf g st \<longleftrightarrow> free_wf g (free_i st) \<and> mpt_wf (main_segments g) (sm_nsbi st)
     \<and> dom (nvm_of (main_segments g) (sm_nsbi st)) \<inter> free_set g st = {}"

lemma set_test_and_free_wf:
  assumes wf: "sm_nvm_wf g st" and s: "s < main_segments g"
  shows "sm_nvm_wf g (set_test_and_free g st s)"
    and "free_set g (set_test_and_free g st s) = insert s (free_set g st)"
    and "nvm_of (main_segments g) (sm_nsbi (set_test_and_free g st s)) = (nvm_of (main_segments g) (sm_nsbi st))(s := None)"
    and "dirty_i (set_test_and_free g st s) = dirty_i st"
proof -
  let ?st = "set_test_and_free g st s"
  have f: "free_wf g (free_i st)" and m: "mpt_wf (main_segments g) (sm_nsbi st)"
    using wf by (simp_all add: sm_nvm_wf_def)
  note e = set_test_and_free_eq [OF f s]
  have f': "free_wf g (free_i ?st)" using f s by (simp add: e give_seg_wf)
  show fs: "free_set g ?st = insert s (free_set g st)"
    using s by (auto simp: e free_set_def zero_bits_def)
  show nv: "nvm_of (main_segments g) (sm_nsbi ?st) = (nvm_of (main_segments g) (sm_nsbi st))(s := None)"
    using forget_shadow_wf(2) [OF m s] by (simp add: e)
  have "mpt_wf (main_segments g) (sm_nsbi ?st)" using forget_shadow_wf(1) [OF m s] by (simp add: e)
  then show "sm_nvm_wf g ?st" using f' wf unfolding sm_nvm_wf_def fs nv by auto
  show "dirty_i ?st = dirty_i st" by (simp add: e)
qed

lemma set_test_and_free_fold:
  assumes "sm_nvm_wf g st" and "\<forall>s \<in> set ss. s < main_segments g"
  shows "sm_nvm_wf g (fold (\<lambda>s st. set_test_and_free g st s) ss st)
    \<and> free_set g (fold (\<lambda>s st. set_test_and_free g st s) ss st) = free_set g st \<union> set ss
    \<and> nvm_of (main_segments g) (sm_nsbi (fold (\<lambda>s st. set_test_and_free g st s) ss st))
        = nvm_of (main_segments g) (sm_nsbi st) |` (- set ss)"
  using assms
proof (induction ss arbitrary: st)
  case (Cons s ss)
  note w = set_test_and_free_wf [OF Cons.prems(1)]
  show ?case using Cons.IH [OF w(1)] w(2,3) Cons.prems
    by (auto simp: restrict_map_def fun_eq_iff)
qed (simp add: restrict_map_def)

subsection \<open>Properties\<close>

text \<open>
  C36. When a checkpoint completes, exactly the prefree segments join the free segments and lose
  their NVM shadow; the maps and counters stay consistent and no free segment is shadowed.
\<close>

theorem set_prefree_frees:
  assumes "sm_nvm_wf g st"
  defines "pre \<equiv> {s. s < main_segments g \<and> dirty_segmap (dirty_i st) PRE s}"
    and "st' \<equiv> set_prefree_as_free_segments g st"
  shows "sm_nvm_wf g st' \<and> free_set g st' = free_set g st \<union> pre
    \<and> free_segments (free_i st') = card (free_set g st \<union> pre)
    \<and> nvm_of (main_segments g) (sm_nsbi st') = nvm_of (main_segments g) (sm_nsbi st) |` (- pre)"
proof -
  let ?ss = "set_bits (dirty_segmap (dirty_i st) PRE) (main_segments g)"
  have "set ?ss = pre" "\<forall>s \<in> set ?ss. s < main_segments g" by (auto simp: set_bits_def pre_def)
  with set_test_and_free_fold [OF assms(1) this(2)]
  have "sm_nvm_wf g st'" "free_set g st' = free_set g st \<union> pre"
    "nvm_of (main_segments g) (sm_nsbi st') = nvm_of (main_segments g) (sm_nsbi st) |` (- pre)"
    by (simp_all add: st'_def set_prefree_as_free_segments_def)
  moreover have "free_segments (free_i st') = card (free_set g st')"
    using \<open>sm_nvm_wf g st'\<close> by (simp add: sm_nvm_wf_def fpool.counts)
  ultimately show ?thesis by simp
qed

lemma sm_example_wf: "sm_nvm_wf geo10 sm_example" "free_set geo10 sm_example = {0, 1}"
proof -
  have z: "zero_bits (\<lambda>s. 2 \<le> s) 10 = {0, 1}" by (auto simp: zero_bits_def)
  then show f: "free_set geo10 sm_example = {0, 1}" by (simp add: free_set_def)
  have "sec_ok geo10" by (simp add: sec_ok_def)
  moreover have "sec_used geo10 m c = m c" for m c by (simp add: sec_used_def)
  ultimately have "free_wf geo10 (free_i sm_example)" by (simp add: free_wf_def z)
  then show "sm_nvm_wf geo10 sm_example" unfolding sm_nvm_wf_def f by (simp add: one_mapped_10)
qed

theorem set_prefree_frees_witness:
  "free_set geo10 (set_prefree_as_free_segments geo10 sm_example) = {0, 1, 2}
   \<and> nvm_of 10 (sm_nsbi (set_prefree_as_free_segments geo10 sm_example)) = Map.empty"
proof -
  have "{s. s < main_segments geo10 \<and> dirty_segmap (dirty_i sm_example) PRE s} = {2}" by auto
  note w = set_prefree_frees [OF sm_example_wf(1), unfolded this sm_example_wf(2)]
  have "[2 \<mapsto> 0] |` (- {2 :: nat}) = Map.empty" by (simp add: restrict_map_def fun_eq_iff)
  then show ?thesis using w by (simp add: one_mapped_10 insert_commute)
qed

end
