(* ===== verification/Sit.thy ===== *)
theory Sit
  imports Free_Segs
begin

text \<open>
  The segment information table: block validity and its counters, the dirty lists and the SIT
  addresses, from \<open>src/segment.c\<close> (\<open>update_sit_entry\<close>, \<open>f2fs_invalidate_blocks\<close>,
  \<open>locate_dirty_segment\<close>, ...) and \<open>src/segment.h\<close>. The constants of \<open>linux/f2fs_fs.h\<close>, which is not
  part of the sources, are the fields of \<open>disk_fmt\<close>. \<open>f2fs_bug_on\<close> sets \<open>need_fsck\<close> and goes on, as
  it does without \<open>CONFIG_F2FS_CHECK_FS\<close>. The wall clock is an argument.
\<close>

subsection \<open>Addresses\<close>

record disk_fmt =
  NULL_ADDR :: nat
  NEW_ADDR :: nat
  SIT_ENTRY_PER_BLOCK :: nat
  SIT_VBLOCKS_SHIFT :: nat
  GET_SIT_VBLOCKS :: "nat \<Rightarrow> nat"
  GET_SIT_TYPE :: "nat \<Rightarrow> nat"

definition is_valid_blkaddr :: "disk_fmt \<Rightarrow> nat \<Rightarrow> bool" where
  "is_valid_blkaddr d blkaddr = (\<not> (blkaddr = NEW_ADDR d \<or> blkaddr = NULL_ADDR d))"

definition GET_SEGNO :: "disk_fmt \<Rightarrow> f2fs_geo \<Rightarrow> nat \<Rightarrow> nat" where
  "GET_SEGNO d g blk_addr =
     (if \<not> is_valid_blkaddr d blk_addr then NULL_SEGNO else GET_L2R_SEGNO g (GET_SEGNO_FROM_SEG0 g blk_addr))"

definition SIT_BLOCK_OFFSET :: "disk_fmt \<Rightarrow> nat \<Rightarrow> nat" where
  "SIT_BLOCK_OFFSET d s = s div SIT_ENTRY_PER_BLOCK d"

definition START_SEGNO :: "disk_fmt \<Rightarrow> nat \<Rightarrow> nat" where
  "START_SEGNO d s = SIT_BLOCK_OFFSET d s * SIT_ENTRY_PER_BLOCK d"

definition SIT_BLK_CNT :: "disk_fmt \<Rightarrow> f2fs_geo \<Rightarrow> nat" where
  "SIT_BLK_CNT d g = (main_segments g + SIT_ENTRY_PER_BLOCK d - 1) div SIT_ENTRY_PER_BLOCK d"

definition check_seg_range :: "f2fs_geo \<Rightarrow> sm_state \<Rightarrow> nat \<Rightarrow> sm_state" where
  "check_seg_range g st s = f2fs_bug_on (s > u32_sub (segment_count g) 1) st"

definition current_sit_addr :: "disk_fmt \<Rightarrow> f2fs_geo \<Rightarrow> sm_state \<Rightarrow> nat \<Rightarrow> nat \<times> sm_state" where
  "current_sit_addr d g st start =
     (let offset = SIT_BLOCK_OFFSET d start;
          blk_addr = sit_base_addr (sit_i st) + offset;
          st' = check_seg_range g st start
      in (if sit_bitmap (sit_i st) offset then blk_addr + sit_blocks (sit_i st) else blk_addr, st'))"

definition next_sit_addr :: "sm_state \<Rightarrow> nat \<Rightarrow> nat" where
  "next_sit_addr st block_addr =
     (let b = block_addr - sit_base_addr (sit_i st);
          b = (if b < sit_blocks (sit_i st) then b + sit_blocks (sit_i st) else b - sit_blocks (sit_i st))
      in b + sit_base_addr (sit_i st))"

definition set_to_next_sit :: "disk_fmt \<Rightarrow> sm_state \<Rightarrow> nat \<Rightarrow> sm_state" where
  "set_to_next_sit d st start =
     (let block_off = SIT_BLOCK_OFFSET d start
      in st\<lparr>sit_i := (sit_i st)\<lparr>sit_bitmap := (sit_bitmap (sit_i st))(block_off := \<not> sit_bitmap (sit_i st) block_off)\<rparr>\<rparr>)"

subsection \<open>Entries\<close>

text \<open>Stores into 10-bit fields, and \<open>+=\<close> on unsigned 32-bit values.\<close>

definition bits10 :: "int \<Rightarrow> nat" where
  "bits10 x = nat (x mod 1024)"

definition u32_plus :: "nat \<Rightarrow> int \<Rightarrow> nat" where
  "u32_plus a x = nat ((int a + x) mod 4294967296)"

definition get_mtime :: "nat \<Rightarrow> sm_state \<Rightarrow> bool \<Rightarrow> nat" where
  "get_mtime now st base_time =
     (let si = sit_i st
      in if now \<ge> mounted_time si then elapsed_time si + now - mounted_time si
         else if \<not> base_time
         then (let diff = mounted_time si - now
               in if elapsed_time si \<ge> diff then elapsed_time si - diff else 0)
         else elapsed_time si)"

definition mark_sit_entry_dirty :: "sm_state \<Rightarrow> nat \<Rightarrow> bool \<times> sm_state" where
  "mark_sit_entry_dirty st s =
     (let si = sit_i st
      in if \<not> dirty_sentries_bitmap si s
         then (False, st\<lparr>sit_i := si\<lparr>dirty_sentries_bitmap := (dirty_sentries_bitmap si)(s := True),
                                    dirty_sentries := u32_wrap (dirty_sentries si + 1)\<rparr>\<rparr>)
         else (True, st))"

definition set_sit_entry_type :: "sm_state \<Rightarrow> nat \<Rightarrow> nat \<Rightarrow> bool \<Rightarrow> sm_state" where
  "set_sit_entry_type st t s modified =
     (let st1 = set_seg_entry st s ((get_seg_entry st s)\<lparr>se_type := t\<rparr>)
      in if modified then snd (mark_sit_entry_dirty st1 s) else st1)"

text \<open>The part of \<open>update_sit_entry\<close> that sets a bit: the entry, what is left of \<open>del\<close>, the discard counter.\<close>

definition sit_set_block :: "bool \<Rightarrow> nat \<Rightarrow> int \<Rightarrow> sm_state \<Rightarrow> seg_entry \<Rightarrow> int \<times> sm_state \<times> seg_entry" where
  "sit_set_block disc offset del st se =
     (let ex = cur_valid_map se offset;
          se = se\<lparr>cur_valid_map := (cur_valid_map se)(offset := True)\<rparr>;
          st = f2fs_bug_on ex st;
          se = (if ex then se\<lparr>valid_blocks := bits10 (int (valid_blocks se) - 1)\<rparr> else se);
          del = (if ex then 0 else del);
          dset = discard_map se offset;
          st = (if disc \<and> \<not> dset then st\<lparr>discard_blks := u32_plus (discard_blks st) (- 1)\<rparr> else st);
          se = (if disc then se\<lparr>discard_map := (discard_map se)(offset := True)\<rparr> else se);
          se = (if IS_NODESEG (se_type se)
                then se\<lparr>ckpt_valid_blocks := (if \<not> ckpt_valid_map se offset
                                             then bits10 (int (ckpt_valid_blocks se) + 1) else ckpt_valid_blocks se),
                        ckpt_valid_map := (ckpt_valid_map se)(offset := True)\<rparr>
                else se)
      in (del, st, se))"

definition sit_clear_block :: "bool \<Rightarrow> nat \<Rightarrow> int \<Rightarrow> sm_state \<Rightarrow> seg_entry \<Rightarrow> int \<times> sm_state \<times> seg_entry" where
  "sit_clear_block disc offset del st se =
     (let ex = cur_valid_map se offset;
          se = se\<lparr>cur_valid_map := (cur_valid_map se)(offset := False)\<rparr>;
          st = f2fs_bug_on (\<not> ex) st;
          se = (if \<not> ex then se\<lparr>valid_blocks := bits10 (int (valid_blocks se) + 1)\<rparr> else se);
          del = (if \<not> ex then 0 else del);
          dset = discard_map se offset;
          st = (if disc \<and> dset then st\<lparr>discard_blks := u32_plus (discard_blks st) 1\<rparr> else st);
          se = (if disc then se\<lparr>discard_map := (discard_map se)(offset := False)\<rparr> else se)
      in (del, st, se))"

text \<open>Its end: the entry is stored, marked dirty and counted for the volume and the section.\<close>

definition sit_commit :: "f2fs_geo \<Rightarrow> sm_state \<Rightarrow> nat \<Rightarrow> seg_entry \<Rightarrow> int \<Rightarrow> sm_state" where
  "sit_commit g st s se del =
     (let st = set_seg_entry st s se;
          st = snd (mark_sit_entry_dirty st s);
          st = st\<lparr>sit_i := (sit_i st)\<lparr>written_valid_blocks := u32_plus (written_valid_blocks (sit_i st)) del\<rparr>\<rparr>;
          c = GET_SEC_FROM_SEG g s
      in if segs_per_sec g > 1
         then st\<lparr>sit_i := (sit_i st)\<lparr>sec_entries := (sec_entries (sit_i st))(c := u32_plus (sec_entries (sit_i st) c) del)\<rparr>\<rparr>
         else st)"

definition update_sit_entry :: "disk_fmt \<Rightarrow> f2fs_geo \<Rightarrow> bool \<Rightarrow> nat \<Rightarrow> sm_state \<Rightarrow> nat \<Rightarrow> int \<Rightarrow> sm_state" where
  "update_sit_entry d g disc now st blkaddr del =
     (let s = GET_SEGNO d g blkaddr;
          se = get_seg_entry st s;
          new_vblocks = int (valid_blocks se) + del;
          offset = GET_BLKOFF_FROM_SEG0 g blkaddr;
          st = f2fs_bug_on (drop_bit 16 new_vblocks \<noteq> 0 \<or> new_vblocks > int (blocks_per_seg g)) st;
          mt = get_mtime now st False;
          se = se\<lparr>valid_blocks := bits10 new_vblocks, se_mtime := mt\<rparr>;
          st = (if mt > max_mtime (sit_i st) then st\<lparr>sit_i := (sit_i st)\<lparr>max_mtime := mt\<rparr>\<rparr> else st);
          (del, st, se) = (if del > 0 then sit_set_block disc offset del st se else sit_clear_block disc offset del st se);
          se = (if \<not> ckpt_valid_map se offset
                then se\<lparr>ckpt_valid_blocks := bits10 (int (ckpt_valid_blocks se) + del)\<rparr> else se)
      in sit_commit g st s se del)"

subsection \<open>Dirty lists\<close>

definition set_dirty_bit :: "sm_state \<Rightarrow> nat \<Rightarrow> nat \<Rightarrow> sm_state" where
  "set_dirty_bit st t s =
     (let di = dirty_i st
      in if \<not> dirty_segmap di t s
         then st\<lparr>dirty_i := di\<lparr>dirty_segmap := (dirty_segmap di)(t := (dirty_segmap di t)(s := True)),
                               nr_dirty := (nr_dirty di)(t := nr_dirty di t + 1)\<rparr>\<rparr>
         else st)"

definition clear_dirty_bit :: "sm_state \<Rightarrow> nat \<Rightarrow> nat \<Rightarrow> sm_state" where
  "clear_dirty_bit st t s =
     (let di = dirty_i st
      in if dirty_segmap di t s
         then st\<lparr>dirty_i := di\<lparr>dirty_segmap := (dirty_segmap di)(t := (dirty_segmap di t)(s := False)),
                               nr_dirty := (nr_dirty di)(t := nr_dirty di t - 1)\<rparr>\<rparr>
         else st)"

text \<open>
  The type of an entry indexes the lists. It is below 6 for every segment of a sound volume; only
  \<open>__locate_dirty_segment\<close> checks it.
\<close>

definition locate_dirty_segment_in :: "sm_state \<Rightarrow> nat \<Rightarrow> nat \<Rightarrow> sm_state" where
  "locate_dirty_segment_in st s t =
     (if IS_CURSEG st s then st
      else let st1 = set_dirty_bit st t s
           in if t = DIRTY
              then (let t' = se_type (get_seg_entry st1 s)
                    in if t' \<ge> DIRTY then f2fs_bug_on True st1 else set_dirty_bit st1 t' s)
              else st1)"

definition remove_dirty_segment :: "f2fs_geo \<Rightarrow> sm_state \<Rightarrow> nat \<Rightarrow> nat \<Rightarrow> sm_state" where
  "remove_dirty_segment g st s t =
     (let st1 = clear_dirty_bit st t s
      in if t = DIRTY
         then (let st2 = clear_dirty_bit st1 (se_type (get_seg_entry st1 s)) s
               in if get_valid_blocks g st2 s True = 0
                  then st2\<lparr>dirty_i := (dirty_i st2)\<lparr>victim_secmap := (victim_secmap (dirty_i st2))(GET_SEC_FROM_SEG g s := False)\<rparr>\<rparr>
                  else st2)
         else st1)"

definition locate_dirty_segment :: "f2fs_geo \<Rightarrow> sm_state \<Rightarrow> nat \<Rightarrow> sm_state" where
  "locate_dirty_segment g st s =
     (if s = NULL_SEGNO \<or> IS_CURSEG st s then st
      else let vb = get_valid_blocks g st s False
           in if vb = 0 then remove_dirty_segment g (locate_dirty_segment_in st s PRE) s DIRTY
              else if vb < blocks_per_seg g then locate_dirty_segment_in st s DIRTY
              else remove_dirty_segment g st s DIRTY)"

subsection \<open>Callers\<close>

text \<open>
  For \<open>NULL_ADDR\<close> the code warns and then indexes the table with \<open>NULL_SEGNO\<close>: \<open>EBUG\<close>.
\<close>

definition f2fs_invalidate_blocks ::
  "disk_fmt \<Rightarrow> f2fs_geo \<Rightarrow> bool \<Rightarrow> nat \<Rightarrow> sm_state \<Rightarrow> nat \<Rightarrow> nvm_err + sm_state" where
  "f2fs_invalidate_blocks d g disc now st addr =
     (let s = GET_SEGNO d g addr
      in if addr = NULL_ADDR d then Inl EBUG
         else if addr = NEW_ADDR d then Inr st
         else Inr (locate_dirty_segment g (update_sit_entry d g disc now st addr (- 1)) s))"

definition f2fs_is_checkpointed_data :: "disk_fmt \<Rightarrow> f2fs_geo \<Rightarrow> sm_state \<Rightarrow> nat \<Rightarrow> bool" where
  "f2fs_is_checkpointed_data d g st blkaddr =
     (if \<not> is_valid_blkaddr d blkaddr then True
      else ckpt_valid_map (get_seg_entry st (GET_SEGNO d g blkaddr)) (GET_BLKOFF_FROM_SEG0 g blkaddr))"

definition set_summary :: "nat \<Rightarrow> nat \<Rightarrow> nat \<Rightarrow> f2fs_summary" where
  "set_summary nid ofs_in_node version = \<lparr>sum_nid = nid, sum_ofs_in_node = ofs_in_node mod 65536, sum_version = version\<rparr>"

subsection \<open>The invariant\<close>

definition vbits :: "bitmap \<Rightarrow> nat \<Rightarrow> nat set" where
  "vbits m n = {i. i < n \<and> m i}"

definition kept_map :: "seg_entry \<Rightarrow> bitmap" where
  "kept_map se = (\<lambda>i. cur_valid_map se i \<or> ckpt_valid_map se i)"

definition seg_wf :: "f2fs_geo \<Rightarrow> seg_entry \<Rightarrow> bool" where
  "seg_wf g se \<longleftrightarrow> valid_blocks se = card (vbits (cur_valid_map se) (blocks_per_seg g))
     \<and> ckpt_valid_blocks se = card (vbits (kept_map se) (blocks_per_seg g)) \<and> se_type se < 6"

definition sec_segs :: "f2fs_geo \<Rightarrow> nat \<Rightarrow> nat set" where
  "sec_segs g c = {s. s < main_segments g \<and> s div segs_per_sec g = c}"

definition sit_wf :: "f2fs_geo \<Rightarrow> sm_state \<Rightarrow> bool" where
  "sit_wf g st \<longleftrightarrow> blocks_per_seg g \<le> 512 \<and> main_segments g < 4294967295
     \<and> (\<forall>s < main_segments g. seg_wf g (get_seg_entry st s))
     \<and> dirty_sentries (sit_i st) = card (vbits (dirty_sentries_bitmap (sit_i st)) (main_segments g))
     \<and> written_valid_blocks (sit_i st) = (\<Sum>s < main_segments g. valid_blocks (get_seg_entry st s))
     \<and> (1 < segs_per_sec g \<longrightarrow> (\<forall>c. sec_entries (sit_i st) c = (\<Sum>s \<in> sec_segs g c. valid_blocks (get_seg_entry st s))))"

lemma finite_vbits [simp]: "finite (vbits m n)"
  by (simp add: vbits_def)

lemma card_vbits_le: "card (vbits m n) \<le> n"
  using card_mono [of "{..<n}" "vbits m n"] by (auto simp: vbits_def)

lemma card_vbits_set: "i < n \<Longrightarrow> \<not> m i \<Longrightarrow> card (vbits (m(i := True)) n) = Suc (card (vbits m n))"
proof -
  assume "i < n" "\<not> m i"
  then have "vbits (m(i := True)) n = insert i (vbits m n)" "i \<notin> vbits m n" by (auto simp: vbits_def)
  then show ?thesis by simp
qed

lemma card_vbits_clear: "i < n \<Longrightarrow> m i \<Longrightarrow> card (vbits m n) = Suc (card (vbits (m(i := False)) n))"
  using card_vbits_set [of i n "m(i := False)"] by (simp add: fun_upd_idem)

lemma card_vbits_less: "i < n \<Longrightarrow> \<not> m i \<Longrightarrow> card (vbits m n) < n"
  using card_vbits_set [of i n m] card_vbits_le [of "m(i := True)" n] by simp

lemma finite_sec_segs [simp]: "finite (sec_segs g c)"
  by (simp add: sec_segs_def)

lemma bits10_small [simp]: "0 \<le> x \<Longrightarrow> x < 1024 \<Longrightarrow> bits10 x = nat x"
  by (simp add: bits10_def)

lemma u32_plus_small [simp]: "0 \<le> int a + x \<Longrightarrow> int a + x < 4294967296 \<Longrightarrow> u32_plus a x = nat (int a + x)"
  by (simp add: u32_plus_def)

lemma u32_plus_eqI: "int b = int a + x \<Longrightarrow> b < 4294967296 \<Longrightarrow> u32_plus a x = b"
  by (metis of_nat_0_le_iff of_nat_less_numeral_iff nat_int u32_plus_small)

lemma sum_entry_upd:
  fixes f :: "nat \<Rightarrow> nat"
  assumes "finite A" and "int v = int (f s) + x"
  shows "int (\<Sum>a \<in> A. if a = s then v else f a) = int (sum f A) + (if s \<in> A then x else 0)"
proof -
  have "(\<Sum>a \<in> A. int (if a = s then v else f a)) = (\<Sum>a \<in> A. int (f a) + (if a = s then x else 0))"
    using assms(2) by (intro sum.cong) auto
  then show ?thesis using assms(1) by (simp add: sum.distrib)
qed

text \<open>A segment of a sound table, changed by \<open>x\<close> blocks, with everything that counts them.\<close>

definition sit_step :: "f2fs_geo \<Rightarrow> sm_state \<Rightarrow> nat \<Rightarrow> seg_entry \<Rightarrow> int \<Rightarrow> sm_state \<Rightarrow> bool" where
  "sit_step g st s se x st' \<longleftrightarrow>
     (\<forall>a. get_seg_entry st' a = (if a = s then se else get_seg_entry st a))
     \<and> dirty_sentries_bitmap (sit_i st') = (dirty_sentries_bitmap (sit_i st))(s := True)
     \<and> dirty_sentries (sit_i st') = (if dirty_sentries_bitmap (sit_i st) s then dirty_sentries (sit_i st)
                                     else u32_wrap (dirty_sentries (sit_i st) + 1))
     \<and> written_valid_blocks (sit_i st') = u32_plus (written_valid_blocks (sit_i st)) x
     \<and> sec_entries (sit_i st') = (if 1 < segs_per_sec g
          then (sec_entries (sit_i st))(s div segs_per_sec g := u32_plus (sec_entries (sit_i st) (s div segs_per_sec g)) x)
          else sec_entries (sit_i st))
     \<and> last_victim (sit_i st') = last_victim (sit_i st) \<and> sm_load st' = sm_load st
     \<and> free_i st' = free_i st \<and> dirty_i st' = dirty_i st \<and> curseg_array st' = curseg_array st
     \<and> sum_pages st' = sum_pages st \<and> sm_nsbi st' = sm_nsbi st \<and> need_fsck st' = need_fsck st"

lemma main_total:
  assumes "geo_ok g" and "\<forall>s < main_segments g. f s \<le> blocks_per_seg g" and "A \<subseteq> {..<main_segments g}"
  shows "sum f A < (4294967296 :: nat)"
proof -
  have "sum f A \<le> sum f {..<main_segments g}" using assms(3) by (intro sum_mono2) auto
  also have "\<dots> \<le> (\<Sum>s < main_segments g. blocks_per_seg g)" using assms(2) by (intro sum_mono) auto
  also have "\<dots> \<le> segment_count g * blocks_per_seg g"
    using assms(1) by (auto simp: geo_ok_def intro!: mult_right_mono)
  finally show ?thesis using assms(1) unfolding geo_ok_def by linarith
qed

lemma seg_wf_le: "seg_wf g se \<Longrightarrow> valid_blocks se \<le> blocks_per_seg g"
  by (simp add: seg_wf_def card_vbits_le)

lemma sit_step_counts:
  assumes g: "geo_ok g" and wf: "sit_wf g st" and step: "sit_step g st s se x st'"
    and se: "seg_wf g se" "int (valid_blocks se) = int (valid_blocks (get_seg_entry st s)) + x"
    and s: "s \<in> A" and A: "A \<subseteq> {..<main_segments g}"
  shows "u32_plus (\<Sum>a \<in> A. valid_blocks (get_seg_entry st a)) x = (\<Sum>a \<in> A. valid_blocks (get_seg_entry st' a))"
proof -
  have e: "valid_blocks (get_seg_entry st' a) = (if a = s then valid_blocks se else valid_blocks (get_seg_entry st a))" for a
    using step by (simp add: sit_step_def)
  have fin: "finite A" using A finite_subset by blast
  have "int (\<Sum>a \<in> A. valid_blocks (get_seg_entry st' a)) = int (\<Sum>a \<in> A. valid_blocks (get_seg_entry st a)) + x"
    unfolding e using sum_entry_upd [where f = "\<lambda>a. valid_blocks (get_seg_entry st a)", OF fin se(2)] s by simp
  moreover have "(\<Sum>a \<in> A. valid_blocks (get_seg_entry st' a)) < 4294967296"
    using wf se(1) A by (intro main_total [OF g]) (auto simp: e sit_wf_def intro!: seg_wf_le)
  ultimately show ?thesis by (rule u32_plus_eqI)
qed

lemma sit_step_wf:
  assumes g: "geo_ok g" and wf: "sit_wf g st" and step: "sit_step g st s se x st'" and s: "s < main_segments g"
    and se: "seg_wf g se" "int (valid_blocks se) = int (valid_blocks (get_seg_entry st s)) + x"
  shows "sit_wf g st'"
proof -
  note C = sit_step_counts [OF g wf step se]
  have w: "written_valid_blocks (sit_i st') = (\<Sum>a < main_segments g. valid_blocks (get_seg_entry st' a))"
    using C [of "{..<main_segments g}"] s wf step by (simp add: sit_wf_def sit_step_def lessThan_iff)
  have c: "sec_entries (sit_i st') c = (\<Sum>a \<in> sec_segs g c. valid_blocks (get_seg_entry st' a))" if "1 < segs_per_sec g" for c
  proof (cases "c = s div segs_per_sec g")
    case True
    then show ?thesis using C [of "sec_segs g c"] s wf step that
      by (simp add: sit_wf_def sit_step_def) (auto simp: sec_segs_def)
  next
    case False
    then have "valid_blocks (get_seg_entry st' a) = valid_blocks (get_seg_entry st a)" if "a \<in> sec_segs g c" for a
      using that step by (auto simp: sec_segs_def sit_step_def)
    then show ?thesis using False wf step that by (simp add: sit_wf_def sit_step_def)
  qed
  have "card (vbits (dirty_sentries_bitmap (sit_i st)) (main_segments g)) < 4294967295"
    using card_vbits_le [of _ "main_segments g"] wf unfolding sit_wf_def by (meson le_less_trans)
  then have d: "dirty_sentries (sit_i st') = card (vbits (dirty_sentries_bitmap (sit_i st')) (main_segments g))"
    using wf step s by (simp add: sit_wf_def sit_step_def card_vbits_set fun_upd_idem)
  show ?thesis using wf se(1) step d w c unfolding sit_wf_def by (simp add: sit_step_def)
qed

subsection \<open>Setting and clearing a block\<close>

text \<open>The block address of the main area behind segment \<open>s\<close> and offset \<open>off\<close>, when it is a real block.\<close>

definition real_block :: "disk_fmt \<Rightarrow> f2fs_geo \<Rightarrow> nat \<Rightarrow> nat \<Rightarrow> bool" where
  "real_block d g s off \<longleftrightarrow> geo_ok g \<and> s < main_segments g \<and> off < blocks_per_seg g
     \<and> is_valid_blkaddr d (main_block g s off)"

lemma real_block_addr:
  assumes "real_block d g s off"
  shows "GET_SEGNO d g (main_block g s off) = s" "GET_BLKOFF_FROM_SEG0 g (main_block g s off) = off"
proof -
  have b: "geo_ok g" "s < main_segments g" "off < blocks_per_seg g" "is_valid_blkaddr d (main_block g s off)"
    using assms by (simp_all add: real_block_def)
  have "segment_count g \<le> segment_count g * blocks_per_seg g" using b(3) by simp
  with b(1,2) have "start_segno g + s < 4294967296" unfolding geo_ok_def by linarith
  then show "GET_SEGNO d g (main_block g s off) = s"
    using b by (simp add: GET_SEGNO_def GET_L2R_SEGNO_def segno_of_main_block)
  show "GET_BLKOFF_FROM_SEG0 g (main_block g s off) = off" using b by (simp add: segno_of_main_block)
qed

definition entry_set :: "bool \<Rightarrow> nat \<Rightarrow> nat \<Rightarrow> seg_entry \<Rightarrow> seg_entry" where
  "entry_set disc off mt se = se\<lparr>valid_blocks := valid_blocks se + 1, se_mtime := mt,
     cur_valid_map := (cur_valid_map se)(off := True),
     discard_map := (if disc then (discard_map se)(off := True) else discard_map se),
     ckpt_valid_blocks := (if ckpt_valid_map se off then ckpt_valid_blocks se else ckpt_valid_blocks se + 1),
     ckpt_valid_map := (if IS_NODESEG (se_type se) then (ckpt_valid_map se)(off := True) else ckpt_valid_map se)\<rparr>"

definition entry_clear :: "bool \<Rightarrow> nat \<Rightarrow> nat \<Rightarrow> seg_entry \<Rightarrow> seg_entry" where
  "entry_clear disc off mt se = se\<lparr>valid_blocks := valid_blocks se - 1, se_mtime := mt,
     cur_valid_map := (cur_valid_map se)(off := False),
     discard_map := (if disc then (discard_map se)(off := False) else discard_map se),
     ckpt_valid_blocks := (if ckpt_valid_map se off then ckpt_valid_blocks se else ckpt_valid_blocks se - 1)\<rparr>"

lemma kept_map_set:
  "kept_map (entry_set disc off mt se) = (kept_map se)(off := True)"
  by (auto simp: kept_map_def entry_set_def fun_eq_iff)

lemma kept_map_clear:
  "kept_map (entry_clear disc off mt se) = (kept_map se)(off := ckpt_valid_map se off)"
  by (auto simp: kept_map_def entry_clear_def fun_eq_iff)

lemma entry_set_wf:
  assumes "seg_wf g se" and "off < blocks_per_seg g" and "\<not> cur_valid_map se off"
  shows "seg_wf g (entry_set disc off mt se)"
proof -
  have "card (vbits ((kept_map se)(off := True)) (blocks_per_seg g)) =
    (if ckpt_valid_map se off then ckpt_valid_blocks se else ckpt_valid_blocks se + 1)"
    using assms by (auto simp: seg_wf_def card_vbits_set kept_map_def fun_upd_idem)
  then show ?thesis
    using assms unfolding seg_wf_def kept_map_set by (simp add: entry_set_def card_vbits_set)
qed

lemma entry_clear_wf:
  assumes "seg_wf g se" and "off < blocks_per_seg g" and "cur_valid_map se off"
  shows "seg_wf g (entry_clear disc off mt se)" "0 < valid_blocks se" "\<not> ckpt_valid_map se off \<Longrightarrow> 0 < ckpt_valid_blocks se"
proof -
  have k: "kept_map se off" using assms(3) by (simp add: kept_map_def)
  have kc: "card (vbits (kept_map se) (blocks_per_seg g)) = Suc (card (vbits ((kept_map se)(off := False)) (blocks_per_seg g)))"
    using assms(2) k by (rule card_vbits_clear)
  have cc: "card (vbits (cur_valid_map se) (blocks_per_seg g)) = Suc (card (vbits ((cur_valid_map se)(off := False)) (blocks_per_seg g)))"
    using assms(2,3) by (rule card_vbits_clear)
  have c: "card (vbits ((kept_map se)(off := ckpt_valid_map se off)) (blocks_per_seg g)) =
    (if ckpt_valid_map se off then ckpt_valid_blocks se else ckpt_valid_blocks se - 1)"
    using assms k kc by (auto simp: seg_wf_def fun_upd_idem)
  show "seg_wf g (entry_clear disc off mt se)"
    using assms cc c unfolding seg_wf_def kept_map_clear by (simp add: entry_clear_def)
  show "0 < valid_blocks se" using assms cc by (simp add: seg_wf_def)
  show "0 < ckpt_valid_blocks se" if "\<not> ckpt_valid_map se off"
    using assms kc by (simp add: seg_wf_def)
qed

lemma mark_sit_frame [simp]:
  "get_seg_entry (snd (mark_sit_entry_dirty st s)) = get_seg_entry st"
  "free_i (snd (mark_sit_entry_dirty st s)) = free_i st" "dirty_i (snd (mark_sit_entry_dirty st s)) = dirty_i st"
  "curseg_array (snd (mark_sit_entry_dirty st s)) = curseg_array st" "sum_pages (snd (mark_sit_entry_dirty st s)) = sum_pages st"
  "sm_nsbi (snd (mark_sit_entry_dirty st s)) = sm_nsbi st" "need_fsck (snd (mark_sit_entry_dirty st s)) = need_fsck st"
  by (simp_all add: mark_sit_entry_dirty_def Let_def fun_eq_iff get_seg_entry_def)

text \<open>States that differ in the modification time and the discard count only.\<close>

definition sit_same :: "sm_state \<Rightarrow> sm_state \<Rightarrow> bool" where
  "sit_same st st1 \<longleftrightarrow> (\<exists>mt db. st1 = st\<lparr>sit_i := (sit_i st)\<lparr>max_mtime := mt\<rparr>, discard_blks := db\<rparr>)"

lemma sit_same_mtime: "sit_same st (if b then st\<lparr>sit_i := (sit_i st)\<lparr>max_mtime := mt\<rparr>\<rparr> else st)"
  unfolding sit_same_def
  by (rule exI [of _ "if b then mt else max_mtime (sit_i st)"], rule exI [of _ "discard_blks st"]) simp

lemma sit_same_discard: "sit_same st0 st \<Longrightarrow> sit_same st0 (if b then st\<lparr>discard_blks := db\<rparr> else st)"
  unfolding sit_same_def by (elim exE, rule_tac x = mt in exI, rule_tac x = "if b then db else dba" in exI) simp

lemma sit_commit_step:
  assumes "sit_same st st1"
  shows "sit_step g st s se x (sit_commit g st1 s se x)"
  using assms unfolding sit_same_def sit_step_def sit_commit_def mark_sit_entry_dirty_def set_seg_entry_def
  by (auto simp: Let_def GET_SEC_FROM_SEG_def fun_eq_iff get_seg_entry_def fun_upd_idem)

lemma no_vblocks_bug: "0 \<le> x \<Longrightarrow> x \<le> int b \<Longrightarrow> b \<le> 512 \<Longrightarrow> \<not> (drop_bit 16 x \<noteq> 0 \<or> x > int b)"
  by (simp add: drop_bit_eq_div)

lemma sit_set_block_new:
  assumes "\<not> cur_valid_map se off" and "ckpt_valid_blocks se \<le> 512"
  shows "sit_set_block disc off 1 st se =
    (1, if disc \<and> \<not> discard_map se off then st\<lparr>discard_blks := u32_plus (discard_blks st) (- 1)\<rparr> else st,
     se\<lparr>cur_valid_map := (cur_valid_map se)(off := True),
        discard_map := (if disc then (discard_map se)(off := True) else discard_map se),
        ckpt_valid_blocks := (if IS_NODESEG (se_type se) \<and> \<not> ckpt_valid_map se off then ckpt_valid_blocks se + 1 else ckpt_valid_blocks se),
        ckpt_valid_map := (if IS_NODESEG (se_type se) then (ckpt_valid_map se)(off := True) else ckpt_valid_map se)\<rparr>)"
  using assms by (simp add: sit_set_block_def Let_def nat_add_distrib)

lemma sit_clear_block_old:
  assumes "cur_valid_map se off"
  shows "sit_clear_block disc off (- 1) st se =
    (- 1, if disc \<and> discard_map se off then st\<lparr>discard_blks := u32_plus (discard_blks st) 1\<rparr> else st,
     se\<lparr>cur_valid_map := (cur_valid_map se)(off := False),
        discard_map := (if disc then (discard_map se)(off := False) else discard_map se)\<rparr>)"
  using assms by (simp add: sit_clear_block_def Let_def)

lemma seg_counts_le:
  assumes "sit_wf g st" and "s < main_segments g"
  shows "valid_blocks (get_seg_entry st s) \<le> blocks_per_seg g" "blocks_per_seg g \<le> 512"
    "ckpt_valid_blocks (get_seg_entry st s) \<le> 512"
  using assms card_vbits_le [of _ "blocks_per_seg g"] unfolding sit_wf_def seg_wf_def by (auto intro: le_trans)

lemma update_sit_set_step:
  assumes b: "real_block d g s off" and wf: "sit_wf g st" and c: "\<not> cur_valid_map (get_seg_entry st s) off"
  shows "sit_step g st s (entry_set disc off (get_mtime now st False) (get_seg_entry st s)) 1
    (update_sit_entry d g disc now st (main_block g s off) 1)"
proof -
  let ?se = "get_seg_entry st s"
  let ?mt = "get_mtime now st False"
  let ?se1 = "?se\<lparr>valid_blocks := valid_blocks ?se + 1, se_mtime := ?mt\<rparr>"
  have s: "s < main_segments g" "off < blocks_per_seg g" using b by (simp_all add: real_block_def)
  note L = seg_counts_le [OF wf s(1)]
  have v: "valid_blocks ?se < blocks_per_seg g" using wf s c by (simp add: sit_wf_def seg_wf_def card_vbits_less)
  then have v': "bits10 (int (valid_blocks ?se) + 1) = valid_blocks ?se + 1" using L by (simp add: nat_add_distrib)
  have k: "bits10 (int (ckpt_valid_blocks ?se) + 1) = ckpt_valid_blocks ?se + 1" using L by (simp add: nat_add_distrib)
  have n: "f2fs_bug_on (drop_bit 16 (int (valid_blocks ?se) + 1) \<noteq> 0 \<or> int (valid_blocks ?se) + 1 > int (blocks_per_seg g)) st = st"
    using no_vblocks_bug [of "int (valid_blocks ?se) + 1" "blocks_per_seg g"] v L by (simp add: f2fs_bug_on_def)
  define st1 where "st1 = (if ?mt > max_mtime (sit_i st) then st\<lparr>sit_i := (sit_i st)\<lparr>max_mtime := ?mt\<rparr>\<rparr> else st)"
  define st2 where "st2 = (if disc \<and> \<not> discard_map ?se off then st1\<lparr>discard_blks := u32_plus (discard_blks st1) (- 1)\<rparr> else st1)"
  have "sit_same st st2" unfolding st2_def st1_def by (intro sit_same_discard sit_same_mtime)
  moreover have "update_sit_entry d g disc now st (main_block g s off) 1 = sit_commit g st2 s (entry_set disc off ?mt ?se) 1"
    unfolding update_sit_entry_def Let_def real_block_addr [OF b] n v' st1_def [symmetric]
    using sit_set_block_new [of ?se1 off disc st1] c L k
    by (auto simp: st2_def entry_set_def intro!: arg_cong [where f = "\<lambda>se. sit_commit g st2 s se 1"])
  ultimately show ?thesis by (simp add: sit_commit_step)
qed

lemma update_sit_clear_step:
  assumes b: "real_block d g s off" and wf: "sit_wf g st" and c: "cur_valid_map (get_seg_entry st s) off"
  shows "sit_step g st s (entry_clear disc off (get_mtime now st False) (get_seg_entry st s)) (- 1)
    (update_sit_entry d g disc now st (main_block g s off) (- 1))"
proof -
  let ?se = "get_seg_entry st s"
  let ?mt = "get_mtime now st False"
  let ?se1 = "?se\<lparr>valid_blocks := valid_blocks ?se - 1, se_mtime := ?mt\<rparr>"
  have s: "s < main_segments g" "off < blocks_per_seg g" using b by (simp_all add: real_block_def)
  note L = seg_counts_le [OF wf s(1)]
  have w: "seg_wf g ?se" using wf s by (simp add: sit_wf_def)
  note P = entry_clear_wf(2,3) [OF w s(2) c]
  then have v': "bits10 (int (valid_blocks ?se) + - 1) = valid_blocks ?se - 1" using L by (simp add: nat_diff_distrib)
  have k: "bits10 (int (ckpt_valid_blocks ?se) - 1) = ckpt_valid_blocks ?se - 1" if "\<not> ckpt_valid_map ?se off"
    using L P(2) [OF that] by (simp add: nat_diff_distrib)
  have n: "f2fs_bug_on (drop_bit 16 (int (valid_blocks ?se) + - 1) \<noteq> 0 \<or> int (valid_blocks ?se) + - 1 > int (blocks_per_seg g)) st = st"
    using no_vblocks_bug [of "int (valid_blocks ?se) - 1" "blocks_per_seg g"] P(1) L by (simp add: f2fs_bug_on_def)
  define st1 where "st1 = (if ?mt > max_mtime (sit_i st) then st\<lparr>sit_i := (sit_i st)\<lparr>max_mtime := ?mt\<rparr>\<rparr> else st)"
  define st2 where "st2 = (if disc \<and> discard_map ?se off then st1\<lparr>discard_blks := u32_plus (discard_blks st1) 1\<rparr> else st1)"
  have "sit_same st st2" unfolding st2_def st1_def by (intro sit_same_discard sit_same_mtime)
  moreover have "update_sit_entry d g disc now st (main_block g s off) (- 1) = sit_commit g st2 s (entry_clear disc off ?mt ?se) (- 1)"
    unfolding update_sit_entry_def Let_def real_block_addr [OF b] n v' st1_def [symmetric]
    using sit_clear_block_old [of ?se1 off disc st1] c L k
    by (auto simp: st2_def entry_clear_def intro!: arg_cong [where f = "\<lambda>se. sit_commit g st2 s se (- 1)"])
  ultimately show ?thesis by (simp add: sit_commit_step)
qed

subsection \<open>The dirty lists\<close>

text \<open>
  The counters count the bits, and a segment is on the list of its type exactly when it is on
  the list of all dirty segments.
\<close>

definition dirty_wf :: "f2fs_geo \<Rightarrow> sm_state \<Rightarrow> bool" where
  "dirty_wf g st \<longleftrightarrow>
     (\<forall>t < 8. nr_dirty (dirty_i st) t = int (card (vbits (dirty_segmap (dirty_i st) t) (main_segments g))))
     \<and> (\<forall>s < main_segments g. \<forall>t < 6.
          dirty_segmap (dirty_i st) t s \<longleftrightarrow> dirty_segmap (dirty_i st) DIRTY s \<and> se_type (get_seg_entry st s) = t)"

definition dirty_counts :: "f2fs_geo \<Rightarrow> dirty_seglist_info \<Rightarrow> bool" where
  "dirty_counts g di \<longleftrightarrow> (\<forall>t < 8. nr_dirty di t = int (card (vbits (dirty_segmap di t) (main_segments g))))"

lemma set_dirty_bit_frame [simp]:
  "sit_i (set_dirty_bit st t s) = sit_i st" "free_i (set_dirty_bit st t s) = free_i st"
  "curseg_array (set_dirty_bit st t s) = curseg_array st" "sum_pages (set_dirty_bit st t s) = sum_pages st"
  "sm_nsbi (set_dirty_bit st t s) = sm_nsbi st" "need_fsck (set_dirty_bit st t s) = need_fsck st"
  "get_seg_entry (set_dirty_bit st t s) = get_seg_entry st" "victim_secmap (dirty_i (set_dirty_bit st t s)) = victim_secmap (dirty_i st)"
  "dirty_segmap (dirty_i (set_dirty_bit st t s)) u i = (u = t \<and> i = s \<or> dirty_segmap (dirty_i st) u i)"
  by (auto simp: set_dirty_bit_def Let_def get_seg_entry_def fun_eq_iff)

lemma clear_dirty_bit_frame [simp]:
  "sit_i (clear_dirty_bit st t s) = sit_i st" "free_i (clear_dirty_bit st t s) = free_i st"
  "curseg_array (clear_dirty_bit st t s) = curseg_array st" "sum_pages (clear_dirty_bit st t s) = sum_pages st"
  "sm_nsbi (clear_dirty_bit st t s) = sm_nsbi st" "need_fsck (clear_dirty_bit st t s) = need_fsck st"
  "get_seg_entry (clear_dirty_bit st t s) = get_seg_entry st" "victim_secmap (dirty_i (clear_dirty_bit st t s)) = victim_secmap (dirty_i st)"
  "dirty_segmap (dirty_i (clear_dirty_bit st t s)) u i = (\<not> (u = t \<and> i = s) \<and> dirty_segmap (dirty_i st) u i)"
  by (auto simp: clear_dirty_bit_def Let_def get_seg_entry_def fun_eq_iff)

lemma set_dirty_bit_counts: "s < main_segments g \<Longrightarrow> dirty_counts g (dirty_i st) \<Longrightarrow> dirty_counts g (dirty_i (set_dirty_bit st t s))"
  by (auto simp: dirty_counts_def set_dirty_bit_def Let_def card_vbits_set)

lemma clear_dirty_bit_counts:
  assumes "s < main_segments g" and "dirty_counts g (dirty_i st)"
  shows "dirty_counts g (dirty_i (clear_dirty_bit st t s))"
proof (cases "dirty_segmap (dirty_i st) t s")
  case True
  with assms card_vbits_clear [of s "main_segments g" "dirty_segmap (dirty_i st) t"] show ?thesis
    by (auto simp: dirty_counts_def clear_dirty_bit_def Let_def)
qed (use assms in \<open>simp add: clear_dirty_bit_def Let_def\<close>)

lemma victim_secmap_frame [simp]:
  "dirty_counts g (di\<lparr>victim_secmap := v\<rparr>) = dirty_counts g di"
  by (simp add: dirty_counts_def)

lemma dirty_wf_iff:
  "dirty_wf g st \<longleftrightarrow> dirty_counts g (dirty_i st) \<and> (\<forall>s < main_segments g. \<forall>t < 6.
     dirty_segmap (dirty_i st) t s \<longleftrightarrow> dirty_segmap (dirty_i st) DIRTY s \<and> se_type (get_seg_entry st s) = t)"
  by (simp add: dirty_wf_def dirty_counts_def)

text \<open>What the two list operations do to a segment that is not a log.\<close>

lemma locate_in_PRE:
  assumes "dirty_wf g st" and "s < main_segments g" and "\<not> IS_CURSEG st s"
  shows "dirty_wf g (locate_dirty_segment_in st s PRE)"
    and "dirty_segmap (dirty_i (locate_dirty_segment_in st s PRE)) u i = (u = PRE \<and> i = s \<or> dirty_segmap (dirty_i st) u i)"
    and "sit_i (locate_dirty_segment_in st s PRE) = sit_i st"
  using assms by (auto simp: locate_dirty_segment_in_def dirty_wf_iff set_dirty_bit_counts)

lemma locate_in_DIRTY:
  assumes wf: "dirty_wf g st" and s: "s < main_segments g" "\<not> IS_CURSEG st s" "se_type (get_seg_entry st s) < 6"
  defines "st' \<equiv> locate_dirty_segment_in st s DIRTY"
  shows "dirty_wf g st'" "dirty_segmap (dirty_i st') DIRTY s" "dirty_segmap (dirty_i st') PRE = dirty_segmap (dirty_i st) PRE"
    "need_fsck st' = need_fsck st" "i \<noteq> s \<Longrightarrow> dirty_segmap (dirty_i st') u i = dirty_segmap (dirty_i st) u i"
proof -
  have e: "st' = set_dirty_bit (set_dirty_bit st DIRTY s) (se_type (get_seg_entry st s)) s"
    using s by (simp add: st'_def locate_dirty_segment_in_def)
  show "dirty_wf g st'" using wf s by (auto simp: e dirty_wf_iff set_dirty_bit_counts)
  show "dirty_segmap (dirty_i st') DIRTY s" "dirty_segmap (dirty_i st') PRE = dirty_segmap (dirty_i st) PRE"
    "need_fsck st' = need_fsck st" "i \<noteq> s \<Longrightarrow> dirty_segmap (dirty_i st') u i = dirty_segmap (dirty_i st) u i"
    using s by (auto simp: e fun_eq_iff)
qed

lemma remove_DIRTY:
  assumes wf: "dirty_wf g st" and s: "s < main_segments g" "se_type (get_seg_entry st s) < 6"
  defines "st' \<equiv> remove_dirty_segment g st s DIRTY"
  shows "dirty_wf g st'" "\<not> dirty_segmap (dirty_i st') DIRTY s" "dirty_segmap (dirty_i st') PRE = dirty_segmap (dirty_i st) PRE"
    "need_fsck st' = need_fsck st" "i \<noteq> s \<Longrightarrow> dirty_segmap (dirty_i st') u i = dirty_segmap (dirty_i st) u i"
    "sit_i st' = sit_i st" "free_i st' = free_i st" "curseg_array st' = curseg_array st" "sm_nsbi st' = sm_nsbi st"
    "sum_pages st' = sum_pages st" "\<not> dirty_segmap (dirty_i st') t s \<or> t = PRE \<or> 7 < t"
proof -
  let ?st2 = "clear_dirty_bit (clear_dirty_bit st DIRTY s) (se_type (get_seg_entry st s)) s"
  have e: "st' = ?st2 \<or> (\<exists>v. st' = ?st2\<lparr>dirty_i := (dirty_i ?st2)\<lparr>victim_secmap := v\<rparr>\<rparr>)"
    by (auto simp: st'_def remove_dirty_segment_def Let_def)
  have ge: "get_seg_entry (?st2\<lparr>dirty_i := di\<rparr>) = get_seg_entry st" for di
    by (simp add: get_seg_entry_def fun_eq_iff)
  show "dirty_wf g st'" using e wf s by (auto simp: dirty_wf_iff clear_dirty_bit_counts ge)
  show "\<not> dirty_segmap (dirty_i st') DIRTY s" "dirty_segmap (dirty_i st') PRE = dirty_segmap (dirty_i st) PRE"
    "need_fsck st' = need_fsck st" "i \<noteq> s \<Longrightarrow> dirty_segmap (dirty_i st') u i = dirty_segmap (dirty_i st) u i"
    "sit_i st' = sit_i st" "free_i st' = free_i st" "curseg_array st' = curseg_array st" "sm_nsbi st' = sm_nsbi st"
    "sum_pages st' = sum_pages st"
    using e s by (auto simp: fun_eq_iff)
  show "\<not> dirty_segmap (dirty_i st') t s \<or> t = PRE \<or> 7 < t"
  proof (cases "t < 6")
    case True
    then show ?thesis using e wf s by (auto simp: dirty_wf_iff)
  next
    case False
    then have "t = 6 \<or> t = 7 \<or> 7 < t" by linarith
    then show ?thesis using e by auto
  qed
qed

lemma locate_in_frame [simp]:
  "sit_i (locate_dirty_segment_in st s t) = sit_i st" "free_i (locate_dirty_segment_in st s t) = free_i st"
  "curseg_array (locate_dirty_segment_in st s t) = curseg_array st" "sm_nsbi (locate_dirty_segment_in st s t) = sm_nsbi st"
  "sum_pages (locate_dirty_segment_in st s t) = sum_pages st" "get_seg_entry (locate_dirty_segment_in st s t) = get_seg_entry st"
  by (simp_all add: locate_dirty_segment_in_def Let_def get_seg_entry_def fun_eq_iff)

lemma remove_dirty_frame [simp]:
  "sit_i (remove_dirty_segment g st s t) = sit_i st" "free_i (remove_dirty_segment g st s t) = free_i st"
  "curseg_array (remove_dirty_segment g st s t) = curseg_array st" "sm_nsbi (remove_dirty_segment g st s t) = sm_nsbi st"
  "sum_pages (remove_dirty_segment g st s t) = sum_pages st" "get_seg_entry (remove_dirty_segment g st s t) = get_seg_entry st"
  "need_fsck (remove_dirty_segment g st s t) = need_fsck st"
  by (simp_all add: remove_dirty_segment_def Let_def get_seg_entry_def fun_eq_iff)

lemma locate_dirty_frame [simp]:
  "sit_i (locate_dirty_segment g st s) = sit_i st" "free_i (locate_dirty_segment g st s) = free_i st"
  "curseg_array (locate_dirty_segment g st s) = curseg_array st" "sm_nsbi (locate_dirty_segment g st s) = sm_nsbi st"
  "sum_pages (locate_dirty_segment g st s) = sum_pages st" "get_seg_entry (locate_dirty_segment g st s) = get_seg_entry st"
  by (simp_all add: locate_dirty_segment_def Let_def)

text \<open>The place of a segment on the lists: on the dirty list when partly valid, prefree when empty.\<close>

lemma locate_dirty_wf:
  assumes wf: "dirty_wf g st" and s: "s < main_segments g" "se_type (get_seg_entry st s) < 6"
    and m: "main_segments g < NULL_SEGNO"
  shows "dirty_wf g (locate_dirty_segment g st s)" "need_fsck (locate_dirty_segment g st s) = need_fsck st"
    "i \<noteq> s \<Longrightarrow> dirty_segmap (dirty_i (locate_dirty_segment g st s)) u i = dirty_segmap (dirty_i st) u i"
    "\<not> IS_CURSEG st s \<Longrightarrow> dirty_segmap (dirty_i (locate_dirty_segment g st s)) DIRTY s
       \<longleftrightarrow> 0 < valid_blocks (get_seg_entry st s) \<and> valid_blocks (get_seg_entry st s) < blocks_per_seg g"
    "\<not> IS_CURSEG st s \<Longrightarrow> dirty_segmap (dirty_i (locate_dirty_segment g st s)) PRE s
       \<longleftrightarrow> valid_blocks (get_seg_entry st s) = 0 \<or> dirty_segmap (dirty_i st) PRE s"
    "IS_CURSEG st s \<Longrightarrow> locate_dirty_segment g st s = st"
proof -
  let ?st' = "locate_dirty_segment g st s" and ?vb = "valid_blocks (get_seg_entry st s)"
  have "dirty_wf g ?st' \<and> need_fsck ?st' = need_fsck st
    \<and> (\<forall>i u. i \<noteq> s \<longrightarrow> dirty_segmap (dirty_i ?st') u i = dirty_segmap (dirty_i st) u i)
    \<and> (\<not> IS_CURSEG st s \<longrightarrow> (dirty_segmap (dirty_i ?st') DIRTY s \<longleftrightarrow> 0 < ?vb \<and> ?vb < blocks_per_seg g)
        \<and> (dirty_segmap (dirty_i ?st') PRE s \<longleftrightarrow> ?vb = 0 \<or> dirty_segmap (dirty_i st) PRE s))"
  proof (cases "IS_CURSEG st s")
    case True
    then show ?thesis using wf by (simp add: locate_dirty_segment_def)
  next
    case False
    have n: "s \<noteq> NULL_SEGNO" using s(1) m by simp
    consider (empty) "?vb = 0" | (part) "0 < ?vb" "?vb < blocks_per_seg g" | (full) "0 < ?vb" "\<not> ?vb < blocks_per_seg g" by blast
    then show ?thesis
    proof cases
      case empty
      let ?st1 = "locate_dirty_segment_in st s PRE"
      note p = locate_in_PRE [OF wf s(1) False]
      have "se_type (get_seg_entry ?st1 s) < 6" using s(2) by simp
      note r = remove_DIRTY [OF p(1) s(1) this]
      have "need_fsck ?st1 = need_fsck st" by (simp add: locate_dirty_segment_in_def)
      then show ?thesis using False n empty r(1-5) p(2)
        by (simp add: locate_dirty_segment_def Let_def get_valid_blocks_def)
    next
      case part
      note l = locate_in_DIRTY [OF wf s(1) False s(2)]
      show ?thesis using False n part l by (simp add: locate_dirty_segment_def Let_def get_valid_blocks_def)
    next
      case full
      note r = remove_DIRTY [OF wf s]
      show ?thesis using False n full r(1-5) by (simp add: locate_dirty_segment_def Let_def get_valid_blocks_def)
    qed
  qed
  then show "dirty_wf g ?st'" "need_fsck ?st' = need_fsck st"
    "i \<noteq> s \<Longrightarrow> dirty_segmap (dirty_i ?st') u i = dirty_segmap (dirty_i st) u i"
    "\<not> IS_CURSEG st s \<Longrightarrow> dirty_segmap (dirty_i ?st') DIRTY s \<longleftrightarrow> 0 < ?vb \<and> ?vb < blocks_per_seg g"
    "\<not> IS_CURSEG st s \<Longrightarrow> dirty_segmap (dirty_i ?st') PRE s \<longleftrightarrow> ?vb = 0 \<or> dirty_segmap (dirty_i st) PRE s"
    by simp_all
  show "IS_CURSEG st s \<Longrightarrow> ?st' = st" by (simp add: locate_dirty_segment_def)
qed

subsection \<open>Properties\<close>

text \<open>The validity of blocks as a set of (segment, offset) pairs: what the table stands for.\<close>

definition valid_set :: "f2fs_geo \<Rightarrow> sm_state \<Rightarrow> (nat \<times> nat) set" where
  "valid_set g st = {(s, i). s < main_segments g \<and> i < blocks_per_seg g \<and> cur_valid_map (get_seg_entry st s) i}"

text \<open>The blocks that the last checkpoint may still refer to.\<close>

definition kept_set :: "f2fs_geo \<Rightarrow> sm_state \<Rightarrow> (nat \<times> nat) set" where
  "kept_set g st = {(s, i). s < main_segments g \<and> i < blocks_per_seg g \<and> kept_map (get_seg_entry st s) i}"

lemma update_sit_set:
  fixes disc :: bool and now :: nat
  assumes b: "real_block d g s off" and wf: "sit_wf g st" and c: "\<not> cur_valid_map (get_seg_entry st s) off"
  defines "st' \<equiv> update_sit_entry d g disc now st (main_block g s off) 1"
  shows "sit_wf g st'" "valid_set g st' = insert (s, off) (valid_set g st)" "kept_set g st' = insert (s, off) (kept_set g st)"
    "sit_step g st s (entry_set disc off (get_mtime now st False) (get_seg_entry st s)) 1 st'"
proof -
  have g: "geo_ok g" "s < main_segments g" "off < blocks_per_seg g" using b by (simp_all add: real_block_def)
  show step: "sit_step g st s (entry_set disc off (get_mtime now st False) (get_seg_entry st s)) 1 st'"
    using update_sit_set_step [OF b wf c] by (simp add: st'_def)
  have "seg_wf g (get_seg_entry st s)" using wf g by (simp add: sit_wf_def)
  then show "sit_wf g st'" using g c
    by (intro sit_step_wf [OF g(1) wf step]) (simp_all add: entry_set_wf, simp add: entry_set_def)
  have e: "get_seg_entry st' a = (if a = s then entry_set disc off (get_mtime now st False) (get_seg_entry st s) else get_seg_entry st a)" for a
    using step by (simp add: sit_step_def)
  show "valid_set g st' = insert (s, off) (valid_set g st)"
    using g by (auto simp: valid_set_def e entry_set_def split: if_splits)
  show "kept_set g st' = insert (s, off) (kept_set g st)"
    using g by (auto simp: kept_set_def e kept_map_set split: if_splits)
qed

lemma update_sit_clear:
  fixes disc :: bool and now :: nat
  assumes b: "real_block d g s off" and wf: "sit_wf g st" and c: "cur_valid_map (get_seg_entry st s) off"
  defines "st' \<equiv> update_sit_entry d g disc now st (main_block g s off) (- 1)"
  shows "sit_wf g st'" "valid_set g st' = valid_set g st - {(s, off)}"
    "kept_set g st' = (if ckpt_valid_map (get_seg_entry st s) off then kept_set g st else kept_set g st - {(s, off)})"
    "sit_step g st s (entry_clear disc off (get_mtime now st False) (get_seg_entry st s)) (- 1) st'"
proof -
  have g: "geo_ok g" "s < main_segments g" "off < blocks_per_seg g" using b by (simp_all add: real_block_def)
  show step: "sit_step g st s (entry_clear disc off (get_mtime now st False) (get_seg_entry st s)) (- 1) st'"
    using update_sit_clear_step [OF b wf c] by (simp add: st'_def)
  have w: "seg_wf g (get_seg_entry st s)" using wf g by (simp add: sit_wf_def)
  have k: "kept_map (get_seg_entry st s) off" using c by (simp add: kept_map_def)
  show "sit_wf g st'" using g c entry_clear_wf [OF w g(3) c]
    by (intro sit_step_wf [OF g(1) wf step]) (simp_all, simp add: entry_clear_def)
  have e: "get_seg_entry st' a = (if a = s then entry_clear disc off (get_mtime now st False) (get_seg_entry st s) else get_seg_entry st a)" for a
    using step by (simp add: sit_step_def)
  show "valid_set g st' = valid_set g st - {(s, off)}"
    using g by (auto simp: valid_set_def e entry_clear_def split: if_splits)
  show "kept_set g st' = (if ckpt_valid_map (get_seg_entry st s) off then kept_set g st else kept_set g st - {(s, off)})"
    using g k by (auto simp: kept_set_def e kept_map_clear split: if_splits)
qed

lemma sit_wf_cong:
  assumes "sit_i st' = sit_i st"
  shows "sit_wf g st' = sit_wf g st" "valid_set g st' = valid_set g st" "kept_set g st' = kept_set g st"
  using assms by (simp_all add: sit_wf_def valid_set_def kept_set_def get_seg_entry_def)

text \<open>The types of segments do not change when a block does.\<close>

lemma sit_step_dirty_wf:
  assumes "sit_step g st s se x st'" and "se_type se = se_type (get_seg_entry st s)"
  shows "dirty_wf g st' = dirty_wf g st"
proof -
  have "se_type (get_seg_entry st' a) = se_type (get_seg_entry st a)" for a
    using assms by (simp add: sit_step_def)
  moreover have "dirty_i st' = dirty_i st" using assms(1) by (simp add: sit_step_def)
  ultimately show ?thesis by (simp add: dirty_wf_def)
qed

text \<open>
  C34. Invalidating a valid block removes exactly that block from the set of valid blocks, keeps
  every counter of the segment table and of the dirty lists correct, raises no error, and puts
  the segment where it belongs: prefree once it is empty, dirty while some blocks are valid.
\<close>

theorem f2fs_invalidate_blocks_correct:
  assumes b: "real_block d g s off" and wf: "sit_wf g st" "dirty_wf g st" and c: "(s, off) \<in> valid_set g st"
  shows "\<exists>st'. f2fs_invalidate_blocks d g disc now st (main_block g s off) = Inr st'
    \<and> valid_set g st' = valid_set g st - {(s, off)} \<and> sit_wf g st' \<and> dirty_wf g st' \<and> need_fsck st' = need_fsck st
    \<and> (\<not> IS_CURSEG st s \<longrightarrow>
         (dirty_segmap (dirty_i st') DIRTY s \<longleftrightarrow> 0 < card {i. (s, i) \<in> valid_set g st'})
         \<and> (card {i. (s, i) \<in> valid_set g st'} = 0 \<longrightarrow> dirty_segmap (dirty_i st') PRE s))"
proof -
  let ?st1 = "update_sit_entry d g disc now st (main_block g s off) (- 1)"
  let ?st' = "locate_dirty_segment g ?st1 s"
  have g: "s < main_segments g" "off < blocks_per_seg g" "is_valid_blkaddr d (main_block g s off)"
    using b by (simp_all add: real_block_def)
  have "cur_valid_map (get_seg_entry st s) off" using c by (simp add: valid_set_def)
  note u = update_sit_clear [OF b wf(1) this, of disc now]
  have dw: "dirty_wf g ?st1" using sit_step_dirty_wf [OF u(4)] wf(2) by (simp add: entry_clear_def)
  have t: "seg_wf g (get_seg_entry ?st1 s)" "main_segments g < NULL_SEGNO" using u(1) g(1) by (simp_all add: sit_wf_def)
  then have "se_type (get_seg_entry ?st1 s) < 6" by (simp add: seg_wf_def)
  note l = locate_dirty_wf [OF dw g(1) this t(2)]
  have v: "valid_set g ?st' = valid_set g st - {(s, off)}" "sit_wf g ?st'"
    using u(1,2) sit_wf_cong [of ?st' ?st1] by simp_all
  have f: "IS_CURSEG ?st1 s = IS_CURSEG st s" "need_fsck ?st1 = need_fsck st"
    using u(4) by (simp_all add: sit_step_def IS_CURSEG_def CURSEG_I_def)
  have cnt: "valid_blocks (get_seg_entry ?st1 s) = card {i. (s, i) \<in> valid_set g ?st'}"
    using t(1) g(1) sit_wf_cong(2) [of ?st' ?st1] by (simp add: seg_wf_def valid_set_def vbits_def)
  have "{i. (s, i) \<in> valid_set g ?st'} \<subseteq> {..<blocks_per_seg g} - {off}" using v(1) by (auto simp: valid_set_def)
  then have "card {i. (s, i) \<in> valid_set g ?st'} \<le> card ({..<blocks_per_seg g} - {off})"
    by (intro card_mono) simp_all
  also have "\<dots> < blocks_per_seg g" using g(2) by simp
  finally have lt: "card {i. (s, i) \<in> valid_set g ?st'} < blocks_per_seg g" .
  have D: "dirty_segmap (dirty_i ?st') DIRTY s \<longleftrightarrow> 0 < card {i. (s, i) \<in> valid_set g ?st'}" if "\<not> IS_CURSEG st s"
    using l(4) [unfolded f cnt, OF that] lt by blast
  have P: "dirty_segmap (dirty_i ?st') PRE s" if "\<not> IS_CURSEG st s" "card {i. (s, i) \<in> valid_set g ?st'} = 0"
    using l(5) [unfolded f cnt, OF that(1)] that(2) by blast
  show ?thesis
  proof (rule exI [of _ ?st'], intro conjI impI)
    show "f2fs_invalidate_blocks d g disc now st (main_block g s off) = Inr ?st'"
      using g(3) real_block_addr(1) [OF b] by (simp add: f2fs_invalidate_blocks_def is_valid_blkaddr_def)
    show "need_fsck ?st' = need_fsck st" using l(2) f(2) by (rule trans)
  qed (fact v l(1) D P)+
qed

text \<open>The format constants as the kernel header has them, for the examples.\<close>

definition fmt0 :: disk_fmt where
  "fmt0 = \<lparr>NULL_ADDR = 0, NEW_ADDR = 4294967295, SIT_ENTRY_PER_BLOCK = 55, SIT_VBLOCKS_SHIFT = 10,
     GET_SIT_VBLOCKS = (\<lambda>v. v mod 1024), GET_SIT_TYPE = (\<lambda>v. v div 1024)\<rparr>"

lemma sm_example_sit: "sit_wf geo10 sm_example" "dirty_wf geo10 sm_example" "valid_set geo10 sm_example = {(3, 0)}"
proof -
  have e: "vbits (\<lambda>i. i = 0) 2 = {0}" "vbits (\<lambda>_. False) n = {}" for n by (auto simp: vbits_def)
  have w: "seg_wf geo10 (seg_with 1 1 (\<lambda>i. i = 0))" "a - 4 < 6 \<Longrightarrow> seg_wf geo10 (seg_with (a - 4) 0 (\<lambda>_. False))" for a
    by (simp_all add: seg_wf_def seg_with_def kept_map_def e)
  have v: "valid_blocks (get_seg_entry sm_example a) = (if a = 3 then 1 else 0)" for a
    by (simp add: seg_with_def)
  have "(\<Sum>a < 10. valid_blocks (get_seg_entry sm_example a)) = (1 :: nat)" unfolding v by simp
  moreover have "dirty_sentries (sit_i sm_example) = 0" "dirty_sentries_bitmap (sit_i sm_example) = (\<lambda>_. False)"
    "written_valid_blocks (sit_i sm_example) = 1"
    by (simp_all add: sm_example_def)
  ultimately show "sit_wf geo10 sm_example" using w by (simp add: sit_wf_def e del: One_nat_def)
  have "vbits (\<lambda>s. s = 3) 10 = {3}" "vbits (\<lambda>s. s = 2) 10 = {2}" by (auto simp: vbits_def)
  moreover have "nr_dirty (dirty_i sm_example) = (\<lambda>t. if t \<in> {1, DIRTY, PRE} then 1 else 0)" by (simp add: sm_example_def)
  ultimately show "dirty_wf geo10 sm_example" by (auto simp: dirty_wf_def e seg_with_def)
  show "valid_set geo10 sm_example = {(3, 0)}" by (auto simp: valid_set_def seg_with_def split: if_splits)
qed

lemma real_block_ex:
  assumes "s < 10" and "i < 2"
  shows "real_block fmt0 geo10 s i"
proof -
  have "main_block geo10 s i = 6 + s * 2 + i" by (simp add: main_block_def geo10_def)
  with assms have "main_block geo10 s i \<noteq> 0" "main_block geo10 s i \<noteq> 4294967295" by linarith+
  with assms show ?thesis by (simp add: real_block_def is_valid_blkaddr_def fmt0_def)
qed

theorem f2fs_invalidate_blocks_correct_witness:
  "\<exists>st'. f2fs_invalidate_blocks fmt0 geo10 True 0 sm_example (main_block geo10 3 0) = Inr st'
    \<and> valid_set geo10 st' = {} \<and> dirty_segmap (dirty_i st') PRE 3"
proof -
  have "\<not> IS_CURSEG sm_example 3" by (simp add: IS_CURSEG_iff)
  moreover have "(3, 0) \<in> valid_set geo10 sm_example" "real_block fmt0 geo10 3 0"
    by (simp_all add: sm_example_sit(3) real_block_ex)
  note f2fs_invalidate_blocks_correct [OF this(2) sm_example_sit(1,2) this(1), of True 0, unfolded sm_example_sit(3)]
  ultimately show ?thesis by auto
qed

end
