(* ===== verification/Victim.thy ===== *)
theory Victim
  imports Sit
begin

text \<open>
  Victim selection for garbage collection and for slack space recycling (SSR), from
  \<open>src/gc.c\<close> (\<open>select_gc_type\<close>, \<open>select_policy\<close>, \<open>get_max_cost\<close>, \<open>check_bg_victims\<close>, \<open>get_cb_cost\<close>,
  \<open>get_gc_cost\<close>, \<open>count_bits\<close>, \<open>get_victim_by_default\<close>). The cyclic search over the dirty list is a
  terminating recursion: it goes back to the start of the list at most once.
\<close>

subsection \<open>Policies\<close>

datatype sb_gc_mode = GC_NORMAL | GC_IDLE_CB | GC_IDLE_GREEDY | GC_URGENT

datatype gc_kind = BG_GC | FG_GC

text \<open>The values of \<open>gc_mode\<close> index \<open>last_victim\<close>.\<close>

abbreviation (input) GC_CB :: nat where "GC_CB \<equiv> 0"
abbreviation (input) GC_GREEDY :: nat where "GC_GREEDY \<equiv> 1"
abbreviation (input) ALLOC_NEXT :: nat where "ALLOC_NEXT \<equiv> 2"
abbreviation (input) UINT_MAX :: nat where "UINT_MAX \<equiv> 4294967295"

text \<open>Mount options and tunables of the super block that allocation reads.\<close>

record sb_opts =
  opt_lfs :: bool
  opt_noheap :: bool
  opt_reuse :: bool
  opt_discard :: bool
  sb_gc :: sb_gc_mode
  max_victim_search :: nat
  crc_recovery :: bool
  min_ssr_sections :: nat
  reserved_segments :: nat
  dirty_nodes :: nat
  dirty_dents :: nat
  dirty_imeta :: nat

record victim_sel_policy =
  p_alloc_mode :: alloc_mode
  p_gc_mode :: nat
  p_dirty_segmap :: bitmap
  p_max_search :: nat
  p_offset :: nat
  p_ofs_unit :: nat
  p_min_cost :: nat
  p_min_segno :: nat

definition select_gc_type :: "sb_opts \<Rightarrow> gc_kind \<Rightarrow> nat" where
  "select_gc_type opts gc_type =
     (case sb_gc opts of GC_IDLE_CB \<Rightarrow> GC_CB | GC_IDLE_GREEDY \<Rightarrow> GC_GREEDY | GC_URGENT \<Rightarrow> GC_GREEDY
      | GC_NORMAL \<Rightarrow> if gc_type = BG_GC then GC_CB else GC_GREEDY)"

definition select_policy :: "f2fs_geo \<Rightarrow> sb_opts \<Rightarrow> sm_state \<Rightarrow> gc_kind \<Rightarrow> nat \<Rightarrow> alloc_mode \<Rightarrow> victim_sel_policy" where
  "select_policy g opts st gc_type t am =
     (let gm = (if am = SSR then GC_GREEDY else select_gc_type opts gc_type);
          l = (if am = SSR then t else DIRTY);
          ms = nat (nr_dirty (dirty_i st) l mod 4294967296);
          ms' = (if gc_type \<noteq> FG_GC \<and> sb_gc opts \<noteq> GC_URGENT \<and> ms > max_victim_search opts then max_victim_search opts else ms)
      in \<lparr>p_alloc_mode = am, p_gc_mode = gm, p_dirty_segmap = dirty_segmap (dirty_i st) l, p_max_search = ms',
          p_offset = (if opt_noheap opts \<and> (t = type_no CURSEG_HOT_DATA \<or> IS_NODESEG t) then 0 else last_victim (sit_i st) gm),
          p_ofs_unit = (if am = SSR then 1 else segs_per_sec g), p_min_cost = 0, p_min_segno = NULL_SEGNO\<rparr>)"

definition get_max_cost :: "f2fs_geo \<Rightarrow> victim_sel_policy \<Rightarrow> nat" where
  "get_max_cost g p =
     (if p_alloc_mode p = SSR then blocks_per_seg g
      else if p_gc_mode p = GC_GREEDY then u32_wrap (2 * blocks_per_seg g * p_ofs_unit p)
      else if p_gc_mode p = GC_CB then UINT_MAX else 0)"

fun check_bg_loop :: "f2fs_geo \<Rightarrow> sm_state \<Rightarrow> nat list \<Rightarrow> nat \<times> sm_state" where
  "check_bg_loop g st [] = (NULL_SEGNO, st)"
| "check_bg_loop g st (secno # cs) =
     (if sec_usage_check g (sm_use st) secno then check_bg_loop g st cs
      else (GET_SEG_FROM_SEC g secno,
            st\<lparr>dirty_i := (dirty_i st)\<lparr>victim_secmap := (victim_secmap (dirty_i st))(secno := False)\<rparr>\<rparr>))"

definition check_bg_victims :: "f2fs_geo \<Rightarrow> sm_state \<Rightarrow> nat \<times> sm_state" where
  "check_bg_victims g st = check_bg_loop g st (set_bits (victim_secmap (dirty_i st)) (total_sections g))"

subsection \<open>Costs\<close>

text \<open>C division of \<open>int\<close> truncates; \<open>u\<close> and \<open>age\<close> are \<open>unsigned char\<close>.\<close>

definition trunc_div :: "int \<Rightarrow> int \<Rightarrow> int" where
  "trunc_div a b = (if a \<ge> 0 then a div b else - ((- a) div b))"

definition widen_mtime :: "nat \<Rightarrow> sit_info \<Rightarrow> sit_info" where
  "widen_mtime mt si =
     (let si = (if mt < min_mtime si then si\<lparr>min_mtime := mt\<rparr> else si)
      in if mt > max_mtime si then si\<lparr>max_mtime := mt\<rparr> else si)"

definition get_cb_cost :: "f2fs_geo \<Rightarrow> sm_state \<Rightarrow> nat \<Rightarrow> nat \<times> sm_state" where
  "get_cb_cost g st s =
     (let start = GET_SEG_FROM_SEC g (GET_SEC_FROM_SEG g s);
          mt = sum_list (map (\<lambda>i. se_mtime (get_seg_entry st (start + i))) [0..<segs_per_sec g]) div segs_per_sec g;
          vblocks = get_valid_blocks g st s True div segs_per_sec g;
          u = drop_bit (log_blocks_per_seg g) (vblocks * 100) mod 256;
          si = widen_mtime mt (sit_i st);
          age = (if max_mtime si \<noteq> min_mtime si
                 then nat ((100 - int (100 * (mt - min_mtime si) div (max_mtime si - min_mtime si))) mod 256) else 0)
      in (nat ((4294967295 - trunc_div (100 * (100 - int u) * int age) (100 + int u)) mod 4294967296), st\<lparr>sit_i := si\<rparr>))"

definition get_gc_cost :: "f2fs_geo \<Rightarrow> sm_state \<Rightarrow> nat \<Rightarrow> victim_sel_policy \<Rightarrow> nat \<times> sm_state" where
  "get_gc_cost g st s p =
     (if p_alloc_mode p = SSR then (ckpt_valid_blocks (get_seg_entry st s), st)
      else if p_gc_mode p = GC_GREEDY then (get_valid_blocks g st s True, st)
      else get_cb_cost g st s)"

function count_bits_loop :: "bitmap \<Rightarrow> nat \<Rightarrow> nat \<Rightarrow> nat \<Rightarrow> nat" where
  "count_bits_loop addr offset en acc =
     (if offset < en then count_bits_loop addr (offset + 1) en (if addr offset then acc + 1 else acc) else acc)"
  by pat_completeness auto
termination
  by (relation "measure (\<lambda>(addr, offset, en, acc). en - offset)") auto

declare count_bits_loop.simps [simp del]

definition count_bits :: "bitmap \<Rightarrow> nat \<Rightarrow> nat \<Rightarrow> nat" where
  "count_bits addr offset len = count_bits_loop addr offset (offset + len) 0"

subsection \<open>The search\<close>

definition set_last_victim :: "sm_state \<Rightarrow> nat \<Rightarrow> nat \<Rightarrow> sm_state" where
  "set_last_victim st m v = st\<lparr>sit_i := (sit_i st)\<lparr>last_victim := (last_victim (sit_i st))(m := v)\<rparr>\<rparr>"

text \<open>A candidate is weighed unless its section is in use or already chosen by background GC.\<close>

definition weigh :: "f2fs_geo \<Rightarrow> gc_kind \<Rightarrow> sm_state \<Rightarrow> nat \<Rightarrow> victim_sel_policy \<Rightarrow> victim_sel_policy \<times> sm_state" where
  "weigh g gc_type st s p =
     (let secno = GET_SEC_FROM_SEG g s
      in if sec_usage_check g (sm_use st) secno then (p, st)
         else if gc_type = BG_GC \<and> victim_secmap (dirty_i st) secno then (p, st)
         else let (cost, st) = get_gc_cost g st s p
              in (if p_min_cost p > cost then p\<lparr>p_min_segno := s, p_min_cost := cost\<rparr> else p, st))"

lemma widen_mtime_frame [simp]:
  "last_victim (widen_mtime mt si) = last_victim si" "sentries (widen_mtime mt si) = sentries si"
  by (simp_all add: widen_mtime_def Let_def)

lemma get_cb_cost_state:
  obtains mt where "snd (get_cb_cost g st s) = st\<lparr>sit_i := widen_mtime mt (sit_i st)\<rparr>"
  unfolding get_cb_cost_def Let_def snd_conv by blast

lemma get_gc_cost_state:
  obtains "snd (get_gc_cost g st s p) = st" | mt where "snd (get_gc_cost g st s p) = st\<lparr>sit_i := widen_mtime mt (sit_i st)\<rparr>"
proof (cases "p_alloc_mode p = SSR \<or> p_gc_mode p = GC_GREEDY")
  case True
  then have "snd (get_gc_cost g st s p) = st" by (auto simp: get_gc_cost_def)
  then show thesis by (rule that)
next
  case False
  then have "get_gc_cost g st s p = get_cb_cost g st s" by (simp add: get_gc_cost_def)
  moreover obtain mt where "snd (get_cb_cost g st s) = st\<lparr>sit_i := widen_mtime mt (sit_i st)\<rparr>" by (rule get_cb_cost_state)
  ultimately show thesis using that(2) [of mt] by simp
qed

lemma get_gc_cost_frame [simp]:
  "last_victim (sit_i (snd (get_gc_cost g st s p))) = last_victim (sit_i st)"
  "get_seg_entry (snd (get_gc_cost g st s p)) = get_seg_entry st"
  "dirty_i (snd (get_gc_cost g st s p)) = dirty_i st" "free_i (snd (get_gc_cost g st s p)) = free_i st"
  "curseg_array (snd (get_gc_cost g st s p)) = curseg_array st" "sm_nsbi (snd (get_gc_cost g st s p)) = sm_nsbi st"
  "sm_victim_sec (snd (get_gc_cost g st s p)) = sm_victim_sec st" "need_fsck (snd (get_gc_cost g st s p)) = need_fsck st"
  by (rule get_gc_cost_state [of g st s p]; simp add: get_seg_entry_def fun_eq_iff)+

lemma weigh_frame [simp]:
  "p_offset (fst (weigh g gc_type st s p)) = p_offset p" "p_ofs_unit (fst (weigh g gc_type st s p)) = p_ofs_unit p"
  "p_gc_mode (fst (weigh g gc_type st s p)) = p_gc_mode p" "p_dirty_segmap (fst (weigh g gc_type st s p)) = p_dirty_segmap p"
  "p_max_search (fst (weigh g gc_type st s p)) = p_max_search p" "p_alloc_mode (fst (weigh g gc_type st s p)) = p_alloc_mode p"
  "last_victim (sit_i (snd (weigh g gc_type st s p))) = last_victim (sit_i st)"
  "get_seg_entry (snd (weigh g gc_type st s p)) = get_seg_entry st"
  "dirty_i (snd (weigh g gc_type st s p)) = dirty_i st" "free_i (snd (weigh g gc_type st s p)) = free_i st"
  "curseg_array (snd (weigh g gc_type st s p)) = curseg_array st" "sm_nsbi (snd (weigh g gc_type st s p)) = sm_nsbi st"
  "sm_victim_sec (snd (weigh g gc_type st s p)) = sm_victim_sec st" "need_fsck (snd (weigh g gc_type st s p)) = need_fsck st"
  by (simp_all add: weigh_def Let_def case_prod_unfold)

function victim_loop ::
  "f2fs_geo \<Rightarrow> gc_kind \<Rightarrow> nat \<Rightarrow> nat \<Rightarrow> nat \<Rightarrow> victim_sel_policy \<Rightarrow> sm_state \<Rightarrow> victim_sel_policy \<times> sm_state" where
  "victim_loop g gc_type last_vic last_segment nsearched p st =
     (let lv = last_victim (sit_i st) (p_gc_mode p);
          s = find_next_bit (p_dirty_segmap p) last_segment (p_offset p)
      in if s \<ge> last_segment
         then (if lv \<noteq> 0
               then victim_loop g gc_type last_vic lv nsearched (p\<lparr>p_offset := 0\<rparr>) (set_last_victim st (p_gc_mode p) 0)
               else (p, st))
         else
           let ofs = (if p_ofs_unit p > 1 then s + p_ofs_unit p - s mod p_ofs_unit p else s + p_ofs_unit p);
               n = (if p_ofs_unit p > 1 then nsearched + count_bits (p_dirty_segmap p) (ofs - p_ofs_unit p) (p_ofs_unit p)
                    else nsearched + 1);
               w = weigh g gc_type st s (p\<lparr>p_offset := ofs\<rparr>)
           in if n \<ge> p_max_search p
              then (let v = (if lv = 0 \<and> s \<le> last_vic then last_vic + 1 else s + 1)
                    in (fst w, set_last_victim (snd w) (p_gc_mode p) (v mod main_segments g)))
              else victim_loop g gc_type last_vic last_segment n (fst w) (snd w))"
  by pat_completeness auto
termination
proof (relation "measures [\<lambda>(g, gc, l, last, n, p, st). if last_victim (sit_i st) (p_gc_mode p) \<noteq> 0 then 1 else 0,
    \<lambda>(g, gc, l, last, n, p, st). last - p_offset p, \<lambda>(g, gc, l, last, n, p, st). p_max_search p - n]", goal_cases)
  case (2 g gc l last n p st lv s)
  then show ?case by (simp add: set_last_victim_def)
next
  case (3 g gc l last n p st lv s ofs n' w)
  have f: "p_offset (fst w) = ofs" "p_gc_mode (fst w) = p_gc_mode p" "p_max_search (fst w) = p_max_search p"
    "last_victim (sit_i (snd w)) = last_victim (sit_i st)"
    using 3 by simp_all
  have lt: "s < last" using 3 by simp
  have "p_offset p \<le> last"
  proof (rule ccontr)
    assume "\<not> p_offset p \<le> last"
    then have "s = last" using 3(2) by (simp add: find_next_bit.simps)
    with lt show False by simp
  qed
  then have ge: "p_offset p \<le> s" using 3(2) find_next_bit_ge [of "p_offset p" last "p_dirty_segmap p"] by simp
  show ?case
  proof (cases "p_ofs_unit p = 0")
    case True
    then have "ofs = s" "n' = n + 1" "\<not> n' \<ge> p_max_search p" using 3(4,5,7) by simp_all
    then show ?thesis using f lt ge by (cases w) auto
  next
    case False
    then have m: "s mod p_ofs_unit p < p_ofs_unit p" by simp
    have "s < ofs"
    proof (cases "p_ofs_unit p > 1")
      case True
      then have "ofs = s + p_ofs_unit p - s mod p_ofs_unit p" using 3(4) by simp
      with m show ?thesis by linarith
    qed (use 3(4) False in simp)
    then show ?thesis using f lt ge by (cases w) auto
  qed
qed simp

declare victim_loop.simps [simp del]

definition got_victim :: "f2fs_geo \<Rightarrow> gc_kind \<Rightarrow> victim_sel_policy \<Rightarrow> sm_state \<Rightarrow> nat \<times> sm_state" where
  "got_victim g gc_type p st =
     (let secno = GET_SEC_FROM_SEG g (p_min_segno p);
          st = (if p_alloc_mode p = LFS
                then (if gc_type = FG_GC then st\<lparr>sm_victim_sec := secno\<rparr>
                      else st\<lparr>dirty_i := (dirty_i st)\<lparr>victim_secmap := (victim_secmap (dirty_i st))(secno := True)\<rparr>\<rparr>)
                else st)
      in (p_min_segno p div p_ofs_unit p * p_ofs_unit p, st))"

text \<open>The result is the victim, if any, and the state; \<open>res\<close> is \<open>*result\<close> on entry.\<close>

definition get_victim_by_default ::
  "f2fs_geo \<Rightarrow> sb_opts \<Rightarrow> sm_state \<Rightarrow> nat \<Rightarrow> gc_kind \<Rightarrow> nat \<Rightarrow> alloc_mode \<Rightarrow> nat option \<times> sm_state" where
  "get_victim_by_default g opts st res gc_type t am =
     (let p = select_policy g opts st gc_type t am;
          p = p\<lparr>p_min_segno := NULL_SEGNO, p_min_cost := get_max_cost g p\<rparr>
      in if res \<noteq> NULL_SEGNO
         then (if \<not> IS_NODESEG (se_type (get_seg_entry st res)) \<and> get_valid_blocks g st res False \<noteq> 0
                  \<and> \<not> sec_usage_check g (sm_use st) (GET_SEC_FROM_SEG g res)
               then Some res else None, st)
         else if p_max_search p = 0 then (None, st)
         else
           let last_vic = last_victim (sit_i st) (p_gc_mode p);
               (bg, st) = (if am = LFS \<and> gc_type = FG_GC then check_bg_victims g st else (NULL_SEGNO, st))
           in if bg \<noteq> NULL_SEGNO
              then (case got_victim g gc_type (p\<lparr>p_min_segno := bg\<rparr>) st of (v, st) \<Rightarrow> (Some v, st))
              else case victim_loop g gc_type last_vic (main_segments g) 0 p st of
                     (p, st) \<Rightarrow>
                       if p_min_segno p \<noteq> NULL_SEGNO
                       then (case got_victim g gc_type p st of (v, st) \<Rightarrow> (Some v, st))
                       else (None, st))"

subsection \<open>What the search finds\<close>

text \<open>The segments of a dirty list that SSR may reuse, and the cost it minimises.\<close>

definition ssr_cand :: "f2fs_geo \<Rightarrow> sm_state \<Rightarrow> bitmap \<Rightarrow> nat \<Rightarrow> bool" where
  "ssr_cand g st m s \<longleftrightarrow> m s \<and> \<not> sec_usage_check g (sm_use st) (GET_SEC_FROM_SEG g s)
     \<and> \<not> victim_secmap (dirty_i st) (GET_SEC_FROM_SEG g s)"

abbreviation ssr_cost :: "sm_state \<Rightarrow> nat \<Rightarrow> nat" where
  "ssr_cost st s \<equiv> ckpt_valid_blocks (get_seg_entry st s)"

text \<open>The loop changes the cursor only.\<close>

definition cursor_moved :: "sm_state \<Rightarrow> sm_state \<Rightarrow> bool" where
  "cursor_moved st st' \<longleftrightarrow> (\<exists>lv. st' = st\<lparr>sit_i := (sit_i st)\<lparr>last_victim := lv\<rparr>\<rparr>)"

lemma cursor_moved_refl: "cursor_moved st st"
  unfolding cursor_moved_def by (rule exI [of _ "last_victim (sit_i st)"]) simp

lemma cursor_moved_set: "cursor_moved st0 st \<Longrightarrow> cursor_moved st0 (set_last_victim st m v)"
  unfolding cursor_moved_def set_last_victim_def by auto

lemma cursor_movedD:
  assumes "cursor_moved st st'"
  shows "get_seg_entry st' = get_seg_entry st" "dirty_i st' = dirty_i st" "curseg_array st' = curseg_array st"
    "free_i st' = free_i st" "sm_nsbi st' = sm_nsbi st" "sum_pages st' = sum_pages st" "need_fsck st' = need_fsck st"
    "ssr_cand g st' = ssr_cand g st" "sit_wf g st' = sit_wf g st" "dirty_wf g st' = dirty_wf g st"
    "valid_set g st' = valid_set g st" "kept_set g st' = kept_set g st" "CURSEG_I st' = CURSEG_I st"
  using assms unfolding cursor_moved_def
  by (auto simp: get_seg_entry_def ssr_cand_def sm_use_def CURSEG_I_def fun_eq_iff sit_wf_def dirty_wf_def valid_set_def kept_set_def)

definition ssr_policy :: "victim_sel_policy \<Rightarrow> bool" where
  "ssr_policy p \<longleftrightarrow> p_alloc_mode p = SSR \<and> p_ofs_unit p = 1"

text \<open>The best candidate so far, below the limit \<open>mx\<close>.\<close>

definition best :: "f2fs_geo \<Rightarrow> sm_state \<Rightarrow> nat \<Rightarrow> victim_sel_policy \<Rightarrow> bool" where
  "best g st mx p \<longleftrightarrow> p_min_segno p = NULL_SEGNO \<and> p_min_cost p = mx
     \<or> p_min_segno p < main_segments g \<and> ssr_cand g st (p_dirty_segmap p) (p_min_segno p)
       \<and> p_min_cost p = ssr_cost st (p_min_segno p) \<and> p_min_cost p < mx"

lemma weigh_ssr:
  assumes "ssr_policy p" and "p_dirty_segmap p s" and "s < main_segments g" and "best g st mx p"
  shows "snd (weigh g BG_GC st s p) = st" "best g st mx (fst (weigh g BG_GC st s p))"
    "p_min_cost (fst (weigh g BG_GC st s p)) \<le> p_min_cost p"
    "ssr_cand g st (p_dirty_segmap p) s \<Longrightarrow> p_min_cost (fst (weigh g BG_GC st s p)) \<le> ssr_cost st s"
  using assms by (auto simp: weigh_def ssr_policy_def get_gc_cost_def best_def ssr_cand_def Let_def)

lemma best_offset [simp]: "best g st mx (p\<lparr>p_offset := x\<rparr>) = best g st mx p"
  by (simp add: best_def)

lemma best_cursor: "cursor_moved st st' \<Longrightarrow> best g st' mx p = best g st mx p"
  by (simp add: best_def cursor_movedD)

text \<open>
  The result of a search: it looks at the list bits \<open>A\<close> up to the end and then at the bits \<open>B\<close> from
  the start; what fits into the search limit has been compared.
\<close>

definition search_res ::
  "f2fs_geo \<Rightarrow> sm_state \<Rightarrow> nat \<Rightarrow> nat \<Rightarrow> nat set \<Rightarrow> nat set \<Rightarrow> victim_sel_policy \<Rightarrow> victim_sel_policy \<Rightarrow> sm_state \<Rightarrow> bool" where
  "search_res g st mx n A B p p' st' \<longleftrightarrow>
     best g st mx p' \<and> p_dirty_segmap p' = p_dirty_segmap p \<and> ssr_policy p' \<and> cursor_moved st st' \<and> p_min_cost p' \<le> p_min_cost p
     \<and> (n + card A \<le> p_max_search p \<longrightarrow> (\<forall>c \<in> A. ssr_cand g st (p_dirty_segmap p) c \<longrightarrow> p_min_cost p' \<le> ssr_cost st c))
     \<and> (n + card A + card B \<le> p_max_search p \<longrightarrow> (\<forall>c \<in> B. ssr_cand g st (p_dirty_segmap p) c \<longrightarrow> p_min_cost p' \<le> ssr_cost st c))"

definition bits_in :: "bitmap \<Rightarrow> nat \<Rightarrow> nat \<Rightarrow> nat set" where
  "bits_in m a b = {j. a \<le> j \<and> j < b \<and> m j}"

lemma finite_bits_in [simp]: "finite (bits_in m a b)"
  by (simp add: bits_in_def)

lemma bits_in_none: "find_next_bit m l ofs \<ge> l \<Longrightarrow> bits_in m ofs l = {}"
  using find_next_bit_hit [of ofs _ l m] by (fastforce simp: bits_in_def)

lemma bits_in_next:
  assumes "find_next_bit m l ofs = s" and "s < l"
  shows "bits_in m ofs l = insert s (bits_in m (s + 1) l)" "s \<notin> bits_in m (s + 1) l" "m s" "ofs \<le> s"
proof -
  have "ofs \<le> l"
  proof (rule ccontr)
    assume "\<not> ofs \<le> l" then show False using assms by (simp add: find_next_bit.simps)
  qed
  then show ge: "ofs \<le> s" using assms find_next_bit_ge [of ofs l m] by simp
  show "m s" using assms find_next_bit_set [of m l ofs] by simp
  then show "bits_in m ofs l = insert s (bits_in m (s + 1) l)"
    using assms ge find_next_bit_first [of ofs _ m l] by (auto simp: bits_in_def not_less_eq_eq) (metis not_less_eq_eq nat_less_le)
  show "s \<notin> bits_in m (s + 1) l" by (simp add: bits_in_def)
qed

lemma search_res_step:
  assumes r: "search_res g st mx (n + 1) A B p1 p' st'" and s: "s \<notin> A" "finite A"
    and w: "p_dirty_segmap p1 = p_dirty_segmap p" "p_max_search p1 = p_max_search p" "p_min_cost p1 \<le> p_min_cost p"
      "ssr_cand g st (p_dirty_segmap p) s \<Longrightarrow> p_min_cost p1 \<le> ssr_cost st s"
  shows "search_res g st mx n (insert s A) B p p' st'"
  using assms unfolding search_res_def by (auto intro: le_trans)

lemma search_res_stop:
  assumes "best g st mx p1" "ssr_policy p1" "finite A" "finite B" "s \<notin> A" "cursor_moved st st'"
    and w: "p_dirty_segmap p1 = p_dirty_segmap p" "p_min_cost p1 \<le> p_min_cost p"
      "ssr_cand g st (p_dirty_segmap p) s \<Longrightarrow> p_min_cost p1 \<le> ssr_cost st s"
    and "n + 1 \<ge> p_max_search p"
  shows "search_res g st mx n (insert s A) B p p1 st'"
proof -
  have "A = {}" if "n + card (insert s A) \<le> p_max_search p"
  proof -
    have "card A = 0" using that assms(10) card_insert_disjoint [OF assms(3,5)] by linarith
    then show ?thesis using assms(3) by simp
  qed
  moreover have "B = {}" if "n + card (insert s A) + card B \<le> p_max_search p"
  proof -
    have "card B = 0" using that assms(10) card_insert_disjoint [OF assms(3,5)] by linarith
    then show ?thesis using assms(4) by simp
  qed
  ultimately show ?thesis using assms unfolding search_res_def by blast
qed

lemma cursor_moved_trans: "cursor_moved a b \<Longrightarrow> cursor_moved b c \<Longrightarrow> cursor_moved a c"
  unfolding cursor_moved_def by auto

lemma search_res_wrap:
  assumes c: "cursor_moved st st1" and r: "search_res g st1 mx n B {} (p\<lparr>p_offset := 0\<rparr>) p' st'"
  shows "search_res g st mx n {} B p p' st'"
  using r cursor_moved_trans [OF c] unfolding search_res_def cursor_movedD [OF c] best_cursor [OF c] by simp

lemma victim_loop_ssr:
  assumes "ssr_policy p" and "best g st mx p" and "last_segment \<le> main_segments g"
    and "last_victim (sit_i st) (p_gc_mode p) < main_segments g"
    and "victim_loop g BG_GC lvic last_segment n p st = (p', st')"
  shows "search_res g st mx n (bits_in (p_dirty_segmap p) (p_offset p) last_segment)
    (bits_in (p_dirty_segmap p) 0 (last_victim (sit_i st) (p_gc_mode p))) p p' st'"
  using assms
proof (induction g BG_GC lvic last_segment n p st arbitrary: p' st' rule: victim_loop.induct)
  case (1 g lvic last n p st)
  let ?m = "p_dirty_segmap p"
  define lv where "lv = last_victim (sit_i st) (p_gc_mode p)"
  define s where "s = find_next_bit ?m last (p_offset p)"
  define w where "w = weigh g BG_GC st s (p\<lparr>p_offset := Suc s\<rparr>)"
  have u: "p_ofs_unit p = 1" using 1(3) by (simp add: ssr_policy_def)
  note eq = "1.prems"(5) [unfolded victim_loop.simps [of g BG_GC lvic last n p st] Let_def u, folded lv_def s_def]
  consider (wrap) "last \<le> s" "lv \<noteq> 0" | (out) "last \<le> s" "lv = 0" | (hit) "s < last" by linarith
  then show ?case
  proof cases
    case wrap
    let ?st1 = "set_last_victim st (p_gc_mode p) 0"
    have c: "cursor_moved st ?st1" by (rule cursor_moved_set [OF cursor_moved_refl])
    have e: "victim_loop g BG_GC lvic lv n (p\<lparr>p_offset := 0\<rparr>) ?st1 = (p', st')" using eq wrap by simp
    have l0: "last_victim (sit_i ?st1) (p_gc_mode p) = 0" by (simp add: set_last_victim_def)
    have "search_res g ?st1 mx n (bits_in ?m 0 lv) (bits_in ?m 0 0) (p\<lparr>p_offset := 0\<rparr>) p' st'"
      using "1.hyps"(1) [OF lv_def s_def _ _ _ _ _ _ e] wrap "1.prems" best_cursor [OF c] l0
      by (simp add: ssr_policy_def lv_def)
    moreover have "bits_in ?m (p_offset p) last = {}" using wrap by (intro bits_in_none) (simp add: s_def)
    moreover have "bits_in ?m 0 0 = {}" by (simp add: bits_in_def)
    ultimately show ?thesis using search_res_wrap [OF c] by (simp add: lv_def)
  next
    case out
    then have "p' = p" "st' = st" using eq by simp_all
    moreover have "bits_in ?m (p_offset p) last = {}" using out by (intro bits_in_none) (simp add: s_def)
    moreover have "bits_in ?m 0 0 = {}" by (simp add: bits_in_def)
    ultimately show ?thesis using "1.prems" out
      unfolding search_res_def lv_def [symmetric] by (simp add: cursor_moved_refl)
  next
    case hit
    note b = bits_in_next [OF s_def [symmetric] hit]
    have "ssr_policy (p\<lparr>p_offset := Suc s\<rparr>)" "best g st mx (p\<lparr>p_offset := Suc s\<rparr>)" "s < main_segments g"
      using "1.prems" hit by (simp_all add: ssr_policy_def)
    note W = weigh_ssr [OF this(1) _ this(3,2), folded w_def]
    have f: "p_dirty_segmap (fst w) = ?m" "p_max_search (fst w) = p_max_search p" "p_offset (fst w) = s + 1"
      "p_gc_mode (fst w) = p_gc_mode p" "ssr_policy (fst w)"
      using 1(3) by (simp_all add: w_def ssr_policy_def)
    have ue: "(if p_max_search p \<le> n + 1
        then (fst w, set_last_victim (snd w) (p_gc_mode p) ((if lv = 0 \<and> s \<le> lvic then lvic + 1 else s + 1) mod main_segments g))
        else victim_loop g BG_GC lvic last (n + 1) (fst w) (snd w)) = (p', st')"
      using eq hit by (simp add: w_def cong: if_cong split del: if_split)
    show ?thesis
    proof (cases "n + 1 \<ge> p_max_search p")
      case True
      then have e: "p' = fst w" "\<exists>v. st' = set_last_victim st (p_gc_mode p) v"
        using ue W(1) b(3) by auto
      then have "cursor_moved st st'" using cursor_moved_set [OF cursor_moved_refl] by blast
      then show ?thesis unfolding b(1) e(1)
        by (intro search_res_stop) (use W b f True in simp_all)
    next
      case False
      then have e: "victim_loop g BG_GC lvic last (n + 1) (fst w) st = (p', st')"
        using ue W(1) b(3) by simp
      have we: "w = weigh g BG_GC st s (p\<lparr>p_offset := (if p_ofs_unit p > 1 then s + p_ofs_unit p - s mod p_ofs_unit p else s + p_ofs_unit p)\<rparr>)"
        by (simp add: w_def u)
      have "search_res g (snd w) mx (n + 1) (bits_in (p_dirty_segmap (fst w)) (p_offset (fst w)) last)
          (bits_in (p_dirty_segmap (fst w)) 0 (last_victim (sit_i (snd w)) (p_gc_mode (fst w)))) (fst w) p' st'"
        by (rule "1.hyps"(2) [OF lv_def s_def _ refl _ we])
          (use hit u False W b f e "1.prems"(3,4) in simp_all)
      then have "search_res g st mx (n + 1) (bits_in ?m (s + 1) last) (bits_in ?m 0 lv) (fst w) p' st'"
        using W(1) b(3) f by (simp add: lv_def)
      then show ?thesis unfolding b(1) lv_def [symmetric]
        by (rule search_res_step) (use W b f in simp_all)
    qed
  qed
qed

subsection \<open>Properties\<close>

lemma bits_in_split: "a \<le> b \<Longrightarrow> b \<le> c \<Longrightarrow> bits_in m a c = bits_in m b c \<union> bits_in m a b \<and> bits_in m b c \<inter> bits_in m a b = {}"
  by (auto simp: bits_in_def)

lemma bits_in_vbits: "bits_in m 0 n = vbits m n"
  by (auto simp: bits_in_def vbits_def)

text \<open>The first policy of an SSR search.\<close>

lemma ssr_policy_init:
  fixes g :: f2fs_geo and opts :: sb_opts
  assumes "nr_dirty (dirty_i st) t = int n" and "n < 4294967296"
  defines "p \<equiv> select_policy g opts st BG_GC t SSR"
  shows "p_alloc_mode p = SSR" "p_ofs_unit p = 1" "p_gc_mode p = GC_GREEDY" "p_dirty_segmap p = dirty_segmap (dirty_i st) t"
    "p_max_search p = (if sb_gc opts \<noteq> GC_URGENT \<and> n > max_victim_search opts then max_victim_search opts else n)"
    "p_offset p = 0 \<or> p_offset p = last_victim (sit_i st) GC_GREEDY"
  using assms(1,2) unfolding p_def by (simp_all add: select_policy_def Let_def)

lemma got_victim_ssr: "ssr_policy p \<Longrightarrow> got_victim g BG_GC p st = (p_min_segno p, st)"
  by (simp add: got_victim_def ssr_policy_def)

lemma get_victim_ssr_spec:
  assumes wf: "dirty_wf g st" and t: "t < 6" and m: "main_segments g < NULL_SEGNO"
    and lv: "last_victim (sit_i st) GC_GREEDY < main_segments g"
  defines "cand \<equiv> \<lambda>s. s < main_segments g \<and> ssr_cand g st (dirty_segmap (dirty_i st) t) s"
  shows "\<exists>r st'. get_victim_by_default g opts st NULL_SEGNO BG_GC t SSR = (r, st') \<and> cursor_moved st st'
    \<and> (\<forall>v. r = Some v \<longrightarrow> cand v \<and> ssr_cost st v < blocks_per_seg g)
    \<and> (sb_gc opts = GC_URGENT \<or> nr_dirty (dirty_i st) t \<le> int (max_victim_search opts) \<longrightarrow>
        (case r of Some v \<Rightarrow> \<forall>c. cand c \<longrightarrow> ssr_cost st v \<le> ssr_cost st c
         | None \<Rightarrow> \<forall>c. cand c \<longrightarrow> blocks_per_seg g \<le> ssr_cost st c))"
proof -
  let ?m = "dirty_segmap (dirty_i st) t" and ?lv = "last_victim (sit_i st) GC_GREEDY"
  define n where "n = card (vbits ?m (main_segments g))"
  have nr: "nr_dirty (dirty_i st) t = int n" using wf t by (simp add: dirty_wf_def n_def)
  have nl: "n < 4294967296" using card_vbits_le [of ?m "main_segments g"] m by (simp add: n_def)
  define p where "p = (select_policy g opts st BG_GC t SSR)\<lparr>p_min_segno := NULL_SEGNO, p_min_cost := blocks_per_seg g\<rparr>"
  note P = ssr_policy_init [OF nr nl, of g opts]
  have p: "ssr_policy p" "best g st (blocks_per_seg g) p" "p_dirty_segmap p = ?m" "p_gc_mode p = GC_GREEDY"
    and off: "p_offset p = 0 \<or> p_offset p = ?lv"
    using P by (auto simp: p_def ssr_policy_def best_def)
  obtain p' st' where L: "victim_loop g BG_GC ?lv (main_segments g) 0 p st = (p', st')" by (rule prod.exhaust)
  let ?A = "bits_in ?m (p_offset p) (main_segments g)" and ?B = "bits_in ?m 0 ?lv"
  have R: "search_res g st (blocks_per_seg g) 0 ?A ?B p p' st'"
    using victim_loop_ssr [OF p(1,2) order_refl _ L] lv by (simp add: p(3,4))
  then have p': "ssr_policy p'" "best g st (blocks_per_seg g) p'" "p_dirty_segmap p' = ?m" "cursor_moved st st'"
    by (simp_all add: search_res_def p)
  have gm: "get_max_cost g (select_policy g opts st BG_GC t SSR) = blocks_per_seg g" by (simp add: get_max_cost_def P(1))
  have eq: "get_victim_by_default g opts st NULL_SEGNO BG_GC t SSR =
    (if p_max_search p = 0 then (None, st)
     else if p_min_segno p' \<noteq> NULL_SEGNO then (Some (p_min_segno p'), st') else (None, st'))"
    unfolding get_victim_by_default_def Let_def gm p_def [symmetric] p(4)
    using got_victim_ssr [OF p'(1)] L by simp
  have lim: "p_max_search p = n" if "sb_gc opts = GC_URGENT \<or> nr_dirty (dirty_i st) t \<le> int (max_victim_search opts)"
    using that nr P(5) by (auto simp: p_def)
  have cov: "p_min_cost p' \<le> ssr_cost st c" if "p_max_search p = n" "cand c" for c
  proof -
    have c: "c \<in> vbits ?m (main_segments g)" using that(2) by (simp add: cand_def ssr_cand_def vbits_def)
    note sp = bits_in_split [of 0 ?lv "main_segments g" ?m]
    show ?thesis
    proof (cases "p_offset p = 0")
      case True
      then have "?A = vbits ?m (main_segments g)" by (simp add: bits_in_vbits)
      with R that c show ?thesis by (simp add: search_res_def p(3) n_def cand_def)
    next
      case False
      with off have o: "p_offset p = ?lv" by simp
      then have "vbits ?m (main_segments g) = ?A \<union> ?B" "?A \<inter> ?B = {}" using sp lv by (simp_all add: bits_in_vbits)
      then have "card ?A + card ?B = n" by (simp add: n_def card_Un_disjoint)
      with R that c \<open>vbits ?m (main_segments g) = ?A \<union> ?B\<close> show ?thesis
        unfolding search_res_def p(3) by (auto simp: cand_def)
    qed
  qed
  have none: "\<not> cand c" if "p_max_search p = 0" "p_max_search p = n" for c
    using that by (auto simp: n_def cand_def ssr_cand_def vbits_def)
  have sel: "p_min_segno p' = NULL_SEGNO \<and> p_min_cost p' = blocks_per_seg g
    \<or> p_min_segno p' \<noteq> NULL_SEGNO \<and> cand (p_min_segno p') \<and> p_min_cost p' = ssr_cost st (p_min_segno p') \<and> p_min_cost p' < blocks_per_seg g"
    using p'(2,3) m by (auto simp: best_def cand_def)
  show ?thesis
  proof (cases "p_max_search p = 0")
    case True
    then show ?thesis using eq none lim by (intro exI [of _ None] exI [of _ st]) (simp add: cursor_moved_refl)
  next
    case False
    show ?thesis
    proof (cases "p_min_segno p' = NULL_SEGNO")
      case True
      then show ?thesis using False eq p'(4) sel cov lim by (intro exI [of _ None] exI [of _ st']) auto
    next
      case ne: False
      then show ?thesis using False eq p'(4) sel cov lim
        by (intro exI [of _ "Some (p_min_segno p')"] exI [of _ st']) auto
    qed
  qed
qed

text \<open>The cursors stay inside the main area, whatever is searched for.\<close>

lemma victim_loop_cursor:
  assumes "\<forall>m. last_victim (sit_i st) m < main_segments g"
  shows "\<forall>m. last_victim (sit_i (snd (victim_loop g gc lvic lst n p st))) m < main_segments g"
  using assms
proof (induction g gc lvic lst n p st rule: victim_loop.induct)
  case (1 g gc lvic lst n p st)
  have "0 < main_segments g" using 1(3) by (metis gr0I not_less_zero)
  then have set: "v < main_segments g \<Longrightarrow> \<forall>m. last_victim (sit_i st1) m < main_segments g \<Longrightarrow>
      \<forall>m. last_victim (sit_i (set_last_victim st1 k v)) m < main_segments g" for st1 k v
    by (simp add: set_last_victim_def)
  show ?case
    using 1 \<open>0 < main_segments g\<close>
    by (subst victim_loop.simps) (simp add: Let_def set split del: if_split cong: if_cong, auto simp: set)
qed

lemma check_bg_loop_sit: "sit_i (snd (check_bg_loop g st cs)) = sit_i st"
  by (induction cs) simp_all

lemma got_victim_sit: "sit_i (snd (got_victim g gc p st)) = sit_i st"
  by (simp add: got_victim_def Let_def)

lemma get_victim_cursor:
  assumes "\<forall>m. last_victim (sit_i st) m < main_segments g"
  shows "\<forall>m. last_victim (sit_i (snd (get_victim_by_default g opts st NULL_SEGNO BG_GC t SSR))) m < main_segments g"
  using assms victim_loop_cursor [OF assms]
  by (auto simp: get_victim_by_default_def Let_def got_victim_sit case_prod_unfold)

text \<open>
  C35. The search for a segment to reuse (SSR) always returns and changes nothing but its cursor:
  in particular the segment it returns stays on the dirty list, from which only \<open>change_curseg\<close>
  takes it later. A segment it returns is on the dirty list that was asked for, lies in a section that is
  neither a log nor a victim of the collector and has room in both its current and its checkpointed
  map. When the search limit does not cut it short (urgent collection, or no more dirty segments
  of this kind than \<open>max_victim_search\<close>) it returns a segment with the fewest
  occupied blocks, and finds none only if there is none with room.
\<close>

theorem get_victim_ssr_correct:
  assumes wf: "dirty_wf g st" and t: "t < 6" and m: "main_segments g < NULL_SEGNO"
    and lv: "last_victim (sit_i st) GC_GREEDY < main_segments g"
  defines "cand \<equiv> \<lambda>s. s < main_segments g \<and> ssr_cand g st (dirty_segmap (dirty_i st) t) s"
  shows "\<exists>r st'. get_victim_by_default g opts st NULL_SEGNO BG_GC t SSR = (r, st') \<and> cursor_moved st st' \<and> dirty_i st' = dirty_i st
    \<and> (\<forall>v. r = Some v \<longrightarrow> cand v \<and> ssr_cost st v < blocks_per_seg g)
    \<and> (sb_gc opts = GC_URGENT \<or> nr_dirty (dirty_i st) t \<le> int (max_victim_search opts) \<longrightarrow>
        (case r of Some v \<Rightarrow> \<forall>c. cand c \<longrightarrow> ssr_cost st v \<le> ssr_cost st c
         | None \<Rightarrow> \<forall>c. cand c \<longrightarrow> blocks_per_seg g \<le> ssr_cost st c))"
  using get_victim_ssr_spec [OF wf t m lv] unfolding cand_def by (fastforce simp: cursor_moved_def)

definition opts0 :: sb_opts where
  "opts0 = \<lparr>opt_lfs = False, opt_noheap = False, opt_reuse = False, opt_discard = True, sb_gc = GC_NORMAL,
     max_victim_search = 4096, crc_recovery = False, min_ssr_sections = 8, reserved_segments = 0,
     dirty_nodes = 0, dirty_dents = 0, dirty_imeta = 0\<rparr>"

lemma sm_example_victim:
  "last_victim (sit_i sm_example) = (\<lambda>_. 0)" "victim_secmap (dirty_i sm_example) = (\<lambda>_. False)"
  "sm_victim_sec sm_example = NULL_SEGNO" "nr_dirty (dirty_i sm_example) t = (if t \<in> {1, DIRTY, PRE} then 1 else 0)"
  by (simp_all add: sm_example_def)

lemma sm_example_cand: "ssr_cand geo10 sm_example (dirty_segmap (dirty_i sm_example) 1) s \<longleftrightarrow> s = 3"
  by (auto simp: ssr_cand_def sec_usage_check_def IS_CURSEC_def sm_use_def GET_SEC_FROM_SEG_def sm_example_victim)

theorem get_victim_ssr_correct_witness:
  "fst (get_victim_by_default geo10 opts0 sm_example NULL_SEGNO BG_GC 1 SSR) = Some 3"
proof -
  have c: "ssr_cost sm_example 3 < blocks_per_seg geo10" by (simp add: seg_with_def)
  obtain r st' where r: "get_victim_by_default geo10 opts0 sm_example NULL_SEGNO BG_GC 1 SSR = (r, st')"
    "\<forall>v. r = Some v \<longrightarrow> v = 3" "r = None \<longrightarrow> blocks_per_seg geo10 \<le> ssr_cost sm_example 3"
    using get_victim_ssr_correct [where g = geo10 and st = sm_example and t = 1 and opts = opts0, OF sm_example_sit(2)]
    unfolding sm_example_cand by (auto simp: sm_example_victim opts0_def split: option.splits)
  then have "r = Some 3" using c by (cases r) auto
  with r(1) show ?thesis by simp
qed

end
