(* ===== verification/Rev_Bits.thy ===== *)
theory Rev_Bits
  imports Bytes
begin

text \<open>
  Searching f2fs bitmaps word by word, from \<open>src/segment.c\<close> (\<open>__reverse_ulong\<close>, \<open>__reverse_ffs\<close>,
  \<open>__find_rev_next_bit\<close>, \<open>__find_rev_next_zero_bit\<close>): f2fs numbers the bits of a byte from the most
  significant one. \<open>BITS_PER_LONG\<close> is 64; a map is an array of bytes.
\<close>

subsection \<open>Operations\<close>

text \<open>The eight bytes at \<open>p\<close> as a big-endian number: the loop of \<open>__reverse_ulong\<close>.\<close>

fun rev_ulong_loop :: "page \<Rightarrow> nat \<Rightarrow> nat \<Rightarrow> u64 \<Rightarrow> u64" where
  "rev_ulong_loop str idx 0 tmp = tmp"
| "rev_ulong_loop str idx (Suc n) tmp =
     rev_ulong_loop str (idx + 1) n (tmp OR push_bit (8 * n) (ucast (str idx)))"

definition reverse_ulong :: "page \<Rightarrow> u64" where
  "reverse_ulong str = rev_ulong_loop str 0 8 0"

definition ffs_step :: "u64 \<Rightarrow> nat \<Rightarrow> u64 \<times> nat \<Rightarrow> u64 \<times> nat" where
  "ffs_step msk k s = (if fst s AND msk = 0 then (fst s, snd s + k) else (drop_bit k (fst s), snd s))"

definition reverse_ffs :: "u64 \<Rightarrow> nat" where
  "reverse_ffs w =
     (let s = ffs_step 0xffffffff00000000 32 (w, 0);
          s = ffs_step 0xffff0000 16 s;
          s = ffs_step 0xff00 8 s;
          s = ffs_step 0xf0 4 s;
          s = ffs_step 0xc 2 s
      in if fst s AND 0x2 = 0 then snd s + 1 else snd s)"

definition reverse_ffz :: "u64 \<Rightarrow> nat" where
  "reverse_ffz x = reverse_ffs (NOT x)"

definition ulong_bytes :: "page \<Rightarrow> nat \<Rightarrow> page" where
  "ulong_bytes addr k = (\<lambda>i. addr (8 * k + i))"

text \<open>A word of the map, cut to the range that is searched.\<close>

definition rev_word :: "page \<Rightarrow> nat \<Rightarrow> nat \<Rightarrow> u64" where
  "rev_word p sz offset =
     (let tmp = reverse_ulong p AND drop_bit offset (- 1)
      in if sz < 64 then tmp AND push_bit (64 - sz) (- 1) else tmp)"

definition rev_zero_word :: "page \<Rightarrow> nat \<Rightarrow> nat \<Rightarrow> u64" where
  "rev_zero_word p sz offset =
     (let tmp = (if offset \<noteq> 0 then reverse_ulong p OR push_bit (64 - offset) (- 1) else reverse_ulong p)
      in if sz < 64 then tmp OR drop_bit sz (- 1) else tmp)"

function rev_next_loop :: "page \<Rightarrow> nat \<Rightarrow> nat \<Rightarrow> nat \<Rightarrow> nat \<Rightarrow> nat" where
  "rev_next_loop addr k sz offset result =
     (let p = ulong_bytes addr k;
          tmp = rev_word p sz offset
      in if \<not> (\<forall>i < 8. p i = 0) \<and> tmp \<noteq> 0 then result - sz + reverse_ffs tmp
         else if sz \<le> 64 then result
         else rev_next_loop addr (k + 1) (sz - 64) 0 result)"
  by pat_completeness auto
termination
  by (relation "measure (\<lambda>(addr, k, sz, offset, result). sz)") auto

definition find_rev_next_bit :: "page \<Rightarrow> nat \<Rightarrow> nat \<Rightarrow> nat" where
  "find_rev_next_bit addr sz offset =
     (if offset \<ge> sz then sz
      else rev_next_loop addr (offset div 64) (sz - 64 * (offset div 64)) (offset mod 64) sz)"

function rev_next_zero_loop :: "page \<Rightarrow> nat \<Rightarrow> nat \<Rightarrow> nat \<Rightarrow> nat \<Rightarrow> nat" where
  "rev_next_zero_loop addr k sz offset result =
     (let p = ulong_bytes addr k;
          tmp = rev_zero_word p sz offset
      in if \<not> (\<forall>i < 8. p i = - 1) \<and> tmp \<noteq> - 1 then result - sz + reverse_ffz tmp
         else if sz \<le> 64 then result
         else rev_next_zero_loop addr (k + 1) (sz - 64) 0 result)"
  by pat_completeness auto
termination
  by (relation "measure (\<lambda>(addr, k, sz, offset, result). sz)") auto

definition find_rev_next_zero_bit :: "page \<Rightarrow> nat \<Rightarrow> nat \<Rightarrow> nat" where
  "find_rev_next_zero_bit addr sz offset =
     (if offset \<ge> sz then sz
      else rev_next_zero_loop addr (offset div 64) (sz - 64 * (offset div 64)) (offset mod 64) sz)"

declare rev_next_loop.simps [simp del] rev_next_zero_loop.simps [simp del]

subsection \<open>Words\<close>

lemma bit_rev_ulong_loop:
  "n + idx = 8 \<Longrightarrow> i < 64 \<Longrightarrow> bit (rev_ulong_loop str idx n tmp) (63 - i) \<longleftrightarrow>
     bit tmp (63 - i) \<or> idx * 8 \<le> i \<and> bit (str (i div 8)) (7 - i mod 8)"
proof (induction n arbitrary: idx tmp)
  case (Suc n)
  have n: "8 * n = 8 * (7 - idx)" "idx \<le> 7" using Suc.prems(1) by auto
  have "bit (push_bit (8 * n) (ucast (str idx)) :: u64) (63 - i)
      \<longleftrightarrow> i div 8 = idx \<and> bit (str idx) (7 - i mod 8)"
  proof -
    have b: "bit (push_bit (8 * n) (ucast (str idx)) :: u64) (63 - i)
        \<longleftrightarrow> 8 * n \<le> 63 - i \<and> 63 - i - 8 * n < 8 \<and> bit (str idx) (63 - i - 8 * n)"
      by (auto simp: bit_simps dest: bit_imp_le_length)
    have "8 * n \<le> 63 - i \<and> 63 - i - 8 * n < 8 \<longleftrightarrow> i div 8 = idx" using n Suc.prems by auto
    moreover have "63 - i - 8 * n = 7 - i mod 8" if "i div 8 = idx"
      using that n Suc.prems(2) by (auto simp: minus_mult_div_eq_mod [symmetric])
    ultimately show ?thesis using b by metis
  qed
  moreover have "idx * 8 \<le> i \<longleftrightarrow> i div 8 = idx \<or> (idx + 1) * 8 \<le> i" by auto
  ultimately show ?case using Suc.IH [of "idx + 1" "tmp OR push_bit (8 * n) (ucast (str idx))"] Suc.prems
    by (auto simp: bit_or_iff)
qed simp

lemma bit_reverse_ulong: "i < 64 \<Longrightarrow> bit (reverse_ulong str) (63 - i) \<longleftrightarrow> f2fs_test_bit str i"
  using bit_rev_ulong_loop [of 8 0 i str 0] by (simp add: reverse_ulong_def f2fs_test_bit_def)

text \<open>The binary search of \<open>__reverse_ffs\<close>: \<open>W\<close> bits are left to look at.\<close>

definition ffs_inv :: "u64 \<Rightarrow> nat \<Rightarrow> u64 \<times> nat \<Rightarrow> bool" where
  "ffs_inv w0 W s \<longleftrightarrow> (\<exists>sh. fst s = drop_bit sh w0 \<and> fst s \<noteq> 0 \<and> snd s + sh + W = 64
     \<and> (\<forall>j. sh + W \<le> j \<longrightarrow> \<not> bit w0 j))"

lemma and_range_0: "(w :: u64) AND push_bit k (mask k) = 0 \<longleftrightarrow> (\<forall>i. k \<le> i \<and> i < 2 * k \<longrightarrow> \<not> bit w i)"
proof -
  have b: "bit (w AND push_bit k (mask k)) i \<longleftrightarrow> bit w i \<and> k \<le> i \<and> i < 2 * k" for i
  proof (cases "i < 64")
    case True
    then show ?thesis by (auto simp: bit_simps)
  next
    case False
    then have "\<not> bit w i" "\<not> bit (w AND push_bit k (mask k)) i" using bit_imp_le_length by fastforce+
    then show ?thesis by blast
  qed
  have "w AND push_bit k (mask k) = 0 \<longleftrightarrow> (\<forall>i. \<not> bit (w AND push_bit k (mask k)) i)"
    by (metis bit_0_eq bot_apply bot_bool_def bit_eqI)
  then show ?thesis unfolding b by blast
qed

lemma ffs_inv_step:
  assumes "ffs_inv w0 (2 * k) s" and "msk = push_bit k (mask k)"
  shows "ffs_inv w0 k (ffs_step msk k s)"
proof -
  obtain sh where s: "fst s = drop_bit sh w0" "fst s \<noteq> 0" "snd s + sh + 2 * k = 64" "\<And>j. sh + 2 * k \<le> j \<Longrightarrow> \<not> bit w0 j"
    using assms(1) unfolding ffs_inv_def by blast
  have b: "bit (fst s) i = bit w0 (sh + i)" for i by (simp add: s(1) bit_simps)
  show ?thesis
  proof (cases "fst s AND msk = 0")
    case True
    then have z: "\<not> bit w0 (sh + i)" if "k \<le> i" for i
      using that s(4) [of "sh + i"] b unfolding assms(2) and_range_0 by (cases "i < 2 * k") auto
    have "\<not> bit w0 j" if "sh + k \<le> j" for j using z [of "j - sh"] that by simp
    then show ?thesis using True s by (auto simp: ffs_inv_def ffs_step_def intro!: exI [of _ sh])
  next
    case False
    then obtain i where "k \<le> i" "bit (fst s) i" unfolding assms(2) and_range_0 by blast
    then have "bit (drop_bit k (fst s)) (i - k)" by (simp add: bit_simps)
    then have "drop_bit k (fst s) \<noteq> 0" by (metis bit_0_eq bot_apply bot_bool_def)
    then show ?thesis using False s
      by (auto simp: ffs_inv_def ffs_step_def drop_bit_drop_bit add.commute intro!: exI [of _ "sh + k"])
  qed
qed

lemma ffs_inv_half:
  "ffs_inv w 64 s \<Longrightarrow> ffs_inv w 32 (ffs_step 0xffffffff00000000 32 s)"
  "ffs_inv w 32 s \<Longrightarrow> ffs_inv w 16 (ffs_step 0xffff0000 16 s)"
  "ffs_inv w 16 s \<Longrightarrow> ffs_inv w 8 (ffs_step 0xff00 8 s)"
  "ffs_inv w 8 s \<Longrightarrow> ffs_inv w 4 (ffs_step 0xf0 4 s)"
  "ffs_inv w 4 s \<Longrightarrow> ffs_inv w 2 (ffs_step 0xc 2 s)"
  "ffs_inv w 2 s \<Longrightarrow> ffs_inv w 1 (ffs_step 0x2 1 s)"
  by (rule ffs_inv_step; simp add: mask_eq_exp_minus_1 push_bit_eq_mult)+

lemma reverse_ffs_first:
  assumes "w \<noteq> 0"
  shows "reverse_ffs w < 64" "bit w (63 - reverse_ffs w)" "\<And>i. i < reverse_ffs w \<Longrightarrow> \<not> bit w (63 - i)"
proof -
  let ?s1 = "ffs_step 0xffffffff00000000 32 (w, 0)"
  let ?s2 = "ffs_step 0xffff0000 16 ?s1"
  let ?s3 = "ffs_step 0xff00 8 ?s2"
  let ?s4 = "ffs_step 0xf0 4 ?s3"
  let ?s5 = "ffs_step 0xc 2 ?s4"
  have "ffs_inv w 64 (w, 0)"
    using assms by (auto simp: ffs_inv_def intro!: exI [of _ 0] dest: bit_imp_le_length)
  then have "ffs_inv w 1 (ffs_step 0x2 1 ?s5)" by (intro ffs_inv_half)
  moreover have "snd (ffs_step 0x2 1 ?s5) = reverse_ffs w"
    unfolding reverse_ffs_def Let_def ffs_step_def [of 2 1] by (cases "fst ?s5 AND 2 = 0") simp_all
  ultimately obtain sh where sh: "reverse_ffs w + sh = 63" "drop_bit sh w \<noteq> 0" "\<And>j. sh < j \<Longrightarrow> \<not> bit w j"
    by (auto simp: ffs_inv_def)
  from sh(2) obtain i where "bit (drop_bit sh w) i" by (metis bit_eqI bit_0_eq bot_apply bot_bool_def)
  then have i: "bit w (sh + i)" by (simp add: bit_drop_bit_eq)
  then have "i = 0" using sh(3) [of "sh + i"] by (cases i) simp_all
  with i have "bit w sh" by simp
  moreover have "63 - reverse_ffs w = sh" using sh(1) by simp
  ultimately show "reverse_ffs w < 64" "bit w (63 - reverse_ffs w)" using sh(1) by simp_all
  show "\<not> bit w (63 - i)" if "i < reverse_ffs w" for i using sh(1,3) that by simp
qed

subsection \<open>The searches\<close>

lemma bit_ones: "n < 64 \<Longrightarrow> bit (push_bit k (- 1 :: u64)) n \<longleftrightarrow> k \<le> n" "n < 64 \<Longrightarrow> bit (drop_bit k (- 1 :: u64)) n \<longleftrightarrow> n + k < 64"
  by (auto simp: bit_simps)

lemma word_zero_iff: "(w :: u64) = 0 \<longleftrightarrow> (\<forall>i < 64. \<not> bit w (63 - i))"
proof
  assume r: "\<forall>i < 64. \<not> bit w (63 - i)"
  show "w = 0"
  proof (rule bit_eqI)
    fix n assume "possible_bit TYPE(u64) n"
    then have "n < 64" by simp
    then show "bit w n = bit 0 n" using r [rule_format, of "63 - n"] by simp
  qed
qed simp

lemma f2fs_test_bit_word: "i < 64 \<Longrightarrow> f2fs_test_bit (ulong_bytes addr k) i = f2fs_test_bit addr (64 * k + i)"
proof -
  have "64 * k + i = 8 * (8 * k) + i" by simp
  then have "(64 * k + i) div 8 = 8 * k + i div 8" "(64 * k + i) mod 8 = i mod 8"
    by (simp_all only: div_mult_self4 mod_mult_self4)
  then show ?thesis by (simp add: f2fs_test_bit_def ulong_bytes_def)
qed

text \<open>One word of a search: \<open>t\<close> has the bits of \<open>m\<close> in the range that is left, most significant first.\<close>

lemma word_search:
  assumes bt: "\<And>i. i < 64 \<Longrightarrow> bit t (63 - i) \<longleftrightarrow> offset \<le> i \<and> i < sz \<and> m (64 * k + i)"
    and r: "result = 64 * k + sz" "offset < sz" "offset < 64"
  shows "find_next_bit m result (64 * k + offset) =
    (if t \<noteq> 0 then result - sz + reverse_ffs t else if sz \<le> 64 then result
     else find_next_bit m result (64 * (k + 1) + 0))"
proof (cases "t = 0")
  case False
  note f = reverse_ffs_first [OF False]
  have "find_next_bit m result (64 * k + offset) = 64 * k + reverse_ffs t"
  proof (rule find_next_bit_eqI)
    fix j assume j: "64 * k + offset \<le> j" "j < 64 * k + reverse_ffs t"
    define d where "d = j - 64 * k"
    have d: "j = 64 * k + d" "d < reverse_ffs t" "offset \<le> d" using j by (auto simp: d_def)
    then show "\<not> m j" using f(3) [OF d(2)] bt [of d] f(1) bt [OF f(1)] f(2) by simp
  qed (use bt [OF f(1)] f r in auto)
  then show ?thesis using False r by simp
next
  case True
  then have none: "\<not> m j" if "64 * k + offset \<le> j" "j < 64 * k + sz" "j < 64 * k + 64" for j
    using bt [of "j - 64 * k"] that by (simp add: bit_0_eq)
  show ?thesis
  proof (cases "sz \<le> 64")
    case le: True
    then have "find_next_bit m result (64 * k + offset) = result"
      using none r by (intro find_next_bit_none) simp
    then show ?thesis using True le by simp
  next
    case False
    then have "find_next_bit m result (64 * k + offset) = find_next_bit m result (64 * (k + 1) + 0)"
      using none r by (intro find_next_bit_skip) auto
    then show ?thesis using True False by simp
  qed
qed

lemma bit_rev_word:
  assumes "i < 64" "offset < 64"
  shows "bit (rev_word (ulong_bytes addr k) sz offset) (63 - i) \<longleftrightarrow> offset \<le> i \<and> i < sz \<and> f2fs_test_bit addr (64 * k + i)"
proof -
  have "63 - i + offset < 64 \<longleftrightarrow> offset \<le> i" "sz < 64 \<Longrightarrow> 64 - sz \<le> 63 - i \<longleftrightarrow> i < sz" using assms by auto
  then show ?thesis
    using bit_reverse_ulong [OF assms(1), of "ulong_bytes addr k"] f2fs_test_bit_word [OF assms(1)] bit_ones [of "63 - i"] assms
    by (auto simp: rev_word_def Let_def bit_and_iff)
qed

lemma bit_rev_zero_word:
  assumes "i < 64" "offset < 64"
  shows "bit (NOT (rev_zero_word (ulong_bytes addr k) sz offset)) (63 - i)
    \<longleftrightarrow> offset \<le> i \<and> i < sz \<and> \<not> f2fs_test_bit addr (64 * k + i)"
proof -
  have "offset \<noteq> 0 \<Longrightarrow> 64 - offset \<le> 63 - i \<longleftrightarrow> i < offset" "63 - i + sz < 64 \<longleftrightarrow> sz \<le> i" using assms by auto
  then show ?thesis
    using bit_reverse_ulong [OF assms(1), of "ulong_bytes addr k"] f2fs_test_bit_word [OF assms(1)] bit_ones [of "63 - i"] assms
    by (auto simp: rev_zero_word_def Let_def bit_or_iff bit_not_iff)
qed

lemma rev_next_loop_eq:
  assumes "result = 64 * k + sz" and "offset < sz" and "offset < 64"
  shows "rev_next_loop addr k sz offset result = find_next_bit (f2fs_test_bit addr) result (64 * k + offset)"
  using assms
proof (induction addr k sz offset result rule: rev_next_loop.induct)
  case (1 addr k sz offset result)
  let ?m = "f2fs_test_bit addr" and ?p = "ulong_bytes addr k"
  let ?t = "rev_word ?p sz offset"
  have z: "?t = 0" if a: "\<forall>i < 8. ?p i = 0"
  proof -
    have "\<not> f2fs_test_bit ?p i" if "i < 64" for i using that a by (simp add: f2fs_test_bit_def)
    then show ?thesis unfolding word_zero_iff using bit_rev_word [OF _ "1.prems"(3)] f2fs_test_bit_word by metis
  qed
  note W = word_search [where m = ?m and t = ?t, OF bit_rev_word [OF _ "1.prems"(3)] "1.prems"]
  have unf: "rev_next_loop addr k sz offset result =
      (if \<not> (\<forall>i < 8. ?p i = 0) \<and> ?t \<noteq> 0 then result - sz + reverse_ffs ?t
       else if sz \<le> 64 then result else rev_next_loop addr (k + 1) (sz - 64) 0 result)"
    by (subst rev_next_loop.simps) (simp only: Let_def)
  show ?case
  proof (cases "?t = 0 \<and> \<not> sz \<le> 64")
    case True
    then have "rev_next_loop addr (k + 1) (sz - 64) 0 result = find_next_bit ?m result (64 * (k + 1) + 0)"
      using "1.prems" by (intro "1.IH" [OF refl refl]) auto
    then show ?thesis using W unf True by simp
  next
    case False
    then show ?thesis using W unf z by auto
  qed
qed

lemma rev_next_zero_loop_eq:
  assumes "result = 64 * k + sz" and "offset < sz" and "offset < 64"
  shows "rev_next_zero_loop addr k sz offset result = find_next_zero_bit (f2fs_test_bit addr) result (64 * k + offset)"
  using assms
proof (induction addr k sz offset result rule: rev_next_zero_loop.induct)
  case (1 addr k sz offset result)
  let ?m = "\<lambda>i. \<not> f2fs_test_bit addr i" and ?p = "ulong_bytes addr k"
  let ?t = "rev_zero_word ?p sz offset"
  have n: "NOT x = 0 \<longleftrightarrow> x = - 1" for x :: u64 by (metis bit.compl_one bit.double_compl)
  have z: "?t = - 1" if a: "\<forall>i < 8. ?p i = - 1"
  proof -
    have "f2fs_test_bit ?p i" if "i < 64" for i using that a by (simp add: f2fs_test_bit_def)
    then show ?thesis unfolding n [symmetric] word_zero_iff
      using bit_rev_zero_word [OF _ "1.prems"(3)] f2fs_test_bit_word by metis
  qed
  note W = word_search [where m = ?m and t = "NOT ?t", OF bit_rev_zero_word [OF _ "1.prems"(3)] "1.prems", unfolded n]
  have unf: "rev_next_zero_loop addr k sz offset result =
      (if \<not> (\<forall>i < 8. ?p i = - 1) \<and> ?t \<noteq> - 1 then result - sz + reverse_ffz ?t
       else if sz \<le> 64 then result else rev_next_zero_loop addr (k + 1) (sz - 64) 0 result)"
    by (subst rev_next_zero_loop.simps) (simp only: Let_def)
  show ?case
  proof (cases "?t = - 1 \<and> \<not> sz \<le> 64")
    case True
    then have "rev_next_zero_loop addr (k + 1) (sz - 64) 0 result
        = find_next_zero_bit (f2fs_test_bit addr) result (64 * (k + 1) + 0)"
      using "1.prems" by (intro "1.IH" [OF refl refl]) auto
    then show ?thesis using W unf True by (simp add: find_next_zero_bit_def)
  next
    case False
    then show ?thesis using W unf z by (auto simp: find_next_zero_bit_def reverse_ffz_def)
  qed
qed

lemma find_rev_next_zero_bit_spec: "find_rev_next_zero_bit addr sz offset = find_next_zero_bit (f2fs_test_bit addr) sz offset"
  and find_rev_next_bit_spec: "find_rev_next_bit addr sz offset = find_next_bit (f2fs_test_bit addr) sz offset"
proof -
  have "find_rev_next_bit addr sz offset = find_next_bit (f2fs_test_bit addr) sz offset
   \<and> find_rev_next_zero_bit addr sz offset = find_next_zero_bit (f2fs_test_bit addr) sz offset"
  proof (cases "offset \<ge> sz")
    case True
    then show ?thesis
      by (simp add: find_rev_next_bit_def find_rev_next_zero_bit_def find_next_zero_bit_def find_next_bit.simps [of _ sz offset])
  next
    case False
    have o: "64 * (offset div 64) + offset mod 64 = offset" by simp
    then have "64 * (offset div 64) \<le> offset" by linarith
    then have p: "sz = 64 * (offset div 64) + (sz - 64 * (offset div 64))" "offset mod 64 < sz - 64 * (offset div 64)"
      "offset mod 64 < 64" using False o by linarith+
    show ?thesis
      using rev_next_loop_eq [OF p] rev_next_zero_loop_eq [OF p] False o
      by (simp add: find_rev_next_bit_def find_rev_next_zero_bit_def)
  qed
  then show "find_rev_next_zero_bit addr sz offset = find_next_zero_bit (f2fs_test_bit addr) sz offset"
    and "find_rev_next_bit addr sz offset = find_next_bit (f2fs_test_bit addr) sz offset" by blast+
qed

subsection \<open>Property\<close>

text \<open>
  C37. The word-wise searches are the bit-wise ones: \<open>__find_rev_next_bit\<close> returns the first set bit
  of an f2fs bitmap at or behind the offset, and \<open>__find_rev_next_zero_bit\<close> the first clear one,
  or the size when there is none, for every size (also one that is no multiple of the word
  size, which the comment in the source asks for) and every offset.
\<close>

theorem find_rev_next_bit_eq:
  "find_rev_next_bit addr sz offset = find_next_bit (f2fs_test_bit addr) sz offset
   \<and> find_rev_next_zero_bit addr sz offset = find_next_zero_bit (f2fs_test_bit addr) sz offset"
  by (simp add: find_rev_next_zero_bit_spec find_rev_next_bit_spec)

end
