(* ===== verification/Curseg.thy ===== *)
theory Curseg
  imports Victim Rev_Bits
begin

text \<open>
  The logs: choosing a new segment for a log and handing out the next block, from
  \<open>src/segment.c\<close> (\<open>get_new_segment\<close>, \<open>new_curseg\<close>, \<open>change_curseg\<close>, \<open>allocate_segment_by_default\<close>,
  \<open>f2fs_allocate_new_segments\<close>, \<open>f2fs_allocate_data_block\<close>, ...). A new log segment may get an NVM shadow (\<open>nvm_alloc\<close>,
  \<open>nvm_allocate_segment\<close>). \<open>Inl EBUG\<close> stands for the places where the code, after a warning, would
  index its maps out of range, and for a divide fault in \<open>nvm_alloc\<close>.
\<close>

subsection \<open>A new segment\<close>

definition is_next_segment_free :: "f2fs_geo \<Rightarrow> sm_state \<Rightarrow> seg_type \<Rightarrow> bool" where
  "is_next_segment_free g st t =
     (let s = cs_segno (CURSEG_I st t) + 1
      in s < main_segments g \<and> s mod segs_per_sec g \<noteq> 0 \<and> \<not> free_segmap (free_i st) s)"

text \<open>The \<open>while\<close> loop that walks left over used sections and starts over at 0 when it meets the end.\<close>

fun scan_left :: "bitmap \<Rightarrow> nat \<Rightarrow> nat \<Rightarrow> nat" where
  "scan_left m mx 0 = (if m 0 then find_next_zero_bit m mx 0 else 0)"
| "scan_left m mx (Suc n) = (if m (Suc n) then scan_left m mx n else Suc n)"

text \<open>
  From \<open>find_other_zone\<close> to \<open>skip_left\<close>: the section and the two variables that survive into the
  second pass. \<open>left_start = hint - 1\<close> wraps for hint 0, out of the map.
\<close>

definition find_section :: "f2fs_geo \<Rightarrow> free_segmap_info \<Rightarrow> alloc_dir \<Rightarrow> nat \<Rightarrow> bool \<Rightarrow> nat \<Rightarrow> nvm_err + nat \<times> bool \<times> nat" where
  "find_section g fi dir hint go_left left_start =
     (let secno = find_next_zero_bit (free_secmap fi) (total_sections g) hint;
          out = secno \<ge> total_sections g;
          secno = (if out \<and> dir = ALLOC_RIGHT then find_next_zero_bit (free_secmap fi) (total_sections g) 0 else secno);
          go_left = (go_left \<or> out \<and> dir = ALLOC_LEFT);
          left_start = (if out \<and> dir = ALLOC_LEFT then u32_sub hint 1 else left_start)
      in if \<not> go_left
         then (if secno \<ge> total_sections g then Inl EBUG else Inr (secno, go_left, left_start))
         else if left_start \<ge> total_sections g then Inl EBUG
         else let left_start = scan_left (free_secmap fi) (total_sections g) left_start
              in if left_start \<ge> total_sections g then Inl EBUG else Inr (left_start, go_left, left_start))"

text \<open>The tests behind \<open>skip_left\<close>: whether the zone of the section is worth avoiding.\<close>

definition avoid_zone :: "f2fs_geo \<Rightarrow> sm_state \<Rightarrow> alloc_dir \<Rightarrow> nat \<Rightarrow> bool \<Rightarrow> nat \<Rightarrow> bool" where
  "avoid_zone g st dir old_zoneno go_left zoneno \<longleftrightarrow>
     secs_per_zone g \<noteq> 1 \<and> zoneno \<noteq> old_zoneno
     \<and> \<not> (dir = ALLOC_LEFT \<and> (\<not> go_left \<and> zoneno + 1 \<ge> total_sections g div secs_per_zone g \<or> go_left \<and> zoneno = 0))
     \<and> (\<exists>t \<in> set all_types. cs_zone (CURSEG_I st t) = zoneno)"

definition next_zone_hint :: "f2fs_geo \<Rightarrow> bool \<Rightarrow> nat \<Rightarrow> nat" where
  "next_zone_hint g go_left zoneno =
     (if go_left then zoneno * secs_per_zone g - 1
      else if zoneno + 1 \<ge> total_sections g div secs_per_zone g then 0
      else (zoneno + 1) * secs_per_zone g)"

definition got_it :: "f2fs_geo \<Rightarrow> sm_state \<Rightarrow> nat \<Rightarrow> nvm_err + nat \<times> sm_state" where
  "got_it g st s =
     (if s \<ge> main_segments g then Inl EBUG
      else Inr (s, set_inuse g (f2fs_bug_on (free_segmap (free_i st) s) st) s))"

definition get_new_segment :: "f2fs_geo \<Rightarrow> sm_state \<Rightarrow> nat \<Rightarrow> bool \<Rightarrow> alloc_dir \<Rightarrow> nvm_err + nat \<times> sm_state" where
  "get_new_segment g st newseg new_sec dir =
     (let fi = free_i st;
          hint = GET_SEC_FROM_SEG g newseg;
          old_zoneno = GET_ZONE_FROM_SEG g newseg;
          s0 = find_next_zero_bit (free_segmap fi) (GET_SEG_FROM_SEC g (hint + 1)) (newseg + 1)
      in if \<not> new_sec \<and> (newseg + 1) mod segs_per_sec g \<noteq> 0 \<and> s0 < GET_SEG_FROM_SEC g (hint + 1)
         then got_it g st s0
         else case find_section g fi dir hint False hint of
           Inl e \<Rightarrow> Inl e
         | Inr (secno, go_left, left_start) \<Rightarrow>
             (let zoneno = GET_ZONE_FROM_SEC g secno
              in if \<not> avoid_zone g st dir old_zoneno go_left zoneno
                 then got_it g st (GET_SEG_FROM_SEC g secno)
                 else case find_section g fi dir (next_zone_hint g go_left zoneno) go_left left_start of
                   Inl e \<Rightarrow> Inl e
                 | Inr (secno, _, _) \<Rightarrow> got_it g st (GET_SEG_FROM_SEC g secno)))"

subsection \<open>Opening a log segment\<close>

definition reset_curseg :: "f2fs_geo \<Rightarrow> sm_state \<Rightarrow> seg_type \<Rightarrow> bool \<Rightarrow> sm_state" where
  "reset_curseg g st t modified =
     (let c = CURSEG_I st t;
          s = cs_next_segno c;
          c = c\<lparr>cs_segno := s, cs_zone := GET_ZONE_FROM_SEG g s, cs_next_blkoff := 0, cs_next_segno := NULL_SEGNO,
                sum_blk := (sum_blk c)\<lparr>sum_footer := Some (if IS_NODESEG (type_no t) then SUM_TYPE_NODE else SUM_TYPE_DATA)\<rparr>\<rparr>
      in set_sit_entry_type (set_curseg st t c) (type_no t) s modified)"

definition get_next_segno :: "f2fs_geo \<Rightarrow> sb_opts \<Rightarrow> sm_state \<Rightarrow> seg_type \<Rightarrow> nat" where
  "get_next_segno g opts st t =
     (if segs_per_sec g \<noteq> 1 then cs_segno (CURSEG_I st t)
      else if opt_noheap opts \<and> (t = CURSEG_HOT_DATA \<or> IS_NODESEG (type_no t)) then 0
      else if last_victim (sit_i st) ALLOC_NEXT \<noteq> 0 then last_victim (sit_i st) ALLOC_NEXT
      else if opt_reuse opts then 0
      else cs_segno (CURSEG_I st t))"

text \<open>\<open>write_sum_page\<close>: the cached summary block goes to the summary area.\<close>

definition write_sum_page :: "sm_state \<Rightarrow> seg_type \<Rightarrow> sm_state" where
  "write_sum_page st t =
     st\<lparr>sum_pages := (sum_pages st)(cs_segno (CURSEG_I st t) := sum_blk (CURSEG_I st t))\<rparr>"

text \<open>What \<open>nvm_alloc\<close> reads from outside: device names, the outcome of its trylock, the statistics file.\<close>

record load_env =
  ssd_dev :: string
  nvm_dev :: string
  env_lock :: bool
  env_file :: "diskstat list option"

text \<open>The end of \<open>new_curseg\<close>; a failing \<open>nvm_allocate_segment\<close> is ignored there.\<close>

definition shadow_curseg :: "load_env \<Rightarrow> sm_state \<Rightarrow> seg_type \<Rightarrow> nvm_err + sm_state" where
  "shadow_curseg env st t =
     (case nvm_alloc (ssd_dev env) (nvm_dev env) (env_lock env) (env_file env) (sm_load st) (sm_nsbi st) t of
        None \<Rightarrow> Inl EBUG
      | Some (False, ls) \<Rightarrow> Inr (st\<lparr>sm_load := ls\<rparr>)
      | Some (True, ls) \<Rightarrow>
          (case nvm_allocate_segment (sm_nsbi st) (cs_segno (CURSEG_I st t)) True of
             None \<Rightarrow> Inl EBUG
           | Some (Inl EBUG, _) \<Rightarrow> Inl EBUG
           | Some (_, n) \<Rightarrow> Inr (st\<lparr>sm_nsbi := n, sm_load := ls\<rparr>)))"

definition new_curseg :: "f2fs_geo \<Rightarrow> sb_opts \<Rightarrow> load_env \<Rightarrow> sm_state \<Rightarrow> seg_type \<Rightarrow> bool \<Rightarrow> nvm_err + sm_state" where
  "new_curseg g opts env st t new_sec =
     (let st = write_sum_page st t;
          dir = (if t = CURSEG_WARM_DATA \<or> t = CURSEG_COLD_DATA \<or> opt_noheap opts then ALLOC_RIGHT else ALLOC_LEFT)
      in case get_new_segment g st (get_next_segno g opts st t) new_sec dir of
           Inl e \<Rightarrow> Inl e
         | Inr (s, st) \<Rightarrow>
             (let st = set_curseg st t ((CURSEG_I st t)\<lparr>cs_next_segno := s\<rparr>);
                  st = reset_curseg g st t True;
                  st = set_curseg st t ((CURSEG_I st t)\<lparr>alloc_type := LFS\<rparr>)
              in shadow_curseg env st t))"

subsection \<open>Reusing a dirty segment\<close>

text \<open>The or of the two maps, as bytes, searched word-wise.\<close>

definition next_free_blkoff :: "f2fs_geo \<Rightarrow> sm_state \<Rightarrow> curseg_info \<Rightarrow> nat \<Rightarrow> curseg_info" where
  "next_free_blkoff g st c start =
     (let se = get_seg_entry st (cs_segno c);
          target_map = msb_byte (\<lambda>i. ckpt_valid_map se i \<or> cur_valid_map se i)
      in c\<lparr>cs_next_blkoff := find_rev_next_zero_bit target_map (blocks_per_seg g) start mod 65536\<rparr>)"

definition refresh_next_blkoff :: "f2fs_geo \<Rightarrow> sm_state \<Rightarrow> curseg_info \<Rightarrow> curseg_info" where
  "refresh_next_blkoff g st c =
     (if alloc_type c = SSR then next_free_blkoff g st c (cs_next_blkoff c + 1)
      else c\<lparr>cs_next_blkoff := (cs_next_blkoff c + 1) mod 65536\<rparr>)"

definition change_curseg :: "f2fs_geo \<Rightarrow> sm_state \<Rightarrow> seg_type \<Rightarrow> sm_state" where
  "change_curseg g st t =
     (let new_segno = cs_next_segno (CURSEG_I st t);
          st = write_sum_page st t;
          st = set_test_and_inuse g st new_segno;
          st = remove_dirty_segment g st new_segno PRE;
          st = remove_dirty_segment g st new_segno DIRTY;
          st = reset_curseg g st t True;
          st = set_curseg st t ((CURSEG_I st t)\<lparr>alloc_type := SSR\<rparr>);
          st = set_curseg st t (next_free_blkoff g st (CURSEG_I st t) 0);
          c = CURSEG_I st t
      in set_curseg st t (c\<lparr>sum_blk := (sum_blk c)\<lparr>sum_entries := sum_entries (sum_pages st new_segno)\<rparr>\<rparr>))"

text \<open>The order in which the other logs of the same kind are tried.\<close>

definition ssr_order :: "seg_type \<Rightarrow> seg_type list" where
  "ssr_order t =
     (if IS_NODESEG (type_no t)
      then (if t = CURSEG_HOT_NODE then [CURSEG_HOT_NODE, CURSEG_WARM_NODE, CURSEG_COLD_NODE]
            else [CURSEG_COLD_NODE, CURSEG_WARM_NODE, CURSEG_HOT_NODE])
      else (if t = CURSEG_HOT_DATA then [CURSEG_HOT_DATA, CURSEG_WARM_DATA, CURSEG_COLD_DATA]
            else [CURSEG_COLD_DATA, CURSEG_WARM_DATA, CURSEG_HOT_DATA]))"

fun try_victims :: "f2fs_geo \<Rightarrow> sb_opts \<Rightarrow> sm_state \<Rightarrow> seg_type list \<Rightarrow> nat option \<times> sm_state" where
  "try_victims g opts st [] = (None, st)"
| "try_victims g opts st (t # ts) =
     (case get_victim_by_default g opts st NULL_SEGNO BG_GC (type_no t) SSR of
        (Some s, st) \<Rightarrow> (Some s, st)
      | (None, st) \<Rightarrow> try_victims g opts st ts)"

definition get_ssr_segment :: "f2fs_geo \<Rightarrow> sb_opts \<Rightarrow> sm_state \<Rightarrow> seg_type \<Rightarrow> bool \<times> sm_state" where
  "get_ssr_segment g opts st t =
     (case try_victims g opts st (t # filter (\<lambda>i. i \<noteq> t) (ssr_order t)) of
        (Some s, st) \<Rightarrow> (True, set_curseg st t ((CURSEG_I st t)\<lparr>cs_next_segno := s\<rparr>))
      | (None, st) \<Rightarrow> (False, st))"

definition get_blocktype_secs :: "f2fs_geo \<Rightarrow> nat \<Rightarrow> nat" where
  "get_blocktype_secs g pages =
     drop_bit (log_blocks_per_seg g) (u32_wrap (pages + segs_per_sec g * blocks_per_seg g - 1)) div segs_per_sec g"

definition f2fs_need_SSR :: "f2fs_geo \<Rightarrow> sb_opts \<Rightarrow> sm_state \<Rightarrow> bool" where
  "f2fs_need_SSR g opts st =
     (if opt_lfs opts then False
      else if sb_gc opts = GC_URGENT then True
      else free_sections (free_i st) \<le>
        u32_wrap (get_blocktype_secs g (dirty_nodes opts) + 2 * get_blocktype_secs g (dirty_dents opts)
          + get_blocktype_secs g (dirty_imeta opts) + min_ssr_sections opts + reserved_segments opts div segs_per_sec g))"

subsection \<open>The allocator\<close>

definition allocate_segment_by_default ::
  "f2fs_geo \<Rightarrow> sb_opts \<Rightarrow> load_env \<Rightarrow> sm_state \<Rightarrow> seg_type \<Rightarrow> bool \<Rightarrow> nvm_err + sm_state" where
  "allocate_segment_by_default g opts env st t force =
     (if force then new_curseg g opts env st t True
      else if \<not> crc_recovery opts \<and> t = CURSEG_WARM_NODE then new_curseg g opts env st t False
      else if alloc_type (CURSEG_I st t) = LFS \<and> is_next_segment_free g st t then new_curseg g opts env st t False
      else if f2fs_need_SSR g opts st
      then (case get_ssr_segment g opts st t of
              (True, st) \<Rightarrow> Inr (change_curseg g st t)
            | (False, st) \<Rightarrow> new_curseg g opts env st t False)
      else new_curseg g opts env st t False)"

fun allocate_new_loop :: "f2fs_geo \<Rightarrow> sb_opts \<Rightarrow> load_env \<Rightarrow> seg_type list \<Rightarrow> sm_state \<Rightarrow> nvm_err + sm_state" where
  "allocate_new_loop g opts env [] st = Inr st"
| "allocate_new_loop g opts env (t # ts) st =
     (case allocate_segment_by_default g opts env st t True of
        Inl e \<Rightarrow> Inl e
      | Inr st' \<Rightarrow> allocate_new_loop g opts env ts (locate_dirty_segment g st' (cs_segno (CURSEG_I st t))))"

definition f2fs_allocate_new_segments :: "f2fs_geo \<Rightarrow> sb_opts \<Rightarrow> load_env \<Rightarrow> sm_state \<Rightarrow> nvm_err + sm_state" where
  "f2fs_allocate_new_segments g opts env st =
     allocate_new_loop g opts env [CURSEG_HOT_DATA, CURSEG_WARM_DATA, CURSEG_COLD_DATA] st"

definition NEXT_FREE_BLKADDR :: "f2fs_geo \<Rightarrow> curseg_info \<Rightarrow> nat" where
  "NEXT_FREE_BLKADDR g c = u32_wrap (START_BLOCK g (cs_segno c) + cs_next_blkoff c)"

definition has_curseg_space :: "f2fs_geo \<Rightarrow> sm_state \<Rightarrow> seg_type \<Rightarrow> bool" where
  "has_curseg_space g st t \<longleftrightarrow> cs_next_blkoff (CURSEG_I st t) < blocks_per_seg g"

definition add_sum_entry :: "sm_state \<Rightarrow> seg_type \<Rightarrow> f2fs_summary \<Rightarrow> sm_state" where
  "add_sum_entry st t sm =
     (let c = CURSEG_I st t
      in set_curseg st t (c\<lparr>sum_blk := (sum_blk c)\<lparr>sum_entries := (sum_entries (sum_blk c))(cs_next_blkoff c := sm)\<rparr>\<rparr>))"

text \<open>
  The block address and the state after it. Waiting for discards, the node footer and the list
  of requests are outside the segment manager.
\<close>

definition f2fs_allocate_data_block ::
  "disk_fmt \<Rightarrow> f2fs_geo \<Rightarrow> sb_opts \<Rightarrow> load_env \<Rightarrow> nat \<Rightarrow> sm_state \<Rightarrow> nat \<Rightarrow> f2fs_summary \<Rightarrow> seg_type \<Rightarrow> nvm_err + nat \<times> sm_state" where
  "f2fs_allocate_data_block d g opts env now st old_blkaddr sm t =
     (let new_blkaddr = NEXT_FREE_BLKADDR g (CURSEG_I st t);
          st = add_sum_entry st t sm;
          st = set_curseg st t (refresh_next_blkoff g st (CURSEG_I st t));
          st = update_sit_entry d g (opt_discard opts) now st new_blkaddr 1;
          st = (if GET_SEGNO d g old_blkaddr \<noteq> NULL_SEGNO
                then update_sit_entry d g (opt_discard opts) now st old_blkaddr (- 1) else st)
      in case (if \<not> has_curseg_space g st t then allocate_segment_by_default g opts env st t False else Inr st) of
           Inl e \<Rightarrow> Inl e
         | Inr st \<Rightarrow>
             (let st = locate_dirty_segment g st (GET_SEGNO d g old_blkaddr)
              in Inr (new_blkaddr, locate_dirty_segment g st (GET_SEGNO d g new_blkaddr))))"

subsection \<open>The search for a free section\<close>

lemma find_next_zero_bit_ex:
  "c < n \<Longrightarrow> \<not> m c \<Longrightarrow> ofs \<le> c \<Longrightarrow> find_next_zero_bit m n ofs < n \<and> \<not> m (find_next_zero_bit m n ofs)"
  using find_next_zero_bit_hit [of ofs c n m] find_next_zero_bit_clear [of m n ofs] by simp

lemma scan_left_finds:
  assumes "c < mx" and "\<not> m c"
  shows "n < mx \<Longrightarrow> scan_left m mx n < mx \<and> \<not> m (scan_left m mx n)"
  using find_next_zero_bit_ex [where m = m, OF assms le0] by (induction n) auto

lemma scan_left_here: "\<not> m n \<Longrightarrow> scan_left m mx n = n"
  by (cases n) simp_all

lemma find_section_finds:
  assumes c: "c < total_sections g" "\<not> free_secmap fi c" and h: "hint < total_sections g" "total_sections g < 4294967296"
    and l: "go_left \<Longrightarrow> left_start < total_sections g"
  shows "\<exists>secno gl. find_section g fi dir hint go_left left_start = Inr (secno, gl, if gl then secno else left_start)
    \<and> secno < total_sections g \<and> \<not> free_secmap fi secno"
proof -
  let ?m = "free_secmap fi" and ?n = "total_sections g"
  let ?s = "find_next_zero_bit ?m ?n hint"
  note z = find_next_zero_bit_ex [where m = ?m, OF c le0]
  show ?thesis
  proof (cases "?s \<ge> ?n")
    case True
    have "c < hint"
    proof (rule ccontr)
      assume "\<not> c < hint"
      then show False using find_next_zero_bit_hit [of hint c ?n ?m] c True by simp
    qed
    then have "u32_sub hint 1 < ?n" using h by simp
    then show ?thesis using True z l scan_left_finds [where m = ?m and mx = ?n, OF c]
      by (cases dir; cases go_left) (auto simp: find_section_def Let_def dest: leD)
  next
    case False
    then have s: "?s < ?n" "\<not> ?m ?s" using find_next_zero_bit_clear [of ?m ?n hint] by simp_all
    then show ?thesis using False l scan_left_finds [where m = ?m and mx = ?n, OF c]
      by (cases go_left) (auto simp: find_section_def Let_def dest: leD)
  qed
qed

lemma free_section_seg:
  assumes "free_wf g fi" and "c < total_sections g" and "\<not> free_secmap fi c"
  shows "GET_SEG_FROM_SEC g c < main_segments g" "s div segs_per_sec g = c \<Longrightarrow> \<not> free_segmap fi s"
    "\<not> free_segmap fi (GET_SEG_FROM_SEC g c)"
proof -
  have ok: "0 < segs_per_sec g" "main_segments g = total_sections g * segs_per_sec g" using assms(1) by (simp_all add: free_wf_def sec_ok_def)
  then show "GET_SEG_FROM_SEC g c < main_segments g" using assms(2) by (simp add: GET_SEG_FROM_SEC_def)
  show u: "s div segs_per_sec g = c \<Longrightarrow> \<not> free_segmap fi s" for s using assms by (auto simp: free_wf_def sec_used_def)
  show "\<not> free_segmap fi (GET_SEG_FROM_SEC g c)" using ok by (intro u) (simp add: GET_SEG_FROM_SEC_def)
qed

lemma next_zone_hint_less:
  assumes "0 < secs_per_zone g" and "c < total_sections g"
  shows "next_zone_hint g gl (GET_ZONE_FROM_SEC g c) < total_sections g"
proof -
  let ?z = "c div secs_per_zone g" and ?p = "secs_per_zone g"
  have "?z * ?p \<le> c" by (simp add: div_times_less_eq_dividend)
  moreover have "(?z + 1) * ?p < total_sections g" if "?z + 1 < total_sections g div ?p"
  proof -
    have "(?z + 1) * ?p < (total_sections g div ?p) * ?p" using that assms(1) by (rule mult_strict_right_mono)
    also have "\<dots> \<le> total_sections g" by (simp add: div_times_less_eq_dividend)
    finally show ?thesis .
  qed
  moreover have "?z * ?p - 1 < total_sections g" using \<open>?z * ?p \<le> c\<close> assms(2) by linarith
  ultimately show ?thesis using assms by (auto simp: next_zone_hint_def GET_ZONE_FROM_SEC_def)
qed

text \<open>Where a log can find a segment: a free section, or a free segment behind \<open>s\<close> in its own one.\<close>

definition room_after :: "f2fs_geo \<Rightarrow> sm_state \<Rightarrow> bool \<Rightarrow> nat \<Rightarrow> bool" where
  "room_after g st new_sec s \<longleftrightarrow> 0 < free_sections (free_i st)
     \<or> \<not> new_sec \<and> (\<exists>r. s < r \<and> r div segs_per_sec g = s div segs_per_sec g \<and> \<not> free_segmap (free_i st) r)"

definition got_segment :: "f2fs_geo \<Rightarrow> sm_state \<Rightarrow> bool \<Rightarrow> nat \<Rightarrow> nat \<Rightarrow> bool" where
  "got_segment g st new_sec newseg s \<longleftrightarrow> s \<in> free_set g st
     \<and> (s div segs_per_sec g = newseg div segs_per_sec g \<and> \<not> new_sec \<and> newseg < s
        \<or> s mod segs_per_sec g = 0 \<and> \<not> free_secmap (free_i st) (s div segs_per_sec g))"

lemma got_it_free: "s \<in> free_set g st \<Longrightarrow> got_it g st s = Inr (s, set_inuse g st s)"
  by (auto simp: got_it_def free_set_def zero_bits_def)

lemma got_section:
  assumes "free_wf g (free_i st)" and "c < total_sections g" and "\<not> free_secmap (free_i st) c"
  shows "got_it g st (GET_SEG_FROM_SEC g c) = Inr (GET_SEG_FROM_SEC g c, set_inuse g st (GET_SEG_FROM_SEC g c))"
    "got_segment g st new_sec newseg (GET_SEG_FROM_SEC g c)"
proof -
  have "0 < segs_per_sec g" using assms(1) by (simp add: free_wf_def sec_ok_def)
  then have d: "GET_SEG_FROM_SEC g c div segs_per_sec g = c" "GET_SEG_FROM_SEC g c mod segs_per_sec g = 0"
    by (simp_all add: GET_SEG_FROM_SEC_def)
  have f: "GET_SEG_FROM_SEC g c \<in> free_set g st"
    using free_section_seg(1,3) [OF assms] by (simp add: free_set_def zero_bits_def)
  then show "got_it g st (GET_SEG_FROM_SEC g c) = Inr (GET_SEG_FROM_SEC g c, set_inuse g st (GET_SEG_FROM_SEC g c))"
    by (rule got_it_free)
  show "got_segment g st new_sec newseg (GET_SEG_FROM_SEC g c)" using f d assms(3) by (simp add: got_segment_def)
qed

lemma get_new_segment_section:
  assumes wf: "free_wf g (free_i st)" and z: "0 < secs_per_zone g" and h: "hint < total_sections g"
    and pos: "0 < free_sections (free_i st)"
  shows "\<exists>s. (case find_section g (free_i st) dir hint False hint of
           Inl e \<Rightarrow> Inl e
         | Inr (secno, go_left, left_start) \<Rightarrow>
             (let zoneno = GET_ZONE_FROM_SEC g secno
              in if \<not> avoid_zone g st dir old go_left zoneno then got_it g st (GET_SEG_FROM_SEC g secno)
                 else case find_section g (free_i st) dir (next_zone_hint g go_left zoneno) go_left left_start of
                   Inl e \<Rightarrow> Inl e
                 | Inr (secno, _, _) \<Rightarrow> got_it g st (GET_SEG_FROM_SEC g secno))) = Inr (s, set_inuse g st s)
    \<and> got_segment g st new_sec newseg s"
proof -
  have t: "total_sections g < 4294967296" using wf total_sections_le [of g] by (simp add: free_wf_def)
  obtain c where c: "c < total_sections g" "\<not> free_secmap (free_i st) c"
    using pos wf by (auto simp: free_wf_def card_gt_0_iff zero_bits_def)
  obtain s1 gl where s1: "find_section g (free_i st) dir hint False hint = Inr (s1, gl, if gl then s1 else hint)"
    "s1 < total_sections g" "\<not> free_secmap (free_i st) s1"
    using find_section_finds [OF c h t, of False hint dir] by auto
  let ?h = "next_zone_hint g gl (GET_ZONE_FROM_SEC g s1)"
  obtain s2 gl2 l2 where s2: "find_section g (free_i st) dir ?h gl (if gl then s1 else hint) = Inr (s2, gl2, l2)"
    "s2 < total_sections g" "\<not> free_secmap (free_i st) s2"
    using find_section_finds [OF c next_zone_hint_less [OF z s1(2)] t, of gl "if gl then s1 else hint" dir gl] s1(2) by auto
  show ?thesis
  proof (cases "avoid_zone g st dir old gl (GET_ZONE_FROM_SEC g s1)")
    case True
    then show ?thesis using s1(1) s2(1) got_section [OF wf s2(2,3)] by (auto simp: Let_def)
  next
    case False
    then show ?thesis using s1(1) got_section [OF wf s1(2,3)] by (auto simp: Let_def)
  qed
qed

lemma own_section:
  assumes "0 < segs_per_sec g" and "newseg < r" and "r div segs_per_sec g = newseg div segs_per_sec g"
  shows "(newseg + 1) mod segs_per_sec g \<noteq> 0" "r < GET_SEG_FROM_SEC g (newseg div segs_per_sec g + 1)"
proof -
  let ?p = "segs_per_sec g"
  show r: "r < GET_SEG_FROM_SEC g (newseg div ?p + 1)"
    using assms dividend_less_div_times [of ?p r] by (simp add: GET_SEG_FROM_SEC_def add.commute)
  have lo: "newseg div ?p * ?p \<le> newseg" by (rule div_times_less_eq_dividend)
  have "(newseg + 1) div ?p = newseg div ?p"
  proof (rule div_nat_eqI)
    show "?p * (newseg div ?p) \<le> newseg + 1" using times_div_less_eq_dividend [of ?p newseg] by linarith
    show "newseg + 1 < ?p * Suc (newseg div ?p)" using r assms(2) by (simp add: GET_SEG_FROM_SEC_def mult.commute)
  qed
  then have "(newseg + 1) mod ?p = newseg + 1 - newseg div ?p * ?p" by (metis minus_div_mult_eq_mod)
  with lo show "(newseg + 1) mod ?p \<noteq> 0" by linarith
qed

lemma get_new_segment_spec:
  assumes wf: "free_wf g (free_i st)" and z: "0 < secs_per_zone g" and n: "newseg < main_segments g"
    and room: "room_after g st new_sec newseg"
  shows "\<exists>s. get_new_segment g st newseg new_sec dir = Inr (s, set_inuse g st s) \<and> got_segment g st new_sec newseg s"
proof -
  let ?p = "segs_per_sec g" and ?fm = "free_segmap (free_i st)"
  let ?h = "GET_SEC_FROM_SEG g newseg"
  let ?e = "GET_SEG_FROM_SEC g (?h + 1)"
  let ?s0 = "find_next_zero_bit ?fm ?e (newseg + 1)"
  have ok: "sec_ok g" and p: "0 < ?p" using wf by (simp_all add: free_wf_def sec_ok_def)
  have h: "?h < total_sections g" using sec_of_seg [OF ok n] by (simp add: GET_SEC_FROM_SEG_def)
  show ?thesis
  proof (cases "\<not> new_sec \<and> (newseg + 1) mod ?p \<noteq> 0 \<and> ?s0 < ?e")
    case True
    have le: "newseg + 1 \<le> ?e" using p dividend_less_div_times [of ?p newseg]
      by (simp add: GET_SEG_FROM_SEC_def GET_SEC_FROM_SEG_def add.commute)
    have gt: "newseg < ?s0" using find_next_bit_ge [OF le, of "\<lambda>i. \<not> ?fm i"] by (simp add: find_next_zero_bit_def)
    have sec: "?s0 div ?p = newseg div ?p"
    proof (rule div_nat_eqI)
      show "?p * (newseg div ?p) \<le> ?s0" using gt times_div_less_eq_dividend [of ?p newseg] by linarith
      show "?s0 < ?p * Suc (newseg div ?p)" using True by (simp add: GET_SEG_FROM_SEC_def GET_SEC_FROM_SEG_def mult.commute)
    qed
    have "?e \<le> main_segments g"
      using h ok unfolding GET_SEG_FROM_SEC_def sec_ok_def by (metis Suc_eq_plus1 Suc_leI mult_le_mono1)
    then have f: "?s0 \<in> free_set g st"
      using True find_next_zero_bit_clear [of ?fm ?e "newseg + 1"] by (simp add: free_set_def zero_bits_def)
    have "get_new_segment g st newseg new_sec dir = Inr (?s0, set_inuse g st ?s0)"
      using True got_it_free [OF f] unfolding get_new_segment_def Let_def by simp
    then show ?thesis using f gt sec True by (auto simp: got_segment_def)
  next
    case False
    have pos: "0 < free_sections (free_i st)"
    proof (rule ccontr)
      assume "\<not> 0 < free_sections (free_i st)"
      with room obtain r where r: "\<not> new_sec" "newseg < r" "r div ?p = newseg div ?p" "\<not> ?fm r"
        by (auto simp: room_after_def)
      note o = own_section [OF p r(2,3)]
      have "?s0 \<le> r" using r o(2) by (intro find_next_zero_bit_hit) (simp_all add: GET_SEC_FROM_SEG_def)
      with False r o show False by (simp add: GET_SEC_FROM_SEG_def)
    qed
    have "get_new_segment g st newseg new_sec dir =
      (case find_section g (free_i st) dir ?h False ?h of
           Inl e \<Rightarrow> Inl e
         | Inr (secno, go_left, left_start) \<Rightarrow>
             (let zoneno = GET_ZONE_FROM_SEC g secno
              in if \<not> avoid_zone g st dir (GET_ZONE_FROM_SEG g newseg) go_left zoneno then got_it g st (GET_SEG_FROM_SEC g secno)
                 else case find_section g (free_i st) dir (next_zone_hint g go_left zoneno) go_left left_start of
                   Inl e \<Rightarrow> Inl e
                 | Inr (secno, _, _) \<Rightarrow> got_it g st (GET_SEG_FROM_SEC g secno)))"
      unfolding get_new_segment_def Let_def using False by (simp only: if_False)
    then show ?thesis using get_new_segment_section [OF wf z h pos] by simp
  qed
qed

text \<open>
  C33. \<open>get_new_segment\<close> succeeds whenever a section is free, or a segment behind the hint in its own
  section if that is allowed. The segment it returns was free; it is the next free one of the
  same section or the first of an entirely free section. Exactly this segment is marked used,
  the counter drops by one and the maps stay consistent.
\<close>

theorem get_new_segment_correct:
  assumes wf: "free_wf g (free_i st)" and z: "0 < secs_per_zone g" and n: "newseg < main_segments g"
    and room: "room_after g st new_sec newseg"
  shows "\<exists>s st'. get_new_segment g st newseg new_sec dir = Inr (s, st') \<and> got_segment g st new_sec newseg s
    \<and> free_wf g (free_i st') \<and> free_set g st' = free_set g st - {s}
    \<and> Suc (free_segments (free_i st')) = free_segments (free_i st) \<and> need_fsck st' = need_fsck st"
proof -
  obtain s where s: "get_new_segment g st newseg new_sec dir = Inr (s, set_inuse g st s)" "got_segment g st new_sec newseg s"
    using get_new_segment_spec [OF assms] by blast
  have f: "s \<in> free_set g st" using s(2) by (simp add: got_segment_def)
  show ?thesis using s fpool.take_invar [OF wf f] fpool.take_free [OF wf f] fpool.take_count [OF wf f]
    by (auto simp: set_inuse_eq)
qed

theorem get_new_segment_correct_witness:
  "\<exists>s st'. get_new_segment geo10 sm_example 4 True ALLOC_LEFT = Inr (s, st') \<and> free_set geo10 st' = {0, 1} - {s}"
proof -
  have "free_wf geo10 (free_i sm_example)" using sm_example_wf(1) by (simp add: sm_nvm_wf_def)
  moreover have "room_after geo10 sm_example True 4" by (simp add: room_after_def)
  ultimately show ?thesis
    using get_new_segment_correct [of geo10 sm_example 4 True ALLOC_LEFT] sm_example_wf(2) by auto
qed

text \<open>
  Going left, the second search for another zone never finds one: \<open>find_next_zero_bit\<close> meets the
  section found before, so \<open>left_start\<close> is not moved and the same section is taken again.
\<close>

lemma left_search_same_zone:
  assumes "find_section g fi ALLOC_LEFT hint False hint = Inr (c, True, l)" and "GET_ZONE_FROM_SEC g c \<noteq> 0"
  shows "find_section g fi ALLOC_LEFT (next_zone_hint g True (GET_ZONE_FROM_SEC g c)) True l = Inr (c, True, c)"
proof -
  let ?m = "free_secmap fi" and ?n = "total_sections g"
  let ?z = "GET_ZONE_FROM_SEC g c"
  have c: "l = c" "c < ?n" and sc: "c = scan_left ?m ?n (u32_sub hint 1)"
    using assms(1) by (auto simp: find_section_def Let_def split: if_splits)
  have "\<not> ?m (scan_left ?m ?n j)" if "scan_left ?m ?n j < ?n" for j
    using that find_next_zero_bit_clear [of ?m ?n 0] by (induction j) (auto split: if_splits)
  then have free: "\<not> ?m c" using sc c(2) by metis
  have "c div secs_per_zone g * secs_per_zone g \<le> c" by (rule div_times_less_eq_dividend)
  then have "?z * secs_per_zone g - 1 \<le> c" unfolding GET_ZONE_FROM_SEC_def by linarith
  then have "find_next_zero_bit ?m ?n (?z * secs_per_zone g - 1) < ?n"
    using find_next_zero_bit_hit [of "?z * secs_per_zone g - 1" c ?n ?m] free c(2) by simp
  then show ?thesis using c free scan_left_here [of ?m c ?n] by (simp add: find_section_def next_zone_hint_def Let_def)
qed

end
