(* ===== verification/Alloc_Block.thy ===== *)
theory Alloc_Block
  imports Curseg
begin

text \<open>
  Handing out blocks: the invariant that ties the logs, the segment table, the free map, the dirty
  lists and the NVM mapping together, and its preservation by opening a log segment (\<open>new_curseg\<close>,
  \<open>change_curseg\<close>) and by \<open>f2fs_allocate_data_block\<close> of \<open>src/segment.c\<close>. No block is handed out that
  is valid or that the last checkpoint refers to.
\<close>

subsection \<open>The invariant\<close>

text \<open>A log stands on a used segment; its next block is free, and so is the rest of an LFS log.\<close>

definition log_ok :: "f2fs_geo \<Rightarrow> sm_state \<Rightarrow> curseg_info \<Rightarrow> bool" where
  "log_ok g st c \<longleftrightarrow> cs_segno c < main_segments g \<and> free_segmap (free_i st) (cs_segno c)
     \<and> cs_next_blkoff c \<le> blocks_per_seg g
     \<and> (cs_next_blkoff c < blocks_per_seg g \<longrightarrow> \<not> kept_map (get_seg_entry st (cs_segno c)) (cs_next_blkoff c))
     \<and> (alloc_type c = LFS \<longrightarrow> (\<forall>i < blocks_per_seg g. cs_next_blkoff c \<le> i \<longrightarrow> \<not> kept_map (get_seg_entry st (cs_segno c)) i))"

definition free_clean :: "f2fs_geo \<Rightarrow> sm_state \<Rightarrow> bool" where
  "free_clean g st \<longleftrightarrow> (\<forall>s \<in> free_set g st. \<not> dirty_segmap (dirty_i st) DIRTY s
     \<and> (\<forall>i < blocks_per_seg g. \<not> kept_map (get_seg_entry st s) i))"

definition cursors_ok :: "f2fs_geo \<Rightarrow> sm_state \<Rightarrow> bool" where
  "cursors_ok g st \<longleftrightarrow> (\<forall>m. last_victim (sit_i st) m < main_segments g)"

definition sm_core :: "f2fs_geo \<Rightarrow> sm_state \<Rightarrow> bool" where
  "sm_core g st \<longleftrightarrow> geo_ok g \<and> 0 < secs_per_zone g \<and> 0 < blocks_per_seg g \<and> sm_nvm_wf g st \<and> sit_wf g st \<and> dirty_wf g st
     \<and> free_clean g st \<and> (\<forall>t. log_ok g st (CURSEG_I st t)) \<and> inj (\<lambda>t. cs_segno (CURSEG_I st t)) \<and> cursors_ok g st"

definition sm_inv :: "f2fs_geo \<Rightarrow> sm_state \<Rightarrow> bool" where
  "sm_inv g st \<longleftrightarrow> sm_core g st \<and> (\<forall>t. has_curseg_space g st t)"

text \<open>The blocks the last checkpoint refers to, and the node blocks written since.\<close>

definition ckpt_set :: "f2fs_geo \<Rightarrow> sm_state \<Rightarrow> (nat \<times> nat) set" where
  "ckpt_set g st = {(s, i). s < main_segments g \<and> i < blocks_per_seg g \<and> ckpt_valid_map (get_seg_entry st s) i}"

lemma ckpt_kept: "ckpt_set g st \<subseteq> kept_set g st"
  by (auto simp: ckpt_set_def kept_set_def kept_map_def)

lemma ckpt_cong: "get_seg_entry st' = get_seg_entry st \<Longrightarrow> ckpt_set g st' = ckpt_set g st"
  by (simp add: ckpt_set_def)

lemma sm_coreD:
  assumes "sm_core g st"
  shows "geo_ok g" "0 < secs_per_zone g" "0 < blocks_per_seg g" "sm_nvm_wf g st" "sit_wf g st" "dirty_wf g st" "free_clean g st"
    "log_ok g st (CURSEG_I st t)" "inj (\<lambda>t. cs_segno (CURSEG_I st t))" "cursors_ok g st"
    "free_wf g (free_i st)" "mpt_wf (main_segments g) (sm_nsbi st)" "blocks_per_seg g \<le> 512" "main_segments g < NULL_SEGNO"
  using assms by (simp_all add: sm_core_def sm_nvm_wf_def sit_wf_def)

lemma log_distinct: "inj (\<lambda>t. cs_segno (CURSEG_I st t)) \<Longrightarrow> cs_segno (CURSEG_I st t) = cs_segno (CURSEG_I st u) \<longleftrightarrow> t = u"
  by (auto simp: inj_def)

lemma free_set_iff: "s \<in> free_set g st \<longleftrightarrow> s < main_segments g \<and> \<not> free_segmap (free_i st) s"
  by (simp add: free_set_def zero_bits_def)

text \<open>States that agree on what the invariant reads, the logs apart.\<close>

lemma sm_parts_cong:
  assumes "get_seg_entry st' = get_seg_entry st" "free_segmap (free_i st') = free_segmap (free_i st)"
    "dirty_segmap (dirty_i st') = dirty_segmap (dirty_i st)"
  shows "log_ok g st' c = log_ok g st c" "free_clean g st' = free_clean g st"
  using assms by (simp_all add: log_ok_def free_clean_def free_set_def)

subsection \<open>Writing into a log\<close>

lemma f2fs_test_bit_map: "f2fs_test_bit (msb_byte m) i = m i"
  by (rule f2fs_test_bit_msb_byte) simp

lemma next_free_blkoff_eq:
  assumes "blocks_per_seg g \<le> 512"
  shows "next_free_blkoff g st c start = c\<lparr>cs_next_blkoff := find_next_zero_bit (kept_map (get_seg_entry st (cs_segno c))) (blocks_per_seg g) start\<rparr>"
proof -
  have k: "(\<lambda>i. ckpt_valid_map se i \<or> cur_valid_map se i) = kept_map se" for se by (auto simp: kept_map_def)
  have "f2fs_test_bit (msb_byte m) = m" for m by (simp add: fun_eq_iff f2fs_test_bit_map)
  moreover have "find_next_zero_bit m (blocks_per_seg g) start mod 65536 = find_next_zero_bit m (blocks_per_seg g) start" for m
    using find_next_zero_bit_le [of m "blocks_per_seg g" start] assms by simp
  ultimately show ?thesis
    by (simp add: next_free_blkoff_def Let_def find_rev_next_zero_bit_spec k)
qed

lemma refresh_log_ok:
  assumes ok: "log_ok g st c" and sp: "cs_next_blkoff c < blocks_per_seg g" and b: "blocks_per_seg g \<le> 512"
    and e: "get_seg_entry st' (cs_segno c) = se" "kept_map se = (kept_map (get_seg_entry st (cs_segno c)))(cs_next_blkoff c := True)"
    and f: "free_segmap (free_i st') = free_segmap (free_i st)"
  shows "log_ok g st' (refresh_next_blkoff g st c)"
proof -
  let ?k = "kept_map (get_seg_entry st (cs_segno c))" and ?o = "cs_next_blkoff c" and ?b = "blocks_per_seg g"
  show ?thesis
  proof (cases "alloc_type c = SSR")
    case True
    let ?n = "find_next_zero_bit ?k ?b (?o + 1)"
    have "?o + 1 \<le> ?n" using sp find_next_bit_ge [of "?o + 1" ?b "\<lambda>i. \<not> ?k i"] by (simp add: find_next_zero_bit_def)
    then show ?thesis using True ok e f find_next_zero_bit_le [of ?k ?b "?o + 1"] find_next_zero_bit_clear [of ?k ?b "?o + 1"]
      by (simp add: log_ok_def refresh_next_blkoff_def next_free_blkoff_eq [OF b])
  next
    case False
    then have l: "alloc_type c = LFS" by (cases "alloc_type c") simp_all
    have "(?o + 1) mod 65536 = ?o + 1" using sp b by simp
    then show ?thesis using l ok e f sp by (simp add: log_ok_def refresh_next_blkoff_def)
  qed
qed

text \<open>The block a log is about to hand out is unused.\<close>

lemma next_block:
  assumes "sm_core g st" and "has_curseg_space g st t"
  shows "NEXT_FREE_BLKADDR g (CURSEG_I st t) = main_block g (cs_segno (CURSEG_I st t)) (cs_next_blkoff (CURSEG_I st t))"
    "(cs_segno (CURSEG_I st t), cs_next_blkoff (CURSEG_I st t)) \<notin> kept_set g st"
    "\<not> cur_valid_map (get_seg_entry st (cs_segno (CURSEG_I st t))) (cs_next_blkoff (CURSEG_I st t))"
proof -
  let ?c = "CURSEG_I st t"
  have l: "log_ok g st ?c" "cs_next_blkoff ?c < blocks_per_seg g" and g: "geo_ok g" "0 < blocks_per_seg g"
    using assms sm_coreD(1,3,8) by (auto simp: has_curseg_space_def)
  then have s: "cs_segno ?c < main_segments g" by (simp add: log_ok_def)
  have "START_BLOCK g (cs_segno ?c) = main_block g (cs_segno ?c) 0" by (rule START_BLOCK_main [OF g(1) s])
  then show "NEXT_FREE_BLKADDR g ?c = main_block g (cs_segno ?c) (cs_next_blkoff ?c)"
    using main_block_range(1) [OF g(1) s l(2)] by (simp add: NEXT_FREE_BLKADDR_def main_block_def)
  show "(cs_segno ?c, cs_next_blkoff ?c) \<notin> kept_set g st" using l by (simp add: log_ok_def kept_set_def)
  then show "\<not> cur_valid_map (get_seg_entry st (cs_segno ?c)) (cs_next_blkoff ?c)"
    using l s by (simp add: kept_set_def kept_map_def)
qed

text \<open>The steps of \<open>f2fs_allocate_data_block\<close> before the old block is dropped.\<close>

definition log_block :: "disk_fmt \<Rightarrow> f2fs_geo \<Rightarrow> sb_opts \<Rightarrow> nat \<Rightarrow> sm_state \<Rightarrow> f2fs_summary \<Rightarrow> seg_type \<Rightarrow> sm_state" where
  "log_block d g opts now st sm t =
     (let st1 = add_sum_entry st t sm;
          st2 = set_curseg st1 t (refresh_next_blkoff g st1 (CURSEG_I st1 t))
      in update_sit_entry d g (opt_discard opts) now st2 (NEXT_FREE_BLKADDR g (CURSEG_I st t)) 1)"

lemma valid_kept: "valid_set g st \<subseteq> kept_set g st"
  by (auto simp: valid_set_def kept_set_def kept_map_def)

lemma entry_type [simp]: "se_type (entry_set disc off mt se) = se_type se" "se_type (entry_clear disc off mt se) = se_type se"
  by (simp_all add: entry_set_def entry_clear_def)

lemma sit_stepD:
  assumes "sit_step g st s se x st'"
  shows "get_seg_entry st' a = (if a = s then se else get_seg_entry st a)" "free_i st' = free_i st" "dirty_i st' = dirty_i st"
    "curseg_array st' = curseg_array st" "sum_pages st' = sum_pages st" "sm_nsbi st' = sm_nsbi st" "need_fsck st' = need_fsck st"
    "last_victim (sit_i st') = last_victim (sit_i st)" "CURSEG_I st' = CURSEG_I st"
  using assms by (simp_all add: sit_step_def CURSEG_I_def fun_eq_iff)

lemma core_frame:
  assumes "sit_i st' = sit_i st" "free_i st' = free_i st" "dirty_i st' = dirty_i st" "sm_nsbi st' = sm_nsbi st"
  shows "sm_nvm_wf g st' = sm_nvm_wf g st" "sit_wf g st' = sit_wf g st" "dirty_wf g st' = dirty_wf g st"
    "free_clean g st' = free_clean g st" "log_ok g st' c = log_ok g st c" "cursors_ok g st' = cursors_ok g st"
    "get_seg_entry st' = get_seg_entry st" "valid_set g st' = valid_set g st" "kept_set g st' = kept_set g st"
  using assms by (simp_all add: sm_nvm_wf_def sit_wf_def dirty_wf_def free_clean_def log_ok_def cursors_ok_def
      get_seg_entry_def free_set_def valid_set_def kept_set_def fun_eq_iff)

lemma sit_step_core:
  assumes step: "sit_step g st s se x st'" and free: "free_clean g st" "free_segmap (free_i st) s" and n: "sm_nvm_wf g st"
  shows "sm_nvm_wf g st'" "free_clean g st'" "cursors_ok g st' = cursors_ok g st"
    "cs_segno c \<noteq> s \<Longrightarrow> log_ok g st' c = log_ok g st c"
  using sit_stepD [OF step] free n
  by (auto simp: sm_nvm_wf_def free_clean_def log_ok_def free_set_def cursors_ok_def zero_bits_def)

lemma log_block_core:
  fixes opts now sm
  assumes core: "sm_core g st" and sp: "has_curseg_space g st t"
    and real: "real_block d g (cs_segno (CURSEG_I st t)) (cs_next_blkoff (CURSEG_I st t))"
  defines "b \<equiv> (cs_segno (CURSEG_I st t), cs_next_blkoff (CURSEG_I st t))"
    and "st' \<equiv> log_block d g opts now st sm t"
  shows "sm_core g st'" "valid_set g st' = insert b (valid_set g st)" "kept_set g st' = insert b (kept_set g st)"
    "\<forall>u. u \<noteq> t \<longrightarrow> CURSEG_I st' u = CURSEG_I st u" "need_fsck st' = need_fsck st" "free_i st' = free_i st"
    "dirty_i st' = dirty_i st" "sm_nsbi st' = sm_nsbi st" "sm_load st' = sm_load st"
    "cs_segno (CURSEG_I st' t) = cs_segno (CURSEG_I st t)" "ckpt_set g st \<subseteq> ckpt_set g st'"
proof -
  let ?c = "CURSEG_I st t"
  let ?s = "cs_segno ?c" and ?o = "cs_next_blkoff ?c"
  note D = sm_coreD [OF core]
  define st1 where "st1 = add_sum_entry st t sm"
  define c1 where "c1 = CURSEG_I st1 t"
  define st2 where "st2 = set_curseg st1 t (refresh_next_blkoff g st1 c1)"
  have c1: "cs_segno c1 = ?s" "cs_next_blkoff c1 = ?o" "alloc_type c1 = alloc_type ?c"
    by (simp_all add: c1_def st1_def add_sum_entry_def Let_def)
  have f1: "sit_i st1 = sit_i st" "free_i st1 = free_i st" "dirty_i st1 = dirty_i st" "sm_nsbi st1 = sm_nsbi st"
    "need_fsck st1 = need_fsck st" "sm_load st1 = sm_load st"
    by (simp_all add: st1_def add_sum_entry_def Let_def) (simp add: set_curseg_def)
  have f2: "sit_i st2 = sit_i st" "free_i st2 = free_i st" "dirty_i st2 = dirty_i st" "sm_nsbi st2 = sm_nsbi st"
    "need_fsck st2 = need_fsck st" "sm_load st2 = sm_load st"
    using f1 by (simp_all add: st2_def) (simp add: set_curseg_def)
  have cs2: "CURSEG_I st2 u = (if u = t then refresh_next_blkoff g st1 c1 else CURSEG_I st u)" for u
    by (simp add: st2_def st1_def add_sum_entry_def Let_def)
  note F = core_frame [OF f2(1-4)] and F1 = core_frame [OF f1(1-4)]
  have free: "free_segmap (free_i st2) ?s" using D(8) [of t] f2(2) by (simp add: log_ok_def)
  have w: "sit_wf g st2" "\<not> cur_valid_map (get_seg_entry st2 ?s) ?o"
    using D(5) F(2,7) next_block(3) [OF core sp] by simp_all
  note U = update_sit_set [OF real w, of "opt_discard opts" now]
  have st': "st' = update_sit_entry d g (opt_discard opts) now st2 (main_block g ?s ?o) 1"
    using next_block(1) [OF core sp] by (simp add: st'_def log_block_def Let_def st2_def c1_def st1_def)
  note U = U [folded st'] and S = sit_stepD [OF U(4) [folded st']]
  note K = sit_step_core [OF U(4) _ free]
  show "valid_set g st' = insert b (valid_set g st)" "kept_set g st' = insert b (kept_set g st)"
    using U(2,3) F(8,9) by (simp_all add: b_def)
  show "need_fsck st' = need_fsck st" "free_i st' = free_i st" "dirty_i st' = dirty_i st" "sm_nsbi st' = sm_nsbi st"
    using S f2 by simp_all
  show "sm_load st' = sm_load st" using U(4) f2(6) by (simp add: sit_step_def)
  show "ckpt_set g st \<subseteq> ckpt_set g st'" using S(1) F(7) by (auto simp: ckpt_set_def entry_set_def)
  show cu: "\<forall>u. u \<noteq> t \<longrightarrow> CURSEG_I st' u = CURSEG_I st u" using S(9) cs2 by simp
  have seg: "cs_segno (refresh_next_blkoff g st1 c1) = ?s" by (simp add: refresh_next_blkoff_def next_free_blkoff_def Let_def c1)
  then show cst: "cs_segno (CURSEG_I st' t) = ?s" using S(9) cs2 by simp
  have inj': "inj (\<lambda>u. cs_segno (CURSEG_I st' u))"
  proof -
    have "(\<lambda>u. cs_segno (CURSEG_I st' u)) = (\<lambda>u. cs_segno (CURSEG_I st u))" using cu cst by (metis (no_types))
    with D(9) show ?thesis by simp
  qed
  have "log_ok g st' (CURSEG_I st' u)" for u
  proof (cases "u = t")
    case True
    have "log_ok g st c1" using D(8) [of t] c1 by (simp add: log_ok_def)
    then have "log_ok g st1 c1" using F1(5) by simp
    moreover have "kept_map (get_seg_entry st' ?s) = (kept_map (get_seg_entry st1 ?s))(?o := True)"
      using S(1) F(7) F1(7) by (simp add: kept_map_set)
    ultimately have "log_ok g st' (refresh_next_blkoff g st1 c1)"
      using sp D(13) S(2) f2 f1 c1 by (intro refresh_log_ok) (simp_all add: has_curseg_space_def)
    then show ?thesis using True S(9) cs2 by simp
  next
    case False
    then have "cs_segno (CURSEG_I st u) \<noteq> ?s" using log_distinct [OF D(9)] by simp
    then show ?thesis using False cu K(4) F(4,5,1) D(4,7,8) by simp
  qed
  moreover have "dirty_wf g st'" using sit_step_dirty_wf [OF U(4)] D(6) F(3) by simp
  ultimately show "sm_core g st'"
    using U(1) K(1-3) F(1,4,6) D(1-4,7,10) inj' by (simp add: sm_core_def)
qed

subsection \<open>Dropping a block and keeping the lists\<close>

lemma drop_block_core:
  fixes disc now
  assumes core: "sm_core g st" and v: "(s, off) \<in> valid_set g st" and real: "real_block d g s off"
  defines "st' \<equiv> update_sit_entry d g disc now st (main_block g s off) (- 1)"
  shows "sm_core g st'" "valid_set g st' = valid_set g st - {(s, off)}" "kept_set g st' \<subseteq> kept_set g st"
    "CURSEG_I st' = CURSEG_I st" "need_fsck st' = need_fsck st" "free_i st' = free_i st" "dirty_i st' = dirty_i st"
    "sm_nsbi st' = sm_nsbi st" "sm_load st' = sm_load st" "ckpt_set g st' = ckpt_set g st"
proof -
  note D = sm_coreD [OF core]
  have s: "s < main_segments g" "off < blocks_per_seg g" and c: "cur_valid_map (get_seg_entry st s) off"
    using v by (simp_all add: valid_set_def)
  note U = update_sit_clear [OF real D(5) c, of disc now, folded st'_def] and S = sit_stepD [OF update_sit_clear(4) [OF real D(5) c, of disc now, folded st'_def]]
  have "s \<notin> free_set g st" using D(7) s c by (auto simp: free_clean_def kept_map_def)
  then have free: "free_segmap (free_i st) s" using s by (simp add: free_set_iff)
  note K = sit_step_core [OF U(4) D(7) free D(4)]
  show "valid_set g st' = valid_set g st - {(s, off)}" by (rule U(2))
  show "kept_set g st' \<subseteq> kept_set g st" using U(3) by auto
  show cs: "CURSEG_I st' = CURSEG_I st" and "need_fsck st' = need_fsck st" "free_i st' = free_i st" "dirty_i st' = dirty_i st" "sm_nsbi st' = sm_nsbi st"
    using S by simp_all
  show "sm_load st' = sm_load st" using U(4) by (simp add: sit_step_def)
  show "ckpt_set g st' = ckpt_set g st" using S(1) by (auto simp: ckpt_set_def entry_clear_def split: if_splits)
  have km: "\<not> kept_map (get_seg_entry st' a) i" if "\<not> kept_map (get_seg_entry st a) i" for a i
    using that S(1) by (auto simp: kept_map_clear) (simp add: kept_map_def)
  have "log_ok g st' (CURSEG_I st u)" for u
    using D(8) [of u] km S(2) by (auto simp: log_ok_def)
  moreover have "dirty_wf g st'" using sit_step_dirty_wf [OF U(4)] D(6) by simp
  ultimately show "sm_core g st'" using U(1) K(1-3) D(1-3,9,10) cs unfolding sm_core_def by simp
qed

lemma has_space_frame: "CURSEG_I st' = CURSEG_I st \<Longrightarrow> has_curseg_space g st' t = has_curseg_space g st t"
  by (simp add: has_curseg_space_def)

lemma locate_core:
  assumes core: "sm_core g st" and s: "s < main_segments g" "s \<notin> free_set g st \<or> valid_blocks (get_seg_entry st s) = 0"
  defines "st' \<equiv> locate_dirty_segment g st s"
  shows "sm_core g st'" "need_fsck st' = need_fsck st"
proof -
  note D = sm_coreD [OF core]
  have t: "se_type (get_seg_entry st s) < 6" using D(5) s(1) by (simp add: sit_wf_def seg_wf_def)
  note L = locate_dirty_wf [OF D(6) s(1) t D(14), folded st'_def]
  have f: "sit_i st' = sit_i st" "free_i st' = free_i st" "sm_nsbi st' = sm_nsbi st" "CURSEG_I st' = CURSEG_I st"
    by (simp_all add: st'_def CURSEG_I_def fun_eq_iff)
  have "\<not> dirty_segmap (dirty_i st') DIRTY a" if "a \<in> free_set g st" for a
  proof (cases "a = s")
    case True
    with that s have "valid_blocks (get_seg_entry st s) = 0" by simp
    moreover have "\<not> IS_CURSEG st s"
    proof
      assume "IS_CURSEG st s"
      then obtain u where "s = cs_segno (CURSEG_I st u)" by (auto simp: IS_CURSEG_iff)
      with D(8) [of u] that True show False by (simp add: log_ok_def free_set_iff)
    qed
    ultimately show ?thesis using L(4) True by simp
  next
    case False
    then show ?thesis using L(3) that D(7) by (simp add: free_clean_def)
  qed
  then have "free_clean g st'" using D(7) f by (simp add: free_clean_def free_set_def get_seg_entry_def)
  moreover have "log_ok g st' (CURSEG_I st' u)" for u
    using D(8) [of u] f by (simp add: log_ok_def get_seg_entry_def)
  moreover have "sm_nvm_wf g st'" "sit_wf g st'" "cursors_ok g st'"
    using D(4,5,10) f sit_wf_cong(1) [OF f(1)] by (simp_all add: sm_nvm_wf_def free_set_def cursors_ok_def)
  ultimately show "sm_core g st'" using D(1-3,9) L(1) f(4) unfolding sm_core_def by simp
  show "need_fsck st' = need_fsck st" by (rule L(2))
qed

subsection \<open>Opening a log segment\<close>

lemma mark_sit_entry_wf:
  assumes "sit_wf g st" and "s < main_segments g"
  shows "sit_wf g (snd (mark_sit_entry_dirty st s))"
proof -
  have "card (vbits (dirty_sentries_bitmap (sit_i st)) (main_segments g)) < 4294967295"
    using card_vbits_le [of "dirty_sentries_bitmap (sit_i st)" "main_segments g"] assms(1) unfolding sit_wf_def by linarith
  then show ?thesis using assms
    by (simp add: sit_wf_def mark_sit_entry_dirty_def Let_def get_seg_entry_def card_vbits_set)
qed

lemma curseg_entry [simp]: "get_seg_entry (set_curseg st t c) a = get_seg_entry st a"
  by (simp add: get_seg_entry_def set_curseg_def)

lemma set_type_entry:
  "get_seg_entry (set_sit_entry_type st t s True) a = (if a = s then (get_seg_entry st s)\<lparr>se_type := t\<rparr> else get_seg_entry st a)"
  by (simp add: set_sit_entry_type_def)

lemma set_type_wf:
  assumes "sit_wf g st" and "s < main_segments g" and "t < 6"
  shows "sit_wf g (set_sit_entry_type st t s True)"
proof -
  have "seg_wf g ((get_seg_entry st s)\<lparr>se_type := t\<rparr>)" using assms by (simp add: sit_wf_def seg_wf_def kept_map_def)
  moreover have "valid_blocks (get_seg_entry (set_seg_entry st s ((get_seg_entry st s)\<lparr>se_type := t\<rparr>)) a) = valid_blocks (get_seg_entry st a)" for a
    by simp
  moreover have "dirty_sentries (sit_i (set_seg_entry st s se)) = dirty_sentries (sit_i st)"
    "dirty_sentries_bitmap (sit_i (set_seg_entry st s se)) = dirty_sentries_bitmap (sit_i st)"
    "written_valid_blocks (sit_i (set_seg_entry st s se)) = written_valid_blocks (sit_i st)"
    "sec_entries (sit_i (set_seg_entry st s se)) = sec_entries (sit_i st)" for se
    by (simp_all add: set_seg_entry_def)
  ultimately have "sit_wf g (set_seg_entry st s ((get_seg_entry st s)\<lparr>se_type := t\<rparr>))"
    using assms unfolding sit_wf_def by simp
  then show "sit_wf g (set_sit_entry_type st t s True)"
    using assms(2) by (simp add: set_sit_entry_type_def mark_sit_entry_wf)
qed

lemma set_type_frame [simp]:
  "free_i (set_sit_entry_type st t s m) = free_i st" "dirty_i (set_sit_entry_type st t s m) = dirty_i st"
  "curseg_array (set_sit_entry_type st t s m) = curseg_array st" "sm_nsbi (set_sit_entry_type st t s m) = sm_nsbi st"
  "need_fsck (set_sit_entry_type st t s m) = need_fsck st" "sum_pages (set_sit_entry_type st t s m) = sum_pages st"
  "last_victim (sit_i (set_sit_entry_type st t s m)) = last_victim (sit_i st)"
  "sm_load (set_sit_entry_type st t s m) = sm_load st" "CURSEG_I (set_sit_entry_type st t s m) = CURSEG_I st"
  by (simp_all add: set_sit_entry_type_def set_seg_entry_def mark_sit_entry_dirty_def Let_def CURSEG_I_def fun_eq_iff)

lemma set_type_curseg: "sit_i (set_sit_entry_type (set_curseg st u c) t s m) = sit_i (set_sit_entry_type st t s m)"
  by (simp add: set_sit_entry_type_def set_curseg_def set_seg_entry_def get_seg_entry_def mark_sit_entry_dirty_def Let_def)

text \<open>A log that moves to a used segment no other log stands on and no dirty list holds.\<close>

lemma open_core:
  assumes core: "sm_core g st" and s: "s < main_segments g" "\<not> dirty_segmap (dirty_i st) DIRTY s"
    and other: "\<forall>u. u \<noteq> t \<longrightarrow> cs_segno (CURSEG_I st u) \<noteq> s" and c: "cs_segno c = s" "log_ok g st c"
    and st': "sit_i st' = sit_i (set_sit_entry_type st (type_no t) s True)" "free_i st' = free_i st" "dirty_i st' = dirty_i st"
      "sm_nsbi st' = sm_nsbi st" "\<forall>u. CURSEG_I st' u = (if u = t then c else CURSEG_I st u)"
  shows "sm_core g st'" "valid_set g st' = valid_set g st" "kept_set g st' = kept_set g st" "ckpt_set g st' = ckpt_set g st"
proof -
  note D = sm_coreD [OF core]
  let ?st1 = "set_sit_entry_type st (type_no t) s True"
  note T = set_type_wf [OF D(5) s(1), of "type_no t", simplified]
  have ge: "get_seg_entry st' a = (if a = s then (get_seg_entry st s)\<lparr>se_type := type_no t\<rparr> else get_seg_entry st a)" for a
    using set_type_entry [of st "type_no t" s a] st'(1) by (simp add: get_seg_entry_def)
  then have maps: "cur_valid_map (get_seg_entry st' a) = cur_valid_map (get_seg_entry st a)"
    "kept_map (get_seg_entry st' a) = kept_map (get_seg_entry st a)"
    "ckpt_valid_map (get_seg_entry st' a) = ckpt_valid_map (get_seg_entry st a)" for a
    by (simp_all add: kept_map_def)
  show "valid_set g st' = valid_set g st" "kept_set g st' = kept_set g st" "ckpt_set g st' = ckpt_set g st"
    by (simp_all add: valid_set_def kept_set_def ckpt_set_def maps)
  have "sit_wf g st'" using T sit_wf_cong(1) [OF st'(1)] by simp
  moreover have "free_clean g st'" using D(7) st'(2,3) by (simp add: free_clean_def free_set_def maps)
  moreover have "log_ok g st' c' = log_ok g st c'" for c' using st'(2) by (simp add: log_ok_def maps)
  then have "log_ok g st' (CURSEG_I st' u)" for u using D(8) [of u] c(2) st'(5) by simp
  moreover have "inj (\<lambda>u. cs_segno (CURSEG_I st' u))"
    using log_distinct [OF D(9)] other c(1) st'(5) by (auto simp: inj_def)
  moreover have "cursors_ok g st'" using D(10) st'(1) by (simp add: cursors_ok_def)
  moreover have "sm_nvm_wf g st'" using D(4) st'(2,4) by (simp add: sm_nvm_wf_def free_set_def)
  moreover have "dirty_wf g st'"
  proof -
    have "dirty_segmap (dirty_i st) u a \<longleftrightarrow> dirty_segmap (dirty_i st) DIRTY a \<and> se_type (get_seg_entry st' a) = u"
      if "a < main_segments g" "u < 6" for a u
      using that D(6) s(2) ge [of a] by (auto simp: dirty_wf_def)
    then show ?thesis using D(6) st'(3) by (simp add: dirty_wf_def)
  qed
  ultimately show "sm_core g st'" using D(1-3) unfolding sm_core_def by simp
qed

lemma lfu_nvm: "nvm_alloc sd nv lk f ls (lfu_set n s v) t = nvm_alloc sd nv lk f ls n t"
  by (simp add: nvm_alloc_def)

text \<open>The segment manager without its logs: taking a free segment.\<close>

lemma take_core:
  assumes core: "sm_core g st" and s: "s \<in> free_set g st"
  shows "sm_core g (set_inuse g st s)" "free_segmap (free_i (set_inuse g st s)) s"
    "valid_set g (set_inuse g st s) = valid_set g st" "kept_set g (set_inuse g st s) = kept_set g st"
    "CURSEG_I (set_inuse g st s) = CURSEG_I st" "dirty_i (set_inuse g st s) = dirty_i st"
    "nvm_of (main_segments g) (sm_nsbi (set_inuse g st s)) s = None"
proof -
  let ?st = "set_inuse g st s"
  note D = sm_coreD [OF core]
  have f: "sit_i ?st = sit_i st" "dirty_i ?st = dirty_i st" "CURSEG_I ?st = CURSEG_I st"
    by (simp_all add: set_inuse_eq CURSEG_I_def fun_eq_iff)
  then show "CURSEG_I ?st = CURSEG_I st" "dirty_i ?st = dirty_i st" by simp_all
  show "free_segmap (free_i ?st) s" by (simp add: set_inuse_eq)
  have fs: "free_set g ?st = free_set g st - {s}" by (rule fpool.take_free [OF D(11) s])
  have nv: "nvm_of (main_segments g) (sm_nsbi ?st) = nvm_of (main_segments g) (sm_nsbi st)" by (simp add: set_inuse_eq)
  then show "nvm_of (main_segments g) (sm_nsbi ?st) s = None" using D(4) s by (auto simp: sm_nvm_wf_def)
  show "valid_set g ?st = valid_set g st" "kept_set g ?st = kept_set g st" using sit_wf_cong(2,3) [OF f(1)] by simp_all
  have "sm_nvm_wf g ?st" using D(4) fpool.take_invar [OF D(11) s] fs nv by (auto simp: sm_nvm_wf_def) (simp add: set_inuse_eq)
  moreover have ge: "get_seg_entry ?st = get_seg_entry st" using f(1) by (simp add: get_seg_entry_def fun_eq_iff)
  then have "free_clean g ?st" using D(7) fs f(2) by (simp add: free_clean_def)
  moreover have "log_ok g ?st (CURSEG_I st u)" for u
    using D(8) [of u] ge by (simp add: log_ok_def) (simp add: set_inuse_eq)
  moreover have "sit_wf g ?st" "dirty_wf g ?st" "cursors_ok g ?st"
    using D(5,6,10) sit_wf_cong(1) [OF f(1)] f ge by (simp_all add: dirty_wf_def cursors_ok_def)
  ultimately show "sm_core g ?st" using D(1-3,9) f(3) unfolding sm_core_def by simp
qed

lemma alloc_shadow:
  assumes wf: "mpt_wf S n" and s: "s < S" "nvm_of S n s = None"
  obtains r n' where "nvm_allocate_segment n s True = Some (r, n')" "r \<noteq> Inl EBUG" "mpt_wf S n'"
    "nvm_of S n' = nvm_of S n \<or> (\<exists>b. nvm_of S n' = (nvm_of S n)(s \<mapsto> b))"
proof (cases "free_segs n = 0")
  case True
  then show thesis using wf by (intro that [of "Inl ENVMNOSPACE" n]) (simp_all add: nvm_allocate_segment_def)
next
  case False
  then have "0 < free_segs n" by simp
  then obtain b where b: "b < nvm_segs n" "\<not> segment_map n b"
    and eq: "nvm_allocate_segment n s True = Some (Inr b, if True then create_mapping (took n b) s b (rw_map OR rw_redirect) else took n b)"
    by (rule nvm_allocate_segment_unfold [OF wf])
  note T = took_wf [OF wf b]
  have "nvm_of S (create_mapping (took n b) s b (rw_map OR rw_redirect)) = (nvm_of S n)(s \<mapsto> b)"
    using T s mp.lookup_bind [of S "took n b" s b] by simp
  moreover have "mpt_wf S (create_mapping (took n b) s b (rw_map OR rw_redirect))"
    using T s by (intro mp.invar_bind) simp_all
  ultimately show thesis using eq by (intro that) auto
qed

definition load_ok :: "load_env \<Rightarrow> sm_state \<Rightarrow> seg_type \<Rightarrow> bool" where
  "load_ok env st t \<longleftrightarrow>
     nvm_alloc (ssd_dev env) (nvm_dev env) (env_lock env) (env_file env) (sm_load st) (sm_nsbi st) t \<noteq> None"

lemma shadow_core:
  assumes core: "sm_core g st" and n: "nvm_of (main_segments g) (sm_nsbi st) (cs_segno (CURSEG_I st t)) = None"
    and load: "load_ok env st t"
  obtains st' where "shadow_curseg env st t = Inr st'" "sm_core g st'" "CURSEG_I st' = CURSEG_I st"
    "valid_set g st' = valid_set g st" "kept_set g st' = kept_set g st" "need_fsck st' = need_fsck st" "free_i st' = free_i st"
    "dirty_i st' = dirty_i st" "get_seg_entry st' = get_seg_entry st"
proof -
  note D = sm_coreD [OF core]
  let ?s = "cs_segno (CURSEG_I st t)" and ?S = "main_segments g"
  have s: "?s < ?S" "?s \<notin> free_set g st" using D(8) [of t] by (simp_all add: log_ok_def free_set_iff)
  have wfI: "sm_core g (st\<lparr>sm_nsbi := n', sm_load := ls\<rparr>)"
    if "mpt_wf ?S n'" "dom (nvm_of ?S n') \<subseteq> insert ?s (dom (nvm_of ?S (sm_nsbi st)))" for n' ls
  proof -
    let ?st = "st\<lparr>sm_nsbi := n', sm_load := ls\<rparr>"
    have ge: "get_seg_entry ?st = get_seg_entry st" "CURSEG_I ?st = CURSEG_I st" "sit_wf g ?st = sit_wf g st"
      by (simp_all add: get_seg_entry_def CURSEG_I_def fun_eq_iff sit_wf_def)
    have "sm_nvm_wf g ?st" using D(4) that s(2) by (auto simp: sm_nvm_wf_def free_set_def)
    moreover have "log_ok g ?st c = log_ok g st c" for c by (simp add: log_ok_def ge)
    ultimately show ?thesis
      using D(1-3,5-10) ge unfolding sm_core_def by (simp add: dirty_wf_def free_clean_def free_set_def cursors_ok_def)
  qed
  obtain yes ls where a: "nvm_alloc (ssd_dev env) (nvm_dev env) (env_lock env) (env_file env) (sm_load st) (sm_nsbi st) t = Some (yes, ls)"
    using load by (auto simp: load_ok_def)
  obtain r n' where A: "nvm_allocate_segment (sm_nsbi st) ?s True = Some (r, n')" "r \<noteq> Inl EBUG" "mpt_wf ?S n'"
    and dm: "nvm_of ?S n' = nvm_of ?S (sm_nsbi st) \<or> (\<exists>b. nvm_of ?S n' = (nvm_of ?S (sm_nsbi st))(?s \<mapsto> b))"
    by (rule alloc_shadow [OF D(12) s(1) n])
  then have dom: "dom (nvm_of ?S n') \<subseteq> insert ?s (dom (nvm_of ?S (sm_nsbi st)))" by auto
  define n1 where "n1 = (if yes then n' else sm_nsbi st)"
  have "shadow_curseg env st t = Inr (st\<lparr>sm_nsbi := n1, sm_load := ls\<rparr>)"
    using a A(1,2) by (cases yes) (auto simp: shadow_curseg_def n1_def split: sum.splits nvm_err.splits)
  moreover have "sm_core g (st\<lparr>sm_nsbi := n1, sm_load := ls\<rparr>)"
    using wfI [OF A(3) dom] wfI [OF D(12)] by (auto simp: n1_def)
  ultimately show thesis
    by (intro that [of "st\<lparr>sm_nsbi := n1, sm_load := ls\<rparr>"])
      (simp_all add: CURSEG_I_def get_seg_entry_def valid_set_def kept_set_def fun_eq_iff)
qed

lemma new_curseg_core:
  assumes core: "sm_core g st" and room: "0 < free_sections (free_i st)" and load: "load_ok env st t"
  obtains st' where "new_curseg g opts env st t new_sec = Inr st'" "sm_core g st'" "has_curseg_space g st' t"
    "\<forall>u. u \<noteq> t \<longrightarrow> CURSEG_I st' u = CURSEG_I st u" "valid_set g st' = valid_set g st" "kept_set g st' = kept_set g st"
    "need_fsck st' = need_fsck st" "cs_segno (CURSEG_I st' t) \<in> free_set g st" "alloc_type (CURSEG_I st' t) = LFS"
    "free_set g st' = free_set g st - {cs_segno (CURSEG_I st' t)}" "dirty_i st' = dirty_i st" "ckpt_set g st' = ckpt_set g st"
proof -
  note D = sm_coreD [OF core]
  define st0 where "st0 = write_sum_page st t"
  define dir where "dir = (if t = CURSEG_WARM_DATA \<or> t = CURSEG_COLD_DATA \<or> opt_noheap opts then ALLOC_RIGHT else ALLOC_LEFT)"
  have f0: "sit_i st0 = sit_i st" "free_i st0 = free_i st" "dirty_i st0 = dirty_i st" "sm_nsbi st0 = sm_nsbi st"
    "need_fsck st0 = need_fsck st" "sm_load st0 = sm_load st" "CURSEG_I st0 = CURSEG_I st" "free_set g st0 = free_set g st"
    by (simp_all add: st0_def write_sum_page_def CURSEG_I_def free_set_def fun_eq_iff)
  note F0 = core_frame [OF f0(1-4)]
  have core0: "sm_core g st0" using D(1-10) F0 f0(7) unfolding sm_core_def by simp
  have "get_next_segno g opts st0 t < main_segments g"
    using D(8) [of t] D(10) f0(1,7) by (auto simp: get_next_segno_def log_ok_def cursors_ok_def)
  then obtain s where s: "get_new_segment g st0 (get_next_segno g opts st0 t) new_sec dir = Inr (s, set_inuse g st0 s)" "s \<in> free_set g st0"
    using get_new_segment_spec [where g = g and st = st0 and dir = dir and new_sec = new_sec] D(2,11) f0(2) room
    by (auto simp: room_after_def got_segment_def)
  define st1 where "st1 = set_inuse g st0 s"
  note T = take_core [OF core0 s(2), folded st1_def] and D1 = sm_coreD [OF take_core(1) [OF core0 s(2), folded st1_def]]
  define c where "c = (CURSEG_I st t)\<lparr>cs_segno := s, cs_zone := GET_ZONE_FROM_SEG g s, cs_next_blkoff := 0, cs_next_segno := NULL_SEGNO,
    sum_blk := (sum_blk (CURSEG_I st t))\<lparr>sum_footer := Some (if IS_NODESEG (type_no t) then SUM_TYPE_NODE else SUM_TYPE_DATA)\<rparr>, alloc_type := LFS\<rparr>"
  define st2 where "st2 = set_curseg (reset_curseg g (set_curseg st1 t ((CURSEG_I st1 t)\<lparr>cs_next_segno := s\<rparr>)) t True) t
    ((CURSEG_I (reset_curseg g (set_curseg st1 t ((CURSEG_I st1 t)\<lparr>cs_next_segno := s\<rparr>)) t True) t)\<lparr>alloc_type := LFS\<rparr>)"
  have cs2: "CURSEG_I st2 u = (if u = t then c else CURSEG_I st1 u)" for u
    using T(5) f0(7) by (simp add: st2_def reset_curseg_def Let_def c_def)
  have f2: "sit_i st2 = sit_i (set_sit_entry_type st1 (type_no t) s True)" "free_i st2 = free_i st1" "dirty_i st2 = dirty_i st1"
    "sm_nsbi st2 = sm_nsbi st1" "need_fsck st2 = need_fsck st1" "sm_load st2 = sm_load st1"
    by (simp_all add: st2_def reset_curseg_def Let_def set_type_curseg) (simp add: set_curseg_def)
  have sm: "s < main_segments g" "\<not> dirty_segmap (dirty_i st1) DIRTY s" "\<forall>i < blocks_per_seg g. \<not> kept_map (get_seg_entry st1 s) i"
  proof -
    have "get_seg_entry st1 s = get_seg_entry st0 s" by (simp add: st1_def set_inuse_eq get_seg_entry_def)
    then show "s < main_segments g" "\<not> dirty_segmap (dirty_i st1) DIRTY s" "\<forall>i < blocks_per_seg g. \<not> kept_map (get_seg_entry st1 s) i"
      using s(2) sm_coreD(7) [OF core0] T(6) by (simp_all add: free_clean_def) (simp add: free_set_iff)
  qed
  have other: "\<forall>u. u \<noteq> t \<longrightarrow> cs_segno (CURSEG_I st1 u) \<noteq> s"
    using D(8) s(2) f0(2,7) T(5) by (metis free_set_iff log_ok_def)
  have "log_ok g st1 c" using sm T(2) by (simp add: log_ok_def c_def)
  note O = open_core [OF T(1) sm(1,2) other _ this f2(1-4)]
  have O': "sm_core g st2" "valid_set g st2 = valid_set g st1" "kept_set g st2 = kept_set g st1" "ckpt_set g st2 = ckpt_set g st1" using O cs2 by (simp_all add: c_def)
  have sg: "cs_segno (CURSEG_I st2 t) = s" "cs_next_blkoff (CURSEG_I st2 t) = 0" "alloc_type (CURSEG_I st2 t) = LFS" using cs2 by (simp_all add: c_def)
  have "load_ok env st2 t" using load f2(4,6) f0(4,6) by (simp add: load_ok_def st1_def set_inuse_eq lfu_nvm)
  moreover have "nvm_of (main_segments g) (sm_nsbi st2) (cs_segno (CURSEG_I st2 t)) = None" using T(7) f2(4) sg by simp
  ultimately obtain st' where S: "shadow_curseg env st2 t = Inr st'" "sm_core g st'" "CURSEG_I st' = CURSEG_I st2"
    "valid_set g st' = valid_set g st2" "kept_set g st' = kept_set g st2" "need_fsck st' = need_fsck st2" "free_i st' = free_i st2"
    "dirty_i st' = dirty_i st2" "get_seg_entry st' = get_seg_entry st2"
    using shadow_core [OF O'(1)] by metis
  have "new_curseg g opts env st t new_sec = Inr st'"
    using s(1) S(1) by (simp add: new_curseg_def Let_def st0_def [symmetric] dir_def [symmetric] st1_def [symmetric] st2_def)
  moreover have "free_set g st' = free_set g st - {s}"
    using S(7) f2(2) fpool.take_free [of g st0 s] D(11) f0(2,8) s(2) by (simp add: free_set_def st1_def)
  moreover have "valid_set g st' = valid_set g st" "kept_set g st' = kept_set g st"
    using S(4,5) O' T(3,4) F0(8,9) by simp_all
  moreover have "get_seg_entry st1 = get_seg_entry st"
    using F0(7) by (simp add: st1_def set_inuse_eq get_seg_entry_def fun_eq_iff)
  then have "ckpt_set g st' = ckpt_set g st" using ckpt_cong [OF S(9)] O'(4) ckpt_cong [of st1 st] by simp
  ultimately show thesis
    using S sg s(2) cs2 T(5,6) f0 f2 D(3)
    by (intro that [of st']) (simp_all add: has_curseg_space_def st1_def set_inuse_eq)
qed

subsection \<open>Reusing a dirty segment\<close>

text \<open>A segment SSR may take: dirty, with room, and away from the logs.\<close>

definition ssr_seg :: "f2fs_geo \<Rightarrow> sm_state \<Rightarrow> nat \<Rightarrow> bool" where
  "ssr_seg g st v \<longleftrightarrow> v < main_segments g \<and> dirty_segmap (dirty_i st) DIRTY v \<and> \<not> IS_CURSEG st v
     \<and> (\<exists>i < blocks_per_seg g. \<not> kept_map (get_seg_entry st v) i)"

lemma cursor_core:
  assumes "cursor_moved st st'" and "cursors_ok g st'" and "cursors_ok g st"
  shows "sm_core g st' = sm_core g st"
  using cursor_movedD [OF assms(1)] assms(2,3)
  by (simp add: sm_core_def sm_nvm_wf_def free_set_def free_clean_def log_ok_def)

lemma cand_ssr_seg:
  assumes core: "sm_core g st" and v: "v < main_segments g" "ssr_cand g st (dirty_segmap (dirty_i st) u) v" "u < 6"
    and cost: "ssr_cost st v < blocks_per_seg g"
  shows "ssr_seg g st v"
proof -
  note D = sm_coreD [OF core]
  have "dirty_segmap (dirty_i st) DIRTY v" using v D(6) by (auto simp: ssr_cand_def dirty_wf_def)
  moreover have "\<not> IS_CURSEG st v"
    using v(2) by (auto simp: ssr_cand_def sec_usage_check_def IS_CURSEC_def IS_CURSEG_def sm_use_def GET_SEC_FROM_SEG_def)
  moreover have "\<exists>i < blocks_per_seg g. \<not> kept_map (get_seg_entry st v) i"
  proof (rule ccontr)
    assume "\<not> ?thesis"
    then have "vbits (kept_map (get_seg_entry st v)) (blocks_per_seg g) = {..<blocks_per_seg g}" by (auto simp: vbits_def)
    then show False using cost D(5) v(1) by (simp add: sit_wf_def seg_wf_def)
  qed
  ultimately show ?thesis using v(1) by (simp add: ssr_seg_def)
qed

lemma try_victims_core:
  assumes "sm_core g st"
  shows "\<exists>r st'. try_victims g opts st ts = (r, st') \<and> cursor_moved st st' \<and> sm_core g st' \<and> (\<forall>v. r = Some v \<longrightarrow> ssr_seg g st v)"
  using assms
proof (induction ts arbitrary: st)
  case Nil
  then show ?case by (simp add: cursor_moved_refl)
next
  case (Cons t ts)
  note D = sm_coreD [OF Cons.prems]
  have lv: "\<forall>m. last_victim (sit_i st) m < main_segments g" using D(10) by (simp add: cursors_ok_def)
  obtain r st1 where r: "get_victim_by_default g opts st NULL_SEGNO BG_GC (type_no t) SSR = (r, st1)" "cursor_moved st st1"
    "\<forall>v. r = Some v \<longrightarrow> v < main_segments g \<and> ssr_cand g st (dirty_segmap (dirty_i st) (type_no t)) v \<and> ssr_cost st v < blocks_per_seg g"
    using get_victim_ssr_spec [OF D(6) type_no_less D(14) lv [rule_format], where opts = opts] by blast
  have co: "cursors_ok g st1" using get_victim_cursor [OF lv, of opts "type_no t"] r(1) by (simp add: cursors_ok_def)
  have core1: "sm_core g st1" using cursor_core [OF r(2) co D(10)] Cons.prems co by simp
  have seg: "ssr_seg g st v" if "r = Some v" for v using r(3) that cand_ssr_seg [OF Cons.prems] by auto
  show ?case
  proof (cases r)
    case None
    obtain r' st' where r': "try_victims g opts st1 ts = (r', st')" "cursor_moved st1 st'" "sm_core g st'" "\<forall>v. r' = Some v \<longrightarrow> ssr_seg g st1 v"
      using Cons.IH [OF core1] by blast
    have "ssr_seg g st1 v = ssr_seg g st v" for v
      using cursor_movedD [OF r(2)] by (simp add: ssr_seg_def IS_CURSEG_def)
    then show ?thesis using None r r' cursor_moved_trans [OF r(2) r'(2)] by auto
  next
    case (Some v)
    then show ?thesis using r(1,2) core1 seg by simp
  qed
qed

lemma find_free_slot:
  assumes "\<exists>i < n. \<not> m i"
  shows "find_next_zero_bit m n 0 < n" "\<not> m (find_next_zero_bit m n 0)"
  using assms find_next_zero_bit_ex [where m = m and ofs = 0] by auto

lemma remove_PRE_wf:
  assumes "dirty_wf g st" and "s < main_segments g"
  shows "dirty_wf g (remove_dirty_segment g st s PRE)"
    "dirty_segmap (dirty_i (remove_dirty_segment g st s PRE)) DIRTY = dirty_segmap (dirty_i st) DIRTY"
  using assms by (auto simp: remove_dirty_segment_def dirty_wf_iff clear_dirty_bit_counts fun_eq_iff)

lemma undirty_core:
  assumes core: "sm_core g st" and s: "s < main_segments g"
  defines "st' \<equiv> remove_dirty_segment g (remove_dirty_segment g st s PRE) s DIRTY"
  shows "sm_core g st'" "\<not> dirty_segmap (dirty_i st') DIRTY s"
proof -
  note D = sm_coreD [OF core]
  let ?st1 = "remove_dirty_segment g st s PRE"
  note P = remove_PRE_wf [OF D(6) s]
  have t: "se_type (get_seg_entry ?st1 s) < 6" using D(5) s by (simp add: sit_wf_def seg_wf_def)
  note R = remove_DIRTY [OF P(1) s t, folded st'_def]
  show "\<not> dirty_segmap (dirty_i st') DIRTY s" by (rule R(2))
  have f: "sit_i st' = sit_i st" "free_i st' = free_i st" "sm_nsbi st' = sm_nsbi st" "CURSEG_I st' = CURSEG_I st" "get_seg_entry st' = get_seg_entry st"
    by (simp_all add: st'_def CURSEG_I_def fun_eq_iff)
  have "\<not> dirty_segmap (dirty_i st') DIRTY a" if "a \<in> free_set g st" for a
    using that D(7) R(2) R(5) [of a DIRTY] P(2) by (cases "a = s") (simp_all add: free_clean_def)
  then have "free_clean g st'" using D(7) f by (simp add: free_clean_def free_set_def)
  moreover have "log_ok g st' c = log_ok g st c" for c using f by (simp add: log_ok_def)
  moreover have "sm_nvm_wf g st'" "sit_wf g st'" "cursors_ok g st'"
    using D(4,5,10) f sit_wf_cong(1) [OF f(1)] by (simp_all add: sm_nvm_wf_def free_set_def cursors_ok_def)
  ultimately show "sm_core g st'" using D(1-3,8,9) R(1) f(4) unfolding sm_core_def by simp
qed

lemma change_curseg_core:
  assumes core: "sm_core g st" and v: "ssr_seg g st v" "cs_next_segno (CURSEG_I st t) = v"
  defines "st' \<equiv> change_curseg g st t"
  shows "sm_core g st'" "has_curseg_space g st' t" "\<forall>u. u \<noteq> t \<longrightarrow> CURSEG_I st' u = CURSEG_I st u"
    "valid_set g st' = valid_set g st" "kept_set g st' = kept_set g st" "need_fsck st' = need_fsck st"
    "cs_segno (CURSEG_I st' t) = v" "alloc_type (CURSEG_I st' t) = SSR" "free_i st' = free_i st"
    "ckpt_set g st' = ckpt_set g st"
proof -
  note D = sm_coreD [OF core]
  have s: "v < main_segments g" "dirty_segmap (dirty_i st) DIRTY v" "\<not> IS_CURSEG st v" using v(1) by (simp_all add: ssr_seg_def)
  have used: "free_segmap (free_i st) v" using D(7) s(1,2) by (auto simp: free_clean_def free_set_iff)
  define st0 where "st0 = write_sum_page st t"
  have f0: "sit_i st0 = sit_i st" "free_i st0 = free_i st" "dirty_i st0 = dirty_i st" "sm_nsbi st0 = sm_nsbi st"
    "need_fsck st0 = need_fsck st" "CURSEG_I st0 = CURSEG_I st"
    by (simp_all add: st0_def write_sum_page_def CURSEG_I_def fun_eq_iff)
  note F0 = core_frame [OF f0(1-4)]
  have core0: "sm_core g st0" using D(1-10) F0 f0(6) unfolding sm_core_def by simp
  have ti: "set_test_and_inuse g st0 v = st0" using used f0(2) by (simp add: set_test_and_inuse_eq)
  define st1 where "st1 = remove_dirty_segment g (remove_dirty_segment g st0 v PRE) v DIRTY"
  note U = undirty_core [OF core0 s(1), folded st1_def]
  have f1: "sit_i st1 = sit_i st" "free_i st1 = free_i st" "sm_nsbi st1 = sm_nsbi st" "need_fsck st1 = need_fsck st" "CURSEG_I st1 = CURSEG_I st"
    using f0 by (simp_all add: st1_def CURSEG_I_def fun_eq_iff)
  have ge1: "get_seg_entry st1 = get_seg_entry st" using f1(1) by (simp add: get_seg_entry_def fun_eq_iff)
  let ?k = "kept_map (get_seg_entry st v)"
  define b where "b = find_next_zero_bit ?k (blocks_per_seg g) 0"
  have b: "b < blocks_per_seg g" "\<not> ?k b" using v(1) find_free_slot [of "blocks_per_seg g" ?k] by (simp_all add: ssr_seg_def b_def)
  define c where "c = CURSEG_I st' t"
  have rs: "change_curseg g st t = (let st = reset_curseg g st1 t True;
          st = set_curseg st t ((CURSEG_I st t)\<lparr>alloc_type := SSR\<rparr>);
          st = set_curseg st t (next_free_blkoff g st (CURSEG_I st t) 0); c = CURSEG_I st t
      in set_curseg st t (c\<lparr>sum_blk := (sum_blk c)\<lparr>sum_entries := sum_entries (sum_pages st v)\<rparr>\<rparr>))"
    unfolding change_curseg_def Let_def v(2) st0_def [symmetric] ti st1_def [symmetric] ..
  have nx: "cs_next_segno (CURSEG_I st1 t) = v" using v(2) f1(5) by simp
  have ge2: "kept_map (get_seg_entry (set_curseg (reset_curseg g st1 t True) t x) v) = ?k" for x
  proof -
    have "get_seg_entry (set_curseg (reset_curseg g st1 t True) t x) v = (get_seg_entry st1 v)\<lparr>se_type := type_no t\<rparr>"
      using nx by (simp add: reset_curseg_def Let_def set_type_entry)
    then show ?thesis by (simp add: ge1 kept_map_def)
  qed
  have c: "cs_segno c = v" "alloc_type c = SSR" "cs_next_blkoff c = b"
    using nx ge2 unfolding c_def st'_def rs Let_def b_def by (simp_all add: next_free_blkoff_eq [OF D(13)] reset_curseg_def Let_def)
  have f: "sit_i st' = sit_i (set_sit_entry_type st1 (type_no t) v True)" "free_i st' = free_i st1" "dirty_i st' = dirty_i st1"
    "sm_nsbi st' = sm_nsbi st1" "need_fsck st' = need_fsck st1" "\<forall>u. CURSEG_I st' u = (if u = t then c else CURSEG_I st1 u)"
    unfolding c_def using nx unfolding st'_def rs Let_def by (simp_all add: reset_curseg_def Let_def set_type_curseg)
  have "log_ok g st1 c" using b c used s(1) f1(2) ge1 by (simp add: log_ok_def)
  moreover have "\<forall>u. u \<noteq> t \<longrightarrow> cs_segno (CURSEG_I st1 u) \<noteq> v" using s(3) f1(5) by (auto simp: IS_CURSEG_iff)
  ultimately have O: "sm_core g st'" "valid_set g st' = valid_set g st1" "kept_set g st' = kept_set g st1" "ckpt_set g st' = ckpt_set g st1"
    using open_core [OF U(1) s(1) U(2) _ c(1) _ f(1-4,6)] by simp_all
  show "sm_core g st'" by (rule O(1))
  show "ckpt_set g st' = ckpt_set g st" using O(4) ckpt_cong [OF ge1] by simp
  show "valid_set g st' = valid_set g st" "kept_set g st' = kept_set g st" using O(2,3) sit_wf_cong(2,3) [OF f1(1)] by simp_all
  show "\<forall>u. u \<noteq> t \<longrightarrow> CURSEG_I st' u = CURSEG_I st u" "has_curseg_space g st' t" "need_fsck st' = need_fsck st"
    "cs_segno (CURSEG_I st' t) = v" "alloc_type (CURSEG_I st' t) = SSR" "free_i st' = free_i st"
    using f f1 c b by (simp_all add: has_curseg_space_def)
qed

subsection \<open>Moving a log on\<close>

lemma next_segno_core:
  assumes "sm_core g st"
  shows "sm_core g (set_curseg st t ((CURSEG_I st t)\<lparr>cs_next_segno := v\<rparr>))"
proof -
  let ?st = "set_curseg st t ((CURSEG_I st t)\<lparr>cs_next_segno := v\<rparr>)"
  note D = sm_coreD [OF assms]
  note F = core_frame [of ?st st, simplified]
  have "cs_segno (CURSEG_I ?st u) = cs_segno (CURSEG_I st u)" for u by simp
  then have "inj (\<lambda>u. cs_segno (CURSEG_I ?st u))" using D(9) by simp
  moreover have "log_ok g ?st (CURSEG_I ?st u)" for u using D(8) [of u] F(5) by (cases "u = t") (simp_all add: log_ok_def)
  ultimately show ?thesis using D(1-7,10) F(1-4,6) unfolding sm_core_def by simp
qed

text \<open>What moving log \<open>t\<close> to another segment leaves as it was.\<close>

definition log_moved :: "f2fs_geo \<Rightarrow> seg_type \<Rightarrow> sm_state \<Rightarrow> sm_state \<Rightarrow> bool" where
  "log_moved g t st st' \<longleftrightarrow> sm_core g st' \<and> has_curseg_space g st' t \<and> (\<forall>u. u \<noteq> t \<longrightarrow> CURSEG_I st' u = CURSEG_I st u)
     \<and> valid_set g st' = valid_set g st \<and> kept_set g st' = kept_set g st \<and> need_fsck st' = need_fsck st
     \<and> free_set g st' \<subseteq> free_set g st \<and> ckpt_set g st' = ckpt_set g st"

lemma new_curseg_moved:
  assumes "sm_core g st" and "0 < free_sections (free_i st)" and "load_ok env st t"
  shows "\<exists>st'. new_curseg g opts env st t new_sec = Inr st' \<and> log_moved g t st st'"
  using new_curseg_core [OF assms, of opts new_sec] unfolding log_moved_def by (metis Diff_subset)

lemma get_ssr_segment_core:
  assumes core: "sm_core g st"
  obtains (found) v st' where "get_ssr_segment g opts st t = (True, set_curseg st' t ((CURSEG_I st' t)\<lparr>cs_next_segno := v\<rparr>))"
      "cursor_moved st st'" "sm_core g st'" "ssr_seg g st v"
    | (none) st' where "get_ssr_segment g opts st t = (False, st')" "cursor_moved st st'" "sm_core g st'"
proof -
  obtain r st' where r: "try_victims g opts st (t # filter (\<lambda>i. i \<noteq> t) (ssr_order t)) = (r, st')" "cursor_moved st st'" "sm_core g st'"
    "\<forall>v. r = Some v \<longrightarrow> ssr_seg g st v"
    using try_victims_core [OF core, of opts] by metis
  show thesis
  proof (cases r)
    case None
    then show thesis using r by (intro none [of st']) (simp_all only: get_ssr_segment_def option.case prod.case)
  next
    case (Some v)
    then show thesis using r by (intro found [of st' v]) (simp_all only: get_ssr_segment_def option.case prod.case)
  qed
qed

lemma cursor_moved_load: "cursor_moved st st' \<Longrightarrow> sm_load st' = sm_load st"
  by (auto simp: cursor_moved_def)

lemma log_moved_cursor:
  assumes "cursor_moved st st1" and "log_moved g t st1 st'"
  shows "log_moved g t st st'"
  using assms(2) cursor_movedD [OF assms(1)] ckpt_cong [OF cursor_movedD(1) [OF assms(1)], of g]
  unfolding log_moved_def by (simp add: free_set_def)

lemma change_curseg_moved:
  assumes "sm_core g st" and "ssr_seg g st v"
  shows "log_moved g t st (change_curseg g (set_curseg st t ((CURSEG_I st t)\<lparr>cs_next_segno := v\<rparr>)) t)"
proof -
  let ?st = "set_curseg st t ((CURSEG_I st t)\<lparr>cs_next_segno := v\<rparr>)"
  have s: "ssr_seg g ?st v" using assms(2) by (simp add: ssr_seg_def IS_CURSEG_def)
  note C = change_curseg_core [OF next_segno_core [OF assms(1)] s, of t]
  have f: "valid_set g ?st = valid_set g st" "kept_set g ?st = kept_set g st" "ckpt_set g ?st = ckpt_set g st"
    by (simp_all add: valid_set_def kept_set_def ckpt_set_def)
  show ?thesis using C f unfolding log_moved_def by (simp add: free_set_def)
qed

lemma allocate_segment_moved:
  assumes core: "sm_core g st" and room: "0 < free_sections (free_i st)" and load: "load_ok env st t"
  shows "\<exists>st'. allocate_segment_by_default g opts env st t force = Inr st' \<and> log_moved g t st st'"
proof -
  define good where "good r \<longleftrightarrow> (\<exists>st'. r = Inr st' \<and> log_moved g t st st')" for r :: "nvm_err + sm_state"
  have new: "good (new_curseg g opts env st t n)" for n
    unfolding good_def by (rule new_curseg_moved [OF core room load])
  have ssr: "good (case get_ssr_segment g opts st t of (True, st) \<Rightarrow> Inr (change_curseg g st t)
      | (False, st) \<Rightarrow> new_curseg g opts env st t False)"
  proof (rule get_ssr_segment_core [OF core, of opts t])
    fix v st1 assume a: "get_ssr_segment g opts st t = (True, set_curseg st1 t ((CURSEG_I st1 t)\<lparr>cs_next_segno := v\<rparr>))"
      "cursor_moved st st1" "sm_core g st1" "ssr_seg g st v"
    then have "ssr_seg g st1 v" using cursor_movedD [OF a(2)] by (simp add: ssr_seg_def IS_CURSEG_def)
    then show ?thesis using a(1) log_moved_cursor [OF a(2) change_curseg_moved [OF a(3)]] by (simp add: good_def)
  next
    fix st1 assume a: "get_ssr_segment g opts st t = (False, st1)" "cursor_moved st st1" "sm_core g st1"
    have "0 < free_sections (free_i st1)" "load_ok env st1 t"
      using room load cursor_movedD [OF a(2)] cursor_moved_load [OF a(2)] by (simp_all add: load_ok_def)
    then obtain st' where "new_curseg g opts env st1 t False = Inr st'" "log_moved g t st1 st'"
      using new_curseg_moved [OF a(3)] by blast
    then show ?thesis using a(1) log_moved_cursor [OF a(2)] by (auto simp: good_def)
  qed
  have "good (allocate_segment_by_default g opts env st t force)"
    unfolding allocate_segment_by_default_def using new ssr by (auto split: if_split)
  then show ?thesis by (simp add: good_def)
qed

subsection \<open>Handing out a block\<close>

text \<open>The block an old address names: none, or one that is valid.\<close>

definition names_block :: "disk_fmt \<Rightarrow> f2fs_geo \<Rightarrow> sm_state \<Rightarrow> nat \<Rightarrow> (nat \<times> nat) set \<Rightarrow> bool" where
  "names_block d g st a B \<longleftrightarrow> B = {} \<and> \<not> is_valid_blkaddr d a
     \<or> (\<exists>s off. B = {(s, off)} \<and> a = main_block g s off \<and> real_block d g s off \<and> (s, off) \<in> valid_set g st)"

lemma names_segno:
  assumes "names_block d g st a B" and "sit_wf g st"
  shows "GET_SEGNO d g a = NULL_SEGNO \<longleftrightarrow> B = {}" "\<And>s off. B = {(s, off)} \<Longrightarrow> GET_SEGNO d g a = s"
proof -
  show seg: "\<And>s off. B = {(s, off)} \<Longrightarrow> GET_SEGNO d g a = s" using assms(1) real_block_addr(1) by (auto simp: names_block_def)
  show "GET_SEGNO d g a = NULL_SEGNO \<longleftrightarrow> B = {}"
    using assms real_block_addr(1) by (auto simp: names_block_def GET_SEGNO_def sit_wf_def real_block_def)
qed

text \<open>The second half of \<open>f2fs_allocate_data_block\<close>: the old block goes.\<close>

definition drop_old :: "disk_fmt \<Rightarrow> f2fs_geo \<Rightarrow> sb_opts \<Rightarrow> nat \<Rightarrow> sm_state \<Rightarrow> nat \<Rightarrow> sm_state" where
  "drop_old d g opts now st a =
     (if GET_SEGNO d g a \<noteq> NULL_SEGNO then update_sit_entry d g (opt_discard opts) now st a (- 1) else st)"

lemma drop_old_core:
  fixes opts now
  assumes core: "sm_core g st" and a: "names_block d g st a B"
  defines "st' \<equiv> drop_old d g opts now st a"
  shows "sm_core g st'" "valid_set g st' = valid_set g st - B" "CURSEG_I st' = CURSEG_I st" "need_fsck st' = need_fsck st"
    "free_i st' = free_i st" "sm_nsbi st' = sm_nsbi st" "sm_load st' = sm_load st" "ckpt_set g st' = ckpt_set g st"
proof -
  have "sm_core g st' \<and> valid_set g st' = valid_set g st - B \<and> CURSEG_I st' = CURSEG_I st \<and> need_fsck st' = need_fsck st
    \<and> free_i st' = free_i st \<and> sm_nsbi st' = sm_nsbi st \<and> sm_load st' = sm_load st \<and> ckpt_set g st' = ckpt_set g st"
  proof (cases "B = {}")
    case True
    then show ?thesis using core names_segno(1) [OF a sm_coreD(5) [OF core]] by (simp add: st'_def drop_old_def)
  next
    case False
    then obtain s off where b: "B = {(s, off)}" "a = main_block g s off" "real_block d g s off" "(s, off) \<in> valid_set g st"
      using a by (auto simp: names_block_def)
    note U = drop_block_core [OF core b(4,3), of "opt_discard opts" now]
    show ?thesis using U b(1,2) False names_segno(1) [OF a sm_coreD(5) [OF core]] by (simp add: st'_def drop_old_def)
  qed
  then show "sm_core g st'" "valid_set g st' = valid_set g st - B" "CURSEG_I st' = CURSEG_I st" "need_fsck st' = need_fsck st"
    "free_i st' = free_i st" "sm_nsbi st' = sm_nsbi st" "sm_load st' = sm_load st" "ckpt_set g st' = ckpt_set g st" by simp_all
qed

lemma locate_null: "locate_dirty_segment g st NULL_SEGNO = st"
  by (simp add: locate_dirty_segment_def)

lemma valid_not_free: "sm_core g st \<Longrightarrow> (s, off) \<in> kept_set g st \<Longrightarrow> s < main_segments g \<and> s \<notin> free_set g st"
  using sm_coreD(7) by (auto simp: free_clean_def kept_set_def)

lemma locate_moved:
  assumes core: "sm_core g st" and s: "s = NULL_SEGNO \<or> s < main_segments g \<and> s \<notin> free_set g st"
  defines "st' \<equiv> locate_dirty_segment g st s"
  shows "sm_core g st'" "need_fsck st' = need_fsck st" "CURSEG_I st' = CURSEG_I st" "free_set g st' = free_set g st"
    "valid_set g st' = valid_set g st" "kept_set g st' = kept_set g st" "ckpt_set g st' = ckpt_set g st"
proof -
  show "sm_core g st'" "need_fsck st' = need_fsck st"
    using s core locate_core [OF core, of s] by (auto simp: st'_def locate_null)
  show "CURSEG_I st' = CURSEG_I st" "free_set g st' = free_set g st" "valid_set g st' = valid_set g st" "kept_set g st' = kept_set g st"
    "ckpt_set g st' = ckpt_set g st"
    by (simp_all add: st'_def CURSEG_I_def free_set_def valid_set_def kept_set_def ckpt_set_def fun_eq_iff)
qed

lemma kept_of_valid: "b \<in> valid_set g st \<Longrightarrow> b \<in> kept_set g st"
  using valid_kept by blast

lemma f2fs_allocate_data_block_steps:
  "f2fs_allocate_data_block d g opts env now st a sm t =
     (let st1 = drop_old d g opts now (log_block d g opts now st sm t) a;
          new = NEXT_FREE_BLKADDR g (CURSEG_I st t)
      in case (if \<not> has_curseg_space g st1 t then allocate_segment_by_default g opts env st1 t False else Inr st1) of
           Inl e \<Rightarrow> Inl e
         | Inr st2 \<Rightarrow> Inr (new, locate_dirty_segment g (locate_dirty_segment g st2 (GET_SEGNO d g a)) (GET_SEGNO d g new)))"
  unfolding f2fs_allocate_data_block_def log_block_def drop_old_def Let_def by (rule refl)

lemma f2fs_allocate_data_block_spec:
  fixes opts now sm
  assumes inv: "sm_inv g st" and room: "0 < free_sections (free_i st)" and load: "load_ok env st t"
    and old: "names_block d g st old B"
  defines "s \<equiv> cs_segno (CURSEG_I st t)" and "off \<equiv> cs_next_blkoff (CURSEG_I st t)"
  assumes real: "real_block d g s off"
  shows "\<exists>st'. f2fs_allocate_data_block d g opts env now st old sm t = Inr (main_block g s off, st')
    \<and> (s, off) \<notin> kept_set g st \<and> valid_set g st' = insert (s, off) (valid_set g st - B)
    \<and> sm_inv g st' \<and> need_fsck st' = need_fsck st \<and> ckpt_set g st \<subseteq> ckpt_set g st'"
proof -
  have core: "sm_core g st" and space: "has_curseg_space g st u" for u using inv by (simp_all add: sm_inv_def)
  note N = next_block [OF core space, of t, folded s_def off_def]
  define st0 where "st0 = log_block d g opts now st sm t"
  note L = log_block_core [OF core space, of d t opts now sm, folded s_def off_def, OF real, folded st0_def]
  have nB: "(s, off) \<notin> B" using old N(2) kept_of_valid [of "(s, off)" g st] by (auto simp: names_block_def)
  have old0: "names_block d g st0 old B" using old L(2) by (auto simp: names_block_def)
  define st1 where "st1 = drop_old d g opts now st0 old"
  note O = drop_old_core [OF L(1) old0, of opts now, folded st1_def]
  have load1: "load_ok env st1 t" using load O(6,7) L(8,9) by (simp add: load_ok_def)
  have room1: "0 < free_sections (free_i st1)" using room O(5) L(6) by simp
  obtain st2 where st2: "(if \<not> has_curseg_space g st1 t then allocate_segment_by_default g opts env st1 t False else Inr st1) = Inr st2"
    and M: "log_moved g t st1 st2"
  proof (cases "has_curseg_space g st1 t")
    case True
    then show thesis using O(1) by (intro that [of st1]) (simp_all add: log_moved_def)
  next
    case False
    then show thesis using allocate_segment_moved [OF O(1) room1 load1, of opts False] that by auto
  qed
  have fs: "free_set g st2 \<subseteq> free_set g st0" using M O(5) by (simp add: log_moved_def free_set_def)
  have used: "r < main_segments g \<and> r \<notin> free_set g st2" if "(r, i) \<in> valid_set g st0" for r i
    using valid_not_free [OF L(1) kept_of_valid [OF that]] fs by auto
  have so: "GET_SEGNO d g old = NULL_SEGNO \<or> GET_SEGNO d g old < main_segments g \<and> GET_SEGNO d g old \<notin> free_set g st2"
    using old0 used names_segno [OF old0 sm_coreD(5) [OF L(1)]] by (cases "B = {}") (auto simp: names_block_def)
  note M2 = M [unfolded log_moved_def, THEN conjunct1]
  define st3 where "st3 = locate_dirty_segment g st2 (GET_SEGNO d g old)"
  note P = locate_moved [OF M2 so, folded st3_def]
  have "s < main_segments g \<and> s \<notin> free_set g st3" using used [of s off] L(2) P(4) by simp
  note Q = locate_moved [OF P(1) disjI2, OF this]
  let ?st' = "locate_dirty_segment g st3 s"
  have r: "f2fs_allocate_data_block d g opts env now st old sm t = Inr (main_block g s off, ?st')"
    using st2 N(1) real_block_addr(1) [OF real]
    by (simp add: f2fs_allocate_data_block_steps Let_def st0_def [symmetric] st1_def [symmetric] st3_def [symmetric])
  have "CURSEG_I st2 u = CURSEG_I st u" if "u \<noteq> t" for u using that M O(3) L(4) by (simp add: log_moved_def)
  then have "has_curseg_space g ?st' u" for u
    using space [of u] M P(3) Q(3) by (cases "u = t") (simp_all add: log_moved_def has_curseg_space_def)
  then have "sm_inv g ?st'" using Q(1) by (simp add: sm_inv_def)
  moreover have "valid_set g ?st' = insert (s, off) (valid_set g st - B)"
    using Q(5) P(5) M O(2) L(2) nB by (auto simp: log_moved_def)
  moreover have "need_fsck ?st' = need_fsck st" using Q(2) P(2) M O(4) L(5) by (simp add: log_moved_def)
  moreover have "ckpt_set g st \<subseteq> ckpt_set g ?st'" using Q(7) P(7) M O(8) L(11) by (simp add: log_moved_def)
  ultimately show ?thesis using r N(2) by blast
qed

text \<open>
  C2. Allocating a block for a log: the block handed out was neither valid nor referred to by the last
  checkpoint, afterwards it is valid, the block it replaces is not, and no other block changes. The
  invariant of the segment manager holds again, with a free block in every log, and the consistency
  flag is not raised.
\<close>

theorem f2fs_allocate_data_block_correct:
  fixes opts now sm
  assumes inv: "sm_inv g st" and room: "0 < free_sections (free_i st)" and load: "load_ok env st t"
    and old: "names_block d g st old B"
  defines "s \<equiv> cs_segno (CURSEG_I st t)" and "off \<equiv> cs_next_blkoff (CURSEG_I st t)"
  assumes real: "real_block d g s off"
  shows "\<exists>st'. f2fs_allocate_data_block d g opts env now st old sm t = Inr (main_block g s off, st')
    \<and> (s, off) \<notin> kept_set g st \<and> valid_set g st' = insert (s, off) (valid_set g st - B)
    \<and> sm_inv g st' \<and> need_fsck st' = need_fsck st"
  using f2fs_allocate_data_block_spec [OF inv room load old real [unfolded s_def off_def], of opts now sm]
  unfolding s_def off_def by blast

text \<open>A quiet machine: nobody holds the load lock and there is no statistics file to read.\<close>

definition env0 :: load_env where
  "env0 = \<lparr>ssd_dev = ''sda'', nvm_dev = ''pmem0'', env_lock = False, env_file = None\<rparr>"

lemma sm_example_inv: "sm_inv geo10 sm_example"
proof -
  have "last_victim (sit_i sm_example) m = 0" for m by (simp add: sm_example_def)
  moreover have "free_set geo10 sm_example = {0, 1}" by (rule sm_example_wf(2))
  moreover have "inj (\<lambda>t. cs_segno (CURSEG_I sm_example t))"
    by (rule injI) (simp, case_tac x; case_tac y; simp add: type_no_def)
  ultimately show ?thesis using sm_example_sit sm_example_wf(1)
    by (simp add: sm_inv_def sm_core_def has_curseg_space_def log_ok_def cursors_ok_def free_clean_def seg_with_def kept_map_def)
qed

lemma env0_load: "load_ok env0 sm_example CURSEG_HOT_DATA"
  by (simp add: load_ok_def env0_def nvm_alloc_def)

theorem f2fs_allocate_data_block_correct_witness:
  "\<exists>st'. f2fs_allocate_data_block fmt0 geo10 opts0 env0 0 sm_example (main_block geo10 3 0)
       \<lparr>sum_nid = 7, sum_ofs_in_node = 0, sum_version = 0\<rparr> CURSEG_HOT_DATA = Inr (main_block geo10 4 0, st')
    \<and> valid_set geo10 st' = {(4, 0)} \<and> sm_inv geo10 st'"
proof -
  have "names_block fmt0 geo10 sm_example (main_block geo10 3 0) {(3, 0)}"
    by (simp add: names_block_def sm_example_sit(3) real_block_ex)
  from f2fs_allocate_data_block_correct [OF sm_example_inv _ env0_load this, of opts0 0 "\<lparr>sum_nid = 7, sum_ofs_in_node = 0, sum_version = 0\<rparr>"]
  show ?thesis by (auto simp: sm_example_sit(3) real_block_ex type_no_def)
qed

end
