(* ===== verification/Log_Run.thy ===== *)
theory Log_Run
  imports Alloc_Block
begin

text \<open>
  Sequences of block allocations and invalidations between two checkpoints, as the writers of the
  file system interleave them: each is a call of \<open>f2fs_allocate_data_block\<close> or of
  \<open>f2fs_invalidate_blocks\<close> of \<open>src/segment.c\<close>, made under \<open>sentry_lock\<close> and so atomic. The blocks a
  crash would fall back to are never written.
\<close>

inductive sm_step :: "disk_fmt \<Rightarrow> f2fs_geo \<Rightarrow> sb_opts \<Rightarrow> sm_state \<Rightarrow> nat list \<Rightarrow> sm_state \<Rightarrow> bool"
  for d :: disk_fmt and g :: f2fs_geo and opts :: sb_opts where
  allocate: "f2fs_allocate_data_block d g opts env now st old sm t = Inr (a, st') \<Longrightarrow> 0 < free_sections (free_i st)
    \<Longrightarrow> load_ok env st t \<Longrightarrow> names_block d g st old B
    \<Longrightarrow> real_block d g (cs_segno (CURSEG_I st t)) (cs_next_blkoff (CURSEG_I st t)) \<Longrightarrow> sm_step d g opts st [a] st'"
| invalidate: "f2fs_invalidate_blocks d g (opt_discard opts) now st old = Inr st' \<Longrightarrow> names_block d g st old {b}
    \<Longrightarrow> sm_step d g opts st [] st'"

inductive sm_run :: "disk_fmt \<Rightarrow> f2fs_geo \<Rightarrow> sb_opts \<Rightarrow> sm_state \<Rightarrow> nat list \<Rightarrow> sm_state \<Rightarrow> bool"
  for d :: disk_fmt and g :: f2fs_geo and opts :: sb_opts where
  stop: "sm_run d g opts st [] st"
| go: "sm_run d g opts st ws st1 \<Longrightarrow> sm_step d g opts st1 w st2 \<Longrightarrow> sm_run d g opts st (ws @ w) st2"

inductive_cases sm_stepE: "sm_step d g opts st w st'"

text \<open>What every step keeps.\<close>

definition step_safe :: "f2fs_geo \<Rightarrow> sm_state \<Rightarrow> nat list \<Rightarrow> sm_state \<Rightarrow> bool" where
  "step_safe g st ws st' \<longleftrightarrow> sm_inv g st' \<and> need_fsck st' = need_fsck st \<and> ckpt_set g st \<subseteq> ckpt_set g st'
     \<and> (\<forall>a \<in> set ws. \<exists>s off. a = main_block g s off \<and> s < main_segments g \<and> off < blocks_per_seg g \<and> (s, off) \<notin> ckpt_set g st)"

lemma invalidate_safe:
  assumes inv: "sm_inv g st" and b: "names_block d g st a {b}" and r: "f2fs_invalidate_blocks d g disc now st a = Inr st'"
  shows "sm_inv g st'" "need_fsck st' = need_fsck st" "ckpt_set g st' = ckpt_set g st" "valid_set g st' = valid_set g st - {b}"
proof -
  have core: "sm_core g st" using inv by (simp add: sm_inv_def)
  obtain s off where so: "b = (s, off)" "a = main_block g s off" "real_block d g s off" "(s, off) \<in> valid_set g st"
    using b by (auto simp: names_block_def)
  define st1 where "st1 = update_sit_entry d g disc now st a (- 1)"
  note U = drop_block_core [OF core so(4,3), of disc now, folded so(2), folded st1_def]
  have "(s, off) \<in> kept_set g st" using so(4) valid_kept by blast
  then have u: "s < main_segments g \<and> s \<notin> free_set g st1"
    using valid_not_free [OF core] U(6) by (simp add: free_set_def)
  note L = locate_moved [OF U(1) disjI2 [OF u]]
  have "st' = locate_dirty_segment g st1 s"
    using r so(3) real_block_addr(1) [OF so(3)] by (simp add: f2fs_invalidate_blocks_def so(2) st1_def real_block_def is_valid_blkaddr_def)
  then show "sm_inv g st'" "need_fsck st' = need_fsck st" "ckpt_set g st' = ckpt_set g st" "valid_set g st' = valid_set g st - {b}"
    using L U inv so(1) by (simp_all add: sm_inv_def has_curseg_space_def)
qed

lemma sm_step_safe:
  assumes "sm_step d g opts st w st'" and inv: "sm_inv g st"
  shows "step_safe g st w st'"
  using assms(1)
proof (rule sm_stepE)
  fix env now old sm t a B
  assume w: "w = [a]" and r: "f2fs_allocate_data_block d g opts env now st old sm t = Inr (a, st')"
    and h: "0 < free_sections (free_i st)" "load_ok env st t" "names_block d g st old B"
      "real_block d g (cs_segno (CURSEG_I st t)) (cs_next_blkoff (CURSEG_I st t))"
  show ?thesis
    using f2fs_allocate_data_block_spec [OF inv h, of opts now sm] r w h(4) ckpt_kept [of g st]
    by (auto simp: step_safe_def real_block_def)
next
  fix now old b
  assume "w = []" "f2fs_invalidate_blocks d g (opt_discard opts) now st old = Inr st'" "names_block d g st old {b}"
  then show ?thesis using invalidate_safe [OF inv] by (simp add: step_safe_def)
qed

text \<open>
  C1. Crash safety of the logs: however allocations and invalidations are interleaved after a checkpoint,
  no block that checkpoint refers to is handed out for writing, the invariant of the segment manager
  holds at the end, and the consistency flag is not raised on the way.
\<close>

theorem sm_run_crash_safe:
  assumes "sm_run d g opts st ws st'" and "sm_inv g st"
  shows "sm_inv g st' \<and> need_fsck st' = need_fsck st \<and> ckpt_set g st \<subseteq> ckpt_set g st'
    \<and> (\<forall>a \<in> set ws. \<exists>s off. a = main_block g s off \<and> s < main_segments g \<and> off < blocks_per_seg g \<and> (s, off) \<notin> ckpt_set g st)"
  using assms
proof (induction rule: sm_run.induct)
  case (stop st)
  then show ?case by simp
next
  case (go st ws st1 w st2)
  then have "step_safe g st ws st1" by (simp add: step_safe_def)
  moreover have "step_safe g st1 w st2" using go sm_step_safe by blast
  ultimately have "step_safe g st (ws @ w) st2"
    unfolding step_safe_def set_append ball_Un by (meson in_mono subset_trans)
  then show ?case by (simp add: step_safe_def)
qed

text \<open>A write of hot data on the small volume that replaces the one block the checkpoint refers to.\<close>

theorem sm_run_crash_safe_witness:
  "\<exists>st'. sm_run fmt0 geo10 opts0 sm_example [main_block geo10 4 0] st' \<and> sm_inv geo10 st' \<and> main_block geo10 4 0 \<noteq> main_block geo10 3 0"
proof -
  let ?sm = "\<lparr>sum_nid = 7, sum_ofs_in_node = 0, sum_version = 0\<rparr>"
  have n: "names_block fmt0 geo10 sm_example (main_block geo10 3 0) {(3, 0)}"
    by (simp add: names_block_def sm_example_sit(3) real_block_ex)
  have hot: "cs_segno (CURSEG_I sm_example CURSEG_HOT_DATA) = 4" by (simp add: type_no_def)
  obtain st1 where a: "f2fs_allocate_data_block fmt0 geo10 opts0 env0 0 sm_example (main_block geo10 3 0) ?sm CURSEG_HOT_DATA
      = Inr (main_block geo10 4 0, st1)"
    using f2fs_allocate_data_block_spec [OF sm_example_inv _ env0_load n, of opts0 0 ?sm] by (auto simp: real_block_ex hot type_no_def)
  have "sm_step fmt0 geo10 opts0 sm_example [main_block geo10 4 0] st1"
    using allocate [OF a _ env0_load n] by (simp add: real_block_ex hot)
  then have r: "sm_run fmt0 geo10 opts0 sm_example [main_block geo10 4 0] st1" using go [OF stop] by force
  then show ?thesis using sm_run_crash_safe [OF r sm_example_inv] by (auto simp: main_block_def geo10_def)
qed

end
