(* ===== verification/Extent_Cache.thy ===== *)
theory Extent_Cache
  imports Geometry "HOL-Library.Tree"
begin

text \<open>
  The extent cache of an inode, from \<open>src/extent_cache.c\<close> and \<open>src/f2fs.h\<close>: a red-black tree of
  extents (runs of file blocks that lie contiguously on disk), the largest extent, the node used
  last, and the global list of nodes in the order of use.

  A node is a numbered object, a pointer to it its number; numbers are not used again, so a
  pointer that outlives its node names nothing. Rebalancing is the kernel's: \<open>rb_ops\<close> holds
  \<open>rb_insert_color\<close> and \<open>rb_erase\<close>, of which only their effect on the in-order sequence matters
  (\<open>rb_ok\<close>). Whether the slab has memory for a new node is the parameter \<open>mem\<close>.
\<close>

subsection \<open>Extents\<close>

record extent_info =
  ei_fofs :: nat
  ei_len :: nat
  ei_blk :: nat

record extent_node =
  en_id :: nat
  en_ei :: extent_info

text \<open>The tree and the fields of its inode and of the super block its operations use.\<close>

record extent_tree =
  et_root :: "extent_node tree"
  cached_en :: "nat option"
  largest :: extent_info
  node_cnt :: nat
  extent_list :: "nat list"
  total_ext_node :: nat
  en_fresh :: nat
  no_extent :: bool
  inode_dirty :: bool
  et_fsck :: bool

record rb_ops =
  rb_insert_color :: "extent_node tree \<Rightarrow> extent_node tree"
  rb_erase :: "nat \<Rightarrow> extent_node tree \<Rightarrow> extent_node tree"

definition F2FS_MIN_EXTENT_LEN :: nat where [simp]: "F2FS_MIN_EXTENT_LEN = 64"

definition ei_end :: "extent_info \<Rightarrow> nat" where
  "ei_end ei = u32_wrap (ei_fofs ei + ei_len ei)"

definition is_extent_mergeable :: "extent_info \<Rightarrow> extent_info \<Rightarrow> bool" where
  "is_extent_mergeable back front \<longleftrightarrow>
     u32_wrap (ei_fofs back + ei_len back) = ei_fofs front \<and> u32_wrap (ei_blk back + ei_len back) = ei_blk front"

definition find_en :: "extent_node tree \<Rightarrow> nat \<Rightarrow> extent_node option" where
  "find_en t i = find (\<lambda>n. en_id n = i) (inorder t)"

definition en_info :: "extent_tree \<Rightarrow> nat \<Rightarrow> extent_info" where
  "en_info st i = (case find_en (et_root st) i of Some n \<Rightarrow> en_ei n | None \<Rightarrow> \<lparr>ei_fofs = 0, ei_len = 0, ei_blk = 0\<rparr>)"

definition set_en_info :: "extent_tree \<Rightarrow> nat \<Rightarrow> extent_info \<Rightarrow> extent_tree" where
  "set_en_info st i ei = st\<lparr>et_root := map_tree (\<lambda>n. if en_id n = i then n\<lparr>en_ei := ei\<rparr> else n) (et_root st)\<rparr>"

text \<open>\<open>rb_next\<close> and \<open>rb_prev\<close>: the neighbours in the in-order sequence.\<close>

fun succ_en :: "extent_node list \<Rightarrow> nat \<Rightarrow> nat option" where
  "succ_en (a # b # ns) i = (if en_id a = i then Some (en_id b) else succ_en (b # ns) i)"
| "succ_en _ i = None"

definition rb_next :: "extent_node tree \<Rightarrow> nat \<Rightarrow> nat option" where
  "rb_next t i = succ_en (inorder t) i"

definition rb_prev :: "extent_node tree \<Rightarrow> nat \<Rightarrow> nat option" where
  "rb_prev t i = succ_en (rev (inorder t)) i"

subsection \<open>Searching the tree\<close>

definition in_extent :: "extent_info \<Rightarrow> nat \<Rightarrow> bool" where
  "in_extent ei ofs \<longleftrightarrow> ei_fofs ei \<le> ofs \<and> ei_end ei > ofs"

definition lookup_rb_tree_fast :: "extent_node option \<Rightarrow> nat \<Rightarrow> extent_node option" where
  "lookup_rb_tree_fast cached_re ofs =
     (case cached_re of Some re \<Rightarrow> if in_extent (en_ei re) ofs then Some re else None | None \<Rightarrow> None)"

fun lookup_rb_tree_slow :: "extent_node tree \<Rightarrow> nat \<Rightarrow> extent_node option" where
  "lookup_rb_tree_slow Leaf ofs = None"
| "lookup_rb_tree_slow (Node l re r) ofs =
     (if ofs < ei_fofs (en_ei re) then lookup_rb_tree_slow l ofs
      else if ofs \<ge> ei_end (en_ei re) then lookup_rb_tree_slow r ofs
      else Some re)"

definition f2fs_lookup_rb_tree :: "extent_node tree \<Rightarrow> extent_node option \<Rightarrow> nat \<Rightarrow> extent_node option" where
  "f2fs_lookup_rb_tree root cached_re ofs =
     (case lookup_rb_tree_fast cached_re ofs of None \<Rightarrow> lookup_rb_tree_slow root ofs | Some re \<Rightarrow> Some re)"

text \<open>
  A link to hang a node on is the path to it, \<open>True\<close> for right. On an extent that holds the offset the
  code reports a bug and then never leaves the loop: \<open>None\<close>.
\<close>

fun f2fs_lookup_rb_tree_for_insert :: "extent_node tree \<Rightarrow> nat \<Rightarrow> bool list option" where
  "f2fs_lookup_rb_tree_for_insert Leaf ofs = Some []"
| "f2fs_lookup_rb_tree_for_insert (Node l re r) ofs =
     (if ofs < ei_fofs (en_ei re) then map_option ((#) False) (f2fs_lookup_rb_tree_for_insert l ofs)
      else if ofs \<ge> ei_end (en_ei re) then map_option ((#) True) (f2fs_lookup_rb_tree_for_insert r ofs)
      else None)"

text \<open>The descent of \<open>f2fs_lookup_rb_tree_ret\<close>: an entry, or the link and the parent where it ended.\<close>

fun rb_descend :: "extent_node tree \<Rightarrow> nat \<Rightarrow> extent_node \<Rightarrow> extent_node + bool list \<times> extent_node" where
  "rb_descend Leaf ofs parent = Inr ([], parent)"
| "rb_descend (Node l re r) ofs parent =
     (if ofs < ei_fofs (en_ei re)
      then (case rb_descend l ofs re of Inl n \<Rightarrow> Inl n | Inr (p, q) \<Rightarrow> Inr (False # p, q))
      else if ofs \<ge> ei_end (en_ei re)
      then (case rb_descend r ofs re of Inl n \<Rightarrow> Inl n | Inr (p, q) \<Rightarrow> Inr (True # p, q))
      else Inl re)"

definition lookup_neighbors :: "extent_node tree \<Rightarrow> extent_node \<Rightarrow> nat \<Rightarrow> bool \<Rightarrow> nat option \<times> nat option" where
  "lookup_neighbors root re ofs force =
     (if ofs = ei_fofs (en_ei re) \<or> force then rb_prev root (en_id re) else None,
      if ofs = u32_sub (ei_end (en_ei re)) 1 \<or> force then rb_next root (en_id re) else None)"

text \<open>The entry, its predecessor, its successor, the place for a new node.\<close>

definition f2fs_lookup_rb_tree_ret ::
  "extent_node tree \<Rightarrow> extent_node option \<Rightarrow> nat \<Rightarrow> bool \<Rightarrow> nat option \<times> nat option \<times> nat option \<times> bool list option" where
  "f2fs_lookup_rb_tree_ret root cached_re ofs force =
     (case root of
        Leaf \<Rightarrow> (None, None, None, None)
      | Node l re0 r \<Rightarrow>
          (case lookup_rb_tree_fast cached_re ofs of
             Some re \<Rightarrow> (let (p, n) = lookup_neighbors root re ofs force in (Some (en_id re), p, n, None))
           | None \<Rightarrow>
               (case rb_descend root ofs re0 of
                  Inl re \<Rightarrow> (let (p, n) = lookup_neighbors root re ofs force in (Some (en_id re), p, n, None))
                | Inr (path, parent) \<Rightarrow>
                    (None,
                     if ofs < ei_fofs (en_ei parent) then rb_prev root (en_id parent) else Some (en_id parent),
                     if ofs > ei_fofs (en_ei parent) then rb_next root (en_id parent) else Some (en_id parent),
                     Some path))))"

text \<open>The walk over neighbours of the debug build.\<close>

fun rb_consistent :: "extent_node list \<Rightarrow> bool" where
  "rb_consistent (a # b # ns) = (if ei_end (en_ei a) > ei_fofs (en_ei b) then False else rb_consistent (b # ns))"
| "rb_consistent _ = True"

definition f2fs_check_rb_tree_consistence :: "extent_node tree \<Rightarrow> bool" where
  "f2fs_check_rb_tree_consistence root = rb_consistent (inorder root)"

subsection \<open>Changing the tree\<close>

fun rb_link_node :: "extent_node tree \<Rightarrow> bool list \<Rightarrow> extent_node \<Rightarrow> extent_node tree" where
  "rb_link_node Leaf _ n = Node Leaf n Leaf"
| "rb_link_node (Node l x r) (False # p) n = Node (rb_link_node l p n) x r"
| "rb_link_node (Node l x r) (True # p) n = Node l x (rb_link_node r p n)"
| "rb_link_node t [] n = t"

definition attach_extent_node ::
  "rb_ops \<Rightarrow> (extent_info \<Rightarrow> bool) \<Rightarrow> extent_tree \<Rightarrow> extent_info \<Rightarrow> bool list \<Rightarrow> nat option \<times> extent_tree" where
  "attach_extent_node rb mem st ei p =
     (if \<not> mem ei then (None, st)
      else (Some (en_fresh st),
            st\<lparr>et_root := rb_insert_color rb (rb_link_node (et_root st) p \<lparr>en_id = en_fresh st, en_ei = ei\<rparr>),
               node_cnt := node_cnt st + 1, total_ext_node := total_ext_node st + 1, en_fresh := en_fresh st + 1\<rparr>))"

definition detach_extent_node :: "rb_ops \<Rightarrow> extent_tree \<Rightarrow> nat \<Rightarrow> extent_tree" where
  "detach_extent_node rb st en =
     st\<lparr>et_root := rb_erase rb en (et_root st), node_cnt := node_cnt st - 1, total_ext_node := total_ext_node st - 1,
        cached_en := (if cached_en st = Some en then None else cached_en st)\<rparr>"

definition release_extent_node :: "rb_ops \<Rightarrow> extent_tree \<Rightarrow> nat \<Rightarrow> extent_tree" where
  "release_extent_node rb st en =
     detach_extent_node rb
       (st\<lparr>et_fsck := (et_fsck st \<or> en \<notin> set (extent_list st)), extent_list := remove1 en (extent_list st)\<rparr>) en"

definition init_extent_tree :: "rb_ops \<Rightarrow> (extent_info \<Rightarrow> bool) \<Rightarrow> extent_tree \<Rightarrow> extent_info \<Rightarrow> nat option \<times> extent_tree" where
  "init_extent_tree rb mem st ei =
     (case attach_extent_node rb mem st ei [] of
        (None, st) \<Rightarrow> (None, st)
      | (Some en, st) \<Rightarrow> (Some en, st\<lparr>largest := ei, cached_en := Some en\<rparr>))"

text \<open>Every node in turn; the number of nodes freed.\<close>

definition free_extent_tree :: "rb_ops \<Rightarrow> extent_tree \<Rightarrow> nat \<times> extent_tree" where
  "free_extent_tree rb st =
     (let st' = foldl (release_extent_node rb) st (map en_id (inorder (et_root st)))
      in (node_cnt st - node_cnt st', st'))"

definition drop_largest_extent :: "extent_tree \<Rightarrow> nat \<Rightarrow> nat \<Rightarrow> extent_tree" where
  "drop_largest_extent st fofs len =
     (if fofs < ei_end (largest st) \<and> fofs + len > ei_fofs (largest st)
      then st\<lparr>largest := (largest st)\<lparr>ei_len := 0\<rparr>, inode_dirty := True\<rparr> else st)"

definition try_update_largest_extent :: "extent_tree \<Rightarrow> nat \<Rightarrow> extent_tree" where
  "try_update_largest_extent st en =
     (if ei_len (en_info st en) > ei_len (largest st) then st\<lparr>largest := en_info st en, inode_dirty := True\<rparr> else st)"

definition touch_en :: "extent_tree \<Rightarrow> nat \<Rightarrow> extent_tree" where
  "touch_en st en =
     (if en \<in> set (extent_list st)
      then st\<lparr>extent_list := remove1 en (extent_list st) @ [en], cached_en := Some en\<rparr> else st)"

subsection \<open>Operations\<close>

definition f2fs_lookup_extent_tree :: "extent_tree \<Rightarrow> nat \<Rightarrow> extent_info option \<times> extent_tree" where
  "f2fs_lookup_extent_tree st pgofs =
     (if in_extent (largest st) pgofs then (Some (largest st), st)
      else case f2fs_lookup_rb_tree (et_root st) (Option.bind (cached_en st) (find_en (et_root st))) (u32_wrap pgofs) of
             None \<Rightarrow> (None, st)
           | Some en \<Rightarrow> (Some (en_ei en), touch_en st (en_id en)))"

definition try_merge_extent_node ::
  "rb_ops \<Rightarrow> extent_tree \<Rightarrow> extent_info \<Rightarrow> nat option \<Rightarrow> nat option \<Rightarrow> nat option \<times> extent_tree" where
  "try_merge_extent_node rb st ei prev_ex next_ex =
     (let (ei, en, st) =
            (case prev_ex of
               Some p \<Rightarrow> (let e = en_info st p
                          in if is_extent_mergeable e ei
                             then let e = e\<lparr>ei_len := u32_wrap (ei_len e + ei_len ei)\<rparr> in (e, Some p, set_en_info st p e)
                             else (ei, None, st))
             | None \<Rightarrow> (ei, None, st));
          (en, st) =
            (case next_ex of
               Some q \<Rightarrow> (let e = en_info st q
                          in if is_extent_mergeable ei e
                             then let st = set_en_info st q
                                        \<lparr>ei_fofs = ei_fofs ei, ei_len = u32_wrap (ei_len e + ei_len ei), ei_blk = ei_blk ei\<rparr>
                                  in (Some q, case en of Some p \<Rightarrow> release_extent_node rb st p | None \<Rightarrow> st)
                             else (en, st))
             | None \<Rightarrow> (en, st))
      in case en of None \<Rightarrow> (None, st) | Some e \<Rightarrow> (Some e, touch_en (try_update_largest_extent st e) e))"

text \<open>\<open>None\<close>: the search for the place never ends.\<close>

definition insert_extent_tree ::
  "rb_ops \<Rightarrow> (extent_info \<Rightarrow> bool) \<Rightarrow> extent_tree \<Rightarrow> extent_info \<Rightarrow> bool list option \<Rightarrow> (nat option \<times> extent_tree) option" where
  "insert_extent_tree rb mem st ei insert_p =
     (case (case insert_p of Some p \<Rightarrow> Some p | None \<Rightarrow> f2fs_lookup_rb_tree_for_insert (et_root st) (ei_fofs ei)) of
        None \<Rightarrow> None
      | Some p \<Rightarrow>
          (case attach_extent_node rb mem st ei p of
             (None, st) \<Rightarrow> Some (None, st)
           | (Some en, st) \<Rightarrow>
               (let st = try_update_largest_extent st en
                in Some (Some en, st\<lparr>extent_list := extent_list st @ [en], cached_en := Some en\<rparr>))))"

text \<open>
  One turn of the loop of \<open>f2fs_update_extent_tree_range\<close> for node \<open>en\<close>: what is left of it in front
  of \<open>pos\<close> and behind \<open>fin\<close> (the code's \<open>end\<close>) stays when it is long enough.
\<close>

definition split_extent ::
  "rb_ops \<Rightarrow> (extent_info \<Rightarrow> bool) \<Rightarrow> nat \<Rightarrow> nat \<Rightarrow> extent_tree \<Rightarrow> nat \<Rightarrow> (nat \<times> nat option \<times> extent_tree) option" where
  "split_extent rb mem pos fin st en =
     (let dei = en_info st en;
          org_end = ei_end dei;
          front = pos > ei_fofs dei \<and> pos - ei_fofs dei \<ge> F2FS_MIN_EXTENT_LEN;
          back = fin < org_end \<and> org_end - fin \<ge> F2FS_MIN_EXTENT_LEN;
          st = st\<lparr>et_fsck := (et_fsck st \<or> pos \<ge> org_end)\<rparr>;
          st = (if front then set_en_info st en (dei\<lparr>ei_len := pos - ei_fofs dei\<rparr>) else st)
      in if back \<and> front
         then map_option (\<lambda>(en1, st). (2, en1, st))
                (insert_extent_tree rb mem st
                   \<lparr>ei_fofs = fin, ei_len = org_end - fin, ei_blk = u32_wrap (fin - ei_fofs dei + ei_blk dei)\<rparr> None)
         else if back
         then Some (1, Some en,
                set_en_info st en \<lparr>ei_fofs = fin, ei_len = u32_sub (ei_len dei) (fin - ei_fofs dei),
                                   ei_blk = u32_wrap (ei_blk dei + (fin - ei_fofs dei))\<rparr>)
         else Some (if front then 1 else 0, None, st))"

partial_function (option) update_loop ::
  "rb_ops \<Rightarrow> (extent_info \<Rightarrow> bool) \<Rightarrow> nat \<Rightarrow> nat \<Rightarrow> extent_tree \<Rightarrow> nat option \<Rightarrow> nat option \<Rightarrow> nat option \<Rightarrow> bool list option \<Rightarrow> nat
     \<Rightarrow> (extent_tree \<times> nat option \<times> nat option \<times> bool list option \<times> nat) option" where
  "update_loop rb mem pos fin st en prev_en next_en insert_p dei_len =
     (case en of
        None \<Rightarrow> Some (st, prev_en, next_en, insert_p, dei_len)
      | Some i \<Rightarrow>
          (let dei = en_info st i
           in if \<not> ei_fofs dei < fin then Some (st, prev_en, next_en, insert_p, dei_len)
              else case split_extent rb mem pos fin st i of
                None \<Rightarrow> None
              | Some (parts, nxt, st) \<Rightarrow>
                  (let nxt = (case nxt of None \<Rightarrow> rb_next (et_root st) i | Some n \<Rightarrow> Some n);
                       st = (if parts \<noteq> 0 then try_update_largest_extent st i else release_extent_node rb st i)
                   in update_loop rb mem pos fin st nxt
                        (if pos > ei_fofs dei \<and> pos - ei_fofs dei \<ge> F2FS_MIN_EXTENT_LEN then Some i else prev_en)
                        nxt (if parts \<noteq> 1 then None else insert_p) (ei_len dei))))"

definition update_extent ::
  "rb_ops \<Rightarrow> (extent_info \<Rightarrow> bool) \<Rightarrow> extent_tree \<Rightarrow> extent_info \<Rightarrow> nat option \<Rightarrow> nat option \<Rightarrow> bool list option \<Rightarrow> extent_tree option" where
  "update_extent rb mem st ei prev_en next_en insert_p =
     (case try_merge_extent_node rb st ei prev_en next_en of
        (Some _, st) \<Rightarrow> Some st
      | (None, st) \<Rightarrow> map_option snd (insert_extent_tree rb mem st ei insert_p))"

definition f2fs_update_extent_tree_range ::
  "rb_ops \<Rightarrow> (extent_info \<Rightarrow> bool) \<Rightarrow> extent_tree \<Rightarrow> nat \<Rightarrow> nat \<Rightarrow> nat \<Rightarrow> extent_tree option" where
  "f2fs_update_extent_tree_range rb mem st fofs blkaddr len =
     (if no_extent st then Some st
      else let prev = largest st;
               st = drop_largest_extent st fofs len;
               (en, prev_en, next_en, insert_p) =
                 f2fs_lookup_rb_tree_ret (et_root st) (Option.bind (cached_en st) (find_en (et_root st))) (u32_wrap fofs) False;
               en = (case en of None \<Rightarrow> next_en | Some e \<Rightarrow> Some e)
           in case update_loop rb mem (u32_wrap fofs) (u32_wrap (fofs + len)) st en prev_en next_en insert_p 0 of
                None \<Rightarrow> None
              | Some (st, prev_en, next_en, insert_p, dei_len) \<Rightarrow>
                  map_option (\<lambda>st. if no_extent st then snd (free_extent_tree rb st) else st)
                    (if blkaddr = 0 then Some st
                     else map_option (\<lambda>st. if dei_len \<ge> 1 \<and> ei_len prev < F2FS_MIN_EXTENT_LEN \<and> ei_len (largest st) < F2FS_MIN_EXTENT_LEN
                            then (drop_largest_extent st 0 4294967295)\<lparr>no_extent := True\<rparr> else st)
                       (update_extent rb mem st \<lparr>ei_fofs = u32_wrap fofs, ei_len = len, ei_blk = blkaddr\<rparr> prev_en next_en insert_p)))"

subsection \<open>Invariant and meaning\<close>

definition rb_ok :: "rb_ops \<Rightarrow> bool" where
  "rb_ok rb \<longleftrightarrow> (\<forall>t. inorder (rb_insert_color rb t) = inorder t)
     \<and> (\<forall>i t. inorder (rb_erase rb i t) = filter (\<lambda>n. en_id n \<noteq> i) (inorder t))"

definition ei_ok :: "extent_info \<Rightarrow> bool" where
  "ei_ok e \<longleftrightarrow> ei_fofs e + ei_len e < 4294967296 \<and> ei_blk e + ei_len e < 4294967296"

text \<open>An extent is in front of another; the nodes of a tree are a sequence of disjoint extents.\<close>

definition en_before :: "extent_node \<Rightarrow> extent_node \<Rightarrow> bool" where
  "en_before a b \<longleftrightarrow> ei_end (en_ei a) \<le> ei_fofs (en_ei b)"

definition ext_seq :: "extent_node list \<Rightarrow> bool" where
  "ext_seq ns \<longleftrightarrow> sorted_wrt en_before ns \<and> distinct (map en_id ns) \<and> (\<forall>n \<in> set ns. ei_ok (en_ei n) \<and> 0 < ei_len (en_ei n))"

definition et_ids :: "extent_tree \<Rightarrow> nat set" where
  "et_ids st = en_id ` set (inorder (et_root st))"

definition et_wf :: "extent_tree \<Rightarrow> bool" where
  "et_wf st \<longleftrightarrow> ext_seq (inorder (et_root st)) \<and> (\<forall>i \<in> et_ids st. i < en_fresh st) \<and> set_option (cached_en st) \<subseteq> et_ids st
     \<and> et_ids st \<subseteq> set (extent_list st) \<and> node_cnt st = length (inorder (et_root st)) \<and> ei_ok (largest st)"

text \<open>The block map \<open>F\<close> of the file has the blocks of the extent where the extent says.\<close>

definition describes :: "(nat \<rightharpoonup> nat) \<Rightarrow> extent_info \<Rightarrow> bool" where
  "describes F e \<longleftrightarrow> (\<forall>x. ei_fofs e \<le> x \<longrightarrow> x < ei_fofs e + ei_len e \<longrightarrow> F x = Some (ei_blk e + (x - ei_fofs e)))"

definition et_sound :: "(nat \<rightharpoonup> nat) \<Rightarrow> extent_tree \<Rightarrow> bool" where
  "et_sound F st \<longleftrightarrow> (\<forall>n \<in> set (inorder (et_root st)). describes F (en_ei n)) \<and> describes F (largest st)"

lemma ei_end_ok [simp]: "ei_ok e \<Longrightarrow> ei_end e = ei_fofs e + ei_len e"
  by (simp add: ei_ok_def ei_end_def)

lemma inorder_map_tree: "inorder (map_tree f t) = map f (inorder t)"
  by (induction t) simp_all

lemma find_distinct:
  assumes "distinct (map en_id (A @ n # B))"
  shows "find (\<lambda>m. en_id m = en_id n) (A @ n # B) = Some n"
  using assms by (induction A) auto

lemma mid_id: "distinct (map en_id (A @ n # B)) \<Longrightarrow> \<forall>m \<in> set A \<union> set B. en_id m \<noteq> en_id n"
  by (auto simp: image_iff)

lemma succ_en_mid:
  assumes "distinct (map en_id (A @ n # B))"
  shows "succ_en (A @ n # B) (en_id n) = (case B of [] \<Rightarrow> None | b # _ \<Rightarrow> Some (en_id b))"
  using assms
proof (induction A)
  case Nil
  then show ?case by (cases B) simp_all
next
  case (Cons a A)
  then have "en_id a \<noteq> en_id n" by simp
  then show ?case using Cons by (cases "A @ n # B") auto
qed

lemma ids_mid:
  assumes "ext_seq ns" and "i \<in> en_id ` set ns"
  obtains A n B where "ns = A @ n # B" "en_id n = i"
  using assms(2) by (metis imageE in_set_conv_decomp)

text \<open>What the operations do to the sequence.\<close>

lemma mid_ops:
  assumes seq: "distinct (map en_id (inorder (et_root st)))" and d: "inorder (et_root st) = A @ n # B"
  shows "en_info st (en_id n) = en_ei n"
    "inorder (et_root (set_en_info st (en_id n) e)) = A @ n\<lparr>en_ei := e\<rparr> # B"
    "rb_next (et_root st) (en_id n) = (case B of [] \<Rightarrow> None | b # _ \<Rightarrow> Some (en_id b))"
    "rb_prev (et_root st) (en_id n) = (case rev A of [] \<Rightarrow> None | a # _ \<Rightarrow> Some (en_id a))"
proof -
  have dist: "distinct (map en_id (A @ n # B))" using seq d by simp
  show "en_info st (en_id n) = en_ei n" using find_distinct [OF dist] d by (simp add: en_info_def find_en_def)
  have "\<forall>m \<in> set A \<union> set B. en_id m \<noteq> en_id n" by (rule mid_id [OF dist])
  then have "map (\<lambda>m. if en_id m = en_id n then m\<lparr>en_ei := e\<rparr> else m) A = A"
    "map (\<lambda>m. if en_id m = en_id n then m\<lparr>en_ei := e\<rparr> else m) B = B"
    by (auto intro!: map_idI)
  then show "inorder (et_root (set_en_info st (en_id n) e)) = A @ n\<lparr>en_ei := e\<rparr> # B"
    using d by (simp add: set_en_info_def inorder_map_tree)
  show "rb_next (et_root st) (en_id n) = (case B of [] \<Rightarrow> None | b # _ \<Rightarrow> Some (en_id b))"
    using succ_en_mid [OF dist] d by (simp add: rb_next_def)
  have "distinct (map en_id (rev B @ n # rev A))" using dist by (auto simp: rev_map [symmetric])
  from succ_en_mid [OF this] show "rb_prev (et_root st) (en_id n) = (case rev A of [] \<Rightarrow> None | a # _ \<Rightarrow> Some (en_id a))"
    using d by (simp add: rb_prev_def)
qed

lemma erase_mid:
  assumes rb: "rb_ok rb" and seq: "distinct (map en_id (inorder (et_root st)))" and d: "inorder (et_root st) = A @ n # B"
  shows "inorder (et_root (release_extent_node rb st (en_id n))) = A @ B" "inorder (et_root (detach_extent_node rb st (en_id n))) = A @ B"
proof -
  have "\<forall>m \<in> set A \<union> set B. en_id m \<noteq> en_id n" using mid_id seq d by simp
  then have "filter (\<lambda>m. en_id m \<noteq> en_id n) A = A" "filter (\<lambda>m. en_id m \<noteq> en_id n) B = B"
    by (auto intro!: filter_True)
  then show "inorder (et_root (release_extent_node rb st (en_id n))) = A @ B" "inorder (et_root (detach_extent_node rb st (en_id n))) = A @ B"
    using rb d by (simp_all add: release_extent_node_def detach_extent_node_def rb_ok_def)
qed

subsection \<open>Searching\<close>

lemma ext_seq_split:
  assumes "ext_seq (A @ n # B)"
  shows "\<forall>a \<in> set A. ei_end (en_ei a) \<le> ei_fofs (en_ei n)" "\<forall>b \<in> set B. ei_end (en_ei n) \<le> ei_fofs (en_ei b)"
    "ext_seq A" "ext_seq B" "ei_ok (en_ei n)" "0 < ei_len (en_ei n)"
  using assms by (auto simp: ext_seq_def sorted_wrt_append en_before_def)

lemma lookup_slow:
  assumes "ext_seq (inorder t)"
  shows "lookup_rb_tree_slow t ofs = Some n \<longleftrightarrow> n \<in> set (inorder t) \<and> in_extent (en_ei n) ofs"
  using assms
proof (induction t)
  case Leaf
  then show ?case by simp
next
  case (Node l re r)
  have S: "ext_seq (inorder l @ re # inorder r)" using Node.prems by simp
  note s = ext_seq_split [OF S]
  have ok: "0 < ei_len (en_ei m) \<and> ei_end (en_ei m) = ei_fofs (en_ei m) + ei_len (en_ei m)" if "m \<in> set (inorder l) \<union> set (inorder r)" for m
    using that s(3,4) by (auto simp: ext_seq_def)
  show ?case
    using Node.IH(1) [OF s(3)] Node.IH(2) [OF s(4)] s(1,2,5,6) ok
    by (auto simp: in_extent_def)
qed

lemma for_insert_place:
  assumes "ext_seq (inorder t)" and "inorder t = A @ B" and "\<forall>a \<in> set A. ei_end (en_ei a) \<le> ofs" and "\<forall>b \<in> set B. ofs < ei_fofs (en_ei b)"
  shows "\<exists>p. f2fs_lookup_rb_tree_for_insert t ofs = Some p \<and> inorder (rb_link_node t p n) = A @ n # B"
  using assms
proof (induction t arbitrary: A B)
  case Leaf
  then show ?case by simp
next
  case (Node l re r)
  have S: "ext_seq (inorder l @ re # inorder r)" using Node.prems(1) by simp
  note s = ext_seq_split [OF S]
  from Node.prems(2) have "(inorder l @ [re]) @ inorder r = A @ B" by simp
  then consider A2 where "A = inorder l @ re # A2" "inorder r = A2 @ B" | B1 where "inorder l = A @ B1" "B = B1 @ re # inorder r"
    by (auto simp: append_eq_append_conv2 Cons_eq_append_conv append_eq_Cons_conv) 
  then show ?case
  proof cases
    case 1
    then have e: "ei_end (en_ei re) \<le> ofs" using Node.prems(3) by simp
    moreover have "ei_fofs (en_ei re) < ofs" using e s(5,6) by simp
    ultimately show ?thesis using Node.IH(2) [OF s(4) 1(2)] 1 Node.prems(3,4) by auto
  next
    case 2
    then have "ofs < ei_fofs (en_ei re)" using Node.prems(4) by simp
    then show ?thesis using Node.IH(1) [OF s(3) 2(1)] 2 Node.prems(3,4) by auto
  qed
qed

subsection \<open>Keeping the invariant\<close>

lemma seq_replace:
  assumes "ext_seq (A @ n # B)" and "ei_ok e" "0 < ei_len e" and "ei_fofs (en_ei n) \<le> ei_fofs e" "ei_end e \<le> ei_end (en_ei n)"
  shows "ext_seq (A @ n\<lparr>en_ei := e\<rparr> # B)"
  using assms by (fastforce simp: ext_seq_def sorted_wrt_append en_before_def)

lemma seq_drop: "ext_seq (A @ n # B) \<Longrightarrow> ext_seq (A @ B)"
  by (auto simp: ext_seq_def sorted_wrt_append)

lemma seq_insert:
  assumes "ext_seq (A @ B)" and "ei_ok (en_ei n)" "0 < ei_len (en_ei n)" and "\<forall>a \<in> set A. ei_end (en_ei a) \<le> ei_fofs (en_ei n)"
    and "\<forall>b \<in> set B. ei_end (en_ei n) \<le> ei_fofs (en_ei b)" and "en_id n \<notin> en_id ` set (A @ B)"
  shows "ext_seq (A @ n # B)"
  using assms by (fastforce simp: ext_seq_def sorted_wrt_append en_before_def)

lemma wf_dist: "et_wf st \<Longrightarrow> distinct (map en_id (inorder (et_root st)))"
  by (simp add: et_wf_def ext_seq_def)

lemma wf_mid:
  assumes wf: "et_wf st" and d: "inorder (et_root st) = A @ n # B"
  shows "en_info st (en_id n) = en_ei n" "ei_ok (en_ei n)" "0 < ei_len (en_ei n)"
    "rb_next (et_root st) (en_id n) = (case B of [] \<Rightarrow> None | b # _ \<Rightarrow> Some (en_id b))"
    "rb_prev (et_root st) (en_id n) = (case rev A of [] \<Rightarrow> None | a # _ \<Rightarrow> Some (en_id a))"
    "\<forall>a \<in> set A. ei_end (en_ei a) \<le> ei_fofs (en_ei n)" "\<forall>b \<in> set B. ei_end (en_ei n) \<le> ei_fofs (en_ei b)"
  using mid_ops [OF wf_dist [OF wf] d] ext_seq_split [of A n B] wf d by (simp_all add: et_wf_def)

lemma wf_set:
  assumes wf: "et_wf st" and d: "inorder (et_root st) = A @ n # B" and e: "ei_ok e" "0 < ei_len e"
    and sub: "ei_fofs (en_ei n) \<le> ei_fofs e" "ei_end e \<le> ei_end (en_ei n)"
  shows "et_wf (set_en_info st (en_id n) e)" "inorder (et_root (set_en_info st (en_id n) e)) = A @ n\<lparr>en_ei := e\<rparr> # B"
proof -
  show i: "inorder (et_root (set_en_info st (en_id n) e)) = A @ n\<lparr>en_ei := e\<rparr> # B" by (rule mid_ops(2) [OF wf_dist [OF wf] d])
  have "ext_seq (A @ n\<lparr>en_ei := e\<rparr> # B)" using wf d e sub by (intro seq_replace) (simp_all add: et_wf_def)
  then show "et_wf (set_en_info st (en_id n) e)" using wf d i by (simp add: et_wf_def et_ids_def) (simp add: set_en_info_def)
qed

text \<open>The part of the invariant that does not depend on the extents themselves.\<close>

definition et_ptr :: "extent_tree \<Rightarrow> bool" where
  "et_ptr st \<longleftrightarrow> distinct (map en_id (inorder (et_root st))) \<and> (\<forall>i \<in> et_ids st. i < en_fresh st) \<and> set_option (cached_en st) \<subseteq> et_ids st
     \<and> et_ids st \<subseteq> set (extent_list st) \<and> node_cnt st = length (inorder (et_root st)) \<and> ei_ok (largest st)"

lemma et_wf_ptr: "et_wf st \<longleftrightarrow> ext_seq (inorder (et_root st)) \<and> et_ptr st"
  by (auto simp: et_wf_def et_ptr_def ext_seq_def)

lemma ptr_release:
  assumes rb: "rb_ok rb" and wf: "et_ptr st" and d: "inorder (et_root st) = A @ n # B"
  shows "et_ptr (release_extent_node rb st (en_id n))" "inorder (et_root (release_extent_node rb st (en_id n))) = A @ B"
    "et_fsck (release_extent_node rb st (en_id n)) = et_fsck st" "largest (release_extent_node rb st (en_id n)) = largest st"
    "no_extent (release_extent_node rb st (en_id n)) = no_extent st"
proof -
  let ?st = "release_extent_node rb st (en_id n)"
  show i: "inorder (et_root ?st) = A @ B" using erase_mid(1) [OF rb _ d] wf by (simp add: et_ptr_def)
  have "en_id n \<in> set (extent_list st)" using wf d by (auto simp: et_ptr_def et_ids_def)
  then show "et_fsck ?st = et_fsck st" by (simp add: release_extent_node_def detach_extent_node_def)
  show "largest ?st = largest st" "no_extent ?st = no_extent st" by (simp_all add: release_extent_node_def detach_extent_node_def)
  have "\<forall>m \<in> set A \<union> set B. en_id m \<noteq> en_id n" using mid_id [of A n B] wf d by (simp add: et_ptr_def)
  then have "set_option (cached_en ?st) \<subseteq> et_ids ?st" "et_ids ?st \<subseteq> set (extent_list ?st)"
    using wf d i
    by (auto simp: et_ptr_def et_ids_def release_extent_node_def detach_extent_node_def split: if_splits)
  moreover have "distinct (map en_id (A @ B))" using wf d by (auto simp: et_ptr_def)
  moreover have "en_fresh ?st = en_fresh st" "node_cnt ?st = node_cnt st - 1" "et_ids ?st \<subseteq> et_ids st"
    using d i by (auto simp: release_extent_node_def detach_extent_node_def et_ids_def)
  ultimately show "et_ptr ?st" using wf d i \<open>largest ?st = largest st\<close> by (auto simp: et_ptr_def)
qed

lemma wf_release:
  assumes rb: "rb_ok rb" and wf: "et_wf st" and d: "inorder (et_root st) = A @ n # B"
  shows "et_wf (release_extent_node rb st (en_id n))" "inorder (et_root (release_extent_node rb st (en_id n))) = A @ B"
    "et_fsck (release_extent_node rb st (en_id n)) = et_fsck st" "largest (release_extent_node rb st (en_id n)) = largest st"
    "no_extent (release_extent_node rb st (en_id n)) = no_extent st"
  using ptr_release [OF rb _ d] wf d seq_drop [of A n B] by (simp_all add: et_wf_ptr)

lemma upd_largest_frame [simp]:
  "et_root (try_update_largest_extent st i) = et_root st" "cached_en (try_update_largest_extent st i) = cached_en st"
  "node_cnt (try_update_largest_extent st i) = node_cnt st" "extent_list (try_update_largest_extent st i) = extent_list st"
  "en_fresh (try_update_largest_extent st i) = en_fresh st" "no_extent (try_update_largest_extent st i) = no_extent st"
  "et_fsck (try_update_largest_extent st i) = et_fsck st" "et_ids (try_update_largest_extent st i) = et_ids st"
  by (simp_all add: try_update_largest_extent_def et_ids_def)

lemma wf_upd_largest:
  assumes "et_wf st" and "i \<in> et_ids st"
  shows "et_wf (try_update_largest_extent st i)"
    "describes F (largest st) \<Longrightarrow> describes F (en_info st i) \<Longrightarrow> describes F (largest (try_update_largest_extent st i))"
proof -
  obtain A n B where d: "inorder (et_root st) = A @ n # B" "en_id n = i"
    using ids_mid [of "inorder (et_root st)" i] assms unfolding et_ids_def et_wf_def by blast
  then have "ei_ok (en_info st i)" using wf_mid(1,2) [OF assms(1) d(1)] by simp
  then show "et_wf (try_update_largest_extent st i)" using assms(1) by (simp add: et_wf_def) (simp add: try_update_largest_extent_def)
  show "describes F (largest st) \<Longrightarrow> describes F (en_info st i) \<Longrightarrow> describes F (largest (try_update_largest_extent st i))"
    by (simp add: try_update_largest_extent_def)
qed

text \<open>A new node between \<open>A\<close> and \<open>B\<close>.\<close>

lemma wf_insert:
  assumes rb: "rb_ok rb" and wf: "et_wf st" and d: "inorder (et_root st) = A @ B" and e: "ei_ok e" "0 < ei_len e"
    and pl: "\<forall>a \<in> set A. ei_end (en_ei a) \<le> ei_fofs e" "\<forall>b \<in> set B. ei_end e \<le> ei_fofs (en_ei b)"
    and ip: "\<And>p. ip = Some p \<Longrightarrow> f2fs_lookup_rb_tree_for_insert (et_root st) (ei_fofs e) = Some p"
    and F: "describes F (largest st)" "describes F e"
  obtains r st' where "insert_extent_tree rb mem st e ip = Some (r, st')" "et_wf st'"
    "et_fsck st' = et_fsck st" "no_extent st' = no_extent st" "describes F (largest st')"
    "r = None \<and> \<not> mem e \<and> inorder (et_root st') = A @ B
     \<or> mem e \<and> r = Some (en_fresh st) \<and> inorder (et_root st') = A @ \<lparr>en_id = en_fresh st, en_ei = e\<rparr> # B"
proof -
  let ?n = "\<lparr>en_id = en_fresh st, en_ei = e\<rparr>"
  have "\<forall>b \<in> set B. ei_fofs e < ei_fofs (en_ei b)" using pl(2) e by auto
  then obtain p where p: "f2fs_lookup_rb_tree_for_insert (et_root st) (ei_fofs e) = Some p"
    "inorder (rb_link_node (et_root st) p ?n) = A @ ?n # B"
    using for_insert_place [of "et_root st" A B "ei_fofs e" ?n] wf d pl(1) by (auto simp: et_wf_def)
  then have ip': "(case ip of Some p \<Rightarrow> Some p | None \<Rightarrow> f2fs_lookup_rb_tree_for_insert (et_root st) (ei_fofs e)) = Some p"
    using ip by (cases ip) auto
  show thesis
  proof (cases "mem e")
    case False
    then show thesis using ip' wf d F(1) by (intro that [of None st]) (simp_all add: insert_extent_tree_def attach_extent_node_def)
  next
    case True
    define st1 where "st1 = snd (attach_extent_node rb mem st e p)"
    have f1: "inorder (et_root st1) = A @ ?n # B" "largest st1 = largest st" "en_fresh st1 = en_fresh st + 1"
      "node_cnt st1 = node_cnt st + 1" "extent_list st1 = extent_list st" "no_extent st1 = no_extent st" "et_fsck st1 = et_fsck st"
      using True p(2) rb by (simp_all add: st1_def attach_extent_node_def rb_ok_def)
    have nid: "en_fresh st \<notin> en_id ` set (A @ B)" using wf d by (force simp: et_wf_def et_ids_def)
    then have seq: "ext_seq (A @ ?n # B)" using wf d e pl by (intro seq_insert) (simp_all add: et_wf_def)
    define st2 where "st2 = (try_update_largest_extent st1 (en_fresh st))\<lparr>extent_list := extent_list st1 @ [en_fresh st], cached_en := Some (en_fresh st)\<rparr>"
    have info: "en_info st1 (en_fresh st) = e" using mid_ops(1) [of st1 A ?n B] f1(1) seq by (simp add: ext_seq_def)
    have ids: "et_ids st2 = insert (en_fresh st) (et_ids st)" using f1(1) d by (auto simp: st2_def et_ids_def)
    have l2: "ei_ok (largest st2)" "describes F (largest st2)"
      using f1(2) info wf e(1) F by (simp_all add: st2_def try_update_largest_extent_def et_wf_def)
    have "et_wf st2" using seq ids wf d f1 l2(1) unfolding et_wf_def by (auto simp: st2_def)
    moreover have "insert_extent_tree rb mem st e ip = Some (Some (en_fresh st), st2)"
      using ip' True by (simp add: insert_extent_tree_def st2_def st1_def attach_extent_node_def Let_def)
    ultimately show thesis using f1 l2(2) True by (intro that [of "Some (en_fresh st)" st2]) (simp_all add: st2_def)
  qed
qed

end
