(* ===== verification/Extent_Update.thy ===== *)
theory Extent_Update
  imports Extent_Cache
begin

text \<open>
  The extent cache against the block map it caches: every extent in the tree and the largest extent
  agree with the map of the file (\<open>et_inv\<close>), and \<open>f2fs_update_extent_tree_range\<close>, which cuts a range out
  of the tree, splits and drops extents and merges the new one with its neighbours, keeps it so for the
  updated map.
\<close>

subsection \<open>Cutting a range out\<close>

definition hd_id :: "extent_node list \<Rightarrow> nat option" where
  "hd_id ns = (case ns of [] \<Rightarrow> None | n # _ \<Rightarrow> Some (en_id n))"

lemma hd_id_simps [simp]: "hd_id [] = None" "hd_id (n # ns) = Some (en_id n)"
  by (simp_all add: hd_id_def)

text \<open>The part of an extent that lies in the range: \<open>describes\<close> is local.\<close>

lemma describes_sub:
  assumes "describes F e" and "ei_fofs e \<le> ei_fofs e'" "ei_fofs e' + ei_len e' \<le> ei_fofs e + ei_len e"
    and "ei_blk e' = ei_blk e + (ei_fofs e' - ei_fofs e)" and "\<forall>x. ei_fofs e' \<le> x \<longrightarrow> x < ei_fofs e' + ei_len e' \<longrightarrow> F' x = F x"
  shows "describes F' e'"
  unfolding describes_def
proof (intro allI impI)
  fix x assume x: "ei_fofs e' \<le> x" "x < ei_fofs e' + ei_len e'"
  then have "F x = Some (ei_blk e + (x - ei_fofs e))" using assms(1-3) by (simp add: describes_def)
  then show "F' x = Some (ei_blk e' + (x - ei_fofs e'))" using x assms(2,4,5) by simp
qed

lemma for_insert_map:
  assumes "\<forall>n \<in> set_tree t. (ofs < ei_fofs (en_ei (f n))) = (ofs < ei_fofs (en_ei n))
    \<and> (ei_fofs (en_ei n) \<le> ofs \<longrightarrow> ei_end (en_ei (f n)) = ei_end (en_ei n))"
  shows "f2fs_lookup_rb_tree_for_insert (map_tree f t) ofs = f2fs_lookup_rb_tree_for_insert t ofs"
  using assms by (induction t) auto

text \<open>The state of the loop: \<open>A\<close> ends in front of the range, \<open>R\<close> is still to be looked at.\<close>

definition cut_inv ::
  "(nat \<rightharpoonup> nat) \<Rightarrow> (nat \<rightharpoonup> nat) \<Rightarrow> nat \<Rightarrow> extent_tree \<Rightarrow> extent_node list \<Rightarrow> extent_node list \<Rightarrow> nat option \<Rightarrow> bool list option \<Rightarrow> bool" where
  "cut_inv F F0 pos st A R prev_en ip \<longleftrightarrow> et_wf st \<and> inorder (et_root st) = A @ R
     \<and> (\<forall>a \<in> set A. ei_end (en_ei a) \<le> pos) \<and> (\<forall>n \<in> set R. pos < ei_end (en_ei n))
     \<and> (\<forall>n \<in> set (A @ R). describes F (en_ei n)) \<and> describes F0 (largest st) \<and> set_option prev_en \<subseteq> en_id ` set A
     \<and> (\<forall>p. ip = Some p \<longrightarrow> f2fs_lookup_rb_tree_for_insert (et_root st) pos = Some p \<and> (\<forall>n \<in> set R. pos < ei_fofs (en_ei n)))"

definition cut_map :: "(nat \<rightharpoonup> nat) \<Rightarrow> nat \<Rightarrow> nat \<Rightarrow> nat \<rightharpoonup> nat" where
  "cut_map F pos fin = (\<lambda>x. if pos \<le> x \<and> x < fin then None else F x)"

lemma fsck_frame [simp]:
  "et_wf (st\<lparr>et_fsck := b\<rparr>) = et_wf st" "et_root (st\<lparr>et_fsck := b\<rparr>) = et_root st"
  "set_en_info (st\<lparr>et_fsck := b\<rparr>) i e = (set_en_info st i e)\<lparr>et_fsck := b\<rparr>" "et_ids (st\<lparr>et_fsck := b\<rparr>) = et_ids st"
  by (simp_all add: et_wf_def et_ids_def set_en_info_def)

lemma set_info_frame [simp]:
  "largest (set_en_info st i e) = largest st" "et_fsck (set_en_info st i e) = et_fsck st" "no_extent (set_en_info st i e) = no_extent st"
  "cached_en (set_en_info st i e) = cached_en st" "en_fresh (set_en_info st i e) = en_fresh st"
  by (simp_all add: set_en_info_def)

lemma set_info_ids [simp]: "et_ids (set_en_info st i e) = et_ids st"
proof -
  have "en_id ` (\<lambda>n. if en_id n = i then n\<lparr>en_ei := e\<rparr> else n) ` S = en_id ` S" for S
    unfolding image_image by (rule image_cong) auto
  then show ?thesis by (simp add: set_en_info_def et_ids_def tree.set_map)
qed

text \<open>One turn of the loop. Either the turn is the last one, or the node is done with and \<open>B\<close> is left.\<close>

lemma split_turn:
  assumes rb: "rb_ok rb" and inv: "cut_inv F (cut_map F pos fin) pos st A (n # B) prev_en ip" and r: "pos < fin" "ei_fofs (en_ei n) < fin" "fin < 4294967296"
  defines "front \<equiv> pos > ei_fofs (en_ei n) \<and> pos - ei_fofs (en_ei n) \<ge> F2FS_MIN_EXTENT_LEN"
  obtains parts nxt st1 st' A' R' where "split_extent rb mem pos fin st (en_id n) = Some (parts, nxt, st1)"
    "st' = (if parts \<noteq> 0 then try_update_largest_extent st1 (en_id n) else release_extent_node rb st1 (en_id n))"
    "(case nxt of None \<Rightarrow> rb_next (et_root st1) (en_id n) | Some i \<Rightarrow> Some i) = hd_id R'"
    "cut_inv F (cut_map F pos fin) pos st' A' R' (if front then Some (en_id n) else prev_en) (if parts \<noteq> 1 then None else ip)"
    "R' = B \<or> (\<exists>m. R' = m # B \<and> ei_fofs (en_ei m) = fin)" "et_fsck st' = et_fsck st" "no_extent st' = no_extent st"
proof -
  let ?F0 = "cut_map F pos fin" and ?d = "en_ei n"
  have wf: "et_wf st" and d: "inorder (et_root st) = A @ n # B" and A: "\<forall>a \<in> set A. ei_end (en_ei a) \<le> pos"
    and R: "pos < ei_end ?d" "\<forall>b \<in> set B. pos < ei_end (en_ei b)" and F: "\<forall>m \<in> set (A @ n # B). describes F (en_ei m)"
    and L: "describes ?F0 (largest st)" and pv: "set_option prev_en \<subseteq> en_id ` set A"
    and ip: "\<And>p. ip = Some p \<Longrightarrow> f2fs_lookup_rb_tree_for_insert (et_root st) pos = Some p \<and> pos < ei_fofs ?d \<and> (\<forall>b \<in> set B. pos < ei_fofs (en_ei b))"
    using inv by (auto simp: cut_inv_def)
  note M = wf_mid [OF wf d]
  define o1 where "o1 = ei_fofs ?d + ei_len ?d"
  have oe: "ei_end ?d = o1" "o1 < 4294967296" "ei_blk ?d + ei_len ?d < 4294967296" using M(2) by (simp_all add: o1_def ei_ok_def)
  define tail where "tail \<longleftrightarrow> fin < o1 \<and> o1 - fin \<ge> F2FS_MIN_EXTENT_LEN"
  have fs: "st\<lparr>et_fsck := et_fsck st \<or> o1 \<le> pos\<rparr> = st" using R(1) oe by simp
  define e1 where "e1 = ?d\<lparr>ei_len := pos - ei_fofs ?d\<rparr>"
  define e2 where "e2 = \<lparr>ei_fofs = fin, ei_len = o1 - fin, ei_blk = ei_blk ?d + (fin - ei_fofs ?d)\<rparr>"
  have e1: "ei_ok e1" "0 < ei_len e1" "ei_end e1 = pos" "describes F e1" "describes ?F0 e1" if front
  proof -
    have ord: "ei_fofs ?d < pos" "pos < o1" using that R(1) oe by (auto simp: front_def)
    then show "ei_ok e1" "0 < ei_len e1" using M(2) by (auto simp: e1_def ei_ok_def o1_def)
    then show "ei_end e1 = pos" using ord by (simp add: e1_def)
    show "describes F e1" "describes ?F0 e1" using F ord by (auto intro!: describes_sub [of F ?d] simp: e1_def o1_def cut_map_def)
  qed
  have e2: "ei_ok e2" "0 < ei_len e2" "ei_end e2 = o1" "describes F e2" "describes ?F0 e2" if tail
  proof -
    have ord: "fin < o1" using that by (simp add: tail_def)
    then show "ei_ok e2" "0 < ei_len e2" using M(2) r(2) by (simp_all add: e2_def ei_ok_def o1_def)
    then show "ei_end e2 = o1" using ord by (simp add: e2_def)
    show "describes F e2" "describes ?F0 e2" using F ord r by (auto intro!: describes_sub [of F ?d] simp: e2_def o1_def cut_map_def)
  qed
  have un: "split_extent rb mem pos fin st (en_id n) =
    (let st1 = (if front then set_en_info st (en_id n) e1 else st)
     in if tail \<and> front then map_option (\<lambda>(en1, st). (2, en1, st)) (insert_extent_tree rb mem st1 e2 None)
        else if tail then Some (1, Some (en_id n), set_en_info st1 (en_id n) e2) else Some (if front then 1 else 0, None, st1))"
  proof -
    have "u32_wrap (fin - ei_fofs ?d + ei_blk ?d) = ei_blk ?d + (fin - ei_fofs ?d) \<and> u32_wrap (ei_blk ?d + (fin - ei_fofs ?d)) = ei_blk ?d + (fin - ei_fofs ?d)
      \<and> u32_sub (ei_len ?d) (fin - ei_fofs ?d) = o1 - fin" if tail
    proof -
      have l: "fin - ei_fofs ?d < ei_len ?d" using that r(2) by (auto simp: tail_def o1_def)
      have "ei_blk ?d + (fin - ei_fofs ?d) < 4294967296" "ei_len ?d < 4294967296" using l oe(3) by linarith+
      then show ?thesis using l r(2) by (simp add: add.commute o1_def)
    qed
    then show ?thesis
      unfolding split_extent_def Let_def M(1) oe(1) fs front_def [symmetric] tail_def [symmetric] e1_def e2_def
      by (cases front; cases tail) simp_all
  qed
  show thesis
  proof (cases tail)
    case tail: True
    show thesis
    proof (cases front)
      case True
      note e1 = e1 [OF True] and e2 = e2 [OF tail]
      let ?n1 = "n\<lparr>en_ei := e1\<rparr>" and ?st1 = "set_en_info st (en_id n) e1"
      have W: "et_wf ?st1" "inorder (et_root ?st1) = (A @ [?n1]) @ B"
        using wf_set [OF wf d e1(1,2)] e1(3) R(1) by (simp_all add: e1_def)
      obtain rr st2 where I: "insert_extent_tree rb mem ?st1 e2 None = Some (rr, st2)" "et_wf st2" "et_fsck st2 = et_fsck st"
        "no_extent st2 = no_extent st" "describes ?F0 (largest st2)"
        "rr = None \<and> inorder (et_root st2) = (A @ [?n1]) @ B \<or> (\<exists>i. rr = Some i \<and> inorder (et_root st2) = (A @ [?n1]) @ \<lparr>en_id = i, en_ei = e2\<rparr> # B)"
      proof (rule wf_insert [OF rb W e2(1,2), where ip = None and F = ?F0 and mem = mem])
        show "\<forall>a \<in> set (A @ [?n1]). ei_end (en_ei a) \<le> ei_fofs e2" using A r(1) e1(3) by (auto simp: e2_def)
        show "\<forall>b \<in> set B. ei_end e2 \<le> ei_fofs (en_ei b)" using M(7) oe(1) e2(3) by simp
        show "describes ?F0 (largest ?st1)" "describes ?F0 e2" using L e2(5) by simp_all
      qed (simp, metis that set_info_frame(2,3))
      obtain R' where d2: "inorder (et_root st2) = (A @ [?n1]) @ R'" and nx: "(case rr of None \<Rightarrow> hd_id B | Some i \<Rightarrow> Some i) = hd_id R'"
        "R' = B \<or> (\<exists>m. R' = m # B \<and> en_ei m = e2)" "rr = None \<Longrightarrow> R' = B"
        using I(6) by auto
      have d2': "inorder (et_root st2) = A @ ?n1 # R'" using d2 by simp
      note M2 = wf_mid [OF I(2) d2']
      have n2: "(case rr of None \<Rightarrow> rb_next (et_root st2) (en_id n) | Some i \<Rightarrow> Some i) = hd_id R'"
        using M2(4) nx by (auto simp: hd_id_def split: option.splits)
      have nid: "en_id n \<in> et_ids st2" using d2' by (auto simp: et_ids_def)
      note U = wf_upd_largest [OF I(2) nid]
      have inf: "en_info st2 (en_id n) = e1" using M2(1) by simp
      have inv': "cut_inv F ?F0 pos (try_update_largest_extent st2 (en_id n)) (A @ [?n1]) R' (Some (en_id n)) None"
        using U(1) U(2) [OF I(5)] inf e1 e2 d2 A R r(1) F nx(2) oe(1) by (auto simp: cut_inv_def tail_def)
      show thesis
        using un True tail I n2 inv' nx(2)
        by (intro that [of 2 rr st2 "try_update_largest_extent st2 (en_id n)" R' "A @ [?n1]"]) (auto simp: Let_def e2_def)
    next
      case False
      note e2 = e2 [OF tail]
      let ?n2 = "n\<lparr>en_ei := e2\<rparr>" and ?st1 = "set_en_info st (en_id n) e2"
      have W: "et_wf ?st1" "inorder (et_root ?st1) = A @ ?n2 # B"
        using wf_set [OF wf d e2(1,2)] e2(3) oe(1) r(2) by (simp_all add: e2_def)
      have nid: "en_id n \<in> et_ids ?st1" using W(2) by (auto simp: et_ids_def)
      note U = wf_upd_largest [OF W(1) nid]
      have inf: "en_info ?st1 (en_id n) = e2" using wf_mid(1) [OF W] by simp
      have ip': "f2fs_lookup_rb_tree_for_insert (et_root ?st1) pos = Some p" if "ip = Some p" for p
      proof -
        have ids: "m = n" if "m \<in> set_tree (et_root st)" "en_id m = en_id n" for m
          using that mid_id [of A n B] wf_dist [OF wf] d by (metis (no_types, lifting) UnCI UnE append_Cons in_set_conv_decomp set_ConsD set_append set_inorder)
        define f :: "extent_node \<Rightarrow> extent_node" where "f = (\<lambda>m. if en_id m = en_id n then m\<lparr>en_ei := e2\<rparr> else m)"
        have "\<forall>m \<in> set_tree (et_root st). (pos < ei_fofs (en_ei (f m))) = (pos < ei_fofs (en_ei m))
            \<and> (ei_fofs (en_ei m) \<le> pos \<longrightarrow> ei_end (en_ei (f m)) = ei_end (en_ei m))"
        proof
          fix m assume m: "m \<in> set_tree (et_root st)"
          show "(pos < ei_fofs (en_ei (f m))) = (pos < ei_fofs (en_ei m)) \<and> (ei_fofs (en_ei m) \<le> pos \<longrightarrow> ei_end (en_ei (f m)) = ei_end (en_ei m))"
          proof (cases "en_id m = en_id n")
            case True
            then have "m = n" using ids m by simp
            then show ?thesis using ip [OF that] r(1) by (simp add: f_def e2_def)
          qed (simp add: f_def)
        qed
        note for_insert_map [OF this]
        moreover have "et_root ?st1 = map_tree f (et_root st)" by (simp add: set_en_info_def f_def)
        ultimately show ?thesis using ip [OF that] by simp
      qed
      have inv': "cut_inv F ?F0 pos (try_update_largest_extent ?st1 (en_id n)) A (?n2 # B) prev_en ip"
        using U(1) U(2) [of ?F0] L inf e2 W(2) A R r(1) F ip' ip pv oe(1) by (auto simp: cut_inv_def e2_def)
      show thesis
        using un False tail inv'
        by (intro that [of 1 "Some (en_id n)" ?st1 "try_update_largest_extent ?st1 (en_id n)" "?n2 # B" A]) (auto simp: Let_def e2_def)
    qed
  next
    case tail: False
    show thesis
    proof (cases front)
      case True
      note e1 = e1 [OF True]
      let ?n1 = "n\<lparr>en_ei := e1\<rparr>" and ?st1 = "set_en_info st (en_id n) e1"
      have W: "et_wf ?st1" "inorder (et_root ?st1) = A @ ?n1 # B"
        using wf_set [OF wf d e1(1,2)] e1(3) R(1) by (simp_all add: e1_def)
      have nid: "en_id n \<in> et_ids ?st1" using W(2) by (auto simp: et_ids_def)
      note U = wf_upd_largest [OF W(1) nid]
      have inf: "en_info ?st1 (en_id n) = e1" using wf_mid(1) [OF W] by simp
      have "ip = None" using ip True by (cases ip) (auto simp: front_def)
      then have inv': "cut_inv F ?F0 pos (try_update_largest_extent ?st1 (en_id n)) (A @ [?n1]) B (Some (en_id n)) ip"
        using U(1) U(2) [of ?F0] L inf e1 W(2) A R F by (auto simp: cut_inv_def)
      moreover have "rb_next (et_root ?st1) (en_id n) = hd_id B" using wf_mid(4) [OF W] by (simp add: hd_id_def)
      ultimately show thesis
        using un True tail by (intro that [of 1 None ?st1 "try_update_largest_extent ?st1 (en_id n)" B "A @ [?n1]"]) (auto simp: Let_def)
    next
      case False
      note W = wf_release [OF rb wf d]
      have "cut_inv F ?F0 pos (release_extent_node rb st (en_id n)) A B prev_en None"
        using W A R F L pv by (auto simp: cut_inv_def)
      moreover have "rb_next (et_root st) (en_id n) = hd_id B" using M(4) by (simp add: hd_id_def)
      ultimately show thesis using un False tail W(3,5) by (intro that [of 0 None st "release_extent_node rb st (en_id n)" B A]) (auto simp: Let_def)
    qed
  qed
qed

lemma cut_done:
  assumes "cut_inv F F0 pos st A R prev_en ip" and "R = [] \<or> (\<exists>m B. R = m # B \<and> fin \<le> ei_fofs (en_ei m))"
  shows "update_loop rb mem pos fin st (hd_id R) prev_en nx ip dl = Some (st, prev_en, nx, ip, dl)" "\<forall>b \<in> set R. fin \<le> ei_fofs (en_ei b)"
proof -
  have wf: "et_wf st" "inorder (et_root st) = A @ R" using assms(1) by (simp_all add: cut_inv_def)
  show "update_loop rb mem pos fin st (hd_id R) prev_en nx ip dl = Some (st, prev_en, nx, ip, dl)"
  proof (cases R)
    case Nil
    then show ?thesis by (simp add: update_loop.simps)
  next
    case (Cons m B)
    then show ?thesis using assms(2) wf_mid(1) [OF wf(1), of A m B] wf(2)
      by (subst update_loop.simps) (simp add: Let_def)
  qed
  show "\<forall>b \<in> set R. fin \<le> ei_fofs (en_ei b)"
  proof (cases R)
    case (Cons m B)
    then have "\<forall>b \<in> set B. ei_end (en_ei m) \<le> ei_fofs (en_ei b)" "ei_ok (en_ei m)"
      using wf_mid(2,7) [OF wf(1), of A m B] wf(2) by simp_all
    then show ?thesis using assms(2) Cons by auto
  qed simp
qed

lemma update_loop_cuts:
  assumes rb: "rb_ok rb" and "cut_inv F (cut_map F pos fin) pos st A R prev_en ip" and r: "pos < fin" "fin < 4294967296"
    and "nx = hd_id R \<or> (\<exists>n B. R = n # B \<and> ei_fofs (en_ei n) < fin)"
  shows "\<exists>st' A' R' prev' ip' dl'. update_loop rb mem pos fin st (hd_id R) prev_en nx ip dl = Some (st', prev', hd_id R', ip', dl')
    \<and> cut_inv F (cut_map F pos fin) pos st' A' R' prev' ip' \<and> (\<forall>b \<in> set R'. fin \<le> ei_fofs (en_ei b))
    \<and> et_fsck st' = et_fsck st \<and> no_extent st' = no_extent st"
  using assms(2,5)
proof (induction R arbitrary: st A prev_en ip nx dl)
  case Nil
  note cut_done [OF Nil.prems(1), where fin = fin]
  then show ?case using Nil.prems
    by (intro exI [of _ st] exI [of _ A] exI [of _ "[]"] exI [of _ prev_en] exI [of _ ip] exI [of _ dl]) simp
next
  case (Cons n B)
  let ?F0 = "cut_map F pos fin"
  show ?case
  proof (cases "ei_fofs (en_ei n) < fin")
    case False
    then have "\<exists>m C. n # B = m # C \<and> fin \<le> ei_fofs (en_ei m)" by simp
    note D = cut_done [OF Cons.prems(1) disjI2 [OF this]]
    moreover have "nx = hd_id (n # B)" using Cons.prems(2) False by simp
    ultimately show ?thesis using Cons.prems(1) by blast
  next
    case True
    define front where "front \<longleftrightarrow> pos > ei_fofs (en_ei n) \<and> pos - ei_fofs (en_ei n) \<ge> F2FS_MIN_EXTENT_LEN"
    obtain parts nxt st1 st2 A' R' where t: "split_extent rb mem pos fin st (en_id n) = Some (parts, nxt, st1)"
      "st2 = (if parts \<noteq> 0 then try_update_largest_extent st1 (en_id n) else release_extent_node rb st1 (en_id n))"
      "(case nxt of None \<Rightarrow> rb_next (et_root st1) (en_id n) | Some i \<Rightarrow> Some i) = hd_id R'"
      "cut_inv F ?F0 pos st2 A' R' (if front then Some (en_id n) else prev_en) (if parts \<noteq> 1 then None else ip)"
      "R' = B \<or> (\<exists>m. R' = m # B \<and> ei_fofs (en_ei m) = fin)" "et_fsck st2 = et_fsck st" "no_extent st2 = no_extent st"
      by (rule split_turn [OF rb Cons.prems(1) r(1) True r(2), where mem = mem, folded front_def])
    have inf: "en_info st (en_id n) = en_ei n" using Cons.prems(1) wf_mid(1) by (auto simp: cut_inv_def)
    have step: "update_loop rb mem pos fin st (hd_id (n # B)) prev_en nx ip dl
      = update_loop rb mem pos fin st2 (hd_id R') (if front then Some (en_id n) else prev_en) (hd_id R') (if parts \<noteq> 1 then None else ip) (ei_len (en_ei n))"
      using True t(1-3) inf by (subst update_loop.simps) (simp add: Let_def front_def)
    show ?thesis
    proof (cases "R' = B")
      case True
      then show ?thesis using Cons.IH [OF t(4) [unfolded True]] step t(6,7) by simp
    next
      case False
      then have "\<exists>m B. R' = m # B \<and> fin \<le> ei_fofs (en_ei m)" using t(5) by auto
      note D = cut_done [OF t(4) disjI2 [OF this]]
      show ?thesis unfolding step D(1) using D(2) t(4,6,7) by blast
    qed
  qed
qed

subsection \<open>The first node of the range\<close>

lemma descend_hit: "rb_descend t ofs q = Inl n \<Longrightarrow> n \<in> set (inorder t) \<and> in_extent (en_ei n) ofs"
  by (induction t arbitrary: q) (auto simp: in_extent_def split: if_splits sum.splits)

lemma descend_miss:
  assumes "ext_seq (inorder t)" and "rb_descend t ofs q = Inr (p, q')"
  shows "f2fs_lookup_rb_tree_for_insert t ofs = Some p" (is ?P)
    and "t \<noteq> Leaf \<Longrightarrow> \<exists>A B. inorder t = A @ q' # B \<and> (\<forall>a \<in> set A. ei_end (en_ei a) \<le> ofs) \<and> (\<forall>b \<in> set B. ofs < ei_fofs (en_ei b))
      \<and> (ofs < ei_fofs (en_ei q') \<or> ei_end (en_ei q') \<le> ofs)" (is "_ \<Longrightarrow> ?Q t q'")
proof -
  have "?P \<and> (t \<noteq> Leaf \<longrightarrow> ?Q t q')"
    using assms
  proof (induction t arbitrary: q p)
    case Leaf
    then show ?case by simp
  next
    case (Node l re r)
    have S: "ext_seq (inorder l @ re # inorder r)" using Node.prems(1) by simp
    note s = ext_seq_split [OF S]
    consider (left) "ofs < ei_fofs (en_ei re)" | (right) "ei_fofs (en_ei re) \<le> ofs" "ei_end (en_ei re) \<le> ofs"
      using Node.prems(2) by (auto split: if_splits)
    then show ?case
    proof cases
      case left
      then obtain p1 where p1: "rb_descend l ofs re = Inr (p1, q')" "p = False # p1" using Node.prems(2) by (auto split: sum.splits)
      note IH = Node.IH(1) [OF s(3) p1(1)]
      have r: "\<forall>b \<in> set (inorder r). ofs < ei_fofs (en_ei b)" using s(2,5) left by auto
      show ?thesis
      proof (cases "l = Leaf")
        case True
        then have "q' = re" using p1(1) by simp
        then have "?Q (Node l re r) q'" using True left r by (intro exI [of _ "[]"] exI [of _ "inorder r"]) simp
        then show ?thesis using IH p1(2) left by auto
      next
        case False
        then obtain A B where "inorder l = A @ q' # B" "\<forall>a \<in> set A. ei_end (en_ei a) \<le> ofs" "\<forall>b \<in> set B. ofs < ei_fofs (en_ei b)"
          "ofs < ei_fofs (en_ei q') \<or> ei_end (en_ei q') \<le> ofs" using IH by blast
        then have "?Q (Node l re r) q'" using left r by (intro exI [of _ A] exI [of _ "B @ re # inorder r"]) auto
        then show ?thesis using IH p1(2) left by auto
      qed
    next
      case right
      then obtain p1 where p1: "rb_descend r ofs re = Inr (p1, q')" "p = True # p1" using Node.prems(2) by (auto split: sum.splits)
      note IH = Node.IH(2) [OF s(4) p1(1)]
      have l: "\<forall>a \<in> set (inorder l). ei_end (en_ei a) \<le> ofs" using s(1) right by auto
      show ?thesis
      proof (cases "r = Leaf")
        case True
        then have "q' = re" using p1(1) by simp
        then have "?Q (Node l re r) q'" using True right l by (intro exI [of _ "inorder l"] exI [of _ "[]"]) simp
        then show ?thesis using IH p1(2) right by auto
      next
        case False
        then obtain A B where "inorder r = A @ q' # B" "\<forall>a \<in> set A. ei_end (en_ei a) \<le> ofs" "\<forall>b \<in> set B. ofs < ei_fofs (en_ei b)"
          "ofs < ei_fofs (en_ei q') \<or> ei_end (en_ei q') \<le> ofs" using IH by blast
        then have "?Q (Node l re r) q'" using right l by (intro exI [of _ "inorder l @ re # A"] exI [of _ B]) auto
        then show ?thesis using IH p1(2) right by auto
      qed
    qed
  qed
  then show ?P "t \<noteq> Leaf \<Longrightarrow> ?Q t q'" by simp_all
qed

lemma lookup_ret_cuts:
  assumes wf: "et_wf st" and F: "\<forall>n \<in> set (inorder (et_root st)). describes F (en_ei n)" "describes F0 (largest st)"
  obtains en prev_en nx ip A R where
    "f2fs_lookup_rb_tree_ret (et_root st) (Option.bind (cached_en st) (find_en (et_root st))) pos False = (en, prev_en, nx, ip)"
    "(case en of None \<Rightarrow> nx | Some e \<Rightarrow> Some e) = hd_id R" "cut_inv F F0 pos st A R prev_en ip"
    "nx = hd_id R \<or> (\<exists>n B. R = n # B \<and> ei_fofs (en_ei n) \<le> pos)"
proof -
  let ?root = "et_root st" and ?c = "Option.bind (cached_en st) (find_en (et_root st))"
  note found = that
  have last: "set_option (case rev A of [] \<Rightarrow> None | a # _ \<Rightarrow> Some (en_id a)) \<subseteq> en_id ` set A" for A
    by (cases A rule: rev_cases) simp_all
  have hit: thesis if n: "n \<in> set (inorder ?root)" "in_extent (en_ei n) pos"
    and e: "f2fs_lookup_rb_tree_ret ?root ?c pos False = (let (p, q) = lookup_neighbors ?root n pos False in (Some (en_id n), p, q, None))" for n
  proof -
    obtain A B where d: "inorder ?root = A @ n # B" using n(1) by (auto simp: in_set_conv_decomp simp del: set_inorder)
    note M = wf_mid [OF wf d]
    have "\<forall>b \<in> set B. pos < ei_end (en_ei b)"
    proof
      fix b assume b: "b \<in> set B"
      then have "ei_ok (en_ei b)" using wf d by (simp add: et_wf_def ext_seq_def)
      then show "pos < ei_end (en_ei b)" using b M(7) n(2) by (auto simp: in_extent_def)
    qed
    then have "cut_inv F F0 pos st A (n # B) (if pos = ei_fofs (en_ei n) then rb_prev ?root (en_id n) else None) None"
      using wf d F n(2) M last [of A] by (auto simp: cut_inv_def in_extent_def simp del: set_inorder)
    then show thesis using e n(2) by (intro found [of _ _ _ _ "n # B" A]) (auto simp: lookup_neighbors_def in_extent_def)
  qed
  show thesis
  proof (cases ?root)
    case Leaf
    then have "cut_inv F F0 pos st [] [] None None" using wf F(2) by (simp add: cut_inv_def)
    then show thesis using Leaf by (intro that [of None None None None "[]" "[]"]) (simp_all add: f2fs_lookup_rb_tree_ret_def)
  next
    case (Node l re0 r)
    have ne: "?root \<noteq> Leaf" using Node by simp
    have seq: "ext_seq (inorder ?root)" using wf by (simp add: et_wf_def)
    show thesis
    proof (cases "lookup_rb_tree_fast ?c pos")
      case (Some n)
      then have c: "?c = Some n" "in_extent (en_ei n) pos" by (auto simp: lookup_rb_tree_fast_def split: option.splits if_splits)
      have "n \<in> set (inorder ?root)" using c(1) by (auto simp: bind_eq_Some_conv find_en_def find_Some_iff simp del: set_inorder)
      then show thesis using hit [of n] c(2) Some Node by (simp add: f2fs_lookup_rb_tree_ret_def)
    next
      case None
      show thesis
      proof (cases "rb_descend ?root pos re0")
        case (Inl n)
        then show thesis using hit [of n] descend_hit [OF Inl] None Node by (simp add: f2fs_lookup_rb_tree_ret_def)
      next
        case (Inr pq)
        then obtain p q where pq: "rb_descend ?root pos re0 = Inr (p, q)" by (cases pq) simp
        note P = descend_miss(1) [OF seq pq]
        obtain A B where d: "inorder ?root = A @ q # B" and AB: "\<forall>a \<in> set A. ei_end (en_ei a) \<le> pos" "\<forall>b \<in> set B. pos < ei_fofs (en_ei b)"
          and q: "pos < ei_fofs (en_ei q) \<or> ei_end (en_ei q) \<le> pos"
          using descend_miss(2) [OF seq pq ne] by blast
        note M = wf_mid [OF wf d]
        have B: "\<forall>b \<in> set B. pos < ei_end (en_ei b)"
          using AB(2) wf d by (auto simp: et_wf_def ext_seq_def)
        have ret: "f2fs_lookup_rb_tree_ret ?root ?c pos False = (None,
            if pos < ei_fofs (en_ei q) then rb_prev ?root (en_id q) else Some (en_id q),
            if pos > ei_fofs (en_ei q) then rb_next ?root (en_id q) else Some (en_id q), Some p)"
          using pq None Node by (simp add: f2fs_lookup_rb_tree_ret_def)
        show thesis
        proof (cases "pos < ei_fofs (en_ei q)")
          case True
          then have "cut_inv F F0 pos st A (q # B) (rb_prev ?root (en_id q)) (Some p)"
            using wf d F AB B M last [of A] P by (auto simp: cut_inv_def simp del: set_inorder)
          then show thesis using ret True by (intro that [of None _ _ _ "q # B" A]) simp_all
        next
          case False
          then have "cut_inv F F0 pos st (A @ [q]) B (Some (en_id q)) (Some p)" "ei_fofs (en_ei q) < pos"
            using wf d F AB B M P q by (auto simp: cut_inv_def simp del: set_inorder)
          moreover have "rb_next ?root (en_id q) = hd_id B" using M(4) by (simp add: hd_id_def)
          ultimately show thesis using ret False by (intro that [of None "Some (en_id q)" "hd_id B" "Some p" B "A @ [q]"]) simp_all
        qed
      qed
    qed
  qed
qed

subsection \<open>Putting the new extent in\<close>

definition upd_map :: "(nat \<rightharpoonup> nat) \<Rightarrow> nat \<Rightarrow> nat \<Rightarrow> nat \<Rightarrow> nat \<rightharpoonup> nat" where
  "upd_map F fofs blk len = (\<lambda>x. if fofs \<le> x \<and> x < fofs + len then (if blk = 0 then None else Some (blk + (x - fofs))) else F x)"

lemma describes_join:
  assumes "describes F a" and "describes F b" and "ei_fofs a + ei_len a = ei_fofs b" "ei_blk a + ei_len a = ei_blk b"
  shows "describes F \<lparr>ei_fofs = ei_fofs a, ei_len = ei_len a + ei_len b, ei_blk = ei_blk a\<rparr>"
  unfolding describes_def
proof (intro allI impI)
  fix x assume "ei_fofs \<lparr>ei_fofs = ei_fofs a, ei_len = ei_len a + ei_len b, ei_blk = ei_blk a\<rparr> \<le> x"
    "x < ei_fofs \<lparr>ei_fofs = ei_fofs a, ei_len = ei_len a + ei_len b, ei_blk = ei_blk a\<rparr> + ei_len \<lparr>ei_fofs = ei_fofs a, ei_len = ei_len a + ei_len b, ei_blk = ei_blk a\<rparr>"
  then have x: "ei_fofs a \<le> x" "x < ei_fofs a + ei_len a + ei_len b" by simp_all
  have "F x = Some (ei_blk a + (x - ei_fofs a))"
  proof (cases "x < ei_fofs a + ei_len a")
    case True
    then show ?thesis using x(1) assms(1) by (simp add: describes_def)
  next
    case False
    then have "F x = Some (ei_blk b + (x - ei_fofs b))" using x(2) assms(2,3) by (simp add: describes_def)
    moreover have "ei_blk b + (x - ei_fofs b) = ei_blk a + (x - ei_fofs a)" using False assms(3,4) by linarith
    ultimately show ?thesis by simp
  qed
  then show "F x = Some (ei_blk \<lparr>ei_fofs = ei_fofs a, ei_len = ei_len a + ei_len b, ei_blk = ei_blk a\<rparr>
    + (x - ei_fofs \<lparr>ei_fofs = ei_fofs a, ei_len = ei_len a + ei_len b, ei_blk = ei_blk a\<rparr>))" by simp
qed

lemma mergeable_ok:
  assumes "ei_ok a" and "ei_ok b" and "is_extent_mergeable a b"
  shows "ei_fofs a + ei_len a = ei_fofs b" "ei_blk a + ei_len a = ei_blk b" "u32_wrap (ei_len b + ei_len a) = ei_len a + ei_len b"
    "u32_wrap (ei_len a + ei_len b) = ei_len a + ei_len b" "ei_ok \<lparr>ei_fofs = ei_fofs a, ei_len = ei_len a + ei_len b, ei_blk = ei_blk a\<rparr>"
proof -
  show e: "ei_fofs a + ei_len a = ei_fofs b" "ei_blk a + ei_len a = ei_blk b"
    using assms by (simp_all add: is_extent_mergeable_def ei_ok_def)
  have "ei_len a + ei_len b < 4294967296" using e(1) assms(2) unfolding ei_ok_def by linarith
  then show "u32_wrap (ei_len b + ei_len a) = ei_len a + ei_len b" "u32_wrap (ei_len a + ei_len b) = ei_len a + ei_len b"
    by (simp_all add: add.commute)
  show "ei_ok \<lparr>ei_fofs = ei_fofs a, ei_len = ei_len a + ei_len b, ei_blk = ei_blk a\<rparr>"
    using e assms(2) unfolding ei_ok_def by simp
qed

lemma ptr_set: "et_ptr st \<Longrightarrow> et_ptr (set_en_info st i e)"
proof -
  have "map en_id (inorder (map_tree f t)) = map en_id (inorder t)" if "\<forall>n. en_id (f n) = en_id n" for f :: "extent_node \<Rightarrow> extent_node" and t
    using that by (induction t) simp_all
  then have "map en_id (inorder (et_root (set_en_info st i e))) = map en_id (inorder (et_root st))"
    by (simp add: set_en_info_def)
  moreover have "node_cnt (set_en_info st i e) = node_cnt st" "extent_list (set_en_info st i e) = extent_list st"
    by (simp_all add: set_en_info_def)
  ultimately show "et_ptr st \<Longrightarrow> et_ptr (set_en_info st i e)"
    unfolding et_ptr_def by (metis length_map set_info_frame(1,4,5) set_info_ids)
qed

lemma set_remove1_snoc: "i \<in> set l \<Longrightarrow> set (remove1 i l @ [i]) = set l"
  by (induction l) auto

text \<open>After a merge: node \<open>i\<close> is used last, and may be the largest.\<close>

lemma wf_touch:
  assumes wf: "et_wf st" and i: "i \<in> et_ids st" and F: "describes F (largest st)" "describes F (en_info st i)"
  defines "st' \<equiv> touch_en (try_update_largest_extent st i) i"
  shows "et_wf st'" "et_root st' = et_root st" "describes F (largest st')" "et_fsck st' = et_fsck st" "no_extent st' = no_extent st"
proof -
  note U = wf_upd_largest [OF wf i]
  have r: "et_root st' = et_root st" "largest st' = largest (try_update_largest_extent st i)" "en_fresh st' = en_fresh st" "node_cnt st' = node_cnt st"
    by (simp_all add: st'_def touch_en_def)
  then show "et_root st' = et_root st" "describes F (largest st')" using U(2) [OF F] by simp_all
  show "et_fsck st' = et_fsck st" "no_extent st' = no_extent st" by (simp_all add: st'_def touch_en_def)
  have ids: "et_ids st' = et_ids st" using r(1) by (simp add: et_ids_def)
  have "set_option (cached_en st') \<subseteq> et_ids st" "et_ids st \<subseteq> set (extent_list st')"
    using wf i set_remove1_snoc [of i "extent_list st"] by (auto simp: st'_def touch_en_def et_wf_def split: if_splits)
  then show "et_wf st'" using U(1) wf r ids by (simp add: et_wf_def)
qed

text \<open>The cut is made: \<open>A\<close> lies in front of the new extent, \<open>R\<close> behind it.\<close>

definition gap_inv :: "(nat \<rightharpoonup> nat) \<Rightarrow> extent_info \<Rightarrow> extent_tree \<Rightarrow> extent_node list \<Rightarrow> extent_node list \<Rightarrow> bool" where
  "gap_inv F e st A R \<longleftrightarrow> et_wf st \<and> inorder (et_root st) = A @ R \<and> ei_ok e \<and> 0 < ei_len e
     \<and> (\<forall>a \<in> set A. ei_end (en_ei a) \<le> ei_fofs e) \<and> (\<forall>b \<in> set R. ei_fofs e + ei_len e \<le> ei_fofs (en_ei b))
     \<and> (\<forall>n \<in> set (A @ R). describes F (en_ei n)) \<and> describes F (largest st) \<and> describes F e"

lemma gap_last:
  assumes g: "gap_inv F e st A R" and i: "i \<in> en_id ` set A" and m: "is_extent_mergeable (en_info st i) e"
  obtains A1 a where "A = A1 @ [a]" "en_id a = i" "en_info st i = en_ei a" "ei_ok (en_ei a)" "ei_fofs (en_ei a) + ei_len (en_ei a) = ei_fofs e"
proof -
  obtain A1 a A2 where d: "A = A1 @ a # A2" "en_id a = i" using i by (metis imageE in_set_conv_decomp)
  have D: "et_wf st" "inorder (et_root st) = A1 @ a # (A2 @ R)" using g d by (simp_all add: gap_inv_def)
  note M = wf_mid [OF D]
  have e: "ei_fofs (en_ei a) + ei_len (en_ei a) = ei_fofs e" using mergeable_ok(1) [OF M(2), of e] m M(1) d(2) g by (simp add: gap_inv_def)
  have "A2 = []"
  proof (cases A2)
    case (Cons b B)
    have "ei_ok (en_ei b) \<and> 0 < ei_len (en_ei b)" using D Cons by (simp add: et_wf_def ext_seq_def)
    moreover have "ei_end (en_ei b) \<le> ei_fofs e" using g d(1) Cons by (simp add: gap_inv_def)
    moreover have "ei_end (en_ei a) \<le> ei_fofs (en_ei b)" using M(7) Cons by simp
    ultimately show ?thesis using e M(2) by simp
  qed simp
  then show thesis using that [of A1 a] d M(1,2) e by simp
qed

text \<open>Merged with the node in front, the new extent leaves the same gap.\<close>

lemma merge_prev:
  assumes g: "gap_inv F e st A R" and i: "i \<in> en_id ` set A" and m: "is_extent_mergeable (en_info st i) e"
  defines "e1 \<equiv> (en_info st i)\<lparr>ei_len := u32_wrap (ei_len (en_info st i) + ei_len e)\<rparr>"
  obtains A1 a where "A = A1 @ [a]" "en_id a = i" "inorder (et_root (set_en_info st i e1)) = A1 @ a\<lparr>en_ei := e1\<rparr> # R"
    "et_wf (set_en_info st i e1)" "ei_ok e1" "0 < ei_len e1" "describes F e1" "ei_fofs e1 + ei_len e1 = ei_fofs e + ei_len e"
    "ei_blk e1 + ei_len e1 = ei_blk e + ei_len e" "\<forall>x \<in> set A1. ei_end (en_ei x) \<le> ei_fofs e1" "ei_fofs e1 \<le> ei_fofs e"
proof -
  obtain A1 a where a: "A = A1 @ [a]" "en_id a = i" "en_info st i = en_ei a" "ei_ok (en_ei a)" "ei_fofs (en_ei a) + ei_len (en_ei a) = ei_fofs e"
    by (rule gap_last [OF g i m])
  have G: "et_wf st" "inorder (et_root st) = A1 @ a # R" "ei_ok e" "0 < ei_len e" "describes F (en_ei a)" "describes F e"
    "\<forall>b \<in> set R. ei_fofs e + ei_len e \<le> ei_fofs (en_ei b)"
    using g a(1) by (simp_all add: gap_inv_def)
  note M = mergeable_ok [OF a(4) G(3) m [unfolded a(3)]] and W = wf_mid [OF G(1,2)]
  have e1: "e1 = \<lparr>ei_fofs = ei_fofs (en_ei a), ei_len = ei_len (en_ei a) + ei_len e, ei_blk = ei_blk (en_ei a)\<rparr>"
    using M(4) by (simp add: e1_def a(3))
  have k: "ei_ok e1" "describes F e1" "ei_fofs e1 + ei_len e1 = ei_fofs e + ei_len e" "ei_blk e1 + ei_len e1 = ei_blk e + ei_len e" "0 < ei_len e1"
    using M describes_join [OF G(5,6) M(1,2)] G(4) by (simp_all add: e1)
  have I: "inorder (et_root (set_en_info st i e1)) = A1 @ a\<lparr>en_ei := e1\<rparr> # R"
    using mid_ops(2) [OF wf_dist [OF G(1)] G(2)] a(2) by simp
  have "ext_seq (A1 @ R)" "en_id a \<notin> en_id ` set (A1 @ R)" using G(1,2) seq_drop [of A1 a R] by (auto simp: et_wf_def ext_seq_def)
  moreover have pl: "\<forall>x \<in> set A1. ei_end (en_ei x) \<le> ei_fofs e1" using W(6) by (simp add: e1)
  moreover have "\<forall>b \<in> set R. ei_end e1 \<le> ei_fofs (en_ei b)" using k(1,3) G(7) by simp
  ultimately have "ext_seq (A1 @ a\<lparr>en_ei := e1\<rparr> # R)" using k by (intro seq_insert) simp_all
  then have "et_wf (set_en_info st i e1)" using ptr_set [of st i e1] G(1) I by (simp add: et_wf_ptr)
  then show thesis using that [of A1 a] a(1,2,5) I k pl by (simp add: e1_def a(3))
qed

text \<open>The node behind takes the new extent over; the node in front goes when it was merged before.\<close>

lemma merge_next_seq:
  assumes "ext_seq (A @ q # R)" and "ei_ok e1" "0 < ei_len e1" "ei_ok (en_ei q)" and "is_extent_mergeable e1 (en_ei q)"
    and "\<forall>x \<in> set A. ei_end (en_ei x) \<le> ei_fofs e1" and "describes F e1" "describes F (en_ei q)"
  defines "e2 \<equiv> \<lparr>ei_fofs = ei_fofs e1, ei_len = u32_wrap (ei_len (en_ei q) + ei_len e1), ei_blk = ei_blk e1\<rparr>"
  shows "ext_seq (A @ q\<lparr>en_ei := e2\<rparr> # R)" "describes F e2" "ei_ok e2" "ei_len e1 \<le> ei_len e2"
proof -
  note M = mergeable_ok [OF assms(2,4,5)]
  have e2: "e2 = \<lparr>ei_fofs = ei_fofs e1, ei_len = ei_len e1 + ei_len (en_ei q), ei_blk = ei_blk e1\<rparr>" using M(3) by (simp add: e2_def)
  show "describes F e2" using describes_join [OF assms(7,8) M(1,2)] by (simp add: e2)
  show ok: "ei_ok e2" using M(5) by (simp add: e2)
  show "ei_len e1 \<le> ei_len e2" by (simp add: e2)
  have "ei_end e2 = ei_end (en_ei q)" using ok assms(4) M(1) by (simp add: e2)
  moreover have "ext_seq (A @ R)" "en_id q \<notin> en_id ` set (A @ R)" using assms(1) seq_drop [of A q R] by (auto simp: ext_seq_def)
  ultimately show "ext_seq (A @ q\<lparr>en_ei := e2\<rparr> # R)"
    using ok assms(3,6) ext_seq_split(2) [OF assms(1)] by (intro seq_insert) (simp_all add: e2_def [symmetric], simp_all add: e2)
qed

text \<open>What an update of the tree keeps, and that some node holds the new extent.\<close>

definition covered :: "extent_tree \<Rightarrow> extent_info \<Rightarrow> bool" where
  "covered st e \<longleftrightarrow> (\<exists>n \<in> set (inorder (et_root st)). ei_fofs (en_ei n) \<le> ei_fofs e \<and> ei_fofs e + ei_len e \<le> ei_fofs (en_ei n) + ei_len (en_ei n))"

definition put_ok :: "(nat \<rightharpoonup> nat) \<Rightarrow> extent_tree \<Rightarrow> extent_tree \<Rightarrow> bool" where
  "put_ok F st st' \<longleftrightarrow> et_wf st' \<and> et_sound F st' \<and> et_fsck st' = et_fsck st \<and> no_extent st' = no_extent st"

lemma touch_put:
  assumes "et_wf st1" and "i \<in> et_ids st1" and "\<forall>n \<in> set (inorder (et_root st1)). describes F (en_ei n)" "describes F (largest st1)"
    and "describes F (en_info st1 i)" and "et_fsck st1 = et_fsck st" "no_extent st1 = no_extent st"
    and "covered st1 e"
  shows "put_ok F st (touch_en (try_update_largest_extent st1 i) i) \<and> covered (touch_en (try_update_largest_extent st1 i) i) e"
  using wf_touch [OF assms(1,2,4,5)] assms(3,6,7,8) by (simp add: put_ok_def et_sound_def covered_def)

lemma try_merge_ok:
  assumes rb: "rb_ok rb" and g: "gap_inv F e st A R" and p: "set_option prev_en \<subseteq> en_id ` set A"
  shows "\<exists>r st'. try_merge_extent_node rb st e prev_en (hd_id R) = (r, st') \<and> (r = None \<and> st' = st \<or> r \<noteq> None \<and> put_ok F st st' \<and> covered st' e)"
proof -
  have G: "et_wf st" "inorder (et_root st) = A @ R" "ei_ok e" "0 < ei_len e" "\<forall>a \<in> set A. ei_end (en_ei a) \<le> ei_fofs e"
    "\<forall>n \<in> set (A @ R). describes F (en_ei n)" "describes F (largest st)" "describes F e"
    using g by (simp_all add: gap_inv_def)
  define pm where "pm \<longleftrightarrow> (\<exists>i. prev_en = Some i \<and> is_extent_mergeable (en_info st i) e)"
  show ?thesis
  proof (cases pm)
    case False
    have pn: "(case prev_en of None \<Rightarrow> (e, None, st) | Some p \<Rightarrow>
        let e' = en_info st p in if is_extent_mergeable e' e then let e' = e'\<lparr>ei_len := u32_wrap (ei_len e' + ei_len e)\<rparr> in (e', Some p, set_en_info st p e')
          else (e, None, st)) = (e, None :: nat option, st)"
      using False by (auto simp: pm_def Let_def split: option.splits)
    show ?thesis
    proof (cases "\<exists>q R'. R = q # R' \<and> is_extent_mergeable e (en_ei q)")
      case False
      then have "try_merge_extent_node rb st e prev_en (hd_id R) = (None, st)"
        unfolding try_merge_extent_node_def pn using wf_mid(1) [OF G(1), of A] G(2) by (cases R) (auto simp: Let_def)
      then show ?thesis by blast
    next
      case True
      then obtain q R' where R: "R = q # R'" "is_extent_mergeable e (en_ei q)" by blast
      have d: "inorder (et_root st) = A @ q # R'" using G(2) R(1) by simp
      note M = wf_mid [OF G(1) d]
      let ?e2 = "\<lparr>ei_fofs = ei_fofs e, ei_len = u32_wrap (ei_len (en_ei q) + ei_len e), ei_blk = ei_blk e\<rparr>"
      let ?st1 = "set_en_info st (en_id q) ?e2"
      have S: "ext_seq (A @ q\<lparr>en_ei := ?e2\<rparr> # R')" "describes F ?e2" "ei_len e \<le> ei_len ?e2"
        using merge_next_seq [of A q R' e F] G d M(2) R by (simp_all add: et_wf_def)
      have I: "inorder (et_root ?st1) = A @ q\<lparr>en_ei := ?e2\<rparr> # R'" using mid_ops(2) [OF wf_dist [OF G(1)] d] .
      have W: "et_wf ?st1" using S(1) I ptr_set [of st "en_id q" ?e2] G(1) by (simp add: et_wf_ptr)
      have "covered ?st1 e" using I S(3) by (auto simp: covered_def simp del: set_inorder)
      then have "put_ok F st (touch_en (try_update_largest_extent ?st1 (en_id q)) (en_id q)) \<and> covered (touch_en (try_update_largest_extent ?st1 (en_id q)) (en_id q)) e"
        using W I S(2) G(6,7) R(1) wf_mid(1) [OF W I] by (intro touch_put) (auto simp: et_ids_def simp del: set_inorder)
      moreover have "try_merge_extent_node rb st e prev_en (hd_id R) = (Some (en_id q), touch_en (try_update_largest_extent ?st1 (en_id q)) (en_id q))"
        unfolding try_merge_extent_node_def pn using M(1) R by (simp add: Let_def)
      ultimately show ?thesis by blast
    qed
  next
    case True
    then obtain i where i: "prev_en = Some i" "is_extent_mergeable (en_info st i) e" by (auto simp: pm_def)
    then have iA: "i \<in> en_id ` set A" using p by simp
    define e1 where "e1 = (en_info st i)\<lparr>ei_len := u32_wrap (ei_len (en_info st i) + ei_len e)\<rparr>"
    define st1 where "st1 = set_en_info st i e1"
    obtain A1 a where a: "A = A1 @ [a]" "en_id a = i" "inorder (et_root st1) = A1 @ a\<lparr>en_ei := e1\<rparr> # R"
      "et_wf st1" "ei_ok e1" "0 < ei_len e1" "describes F e1" "ei_fofs e1 + ei_len e1 = ei_fofs e + ei_len e"
      "ei_blk e1 + ei_len e1 = ei_blk e + ei_len e" "\<forall>x \<in> set A1. ei_end (en_ei x) \<le> ei_fofs e1" "ei_fofs e1 \<le> ei_fofs e"
      unfolding e1_def st1_def by (rule merge_prev [OF g iA i(2)])
    have f1: "largest st1 = largest st" "et_fsck st1 = et_fsck st" "no_extent st1 = no_extent st" by (simp_all add: st1_def)
    have pn: "(case prev_en of None \<Rightarrow> (e, None, st) | Some p \<Rightarrow>
        let e' = en_info st p in if is_extent_mergeable e' e then let e' = e'\<lparr>ei_len := u32_wrap (ei_len e' + ei_len e)\<rparr> in (e', Some p, set_en_info st p e')
          else (e, None, st)) = (e1, Some i, st1)"
      using i by (simp add: e1_def st1_def Let_def)
    show ?thesis
    proof (cases "\<exists>q R'. R = q # R' \<and> is_extent_mergeable e1 (en_ei q)")
      case False
      have "en_info st1 (en_id q) = en_ei q" if "R = q # R'" for q R'
        using wf_mid(1) [OF a(4), of "A1 @ [a\<lparr>en_ei := e1\<rparr>]" q R'] a(3) that by simp
      then have "try_merge_extent_node rb st e prev_en (hd_id R) = (Some i, touch_en (try_update_largest_extent st1 i) i)"
        unfolding try_merge_extent_node_def pn using False by (cases R) (auto simp: Let_def)
      note merged = this
      have "en_info st1 i = e1" using wf_mid(1) [OF a(4,3)] a(2) by simp
      moreover have "covered st1 e" using a(3,8,11) by (auto simp: covered_def simp del: set_inorder)
      ultimately have "put_ok F st (touch_en (try_update_largest_extent st1 i) i) \<and> covered (touch_en (try_update_largest_extent st1 i) i) e"
        using a G(6,7) f1 by (intro touch_put) (auto simp: et_ids_def simp del: set_inorder)
      then show ?thesis using merged by blast
    next
      case True
      then obtain q R' where R: "R = q # R'" "is_extent_mergeable e1 (en_ei q)" by blast
      have d: "inorder (et_root st1) = (A1 @ [a\<lparr>en_ei := e1\<rparr>]) @ q # R'" using a(3) R(1) by simp
      note M = wf_mid [OF a(4) d]
      let ?e2 = "\<lparr>ei_fofs = ei_fofs e1, ei_len = u32_wrap (ei_len (en_ei q) + ei_len e1), ei_blk = ei_blk e1\<rparr>"
      let ?st2 = "set_en_info st1 (en_id q) ?e2"
      have "ext_seq (A1 @ q # R')" using a(3,4) R(1) seq_drop [of A1 "a\<lparr>en_ei := e1\<rparr>" R] by (simp add: et_wf_def)
      then have S: "ext_seq (A1 @ q\<lparr>en_ei := ?e2\<rparr> # R')" "describes F ?e2" "ei_len e1 \<le> ei_len ?e2"
        using merge_next_seq [of A1 q R' e1 F] a G(6) M(2) R by simp_all
      have I: "inorder (et_root ?st2) = A1 @ a\<lparr>en_ei := e1\<rparr> # q\<lparr>en_ei := ?e2\<rparr> # R'" using mid_ops(2) [OF wf_dist [OF a(4)] d] by simp
      have ptr: "et_ptr ?st2" using ptr_set [of st1 "en_id q" ?e2] a(4) by (simp add: et_wf_ptr)
      let ?st3 = "release_extent_node rb ?st2 i"
      have "en_id (a\<lparr>en_ei := e1\<rparr>) = i" using a(2) by simp
      note P = ptr_release [OF rb ptr I, unfolded this]
      have W: "et_wf ?st3" using P(1,2) S(1) by (simp add: et_wf_ptr)
      have "covered ?st3 e" using P(2) S(3) a(8,11) by (auto simp: covered_def simp del: set_inorder)
      then have "put_ok F st (touch_en (try_update_largest_extent ?st3 (en_id q)) (en_id q)) \<and> covered (touch_en (try_update_largest_extent ?st3 (en_id q)) (en_id q)) e"
        using W P S(2) G(6,7) R(1) a(1) f1 wf_mid(1) [OF W P(2)] by (intro touch_put) (auto simp: et_ids_def simp del: set_inorder)
      moreover have "try_merge_extent_node rb st e prev_en (hd_id R) = (Some (en_id q), touch_en (try_update_largest_extent ?st3 (en_id q)) (en_id q))"
        unfolding try_merge_extent_node_def pn using M(1) R by (simp add: Let_def)
      ultimately show ?thesis by blast
    qed
  qed
qed

subsection \<open>The update as a whole\<close>

lemma update_extent_ok:
  assumes rb: "rb_ok rb" and g: "gap_inv F e st A R" and p: "set_option prev_en \<subseteq> en_id ` set A"
    and ip: "\<And>p. ip = Some p \<Longrightarrow> f2fs_lookup_rb_tree_for_insert (et_root st) (ei_fofs e) = Some p"
  shows "\<exists>st'. update_extent rb mem st e prev_en (hd_id R) ip = Some st' \<and> put_ok F st st' \<and> (mem e \<longrightarrow> covered st' e)"
proof -
  obtain r st1 where m: "try_merge_extent_node rb st e prev_en (hd_id R) = (r, st1)" "r = None \<and> st1 = st \<or> r \<noteq> None \<and> put_ok F st st1 \<and> covered st1 e"
    using try_merge_ok [OF rb g p] by blast
  have G: "et_wf st" "inorder (et_root st) = A @ R" "ei_ok e" "0 < ei_len e" "\<forall>a \<in> set A. ei_end (en_ei a) \<le> ei_fofs e"
    "\<forall>n \<in> set (A @ R). describes F (en_ei n)" "describes F (largest st)" "describes F e" "\<forall>b \<in> set R. ei_end e \<le> ei_fofs (en_ei b)"
    using g by (simp_all add: gap_inv_def)
  show ?thesis
  proof (cases r)
    case None
    show ?thesis
    proof (rule wf_insert [OF rb G(1,2,3,4,5,9) ip G(7,8), where mem = mem])
      fix r' st'
      assume I: "insert_extent_tree rb mem st e ip = Some (r', st')" "et_wf st'" "et_fsck st' = et_fsck st" "no_extent st' = no_extent st"
        "describes F (largest st')"
        and d: "r' = None \<and> \<not> mem e \<and> inorder (et_root st') = A @ R
          \<or> mem e \<and> r' = Some (en_fresh st) \<and> inorder (et_root st') = A @ \<lparr>en_id = en_fresh st, en_ei = e\<rparr> # R"
      have "put_ok F st st' \<and> (mem e \<longrightarrow> covered st' e)"
        using I d G(6,8) by (auto simp: put_ok_def et_sound_def covered_def simp del: set_inorder)
      then show ?thesis using None m I(1) by (simp add: update_extent_def)
    qed
  next
    case (Some i)
    then show ?thesis using m by (simp add: update_extent_def)
  qed
qed

lemma free_all:
  assumes rb: "rb_ok rb" and wf: "et_wf st"
  defines "st' \<equiv> snd (free_extent_tree rb st)"
  shows "et_wf st'" "inorder (et_root st') = []" "et_fsck st' = et_fsck st" "largest st' = largest st" "no_extent st' = no_extent st"
    "fst (free_extent_tree rb st) = node_cnt st"
proof -
  have *: "et_wf (foldl (release_extent_node rb) st (map en_id ns)) \<and> inorder (et_root (foldl (release_extent_node rb) st (map en_id ns))) = []
    \<and> et_fsck (foldl (release_extent_node rb) st (map en_id ns)) = et_fsck st \<and> largest (foldl (release_extent_node rb) st (map en_id ns)) = largest st
    \<and> no_extent (foldl (release_extent_node rb) st (map en_id ns)) = no_extent st"
    if "et_wf st" "inorder (et_root st) = ns" for ns st
    using that
  proof (induction ns arbitrary: st)
    case (Cons n ns)
    have "inorder (et_root st) = [] @ n # ns" using Cons.prems by simp
    note W = wf_release [OF rb Cons.prems(1) this]
    show ?case using Cons.IH [of "release_extent_node rb st (en_id n)"] W by simp
  qed simp
  note F = * [OF wf refl]
  then show "et_wf st'" "inorder (et_root st') = []" "et_fsck st' = et_fsck st" "largest st' = largest st" "no_extent st' = no_extent st"
    by (simp_all add: st'_def free_extent_tree_def Let_def)
  have "node_cnt (foldl (release_extent_node rb) st (map en_id (inorder (et_root st)))) = 0" using F unfolding et_wf_def by (metis list.size(3))
  then show "fst (free_extent_tree rb st) = node_cnt st" by (simp add: free_extent_tree_def Let_def)
qed

text \<open>A cache that was given up holds nothing.\<close>

definition et_inv :: "(nat \<rightharpoonup> nat) \<Rightarrow> extent_tree \<Rightarrow> bool" where
  "et_inv F st \<longleftrightarrow> et_wf st \<and> et_sound F st \<and> (no_extent st \<longrightarrow> inorder (et_root st) = [] \<and> ei_len (largest st) = 0)"

lemma drop_largest_eq:
  assumes "ei_ok (largest st)"
  shows "ei_ok (largest (drop_largest_extent st fofs len))" "et_wf (drop_largest_extent st fofs len) = et_wf st"
    "et_root (drop_largest_extent st fofs len) = et_root st" "et_fsck (drop_largest_extent st fofs len) = et_fsck st"
    "no_extent (drop_largest_extent st fofs len) = no_extent st" "cached_en (drop_largest_extent st fofs len) = cached_en st"
    "describes F (largest st) \<Longrightarrow> describes (cut_map F fofs (fofs + len)) (largest (drop_largest_extent st fofs len))"
    "ei_len (largest (drop_largest_extent st 0 4294967295)) = 0"
proof -
  show ok: "ei_ok (largest (drop_largest_extent st fofs len))" using assms by (simp add: drop_largest_extent_def ei_ok_def)
  show f: "et_root (drop_largest_extent st fofs len) = et_root st" "et_fsck (drop_largest_extent st fofs len) = et_fsck st"
    "no_extent (drop_largest_extent st fofs len) = no_extent st" "cached_en (drop_largest_extent st fofs len) = cached_en st"
    by (simp_all add: drop_largest_extent_def)
  show "et_wf (drop_largest_extent st fofs len) = et_wf st"
    using assms ok by (simp add: et_wf_def f et_ids_def) (simp add: drop_largest_extent_def)
  show "describes F (largest st) \<Longrightarrow> describes (cut_map F fofs (fofs + len)) (largest (drop_largest_extent st fofs len))"
    using assms by (auto simp: drop_largest_extent_def describes_def cut_map_def)
  show "ei_len (largest (drop_largest_extent st 0 4294967295)) = 0"
    using assms by (auto simp: drop_largest_extent_def ei_ok_def)
qed

lemma cut_nodes:
  assumes c: "cut_inv F F0 pos st A R prev_en ip" and R: "\<forall>b \<in> set R. pos + len \<le> ei_fofs (en_ei b)" and n: "n \<in> set (A @ R)"
  shows "describes (upd_map F pos blk len) (en_ei n)"
proof -
  have "describes F (en_ei n)" "ei_ok (en_ei n)" using n c by (auto simp: cut_inv_def et_wf_def ext_seq_def simp del: set_inorder)
  moreover have "ei_end (en_ei n) \<le> pos \<or> pos + len \<le> ei_fofs (en_ei n)" using n c R by (auto simp: cut_inv_def)
  ultimately show ?thesis by (auto simp: describes_def upd_map_def)
qed

lemma cut_gap:
  assumes c: "cut_inv F (cut_map F pos (pos + len)) pos st A R prev_en ip" and R: "\<forall>b \<in> set R. pos + len \<le> ei_fofs (en_ei b)"
    and e: "e = \<lparr>ei_fofs = pos, ei_len = len, ei_blk = blk\<rparr>" "ei_ok e" "0 < len" "0 < blk"
  shows "gap_inv (upd_map F pos blk len) e st A R"
proof -
  have sub: "describes (upd_map F pos blk len) x" if "describes (cut_map F pos (pos + len)) x" for x
    using that by (simp add: describes_def cut_map_def upd_map_def) (metis option.distinct(1))
  have "describes (upd_map F pos blk len) e" using e by (simp add: describes_def upd_map_def)
  then show ?thesis using c R e sub cut_nodes [OF c R] by (simp add: gap_inv_def cut_inv_def)
qed

lemma cut_sound:
  assumes c: "cut_inv F (cut_map F pos (pos + len)) pos st A R prev_en ip" and R: "\<forall>b \<in> set R. pos + len \<le> ei_fofs (en_ei b)"
  shows "et_sound (upd_map F pos 0 len) st"
proof -
  have "upd_map F pos 0 len = cut_map F pos (pos + len)" by (simp add: upd_map_def cut_map_def fun_eq_iff)
  then show ?thesis using c cut_nodes [OF c R, of _ 0] by (simp add: et_sound_def cut_inv_def del: set_inorder)
qed

lemma f2fs_update_extent_tree_range_inv:
  assumes rb: "rb_ok rb" and inv: "et_inv F st" and len: "0 < len" "fofs + len < 4294967296" "blkaddr + len < 4294967296"
  shows "\<exists>st'. f2fs_update_extent_tree_range rb mem st fofs blkaddr len = Some st' \<and> et_inv (upd_map F fofs blkaddr len) st' \<and> et_fsck st' = et_fsck st
    \<and> (blkaddr \<noteq> 0 \<and> mem \<lparr>ei_fofs = fofs, ei_len = len, ei_blk = blkaddr\<rparr> \<longrightarrow> no_extent st' \<or> covered st' \<lparr>ei_fofs = fofs, ei_len = len, ei_blk = blkaddr\<rparr>)"
proof (cases "no_extent st")
  case True
  then have "et_inv (upd_map F fofs blkaddr len) st" using inv by (simp add: et_inv_def et_sound_def describes_def)
  then show ?thesis using True by (simp add: f2fs_update_extent_tree_range_def)
next
  case False
  let ?F0 = "cut_map F fofs (fofs + len)"
  have W: "et_wf st" "et_sound F st" "ei_ok (largest st)" using inv by (simp_all add: et_inv_def et_wf_def)
  define st0 where "st0 = drop_largest_extent st fofs len"
  note D = drop_largest_eq(1-7) [OF W(3), where fofs = fofs and len = len, folded st0_def]
  have w: "u32_wrap fofs = fofs" "u32_wrap (fofs + len) = fofs + len" using len(2) by simp_all
  have n0: "\<forall>n \<in> set (inorder (et_root st0)). describes F (en_ei n)" "describes ?F0 (largest st0)" "et_wf st0"
    using W D(2,3,7) by (simp_all add: et_sound_def)
  obtain en prev_en nx ip A R where L:
    "f2fs_lookup_rb_tree_ret (et_root st0) (Option.bind (cached_en st0) (find_en (et_root st0))) fofs False = (en, prev_en, nx, ip)"
    "(case en of None \<Rightarrow> nx | Some e \<Rightarrow> Some e) = hd_id R" "cut_inv F ?F0 fofs st0 A R prev_en ip"
    "nx = hd_id R \<or> (\<exists>n B. R = n # B \<and> ei_fofs (en_ei n) \<le> fofs)"
    by (rule lookup_ret_cuts [OF n0(3,1,2)])
  have nx: "nx = hd_id R \<or> (\<exists>n B. R = n # B \<and> ei_fofs (en_ei n) < fofs + len)" using L(4) len(1) by auto
  have "fofs < fofs + len" using len(1) by simp
  note loop = update_loop_cuts [OF rb L(3) this len(2) nx, of mem 0]
  then obtain st1 A1 R1 prev1 ip1 dl where U: "update_loop rb mem fofs (fofs + len) st0 (hd_id R) prev_en nx ip 0 = Some (st1, prev1, hd_id R1, ip1, dl)"
    "cut_inv F ?F0 fofs st1 A1 R1 prev1 ip1" "\<forall>b \<in> set R1. fofs + len \<le> ei_fofs (en_ei b)" "et_fsck st1 = et_fsck st" "no_extent st1 = no_extent st"
    using D(4,5) by auto
  define e where "e = \<lparr>ei_fofs = fofs, ei_len = len, ei_blk = blkaddr\<rparr>"
  define fin where "fin = (\<lambda>st. if no_extent st then snd (free_extent_tree rb st) else st)"
  define quit where "quit = (\<lambda>st'. if dl \<ge> 1 \<and> ei_len (largest st) < F2FS_MIN_EXTENT_LEN \<and> ei_len (largest st') < F2FS_MIN_EXTENT_LEN
                            then (drop_largest_extent st' 0 4294967295)\<lparr>no_extent := True\<rparr> else st')"
  have eq: "f2fs_update_extent_tree_range rb mem st fofs blkaddr len = map_option fin
      (if blkaddr = 0 then Some st1 else map_option quit (update_extent rb mem st1 e prev1 (hd_id R1) ip1))"
    using False L(1,2) U(1) unfolding f2fs_update_extent_tree_range_def Let_def w st0_def [symmetric] fin_def quit_def e_def by simp
  show ?thesis
  proof (cases "blkaddr = 0")
    case True
    have "et_wf st1" using U(2) by (simp add: cut_inv_def)
    then have "et_inv (upd_map F fofs blkaddr len) st1" using cut_sound [OF U(2,3)] True False U(5) by (simp add: et_inv_def)
    then show ?thesis using eq True False U(4,5) by (simp add: fin_def)
  next
    case nz: False
    have "ei_ok e" using len by (simp add: e_def ei_ok_def)
    then have g: "gap_inv (upd_map F fofs blkaddr len) e st1 A1 R1" using cut_gap [OF U(2,3) e_def] len(1) nz by simp
    have p1: "set_option prev1 \<subseteq> en_id ` set A1" and "\<And>p. ip1 = Some p \<Longrightarrow> f2fs_lookup_rb_tree_for_insert (et_root st1) (ei_fofs e) = Some p"
      using U(2) by (simp_all add: cut_inv_def e_def)
    then obtain st2 where X: "update_extent rb mem st1 e prev1 (hd_id R1) ip1 = Some st2" "put_ok (upd_map F fofs blkaddr len) st1 st2" "mem e \<longrightarrow> covered st2 e"
      using update_extent_ok [OF rb g p1, of ip1 mem] by blast
    have X2: "et_wf st2" "et_sound (upd_map F fofs blkaddr len) st2" "et_fsck st2 = et_fsck st" "\<not> no_extent st2" "ei_ok (largest st2)"
      using X(2) U(4,5) False by (simp_all add: put_ok_def et_wf_def)
    have "et_inv (upd_map F fofs blkaddr len) (fin (quit st2)) \<and> et_fsck (fin (quit st2)) = et_fsck st
      \<and> (mem e \<longrightarrow> no_extent (fin (quit st2)) \<or> covered (fin (quit st2)) e)"
    proof (cases "quit st2 = st2")
      case True
      then show ?thesis using X2 X(3) by (simp add: fin_def et_inv_def)
    next
      case False
      let ?q = "(drop_largest_extent st2 0 4294967295)\<lparr>no_extent := True\<rparr>"
      have q: "quit st2 = ?q" using False unfolding quit_def by presburger
      note D2 = drop_largest_eq(1-7) [OF X2(5), where fofs = 0 and len = 4294967295]
      have "et_wf ?q" using D2(2) X2(1) by (simp add: et_wf_def et_ids_def)
      note E = free_all [OF rb this]
      show ?thesis using E D2(4) drop_largest_eq(8) [OF X2(5)] X2(3) q by (simp add: fin_def et_inv_def et_sound_def describes_def del: set_inorder)
    qed
    then show ?thesis using eq nz X(1) by (simp add: e_def)
  qed
qed

end
