(* ===== verification/Extent_Spec.thy ===== *)
theory Extent_Spec
  imports Extent_Update
begin

text \<open>
  The operations the rest of the file system calls (\<open>src/extent_cache.c\<close>, from \<open>f2fs_init_extent_tree\<close>
  on), and what they promise: whatever the sequence of updates, lookups and releases, every extent a
  lookup returns is the current place of the blocks.
\<close>

subsection \<open>Operations\<close>

definition f2fs_may_extent_tree :: "bool \<Rightarrow> bool \<Rightarrow> extent_tree \<Rightarrow> bool" where
  "f2fs_may_extent_tree opt_extent_cache is_reg st \<longleftrightarrow> opt_extent_cache \<and> \<not> no_extent st \<and> is_reg"

text \<open>The tree an inode is given when it is read: the extent stored in the inode, if there is one.\<close>

definition f2fs_init_extent_tree :: "rb_ops \<Rightarrow> (extent_info \<Rightarrow> bool) \<Rightarrow> extent_tree \<Rightarrow> extent_info option \<Rightarrow> extent_tree" where
  "f2fs_init_extent_tree rb mem st i_ext =
     (case i_ext of
        None \<Rightarrow> st
      | Some ei \<Rightarrow>
          if ei_len ei = 0 \<or> node_cnt st \<noteq> 0 then st
          else case init_extent_tree rb mem st ei of
                 (None, st) \<Rightarrow> st
               | (Some en, st) \<Rightarrow> st\<lparr>extent_list := extent_list st @ [en]\<rparr>)"

definition f2fs_destroy_extent_node :: "rb_ops \<Rightarrow> extent_tree \<Rightarrow> nat \<times> extent_tree" where
  "f2fs_destroy_extent_node rb st = (if node_cnt st = 0 then (0, st) else free_extent_tree rb st)"

definition f2fs_drop_extent_tree :: "rb_ops \<Rightarrow> bool \<Rightarrow> extent_tree \<Rightarrow> extent_tree" where
  "f2fs_drop_extent_tree rb may st =
     (if \<not> may then st
      else drop_largest_extent (snd (free_extent_tree rb (st\<lparr>no_extent := True\<rparr>))) 0 4294967295)"

definition f2fs_lookup_extent_cache :: "bool \<Rightarrow> extent_tree \<Rightarrow> nat \<Rightarrow> extent_info option \<times> extent_tree" where
  "f2fs_lookup_extent_cache may st pgofs = (if \<not> may then (None, st) else f2fs_lookup_extent_tree st pgofs)"

definition f2fs_update_extent_cache_range ::
  "rb_ops \<Rightarrow> (extent_info \<Rightarrow> bool) \<Rightarrow> bool \<Rightarrow> extent_tree \<Rightarrow> nat \<Rightarrow> nat \<Rightarrow> nat \<Rightarrow> extent_tree option" where
  "f2fs_update_extent_cache_range rb mem may st fofs blkaddr len =
     (if \<not> may then Some st else f2fs_update_extent_tree_range rb mem st fofs blkaddr len)"

text \<open>A block that is only reserved (\<open>NEW_ADDR\<close>) has no place yet. The two addresses are those of the disk format.\<close>

definition f2fs_update_extent_cache ::
  "nat \<Rightarrow> nat \<Rightarrow> rb_ops \<Rightarrow> (extent_info \<Rightarrow> bool) \<Rightarrow> bool \<Rightarrow> extent_tree \<Rightarrow> nat \<Rightarrow> nat \<Rightarrow> extent_tree option" where
  "f2fs_update_extent_cache null_addr new_addr rb mem may st data_blkaddr fofs =
     (if \<not> may then Some st
      else f2fs_update_extent_tree_range rb mem st fofs (if data_blkaddr = new_addr then null_addr else data_blkaddr) 1)"

subsection \<open>Lookup\<close>

lemma lookup_tree_hit:
  assumes wf: "et_wf st" and n: "f2fs_lookup_rb_tree (et_root st) (Option.bind (cached_en st) (find_en (et_root st))) ofs = Some n"
  shows "n \<in> set (inorder (et_root st))" "in_extent (en_ei n) ofs"
proof -
  have seq: "ext_seq (inorder (et_root st))" using wf by (simp add: et_wf_def)
  have c: "m \<in> set (inorder (et_root st))" if "Option.bind (cached_en st) (find_en (et_root st)) = Some m" for m
    using that by (auto simp: bind_eq_Some_conv find_en_def find_Some_iff simp del: set_inorder)
  show "n \<in> set (inorder (et_root st))" "in_extent (en_ei n) ofs"
    using n c lookup_slow [OF seq, of ofs n]
    by (auto simp: f2fs_lookup_rb_tree_def lookup_rb_tree_fast_def split: option.splits if_splits simp del: set_inorder)
qed

lemma touch_wf:
  assumes "et_wf st" and "i \<in> et_ids st"
  shows "et_wf (touch_en st i)" "et_root (touch_en st i) = et_root st" "largest (touch_en st i) = largest st" "no_extent (touch_en st i) = no_extent st"
    "et_fsck (touch_en st i) = et_fsck st"
proof -
  show f: "et_root (touch_en st i) = et_root st" "largest (touch_en st i) = largest st" "no_extent (touch_en st i) = no_extent st" "et_fsck (touch_en st i) = et_fsck st"
    by (simp_all add: touch_en_def)
  have "en_fresh (touch_en st i) = en_fresh st" "node_cnt (touch_en st i) = node_cnt st" by (simp_all add: touch_en_def)
  moreover have "et_ids (touch_en st i) = et_ids st" using f(1) by (simp add: et_ids_def)
  moreover have "set_option (cached_en (touch_en st i)) \<subseteq> et_ids st" "et_ids st \<subseteq> set (extent_list (touch_en st i))"
    using assms set_remove1_snoc [of i "extent_list st"] by (auto simp: touch_en_def et_wf_def split: if_splits)
  ultimately show "et_wf (touch_en st i)" using assms(1) f by (simp add: et_wf_def)
qed

lemma f2fs_lookup_extent_tree_inv:
  assumes inv: "et_inv F st" and x: "pgofs < 4294967296"
  shows "\<exists>r st'. f2fs_lookup_extent_tree st pgofs = (r, st') \<and> et_inv F st' \<and> et_fsck st' = et_fsck st
    \<and> (\<forall>ei. r = Some ei \<longrightarrow> ei_fofs ei \<le> pgofs \<and> pgofs < ei_fofs ei + ei_len ei \<and> F pgofs = Some (ei_blk ei + (pgofs - ei_fofs ei)))"
proof -
  have wf: "et_wf st" "et_sound F st" "ei_ok (largest st)" using inv by (simp_all add: et_inv_def et_wf_def)
  have ans: "ei_fofs ei \<le> pgofs \<and> pgofs < ei_fofs ei + ei_len ei \<and> F pgofs = Some (ei_blk ei + (pgofs - ei_fofs ei))"
    if "describes F ei" "in_extent ei pgofs" "ei_ok ei" for ei
    using that by (simp add: describes_def in_extent_def)
  show ?thesis
  proof (cases "in_extent (largest st) pgofs")
    case True
    then show ?thesis using inv ans [of "largest st"] wf by (simp add: f2fs_lookup_extent_tree_def et_sound_def)
  next
    case F: False
    let ?l = "f2fs_lookup_rb_tree (et_root st) (Option.bind (cached_en st) (find_en (et_root st))) pgofs"
    show ?thesis
    proof (cases ?l)
      case None
      then show ?thesis using F inv x by (simp add: f2fs_lookup_extent_tree_def)
    next
      case (Some n)
      note H = lookup_tree_hit [OF wf(1) Some]
      have i: "en_id n \<in> et_ids st" using H(1) by (simp add: et_ids_def)
      note T = touch_wf [OF wf(1) i]
      have ok: "ei_ok (en_ei n)" "describes F (en_ei n)" using H(1) wf(1,2) by (simp_all add: et_wf_def ext_seq_def et_sound_def)
      have "et_inv F (touch_en st (en_id n))" using T inv by (simp add: et_inv_def et_sound_def)
      then show ?thesis using Some F x ans [OF ok(2) H(2) ok(1)] T(5) by (simp add: f2fs_lookup_extent_tree_def)
    qed
  qed
qed

lemma lookup_covered:
  assumes inv: "et_inv F st" and c: "covered st e" and x: "ei_fofs e \<le> pgofs" "pgofs < ei_fofs e + ei_len e"
  shows "fst (f2fs_lookup_extent_tree st pgofs) \<noteq> None"
proof -
  obtain n where n: "n \<in> set (inorder (et_root st))" "ei_fofs (en_ei n) \<le> ei_fofs e" "ei_fofs e + ei_len e \<le> ei_fofs (en_ei n) + ei_len (en_ei n)"
    using c by (auto simp: covered_def simp del: set_inorder)
  have seq: "ext_seq (inorder (et_root st))" using inv by (simp add: et_inv_def et_wf_def)
  then have ok: "ei_ok (en_ei n)" using n(1) by (simp add: ext_seq_def)
  then have s: "pgofs < 4294967296" "in_extent (en_ei n) pgofs" using n x by (simp_all add: in_extent_def ei_ok_def)
  then have "lookup_rb_tree_slow (et_root st) pgofs = Some n" using lookup_slow [OF seq] n(1) by blast
  then show ?thesis using s(1)
    by (auto simp: f2fs_lookup_extent_tree_def f2fs_lookup_rb_tree_def split: option.splits)
qed

subsection \<open>Sequences of operations\<close>

datatype ext_cmd = Update nat nat nat | Lookup nat | Destroy_nodes | Drop

definition ext_do :: "rb_ops \<Rightarrow> (extent_info \<Rightarrow> bool) \<Rightarrow> ext_cmd \<Rightarrow> extent_tree \<Rightarrow> (extent_info option \<times> extent_tree) option" where
  "ext_do rb mem c st =
     (let may = f2fs_may_extent_tree True True st
      in case c of
           Update fofs blk len \<Rightarrow> map_option (Pair None) (f2fs_update_extent_cache_range rb mem may st fofs blk len)
         | Lookup x \<Rightarrow> Some (f2fs_lookup_extent_cache may st x)
         | Destroy_nodes \<Rightarrow> Some (None, snd (f2fs_destroy_extent_node rb st))
         | Drop \<Rightarrow> Some (None, f2fs_drop_extent_tree rb may st))"

fun ext_exec :: "rb_ops \<Rightarrow> (extent_info \<Rightarrow> bool) \<Rightarrow> ext_cmd list \<Rightarrow> extent_tree \<Rightarrow> (extent_info option list \<times> extent_tree) option" where
  "ext_exec rb mem [] st = Some ([], st)"
| "ext_exec rb mem (c # cs) st =
     (case ext_do rb mem c st of None \<Rightarrow> None
      | Some (a, st) \<Rightarrow> map_option (\<lambda>(as, st). (a # as, st)) (ext_exec rb mem cs st))"

definition map_do :: "ext_cmd \<Rightarrow> (nat \<rightharpoonup> nat) \<Rightarrow> nat \<rightharpoonup> nat" where
  "map_do c F = (case c of Update fofs blk len \<Rightarrow> upd_map F fofs blk len | _ \<Rightarrow> F)"

definition cmd_ok :: "ext_cmd \<Rightarrow> bool" where
  "cmd_ok c = (case c of Update fofs blk len \<Rightarrow> 0 < len \<and> fofs + len < 4294967296 \<and> blk + len < 4294967296
     | Lookup x \<Rightarrow> x < 4294967296 | _ \<Rightarrow> True)"

text \<open>The answers of a run against the block map of the file at the time of each answer.\<close>

fun answers_ok :: "ext_cmd list \<Rightarrow> (nat \<rightharpoonup> nat) \<Rightarrow> extent_info option list \<Rightarrow> bool" where
  "answers_ok [] F [] = True"
| "answers_ok (c # cs) F (a # as) =
     ((case (c, a) of (Lookup x, Some ei) \<Rightarrow> ei_fofs ei \<le> x \<and> x < ei_fofs ei + ei_len ei \<and> F x = Some (ei_blk ei + (x - ei_fofs ei)) | _ \<Rightarrow> True)
      \<and> answers_ok cs (map_do c F) as)"
| "answers_ok _ _ _ = False"

lemma no_extent_any: "et_inv F st \<Longrightarrow> no_extent st \<Longrightarrow> et_inv G st"
  by (simp add: et_inv_def et_sound_def describes_def)

lemma destroy_inv:
  assumes "rb_ok rb" and "et_inv F st"
  shows "et_inv F (snd (f2fs_destroy_extent_node rb st))" "et_fsck (snd (f2fs_destroy_extent_node rb st)) = et_fsck st"
  using free_all [OF assms(1), of st] assms(2)
  by (simp_all add: f2fs_destroy_extent_node_def et_inv_def et_sound_def del: set_inorder)

lemma drop_inv:
  assumes rb: "rb_ok rb" and inv: "et_inv F st"
  shows "et_inv F (f2fs_drop_extent_tree rb may st)" "et_fsck (f2fs_drop_extent_tree rb may st) = et_fsck st"
proof -
  let ?s = "st\<lparr>no_extent := True\<rparr>"
  have wf: "et_wf ?s" using inv by (simp add: et_inv_def et_wf_def et_ids_def)
  note E = free_all [OF rb wf]
  have l: "ei_ok (largest (snd (free_extent_tree rb ?s)))" using E(1) by (simp add: et_wf_def)
  note D = drop_largest_eq(1-7) [OF l, where fofs = 0 and len = 4294967295] drop_largest_eq(8) [OF l]
  show "et_inv F (f2fs_drop_extent_tree rb may st)" "et_fsck (f2fs_drop_extent_tree rb may st) = et_fsck st"
    using inv E D by (simp_all add: f2fs_drop_extent_tree_def et_inv_def et_sound_def describes_def del: set_inorder)
qed

lemma ext_do_inv:
  assumes rb: "rb_ok rb" and inv: "et_inv F st" and c: "cmd_ok c"
  shows "\<exists>a st'. ext_do rb mem c st = Some (a, st') \<and> et_inv (map_do c F) st' \<and> et_fsck st' = et_fsck st
    \<and> (case (c, a) of (Lookup x, Some ei) \<Rightarrow> ei_fofs ei \<le> x \<and> x < ei_fofs ei + ei_len ei \<and> F x = Some (ei_blk ei + (x - ei_fofs ei)) | _ \<Rightarrow> True)"
proof (cases c)
  case (Update fofs blk len)
  then have l: "0 < len" "fofs + len < 4294967296" "blk + len < 4294967296" using c by (simp_all add: cmd_ok_def)
  show ?thesis
  proof (cases "no_extent st")
    case True
    then show ?thesis using Update no_extent_any [OF inv]
      by (simp add: ext_do_def f2fs_may_extent_tree_def f2fs_update_extent_cache_range_def map_do_def)
  next
    case False
    then show ?thesis using Update f2fs_update_extent_tree_range_inv [OF rb inv l, of mem]
      by (auto simp: ext_do_def f2fs_may_extent_tree_def f2fs_update_extent_cache_range_def map_do_def Let_def)
  qed
next
  case (Lookup x)
  then have "x < 4294967296" using c by (simp add: cmd_ok_def)
  from f2fs_lookup_extent_tree_inv [OF inv this] show ?thesis using Lookup inv
    by (auto simp: ext_do_def f2fs_lookup_extent_cache_def map_do_def Let_def split: option.splits)
next
  case Destroy_nodes
  then show ?thesis using destroy_inv [OF rb inv] by (simp add: ext_do_def map_do_def Let_def)
next
  case Drop
  then show ?thesis using drop_inv [OF rb inv] by (simp add: ext_do_def map_do_def Let_def)
qed

text \<open>
  C3. The extent cache never answers with a stale place: over any sequence of updates, lookups and
  releases every operation returns, every extent a lookup returns holds the block asked for and gives
  its current address in the file's block map, and the cache agrees with the final map. Whatever the
  memory the slab grants, no inconsistency is reported.
\<close>

theorem extent_cache_refines_map:
  assumes rb: "rb_ok rb" and "et_inv F st" and "\<forall>c \<in> set cs. cmd_ok c"
  shows "\<exists>as st'. ext_exec rb mem cs st = Some (as, st') \<and> answers_ok cs F as \<and> et_inv (fold map_do cs F) st' \<and> et_fsck st' = et_fsck st"
  using assms(2,3)
proof (induction cs arbitrary: F st)
  case Nil
  then show ?case by simp
next
  case (Cons c cs)
  obtain a st1 where a: "ext_do rb mem c st = Some (a, st1)" "et_inv (map_do c F) st1" "et_fsck st1 = et_fsck st"
    "case (c, a) of (Lookup x, Some ei) \<Rightarrow> ei_fofs ei \<le> x \<and> x < ei_fofs ei + ei_len ei \<and> F x = Some (ei_blk ei + (x - ei_fofs ei)) | _ \<Rightarrow> True"
    using ext_do_inv [OF rb Cons.prems(1), of c mem] Cons.prems(2) by auto
  obtain as st' where "ext_exec rb mem cs st1 = Some (as, st')" "answers_ok cs (map_do c F) as" "et_inv (fold map_do cs (map_do c F)) st'"
    "et_fsck st' = et_fsck st1"
    using Cons.IH [OF a(2)] Cons.prems(2) by auto
  then show ?case using a by simp
qed

text \<open>A tree that is never rebalanced, for the examples.\<close>

definition plain_rb :: rb_ops where
  "plain_rb = \<lparr>rb_insert_color = (\<lambda>t. t), rb_erase = (\<lambda>i t. foldr (\<lambda>n t. Node Leaf n t) (filter (\<lambda>n. en_id n \<noteq> i) (inorder t)) Leaf)\<rparr>"

lemma plain_rb_ok: "rb_ok plain_rb"
proof -
  have "inorder (foldr (\<lambda>n t. Node Leaf n t) ns Leaf) = ns" for ns :: "extent_node list" by (induction ns) simp_all
  then show ?thesis by (simp add: rb_ok_def plain_rb_def)
qed

definition et0 :: extent_tree where
  "et0 = \<lparr>et_root = Leaf, cached_en = None, largest = \<lparr>ei_fofs = 0, ei_len = 0, ei_blk = 0\<rparr>, node_cnt = 0, extent_list = [],
     total_ext_node = 0, en_fresh = 0, no_extent = False, inode_dirty = False, et_fsck = False\<rparr>"

lemma et0_inv: "et_inv F et0"
  by (simp add: et_inv_def et_wf_def et_sound_def et0_def et_ids_def ext_seq_def ei_ok_def describes_def)

theorem extent_cache_refines_map_witness:
  "\<exists>as st'. ext_exec plain_rb (\<lambda>_. True) [Update 0 1000 200, Lookup 150, Update 100 5000 1, Lookup 100, Lookup 150] et0 = Some (as, st')
    \<and> answers_ok [Update 0 1000 200, Lookup 150, Update 100 5000 1, Lookup 100, Lookup 150] Map.empty as \<and> \<not> et_fsck st'"
  using extent_cache_refines_map [OF plain_rb_ok et0_inv [of Map.empty], where mem = "\<lambda>_. True" and cs = "[Update 0 1000 200, Lookup 150, Update 100 5000 1, Lookup 100, Lookup 150]"]
  by (auto simp: cmd_ok_def et0_def)

text \<open>
  C32. A write is seen: after an update that maps blocks, and with memory for one node, a lookup of any of
  these blocks finds an extent that gives the new address, unless the cache was given up for the inode.
\<close>

theorem update_then_lookup:
  assumes rb: "rb_ok rb" and inv: "et_inv F st" and len: "fofs + len < 4294967296" "blkaddr + len < 4294967296"
    and blk: "blkaddr \<noteq> 0" and mem: "mem \<lparr>ei_fofs = fofs, ei_len = len, ei_blk = blkaddr\<rparr>" and x: "fofs \<le> x" "x < fofs + len"
  shows "\<exists>st'. f2fs_update_extent_tree_range rb mem st fofs blkaddr len = Some st'
    \<and> (no_extent st' \<or> (\<exists>ei. fst (f2fs_lookup_extent_tree st' x) = Some ei \<and> ei_blk ei + (x - ei_fofs ei) = blkaddr + (x - fofs)))"
proof -
  have l: "0 < len" using x by simp
  obtain st' where u: "f2fs_update_extent_tree_range rb mem st fofs blkaddr len = Some st'" "et_inv (upd_map F fofs blkaddr len) st'"
    "no_extent st' \<or> covered st' \<lparr>ei_fofs = fofs, ei_len = len, ei_blk = blkaddr\<rparr>"
    using f2fs_update_extent_tree_range_inv [OF rb inv l len, of mem] blk mem by blast
  have "\<exists>ei. fst (f2fs_lookup_extent_tree st' x) = Some ei \<and> ei_blk ei + (x - ei_fofs ei) = blkaddr + (x - fofs)" if c: "\<not> no_extent st'"
  proof -
    have "fst (f2fs_lookup_extent_tree st' x) \<noteq> None" using lookup_covered [OF u(2), of _ x] u(3) c x by auto
    moreover have "x < 4294967296" using x len by simp
    ultimately show ?thesis using f2fs_lookup_extent_tree_inv [OF u(2), of x] x blk by (auto simp: upd_map_def)
  qed
  then show ?thesis using u(1) by blast
qed

theorem update_then_lookup_witness:
  "\<exists>st'. f2fs_update_extent_tree_range plain_rb (\<lambda>_. True) et0 10 700 64 = Some st'
    \<and> (no_extent st' \<or> (\<exists>ei. fst (f2fs_lookup_extent_tree st' 20) = Some ei \<and> ei_blk ei + (20 - ei_fofs ei) = 710))"
  using update_then_lookup [OF plain_rb_ok et0_inv, of 10 64 700 "\<lambda>_. True" 20] by simp

end
