(* ===== verification/Node_Path.thy ===== *)
theory Node_Path
  imports Geometry
begin

text \<open>
  Where a file keeps the address of a block: \<open>get_node_path\<close> and \<open>f2fs_get_next_page_offset\<close> of
  \<open>src/node.c\<close>, \<open>f2fs_start_bidx_of_node\<close> of \<open>src/gc.c\<close> and \<open>IS_DNODE\<close> of \<open>src/node.h\<close>. The sizes of the disk
  format are a record.
\<close>

record node_fmt =
  ADDRS_PER_INODE :: nat
  ADDRS_PER_BLOCK :: nat
  NIDS_PER_BLOCK :: nat
  NODE_DIR1_BLOCK :: nat
  XATTR_NODE_OFFSET :: nat

definition NODE_DIR2_BLOCK :: "node_fmt \<Rightarrow> nat" where "NODE_DIR2_BLOCK f = NODE_DIR1_BLOCK f + 1"
definition NODE_IND1_BLOCK :: "node_fmt \<Rightarrow> nat" where "NODE_IND1_BLOCK f = NODE_DIR1_BLOCK f + 2"
definition NODE_IND2_BLOCK :: "node_fmt \<Rightarrow> nat" where "NODE_IND2_BLOCK f = NODE_DIR1_BLOCK f + 3"
definition NODE_DIND_BLOCK :: "node_fmt \<Rightarrow> nat" where "NODE_DIND_BLOCK f = NODE_DIR1_BLOCK f + 4"

subsection \<open>The path of a block\<close>

text \<open>The offsets in the nodes on the way and the numbers of these nodes in the file; the level is the length of the way. \<open>None\<close> is \<open>-E2BIG\<close>.\<close>

record node_path =
  np_offset :: "nat list"
  np_noffset :: "nat list"

definition np_level :: "node_path \<Rightarrow> nat" where
  "np_level p = length (np_offset p) - 1"

definition get_node_path :: "node_fmt \<Rightarrow> nat \<Rightarrow> node_path option" where
  "get_node_path f block =
     (let direct_index = ADDRS_PER_INODE f; direct_blks = ADDRS_PER_BLOCK f; dptrs_per_blk = NIDS_PER_BLOCK f;
          indirect_blks = ADDRS_PER_BLOCK f * NIDS_PER_BLOCK f; dindirect_blks = indirect_blks * NIDS_PER_BLOCK f
      in if block < direct_index then Some \<lparr>np_offset = [block], np_noffset = [0]\<rparr>
         else let block = block - direct_index
         in if block < direct_blks then Some \<lparr>np_offset = [NODE_DIR1_BLOCK f, block], np_noffset = [0, 1]\<rparr>
         else let block = block - direct_blks
         in if block < direct_blks then Some \<lparr>np_offset = [NODE_DIR2_BLOCK f, block], np_noffset = [0, 2]\<rparr>
         else let block = block - direct_blks
         in if block < indirect_blks
            then Some \<lparr>np_offset = [NODE_IND1_BLOCK f, block div direct_blks, block mod direct_blks],
                       np_noffset = [0, 3, 4 + block div direct_blks]\<rparr>
         else let block = block - indirect_blks
         in if block < indirect_blks
            then Some \<lparr>np_offset = [NODE_IND2_BLOCK f, block div direct_blks, block mod direct_blks],
                       np_noffset = [0, 4 + dptrs_per_blk, 5 + dptrs_per_blk + block div direct_blks]\<rparr>
         else let block = block - indirect_blks
         in if block < dindirect_blks
            then Some \<lparr>np_offset = [NODE_DIND_BLOCK f, block div indirect_blks, (block div direct_blks) mod dptrs_per_blk, block mod direct_blks],
                       np_noffset = [0, 5 + dptrs_per_blk * 2, 6 + dptrs_per_blk * 2 + (block div indirect_blks) * (dptrs_per_blk + 1),
                         7 + dptrs_per_blk * 2 + (block div indirect_blks) * (dptrs_per_blk + 1) + (block div direct_blks) mod dptrs_per_blk]\<rparr>
         else None)"

text \<open>The first block a direct node holds, from the number of the node.\<close>

definition f2fs_start_bidx_of_node :: "node_fmt \<Rightarrow> nat \<Rightarrow> nat" where
  "f2fs_start_bidx_of_node f node_ofs =
     (let indirect_blks = 2 * NIDS_PER_BLOCK f + 4;
          bidx = (if node_ofs \<le> 2 then node_ofs - 1
                  else if node_ofs \<le> indirect_blks then u32_sub (node_ofs - 2) (u32_sub node_ofs 4 div (NIDS_PER_BLOCK f + 1))
                  else u32_sub (node_ofs - 5) (u32_sub node_ofs (indirect_blks + 3) div (NIDS_PER_BLOCK f + 1)))
      in if node_ofs = 0 then 0 else u32_wrap (bidx * ADDRS_PER_BLOCK f + ADDRS_PER_INODE f))"

definition IS_DNODE :: "node_fmt \<Rightarrow> nat \<Rightarrow> bool" where
  "IS_DNODE f ofs =
     (if ofs = XATTR_NODE_OFFSET f then True
      else if ofs = 3 \<or> ofs = 4 + NIDS_PER_BLOCK f \<or> ofs = 5 + 2 * NIDS_PER_BLOCK f then False
      else if ofs \<ge> 6 + 2 * NIDS_PER_BLOCK f \<and> (ofs - (6 + 2 * NIDS_PER_BLOCK f)) mod (NIDS_PER_BLOCK f + 1) = 0 then False
      else True)"

text \<open>The next block a file may have when the node at level \<open>cur_level\<close> on the way to \<open>pgofs\<close> is missing.\<close>

definition f2fs_get_next_page_offset :: "node_fmt \<Rightarrow> nat \<Rightarrow> nat \<Rightarrow> nat \<Rightarrow> nat" where
  "f2fs_get_next_page_offset f cur_level max_level pgofs =
     (let skipped_unit = u32_wrap (ADDRS_PER_BLOCK f * NIDS_PER_BLOCK f ^ (max_level - cur_level));
          base = (if max_level = 3 then 2 * (ADDRS_PER_BLOCK f * NIDS_PER_BLOCK f) else 0)
               + (if max_level = 3 \<or> max_level = 2 then 2 * ADDRS_PER_BLOCK f else 0)
               + (if 1 \<le> max_level \<and> max_level \<le> 3 then ADDRS_PER_INODE f else 0)
      in if max_level = 0 then pgofs + 1 else ((pgofs - base) div skipped_unit + 1) * skipped_unit + base)"

subsection \<open>The path and its inverse\<close>

text \<open>The largest file the super block admits, of \<open>src/super.c\<close>, and the blocks a path can reach.\<close>

definition max_file_blocks :: "node_fmt \<Rightarrow> nat" where
  "max_file_blocks f =
     (let leaf_count = ADDRS_PER_BLOCK f; result = leaf_count * 2;
          leaf_count = leaf_count * NIDS_PER_BLOCK f; result = result + leaf_count * 2;
          leaf_count = leaf_count * NIDS_PER_BLOCK f
      in result + leaf_count)"

definition path_blocks :: "node_fmt \<Rightarrow> nat" where
  "path_blocks f = ADDRS_PER_INODE f + ADDRS_PER_BLOCK f * (2 + 2 * NIDS_PER_BLOCK f + NIDS_PER_BLOCK f * NIDS_PER_BLOCK f)"

definition fmt_ok :: "node_fmt \<Rightarrow> bool" where
  "fmt_ok f \<longleftrightarrow> 0 < ADDRS_PER_BLOCK f \<and> 0 < NIDS_PER_BLOCK f \<and> path_blocks f < 4294967296
     \<and> (NIDS_PER_BLOCK f + 2) * (NIDS_PER_BLOCK f + 2) + 6 < XATTR_NODE_OFFSET f \<and> XATTR_NODE_OFFSET f < 4294967296"

text \<open>The six ranges of a file.\<close>

lemma node_path_cases:
  assumes p: "get_node_path f b = Some p" and D: "0 < ADDRS_PER_BLOCK f"
  obtains (inode) "b < ADDRS_PER_INODE f" "p = \<lparr>np_offset = [b], np_noffset = [0]\<rparr>"
  | (dir1) o1 where "b = ADDRS_PER_INODE f + o1" "o1 < ADDRS_PER_BLOCK f" "p = \<lparr>np_offset = [NODE_DIR1_BLOCK f, o1], np_noffset = [0, 1]\<rparr>"
  | (dir2) o1 where "b = ADDRS_PER_INODE f + ADDRS_PER_BLOCK f + o1" "o1 < ADDRS_PER_BLOCK f"
      "p = \<lparr>np_offset = [NODE_DIR2_BLOCK f, o1], np_noffset = [0, 2]\<rparr>"
  | (ind1) o1 o2 where "b = ADDRS_PER_INODE f + ADDRS_PER_BLOCK f * (2 + o1) + o2" "o1 < NIDS_PER_BLOCK f" "o2 < ADDRS_PER_BLOCK f"
      "p = \<lparr>np_offset = [NODE_IND1_BLOCK f, o1, o2], np_noffset = [0, 3, 4 + o1]\<rparr>"
  | (ind2) o1 o2 where "b = ADDRS_PER_INODE f + ADDRS_PER_BLOCK f * (2 + NIDS_PER_BLOCK f + o1) + o2" "o1 < NIDS_PER_BLOCK f" "o2 < ADDRS_PER_BLOCK f"
      "p = \<lparr>np_offset = [NODE_IND2_BLOCK f, o1, o2], np_noffset = [0, 4 + NIDS_PER_BLOCK f, 5 + NIDS_PER_BLOCK f + o1]\<rparr>"
  | (dind) o1 o2 o3 where "b = ADDRS_PER_INODE f + ADDRS_PER_BLOCK f * (2 + 2 * NIDS_PER_BLOCK f + o1 * NIDS_PER_BLOCK f + o2) + o3"
      "o1 < NIDS_PER_BLOCK f" "o2 < NIDS_PER_BLOCK f" "o3 < ADDRS_PER_BLOCK f"
      "p = \<lparr>np_offset = [NODE_DIND_BLOCK f, o1, o2, o3],
        np_noffset = [0, 5 + 2 * NIDS_PER_BLOCK f, 6 + 2 * NIDS_PER_BLOCK f + o1 * (NIDS_PER_BLOCK f + 1), 7 + 2 * NIDS_PER_BLOCK f + o1 * (NIDS_PER_BLOCK f + 1) + o2]\<rparr>"
proof -
  let ?I = "ADDRS_PER_INODE f" and ?D = "ADDRS_PER_BLOCK f" and ?N = "NIDS_PER_BLOCK f"
  have split: "c = ?D * (c div ?D) + c mod ?D" "c mod ?D < ?D" for c using D by simp_all
  define b1 where "b1 = b - ?I - ?D - ?D"
  define b2 where "b2 = b1 - ?D * ?N"
  define b3 where "b3 = b2 - ?D * ?N"
  consider "b < ?I" | "\<not> b < ?I" "b - ?I < ?D" | "\<not> b < ?I" "\<not> b - ?I < ?D" "b - ?I - ?D < ?D"
    | (i1) "\<not> b < ?I" "\<not> b - ?I < ?D" "\<not> b - ?I - ?D < ?D" "b1 < ?D * ?N"
    | (i2) "\<not> b < ?I" "\<not> b - ?I < ?D" "\<not> b - ?I - ?D < ?D" "\<not> b1 < ?D * ?N" "b2 < ?D * ?N"
    | (di) "\<not> b < ?I" "\<not> b - ?I < ?D" "\<not> b - ?I - ?D < ?D" "\<not> b1 < ?D * ?N" "\<not> b2 < ?D * ?N" "b3 < ?D * ?N * ?N"
    using p by (auto simp: get_node_path_def Let_def b1_def b2_def b3_def split: if_splits)
  then show thesis
  proof cases
    case 1
    then show thesis using p inode by (simp add: get_node_path_def)
  next
    case 2
    then show thesis using p dir1 [of "b - ?I"] by (simp add: get_node_path_def Let_def)
  next
    case 3
    then show thesis using p dir2 [of "b - ?I - ?D"] by (simp add: get_node_path_def Let_def)
  next
    case i1
    have e: "p = \<lparr>np_offset = [NODE_IND1_BLOCK f, b1 div ?D, b1 mod ?D], np_noffset = [0, 3, 4 + b1 div ?D]\<rparr>"
      using p i1 by (simp add: get_node_path_def Let_def b1_def)
    have "b = ?I + ?D * (2 + b1 div ?D) + b1 mod ?D" using i1(1-3) split(1) [of b1] by (simp add: b1_def algebra_simps)
    moreover have "b1 div ?D < ?N" using i1(4) by (simp add: less_mult_imp_div_less mult.commute)
    ultimately show thesis using ind1 split(2) e by blast
  next
    case i2
    have e: "p = \<lparr>np_offset = [NODE_IND2_BLOCK f, b2 div ?D, b2 mod ?D], np_noffset = [0, 4 + ?N, 5 + ?N + b2 div ?D]\<rparr>"
      using p i2 by (simp add: get_node_path_def Let_def b1_def b2_def)
    have "b = ?I + ?D * (2 + ?N + b2 div ?D) + b2 mod ?D" using i2(1-4) split(1) [of b2] by (simp add: b1_def b2_def algebra_simps)
    moreover have "b2 div ?D < ?N" using i2(5) by (simp add: less_mult_imp_div_less mult.commute)
    ultimately show thesis using ind2 split(2) e by blast
  next
    case di
    have d: "b3 div (?D * ?N) = b3 div ?D div ?N" by (simp add: div_mult2_eq)
    have n: "0 < ?N" using di(6) by (cases ?N) simp_all
    have "p = \<lparr>np_offset = [NODE_DIND_BLOCK f, b3 div (?D * ?N), b3 div ?D mod ?N, b3 mod ?D],
        np_noffset = [0, 5 + ?N * 2, 6 + ?N * 2 + (b3 div (?D * ?N)) * (?N + 1), 7 + ?N * 2 + (b3 div (?D * ?N)) * (?N + 1) + b3 div ?D mod ?N]\<rparr>"
      using p di by (simp add: get_node_path_def Let_def b1_def b2_def b3_def)
    then have e: "p = \<lparr>np_offset = [NODE_DIND_BLOCK f, b3 div ?D div ?N, b3 div ?D mod ?N, b3 mod ?D],
        np_noffset = [0, 5 + 2 * ?N, 6 + 2 * ?N + (b3 div ?D div ?N) * (?N + 1), 7 + 2 * ?N + (b3 div ?D div ?N) * (?N + 1) + b3 div ?D mod ?N]\<rparr>"
      unfolding d mult.commute [of ?N 2] .
    have "b = ?I + ?D * (2 + 2 * ?N + b3 div ?D) + b3 mod ?D" using di(1-5) split(1) [of b3] by (simp add: b1_def b2_def b3_def algebra_simps)
    moreover have "b3 div ?D = b3 div ?D div ?N * ?N + b3 div ?D mod ?N" by simp
    ultimately have "b = ?I + ?D * (2 + 2 * ?N + b3 div ?D div ?N * ?N + b3 div ?D mod ?N) + b3 mod ?D" by (simp add: add.assoc)
    moreover have "b3 div ?D div ?N < ?N" using di(6) by (simp add: d [symmetric] less_mult_imp_div_less mult.commute)
    moreover have "b3 div ?D mod ?N < ?N" using n by simp
    ultimately show thesis using dind split(2) e by blast
  qed
qed

text \<open>The number of blocks in front of a direct node.\<close>

lemma start_bidx_simps:
  assumes f: "fmt_ok f"
  shows "f2fs_start_bidx_of_node f 0 = 0" "f2fs_start_bidx_of_node f 1 = ADDRS_PER_INODE f"
    "f2fs_start_bidx_of_node f 2 = ADDRS_PER_INODE f + ADDRS_PER_BLOCK f"
    "o1 < NIDS_PER_BLOCK f \<Longrightarrow> f2fs_start_bidx_of_node f (4 + o1) = ADDRS_PER_INODE f + ADDRS_PER_BLOCK f * (2 + o1)"
    "o1 < NIDS_PER_BLOCK f \<Longrightarrow> f2fs_start_bidx_of_node f (5 + NIDS_PER_BLOCK f + o1) = ADDRS_PER_INODE f + ADDRS_PER_BLOCK f * (2 + NIDS_PER_BLOCK f + o1)"
    "o1 < NIDS_PER_BLOCK f \<Longrightarrow> o2 < NIDS_PER_BLOCK f \<Longrightarrow> f2fs_start_bidx_of_node f (7 + 2 * NIDS_PER_BLOCK f + o1 * (NIDS_PER_BLOCK f + 1) + o2)
       = ADDRS_PER_INODE f + ADDRS_PER_BLOCK f * (2 + 2 * NIDS_PER_BLOCK f + o1 * NIDS_PER_BLOCK f + o2)"
proof -
  let ?I = "ADDRS_PER_INODE f" and ?D = "ADDRS_PER_BLOCK f" and ?N = "NIDS_PER_BLOCK f"
  have M: "?I + ?D * (2 + 2 * ?N + ?N * ?N) < 4294967296" "0 < ?N" "0 < ?D" and X: "(?N + 2) * (?N + 2) + 6 < 4294967296"
    using f by (auto simp: fmt_ok_def path_blocks_def)
  have fits: "?D * c + ?I < 4294967296" if "c < 2 + 2 * ?N + ?N * ?N" for c
  proof -
    have "?D * c \<le> ?D * (2 + 2 * ?N + ?N * ?N)" using that by (intro mult_le_mono2) simp
    then show ?thesis using M(1) by linarith
  qed
  have N: "?N < 4294967296" "2 * ?N + 20 < 4294967296"
  proof -
    have "(?N + 2) * (?N + 2) = ?N * ?N + 4 * ?N + 4" by (simp add: algebra_simps)
    moreover have "?N \<le> ?N * ?N" using M(2) by simp
    ultimately show "?N < 4294967296" "2 * ?N + 20 < 4294967296" using X by linarith+
  qed
  show "f2fs_start_bidx_of_node f 0 = 0" by (simp add: f2fs_start_bidx_of_node_def)
  show "f2fs_start_bidx_of_node f 1 = ?I" using fits [of 0] by (simp add: f2fs_start_bidx_of_node_def)
  show "f2fs_start_bidx_of_node f 2 = ?I + ?D" using fits [of 1] by (simp add: f2fs_start_bidx_of_node_def add.commute)
  show "f2fs_start_bidx_of_node f (4 + o1) = ?I + ?D * (2 + o1)" if o: "o1 < ?N"
  proof -
    have "u32_sub (4 + o1) 4 = o1" "o1 div (?N + 1) = 0" "u32_sub (2 + o1) 0 = 2 + o1" using o N by simp_all
    moreover have "4 + o1 \<le> 2 * ?N + 4" using o by simp
    ultimately show ?thesis using fits [of "2 + o1"] o by (simp add: f2fs_start_bidx_of_node_def Let_def mult.commute add.commute)
  qed
  show "f2fs_start_bidx_of_node f (5 + ?N + o1) = ?I + ?D * (2 + ?N + o1)" if o: "o1 < ?N"
  proof -
    have "(?N + 1 + o1) div (?N + 1) = 1" by (rule div_nat_eqI) (use o in simp_all)
    moreover have "u32_sub (5 + ?N + o1) 4 = ?N + 1 + o1" "u32_sub (3 + (o1 + ?N)) (Suc 0) = 2 + ?N + o1" using o N by simp_all
    moreover have "5 + ?N + o1 \<le> 2 * ?N + 4" using o by simp
    ultimately show ?thesis using fits [of "2 + ?N + o1"] o by (simp add: f2fs_start_bidx_of_node_def Let_def mult.commute add.commute)
  qed
  show "f2fs_start_bidx_of_node f (7 + 2 * ?N + o1 * (?N + 1) + o2) = ?I + ?D * (2 + 2 * ?N + o1 * ?N + o2)" if o: "o1 < ?N" "o2 < ?N"
  proof -
    define k where "k = o1 * (?N + 1)"
    have "k \<le> (?N - 1) * (?N + 1)" unfolding k_def using o(1) by (intro mult_le_mono1) simp
    moreover have "(?N - 1) * (?N + 1) + 4 * ?N + 11 = (?N + 2) * (?N + 2) + 6" using M(2) by (cases ?N) (simp_all add: algebra_simps)
    ultimately have u: "7 + 2 * ?N + k + o2 < 4294967296" using X o(2) by linarith
    have "u32_sub (7 + 2 * ?N + k + o2) (2 * ?N + 4 + 3) = k + o2" using u by simp
    moreover have "(k + o2) div (?N + 1) = o1" by (rule div_nat_eqI) (use o(2) in \<open>simp_all add: k_def\<close>)
    moreover have "o1 \<le> k" by (simp add: k_def)
    then have "u32_sub (2 + 2 * ?N + k + o2) o1 = 2 + 2 * ?N + k + o2 - o1" using u by simp
    moreover have "2 + 2 * ?N + k + o2 - o1 = 2 + 2 * ?N + o1 * ?N + o2" by (simp add: k_def)
    moreover have "o1 * ?N + o2 < ?N * ?N"
    proof -
      have "o1 * ?N + o2 < (o1 + 1) * ?N" using o(2) by simp
      also have "\<dots> \<le> ?N * ?N" using o(1) by (intro mult_le_mono1) simp
      finally show ?thesis .
    qed
    then have "?D * (2 + 2 * ?N + o1 * ?N + o2) + ?I < 4294967296" by (intro fits) simp
    ultimately show ?thesis unfolding f2fs_start_bidx_of_node_def Let_def k_def [symmetric]
      by (simp add: mult.commute add.commute)
  qed
qed

text \<open>The path of a block beyond the inode in terms of the number of its direct node within its level.\<close>

lemma node_path_leaf1:
  assumes "j < 2" "o' < ADDRS_PER_BLOCK f"
  shows "get_node_path f (ADDRS_PER_INODE f + ADDRS_PER_BLOCK f * j + o')
    = Some \<lparr>np_offset = [NODE_DIR1_BLOCK f + j, o'], np_noffset = [0, 1 + j]\<rparr>"
proof -
  have "j = 0 \<or> j = 1" using assms(1) by auto
  then show ?thesis using assms(2) by (auto simp: get_node_path_def NODE_DIR2_BLOCK_def)
qed

lemma node_path_leaf2:
  assumes j: "j < 2 * NIDS_PER_BLOCK f" and o: "o' < ADDRS_PER_BLOCK f"
  shows "\<exists>ns. get_node_path f (ADDRS_PER_INODE f + ADDRS_PER_BLOCK f * (2 + j) + o')
    = Some \<lparr>np_offset = [NODE_IND1_BLOCK f + j div NIDS_PER_BLOCK f, j mod NIDS_PER_BLOCK f, o'], np_noffset = ns\<rparr>"
proof -
  let ?I = "ADDRS_PER_INODE f" and ?D = "ADDRS_PER_BLOCK f" and ?N = "NIDS_PER_BLOCK f"
  define b where "b = ?I + ?D * (2 + j) + o'"
  have b: "\<not> b < ?I" "\<not> b - ?I < ?D" "\<not> b - ?I - ?D < ?D" "b - ?I - ?D - ?D = ?D * j + o'" by (simp_all add: b_def algebra_simps)
  have d: "(?D * j' + o') div ?D = j'" "(?D * j' + o') mod ?D = o'" for j' using o by simp_all
  have lt: "?D * i + o' < ?D * ?N" if "i < ?N" for i
  proof -
    have "?D * i + o' < ?D * (i + 1)" using o by simp
    also have "\<dots> \<le> ?D * ?N" using that by (intro mult_le_mono2) simp
    finally show ?thesis .
  qed
  show ?thesis
  proof (cases "j < ?N")
    case True
    then show ?thesis using b lt [OF True] d [of j] unfolding get_node_path_def Let_def b_def [symmetric] by simp
  next
    case False
    then obtain i where i: "j = ?N + i" "i < ?N" using j by (metis add_less_cancel_left le_Suc_ex mult_2 not_less)
    have e: "b - ?I - ?D - ?D - ?D * ?N = ?D * i + o'" "\<not> ?D * j + o' < ?D * ?N" using b(4) by (simp_all add: i(1) algebra_simps)
    have m: "j div ?N = 1" "j mod ?N = i" using i by (simp_all add: div_nat_eqI)
    show ?thesis using b(1-3) e lt [OF i(2)] d [of i] m unfolding get_node_path_def Let_def b_def [symmetric] b(4)
      by (simp add: NODE_IND1_BLOCK_def NODE_IND2_BLOCK_def i(1) algebra_simps)
  qed
qed

lemma node_path_leaf3:
  assumes j: "j < NIDS_PER_BLOCK f * NIDS_PER_BLOCK f" and o: "o' < ADDRS_PER_BLOCK f"
  shows "\<exists>ns. get_node_path f (ADDRS_PER_INODE f + ADDRS_PER_BLOCK f * (2 + 2 * NIDS_PER_BLOCK f + j) + o')
    = Some \<lparr>np_offset = [NODE_DIND_BLOCK f, j div NIDS_PER_BLOCK f, j mod NIDS_PER_BLOCK f, o'], np_noffset = ns\<rparr>"
proof -
  let ?I = "ADDRS_PER_INODE f" and ?D = "ADDRS_PER_BLOCK f" and ?N = "NIDS_PER_BLOCK f"
  define b where "b = ?I + ?D * (2 + 2 * ?N + j) + o'"
  define b1 where "b1 = b - ?I - ?D - ?D"
  define b3 where "b3 = b1 - ?D * ?N - ?D * ?N"
  have b: "\<not> b < ?I" "\<not> b - ?I < ?D" "\<not> b - ?I - ?D < ?D" "\<not> b1 < ?D * ?N" "\<not> b1 - ?D * ?N < ?D * ?N" "b3 = ?D * j + o'"
    by (simp_all add: b_def b1_def b3_def algebra_simps)
  have "?D * j + o' < ?D * (j + 1)" using o by simp
  also have "\<dots> \<le> ?D * (?N * ?N)" using j by (intro mult_le_mono2) simp
  finally have lt: "b3 < ?D * ?N * ?N" by (simp add: b(6) mult.assoc)
  have q: "b3 div ?D = j" "b3 mod ?D = o'" unfolding b(6) using o by simp_all
  have "b3 div (?D * ?N) = j div ?N" by (simp add: div_mult2_eq q(1))
  then show ?thesis using b(1-5) lt q unfolding get_node_path_def Let_def b_def [symmetric] b1_def [symmetric] b3_def [symmetric] by simp
qed

definition fmt_4k :: node_fmt where
  "fmt_4k = \<lparr>ADDRS_PER_INODE = 923, ADDRS_PER_BLOCK = 1018, NIDS_PER_BLOCK = 1018, NODE_DIR1_BLOCK = 924, XATTR_NODE_OFFSET = 536870911\<rparr>"

lemma fmt_4k_ok: "fmt_ok fmt_4k"
  by (simp add: fmt_ok_def path_blocks_def fmt_4k_def)

lemma fmt_ok_posD: "fmt_ok f \<Longrightarrow> 0 < ADDRS_PER_BLOCK f" "fmt_ok f \<Longrightarrow> 0 < NIDS_PER_BLOCK f"
  by (simp_all add: fmt_ok_def)

lemma node_path_bound: "get_node_path f b = None \<longleftrightarrow> path_blocks f \<le> b"
proof -
  have e: "path_blocks f = ADDRS_PER_INODE f + ADDRS_PER_BLOCK f + ADDRS_PER_BLOCK f + ADDRS_PER_BLOCK f * NIDS_PER_BLOCK f
      + ADDRS_PER_BLOCK f * NIDS_PER_BLOCK f + ADDRS_PER_BLOCK f * NIDS_PER_BLOCK f * NIDS_PER_BLOCK f"
    by (simp add: path_blocks_def algebra_simps)
  show ?thesis unfolding get_node_path_def Let_def e by (auto simp: not_less)
qed

lemma path_roundtrip:
  assumes f: "fmt_ok f" and p: "get_node_path f b = Some p"
  shows "f2fs_start_bidx_of_node f (last (np_noffset p)) + last (np_offset p) = b"
  using p fmt_ok_posD(1) [OF f]
  by (cases rule: node_path_cases) (simp_all add: start_bidx_simps [OF f] del: One_nat_def mult_Suc_right)

text \<open>
  C38. The block a path leads to is the block the path was built for: the number of the last node gives the first block of
  this node, and the offset in it the block, for every block a file can have and with the 32-bit arithmetic of the code.
\<close>

theorem node_path_roundtrip:
  assumes "fmt_ok f" "get_node_path f b = Some p"
  shows "f2fs_start_bidx_of_node f (last (np_noffset p)) + last (np_offset p) = b
    \<and> (get_node_path f b' = Some p \<longrightarrow> b' = b)"
  using path_roundtrip [OF assms] path_roundtrip [OF assms(1)] by blast

lemma path_4k: "get_node_path fmt_4k 3000000 = Some \<lparr>np_offset = [928, 0, 908, 49], np_noffset = [0, 2041, 2042, 2951]\<rparr>"
  by (simp add: get_node_path_def fmt_4k_def NODE_DIND_BLOCK_def)

theorem node_path_roundtrip_witness:
  "fmt_ok fmt_4k \<and> f2fs_start_bidx_of_node fmt_4k 2951 + 49 = 3000000"
  using node_path_roundtrip [OF fmt_4k_ok path_4k] fmt_4k_ok by simp

lemma dnode_simps:
  assumes f: "fmt_ok f"
  shows "IS_DNODE f 0" "IS_DNODE f 1" "IS_DNODE f 2" "\<not> IS_DNODE f 3" "\<not> IS_DNODE f (4 + NIDS_PER_BLOCK f)" "\<not> IS_DNODE f (5 + 2 * NIDS_PER_BLOCK f)"
    "o1 < NIDS_PER_BLOCK f \<Longrightarrow> IS_DNODE f (4 + o1)" "o1 < NIDS_PER_BLOCK f \<Longrightarrow> IS_DNODE f (5 + NIDS_PER_BLOCK f + o1)"
    "o1 < NIDS_PER_BLOCK f \<Longrightarrow> \<not> IS_DNODE f (6 + 2 * NIDS_PER_BLOCK f + o1 * (NIDS_PER_BLOCK f + 1))"
    "o1 < NIDS_PER_BLOCK f \<Longrightarrow> o2 < NIDS_PER_BLOCK f \<Longrightarrow> IS_DNODE f (7 + 2 * NIDS_PER_BLOCK f + o1 * (NIDS_PER_BLOCK f + 1) + o2)"
proof -
  let ?N = "NIDS_PER_BLOCK f" and ?X = "XATTR_NODE_OFFSET f"
  have N: "0 < ?N" using f by (rule fmt_ok_posD)
  have "?N * ?N + 4 * ?N + 10 < ?X" using f by (simp add: fmt_ok_def algebra_simps)
  moreover have "?N \<le> ?N * ?N" using N by simp
  ultimately have X: "5 * ?N + 10 < ?X" "?N * ?N + 4 * ?N + 10 < ?X" by linarith+
  show "IS_DNODE f 0" "IS_DNODE f 1" "IS_DNODE f 2" "\<not> IS_DNODE f 3" "\<not> IS_DNODE f (4 + ?N)" "\<not> IS_DNODE f (5 + 2 * ?N)"
    using X by (simp_all add: IS_DNODE_def)
  show "IS_DNODE f (4 + o1)" "IS_DNODE f (5 + ?N + o1)" if "o1 < ?N" using that X by (simp_all add: IS_DNODE_def)
  have k: "o1 * (?N + 1) \<le> ?N * ?N" if "o1 < ?N"
  proof -
    have "o1 * (?N + 1) \<le> (?N - 1) * (?N + 1)" using that by (intro mult_le_mono1) simp
    also have "\<dots> \<le> ?N * ?N" using N by (cases ?N) simp_all
    finally show ?thesis .
  qed
  show "\<not> IS_DNODE f (6 + 2 * ?N + o1 * (?N + 1))" if "o1 < ?N"
    using k [OF that] X by (simp add: IS_DNODE_def del: mult_Suc_right add_mult_distrib2 mult_Suc)
  show "IS_DNODE f (7 + 2 * ?N + o1 * (?N + 1) + o2)" if o: "o1 < ?N" "o2 < ?N"
  proof -
    have "(1 + o1 * (?N + 1) + o2) mod (?N + 1) = 1 + o2" using o(2) mod_mult_self1 [of "1 + o2" o1 "?N + 1"] by (simp add: ac_simps)
    then show ?thesis using k [OF o(1)] o(2) X by (simp add: IS_DNODE_def ac_simps)
  qed
qed

definition path_ok :: "node_fmt \<Rightarrow> node_path \<Rightarrow> bool" where
  "path_ok f p \<longleftrightarrow> np_level p \<le> 3 \<and> length (np_noffset p) = np_level p + 1 \<and> length (np_offset p) = np_level p + 1
     \<and> np_noffset p ! 0 = 0 \<and> IS_DNODE f (np_noffset p ! np_level p)
     \<and> (\<forall>i < np_level p. 0 < i \<longrightarrow> \<not> IS_DNODE f (np_noffset p ! i) \<and> np_offset p ! i < NIDS_PER_BLOCK f)
     \<and> (if np_level p = 0 then np_offset p ! 0 < ADDRS_PER_INODE f
        else NODE_DIR1_BLOCK f \<le> np_offset p ! 0 \<and> np_offset p ! 0 \<le> NODE_DIR1_BLOCK f + 4
          \<and> np_offset p ! np_level p < ADDRS_PER_BLOCK f)"

text \<open>
  C39. A path is well formed: it leads from the inode (number 0) through at most three nodes; the nodes in between are
  indirect nodes and the last one is a direct node by \<open>IS_DNODE\<close>; every offset lies in its node, and the first one in the
  inode's own addresses or its five node ids. Exactly the blocks from \<open>path_blocks\<close> on have no path (\<open>-E2BIG\<close>), and a file
  within the super block's limit always has one.
\<close>

theorem node_path_wellformed:
  assumes f: "fmt_ok f"
  shows "(get_node_path f b = None \<longleftrightarrow> path_blocks f \<le> b) \<and> (b < max_file_blocks f \<longrightarrow> get_node_path f b \<noteq> None)
    \<and> (\<forall>p. get_node_path f b = Some p \<longrightarrow> path_ok f p)"
proof (intro conjI allI impI)
  show "get_node_path f b = None \<longleftrightarrow> path_blocks f \<le> b" by (rule node_path_bound)
  show "get_node_path f b \<noteq> None" if "b < max_file_blocks f"
    using that by (simp add: node_path_bound path_blocks_def max_file_blocks_def Let_def algebra_simps)
next
  fix p
  assume "get_node_path f b = Some p"
  then show "path_ok f p" using fmt_ok_posD(1) [OF f]
    by (cases rule: node_path_cases)
       (use dnode_simps [OF f] in \<open>auto simp: path_ok_def np_level_def less_Suc_eq
          NODE_DIR2_BLOCK_def NODE_IND1_BLOCK_def NODE_IND2_BLOCK_def NODE_DIND_BLOCK_def\<close>)
qed

theorem node_path_wellformed_witness:
  "fmt_ok fmt_4k \<and> path_ok fmt_4k \<lparr>np_offset = [928, 0, 908, 49], np_noffset = [0, 2041, 2042, 2951]\<rparr> \<and> get_node_path fmt_4k 1057053955 = None"
  using node_path_wellformed [OF fmt_4k_ok, of 3000000] node_path_wellformed [OF fmt_4k_ok, of 1057053955] fmt_4k_ok path_4k
  by (simp add: path_blocks_def fmt_4k_def)

subsection \<open>Skipping a missing node\<close>

lemma next_unit:
  fixes j m :: nat
  assumes "0 < m"
  shows "j < (j div m + 1) * m"
  using mod_less_divisor [OF assms, of j] div_mult_mod_eq [of j m] by (simp only: add_mult_distrib mult_1)

lemma same_unit:
  fixes j m :: nat
  assumes "j \<le> j'" "j' < (j div m + 1) * m"
  shows "j' div m = j div m"
proof (rule div_nat_eqI)
  have "m * (j div m) \<le> j" by simp
  then show "m * (j div m) \<le> j'" using assms(1) by (rule order_trans)
  show "j' < m * Suc (j div m)" using assms(2) by (simp add: mult.commute)
qed

text \<open>The first offsets of a path in terms of the number of its direct node within its level.\<close>

definition level_base :: "node_fmt \<Rightarrow> nat \<Rightarrow> nat" where
  "level_base f l = (if l = 1 then 0 else if l = 2 then 2 else 2 + 2 * NIDS_PER_BLOCK f)"

definition level_size :: "node_fmt \<Rightarrow> nat \<Rightarrow> nat" where
  "level_size f l = (if l = 1 then 2 else if l = 2 then 2 * NIDS_PER_BLOCK f else NIDS_PER_BLOCK f * NIDS_PER_BLOCK f)"

definition leaf_offsets :: "node_fmt \<Rightarrow> nat \<Rightarrow> nat \<Rightarrow> nat list" where
  "leaf_offsets f l j = (if l = 1 then [NODE_DIR1_BLOCK f + j]
     else if l = 2 then [NODE_IND1_BLOCK f + j div NIDS_PER_BLOCK f, j mod NIDS_PER_BLOCK f]
     else [NODE_DIND_BLOCK f, j div NIDS_PER_BLOCK f, j mod NIDS_PER_BLOCK f])"

lemma node_path_leaf:
  assumes "l \<in> {1, 2, 3}" "j < level_size f l" "o' < ADDRS_PER_BLOCK f"
  shows "\<exists>ns. get_node_path f (ADDRS_PER_INODE f + ADDRS_PER_BLOCK f * (level_base f l + j) + o')
    = Some \<lparr>np_offset = leaf_offsets f l j @ [o'], np_noffset = ns\<rparr>"
  using assms node_path_leaf1 [of j o' f] node_path_leaf2 [of j f o'] node_path_leaf3 [of j f o']
  by (auto simp: level_base_def level_size_def leaf_offsets_def)

lemma node_path_leafE:
  assumes p: "get_node_path f b = Some p" and D: "0 < ADDRS_PER_BLOCK f" and l: "np_level p \<noteq> 0"
  obtains j o' where "np_level p \<in> {1, 2, 3}" "j < level_size f (np_level p)" "o' < ADDRS_PER_BLOCK f"
    "b = ADDRS_PER_INODE f + ADDRS_PER_BLOCK f * (level_base f (np_level p) + j) + o'" "np_offset p = leaf_offsets f (np_level p) j @ [o']"
  using p D
proof (cases rule: node_path_cases)
  case inode
  then show thesis using l by (simp add: np_level_def)
next
  case (dir1 o1)
  then show thesis using that [of 0 o1] by (simp add: np_level_def level_base_def level_size_def leaf_offsets_def)
next
  case (dir2 o1)
  then show thesis using that [of 1 o1] by (simp add: np_level_def level_base_def level_size_def leaf_offsets_def NODE_DIR2_BLOCK_def)
next
  case (ind1 o1 o2)
  then show thesis using that [of o1 o2] by (simp add: np_level_def level_base_def level_size_def leaf_offsets_def)
next
  case (ind2 o1 o2)
  moreover from ind2(2) have "(NIDS_PER_BLOCK f + o1) div NIDS_PER_BLOCK f = 1" by (simp add: div_nat_eqI)
  ultimately show thesis using that [of "NIDS_PER_BLOCK f + o1" o2]
    by (simp add: np_level_def level_base_def level_size_def leaf_offsets_def NODE_IND1_BLOCK_def NODE_IND2_BLOCK_def add.assoc)
next
  case (dind o1 o2 o3)
  have "o1 * NIDS_PER_BLOCK f + o2 < (o1 + 1) * NIDS_PER_BLOCK f" using dind(3) by simp
  also have "\<dots> \<le> NIDS_PER_BLOCK f * NIDS_PER_BLOCK f" using dind(2) by (intro mult_le_mono1) simp
  finally show thesis using that [of "o1 * NIDS_PER_BLOCK f + o2" o3] dind
    by (simp add: np_level_def level_base_def level_size_def leaf_offsets_def add.assoc)
qed

text \<open>Two direct nodes of a level share the first \<open>c\<close> nodes of their way exactly if they lie in the same unit.\<close>

lemma take_leaf_offsets:
  assumes "l \<in> {1, 2, 3}" "1 \<le> c" "c \<le> l" "j < level_size f l" "j' < level_size f l"
  shows "take c (leaf_offsets f l j) = take c (leaf_offsets f l j') \<longleftrightarrow> j div NIDS_PER_BLOCK f ^ (l - c) = j' div NIDS_PER_BLOCK f ^ (l - c)"
proof -
  let ?N = "NIDS_PER_BLOCK f"
  have eq: "j = j' \<longleftrightarrow> j div ?N = j' div ?N \<and> j mod ?N = j' mod ?N" by (metis div_mult_mod_eq)
  consider "l = 1" "c = 1" | "l = 2" "c = 1" | "l = 2" "c = 2" | "l = 3" "c = 1" | "l = 3" "c = 2" | "l = 3" "c = 3"
    using assms(1-3) by (cases "c = 1"; cases "c = 2"; cases "c = 3") auto
  then show ?thesis
  proof cases
    case 4
    have "j div ?N ^ 2 = 0" "j' div ?N ^ 2 = 0" using assms(4,5) 4 by (simp_all add: level_size_def power2_eq_square)
    then show ?thesis using 4 by (simp add: leaf_offsets_def)
  qed (use eq in \<open>simp_all add: leaf_offsets_def numeral_2_eq_2 numeral_3_eq_3\<close>)
qed

lemma leaf_offsets_level:
  assumes "l \<in> {1, 2, 3}" "l' \<in> {1, 2, 3}" "l \<noteq> l'" "j < level_size f l" "j' < level_size f l'" "1 \<le> c"
  shows "take c (leaf_offsets f l j @ xs) \<noteq> take c (leaf_offsets f l' j' @ ys)"
proof -
  have "a div n < 2" if "a < 2 * n" for a n :: nat using that by (simp add: less_mult_imp_div_less)
  then have "hd (leaf_offsets f l j) \<noteq> hd (leaf_offsets f l' j')" using assms(1-5)
    by (auto simp: leaf_offsets_def level_size_def NODE_IND1_BLOCK_def NODE_DIND_BLOCK_def) (metis Suc_1 add_less_cancel_left nat_neq_iff not_add_less1)+
  moreover have "leaf_offsets f l j \<noteq> []" "leaf_offsets f l' j' \<noteq> []" by (simp_all add: leaf_offsets_def)
  ultimately show ?thesis using assms(6) by (cases "leaf_offsets f l j"; cases "leaf_offsets f l' j'"; cases c) auto
qed

lemma next_page_offset_leaf:
  assumes f: "fmt_ok f" and l: "l \<in> {1, 2, 3}" and c: "1 \<le> c" "c \<le> l" and o: "o' < ADDRS_PER_BLOCK f"
  defines "m \<equiv> NIDS_PER_BLOCK f ^ (l - c)"
  shows "f2fs_get_next_page_offset f c l (ADDRS_PER_INODE f + ADDRS_PER_BLOCK f * (level_base f l + j) + o')
    = ADDRS_PER_INODE f + ADDRS_PER_BLOCK f * (level_base f l + (j div m + 1) * m)"
proof -
  let ?I = "ADDRS_PER_INODE f" and ?D = "ADDRS_PER_BLOCK f" and ?N = "NIDS_PER_BLOCK f"
  define base where "base = (if l = 3 then 2 * (?D * ?N) else 0) + (if l = 3 \<or> l = 2 then 2 * ?D else 0) + (if 1 \<le> l \<and> l \<le> 3 then ?I else 0)"
  have base: "base = ?I + ?D * level_base f l" using l by (auto simp: base_def level_base_def algebra_simps)
  have "m \<le> ?N ^ 2" unfolding m_def using l c fmt_ok_posD(2) [OF f] by (intro power_increasing) auto
  then have "?D * m \<le> ?D * (?N * ?N)" by (simp add: power2_eq_square)
  also have "\<dots> \<le> ?D * (2 + 2 * ?N + ?N * ?N)" by (intro mult_le_mono2) simp
  finally have u: "u32_wrap (?D * m) = ?D * m" using f by (simp add: fmt_ok_def path_blocks_def)
  have "(?D * j + o') div (?D * m) = j div m" using o by (simp add: div_mult2_eq)
  moreover have "?I + ?D * (level_base f l + j) + o' - base = ?D * j + o'" by (simp add: base algebra_simps)
  moreover have "l \<noteq> 0" using l by auto
  ultimately show ?thesis unfolding f2fs_get_next_page_offset_def Let_def base_def [symmetric] m_def [symmetric] u
    by (simp add: base algebra_simps)
qed

lemma level_size_unit:
  assumes "l \<in> {1, 2, 3}" "1 \<le> c" "c \<le> l"
  obtains q where "level_size f l = q * NIDS_PER_BLOCK f ^ (l - c)"
proof -
  consider "l = 1" "c = 1" | "l = 2" "c = 1" | "l = 2" "c = 2" | "l = 3" "c = 1" | "l = 3" "c = 2" | "l = 3" "c = 3"
    using assms by (cases "c = 1"; cases "c = 2"; cases "c = 3") auto
  then show thesis by cases (use that [of 2] that [of "NIDS_PER_BLOCK f"] that in \<open>auto simp: level_size_def numeral_2_eq_2 numeral_3_eq_3\<close>)
qed

lemma length_leaf_offsets: "l \<in> {1, 2, 3} \<Longrightarrow> length (leaf_offsets f l j) = l"
  by (auto simp: leaf_offsets_def)

text \<open>The blocks up to the end of the unit lead through the same node, the first block after it does not.\<close>

lemma unit_path_same:
  assumes D: "0 < ADDRS_PER_BLOCK f" "0 < NIDS_PER_BLOCK f" and l: "l \<in> {1, 2, 3}" and c: "1 \<le> c" "c \<le> l" and j: "j < level_size f l" and o: "o' < ADDRS_PER_BLOCK f"
  defines "m \<equiv> NIDS_PER_BLOCK f ^ (l - c)"
  assumes b': "ADDRS_PER_INODE f + ADDRS_PER_BLOCK f * (level_base f l + j) + o' \<le> b'"
    "b' < ADDRS_PER_INODE f + ADDRS_PER_BLOCK f * (level_base f l + (j div m + 1) * m)"
  shows "\<exists>p'. get_node_path f b' = Some p' \<and> np_level p' = l \<and> take c (np_offset p') = take c (leaf_offsets f l j)"
proof -
  let ?I = "ADDRS_PER_INODE f" and ?D = "ADDRS_PER_BLOCK f"
  define r where "r = b' - (?I + ?D * level_base f l)"
  define j' where "j' = r div ?D"
  have e: "b' = ?I + ?D * level_base f l + r" using b'(1) by (simp add: r_def algebra_simps)
  moreover have "r = ?D * j' + r mod ?D" by (simp add: j'_def)
  ultimately have r: "b' = ?I + ?D * (level_base f l + j') + r mod ?D" by (simp add: algebra_simps)
  have "?D * j + o' \<le> r" using b'(1) e by (simp add: algebra_simps)
  then have lo: "j \<le> j'" using div_le_mono [of "?D * j + o'" r ?D] o by (simp add: j'_def)
  have "r < ?D * ((j div m + 1) * m)" using b'(2) e by (simp add: algebra_simps)
  then have hi: "j' < (j div m + 1) * m" unfolding j'_def by (metis less_mult_imp_div_less mult.commute)
  obtain q where q: "level_size f l = q * m" using level_size_unit [OF l c] unfolding m_def .
  have "j div m < q" using j q by (simp add: less_mult_imp_div_less)
  then have "(j div m + 1) * m \<le> q * m" by (intro mult_le_mono1) simp
  then have j': "j' < level_size f l" using hi q by simp
  obtain ns where "get_node_path f b' = Some \<lparr>np_offset = leaf_offsets f l j' @ [r mod ?D], np_noffset = ns\<rparr>"
    unfolding r using node_path_leaf [OF l j', of "r mod ?D"] D(1) by auto
  moreover have "take c (leaf_offsets f l j') = take c (leaf_offsets f l j)"
    using take_leaf_offsets [OF l c j' j] same_unit [OF lo hi] by (simp add: m_def)
  ultimately show ?thesis using c(2) by (simp add: np_level_def length_leaf_offsets [OF l])
qed

lemma unit_path_next:
  assumes D: "0 < ADDRS_PER_BLOCK f" "0 < NIDS_PER_BLOCK f" and l: "l \<in> {1, 2, 3}" and c: "1 \<le> c" "c \<le> l" and j: "j < level_size f l"
  defines "m \<equiv> NIDS_PER_BLOCK f ^ (l - c)"
  assumes p: "get_node_path f (ADDRS_PER_INODE f + ADDRS_PER_BLOCK f * (level_base f l + (j div m + 1) * m)) = Some p'"
  shows "take c (np_offset p') \<noteq> take c (leaf_offsets f l j)"
proof -
  let ?I = "ADDRS_PER_INODE f" and ?D = "ADDRS_PER_BLOCK f"
  have l0: "np_level p' \<noteq> 0" using p D(1) by (cases rule: node_path_cases) (simp_all add: np_level_def)
  obtain j' o'' where l': "np_level p' \<in> {1, 2, 3}" "j' < level_size f (np_level p')" "o'' < ?D"
      "?I + ?D * (level_base f l + (j div m + 1) * m) = ?I + ?D * (level_base f (np_level p') + j') + o''"
    and po': "np_offset p' = leaf_offsets f (np_level p') j' @ [o'']"
    by (rule node_path_leafE [OF p D(1) l0])
  show ?thesis
  proof (cases "np_level p' = l")
    case True
    have "(level_base f l + (j div m + 1) * m) = (?D * (level_base f l + (j div m + 1) * m)) div ?D" using D(1) by simp
    also have "\<dots> = (?D * (level_base f l + j') + o'') div ?D" using l'(4) True by simp
    also have "\<dots> = level_base f l + j'" using l'(3) by simp
    finally have "j' = (j div m + 1) * m" by simp
    then have "j' div m \<noteq> j div m" using D(2) by (simp add: m_def)
    then show ?thesis using take_leaf_offsets [OF l c _ j, of j'] l'(2) True po' c(2) by (simp add: m_def length_leaf_offsets [OF l])
  next
    case False
    then show ?thesis using leaf_offsets_level [OF l'(1) l False l'(2) j c(1), of "[o'']" "[]"] by (simp add: po')
  qed
qed

text \<open>
  C40. Where the node at level \<open>cur_level\<close> of the way to a block is missing, \<open>f2fs_get_next_page_offset\<close> skips exactly the
  blocks under this node: it returns a later block, every block before it leads through the same missing node, and the block
  returned, if the file can have it, does not.
\<close>

theorem f2fs_get_next_page_offset_correct:
  assumes f: "fmt_ok f" and p: "get_node_path f b = Some p" and c: "1 \<le> c" "c \<le> np_level p"
  defines "n \<equiv> f2fs_get_next_page_offset f c (np_level p) b"
  shows "b < n \<and> (\<forall>b'. b \<le> b' \<and> b' < n \<longrightarrow> (\<exists>p'. get_node_path f b' = Some p' \<and> np_level p' = np_level p \<and> take c (np_offset p') = take c (np_offset p)))
    \<and> (\<forall>p'. get_node_path f n = Some p' \<longrightarrow> take c (np_offset p') \<noteq> take c (np_offset p))"
proof -
  let ?I = "ADDRS_PER_INODE f" and ?D = "ADDRS_PER_BLOCK f" and ?N = "NIDS_PER_BLOCK f"
  define l where "l = np_level p"
  define m where "m = ?N ^ (l - c)"
  have D: "0 < ?D" "0 < ?N" "0 < m" using fmt_ok_posD [OF f] by (simp_all add: m_def)
  have "np_level p \<noteq> 0" using c by simp
  with p D(1) obtain j o' where l: "l \<in> {1, 2, 3}" and j: "j < level_size f l" and o: "o' < ?D"
    and b: "b = ?I + ?D * (level_base f l + j) + o'" and po: "np_offset p = leaf_offsets f l j @ [o']"
    unfolding l_def by (rule node_path_leafE)
  have cl: "1 \<le> c" "c \<le> l" using c by (simp_all add: l_def)
  have tk: "take c (np_offset p) = take c (leaf_offsets f l j)" using cl by (simp add: po length_leaf_offsets [OF l])
  have n: "n = ?I + ?D * (level_base f l + (j div m + 1) * m)"
    unfolding n_def l_def [symmetric] b m_def by (rule next_page_offset_leaf [OF f l cl o])
  have "?D * j + o' < ?D * (j + 1)" using o by simp
  also have "\<dots> \<le> ?D * ((j div m + 1) * m)" using next_unit [OF D(3), of j] by (intro mult_le_mono2) simp
  finally have "b < n" by (simp add: b n algebra_simps)
  then show ?thesis
    using unit_path_same [OF D(1,2) l cl j o] unit_path_next [OF D(1,2) l cl j]
    unfolding tk n b m_def l_def [symmetric] by blast
qed

theorem f2fs_get_next_page_offset_correct_witness:
  "fmt_ok fmt_4k \<and> f2fs_get_next_page_offset fmt_4k 2 3 3000000 = 3111931
    \<and> (\<exists>p'. get_node_path fmt_4k 3111930 = Some p' \<and> take 2 (np_offset p') = [928, 0])"
proof -
  have n: "f2fs_get_next_page_offset fmt_4k 2 3 3000000 = 3111931" by (simp add: f2fs_get_next_page_offset_def fmt_4k_def Let_def)
  let ?p = "\<lparr>np_offset = [928, 0, 908, 49], np_noffset = [0, 2041, 2042, 2951]\<rparr>"
  have l: "np_level ?p = 3" by (simp add: np_level_def)
  have "\<forall>b'. 3000000 \<le> b' \<and> b' < 3111931 \<longrightarrow> (\<exists>p'. get_node_path fmt_4k b' = Some p' \<and> np_level p' = 3 \<and> take 2 (np_offset p') = [928, 0])"
    using f2fs_get_next_page_offset_correct [OF fmt_4k_ok path_4k, of 2] n by (simp add: l)
  from this [rule_format, of 3111930] show ?thesis using n fmt_4k_ok by auto
qed

end
