(* ===== verification/Nat_Table.thy ===== *)
theory Nat_Table
  imports Sit
begin

text \<open>
  The node address table (NAT), from \<open>src/node.c\<close>, \<open>src/node.h\<close> and the journal helpers of \<open>src/f2fs.h\<close> and
  \<open>src/segment.c\<close>: the cache of table entries, the journal in the summary of the hot data log, the table
  blocks on the medium in two copies, and the free node ids. Locks are left out: the operations here are
  the bodies the code runs under \<open>nat_tree_lock\<close>, \<open>journal_rwsem\<close> and \<open>nid_list_lock\<close>. The sizes of the disk format are a
  record; reading a block of the table succeeds.
\<close>

record nat_fmt =
  nf_disk :: disk_fmt
  NAT_ENTRY_PER_BLOCK :: nat
  NAT_JOURNAL_ENTRIES :: nat
  ROOT_INO :: nat

subsection \<open>Entries\<close>

record f2fs_nat_entry =
  raw_ino :: nat
  raw_block_addr :: nat
  raw_version :: u8

record node_info =
  ni_ino :: nat
  ni_blk_addr :: nat
  ni_version :: u8
  ni_flag :: u8

abbreviation (input) IS_CHECKPOINTED :: nat where "IS_CHECKPOINTED \<equiv> 0"
abbreviation (input) HAS_FSYNCED_INODE :: nat where "HAS_FSYNCED_INODE \<equiv> 1"
abbreviation (input) HAS_LAST_FSYNC :: nat where "HAS_LAST_FSYNC \<equiv> 2"
abbreviation (input) IS_DIRTY :: nat where "IS_DIRTY \<equiv> 3"
abbreviation (input) IS_PREALLOC :: nat where "IS_PREALLOC \<equiv> 4"

definition set_nat_flag :: "node_info \<Rightarrow> nat \<Rightarrow> bool \<Rightarrow> node_info" where
  "set_nat_flag ne t b =
     (let mask = push_bit t 1 in ne\<lparr>ni_flag := (if b then ni_flag ne OR mask else ni_flag ne AND NOT mask)\<rparr>)"

definition get_nat_flag :: "node_info \<Rightarrow> nat \<Rightarrow> bool" where
  "get_nat_flag ne t \<longleftrightarrow> ni_flag ne AND push_bit t 1 \<noteq> 0"

definition nat_reset_flag :: "node_info \<Rightarrow> node_info" where
  "nat_reset_flag ne = set_nat_flag (set_nat_flag (set_nat_flag ne IS_CHECKPOINTED True) HAS_FSYNCED_INODE False) HAS_LAST_FSYNC True"

definition copy_node_info :: "node_info \<Rightarrow> node_info \<Rightarrow> node_info" where
  "copy_node_info dst src = dst\<lparr>ni_ino := ni_ino src, ni_blk_addr := ni_blk_addr src, ni_version := ni_version src\<rparr>"

definition node_info_from_raw_nat :: "node_info \<Rightarrow> f2fs_nat_entry \<Rightarrow> node_info" where
  "node_info_from_raw_nat ni raw = ni\<lparr>ni_ino := raw_ino raw, ni_blk_addr := raw_block_addr raw, ni_version := raw_version raw\<rparr>"

definition raw_nat_from_node_info :: "node_info \<Rightarrow> f2fs_nat_entry" where
  "raw_nat_from_node_info ni = \<lparr>raw_ino = ni_ino ni, raw_block_addr = ni_blk_addr ni, raw_version = ni_version ni\<rparr>"

subsection \<open>The node manager\<close>

datatype nid_state = FREE_NID | PREALLOC_NID

record nat_entry_set =
  entry_list :: "nat list"
  entry_cnt :: u32

text \<open>
  The radix trees are maps, the lists hold node ids. A cached entry is linked into at most one list: the clean list or
  the list of its set. The NAT journal is the list of its used slots. \<open>nat_blk\<close> is the NAT area, by block address.
\<close>

record nm_info =
  nat_blkaddr :: nat
  max_nid :: nat
  nat_blocks :: nat
  available_nids :: u32
  next_scan_nid :: nat
  nat_root :: "nat \<rightharpoonup> node_info"
  nat_set_root :: "nat \<rightharpoonup> nat_entry_set"
  nat_entries :: "nat list"
  nat_cnt :: u32
  dirty_nat_cnt :: u32
  free_nid_root :: "nat \<rightharpoonup> nid_state"
  free_nid_list :: "nat list"
  nid_cnt :: "nid_state \<Rightarrow> u32"
  free_nid_bitmap :: "nat \<Rightarrow> bitmap"
  nat_block_bitmap :: bitmap
  free_nid_count :: "nat \<Rightarrow> u16"
  nat_bitmap :: bitmap
  full_nat_bits :: bitmap
  empty_nat_bits :: bitmap
  nat_journal :: "(nat \<times> f2fs_nat_entry) list"
  nat_blk :: "nat \<Rightarrow> nat \<Rightarrow> f2fs_nat_entry"
  nm_fsck :: bool

definition nm_bug_on :: "bool \<Rightarrow> nm_info \<Rightarrow> nm_info" where
  "nm_bug_on c nm = (if c then nm\<lparr>nm_fsck := True\<rparr> else nm)"

definition START_NID :: "nat_fmt \<Rightarrow> nat \<Rightarrow> nat" where
  "START_NID f nid = nid div NAT_ENTRY_PER_BLOCK f * NAT_ENTRY_PER_BLOCK f"

definition NAT_BLOCK_OFFSET :: "nat_fmt \<Rightarrow> nat \<Rightarrow> nat" where
  "NAT_BLOCK_OFFSET f nid = nid div NAT_ENTRY_PER_BLOCK f"

definition f2fs_check_nid_range :: "nat_fmt \<Rightarrow> nm_info \<Rightarrow> nat \<Rightarrow> bool \<times> nm_info" where
  "f2fs_check_nid_range f nm nid =
     (if nid < ROOT_INO f \<or> nid \<ge> max_nid nm then (True, nm\<lparr>nm_fsck := True\<rparr>) else (False, nm))"

subsection \<open>The two copies of a table block\<close>

definition current_nat_addr :: "nat_fmt \<Rightarrow> f2fs_geo \<Rightarrow> nm_info \<Rightarrow> nat \<Rightarrow> nat" where
  "current_nat_addr f g nm start =
     (let block_off = NAT_BLOCK_OFFSET f start;
          block_addr = nat_blkaddr nm + push_bit 1 block_off - (block_off AND (blocks_per_seg g - 1))
      in if nat_bitmap nm block_off then block_addr + blocks_per_seg g else block_addr)"

definition next_nat_addr :: "f2fs_geo \<Rightarrow> nm_info \<Rightarrow> nat \<Rightarrow> nat" where
  "next_nat_addr g nm block_addr = ((block_addr - nat_blkaddr nm) XOR push_bit (log_blocks_per_seg g) 1) + nat_blkaddr nm"

definition set_to_next_nat :: "nat_fmt \<Rightarrow> nm_info \<Rightarrow> nat \<Rightarrow> nm_info" where
  "set_to_next_nat f nm start_nid =
     (let block_off = NAT_BLOCK_OFFSET f start_nid
      in nm\<lparr>nat_bitmap := (nat_bitmap nm)(block_off := \<not> nat_bitmap nm block_off)\<rparr>)"

definition get_next_nat_page :: "nat_fmt \<Rightarrow> f2fs_geo \<Rightarrow> nm_info \<Rightarrow> nat \<Rightarrow> nat \<times> nm_info" where
  "get_next_nat_page f g nm nid =
     (let src_off = current_nat_addr f g nm nid;
          dst_off = next_nat_addr g nm src_off
      in (dst_off, set_to_next_nat f (nm\<lparr>nat_blk := (nat_blk nm)(dst_off := nat_blk nm src_off)\<rparr>) nid))"

subsection \<open>The journal\<close>

definition nats_in_cursum :: "nm_info \<Rightarrow> nat" where
  "nats_in_cursum nm = length (nat_journal nm)"

definition has_cursum_space :: "nat_fmt \<Rightarrow> nm_info \<Rightarrow> nat \<Rightarrow> bool" where
  "has_cursum_space f nm sz \<longleftrightarrow> sz + nats_in_cursum nm \<le> NAT_JOURNAL_ENTRIES f"

text \<open>The loop of \<open>f2fs_lookup_journal_in_cursum\<close>.\<close>

fun journal_find :: "(nat \<times> 'a) list \<Rightarrow> nat \<Rightarrow> nat \<Rightarrow> nat option" where
  "journal_find [] i val = None"
| "journal_find (e # es) i val = (if fst e = val then Some i else journal_find es (i + 1) val)"

text \<open>A new slot is the one behind the used ones; its contents are written by the caller.\<close>

definition f2fs_lookup_journal_in_cursum :: "nat_fmt \<Rightarrow> nm_info \<Rightarrow> nat \<Rightarrow> bool \<Rightarrow> nat option" where
  "f2fs_lookup_journal_in_cursum f nm val alloc =
     (case journal_find (nat_journal nm) 0 val of
        Some i \<Rightarrow> Some i
      | None \<Rightarrow> if alloc \<and> has_cursum_space f nm 1 then Some (nats_in_cursum nm) else None)"

definition put_in_journal :: "nm_info \<Rightarrow> nat \<Rightarrow> nat \<Rightarrow> f2fs_nat_entry \<Rightarrow> nm_info" where
  "put_in_journal nm offset nid raw =
     nm\<lparr>nat_journal := (if offset < length (nat_journal nm) then (nat_journal nm)[offset := (nid, raw)]
                        else nat_journal nm @ [(nid, raw)])\<rparr>"

subsection \<open>The cache\<close>

definition alloc_nat_entry :: node_info where
  "alloc_nat_entry = nat_reset_flag \<lparr>ni_ino = 0, ni_blk_addr = 0, ni_version = 0, ni_flag = 0\<rparr>"

definition set_ne :: "nm_info \<Rightarrow> nat \<Rightarrow> node_info \<Rightarrow> nm_info" where
  "set_ne nm nid ne = nm\<lparr>nat_root := (nat_root nm)(nid \<mapsto> ne)\<rparr>"

definition init_nat_entry :: "nm_info \<Rightarrow> nat \<Rightarrow> f2fs_nat_entry option \<Rightarrow> nm_info" where
  "init_nat_entry nm nid raw_ne =
     (let ne = (case raw_ne of None \<Rightarrow> alloc_nat_entry | Some raw \<Rightarrow> node_info_from_raw_nat alloc_nat_entry raw)
      in (set_ne nm nid ne)\<lparr>nat_entries := nat_entries nm @ [nid], nat_cnt := nat_cnt nm + 1\<rparr>)"

definition del_from_nat_cache :: "nm_info \<Rightarrow> nat \<Rightarrow> nm_info" where
  "del_from_nat_cache nm nid =
     nm\<lparr>nat_entries := remove1 nid (nat_entries nm), nat_root := (nat_root nm)(nid := None), nat_cnt := nat_cnt nm - 1\<rparr>"

definition grab_nat_entry_set :: "nat_fmt \<Rightarrow> nm_info \<Rightarrow> nat \<Rightarrow> nm_info" where
  "grab_nat_entry_set f nm nid =
     (let sno = NAT_BLOCK_OFFSET f nid
      in case nat_set_root nm sno of
           None \<Rightarrow> nm\<lparr>nat_set_root := (nat_set_root nm)(sno \<mapsto> \<lparr>entry_list = [], entry_cnt = 0\<rparr>)\<rparr>
         | Some head \<Rightarrow> nm)"

definition map_set :: "nm_info \<Rightarrow> nat \<Rightarrow> (nat_entry_set \<Rightarrow> nat_entry_set) \<Rightarrow> nm_info" where
  "map_set nm sno h = nm\<lparr>nat_set_root := (nat_set_root nm)(sno := map_option h (nat_set_root nm sno))\<rparr>"

text \<open>\<open>list_del\<close> on an entry, from the list it is linked into.\<close>

definition unlink_ne :: "nat_fmt \<Rightarrow> nm_info \<Rightarrow> nat \<Rightarrow> nm_info" where
  "unlink_ne f nm nid =
     map_set (nm\<lparr>nat_entries := remove1 nid (nat_entries nm)\<rparr>) (NAT_BLOCK_OFFSET f nid)
       (\<lambda>h. h\<lparr>entry_list := remove1 nid (entry_list h)\<rparr>)"

definition set_nat_cache_dirty :: "nat_fmt \<Rightarrow> nm_info \<Rightarrow> nat \<Rightarrow> node_info \<Rightarrow> nm_info" where
  "set_nat_cache_dirty f nm nid ne =
     (let new_ne = ni_blk_addr ne = NEW_ADDR (nf_disk f);
          sno = NAT_BLOCK_OFFSET f nid;
          nm = (if \<not> new_ne then grab_nat_entry_set f nm nid else nm);
          nm = (if \<not> new_ne \<and> (get_nat_flag ne IS_PREALLOC \<or> \<not> get_nat_flag ne IS_DIRTY)
                then map_set nm sno (\<lambda>h. h\<lparr>entry_cnt := entry_cnt h + 1\<rparr>) else nm);
          ne' = set_nat_flag ne IS_PREALLOC new_ne;
          nm = (if get_nat_flag ne IS_DIRTY then set_ne nm nid ne'
                else (set_ne nm nid (set_nat_flag ne' IS_DIRTY True))\<lparr>dirty_nat_cnt := dirty_nat_cnt nm + 1\<rparr>);
          nm = unlink_ne f nm nid
      in if new_ne then nm else map_set nm sno (\<lambda>h. h\<lparr>entry_list := entry_list h @ [nid]\<rparr>))"

definition clear_nat_cache_dirty :: "nat_fmt \<Rightarrow> nm_info \<Rightarrow> nat \<Rightarrow> node_info \<Rightarrow> nm_info" where
  "clear_nat_cache_dirty f nm nid ne =
     (let nm = unlink_ne f nm nid;
          nm = nm\<lparr>nat_entries := nat_entries nm @ [nid]\<rparr>;
          nm = set_ne nm nid (set_nat_flag ne IS_DIRTY False);
          nm = map_set nm (NAT_BLOCK_OFFSET f nid) (\<lambda>h. h\<lparr>entry_cnt := entry_cnt h - 1\<rparr>)
      in nm\<lparr>dirty_nat_cnt := dirty_nat_cnt nm - 1\<rparr>)"

definition f2fs_need_dentry_mark :: "nm_info \<Rightarrow> nat \<Rightarrow> bool" where
  "f2fs_need_dentry_mark nm nid =
     (case nat_root nm nid of None \<Rightarrow> False
      | Some e \<Rightarrow> \<not> get_nat_flag e IS_CHECKPOINTED \<and> \<not> get_nat_flag e HAS_FSYNCED_INODE)"

definition f2fs_is_checkpointed_node :: "nm_info \<Rightarrow> nat \<Rightarrow> bool" where
  "f2fs_is_checkpointed_node nm nid = (case nat_root nm nid of None \<Rightarrow> True | Some e \<Rightarrow> get_nat_flag e IS_CHECKPOINTED)"

definition f2fs_need_inode_block_update :: "nm_info \<Rightarrow> nat \<Rightarrow> bool" where
  "f2fs_need_inode_block_update nm ino =
     (case nat_root nm ino of None \<Rightarrow> True
      | Some e \<Rightarrow> \<not> (get_nat_flag e HAS_LAST_FSYNC \<and> (get_nat_flag e IS_CHECKPOINTED \<or> get_nat_flag e HAS_FSYNCED_INODE)))"

text \<open>\<open>mem\<close>: the entry and its place in the radix tree can be allocated.\<close>

definition cache_nat_entry :: "bool \<Rightarrow> nm_info \<Rightarrow> nat \<Rightarrow> f2fs_nat_entry \<Rightarrow> nm_info" where
  "cache_nat_entry mem nm nid ne =
     (if \<not> mem then nm
      else case nat_root nm nid of
             None \<Rightarrow> init_nat_entry nm nid (Some ne)
           | Some e \<Rightarrow> nm_bug_on (ni_ino e \<noteq> raw_ino ne \<or> ni_blk_addr e \<noteq> raw_block_addr ne \<or> ni_version e \<noteq> raw_version ne) nm)"

text \<open>The fsync marks of the inode, if its entry is cached.\<close>

definition update_fsync_mark :: "nm_info \<Rightarrow> nat \<Rightarrow> nat \<Rightarrow> bool \<Rightarrow> nm_info" where
  "update_fsync_mark nm nid ino fsync_done =
     (case nat_root nm ino of
        None \<Rightarrow> nm
      | Some e \<Rightarrow>
          (let e = (if fsync_done \<and> nid = ino then set_nat_flag e HAS_FSYNCED_INODE True else e)
           in set_ne nm ino (set_nat_flag e HAS_LAST_FSYNC fsync_done)))"

definition set_node_addr :: "nat_fmt \<Rightarrow> nm_info \<Rightarrow> nat \<Rightarrow> node_info \<Rightarrow> nat \<Rightarrow> bool \<Rightarrow> nm_info" where
  "set_node_addr f nm nid ni new_blkaddr fsync_done =
     (let d = nf_disk f;
          (e, nm) =
            (case nat_root nm nid of
               None \<Rightarrow> (copy_node_info alloc_nat_entry ni, nm_bug_on (ni_blk_addr ni = NEW_ADDR d) (init_nat_entry nm nid None))
             | Some e \<Rightarrow> if new_blkaddr = NEW_ADDR d then (copy_node_info e ni, nm_bug_on (ni_blk_addr ni \<noteq> NULL_ADDR d) nm) else (e, nm));
          nm = nm_bug_on (ni_blk_addr e \<noteq> ni_blk_addr ni) nm;
          nm = nm_bug_on (ni_blk_addr e = NULL_ADDR d \<and> new_blkaddr = NULL_ADDR d) nm;
          nm = nm_bug_on (ni_blk_addr e = NEW_ADDR d \<and> new_blkaddr = NEW_ADDR d) nm;
          nm = nm_bug_on (is_valid_blkaddr d (ni_blk_addr e) \<and> new_blkaddr = NEW_ADDR d) nm;
          e = (if ni_blk_addr e \<noteq> NEW_ADDR d \<and> new_blkaddr = NULL_ADDR d then e\<lparr>ni_version := ni_version e + 1\<rparr> else e);
          e = e\<lparr>ni_blk_addr := new_blkaddr\<rparr>;
          e = (if \<not> is_valid_blkaddr d new_blkaddr then set_nat_flag e IS_CHECKPOINTED False else e);
          nm = set_nat_cache_dirty f nm nid e
      in update_fsync_mark nm nid (ni_ino ni) fsync_done)"

fun f2fs_try_to_free_nats :: "nm_info \<Rightarrow> nat \<Rightarrow> nm_info" where
  "f2fs_try_to_free_nats nm 0 = nm"
| "f2fs_try_to_free_nats nm (Suc nr_shrink) =
     (case nat_entries nm of
        [] \<Rightarrow> nm
      | ne # _ \<Rightarrow> f2fs_try_to_free_nats (del_from_nat_cache nm ne) nr_shrink)"

text \<open>The entry of a node: from the cache, the journal or the table, which are then cached.\<close>

definition f2fs_get_node_info :: "nat_fmt \<Rightarrow> f2fs_geo \<Rightarrow> bool \<Rightarrow> nm_info \<Rightarrow> nat \<Rightarrow> f2fs_nat_entry \<times> nm_info" where
  "f2fs_get_node_info f g mem nm nid =
     (case nat_root nm nid of
        Some e \<Rightarrow> (raw_nat_from_node_info e, nm)
      | None \<Rightarrow>
          (let ne = (case f2fs_lookup_journal_in_cursum f nm nid False of
                       Some i \<Rightarrow> snd (nat_journal nm ! i)
                     | None \<Rightarrow> nat_blk nm (current_nat_addr f g nm nid) (nid - START_NID f nid))
           in (ne, cache_nat_entry mem nm nid ne)))"

subsection \<open>Flags\<close>

lemma get_nat_flag_bit: "t < 8 \<Longrightarrow> get_nat_flag e t = bit (ni_flag e) t"
  by (simp add: get_nat_flag_def push_bit_eq_mult and_exp_eq_0_iff_not_bit)

lemma get_set_nat_flag [simp]: "t < 8 \<Longrightarrow> t' < 8 \<Longrightarrow> get_nat_flag (set_nat_flag e t b) t' = (if t = t' then b else get_nat_flag e t')"
  by (auto simp: get_nat_flag_bit set_nat_flag_def Let_def bit_simps)

lemma set_nat_flag_fields [simp]:
  "ni_ino (set_nat_flag e t b) = ni_ino e" "ni_blk_addr (set_nat_flag e t b) = ni_blk_addr e" "ni_version (set_nat_flag e t b) = ni_version e"
  by (simp_all add: set_nat_flag_def Let_def)

lemma get_nat_flag_update [simp]:
  "get_nat_flag (e\<lparr>ni_ino := i\<rparr>) t = get_nat_flag e t" "get_nat_flag (e\<lparr>ni_blk_addr := b\<rparr>) t = get_nat_flag e t"
  "get_nat_flag (e\<lparr>ni_version := v\<rparr>) t = get_nat_flag e t"
  by (simp_all add: get_nat_flag_def)

lemma copy_node_info_fields [simp]:
  "ni_ino (copy_node_info e ni) = ni_ino ni" "ni_blk_addr (copy_node_info e ni) = ni_blk_addr ni"
  "ni_version (copy_node_info e ni) = ni_version ni" "get_nat_flag (copy_node_info e ni) t = get_nat_flag e t"
  by (simp_all add: copy_node_info_def)

lemma from_raw_fields [simp]:
  "ni_ino (node_info_from_raw_nat e r) = raw_ino r" "ni_blk_addr (node_info_from_raw_nat e r) = raw_block_addr r"
  "ni_version (node_info_from_raw_nat e r) = raw_version r" "get_nat_flag (node_info_from_raw_nat e r) t = get_nat_flag e t"
  by (simp_all add: node_info_from_raw_nat_def)

lemma raw_from_fields [simp]:
  "raw_ino (raw_nat_from_node_info e) = ni_ino e" "raw_block_addr (raw_nat_from_node_info e) = ni_blk_addr e"
  "raw_version (raw_nat_from_node_info e) = ni_version e" "raw_nat_from_node_info (set_nat_flag e t b) = raw_nat_from_node_info e"
  by (simp_all add: raw_nat_from_node_info_def)

lemma raw_from_raw [simp]: "raw_nat_from_node_info (node_info_from_raw_nat e r) = r"
  by (simp add: raw_nat_from_node_info_def)

lemma nat_reset_flag_fields [simp]:
  "ni_blk_addr (nat_reset_flag e) = ni_blk_addr e" "raw_nat_from_node_info (nat_reset_flag e) = raw_nat_from_node_info e"
  "get_nat_flag (nat_reset_flag e) IS_DIRTY = get_nat_flag e IS_DIRTY" "get_nat_flag (nat_reset_flag e) IS_PREALLOC = get_nat_flag e IS_PREALLOC"
  "get_nat_flag (nat_reset_flag e) IS_CHECKPOINTED"
  by (simp_all add: nat_reset_flag_def)

lemma alloc_nat_entry_flags [simp]:
  "\<not> get_nat_flag alloc_nat_entry IS_DIRTY" "\<not> get_nat_flag alloc_nat_entry IS_PREALLOC" "get_nat_flag alloc_nat_entry IS_CHECKPOINTED"
  by (simp_all add: alloc_nat_entry_def) (simp_all add: get_nat_flag_def)

subsection \<open>What an operation on the cache leaves alone\<close>

definition nat_medium :: "nm_info \<Rightarrow> nat \<times> bitmap \<times> (nat \<times> f2fs_nat_entry) list \<times> (nat \<Rightarrow> nat \<Rightarrow> f2fs_nat_entry)" where
  "nat_medium nm = (nat_blkaddr nm, nat_bitmap nm, nat_journal nm, nat_blk nm)"

definition nid_view :: "nm_info \<Rightarrow> (nat \<rightharpoonup> nid_state) \<times> nat list \<times> (nid_state \<Rightarrow> u32) \<times> (nat \<Rightarrow> bitmap) \<times> bitmap" where
  "nid_view nm = (free_nid_root nm, free_nid_list nm, nid_cnt nm, free_nid_bitmap nm, nat_block_bitmap nm)"

definition nat_size :: "nm_info \<Rightarrow> nat \<times> nat" where
  "nat_size nm = (max_nid nm, nat_blocks nm)"

lemmas nm_views = nat_medium_def nid_view_def nat_size_def

lemma nm_bug_on_fields [simp]:
  "nat_root (nm_bug_on c nm) = nat_root nm" "nat_set_root (nm_bug_on c nm) = nat_set_root nm" "nat_entries (nm_bug_on c nm) = nat_entries nm"
  "nat_cnt (nm_bug_on c nm) = nat_cnt nm" "dirty_nat_cnt (nm_bug_on c nm) = dirty_nat_cnt nm"
  "nat_medium (nm_bug_on c nm) = nat_medium nm" "nid_view (nm_bug_on c nm) = nid_view nm" "nat_size (nm_bug_on c nm) = nat_size nm"
  "free_nid_root (nm_bug_on c nm) = free_nid_root nm" "free_nid_list (nm_bug_on c nm) = free_nid_list nm" "nid_cnt (nm_bug_on c nm) = nid_cnt nm"
  "free_nid_bitmap (nm_bug_on c nm) = free_nid_bitmap nm" "nat_block_bitmap (nm_bug_on c nm) = nat_block_bitmap nm" "max_nid (nm_bug_on c nm) = max_nid nm"
  "nat_journal (nm_bug_on c nm) = nat_journal nm" "nat_blk (nm_bug_on c nm) = nat_blk nm"
  "available_nids (nm_bug_on c nm) = available_nids nm"
  by (simp_all add: nm_bug_on_def nm_views)

lemma nm_bug_on_False [simp]: "nm_bug_on False nm = nm"
  by (simp add: nm_bug_on_def)

definition dirty_ne :: "nat_fmt \<Rightarrow> node_info \<Rightarrow> node_info" where
  "dirty_ne f e = (let e' = set_nat_flag e IS_PREALLOC (ni_blk_addr e = NEW_ADDR (nf_disk f))
     in if get_nat_flag e IS_DIRTY then e' else set_nat_flag e' IS_DIRTY True)"

lemma dirty_ne_fields [simp]:
  "get_nat_flag (dirty_ne f e) IS_DIRTY" "get_nat_flag (dirty_ne f e) IS_PREALLOC = (ni_blk_addr e = NEW_ADDR (nf_disk f))"
  "raw_nat_from_node_info (dirty_ne f e) = raw_nat_from_node_info e" "ni_blk_addr (dirty_ne f e) = ni_blk_addr e"
  "get_nat_flag (dirty_ne f e) IS_CHECKPOINTED = get_nat_flag e IS_CHECKPOINTED"
  by (simp_all add: dirty_ne_def Let_def)

lemma set_nat_cache_dirty_fields [simp]:
  fixes nm nid ne f
  defines "nm' \<equiv> set_nat_cache_dirty f nm nid ne"
  shows "nat_root nm' = (nat_root nm)(nid \<mapsto> dirty_ne f ne)" "nat_entries nm' = remove1 nid (nat_entries nm)" "nat_cnt nm' = nat_cnt nm"
    "dirty_nat_cnt nm' = dirty_nat_cnt nm + of_bool (\<not> get_nat_flag ne IS_DIRTY)"
    "nat_medium nm' = nat_medium nm" "nid_view nm' = nid_view nm" "nat_size nm' = nat_size nm" "nm_fsck nm' = nm_fsck nm"
    "available_nids nm' = available_nids nm"
  by (simp_all add: nm'_def set_nat_cache_dirty_def Let_def unlink_ne_def map_set_def set_ne_def grab_nat_entry_set_def dirty_ne_def nm_views split: option.split)

lemma set_nat_cache_dirty_set:
  fixes nm nid ne f
  defines "new \<equiv> ni_blk_addr ne = NEW_ADDR (nf_disk f)" and "old \<equiv> (case nat_set_root nm (NAT_BLOCK_OFFSET f nid) of None \<Rightarrow> \<lparr>entry_list = [], entry_cnt = 0\<rparr> | Some h \<Rightarrow> h)"
  shows "nat_set_root (set_nat_cache_dirty f nm nid ne) =
    (nat_set_root nm)(NAT_BLOCK_OFFSET f nid :=
       if new then map_option (\<lambda>h. h\<lparr>entry_list := remove1 nid (entry_list h)\<rparr>) (nat_set_root nm (NAT_BLOCK_OFFSET f nid))
       else Some (old\<lparr>entry_cnt := entry_cnt old + of_bool (get_nat_flag ne IS_PREALLOC \<or> \<not> get_nat_flag ne IS_DIRTY),
         entry_list := remove1 nid (entry_list old) @ [nid]\<rparr>))"
  by (simp add: new_def old_def set_nat_cache_dirty_def Let_def unlink_ne_def map_set_def set_ne_def grab_nat_entry_set_def split: option.split)

lemma clear_nat_cache_dirty_fields [simp]:
  fixes nm nid ne f
  defines "nm' \<equiv> clear_nat_cache_dirty f nm nid ne"
  shows "nat_root nm' = (nat_root nm)(nid \<mapsto> set_nat_flag ne IS_DIRTY False)" "nat_entries nm' = remove1 nid (nat_entries nm) @ [nid]"
    "nat_cnt nm' = nat_cnt nm" "dirty_nat_cnt nm' = dirty_nat_cnt nm - 1"
    "nat_medium nm' = nat_medium nm" "nid_view nm' = nid_view nm" "nat_size nm' = nat_size nm" "nm_fsck nm' = nm_fsck nm"
    "nat_set_root nm' = (nat_set_root nm)(NAT_BLOCK_OFFSET f nid := map_option (\<lambda>h. h\<lparr>entry_list := remove1 nid (entry_list h), entry_cnt := entry_cnt h - 1\<rparr>)
       (nat_set_root nm (NAT_BLOCK_OFFSET f nid)))"
  by (simp_all add: nm'_def clear_nat_cache_dirty_def Let_def unlink_ne_def map_set_def set_ne_def nm_views option.map_comp comp_def)

lemma init_nat_entry_fields [simp]:
  "nat_root (init_nat_entry nm nid r) = (nat_root nm)(nid \<mapsto> (case r of None \<Rightarrow> alloc_nat_entry | Some raw \<Rightarrow> node_info_from_raw_nat alloc_nat_entry raw))"
  "nat_entries (init_nat_entry nm nid r) = nat_entries nm @ [nid]" "nat_cnt (init_nat_entry nm nid r) = nat_cnt nm + 1"
  "dirty_nat_cnt (init_nat_entry nm nid r) = dirty_nat_cnt nm" "nat_set_root (init_nat_entry nm nid r) = nat_set_root nm"
  "nat_medium (init_nat_entry nm nid r) = nat_medium nm" "nid_view (init_nat_entry nm nid r) = nid_view nm"
  "nat_size (init_nat_entry nm nid r) = nat_size nm" "nm_fsck (init_nat_entry nm nid r) = nm_fsck nm"
  "available_nids (init_nat_entry nm nid r) = available_nids nm"
  by (simp_all add: init_nat_entry_def Let_def set_ne_def nm_views)

lemma del_from_nat_cache_fields [simp]:
  "nat_root (del_from_nat_cache nm nid) = (nat_root nm)(nid := None)" "nat_entries (del_from_nat_cache nm nid) = remove1 nid (nat_entries nm)"
  "nat_cnt (del_from_nat_cache nm nid) = nat_cnt nm - 1" "dirty_nat_cnt (del_from_nat_cache nm nid) = dirty_nat_cnt nm"
  "nat_set_root (del_from_nat_cache nm nid) = nat_set_root nm"
  "nat_medium (del_from_nat_cache nm nid) = nat_medium nm" "nid_view (del_from_nat_cache nm nid) = nid_view nm"
  "nat_size (del_from_nat_cache nm nid) = nat_size nm" "nm_fsck (del_from_nat_cache nm nid) = nm_fsck nm"
  by (simp_all add: del_from_nat_cache_def nm_views)

lemma set_ne_fields [simp]:
  "nat_root (set_ne nm nid e) = (nat_root nm)(nid \<mapsto> e)" "nat_entries (set_ne nm nid e) = nat_entries nm"
  "nat_cnt (set_ne nm nid e) = nat_cnt nm" "dirty_nat_cnt (set_ne nm nid e) = dirty_nat_cnt nm" "nat_set_root (set_ne nm nid e) = nat_set_root nm"
  "nat_medium (set_ne nm nid e) = nat_medium nm" "nid_view (set_ne nm nid e) = nid_view nm" "nat_size (set_ne nm nid e) = nat_size nm"
  "nm_fsck (set_ne nm nid e) = nm_fsck nm"
  by (simp_all add: set_ne_def nm_views)

subsection \<open>The lists and counters of the cache\<close>

definition dirty_nids :: "nm_info \<Rightarrow> nat set" where
  "dirty_nids nm = {n. \<exists>e. nat_root nm n = Some e \<and> get_nat_flag e IS_DIRTY}"

definition pre_nids :: "nm_info \<Rightarrow> nat set" where
  "pre_nids nm = {n. \<exists>e. nat_root nm n = Some e \<and> get_nat_flag e IS_PREALLOC}"

definition set_members :: "nat_fmt \<Rightarrow> nm_info \<Rightarrow> nat \<Rightarrow> nat set" where
  "set_members f nm sno = {n \<in> dirty_nids nm - pre_nids nm. NAT_BLOCK_OFFSET f n = sno}"

definition set_ok :: "nat set \<Rightarrow> nat_entry_set option \<Rightarrow> bool" where
  "set_ok M so = (case so of None \<Rightarrow> M = {}
     | Some h \<Rightarrow> distinct (entry_list h) \<and> set (entry_list h) = M \<and> entry_cnt h = of_nat (length (entry_list h)))"

definition nat_str :: "nat_fmt \<Rightarrow> nm_info \<Rightarrow> bool" where
  "nat_str f nm \<longleftrightarrow> 0 < NAT_ENTRY_PER_BLOCK f \<and> max_nid nm = nat_blocks nm * NAT_ENTRY_PER_BLOCK f \<and> max_nid nm < 4294967296
     \<and> dom (nat_root nm) \<subseteq> {..<max_nid nm}
     \<and> distinct (nat_entries nm) \<and> set (nat_entries nm) = dom (nat_root nm) - dirty_nids nm \<and> pre_nids nm \<subseteq> dirty_nids nm
     \<and> (\<forall>sno. set_ok (set_members f nm sno) (nat_set_root nm sno))
     \<and> nat_cnt nm = of_nat (card (dom (nat_root nm))) \<and> dirty_nat_cnt nm = of_nat (card (dirty_nids nm))"

lemma nat_strD:
  assumes "nat_str f nm"
  shows "0 < NAT_ENTRY_PER_BLOCK f" "max_nid nm = nat_blocks nm * NAT_ENTRY_PER_BLOCK f" "max_nid nm < 4294967296"
    "dom (nat_root nm) \<subseteq> {..<max_nid nm}" "distinct (nat_entries nm)" "set (nat_entries nm) = dom (nat_root nm) - dirty_nids nm"
    "pre_nids nm \<subseteq> dirty_nids nm" "set_ok (set_members f nm sno) (nat_set_root nm sno)"
    "nat_cnt nm = of_nat (card (dom (nat_root nm)))" "dirty_nat_cnt nm = of_nat (card (dirty_nids nm))"
  using assms unfolding nat_str_def by blast+

lemma nat_str_finite: "nat_str f nm \<Longrightarrow> finite (dom (nat_root nm))" "nat_str f nm \<Longrightarrow> finite (dirty_nids nm)"
  by (auto dest!: nat_strD(4) simp: dirty_nids_def intro: finite_subset)

lemma dirty_sub_dom: "dirty_nids nm \<subseteq> dom (nat_root nm)"
  by (auto simp: dirty_nids_def)

lemma nid_sets_upd:
  assumes "nat_root nm' = (nat_root nm)(nid \<mapsto> e)"
  shows "dirty_nids nm' = (if get_nat_flag e IS_DIRTY then insert nid (dirty_nids nm) else dirty_nids nm - {nid})"
    "pre_nids nm' = (if get_nat_flag e IS_PREALLOC then insert nid (pre_nids nm) else pre_nids nm - {nid})"
  by (auto simp: assms dirty_nids_def pre_nids_def)

lemma dirty_flag: "nat_root nm n = Some e \<Longrightarrow> get_nat_flag e IS_DIRTY \<longleftrightarrow> n \<in> dirty_nids nm"
  and pre_flag: "nat_root nm n = Some e \<Longrightarrow> get_nat_flag e IS_PREALLOC \<longleftrightarrow> n \<in> pre_nids nm"
  by (simp_all add: dirty_nids_def pre_nids_def)

lemma card_insert_word: "finite A \<Longrightarrow> of_nat (card (insert x A)) = (of_nat (card A) + of_bool (x \<notin> A) :: 'w :: len word)"
  by (simp add: card_insert_if)

lemma card_remove_word: "finite A \<Longrightarrow> x \<in> A \<Longrightarrow> of_nat (card (A - {x})) = (of_nat (card A) - 1 :: 'w :: len word)"
  using card.remove [of A x] by simp

lemma Suc_length_remove1: "x \<in> set xs \<Longrightarrow> length xs = Suc (length (remove1 x xs))"
  by (induction xs) auto

text \<open>Marking a cached entry dirty, whatever its new address; a preallocated entry leaves its list.\<close>

lemma set_nat_cache_dirty_str:
  assumes str: "nat_str f nm" and e0: "nat_root nm nid = Some e0"
    and flags: "get_nat_flag e IS_DIRTY = get_nat_flag e0 IS_DIRTY" "get_nat_flag e IS_PREALLOC = get_nat_flag e0 IS_PREALLOC"
    and new: "ni_blk_addr e = NEW_ADDR (nf_disk f) \<Longrightarrow> nid \<in> dirty_nids nm \<Longrightarrow> nid \<in> pre_nids nm"
  shows "nat_str f (set_nat_cache_dirty f nm nid e)"
proof -
  let ?nm = "set_nat_cache_dirty f nm nid e" and ?new = "ni_blk_addr e = NEW_ADDR (nf_disk f)"
  note S = nat_strD [OF str] and F = set_nat_cache_dirty_fields [of f nm nid e]
  have in': "get_nat_flag e IS_DIRTY \<longleftrightarrow> nid \<in> dirty_nids nm" "get_nat_flag e IS_PREALLOC \<longleftrightarrow> nid \<in> pre_nids nm"
    using flags dirty_flag [OF e0] pre_flag [OF e0] by simp_all
  have dom: "dom (nat_root ?nm) = dom (nat_root nm)" using e0 by (auto simp: F(1))
  have dp: "dirty_nids ?nm = insert nid (dirty_nids nm)" "pre_nids ?nm = (if ?new then insert nid (pre_nids nm) else pre_nids nm - {nid})"
    using nid_sets_upd [OF F(1)] by simp_all
  have sz: "max_nid ?nm = max_nid nm" "nat_blocks ?nm = nat_blocks nm" using F(7) by (simp_all add: nat_size_def)
  have mem: "set_members f ?nm sno = (if sno \<noteq> NAT_BLOCK_OFFSET f nid then set_members f nm sno
      else if ?new then set_members f nm sno else insert nid (set_members f nm sno))" for sno
    using new by (auto simp: set_members_def dp)
  have "set_ok (set_members f ?nm sno) (nat_set_root ?nm sno)" for sno
  proof (cases "sno = NAT_BLOCK_OFFSET f nid")
    case False
    then show ?thesis using S(8) [of sno] by (simp add: mem set_nat_cache_dirty_set)
  next
    case True
    have m: "nid \<in> set_members f nm sno \<longleftrightarrow> nid \<in> dirty_nids nm - pre_nids nm" using True by (simp add: set_members_def)
    show ?thesis
    proof (cases "nat_set_root nm sno")
      case None
      then have "set_members f nm sno = {}" using S(8) [of sno] by (simp add: set_ok_def)
      moreover from this have "nid \<notin> dirty_nids nm - pre_nids nm" using m by simp
      ultimately show ?thesis using None True in' by (auto simp: mem set_nat_cache_dirty_set set_ok_def)
    next
      case (Some h)
      then have h: "distinct (entry_list h)" "set (entry_list h) = set_members f nm sno" "entry_cnt h = of_nat (length (entry_list h))"
        using S(8) [of sno] by (simp_all add: set_ok_def)
      have l: "nid \<in> set (entry_list h) \<longleftrightarrow> nid \<in> dirty_nids nm \<and> nid \<notin> pre_nids nm" using h(2) m by simp
      show ?thesis
      proof (cases ?new)
        case True
        then have "nid \<notin> set (entry_list h)" using l new by blast
        then show ?thesis using Some h \<open>sno = NAT_BLOCK_OFFSET f nid\<close> True by (simp add: mem set_nat_cache_dirty_set set_ok_def remove1_idem)
      next
        case False
        have "length (entry_list h) = length (remove1 nid (entry_list h)) + of_bool (nid \<in> set (entry_list h))"
          using Suc_length_remove1 [of nid "entry_list h"] by (cases "nid \<in> set (entry_list h)") (simp_all add: remove1_idem)
        then have "entry_cnt h + of_bool (nid \<in> pre_nids nm \<or> nid \<notin> dirty_nids nm) = of_nat (Suc (length (remove1 nid (entry_list h))))"
          using l h(3) by (cases "nid \<in> set (entry_list h)") auto
        then show ?thesis using Some h True False in' by (auto simp: mem set_nat_cache_dirty_set set_ok_def)
      qed
    qed
  qed
  moreover have "set (nat_entries ?nm) = dom (nat_root ?nm) - dirty_nids ?nm" unfolding F(2) dom dp using S(5,6) by auto
  moreover have "pre_nids ?nm \<subseteq> dirty_nids ?nm" using S(7) by (auto simp: dp)
  moreover have "dirty_nat_cnt ?nm = of_nat (card (dirty_nids ?nm))"
    using nat_str_finite(2) [OF str] in' by (simp add: F(4) dp(1) S(10) card_insert_word)
  ultimately show ?thesis unfolding nat_str_def sz dom F(2,3) using S(1-5,9) by simp
qed

text \<open>The operations on one entry.\<close>

lemma nat_str_cong:
  assumes "nat_root nm' = nat_root nm" "nat_set_root nm' = nat_set_root nm" "nat_entries nm' = nat_entries nm"
    "nat_cnt nm' = nat_cnt nm" "dirty_nat_cnt nm' = dirty_nat_cnt nm" "nat_size nm' = nat_size nm"
  shows "nat_str f nm' = nat_str f nm"
  using assms by (simp add: nat_str_def dirty_nids_def pre_nids_def set_members_def nat_size_def)

lemma set_ne_str:
  assumes str: "nat_str f nm" and e0: "nat_root nm nid = Some e0"
    and flags: "get_nat_flag e IS_DIRTY = get_nat_flag e0 IS_DIRTY" "get_nat_flag e IS_PREALLOC = get_nat_flag e0 IS_PREALLOC"
  shows "nat_str f (set_ne nm nid e)"
proof -
  have dp: "dirty_nids (set_ne nm nid e) = dirty_nids nm" "pre_nids (set_ne nm nid e) = pre_nids nm"
    using flags e0 by (auto simp: dirty_nids_def pre_nids_def)
  have "set_members f (set_ne nm nid e) sno = set_members f nm sno" for sno by (simp add: set_members_def dp)
  moreover have "dom (nat_root (set_ne nm nid e)) = dom (nat_root nm)" using e0 by auto
  moreover have "max_nid (set_ne nm nid e) = max_nid nm" "nat_blocks (set_ne nm nid e) = nat_blocks nm" by (simp_all add: set_ne_def)
  ultimately show ?thesis unfolding nat_str_def dp set_ne_fields(2-5) using nat_strD [OF str] by simp
qed

lemma init_nat_entry_str:
  assumes str: "nat_str f nm" and nid: "nat_root nm nid = None" "nid < max_nid nm"
  shows "nat_str f (init_nat_entry nm nid r)"
proof -
  let ?nm = "init_nat_entry nm nid r"
  note S = nat_strD [OF str] and F = init_nat_entry_fields [of nm nid r]
  have no: "nid \<notin> dirty_nids nm" "nid \<notin> pre_nids nm" "nid \<notin> dom (nat_root nm)" using nid(1) by (auto simp: dirty_nids_def pre_nids_def)
  have dp: "dirty_nids ?nm = dirty_nids nm" "pre_nids ?nm = pre_nids nm" using nid_sets_upd [OF F(1)] no by (simp_all split: option.split)
  have "set_members f ?nm sno = set_members f nm sno" for sno by (simp add: set_members_def dp)
  moreover have "dom (nat_root ?nm) = insert nid (dom (nat_root nm))" by (auto simp: F(1))
  moreover have "max_nid ?nm = max_nid nm" "nat_blocks ?nm = nat_blocks nm" using F(8) by (simp_all add: nat_size_def)
  ultimately show ?thesis unfolding nat_str_def F(2-5) dp
    using S no nid nat_str_finite(1) [OF str] by (auto simp: card_insert_word)
qed

lemma del_from_nat_cache_str:
  assumes str: "nat_str f nm" and nid: "nid \<in> set (nat_entries nm)"
  shows "nat_str f (del_from_nat_cache nm nid)"
proof -
  let ?nm = "del_from_nat_cache nm nid"
  note S = nat_strD [OF str]
  have nd: "nid \<notin> dirty_nids nm" "nid \<in> dom (nat_root nm)" "nid \<notin> pre_nids nm" using nid S(6,7) by auto
  have dp: "dirty_nids ?nm = dirty_nids nm" "pre_nids ?nm = pre_nids nm" using nd by (auto simp: dirty_nids_def pre_nids_def)
  have "set_members f ?nm sno = set_members f nm sno" for sno by (simp add: set_members_def dp)
  moreover have dom: "dom (nat_root ?nm) = dom (nat_root nm) - {nid}" by auto
  moreover have "nat_cnt ?nm = of_nat (card (dom (nat_root ?nm)))"
    unfolding dom by (simp only: card_remove_word [OF nat_str_finite(1) [OF str] nd(2)] S(9) del_from_nat_cache_fields(3))
  moreover have "max_nid ?nm = max_nid nm" "nat_blocks ?nm = nat_blocks nm"
    using del_from_nat_cache_fields(8) [of nm nid] by (simp_all add: nat_size_def)
  ultimately show ?thesis unfolding nat_str_def dp del_from_nat_cache_fields(2,4,5) using S nd by auto
qed

lemma clear_nat_cache_dirty_str:
  assumes str: "nat_str f nm" and e0: "nat_root nm nid = Some e0" "get_nat_flag e0 IS_DIRTY" "\<not> get_nat_flag e0 IS_PREALLOC"
    and e: "\<not> get_nat_flag e IS_PREALLOC"
  shows "nat_str f (clear_nat_cache_dirty f nm nid e)"
proof -
  let ?nm = "clear_nat_cache_dirty f nm nid e" and ?s = "NAT_BLOCK_OFFSET f nid"
  note S = nat_strD [OF str] and F = clear_nat_cache_dirty_fields [of f nm nid e]
  have d: "nid \<in> dirty_nids nm" "nid \<notin> pre_nids nm" "nid \<in> dom (nat_root nm)" using e0 by (auto simp: dirty_nids_def pre_nids_def)
  have dp: "dirty_nids ?nm = dirty_nids nm - {nid}" "pre_nids ?nm = pre_nids nm" using nid_sets_upd [OF F(1)] d e by simp_all
  have mem: "set_members f ?nm sno = set_members f nm sno - {nid}" for sno by (auto simp: set_members_def dp)
  have in': "nid \<in> set_members f nm ?s" using d by (simp add: set_members_def)
  then obtain h where h: "nat_set_root nm ?s = Some h" using S(8) [of ?s] by (cases "nat_set_root nm ?s") (auto simp: set_ok_def)
  have ok: "distinct (entry_list h)" "set (entry_list h) = set_members f nm ?s" "entry_cnt h = of_nat (length (entry_list h))"
    using S(8) [of ?s] h by (simp_all add: set_ok_def)
  have "length (entry_list h) = Suc (length (remove1 nid (entry_list h)))" using in' ok(2) by (simp add: Suc_length_remove1)
  then have "set_ok (set_members f ?nm ?s) (nat_set_root ?nm ?s)" using ok h by (simp add: F(9) mem set_ok_def)
  moreover have "set_ok (set_members f ?nm sno) (nat_set_root ?nm sno)" if "sno \<noteq> ?s" for sno
  proof -
    have "set_members f ?nm sno = set_members f nm sno" using that unfolding mem by (auto simp: set_members_def)
    then show ?thesis using S(8) [of sno] that by (simp add: F(9))
  qed
  ultimately have sets: "\<forall>sno. set_ok (set_members f ?nm sno) (nat_set_root ?nm sno)" by metis
  have dom: "dom (nat_root ?nm) = dom (nat_root nm)" using d(3) by (auto simp: F(1))
  have "dirty_nat_cnt ?nm = of_nat (card (dirty_nids nm - {nid}))"
    by (simp only: card_remove_word [OF nat_str_finite(2) [OF str] d(1)] S(10) F(4))
  moreover have "nid \<notin> set (nat_entries nm)" using S(6) d by auto
  moreover have "max_nid ?nm = max_nid nm" "nat_blocks ?nm = nat_blocks nm" using F(7) by (simp_all add: nat_size_def)
  ultimately show ?thesis unfolding nat_str_def dom dp F(2,3) using S sets d by (auto simp: remove1_idem)
qed

subsection \<open>The table a reader sees\<close>

definition stored_nat :: "nat_fmt \<Rightarrow> f2fs_geo \<Rightarrow> nm_info \<Rightarrow> nat \<Rightarrow> f2fs_nat_entry" where
  "stored_nat f g nm nid = (case map_of (nat_journal nm) nid of
     Some raw \<Rightarrow> raw | None \<Rightarrow> nat_blk nm (current_nat_addr f g nm nid) (nid - START_NID f nid))"

definition nat_lookup :: "nat_fmt \<Rightarrow> f2fs_geo \<Rightarrow> nm_info \<Rightarrow> nat \<Rightarrow> f2fs_nat_entry" where
  "nat_lookup f g nm nid = (case nat_root nm nid of Some e \<Rightarrow> raw_nat_from_node_info e | None \<Rightarrow> stored_nat f g nm nid)"

definition nat_agr :: "nat_fmt \<Rightarrow> f2fs_geo \<Rightarrow> nm_info \<Rightarrow> bool" where
  "nat_agr f g nm \<longleftrightarrow> distinct (map fst (nat_journal nm)) \<and> length (nat_journal nm) \<le> NAT_JOURNAL_ENTRIES f
     \<and> fst ` set (nat_journal nm) \<subseteq> {..<max_nid nm}
     \<and> (\<forall>n. n \<notin> dirty_nids nm \<longrightarrow> raw_block_addr (stored_nat f g nm n) \<noteq> NEW_ADDR (nf_disk f))
     \<and> (\<forall>n e. nat_root nm n = Some e \<longrightarrow> (get_nat_flag e IS_PREALLOC \<longleftrightarrow> ni_blk_addr e = NEW_ADDR (nf_disk f))
         \<and> (\<not> get_nat_flag e IS_DIRTY \<longrightarrow> raw_nat_from_node_info e = stored_nat f g nm n))"

definition nat_inv :: "nat_fmt \<Rightarrow> f2fs_geo \<Rightarrow> nm_info \<Rightarrow> bool" where
  "nat_inv f g nm \<longleftrightarrow> nat_str f nm \<and> nat_agr f g nm"

lemma stored_cong: "nat_medium nm' = nat_medium nm \<Longrightarrow> stored_nat f g nm' = stored_nat f g nm"
  by (rule ext) (auto simp: stored_nat_def nat_medium_def current_nat_addr_def Let_def split: option.split)

lemma journal_find_map_of: "journal_find es i val = map_option (\<lambda>j. i + j) (journal_find es 0 val)"
  "journal_find es 0 val = None \<longleftrightarrow> map_of es val = None" "journal_find es 0 val = Some j \<Longrightarrow> j < length es \<and> map_of es val = Some (snd (es ! j)) \<and> fst (es ! j) = val"
proof -
  show shift: "journal_find es i val = map_option (\<lambda>j. i + j) (journal_find es 0 val)" for es i
  proof (induction es arbitrary: i)
    case (Cons e es)
    from Cons [of "i + 1"] Cons [of 1] show ?case by (cases "journal_find es 0 val") simp_all
  qed simp
  show "journal_find es 0 val = None \<longleftrightarrow> map_of es val = None"
    by (induction es) (auto simp: shift [of _ "Suc 0"])
  show "journal_find es 0 val = Some j \<Longrightarrow> j < length es \<and> map_of es val = Some (snd (es ! j)) \<and> fst (es ! j) = val"
    by (induction es arbitrary: j) (auto simp: shift [of _ "Suc 0"] split: if_splits)
qed

lemma get_node_info_stored:
  "nat_root nm nid = None \<Longrightarrow> (case f2fs_lookup_journal_in_cursum f nm nid False of Some i \<Rightarrow> snd (nat_journal nm ! i)
     | None \<Rightarrow> nat_blk nm (current_nat_addr f g nm nid) (nid - START_NID f nid)) = stored_nat f g nm nid"
  using journal_find_map_of(2,3) [of "nat_journal nm" nid]
  by (auto simp: f2fs_lookup_journal_in_cursum_def stored_nat_def split: option.split)

lemma nat_agr_root:
  assumes "nat_agr f g nm" "nat_medium nm' = nat_medium nm" "nat_size nm' = nat_size nm" "dirty_nids nm \<subseteq> dirty_nids nm'"
    "\<And>n e. nat_root nm' n = Some e \<Longrightarrow> nat_root nm n = Some e \<or> ((get_nat_flag e IS_PREALLOC \<longleftrightarrow> ni_blk_addr e = NEW_ADDR (nf_disk f))
         \<and> (\<not> get_nat_flag e IS_DIRTY \<longrightarrow> raw_nat_from_node_info e = stored_nat f g nm n))"
  shows "nat_agr f g nm'"
  using assms unfolding nat_agr_def stored_cong [OF assms(2)] by (auto simp: nat_medium_def nat_size_def) (metis+)

lemma nat_invD: "nat_inv f g nm \<Longrightarrow> nat_str f nm" "nat_inv f g nm \<Longrightarrow> nat_agr f g nm"
  by (simp_all add: nat_inv_def)

lemma nat_agrD:
  assumes "nat_agr f g nm"
  shows "distinct (map fst (nat_journal nm))" "length (nat_journal nm) \<le> NAT_JOURNAL_ENTRIES f" "fst ` set (nat_journal nm) \<subseteq> {..<max_nid nm}"
    "n \<notin> dirty_nids nm \<Longrightarrow> raw_block_addr (stored_nat f g nm n) \<noteq> NEW_ADDR (nf_disk f)"
    "nat_root nm n = Some e \<Longrightarrow> get_nat_flag e IS_PREALLOC \<longleftrightarrow> ni_blk_addr e = NEW_ADDR (nf_disk f)"
    "nat_root nm n = Some e \<Longrightarrow> \<not> get_nat_flag e IS_DIRTY \<Longrightarrow> raw_nat_from_node_info e = stored_nat f g nm n"
  using assms unfolding nat_agr_def by blast+

text \<open>What an operation that only moves entries in and out of the cache keeps.\<close>

definition nat_same :: "nat_fmt \<Rightarrow> f2fs_geo \<Rightarrow> nm_info \<Rightarrow> nm_info \<Rightarrow> bool" where
  "nat_same f g nm nm' \<longleftrightarrow> nat_inv f g nm' \<and> nat_lookup f g nm' = nat_lookup f g nm \<and> nat_medium nm' = nat_medium nm \<and> nid_view nm' = nid_view nm
     \<and> nat_size nm' = nat_size nm \<and> nm_fsck nm' = nm_fsck nm \<and> dirty_nids nm' = dirty_nids nm \<and> pre_nids nm' = pre_nids nm
     \<and> (\<forall>n e. nat_root nm' n = Some e \<longrightarrow> nat_root nm n = Some e \<or> \<not> get_nat_flag e IS_DIRTY)"

lemma init_nat_entry_same:
  assumes inv: "nat_inv f g nm" and nid: "nat_root nm nid = None" "nid < max_nid nm"
  shows "nat_same f g nm (init_nat_entry nm nid (Some (stored_nat f g nm nid)))"
proof -
  let ?r = "Some (stored_nat f g nm nid)"
  let ?nm = "init_nat_entry nm nid ?r"
  note F = init_nat_entry_fields [of nm nid ?r] and A = nat_agrD [OF nat_invD(2) [OF inv]]
  have st: "stored_nat f g ?nm = stored_nat f g nm" by (rule stored_cong) simp
  have dn: "dirty_nids ?nm = dirty_nids nm" "pre_nids ?nm = pre_nids nm" "nid \<notin> dirty_nids nm"
    using nid_sets_upd [OF F(1)] nid(1) by (auto simp: dirty_nids_def pre_nids_def)
  have "nat_agr f g ?nm" using A(4) [OF dn(3)] dn(1) by (intro nat_agr_root [OF nat_invD(2) [OF inv]]) (auto split: if_splits)
  moreover have "nat_str f ?nm" using nid by (rule init_nat_entry_str [OF nat_invD(1) [OF inv]])
  moreover have "nat_lookup f g ?nm = nat_lookup f g nm" using nid(1) by (auto simp: nat_lookup_def st fun_eq_iff split: option.split)
  ultimately show ?thesis using nid(1) dn by (simp add: nat_same_def nat_inv_def)
qed

lemma nat_same_refl: "nat_inv f g nm \<Longrightarrow> nat_same f g nm nm"
  by (simp add: nat_same_def)

lemma nat_same_trans: "nat_same f g nm nm' \<Longrightarrow> nat_same f g nm' nm'' \<Longrightarrow> nat_same f g nm nm''"
  unfolding nat_same_def by metis

lemma f2fs_get_node_info_spec:
  assumes inv: "nat_inv f g nm" and nid: "nid < max_nid nm"
  shows "fst (f2fs_get_node_info f g mem nm nid) = nat_lookup f g nm nid" "nat_same f g nm (snd (f2fs_get_node_info f g mem nm nid))"
proof -
  note G = f2fs_get_node_info_def get_node_info_stored Let_def
  show "fst (f2fs_get_node_info f g mem nm nid) = nat_lookup f g nm nid"
    by (cases "nat_root nm nid") (simp_all add: G nat_lookup_def)
  show "nat_same f g nm (snd (f2fs_get_node_info f g mem nm nid))"
    using init_nat_entry_same [OF inv _ nid] nat_same_refl [OF inv]
    by (cases "nat_root nm nid") (simp_all add: G cache_nat_entry_def)
qed

lemma del_from_nat_cache_same:
  assumes inv: "nat_inv f g nm" and nid: "nid \<in> set (nat_entries nm)"
  shows "nat_same f g nm (del_from_nat_cache nm nid)"
proof -
  let ?nm = "del_from_nat_cache nm nid"
  note S = nat_strD [OF nat_invD(1) [OF inv]] and A = nat_agrD [OF nat_invD(2) [OF inv]]
  have nd: "nid \<notin> dirty_nids nm" "nid \<notin> pre_nids nm" using nid S(6,7) by auto
  obtain e where e: "nat_root nm nid = Some e" "\<not> get_nat_flag e IS_DIRTY" using nid S(6) by (auto simp: dirty_nids_def)
  have st: "stored_nat f g ?nm = stored_nat f g nm" by (rule stored_cong) simp
  have dn: "dirty_nids ?nm = dirty_nids nm" "pre_nids ?nm = pre_nids nm" using nd by (auto simp: dirty_nids_def pre_nids_def)
  have "nat_agr f g ?nm" using dn(1) by (intro nat_agr_root [OF nat_invD(2) [OF inv]]) (auto split: if_splits)
  moreover have "nat_str f ?nm" by (rule del_from_nat_cache_str [OF nat_invD(1) [OF inv] nid])
  moreover have "nat_lookup f g ?nm = nat_lookup f g nm" using A(6) [OF e] e(1) by (auto simp: nat_lookup_def st fun_eq_iff split: option.split)
  ultimately show ?thesis using dn by (simp add: nat_same_def nat_inv_def)
qed

lemma f2fs_try_to_free_nats_spec: "nat_inv f g nm \<Longrightarrow> nat_same f g nm (f2fs_try_to_free_nats nm n)"
proof (induction nm n rule: f2fs_try_to_free_nats.induct)
  case (2 nm n)
  show ?case
  proof (cases "nat_entries nm")
    case (Cons nid rest)
    then have s: "nat_same f g nm (del_from_nat_cache nm nid)" using 2(2) by (intro del_from_nat_cache_same) simp_all
    then have "nat_inv f g (del_from_nat_cache nm nid)" by (simp add: nat_same_def)
    from nat_same_trans [OF s 2(1) [OF Cons this]] show ?thesis by (simp add: Cons)
  qed (simp add: nat_same_refl 2(2))
qed (simp add: nat_same_refl)

text \<open>The fsync marks are no part of the table.\<close>

lemma update_fsync_mark_same:
  assumes inv: "nat_inv f g nm"
  shows "nat_inv f g (update_fsync_mark nm nid ino b)" "nat_lookup f g (update_fsync_mark nm nid ino b) = nat_lookup f g nm"
    "nat_medium (update_fsync_mark nm nid ino b) = nat_medium nm" "nid_view (update_fsync_mark nm nid ino b) = nid_view nm"
    "nat_size (update_fsync_mark nm nid ino b) = nat_size nm" "nm_fsck (update_fsync_mark nm nid ino b) = nm_fsck nm"
    "dirty_nids (update_fsync_mark nm nid ino b) = dirty_nids nm" "pre_nids (update_fsync_mark nm nid ino b) = pre_nids nm"
    "\<And>n e. nat_root (update_fsync_mark nm nid ino b) n = Some e \<Longrightarrow> \<exists>e'. nat_root nm n = Some e' \<and> get_nat_flag e IS_CHECKPOINTED = get_nat_flag e' IS_CHECKPOINTED \<and> ni_blk_addr e = ni_blk_addr e'"
proof -
  let ?nm = "update_fsync_mark nm nid ino b"
  consider "nat_root nm ino = None" | e where "nat_root nm ino = Some e" by (cases "nat_root nm ino") auto
  then have "nat_inv f g ?nm \<and> nat_lookup f g ?nm = nat_lookup f g nm \<and> nat_medium ?nm = nat_medium nm \<and> nid_view ?nm = nid_view nm
    \<and> nat_size ?nm = nat_size nm \<and> nm_fsck ?nm = nm_fsck nm \<and> dirty_nids ?nm = dirty_nids nm \<and> pre_nids ?nm = pre_nids nm
    \<and> (\<forall>n e. nat_root ?nm n = Some e \<longrightarrow> (\<exists>e'. nat_root nm n = Some e' \<and> get_nat_flag e IS_CHECKPOINTED = get_nat_flag e' IS_CHECKPOINTED \<and> ni_blk_addr e = ni_blk_addr e'))"
  proof cases
    case 1
    then show ?thesis using inv by (simp add: update_fsync_mark_def)
  next
    case (2 e)
    define e' where "e' = set_nat_flag (if b \<and> nid = ino then set_nat_flag e HAS_FSYNCED_INODE True else e) HAS_LAST_FSYNC b"
    have eq: "?nm = set_ne nm ino e'" using 2 by (simp add: update_fsync_mark_def Let_def e'_def)
    have fl: "get_nat_flag e' IS_DIRTY = get_nat_flag e IS_DIRTY" "get_nat_flag e' IS_PREALLOC = get_nat_flag e IS_PREALLOC"
      "get_nat_flag e' IS_CHECKPOINTED = get_nat_flag e IS_CHECKPOINTED" "raw_nat_from_node_info e' = raw_nat_from_node_info e" "ni_blk_addr e' = ni_blk_addr e"
      by (simp_all add: e'_def)
    have st: "stored_nat f g ?nm = stored_nat f g nm" unfolding eq by (rule stored_cong) simp
    have dn: "dirty_nids ?nm = dirty_nids nm" "pre_nids ?nm = pre_nids nm" using 2 fl by (auto simp: eq dirty_nids_def pre_nids_def)
    have "nat_agr f g ?nm" using dn(1) unfolding eq
      using nat_agrD(5,6) [OF nat_invD(2) [OF inv] 2] fl by (intro nat_agr_root [OF nat_invD(2) [OF inv]]) (auto split: if_splits)
    moreover have "nat_str f ?nm" unfolding eq by (rule set_ne_str [OF nat_invD(1) [OF inv] 2 fl(1,2)])
    moreover have "nat_lookup f g ?nm = nat_lookup f g nm" using 2 unfolding nat_lookup_def st by (auto simp: eq fl fun_eq_iff)
    ultimately show ?thesis using fl 2 dn by (auto simp: nat_inv_def eq)
  qed
  then show "nat_inv f g ?nm" "nat_lookup f g ?nm = nat_lookup f g nm" "nat_medium ?nm = nat_medium nm" "nid_view ?nm = nid_view nm"
    "nat_size ?nm = nat_size nm" "nm_fsck ?nm = nm_fsck nm" "dirty_nids ?nm = dirty_nids nm" "pre_nids ?nm = pre_nids nm"
    "\<And>n e. nat_root ?nm n = Some e \<Longrightarrow> \<exists>e'. nat_root nm n = Some e' \<and> get_nat_flag e IS_CHECKPOINTED = get_nat_flag e' IS_CHECKPOINTED \<and> ni_blk_addr e = ni_blk_addr e'"
    by blast+
qed

text \<open>
  The address changes a caller may make: a node that has no address gets one (\<open>NEW_ADDR\<close>) only when its entry was written since its
  id was freed, and otherwise the caller has read the entry.
\<close>

definition addr_change_ok :: "nat_fmt \<Rightarrow> f2fs_geo \<Rightarrow> nm_info \<Rightarrow> nat \<Rightarrow> node_info \<Rightarrow> nat \<Rightarrow> bool" where
  "addr_change_ok f g nm nid ni new \<longleftrightarrow> nid < max_nid nm
     \<and> (if new = NEW_ADDR (nf_disk f)
        then ni_blk_addr ni = NULL_ADDR (nf_disk f) \<and> raw_block_addr (nat_lookup f g nm nid) = NULL_ADDR (nf_disk f) \<and> nid \<notin> dirty_nids nm
        else raw_nat_from_node_info ni = nat_lookup f g nm nid \<and> ni_blk_addr ni \<noteq> NULL_ADDR (nf_disk f))"

definition changed_entry :: "nat_fmt \<Rightarrow> node_info \<Rightarrow> nat \<Rightarrow> f2fs_nat_entry" where
  "changed_entry f ni new = \<lparr>raw_ino = ni_ino ni, raw_block_addr = new,
     raw_version = (if ni_blk_addr ni \<noteq> NEW_ADDR (nf_disk f) \<and> new = NULL_ADDR (nf_disk f) then ni_version ni + 1 else ni_version ni)\<rparr>"

lemma set_node_addr_cached:
  assumes inv: "nat_inv f g nm" and ok: "addr_change_ok f g nm nid ni new" and d: "NULL_ADDR (nf_disk f) \<noteq> NEW_ADDR (nf_disk f)"
  obtains nm1 e0 e where "set_node_addr f nm nid ni new b = update_fsync_mark (set_nat_cache_dirty f nm1 nid e) nid (ni_ino ni) b"
    "nm1 = (if nat_root nm nid = None then init_nat_entry nm nid None else nm)" "nat_root nm1 nid = Some e0"
    "get_nat_flag e IS_DIRTY = get_nat_flag e0 IS_DIRTY" "get_nat_flag e IS_PREALLOC = get_nat_flag e0 IS_PREALLOC"
    "raw_nat_from_node_info e = changed_entry f ni new" "new = NULL_ADDR (nf_disk f) \<longrightarrow> \<not> get_nat_flag e IS_CHECKPOINTED"
proof -
  let ?d = "nf_disk f"
  define nm1 where "nm1 = (if nat_root nm nid = None then init_nat_entry nm nid None else nm)"
  define e0 where "e0 = (case nat_root nm nid of None \<Rightarrow> alloc_nat_entry | Some e \<Rightarrow> e)"
  define e1 where "e1 = (case nat_root nm nid of None \<Rightarrow> copy_node_info alloc_nat_entry ni
    | Some e \<Rightarrow> if new = NEW_ADDR ?d then copy_node_info e ni else e)"
  define e2 where "e2 = (if ni_blk_addr e1 \<noteq> NEW_ADDR ?d \<and> new = NULL_ADDR ?d then e1\<lparr>ni_version := ni_version e1 + 1\<rparr> else e1)\<lparr>ni_blk_addr := new\<rparr>"
  define e where "e = (if \<not> is_valid_blkaddr ?d new then set_nat_flag e2 IS_CHECKPOINTED False else e2)"
  have raw1: "raw_nat_from_node_info e1 = raw_nat_from_node_info ni"
    using ok by (auto simp: e1_def addr_change_ok_def nat_lookup_def raw_nat_from_node_info_def split: option.split)
  then have f1: "ni_ino e1 = ni_ino ni" "ni_blk_addr e1 = ni_blk_addr ni" "ni_version e1 = ni_version ni" by (simp_all add: raw_nat_from_node_info_def)
  have old: "new = NEW_ADDR ?d \<Longrightarrow> ni_blk_addr ni = NULL_ADDR ?d" "new \<noteq> NEW_ADDR ?d \<Longrightarrow> ni_blk_addr ni \<noteq> NULL_ADDR ?d"
    using ok by (simp_all add: addr_change_ok_def)
  have nnew: "ni_blk_addr ni \<noteq> NEW_ADDR ?d" if "nat_root nm nid = None"
  proof (cases "new = NEW_ADDR ?d")
    case False
    then have "raw_nat_from_node_info ni = stored_nat f g nm nid" using ok that by (simp add: addr_change_ok_def nat_lookup_def)
    moreover have "nid \<notin> dirty_nids nm" using that by (simp add: dirty_nids_def)
    ultimately show ?thesis using nat_agrD(4) [OF nat_invD(2) [OF inv], of nid] by (metis raw_from_fields(2))
  qed (use old(1) d in simp)
  show thesis
  proof (rule that [of nm1 e e0])
    show "nat_root nm1 nid = Some e0" by (auto simp: nm1_def e0_def split: option.split)
    have fl: "get_nat_flag e1 t = get_nat_flag e0 t" for t by (simp add: e1_def e0_def split: option.split)
    show "get_nat_flag e IS_DIRTY = get_nat_flag e0 IS_DIRTY" "get_nat_flag e IS_PREALLOC = get_nat_flag e0 IS_PREALLOC" by (simp_all add: e_def e2_def fl)
    show "raw_nat_from_node_info e = changed_entry f ni new" by (simp add: e_def e2_def raw_nat_from_node_info_def changed_entry_def f1)
    show "new = NULL_ADDR ?d \<longrightarrow> \<not> get_nat_flag e IS_CHECKPOINTED" by (simp add: e_def is_valid_blkaddr_def)
  qed (use f1 old d nnew in \<open>auto simp: nm1_def set_node_addr_def Let_def e_def e2_def e1_def is_valid_blkaddr_def split: option.split\<close>)
qed

lemma set_node_addr_spec:
  fixes b :: bool
  assumes inv: "nat_inv f g nm" and ok: "addr_change_ok f g nm nid ni new" and d: "NULL_ADDR (nf_disk f) \<noteq> NEW_ADDR (nf_disk f)"
  defines "nm' \<equiv> set_node_addr f nm nid ni new b"
  shows "nat_inv f g nm'" "nat_lookup f g nm' = (nat_lookup f g nm)(nid := changed_entry f ni new)" "nat_medium nm' = nat_medium nm"
    "nid_view nm' = nid_view nm" "nat_size nm' = nat_size nm" "nm_fsck nm' = nm_fsck nm" "dirty_nids nm' = insert nid (dirty_nids nm)"
    "\<And>n e. nat_root nm' n = Some e \<Longrightarrow> (if n = nid then ni_blk_addr e = new \<and> (new = NULL_ADDR (nf_disk f) \<longrightarrow> \<not> get_nat_flag e IS_CHECKPOINTED)
       else \<exists>e'. nat_root nm n = Some e' \<and> get_nat_flag e IS_CHECKPOINTED = get_nat_flag e' IS_CHECKPOINTED \<and> ni_blk_addr e = ni_blk_addr e')"
proof -
  obtain nm1 e0 e where eq: "nm' = update_fsync_mark (set_nat_cache_dirty f nm1 nid e) nid (ni_ino ni) b"
    and nm1: "nm1 = (if nat_root nm nid = None then init_nat_entry nm nid None else nm)" and e0: "nat_root nm1 nid = Some e0"
    and fl: "get_nat_flag e IS_DIRTY = get_nat_flag e0 IS_DIRTY" "get_nat_flag e IS_PREALLOC = get_nat_flag e0 IS_PREALLOC"
    and raw: "raw_nat_from_node_info e = changed_entry f ni new" and cp: "new = NULL_ADDR (nf_disk f) \<longrightarrow> \<not> get_nat_flag e IS_CHECKPOINTED"
    unfolding nm'_def by (rule set_node_addr_cached [OF inv ok d, where b = b])
  let ?nm2 = "set_nat_cache_dirty f nm1 nid e"
  have blk: "ni_blk_addr e = new" using raw by (simp add: raw_nat_from_node_info_def changed_entry_def)
  have nid: "nid < max_nid nm" using ok by (simp add: addr_change_ok_def)
  have same1: "nat_medium nm1 = nat_medium nm" "nid_view nm1 = nid_view nm" "nat_size nm1 = nat_size nm" "nm_fsck nm1 = nm_fsck nm"
    "\<And>n. n \<noteq> nid \<Longrightarrow> nat_root nm1 n = nat_root nm n" by (simp_all add: nm1)
  have d1: "dirty_nids nm1 = dirty_nids nm" "pre_nids nm1 = pre_nids nm" by (auto simp: nm1 dirty_nids_def pre_nids_def split: if_splits)
  have str1: "nat_str f nm1" using nid by (auto simp: nm1 nat_invD(1) [OF inv] intro: init_nat_entry_str)
  have "nat_str f ?nm2"
    using ok blk by (intro set_nat_cache_dirty_str [OF str1 e0 fl]) (simp add: addr_change_ok_def d1)
  moreover have "dirty_nids nm \<subseteq> dirty_nids ?nm2" using nid_sets_upd(1) [of ?nm2 nm1 nid "dirty_ne f e"] d1 by auto
  then have "nat_agr f g ?nm2"
    by (intro nat_agr_root [OF nat_invD(2) [OF inv]]) (use same1 in \<open>auto split: if_splits\<close>)
  ultimately have inv2: "nat_inv f g ?nm2" by (simp add: nat_inv_def)
  note U = update_fsync_mark_same [OF inv2, of nid "ni_ino ni" b, folded eq]
  have st: "stored_nat f g ?nm2 = stored_nat f g nm" by (rule stored_cong) (simp add: same1)
  show "nat_inv f g nm'" by (rule U(1))
  show "nat_lookup f g nm' = (nat_lookup f g nm)(nid := changed_entry f ni new)"
    unfolding U(2) nat_lookup_def st by (auto simp: fun_eq_iff raw same1)
  show "nat_medium nm' = nat_medium nm" "nid_view nm' = nid_view nm" "nat_size nm' = nat_size nm" "nm_fsck nm' = nm_fsck nm"
    by (simp_all add: U(3-6) same1)
  show "dirty_nids nm' = insert nid (dirty_nids nm)" using nid_sets_upd(1) [of ?nm2 nm1 nid "dirty_ne f e"] by (simp add: U(7) d1)
  show "if n = nid then ni_blk_addr e' = new \<and> (new = NULL_ADDR (nf_disk f) \<longrightarrow> \<not> get_nat_flag e' IS_CHECKPOINTED)
       else \<exists>e''. nat_root nm n = Some e'' \<and> get_nat_flag e' IS_CHECKPOINTED = get_nat_flag e'' IS_CHECKPOINTED \<and> ni_blk_addr e' = ni_blk_addr e''"
    if "nat_root nm' n = Some e'" for n e'
    using U(9) [OF that] blk cp same1(5) [of n] by (auto split: if_splits)
qed

end
