(* ===== verification/Free_Nids.thy ===== *)
theory Free_Nids
  imports Nat_Table
begin

text \<open>
  Free node ids, from \<open>src/node.c\<close>: the list of ids that can be handed out, the bitmaps of the table blocks scanned so
  far, building the list from the table, and handing out ids (\<open>f2fs_alloc_nid\<close>, \<open>f2fs_alloc_nid_done\<close>,
  \<open>f2fs_alloc_nid_failed\<close>).
\<close>

abbreviation (input) FREE_NID_PAGES :: nat where "FREE_NID_PAGES \<equiv> 8"

definition MAX_FREE_NIDS :: "nat_fmt \<Rightarrow> nat" where
  "MAX_FREE_NIDS f = NAT_ENTRY_PER_BLOCK f * FREE_NID_PAGES"

subsection \<open>The list of ids\<close>

definition inc_nid_cnt :: "nm_info \<Rightarrow> nid_state \<Rightarrow> nm_info" where
  "inc_nid_cnt nm s = nm\<lparr>nid_cnt := (nid_cnt nm)(s := nid_cnt nm s + 1)\<rparr>"

definition dec_nid_cnt :: "nm_info \<Rightarrow> nid_state \<Rightarrow> nm_info" where
  "dec_nid_cnt nm s = nm\<lparr>nid_cnt := (nid_cnt nm)(s := nid_cnt nm s - 1)\<rparr>"

text \<open>\<open>radix_tree_insert\<close> refuses an id that is there already.\<close>

definition insert_free_nid :: "nm_info \<Rightarrow> nat \<Rightarrow> nid_state \<Rightarrow> nm_info" where
  "insert_free_nid nm nid state =
     (if free_nid_root nm nid \<noteq> None then nm
      else let nm = inc_nid_cnt (nm\<lparr>free_nid_root := (free_nid_root nm)(nid \<mapsto> state)\<rparr>) state
           in if state = FREE_NID then nm\<lparr>free_nid_list := free_nid_list nm @ [nid]\<rparr> else nm)"

definition remove_free_nid_entry :: "nm_info \<Rightarrow> nat \<Rightarrow> nid_state \<Rightarrow> nm_info" where
  "remove_free_nid_entry nm nid state =
     (let nm = dec_nid_cnt (nm_bug_on (free_nid_root nm nid \<noteq> Some state) nm) state;
          nm = (if state = FREE_NID then nm\<lparr>free_nid_list := remove1 nid (free_nid_list nm)\<rparr> else nm)
      in nm\<lparr>free_nid_root := (free_nid_root nm)(nid := None)\<rparr>)"

definition move_free_nid :: "nm_info \<Rightarrow> nat \<Rightarrow> nid_state \<Rightarrow> nid_state \<Rightarrow> nm_info" where
  "move_free_nid nm nid org_state dst_state =
     (let nm = nm_bug_on (free_nid_root nm nid \<noteq> Some org_state) nm;
          nm = nm\<lparr>free_nid_root := (free_nid_root nm)(nid \<mapsto> dst_state)\<rparr>;
          nm = inc_nid_cnt (dec_nid_cnt nm org_state) dst_state
      in case dst_state of
           PREALLOC_NID \<Rightarrow> nm\<lparr>free_nid_list := remove1 nid (free_nid_list nm)\<rparr>
         | FREE_NID \<Rightarrow> nm\<lparr>free_nid_list := free_nid_list nm @ [nid]\<rparr>)"

definition update_free_nid_bitmap :: "nat_fmt \<Rightarrow> nm_info \<Rightarrow> nat \<Rightarrow> bool \<Rightarrow> bool \<Rightarrow> nm_info" where
  "update_free_nid_bitmap f nm nid b build =
     (let nat_ofs = NAT_BLOCK_OFFSET f nid;
          nid_ofs = nid - START_NID f nid;
          put = (\<lambda>nm. nm\<lparr>free_nid_bitmap := (free_nid_bitmap nm)(nat_ofs := (free_nid_bitmap nm nat_ofs)(nid_ofs := b))\<rparr>)
      in if \<not> nat_block_bitmap nm nat_ofs \<or> free_nid_bitmap nm nat_ofs nid_ofs = b then nm
         else if b then (put nm)\<lparr>free_nid_count := (free_nid_count nm)(nat_ofs := free_nid_count nm nat_ofs + 1)\<rparr>
         else if build then put nm
         else (put nm)\<lparr>free_nid_count := (free_nid_count nm)(nat_ofs := free_nid_count nm nat_ofs - 1)\<rparr>)"

text \<open>Whether the cache says that an id is in use, or was when the last checkpoint was written.\<close>

definition nat_blocks_nid :: "nat_fmt \<Rightarrow> nm_info \<Rightarrow> nat \<Rightarrow> bool" where
  "nat_blocks_nid f nm nid =
     (case nat_root nm nid of None \<Rightarrow> False
      | Some ne \<Rightarrow> \<not> get_nat_flag ne IS_CHECKPOINTED \<or> ni_blk_addr ne \<noteq> NULL_ADDR (nf_disk f))"

definition add_free_nid :: "nat_fmt \<Rightarrow> nm_info \<Rightarrow> nat \<Rightarrow> bool \<Rightarrow> bool \<Rightarrow> nm_info" where
  "add_free_nid f nm nid build update =
     (if nid = 0 then nm
      else let (ret, nm) =
             (if build \<and> nat_blocks_nid f nm nid then (False, nm)
              else if build \<and> free_nid_root nm nid \<noteq> None then (free_nid_root nm nid = Some FREE_NID, nm)
              else (True, insert_free_nid nm nid FREE_NID))
           in if update
              then (let nm = update_free_nid_bitmap f nm nid ret build
                    in if \<not> build then nm\<lparr>available_nids := available_nids nm + 1\<rparr> else nm)
              else nm)"

definition remove_free_nid :: "nm_info \<Rightarrow> nat \<Rightarrow> nm_info" where
  "remove_free_nid nm nid =
     (if free_nid_root nm nid = Some FREE_NID then remove_free_nid_entry nm nid FREE_NID else nm)"

subsection \<open>Building the list\<close>

function scan_nat_loop :: "nat_fmt \<Rightarrow> (nat \<Rightarrow> f2fs_nat_entry) \<Rightarrow> nm_info \<Rightarrow> nat \<Rightarrow> nat \<Rightarrow> nm_info" where
  "scan_nat_loop f blk nm i nid =
     (if i \<ge> NAT_ENTRY_PER_BLOCK f \<or> nid \<ge> max_nid nm then nm
      else let blk_addr = raw_block_addr (blk i);
               nm = nm_bug_on (blk_addr = NEW_ADDR (nf_disk f)) nm;
               nm = (if blk_addr = NULL_ADDR (nf_disk f) then add_free_nid f nm nid True True
                     else update_free_nid_bitmap f nm nid False True)
           in scan_nat_loop f blk nm (i + 1) (nid + 1))"
  by pat_completeness auto
termination
  by (relation "measure (\<lambda>(f, blk, nm, i, nid). NAT_ENTRY_PER_BLOCK f - i)") auto

declare scan_nat_loop.simps [simp del]

definition scan_nat_page :: "nat_fmt \<Rightarrow> nm_info \<Rightarrow> (nat \<Rightarrow> f2fs_nat_entry) \<Rightarrow> nat \<Rightarrow> nm_info" where
  "scan_nat_page f nm blk start_nid =
     (let nm = nm\<lparr>nat_block_bitmap := (nat_block_bitmap nm)(NAT_BLOCK_OFFSET f start_nid := True)\<rparr>
      in scan_nat_loop f blk nm (start_nid mod NAT_ENTRY_PER_BLOCK f) start_nid)"

definition scan_journal_entry :: "nat_fmt \<Rightarrow> nat \<times> f2fs_nat_entry \<Rightarrow> nm_info \<Rightarrow> nm_info" where
  "scan_journal_entry f e nm =
     (if raw_block_addr (snd e) = NULL_ADDR (nf_disk f) then add_free_nid f nm (fst e) True False else remove_free_nid nm (fst e))"

definition scan_curseg_cache :: "nat_fmt \<Rightarrow> nm_info \<Rightarrow> nm_info" where
  "scan_curseg_cache f nm = fold (scan_journal_entry f) (nat_journal nm) nm"

text \<open>The bits of one block, and whether enough ids were found; then all blocks.\<close>

function scan_bits_loop :: "nat_fmt \<Rightarrow> nat \<Rightarrow> nm_info \<Rightarrow> nat \<Rightarrow> bool \<times> nm_info" where
  "scan_bits_loop f i nm idx =
     (let idx' = find_next_bit (free_nid_bitmap nm i) (NAT_ENTRY_PER_BLOCK f) idx
      in if idx \<ge> NAT_ENTRY_PER_BLOCK f \<or> idx' \<ge> NAT_ENTRY_PER_BLOCK f then (False, nm)
         else let nm = add_free_nid f nm (i * NAT_ENTRY_PER_BLOCK f + idx') True False
              in if unat (nid_cnt nm FREE_NID) \<ge> MAX_FREE_NIDS f then (True, nm)
                 else scan_bits_loop f i nm (idx' + 1))"
  by pat_completeness auto
termination
proof (relation "measure (\<lambda>(f, i, nm, idx). NAT_ENTRY_PER_BLOCK f - idx)", goal_cases)
  case (2 f i nm idx idx' nm')
  then have "idx \<le> idx'" "idx' < NAT_ENTRY_PER_BLOCK f" by (simp_all add: find_next_bit_ge)
  then show ?case by simp
qed simp

declare scan_bits_loop.simps [simp del]

fun scan_blocks_loop :: "nat_fmt \<Rightarrow> nat list \<Rightarrow> nm_info \<Rightarrow> nm_info" where
  "scan_blocks_loop f [] nm = nm"
| "scan_blocks_loop f (i # is) nm =
     (if \<not> nat_block_bitmap nm i \<or> free_nid_count nm i = 0 then scan_blocks_loop f is nm
      else case scan_bits_loop f i nm 0 of
             (True, nm) \<Rightarrow> nm
           | (False, nm) \<Rightarrow> scan_blocks_loop f is nm)"

definition scan_free_nid_bits :: "nat_fmt \<Rightarrow> nm_info \<Rightarrow> nm_info" where
  "scan_free_nid_bits f nm = scan_curseg_cache f (scan_blocks_loop f [0..<nat_blocks nm] nm)"

fun build_loop :: "nat_fmt \<Rightarrow> f2fs_geo \<Rightarrow> nat \<Rightarrow> nm_info \<Rightarrow> nat \<Rightarrow> nat \<times> nm_info" where
  "build_loop f g 0 nm nid = (nid, nm)"
| "build_loop f g (Suc n) nm nid =
     (let nm = (if \<not> nat_block_bitmap nm (NAT_BLOCK_OFFSET f nid)
                then scan_nat_page f nm (nat_blk nm (current_nat_addr f g nm nid)) nid else nm);
          nid = nid + (NAT_ENTRY_PER_BLOCK f - nid mod NAT_ENTRY_PER_BLOCK f);
          nid = (if nid \<ge> max_nid nm then 0 else nid)
      in build_loop f g n nm nid)"

text \<open>\<open>avail\<close> is \<open>f2fs_available_free_memory\<close>, which asks the kernel.\<close>

definition f2fs_build_free_nids :: "nat_fmt \<Rightarrow> f2fs_geo \<Rightarrow> bool \<Rightarrow> nm_info \<Rightarrow> bool \<Rightarrow> bool \<Rightarrow> nm_info" where
  "f2fs_build_free_nids f g avail nm sync mount =
     (let nid = (if next_scan_nid nm \<ge> max_nid nm then 0 else next_scan_nid nm)
      in if unat (nid_cnt nm FREE_NID) \<ge> NAT_ENTRY_PER_BLOCK f then nm
         else if \<not> sync \<and> \<not> avail then nm
         else let nm = (if mount then nm else scan_free_nid_bits f nm)
              in if \<not> mount \<and> unat (nid_cnt nm FREE_NID) \<ge> NAT_ENTRY_PER_BLOCK f then nm
                 else let (nid, nm) = build_loop f g FREE_NID_PAGES nm nid
                      in scan_curseg_cache f (nm\<lparr>next_scan_nid := nid\<rparr>))"

subsection \<open>Handing out ids\<close>

text \<open>
  \<open>None\<close>: the retries never end; \<open>Some (None, _)\<close>: the code returns false. No other thread is building the list
  (\<open>on_f2fs_build_free_nids\<close> is false).
\<close>

partial_function (option) f2fs_alloc_nid :: "nat_fmt \<Rightarrow> f2fs_geo \<Rightarrow> nm_info \<Rightarrow> (nat option \<times> nm_info) option" where
  "f2fs_alloc_nid f g nm =
     (if available_nids nm = 0 then Some (None, nm)
      else if nid_cnt nm FREE_NID \<noteq> 0
      then (case free_nid_list nm of
              [] \<Rightarrow> Some (None, nm\<lparr>nm_fsck := True\<rparr>)
            | nid # _ \<Rightarrow>
                (let nm = move_free_nid nm nid FREE_NID PREALLOC_NID;
                     nm = nm\<lparr>available_nids := available_nids nm - 1\<rparr>
                 in Some (Some nid, update_free_nid_bitmap f nm nid False False)))
      else f2fs_alloc_nid f g (f2fs_build_free_nids f g True nm True False))"

definition f2fs_alloc_nid_done :: "nm_info \<Rightarrow> nat \<Rightarrow> nm_info" where
  "f2fs_alloc_nid_done nm nid = remove_free_nid_entry (nm_bug_on (free_nid_root nm nid = None) nm) nid PREALLOC_NID"

definition f2fs_alloc_nid_failed :: "nat_fmt \<Rightarrow> bool \<Rightarrow> nm_info \<Rightarrow> nat \<Rightarrow> nm_info" where
  "f2fs_alloc_nid_failed f avail nm nid =
     (if nid = 0 then nm
      else let nm = nm_bug_on (free_nid_root nm nid = None) nm;
               nm = (if \<not> avail then remove_free_nid_entry nm nid PREALLOC_NID else move_free_nid nm nid PREALLOC_NID FREE_NID)
           in update_free_nid_bitmap f (nm\<lparr>available_nids := available_nids nm + 1\<rparr>) nid True False)"

fun try_to_free_loop :: "nat_fmt \<Rightarrow> nm_info \<Rightarrow> nat list \<Rightarrow> nat \<Rightarrow> nat \<times> nm_info" where
  "try_to_free_loop f nm [] nr_shrink = (nr_shrink, nm)"
| "try_to_free_loop f nm (i # is) nr_shrink =
     (if nr_shrink = 0 \<or> unat (nid_cnt nm FREE_NID) \<le> MAX_FREE_NIDS f then (nr_shrink, nm)
      else try_to_free_loop f (remove_free_nid_entry nm i FREE_NID) is (nr_shrink - 1))"

definition f2fs_try_to_free_nids :: "nat_fmt \<Rightarrow> nm_info \<Rightarrow> nat \<Rightarrow> nat \<times> nm_info" where
  "f2fs_try_to_free_nids f nm nr_shrink =
     (if unat (nid_cnt nm FREE_NID) \<le> MAX_FREE_NIDS f then (0, nm)
      else let (left, nm) = try_to_free_loop f nm (free_nid_list nm) nr_shrink in (nr_shrink - left, nm))"

subsection \<open>The table is left alone\<close>

definition nat_view :: "nm_info \<Rightarrow> (nat \<rightharpoonup> node_info) \<times> (nat \<rightharpoonup> nat_entry_set) \<times> nat list \<times> u32 \<times> u32" where
  "nat_view nm = (nat_root nm, nat_set_root nm, nat_entries nm, nat_cnt nm, dirty_nat_cnt nm)"

lemma nat_view_eq:
  assumes "nat_view nm' = nat_view nm" "nat_medium nm' = nat_medium nm" "nat_size nm' = nat_size nm"
  shows "nat_inv f g nm' = nat_inv f g nm" "nat_lookup f g nm' = nat_lookup f g nm" "stored_nat f g nm' = stored_nat f g nm"
    "dirty_nids nm' = dirty_nids nm" "pre_nids nm' = pre_nids nm" "nat_root nm' = nat_root nm" "nat_str f nm' = nat_str f nm" "max_nid nm' = max_nid nm"
    "nat_journal nm' = nat_journal nm" "set_members f nm' sno = set_members f nm sno"
proof -
  note v = assms [unfolded nat_view_def nat_medium_def nat_size_def]
  show root: "nat_root nm' = nat_root nm" using v by simp
  show st: "stored_nat f g nm' = stored_nat f g nm" by (rule stored_cong [OF assms(2)])
  show "nat_lookup f g nm' = nat_lookup f g nm" unfolding nat_lookup_def [abs_def] root st ..
  show sets: "dirty_nids nm' = dirty_nids nm" "pre_nids nm' = pre_nids nm" by (simp_all add: dirty_nids_def pre_nids_def root)
  show str: "nat_str f nm' = nat_str f nm" using v by (intro nat_str_cong) (simp_all add: nat_size_def)
  show mx: "max_nid nm' = max_nid nm" "nat_journal nm' = nat_journal nm" using v by simp_all
  show "set_members f nm' sno = set_members f nm sno" by (simp add: set_members_def sets)
  show "nat_inv f g nm' = nat_inv f g nm" using v by (simp add: nat_inv_def str nat_agr_def st mx root sets)
qed

text \<open>The four views of a state together, for the operations on free ids.\<close>

definition nat_frame :: "nm_info \<Rightarrow> nm_info \<Rightarrow> bool" where
  "nat_frame nm nm' \<longleftrightarrow> nat_view nm' = nat_view nm \<and> nat_medium nm' = nat_medium nm \<and> nat_size nm' = nat_size nm \<and> nm_fsck nm' = nm_fsck nm"

lemma nat_frame_refl [simp]: "nat_frame nm nm"
  by (simp add: nat_frame_def)

lemma nat_frame_trans: "nat_frame nm nm' \<Longrightarrow> nat_frame nm' nm'' \<Longrightarrow> nat_frame nm nm''"
  by (simp add: nat_frame_def)

lemma nat_frameD:
  assumes "nat_frame nm nm'"
  shows "nat_inv f g nm' = nat_inv f g nm" "nat_lookup f g nm' = nat_lookup f g nm" "stored_nat f g nm' = stored_nat f g nm"
    "dirty_nids nm' = dirty_nids nm" "pre_nids nm' = pre_nids nm" "nat_root nm' = nat_root nm" "max_nid nm' = max_nid nm"
    "nat_journal nm' = nat_journal nm" "set_members f nm' sno = set_members f nm sno" "nat_medium nm' = nat_medium nm" "nat_size nm' = nat_size nm"
    "nm_fsck nm' = nm_fsck nm" "nat_blocks_nid f nm' = nat_blocks_nid f nm"
  using nat_view_eq [of nm' nm] assms by (simp_all add: nat_frame_def nat_blocks_nid_def fun_eq_iff)

lemma nid_cnt_frame [simp]: "nat_frame nm (inc_nid_cnt nm s)" "nat_frame nm (dec_nid_cnt nm s)"
  by (simp_all add: inc_nid_cnt_def dec_nid_cnt_def nat_frame_def nm_views nat_view_def)

lemma insert_free_nid_frame [simp]: "nat_frame nm (insert_free_nid nm nid s)"
  by (simp add: insert_free_nid_def Let_def inc_nid_cnt_def nat_frame_def nm_views nat_view_def)

lemma remove_free_nid_entry_frame: "free_nid_root nm nid = Some s \<Longrightarrow> nat_frame nm (remove_free_nid_entry nm nid s)"
  by (simp add: remove_free_nid_entry_def Let_def dec_nid_cnt_def nat_frame_def nm_views nat_view_def)

lemma move_free_nid_frame: "free_nid_root nm nid = Some s \<Longrightarrow> nat_frame nm (move_free_nid nm nid s s')"
  by (cases s') (simp_all add: move_free_nid_def Let_def dec_nid_cnt_def inc_nid_cnt_def nat_frame_def nm_views nat_view_def)

lemma update_free_nid_bitmap_frame [simp]: "nat_frame nm (update_free_nid_bitmap f nm nid b build)"
  by (simp add: update_free_nid_bitmap_def Let_def nat_frame_def nm_views nat_view_def)

lemma nat_frame_available: "nat_frame nm (nm'\<lparr>available_nids := a\<rparr>) \<longleftrightarrow> nat_frame nm nm'"
  by (simp add: nat_frame_def nm_views nat_view_def)

lemma add_free_nid_frame [simp]: "nat_frame nm (add_free_nid f nm nid build update)"
  by (auto simp: add_free_nid_def Let_def nat_frame_available intro: nat_frame_trans [OF insert_free_nid_frame update_free_nid_bitmap_frame])

lemma remove_free_nid_frame [simp]: "nat_frame nm (remove_free_nid nm nid)"
  by (simp add: remove_free_nid_def remove_free_nid_entry_frame)

end
