(* ===== verification/Nat_Flush.thy ===== *)
theory Nat_Flush
  imports Free_Nids
begin

text \<open>
  Writing the dirty NAT entries at a checkpoint, from \<open>src/node.c\<close> (\<open>remove_nats_in_journal\<close>,
  \<open>__adjust_nat_entry_set\<close>, \<open>__update_nat_bits\<close>, \<open>__flush_nat_entry_set\<close>, \<open>f2fs_flush_nat_entries\<close>), and what it means for the table: the
  entries a reader finds do not change, the blocks and the journal alone give them afterwards, and the copy
  the last checkpoint refers to is not touched.
\<close>

definition enabled_nat_bits :: "bool \<Rightarrow> bool option \<Rightarrow> bool" where
  "enabled_nat_bits nat_bits_flag cpc_umount = (case cpc_umount of None \<Rightarrow> nat_bits_flag | Some umount \<Rightarrow> umount \<and> nat_bits_flag)"

definition journal_to_cache :: "nat_fmt \<Rightarrow> nat \<times> f2fs_nat_entry \<Rightarrow> nm_info \<Rightarrow> nm_info" where
  "journal_to_cache f e nm =
     (let (nid, raw_ne) = e;
          nm = (case nat_root nm nid of None \<Rightarrow> init_nat_entry nm nid (Some raw_ne) | Some _ \<Rightarrow> nm);
          ne = (case nat_root nm nid of None \<Rightarrow> alloc_nat_entry | Some ne \<Rightarrow> ne);
          nm = (if \<not> get_nat_flag ne IS_DIRTY \<and> raw_block_addr raw_ne = NULL_ADDR (nf_disk f)
                then nm\<lparr>available_nids := available_nids nm - 1\<rparr> else nm)
      in set_nat_cache_dirty f nm nid ne)"

definition remove_nats_in_journal :: "nat_fmt \<Rightarrow> nm_info \<Rightarrow> nm_info" where
  "remove_nats_in_journal f nm = (fold (journal_to_cache f) (nat_journal nm) nm)\<lparr>nat_journal := []\<rparr>"

text \<open>Sets with few entries come first, so that they go to the journal.\<close>

definition set_cnt :: "nm_info \<Rightarrow> nat \<Rightarrow> nat" where
  "set_cnt nm sno = (case nat_set_root nm sno of None \<Rightarrow> 0 | Some h \<Rightarrow> unat (entry_cnt h))"

fun insert_by_cnt :: "nm_info \<Rightarrow> nat \<Rightarrow> nat list \<Rightarrow> nat list" where
  "insert_by_cnt nm nes [] = [nes]"
| "insert_by_cnt nm nes (cur # rest) = (if set_cnt nm cur \<ge> set_cnt nm nes then nes # cur # rest else cur # insert_by_cnt nm nes rest)"

definition adjust_nat_entry_set :: "nm_info \<Rightarrow> nat \<Rightarrow> nat \<Rightarrow> nat list \<Rightarrow> nat list" where
  "adjust_nat_entry_set nm mx nes sets = (if set_cnt nm nes \<ge> mx then sets @ [nes] else insert_by_cnt nm nes sets)"

definition gang_lookup_nat_set :: "nm_info \<Rightarrow> nat \<Rightarrow> nat \<Rightarrow> nat list" where
  "gang_lookup_nat_set nm start nr = take nr (filter (\<lambda>s. nat_set_root nm s \<noteq> None) [start..<nat_blocks nm])"

abbreviation (input) SETVEC_SIZE :: nat where "SETVEC_SIZE \<equiv> 32"

function collect_sets :: "nat_fmt \<Rightarrow> nm_info \<Rightarrow> nat \<Rightarrow> nat list \<Rightarrow> nat list" where
  "collect_sets f nm set_idx sets =
     (let setvec = gang_lookup_nat_set nm set_idx SETVEC_SIZE
      in if setvec = [] then sets
         else collect_sets f nm (last setvec + 1)
                (fold (adjust_nat_entry_set nm (NAT_JOURNAL_ENTRIES f - nats_in_cursum nm)) setvec sets))"
  by pat_completeness auto

lemma gang_lookup_set: "s \<in> set (gang_lookup_nat_set nm start nr) \<Longrightarrow> start \<le> s \<and> s < nat_blocks nm \<and> nat_set_root nm s \<noteq> None"
  unfolding gang_lookup_nat_set_def by (drule in_set_takeD) simp

termination collect_sets
proof (relation "measure (\<lambda>(f, nm, set_idx, sets). nat_blocks nm - set_idx)", goal_cases)
  case (2 f nm set_idx sets setvec)
  then have "set_idx \<le> last setvec" "last setvec < nat_blocks nm" using gang_lookup_set [OF last_in_set] by blast+
  then show ?case by simp
qed simp

declare collect_sets.simps [simp del]

definition update_nat_bits :: "nat_fmt \<Rightarrow> bool \<Rightarrow> nm_info \<Rightarrow> nat \<Rightarrow> (nat \<Rightarrow> f2fs_nat_entry) \<Rightarrow> nm_info" where
  "update_nat_bits f nat_bits_flag nm start_nid blk =
     (if \<not> enabled_nat_bits nat_bits_flag None then nm
      else let nat_index = start_nid div NAT_ENTRY_PER_BLOCK f;
               i0 = (if nat_index = 0 then 1 else 0);
               valid = i0 + length (filter (\<lambda>i. raw_block_addr (blk i) \<noteq> NULL_ADDR (nf_disk f)) [i0..<NAT_ENTRY_PER_BLOCK f])
           in nm\<lparr>empty_nat_bits := (empty_nat_bits nm)(nat_index := (valid = 0)),
                full_nat_bits := (full_nat_bits nm)(nat_index := (valid \<noteq> 0 \<and> valid = NAT_ENTRY_PER_BLOCK f))\<rparr>)"

text \<open>One entry of a set. A journal without a free slot cannot be written (\<open>f2fs_bug_on\<close>).\<close>

definition flush_nat_entry :: "nat_fmt \<Rightarrow> bool \<Rightarrow> nat \<Rightarrow> nat \<Rightarrow> nat \<Rightarrow> nm_info \<Rightarrow> nm_info" where
  "flush_nat_entry f to_journal dst start_nid nid nm =
     (case nat_root nm nid of None \<Rightarrow> nm
      | Some ne \<Rightarrow>
          (let nm = nm_bug_on (ni_blk_addr ne = NEW_ADDR (nf_disk f)) nm;
               raw = raw_nat_from_node_info ne;
               nm = (if to_journal
                     then (case f2fs_lookup_journal_in_cursum f nm nid True of
                             None \<Rightarrow> nm\<lparr>nm_fsck := True\<rparr>
                           | Some offset \<Rightarrow> put_in_journal nm offset nid raw)
                     else nm\<lparr>nat_blk := (nat_blk nm)(dst := (nat_blk nm dst)(nid - start_nid := raw))\<rparr>);
               nm = clear_nat_cache_dirty f nm nid (nat_reset_flag ne)
           in if ni_blk_addr ne = NULL_ADDR (nf_disk f) then add_free_nid f nm nid False True
              else update_free_nid_bitmap f nm nid False False))"

definition flush_nat_entry_set :: "nat_fmt \<Rightarrow> f2fs_geo \<Rightarrow> bool \<Rightarrow> bool \<Rightarrow> nat \<Rightarrow> nm_info \<Rightarrow> nm_info" where
  "flush_nat_entry_set f g nat_bits_flag umount sno nm =
     (case nat_set_root nm sno of None \<Rightarrow> nm
      | Some h \<Rightarrow>
          (let start_nid = sno * NAT_ENTRY_PER_BLOCK f;
               to_journal = (\<not> (enabled_nat_bits nat_bits_flag (Some umount) \<or> \<not> has_cursum_space f nm (unat (entry_cnt h))));
               (dst, nm) = (if to_journal then (0, nm) else get_next_nat_page f g nm start_nid);
               nm = fold (flush_nat_entry f to_journal dst start_nid) (entry_list h) nm;
               nm = (if to_journal then nm else update_nat_bits f nat_bits_flag nm start_nid (nat_blk nm dst))
           in case nat_set_root nm sno of
                None \<Rightarrow> nm
              | Some h \<Rightarrow> if entry_cnt h = 0 then nm\<lparr>nat_set_root := (nat_set_root nm)(sno := None)\<rparr> else nm))"

definition f2fs_flush_nat_entries :: "nat_fmt \<Rightarrow> f2fs_geo \<Rightarrow> bool \<Rightarrow> bool \<Rightarrow> nm_info \<Rightarrow> nm_info" where
  "f2fs_flush_nat_entries f g nat_bits_flag umount nm =
     (if dirty_nat_cnt nm = 0 then nm
      else let nm = (if enabled_nat_bits nat_bits_flag (Some umount) \<or> \<not> has_cursum_space f nm (unat (dirty_nat_cnt nm))
                     then remove_nats_in_journal f nm else nm)
           in fold (flush_nat_entry_set f g nat_bits_flag umount) (collect_sets f nm 0 []) nm)"

subsection \<open>The two copies\<close>

definition nat_addr :: "nat \<Rightarrow> nat \<Rightarrow> nat \<Rightarrow> bool \<Rightarrow> nat" where
  "nat_addr base l off b = base + (2 * (off div 2 ^ l) + of_bool b) * 2 ^ l + off mod 2 ^ l"

lemma nat_addr_inj: "nat_addr base l off b = nat_addr base l off' b' \<longleftrightarrow> off = off' \<and> b = b'"
proof
  assume "nat_addr base l off b = nat_addr base l off' b'"
  then have e: "2 * (off div 2 ^ l) + of_bool b = 2 * (off' div 2 ^ l) + of_bool b'" "off mod 2 ^ l = off' mod 2 ^ l"
    by (simp_all add: nat_addr_def seg_addr_eq)
  from e(1) have "odd (2 * (off div 2 ^ l) + of_bool b) = odd (2 * (off' div 2 ^ l) + of_bool b')" by (rule arg_cong)
  then have "b = b'" by simp
  moreover from this e(1) have "off div 2 ^ l = off' div 2 ^ l" by simp
  ultimately have "off div 2 ^ l = off' div 2 ^ l" "b = b'" by simp_all
  then show "off = off' \<and> b = b'" using e(2) by (metis div_mult_mod_eq)
qed simp

lemma current_nat_addr_eq:
  assumes "blocks_per_seg g = 2 ^ log_blocks_per_seg g"
  shows "current_nat_addr f g nm n = nat_addr (nat_blkaddr nm) (log_blocks_per_seg g) (NAT_BLOCK_OFFSET f n) (nat_bitmap nm (NAT_BLOCK_OFFSET f n))"
proof -
  let ?l = "log_blocks_per_seg g" and ?o = "NAT_BLOCK_OFFSET f n"
  have m: "?o AND (2 ^ ?l - 1) = ?o mod 2 ^ ?l" using take_bit_eq_mask [of ?l ?o] by (simp add: take_bit_eq_mod mask_eq_exp_minus_1)
  have "?o = ?o div 2 ^ ?l * 2 ^ ?l + ?o mod 2 ^ ?l" by (rule div_mult_mod_eq [symmetric])
  then have "nat_blkaddr nm + 2 * ?o - ?o mod 2 ^ ?l = nat_blkaddr nm + (2 * (?o div 2 ^ ?l)) * 2 ^ ?l + ?o mod 2 ^ ?l" by linarith
  then show ?thesis using m by (simp add: current_nat_addr_def Let_def assms nat_addr_def mult.commute algebra_simps)
qed

lemma xor_exp_clear:
  fixes q r :: nat
  assumes "r < 2 ^ l"
  shows "((2 * q) * 2 ^ l + r) XOR 2 ^ l = (2 * q + 1) * 2 ^ l + r"
proof -
  have "((2 * q) * 2 ^ l + r) div 2 ^ l = 2 * q" using assms by simp
  then have "\<not> bit ((2 * q) * 2 ^ l + r) l" by (simp add: bit_iff_odd)
  then have "((2 * q) * 2 ^ l + r) XOR 2 ^ l = (2 * q) * 2 ^ l + r + 2 ^ l"
    using set_bit_eq [of l "(2 * q) * 2 ^ l + r"] flip_bit_eq_if [of l "(2 * q) * 2 ^ l + r"] by (simp add: flip_bit_eq_xor push_bit_eq_mult)
  then show ?thesis by (simp add: algebra_simps)
qed

lemma next_nat_addr_eq: "next_nat_addr g nm (nat_addr (nat_blkaddr nm) (log_blocks_per_seg g) off b) = nat_addr (nat_blkaddr nm) (log_blocks_per_seg g) off (\<not> b)"
proof -
  let ?l = "log_blocks_per_seg g"
  let ?q = "off div 2 ^ ?l" and ?r = "off mod 2 ^ ?l"
  have up: "((2 * ?q) * 2 ^ ?l + ?r) XOR 2 ^ ?l = (2 * ?q + 1) * 2 ^ ?l + ?r" by (rule xor_exp_clear) simp
  have "((2 * ?q + 1) * 2 ^ ?l + ?r) XOR 2 ^ ?l = (2 * ?q) * 2 ^ ?l + ?r" unfolding up [symmetric] by (simp add: xor.assoc)
  with up have "((2 * ?q + of_bool b) * 2 ^ ?l + ?r) XOR 2 ^ ?l = (2 * ?q + of_bool (\<not> b)) * 2 ^ ?l + ?r" by (cases b) simp_all
  then show ?thesis by (simp add: next_nat_addr_def nat_addr_def push_bit_eq_mult)
qed

subsection \<open>Writing one entry\<close>

text \<open>A slot of the journal is reused or the one behind the last is taken.\<close>

lemma map_of_list_update:
  "distinct (map fst xs) \<Longrightarrow> i < length xs \<Longrightarrow> map_of (xs[i := (fst (xs ! i), v)]) = (map_of xs)(fst (xs ! i) \<mapsto> v)"
proof (induction xs arbitrary: i)
  case (Cons x xs)
  show ?case
  proof (cases i)
    case (Suc j)
    then have "fst (xs ! j) \<noteq> fst x" using Cons.prems by (metis distinct.simps(2) length_Cons list.simps(9) nth_map nth_mem length_map Suc_less_eq)
    then show ?thesis using Cons Suc by (auto simp: fun_eq_iff)
  qed (simp add: fun_eq_iff)
qed simp

lemma put_in_journal_spec:
  fixes raw :: f2fs_nat_entry
  assumes j: "distinct (map fst (nat_journal nm))" and off: "f2fs_lookup_journal_in_cursum f nm nid True = Some off"
  defines "nm' \<equiv> put_in_journal nm off nid raw"
  shows "map_of (nat_journal nm') = (map_of (nat_journal nm))(nid \<mapsto> raw)" "distinct (map fst (nat_journal nm'))"
    "fst ` set (nat_journal nm') = insert nid (fst ` set (nat_journal nm))" "length (nat_journal nm') \<le> length (nat_journal nm) + 1"
    "length (nat_journal nm') \<le> max (length (nat_journal nm)) (NAT_JOURNAL_ENTRIES f)"
proof -
  let ?es = "nat_journal nm"
  have "map_of (nat_journal nm') = (map_of ?es)(nid \<mapsto> raw) \<and> distinct (map fst (nat_journal nm')) \<and> fst ` set (nat_journal nm') = insert nid (fst ` set ?es)
    \<and> length (nat_journal nm') \<le> length ?es + 1 \<and> length (nat_journal nm') \<le> max (length ?es) (NAT_JOURNAL_ENTRIES f)"
  proof (cases "journal_find ?es 0 nid")
    case None
    then have new: "nid \<notin> fst ` set ?es" using journal_find_map_of(2) [of ?es nid] by (simp add: map_of_eq_None_iff)
    have "off = length ?es" "length ?es + 1 \<le> NAT_JOURNAL_ENTRIES f"
      using off None by (simp_all add: f2fs_lookup_journal_in_cursum_def has_cursum_space_def nats_in_cursum_def split: if_splits)
    then have "nat_journal nm' = ?es @ [(nid, raw)]" "length ?es + 1 \<le> NAT_JOURNAL_ENTRIES f" by (simp_all add: nm'_def put_in_journal_def)
    moreover have "map_of (?es @ [(nid, raw)]) = (map_of ?es)(nid \<mapsto> raw)"
      using new by (auto simp: map_add_def fun_eq_iff map_of_eq_None_iff [symmetric] split: option.split)
    ultimately show ?thesis using j new by simp
  next
    case (Some i)
    then have i: "i < length ?es" "fst (?es ! i) = nid" using journal_find_map_of(3) [of ?es nid i] by simp_all
    have "off = i" using off Some by (simp add: f2fs_lookup_journal_in_cursum_def)
    then have e: "nat_journal nm' = ?es[i := (nid, raw)]" using i by (simp add: nm'_def put_in_journal_def)
    have keys: "map fst (?es[i := (nid, raw)]) = map fst ?es" using i by (simp add: map_update list_update_same_conv)
    have "map_of (?es[i := (nid, raw)]) = (map_of ?es)(nid \<mapsto> raw)" using map_of_list_update [OF j i(1), of raw] i(2) by simp
    moreover have "fst ` set (?es[i := (nid, raw)]) = fst ` set ?es" using keys by (metis list.set_map)
    moreover have "nid \<in> fst ` set ?es" using i by force
    ultimately show ?thesis unfolding e using j keys by (simp add: insert_absorb)
  qed
  then show "map_of (nat_journal nm') = (map_of ?es)(nid \<mapsto> raw)" "distinct (map fst (nat_journal nm'))" "fst ` set (nat_journal nm') = insert nid (fst ` set ?es)"
    "length (nat_journal nm') \<le> length ?es + 1" "length (nat_journal nm') \<le> max (length ?es) (NAT_JOURNAL_ENTRIES f)" by blast+
qed

text \<open>
  What writing a set \<open>L\<close> of dirty entries does: the table a reader sees stays, the entries of \<open>L\<close> are clean and stored.
\<close>

definition clean_ne :: "node_info \<Rightarrow> node_info" where
  "clean_ne e = set_nat_flag (nat_reset_flag e) IS_DIRTY False"

lemma clean_ne_fields [simp]:
  "\<not> get_nat_flag (clean_ne e) IS_DIRTY" "get_nat_flag (clean_ne e) IS_PREALLOC = get_nat_flag e IS_PREALLOC" "get_nat_flag (clean_ne e) IS_CHECKPOINTED"
  "raw_nat_from_node_info (clean_ne e) = raw_nat_from_node_info e" "ni_blk_addr (clean_ne e) = ni_blk_addr e"
  by (simp_all add: clean_ne_def)

definition flushed :: "nat_fmt \<Rightarrow> f2fs_geo \<Rightarrow> nat set \<Rightarrow> nm_info \<Rightarrow> nm_info \<Rightarrow> bool" where
  "flushed f g L nm nm' \<longleftrightarrow> nat_inv f g nm' \<and> nat_lookup f g nm' = nat_lookup f g nm \<and> dirty_nids nm' = dirty_nids nm - L \<and> pre_nids nm' = pre_nids nm
     \<and> stored_nat f g nm' = (\<lambda>n. if n \<in> L then nat_lookup f g nm n else stored_nat f g nm n)
     \<and> nat_size nm' = nat_size nm \<and> nat_blkaddr nm' = nat_blkaddr nm \<and> nm_fsck nm' = nm_fsck nm
     \<and> (\<forall>n. nat_root nm' n = (if n \<in> L then map_option clean_ne (nat_root nm n) else nat_root nm n))"

lemma flushed_empty: "nat_inv f g nm \<Longrightarrow> flushed f g {} nm nm"
  by (simp add: flushed_def)

lemma flushed_trans:
  assumes a: "flushed f g A nm nm'" and b: "flushed f g B nm' nm''" and disj: "A \<inter> B = {}"
  shows "flushed f g (A \<union> B) nm nm''"
proof -
  have "stored_nat f g nm'' = (\<lambda>n. if n \<in> A \<union> B then nat_lookup f g nm n else stored_nat f g nm n)"
    using a b by (auto simp: flushed_def fun_eq_iff)
  moreover have "nat_root nm'' n = (if n \<in> A \<union> B then map_option clean_ne (nat_root nm n) else nat_root nm n)" for n
    using a b disj unfolding flushed_def by (metis Un_iff disjoint_iff)
  moreover have "dirty_nids nm'' = dirty_nids nm - (A \<union> B)" using a b by (auto simp: flushed_def)
  ultimately show ?thesis using a b unfolding flushed_def by metis
qed

text \<open>Where an entry is written: a slot of the journal, or the block that is current.\<close>

definition slot_ok :: "nat_fmt \<Rightarrow> f2fs_geo \<Rightarrow> nm_info \<Rightarrow> bool \<Rightarrow> nat \<Rightarrow> nat \<Rightarrow> nat \<Rightarrow> bool" where
  "slot_ok f g nm to_journal dst sno m = (if to_journal then length (nat_journal nm) + m \<le> NAT_JOURNAL_ENTRIES f
     else dst = current_nat_addr f g nm (sno * NAT_ENTRY_PER_BLOCK f) \<and> (\<forall>n \<in> fst ` set (nat_journal nm). NAT_BLOCK_OFFSET f n \<noteq> sno))"

lemma block_of_nid:
  assumes "0 < NAT_ENTRY_PER_BLOCK f"
  shows "NAT_BLOCK_OFFSET f (sno * NAT_ENTRY_PER_BLOCK f) = sno" "NAT_BLOCK_OFFSET f n = sno \<Longrightarrow> START_NID f n = sno * NAT_ENTRY_PER_BLOCK f"
    "NAT_BLOCK_OFFSET f n = NAT_BLOCK_OFFSET f n' \<Longrightarrow> current_nat_addr f g nm n = current_nat_addr f g nm n'"
    "NAT_BLOCK_OFFSET f n = NAT_BLOCK_OFFSET f n' \<Longrightarrow> n - START_NID f n = n' - START_NID f n' \<Longrightarrow> n = n'"
proof -
  have "n - START_NID f n = n mod NAT_ENTRY_PER_BLOCK f" for n by (simp add: START_NID_def minus_div_mult_eq_mod)
  then show "NAT_BLOCK_OFFSET f n = NAT_BLOCK_OFFSET f n' \<Longrightarrow> n - START_NID f n = n' - START_NID f n' \<Longrightarrow> n = n'"
    unfolding NAT_BLOCK_OFFSET_def by (metis div_mult_mod_eq)
qed (use assms in \<open>auto simp: NAT_BLOCK_OFFSET_def START_NID_def current_nat_addr_def\<close>)

text \<open>The writing step alone, before the entry is marked clean.\<close>

definition write_raw :: "nat_fmt \<Rightarrow> bool \<Rightarrow> nat \<Rightarrow> nat \<Rightarrow> nat \<Rightarrow> f2fs_nat_entry \<Rightarrow> nm_info \<Rightarrow> nm_info" where
  "write_raw f to_journal dst start_nid nid raw nm =
     (if to_journal
      then (case f2fs_lookup_journal_in_cursum f nm nid True of None \<Rightarrow> nm\<lparr>nm_fsck := True\<rparr> | Some offset \<Rightarrow> put_in_journal nm offset nid raw)
      else nm\<lparr>nat_blk := (nat_blk nm)(dst := (nat_blk nm dst)(nid - start_nid := raw))\<rparr>)"

lemma write_raw_spec:
  fixes raw :: f2fs_nat_entry
  assumes g: "blocks_per_seg g = 2 ^ log_blocks_per_seg g" and P: "0 < NAT_ENTRY_PER_BLOCK f" and j: "distinct (map fst (nat_journal nm))"
    "length (nat_journal nm) \<le> NAT_JOURNAL_ENTRIES f" and nid: "NAT_BLOCK_OFFSET f nid = sno" and ok: "slot_ok f g nm tj dst sno (Suc m)"
  defines "nm' \<equiv> write_raw f tj dst (sno * NAT_ENTRY_PER_BLOCK f) nid raw nm"
  shows "stored_nat f g nm' = (stored_nat f g nm)(nid := raw)" "distinct (map fst (nat_journal nm'))" "length (nat_journal nm') \<le> NAT_JOURNAL_ENTRIES f"
    "slot_ok f g nm' tj dst sno m" "fst ` set (nat_journal nm') = (if tj then insert nid (fst ` set (nat_journal nm)) else fst ` set (nat_journal nm))"
    "nat_view nm' = nat_view nm" "nat_size nm' = nat_size nm" "nid_view nm' = nid_view nm" "nm_fsck nm' = nm_fsck nm" "nat_blkaddr nm' = nat_blkaddr nm"
    "nat_bitmap nm' = nat_bitmap nm" "a \<noteq> dst \<or> tj \<Longrightarrow> nat_blk nm' a = nat_blk nm a" "length (nat_journal nm') \<le> length (nat_journal nm) + (if tj then 1 else 0)"
proof -
  have "stored_nat f g nm' = (stored_nat f g nm)(nid := raw) \<and> distinct (map fst (nat_journal nm')) \<and> length (nat_journal nm') \<le> NAT_JOURNAL_ENTRIES f
    \<and> slot_ok f g nm' tj dst sno m \<and> fst ` set (nat_journal nm') = (if tj then insert nid (fst ` set (nat_journal nm)) else fst ` set (nat_journal nm))
    \<and> nat_view nm' = nat_view nm \<and> nat_size nm' = nat_size nm \<and> nid_view nm' = nid_view nm \<and> nm_fsck nm' = nm_fsck nm \<and> nat_blkaddr nm' = nat_blkaddr nm
    \<and> nat_bitmap nm' = nat_bitmap nm \<and> (a \<noteq> dst \<or> tj \<longrightarrow> nat_blk nm' a = nat_blk nm a) \<and> length (nat_journal nm') \<le> length (nat_journal nm) + (if tj then 1 else 0)"
  proof (cases tj)
    case True
    have "length (nat_journal nm) + 1 \<le> NAT_JOURNAL_ENTRIES f" using ok True by (simp add: slot_ok_def)
    then obtain off where off: "f2fs_lookup_journal_in_cursum f nm nid True = Some off"
      by (cases "journal_find (nat_journal nm) 0 nid") (auto simp: f2fs_lookup_journal_in_cursum_def has_cursum_space_def nats_in_cursum_def)
    have e: "nm' = put_in_journal nm off nid raw" using True off by (simp add: nm'_def write_raw_def)
    note J = put_in_journal_spec [OF j(1) off, of raw, folded e]
    have "stored_nat f g nm' n = ((stored_nat f g nm)(nid := raw)) n" for n
      by (simp add: stored_nat_def J(1)) (simp add: e put_in_journal_def current_nat_addr_def Let_def split: option.split)
    then show ?thesis using True J(2-5) ok j(2) by (auto simp: fun_eq_iff slot_ok_def) (simp_all add: e put_in_journal_def nat_view_def nm_views)
  next
    case False
    have e: "nm' = nm\<lparr>nat_blk := (nat_blk nm)(dst := (nat_blk nm dst)(nid - sno * NAT_ENTRY_PER_BLOCK f := raw))\<rparr>" using False by (simp add: nm'_def write_raw_def)
    have dst: "dst = current_nat_addr f g nm (sno * NAT_ENTRY_PER_BLOCK f)" and nj: "\<And>n. NAT_BLOCK_OFFSET f n = sno \<Longrightarrow> map_of (nat_journal nm) n = None"
      using ok False by (auto simp: slot_ok_def map_of_eq_None_iff)
    have cur: "current_nat_addr f g nm' n = current_nat_addr f g nm n" for n by (simp add: e current_nat_addr_def)
    have jn: "nat_journal nm' = nat_journal nm" and blk: "nat_blk nm' = (nat_blk nm)(dst := (nat_blk nm dst)(nid - sno * NAT_ENTRY_PER_BLOCK f := raw))" by (simp_all add: e)
    have hit: "current_nat_addr f g nm n = dst \<longleftrightarrow> NAT_BLOCK_OFFSET f n = sno" for n
      unfolding dst by (auto simp: current_nat_addr_eq [OF g] nat_addr_inj block_of_nid [OF P])
    have "stored_nat f g nm' n = ((stored_nat f g nm)(nid := raw)) n" for n
    proof (cases "NAT_BLOCK_OFFSET f n = sno")
      case True
      then have "n - sno * NAT_ENTRY_PER_BLOCK f = nid - sno * NAT_ENTRY_PER_BLOCK f \<longleftrightarrow> n = nid"
        using block_of_nid(4) [OF P, of n nid] block_of_nid(2) [OF P] nid by (metis (no_types))
      moreover have "stored_nat f g nm' n = nat_blk nm' dst (n - sno * NAT_ENTRY_PER_BLOCK f)" "stored_nat f g nm n = nat_blk nm dst (n - sno * NAT_ENTRY_PER_BLOCK f)"
        unfolding stored_nat_def cur jn nj [OF True] using True hit [of n] block_of_nid(2) [OF P, of n sno] by simp_all
      ultimately show ?thesis by (simp add: blk)
    next
      case False
      then show ?thesis unfolding stored_nat_def cur jn using hit [of n] nid by (auto simp: blk split: option.split)
    qed
    then have "stored_nat f g nm' = (stored_nat f g nm)(nid := raw)" by (rule ext)
    moreover have "slot_ok f g nm' tj dst sno m" using ok False by (simp add: slot_ok_def cur jn)
    moreover have "nat_view nm' = nat_view nm \<and> nat_size nm' = nat_size nm \<and> nid_view nm' = nid_view nm \<and> nm_fsck nm' = nm_fsck nm \<and> nat_blkaddr nm' = nat_blkaddr nm
      \<and> nat_bitmap nm' = nat_bitmap nm" by (simp add: e nat_view_def nm_views)
    ultimately show ?thesis using False j by (simp add: jn blk)
  qed
  then show "stored_nat f g nm' = (stored_nat f g nm)(nid := raw)" "distinct (map fst (nat_journal nm'))" "length (nat_journal nm') \<le> NAT_JOURNAL_ENTRIES f"
    "slot_ok f g nm' tj dst sno m" "fst ` set (nat_journal nm') = (if tj then insert nid (fst ` set (nat_journal nm)) else fst ` set (nat_journal nm))"
    "nat_view nm' = nat_view nm" "nat_size nm' = nat_size nm" "nid_view nm' = nid_view nm" "nm_fsck nm' = nm_fsck nm" "nat_blkaddr nm' = nat_blkaddr nm"
    "nat_bitmap nm' = nat_bitmap nm" "a \<noteq> dst \<or> tj \<Longrightarrow> nat_blk nm' a = nat_blk nm a" "length (nat_journal nm') \<le> length (nat_journal nm) + (if tj then 1 else 0)"
    by blast+
qed

text \<open>What happens to the medium: slots of the journal, or entries of one block.\<close>

definition wrote :: "bool \<Rightarrow> nat \<Rightarrow> nat list \<Rightarrow> nm_info \<Rightarrow> nm_info \<Rightarrow> bool" where
  "wrote tj dst ns nm nm' \<longleftrightarrow> nat_bitmap nm' = nat_bitmap nm \<and> (\<forall>a. a \<noteq> dst \<or> tj \<longrightarrow> nat_blk nm' a = nat_blk nm a)
     \<and> fst ` set (nat_journal nm') = fst ` set (nat_journal nm) \<union> (if tj then set ns else {})
     \<and> length (nat_journal nm') \<le> length (nat_journal nm) + (if tj then length ns else 0)"

lemma wrote_Nil: "wrote tj dst [] nm nm"
  by (simp add: wrote_def)

lemma wrote_Cons: "wrote tj dst [n] nm nm' \<Longrightarrow> wrote tj dst ns nm' nm'' \<Longrightarrow> wrote tj dst (n # ns) nm nm''"
  by (auto simp: wrote_def)

lemma mediumD: "nat_medium nm' = nat_medium nm \<Longrightarrow> nat_bitmap nm' = nat_bitmap nm \<and> nat_blk nm' = nat_blk nm \<and> nat_journal nm' = nat_journal nm \<and> nat_blkaddr nm' = nat_blkaddr nm"
  by (simp add: nat_medium_def)

lemma slot_ok_cong: "nat_medium nm' = nat_medium nm \<Longrightarrow> slot_ok f g nm' tj dst sno m = slot_ok f g nm tj dst sno m"
  by (auto simp: slot_ok_def nat_medium_def current_nat_addr_def)

lemma flush_nat_entry_step:
  assumes g: "blocks_per_seg g = 2 ^ log_blocks_per_seg g" and inv: "nat_inv f g nm" and nid: "nid \<in> set_members f nm sno" and ok: "slot_ok f g nm tj dst sno (Suc m)"
  defines "nm' \<equiv> flush_nat_entry f tj dst (sno * NAT_ENTRY_PER_BLOCK f) nid nm"
  shows "flushed f g {nid} nm nm'" "slot_ok f g nm' tj dst sno m" "wrote tj dst [nid] nm nm'"
proof -
  note S = nat_strD [OF nat_invD(1) [OF inv]] and A = nat_agrD [OF nat_invD(2) [OF inv]]
  obtain ne where ne: "nat_root nm nid = Some ne" "get_nat_flag ne IS_DIRTY" "\<not> get_nat_flag ne IS_PREALLOC" and sno: "NAT_BLOCK_OFFSET f nid = sno"
    using nid by (auto simp: set_members_def dirty_nids_def pre_nids_def)
  have nn: "ni_blk_addr ne \<noteq> NEW_ADDR (nf_disk f)" using A(5) [OF ne(1)] ne(3) by simp
  define nm1 where "nm1 = write_raw f tj dst (sno * NAT_ENTRY_PER_BLOCK f) nid (raw_nat_from_node_info ne) nm"
  define nm2 where "nm2 = clear_nat_cache_dirty f nm1 nid (nat_reset_flag ne)"
  note W = write_raw_spec [OF g S(1) A(1,2) sno ok, where raw = "raw_nat_from_node_info ne", folded nm1_def]
  have "nm' = (if ni_blk_addr ne = NULL_ADDR (nf_disk f) then add_free_nid f nm2 nid False True else update_free_nid_bitmap f nm2 nid False False)"
    using ne(1) nn by (simp add: nm'_def flush_nat_entry_def Let_def nm2_def nm1_def write_raw_def)
  then have fr: "nat_frame nm2 nm'" by simp
  note R = nat_frameD [OF fr]
  have root1: "nat_root nm1 = nat_root nm" "dirty_nids nm1 = dirty_nids nm" "pre_nids nm1 = pre_nids nm" using W(6) by (simp_all add: nat_view_def dirty_nids_def pre_nids_def)
  have str1: "nat_str f nm1" using nat_invD(1) [OF inv] nat_str_cong [of nm1 nm f] W(6,7) by (simp add: nat_view_def)
  have "nat_root nm1 nid = Some ne" using ne(1) by (simp add: root1)
  then have str: "nat_str f nm2" unfolding nm2_def using ne(3) by (intro clear_nat_cache_dirty_str [OF str1 _ ne(2,3)]) simp_all
  have root2: "nat_root nm2 = (nat_root nm)(nid \<mapsto> clean_ne ne)" by (simp add: nm2_def root1 clean_ne_def)
  have med2: "nat_medium nm2 = nat_medium nm1" by (simp add: nm2_def)
  have st2: "stored_nat f g nm2 = (stored_nat f g nm)(nid := raw_nat_from_node_info ne)" using stored_cong [OF med2] W(1) by simp
  have dn: "nid \<in> dirty_nids nm" "nid \<notin> pre_nids nm" using nid by (simp_all add: set_members_def)
  have sz2: "nat_size nm2 = nat_size nm" using W(7) by (simp add: nm2_def)
  have mx: "max_nid nm2 = max_nid nm" "nat_journal nm2 = nat_journal nm1" using sz2 med2 by (simp_all add: nat_size_def nat_medium_def)
  have "fst ` set (nat_journal nm1) \<subseteq> {..<max_nid nm}" using A(3) W(5) S(4) ne(1) by auto
  moreover have dp2: "dirty_nids nm2 = dirty_nids nm - {nid}" "pre_nids nm2 = pre_nids nm" using nid_sets_upd [OF root2] dn ne(3) by simp_all
  ultimately have agr: "nat_agr f g nm2" unfolding nat_agr_def st2 root2 mx dp2
    using W(2,3) A(4,5,6) nn ne(3) by auto
  have look: "nat_lookup f g nm2 = nat_lookup f g nm" using ne(1) by (auto simp: nat_lookup_def fun_eq_iff root2 st2 split: option.split)
  have "nat_inv f g nm2" using str agr by (simp add: nat_inv_def)
  moreover note dp2
  moreover have "stored_nat f g nm2 = (\<lambda>n. if n \<in> {nid} then nat_lookup f g nm n else stored_nat f g nm n)" using ne(1) by (auto simp: st2 nat_lookup_def fun_eq_iff)
  moreover have "nat_size nm2 = nat_size nm" "nm_fsck nm2 = nm_fsck nm" "nat_blkaddr nm2 = nat_blkaddr nm" using W(7,9,10) mediumD [OF med2] by (simp_all add: nm2_def)
  ultimately show "flushed f g {nid} nm nm'" using mediumD [OF R(10)] look ne(1) unfolding flushed_def R by (auto simp: root2)
  show "slot_ok f g nm' tj dst sno m" using W(4) slot_ok_cong [OF med2] slot_ok_cong [OF R(10)] by simp
  show "wrote tj dst [nid] nm nm'" using W(5,11,12,13) mediumD [OF med2] mediumD [OF R(10)] by (auto simp: wrote_def)
qed

lemma flush_nat_entries_fold:
  assumes g: "blocks_per_seg g = 2 ^ log_blocks_per_seg g" and "nat_inv f g nm" and "distinct ns" and "set ns \<subseteq> set_members f nm sno" and "slot_ok f g nm tj dst sno (length ns)"
  defines "F \<equiv> flush_nat_entry f tj dst (sno * NAT_ENTRY_PER_BLOCK f)"
  shows "flushed f g (set ns) nm (fold F ns nm) \<and> wrote tj dst ns nm (fold F ns nm)"
  using assms(2-5)
proof (induction ns arbitrary: nm)
  case Nil
  then show ?case by (simp add: flushed_empty wrote_Nil)
next
  case (Cons n ns)
  have n: "n \<in> set_members f nm sno" using Cons.prems(3) by simp
  note st = flush_nat_entry_step [OF g Cons.prems(1) n, of tj dst "length ns", folded F_def]
  have s: "flushed f g {n} nm (F n nm)" "slot_ok f g (F n nm) tj dst sno (length ns)" "wrote tj dst [n] nm (F n nm)" using st Cons.prems(4) by simp_all
  then have "set_members f (F n nm) sno = set_members f nm sno - {n}" by (auto simp: set_members_def flushed_def)
  then have "set ns \<subseteq> set_members f (F n nm) sno" using Cons.prems(2,3) by auto
  moreover have "nat_inv f g (F n nm)" using s(1) by (simp add: flushed_def)
  ultimately have "flushed f g (set ns) (F n nm) (fold F ns (F n nm)) \<and> wrote tj dst ns (F n nm) (fold F ns (F n nm))"
    using Cons.IH Cons.prems(2) s(2) by simp
  then show ?case using flushed_trans [OF s(1), of "set ns"] wrote_Cons [OF s(3)] Cons.prems(2) by simp
qed

subsection \<open>Writing a set\<close>

lemma nat_inv_stored:
  assumes "nat_view nm' = nat_view nm" "nat_size nm' = nat_size nm" "nat_journal nm' = nat_journal nm" "stored_nat f g nm' = stored_nat f g nm"
  shows "nat_inv f g nm' = nat_inv f g nm" "nat_lookup f g nm' = nat_lookup f g nm" "dirty_nids nm' = dirty_nids nm" "pre_nids nm' = pre_nids nm"
    "nat_root nm' = nat_root nm"
proof -
  show root: "nat_root nm' = nat_root nm" using assms(1) by (simp add: nat_view_def)
  show dp: "dirty_nids nm' = dirty_nids nm" "pre_nids nm' = pre_nids nm" by (simp_all add: dirty_nids_def pre_nids_def root)
  show "nat_lookup f g nm' = nat_lookup f g nm" unfolding nat_lookup_def [abs_def] root assms(4) ..
  have "nat_str f nm' = nat_str f nm" using assms by (intro nat_str_cong) (simp_all add: nat_view_def)
  then show "nat_inv f g nm' = nat_inv f g nm" using assms by (simp add: nat_inv_def nat_agr_def root nat_size_def dp)
qed

lemma get_next_nat_page_spec:
  assumes g: "blocks_per_seg g = 2 ^ log_blocks_per_seg g" and inv: "nat_inv f g nm" and r: "get_next_nat_page f g nm (sno * NAT_ENTRY_PER_BLOCK f) = (dst, nm')"
  shows "flushed f g {} nm nm'" "nat_view nm' = nat_view nm" "nat_journal nm' = nat_journal nm" "dst = current_nat_addr f g nm' (sno * NAT_ENTRY_PER_BLOCK f)"
    "dst = nat_addr (nat_blkaddr nm) (log_blocks_per_seg g) sno (\<not> nat_bitmap nm sno)" "nat_bitmap nm' = (nat_bitmap nm)(sno := \<not> nat_bitmap nm sno)"
    "\<And>a. a \<noteq> dst \<Longrightarrow> nat_blk nm' a = nat_blk nm a" "nid_view nm' = nid_view nm"
proof -
  have P: "0 < NAT_ENTRY_PER_BLOCK f" using nat_strD(1) [OF nat_invD(1) [OF inv]] .
  note bo = block_of_nid(1) [OF P]
  define src where "src = current_nat_addr f g nm (sno * NAT_ENTRY_PER_BLOCK f)"
  have src: "src = nat_addr (nat_blkaddr nm) (log_blocks_per_seg g) sno (nat_bitmap nm sno)" by (simp add: src_def current_nat_addr_eq [OF g] bo)
  have "(dst, nm') = (next_nat_addr g nm src, nm\<lparr>nat_blk := (nat_blk nm)(next_nat_addr g nm src := nat_blk nm src), nat_bitmap := (nat_bitmap nm)(sno := \<not> nat_bitmap nm sno)\<rparr>)"
    using r by (auto simp: get_next_nat_page_def Let_def set_to_next_nat_def bo src_def)
  then have dst: "dst = next_nat_addr g nm src" and nm': "nm' = nm\<lparr>nat_blk := (nat_blk nm)(dst := nat_blk nm src), nat_bitmap := (nat_bitmap nm)(sno := \<not> nat_bitmap nm sno)\<rparr>" by auto
  show d: "dst = nat_addr (nat_blkaddr nm) (log_blocks_per_seg g) sno (\<not> nat_bitmap nm sno)" by (simp add: dst src next_nat_addr_eq)
  show v: "nat_view nm' = nat_view nm" "nat_journal nm' = nat_journal nm" "nid_view nm' = nid_view nm" "nat_bitmap nm' = (nat_bitmap nm)(sno := \<not> nat_bitmap nm sno)"
    "\<And>a. a \<noteq> dst \<Longrightarrow> nat_blk nm' a = nat_blk nm a" by (simp_all add: nm' nat_view_def nm_views)
  have base: "nat_blkaddr nm' = nat_blkaddr nm" "nat_size nm' = nat_size nm" "nm_fsck nm' = nm_fsck nm" by (simp_all add: nm' nat_size_def)
  show "dst = current_nat_addr f g nm' (sno * NAT_ENTRY_PER_BLOCK f)" by (simp add: current_nat_addr_eq [OF g] bo v(4) base d)
  have "nat_blk nm' (current_nat_addr f g nm' n) = nat_blk nm (current_nat_addr f g nm n)" for n
  proof (cases "NAT_BLOCK_OFFSET f n = sno")
    case True
    then show ?thesis by (simp add: current_nat_addr_eq [OF g] v(4) base d [symmetric] src [symmetric]) (simp add: nm')
  next
    case False
    then have "current_nat_addr f g nm' n = current_nat_addr f g nm n" "current_nat_addr f g nm n \<noteq> dst"
      by (simp_all add: current_nat_addr_eq [OF g] v(4) base d nat_addr_inj)
    then show ?thesis by (simp add: v(5))
  qed
  then have st: "stored_nat f g nm' = stored_nat f g nm" by (simp add: stored_nat_def fun_eq_iff v(2) split: option.split)
  then show "flushed f g {} nm nm'" using nat_inv_stored [OF v(1) base(2) v(2) st] inv base by (simp add: flushed_def)
qed

text \<open>The journal keys a set may write over: a set that goes to its block has none in the journal.\<close>

definition sets_medium :: "f2fs_geo \<Rightarrow> bool \<Rightarrow> nat set \<Rightarrow> nat \<Rightarrow> nm_info \<Rightarrow> nm_info \<Rightarrow> bool" where
  "sets_medium g tj L sno nm nm' \<longleftrightarrow> nat_bitmap nm' = (if tj then nat_bitmap nm else (nat_bitmap nm)(sno := \<not> nat_bitmap nm sno))
     \<and> (\<forall>a. a \<noteq> nat_addr (nat_blkaddr nm) (log_blocks_per_seg g) sno (\<not> nat_bitmap nm sno) \<or> tj \<longrightarrow> nat_blk nm' a = nat_blk nm a)
     \<and> fst ` set (nat_journal nm') = fst ` set (nat_journal nm) \<union> (if tj then L else {})
     \<and> length (nat_journal nm') \<le> length (nat_journal nm) + (if tj then card L else 0)"

lemma update_nat_bits_frame [simp]: "nat_frame nm (update_nat_bits f b nm s blk)"
  by (simp add: update_nat_bits_def Let_def nat_frame_def nm_views nat_view_def)

lemma set_list:
  assumes str: "nat_str f nm" and h: "nat_set_root nm sno = Some h"
  shows "distinct (entry_list h)" "set (entry_list h) = set_members f nm sno" "unat (entry_cnt h) = length (entry_list h)" "card (set_members f nm sno) = length (entry_list h)"
proof -
  note S = nat_strD [OF str]
  show l: "distinct (entry_list h)" "set (entry_list h) = set_members f nm sno" using S(8) [of sno] h by (simp_all add: set_ok_def)
  have "set_members f nm sno \<subseteq> dirty_nids nm" by (auto simp: set_members_def)
  then have "set_members f nm sno \<subseteq> {..<max_nid nm}" using S(4) dirty_sub_dom [of nm] by (meson subset_trans)
  then have "card (set_members f nm sno) \<le> max_nid nm" using card_mono [of "{..<max_nid nm}"] by fastforce
  moreover show c: "card (set_members f nm sno) = length (entry_list h)" using l by (metis distinct_card)
  ultimately show "unat (entry_cnt h) = length (entry_list h)" using S(3) S(8) [of sno] h by (simp add: set_ok_def unat_of_nat)
qed

text \<open>The emptied set is dropped.\<close>

lemma drop_empty_set:
  assumes inv: "nat_inv f g nm" and none: "set_members f nm sno = {}"
  defines "nm' \<equiv> (case nat_set_root nm sno of None \<Rightarrow> nm | Some h \<Rightarrow> if entry_cnt h = 0 then nm\<lparr>nat_set_root := (nat_set_root nm)(sno := None)\<rparr> else nm)"
  shows "flushed f g {} nm nm'" "nat_medium nm' = nat_medium nm" "nid_view nm' = nid_view nm"
proof -
  show m: "nat_medium nm' = nat_medium nm" "nid_view nm' = nid_view nm" by (simp_all add: nm'_def nm_views split: option.split)
  have f: "nat_root nm' = nat_root nm" "nat_entries nm' = nat_entries nm" "nat_cnt nm' = nat_cnt nm" "dirty_nat_cnt nm' = dirty_nat_cnt nm"
    "nat_size nm' = nat_size nm" "nm_fsck nm' = nm_fsck nm" by (simp_all add: nm'_def nat_size_def split: option.split)
  have dp: "dirty_nids nm' = dirty_nids nm" "pre_nids nm' = pre_nids nm" by (simp_all add: dirty_nids_def pre_nids_def f)
  have st: "stored_nat f g nm' = stored_nat f g nm" by (rule stored_cong [OF m(1)])
  have mem: "set_members f nm' s = set_members f nm s" for s by (simp add: set_members_def dp)
  have "set_ok (set_members f nm' s) (nat_set_root nm' s)" for s
    using nat_strD(8) [OF nat_invD(1) [OF inv], of s] none unfolding mem by (auto simp: nm'_def set_ok_def split: option.splits if_splits)
  then have "nat_str f nm'" using nat_strD [OF nat_invD(1) [OF inv]] f(5) unfolding nat_str_def dp f(1-4) by (simp add: nat_size_def)
  moreover have "nat_agr f g nm'" using nat_invD(2) [OF inv] mediumD [OF m(1)] f(5) by (simp add: nat_agr_def st dp f(1) nat_size_def)
  moreover have "nat_lookup f g nm' = nat_lookup f g nm" unfolding nat_lookup_def [abs_def] f(1) st ..
  ultimately show "flushed f g {} nm nm'" unfolding flushed_def using mediumD [OF m(1)] f(1,5,6) dp by (simp add: nat_inv_def st)
qed

lemma flush_nat_entry_set_spec:
  fixes nb um :: bool
  assumes g: "blocks_per_seg g = 2 ^ log_blocks_per_seg g" and inv: "nat_inv f g nm" and h: "nat_set_root nm sno = Some h"
  defines "L \<equiv> set_members f nm sno" and "nm' \<equiv> flush_nat_entry_set f g nb um sno nm"
  defines "tj \<equiv> \<not> (enabled_nat_bits nb (Some um)) \<and> length (nat_journal nm) + card L \<le> NAT_JOURNAL_ENTRIES f"
  assumes nj: "\<not> tj \<Longrightarrow> \<forall>n \<in> fst ` set (nat_journal nm). NAT_BLOCK_OFFSET f n \<noteq> sno"
  shows "flushed f g L nm nm' \<and> sets_medium g tj L sno nm nm'"
proof -
  note l = set_list [OF nat_invD(1) [OF inv] h, folded L_def]
  have P: "0 < NAT_ENTRY_PER_BLOCK f" using nat_strD(1) [OF nat_invD(1) [OF inv]] .
  have tj: "(\<not> (enabled_nat_bits nb (Some um) \<or> \<not> has_cursum_space f nm (unat (entry_cnt h)))) = tj"
    using l(3,4) by (auto simp: tj_def has_cursum_space_def nats_in_cursum_def)
  define pg where "pg = (if tj then (0, nm) else get_next_nat_page f g nm (sno * NAT_ENTRY_PER_BLOCK f))"
  obtain dst nm1 where pg': "pg = (dst, nm1)" by fastforce
  define nm2 where "nm2 = fold (flush_nat_entry f tj dst (sno * NAT_ENTRY_PER_BLOCK f)) (entry_list h) nm1"
  define nm3 where "nm3 = (if tj then nm2 else update_nat_bits f nb nm2 (sno * NAT_ENTRY_PER_BLOCK f) (nat_blk nm2 dst))"
  have eq: "nm' = (case nat_set_root nm3 sno of None \<Rightarrow> nm3 | Some h \<Rightarrow> if entry_cnt h = 0 then nm3\<lparr>nat_set_root := (nat_set_root nm3)(sno := None)\<rparr> else nm3)"
    unfolding nm'_def flush_nat_entry_set_def h option.case tj pg_def [symmetric] pg' prod.case Let_def nm3_def nm2_def ..
  note G = get_next_nat_page_spec [OF g inv]
  have one: "flushed f g {} nm nm1 \<and> nat_view nm1 = nat_view nm \<and> nat_journal nm1 = nat_journal nm \<and> slot_ok f g nm1 tj dst sno (length (entry_list h))
    \<and> nat_bitmap nm1 = (if tj then nat_bitmap nm else (nat_bitmap nm)(sno := \<not> nat_bitmap nm sno))
    \<and> (\<not> tj \<longrightarrow> dst = nat_addr (nat_blkaddr nm) (log_blocks_per_seg g) sno (\<not> nat_bitmap nm sno)) \<and> (\<forall>a. a \<noteq> dst \<or> tj \<longrightarrow> nat_blk nm1 a = nat_blk nm a)"
  proof (cases tj)
    case True
    then show ?thesis using pg' inv l(4) by (simp add: pg_def flushed_empty slot_ok_def tj_def)
  next
    case False
    then have "get_next_nat_page f g nm (sno * NAT_ENTRY_PER_BLOCK f) = (dst, nm1)" using pg' by (simp add: pg_def)
    note G = G [OF this]
    have "slot_ok f g nm1 tj dst sno (length (entry_list h))" unfolding slot_ok_def using False nj [OF False] G(3,4) by simp
    then show ?thesis using False G(1-3,5-7) by simp
  qed
  then have "nat_inv f g nm1" "set_members f nm1 sno = L" by (simp_all add: flushed_def L_def set_members_def)
  then have two: "flushed f g L nm1 nm2 \<and> wrote tj dst (entry_list h) nm1 nm2"
    unfolding nm2_def using flush_nat_entries_fold [OF g, of f nm1 "entry_list h" sno tj dst] one l(1,2) by simp
  have fr: "nat_frame nm2 nm3" by (simp add: nm3_def)
  note R = nat_frameD [OF fr]
  have three: "flushed f g {} nm2 nm3" using two mediumD [OF R(10)] unfolding flushed_def R by simp
  have "flushed f g L nm nm2" using flushed_trans [OF conjunct1 [OF one] conjunct1 [OF two]] by simp
  from flushed_trans [OF this three] have L3: "flushed f g L nm nm3" by simp
  then have "set_members f nm3 sno = {}" "nat_inv f g nm3" by (auto simp: flushed_def set_members_def L_def)
  note E = drop_empty_set [OF this(2,1), folded eq]
  have "flushed f g L nm nm'" using flushed_trans [OF L3 E(1)] by simp
  moreover have "sets_medium g tj L sno nm nm'"
  proof -
    have m: "nat_bitmap nm' = nat_bitmap nm2" "nat_blk nm' = nat_blk nm2" "nat_journal nm' = nat_journal nm2" using mediumD [OF R(10)] mediumD [OF E(2)] by simp_all
    show ?thesis using one two l(2,4) unfolding sets_medium_def m wrote_def by (cases tj) simp_all
  qed
  ultimately show ?thesis by simp
qed

subsection \<open>The order of the sets\<close>

lemma insert_by_cnt_set: "set (insert_by_cnt nm s xs) = insert s (set xs)" "distinct xs \<Longrightarrow> s \<notin> set xs \<Longrightarrow> distinct (insert_by_cnt nm s xs)"
  by (induction xs) auto

lemma adjust_nat_entry_set_set:
  "set (adjust_nat_entry_set nm mx s xs) = insert s (set xs)" "distinct xs \<Longrightarrow> s \<notin> set xs \<Longrightarrow> distinct (adjust_nat_entry_set nm mx s xs)"
  by (simp_all add: adjust_nat_entry_set_def insert_by_cnt_set)

lemma fold_adjust_set:
  "set (fold (adjust_nat_entry_set nm mx) vs xs) = set vs \<union> set xs"
  "distinct xs \<Longrightarrow> distinct vs \<Longrightarrow> set vs \<inter> set xs = {} \<Longrightarrow> distinct (fold (adjust_nat_entry_set nm mx) vs xs)"
  by (induction vs arbitrary: xs) (simp_all add: adjust_nat_entry_set_set)

lemma gang_lookup_split:
  assumes "gang_lookup_nat_set nm i n \<noteq> []"
  defines "v \<equiv> gang_lookup_nat_set nm i n"
  shows "set v = {s. i \<le> s \<and> s \<le> last v \<and> s < nat_blocks nm \<and> nat_set_root nm s \<noteq> None}" "distinct v"
proof -
  define ys where "ys = filter (\<lambda>s. nat_set_root nm s \<noteq> None) [i..<nat_blocks nm]"
  have v: "v = take n ys" by (simp add: v_def gang_lookup_nat_set_def ys_def)
  have ys: "sorted ys" "distinct ys" "set ys = {s. i \<le> s \<and> s < nat_blocks nm \<and> nat_set_root nm s \<noteq> None}" by (auto simp: ys_def sorted_wrt_filter)
  show "distinct v" by (simp add: v ys(2))
  have app: "ys = v @ drop n ys" by (simp add: v)
  then have s: "sorted (v @ drop n ys)" "distinct (v @ drop n ys)" using ys(1,2) by metis+
  have ne: "v \<noteq> []" using assms by simp
  have le: "s \<le> last v" if "s \<in> set v" for s
    using s(1) that ne by (metis append_butlast_last_id in_set_conv_decomp last_in_set order_refl sorted_append sorted_wrt_append set_ConsD rotate1.simps(2) set_rotate1)
  have gt: "last v < s" if "s \<in> set (drop n ys)" for s
    using s that last_in_set [OF ne] unfolding sorted_append distinct_append by (metis disjoint_iff le_neq_implies_less)
  show "set v = {s. i \<le> s \<and> s \<le> last v \<and> s < nat_blocks nm \<and> nat_set_root nm s \<noteq> None}"
  proof -
    have "set ys = set v \<union> set (drop n ys)" using app by (metis set_append)
    then show ?thesis using le gt ys(3) by (auto simp: not_le [symmetric])
  qed
qed

lemma collect_sets_set:
  "\<forall>s \<in> set xs. s < i \<Longrightarrow> distinct xs \<Longrightarrow> set (collect_sets f nm i xs) = set xs \<union> {s. i \<le> s \<and> s < nat_blocks nm \<and> nat_set_root nm s \<noteq> None} \<and> distinct (collect_sets f nm i xs)"
proof (induction f nm i xs rule: collect_sets.induct)
  case (1 f nm i xs)
  let ?v = "gang_lookup_nat_set nm i SETVEC_SIZE" and ?mx = "NAT_JOURNAL_ENTRIES f - nats_in_cursum nm"
  show ?case
  proof (cases "?v = []")
    case True
    then have "{s. i \<le> s \<and> s < nat_blocks nm \<and> nat_set_root nm s \<noteq> None} = {}" by (auto simp: gang_lookup_nat_set_def filter_empty_conv)
    moreover have "collect_sets f nm i xs = xs" using True by (subst collect_sets.simps) simp
    ultimately show ?thesis using 1(3) by auto
  next
    case False
    note v = gang_lookup_split [OF False]
    let ?ys = "fold (adjust_nat_entry_set nm ?mx) ?v xs"
    have "i \<le> last ?v" using v(1) last_in_set [OF False] by simp
    have ys: "set ?ys = set ?v \<union> set xs" "distinct ?ys" using fold_adjust_set(1) [of nm ?mx ?v xs] fold_adjust_set(2) [of xs ?v nm ?mx] v 1(2,3) by fastforce+
    have lt: "\<forall>s \<in> set ?ys. s < last ?v + 1" using ys(1) v(1) 1(2) \<open>i \<le> last ?v\<close> by auto
    have e: "collect_sets f nm i xs = collect_sets f nm (last ?v + 1) ?ys" using False by (subst collect_sets.simps) (simp add: Let_def)
    have "set ?v \<union> {s. last ?v + 1 \<le> s \<and> s < nat_blocks nm \<and> nat_set_root nm s \<noteq> None} = {s. i \<le> s \<and> s < nat_blocks nm \<and> nat_set_root nm s \<noteq> None}"
      unfolding v(1) using \<open>i \<le> last ?v\<close> by auto
    then show ?thesis unfolding e using 1(1) [OF refl False lt ys(2)] ys(1) by auto
  qed
qed

subsection \<open>Writing all sets\<close>

definition journal_room :: "nat_fmt \<Rightarrow> bool \<Rightarrow> nm_info \<Rightarrow> nat list \<Rightarrow> bool" where
  "journal_room f enabled nm ss \<longleftrightarrow> (\<forall>n \<in> fst ` set (nat_journal nm). NAT_BLOCK_OFFSET f n \<notin> set ss)
     \<or> \<not> enabled \<and> length (nat_journal nm) + (\<Sum>s\<leftarrow>ss. card (set_members f nm s)) \<le> NAT_JOURNAL_ENTRIES f"

definition old_kept :: "f2fs_geo \<Rightarrow> nat set \<Rightarrow> nm_info \<Rightarrow> nm_info \<Rightarrow> bool" where
  "old_kept g S nm nm' \<longleftrightarrow> nat_blkaddr nm' = nat_blkaddr nm \<and> (\<forall>s. s \<notin> S \<longrightarrow> nat_bitmap nm' s = nat_bitmap nm s)
     \<and> (\<forall>o'. nat_blk nm' (nat_addr (nat_blkaddr nm) (log_blocks_per_seg g) o' (nat_bitmap nm o'))
        = nat_blk nm (nat_addr (nat_blkaddr nm) (log_blocks_per_seg g) o' (nat_bitmap nm o')))
     \<and> (\<forall>a. (\<forall>s \<in> S. a \<noteq> nat_addr (nat_blkaddr nm) (log_blocks_per_seg g) s (\<not> nat_bitmap nm s)) \<longrightarrow> nat_blk nm' a = nat_blk nm a)"

lemma old_keptI:
  assumes "nat_blkaddr nm' = nat_blkaddr nm" "\<And>s. s \<notin> S \<Longrightarrow> nat_bitmap nm' s = nat_bitmap nm s"
    "\<And>a. (\<And>s. s \<in> S \<Longrightarrow> a \<noteq> nat_addr (nat_blkaddr nm) (log_blocks_per_seg g) s (\<not> nat_bitmap nm s)) \<Longrightarrow> nat_blk nm' a = nat_blk nm a"
  shows "old_kept g S nm nm'"
  using assms by (auto simp: old_kept_def nat_addr_inj)

lemma old_kept_Un:
  assumes a: "old_kept g A nm nm'" and b: "old_kept g B nm' nm''" and disj: "A \<inter> B = {}"
  shows "old_kept g (A \<union> B) nm nm''"
proof (rule old_keptI)
  show "nat_blkaddr nm'' = nat_blkaddr nm" "\<And>s. s \<notin> A \<union> B \<Longrightarrow> nat_bitmap nm'' s = nat_bitmap nm s" using a b by (auto simp: old_kept_def)
  fix x
  assume x: "\<And>s. s \<in> A \<union> B \<Longrightarrow> x \<noteq> nat_addr (nat_blkaddr nm) (log_blocks_per_seg g) s (\<not> nat_bitmap nm s)"
  have "nat_bitmap nm' s = nat_bitmap nm s" if "s \<in> B" for s using a that disj by (auto simp: old_kept_def)
  then have "nat_blk nm'' x = nat_blk nm' x" using b x a by (auto simp: old_kept_def)
  then show "nat_blk nm'' x = nat_blk nm x" using a x by (auto simp: old_kept_def)
qed

lemma flush_sets_fold:
  assumes g: "blocks_per_seg g = 2 ^ log_blocks_per_seg g" and "nat_inv f g nm" "distinct ss" "journal_room f (enabled_nat_bits nb (Some um)) nm ss"
  shows "flushed f g (\<Union>s \<in> set ss. set_members f nm s) nm (fold (flush_nat_entry_set f g nb um) ss nm)
    \<and> old_kept g (set ss) nm (fold (flush_nat_entry_set f g nb um) ss nm)"
  using assms(2-4)
proof (induction ss arbitrary: nm)
  case Nil
  then show ?case by (auto simp: flushed_empty intro: old_keptI)
next
  case (Cons s ss)
  let ?F = "flush_nat_entry_set f g nb um" and ?L = "set_members f nm s" and ?en = "enabled_nat_bits nb (Some um)"
  let ?nm = "?F s nm" and ?tj = "\<not> ?en \<and> length (nat_journal nm) + card (set_members f nm s) \<le> NAT_JOURNAL_ENTRIES f"
  have one: "flushed f g ?L nm ?nm \<and> old_kept g {s} nm ?nm \<and> fst ` set (nat_journal ?nm) \<subseteq> fst ` set (nat_journal nm) \<union> ?L
    \<and> (?tj \<longrightarrow> length (nat_journal ?nm) \<le> length (nat_journal nm) + card ?L)"
  proof (cases "nat_set_root nm s")
    case None
    then have "?L = {}" using nat_strD(8) [OF nat_invD(1) [OF Cons.prems(1)], of s] by (simp add: set_ok_def)
    moreover have "?nm = nm" using None by (simp add: flush_nat_entry_set_def)
    ultimately show ?thesis using Cons.prems(1) by (auto simp: flushed_empty intro: old_keptI)
  next
    case (Some h)
    have "\<forall>n \<in> fst ` set (nat_journal nm). NAT_BLOCK_OFFSET f n \<noteq> s" if "\<not> ?tj" using Cons.prems(3) that by (auto simp: journal_room_def)
    from flush_nat_entry_set_spec [OF g Cons.prems(1) Some this]
    have fl: "flushed f g ?L nm ?nm" and m: "sets_medium g ?tj ?L s nm ?nm" by simp_all
    have "old_kept g {s} nm ?nm" using m fl by (intro old_keptI) (auto simp: sets_medium_def flushed_def)
    then show ?thesis using fl m by (auto simp: sets_medium_def)
  qed
  have mem: "set_members f ?nm s' = set_members f nm s'" if "s' \<in> set ss" for s'
    using one that Cons.prems(2) by (auto simp: flushed_def set_members_def)
  have "journal_room f ?en ?nm ss"
  proof (cases "\<forall>n \<in> fst ` set (nat_journal nm). NAT_BLOCK_OFFSET f n \<notin> set (s # ss)")
    case True
    then have "\<forall>n \<in> fst ` set (nat_journal ?nm). NAT_BLOCK_OFFSET f n \<notin> set ss" using one Cons.prems(2) by (fastforce simp: set_members_def)
    then show ?thesis by (simp add: journal_room_def)
  next
    case False
    then have r: "\<not> ?en" "length (nat_journal nm) + card ?L + (\<Sum>s\<leftarrow>ss. card (set_members f nm s)) \<le> NAT_JOURNAL_ENTRIES f"
      using Cons.prems(3) by (auto simp: journal_room_def)
    have "(\<Sum>s\<leftarrow>ss. card (set_members f ?nm s)) = (\<Sum>s\<leftarrow>ss. card (set_members f nm s))" using mem by (intro arg_cong [where f = sum_list] map_cong) simp_all
    then show ?thesis using r one by (simp add: journal_room_def)
  qed
  moreover have "nat_inv f g ?nm" using one by (simp add: flushed_def)
  ultimately have ih: "flushed f g (\<Union>s \<in> set ss. set_members f ?nm s) ?nm (fold ?F ss ?nm) \<and> old_kept g (set ss) ?nm (fold ?F ss ?nm)"
    using Cons.IH Cons.prems(2) by simp
  moreover have "(\<Union>s \<in> set ss. set_members f ?nm s) = (\<Union>s \<in> set ss. set_members f nm s)" using mem by simp
  moreover have "?L \<inter> (\<Union>s \<in> set ss. set_members f nm s) = {}" using Cons.prems(2) by (auto simp: set_members_def)
  ultimately show ?case
    using flushed_trans [of f g ?L nm ?nm "\<Union>s \<in> set ss. set_members f nm s"] old_kept_Un [of g "{s}" nm ?nm "set ss"] one Cons.prems(2) by simp
qed

subsection \<open>Taking the journal back\<close>

lemma journal_to_cache_step:
  assumes inv: "nat_inv f g nm" and e: "map_of (nat_journal nm) nid = Some raw" and pre: "nid \<notin> pre_nids nm"
  defines "nm' \<equiv> journal_to_cache f (nid, raw) nm"
  shows "nat_inv f g nm'" "nat_lookup f g nm' = nat_lookup f g nm" "dirty_nids nm' = insert nid (dirty_nids nm)" "pre_nids nm' = pre_nids nm"
    "nat_medium nm' = nat_medium nm" "nid_view nm' = nid_view nm" "nat_size nm' = nat_size nm" "nm_fsck nm' = nm_fsck nm"
    "\<And>n e. nat_root nm' n = Some e \<Longrightarrow> (\<exists>e'. nat_root nm n = Some e' \<and> get_nat_flag e IS_CHECKPOINTED = get_nat_flag e' IS_CHECKPOINTED) \<or> n = nid"
proof -
  have st: "stored_nat f g nm nid = raw" using e by (simp add: stored_nat_def)
  have nid: "nid < max_nid nm" using nat_agrD(3) [OF nat_invD(2) [OF inv]] map_of_SomeD [OF e] by force
  define nm1 where "nm1 = (case nat_root nm nid of None \<Rightarrow> init_nat_entry nm nid (Some raw) | Some _ \<Rightarrow> nm)"
  have same: "nat_same f g nm nm1"
    using init_nat_entry_same [OF inv _ nid] nat_same_refl [OF inv] by (simp add: nm1_def st split: option.split)
  obtain ne where ne: "nat_root nm1 nid = Some ne" by (cases "nat_root nm nid") (auto simp: nm1_def)
  define nm2 where "nm2 = (if \<not> get_nat_flag ne IS_DIRTY \<and> raw_block_addr raw = NULL_ADDR (nf_disk f) then nm1\<lparr>available_nids := available_nids nm1 - 1\<rparr> else nm1)"
  have fr: "nat_frame nm1 nm2" by (simp add: nm2_def nat_frame_available)
  note R = nat_frameD [OF fr]
  have eq: "nm' = set_nat_cache_dirty f nm2 nid ne" using ne by (simp add: nm'_def journal_to_cache_def Let_def nm1_def [symmetric] nm2_def)
  have inv2: "nat_inv f g nm2" and s1: "nat_lookup f g nm2 = nat_lookup f g nm" "dirty_nids nm2 = dirty_nids nm" "pre_nids nm2 = pre_nids nm"
    using same by (simp_all add: nat_same_def R)
  have ne2: "nat_root nm2 nid = Some ne" using ne by (simp add: R)
  have "\<not> get_nat_flag ne IS_PREALLOC" using pre_flag [OF ne2] pre s1 by simp
  then have nn: "ni_blk_addr ne \<noteq> NEW_ADDR (nf_disk f)" using nat_agrD(5) [OF nat_invD(2) [OF inv2] ne2] by simp
  have "nat_str f nm'" unfolding eq using nn by (intro set_nat_cache_dirty_str [OF nat_invD(1) [OF inv2] ne2]) simp_all
  moreover have d: "dirty_nids nm' = insert nid (dirty_nids nm)" "pre_nids nm' = pre_nids nm"
    using nid_sets_upd [of nm' nm2 nid "dirty_ne f ne"] nn pre by (simp_all add: eq s1)
  moreover have "nat_agr f g nm'"
    by (rule nat_agr_root [OF nat_invD(2) [OF inv2]]) (use nn d s1 in \<open>auto simp: eq split: if_splits\<close>)
  ultimately show "nat_inv f g nm'" "dirty_nids nm' = insert nid (dirty_nids nm)" "pre_nids nm' = pre_nids nm" by (simp_all add: nat_inv_def)
  have "stored_nat f g nm' = stored_nat f g nm2" by (rule stored_cong) (simp add: eq)
  then show "nat_lookup f g nm' = nat_lookup f g nm" unfolding s1(1) [symmetric] using ne2 by (auto simp: nat_lookup_def fun_eq_iff eq split: option.split)
  show "nat_medium nm' = nat_medium nm" "nid_view nm' = nid_view nm" "nat_size nm' = nat_size nm" "nm_fsck nm' = nm_fsck nm"
    using same by (simp_all add: eq R nat_same_def) (simp add: nm2_def nid_view_def)
  show "(\<exists>e'. nat_root nm n = Some e' \<and> get_nat_flag e IS_CHECKPOINTED = get_nat_flag e' IS_CHECKPOINTED) \<or> n = nid" if "nat_root nm' n = Some e" for n e
    using that by (auto simp: eq R nm1_def split: if_splits option.splits)
qed

text \<open>All of the journal becomes dirty cached entries; then the journal can be emptied.\<close>

lemma journal_to_cache_fold:
  assumes "nat_inv f g nm" "set es \<subseteq> set (nat_journal nm)" "fst ` set es \<inter> pre_nids nm = {}"
  defines "J \<equiv> fold (journal_to_cache f) es"
  shows "nat_inv f g (J nm) \<and> nat_lookup f g (J nm) = nat_lookup f g nm \<and> dirty_nids (J nm) = dirty_nids nm \<union> fst ` set es \<and> pre_nids (J nm) = pre_nids nm
    \<and> nat_medium (J nm) = nat_medium nm \<and> nid_view (J nm) = nid_view nm \<and> nat_size (J nm) = nat_size nm \<and> nm_fsck (J nm) = nm_fsck nm
    \<and> (\<forall>n e. nat_root (J nm) n = Some e \<longrightarrow> (\<exists>e'. nat_root nm n = Some e' \<and> get_nat_flag e IS_CHECKPOINTED = get_nat_flag e' IS_CHECKPOINTED) \<or> n \<in> fst ` set es)"
  unfolding J_def using assms(1-3)
proof (induction es arbitrary: nm)
  case (Cons x es)
  obtain nid raw where x: "x = (nid, raw)" by fastforce
  have m: "map_of (nat_journal nm) nid = Some raw"
    using Cons.prems(2) x nat_agrD(1) [OF nat_invD(2) [OF Cons.prems(1)]] by (simp add: map_of_is_SomeI)
  have p: "nid \<notin> pre_nids nm" using Cons.prems(3) x by auto
  note st = journal_to_cache_step [OF Cons.prems(1) m p]
  let ?nm = "journal_to_cache f (nid, raw) nm"
  have "nat_journal ?nm = nat_journal nm" using mediumD [OF st(5)] by simp
  then have "set es \<subseteq> set (nat_journal ?nm)" "fst ` set es \<inter> pre_nids ?nm = {}" using Cons.prems(2,3) st(4) by auto
  note ih = Cons.IH [OF st(1) this]
  have "\<exists>e'. nat_root nm n = Some e' \<and> get_nat_flag e IS_CHECKPOINTED = get_nat_flag e' IS_CHECKPOINTED" if "nat_root (fold (journal_to_cache f) es ?nm) n = Some e" "n \<notin> fst ` set (x # es)" for n e
    using ih that st(9) x by (metis fst_conv image_insert insertI1 insertI2 list.simps(15))
  then show ?case using ih st(2-8) x by auto
qed simp

lemma remove_nats_in_journal_spec:
  assumes inv: "nat_inv f g nm" and pre: "fst ` set (nat_journal nm) \<inter> pre_nids nm = {}"
  defines "nm' \<equiv> remove_nats_in_journal f nm"
  shows "nat_inv f g nm'" "nat_lookup f g nm' = nat_lookup f g nm" "dirty_nids nm' = dirty_nids nm \<union> fst ` set (nat_journal nm)" "pre_nids nm' = pre_nids nm"
    "nat_journal nm' = []" "nat_blk nm' = nat_blk nm" "nat_bitmap nm' = nat_bitmap nm" "nat_blkaddr nm' = nat_blkaddr nm" "nid_view nm' = nid_view nm"
    "nat_size nm' = nat_size nm" "nm_fsck nm' = nm_fsck nm"
proof -
  define J where "J = fold (journal_to_cache f) (nat_journal nm) nm"
  note F = journal_to_cache_fold [OF inv subset_refl pre, folded J_def]
  have eq: "nm' = J\<lparr>nat_journal := []\<rparr>" by (simp add: nm'_def remove_nats_in_journal_def J_def)
  have med: "nat_journal J = nat_journal nm" "nat_blk J = nat_blk nm" "nat_bitmap J = nat_bitmap nm" "nat_blkaddr J = nat_blkaddr nm"
    using F mediumD by blast+
  show "nat_journal nm' = []" "nat_blk nm' = nat_blk nm" "nat_bitmap nm' = nat_bitmap nm" "nat_blkaddr nm' = nat_blkaddr nm" "nid_view nm' = nid_view nm"
    "nat_size nm' = nat_size nm" "nm_fsck nm' = nm_fsck nm" using F med by (simp_all add: eq nm_views)
  have root: "nat_root nm' = nat_root J" by (simp add: eq)
  have dp: "dirty_nids nm' = dirty_nids J" "pre_nids nm' = pre_nids J" by (simp_all add: dirty_nids_def pre_nids_def root)
  then show "dirty_nids nm' = dirty_nids nm \<union> fst ` set (nat_journal nm)" "pre_nids nm' = pre_nids nm" using F by auto
  have str: "nat_str f nm'" using nat_str_cong [of nm' J f] nat_invD(1) [of f g J] F by (simp add: eq nat_size_def)
  have st: "stored_nat f g nm' n = stored_nat f g J n" if "n \<notin> dirty_nids J" for n
  proof -
    have "map_of (nat_journal J) n = None" using that F med by (auto simp: map_of_eq_None_iff)
    then show ?thesis by (simp add: stored_nat_def) (simp add: eq current_nat_addr_def)
  qed
  have "nat_inv f g J" using F by blast
  note A = nat_agrD [OF nat_invD(2) [OF this]]
  have "raw_nat_from_node_info e = stored_nat f g nm' n" if "nat_root J n = Some e" "\<not> get_nat_flag e IS_DIRTY" for n e
    using A(6) [OF that] st [of n] that by (simp add: dirty_flag)
  moreover have "nat_journal nm' = []" by (simp add: eq)
  ultimately have agr: "nat_agr f g nm'" unfolding nat_agr_def dp root using A(4,5) st by simp
  show "nat_inv f g nm'" using str agr by (simp add: nat_inv_def)
  have "nat_lookup f g nm' n = nat_lookup f g J n" for n
  proof (cases "nat_root J n")
    case None
    then have "n \<notin> dirty_nids J" by (simp add: dirty_nids_def)
    then show ?thesis using st [of n] None by (simp add: nat_lookup_def root)
  qed (simp add: nat_lookup_def root)
  then show "nat_lookup f g nm' = nat_lookup f g nm" using F by (simp add: fun_eq_iff)
qed

subsection \<open>The flush\<close>

lemma stored_clean: "nat_inv f g nm \<Longrightarrow> n \<notin> dirty_nids nm \<Longrightarrow> stored_nat f g nm n = nat_lookup f g nm n"
  using nat_agrD(6) [OF nat_invD(2)] by (fastforce simp: nat_lookup_def dirty_nids_def split: option.split)

lemma sets_cover:
  assumes str: "nat_str f nm"
  shows "(\<Union>s \<in> set (collect_sets f nm 0 []). set_members f nm s) = dirty_nids nm - pre_nids nm" "distinct (collect_sets f nm 0 [])"
    "(\<Sum>s\<leftarrow>collect_sets f nm 0 []. card (set_members f nm s)) \<le> card (dirty_nids nm)"
proof -
  note S = nat_strD [OF str] and C = collect_sets_set [of "[]" 0 f nm]
  show d: "distinct (collect_sets f nm 0 [])" using C by simp
  have "set_members f nm (NAT_BLOCK_OFFSET f n) \<noteq> {} \<and> NAT_BLOCK_OFFSET f n < nat_blocks nm" if "n \<in> dirty_nids nm - pre_nids nm" for n
  proof -
    have "n \<in> {..<max_nid nm}" using that subset_trans [OF dirty_sub_dom S(4)] by blast
    then have "n < nat_blocks nm * NAT_ENTRY_PER_BLOCK f" using S(2) by simp
    then show ?thesis using that by (auto simp: set_members_def NAT_BLOCK_OFFSET_def less_mult_imp_div_less)
  qed
  moreover have "nat_set_root nm s \<noteq> None" if "set_members f nm s \<noteq> {}" for s using S(8) [of s] that by (auto simp: set_ok_def)
  ultimately have "NAT_BLOCK_OFFSET f n \<in> set (collect_sets f nm 0 [])" if "n \<in> dirty_nids nm - pre_nids nm" for n using C that by simp
  then show u: "(\<Union>s \<in> set (collect_sets f nm 0 []). set_members f nm s) = dirty_nids nm - pre_nids nm" by (auto simp: set_members_def)
  have fin: "finite (set_members f nm s)" for s by (rule finite_subset [OF _ nat_str_finite(2) [OF str]]) (auto simp: set_members_def)
  have "(\<Sum>s\<leftarrow>collect_sets f nm 0 []. card (set_members f nm s)) = (\<Sum>s \<in> set (collect_sets f nm 0 []). card (set_members f nm s))"
    using d by (simp add: sum_list_distinct_conv_sum_set)
  also have "\<dots> = card (\<Union>s \<in> set (collect_sets f nm 0 []). set_members f nm s)"
    using fin by (intro card_UN_disjoint [symmetric]) (auto simp: set_members_def)
  also have "\<dots> \<le> card (dirty_nids nm)" unfolding u by (intro card_mono nat_str_finite(2) [OF str]) auto
  finally show "(\<Sum>s\<leftarrow>collect_sets f nm 0 []. card (set_members f nm s)) \<le> card (dirty_nids nm)" .
qed

lemma dirty_nat_cnt_card:
  assumes "nat_str f nm"
  shows "unat (dirty_nat_cnt nm) = card (dirty_nids nm)"
proof -
  have "dirty_nids nm \<subseteq> {..<max_nid nm}" using nat_strD(4) [OF assms] dirty_sub_dom [of nm] by (rule subset_trans [rotated])
  then have "card (dirty_nids nm) \<le> max_nid nm" using card_mono [of "{..<max_nid nm}"] by fastforce
  then show ?thesis using nat_strD(3,10) [OF assms] by (simp add: unat_of_nat)
qed

lemma f2fs_flush_nat_entries_inv:
  fixes nb um :: bool
  assumes g: "blocks_per_seg g = 2 ^ log_blocks_per_seg g" and inv: "nat_inv f g nm" and pre: "fst ` set (nat_journal nm) \<inter> pre_nids nm = {}"
  defines "nm' \<equiv> f2fs_flush_nat_entries f g nb um nm"
  shows "nat_inv f g nm'" "nat_lookup f g nm' = nat_lookup f g nm" "dirty_nids nm' = pre_nids nm" "pre_nids nm' = pre_nids nm"
    "\<And>n. n \<notin> pre_nids nm \<Longrightarrow> stored_nat f g nm' n = nat_lookup f g nm n"
    "stored_nat f g (nm'\<lparr>nat_bitmap := nat_bitmap nm, nat_journal := nat_journal nm\<rparr>) = stored_nat f g nm"
    "nat_size nm' = nat_size nm" "nm_fsck nm' = nm_fsck nm"
proof -
  have all: "nat_inv f g nm' \<and> nat_lookup f g nm' = nat_lookup f g nm \<and> dirty_nids nm' = pre_nids nm \<and> pre_nids nm' = pre_nids nm
    \<and> nat_size nm' = nat_size nm \<and> nm_fsck nm' = nm_fsck nm \<and> (\<exists>S. old_kept g S nm nm')"
  proof (cases "dirty_nat_cnt nm = 0")
    case True
    then have "dirty_nids nm = {}" using dirty_nat_cnt_card [OF nat_invD(1) [OF inv]] nat_str_finite(2) [OF nat_invD(1) [OF inv]] by simp
    moreover from this have "pre_nids nm = {}" using nat_strD(7) [OF nat_invD(1) [OF inv]] by simp
    moreover have "old_kept g {} nm nm" by (rule old_keptI) simp_all
    ultimately show ?thesis using True inv by (auto simp: nm'_def f2fs_flush_nat_entries_def)
  next
    case False
    let ?en = "enabled_nat_bits nb (Some um)"
    define nm1 where "nm1 = (if ?en \<or> \<not> has_cursum_space f nm (unat (dirty_nat_cnt nm)) then remove_nats_in_journal f nm else nm)"
    note R = remove_nats_in_journal_spec [OF inv pre]
    have one: "nat_inv f g nm1 \<and> nat_lookup f g nm1 = nat_lookup f g nm \<and> pre_nids nm1 = pre_nids nm \<and> nat_blk nm1 = nat_blk nm \<and> nat_bitmap nm1 = nat_bitmap nm
      \<and> nat_blkaddr nm1 = nat_blkaddr nm \<and> nat_size nm1 = nat_size nm \<and> nm_fsck nm1 = nm_fsck nm" using R inv by (simp add: nm1_def)
    note sc = sets_cover [OF nat_invD(1), of f g nm1]
    have "journal_room f ?en nm1 (collect_sets f nm1 0 [])"
    proof (cases "?en \<or> \<not> has_cursum_space f nm (unat (dirty_nat_cnt nm))")
      case True
      then show ?thesis using R(5) by (simp add: journal_room_def nm1_def)
    next
      case False
      then have "nm1 = nm" "\<not> ?en" "unat (dirty_nat_cnt nm) + length (nat_journal nm) \<le> NAT_JOURNAL_ENTRIES f"
        by (simp_all add: nm1_def has_cursum_space_def nats_in_cursum_def)
      then show ?thesis using sets_cover(3) [OF nat_invD(1) [OF inv]] dirty_nat_cnt_card [OF nat_invD(1) [OF inv]] by (simp add: journal_room_def)
    qed
    from flush_sets_fold [OF g _ _ this] one sc(1,2)
    have "flushed f g (dirty_nids nm1 - pre_nids nm1) nm1 nm' \<and> old_kept g (set (collect_sets f nm1 0 [])) nm1 nm'"
      using False by (simp add: nm'_def f2fs_flush_nat_entries_def nm1_def [symmetric] Let_def)
    moreover have "pre_nids nm1 \<subseteq> dirty_nids nm1" using nat_strD(7) [OF nat_invD(1), of f g nm1] one by simp
    ultimately show ?thesis using one by (auto simp: flushed_def old_kept_def)
  qed
  show I: "nat_inv f g nm'" "nat_lookup f g nm' = nat_lookup f g nm" and D: "dirty_nids nm' = pre_nids nm" and "pre_nids nm' = pre_nids nm"
    "nat_size nm' = nat_size nm" "nm_fsck nm' = nm_fsck nm" using all by blast+
  have K: "\<exists>S. old_kept g S nm nm'" using all by blast
  show "stored_nat f g nm' n = nat_lookup f g nm n" if "n \<notin> pre_nids nm" for n using stored_clean [OF I(1), of n] that D I(2) by simp
  from K have "nat_blkaddr nm' = nat_blkaddr nm" "\<And>n. nat_blk nm' (current_nat_addr f g nm n) = nat_blk nm (current_nat_addr f g nm n)"
    by (auto simp: old_kept_def current_nat_addr_eq [OF g])
  then show "stored_nat f g (nm'\<lparr>nat_bitmap := nat_bitmap nm, nat_journal := nat_journal nm\<rparr>) = stored_nat f g nm"
    by (simp add: stored_nat_def fun_eq_iff current_nat_addr_eq [OF g] split: option.split)
qed

end
