(* ===== verification/Nid_Safety.thy ===== *)
theory Nid_Safety
  imports Nat_Flush
begin

text \<open>
  Free node ids are free: the invariant that ties the list of free ids and the bitmaps of scanned table blocks to the node address table, and its
  preservation by building the list, handing out ids, changing addresses and writing the table.
\<close>

subsection \<open>The list\<close>

definition free_nids :: "nm_info \<Rightarrow> nat set" where
  "free_nids nm = {n. free_nid_root nm n = Some FREE_NID}"

definition held_nids :: "nm_info \<Rightarrow> nat set" where
  "held_nids nm = {n. free_nid_root nm n = Some PREALLOC_NID}"

definition nid_str :: "nm_info \<Rightarrow> bool" where
  "nid_str nm \<longleftrightarrow> distinct (free_nid_list nm) \<and> set (free_nid_list nm) = free_nids nm
     \<and> nid_cnt nm FREE_NID = of_nat (length (free_nid_list nm)) \<and> dom (free_nid_root nm) \<subseteq> {0<..<max_nid nm}"

lemma nid_strD:
  assumes "nid_str nm"
  shows "distinct (free_nid_list nm)" "set (free_nid_list nm) = free_nids nm" "nid_cnt nm FREE_NID = of_nat (length (free_nid_list nm))"
    "dom (free_nid_root nm) \<subseteq> {0<..<max_nid nm}"
  using assms by (simp_all add: nid_str_def)

lemma nid_str_cong: "nid_view nm' = nid_view nm \<Longrightarrow> nat_size nm' = nat_size nm \<Longrightarrow> nid_str nm' = nid_str nm"
  "nid_view nm' = nid_view nm \<Longrightarrow> free_nids nm' = free_nids nm" "nid_view nm' = nid_view nm \<Longrightarrow> held_nids nm' = held_nids nm"
  by (simp_all add: nid_str_def nid_view_def nat_size_def free_nids_def held_nids_def)

lemma insert_free_nid_str:
  assumes "nid_str nm" "0 < nid" "nid < max_nid nm"
  shows "nid_str (insert_free_nid nm nid FREE_NID)"
    "free_nids (insert_free_nid nm nid FREE_NID) = (if nid \<in> held_nids nm then free_nids nm else insert nid (free_nids nm))"
    "held_nids (insert_free_nid nm nid FREE_NID) = held_nids nm"
    "free_nid_bitmap (insert_free_nid nm nid FREE_NID) = free_nid_bitmap nm" "nat_block_bitmap (insert_free_nid nm nid FREE_NID) = nat_block_bitmap nm"
proof -
  let ?nm = "insert_free_nid nm nid FREE_NID"
  show "free_nid_bitmap ?nm = free_nid_bitmap nm" "nat_block_bitmap ?nm = nat_block_bitmap nm" by (simp_all add: insert_free_nid_def Let_def inc_nid_cnt_def)
  show f: "free_nids ?nm = (if nid \<in> held_nids nm then free_nids nm else insert nid (free_nids nm))" "held_nids ?nm = held_nids nm"
    by (cases "free_nid_root nm nid" rule: option.exhaust; (cases "the (free_nid_root nm nid)")?;
        auto simp: insert_free_nid_def Let_def inc_nid_cnt_def free_nids_def held_nids_def)+
  show "nid_str ?nm"
  proof (cases "free_nid_root nm nid")
    case None
    then have "nid \<notin> free_nids nm" "nid \<notin> held_nids nm" by (simp_all add: free_nids_def held_nids_def)
    then show ?thesis using assms None f(1) by (auto simp: nid_str_def insert_free_nid_def Let_def inc_nid_cnt_def)
  qed (use assms in \<open>simp add: insert_free_nid_def\<close>)
qed

lemma remove_free_nid_entry_str:
  assumes "nid_str nm" "free_nid_root nm nid = Some st"
  shows "nid_str (remove_free_nid_entry nm nid st)" "free_nids (remove_free_nid_entry nm nid st) = free_nids nm - {nid}"
    "held_nids (remove_free_nid_entry nm nid st) = held_nids nm - {nid}"
    "free_nid_bitmap (remove_free_nid_entry nm nid st) = free_nid_bitmap nm" "nat_block_bitmap (remove_free_nid_entry nm nid st) = nat_block_bitmap nm"
proof -
  let ?nm = "remove_free_nid_entry nm nid st"
  note S = nid_strD [OF assms(1)]
  show b: "free_nid_bitmap ?nm = free_nid_bitmap nm" "nat_block_bitmap ?nm = nat_block_bitmap nm" by (simp_all add: remove_free_nid_entry_def Let_def dec_nid_cnt_def)
  have root: "free_nid_root ?nm = (free_nid_root nm)(nid := None)" by (simp add: remove_free_nid_entry_def Let_def dec_nid_cnt_def)
  then show f: "free_nids ?nm = free_nids nm - {nid}" "held_nids ?nm = held_nids nm - {nid}" by (auto simp: free_nids_def held_nids_def)
  have mx: "max_nid ?nm = max_nid nm" by (simp add: remove_free_nid_entry_def Let_def dec_nid_cnt_def)
  show "nid_str ?nm"
  proof (cases st)
    case FREE_NID
    then have m: "nid \<in> set (free_nid_list nm)" using assms(2) S(2) by (simp add: free_nids_def)
    have "free_nid_list ?nm = remove1 nid (free_nid_list nm)" "nid_cnt ?nm FREE_NID = nid_cnt nm FREE_NID - 1"
      using FREE_NID by (simp_all add: remove_free_nid_entry_def Let_def dec_nid_cnt_def)
    then show ?thesis using S Suc_length_remove1 [OF m] by (auto simp: nid_str_def f root mx)
  next
    case PREALLOC_NID
    then have "nid \<notin> free_nids nm" using assms(2) by (simp add: free_nids_def)
    moreover have "free_nid_list ?nm = free_nid_list nm" "nid_cnt ?nm FREE_NID = nid_cnt nm FREE_NID"
      using PREALLOC_NID by (simp_all add: remove_free_nid_entry_def Let_def dec_nid_cnt_def)
    ultimately show ?thesis using S by (auto simp: nid_str_def f root mx)
  qed
qed

lemma move_free_nid_str:
  assumes "nid_str nm" "free_nid_root nm nid = Some st" "st \<noteq> st'"
  shows "nid_str (move_free_nid nm nid st st')" "free_nids (move_free_nid nm nid st st') = (if st' = FREE_NID then insert nid (free_nids nm) else free_nids nm - {nid})"
    "held_nids (move_free_nid nm nid st st') = (if st' = FREE_NID then held_nids nm - {nid} else insert nid (held_nids nm))"
    "free_nid_bitmap (move_free_nid nm nid st st') = free_nid_bitmap nm" "nat_block_bitmap (move_free_nid nm nid st st') = nat_block_bitmap nm"
proof -
  let ?nm = "move_free_nid nm nid st st'"
  note S = nid_strD [OF assms(1)]
  show b: "free_nid_bitmap ?nm = free_nid_bitmap nm" "nat_block_bitmap ?nm = nat_block_bitmap nm"
    by (cases st'; simp add: move_free_nid_def Let_def dec_nid_cnt_def inc_nid_cnt_def)+
  have root: "free_nid_root ?nm = (free_nid_root nm)(nid \<mapsto> st')" by (cases st') (simp_all add: move_free_nid_def Let_def dec_nid_cnt_def inc_nid_cnt_def)
  show f: "free_nids ?nm = (if st' = FREE_NID then insert nid (free_nids nm) else free_nids nm - {nid})"
    "held_nids ?nm = (if st' = FREE_NID then held_nids nm - {nid} else insert nid (held_nids nm))"
    using nid_state.exhaust [of st'] unfolding free_nids_def held_nids_def root by (auto split: if_splits)
  have mx: "max_nid ?nm = max_nid nm" by (cases st') (simp_all add: move_free_nid_def Let_def dec_nid_cnt_def inc_nid_cnt_def)
  show "nid_str ?nm"
  proof (cases st')
    case FREE_NID
    then have "st = PREALLOC_NID" using assms(3) by (cases st) simp_all
    then have m: "nid \<notin> free_nids nm" using assms(2) by (simp add: free_nids_def)
    have "free_nid_list ?nm = free_nid_list nm @ [nid]" "nid_cnt ?nm FREE_NID = nid_cnt nm FREE_NID + 1"
      using FREE_NID \<open>st = PREALLOC_NID\<close> by (simp_all add: move_free_nid_def Let_def dec_nid_cnt_def inc_nid_cnt_def)
    then show ?thesis unfolding nid_str_def f(1) root mx using S m assms(2) FREE_NID by auto
  next
    case PREALLOC_NID
    then have "st = FREE_NID" using assms(3) by (cases st) simp_all
    then have m: "nid \<in> set (free_nid_list nm)" using assms(2) S(2) by (simp add: free_nids_def)
    have "free_nid_list ?nm = remove1 nid (free_nid_list nm)" "nid_cnt ?nm FREE_NID = nid_cnt nm FREE_NID - 1"
      using PREALLOC_NID \<open>st = FREE_NID\<close> by (simp_all add: move_free_nid_def Let_def dec_nid_cnt_def inc_nid_cnt_def)
    then show ?thesis unfolding nid_str_def f(1) root mx using S Suc_length_remove1 [OF m] assms(2) PREALLOC_NID by auto
  qed
qed

subsection \<open>The bitmaps\<close>

text \<open>The bit of an id, in a table block that was scanned.\<close>

definition nid_bit :: "nat_fmt \<Rightarrow> nm_info \<Rightarrow> nat \<Rightarrow> bool" where
  "nid_bit f nm n \<longleftrightarrow> free_nid_bitmap nm (NAT_BLOCK_OFFSET f n) (n - START_NID f n)"

lemma update_free_nid_bitmap_bit:
  assumes P: "0 < NAT_ENTRY_PER_BLOCK f"
  shows "nid_bit f (update_free_nid_bitmap f nm nid b build) n
      = (if n = nid \<and> nat_block_bitmap nm (NAT_BLOCK_OFFSET f nid) then b else nid_bit f nm n)"
    "nat_block_bitmap (update_free_nid_bitmap f nm nid b build) = nat_block_bitmap nm"
    "free_nid_root (update_free_nid_bitmap f nm nid b build) = free_nid_root nm"
    "free_nid_list (update_free_nid_bitmap f nm nid b build) = free_nid_list nm" "nid_cnt (update_free_nid_bitmap f nm nid b build) = nid_cnt nm"
proof -
  show "nat_block_bitmap (update_free_nid_bitmap f nm nid b build) = nat_block_bitmap nm"
    "free_nid_root (update_free_nid_bitmap f nm nid b build) = free_nid_root nm"
    "free_nid_list (update_free_nid_bitmap f nm nid b build) = free_nid_list nm" "nid_cnt (update_free_nid_bitmap f nm nid b build) = nid_cnt nm"
    by (simp_all add: update_free_nid_bitmap_def Let_def)
  let ?o = "NAT_BLOCK_OFFSET f nid" and ?i = "nid - START_NID f nid"
  have e: "free_nid_bitmap (update_free_nid_bitmap f nm nid b build) =
      (if nat_block_bitmap nm ?o then (free_nid_bitmap nm)(?o := (free_nid_bitmap nm ?o)(?i := b)) else free_nid_bitmap nm)"
    by (auto simp: update_free_nid_bitmap_def Let_def fun_eq_iff)
  show "nid_bit f (update_free_nid_bitmap f nm nid b build) n
      = (if n = nid \<and> nat_block_bitmap nm (NAT_BLOCK_OFFSET f nid) then b else nid_bit f nm n)"
    using block_of_nid(4) [OF P, of n nid] unfolding nid_bit_def e by auto
qed

lemma update_free_nid_bitmap_sets:
  assumes "0 < NAT_ENTRY_PER_BLOCK f"
  shows "free_nids (update_free_nid_bitmap f nm nid b build) = free_nids nm" "held_nids (update_free_nid_bitmap f nm nid b build) = held_nids nm"
    "nid_str (update_free_nid_bitmap f nm nid b build) = nid_str nm"
proof -
  show f: "free_nids (update_free_nid_bitmap f nm nid b build) = free_nids nm" "held_nids (update_free_nid_bitmap f nm nid b build) = held_nids nm"
    by (simp_all add: free_nids_def held_nids_def update_free_nid_bitmap_bit [OF assms])
  have "max_nid (update_free_nid_bitmap f nm nid b build) = max_nid nm" by (rule nat_frameD(7)) simp
  then show "nid_str (update_free_nid_bitmap f nm nid b build) = nid_str nm"
    by (simp add: nid_str_def f(1) update_free_nid_bitmap_bit [OF assms])
qed

subsection \<open>The invariant\<close>

text \<open>
  A free id has no address in the stored table and no unwritten change; while the list is built this is not yet known of the ids in \<open>X\<close>. The
  bit of an id may be stale only while the journal or the cache overrule the table block. A node deleted since the last checkpoint is marked as not checkpointed.
\<close>

abbreviation NULLA :: "nat_fmt \<Rightarrow> nat" where "NULLA f \<equiv> NULL_ADDR (nf_disk f)"

definition jkeys :: "nm_info \<Rightarrow> nat set" where
  "jkeys nm = fst ` set (nat_journal nm)"

definition unused :: "nat_fmt \<Rightarrow> f2fs_geo \<Rightarrow> nm_info \<Rightarrow> nat \<Rightarrow> bool" where
  "unused f g nm n \<longleftrightarrow> raw_block_addr (stored_nat f g nm n) = NULLA f"

definition deleted_marked :: "nat_fmt \<Rightarrow> nm_info \<Rightarrow> bool" where
  "deleted_marked f nm \<longleftrightarrow> (\<forall>n e. nat_root nm n = Some e \<longrightarrow> get_nat_flag e IS_DIRTY \<longrightarrow> ni_blk_addr e = NULLA f \<longrightarrow> \<not> get_nat_flag e IS_CHECKPOINTED)"

definition bits_ok :: "nat_fmt \<Rightarrow> f2fs_geo \<Rightarrow> nm_info \<Rightarrow> bool" where
  "bits_ok f g nm \<longleftrightarrow> (\<forall>n. nid_bit f nm n \<longrightarrow> nat_block_bitmap nm (NAT_BLOCK_OFFSET f n) \<and> (n \<notin> dirty_nids nm \<longrightarrow> n \<notin> jkeys nm \<longrightarrow> unused f g nm n))"

definition nid_inv :: "nat_fmt \<Rightarrow> f2fs_geo \<Rightarrow> nat set \<Rightarrow> nm_info \<Rightarrow> bool" where
  "nid_inv f g X nm \<longleftrightarrow> nat_inv f g nm \<and> nid_str nm \<and> (\<forall>n \<in> free_nids nm. n \<notin> dirty_nids nm \<and> (n \<notin> X \<longrightarrow> unused f g nm n)) \<and> bits_ok f g nm \<and> deleted_marked f nm"

lemma nid_invD:
  assumes "nid_inv f g X nm"
  shows "nat_inv f g nm" "nid_str nm" "n \<in> free_nids nm \<Longrightarrow> n \<notin> dirty_nids nm" "n \<in> free_nids nm \<Longrightarrow> n \<notin> X \<Longrightarrow> unused f g nm n" "bits_ok f g nm" "deleted_marked f nm"
  using assms by (auto simp: nid_inv_def)

lemma bits_okD:
  assumes "bits_ok f g nm" "nid_bit f nm n"
  shows "nat_block_bitmap nm (NAT_BLOCK_OFFSET f n)" "n \<notin> dirty_nids nm \<Longrightarrow> n \<notin> jkeys nm \<Longrightarrow> unused f g nm n"
  using assms by (auto simp: bits_ok_def)

lemma nat_frame_unused:
  assumes "nat_frame nm nm'"
  shows "unused f g nm' = unused f g nm" "jkeys nm' = jkeys nm" "deleted_marked f nm' = deleted_marked f nm"
  using nat_frameD [OF assms] by (simp_all add: unused_def [abs_def] jkeys_def deleted_marked_def)

text \<open>For an operation on the free ids alone.\<close>

lemma nid_inv_frame:
  assumes inv: "nid_inv f g X nm" and fr: "nat_frame nm nm'" and str: "nid_str nm'"
    and free: "\<And>n. n \<in> free_nids nm' \<Longrightarrow> n \<in> free_nids nm \<or> n \<notin> dirty_nids nm \<and> (n \<notin> X \<longrightarrow> unused f g nm n)"
    and bits: "\<And>n. nid_bit f nm' n \<Longrightarrow> nid_bit f nm n \<or> nat_block_bitmap nm' (NAT_BLOCK_OFFSET f n) \<and> (n \<notin> dirty_nids nm \<longrightarrow> n \<notin> jkeys nm \<longrightarrow> unused f g nm n)"
    and blocks: "\<And>s. nat_block_bitmap nm s \<Longrightarrow> nat_block_bitmap nm' s"
  shows "nid_inv f g X nm'"
proof -
  note D = nid_invD [OF inv] and R = nat_frameD [OF fr] and U = nat_frame_unused [OF fr]
  have "bits_ok f g nm'" unfolding bits_ok_def R(4) U using bits blocks D(5) by (auto simp: bits_ok_def)
  then show ?thesis unfolding nid_inv_def R(1,4) U using D(1-4,6) str free by blast
qed

lemma not_blocked_clean:
  assumes "nat_inv f g nm" "deleted_marked f nm" "\<not> nat_blocks_nid f nm nid"
  shows "nid \<notin> dirty_nids nm"
  using assms(2,3) by (auto simp: nat_blocks_nid_def dirty_nids_def deleted_marked_def)

lemma add_free_nid_build:
  assumes inv: "nid_inv f g X nm" and nid: "nid < max_nid nm"
    and c: "nid \<notin> dirty_nids nm \<Longrightarrow> nid \<notin> X \<Longrightarrow> unused f g nm nid" "update \<Longrightarrow> nid \<notin> dirty_nids nm \<Longrightarrow> nid \<notin> jkeys nm \<Longrightarrow> unused f g nm nid"
  shows "nid_inv f g X (add_free_nid f nm nid True update)" "held_nids (add_free_nid f nm nid True update) = held_nids nm"
    "nat_block_bitmap (add_free_nid f nm nid True update) = nat_block_bitmap nm"
proof -
  let ?nm = "add_free_nid f nm nid True update"
  note D = nid_invD [OF inv]
  have P: "0 < NAT_ENTRY_PER_BLOCK f" using nat_strD(1) [OF nat_invD(1) [OF D(1)]] .
  have "nid_inv f g X ?nm \<and> held_nids ?nm = held_nids nm \<and> nat_block_bitmap ?nm = nat_block_bitmap nm"
  proof (cases "nid = 0")
    case True
    then show ?thesis using inv by (simp add: add_free_nid_def)
  next
    case False
    define r where "r = (\<not> nat_blocks_nid f nm nid \<and> free_nid_root nm nid \<noteq> Some PREALLOC_NID)"
    define nm1 where "nm1 = (if \<not> nat_blocks_nid f nm nid \<and> free_nid_root nm nid = None then insert_free_nid nm nid FREE_NID else nm)"
    have eq: "?nm = (if update then update_free_nid_bitmap f nm1 nid r True else nm1)"
    proof -
      consider "free_nid_root nm nid = None" | "free_nid_root nm nid = Some FREE_NID" | "free_nid_root nm nid = Some PREALLOC_NID"
        by (metis nid_state.exhaust option.exhaust)
      then show ?thesis
        by cases (use False in \<open>simp_all add: add_free_nid_def r_def nm1_def Let_def\<close>)
    qed
    have clean: "nid \<notin> dirty_nids nm" if "\<not> nat_blocks_nid f nm nid" using not_blocked_clean [OF D(1,6) that] .
    note I = insert_free_nid_str [OF D(2) _ nid]
    have f1: "nat_frame nm nm1" "nid_str nm1" "held_nids nm1 = held_nids nm" "free_nid_bitmap nm1 = free_nid_bitmap nm" "nat_block_bitmap nm1 = nat_block_bitmap nm"
      "\<And>n. n \<in> free_nids nm1 \<Longrightarrow> n \<in> free_nids nm \<or> n = nid \<and> \<not> nat_blocks_nid f nm nid"
      using I False D(2) by (auto simp: nm1_def split: if_splits)
    have inv1: "nid_inv f g X nm1"
      using f1(4-6) clean c(1) by (intro nid_inv_frame [OF inv f1(1,2)]) (auto simp: nid_bit_def)
    show ?thesis
    proof (cases update)
      case True
      note B = update_free_nid_bitmap_bit [OF P, of nm1 nid r True] and U = update_free_nid_bitmap_sets [OF P, of nm1 nid r True]
      have k1: "dirty_nids nm1 = dirty_nids nm" "jkeys nm1 = jkeys nm" "unused f g nm1 = unused f g nm"
        using nat_frameD(4) [OF f1(1)] nat_frame_unused [OF f1(1)] by simp_all
      have "nid_inv f g X (update_free_nid_bitmap f nm1 nid r True)"
        using c(2) [OF True] U(1) by (intro nid_inv_frame [OF inv1]) (auto simp: B U k1 f1(2) split: if_splits)
      then show ?thesis using eq True B(2) U(2) f1(3,5) by simp
    qed (use inv1 f1(3,5) eq in simp)
  qed
  then show "nid_inv f g X ?nm" "held_nids ?nm = held_nids nm" "nat_block_bitmap ?nm = nat_block_bitmap nm" by blast+
qed

lemma remove_free_nid_inv:
  assumes inv: "nid_inv f g X nm"
  shows "nid_inv f g X (remove_free_nid nm nid)" "held_nids (remove_free_nid nm nid) = held_nids nm" "free_nids (remove_free_nid nm nid) = free_nids nm - {nid}"
proof -
  have "nid_inv f g X (remove_free_nid nm nid) \<and> held_nids (remove_free_nid nm nid) = held_nids nm \<and> free_nids (remove_free_nid nm nid) = free_nids nm - {nid}"
  proof (cases "free_nid_root nm nid = Some FREE_NID")
    case True
    note R = remove_free_nid_entry_str [OF nid_invD(2) [OF inv] True]
    have e: "remove_free_nid nm nid = remove_free_nid_entry nm nid FREE_NID" using True by (simp add: remove_free_nid_def)
    have "nid \<notin> held_nids nm" using True by (simp add: held_nids_def)
    then show ?thesis unfolding e using R
      by (intro conjI nid_inv_frame [OF inv remove_free_nid_entry_frame [OF True]]) (auto simp: nid_bit_def)
  next
    case False
    then show ?thesis using inv by (auto simp: remove_free_nid_def free_nids_def)
  qed
  then show "nid_inv f g X (remove_free_nid nm nid)" "held_nids (remove_free_nid nm nid) = held_nids nm" "free_nids (remove_free_nid nm nid) = free_nids nm - {nid}" by blast+
qed

subsection \<open>Building the list\<close>

text \<open>What every step of the building keeps.\<close>

definition built :: "nat_fmt \<Rightarrow> f2fs_geo \<Rightarrow> nat set \<Rightarrow> nm_info \<Rightarrow> nm_info \<Rightarrow> bool" where
  "built f g X nm nm' \<longleftrightarrow> nid_inv f g X nm' \<and> nat_view nm' = nat_view nm \<and> nat_medium nm' = nat_medium nm \<and> nat_size nm' = nat_size nm \<and> held_nids nm' = held_nids nm
     \<and> available_nids nm' = available_nids nm"

lemma built_refl: "nid_inv f g X nm \<Longrightarrow> built f g X nm nm"
  by (simp add: built_def)

lemma built_trans: "built f g X nm nm' \<Longrightarrow> built f g X nm' nm'' \<Longrightarrow> built f g X nm nm''"
  by (simp add: built_def)

lemma builtD:
  assumes "built f g X nm nm'"
  shows "nid_inv f g X nm'" "dirty_nids nm' = dirty_nids nm" "jkeys nm' = jkeys nm" "unused f g nm' = unused f g nm" "max_nid nm' = max_nid nm" "held_nids nm' = held_nids nm"
    "nat_journal nm' = nat_journal nm" "nat_blk nm' = nat_blk nm" "nat_blocks nm' = nat_blocks nm"
proof -
  have v: "nat_view nm' = nat_view nm" "nat_medium nm' = nat_medium nm" "nat_size nm' = nat_size nm" using assms by (simp_all add: built_def)
  show "nid_inv f g X nm'" "held_nids nm' = held_nids nm" using assms by (simp_all add: built_def)
  show "dirty_nids nm' = dirty_nids nm" "max_nid nm' = max_nid nm" "nat_journal nm' = nat_journal nm" using nat_view_eq [OF v] by simp_all
  then show "jkeys nm' = jkeys nm" "unused f g nm' = unused f g nm" using nat_view_eq(3) [OF v] by (simp_all add: jkeys_def unused_def [abs_def])
  show "nat_blk nm' = nat_blk nm" "nat_blocks nm' = nat_blocks nm" using v by (simp_all add: nat_medium_def nat_size_def)
qed

lemma free_ops_available [simp]:
  "available_nids (update_free_nid_bitmap f nm nid b build) = available_nids nm" "available_nids (insert_free_nid nm nid st) = available_nids nm"
  "available_nids (remove_free_nid_entry nm nid st) = available_nids nm" "available_nids (add_free_nid f nm nid True update) = available_nids nm"
  "available_nids (remove_free_nid nm nid) = available_nids nm" "available_nids (move_free_nid nm nid st st') = available_nids nm"
proof -
  show u: "available_nids (update_free_nid_bitmap f nm nid b build) = available_nids nm" for nm b build by (simp add: update_free_nid_bitmap_def Let_def)
  show i: "available_nids (insert_free_nid nm nid st) = available_nids nm" for nm st by (simp add: insert_free_nid_def Let_def inc_nid_cnt_def)
  show r: "available_nids (remove_free_nid_entry nm nid st) = available_nids nm" for nm st by (simp add: remove_free_nid_entry_def Let_def dec_nid_cnt_def)
  show "available_nids (add_free_nid f nm nid True update) = available_nids nm" by (simp add: add_free_nid_def Let_def u i)
  show "available_nids (remove_free_nid nm nid) = available_nids nm" by (simp add: remove_free_nid_def r)
  show "available_nids (move_free_nid nm nid st st') = available_nids nm" by (cases st') (simp_all add: move_free_nid_def Let_def dec_nid_cnt_def inc_nid_cnt_def)
qed

lemma built_frame: "nid_inv f g X nm' \<Longrightarrow> nat_frame nm nm' \<Longrightarrow> held_nids nm' = held_nids nm \<Longrightarrow> available_nids nm' = available_nids nm \<Longrightarrow> built f g X nm nm'"
  by (simp add: built_def nat_frame_def)

lemma nid_inv_bug_on: "nid_inv f g X nm \<Longrightarrow> built f g X nm (nm_bug_on c nm)"
proof -
  assume inv: "nid_inv f g X nm"
  have v: "nat_view (nm_bug_on c nm) = nat_view nm" by (simp add: nat_view_def)
  note E = nat_view_eq [OF v nm_bug_on_fields(6,8)]
  have "free_nids (nm_bug_on c nm) = free_nids nm" "held_nids (nm_bug_on c nm) = held_nids nm" "nid_bit f (nm_bug_on c nm) = nid_bit f nm"
    by (simp_all add: free_nids_def held_nids_def nid_bit_def [abs_def])
  moreover have "unused f g (nm_bug_on c nm) = unused f g nm" "jkeys (nm_bug_on c nm) = jkeys nm" "deleted_marked f (nm_bug_on c nm) = deleted_marked f nm"
    by (simp_all add: unused_def [abs_def] E jkeys_def deleted_marked_def)
  ultimately show ?thesis using inv by (simp add: built_def v nid_inv_def E nid_str_def bits_ok_def)
qed

lemma update_bitmap_clear:
  assumes inv: "nid_inv f g X nm"
  shows "built f g X nm (update_free_nid_bitmap f nm nid False build)"
proof -
  have P: "0 < NAT_ENTRY_PER_BLOCK f" using nat_strD(1) [OF nat_invD(1) [OF nid_invD(1) [OF inv]]] .
  note B = update_free_nid_bitmap_bit [OF P, of nm nid False build] and U = update_free_nid_bitmap_sets [OF P, of nm nid False build]
  have "nid_inv f g X (update_free_nid_bitmap f nm nid False build)"
    using nid_invD(2) [OF inv] by (intro nid_inv_frame [OF inv]) (auto simp: B U split: if_splits)
  then show ?thesis by (intro built_frame) (simp_all add: U)
qed

lemma add_free_nid_built:
  assumes "nid_inv f g X nm" "nid < max_nid nm" "nid \<notin> dirty_nids nm \<Longrightarrow> nid \<notin> X \<Longrightarrow> unused f g nm nid"
    "update \<Longrightarrow> nid \<notin> dirty_nids nm \<Longrightarrow> nid \<notin> jkeys nm \<Longrightarrow> unused f g nm nid"
  shows "built f g X nm (add_free_nid f nm nid True update)"
  using add_free_nid_build [OF assms] by (intro built_frame) simp_all

text \<open>A table block: ids the journal overrules are left to the scan of the journal.\<close>

lemma scan_nat_loop_built:
  assumes "nid_inv f g (jkeys nm) nm" "i = nid mod NAT_ENTRY_PER_BLOCK f \<or> i = NAT_ENTRY_PER_BLOCK f" "i < NAT_ENTRY_PER_BLOCK f \<Longrightarrow> NAT_BLOCK_OFFSET f nid = sno"
    "blk = nat_blk nm (current_nat_addr f g nm (sno * NAT_ENTRY_PER_BLOCK f))"
  shows "built f g (jkeys nm) nm (scan_nat_loop f blk nm i nid)"
  using assms
proof (induction f blk nm i nid rule: scan_nat_loop.induct)
  case (1 f blk nm i nid)
  let ?P = "NAT_ENTRY_PER_BLOCK f" and ?K = "jkeys nm"
  show ?case
  proof (cases "i \<ge> ?P \<or> nid \<ge> max_nid nm")
    case True
    then show ?thesis using built_refl [OF 1(2)] by (simp add: scan_nat_loop.simps)
  next
    case False
    have P: "0 < ?P" using nat_strD(1) [OF nat_invD(1) [OF nid_invD(1) [OF 1(2)]]] .
    have i: "i = nid mod ?P" "NAT_BLOCK_OFFSET f nid = sno" "nid < max_nid nm" using 1(3,4) False by auto
    have un: "unused f g nm nid \<longleftrightarrow> raw_block_addr (blk i) = NULLA f" if "nid \<notin> ?K"
    proof -
      have "current_nat_addr f g nm nid = current_nat_addr f g nm (sno * ?P)" using i(2) by (intro block_of_nid(3) [OF P]) (simp add: block_of_nid(1) [OF P])
      moreover have "nid - START_NID f nid = i" by (simp add: i(1) START_NID_def minus_div_mult_eq_mod)
      moreover have "map_of (nat_journal nm) nid = None" using that by (simp add: jkeys_def map_of_eq_None_iff)
      ultimately show ?thesis by (simp add: unused_def stored_nat_def 1(5))
    qed
    define nm1 where "nm1 = nm_bug_on (raw_block_addr (blk i) = NEW_ADDR (nf_disk f)) nm"
    define nm2 where "nm2 = (if raw_block_addr (blk i) = NULLA f then add_free_nid f nm1 nid True True else update_free_nid_bitmap f nm1 nid False True)"
    have b1: "built f g ?K nm nm1" unfolding nm1_def by (rule nid_inv_bug_on [OF 1(2)])
    note E1 = builtD [OF b1]
    have b2: "built f g ?K nm1 nm2"
    proof (cases "raw_block_addr (blk i) = NULLA f")
      case True
      have u: "nid \<notin> ?K \<Longrightarrow> unused f g nm1 nid" using un True E1(4) by simp
      have "built f g ?K nm1 (add_free_nid f nm1 nid True True)"
        by (rule add_free_nid_built [OF E1(1)]) (use i(3) u E1(3,5) in simp_all)
      then show ?thesis using True by (simp add: nm2_def)
    next
      case False
      then show ?thesis unfolding nm2_def using update_bitmap_clear [OF E1(1)] by simp
    qed
    have b: "built f g ?K nm nm2" by (rule built_trans [OF b1 b2])
    note E = builtD [OF b]
    have next': "i + 1 = (nid + 1) mod ?P \<or> i + 1 = ?P" "i + 1 < ?P \<Longrightarrow> NAT_BLOCK_OFFSET f (nid + 1) = sno"
      using i(1,2) False P by (auto simp: NAT_BLOCK_OFFSET_def mod_Suc div_Suc split: if_splits)
    have "nat_medium nm2 = nat_medium nm" using b by (simp add: built_def)
    then have "blk = nat_blk nm2 (current_nat_addr f g nm2 (sno * ?P))" using 1(5) by (simp add: nat_medium_def current_nat_addr_def)
    from 1(1) [OF False refl nm1_def nm2_def] E(1) next' this
    have "built f g (jkeys nm2) nm2 (scan_nat_loop f blk nm2 (i + 1) (nid + 1))" by (simp add: E(3))
    then have "built f g ?K nm (scan_nat_loop f blk nm2 (i + 1) (nid + 1))" using built_trans [OF b] by (simp add: E(3))
    moreover have "scan_nat_loop f blk nm i nid = scan_nat_loop f blk nm2 (i + 1) (nid + 1)"
      using False by (subst scan_nat_loop.simps) (simp add: Let_def nm1_def nm2_def)
    ultimately show ?thesis by simp
  qed
qed

lemma mark_block_built:
  assumes inv: "nid_inv f g X nm"
  shows "built f g X nm (nm\<lparr>nat_block_bitmap := (nat_block_bitmap nm)(s := True)\<rparr>)"
proof -
  define nm1 where "nm1 = nm\<lparr>nat_block_bitmap := (nat_block_bitmap nm)(s := True)\<rparr>"
  have fr: "nat_frame nm nm1" by (simp add: nm1_def nat_frame_def nat_view_def nm_views)
  have sets: "free_nids nm1 = free_nids nm" "held_nids nm1 = held_nids nm" "nid_str nm1 = nid_str nm" "nid_bit f nm1 = nid_bit f nm"
    by (simp_all add: nm1_def free_nids_def held_nids_def nid_str_def nid_bit_def [abs_def])
  have "nid_inv f g X nm1" using nid_invD(2) [OF inv] by (intro nid_inv_frame [OF inv fr]) (auto simp: sets, simp add: nm1_def)
  then have "built f g X nm nm1" by (rule built_frame [OF _ fr sets(2)]) (simp add: nm1_def)
  then show ?thesis by (simp add: nm1_def)
qed

lemma scan_nat_page_built:
  assumes inv: "nid_inv f g (jkeys nm) nm"
  shows "built f g (jkeys nm) nm (scan_nat_page f nm (nat_blk nm (current_nat_addr f g nm nid)) nid)"
proof -
  let ?P = "NAT_ENTRY_PER_BLOCK f" and ?s = "NAT_BLOCK_OFFSET f nid"
  define nm1 where "nm1 = nm\<lparr>nat_block_bitmap := (nat_block_bitmap nm)(?s := True)\<rparr>"
  have P: "0 < ?P" using nat_strD(1) [OF nat_invD(1) [OF nid_invD(1) [OF inv]]] .
  have b1: "built f g (jkeys nm) nm nm1" unfolding nm1_def by (rule mark_block_built [OF inv])
  note E = builtD [OF b1]
  have cur: "current_nat_addr f g nm nid = current_nat_addr f g nm1 (?s * ?P)"
    by (simp add: nm1_def current_nat_addr_def block_of_nid(1) [OF P])
  have "built f g (jkeys nm1) nm1 (scan_nat_loop f (nat_blk nm (current_nat_addr f g nm nid)) nm1 (nid mod ?P) nid)"
    using E(1) by (intro scan_nat_loop_built [where sno = ?s]) (simp_all add: E cur)
  then show ?thesis using built_trans [OF b1] by (simp add: scan_nat_page_def Let_def nm1_def [symmetric] E(3))
qed

text \<open>The scan of the journal settles the ids that were in doubt.\<close>

lemma scan_journal_built:
  assumes "nid_inv f g (fst ` set es) nm" "set es \<subseteq> set (nat_journal nm)"
  shows "built f g {} nm (fold (scan_journal_entry f) es nm)"
  using assms
proof (induction es arbitrary: nm)
  case Nil
  then show ?case by (simp add: built_refl)
next
  case (Cons x es)
  obtain nid raw where x: "x = (nid, raw)" by fastforce
  let ?X = "fst ` set es" and ?nm = "scan_journal_entry f x nm"
  note D = nid_invD [OF Cons.prems(1)] and A = nat_agrD [OF nat_invD(2) [OF nid_invD(1) [OF Cons.prems(1)]]]
  have m: "map_of (nat_journal nm) nid = Some raw" using Cons.prems(2) A(1) x by (simp add: map_of_is_SomeI)
  then have un: "unused f g nm nid \<longleftrightarrow> raw_block_addr raw = NULLA f" by (simp add: unused_def stored_nat_def)
  have nid: "nid < max_nid nm" using A(3) Cons.prems(2) x by force
  have "built f g (fst ` set (x # es)) nm ?nm \<and> (nid \<in> free_nids ?nm \<longrightarrow> unused f g nm nid)"
  proof (cases "raw_block_addr raw = NULLA f")
    case True
    then have "built f g (fst ` set (x # es)) nm (add_free_nid f nm nid True False)" using un nid Cons.prems(1) by (intro add_free_nid_built) simp_all
    then show ?thesis using True un x by (simp add: scan_journal_entry_def)
  next
    case False
    note R = remove_free_nid_inv [OF Cons.prems(1), of nid]
    have "built f g (fst ` set (x # es)) nm (remove_free_nid nm nid)" using R by (intro built_frame) simp_all
    then show ?thesis using False R(3) x by (simp add: scan_journal_entry_def)
  qed
  then have b: "built f g (fst ` set (x # es)) nm ?nm" and u: "nid \<in> free_nids ?nm \<longrightarrow> unused f g nm nid" by blast+
  note E = builtD [OF b]
  have "unused f g ?nm n" if "n \<in> free_nids ?nm" "n \<notin> ?X" for n
  proof (cases "n = nid")
    case True
    then show ?thesis unfolding E(4) using u that(1) by blast
  next
    case False
    then show ?thesis by (intro nid_invD(4) [OF E(1) that(1)]) (use that(2) x in auto)
  qed
  then have "nid_inv f g ?X ?nm" using nid_invD [OF E(1)] by (simp add: nid_inv_def)
  then have "built f g {} ?nm (fold (scan_journal_entry f) es ?nm)" using Cons.IH Cons.prems(2) by (simp add: E(7))
  then show ?case using b by (simp add: built_def)
qed

lemma scan_curseg_cache_built:
  assumes "nid_inv f g (jkeys nm) nm"
  shows "built f g {} nm (scan_curseg_cache f nm)"
  unfolding scan_curseg_cache_def by (rule scan_journal_built) (use assms in \<open>simp_all add: jkeys_def\<close>)

lemma nid_inv_mono: "nid_inv f g X nm \<Longrightarrow> X \<subseteq> Y \<Longrightarrow> nid_inv f g Y nm"
  by (auto simp: nid_inv_def)

lemma scan_bits_loop_built:
  assumes "nid_inv f g (jkeys nm) nm" "i < nat_blocks nm"
  shows "built f g (jkeys nm) nm (snd (scan_bits_loop f i nm idx))"
  using assms
proof (induction f i nm idx rule: scan_bits_loop.induct)
  case (1 f i nm idx)
  let ?P = "NAT_ENTRY_PER_BLOCK f" and ?K = "jkeys nm"
  define idx' where "idx' = find_next_bit (free_nid_bitmap nm i) ?P idx"
  define nid where "nid = i * ?P + idx'"
  define nm1 where "nm1 = add_free_nid f nm nid True False"
  note D = nid_invD [OF 1(2)]
  note S = nat_strD [OF nat_invD(1) [OF D(1)]]
  show ?case
  proof (cases "idx \<ge> ?P \<or> idx' \<ge> ?P")
    case True
    then show ?thesis using built_refl [OF 1(2)] by (subst scan_bits_loop.simps) (simp add: Let_def idx'_def)
  next
    case False
    have bl: "NAT_BLOCK_OFFSET f nid = i" "nid - START_NID f nid = idx'" using False by (simp_all add: nid_def NAT_BLOCK_OFFSET_def START_NID_def)
    have "free_nid_bitmap nm i idx'" using find_next_bit_set [of "free_nid_bitmap nm i" ?P idx] False by (simp add: idx'_def)
    then have bit: "nid_bit f nm nid" by (simp add: nid_bit_def bl)
    have "(i + 1) * ?P \<le> nat_blocks nm * ?P" by (rule mult_right_mono) (use 1(3) in simp_all)
    then have mx: "nid < max_nid nm" using False S(2) by (simp add: nid_def)
    have b: "built f g ?K nm nm1" unfolding nm1_def
      by (rule add_free_nid_built [OF 1(2) mx]) (use bits_okD(2) [OF D(5) bit] in simp_all)
    note E = builtD [OF b]
    have eq: "scan_bits_loop f i nm idx = (if unat (nid_cnt nm1 FREE_NID) \<ge> MAX_FREE_NIDS f then (True, nm1) else scan_bits_loop f i nm1 (idx' + 1))"
      using False by (subst scan_bits_loop.simps) (simp add: Let_def idx'_def nid_def nm1_def)
    have "built f g (jkeys nm1) nm1 (snd (scan_bits_loop f i nm1 (idx' + 1)))" if "\<not> unat (nid_cnt nm1 FREE_NID) \<ge> MAX_FREE_NIDS f"
      using 1(1) [OF idx'_def False nm1_def [unfolded nid_def] that] E(1) 1(3) by (simp add: E(3,9))
    then show ?thesis using b built_trans [OF b] by (simp add: eq E(3))
  qed
qed

lemma scan_blocks_loop_built:
  assumes "nid_inv f g (jkeys nm) nm" "set is \<subseteq> {..<nat_blocks nm}"
  shows "built f g (jkeys nm) nm (scan_blocks_loop f is nm)"
  using assms
proof (induction "is" arbitrary: nm)
  case Nil
  then show ?case by (simp add: built_refl)
next
  case (Cons i "is")
  obtain r nm1 where e: "scan_bits_loop f i nm 0 = (r, nm1)" by fastforce
  then have b: "built f g (jkeys nm) nm nm1" using scan_bits_loop_built [OF Cons.prems(1), of i 0] Cons.prems(2) by simp
  note E = builtD [OF b]
  have "built f g (jkeys nm) nm (scan_blocks_loop f is nm1)"
    using Cons.IH [of nm1] E Cons.prems(2) built_trans [OF b] by simp
  moreover have "built f g (jkeys nm) nm (scan_blocks_loop f is nm)" using Cons by simp
  ultimately show ?case using b e by (simp split: bool.split)
qed

lemma built_clear:
  assumes "built f g X nm nm1" "built f g {} nm1 nm2"
  shows "built f g {} nm nm2"
  using assms by (simp add: built_def)

lemma scan_free_nid_bits_built:
  assumes "nid_inv f g {} nm"
  shows "built f g {} nm (scan_free_nid_bits f nm)"
proof -
  have b: "built f g (jkeys nm) nm (scan_blocks_loop f [0..<nat_blocks nm] nm)"
    using nid_inv_mono [OF assms] by (intro scan_blocks_loop_built) auto
  then show ?thesis unfolding scan_free_nid_bits_def
    using scan_curseg_cache_built builtD(1,3) [OF b] by (intro built_clear [OF b]) simp
qed

lemma build_loop_built:
  assumes "nid_inv f g (jkeys nm) nm"
  shows "built f g (jkeys nm) nm (snd (build_loop f g n nm nid))"
  using assms
proof (induction n arbitrary: nm nid)
  case 0
  then show ?case by (simp add: built_refl)
next
  case (Suc n)
  define nm1 where "nm1 = (if \<not> nat_block_bitmap nm (NAT_BLOCK_OFFSET f nid) then scan_nat_page f nm (nat_blk nm (current_nat_addr f g nm nid)) nid else nm)"
  have b: "built f g (jkeys nm) nm nm1" using scan_nat_page_built [OF Suc.prems] built_refl [OF Suc.prems] by (simp add: nm1_def)
  note E = builtD [OF b]
  have "built f g (jkeys nm) nm (snd (build_loop f g n nm1 nid'))" for nid'
    using Suc.IH [of nm1 nid'] E built_trans [OF b] by simp
  then show ?case by (simp add: Let_def nm1_def [symmetric])
qed

lemma built_next_scan: "built f g X nm nm' \<Longrightarrow> built f g X nm (nm'\<lparr>next_scan_nid := n\<rparr>)"
proof -
  assume b: "built f g X nm nm'"
  let ?nm = "nm'\<lparr>next_scan_nid := n\<rparr>"
  have fr: "nat_frame nm' ?nm" by (simp add: nat_frame_def nat_view_def nm_views)
  have "free_nids ?nm = free_nids nm'" "held_nids ?nm = held_nids nm'" "nid_str ?nm = nid_str nm'" "nid_bit f ?nm = nid_bit f nm'" "nat_block_bitmap ?nm = nat_block_bitmap nm'"
    by (simp_all add: free_nids_def held_nids_def nid_str_def nid_bit_def [abs_def])
  then have "built f g X nm' ?nm" using builtD(1) [OF b] nid_invD(2) by (intro built_frame nid_inv_frame [OF _ fr] fr) auto
  then show ?thesis by (rule built_trans [OF b])
qed

lemma f2fs_build_free_nids_built:
  assumes "nid_inv f g {} nm"
  shows "built f g {} nm (f2fs_build_free_nids f g avail nm sync mount)"
proof -
  define nm1 where "nm1 = (if mount then nm else scan_free_nid_bits f nm)"
  define nid where "nid = (if next_scan_nid nm \<ge> max_nid nm then 0 else next_scan_nid nm)"
  obtain nid2 nm2 where e: "build_loop f g FREE_NID_PAGES nm1 nid = (nid2, nm2)" by fastforce
  have b1: "built f g {} nm nm1" using scan_free_nid_bits_built [OF assms] built_refl [OF assms] by (simp add: nm1_def)
  have "built f g (jkeys nm1) nm1 nm2" using build_loop_built [of f g nm1 FREE_NID_PAGES nid] nid_inv_mono [OF builtD(1) [OF b1]] e by simp
  then have b2: "built f g (jkeys nm1) nm1 (nm2\<lparr>next_scan_nid := nid2\<rparr>)" by (rule built_next_scan)
  have "built f g {} nm1 (scan_curseg_cache f (nm2\<lparr>next_scan_nid := nid2\<rparr>))"
    using builtD(1,3) [OF b2] by (intro built_clear [OF b2] scan_curseg_cache_built) simp
  then have b3: "built f g {} nm (scan_curseg_cache f (nm2\<lparr>next_scan_nid := nid2\<rparr>))" by (rule built_trans [OF b1])
  show ?thesis using b1 b3 built_refl [OF assms] by (simp add: f2fs_build_free_nids_def Let_def nm1_def [symmetric] nid_def [symmetric] e)
qed

subsection \<open>Handing out ids\<close>

lemma nid_inv_available: "nid_inv f g X (nm\<lparr>available_nids := a\<rparr>) = nid_inv f g X nm" "held_nids (nm\<lparr>available_nids := a\<rparr>) = held_nids nm"
  "free_nids (nm\<lparr>available_nids := a\<rparr>) = free_nids nm"
proof -
  let ?nm = "nm\<lparr>available_nids := a\<rparr>"
  have fr: "nat_frame nm ?nm" by (simp add: nat_frame_available)
  show "held_nids ?nm = held_nids nm" "free_nids ?nm = free_nids nm" by (simp_all add: held_nids_def free_nids_def)
  then show "nid_inv f g X ?nm = nid_inv f g X nm"
    unfolding nid_inv_def nat_frameD(1,4) [OF fr] bits_ok_def nat_frame_unused [OF fr] by (simp add: nid_str_def nid_bit_def)
qed

definition nid_unused :: "nat_fmt \<Rightarrow> f2fs_geo \<Rightarrow> nm_info \<Rightarrow> nat \<Rightarrow> bool" where
  "nid_unused f g nm nid \<longleftrightarrow> raw_block_addr (nat_lookup f g nm nid) = NULLA f \<and> nid \<notin> dirty_nids nm"

lemma free_nid_unused:
  assumes inv: "nid_inv f g {} nm" and n: "n \<in> free_nids nm"
  shows "nid_unused f g nm n" "0 < n" "n < max_nid nm" "n \<notin> held_nids nm"
proof -
  note D = nid_invD [OF inv]
  have "n \<notin> dirty_nids nm" "unused f g nm n" using D(3,4) n by simp_all
  then show "nid_unused f g nm n" using stored_clean [OF D(1)] by (simp add: nid_unused_def unused_def)
  have "n \<in> dom (free_nid_root nm)" using n by (auto simp: free_nids_def)
  then show "0 < n" "n < max_nid nm" using nid_strD(4) [OF D(2)] by auto
  show "n \<notin> held_nids nm" using n by (simp add: free_nids_def held_nids_def)
qed

lemma list_count:
  assumes "nid_str nm" "nat_str f nm"
  shows "unat (nid_cnt nm FREE_NID) = length (free_nid_list nm)" "nid_cnt nm FREE_NID = 0 \<longleftrightarrow> free_nid_list nm = []"
proof -
  note S = nid_strD [OF assms(1)]
  have "set (free_nid_list nm) \<subseteq> {..<max_nid nm}" using S(2,4) by (auto simp: free_nids_def)
  then have "card (set (free_nid_list nm)) \<le> max_nid nm" using card_mono [of "{..<max_nid nm}"] by fastforce
  then have "length (free_nid_list nm) < 4294967296" using nat_strD(3) [OF assms(2)] distinct_card [OF S(1)] by simp
  then show c: "unat (nid_cnt nm FREE_NID) = length (free_nid_list nm)" by (simp add: S(3) unat_of_nat)
  show "nid_cnt nm FREE_NID = 0 \<longleftrightarrow> free_nid_list nm = []" using c by (metis length_0_conv unat_eq_zero)
qed

text \<open>What a caller of \<open>f2fs_alloc_nid\<close> gets.\<close>

definition alloc_result :: "nat_fmt \<Rightarrow> f2fs_geo \<Rightarrow> nm_info \<Rightarrow> nat option \<Rightarrow> nm_info \<Rightarrow> bool" where
  "alloc_result f g nm r nm' \<longleftrightarrow> nid_inv f g {} nm' \<and> nat_view nm' = nat_view nm \<and> nat_medium nm' = nat_medium nm \<and> nat_size nm' = nat_size nm
     \<and> (case r of None \<Rightarrow> held_nids nm' = held_nids nm
        | Some nid \<Rightarrow> nid_unused f g nm nid \<and> 0 < nid \<and> nid < max_nid nm \<and> nid \<notin> held_nids nm \<and> held_nids nm' = insert nid (held_nids nm))"

lemma alloc_head:
  assumes inv: "nid_inv f g {} nm" and l: "free_nid_list nm = nid # rest"
  shows "alloc_result f g nm (Some nid)
    (update_free_nid_bitmap f ((move_free_nid nm nid FREE_NID PREALLOC_NID)\<lparr>available_nids := a\<rparr>) nid False False)"
proof -
  note D = nid_invD [OF inv]
  have n: "nid \<in> free_nids nm" using l nid_strD(2) [OF D(2)] by (metis list.set_intros(1))
  then have root: "free_nid_root nm nid = Some FREE_NID" by (simp add: free_nids_def)
  let ?nm1 = "move_free_nid nm nid FREE_NID PREALLOC_NID"
  note M = move_free_nid_str [OF D(2) root, of PREALLOC_NID, simplified] and fr = move_free_nid_frame [OF root, of PREALLOC_NID]
  have "nid_inv f g {} ?nm1" using M by (intro nid_inv_frame [OF inv fr]) (auto simp: nid_bit_def)
  then have inv1: "nid_inv f g {} (?nm1\<lparr>available_nids := a\<rparr>)" by (simp add: nid_inv_available)
  note b = update_bitmap_clear [OF this, of nid False]
  show ?thesis using b free_nid_unused [OF inv n] M(3) fr
    by (simp add: alloc_result_def built_def nid_inv_available nat_frame_def nat_view_def nm_views)
qed

lemma f2fs_alloc_nid_result:
  assumes "f2fs_alloc_nid f g nm = Some rn" "nid_inv f g {} nm"
  shows "alloc_result f g nm (fst rn) (snd rn) \<and> (fst rn = None \<longrightarrow> available_nids nm = 0)"
  using assms
proof (induction rule: f2fs_alloc_nid.raw_induct [rotated, consumes 1, case_names 1])
  case (1 alloc f g nm rn)
  note D = nid_invD [OF 1(3)]
  note L = list_count [OF D(2) nat_invD(1) [OF D(1)]]
  consider "available_nids nm = 0" | "available_nids nm \<noteq> 0" "free_nid_list nm = []" | nid rest where "available_nids nm \<noteq> 0" "free_nid_list nm = nid # rest"
    by (cases "free_nid_list nm") auto
  then show ?case
  proof cases
    case 1
    then show ?thesis using \<open>_ = Some rn\<close> \<open>nid_inv f g {} nm\<close> by (auto simp: alloc_result_def)
  next
    case 2
    let ?nm = "f2fs_build_free_nids f g True nm True False"
    have b: "built f g {} nm ?nm" by (rule f2fs_build_free_nids_built [OF \<open>nid_inv f g {} nm\<close>])
    have "alloc f g ?nm = Some rn" using \<open>_ = Some rn\<close> 2 L(2) by simp
    from 1(1) [OF this builtD(1) [OF b]]
    have ih: "alloc_result f g ?nm (fst rn) (snd rn)" "fst rn = None \<longrightarrow> available_nids ?nm = 0" by blast+
    have v: "nat_view ?nm = nat_view nm" "nat_medium ?nm = nat_medium nm" "nat_size ?nm = nat_size nm" "held_nids ?nm = held_nids nm" "available_nids ?nm = available_nids nm"
      using b by (simp_all add: built_def)
    have "nid_unused f g ?nm = nid_unused f g nm" using nat_view_eq [OF v(1-3)] by (simp add: nid_unused_def fun_eq_iff)
    then have "alloc_result f g nm (fst rn) (snd rn)"
      using ih(1) nat_view_eq(8) [OF v(1-3)] by (simp add: alloc_result_def v split: option.splits)
    then show ?thesis using ih(2) v(5) by simp
  next
    case 3
    then have "rn = (Some nid, update_free_nid_bitmap f ((move_free_nid nm nid FREE_NID PREALLOC_NID)\<lparr>available_nids := available_nids (move_free_nid nm nid FREE_NID PREALLOC_NID) - 1\<rparr>) nid False False)"
      using \<open>_ = Some rn\<close> L(2) by (simp add: Let_def)
    then show ?thesis using alloc_head [OF \<open>nid_inv f g {} nm\<close> 3(2)] by simp
  qed
qed

end
