(* ===== verification/Nid_Mount.thy ===== *)
theory Nid_Mount
  imports Nid_Safety
begin

text \<open>
  Mounting the node manager, from \<open>src/node.c\<close>: \<open>init_node_manager\<close>, \<open>init_free_nid_cache\<close>, \<open>load_free_nid_bitmap\<close> and \<open>f2fs_build_node_manager\<close>.
  What the mount reads is a record: fields of the super block and of the checkpoint, the journal and the table blocks. Allocations of memory succeed.
\<close>

record nat_mount =
  sb_nat_blkaddr :: nat
  sb_segment_count_nat :: nat
  mt_total_valid_node_count :: u32
  mt_nquota_files :: u32
  ck_next_free_nid :: nat
  ck_nat_version_bitmap :: "bitmap option"
  ck_nat_bits_flag :: bool
  ck_nat_bits :: "bitmap \<times> bitmap"
  ck_nat_bits_valid :: bool
  mt_nat_journal :: "(nat \<times> f2fs_nat_entry) list"
  mt_nat_blk :: "nat \<Rightarrow> nat \<Rightarrow> f2fs_nat_entry"

abbreviation (input) F2FS_RESERVED_NODE_NUM :: u32 where "F2FS_RESERVED_NODE_NUM \<equiv> 3"

text \<open>\<open>ck_nat_bits\<close> are the bits of full and of empty blocks; they count only when the version in front of them is that of the checkpoint.\<close>

definition get_nat_bitmaps :: "nat_mount \<Rightarrow> nm_info \<Rightarrow> bool \<times> nm_info" where
  "get_nat_bitmaps mt nm =
     (if \<not> enabled_nat_bits (ck_nat_bits_flag mt) None then (False, nm)
      else if \<not> ck_nat_bits_valid mt then (False, nm)
      else (True, nm\<lparr>full_nat_bits := fst (ck_nat_bits mt), empty_nat_bits := snd (ck_nat_bits mt)\<rparr>))"

text \<open>\<open>None\<close> is \<open>EFAULT\<close>: the checkpoint has no version bitmap of the table.\<close>

definition init_node_manager :: "nat_fmt \<Rightarrow> f2fs_geo \<Rightarrow> nat_mount \<Rightarrow> (bool \<times> nm_info) option" where
  "init_node_manager f g mt =
     (let nat_segs = sb_segment_count_nat mt div 2;
          blocks = nat_segs * 2 ^ log_blocks_per_seg g;
          mx = NAT_ENTRY_PER_BLOCK f * blocks
      in case ck_nat_version_bitmap mt of
           None \<Rightarrow> None
         | Some version_bitmap \<Rightarrow>
             Some (get_nat_bitmaps mt
               \<lparr>nat_blkaddr = sb_nat_blkaddr mt, max_nid = mx, nat_blocks = blocks,
                available_nids = of_nat mx - mt_total_valid_node_count mt - mt_nquota_files mt - F2FS_RESERVED_NODE_NUM,
                next_scan_nid = ck_next_free_nid mt, nat_root = Map.empty, nat_set_root = Map.empty, nat_entries = [], nat_cnt = 0, dirty_nat_cnt = 0,
                free_nid_root = Map.empty, free_nid_list = [], nid_cnt = (\<lambda>_. 0), free_nid_bitmap = (\<lambda>_ _. False), nat_block_bitmap = (\<lambda>_. False),
                free_nid_count = (\<lambda>_. 0), nat_bitmap = version_bitmap, full_nat_bits = (\<lambda>_. False), empty_nat_bits = (\<lambda>_. False),
                nat_journal = mt_nat_journal mt, nat_blk = mt_nat_blk mt, nm_fsck = False\<rparr>))"

text \<open>A loop over the set bits of a bitmap.\<close>

function for_bits :: "bitmap \<Rightarrow> nat \<Rightarrow> nat \<Rightarrow> (nat \<Rightarrow> 's \<Rightarrow> 's) \<Rightarrow> 's \<Rightarrow> 's" where
  "for_bits m n i body s =
     (let j = find_next_bit m n i
      in if i \<ge> n \<or> j \<ge> n then s else for_bits m n (j + 1) body (body j s))"
  by pat_completeness auto
termination
proof (relation "measure (\<lambda>(m, n, i, body, s). n - i)", goal_cases)
  case (2 m n i body s j)
  then have "i \<le> j" "j < n" by (simp_all add: find_next_bit_ge)
  then show ?case by simp
qed simp

declare for_bits.simps [simp del]

lemma for_bits_inv:
  assumes "I s" "\<And>j s. I s \<Longrightarrow> j < n \<Longrightarrow> m j \<Longrightarrow> I (body j s)"
  shows "I (for_bits m n i body s)"
  using assms
proof (induction m n i body s rule: for_bits.induct)
  case (1 m n i body s)
  define j where "j = find_next_bit m n i"
  show ?case
  proof (cases "i \<ge> n \<or> j \<ge> n")
    case True
    then show ?thesis using 1(2) by (subst for_bits.simps) (simp add: j_def)
  next
    case False
    then have "m j" "j < n" using find_next_bit_set [of m n i] by (simp_all add: j_def)
    then have "I (for_bits m n (j + 1) body (body j s))" using 1(1) [OF j_def False] 1(2,3) by blast
    then show ?thesis using False by (subst for_bits.simps) (simp add: j_def Let_def)
  qed
qed

definition load_empty_block :: "nat_fmt \<Rightarrow> nat \<Rightarrow> nm_info \<Rightarrow> nm_info" where
  "load_empty_block f i nm =
     (let nm = nm\<lparr>nat_block_bitmap := (nat_block_bitmap nm)(i := True)\<rparr>;
          nid = i * NAT_ENTRY_PER_BLOCK f
      in fold (\<lambda>nid nm. update_free_nid_bitmap f nm nid True True) [nid..<nid + NAT_ENTRY_PER_BLOCK f] nm)"

definition load_free_nid_bitmap :: "nat_fmt \<Rightarrow> bool \<Rightarrow> nm_info \<Rightarrow> nm_info" where
  "load_free_nid_bitmap f nat_bits_flag nm =
     (if \<not> enabled_nat_bits nat_bits_flag None then nm
      else for_bits (full_nat_bits nm) (nat_blocks nm) 0 (\<lambda>i nm. nm\<lparr>nat_block_bitmap := (nat_block_bitmap nm)(i := True)\<rparr>)
             (for_bits (empty_nat_bits nm) (nat_blocks nm) 0 (load_empty_block f) nm))"

definition f2fs_build_node_manager :: "nat_fmt \<Rightarrow> f2fs_geo \<Rightarrow> bool \<Rightarrow> nat_mount \<Rightarrow> nm_info option" where
  "f2fs_build_node_manager f g avail mt =
     (case init_node_manager f g mt of
        None \<Rightarrow> None
      | Some (flag, nm) \<Rightarrow> Some (f2fs_build_free_nids f g avail (load_free_nid_bitmap f flag nm) True True))"

subsection \<open>The state after the mount\<close>

text \<open>
  What the mount relies on: a journal with one record per id, addresses that were assigned, and bits of empty blocks that the blocks bear out.
\<close>

definition nat_image_ok :: "nat_fmt \<Rightarrow> f2fs_geo \<Rightarrow> nm_info \<Rightarrow> bool" where
  "nat_image_ok f g nm \<longleftrightarrow> distinct (map fst (nat_journal nm)) \<and> length (nat_journal nm) \<le> NAT_JOURNAL_ENTRIES f \<and> jkeys nm \<subseteq> {..<max_nid nm}
     \<and> (\<forall>n. raw_block_addr (stored_nat f g nm n) \<noteq> NEW_ADDR (nf_disk f))
     \<and> (\<forall>n. empty_nat_bits nm (NAT_BLOCK_OFFSET f n) \<longrightarrow> n < max_nid nm \<longrightarrow> n \<notin> jkeys nm \<longrightarrow> unused f g nm n)"

lemma init_node_manager_inv:
  assumes i: "init_node_manager f g mt = Some (flag, nm)" and P: "0 < NAT_ENTRY_PER_BLOCK f" and mx: "max_nid nm < 4294967296" and img: "nat_image_ok f g nm"
  shows "nid_inv f g {} nm"
proof -
  have f: "nat_root nm = Map.empty" "nat_set_root nm = Map.empty" "nat_entries nm = []" "nat_cnt nm = 0" "dirty_nat_cnt nm = 0" "free_nid_root nm = Map.empty"
    "free_nid_list nm = []" "nid_cnt nm = (\<lambda>_. 0)" "free_nid_bitmap nm = (\<lambda>_ _. False)" "max_nid nm = nat_blocks nm * NAT_ENTRY_PER_BLOCK f"
    using i by (auto simp: init_node_manager_def get_nat_bitmaps_def Let_def split: option.splits if_splits)
  have d: "dirty_nids nm = {}" "pre_nids nm = {}" by (simp_all add: dirty_nids_def pre_nids_def f)
  have "nat_str f nm" using P mx by (simp add: nat_str_def f d set_members_def set_ok_def)
  moreover have "nat_agr f g nm" using img by (simp add: nat_agr_def f nat_image_ok_def jkeys_def)
  moreover have "free_nids nm = {}" "\<And>n. \<not> nid_bit f nm n" by (simp_all add: free_nids_def nid_bit_def f)
  ultimately show ?thesis by (simp add: nid_inv_def nat_inv_def nid_str_def bits_ok_def deleted_marked_def f)
qed

lemma load_empty_block_built:
  assumes inv: "nid_inv f g {} nm" and e: "\<And>n. NAT_BLOCK_OFFSET f n = i \<Longrightarrow> n \<notin> jkeys nm \<Longrightarrow> unused f g nm n"
  shows "built f g {} nm (load_empty_block f i nm)"
proof -
  let ?nm = "nm\<lparr>nat_block_bitmap := (nat_block_bitmap nm)(i := True)\<rparr>" and ?P = "NAT_ENTRY_PER_BLOCK f"
  have P: "0 < ?P" using nat_strD(1) [OF nat_invD(1) [OF nid_invD(1) [OF inv]]] .
  have b: "built f g {} nm ?nm" by (rule mark_block_built [OF inv])
  have "built f g {} nm (fold (\<lambda>nid nm. update_free_nid_bitmap f nm nid True True) ns nm')" if "built f g {} nm nm'" "\<forall>n \<in> set ns. NAT_BLOCK_OFFSET f n = i" for ns nm'
    using that
  proof (induction ns arbitrary: nm')
    case (Cons n ns)
    let ?nm' = "update_free_nid_bitmap f nm' n True True"
    note B = update_free_nid_bitmap_bit [OF P, of nm' n True True] and U = update_free_nid_bitmap_sets [OF P, of nm' n True True] and E = builtD [OF Cons.prems(1)]
    have "n \<notin> jkeys nm \<Longrightarrow> unused f g nm n" using e Cons.prems(2) by simp
    then have "nid_inv f g {} ?nm'"
      using nid_invD(2) [OF E(1)] by (intro nid_inv_frame [OF E(1)]) (auto simp: B U E split: if_splits)
    then have "built f g {} nm' ?nm'" by (intro built_frame) (simp_all add: U)
    then show ?case using Cons.IH [OF built_trans [OF Cons.prems(1)]] Cons.prems(2) by simp
  qed simp
  moreover have "NAT_BLOCK_OFFSET f n = i" if "n \<in> set [i * ?P..<i * ?P + ?P]" for n
  proof -
    have "n = n - i * ?P + i * ?P" "n - i * ?P < ?P" using that by auto
    then show ?thesis using div_mult_self1 [of ?P "n - i * ?P" i] P by (simp add: NAT_BLOCK_OFFSET_def)
  qed
  ultimately show ?thesis using b by (simp add: load_empty_block_def Let_def)
qed

lemma load_free_nid_bitmap_built:
  assumes inv: "nid_inv f g {} nm" and e: "\<And>n. empty_nat_bits nm (NAT_BLOCK_OFFSET f n) \<Longrightarrow> n < max_nid nm \<Longrightarrow> n \<notin> jkeys nm \<Longrightarrow> unused f g nm n"
  shows "built f g {} nm (load_free_nid_bitmap f flag nm)"
proof -
  note S = nat_strD [OF nat_invD(1) [OF nid_invD(1) [OF inv]]]
  have "built f g {} nm (load_empty_block f j nm')" if b: "built f g {} nm nm'" and j: "j < nat_blocks nm" "empty_nat_bits nm j" for j nm'
  proof (rule built_trans [OF b load_empty_block_built [OF builtD(1) [OF b]]])
    fix n
    assume n: "NAT_BLOCK_OFFSET f n = j" "n \<notin> jkeys nm'"
    have "n div NAT_ENTRY_PER_BLOCK f < nat_blocks nm" using n j by (simp add: NAT_BLOCK_OFFSET_def)
    then have "n < max_nid nm" using S(1,2) by (simp add: div_less_iff_less_mult)
    then show "unused f g nm' n" using e n j builtD(3,4) [OF b] by simp
  qed
  then have "built f g {} nm (for_bits (empty_nat_bits nm) (nat_blocks nm) 0 (load_empty_block f) nm)"
    by (rule for_bits_inv [where I = "built f g {} nm", OF built_refl [OF inv]])
  then have "built f g {} nm (for_bits (full_nat_bits nm) (nat_blocks nm) 0 (\<lambda>i nm. nm\<lparr>nat_block_bitmap := (nat_block_bitmap nm)(i := True)\<rparr>)
    (for_bits (empty_nat_bits nm) (nat_blocks nm) 0 (load_empty_block f) nm))"
    by (rule for_bits_inv [where I = "built f g {} nm"]) (rule built_trans, assumption, rule mark_block_built, erule builtD(1))
  then show ?thesis using built_refl [OF inv] by (simp add: load_free_nid_bitmap_def)
qed

lemma f2fs_build_node_manager_built:
  assumes i: "init_node_manager f g mt = Some (flag, nm)" and P: "0 < NAT_ENTRY_PER_BLOCK f" and mx: "max_nid nm < 4294967296" and img: "nat_image_ok f g nm"
  shows "\<exists>nm'. f2fs_build_node_manager f g avail mt = Some nm' \<and> built f g {} nm nm'"
proof -
  have b: "built f g {} nm (load_free_nid_bitmap f flag nm)"
    using img by (intro load_free_nid_bitmap_built init_node_manager_inv [OF i P mx img]) (simp add: nat_image_ok_def)
  show ?thesis using i built_trans [OF b f2fs_build_free_nids_built [OF builtD(1) [OF b]]] by (simp add: f2fs_build_node_manager_def)
qed

end
