(* ===== verification/Nid_Run.thy ===== *)
theory Nid_Run
  imports Nid_Mount
begin

text \<open>
  Runs of the node manager: the free ids stay free under every operation on the table and on the ids, so \<open>f2fs_alloc_nid\<close> never hands
  out an id that a node has or that another caller holds; and it returns when a block of the table that was not scanned holds a free id.
\<close>

subsection \<open>The other operations on ids\<close>

lemma f2fs_alloc_nid_done_inv:
  assumes inv: "nid_inv f g {} nm" and h: "nid \<in> held_nids nm"
  shows "nid_inv f g {} (f2fs_alloc_nid_done nm nid)" "nat_frame nm (f2fs_alloc_nid_done nm nid)" "held_nids (f2fs_alloc_nid_done nm nid) = held_nids nm - {nid}"
proof -
  have root: "free_nid_root nm nid = Some PREALLOC_NID" using h by (simp add: held_nids_def)
  have e: "f2fs_alloc_nid_done nm nid = remove_free_nid_entry nm nid PREALLOC_NID" using root by (simp add: f2fs_alloc_nid_done_def)
  note R = remove_free_nid_entry_str [OF nid_invD(2) [OF inv] root] and fr = remove_free_nid_entry_frame [OF root]
  show "nid_inv f g {} (f2fs_alloc_nid_done nm nid)" unfolding e using R by (intro nid_inv_frame [OF inv fr]) (auto simp: nid_bit_def)
  show "nat_frame nm (f2fs_alloc_nid_done nm nid)" "held_nids (f2fs_alloc_nid_done nm nid) = held_nids nm - {nid}" unfolding e by (rule fr, rule R(3))
qed

lemma update_bitmap_set:
  assumes inv: "nid_inv f g {} nm" and un: "nid_unused f g nm nid"
  shows "nid_inv f g {} (update_free_nid_bitmap f nm nid True b)"
proof -
  note D = nid_invD [OF inv]
  have P: "0 < NAT_ENTRY_PER_BLOCK f" using nat_strD(1) [OF nat_invD(1) [OF D(1)]] .
  note B = update_free_nid_bitmap_bit [OF P, of nm nid True b] and U = update_free_nid_bitmap_sets [OF P, of nm nid True b]
  have "unused f g nm nid" using un stored_clean [OF D(1)] by (simp add: nid_unused_def unused_def)
  then show ?thesis using D(2) by (intro nid_inv_frame [OF inv]) (auto simp: B U split: if_splits)
qed

lemma nid_unused_frame: "nat_frame nm nm' \<Longrightarrow> nid_unused f g nm' = nid_unused f g nm"
  using nat_frameD(2,4) [of nm nm'] by (simp add: nid_unused_def fun_eq_iff)

lemma f2fs_alloc_nid_failed_inv:
  assumes inv: "nid_inv f g {} nm" and h: "nid \<in> held_nids nm" and un: "nid_unused f g nm nid"
  shows "nid_inv f g {} (f2fs_alloc_nid_failed f avail nm nid)" "nat_frame nm (f2fs_alloc_nid_failed f avail nm nid)"
    "held_nids (f2fs_alloc_nid_failed f avail nm nid) = held_nids nm - {nid}"
proof -
  note D = nid_invD [OF inv]
  have root: "free_nid_root nm nid = Some PREALLOC_NID" using h by (simp add: held_nids_def)
  define nm1 where "nm1 = (if \<not> avail then remove_free_nid_entry nm nid PREALLOC_NID else move_free_nid nm nid PREALLOC_NID FREE_NID)"
  have pos: "nid \<noteq> 0" using nid_strD(4) [OF D(2)] root by auto
  have e: "f2fs_alloc_nid_failed f avail nm nid = update_free_nid_bitmap f (nm1\<lparr>available_nids := available_nids nm1 + 1\<rparr>) nid True False"
    using root pos by (simp add: f2fs_alloc_nid_failed_def nm1_def Let_def)
  note R = remove_free_nid_entry_str [OF D(2) root] and M = move_free_nid_str [OF D(2) root, of FREE_NID, simplified]
  have fr: "nat_frame nm nm1" using root by (simp add: nm1_def remove_free_nid_entry_frame move_free_nid_frame)
  have "unused f g nm nid" "nid \<notin> dirty_nids nm" using un stored_clean [OF D(1)] by (simp_all add: nid_unused_def unused_def)
  then have "nid_inv f g {} nm1" using R M by (intro nid_inv_frame [OF inv fr]) (auto simp: nm1_def nid_bit_def split: if_splits)
  then have inv1: "nid_inv f g {} (nm1\<lparr>available_nids := available_nids nm1 + 1\<rparr>)" by (simp add: nid_inv_available)
  have fr1: "nat_frame nm (nm1\<lparr>available_nids := available_nids nm1 + 1\<rparr>)" using fr by (simp add: nat_frame_available)
  show "nid_inv f g {} (f2fs_alloc_nid_failed f avail nm nid)" unfolding e using un nid_unused_frame [OF fr1] by (intro update_bitmap_set [OF inv1]) simp
  show "nat_frame nm (f2fs_alloc_nid_failed f avail nm nid)" unfolding e by (rule nat_frame_trans [OF fr1]) simp
  have "held_nids nm1 = held_nids nm - {nid}" using R(3) M(3) by (simp add: nm1_def)
  then show "held_nids (f2fs_alloc_nid_failed f avail nm nid) = held_nids nm - {nid}"
    unfolding e using nat_strD(1) [OF nat_invD(1) [OF D(1)]] by (simp add: update_free_nid_bitmap_sets nid_inv_available)
qed

lemma try_to_free_loop_inv:
  "nid_inv f g {} nm \<Longrightarrow> distinct is \<Longrightarrow> set is \<subseteq> free_nids nm \<Longrightarrow> built f g {} nm (snd (try_to_free_loop f nm is k'))"
proof (induction f nm "is" k' rule: try_to_free_loop.induct)
  case (2 f nm i "is" k')
  have root: "free_nid_root nm i = Some FREE_NID" using 2(4) by (simp add: free_nids_def)
  let ?nm = "remove_free_nid_entry nm i FREE_NID"
  note R = remove_free_nid_entry_str [OF nid_invD(2) [OF 2(2)] root] and fr = remove_free_nid_entry_frame [OF root]
  have "nid_inv f g {} ?nm" using R by (intro nid_inv_frame [OF 2(2) fr]) (auto simp: nid_bit_def)
  moreover have "i \<notin> held_nids nm" using root by (simp add: held_nids_def)
  ultimately have b: "built f g {} nm ?nm" using fr R(3) by (intro built_frame) simp_all
  show ?case
  proof (cases "k' = 0 \<or> unat (nid_cnt nm FREE_NID) \<le> MAX_FREE_NIDS f")
    case False
    have "built f g {} ?nm (snd (try_to_free_loop f ?nm is (k' - 1)))"
      by (rule 2(1) [OF False builtD(1) [OF b]]) (use 2(3,4) R(2) in auto)
    then show ?thesis using False built_trans [OF b] by simp
  qed (use 2(2) in \<open>simp add: built_refl\<close>)
qed (simp add: built_refl)

lemma f2fs_try_to_free_nids_built:
  assumes "nid_inv f g {} nm"
  shows "built f g {} nm (snd (f2fs_try_to_free_nids f nm nr))"
  using try_to_free_loop_inv [OF assms, of "free_nid_list nm" nr] nid_strD(1,2) [OF nid_invD(2) [OF assms]] built_refl [OF assms]
  by (auto simp: f2fs_try_to_free_nids_def split: prod.split)

subsection \<open>The table changes\<close>

lemma nid_view_sets:
  assumes "nid_view nm' = nid_view nm"
  shows "free_nids nm' = free_nids nm" "held_nids nm' = held_nids nm" "nid_bit f nm' = nid_bit f nm" "nat_block_bitmap nm' = nat_block_bitmap nm"
  using assms by (simp_all add: nid_view_def free_nids_def held_nids_def nid_bit_def [abs_def])

lemma nat_same_inv:
  assumes inv: "nid_inv f g {} nm" and s: "nat_same f g nm nm'"
  shows "nid_inv f g {} nm'" "held_nids nm' = held_nids nm"
proof -
  note D = nid_invD [OF inv]
  have v: "nat_inv f g nm'" "nat_medium nm' = nat_medium nm" "nid_view nm' = nid_view nm" "nat_size nm' = nat_size nm" "dirty_nids nm' = dirty_nids nm"
    "\<And>n e. nat_root nm' n = Some e \<Longrightarrow> nat_root nm n = Some e \<or> \<not> get_nat_flag e IS_DIRTY" using s by (auto simp: nat_same_def)
  note V = nid_view_sets [OF v(3)]
  show "held_nids nm' = held_nids nm" by (rule V)
  have "unused f g nm' = unused f g nm" "jkeys nm' = jkeys nm" using stored_cong [OF v(2)] mediumD [OF v(2)] by (simp_all add: unused_def [abs_def] jkeys_def)
  moreover have "deleted_marked f nm'" using D(6) v(6) by (fastforce simp: deleted_marked_def)
  ultimately show "nid_inv f g {} nm'" using D v(1) nid_str_cong(1) [OF v(3,4)] by (simp add: nid_inv_def V v(5) bits_ok_def)
qed

lemma set_node_addr_nids:
  fixes b :: bool
  assumes inv: "nid_inv f g {} nm" and ok: "addr_change_ok f g nm nid ni new" and d: "NULLA f \<noteq> NEW_ADDR (nf_disk f)"
    and h: "new = NEW_ADDR (nf_disk f) \<Longrightarrow> nid \<in> held_nids nm"
  shows "nid_inv f g {} (set_node_addr f nm nid ni new b)" "held_nids (set_node_addr f nm nid ni new b) = held_nids nm"
proof -
  let ?nm = "set_node_addr f nm nid ni new b"
  note D = nid_invD [OF inv]
  note S = set_node_addr_spec [OF D(1) ok d, of b]
  note V = nid_view_sets [OF S(4)]
  show "held_nids ?nm = held_nids nm" by (rule V)
  have "nid \<notin> free_nids nm"
  proof
    assume n: "nid \<in> free_nids nm"
    note F = free_nid_unused [OF inv n]
    then have "new \<noteq> NEW_ADDR (nf_disk f)" using h by blast
    then have "raw_nat_from_node_info ni = nat_lookup f g nm nid" "ni_blk_addr ni \<noteq> NULLA f" using ok by (simp_all add: addr_change_ok_def)
    then show False using F(1) by (metis nid_unused_def raw_from_fields(2))
  qed
  moreover have "unused f g ?nm = unused f g nm" "jkeys ?nm = jkeys nm"
    using stored_cong [OF S(3)] mediumD [OF S(3)] by (simp_all add: unused_def [abs_def] jkeys_def)
  moreover have "deleted_marked f ?nm" unfolding deleted_marked_def
  proof (intro allI impI)
    fix n e
    assume e: "nat_root ?nm n = Some e" "get_nat_flag e IS_DIRTY" "ni_blk_addr e = NULLA f"
    show "\<not> get_nat_flag e IS_CHECKPOINTED"
    proof (cases "n = nid")
      case True
      then show ?thesis using S(8) [OF e(1)] e(3) by simp
    next
      case False
      then obtain e' where e': "nat_root nm n = Some e'" "get_nat_flag e IS_CHECKPOINTED = get_nat_flag e' IS_CHECKPOINTED" "ni_blk_addr e = ni_blk_addr e'"
        using S(8) [OF e(1)] by auto
      have "n \<in> dirty_nids ?nm" using e(1,2) by (auto simp: dirty_nids_def)
      then have "n \<in> dirty_nids nm" using False S(7) by simp
      then have "get_nat_flag e' IS_DIRTY" using e'(1) by (simp add: dirty_nids_def)
      then show ?thesis using D(6) e' e(3) by (auto simp: deleted_marked_def)
    qed
  qed
  ultimately show "nid_inv f g {} ?nm" using D S(1,7) nid_str_cong(1) [OF S(4,5)] by (auto simp: nid_inv_def V bits_ok_def)
qed

subsection \<open>Writing the table\<close>

text \<open>
  The part of the flush that concerns the ids in \<open>L\<close>: only ids whose cached entry has no address become free, and their bits follow the entries.
\<close>

definition addr_of :: "nm_info \<Rightarrow> nat \<Rightarrow> nat option" where
  "addr_of nm n = map_option ni_blk_addr (nat_root nm n)"

definition nid_flush :: "nat_fmt \<Rightarrow> nat set \<Rightarrow> nm_info \<Rightarrow> nm_info \<Rightarrow> bool" where
  "nid_flush f L nm nm' \<longleftrightarrow> nid_str nm' \<and> nat_size nm' = nat_size nm \<and> addr_of nm' = addr_of nm \<and> jkeys nm \<subseteq> jkeys nm' \<and> held_nids nm' = held_nids nm \<and> nat_block_bitmap nm' = nat_block_bitmap nm
     \<and> free_nids nm' \<subseteq> free_nids nm \<union> {n \<in> L. addr_of nm n = Some (NULLA f)}
     \<and> (\<forall>n. nid_bit f nm' n \<longrightarrow> nid_bit f nm n \<and> n \<notin> L \<or> nat_block_bitmap nm (NAT_BLOCK_OFFSET f n) \<and> addr_of nm n = Some (NULLA f))"

lemma nid_flush_same:
  assumes "nid_str nm" "nat_size nm' = nat_size nm" "nid_view nm' = nid_view nm" "addr_of nm' = addr_of nm" "jkeys nm \<subseteq> jkeys nm'"
  shows "nid_flush f {} nm nm'"
  using assms nid_str_cong(1) [OF assms(3,2)] by (simp add: nid_flush_def nid_view_sets [OF assms(3)])

lemma nid_flush_trans:
  assumes "nid_flush f A nm nm'" "nid_flush f B nm' nm''"
  shows "nid_flush f (A \<union> B) nm nm''"
  using assms unfolding nid_flush_def by (auto; blast)

lemma nid_flush_available: "nid_flush f L nm (nm'\<lparr>available_nids := a\<rparr>) = nid_flush f L nm nm'"
proof -
  let ?nm = "nm'\<lparr>available_nids := a\<rparr>"
  have v: "nid_view ?nm = nid_view nm'" "nat_size ?nm = nat_size nm'" "addr_of ?nm = addr_of nm'" "jkeys ?nm = jkeys nm'" by (simp_all add: nm_views addr_of_def [abs_def] jkeys_def)
  show ?thesis by (simp add: nid_flush_def nid_view_sets [OF v(1)] nid_str_cong(1) [OF v(1,2)] v)
qed

definition bits_scanned :: "nat_fmt \<Rightarrow> nm_info \<Rightarrow> bool" where
  "bits_scanned f nm \<longleftrightarrow> (\<forall>n. nid_bit f nm n \<longrightarrow> nat_block_bitmap nm (NAT_BLOCK_OFFSET f n))"

lemma nid_flush_scanned: "nid_flush f L nm nm' \<Longrightarrow> bits_scanned f nm \<Longrightarrow> bits_scanned f nm'"
  by (auto simp: nid_flush_def bits_scanned_def)

lemma nat_frame_addr: "nat_frame nm nm' \<Longrightarrow> addr_of nm' = addr_of nm" "nat_frame nm nm' \<Longrightarrow> nat_size nm' = nat_size nm" "nat_frame nm nm' \<Longrightarrow> jkeys nm' = jkeys nm"
  using nat_frameD(6,8) [of nm nm'] by (simp_all add: addr_of_def [abs_def] nat_frame_def jkeys_def)

lemma write_raw_jkeys: "jkeys nm \<subseteq> jkeys (write_raw f tj dst st nid raw nm)"
proof (cases "tj \<and> f2fs_lookup_journal_in_cursum f nm nid True \<noteq> None")
  case True
  then obtain off where off: "tj" "f2fs_lookup_journal_in_cursum f nm nid True = Some off" by auto
  show ?thesis
  proof (cases "journal_find (nat_journal nm) 0 nid")
    case None
    then have "off = length (nat_journal nm)" using off by (simp add: f2fs_lookup_journal_in_cursum_def nats_in_cursum_def split: if_splits)
    then show ?thesis using off by (auto simp: write_raw_def jkeys_def put_in_journal_def)
  next
    case (Some i)
    then have i: "i < length (nat_journal nm)" "fst (nat_journal nm ! i) = nid" "off = i"
      using journal_find_map_of(3) [of "nat_journal nm" nid i] off by (simp_all add: f2fs_lookup_journal_in_cursum_def)
    then have "map fst ((nat_journal nm)[i := (nid, raw)]) = map fst (nat_journal nm)" by (simp add: map_update list_update_same_conv)
    then have "fst ` set ((nat_journal nm)[i := (nid, raw)]) = fst ` set (nat_journal nm)" by (metis list.set_map)
    then show ?thesis using off i by (simp add: write_raw_def jkeys_def put_in_journal_def)
  qed
qed (auto simp: write_raw_def jkeys_def)

lemma update_bitmap_flush:
  assumes P: "0 < NAT_ENTRY_PER_BLOCK f" and str: "nid_str nm" and sc: "bits_scanned f nm" and b: "b \<Longrightarrow> addr_of nm nid = Some (NULLA f)"
  shows "nid_flush f {nid} nm (update_free_nid_bitmap f nm nid b build)"
  using str sc b nat_frame_addr [OF update_free_nid_bitmap_frame [of nm f nid b build]]
  by (auto simp: nid_flush_def update_free_nid_bitmap_bit [OF P] update_free_nid_bitmap_sets [OF P] bits_scanned_def)

lemma flush_nat_entry_nids:
  assumes P: "0 < NAT_ENTRY_PER_BLOCK f" and str: "nid_str nm" and sc: "bits_scanned f nm" and nid: "nat_root nm nid = Some ne" "nid < max_nid nm"
  shows "nid_flush f {nid} nm (flush_nat_entry f tj dst st nid nm)"
    "\<And>s. s \<noteq> NAT_BLOCK_OFFSET f nid \<Longrightarrow> nat_set_root (flush_nat_entry f tj dst st nid nm) s = nat_set_root nm s"
proof -
  define nm1 where "nm1 = write_raw f tj dst st nid (raw_nat_from_node_info ne) (nm_bug_on (ni_blk_addr ne = NEW_ADDR (nf_disk f)) nm)"
  define nm2 where "nm2 = clear_nat_cache_dirty f nm1 nid (nat_reset_flag ne)"
  let ?null = "ni_blk_addr ne = NULLA f" and ?nm = "flush_nat_entry f tj dst st nid nm"
  have eq: "?nm = (if ?null then add_free_nid f nm2 nid False True else update_free_nid_bitmap f nm2 nid False False)"
    unfolding flush_nat_entry_def nid(1) option.case nm2_def nm1_def write_raw_def Let_def ..
  have f1: "nat_root nm1 = nat_root nm" "nid_view nm1 = nid_view nm" "nat_size nm1 = nat_size nm" "nat_set_root nm1 = nat_set_root nm" "jkeys nm \<subseteq> jkeys nm1"
    using write_raw_jkeys [of "nm_bug_on (ni_blk_addr ne = NEW_ADDR (nf_disk f)) nm" f tj dst st nid "raw_nat_from_node_info ne", folded nm1_def]
    by (simp_all add: jkeys_def) (auto simp: nm1_def write_raw_def put_in_journal_def nm_bug_on_def nm_views split: option.split)
  have f2: "nid_view nm2 = nid_view nm" "nat_size nm2 = nat_size nm" "addr_of nm2 = addr_of nm" "jkeys nm \<subseteq> jkeys nm2"
    using nid(1) f1(5) mediumD [of nm2 nm1] by (simp_all add: nm2_def f1 addr_of_def fun_eq_iff jkeys_def)
  have s2: "nid_str nm2" using nid_str_cong(1) [OF f2(1,2)] str by simp
  have b2: "bits_scanned f nm2" using sc by (simp add: bits_scanned_def nid_view_sets [OF f2(1)])
  have a2: "addr_of nm2 nid = Some (ni_blk_addr ne)" using nid(1) f2(3) by (simp add: addr_of_def)
  have start: "nid_flush f {} nm nm2" by (rule nid_flush_same [OF str f2(2,1,3,4)])
  have "nid_flush f {nid} nm2 ?nm"
  proof (cases ?null)
    case False
    then show ?thesis unfolding eq using update_bitmap_flush [OF P s2 b2, of False nid False] by simp
  next
    case True
    show ?thesis
    proof (cases "nid = 0")
      case True
      then have "?nm = nm2" unfolding eq using \<open>?null\<close> by (simp add: add_free_nid_def)
      then show ?thesis using s2 a2 b2 \<open>?null\<close> by (auto simp: nid_flush_def bits_scanned_def)
    next
      case False
      define nm3 where "nm3 = insert_free_nid nm2 nid FREE_NID"
      have mx: "nid < max_nid nm2" using nid(2) f2(2) by (simp add: nat_size_def)
      note I = insert_free_nid_str [OF s2 _ mx, folded nm3_def]
      have A: "addr_of nm3 = addr_of nm2" "nat_size nm3 = nat_size nm2" "jkeys nm3 = jkeys nm2" using nat_frame_addr [OF insert_free_nid_frame [of nm2 nid FREE_NID]] by (simp_all add: nm3_def)
      have i3: "nid_flush f {nid} nm2 nm3" and sc3: "bits_scanned f nm3"
        using I False A a2 b2 \<open>?null\<close> by (auto simp: nid_flush_def nid_bit_def bits_scanned_def)
      have "nid_flush f {nid} nm3 (update_free_nid_bitmap f nm3 nid True False)"
        using update_bitmap_flush [OF P _ sc3, of True nid False] I(1) False A(1) a2 \<open>?null\<close> by simp
      from nid_flush_trans [OF i3 this] have "nid_flush f {nid} nm2 (update_free_nid_bitmap f nm3 nid True False)" by simp
      moreover have "?nm = (update_free_nid_bitmap f nm3 nid True False)\<lparr>available_nids := available_nids (update_free_nid_bitmap f nm3 nid True False) + 1\<rparr>"
        using \<open>?null\<close> False by (simp add: eq add_free_nid_def nm3_def Let_def)
      ultimately show ?thesis by (simp add: nid_flush_available)
    qed
  qed
  from nid_flush_trans [OF start this] show "nid_flush f {nid} nm ?nm" by simp
  show "nat_set_root ?nm s = nat_set_root nm s" if "s \<noteq> NAT_BLOCK_OFFSET f nid" for s
  proof -
    have "nat_frame nm2 ?nm" unfolding eq by simp
    then have "nat_set_root ?nm = nat_set_root nm2" by (simp add: nat_frame_def nat_view_def)
    then show ?thesis using that by (simp add: nm2_def f1)
  qed
qed

text \<open>The entries of the sets, block by block.\<close>

definition sets_placed :: "nat_fmt \<Rightarrow> nm_info \<Rightarrow> nat list \<Rightarrow> bool" where
  "sets_placed f nm ss \<longleftrightarrow> (\<forall>s \<in> set ss. \<forall>h. nat_set_root nm s = Some h \<longrightarrow>
     (\<forall>n \<in> set (entry_list h). NAT_BLOCK_OFFSET f n = s \<and> addr_of nm n \<noteq> None \<and> n < max_nid nm))"

definition set_nids :: "nm_info \<Rightarrow> nat \<Rightarrow> nat set" where
  "set_nids nm s = (case nat_set_root nm s of None \<Rightarrow> {} | Some h \<Rightarrow> set (entry_list h))"

lemma flush_entries_nids:
  fixes tj :: bool and dst st :: nat
  assumes P: "0 < NAT_ENTRY_PER_BLOCK f" and "nid_str nm" "bits_scanned f nm" "\<forall>n \<in> set ns. NAT_BLOCK_OFFSET f n = s \<and> addr_of nm n \<noteq> None \<and> n < max_nid nm"
  defines "F \<equiv> flush_nat_entry f tj dst st"
  shows "nid_flush f (set ns) nm (fold F ns nm) \<and> (\<forall>s'. s' \<noteq> s \<longrightarrow> nat_set_root (fold F ns nm) s' = nat_set_root nm s')"
  using assms(2-4)
proof (induction ns arbitrary: nm)
  case Nil
  then show ?case by (simp add: nid_flush_same)
next
  case (Cons n ns)
  obtain ne where ne: "nat_root nm n = Some ne" "n < max_nid nm" "NAT_BLOCK_OFFSET f n = s" using Cons.prems(3) by (auto simp: addr_of_def)
  note one = flush_nat_entry_nids [OF P Cons.prems(1,2) ne(1,2), where tj = tj and dst = dst and st = st, folded F_def]
  have "nid_str (F n nm)" "bits_scanned f (F n nm)" "\<forall>n' \<in> set ns. NAT_BLOCK_OFFSET f n' = s \<and> addr_of (F n nm) n' \<noteq> None \<and> n' < max_nid (F n nm)"
    using one(1) nid_flush_scanned [OF one(1) Cons.prems(2)] Cons.prems(3) by (simp_all add: nid_flush_def nat_size_def)
  from Cons.IH [OF this] show ?case using nid_flush_trans [OF one(1), of "set ns"] one(2) ne(3) by simp
qed

lemma flush_set_nids:
  fixes nb um :: bool and g :: f2fs_geo
  assumes P: "0 < NAT_ENTRY_PER_BLOCK f" and str: "nid_str nm" and sc: "bits_scanned f nm" and pl: "sets_placed f nm [s]"
  defines "nm' \<equiv> flush_nat_entry_set f g nb um s nm"
  shows "nid_flush f (set_nids nm s) nm nm'" "\<And>s'. s' \<noteq> s \<Longrightarrow> nat_set_root nm' s' = nat_set_root nm s'"
proof -
  have "nid_flush f (set_nids nm s) nm nm' \<and> (\<forall>s'. s' \<noteq> s \<longrightarrow> nat_set_root nm' s' = nat_set_root nm s')"
  proof (cases "nat_set_root nm s")
    case None
    then show ?thesis using str by (simp add: nm'_def flush_nat_entry_set_def nid_flush_same set_nids_def)
  next
    case (Some h)
    define tj where "tj = (\<not> (enabled_nat_bits nb (Some um) \<or> \<not> has_cursum_space f nm (unat (entry_cnt h))))"
    obtain dst nm1 where pg: "(if tj then (0, nm) else get_next_nat_page f g nm (s * NAT_ENTRY_PER_BLOCK f)) = (dst, nm1)" by fastforce
    define nm2 where "nm2 = fold (flush_nat_entry f tj dst (s * NAT_ENTRY_PER_BLOCK f)) (entry_list h) nm1"
    define nm3 where "nm3 = (if tj then nm2 else update_nat_bits f nb nm2 (s * NAT_ENTRY_PER_BLOCK f) (nat_blk nm2 dst))"
    have eq: "nm' = (case nat_set_root nm3 s of None \<Rightarrow> nm3 | Some h \<Rightarrow> if entry_cnt h = 0 then nm3\<lparr>nat_set_root := (nat_set_root nm3)(s := None)\<rparr> else nm3)"
      unfolding nm'_def flush_nat_entry_set_def Some option.case tj_def [symmetric] pg prod.case Let_def nm3_def nm2_def ..
    have v1: "nid_view nm1 = nid_view nm" "nat_size nm1 = nat_size nm" "nat_root nm1 = nat_root nm" "nat_set_root nm1 = nat_set_root nm" "jkeys nm \<subseteq> jkeys nm1"
      using pg by (auto simp: get_next_nat_page_def set_to_next_nat_def Let_def nm_views jkeys_def split: if_splits)
    have a1: "addr_of nm1 = addr_of nm" by (simp add: addr_of_def [abs_def] v1)
    have one: "nid_flush f {} nm nm1" by (rule nid_flush_same [OF str v1(2,1) a1 v1(5)])
    have "\<forall>n \<in> set (entry_list h). NAT_BLOCK_OFFSET f n = s \<and> addr_of nm1 n \<noteq> None \<and> n < max_nid nm1"
      using pl Some v1(2) by (simp add: sets_placed_def a1 nat_size_def)
    moreover have "nid_str nm1" using one by (simp add: nid_flush_def)
    ultimately have two: "nid_flush f (set (entry_list h)) nm1 nm2" "\<And>s'. s' \<noteq> s \<Longrightarrow> nat_set_root nm2 s' = nat_set_root nm1 s'"
      using flush_entries_nids [OF P _ nid_flush_scanned [OF one sc], of "entry_list h" s tj dst "s * NAT_ENTRY_PER_BLOCK f"] by (simp_all add: nm2_def)
    have fr: "nat_root nm' = nat_root nm2" "nid_view nm' = nid_view nm2" "nat_size nm' = nat_size nm2" "\<And>s'. s' \<noteq> s \<Longrightarrow> nat_set_root nm' s' = nat_set_root nm2 s'" "jkeys nm' = jkeys nm2"
      by (auto simp: jkeys_def eq nm3_def update_nat_bits_def Let_def nm_views split: option.split)
    have "nid_str nm2" using two(1) by (simp add: nid_flush_def)
    then have three: "nid_flush f {} nm2 nm'" using fr by (intro nid_flush_same) (simp_all add: addr_of_def [abs_def])
    show ?thesis using nid_flush_trans [OF one nid_flush_trans [OF two(1) three]] two(2) fr(4) v1(4) Some by (simp add: set_nids_def)
  qed
  then show "nid_flush f (set_nids nm s) nm nm'" "\<And>s'. s' \<noteq> s \<Longrightarrow> nat_set_root nm' s' = nat_set_root nm s'" by blast+
qed

lemma flush_sets_nids:
  assumes P: "0 < NAT_ENTRY_PER_BLOCK f" and "nid_str nm" "bits_scanned f nm" "sets_placed f nm ss" "distinct ss"
  shows "nid_flush f (\<Union>s \<in> set ss. set_nids nm s) nm (fold (flush_nat_entry_set f g nb um) ss nm)"
  using assms(2-5)
proof (induction ss arbitrary: nm)
  case Nil
  then show ?case by (simp add: nid_flush_same)
next
  case (Cons s ss)
  let ?nm = "flush_nat_entry_set f g nb um s nm"
  have "sets_placed f nm [s]" using Cons.prems(3) by (simp add: sets_placed_def)
  note one = flush_set_nids [OF P Cons.prems(1,2) this, where g = g and nb = nb and um = um]
  have other: "nat_set_root ?nm s' = nat_set_root nm s'" if "s' \<in> set ss" for s' using one(2) [of s'] that Cons.prems(4) by auto
  then have "sets_placed f ?nm ss" using Cons.prems(3) one(1) by (simp add: sets_placed_def nid_flush_def nat_size_def)
  moreover have "nid_str ?nm" using one(1) by (simp add: nid_flush_def)
  ultimately have "nid_flush f (\<Union>s \<in> set ss. set_nids ?nm s) ?nm (fold (flush_nat_entry_set f g nb um) ss ?nm)"
    using Cons.IH nid_flush_scanned [OF one(1) Cons.prems(2)] Cons.prems(4) by simp
  moreover have "(\<Union>s \<in> set ss. set_nids ?nm s) = (\<Union>s \<in> set ss. set_nids nm s)" using other by (simp add: set_nids_def)
  ultimately show ?case using nid_flush_trans [OF one(1)] by simp
qed

lemma collected_sets:
  assumes inv: "nat_inv f g nm"
  shows "sets_placed f nm (collect_sets f nm 0 [])" "distinct (collect_sets f nm 0 [])"
    "(\<Union>s \<in> set (collect_sets f nm 0 []). set_nids nm s) = dirty_nids nm - pre_nids nm"
proof -
  note S = nat_strD [OF nat_invD(1) [OF inv]] and C = sets_cover [OF nat_invD(1) [OF inv]]
  have mem: "set_nids nm s = set_members f nm s" for s
    using S(8) [of s] by (cases "nat_set_root nm s") (simp_all add: set_nids_def set_ok_def)
  show "distinct (collect_sets f nm 0 [])" "(\<Union>s \<in> set (collect_sets f nm 0 []). set_nids nm s) = dirty_nids nm - pre_nids nm" using C by (simp_all add: mem)
  have "NAT_BLOCK_OFFSET f n = s \<and> addr_of nm n \<noteq> None \<and> n < max_nid nm" if "nat_set_root nm s = Some h" "n \<in> set (entry_list h)" for s h n
  proof -
    have "n \<in> set_members f nm s" using mem [of s] that by (simp add: set_nids_def)
    then show ?thesis using S(4) by (auto simp: set_members_def dirty_nids_def addr_of_def)
  qed
  then show "sets_placed f nm (collect_sets f nm 0 [])" by (simp add: sets_placed_def)
qed

text \<open>The relation over a whole flush. Ids that leave the journal are written to their blocks.\<close>

lemma flush_nids:
  fixes nb um :: bool
  assumes inv: "nid_inv f g {} nm" and pre: "jkeys nm \<inter> pre_nids nm = {}"
  defines "nm' \<equiv> f2fs_flush_nat_entries f g nb um nm"
  shows "nid_str nm'" "held_nids nm' = held_nids nm" "nat_block_bitmap nm' = nat_block_bitmap nm"
    "\<And>n. n \<in> free_nids nm' \<Longrightarrow> n \<in> free_nids nm \<or> n \<notin> pre_nids nm \<and> raw_block_addr (nat_lookup f g nm n) = NULLA f"
    "\<And>n. nid_bit f nm' n \<Longrightarrow> nat_block_bitmap nm (NAT_BLOCK_OFFSET f n) \<and> (raw_block_addr (nat_lookup f g nm n) = NULLA f \<or> n \<in> pre_nids nm \<or> n \<in> jkeys nm')"
proof -
  note D = nid_invD [OF inv]
  let ?null = "\<lambda>n. raw_block_addr (nat_lookup f g nm n) = NULLA f"
  have clean: "unused f g nm n \<Longrightarrow> n \<notin> dirty_nids nm \<Longrightarrow> ?null n" for n using stored_clean [OF D(1)] by (simp add: unused_def)
  have bits: "nat_block_bitmap nm (NAT_BLOCK_OFFSET f n) \<and> (n \<notin> dirty_nids nm \<longrightarrow> n \<notin> jkeys nm \<longrightarrow> ?null n)" if "nid_bit f nm n" for n
    using bits_okD [OF D(5) that] clean by blast
  have all: "nid_str nm' \<and> held_nids nm' = held_nids nm \<and> nat_block_bitmap nm' = nat_block_bitmap nm
    \<and> (\<forall>n \<in> free_nids nm'. n \<in> free_nids nm \<or> n \<notin> pre_nids nm \<and> ?null n)
    \<and> (\<forall>n. nid_bit f nm' n \<longrightarrow> nat_block_bitmap nm (NAT_BLOCK_OFFSET f n) \<and> (?null n \<or> n \<in> pre_nids nm \<or> n \<in> jkeys nm'))"
  proof (cases "dirty_nat_cnt nm = 0")
    case True
    then have "dirty_nids nm = {}"
      using dirty_nat_cnt_card [OF nat_invD(1) [OF D(1)]] nat_str_finite(2) [OF nat_invD(1) [OF D(1)]] by simp
    then show ?thesis using True D(2) bits by (auto simp: nm'_def f2fs_flush_nat_entries_def)
  next
    case False
    define rm where "rm = (enabled_nat_bits nb (Some um) \<or> \<not> has_cursum_space f nm (unat (dirty_nat_cnt nm)))"
    define nm1 where "nm1 = (if rm then remove_nats_in_journal f nm else nm)"
    note R = remove_nats_in_journal_spec [OF D(1) pre [unfolded jkeys_def]]
    have one: "nat_inv f g nm1" "nat_lookup f g nm1 = nat_lookup f g nm" "pre_nids nm1 = pre_nids nm" "nid_view nm1 = nid_view nm" "nat_size nm1 = nat_size nm"
      "dirty_nids nm1 = dirty_nids nm \<union> (if rm then jkeys nm else {})" "\<not> rm \<Longrightarrow> jkeys nm1 = jkeys nm" using R D(1) by (simp_all add: nm1_def jkeys_def)
    note V = nid_view_sets [OF one(4)] and C = collected_sets [OF one(1)]
    have "nid_str nm1" using nid_str_cong(1) [OF one(4,5)] D(2) by simp
    moreover have "bits_scanned f nm1" using bits by (simp add: bits_scanned_def V)
    ultimately have "nid_flush f (dirty_nids nm1 - pre_nids nm1) nm1 (fold (flush_nat_entry_set f g nb um) (collect_sets f nm1 0 []) nm1)"
      using flush_sets_nids [OF nat_strD(1) [OF nat_invD(1) [OF one(1)]] _ _ C(1,2)] by (simp add: C(3))
    then have fl: "nid_flush f (dirty_nids nm1 - pre_nids nm1) nm1 nm'"
      using False by (simp add: nm'_def f2fs_flush_nat_entries_def nm1_def [symmetric] rm_def [symmetric] Let_def)
    have null: "?null n" if "addr_of nm1 n = Some (NULLA f)" for n
      using that unfolding one(2) [symmetric] by (auto simp: addr_of_def nat_lookup_def raw_nat_from_node_info_def)
    have "?null n \<or> n \<in> pre_nids nm \<or> n \<in> jkeys nm'" if "nid_bit f nm' n" for n
    proof (cases "addr_of nm1 n = Some (NULLA f)")
      case False
      then have b: "nid_bit f nm n" "n \<notin> dirty_nids nm1 - pre_nids nm1" using fl that by (auto simp: nid_flush_def V)
      have "jkeys nm \<subseteq> jkeys nm'" if "\<not> rm" using fl one(7) [OF that] by (simp add: nid_flush_def)
      then show ?thesis using b bits [OF b(1)] one(3,6) by (auto split: if_splits)
    qed (use null in simp)
    moreover have "nat_block_bitmap nm (NAT_BLOCK_OFFSET f n)" if "nid_bit f nm' n" for n using fl that bits by (auto simp: nid_flush_def V)
    moreover have "n \<in> free_nids nm \<or> n \<notin> pre_nids nm \<and> ?null n" if "n \<in> free_nids nm'" for n using fl that null one(3) by (auto simp: nid_flush_def V)
    ultimately show ?thesis using fl by (simp add: nid_flush_def V)
  qed
  then show "nid_str nm'" "held_nids nm' = held_nids nm" "nat_block_bitmap nm' = nat_block_bitmap nm"
    "\<And>n. n \<in> free_nids nm' \<Longrightarrow> n \<in> free_nids nm \<or> n \<notin> pre_nids nm \<and> ?null n"
    "\<And>n. nid_bit f nm' n \<Longrightarrow> nat_block_bitmap nm (NAT_BLOCK_OFFSET f n) \<and> (?null n \<or> n \<in> pre_nids nm \<or> n \<in> jkeys nm')" by blast+
qed

lemma f2fs_flush_nat_entries_nids:
  assumes g: "blocks_per_seg g = 2 ^ log_blocks_per_seg g" and inv: "nid_inv f g {} nm" and pre: "jkeys nm \<inter> pre_nids nm = {}" and d: "NULLA f \<noteq> NEW_ADDR (nf_disk f)"
  shows "nid_inv f g {} (f2fs_flush_nat_entries f g nb um nm)" "held_nids (f2fs_flush_nat_entries f g nb um nm) = held_nids nm"
proof -
  let ?nm = "f2fs_flush_nat_entries f g nb um nm"
  note D = nid_invD [OF inv] and L = flush_nids [OF inv pre, where nb = nb and um = um]
  note F = f2fs_flush_nat_entries_inv [OF g D(1) pre [unfolded jkeys_def], where nb = nb and um = um]
  show "held_nids ?nm = held_nids nm" by (rule L)
  have stored: "unused f g ?nm n" if "n \<notin> pre_nids nm" "raw_block_addr (nat_lookup f g nm n) = NULLA f" for n using F(5) that by (simp add: unused_def)
  have "pre_nids nm \<subseteq> dirty_nids nm" using nat_strD(7) [OF nat_invD(1) [OF D(1)]] .
  then have "n \<notin> dirty_nids ?nm \<and> unused f g ?nm n" if "n \<in> free_nids ?nm" for n
    using L(4) [OF that] D(3) [of n] free_nid_unused(1) [OF inv, of n] F(3) stored by (auto simp: nid_unused_def)
  moreover have "bits_ok f g ?nm" using L(3,5) stored F(3) by (auto simp: bits_ok_def)
  moreover have "deleted_marked f ?nm" unfolding deleted_marked_def
  proof (intro allI impI)
    fix n e
    assume e: "nat_root ?nm n = Some e" "get_nat_flag e IS_DIRTY" "ni_blk_addr e = NULLA f"
    then have "n \<in> dirty_nids ?nm" by (simp add: dirty_nids_def)
    then have "n \<in> pre_nids ?nm" by (simp add: F(3,4))
    then have "get_nat_flag e IS_PREALLOC" using e(1) by (simp add: pre_nids_def)
    then show "\<not> get_nat_flag e IS_CHECKPOINTED" using nat_agrD(5) [OF nat_invD(2) [OF F(1)] e(1)] e(3) d by simp
  qed
  ultimately show "nid_inv f g {} ?nm" using F(1) L(1) by (simp add: nid_inv_def)
qed

subsection \<open>Runs\<close>

text \<open>
  The operations in any order. A caller that gives a node its first address (\<open>NEW_ADDR\<close>) holds the id from \<open>f2fs_alloc_nid\<close>, one that changes or drops
  an address has read the entry; an id given back unused was handed out; the checkpoint writes the table when no node whose id is in the journal waits for its first write.
\<close>

inductive nm_step :: "nat_fmt \<Rightarrow> f2fs_geo \<Rightarrow> nm_info \<Rightarrow> nm_info \<Rightarrow> bool" for f g where
  nm_build: "nm_step f g nm (f2fs_build_free_nids f g avail nm sync mount)"
| nm_alloc: "f2fs_alloc_nid f g nm = Some (r, nm') \<Longrightarrow> nm_step f g nm nm'"
| nm_done: "nid \<in> held_nids nm \<Longrightarrow> nm_step f g nm (f2fs_alloc_nid_done nm nid)"
| nm_failed: "nid \<in> held_nids nm \<Longrightarrow> nid_unused f g nm nid \<Longrightarrow> nm_step f g nm (f2fs_alloc_nid_failed f avail nm nid)"
| nm_shrink_nids: "nm_step f g nm (snd (f2fs_try_to_free_nids f nm nr))"
| nm_shrink_nats: "nm_step f g nm (f2fs_try_to_free_nats nm nr)"
| nm_read: "nid < max_nid nm \<Longrightarrow> nm_step f g nm (snd (f2fs_get_node_info f g mem nm nid))"
| nm_set: "addr_change_ok f g nm nid ni new \<Longrightarrow> (new = NEW_ADDR (nf_disk f) \<Longrightarrow> nid \<in> held_nids nm) \<Longrightarrow> nm_step f g nm (set_node_addr f nm nid ni new b)"
| nm_flush: "jkeys nm \<inter> pre_nids nm = {} \<Longrightarrow> nm_step f g nm (f2fs_flush_nat_entries f g nb um nm)"

lemma nm_step_inv:
  assumes "nm_step f g nm nm'" "nid_inv f g {} nm" "blocks_per_seg g = 2 ^ log_blocks_per_seg g" "NULLA f \<noteq> NEW_ADDR (nf_disk f)"
  shows "nid_inv f g {} nm'"
  using assms
proof cases
  case (nm_alloc r)
  then show ?thesis using f2fs_alloc_nid_result [of f g nm] assms(2) by (fastforce simp: alloc_result_def)
next
  case (nm_read nid mem)
  then show ?thesis using nat_same_inv(1) [OF assms(2)] f2fs_get_node_info_spec(2) [OF nid_invD(1) [OF assms(2)]] by simp
next
  case (nm_shrink_nats nr)
  then show ?thesis using nat_same_inv(1) [OF assms(2)] f2fs_try_to_free_nats_spec [OF nid_invD(1) [OF assms(2)]] by simp
qed (use assms(2-4) in \<open>auto intro: builtD(1) f2fs_build_free_nids_built f2fs_alloc_nid_done_inv f2fs_alloc_nid_failed_inv f2fs_try_to_free_nids_built set_node_addr_nids f2fs_flush_nat_entries_nids\<close>)

lemma nm_run_inv:
  assumes "(nm_step f g)\<^sup>*\<^sup>* nm nm'" "nid_inv f g {} nm" "blocks_per_seg g = 2 ^ log_blocks_per_seg g" "NULLA f \<noteq> NEW_ADDR (nf_disk f)"
  shows "nid_inv f g {} nm'"
  using assms by (induction rule: rtranclp_induct) (auto intro: nm_step_inv)

end
