(* ===== verification/Nid_Live.thy ===== *)
theory Nid_Live
  imports Nid_Run
begin

text \<open>
  Whether \<open>f2fs_alloc_nid\<close> returns. The retries end when a table block that was not scanned yet holds a free id and the scan starts at the
  first id of a block; a scan that starts inside a block marks the whole block as scanned, and the ids in front are lost until the next mount.
\<close>

subsection \<open>The list after a scan\<close>

lemma nat_blocks_frame: "nat_frame nm nm' \<Longrightarrow> nat_blocks_nid f nm' = nat_blocks_nid f nm" "nat_frame nm nm' \<Longrightarrow> max_nid nm' = max_nid nm"
  by (rule nat_frameD; assumption)+

lemma add_free_nid_root:
  "free_nid_root (add_free_nid f nm m True u) n = (if m = n \<and> n \<noteq> 0 \<and> free_nid_root nm n = None \<and> \<not> nat_blocks_nid f nm n then Some FREE_NID else free_nid_root nm n)"
  "nat_block_bitmap (add_free_nid f nm m True u) = nat_block_bitmap nm"
  by (auto simp: add_free_nid_def Let_def insert_free_nid_def inc_nid_cnt_def update_free_nid_bitmap_def)

lemma bitmap_root: "free_nid_root (update_free_nid_bitmap f nm m b u) = free_nid_root nm" "nat_block_bitmap (update_free_nid_bitmap f nm m b u) = nat_block_bitmap nm"
  by (simp_all add: update_free_nid_bitmap_def Let_def)

lemma bug_on_blocks: "nat_blocks_nid f (nm_bug_on c nm) = nat_blocks_nid f nm"
  by (simp add: nat_blocks_nid_def fun_eq_iff)

lemma scan_nat_loop_root:
  "free_nid_root (scan_nat_loop f blk nm i nid) n =
     (if free_nid_root nm n = None \<and> n \<noteq> 0 \<and> \<not> nat_blocks_nid f nm n \<and> nid \<le> n \<and> n < max_nid nm \<and> i + (n - nid) < NAT_ENTRY_PER_BLOCK f
         \<and> raw_block_addr (blk (i + (n - nid))) = NULLA f then Some FREE_NID else free_nid_root nm n)
   \<and> nat_block_bitmap (scan_nat_loop f blk nm i nid) = nat_block_bitmap nm"
proof (induction f blk nm i nid rule: scan_nat_loop.induct)
  case (1 f blk nm i nid)
  show ?case
  proof (cases "i \<ge> NAT_ENTRY_PER_BLOCK f \<or> nid \<ge> max_nid nm")
    case True
    then show ?thesis by (subst scan_nat_loop.simps, subst (2) scan_nat_loop.simps) auto
  next
    case False
    define nm1 where "nm1 = nm_bug_on (raw_block_addr (blk i) = NEW_ADDR (nf_disk f)) nm"
    define nm2 where "nm2 = (if raw_block_addr (blk i) = NULLA f then add_free_nid f nm1 nid True True else update_free_nid_bitmap f nm1 nid False True)"
    have eq: "scan_nat_loop f blk nm i nid = scan_nat_loop f blk nm2 (i + 1) (nid + 1)"
      using False by (subst scan_nat_loop.simps) (simp add: Let_def nm1_def nm2_def)
    have fr: "nat_frame nm1 nm2" by (simp add: nm2_def)
    have b: "nat_blocks_nid f nm2 = nat_blocks_nid f nm" "max_nid nm2 = max_nid nm" using nat_blocks_frame [OF fr] by (simp_all add: nm1_def bug_on_blocks)
    have r: "free_nid_root nm2 n = (if raw_block_addr (blk i) = NULLA f \<and> nid = n \<and> n \<noteq> 0 \<and> free_nid_root nm n = None \<and> \<not> nat_blocks_nid f nm n then Some FREE_NID else free_nid_root nm n)"
      by (simp add: nm2_def add_free_nid_root bitmap_root) (simp add: nm1_def bug_on_blocks)
    have "nat_block_bitmap nm2 = nat_block_bitmap nm" by (simp add: nm2_def add_free_nid_root bitmap_root) (simp add: nm1_def)
    moreover note ih = 1 [OF False refl nm1_def nm2_def]
    moreover have "i + 1 + (n - (nid + 1)) = i + (n - nid)" if "nid + 1 \<le> n" using that by simp
    ultimately show ?thesis unfolding eq using False r b by (cases "nid = n") (auto simp: not_less_eq_eq)
  qed
qed

lemma scan_nat_page_root:
  assumes P: "0 < NAT_ENTRY_PER_BLOCK f"
  shows "free_nid_root (scan_nat_page f nm blk (c * NAT_ENTRY_PER_BLOCK f)) n =
     (if free_nid_root nm n = None \<and> n \<noteq> 0 \<and> \<not> nat_blocks_nid f nm n \<and> NAT_BLOCK_OFFSET f n = c \<and> n < max_nid nm
         \<and> raw_block_addr (blk (n - START_NID f n)) = NULLA f then Some FREE_NID else free_nid_root nm n)"
    "nat_block_bitmap (scan_nat_page f nm blk (c * NAT_ENTRY_PER_BLOCK f)) = (nat_block_bitmap nm)(c := True)"
proof -
  let ?P = "NAT_ENTRY_PER_BLOCK f"
  have "c * ?P \<le> n \<and> n - c * ?P < ?P \<longleftrightarrow> NAT_BLOCK_OFFSET f n = c"
  proof
    assume "c * ?P \<le> n \<and> n - c * ?P < ?P"
    then show "NAT_BLOCK_OFFSET f n = c" using div_mult_self1 [of ?P "n - c * ?P" c] P by (simp add: NAT_BLOCK_OFFSET_def)
  next
    assume "NAT_BLOCK_OFFSET f n = c"
    then show "c * ?P \<le> n \<and> n - c * ?P < ?P" using P by (auto simp: NAT_BLOCK_OFFSET_def minus_div_mult_eq_mod)
  qed
  moreover have "nat_blocks_nid f (nm\<lparr>nat_block_bitmap := b\<rparr>) = nat_blocks_nid f nm" for b by (simp add: nat_blocks_nid_def fun_eq_iff)
  moreover have "NAT_BLOCK_OFFSET f n = c \<Longrightarrow> START_NID f n = c * ?P" by (rule block_of_nid(2) [OF P])
  ultimately show "free_nid_root (scan_nat_page f nm blk (c * ?P)) n =
     (if free_nid_root nm n = None \<and> n \<noteq> 0 \<and> \<not> nat_blocks_nid f nm n \<and> NAT_BLOCK_OFFSET f n = c \<and> n < max_nid nm
         \<and> raw_block_addr (blk (n - START_NID f n)) = NULLA f then Some FREE_NID else free_nid_root nm n)"
    unfolding scan_nat_page_def Let_def scan_nat_loop_root [THEN conjunct1] by auto
  show "nat_block_bitmap (scan_nat_page f nm blk (c * ?P)) = (nat_block_bitmap nm)(c := True)"
    using scan_nat_loop_root by (simp add: scan_nat_page_def Let_def block_of_nid(1) [OF P])
qed

subsection \<open>An id that waits to be found\<close>

definition findable :: "nat_fmt \<Rightarrow> f2fs_geo \<Rightarrow> nm_info \<Rightarrow> nat \<Rightarrow> bool" where
  "findable f g nm n \<longleftrightarrow> 0 < n \<and> n < max_nid nm \<and> \<not> nat_block_bitmap nm (NAT_BLOCK_OFFSET f n) \<and> unused f g nm n \<and> n \<notin> jkeys nm
     \<and> nat_root nm n = None \<and> free_nid_root nm n = None"

text \<open>A step of the building either finds the id or leaves it findable; one found stays on the list.\<close>

definition found_or_kept :: "nat_fmt \<Rightarrow> f2fs_geo \<Rightarrow> nat \<Rightarrow> nm_info \<Rightarrow> nm_info \<Rightarrow> bool" where
  "found_or_kept f g n nm nm' \<longleftrightarrow> built f g (jkeys nm) nm nm' \<and> (n \<in> free_nids nm \<longrightarrow> n \<in> free_nids nm') \<and> (findable f g nm n \<longrightarrow> n \<in> free_nids nm' \<or> findable f g nm' n)"

lemma found_or_kept_trans: "found_or_kept f g n nm nm' \<Longrightarrow> found_or_kept f g n nm' nm'' \<Longrightarrow> found_or_kept f g n nm nm''"
  unfolding found_or_kept_def using built_trans builtD(3) by metis

lemma found_or_keptI:
  assumes b: "built f g (jkeys nm) nm nm'" and root: "free_nid_root nm' n = free_nid_root nm n \<or> free_nid_root nm n = None \<and> free_nid_root nm' n = Some FREE_NID"
    and bl: "free_nid_root nm' n = free_nid_root nm n \<Longrightarrow> nat_block_bitmap nm' (NAT_BLOCK_OFFSET f n) = nat_block_bitmap nm (NAT_BLOCK_OFFSET f n) \<or> \<not> findable f g nm n"
  shows "found_or_kept f g n nm nm'"
proof -
  have "nat_root nm' = nat_root nm" using b by (simp add: built_def nat_view_def)
  then show ?thesis using root bl b by (auto simp: found_or_kept_def findable_def free_nids_def builtD [OF b])
qed

lemma scan_nat_page_found:
  assumes inv: "nid_inv f g (jkeys nm) nm" and un: "\<not> nat_block_bitmap nm c"
  defines "nm' \<equiv> scan_nat_page f nm (nat_blk nm (current_nat_addr f g nm (c * NAT_ENTRY_PER_BLOCK f))) (c * NAT_ENTRY_PER_BLOCK f)"
  shows "found_or_kept f g n nm nm'" "findable f g nm n \<Longrightarrow> NAT_BLOCK_OFFSET f n = c \<Longrightarrow> n \<in> free_nids nm'"
proof -
  have P: "0 < NAT_ENTRY_PER_BLOCK f" using nat_strD(1) [OF nat_invD(1) [OF nid_invD(1) [OF inv]]] .
  note R = scan_nat_page_root [OF P, of nm "nat_blk nm (current_nat_addr f g nm (c * NAT_ENTRY_PER_BLOCK f))" c, folded nm'_def]
  show fnd: "n \<in> free_nids nm'" if "findable f g nm n" "NAT_BLOCK_OFFSET f n = c"
  proof -
    have "map_of (nat_journal nm) n = None" using that(1) by (simp add: findable_def jkeys_def map_of_eq_None_iff)
    moreover have "current_nat_addr f g nm n = current_nat_addr f g nm (c * NAT_ENTRY_PER_BLOCK f)"
      using that(2) by (intro block_of_nid(3) [OF P]) (simp add: block_of_nid(1) [OF P])
    ultimately have "raw_block_addr (nat_blk nm (current_nat_addr f g nm (c * NAT_ENTRY_PER_BLOCK f)) (n - START_NID f n)) = NULLA f"
      using that(1) by (simp add: findable_def unused_def stored_nat_def)
    moreover have "\<not> nat_blocks_nid f nm n" using that(1) by (simp add: findable_def nat_blocks_nid_def)
    ultimately show ?thesis using that R(1) [of n] by (simp add: findable_def free_nids_def)
  qed
  have b: "built f g (jkeys nm) nm nm'" unfolding nm'_def by (rule scan_nat_page_built [OF inv])
  show "found_or_kept f g n nm nm'"
  proof (rule found_or_keptI [OF b])
    show "free_nid_root nm' n = free_nid_root nm n \<or> free_nid_root nm n = None \<and> free_nid_root nm' n = Some FREE_NID" using R(1) [of n] by simp
    assume same: "free_nid_root nm' n = free_nid_root nm n"
    have "NAT_BLOCK_OFFSET f n \<noteq> c" if "findable f g nm n" using fnd [OF that] same that by (auto simp: findable_def free_nids_def)
    then show "nat_block_bitmap nm' (NAT_BLOCK_OFFSET f n) = nat_block_bitmap nm (NAT_BLOCK_OFFSET f n) \<or> \<not> findable f g nm n" using R(2) by auto
  qed
qed

text \<open>The loop over eight blocks, from block \<open>c\<close> on, in a circle of \<open>B\<close> blocks.\<close>

lemma build_loop_found:
  assumes "nid_inv f g (jkeys nm) nm" "c < nat_blocks nm"
  shows "\<exists>nm'. build_loop f g m nm (c * NAT_ENTRY_PER_BLOCK f) = ((c + m) mod nat_blocks nm * NAT_ENTRY_PER_BLOCK f, nm') \<and> found_or_kept f g n nm nm'
    \<and> (findable f g nm n \<longrightarrow> (\<exists>j < m. (c + j) mod nat_blocks nm = NAT_BLOCK_OFFSET f n) \<longrightarrow> n \<in> free_nids nm')"
  using assms
proof (induction m arbitrary: nm c)
  case 0
  then show ?case by (simp add: found_or_kept_def built_refl)
next
  case (Suc m)
  let ?P = "NAT_ENTRY_PER_BLOCK f" and ?B = "nat_blocks nm" and ?b = "NAT_BLOCK_OFFSET f n"
  note S = nat_strD [OF nat_invD(1) [OF nid_invD(1) [OF Suc.prems(1)]]]
  define nm1 where "nm1 = (if \<not> nat_block_bitmap nm c then scan_nat_page f nm (nat_blk nm (current_nat_addr f g nm (c * ?P))) (c * ?P) else nm)"
  have fk: "found_or_kept f g n nm nm1" using scan_nat_page_found(1) [OF Suc.prems(1), of c n] built_refl [OF Suc.prems(1)]
    by (simp add: nm1_def found_or_kept_def)
  have here: "n \<in> free_nids nm1" if "findable f g nm n" "?b = c"
    using scan_nat_page_found(2) [OF Suc.prems(1), of c n] that by (simp add: nm1_def findable_def)
  have b: "built f g (jkeys nm) nm nm1" using fk by (simp add: found_or_kept_def)
  note E = builtD [OF b]
  have nid: "(if (c + 1) * ?P \<ge> max_nid nm1 then 0 else (c + 1) * ?P) = (c + 1) mod ?B * ?P"
  proof (cases "c + 1 = ?B")
    case False
    then have "(c + 1) * ?P < ?B * ?P" using Suc.prems(2) S(1) by (intro mult_less_mono1) simp_all
    then show ?thesis using False Suc.prems(2) S(2) by (simp add: E(5))
  qed (simp add: E(5) S(2))
  have "build_loop f g (Suc m) nm (c * ?P) = build_loop f g m nm1 ((c + 1) mod ?B * ?P)"
    using nid S(1) by (simp add: Let_def nm1_def [symmetric] block_of_nid(1) add.commute split: if_splits)
  moreover have "(c + 1) mod ?B < nat_blocks nm1" using Suc.prems(2) E(9) by simp
  moreover have "nid_inv f g (jkeys nm1) nm1" using E(1,3) by simp
  ultimately obtain nm2 where nm2: "build_loop f g (Suc m) nm (c * ?P) = (((c + 1) mod ?B + m) mod ?B * ?P, nm2)" "found_or_kept f g n nm1 nm2"
    "findable f g nm1 n \<longrightarrow> (\<exists>j < m. ((c + 1) mod ?B + j) mod ?B = ?b) \<longrightarrow> n \<in> free_nids nm2"
    using Suc.IH [of nm1 "(c + 1) mod ?B"] by (auto simp: E(9))
  have "n \<in> free_nids nm2" if fi: "findable f g nm n" and ex: "\<exists>j < Suc m. (c + j) mod ?B = ?b"
  proof (cases "n \<in> free_nids nm1")
    case True
    then show ?thesis using nm2(2) by (simp add: found_or_kept_def)
  next
    case False
    then have fi1: "findable f g nm1 n" using fk fi by (simp add: found_or_kept_def)
    obtain j where j: "j < Suc m" "(c + j) mod ?B = ?b" using ex by blast
    have "j \<noteq> 0" using False here [OF fi] j Suc.prems(2) by (intro notI) simp
    then obtain i where "j = Suc i" using not0_implies_Suc by blast
    then show ?thesis using nm2(3) fi1 j by (auto simp: mod_add_left_eq)
  qed
  then show ?case using nm2 found_or_kept_trans [OF fk] by (auto simp: mod_add_left_eq)
qed

lemma scan_bits_loop_found: "nid_inv f g (jkeys nm) nm \<Longrightarrow> i < nat_blocks nm \<Longrightarrow> found_or_kept f g n nm (snd (scan_bits_loop f i nm idx))"
proof (rule found_or_keptI [OF scan_bits_loop_built])
  have "(free_nid_root (snd (scan_bits_loop f i nm idx)) n = free_nid_root nm n
      \<or> free_nid_root nm n = None \<and> free_nid_root (snd (scan_bits_loop f i nm idx)) n = Some FREE_NID)
    \<and> nat_block_bitmap (snd (scan_bits_loop f i nm idx)) = nat_block_bitmap nm"
  proof (induction f i nm idx rule: scan_bits_loop.induct)
    case (1 f i nm idx)
    define idx' where "idx' = find_next_bit (free_nid_bitmap nm i) (NAT_ENTRY_PER_BLOCK f) idx"
    define nm1 where "nm1 = add_free_nid f nm (i * NAT_ENTRY_PER_BLOCK f + idx') True False"
    have eq: "scan_bits_loop f i nm idx = (if idx \<ge> NAT_ENTRY_PER_BLOCK f \<or> idx' \<ge> NAT_ENTRY_PER_BLOCK f then (False, nm)
        else if unat (nid_cnt nm1 FREE_NID) \<ge> MAX_FREE_NIDS f then (True, nm1) else scan_bits_loop f i nm1 (idx' + 1))"
      by (subst scan_bits_loop.simps) (simp add: Let_def idx'_def nm1_def)
    have "free_nid_root nm1 n = free_nid_root nm n \<or> free_nid_root nm n = None \<and> free_nid_root nm1 n = Some FREE_NID" "nat_block_bitmap nm1 = nat_block_bitmap nm"
      by (simp_all add: nm1_def add_free_nid_root)
    then show ?case unfolding eq using 1 [OF idx'_def _ nm1_def] by auto
  qed
  then show "free_nid_root (snd (scan_bits_loop f i nm idx)) n = free_nid_root nm n
      \<or> free_nid_root nm n = None \<and> free_nid_root (snd (scan_bits_loop f i nm idx)) n = Some FREE_NID"
    "nat_block_bitmap (snd (scan_bits_loop f i nm idx)) (NAT_BLOCK_OFFSET f n) = nat_block_bitmap nm (NAT_BLOCK_OFFSET f n) \<or> \<not> findable f g nm n" by simp_all
qed

lemma scan_blocks_loop_found:
  assumes "nid_inv f g (jkeys nm) nm" "set is \<subseteq> {..<nat_blocks nm}"
  shows "found_or_kept f g n nm (scan_blocks_loop f is nm)"
  using assms
proof (induction "is" arbitrary: nm)
  case Nil
  then show ?case by (simp add: found_or_kept_def built_refl)
next
  case (Cons i "is")
  obtain r nm1 where e: "scan_bits_loop f i nm 0 = (r, nm1)" by fastforce
  then have fk: "found_or_kept f g n nm nm1" using scan_bits_loop_found [OF Cons.prems(1), of i n 0] Cons.prems(2) by simp
  then have b: "built f g (jkeys nm) nm nm1" by (simp add: found_or_kept_def)
  have "found_or_kept f g n nm (scan_blocks_loop f is nm1)"
    using Cons.IH [of nm1] builtD [OF b] Cons.prems(2) found_or_kept_trans [OF fk] by simp
  moreover have "found_or_kept f g n nm (scan_blocks_loop f is nm)" using Cons by simp
  ultimately show ?case using fk e by (simp split: bool.split)
qed

text \<open>The scan of the journal does not touch an id that is not there.\<close>

lemma scan_curseg_cache_root:
  assumes "n \<notin> jkeys nm"
  shows "free_nid_root (scan_curseg_cache f nm) n = free_nid_root nm n" "nat_block_bitmap (scan_curseg_cache f nm) = nat_block_bitmap nm"
proof -
  have "n \<notin> fst ` set es \<Longrightarrow> free_nid_root (fold (scan_journal_entry f) es nm) n = free_nid_root nm n \<and> nat_block_bitmap (fold (scan_journal_entry f) es nm) = nat_block_bitmap nm" for es
  proof (induction es arbitrary: nm)
    case (Cons x es)
    have "free_nid_root (scan_journal_entry f x nm) n = free_nid_root nm n" "nat_block_bitmap (scan_journal_entry f x nm) = nat_block_bitmap nm"
      using Cons.prems by (auto simp: scan_journal_entry_def add_free_nid_root remove_free_nid_def remove_free_nid_entry_def Let_def dec_nid_cnt_def)
    then show ?case using Cons.IH [of "scan_journal_entry f x nm"] Cons.prems by simp
  qed simp
  then show "free_nid_root (scan_curseg_cache f nm) n = free_nid_root nm n" "nat_block_bitmap (scan_curseg_cache f nm) = nat_block_bitmap nm"
    using assms by (simp_all add: scan_curseg_cache_def jkeys_def)
qed

lemma scan_curseg_cache_found:
  assumes inv: "nid_inv f g (jkeys nm) nm" and n: "n \<notin> jkeys nm"
  shows "found_or_kept f g n nm (scan_curseg_cache f nm)"
proof -
  have b: "built f g {} nm (scan_curseg_cache f nm)" by (rule scan_curseg_cache_built [OF inv])
  then have "built f g (jkeys nm) nm (scan_curseg_cache f nm)" using nid_inv_mono [OF builtD(1) [OF b]] by (simp add: built_def)
  then show ?thesis by (rule found_or_keptI) (simp_all add: scan_curseg_cache_root [OF n])
qed

lemma scan_free_nid_bits_found:
  assumes inv: "nid_inv f g {} nm" and n: "n \<notin> jkeys nm"
  shows "found_or_kept f g n nm (scan_free_nid_bits f nm)"
proof -
  have fk: "found_or_kept f g n nm (scan_blocks_loop f [0..<nat_blocks nm] nm)" using nid_inv_mono [OF inv] by (intro scan_blocks_loop_found) auto
  then have b: "built f g (jkeys nm) nm (scan_blocks_loop f [0..<nat_blocks nm] nm)" by (simp add: found_or_kept_def)
  show ?thesis unfolding scan_free_nid_bits_def
    using builtD(1,3) [OF b] n by (intro found_or_kept_trans [OF fk] scan_curseg_cache_found) simp_all
qed

lemma scan_curseg_cache_next: "next_scan_nid (scan_curseg_cache f nm) = next_scan_nid nm"
proof -
  have "next_scan_nid (scan_journal_entry f x nm) = next_scan_nid nm" for x nm
    by (simp add: scan_journal_entry_def add_free_nid_def update_free_nid_bitmap_def insert_free_nid_def inc_nid_cnt_def remove_free_nid_def
      remove_free_nid_entry_def dec_nid_cnt_def Let_def nm_bug_on_def)
  then have "next_scan_nid (fold (scan_journal_entry f) es nm) = next_scan_nid nm" for es nm by (induction es arbitrary: nm) simp_all
  then show ?thesis by (simp add: scan_curseg_cache_def)
qed

subsection \<open>The retries end\<close>

definition start_block :: "nat_fmt \<Rightarrow> nm_info \<Rightarrow> nat" where
  "start_block f nm = (if next_scan_nid nm \<ge> max_nid nm then 0 else next_scan_nid nm div NAT_ENTRY_PER_BLOCK f)"

definition distance :: "nat_fmt \<Rightarrow> nm_info \<Rightarrow> nat \<Rightarrow> nat" where
  "distance f nm n = nat ((int (NAT_BLOCK_OFFSET f n) - int (start_block f nm)) mod int (nat_blocks nm))"

lemma build_progress:
  assumes inv: "nid_inv f g {} nm" and al: "next_scan_nid nm mod NAT_ENTRY_PER_BLOCK f = 0" and fi: "findable f g nm n"
  defines "nm' \<equiv> f2fs_build_free_nids f g True nm True False"
  shows "free_nid_list nm' \<noteq> [] \<or> findable f g nm' n \<and> next_scan_nid nm' mod NAT_ENTRY_PER_BLOCK f = 0 \<and> distance f nm' n < distance f nm n"
proof -
  let ?P = "NAT_ENTRY_PER_BLOCK f" and ?B = "nat_blocks nm" and ?b = "NAT_BLOCK_OFFSET f n" and ?c = "start_block f nm"
  note S = nat_strD [OF nat_invD(1) [OF nid_invD(1) [OF inv]]]
  have "n < ?B * ?P" using fi S(2) by (simp add: findable_def)
  then have bB: "?b < ?B" by (simp add: NAT_BLOCK_OFFSET_def less_mult_imp_div_less)
  then have cB: "?c < ?B" using S(2) by (auto simp: start_block_def less_mult_imp_div_less)
  have start: "(if next_scan_nid nm \<ge> max_nid nm then 0 else next_scan_nid nm) = ?c * ?P" using al by (auto simp: start_block_def mod_0_imp_dvd)
  have nj: "n \<notin> jkeys nm" using fi by (simp add: findable_def)
  define nm1 where "nm1 = scan_free_nid_bits f nm"
  have fk1: "found_or_kept f g n nm nm1" unfolding nm1_def by (rule scan_free_nid_bits_found [OF inv nj])
  have b1: "built f g {} nm nm1" unfolding nm1_def by (rule scan_free_nid_bits_built [OF inv])
  note E1 = builtD [OF b1]
  have inv1: "nid_inv f g (jkeys nm1) nm1" using nid_inv_mono [OF E1(1)] by simp
  obtain nm2 where nm2: "build_loop f g FREE_NID_PAGES nm1 (?c * ?P) = ((?c + 8) mod ?B * ?P, nm2)" "found_or_kept f g n nm1 nm2"
    "findable f g nm1 n \<longrightarrow> (\<exists>j < 8. (?c + j) mod ?B = ?b) \<longrightarrow> n \<in> free_nids nm2"
    using build_loop_found [OF inv1, of ?c 8 n] cB by (auto simp: E1(9))
  define nm3 where "nm3 = nm2\<lparr>next_scan_nid := (?c + 8) mod ?B * ?P\<rparr>"
  have same3: "free_nids nm3 = free_nids nm2" "free_nid_root nm3 = free_nid_root nm2" "nat_block_bitmap nm3 = nat_block_bitmap nm2" by (simp_all add: nm3_def free_nids_def)
  have "built f g (jkeys nm1) nm1 nm3" unfolding nm3_def using nm2(2) by (intro built_next_scan) (simp add: found_or_kept_def)
  then have b3: "built f g (jkeys nm) nm nm3" using b1 by (simp add: built_def builtD(3) [OF b1])
  note E3 = builtD [OF b3]
  have "unat (nid_cnt nm FREE_NID) \<ge> ?P \<Longrightarrow> free_nid_list nm \<noteq> []" "unat (nid_cnt nm1 FREE_NID) \<ge> ?P \<Longrightarrow> free_nid_list nm1 \<noteq> []"
    using list_count(1) [OF nid_invD(2) nat_invD(1) [OF nid_invD(1)]] inv E1(1) S(1) by fastforce+
  moreover have "nm' = (if unat (nid_cnt nm FREE_NID) \<ge> ?P then nm else if unat (nid_cnt nm1 FREE_NID) \<ge> ?P then nm1 else scan_curseg_cache f nm3)"
    using nm2(1) unfolding nm'_def f2fs_build_free_nids_def start by (simp add: Let_def nm1_def [symmetric] nm3_def)
  ultimately consider "free_nid_list nm' \<noteq> []" | "nm' = scan_curseg_cache f nm3" by (auto split: if_splits)
  then show ?thesis
  proof cases
    case 2
    have b': "built f g {} nm nm'" unfolding nm'_def by (rule f2fs_build_free_nids_built [OF inv])
    note E' = builtD [OF b']
    have R: "free_nid_root nm' n = free_nid_root nm2 n" "nat_block_bitmap nm' = nat_block_bitmap nm2" "next_scan_nid nm' = (?c + 8) mod ?B * ?P"
      using scan_curseg_cache_root [of n nm3 f] nj scan_curseg_cache_next [of f nm3] 2 same3 E3(3) by (simp_all add: nm3_def)
    show ?thesis
    proof (cases "n \<in> free_nids nm2")
      case True
      then have "n \<in> free_nids nm'" using R(1) by (simp add: free_nids_def)
      then show ?thesis using nid_strD(2) [OF nid_invD(2) [OF E'(1)]] by auto
    next
      case False
      have "n \<notin> free_nids nm1" using False nm2(2) by (auto simp: found_or_kept_def)
      then have fi1: "findable f g nm1 n" using fk1 fi by (simp add: found_or_kept_def)
      then have fi2: "findable f g nm2 n" using nm2(2) False by (simp add: found_or_kept_def)
      have "nat_root nm' = nat_root nm" using b' by (simp add: built_def nat_view_def)
      then have fi': "findable f g nm' n" using fi fi2 R by (simp add: findable_def E')
      have far: "\<not> (\<exists>j < 8. (?c + j) mod ?B = ?b)" using nm2(3) fi1 False by blast
      define D where "D = (int ?b - int ?c) mod int ?B"
      have D0: "0 \<le> D" "D < int ?B" using bB by (simp_all add: D_def)
      have "(int ?c + D) mod int ?B = int ?b" using bB by (simp add: D_def mod_add_right_eq)
      then have "(?c + nat D) mod ?B = ?b" using D0(1) by (metis int_nat_eq nat_int of_nat_add of_nat_mod)
      then have D8: "8 \<le> D" using far D0 by (metis nat_less_iff not_le of_nat_numeral)
      have c': "start_block f nm' = (?c + 8) mod ?B"
      proof -
        have "(?c + 8) mod ?B * ?P < max_nid nm'" using cB S(1,2) by (simp add: E'(5))
        then show ?thesis using S(1) by (simp add: start_block_def R(3))
      qed
      have "(int ?b - int ((?c + 8) mod ?B)) mod int ?B = (D - 8) mod int ?B" by (simp add: D_def zmod_int mod_simps algebra_simps)
      then have "(int ?b - int ((?c + 8) mod ?B)) mod int ?B = D - 8" using D0 D8 by simp
      then have "distance f nm' n < distance f nm n" using D8 by (simp add: distance_def c' E'(9) D_def [symmetric])
      then show ?thesis using fi' R(3) by simp
    qed
  qed simp
qed

lemma f2fs_alloc_nid_returns_inv:
  assumes "nid_inv f g {} nm" "next_scan_nid nm mod NAT_ENTRY_PER_BLOCK f = 0" "findable f g nm n" "available_nids nm \<noteq> 0"
  shows "\<exists>nid nm'. f2fs_alloc_nid f g nm = Some (Some nid, nm')"
  using assms
proof (induction "distance f nm n" arbitrary: nm rule: less_induct)
  case less
  note D = nid_invD [OF less.prems(1)]
  have head: "\<exists>nid nm'. f2fs_alloc_nid f g nm = Some (Some nid, nm')" if "nid_inv f g {} nm" "available_nids nm \<noteq> 0" "free_nid_list nm \<noteq> []" for nm
  proof -
    have "nid_cnt nm FREE_NID \<noteq> 0" using that list_count(2) [OF nid_invD(2) nat_invD(1) [OF nid_invD(1)]] by metis
    then show ?thesis using that by (cases "free_nid_list nm") (simp_all add: f2fs_alloc_nid.simps Let_def)
  qed
  show ?case
  proof (cases "free_nid_list nm = []")
    case True
    let ?nm = "f2fs_build_free_nids f g True nm True False"
    have b: "built f g {} nm ?nm" by (rule f2fs_build_free_nids_built [OF less.prems(1)])
    then have av: "available_nids ?nm \<noteq> 0" using less.prems(4) by (simp add: built_def)
    have "nid_cnt nm FREE_NID = 0" using True list_count(2) [OF D(2) nat_invD(1) [OF D(1)]] by simp
    then have eq: "f2fs_alloc_nid f g nm = f2fs_alloc_nid f g ?nm" using less.prems(4) by (subst f2fs_alloc_nid.simps) simp
    from build_progress [OF less.prems(1-3)] show ?thesis unfolding eq
    proof (elim disjE conjE)
      assume "free_nid_list ?nm \<noteq> []"
      then show "\<exists>nid nm'. f2fs_alloc_nid f g ?nm = Some (Some nid, nm')" using head builtD(1) [OF b] av by simp
    next
      assume "findable f g ?nm n" "next_scan_nid ?nm mod NAT_ENTRY_PER_BLOCK f = 0" "distance f ?nm n < distance f nm n"
      then show "\<exists>nid nm'. f2fs_alloc_nid f g ?nm = Some (Some nid, nm')" using less.hyps [of ?nm] builtD(1) [OF b] av by simp
    qed
  qed (use head less.prems in blast)
qed

subsection \<open>The retries that never end\<close>

text \<open>Nothing left to find: all blocks count as scanned, no bit is set, and no record of the journal is free.\<close>

definition exhausted :: "nat_fmt \<Rightarrow> nm_info \<Rightarrow> bool" where
  "exhausted f nm \<longleftrightarrow> 0 < NAT_ENTRY_PER_BLOCK f \<and> 0 < nat_blocks nm \<and> max_nid nm = nat_blocks nm * NAT_ENTRY_PER_BLOCK f \<and> nid_cnt nm FREE_NID = 0 \<and> free_nids nm = {}
     \<and> (\<forall>s < nat_blocks nm. nat_block_bitmap nm s) \<and> (\<forall>s i. \<not> free_nid_bitmap nm s i) \<and> (\<forall>e \<in> set (nat_journal nm). raw_block_addr (snd e) \<noteq> NULLA f)"

lemma exhausted_scans:
  assumes "exhausted f nm"
  shows "scan_curseg_cache f nm = nm" "scan_blocks_loop f is nm = nm" "nid < max_nid nm \<Longrightarrow> snd (build_loop f g m nm nid) = nm"
proof -
  have none: "free_nid_root nm n \<noteq> Some FREE_NID" for n using assms by (auto simp: exhausted_def free_nids_def)
  have "fold (scan_journal_entry f) es nm = nm" if "\<forall>e \<in> set es. raw_block_addr (snd e) \<noteq> NULLA f" for es
    using that by (induction es) (simp_all add: scan_journal_entry_def remove_free_nid_def none)
  then show "scan_curseg_cache f nm = nm" using assms by (simp add: scan_curseg_cache_def exhausted_def)
  have "find_next_bit (free_nid_bitmap nm i) (NAT_ENTRY_PER_BLOCK f) 0 = NAT_ENTRY_PER_BLOCK f" for i
    using assms by (intro find_next_bit_none) (simp_all add: exhausted_def)
  then have "scan_bits_loop f i nm 0 = (False, nm)" for i by (subst scan_bits_loop.simps) simp
  then show "scan_blocks_loop f is nm = nm" by (induction "is") simp_all
  show "nid < max_nid nm \<Longrightarrow> snd (build_loop f g m nm nid) = nm"
  proof (induction m arbitrary: nid)
    case (Suc m)
    have "NAT_BLOCK_OFFSET f nid < nat_blocks nm" using Suc.prems assms by (simp add: exhausted_def NAT_BLOCK_OFFSET_def less_mult_imp_div_less)
    moreover have "0 < max_nid nm" using Suc.prems by simp
    ultimately show ?case using Suc.IH assms by (simp add: Let_def exhausted_def)
  qed simp
qed

lemma exhausted_build:
  assumes "exhausted f nm"
  shows "exhausted f (f2fs_build_free_nids f g avail nm sync False) \<and> available_nids (f2fs_build_free_nids f g avail nm sync False) = available_nids nm"
proof -
  have ex: "exhausted f (nm\<lparr>next_scan_nid := n\<rparr>)" for n using assms by (simp add: exhausted_def free_nids_def)
  define nid where "nid = (if next_scan_nid nm \<ge> max_nid nm then 0 else next_scan_nid nm)"
  have "nid < max_nid nm" using assms by (simp add: nid_def exhausted_def)
  then obtain nid' where "build_loop f g FREE_NID_PAGES nm nid = (nid', nm)" using exhausted_scans(3) [OF assms, of nid g FREE_NID_PAGES] by (metis prod.collapse)
  then have "f2fs_build_free_nids f g avail nm sync False = nm \<or> f2fs_build_free_nids f g avail nm sync False = nm\<lparr>next_scan_nid := nid'\<rparr>"
    using exhausted_scans(1) [OF ex] exhausted_scans(1,2) [OF assms] by (auto simp: f2fs_build_free_nids_def Let_def nid_def [symmetric] scan_free_nid_bits_def)
  then show ?thesis using assms ex by auto
qed

lemma exhausted_alloc:
  assumes "exhausted f nm" "available_nids nm \<noteq> 0"
  shows "f2fs_alloc_nid f g nm = None"
proof (rule ccontr)
  assume "f2fs_alloc_nid f g nm \<noteq> None"
  then obtain rn where "f2fs_alloc_nid f g nm = Some rn" by blast
  then show False using assms
  proof (induction rule: f2fs_alloc_nid.raw_induct [rotated, consumes 1, case_names step])
    case (step alloc f g nm rn)
    have "alloc f g (f2fs_build_free_nids f g True nm True False) = Some rn" using step(2-4) by (simp add: exhausted_def)
    then show ?case using step(1,3,4) exhausted_build [of f nm g True True] by metis
  qed
qed

end
