(* ===== verification/Nat_Volume.thy ===== *)
theory Nat_Volume
  imports Nid_Live
begin

text \<open>
  A small volume, for the node address table: one table block of eight entries, of which the last two are free. The scan for free ids starts
  at the id the checkpoint names.
\<close>

definition vol_fmt :: nat_fmt where
  "vol_fmt = \<lparr>nf_disk = \<lparr>NULL_ADDR = 0, NEW_ADDR = 4294967295, SIT_ENTRY_PER_BLOCK = 55, SIT_VBLOCKS_SHIFT = 10, GET_SIT_VBLOCKS = (\<lambda>v. v mod 1024), GET_SIT_TYPE = (\<lambda>v. v div 1024)\<rparr>,
     NAT_ENTRY_PER_BLOCK = 8, NAT_JOURNAL_ENTRIES = 2, ROOT_INO = 3\<rparr>"

definition vol_geo :: f2fs_geo where
  "vol_geo = \<lparr>log_blocks_per_seg = 0, blocks_per_seg = 1, segs_per_sec = 1, secs_per_zone = 1, total_sections = 1, seg0_blkaddr = 0, ssd_main_blkaddr = 200,
     segment_count = 1, main_segments = 1, start_segno = 0\<rparr>"

definition vol_blk :: "nat \<Rightarrow> nat \<Rightarrow> f2fs_nat_entry" where
  "vol_blk a i = \<lparr>raw_ino = i, raw_block_addr = (if i < 6 then 200 + i else 0), raw_version = 0\<rparr>"

definition vol_mount :: "nat \<Rightarrow> nat_mount" where
  "vol_mount next = \<lparr>sb_nat_blkaddr = 100, sb_segment_count_nat = 2, mt_total_valid_node_count = 3, mt_nquota_files = 0, ck_next_free_nid = next,
     ck_nat_version_bitmap = Some (\<lambda>_. False), ck_nat_bits_flag = False, ck_nat_bits = (\<lambda>_. False, \<lambda>_. False), ck_nat_bits_valid = False,
     mt_nat_journal = [], mt_nat_blk = vol_blk\<rparr>"

definition vol_nm :: "nat \<Rightarrow> nm_info" where
  "vol_nm next = \<lparr>nat_blkaddr = 100, max_nid = 8, nat_blocks = 1, available_nids = 2, next_scan_nid = next, nat_root = Map.empty, nat_set_root = Map.empty,
     nat_entries = [], nat_cnt = 0, dirty_nat_cnt = 0, free_nid_root = Map.empty, free_nid_list = [], nid_cnt = (\<lambda>_. 0), free_nid_bitmap = (\<lambda>_ _. False),
     nat_block_bitmap = (\<lambda>_. False), free_nid_count = (\<lambda>_. 0), nat_bitmap = (\<lambda>_. False), full_nat_bits = (\<lambda>_. False), empty_nat_bits = (\<lambda>_. False),
     nat_journal = [], nat_blk = vol_blk, nm_fsck = False\<rparr>"

lemma vol_fmt_simps [simp]: "NAT_ENTRY_PER_BLOCK vol_fmt = 8" "NAT_JOURNAL_ENTRIES vol_fmt = 2" "NULL_ADDR (nf_disk vol_fmt) = 0" "NEW_ADDR (nf_disk vol_fmt) = 4294967295"
  "blocks_per_seg vol_geo = 1" "log_blocks_per_seg vol_geo = 0"
  by (simp_all add: vol_fmt_def vol_geo_def)

lemma vol_init: "init_node_manager vol_fmt vol_geo (vol_mount next) = Some (False, vol_nm next)"
  by (simp add: init_node_manager_def vol_mount_def Let_def get_nat_bitmaps_def enabled_nat_bits_def vol_nm_def)

lemma vol_addr: "current_nat_addr vol_fmt vol_geo (vol_nm next) n = 100 + 2 * (n div 8)"
  by (simp add: current_nat_addr_def NAT_BLOCK_OFFSET_def vol_nm_def push_bit_eq_mult)

lemma vol_stored: "stored_nat vol_fmt vol_geo (vol_nm next) n = vol_blk (100 + 2 * (n div 8)) (n mod 8)"
  unfolding stored_nat_def vol_addr by (simp add: vol_nm_def START_NID_def minus_div_mult_eq_mod)

lemma vol_image: "nat_image_ok vol_fmt vol_geo (vol_nm next)"
proof -
  have "raw_block_addr (vol_blk a (n mod 8)) \<noteq> 4294967295" for a n by (simp add: vol_blk_def)
  then show ?thesis unfolding nat_image_ok_def unused_def vol_stored by (simp add: jkeys_def) (simp add: vol_nm_def)
qed

lemma vol_inv: "nid_inv vol_fmt vol_geo {} (vol_nm next)"
  by (rule init_node_manager_inv [OF vol_init _ _ vol_image]) (simp_all add: vol_nm_def)

text \<open>The block scanned from id 7 on: the only id on the list is 7.\<close>

definition vol_scanned :: nm_info where
  "vol_scanned = (vol_nm 0)\<lparr>nat_block_bitmap := (\<lambda>_. False)(0 := True), free_nid_list := [7], free_nid_root := [7 \<mapsto> FREE_NID],
     nid_cnt := (\<lambda>_. 0)(FREE_NID := 1), free_nid_bitmap := (\<lambda>_ _. False)(0 := (\<lambda>_. False)(7 := True)), free_nid_count := (\<lambda>_. 0)(0 := 1)\<rparr>"

lemma vol_idle: "nat_block_bitmap nm 0 \<Longrightarrow> max_nid nm = 8 \<Longrightarrow> build_loop vol_fmt vol_geo m nm 0 = (0, nm)"
  by (induction m) (simp_all add: NAT_BLOCK_OFFSET_def)

lemma vol_mounted: "f2fs_build_node_manager vol_fmt vol_geo True (vol_mount 7) = Some vol_scanned"
proof -
  have scan: "scan_nat_page vol_fmt (vol_nm 7) (vol_blk a) 7 = vol_scanned\<lparr>next_scan_nid := 7\<rparr>" for a
    by (simp add: scan_nat_page_def NAT_BLOCK_OFFSET_def scan_nat_loop.simps vol_blk_def vol_nm_def)
      (simp add: nm_bug_on_def add_free_nid_def insert_free_nid_def inc_nid_cnt_def nat_blocks_nid_def update_free_nid_bitmap_def NAT_BLOCK_OFFSET_def START_NID_def
        vol_scanned_def vol_nm_def)
  have f: "nat_block_bitmap (vol_nm 7) 0 = False" "nat_blk (vol_nm 7) = vol_blk" "next_scan_nid (vol_nm 7) = 7" "max_nid (vol_nm 7) = 8" "nid_cnt (vol_nm 7) FREE_NID = 0"
    "max_nid vol_scanned = 8" "nat_block_bitmap vol_scanned 0" "nat_journal vol_scanned = []" by (simp_all add: vol_nm_def vol_scanned_def)
  have "build_loop vol_fmt vol_geo (Suc 7) (vol_nm 7) 7 = (0, vol_scanned\<lparr>next_scan_nid := 7\<rparr>)" by (simp only: build_loop.simps) (simp add: f NAT_BLOCK_OFFSET_def scan vol_idle Let_def)
  then have "build_loop vol_fmt vol_geo 8 (vol_nm 7) 7 = (0, vol_scanned\<lparr>next_scan_nid := 7\<rparr>)" by simp
  then show ?thesis
    by (simp add: f2fs_build_node_manager_def vol_init load_free_nid_bitmap_def enabled_nat_bits_def f2fs_build_free_nids_def f Let_def scan_curseg_cache_def)
      (simp add: vol_scanned_def vol_nm_def)
qed

end
