(* ===== verification/Backed_Map.thy ===== *)
theory Backed_Map
  imports Main
begin

text \<open>
  The interface of a store that stands for a map: every operation keeps the invariant and either leaves the map or changes one key. Over any sequence of
  operations the store then shows the map that the operations make of the first one. Interpreted on the node address table and on directories.
\<close>

fun guarded_run :: "('s \<Rightarrow> 'o \<Rightarrow> bool) \<Rightarrow> ('s \<Rightarrow> 'o \<Rightarrow> 's) \<Rightarrow> 's \<Rightarrow> 'o list \<Rightarrow> bool" where
  "guarded_run guard step s [] = True"
| "guarded_run guard step s (op # ops) = (guard s op \<and> guarded_run guard step (step s op) ops)"

definition map_put :: "('k \<Rightarrow> 'v) \<Rightarrow> ('k \<times> 'v) option \<Rightarrow> ('k \<Rightarrow> 'v)" where
  "map_put m w = (case w of None \<Rightarrow> m | Some (n, v) \<Rightarrow> m(n := v))"

lemma map_put_simps [simp]: "map_put m None = m" "map_put m (Some (n, v)) = m(n := v)"
  by (simp_all add: map_put_def)

fun map_run :: "('s \<Rightarrow> 'o \<Rightarrow> ('k \<times> 'v) option) \<Rightarrow> ('s \<Rightarrow> 'o \<Rightarrow> 's) \<Rightarrow> 's \<Rightarrow> ('k \<Rightarrow> 'v) \<Rightarrow> 'o list \<Rightarrow> ('k \<Rightarrow> 'v)" where
  "map_run put step s m [] = m"
| "map_run put step s m (op # ops) = map_run put step (step s op) (map_put m (put s op)) ops"

lemma map_run_const: "map_run (\<lambda>_. put) step s m ops = foldl (\<lambda>m op. map_put m (put op)) m ops"
  by (induction ops arbitrary: s m) simp_all

locale backed_map =
  fixes ok :: "'s \<Rightarrow> bool" and look :: "'s \<Rightarrow> 'k \<Rightarrow> 'v" and guard :: "'s \<Rightarrow> 'o \<Rightarrow> bool" and step :: "'s \<Rightarrow> 'o \<Rightarrow> 's"
    and put :: "'s \<Rightarrow> 'o \<Rightarrow> ('k \<times> 'v) option"
  assumes step_ok: "ok s \<Longrightarrow> guard s op \<Longrightarrow> ok (step s op)"
    and step_look: "ok s \<Longrightarrow> guard s op \<Longrightarrow> look (step s op) = map_put (look s) (put s op)"
begin

lemma run_ok: "ok s \<Longrightarrow> guarded_run guard step s ops \<Longrightarrow> ok (foldl step s ops)"
  by (induction ops arbitrary: s) (simp_all add: step_ok)

lemma run_look: "ok s \<Longrightarrow> guarded_run guard step s ops \<Longrightarrow> look (foldl step s ops) = map_run put step s (look s) ops"
  by (induction ops arbitrary: s) (simp_all add: step_ok step_look)

text \<open>A key no operation writes keeps its value.\<close>

lemma run_frame:
  assumes "ok s" "guarded_run guard step s ops" "\<And>s' op v. op \<in> set ops \<Longrightarrow> put s' op \<noteq> Some (n, v)"
  shows "look (foldl step s ops) n = look s n"
  using assms
proof (induction ops arbitrary: s)
  case (Cons op ops)
  have "look (step s op) n = look s n" using step_look [of s op] Cons.prems by (auto simp: map_put_def split: option.split prod.split)
  then show ?case using Cons step_ok [of s op] by simp
qed simp

end

end
