(* ===== verification/Nat_Claims.thy ===== *)
theory Nat_Claims
  imports Nat_Volume Backed_Map
begin

text \<open>
  What the node address table and the free ids promise: the table refines a map from ids to entries, a checkpoint stores what a reader saw without touching the
  copy of the last one, and ids are handed out once. The table is an instance of the locale \<open>backed_map\<close>.
\<close>

subsection \<open>The table as such a store\<close>

datatype nat_op = Get_Node_Info bool nat | Set_Node_Addr nat node_info nat bool | Free_Nats nat | Flush_Nats bool bool

fun nat_exec :: "nat_fmt \<Rightarrow> f2fs_geo \<Rightarrow> nm_info \<Rightarrow> nat_op \<Rightarrow> nm_info" where
  "nat_exec f g nm (Get_Node_Info mem nid) = snd (f2fs_get_node_info f g mem nm nid)"
| "nat_exec f g nm (Set_Node_Addr nid ni new b) = set_node_addr f nm nid ni new b"
| "nat_exec f g nm (Free_Nats nr) = f2fs_try_to_free_nats nm nr"
| "nat_exec f g nm (Flush_Nats nb um) = f2fs_flush_nat_entries f g nb um nm"

fun nat_guard :: "nat_fmt \<Rightarrow> f2fs_geo \<Rightarrow> nm_info \<Rightarrow> nat_op \<Rightarrow> bool" where
  "nat_guard f g nm (Get_Node_Info mem nid) = (nid < max_nid nm)"
| "nat_guard f g nm (Set_Node_Addr nid ni new b) = addr_change_ok f g nm nid ni new"
| "nat_guard f g nm (Free_Nats nr) = True"
| "nat_guard f g nm (Flush_Nats nb um) = (jkeys nm \<inter> pre_nids nm = {})"

fun nat_write :: "nat_fmt \<Rightarrow> nat_op \<Rightarrow> (nat \<times> f2fs_nat_entry) option" where
  "nat_write f (Set_Node_Addr nid ni new b) = Some (nid, changed_entry f ni new)"
| "nat_write f _ = None"

definition nat_params_ok :: "nat_fmt \<Rightarrow> f2fs_geo \<Rightarrow> bool" where
  "nat_params_ok f g \<longleftrightarrow> blocks_per_seg g = 2 ^ log_blocks_per_seg g \<and> NULLA f \<noteq> NEW_ADDR (nf_disk f)"

interpretation natmap: backed_map "\<lambda>nm. nat_params_ok f g \<and> nat_inv f g nm" "nat_lookup f g" "nat_guard f g" "nat_exec f g" "\<lambda>_. nat_write f" for f g
proof
  fix nm op
  assume "nat_params_ok f g \<and> nat_inv f g nm" and gd: "nat_guard f g nm op"
  then have p: "nat_params_ok f g" and inv: "nat_inv f g nm" and g: "blocks_per_seg g = 2 ^ log_blocks_per_seg g" and d: "NULLA f \<noteq> NEW_ADDR (nf_disk f)"
    by (simp_all add: nat_params_ok_def)
  have "nat_inv f g (nat_exec f g nm op) \<and> nat_lookup f g (nat_exec f g nm op) = map_put (nat_lookup f g nm) (nat_write f op)"
  proof (cases op)
    case (Get_Node_Info mem nid)
    then show ?thesis using f2fs_get_node_info_spec(2) [OF inv, of nid mem] gd by (simp add: nat_same_def)
  next
    case (Set_Node_Addr nid ni new b)
    then show ?thesis using set_node_addr_spec(1,2) [OF inv _ d, of nid ni new b] gd by simp
  next
    case (Free_Nats nr)
    then show ?thesis using f2fs_try_to_free_nats_spec [OF inv, of nr] by (simp add: nat_same_def)
  next
    case (Flush_Nats nb um)
    then have "fst ` set (nat_journal nm) \<inter> pre_nids nm = {}" using gd by (simp add: jkeys_def)
    then show ?thesis using f2fs_flush_nat_entries_inv(1,2) [OF g inv, of nb um] Flush_Nats by simp
  qed
  then show "nat_params_ok f g \<and> nat_inv f g (nat_exec f g nm op)"
    "nat_lookup f g (nat_exec f g nm op) = map_put (nat_lookup f g nm) (nat_write f op)" using p by blast+
qed

lemma nat_exec_max: "max_nid (nat_exec f g nm op) = max_nid nm" if "nat_params_ok f g" "nat_inv f g nm" "nat_guard f g nm op"
proof (cases op)
  case (Get_Node_Info mem nid)
  then show ?thesis using f2fs_get_node_info_spec(2) [OF that(2), of nid mem] that(3) by (simp add: nat_same_def nat_size_def)
next
  case (Set_Node_Addr nid ni new b)
  then show ?thesis using set_node_addr_spec(5) [OF that(2), of nid ni new b] that(1,3) by (simp add: nat_params_ok_def nat_size_def)
next
  case (Free_Nats nr)
  then show ?thesis using f2fs_try_to_free_nats_spec [OF that(2), of nr] by (simp add: nat_same_def nat_size_def)
next
  case (Flush_Nats nb um)
  then have "fst ` set (nat_journal nm) \<inter> pre_nids nm = {}" using that(3) by (simp add: jkeys_def)
  then show ?thesis using f2fs_flush_nat_entries_inv(7) [OF _ that(2), of nb um] Flush_Nats that(1) by (simp add: nat_params_ok_def nat_size_def)
qed

lemma nat_run_max:
  "nat_params_ok f g \<Longrightarrow> nat_inv f g nm \<Longrightarrow> guarded_run (nat_guard f g) (nat_exec f g) nm ops \<Longrightarrow> max_nid (foldl (nat_exec f g) nm ops) = max_nid nm"
proof (induction ops arbitrary: nm)
  case (Cons op ops)
  have "nat_inv f g (nat_exec f g nm op)" using natmap.step_ok [of f g nm op] Cons.prems by simp
  then show ?case using Cons nat_exec_max [OF Cons.prems(1,2), of op] by simp
qed simp

subsection \<open>On the small volume\<close>

definition vol_ni :: node_info where
  "vol_ni = \<lparr>ni_ino = 3, ni_blk_addr = 203, ni_version = 0, ni_flag = 0\<rparr>"

lemma vol_params: "nat_params_ok vol_fmt vol_geo"
  by (simp add: nat_params_ok_def)

lemma vol_lookup: "nat_lookup vol_fmt vol_geo (vol_nm s) n = vol_blk (100 + 2 * (n div 8)) (n mod 8)"
proof -
  have "nat_root (vol_nm s) n = None" by (simp add: vol_nm_def)
  then show ?thesis by (simp add: nat_lookup_def vol_stored)
qed

lemma vol_change: "addr_change_ok vol_fmt vol_geo (vol_nm 0) 3 vol_ni 777"
  unfolding addr_change_ok_def vol_lookup by (simp add: vol_blk_def vol_ni_def raw_nat_from_node_info_def) (simp add: vol_nm_def)

lemma vol_changed_pre: "jkeys (set_node_addr vol_fmt (vol_nm 0) 3 vol_ni 777 False) \<inter> pre_nids (set_node_addr vol_fmt (vol_nm 0) 3 vol_ni 777 False) = {}"
proof -
  have "nat_medium (set_node_addr vol_fmt (vol_nm 0) 3 vol_ni 777 False) = nat_medium (vol_nm 0)"
    by (rule set_node_addr_spec(3) [OF nid_invD(1) [OF vol_inv] vol_change]) simp
  then have "nat_journal (set_node_addr vol_fmt (vol_nm 0) 3 vol_ni 777 False) = []" using mediumD by (fastforce simp: vol_nm_def)
  then show ?thesis by (simp add: jkeys_def)
qed

subsection \<open>The theorems\<close>

text \<open>
  C7. The cached, journalled and double-buffered table refines a map from node ids to entries: after any sequence of reads, address changes, cache shrinks
  and checkpoint flushes, \<open>f2fs_get_node_info\<close> returns for every id the entry of the last address change (with the version rule of
  \<open>set_node_addr\<close>), or the entry found at the start.\<close>

theorem nat_table_refines_map:
  assumes "nat_params_ok f g" "nat_inv f g nm" "guarded_run (nat_guard f g) (nat_exec f g) nm ops" "nid < max_nid nm"
  shows "fst (f2fs_get_node_info f g mem (foldl (nat_exec f g) nm ops) nid)
    = foldl (\<lambda>m op. map_put m (nat_write f op)) (nat_lookup f g nm) ops nid"
proof -
  have "nat_inv f g (foldl (nat_exec f g) nm ops)" using natmap.run_ok [of f g nm ops] assms by simp
  then show ?thesis using f2fs_get_node_info_spec(1) nat_run_max [OF assms(1-3)] natmap.run_look [of f g nm ops] assms by (simp add: map_run_const)
qed

theorem nat_table_refines_map_witness:
  "raw_block_addr (fst (f2fs_get_node_info vol_fmt vol_geo True
     (foldl (nat_exec vol_fmt vol_geo) (vol_nm 0) [Set_Node_Addr 3 vol_ni 777 False, Flush_Nats False False]) 3)) = 777"
proof -
  let ?ops = "[Set_Node_Addr 3 vol_ni 777 False, Flush_Nats False False]"
  have "guarded_run (nat_guard vol_fmt vol_geo) (nat_exec vol_fmt vol_geo) (vol_nm 0) ?ops" using vol_change vol_changed_pre by simp
  from nat_table_refines_map [OF vol_params nid_invD(1) [OF vol_inv] this, of 3 True]
  have "fst (f2fs_get_node_info vol_fmt vol_geo True (foldl (nat_exec vol_fmt vol_geo) (vol_nm 0) ?ops) 3) = changed_entry vol_fmt vol_ni 777" by (simp add: vol_nm_def)
  then show ?thesis by (simp add: changed_entry_def)
qed

text \<open>
  C5. A checkpoint writes the node address table safely: \<open>f2fs_flush_nat_entries\<close> changes no entry a reader sees; afterwards the table blocks and the journal alone
  give every entry (of nodes that have been written), and only entries of nodes not yet written stay dirty; and the table under the version bitmap and the journal of
  the last checkpoint is untouched, so that a crash before the new checkpoint is complete finds the old table.\<close>

theorem f2fs_flush_nat_entries_safe:
  assumes "nat_params_ok f g" "nat_inv f g nm" "jkeys nm \<inter> pre_nids nm = {}"
  shows "nat_lookup f g (f2fs_flush_nat_entries f g nb um nm) = nat_lookup f g nm
    \<and> (\<forall>n. n \<notin> pre_nids nm \<longrightarrow> stored_nat f g (f2fs_flush_nat_entries f g nb um nm) n = nat_lookup f g nm n)
    \<and> dirty_nids (f2fs_flush_nat_entries f g nb um nm) = pre_nids nm
    \<and> stored_nat f g ((f2fs_flush_nat_entries f g nb um nm)\<lparr>nat_bitmap := nat_bitmap nm, nat_journal := nat_journal nm\<rparr>) = stored_nat f g nm"
  using f2fs_flush_nat_entries_inv [OF _ assms(2), where nb = nb and um = um] assms(1,3) by (simp add: nat_params_ok_def jkeys_def)

theorem f2fs_flush_nat_entries_safe_witness:
  "stored_nat vol_fmt vol_geo (f2fs_flush_nat_entries vol_fmt vol_geo False False (set_node_addr vol_fmt (vol_nm 0) 3 vol_ni 777 False)) 3 = changed_entry vol_fmt vol_ni 777"
proof -
  let ?nm = "set_node_addr vol_fmt (vol_nm 0) 3 vol_ni 777 False"
  note S = set_node_addr_spec [OF nid_invD(1) [OF vol_inv] vol_change, of False]
  have look: "nat_lookup vol_fmt vol_geo ?nm 3 = changed_entry vol_fmt vol_ni 777" using S(2) by simp
  have inv: "nat_inv vol_fmt vol_geo ?nm" using S(1) by simp
  have "3 \<notin> pre_nids ?nm"
  proof
    assume "3 \<in> pre_nids ?nm"
    then obtain e where e: "nat_root ?nm 3 = Some e" "get_nat_flag e IS_PREALLOC" by (auto simp: pre_nids_def)
    then have "ni_blk_addr e = 4294967295" using nat_agrD(5) [OF nat_invD(2) [OF inv]] by simp
    then show False using look e(1) by (simp add: nat_lookup_def changed_entry_def raw_nat_from_node_info_def)
  qed
  then show ?thesis using f2fs_flush_nat_entries_safe [OF vol_params inv vol_changed_pre, of False False] look by simp
qed

text \<open>
  C6. Node ids are handed out once: on a mounted volume, after any sequence of operations on ids and table entries (building the list from the
  bitmaps, the table blocks and the journal, allocations that succeed or fail, address changes, shrinks and checkpoint flushes), an id that \<open>f2fs_alloc_nid\<close> returns
  has no address in the table, no unwritten change and no other holder, and it is a proper id; the call leaves the table as it was and makes the caller
  the only holder.\<close>

theorem f2fs_alloc_nid_safe:
  assumes "nat_params_ok f g" "0 < NAT_ENTRY_PER_BLOCK f" "init_node_manager f g mt = Some (flag, nm0)" "max_nid nm0 < 4294967296" "nat_image_ok f g nm0"
    "f2fs_build_node_manager f g avail mt = Some nm1" "(nm_step f g)\<^sup>*\<^sup>* nm1 nm" "f2fs_alloc_nid f g nm = Some (Some nid, nm')"
  shows "raw_block_addr (nat_lookup f g nm nid) = NULL_ADDR (nf_disk f) \<and> nid \<notin> dirty_nids nm \<and> nid \<notin> held_nids nm \<and> 0 < nid \<and> nid < max_nid nm
    \<and> held_nids nm' = insert nid (held_nids nm) \<and> nat_lookup f g nm' = nat_lookup f g nm"
proof -
  have "nid_inv f g {} nm1" using f2fs_build_node_manager_built [OF assms(3,2,4,5), of avail] assms(6) builtD(1) by auto
  then have inv: "nid_inv f g {} nm" using nm_run_inv [OF assms(7)] assms(1) by (simp add: nat_params_ok_def)
  have "alloc_result f g nm (Some nid) nm'" using f2fs_alloc_nid_result [OF assms(8) inv] by simp
  then show ?thesis using nat_view_eq(2) [of nm' nm] by (simp add: alloc_result_def nid_unused_def)
qed

lemma vol_alloc: "\<exists>nm'. f2fs_alloc_nid vol_fmt vol_geo vol_scanned = Some (Some 7, nm') \<and> available_nids nm' = 1 \<and> exhausted vol_fmt nm' \<and> held_nids nm' = {7}
    \<and> nat_view nm' = nat_view (vol_nm 0) \<and> nat_medium nm' = nat_medium (vol_nm 0) \<and> nat_size nm' = nat_size (vol_nm 0)"
  by (subst f2fs_alloc_nid.simps) (simp add: vol_scanned_def vol_nm_def move_free_nid_def nm_bug_on_def dec_nid_cnt_def inc_nid_cnt_def update_free_nid_bitmap_def
      NAT_BLOCK_OFFSET_def START_NID_def exhausted_def held_nids_def free_nids_def nat_view_def nm_views)

theorem f2fs_alloc_nid_safe_witness:
  "\<exists>nm'. f2fs_alloc_nid vol_fmt vol_geo vol_scanned = Some (Some 7, nm') \<and> raw_block_addr (nat_lookup vol_fmt vol_geo vol_scanned 7) = 0 \<and> 7 \<notin> held_nids vol_scanned \<and> 7 \<in> held_nids nm'"
proof -
  obtain nm' where nm': "f2fs_alloc_nid vol_fmt vol_geo vol_scanned = Some (Some 7, nm')" using vol_alloc by blast
  have "0 < NAT_ENTRY_PER_BLOCK vol_fmt" "max_nid (vol_nm 7) < 4294967296" by (simp_all add: vol_nm_def)
  from f2fs_alloc_nid_safe [OF vol_params this(1) vol_init this(2) vol_image vol_mounted rtranclp.rtrancl_refl nm'] show ?thesis using nm' by simp
qed

text \<open>
  C24. Allocating a node id ends: when ids are available, the scan position is the first id of a table block, and some block that was not scanned yet
  holds a free id (no address in the block, no journal record, not cached and on no list), the retries of \<open>f2fs_alloc_nid\<close> end and it returns an id.\<close>

theorem f2fs_alloc_nid_returns:
  assumes "nid_inv f g {} nm" "available_nids nm \<noteq> 0" "next_scan_nid nm mod NAT_ENTRY_PER_BLOCK f = 0" "findable f g nm n"
  shows "\<exists>nid nm'. f2fs_alloc_nid f g nm = Some (Some nid, nm')"
  using f2fs_alloc_nid_returns_inv [OF assms(1,3,4,2)] .

theorem f2fs_alloc_nid_returns_witness:
  "\<exists>nid nm'. f2fs_alloc_nid vol_fmt vol_geo (vol_nm 0) = Some (Some nid, nm')"
proof -
  have "unused vol_fmt vol_geo (vol_nm 0) 6" unfolding unused_def vol_stored by (simp add: vol_blk_def)
  then have "findable vol_fmt vol_geo (vol_nm 0) 6" by (simp add: findable_def jkeys_def) (simp add: vol_nm_def)
  from f2fs_alloc_nid_returns [OF vol_inv _ _ this] show ?thesis by (simp add: vol_nm_def)
qed

text \<open>
  C25. A scan that starts inside a table block loses the ids in front of it: \<open>scan_nat_page\<close> marks the whole block as scanned. On a volume whose free ids are 6 and 7
  and whose checkpoint names 7 as the next free id, the first allocation returns 7, and the second one never returns, although
  one id is still counted as available and id 6 is free.\<close>

theorem f2fs_alloc_nid_lost_id:
  "\<exists>nm nm'. f2fs_build_node_manager vol_fmt vol_geo True (vol_mount 7) = Some nm \<and> f2fs_alloc_nid vol_fmt vol_geo nm = Some (Some 7, nm')
     \<and> available_nids nm' = 1 \<and> nid_unused vol_fmt vol_geo nm' 6 \<and> 6 \<notin> held_nids nm' \<and> f2fs_alloc_nid vol_fmt vol_geo nm' = None"
proof -
  obtain nm' where nm': "f2fs_alloc_nid vol_fmt vol_geo vol_scanned = Some (Some 7, nm')" "available_nids nm' = 1" "exhausted vol_fmt nm'" "held_nids nm' = {7}"
    and v: "nat_view nm' = nat_view (vol_nm 0)" "nat_medium nm' = nat_medium (vol_nm 0)" "nat_size nm' = nat_size (vol_nm 0)"
    using vol_alloc by blast
  have "dirty_nids (vol_nm 0) = {}" by (simp add: dirty_nids_def vol_nm_def)
  then have "nid_unused vol_fmt vol_geo nm' 6" unfolding nid_unused_def nat_view_eq [OF v] vol_lookup by (simp add: vol_blk_def)
  moreover have "f2fs_alloc_nid vol_fmt vol_geo nm' = None" using nm'(2,3) by (intro exhausted_alloc) simp_all
  ultimately show ?thesis using nm' vol_mounted by auto
qed

end
