(* ===== verification/Name_Hash.thy ===== *)
theory Name_Hash
  imports Prelude
begin

text \<open>The hash of a file name, from \<open>src/hash.c\<close>: four words of the name are mixed into the state by the tiny encryption algorithm, sixteen bytes at a time.\<close>

type_synonym fname = "u8 list"

abbreviation (input) DELTA :: u32 where "DELTA \<equiv> 2654435769"

fun tea_rounds :: "nat \<Rightarrow> u32 \<Rightarrow> u32 \<Rightarrow> u32 \<Rightarrow> u32 \<Rightarrow> u32 \<Rightarrow> u32 \<Rightarrow> u32 \<Rightarrow> u32 \<times> u32" where
  "tea_rounds 0 sm b0 b1 a b c d = (b0, b1)"
| "tea_rounds (Suc n) sm b0 b1 a b c d =
     (let sm = sm + DELTA;
          b0 = b0 + ((push_bit 4 b1 + a) XOR (b1 + sm) XOR (drop_bit 5 b1 + b));
          b1 = b1 + ((push_bit 4 b0 + c) XOR (b0 + sm) XOR (drop_bit 5 b0 + d))
      in tea_rounds n sm b0 b1 a b c d)"

definition TEA_transform :: "u32 \<times> u32 \<Rightarrow> u32 list \<Rightarrow> u32 \<times> u32" where
  "TEA_transform buf inp =
     (let (b0, b1) = tea_rounds 16 0 (fst buf) (snd buf) (inp ! 0) (inp ! 1) (inp ! 2) (inp ! 3)
      in (fst buf + b0, snd buf + b1))"

text \<open>The loop packs four bytes into a word, the first one on top; what is missing is filled from the length.\<close>

fun hashbuf_loop :: "fname \<Rightarrow> nat \<Rightarrow> u32 \<Rightarrow> u32 \<Rightarrow> u32 list \<Rightarrow> u32 \<times> u32 list" where
  "hashbuf_loop [] i pad val out = (val, out)"
| "hashbuf_loop (ch # msg) i pad val out =
     (let val = (if i mod 4 = 0 then pad else val);
          val = ucast ch + push_bit 8 val
      in if i mod 4 = 3 then hashbuf_loop msg (i + 1) pad pad (out @ [val])
         else hashbuf_loop msg (i + 1) pad val out)"

definition str2hashbuf :: "fname \<Rightarrow> nat \<Rightarrow> u32 list" where
  "str2hashbuf msg num =
     (let len = (of_nat (length msg) :: u32);
          pad = len OR push_bit 8 len;
          pad = pad OR push_bit 16 pad;
          (val, out) = hashbuf_loop (take (num * 4) msg) 0 pad pad []
      in if length out < num then out @ val # replicate (num - length out - 1) pad else out)"

function dentry_hash_loop :: "fname \<Rightarrow> u32 \<times> u32 \<Rightarrow> u32 \<times> u32" where
  "dentry_hash_loop p buf =
     (let buf = TEA_transform buf (str2hashbuf p 4)
      in if length p \<le> 16 then buf else dentry_hash_loop (drop 16 p) buf)"
  by pat_completeness auto
termination
  by (relation "measure (\<lambda>(p, buf). length p)") auto

declare dentry_hash_loop.simps [simp del]

definition is_dot_dotdot :: "fname \<Rightarrow> bool" where
  "is_dot_dotdot name \<longleftrightarrow> name = [46] \<or> name = [46, 46]"

text \<open>
  Names that are not encrypted. The collision bit that is masked out is bit 63, which a hash of 32 bits does not have.
\<close>

definition f2fs_dentry_hash :: "fname \<Rightarrow> u32" where
  "f2fs_dentry_hash name = (if is_dot_dotdot name then 0 else fst (dentry_hash_loop name (1732584193, 4023233417)))"

lemma hashbuf_loop_length: "length (snd (hashbuf_loop msg i pad val out)) = length out + (i mod 4 + length msg) div 4"
proof (induction msg i pad val out rule: hashbuf_loop.induct)
  case (2 ch msg i pad val out)
  show ?case
  proof (cases "i mod 4 = 3")
    case True
    then have "(i + 1) mod 4 = 0" by presburger
    then show ?thesis using 2(1) [OF refl refl] True by (simp add: Let_def)
  next
    case False
    then have "(i + 1) mod 4 = i mod 4 + 1" by presburger
    then show ?thesis using 2(2) [OF refl refl] False by (simp add: Let_def)
  qed
qed simp

text \<open>All words the transformation reads are written.\<close>

lemma str2hashbuf_length: "length (str2hashbuf msg num) = num"
proof -
  have len: "length out = min (length msg) (num * 4) div 4" if "hashbuf_loop (take (num * 4) msg) 0 pad pad [] = (val, out)" for pad val out
    using hashbuf_loop_length [of "take (num * 4) msg" 0 pad pad "[]"] that by (simp add: min.commute)
  show ?thesis unfolding str2hashbuf_def Let_def by (auto split: prod.split dest!: len)
qed

end
