(* ===== verification/Dentry_Block.thy ===== *)
theory Dentry_Block
  imports Name_Hash Bytes
begin

text \<open>
  One block of directory entries, from \<open>src/dir.c\<close>: a bitmap of slots, an array of entries and the bytes of the names. An entry takes as many slots
  as its name needs; the slots behind the first have their own entry with name length 0. The sizes of the format are a record. Directories that are not
  encrypted: \<open>fscrypt_match_name\<close> is the parameter \<open>mtch\<close>.
\<close>

record dir_fmt =
  NR_DENTRY_IN_BLOCK :: nat
  F2FS_SLOT_LEN_BITS :: nat
  MAX_DIR_HASH_DEPTH :: nat
  MAX_DIR_BUCKETS :: nat

definition F2FS_SLOT_LEN :: "dir_fmt \<Rightarrow> nat" where
  "F2FS_SLOT_LEN f = 2 ^ F2FS_SLOT_LEN_BITS f"

definition GET_DENTRY_SLOTS :: "dir_fmt \<Rightarrow> nat \<Rightarrow> nat" where
  "GET_DENTRY_SLOTS f x = (x + F2FS_SLOT_LEN f - 1) div 2 ^ F2FS_SLOT_LEN_BITS f"

subsection \<open>File types\<close>

text \<open>The file type bits of a mode, the types on the medium (\<open>FT_BAD\<close>: a number that is none) and those of \<open>readdir\<close>.\<close>

datatype s_ifmt = S_IFREG | S_IFDIR | S_IFCHR | S_IFBLK | S_IFIFO | S_IFSOCK | S_IFLNK | S_IFNONE
datatype f2fs_ft = F2FS_FT_UNKNOWN | F2FS_FT_REG_FILE | F2FS_FT_DIR | F2FS_FT_CHRDEV | F2FS_FT_BLKDEV | F2FS_FT_FIFO | F2FS_FT_SOCK | F2FS_FT_SYMLINK | FT_BAD
datatype dt_type = DT_UNKNOWN | DT_REG | DT_DIR | DT_CHR | DT_BLK | DT_FIFO | DT_SOCK | DT_LNK

fun f2fs_type_by_mode :: "s_ifmt \<Rightarrow> f2fs_ft" where
  "f2fs_type_by_mode S_IFREG = F2FS_FT_REG_FILE"
| "f2fs_type_by_mode S_IFDIR = F2FS_FT_DIR"
| "f2fs_type_by_mode S_IFCHR = F2FS_FT_CHRDEV"
| "f2fs_type_by_mode S_IFBLK = F2FS_FT_BLKDEV"
| "f2fs_type_by_mode S_IFIFO = F2FS_FT_FIFO"
| "f2fs_type_by_mode S_IFSOCK = F2FS_FT_SOCK"
| "f2fs_type_by_mode S_IFLNK = F2FS_FT_SYMLINK"
| "f2fs_type_by_mode S_IFNONE = F2FS_FT_UNKNOWN"

fun f2fs_filetype_table :: "f2fs_ft \<Rightarrow> dt_type" where
  "f2fs_filetype_table F2FS_FT_UNKNOWN = DT_UNKNOWN"
| "f2fs_filetype_table F2FS_FT_REG_FILE = DT_REG"
| "f2fs_filetype_table F2FS_FT_DIR = DT_DIR"
| "f2fs_filetype_table F2FS_FT_CHRDEV = DT_CHR"
| "f2fs_filetype_table F2FS_FT_BLKDEV = DT_BLK"
| "f2fs_filetype_table F2FS_FT_FIFO = DT_FIFO"
| "f2fs_filetype_table F2FS_FT_SOCK = DT_SOCK"
| "f2fs_filetype_table F2FS_FT_SYMLINK = DT_LNK"
| "f2fs_filetype_table FT_BAD = DT_UNKNOWN"

subsection \<open>Entries and blocks\<close>

record f2fs_dir_entry =
  hash_code :: u32
  name_len :: nat
  de_ino :: nat
  file_type :: f2fs_ft

text \<open>The names of all slots are one array of bytes: a long name runs over the slots behind its first.\<close>

record f2fs_dentry_ptr =
  d_bitmap :: bitmap
  d_dentry :: "f2fs_dir_entry carray"
  d_filename :: "u8 carray"
  d_max :: nat

definition set_de_type :: "f2fs_dir_entry \<Rightarrow> s_ifmt \<Rightarrow> f2fs_dir_entry" where
  "set_de_type de mode = de\<lparr>file_type := f2fs_type_by_mode mode\<rparr>"

definition f2fs_get_de_type :: "f2fs_dir_entry \<Rightarrow> dt_type" where
  "f2fs_get_de_type de = f2fs_filetype_table (file_type de)"

definition name_at :: "dir_fmt \<Rightarrow> f2fs_dentry_ptr \<Rightarrow> nat \<Rightarrow> fname" where
  "name_at f d p = map (\<lambda>j. d_filename d (p * F2FS_SLOT_LEN f + j)) [0..<name_len (d_dentry d p)]"

lemma slots_pos: "0 < n \<Longrightarrow> 0 < GET_DENTRY_SLOTS f n"
  by (simp add: GET_DENTRY_SLOTS_def F2FS_SLOT_LEN_def div_greater_zero_iff)

lemma slots_bytes: "n \<le> GET_DENTRY_SLOTS f n * F2FS_SLOT_LEN f"
proof -
  let ?s = "F2FS_SLOT_LEN f"
  have s: "0 < ?s" and e: "GET_DENTRY_SLOTS f n = (n + ?s - 1) div ?s" by (simp_all add: F2FS_SLOT_LEN_def GET_DENTRY_SLOTS_def)
  have "(n + ?s - 1) div ?s * ?s + (n + ?s - 1) mod ?s = n + ?s - 1" by (rule div_mult_mod_eq)
  moreover have "(n + ?s - 1) mod ?s < ?s" using s by simp
  ultimately show ?thesis unfolding e by linarith
qed

subsection \<open>Operations on a block\<close>

text \<open>The loop of \<open>f2fs_find_target_dentry\<close>; the second result is \<open>max_slots\<close>, the longest run of free slots passed.\<close>

function find_target_loop :: "dir_fmt \<Rightarrow> (fname \<Rightarrow> bool) \<Rightarrow> u32 \<Rightarrow> f2fs_dentry_ptr \<Rightarrow> nat \<Rightarrow> nat \<Rightarrow> nat \<Rightarrow> nat option \<times> nat" where
  "find_target_loop f mtch namehash d bit_pos max_len max_slots =
     (if \<not> bit_pos < d_max d then (None, max max_slots max_len)
      else if \<not> d_bitmap d bit_pos then find_target_loop f mtch namehash d (bit_pos + 1) (max_len + 1) max_slots
      else let de = d_dentry d bit_pos
           in if name_len de = 0 then find_target_loop f mtch namehash d (bit_pos + 1) max_len max_slots
              else if hash_code de = namehash \<and> mtch (name_at f d bit_pos) then (Some bit_pos, max max_slots max_len)
              else find_target_loop f mtch namehash d (bit_pos + GET_DENTRY_SLOTS f (name_len de)) 0 (max max_slots max_len))"
  by pat_completeness auto
termination
proof (relation "measure (\<lambda>(f, mtch, namehash, d, bit_pos, max_len, max_slots). d_max d - bit_pos)", goal_cases)
  case (4 f mtch namehash d bit_pos max_len max_slots de)
  then have "0 < GET_DENTRY_SLOTS f (name_len de)" by (intro slots_pos) simp
  then show ?case using 4 by simp
qed simp_all

declare find_target_loop.simps [simp del]

definition f2fs_find_target_dentry :: "dir_fmt \<Rightarrow> (fname \<Rightarrow> bool) \<Rightarrow> u32 \<Rightarrow> f2fs_dentry_ptr \<Rightarrow> nat option \<times> nat" where
  "f2fs_find_target_dentry f mtch namehash d = find_target_loop f mtch namehash d 0 0 0"

function room_loop :: "bitmap \<Rightarrow> nat \<Rightarrow> nat \<Rightarrow> nat \<Rightarrow> nat" where
  "room_loop bm slots max_slots bit_start =
     (let zero_start = find_next_zero_bit bm max_slots bit_start;
          zero_end = find_next_bit bm max_slots zero_start
      in if bit_start \<ge> max_slots \<or> zero_start \<ge> max_slots then max_slots
         else if zero_end - zero_start \<ge> slots then zero_start
         else if zero_end + 1 \<ge> max_slots then max_slots
         else room_loop bm slots max_slots (zero_end + 1))"
  by pat_completeness auto
termination
proof (relation "measure (\<lambda>(bm, slots, max_slots, bit_start). max_slots - bit_start)", goal_cases)
  case (2 bm slots max_slots bit_start zero_start zero_end)
  then have "bit_start \<le> zero_start" "zero_start \<le> zero_end" by (simp_all add: find_next_bit_ge find_next_zero_bit_def)
  then show ?case using 2 by simp
qed simp

declare room_loop.simps [simp del]

definition f2fs_room_for_filename :: "bitmap \<Rightarrow> nat \<Rightarrow> nat \<Rightarrow> nat" where
  "f2fs_room_for_filename bm slots max_slots = room_loop bm slots max_slots 0"

definition mark_slot :: "nat \<Rightarrow> nat \<Rightarrow> f2fs_dentry_ptr \<Rightarrow> f2fs_dentry_ptr" where
  "mark_slot bit_pos i d =
     (let d = d\<lparr>d_bitmap := (d_bitmap d)(bit_pos + i := True)\<rparr>
      in if i \<noteq> 0 then d\<lparr>d_dentry := (d_dentry d)(bit_pos + i := (d_dentry d (bit_pos + i))\<lparr>name_len := 0\<rparr>)\<rparr> else d)"

definition f2fs_update_dentry :: "dir_fmt \<Rightarrow> nat \<Rightarrow> s_ifmt \<Rightarrow> f2fs_dentry_ptr \<Rightarrow> fname \<Rightarrow> u32 \<Rightarrow> nat \<Rightarrow> f2fs_dentry_ptr" where
  "f2fs_update_dentry f ino mode d name name_hash bit_pos =
     (let slots = GET_DENTRY_SLOTS f (length name);
          de = (d_dentry d bit_pos)\<lparr>hash_code := name_hash, name_len := length name, de_ino := ino\<rparr>;
          d = d\<lparr>d_dentry := (d_dentry d)(bit_pos := set_de_type de mode),
                d_filename := mem_write (d_filename d) (bit_pos * F2FS_SLOT_LEN f) name\<rparr>
      in fold (mark_slot bit_pos) [0..<slots] d)"

text \<open>The part of \<open>f2fs_delete_entry\<close> that changes the block.\<close>

definition delete_slots :: "dir_fmt \<Rightarrow> f2fs_dentry_ptr \<Rightarrow> nat \<Rightarrow> f2fs_dentry_ptr" where
  "delete_slots f d bit_pos =
     fold (\<lambda>i d. d\<lparr>d_bitmap := (d_bitmap d)(bit_pos + i := False)\<rparr>) [0..<GET_DENTRY_SLOTS f (name_len (d_dentry d bit_pos))] d"

definition f2fs_do_make_empty_dir :: "dir_fmt \<Rightarrow> nat \<Rightarrow> s_ifmt \<Rightarrow> nat \<Rightarrow> s_ifmt \<Rightarrow> f2fs_dentry_ptr \<Rightarrow> f2fs_dentry_ptr" where
  "f2fs_do_make_empty_dir f ino mode pino pmode d =
     f2fs_update_dentry f pino pmode (f2fs_update_dentry f ino mode d [46] 0 0) [46, 46] 0 1"

text \<open>
  \<open>f2fs_fill_dentries\<close> hands the entries to the caller's \<open>dir_emit\<close>, which may refuse; the results are whether it refused, the position in the directory and the
  caller's state.
\<close>

function fill_loop :: "dir_fmt \<Rightarrow> ('c \<Rightarrow> fname \<Rightarrow> nat \<Rightarrow> dt_type \<Rightarrow> 'c option) \<Rightarrow> f2fs_dentry_ptr \<Rightarrow> nat \<Rightarrow> nat \<Rightarrow> nat \<Rightarrow> 'c \<Rightarrow> bool \<times> nat \<times> 'c" where
  "fill_loop f emit d start_pos bit_pos pos c =
     (let b = find_next_bit (d_bitmap d) (d_max d) bit_pos
      in if bit_pos \<ge> d_max d \<or> b \<ge> d_max d then (False, pos, c)
         else let de = d_dentry d b
              in if name_len de = 0 then fill_loop f emit d start_pos (b + 1) (start_pos + (b + 1)) c
                 else case emit c (name_at f d b) (de_ino de) (f2fs_get_de_type de) of
                        None \<Rightarrow> (True, pos, c)
                      | Some c \<Rightarrow> (let bit_pos = b + GET_DENTRY_SLOTS f (name_len de)
                                   in fill_loop f emit d start_pos bit_pos (start_pos + bit_pos) c))"
  by pat_completeness auto
termination
proof (relation "measure (\<lambda>(f, emit, d, start_pos, bit_pos, pos, c). d_max d - bit_pos)", goal_cases)
  case (2 f emit d start_pos bit_pos pos c b de)
  then have "bit_pos \<le> b" "b < d_max d" by (simp_all add: find_next_bit_ge)
  then show ?case by simp
next
  case (3 f emit d start_pos bit_pos pos c b de c' bp)
  then have "bit_pos \<le> b" "b < d_max d" "0 < GET_DENTRY_SLOTS f (name_len de)" by (simp_all add: find_next_bit_ge slots_pos)
  then show ?case using 3(6) by simp
qed simp

declare fill_loop.simps [simp del]

definition f2fs_fill_dentries :: "dir_fmt \<Rightarrow> ('c \<Rightarrow> fname \<Rightarrow> nat \<Rightarrow> dt_type \<Rightarrow> 'c option) \<Rightarrow> f2fs_dentry_ptr \<Rightarrow> nat \<Rightarrow> nat \<Rightarrow> 'c \<Rightarrow> bool \<times> nat \<times> 'c" where
  "f2fs_fill_dentries f emit d start_pos pos c = fill_loop f emit d start_pos (pos mod d_max d) pos c"

subsection \<open>The layout of a block\<close>

definition starts :: "f2fs_dentry_ptr \<Rightarrow> nat set" where
  "starts d = {p. p < d_max d \<and> d_bitmap d p \<and> 0 < name_len (d_dentry d p)}"

abbreviation slots_at :: "dir_fmt \<Rightarrow> f2fs_dentry_ptr \<Rightarrow> nat \<Rightarrow> nat" where
  "slots_at f d p \<equiv> GET_DENTRY_SLOTS f (name_len (d_dentry d p))"

definition blk_ok :: "dir_fmt \<Rightarrow> f2fs_dentry_ptr \<Rightarrow> bool" where
  "blk_ok f d \<longleftrightarrow> (\<forall>p \<in> starts d. p + slots_at f d p \<le> d_max d \<and> (\<forall>i. 0 < i \<longrightarrow> i < slots_at f d p \<longrightarrow> d_bitmap d (p + i) \<and> name_len (d_dentry d (p + i)) = 0))
     \<and> (\<forall>q < d_max d. d_bitmap d q \<longrightarrow> (\<exists>p \<in> starts d. p \<le> q \<and> q < p + slots_at f d p))"

lemma blk_okD:
  assumes "blk_ok f d"
  shows "p \<in> starts d \<Longrightarrow> p + slots_at f d p \<le> d_max d"
    "p \<in> starts d \<Longrightarrow> p < q \<Longrightarrow> q < p + slots_at f d p \<Longrightarrow> d_bitmap d q \<and> name_len (d_dentry d q) = 0"
    "q < d_max d \<Longrightarrow> d_bitmap d q \<Longrightarrow> \<exists>p \<in> starts d. p \<le> q \<and> q < p + slots_at f d p"
proof -
  show "p \<in> starts d \<Longrightarrow> p + slots_at f d p \<le> d_max d" "q < d_max d \<Longrightarrow> d_bitmap d q \<Longrightarrow> \<exists>p \<in> starts d. p \<le> q \<and> q < p + slots_at f d p"
    using assms by (auto simp: blk_ok_def)
  assume p: "p \<in> starts d" "p < q" "q < p + slots_at f d p"
  then have "0 < q - p" "q - p < slots_at f d p" by simp_all
  then have "d_bitmap d (p + (q - p)) \<and> name_len (d_dentry d (p + (q - p))) = 0" using assms p(1) unfolding blk_ok_def by blast
  then show "d_bitmap d q \<and> name_len (d_dentry d q) = 0" using p(2) by simp
qed

lemma blk_okI:
  assumes "\<And>p. p \<in> starts d \<Longrightarrow> p + slots_at f d p \<le> d_max d"
    "\<And>p q. p \<in> starts d \<Longrightarrow> p < q \<Longrightarrow> q < p + slots_at f d p \<Longrightarrow> d_bitmap d q \<and> name_len (d_dentry d q) = 0"
    "\<And>q. q < d_max d \<Longrightarrow> d_bitmap d q \<Longrightarrow> \<exists>p \<in> starts d. p \<le> q \<and> q < p + slots_at f d p"
  shows "blk_ok f d"
  using assms by (auto simp: blk_ok_def)

lemma start_slots: "p \<in> starts d \<Longrightarrow> 0 < slots_at f d p"
  by (simp add: starts_def slots_pos)

text \<open>Two entries do not overlap.\<close>

lemma starts_disjoint:
  assumes "blk_ok f d" "p \<in> starts d" "q \<in> starts d" "p < q"
  shows "p + slots_at f d p \<le> q"
proof (rule ccontr)
  assume "\<not> p + slots_at f d p \<le> q"
  then have "name_len (d_dentry d q) = 0" using blk_okD(2) [OF assms(1,2,4)] by simp
  then show False using assms(3) by (simp add: starts_def)
qed

text \<open>A position the loops stop at: no entry reaches over it.\<close>

definition boundary :: "dir_fmt \<Rightarrow> f2fs_dentry_ptr \<Rightarrow> nat \<Rightarrow> bool" where
  "boundary f d b \<longleftrightarrow> (\<forall>p \<in> starts d. p < b \<longrightarrow> p + slots_at f d p \<le> b)"

lemma boundary_0: "boundary f d 0"
  by (simp add: boundary_def)

lemma boundary_start:
  assumes "blk_ok f d" "boundary f d b" "b < d_max d" "d_bitmap d b"
  shows "b \<in> starts d"
proof -
  obtain p where p: "p \<in> starts d" "p \<le> b" "b < p + slots_at f d p" using blk_okD(3) [OF assms(1,3,4)] by blast
  then have "\<not> p < b" using assms(2) by (auto simp: boundary_def)
  then show ?thesis using p by simp
qed

lemma boundary_next:
  assumes "blk_ok f d" "boundary f d b"
  shows "\<not> d_bitmap d b \<Longrightarrow> boundary f d (b + 1)" "b \<in> starts d \<Longrightarrow> boundary f d (b + slots_at f d b)"
proof -
  assume n: "\<not> d_bitmap d b"
  have "p + slots_at f d p \<le> b + 1" if "p \<in> starts d" "p < b + 1" for p
  proof -
    have "p \<noteq> b" using that(1) n by (auto simp: starts_def)
    then show ?thesis using that assms(2) by (auto simp: boundary_def)
  qed
  then show "boundary f d (b + 1)" by (simp add: boundary_def)
next
  assume b: "b \<in> starts d"
  have "p + slots_at f d p \<le> b + slots_at f d b" if p: "p \<in> starts d" "p < b + slots_at f d b" for p
  proof (cases p b rule: linorder_cases)
    case less
    then have "p + slots_at f d p \<le> b" using assms(2) p(1) by (simp add: boundary_def)
    then show ?thesis by simp
  next
    case greater
    then show ?thesis using blk_okD(2) [OF assms(1) b greater p(2)] p(1) by (simp add: starts_def)
  qed simp
  then show "boundary f d (b + slots_at f d b)" by (simp add: boundary_def)
qed

subsection \<open>Searching\<close>

lemma find_target_loop_spec:
  fixes mtch :: "fname \<Rightarrow> bool" and h :: u32
  assumes "blk_ok f d" "boundary f d b"
  defines "hit \<equiv> \<lambda>p. hash_code (d_dentry d p) = h \<and> mtch (name_at f d p)"
  shows "case fst (find_target_loop f mtch h d b ml ms) of
      None \<Rightarrow> \<forall>p \<in> starts d. b \<le> p \<longrightarrow> \<not> hit p
    | Some p \<Rightarrow> p \<in> starts d \<and> b \<le> p \<and> hit p"
  using assms(1,2)
proof (induction "d_max d - b" arbitrary: b ml ms rule: less_induct)
  case less
  note S = find_target_loop.simps [of f mtch h d b ml ms]
  consider "d_max d \<le> b" | "b < d_max d" "\<not> d_bitmap d b" | "b < d_max d" "b \<in> starts d" "hit b" | "b < d_max d" "b \<in> starts d" "\<not> hit b"
    using boundary_start [OF less.prems] by force
  then show ?case
  proof cases
    case 1
    then show ?thesis unfolding S by (auto simp: starts_def)
  next
    case 2
    have ih: "case fst (find_target_loop f mtch h d (b + 1) (ml + 1) ms) of None \<Rightarrow> \<forall>p \<in> starts d. b + 1 \<le> p \<longrightarrow> \<not> hit p | Some p \<Rightarrow> p \<in> starts d \<and> b + 1 \<le> p \<and> hit p"
      using less.hyps [of "b + 1"] 2(1) boundary_next(1) [OF less.prems 2(2)] less.prems(1) by simp
    moreover have "b \<notin> starts d" using 2 by (simp add: starts_def)
    moreover have "b + 1 \<le> p" if "b \<le> p" "p \<in> starts d" for p using that calculation(2) by (cases "p = b") auto
    moreover have "find_target_loop f mtch h d b ml ms = find_target_loop f mtch h d (b + 1) (ml + 1) ms" using 2 unfolding S by simp
    ultimately show ?thesis by (auto split: option.splits)
  next
    case 3
    then have "0 < name_len (d_dentry d b)" "d_bitmap d b" by (simp_all add: starts_def)
    then show ?thesis using 3 unfolding S by (simp add: hit_def)
  next
    case 4
    then have n: "0 < name_len (d_dentry d b)" "d_bitmap d b" by (simp_all add: starts_def)
    let ?b = "b + slots_at f d b"
    have "find_target_loop f mtch h d b ml ms = find_target_loop f mtch h d ?b 0 (max ms ml)" using 4 n unfolding S by (auto simp: hit_def)
    moreover have "case fst (find_target_loop f mtch h d ?b 0 (max ms ml)) of None \<Rightarrow> \<forall>p \<in> starts d. ?b \<le> p \<longrightarrow> \<not> hit p | Some p \<Rightarrow> p \<in> starts d \<and> ?b \<le> p \<and> hit p"
      using less.hyps [of ?b] 4(1) start_slots [OF 4(2), of f] boundary_next(2) [OF less.prems 4(2)] less.prems(1) by simp
    moreover have "?b \<le> p" if "p \<in> starts d" "b \<le> p" "p \<noteq> b" for p using starts_disjoint [OF less.prems(1) 4(2) that(1)] that by simp
    ultimately show ?thesis using 4(3) by (auto split: option.splits)
  qed
qed

lemma f2fs_find_target_dentry_spec:
  assumes "blk_ok f d"
  shows "fst (f2fs_find_target_dentry f mtch h d) = None \<longleftrightarrow> (\<forall>p \<in> starts d. \<not> (hash_code (d_dentry d p) = h \<and> mtch (name_at f d p)))"
    "fst (f2fs_find_target_dentry f mtch h d) = Some p \<Longrightarrow> p \<in> starts d \<and> hash_code (d_dentry d p) = h \<and> mtch (name_at f d p)"
  using find_target_loop_spec [OF assms boundary_0, where mtch = mtch and h = h and ml = 0 and ms = 0]
  by (auto simp: f2fs_find_target_dentry_def split: option.splits)

subsection \<open>Free slots\<close>

lemma room_loop_spec:
  assumes "0 < slots" "room_loop bm slots mx b < mx"
  shows "room_loop bm slots mx b + slots \<le> mx \<and> (\<forall>i < slots. \<not> bm (room_loop bm slots mx b + i))"
  using assms
proof (induction bm slots mx b rule: room_loop.induct)
  case (1 bm slots mx b)
  define zs where "zs = find_next_zero_bit bm mx b"
  define ze where "ze = find_next_bit bm mx zs"
  have eq: "room_loop bm slots mx b = (if b \<ge> mx \<or> zs \<ge> mx then mx else if ze - zs \<ge> slots then zs else if ze + 1 \<ge> mx then mx else room_loop bm slots mx (ze + 1))"
    by (subst room_loop.simps) (simp add: Let_def zs_def ze_def)
  have free: "\<not> bm i" if "zs \<le> i" "i < ze" for i using find_next_bit_first [of zs i bm mx] that by (simp add: ze_def)
  have "ze \<le> mx" by (simp add: ze_def find_next_bit_le)
  show ?case
  proof (cases "b \<ge> mx \<or> zs \<ge> mx \<or> ze - zs \<ge> slots \<or> ze + 1 \<ge> mx")
    case True
    then have "ze - zs \<ge> slots" "room_loop bm slots mx b = zs" using 1(3) by (auto simp: eq split: if_splits)
    then show ?thesis using free \<open>ze \<le> mx\<close> 1(2) by auto
  next
    case False
    then have "room_loop bm slots mx b = room_loop bm slots mx (ze + 1)" by (simp add: eq)
    then show ?thesis using 1(1) [OF zs_def ze_def] False 1(2,3) by simp
  qed
qed

text \<open>No room is reported only when there is none.\<close>

lemma room_loop_none:
  assumes "room_loop bm slots mx b = mx" "0 < slots" "b \<le> i" "i + slots \<le> mx"
  shows "\<exists>j < slots. bm (i + j)"
  using assms
proof (induction bm slots mx b rule: room_loop.induct)
  case (1 bm slots mx b)
  define zs where "zs = find_next_zero_bit bm mx b"
  define ze where "ze = find_next_bit bm mx zs"
  have eq: "room_loop bm slots mx b = (if b \<ge> mx \<or> zs \<ge> mx then mx else if ze - zs \<ge> slots then zs else if ze + 1 \<ge> mx then mx else room_loop bm slots mx (ze + 1))"
    by (subst room_loop.simps) (simp add: Let_def zs_def ze_def)
  have used: "bm j" if "b \<le> j" "j < zs" for j using find_next_bit_first [of b j "\<lambda>i. \<not> bm i" mx] that by (auto simp: zs_def find_next_zero_bit_def)
  have "b < mx" using 1(3,4,5) by simp
  show ?case
  proof (cases "i < zs")
    case True
    then show ?thesis using used [of i] 1(3,4) by (intro exI [of _ 0]) simp
  next
    case False
    then have zs: "zs < mx" using 1(3,5) by simp
    have ge: "zs \<le> ze" using zs by (simp add: ze_def find_next_bit_ge)
    have "ze - zs < slots" using 1(2) zs \<open>b < mx\<close> by (auto simp: eq split: if_splits)
    show ?thesis
    proof (cases "i \<le> ze")
      case True
      then have "ze < mx" using \<open>ze - zs < slots\<close> False 1(5) ge by simp
      then have "bm ze" using find_next_bit_set [of bm mx zs] by (simp add: ze_def)
      then show ?thesis using True \<open>ze - zs < slots\<close> False by (intro exI [of _ "ze - i"]) simp
    next
      case False
      then have "ze + 1 < mx" using 1(3,5) by simp
      then have "room_loop bm slots mx (ze + 1) = mx" using 1(2) eq \<open>b < mx\<close> zs \<open>ze - zs < slots\<close> by simp
      then show ?thesis using 1(1) [OF zs_def ze_def] zs \<open>b < mx\<close> \<open>ze - zs < slots\<close> \<open>ze + 1 < mx\<close> 1(3,5) False by simp
    qed
  qed
qed

lemma f2fs_room_for_filename_spec:
  assumes "0 < slots"
  shows "f2fs_room_for_filename bm slots mx < mx \<Longrightarrow> f2fs_room_for_filename bm slots mx + slots \<le> mx \<and> (\<forall>i < slots. \<not> bm (f2fs_room_for_filename bm slots mx + i))"
    "f2fs_room_for_filename bm slots mx = mx \<Longrightarrow> i + slots \<le> mx \<Longrightarrow> \<exists>j < slots. bm (i + j)"
  unfolding f2fs_room_for_filename_def using room_loop_spec [OF assms, of bm mx 0] room_loop_none [of bm slots mx 0 i] assms by blast+

subsection \<open>Adding an entry\<close>

lemma mark_slots:
  "d_bitmap (fold (mark_slot p) [0..<n] d) q = (d_bitmap d q \<or> p \<le> q \<and> q < p + n)"
  "d_dentry (fold (mark_slot p) [0..<n] d) q = (if p < q \<and> q < p + n then (d_dentry d q)\<lparr>name_len := 0\<rparr> else d_dentry d q)"
  "d_filename (fold (mark_slot p) [0..<n] d) = d_filename d" "d_max (fold (mark_slot p) [0..<n] d) = d_max d"
proof -
  have "d_bitmap (fold (mark_slot p) [0..<n] d) q = (d_bitmap d q \<or> p \<le> q \<and> q < p + n)
    \<and> d_dentry (fold (mark_slot p) [0..<n] d) q = (if p < q \<and> q < p + n then (d_dentry d q)\<lparr>name_len := 0\<rparr> else d_dentry d q)
    \<and> d_filename (fold (mark_slot p) [0..<n] d) = d_filename d \<and> d_max (fold (mark_slot p) [0..<n] d) = d_max d"
    by (induction n) (auto simp: mark_slot_def Let_def)
  then show "d_bitmap (fold (mark_slot p) [0..<n] d) q = (d_bitmap d q \<or> p \<le> q \<and> q < p + n)"
    "d_dentry (fold (mark_slot p) [0..<n] d) q = (if p < q \<and> q < p + n then (d_dentry d q)\<lparr>name_len := 0\<rparr> else d_dentry d q)"
    "d_filename (fold (mark_slot p) [0..<n] d) = d_filename d" "d_max (fold (mark_slot p) [0..<n] d) = d_max d" by blast+
qed

lemma update_fields:
  fixes f ino mode d name h p
  defines "d' \<equiv> f2fs_update_dentry f ino mode d name h p" and "n \<equiv> GET_DENTRY_SLOTS f (length name)"
  shows "d_bitmap d' q = (d_bitmap d q \<or> p \<le> q \<and> q < p + n)" "d_max d' = d_max d"
    "d_dentry d' p = \<lparr>hash_code = h, name_len = length name, de_ino = ino, file_type = f2fs_type_by_mode mode\<rparr>"
    "p < q \<Longrightarrow> q < p + n \<Longrightarrow> name_len (d_dentry d' q) = 0" "q < p \<or> p + n \<le> q \<and> q \<noteq> p \<Longrightarrow> d_dentry d' q = d_dentry d q"
    "d_filename d' = mem_write (d_filename d) (p * F2FS_SLOT_LEN f) name"
  by (auto simp: d'_def n_def f2fs_update_dentry_def Let_def mark_slots set_de_type_def)

text \<open>The name of an entry that does not overlap what is written.\<close>

lemma name_at_write:
  assumes "d_filename d' = mem_write (d_filename d) (p * F2FS_SLOT_LEN f) name" "d_dentry d' q = d_dentry d q"
    "q + slots_at f d q \<le> p \<or> p + GET_DENTRY_SLOTS f (length name) \<le> q"
  shows "name_at f d' q = name_at f d q"
proof -
  let ?s = "F2FS_SLOT_LEN f"
  have "d_filename d' (q * ?s + j) = d_filename d (q * ?s + j)" if "j < name_len (d_dentry d q)" for j
  proof (cases "q + slots_at f d q \<le> p")
    case True
    then have "(q + slots_at f d q) * ?s \<le> p * ?s" by (rule mult_right_mono) simp
    then have "q * ?s + j < p * ?s" using that slots_bytes [of "name_len (d_dentry d q)" f] by (simp add: add_mult_distrib)
    then show ?thesis by (simp add: assms(1) mem_write_def)
  next
    case False
    then have "(p + GET_DENTRY_SLOTS f (length name)) * ?s \<le> q * ?s" using assms(3) by (intro mult_right_mono) simp_all
    then have "p * ?s + length name \<le> q * ?s" using slots_bytes [of "length name" f] by (simp add: add_mult_distrib)
    then show ?thesis by (simp add: assms(1) mem_write_def)
  qed
  then show ?thesis by (simp add: name_at_def assms(2))
qed

lemma f2fs_update_dentry_spec:
  fixes ino :: nat and mode :: s_ifmt and h :: u32
  assumes ok: "blk_ok f d" and name: "0 < length name" and room: "p + GET_DENTRY_SLOTS f (length name) \<le> d_max d" "\<And>i. i < GET_DENTRY_SLOTS f (length name) \<Longrightarrow> \<not> d_bitmap d (p + i)"
  defines "d' \<equiv> f2fs_update_dentry f ino mode d name h p"
  shows "blk_ok f d'" "starts d' = insert p (starts d)" "p \<notin> starts d" "name_at f d' p = name" "d_max d' = d_max d"
    "d_dentry d' p = \<lparr>hash_code = h, name_len = length name, de_ino = ino, file_type = f2fs_type_by_mode mode\<rparr>"
    "\<And>q. q \<in> starts d \<Longrightarrow> d_dentry d' q = d_dentry d q \<and> name_at f d' q = name_at f d q"
proof -
  let ?n = "GET_DENTRY_SLOTS f (length name)" and ?s = "F2FS_SLOT_LEN f"
  note U = update_fields [where f = f and ino = ino and mode = mode and d = d and name = name and h = h and p = p, folded d'_def]
  have n: "0 < ?n" by (rule slots_pos [OF name])
  have un: "\<not> d_bitmap d q" if "p \<le> q" "q < p + ?n" for q using room(2) [of "q - p"] that by simp
  show np: "p \<notin> starts d" using un [of p] n by (auto simp: starts_def)
  have out: "q < p \<or> p + ?n \<le> q" "q + slots_at f d q \<le> p \<or> p + ?n \<le> q" if q: "q \<in> starts d" for q
  proof -
    show o1: "q < p \<or> p + ?n \<le> q" using un [of q] q by (force simp: starts_def)
    have "q + slots_at f d q \<le> p" if "q < p"
    proof (rule ccontr)
      assume "\<not> q + slots_at f d q \<le> p"
      then have "d_bitmap d p" using blk_okD(2) [OF ok q that] by simp
      then show False using un [of p] n by simp
    qed
    then show "q + slots_at f d q \<le> p \<or> p + ?n \<le> q" using o1 by blast
  qed
  have keep: "d_dentry d' q = d_dentry d q" if "q \<in> starts d" for q using out(1) [OF that] np that by (intro U(5)) auto
  then show "\<And>q. q \<in> starts d \<Longrightarrow> d_dentry d' q = d_dentry d q \<and> name_at f d' q = name_at f d q" using name_at_write [OF U(6)] out(2) by simp
  show mx: "d_max d' = d_max d" and e: "d_dentry d' p = \<lparr>hash_code = h, name_len = length name, de_ino = ino, file_type = f2fs_type_by_mode mode\<rparr>" by (rule U)+
  show "name_at f d' p = name" unfolding name_at_def by (rule nth_equalityI) (simp_all add: e U(6) mem_write_def)
  show st: "starts d' = insert p (starts d)"
  proof (intro set_eqI iffI)
    fix q assume q: "q \<in> starts d'"
    show "q \<in> insert p (starts d)"
    proof (cases "p \<le> q \<and> q < p + ?n")
      case True
      then have "q = p" using U(4) [of q] q by (cases "p < q") (auto simp: starts_def)
      then show ?thesis by simp
    next
      case False
      then have "d_dentry d' q = d_dentry d q" using n by (intro U(5)) auto
      then show ?thesis using q False by (auto simp: starts_def mx U(1))
    qed
  next
    fix q assume "q \<in> insert p (starts d)"
    then show "q \<in> starts d'" using keep n room(1) name by (auto simp: starts_def mx U(1) e)
  qed
  show "blk_ok f d'"
  proof (rule blk_okI)
    fix q assume q: "q \<in> starts d'"
    show "q + slots_at f d' q \<le> d_max d'" using q keep blk_okD(1) [OF ok, of q] room(1) by (auto simp: st mx e)
    fix r assume r: "q < r" "r < q + slots_at f d' q"
    show "d_bitmap d' r \<and> name_len (d_dentry d' r) = 0"
    proof (cases "q = p")
      case True
      then show ?thesis using r U(4) [of r] by (simp add: U(1) e)
    next
      case False
      then have q': "q \<in> starts d" using q st by simp
      then have b: "d_bitmap d r \<and> name_len (d_dentry d r) = 0" using blk_okD(2) [OF ok q' r(1)] r(2) keep by simp
      then have "\<not> (p \<le> r \<and> r < p + ?n)" using un by blast
      then have "d_dentry d' r = d_dentry d r" using n by (intro U(5)) auto
      then show ?thesis using b by (simp add: U(1))
    qed
  next
    fix q assume q: "q < d_max d'" "d_bitmap d' q"
    show "\<exists>p' \<in> starts d'. p' \<le> q \<and> q < p' + slots_at f d' p'"
    proof (cases "p \<le> q \<and> q < p + ?n")
      case False
      then have "d_bitmap d q" using q(2) unfolding U(1) by blast
      then obtain p' where "p' \<in> starts d" "p' \<le> q" "q < p' + slots_at f d p'" using blk_okD(3) [OF ok] q(1) mx by auto
      then show ?thesis using keep st by auto
    qed (use st e in auto)
  qed
qed

subsection \<open>Removing an entry\<close>

lemma delete_fields:
  "d_bitmap (delete_slots f d p) q = (d_bitmap d q \<and> \<not> (p \<le> q \<and> q < p + slots_at f d p))" "d_dentry (delete_slots f d p) = d_dentry d"
  "d_filename (delete_slots f d p) = d_filename d" "d_max (delete_slots f d p) = d_max d"
proof -
  have "d_bitmap (fold (\<lambda>i d. d\<lparr>d_bitmap := (d_bitmap d)(p + i := False)\<rparr>) [0..<n] d) q = (d_bitmap d q \<and> \<not> (p \<le> q \<and> q < p + n))
    \<and> d_dentry (fold (\<lambda>i d. d\<lparr>d_bitmap := (d_bitmap d)(p + i := False)\<rparr>) [0..<n] d) = d_dentry d
    \<and> d_filename (fold (\<lambda>i d. d\<lparr>d_bitmap := (d_bitmap d)(p + i := False)\<rparr>) [0..<n] d) = d_filename d
    \<and> d_max (fold (\<lambda>i d. d\<lparr>d_bitmap := (d_bitmap d)(p + i := False)\<rparr>) [0..<n] d) = d_max d" for n
    by (induction n) auto
  then show "d_bitmap (delete_slots f d p) q = (d_bitmap d q \<and> \<not> (p \<le> q \<and> q < p + slots_at f d p))" "d_dentry (delete_slots f d p) = d_dentry d"
    "d_filename (delete_slots f d p) = d_filename d" "d_max (delete_slots f d p) = d_max d" by (simp_all add: delete_slots_def)
qed

lemma delete_slots_spec:
  assumes ok: "blk_ok f d" and p: "p \<in> starts d"
  shows "blk_ok f (delete_slots f d p)" "starts (delete_slots f d p) = starts d - {p}" "name_at f (delete_slots f d p) = name_at f d"
    "d_dentry (delete_slots f d p) = d_dentry d" "d_max (delete_slots f d p) = d_max d"
proof -
  let ?d = "delete_slots f d p"
  note F = delete_fields [of f d p]
  show "name_at f ?d = name_at f d" by (simp add: name_at_def [abs_def] F)
  show e: "d_dentry ?d = d_dentry d" "d_max ?d = d_max d" by (rule F)+
  have far: "q + slots_at f d q \<le> p \<or> p + slots_at f d p \<le> q" if "q \<in> starts d" "q \<noteq> p" for q
    using starts_disjoint [OF ok that(1) p] starts_disjoint [OF ok p that(1)] that(2) by (meson linorder_neqE_nat)
  have bit: "d_bitmap ?d r = d_bitmap d r" if "q \<in> starts d" "q \<noteq> p" "q \<le> r" "r < q + slots_at f d q" for q r
    using far [OF that(1,2)] that(3,4) unfolding F(1) by auto
  show st: "starts ?d = starts d - {p}"
  proof (intro set_eqI iffI)
    fix q assume q: "q \<in> starts ?d"
    then have "q \<noteq> p" using start_slots [OF p, of f] by (auto simp: starts_def F(1))
    then show "q \<in> starts d - {p}" using q by (auto simp: starts_def F)
  next
    fix q assume q: "q \<in> starts d - {p}"
    then have "d_bitmap ?d q = d_bitmap d q" using start_slots [of q d f] by (intro bit [of q]) auto
    then show "q \<in> starts ?d" using q by (auto simp: starts_def F)
  qed
  show "blk_ok f ?d"
  proof (rule blk_okI)
    fix q assume q: "q \<in> starts ?d"
    then show "q + slots_at f ?d q \<le> d_max ?d" using blk_okD(1) [OF ok, of q] by (simp add: st e)
    fix r assume "q < r" "r < q + slots_at f ?d q"
    then show "d_bitmap ?d r \<and> name_len (d_dentry ?d r) = 0" using bit [of q r] blk_okD(2) [OF ok, of q r] q by (auto simp: st e)
  next
    fix q assume q: "q < d_max ?d" "d_bitmap ?d q"
    then have "d_bitmap d q" "\<not> (p \<le> q \<and> q < p + slots_at f d p)" unfolding F(1) by blast+
    then obtain p' where "p' \<in> starts d" "p' \<le> q" "q < p' + slots_at f d p'" "p' \<noteq> p" using blk_okD(3) [OF ok, of q] q(1) by (auto simp: e)
    then show "\<exists>p' \<in> starts ?d. p' \<le> q \<and> q < p' + slots_at f ?d p'" by (auto simp: st e)
  qed
qed

lemma blk_empty:
  assumes "blk_ok f d"
  shows "starts d = {} \<longleftrightarrow> find_next_bit (d_bitmap d) (d_max d) 0 = d_max d"
proof
  assume "starts d = {}"
  then show "find_next_bit (d_bitmap d) (d_max d) 0 = d_max d" using blk_okD(3) [OF assms] by (intro find_next_bit_none) auto
next
  assume e: "find_next_bit (d_bitmap d) (d_max d) 0 = d_max d"
  show "starts d = {}"
  proof (rule ccontr)
    assume "starts d \<noteq> {}"
    then obtain p where "p < d_max d" "d_bitmap d p" by (auto simp: starts_def)
    then show False using find_next_bit_hit [of 0 p "d_max d" "d_bitmap d"] e by simp
  qed
qed

subsection \<open>Listing\<close>

lemma find_next_start:
  assumes ok: "blk_ok f d" and b: "boundary f d b" and lt: "find_next_bit (d_bitmap d) (d_max d) b < d_max d" "b < d_max d"
  shows "find_next_bit (d_bitmap d) (d_max d) b \<in> starts d" "\<And>p. p \<in> starts d \<Longrightarrow> b \<le> p \<Longrightarrow> find_next_bit (d_bitmap d) (d_max d) b \<le> p"
    "boundary f d (find_next_bit (d_bitmap d) (d_max d) b)"
proof -
  let ?n = "find_next_bit (d_bitmap d) (d_max d) b"
  have ge: "b \<le> ?n" using lt(2) by (simp add: find_next_bit_ge)
  have clear: "\<not> d_bitmap d i" if "b \<le> i" "i < ?n" for i by (rule find_next_bit_first [OF that])
  show bn: "boundary f d ?n" unfolding boundary_def
  proof (intro ballI impI)
    fix p assume p: "p \<in> starts d" "p < ?n"
    then have "p < b" using clear [of p] by (force simp: starts_def)
    then show "p + slots_at f d p \<le> ?n" using b p(1) ge by (force simp: boundary_def)
  qed
  show "?n \<in> starts d" by (rule boundary_start [OF ok bn lt(1) find_next_bit_set [OF lt(1)]])
  show "?n \<le> p" if "p \<in> starts d" "b \<le> p" for p using that by (intro find_next_bit_hit) (auto simp: starts_def)
qed

abbreviation listed :: "dir_fmt \<Rightarrow> f2fs_dentry_ptr \<Rightarrow> nat \<Rightarrow> fname \<times> nat \<times> dt_type" where
  "listed f d p \<equiv> (name_at f d p, de_ino (d_dentry d p), f2fs_get_de_type (d_dentry d p))"

definition collect :: "(fname \<times> nat \<times> dt_type) list \<Rightarrow> fname \<Rightarrow> nat \<Rightarrow> dt_type \<Rightarrow> (fname \<times> nat \<times> dt_type) list option" where
  "collect c n i t = Some (c @ [(n, i, t)])"

lemma finite_starts [simp]: "finite (starts d)"
  by (rule finite_subset [of _ "{..<d_max d}"]) (auto simp: starts_def)

lemma sorted_list_insert_min:
  fixes A :: "nat set"
  assumes "finite A" "m \<in> A" "\<forall>x \<in> A. m \<le> x"
  shows "sorted_list_of_set A = m # sorted_list_of_set (A - {m})"
proof -
  have "Min A = m" using assms by (intro Min_eqI) auto
  moreover have "A \<noteq> {}" using assms(2) by auto
  ultimately show ?thesis using sorted_list_of_set_nonempty [OF assms(1)] by simp
qed

lemma fill_loop_lists:
  assumes "blk_ok f d" "boundary f d b"
  shows "\<exists>pos'. fill_loop f collect d st b pos c = (False, pos', c @ map (listed f d) (sorted_list_of_set {p \<in> starts d. b \<le> p}))"
  using assms
proof (induction "d_max d - b" arbitrary: b pos c rule: less_induct)
  case less
  let ?n = "find_next_bit (d_bitmap d) (d_max d) b"
  show ?case
  proof (cases "d_max d \<le> b \<or> d_max d \<le> ?n")
    case True
    have "{p \<in> starts d. b \<le> p} = {}"
    proof (rule ccontr)
      assume "{p \<in> starts d. b \<le> p} \<noteq> {}"
      then obtain p where "p \<in> starts d" "b \<le> p" by auto
      then have "p < d_max d" "?n \<le> p" by (auto simp: starts_def intro: find_next_bit_hit)
      then show False using True \<open>b \<le> p\<close> by simp
    qed
    moreover have "fill_loop f collect d st b pos c = (False, pos, c)" using True by (subst fill_loop.simps) (simp add: Let_def)
    ultimately show ?thesis by simp
  next
    case False
    then have lt: "?n < d_max d" "b < d_max d" by simp_all
    note N = find_next_start [OF less.prems lt]
    let ?b = "?n + slots_at f d ?n"
    have len: "0 < name_len (d_dentry d ?n)" using N(1) by (simp add: starts_def)
    have "b \<le> ?n" using lt(2) by (simp add: find_next_bit_ge)
    have eq: "fill_loop f collect d st b pos c = fill_loop f collect d st ?b (st + ?b) (c @ [listed f d ?n])"
      using False len by (subst fill_loop.simps) (simp add: Let_def collect_def)
    have "{p \<in> starts d. b \<le> p} - {?n} = {p \<in> starts d. ?b \<le> p}"
    proof (intro set_eqI iffI)
      fix p assume p: "p \<in> {p \<in> starts d. b \<le> p} - {?n}"
      then have "?n < p" using N(2) [of p] by auto
      then show "p \<in> {p \<in> starts d. ?b \<le> p}" using starts_disjoint [OF less.prems(1) N(1), of p] p by simp
    next
      fix p assume "p \<in> {p \<in> starts d. ?b \<le> p}"
      then show "p \<in> {p \<in> starts d. b \<le> p} - {?n}" using start_slots [OF N(1), of f] \<open>b \<le> ?n\<close> by auto
    qed
    then have "sorted_list_of_set {p \<in> starts d. b \<le> p} = ?n # sorted_list_of_set {p \<in> starts d. ?b \<le> p}"
      using sorted_list_insert_min [of "{p \<in> starts d. b \<le> p}" ?n] N(1,2) \<open>b \<le> ?n\<close> by simp
    moreover have "\<exists>pos'. fill_loop f collect d st ?b (st + ?b) (c @ [listed f d ?n])
        = (False, pos', (c @ [listed f d ?n]) @ map (listed f d) (sorted_list_of_set {p \<in> starts d. ?b \<le> p}))"
      using start_slots [OF N(1), of f] \<open>b \<le> ?n\<close> lt by (intro less.hyps less.prems(1) boundary_next(2) [OF less.prems(1) N(3,1)]) simp
    ultimately show ?thesis unfolding eq by simp
  qed
qed

end
