(* ===== verification/Dir_Ops.thy ===== *)
theory Dir_Ops
  imports Dentry_Block Geometry
begin

text \<open>
  Directories, from \<open>src/dir.c\<close> and \<open>src/inline.c\<close>: entries in the inode itself, or in a hash table of levels, where a level has buckets of blocks and twice the buckets
  of the level above. The data pages of the directory are a map from block indices to blocks: a missing one reads as \<open>ENOENT\<close>, and one that is got for
  writing starts as zeros (\<open>f2fs_get_new_data_page\<close>). \<open>bad\<close> are the pages that cannot be read or allocated, by their index. Times, link counts and the metadata of
  the new inode are left out; whether \<open>f2fs_init_inode_metadata\<close> fails is an argument. The page of the inode itself can be read. No directory is encrypted.
\<close>

record f2fs_dir =
  i_inline :: "f2fs_dentry_ptr option"
  dblk :: "nat \<rightharpoonup> f2fs_dentry_ptr"
  npages :: nat
  i_current_depth :: nat
  i_dir_level :: nat
  chash :: u32
  clevel :: nat
  dir_task :: "nat option"

datatype dir_err = ENOSPC | EIO | EMETA | EEXIST | EAGAIN

text \<open>An entry is in a slot of the inode or of a block.\<close>

datatype dloc = Inline_At nat | Block_At nat nat

subsection \<open>Levels and buckets\<close>

definition dir_buckets :: "dir_fmt \<Rightarrow> nat \<Rightarrow> nat \<Rightarrow> nat" where
  "dir_buckets f level dir_level = (if level + dir_level < MAX_DIR_HASH_DEPTH f div 2 then 2 ^ (level + dir_level) else MAX_DIR_BUCKETS f)"

definition bucket_blocks :: "dir_fmt \<Rightarrow> nat \<Rightarrow> nat" where
  "bucket_blocks f level = (if level < MAX_DIR_HASH_DEPTH f div 2 then 2 else 4)"

text \<open>The products are of type \<open>unsigned int\<close>, the sum is \<open>unsigned long\<close>.\<close>

definition dir_block_index :: "dir_fmt \<Rightarrow> nat \<Rightarrow> nat \<Rightarrow> nat \<Rightarrow> nat" where
  "dir_block_index f level dir_level idx =
     (\<Sum>i\<leftarrow>[0..<level]. u32_wrap (dir_buckets f i dir_level * bucket_blocks f i)) + u32_wrap (idx * bucket_blocks f level)"

subsection \<open>Looking up\<close>

fun level_loop :: "dir_fmt \<Rightarrow> (fname \<Rightarrow> bool) \<Rightarrow> (nat \<Rightarrow> bool) \<Rightarrow> u32 \<Rightarrow> nat \<Rightarrow> f2fs_dir \<Rightarrow> nat list \<Rightarrow> bool \<Rightarrow> (nat \<times> nat) option \<times> bool \<times> bool" where
  "level_loop f mtch bad h s dir [] room = (None, False, room)"
| "level_loop f mtch bad h s dir (b # bs) room =
     (if bad b then (None, True, room)
      else case dblk dir b of
             None \<Rightarrow> level_loop f mtch bad h s dir bs True
           | Some d \<Rightarrow>
               (case f2fs_find_target_dentry f mtch h d of
                  (Some p, _) \<Rightarrow> (Some (b, p), False, room)
                | (None, max_slots) \<Rightarrow> level_loop f mtch bad h s dir bs (room \<or> max_slots \<ge> s)))"

definition find_in_level :: "dir_fmt \<Rightarrow> (fname \<Rightarrow> bool) \<Rightarrow> (nat \<Rightarrow> bool) \<Rightarrow> f2fs_dir \<Rightarrow> nat \<Rightarrow> fname \<Rightarrow> (nat \<times> nat) option \<times> bool \<times> f2fs_dir" where
  "find_in_level f mtch bad dir level name =
     (let s = GET_DENTRY_SLOTS f (length name);
          namehash = f2fs_dentry_hash name;
          nbucket = dir_buckets f level (i_dir_level dir);
          nblock = bucket_blocks f level;
          bidx = u32_wrap (dir_block_index f level (i_dir_level dir) (unat namehash mod nbucket));
          end_block = u32_wrap (bidx + nblock);
          (de, err, room) = level_loop f mtch bad namehash s dir [bidx..<end_block] False
      in (de, err, if de = None \<and> room \<and> chash dir \<noteq> namehash then dir\<lparr>chash := namehash, clevel := level\<rparr> else dir))"

fun find_levels :: "dir_fmt \<Rightarrow> (fname \<Rightarrow> bool) \<Rightarrow> (nat \<Rightarrow> bool) \<Rightarrow> f2fs_dir \<Rightarrow> fname \<Rightarrow> nat list \<Rightarrow> (nat \<times> nat) option \<times> bool \<times> f2fs_dir" where
  "find_levels f mtch bad dir name [] = (None, False, dir)"
| "find_levels f mtch bad dir name (level # levels) =
     (let (de, err, dir) = find_in_level f mtch bad dir level name
      in if de \<noteq> None \<or> err then (de, err, dir) else find_levels f mtch bad dir name levels)"

definition f2fs_find_in_inline_dir :: "dir_fmt \<Rightarrow> (fname \<Rightarrow> bool) \<Rightarrow> f2fs_dentry_ptr \<Rightarrow> fname \<Rightarrow> nat option" where
  "f2fs_find_in_inline_dir f mtch d name = fst (f2fs_find_target_dentry f mtch (f2fs_dentry_hash name) d)"

text \<open>\<open>cur\<close> is the calling task.\<close>

definition f2fs_find_entry :: "dir_fmt \<Rightarrow> (fname \<Rightarrow> fname \<Rightarrow> bool) \<Rightarrow> (nat \<Rightarrow> bool) \<Rightarrow> nat \<Rightarrow> f2fs_dir \<Rightarrow> fname \<Rightarrow> dloc option \<times> bool \<times> f2fs_dir" where
  "f2fs_find_entry f mt bad cur dir name =
     (let (de, err, dir) =
            (case i_inline dir of
               Some d \<Rightarrow> (map_option Inline_At (f2fs_find_in_inline_dir f (mt name) d name), False, dir)
             | None \<Rightarrow>
                 if npages dir = 0 then (None, False, dir)
                 else let dir = (if i_current_depth dir > MAX_DIR_HASH_DEPTH f then dir\<lparr>i_current_depth := MAX_DIR_HASH_DEPTH f\<rparr> else dir);
                          (de, err, dir) = find_levels f (mt name) bad dir name [0..<i_current_depth dir]
                      in (map_option (\<lambda>(b, p). Block_At b p) de, err, dir))
      in (de, err, if de = None then dir\<lparr>dir_task := Some cur\<rparr> else dir))"

definition entry_of :: "f2fs_dir \<Rightarrow> dloc \<Rightarrow> f2fs_dir_entry option" where
  "entry_of dir l = (case l of Inline_At p \<Rightarrow> map_option (\<lambda>d. d_dentry d p) (i_inline dir) | Block_At b p \<Rightarrow> map_option (\<lambda>d. d_dentry d p) (dblk dir b))"

definition f2fs_inode_by_name :: "dir_fmt \<Rightarrow> (fname \<Rightarrow> fname \<Rightarrow> bool) \<Rightarrow> (nat \<Rightarrow> bool) \<Rightarrow> nat \<Rightarrow> f2fs_dir \<Rightarrow> fname \<Rightarrow> nat \<times> f2fs_dir" where
  "f2fs_inode_by_name f mt bad cur dir name =
     (let (de, err, dir) = f2fs_find_entry f mt bad cur dir name
      in (case de of None \<Rightarrow> 0 | Some l \<Rightarrow> (case entry_of dir l of None \<Rightarrow> 0 | Some e \<Rightarrow> de_ino e), dir))"

subsection \<open>Adding\<close>

definition zero_block :: "dir_fmt \<Rightarrow> f2fs_dentry_ptr" where
  "zero_block f = \<lparr>d_bitmap = (\<lambda>_. False), d_dentry = (\<lambda>_. \<lparr>hash_code = 0, name_len = 0, de_ino = 0, file_type = F2FS_FT_UNKNOWN\<rparr>),
     d_filename = (\<lambda>_. 0), d_max = NR_DENTRY_IN_BLOCK f\<rparr>"

definition get_new_data_page :: "dir_fmt \<Rightarrow> f2fs_dir \<Rightarrow> nat \<Rightarrow> f2fs_dir" where
  "get_new_data_page f dir b =
     dir\<lparr>dblk := (dblk dir)(b \<mapsto> (case dblk dir b of None \<Rightarrow> zero_block f | Some d \<Rightarrow> d)), npages := max (npages dir) (b + 1)\<rparr>"

text \<open>The blocks of a bucket: an error, a slot, or no room.\<close>

fun bucket_loop :: "dir_fmt \<Rightarrow> (nat \<Rightarrow> bool) \<Rightarrow> nat \<Rightarrow> f2fs_dir \<Rightarrow> nat list \<Rightarrow> (dir_err + (nat \<times> nat) option) \<times> f2fs_dir" where
  "bucket_loop f bad slots dir [] = (Inr None, dir)"
| "bucket_loop f bad slots dir (b # bs) =
     (if bad b then (Inl EIO, dir)
      else let dir = get_new_data_page f dir b;
               bit_pos = (case dblk dir b of None \<Rightarrow> NR_DENTRY_IN_BLOCK f | Some d \<Rightarrow> f2fs_room_for_filename (d_bitmap d) slots (NR_DENTRY_IN_BLOCK f))
           in if bit_pos < NR_DENTRY_IN_BLOCK f then (Inr (Some (b, bit_pos)), dir) else bucket_loop f bad slots dir bs)"

partial_function (option) add_level :: "dir_fmt \<Rightarrow> (nat \<Rightarrow> bool) \<Rightarrow> f2fs_dir \<Rightarrow> nat \<Rightarrow> u32 \<Rightarrow> nat \<Rightarrow> nat \<Rightarrow> ((dir_err + nat \<times> nat \<times> nat) \<times> f2fs_dir) option" where
  "add_level f bad dir slots h level current_depth =
     (if current_depth = MAX_DIR_HASH_DEPTH f then Some (Inl ENOSPC, dir)
      else let current_depth = (if level = current_depth then current_depth + 1 else current_depth);
               nbucket = dir_buckets f level (i_dir_level dir);
               nblock = bucket_blocks f level;
               bidx = dir_block_index f level (i_dir_level dir) (unat h mod nbucket)
           in case bucket_loop f bad slots dir [bidx..<bidx + nblock] of
                (Inl e, dir) \<Rightarrow> Some (Inl e, dir)
              | (Inr (Some (b, p)), dir) \<Rightarrow> Some (Inr (b, p, current_depth), dir)
              | (Inr None, dir) \<Rightarrow> add_level f bad dir slots h (level + 1) current_depth)"

definition put_entry :: "dir_fmt \<Rightarrow> f2fs_dir \<Rightarrow> nat \<Rightarrow> nat \<Rightarrow> fname \<Rightarrow> nat \<Rightarrow> s_ifmt \<Rightarrow> f2fs_dir" where
  "put_entry f dir b p name ino mode =
     (case dblk dir b of None \<Rightarrow> dir
      | Some d \<Rightarrow> dir\<lparr>dblk := (dblk dir)(b \<mapsto> f2fs_update_dentry f ino mode d name (f2fs_dentry_hash name) p)\<rparr>)"

text \<open>\<open>meta\<close>: the metadata of the new inode cannot be written.\<close>

definition f2fs_add_regular_entry :: "dir_fmt \<Rightarrow> (nat \<Rightarrow> bool) \<Rightarrow> f2fs_dir \<Rightarrow> fname \<Rightarrow> nat \<Rightarrow> s_ifmt \<Rightarrow> bool \<Rightarrow> (dir_err option \<times> f2fs_dir) option" where
  "f2fs_add_regular_entry f bad dir name ino mode meta =
     (let slots = GET_DENTRY_SLOTS f (length name);
          h = f2fs_dentry_hash name;
          (level, dir) = (if chash dir = h then (clevel dir, dir\<lparr>chash := 0\<rparr>) else (0, dir))
      in case add_level f bad dir slots h level (i_current_depth dir) of
           None \<Rightarrow> None
         | Some (Inl e, dir) \<Rightarrow> Some (Some e, dir)
         | Some (Inr (b, p, current_depth), dir) \<Rightarrow>
             if meta then Some (Some EMETA, dir)
             else Some (None, (put_entry f dir b p name ino mode)\<lparr>i_current_depth := current_depth\<rparr>))"

subsection \<open>Entries in the inode\<close>

text \<open>The bits of the bitmap behind the last slot are never set; the copy leaves them out.\<close>

definition f2fs_move_inline_dirents :: "dir_fmt \<Rightarrow> (nat \<Rightarrow> bool) \<Rightarrow> f2fs_dir \<Rightarrow> f2fs_dentry_ptr \<Rightarrow> dir_err option \<times> f2fs_dir" where
  "f2fs_move_inline_dirents f bad dir d =
     (if bad 0 then (Some EIO, dir)
      else let old = (case dblk dir 0 of None \<Rightarrow> zero_block f | Some o' \<Rightarrow> o');
               dst = \<lparr>d_bitmap = (\<lambda>i. i < d_max d \<and> d_bitmap d i), d_dentry = (\<lambda>i. if i < d_max d then d_dentry d i else d_dentry old i),
                      d_filename = (\<lambda>a. if a < d_max d * F2FS_SLOT_LEN f then d_filename d a else d_filename old a), d_max = NR_DENTRY_IN_BLOCK f\<rparr>
           in (None, dir\<lparr>dblk := (dblk dir)(0 \<mapsto> dst), i_inline := None, i_current_depth := 1, npages := max (npages dir) 1\<rparr>))"

text \<open>\<open>f2fs_get_de_type(de) << S_SHIFT\<close>: the numbers of \<open>DT_REG\<close> and so on are those of the file type bits of a mode.\<close>

fun fake_mode :: "dt_type \<Rightarrow> s_ifmt" where
  "fake_mode DT_REG = S_IFREG"
| "fake_mode DT_DIR = S_IFDIR"
| "fake_mode DT_CHR = S_IFCHR"
| "fake_mode DT_BLK = S_IFBLK"
| "fake_mode DT_FIFO = S_IFIFO"
| "fake_mode DT_SOCK = S_IFSOCK"
| "fake_mode DT_LNK = S_IFLNK"
| "fake_mode DT_UNKNOWN = S_IFNONE"

function add_inline_loop :: "dir_fmt \<Rightarrow> (nat \<Rightarrow> bool) \<Rightarrow> f2fs_dentry_ptr \<Rightarrow> nat \<Rightarrow> f2fs_dir \<Rightarrow> (dir_err option \<times> f2fs_dir) option" where
  "add_inline_loop f bad d bit_pos dir =
     (if \<not> bit_pos < d_max d then Some (None, dir)
      else if \<not> d_bitmap d bit_pos then add_inline_loop f bad d (bit_pos + 1) dir
      else let de = d_dentry d bit_pos
           in if name_len de = 0 then add_inline_loop f bad d (bit_pos + 1) dir
              else case f2fs_add_regular_entry f bad dir (name_at f d bit_pos) (de_ino de) (fake_mode (f2fs_get_de_type de)) False of
                     None \<Rightarrow> None
                   | Some (Some e, dir) \<Rightarrow> Some (Some e, dir\<lparr>dblk := Map.empty\<rparr>)
                   | Some (None, dir) \<Rightarrow> add_inline_loop f bad d (bit_pos + GET_DENTRY_SLOTS f (name_len de)) dir)"
  by pat_completeness auto
termination
proof (relation "measure (\<lambda>(f, bad, d, bit_pos, dir). d_max d - bit_pos)", goal_cases)
  case (4 f bad d bit_pos dir de r e dir')
  then have "0 < GET_DENTRY_SLOTS f (name_len de)" by (intro slots_pos) simp
  then show ?case using 4 by simp
qed simp_all

declare add_inline_loop.simps [simp del]

text \<open>When an entry cannot be moved, all pages are given up and the inode is written back as it was. There is memory for the backup.\<close>

definition f2fs_move_rehashed_dirents :: "dir_fmt \<Rightarrow> (nat \<Rightarrow> bool) \<Rightarrow> f2fs_dir \<Rightarrow> f2fs_dentry_ptr \<Rightarrow> (dir_err option \<times> f2fs_dir) option" where
  "f2fs_move_rehashed_dirents f bad dir d =
     (case add_inline_loop f bad d 0 dir of
        None \<Rightarrow> None
      | Some (None, dir) \<Rightarrow> Some (None, dir\<lparr>i_inline := None\<rparr>)
      | Some (Some e, dir) \<Rightarrow> Some (Some e, dir\<lparr>i_current_depth := 0, npages := 1\<rparr>))"

definition f2fs_convert_inline_dir :: "dir_fmt \<Rightarrow> (nat \<Rightarrow> bool) \<Rightarrow> f2fs_dir \<Rightarrow> f2fs_dentry_ptr \<Rightarrow> (dir_err option \<times> f2fs_dir) option" where
  "f2fs_convert_inline_dir f bad dir d =
     (if i_dir_level dir = 0 then Some (f2fs_move_inline_dirents f bad dir d) else f2fs_move_rehashed_dirents f bad dir d)"

definition f2fs_add_inline_entry :: "dir_fmt \<Rightarrow> (nat \<Rightarrow> bool) \<Rightarrow> f2fs_dir \<Rightarrow> f2fs_dentry_ptr \<Rightarrow> fname \<Rightarrow> nat \<Rightarrow> s_ifmt \<Rightarrow> bool \<Rightarrow> (dir_err option \<times> f2fs_dir) option" where
  "f2fs_add_inline_entry f bad dir d name ino mode meta =
     (let bit_pos = f2fs_room_for_filename (d_bitmap d) (GET_DENTRY_SLOTS f (length name)) (d_max d)
      in if bit_pos \<ge> d_max d
         then (case f2fs_convert_inline_dir f bad dir d of
                 None \<Rightarrow> None
               | Some (Some e, dir) \<Rightarrow> Some (Some e, dir)
               | Some (None, dir) \<Rightarrow> Some (Some EAGAIN, dir))
         else if meta then Some (Some EMETA, dir)
         else Some (None, dir\<lparr>i_inline := Some (f2fs_update_dentry f ino mode d name (f2fs_dentry_hash name) bit_pos), i_current_depth := 0\<rparr>))"

definition f2fs_add_dentry :: "dir_fmt \<Rightarrow> (nat \<Rightarrow> bool) \<Rightarrow> f2fs_dir \<Rightarrow> fname \<Rightarrow> nat \<Rightarrow> s_ifmt \<Rightarrow> bool \<Rightarrow> (dir_err option \<times> f2fs_dir) option" where
  "f2fs_add_dentry f bad dir name ino mode meta =
     (case (case i_inline dir of None \<Rightarrow> Some (Some EAGAIN, dir) | Some d \<Rightarrow> f2fs_add_inline_entry f bad dir d name ino mode meta) of
        None \<Rightarrow> None
      | Some (err, dir) \<Rightarrow> if err = Some EAGAIN then f2fs_add_regular_entry f bad dir name ino mode meta else Some (err, dir))"

definition f2fs_do_add_link :: "dir_fmt \<Rightarrow> (fname \<Rightarrow> fname \<Rightarrow> bool) \<Rightarrow> (nat \<Rightarrow> bool) \<Rightarrow> nat \<Rightarrow> f2fs_dir \<Rightarrow> fname \<Rightarrow> nat \<Rightarrow> s_ifmt \<Rightarrow> bool \<Rightarrow> (dir_err option \<times> f2fs_dir) option" where
  "f2fs_do_add_link f mt bad cur dir name ino mode meta =
     (let (de, err, dir) =
            (if dir_task dir \<noteq> Some cur
             then (let (de, err, dir) = f2fs_find_entry f mt bad cur dir name in (de, err, dir\<lparr>dir_task := None\<rparr>))
             else (None, False, dir))
      in if de \<noteq> None then Some (Some EEXIST, dir)
         else if err then Some (Some EIO, dir)
         else f2fs_add_dentry f bad dir name ino mode meta)"

subsection \<open>Removing and listing\<close>

definition f2fs_delete_inline_entry :: "dir_fmt \<Rightarrow> f2fs_dentry_ptr \<Rightarrow> nat \<Rightarrow> f2fs_dentry_ptr" where
  [simp]: "f2fs_delete_inline_entry f d p = delete_slots f d p"

text \<open>\<open>trunc\<close>: freeing the page of a block that has become empty fails.\<close>

definition f2fs_delete_entry :: "dir_fmt \<Rightarrow> f2fs_dir \<Rightarrow> dloc \<Rightarrow> bool \<Rightarrow> f2fs_dir" where
  "f2fs_delete_entry f dir l trunc =
     (case l of
        Inline_At p \<Rightarrow> (case i_inline dir of None \<Rightarrow> dir | Some d \<Rightarrow> dir\<lparr>i_inline := Some (f2fs_delete_inline_entry f d p)\<rparr>)
      | Block_At b p \<Rightarrow>
          (case dblk dir b of None \<Rightarrow> dir
           | Some d \<Rightarrow>
               (let d = delete_slots f d p
                in if find_next_bit (d_bitmap d) (NR_DENTRY_IN_BLOCK f) 0 = NR_DENTRY_IN_BLOCK f \<and> \<not> trunc
                   then dir\<lparr>dblk := (dblk dir)(b := None)\<rparr> else dir\<lparr>dblk := (dblk dir)(b \<mapsto> d)\<rparr>)))"

definition f2fs_set_link :: "f2fs_dir \<Rightarrow> dloc \<Rightarrow> nat \<Rightarrow> s_ifmt \<Rightarrow> f2fs_dir" where
  "f2fs_set_link dir l ino mode =
     (let upd = (\<lambda>d p. d\<lparr>d_dentry := (d_dentry d)(p := set_de_type ((d_dentry d p)\<lparr>de_ino := ino\<rparr>) mode)\<rparr>)
      in case l of
           Inline_At p \<Rightarrow> (case i_inline dir of None \<Rightarrow> dir | Some d \<Rightarrow> dir\<lparr>i_inline := Some (upd d p)\<rparr>)
         | Block_At b p \<Rightarrow> (case dblk dir b of None \<Rightarrow> dir | Some d \<Rightarrow> dir\<lparr>dblk := (dblk dir)(b \<mapsto> upd d p)\<rparr>))"

fun empty_loop :: "dir_fmt \<Rightarrow> (nat \<Rightarrow> bool) \<Rightarrow> f2fs_dir \<Rightarrow> nat list \<Rightarrow> bool" where
  "empty_loop f bad dir [] = True"
| "empty_loop f bad dir (b # bs) =
     (if bad b then False
      else case dblk dir b of
             None \<Rightarrow> empty_loop f bad dir bs
           | Some d \<Rightarrow> if find_next_bit (d_bitmap d) (NR_DENTRY_IN_BLOCK f) (if b = 0 then 2 else 0) < NR_DENTRY_IN_BLOCK f then False
                       else empty_loop f bad dir bs)"

definition f2fs_empty_inline_dir :: "f2fs_dentry_ptr \<Rightarrow> bool" where
  [simp]: "f2fs_empty_inline_dir d \<longleftrightarrow> \<not> find_next_bit (d_bitmap d) (d_max d) 2 < d_max d"

definition f2fs_empty_dir :: "dir_fmt \<Rightarrow> (nat \<Rightarrow> bool) \<Rightarrow> f2fs_dir \<Rightarrow> bool" where
  "f2fs_empty_dir f bad dir =
     (case i_inline dir of
        Some d \<Rightarrow> f2fs_empty_inline_dir d
      | None \<Rightarrow> empty_loop f bad dir [0..<npages dir])"

text \<open>The results of \<open>f2fs_readdir\<close>: whether it failed, the position and the state of the caller. No signal is pending.\<close>

fun readdir_loop :: "dir_fmt \<Rightarrow> ('c \<Rightarrow> fname \<Rightarrow> nat \<Rightarrow> dt_type \<Rightarrow> 'c option) \<Rightarrow> (nat \<Rightarrow> bool) \<Rightarrow> f2fs_dir \<Rightarrow> nat list \<Rightarrow> nat \<Rightarrow> 'c \<Rightarrow> bool \<times> nat \<times> 'c" where
  "readdir_loop f emit bad dir [] pos c = (False, pos, c)"
| "readdir_loop f emit bad dir (n # ns) pos c =
     (if bad n then (True, pos, c)
      else case dblk dir n of
             None \<Rightarrow> readdir_loop f emit bad dir ns ((n + 1) * NR_DENTRY_IN_BLOCK f) c
           | Some d \<Rightarrow>
               (let (stop, pos, c) = f2fs_fill_dentries f emit d (n * NR_DENTRY_IN_BLOCK f) pos c
                in if stop then (False, pos, c) else readdir_loop f emit bad dir ns ((n + 1) * NR_DENTRY_IN_BLOCK f) c))"

definition f2fs_read_inline_dir :: "dir_fmt \<Rightarrow> ('c \<Rightarrow> fname \<Rightarrow> nat \<Rightarrow> dt_type \<Rightarrow> 'c option) \<Rightarrow> f2fs_dentry_ptr \<Rightarrow> nat \<Rightarrow> 'c \<Rightarrow> bool \<times> nat \<times> 'c" where
  [simp]: "f2fs_read_inline_dir f emit d pos c =
     (if pos = d_max d then (False, pos, c)
      else (let (stop, pos, c) = f2fs_fill_dentries f emit d 0 pos c in (False, if stop then pos else d_max d, c)))"

definition f2fs_readdir :: "dir_fmt \<Rightarrow> ('c \<Rightarrow> fname \<Rightarrow> nat \<Rightarrow> dt_type \<Rightarrow> 'c option) \<Rightarrow> (nat \<Rightarrow> bool) \<Rightarrow> f2fs_dir \<Rightarrow> nat \<Rightarrow> 'c \<Rightarrow> bool \<times> nat \<times> 'c" where
  "f2fs_readdir f emit bad dir pos c =
     (case i_inline dir of
        Some d \<Rightarrow> f2fs_read_inline_dir f emit d pos c
      | None \<Rightarrow> readdir_loop f emit bad dir [pos div NR_DENTRY_IN_BLOCK f..<npages dir] pos c)"

text \<open>A new directory, with its entries in the inode (\<open>inl\<close> slots) or in a first block.\<close>

definition f2fs_make_empty_inline_dir :: "dir_fmt \<Rightarrow> f2fs_dir \<Rightarrow> f2fs_dentry_ptr \<Rightarrow> nat \<Rightarrow> nat \<Rightarrow> dir_err option \<times> f2fs_dir" where
  [simp]: "f2fs_make_empty_inline_dir f dir d ino pino =
     (None, dir\<lparr>i_inline := Some (f2fs_do_make_empty_dir f ino S_IFDIR pino S_IFDIR d), npages := max (npages dir) 1\<rparr>)"

definition make_empty_dir :: "dir_fmt \<Rightarrow> (nat \<Rightarrow> bool) \<Rightarrow> f2fs_dir \<Rightarrow> nat \<Rightarrow> nat \<Rightarrow> dir_err option \<times> f2fs_dir" where
  "make_empty_dir f bad dir ino pino =
     (case i_inline dir of
        Some d \<Rightarrow> f2fs_make_empty_inline_dir f dir d ino pino
      | None \<Rightarrow>
          if bad 0 then (Some EIO, dir)
          else let dir = get_new_data_page f dir 0
               in (None, case dblk dir 0 of None \<Rightarrow> dir | Some d \<Rightarrow> dir\<lparr>dblk := (dblk dir)(0 \<mapsto> f2fs_do_make_empty_dir f ino S_IFDIR pino S_IFDIR d)\<rparr>))"

end
