(* ===== verification/Dir_Table.thy ===== *)
theory Dir_Table
  imports Dir_Ops
begin

text \<open>
  The hash table of a directory: where an entry may be, that a lookup over the levels finds it, and that an insertion returns and puts it where a lookup
  looks. What is said here is about the data pages only, so that it also holds while the entries of the inode are moved out (\<open>add_inline_loop\<close>).
\<close>

subsection \<open>Entries and the invariant\<close>

definition bucket :: "dir_fmt \<Rightarrow> nat \<Rightarrow> nat \<Rightarrow> u32 \<Rightarrow> nat set" where
  "bucket f dl level h =
     (let bidx = dir_block_index f level dl (unat h mod dir_buckets f level dl) in {bidx..<bidx + bucket_blocks f level})"

definition blk_in :: "dir_fmt \<Rightarrow> f2fs_dentry_ptr \<Rightarrow> nat \<Rightarrow> fname \<Rightarrow> f2fs_dir_entry \<Rightarrow> bool" where
  "blk_in f d p n e \<longleftrightarrow> p \<in> starts d \<and> name_at f d p = n \<and> d_dentry d p = e"

definition tab_in :: "dir_fmt \<Rightarrow> f2fs_dir \<Rightarrow> nat \<Rightarrow> nat \<Rightarrow> fname \<Rightarrow> f2fs_dir_entry \<Rightarrow> bool" where
  "tab_in f dir b p n e \<longleftrightarrow> (\<exists>d. dblk dir b = Some d \<and> blk_in f d p n e)"

text \<open>\<open>lim\<close> is the number of blocks a file can have.\<close>

definition tab_ok :: "dir_fmt \<Rightarrow> nat \<Rightarrow> f2fs_dir \<Rightarrow> bool" where
  "tab_ok f lim dir \<longleftrightarrow>
     (\<forall>b d. dblk dir b = Some d \<longrightarrow> blk_ok f d \<and> d_max d = NR_DENTRY_IN_BLOCK f \<and> b < lim \<and> b < npages dir)
     \<and> (\<forall>b p n e. tab_in f dir b p n e \<longrightarrow> hash_code e = f2fs_dentry_hash n \<and> (\<exists>l < i_current_depth dir. b \<in> bucket f (i_dir_level dir) l (f2fs_dentry_hash n)))
     \<and> (\<forall>b p n e b' p' e'. tab_in f dir b p n e \<longrightarrow> tab_in f dir b' p' n e' \<longrightarrow> b = b' \<and> p = p')
     \<and> i_current_depth dir \<le> MAX_DIR_HASH_DEPTH f \<and> clevel dir \<le> i_current_depth dir"

lemma tab_okD:
  assumes "tab_ok f lim dir"
  shows "dblk dir b = Some d \<Longrightarrow> blk_ok f d \<and> d_max d = NR_DENTRY_IN_BLOCK f \<and> b < lim \<and> b < npages dir"
    "tab_in f dir b p n e \<Longrightarrow> hash_code e = f2fs_dentry_hash n"
    "tab_in f dir b p n e \<Longrightarrow> \<exists>l < i_current_depth dir. b \<in> bucket f (i_dir_level dir) l (f2fs_dentry_hash n)"
    "tab_in f dir b p n e \<Longrightarrow> tab_in f dir b' p' n e' \<Longrightarrow> b = b' \<and> p = p'"
    "i_current_depth dir \<le> MAX_DIR_HASH_DEPTH f" "clevel dir \<le> i_current_depth dir"
  using assms unfolding tab_ok_def by blast+

lemma tab_in_det: "tab_in f dir b p n e \<Longrightarrow> tab_in f dir b p n' e' \<Longrightarrow> n = n' \<and> e = e'"
  by (auto simp: tab_in_def blk_in_def)

lemma tab_in_fields [simp]:
  "tab_in f (dir\<lparr>i_inline := x\<rparr>) = tab_in f dir" "tab_in f (dir\<lparr>npages := n\<rparr>) = tab_in f dir" "tab_in f (dir\<lparr>i_current_depth := n\<rparr>) = tab_in f dir"
  "tab_in f (dir\<lparr>chash := h\<rparr>) = tab_in f dir" "tab_in f (dir\<lparr>clevel := n\<rparr>) = tab_in f dir" "tab_in f (dir\<lparr>dir_task := t\<rparr>) = tab_in f dir"
  by (simp_all add: tab_in_def fun_eq_iff)

lemma tab_ok_fields:
  assumes "tab_ok f lim dir"
  shows "tab_ok f lim (dir\<lparr>chash := h\<rparr>)" "tab_ok f lim (dir\<lparr>dir_task := t\<rparr>)" "tab_ok f lim (dir\<lparr>i_inline := x\<rparr>)"
    "l \<le> i_current_depth dir \<Longrightarrow> tab_ok f lim (dir\<lparr>chash := h, clevel := l\<rparr>)"
  using assms by (simp_all add: tab_ok_def)

text \<open>What the table says of a name.\<close>

definition tlook :: "dir_fmt \<Rightarrow> f2fs_dir \<Rightarrow> fname \<Rightarrow> (nat \<times> f2fs_ft) set" where
  "tlook f dir n = {(de_ino e, file_type e) |b p e. tab_in f dir b p n e}"

lemma tlook_cong: "tab_in f dir' = tab_in f dir \<Longrightarrow> tlook f dir' = tlook f dir"
  by (simp add: tlook_def fun_eq_iff)

lemma tlook_empty: "tlook f dir n = {} \<longleftrightarrow> (\<forall>b p e. \<not> tab_in f dir b p n e)"
  by (auto simp: tlook_def)

lemma tlook_single:
  assumes "tab_ok f lim dir" "tab_in f dir b p n e"
  shows "tlook f dir n = {(de_ino e, file_type e)}"
proof -
  have "e' = e" if "tab_in f dir b' p' n e'" for b' p' e' using tab_okD(4) [OF assms(1) that assms(2)] that tab_in_det [OF assms(2)] by blast
  then show ?thesis using assms(2) unfolding tlook_def by blast
qed

subsection \<open>Looking up\<close>

lemma level_loop_found:
  assumes ok: "tab_ok f lim dir" and r: "level_loop f mtch bad h s dir bs room = (Some (b, p), err, room')"
  shows "\<not> err \<and> (\<exists>n e. tab_in f dir b p n e \<and> hash_code e = h \<and> mtch n)"
  using r
proof (induction bs arbitrary: room)
  case (Cons b' bs)
  show ?case
  proof (cases "dblk dir b'")
    case (Some d)
    obtain q ms where F: "f2fs_find_target_dentry f mtch h d = (q, ms)" by fastforce
    show ?thesis
    proof (cases q)
      case (Some q')
      then have e: "b' = b" "q' = p" "\<not> err" using Cons.prems F \<open>dblk dir b' = Some d\<close> by (auto split: if_splits)
      have "blk_ok f d" using tab_okD(1) [OF ok \<open>dblk dir b' = Some d\<close>] by blast
      then have "p \<in> starts d \<and> hash_code (d_dentry d p) = h \<and> mtch (name_at f d p)"
        using f2fs_find_target_dentry_spec(2) [of f d mtch h p] F Some e by simp
      then show ?thesis using \<open>dblk dir b' = Some d\<close> e by (auto simp: tab_in_def blk_in_def)
    qed (use Cons F \<open>dblk dir b' = Some d\<close> in \<open>auto split: if_splits\<close>)
  qed (use Cons in \<open>auto split: if_splits\<close>)
qed simp

lemma level_loop_none:
  assumes ok: "tab_ok f lim dir" and r: "level_loop f mtch bad h s dir bs room = (None, False, room')"
    and b: "b \<in> set bs" and e: "tab_in f dir b p n e" "hash_code e = h"
  shows "\<not> mtch n"
  using r b
proof (induction bs arbitrary: room)
  case (Cons b' bs)
  show ?case
  proof (cases "b' = b")
    case True
    obtain d where d: "dblk dir b = Some d" "blk_in f d p n e" using e(1) by (auto simp: tab_in_def)
    then have "fst (f2fs_find_target_dentry f mtch h d) = None" using Cons.prems(1) True by (auto split: if_splits option.splits prod.splits)
    moreover have "blk_ok f d" using tab_okD(1) [OF ok d(1)] by blast
    ultimately show ?thesis using f2fs_find_target_dentry_spec(1) [of f d mtch h] d(2) e(2) by (auto simp: blk_in_def)
  next
    case False
    then show ?thesis using Cons by (auto split: if_splits option.splits prod.splits)
  qed
qed simp

text \<open>The block indices of \<open>find_in_level\<close> are cut to 32 bits, which no block of a file of permitted size notices.\<close>

lemma bucket_scanned:
  assumes "b \<in> bucket f dl level h" "b < lim" "lim \<le> 4294967292"
  shows "b \<in> set [u32_wrap (dir_block_index f level dl (unat h mod dir_buckets f level dl))
    ..<u32_wrap (u32_wrap (dir_block_index f level dl (unat h mod dir_buckets f level dl)) + bucket_blocks f level)]"
proof -
  let ?i = "dir_block_index f level dl (unat h mod dir_buckets f level dl)"
  have "?i \<le> b" "b < ?i + bucket_blocks f level" using assms(1) by (simp_all add: bucket_def Let_def)
  moreover have "bucket_blocks f level \<le> 4" by (simp add: bucket_blocks_def)
  ultimately show ?thesis using assms(2,3) by (simp add: u32_wrap_small)
qed

text \<open>A lookup only touches the hint and the task.\<close>

definition same_tab :: "f2fs_dir \<Rightarrow> f2fs_dir \<Rightarrow> bool" where
  "same_tab dir dir' \<longleftrightarrow> i_inline dir' = i_inline dir \<and> dblk dir' = dblk dir \<and> npages dir' = npages dir \<and> i_current_depth dir' = i_current_depth dir
     \<and> i_dir_level dir' = i_dir_level dir"

lemma same_tab_in: "same_tab dir dir' \<Longrightarrow> tab_in f dir' = tab_in f dir"
  by (simp add: same_tab_def tab_in_def fun_eq_iff)

lemma find_in_level_spec:
  assumes ok: "tab_ok f lim dir" and lim: "lim \<le> 4294967292" and l: "level < i_current_depth dir"
    and r: "find_in_level f mtch bad dir level name = (de, err, dir')"
  shows "tab_ok f lim dir' \<and> same_tab dir dir' \<and> dir_task dir' = dir_task dir"
    "de = Some (b, p) \<Longrightarrow> \<not> err \<and> (\<exists>n e. tab_in f dir b p n e \<and> hash_code e = f2fs_dentry_hash name \<and> mtch n)"
    "de = None \<Longrightarrow> \<not> err \<Longrightarrow> tab_in f dir b p n e \<Longrightarrow> hash_code e = f2fs_dentry_hash name \<Longrightarrow> mtch n \<Longrightarrow> b \<notin> bucket f (i_dir_level dir) level (f2fs_dentry_hash name)"
proof -
  let ?i = "dir_block_index f level (i_dir_level dir) (unat (f2fs_dentry_hash name) mod dir_buckets f level (i_dir_level dir))"
  let ?bs = "[u32_wrap ?i..<u32_wrap (u32_wrap ?i + bucket_blocks f level)]"
  obtain room where L: "level_loop f mtch bad (f2fs_dentry_hash name) (GET_DENTRY_SLOTS f (length name)) dir ?bs False = (de, err, room)"
    and d': "dir' = (if de = None \<and> room \<and> chash dir \<noteq> f2fs_dentry_hash name then dir\<lparr>chash := f2fs_dentry_hash name, clevel := level\<rparr> else dir)"
    using r by (auto simp: find_in_level_def Let_def split: prod.splits)
  show "tab_ok f lim dir' \<and> same_tab dir dir' \<and> dir_task dir' = dir_task dir" using ok l by (auto simp: d' same_tab_def intro: tab_ok_fields)
  show "de = Some (b, p) \<Longrightarrow> \<not> err \<and> (\<exists>n e. tab_in f dir b p n e \<and> hash_code e = f2fs_dentry_hash name \<and> mtch n)"
    using level_loop_found [OF ok] L by blast
  assume a: "de = None" "\<not> err" "tab_in f dir b p n e" "hash_code e = f2fs_dentry_hash name" "mtch n"
  show "b \<notin> bucket f (i_dir_level dir) level (f2fs_dentry_hash name)"
  proof
    assume "b \<in> bucket f (i_dir_level dir) level (f2fs_dentry_hash name)"
    moreover have "b < lim" using a(3) tab_okD(1) [OF ok] by (auto simp: tab_in_def)
    ultimately have "b \<in> set ?bs" by (intro bucket_scanned [OF _ _ lim])
    moreover have "level_loop f mtch bad (f2fs_dentry_hash name) (GET_DENTRY_SLOTS f (length name)) dir ?bs False = (None, False, room)" using L a(1,2) by simp
    ultimately show False using level_loop_none [OF ok _ _ a(3,4)] a(5) by blast
  qed
qed

lemma find_levels_spec:
  assumes "tab_ok f lim dir" "lim \<le> 4294967292" "\<forall>l \<in> set ls. l < i_current_depth dir" "find_levels f mtch bad dir name ls = (de, err, dir')"
  shows "tab_ok f lim dir' \<and> same_tab dir dir' \<and> dir_task dir' = dir_task dir
    \<and> (\<forall>b p. de = Some (b, p) \<longrightarrow> \<not> err \<and> (\<exists>n e. tab_in f dir b p n e \<and> hash_code e = f2fs_dentry_hash name \<and> mtch n))
    \<and> (de = None \<longrightarrow> \<not> err \<longrightarrow> (\<forall>b p n e l. tab_in f dir b p n e \<longrightarrow> hash_code e = f2fs_dentry_hash name \<longrightarrow> mtch n
         \<longrightarrow> l \<in> set ls \<longrightarrow> b \<notin> bucket f (i_dir_level dir) l (f2fs_dentry_hash name)))"
  using assms
proof (induction ls arbitrary: dir)
  case (Cons level ls)
  obtain de1 err1 dir1 where L: "find_in_level f mtch bad dir level name = (de1, err1, dir1)" by (metis prod_cases3)
  note S = find_in_level_spec [OF Cons.prems(1,2) _ L]
  have l: "level < i_current_depth dir" using Cons.prems(3) by simp
  show ?case
  proof (cases "de1 \<noteq> None \<or> err1")
    case True
    then have "de = de1" "err = err1" "dir' = dir1" using Cons.prems(4) L by auto
    then show ?thesis using S(1,2) [OF l] True by (metis option.distinct(1))
  next
    case False
    then have n1: "de1 = None" "\<not> err1" by blast+
    then have R: "find_levels f mtch bad dir1 name ls = (de, err, dir')" using Cons.prems(4) L by simp
    have s: "same_tab dir dir1" and t: "tab_ok f lim dir1" "dir_task dir1 = dir_task dir" using S(1) [OF l] by auto
    have "\<forall>l \<in> set ls. l < i_current_depth dir1" using Cons.prems(3) s by (simp add: same_tab_def)
    note I = Cons.IH [OF t(1) Cons.prems(2) this R]
    have e: "tab_in f dir1 = tab_in f dir" "i_dir_level dir1 = i_dir_level dir" using same_tab_in [OF s] s by (simp_all add: same_tab_def)
    have "same_tab dir dir'" using I s by (simp add: same_tab_def)
    moreover have "b \<notin> bucket f (i_dir_level dir) l' (f2fs_dentry_hash name)"
      if "de = None" "\<not> err" "tab_in f dir b p n e" "hash_code e = f2fs_dentry_hash name" "mtch n" "l' \<in> set (level # ls)" for b p n e l'
      using that I S(3) [OF l n1(1,2) that(3,4,5)] unfolding e by (cases "l' = level") auto
    ultimately show ?thesis using I unfolding e by (simp add: t)
  qed
qed (simp add: same_tab_def)

subsection \<open>Getting a place\<close>

lemma zero_block_ok: "blk_ok f (zero_block f)" "starts (zero_block f) = {}" "d_max (zero_block f) = NR_DENTRY_IN_BLOCK f"
  by (simp_all add: blk_ok_def starts_def zero_block_def)

text \<open>Only blocks without entries have come.\<close>

definition grown :: "dir_fmt \<Rightarrow> nat \<Rightarrow> f2fs_dir \<Rightarrow> f2fs_dir \<Rightarrow> bool" where
  "grown f lim dir dir' \<longleftrightarrow> tab_ok f lim dir' \<and> tab_in f dir' = tab_in f dir \<and> i_inline dir' = i_inline dir \<and> i_current_depth dir' = i_current_depth dir
     \<and> i_dir_level dir' = i_dir_level dir \<and> chash dir' = chash dir \<and> clevel dir' = clevel dir \<and> dir_task dir' = dir_task dir"

lemma grown_refl: "tab_ok f lim dir \<Longrightarrow> grown f lim dir dir"
  by (simp add: grown_def)

lemma grown_trans: "grown f lim a b \<Longrightarrow> grown f lim b c \<Longrightarrow> grown f lim a c"
  by (simp add: grown_def)

lemma get_new_data_page_grown:
  assumes "tab_ok f lim dir" "b < lim"
  shows "grown f lim dir (get_new_data_page f dir b)"
proof -
  let ?d = "get_new_data_page f dir b"
  have i: "tab_in f ?d = tab_in f dir"
    by (cases "dblk dir b") (auto simp: get_new_data_page_def tab_in_def blk_in_def zero_block_ok fun_eq_iff)
  have "tab_ok f lim ?d" unfolding tab_ok_def i
    using assms unfolding tab_ok_def
    by (auto simp: get_new_data_page_def zero_block_ok less_max_iff_disj split: if_splits option.splits)
  then show ?thesis by (simp add: grown_def i) (simp add: get_new_data_page_def)
qed

text \<open>A free run of slots in a block.\<close>

definition free_place :: "dir_fmt \<Rightarrow> f2fs_dir \<Rightarrow> nat \<Rightarrow> nat \<Rightarrow> nat \<Rightarrow> bool" where
  "free_place f dir b p slots \<longleftrightarrow> (\<exists>d. dblk dir b = Some d \<and> p + slots \<le> d_max d \<and> (\<forall>i < slots. \<not> d_bitmap d (p + i)))"

lemma bucket_loop_spec:
  assumes "tab_ok f lim dir" "\<forall>b. \<not> bad b \<longrightarrow> b < lim" "0 < slots" "bucket_loop f bad slots dir bs = (r, dir')"
  shows "grown f lim dir dir' \<and> r \<noteq> Inl EAGAIN \<and> (\<forall>b p. r = Inr (Some (b, p)) \<longrightarrow> b \<in> set bs \<and> free_place f dir' b p slots)"
  using assms
proof (induction f bad slots dir bs rule: bucket_loop.induct)
  case (2 f bad slots dir b bs)
  show ?case
  proof (cases "bad b")
    case True
    then show ?thesis using 2 by (auto intro: grown_refl)
  next
    case False
    let ?d = "get_new_data_page f dir b"
    obtain d where d: "dblk ?d b = Some d" by (auto simp: get_new_data_page_def)
    let ?p = "f2fs_room_for_filename (d_bitmap d) slots (NR_DENTRY_IN_BLOCK f)"
    have g: "grown f lim dir ?d" using 2(2,3) False by (intro get_new_data_page_grown) simp_all
    then have ok: "tab_ok f lim ?d" by (simp add: grown_def)
    show ?thesis
    proof (cases "?p < NR_DENTRY_IN_BLOCK f")
      case True
      then have "r = Inr (Some (b, ?p))" "dir' = ?d" using 2(5) d False by (auto simp: Let_def)
      moreover have "free_place f ?d b ?p slots"
        using f2fs_room_for_filename_spec(1) [OF 2(4) True] d tab_okD(1) [OF ok d] unfolding free_place_def by (metis (no_types, lifting))
      ultimately show ?thesis using g by simp
    next
      case nf: False
      then have R: "bucket_loop f bad slots ?d bs = (r, dir')" using 2(5) d False by (simp add: Let_def)
      have "grown f lim ?d dir' \<and> r \<noteq> Inl EAGAIN \<and> (\<forall>b p. r = Inr (Some (b, p)) \<longrightarrow> b \<in> set bs \<and> free_place f dir' b p slots)"
        by (rule 2(1) [OF False refl refl]) (use d nf ok 2(3,4) R in auto)
      then show ?thesis using grown_trans [OF g] by auto
    qed
  qed
qed (auto intro: grown_refl)

text \<open>Going down the levels ends: the depth is limited and grows with the level.\<close>

lemma add_level_spec:
  assumes "tab_ok f lim dir" "\<forall>b. \<not> bad b \<longrightarrow> b < lim" "0 < slots" "level \<le> cd" "i_current_depth dir \<le> cd" "cd \<le> MAX_DIR_HASH_DEPTH f"
  shows "\<exists>r dir'. add_level f bad dir slots h level cd = Some (r, dir') \<and> grown f lim dir dir' \<and> r \<noteq> Inl EAGAIN
    \<and> (\<forall>b p cd'. r = Inr (b, p, cd') \<longrightarrow> cd \<le> cd' \<and> cd' \<le> MAX_DIR_HASH_DEPTH f \<and> free_place f dir' b p slots
         \<and> (\<exists>l < cd'. b \<in> bucket f (i_dir_level dir) l h))"
  using assms
proof (induction "MAX_DIR_HASH_DEPTH f - level" arbitrary: dir level cd rule: less_induct)
  case less
  note E = add_level.simps [of f bad dir slots h level cd]
  show ?case
  proof (cases "cd = MAX_DIR_HASH_DEPTH f")
    case True
    then have "add_level f bad dir slots h level cd = Some (Inl ENOSPC, dir)" unfolding E by simp
    then show ?thesis using grown_refl [OF less.prems(1)] by auto
  next
    case False
    define cd1 where "cd1 = (if level = cd then cd + 1 else cd)"
    let ?i = "dir_block_index f level (i_dir_level dir) (unat h mod dir_buckets f level (i_dir_level dir))"
    let ?bs = "[?i..<?i + bucket_blocks f level]"
    obtain r1 dir1 where L: "bucket_loop f bad slots dir ?bs = (r1, dir1)" by fastforce
    note B = bucket_loop_spec [OF less.prems(1,2,3) L]
    have cd1: "cd \<le> cd1" "level < cd1" "cd1 \<le> MAX_DIR_HASH_DEPTH f" using less.prems(4,6) False by (auto simp: cd1_def)
    have E': "add_level f bad dir slots h level cd = (case (r1, dir1) of (Inl e, dir) \<Rightarrow> Some (Inl e, dir) | (Inr (Some (b, p)), dir) \<Rightarrow> Some (Inr (b, p, cd1), dir)
        | (Inr None, dir) \<Rightarrow> add_level f bad dir slots h (level + 1) cd1)"
      unfolding E Let_def cd1_def [symmetric] using False L by simp
    show ?thesis
    proof (cases r1)
      case (Inr o1)
      show ?thesis
      proof (cases o1)
        case None
        have g: "grown f lim dir dir1" using B by blast
        have "\<exists>r dir'. add_level f bad dir1 slots h (level + 1) cd1 = Some (r, dir') \<and> grown f lim dir1 dir' \<and> r \<noteq> Inl EAGAIN
          \<and> (\<forall>b p cd'. r = Inr (b, p, cd') \<longrightarrow> cd1 \<le> cd' \<and> cd' \<le> MAX_DIR_HASH_DEPTH f \<and> free_place f dir' b p slots
               \<and> (\<exists>l < cd'. b \<in> bucket f (i_dir_level dir1) l h))"
          by (rule less.hyps) (use g cd1 less.prems(2,3,5) in \<open>auto simp: grown_def\<close>)
        then obtain r dir' where I: "add_level f bad dir1 slots h (level + 1) cd1 = Some (r, dir')" "grown f lim dir1 dir'" "r \<noteq> Inl EAGAIN"
          "\<And>b p cd'. r = Inr (b, p, cd') \<Longrightarrow> cd1 \<le> cd' \<and> cd' \<le> MAX_DIR_HASH_DEPTH f \<and> free_place f dir' b p slots \<and> (\<exists>l < cd'. b \<in> bucket f (i_dir_level dir1) l h)"
          by blast
        have "i_dir_level dir1 = i_dir_level dir" using g by (simp add: grown_def)
        moreover have "grown f lim dir dir'" by (rule grown_trans [OF g I(2)])
        moreover have "add_level f bad dir slots h level cd = Some (r, dir')" using E' I(1) Inr None by simp
        ultimately show ?thesis using I(3,4) cd1(1) by fastforce
      next
        case (Some bp)
        obtain b p where bp: "bp = (b, p)" by fastforce
        then have "b \<in> bucket f (i_dir_level dir) level h" using B Inr Some by (auto simp: bucket_def Let_def)
        then show ?thesis using B Inr Some bp cd1 E' by auto
      qed
    qed (use B E' in auto)
  qed
qed

subsection \<open>One block\<close>

lemma blk_in_update:
  fixes ino :: nat and mode :: s_ifmt and h :: u32
  assumes "blk_ok f d" "name \<noteq> []" "p + GET_DENTRY_SLOTS f (length name) \<le> d_max d" "\<forall>i < GET_DENTRY_SLOTS f (length name). \<not> d_bitmap d (p + i)"
  defines "d' \<equiv> f2fs_update_dentry f ino mode d name h p"
  shows "blk_ok f d'" "d_max d' = d_max d"
    "blk_in f d' q n e \<longleftrightarrow> blk_in f d q n e \<or> q = p \<and> n = name \<and> e = \<lparr>hash_code = h, name_len = length name, de_ino = ino, file_type = f2fs_type_by_mode mode\<rparr>"
    "blk_in f d q n e \<Longrightarrow> q \<noteq> p"
proof -
  have "0 < length name" using assms(2) by simp
  note np = f2fs_update_dentry_spec(3) [OF assms(1) this assms(3)]
    and U = f2fs_update_dentry_spec(1,2,4-7) [OF assms(1) this assms(3), where ino = ino and mode = mode and h = h, folded d'_def]
  show "blk_ok f d'" "d_max d' = d_max d" using U(1,4) assms(4) by blast+
  have st: "starts d' = insert p (starts d)" "p \<notin> starts d" "name_at f d' p = name"
    "d_dentry d' p = \<lparr>hash_code = h, name_len = length name, de_ino = ino, file_type = f2fs_type_by_mode mode\<rparr>"
    and k: "\<And>q. q \<in> starts d \<Longrightarrow> d_dentry d' q = d_dentry d q \<and> name_at f d' q = name_at f d q" using U(2,3,5,6) np assms(4) by blast+
  show "blk_in f d' q n e \<longleftrightarrow> blk_in f d q n e \<or> q = p \<and> n = name \<and> e = \<lparr>hash_code = h, name_len = length name, de_ino = ino, file_type = f2fs_type_by_mode mode\<rparr>"
    using st k unfolding blk_in_def by auto
  show "blk_in f d q n e \<Longrightarrow> q \<noteq> p" using st(2) by (auto simp: blk_in_def)
qed

lemma blk_in_delete:
  assumes "blk_ok f d" "blk_in f d p n' e'"
  shows "blk_ok f (delete_slots f d p)" "d_max (delete_slots f d p) = d_max d" "blk_in f (delete_slots f d p) q n e \<longleftrightarrow> blk_in f d q n e \<and> q \<noteq> p"
  using delete_slots_spec [OF assms(1), of p] assms(2) by (auto simp: blk_in_def)

text \<open>Replacing number and type of an entry.\<close>

lemma blk_in_set:
  fixes ino :: nat and mode :: s_ifmt
  assumes "blk_ok f d" "blk_in f d p name e0"
  defines "d' \<equiv> d\<lparr>d_dentry := (d_dentry d)(p := set_de_type ((d_dentry d p)\<lparr>de_ino := ino\<rparr>) mode)\<rparr>"
  shows "blk_ok f d'" "d_max d' = d_max d"
    "blk_in f d' q n e \<longleftrightarrow> (if q = p then n = name \<and> e = e0\<lparr>de_ino := ino, file_type := f2fs_type_by_mode mode\<rparr> else blk_in f d q n e)"
proof -
  have l: "name_len (d_dentry d' q) = name_len (d_dentry d q)" for q by (simp add: d'_def set_de_type_def)
  have st: "starts d' = starts d" unfolding starts_def l by (simp add: d'_def)
  have n: "name_at f d' q = name_at f d q" for q unfolding name_at_def l by (simp add: d'_def)
  show "blk_ok f d'" using assms(1) unfolding blk_ok_def st l by (simp add: d'_def)
  show "d_max d' = d_max d" by (simp add: d'_def)
  show "blk_in f d' q n e \<longleftrightarrow> (if q = p then n = name \<and> e = e0\<lparr>de_ino := ino, file_type := f2fs_type_by_mode mode\<rparr> else blk_in f d q n e)"
    using assms(2) unfolding blk_in_def st n by (auto simp: d'_def set_de_type_def)
qed

subsection \<open>Adding an entry\<close>

lemma put_entry_spec:
  fixes ino :: nat and mode :: s_ifmt
  assumes ok: "tab_ok f lim dir" and place: "free_place f dir b p (GET_DENTRY_SLOTS f (length name))" and name: "name \<noteq> []" and new: "tlook f dir name = {}"
    and at: "l < cd" "b \<in> bucket f (i_dir_level dir) l (f2fs_dentry_hash name)" and cd: "i_current_depth dir \<le> cd" "cd \<le> MAX_DIR_HASH_DEPTH f"
  defines "dir' \<equiv> (put_entry f dir b p name ino mode)\<lparr>i_current_depth := cd\<rparr>"
  shows "tab_ok f lim dir' \<and> tlook f dir' = (tlook f dir)(name := {(ino, f2fs_type_by_mode mode)})"
proof -
  obtain d where d: "dblk dir b = Some d" and room: "p + GET_DENTRY_SLOTS f (length name) \<le> d_max d" "\<forall>i < GET_DENTRY_SLOTS f (length name). \<not> d_bitmap d (p + i)"
    using place by (auto simp: free_place_def)
  define d' where "d' = f2fs_update_dentry f ino mode d name (f2fs_dentry_hash name) p"
  define e0 where "e0 = \<lparr>hash_code = f2fs_dentry_hash name, name_len = length name, de_ino = ino, file_type = f2fs_type_by_mode mode\<rparr>"
  have dok: "blk_ok f d" using tab_okD(1) [OF ok d] by blast
  note U = blk_in_update(1-3) [OF dok name room, where ino = ino and mode = mode and h = "f2fs_dentry_hash name", folded d'_def e0_def]
    and U4 = blk_in_update(4) [OF dok name room]
  have D: "dir' = dir\<lparr>dblk := (dblk dir)(b \<mapsto> d'), i_current_depth := cd\<rparr>" by (simp add: dir'_def put_entry_def d d'_def)
  have T: "tab_in f dir' b' p' n e \<longleftrightarrow> tab_in f dir b' p' n e \<or> b' = b \<and> p' = p \<and> n = name \<and> e = e0" for b' p' n e
    using d by (auto simp: D tab_in_def U(3))
  have no: "\<not> tab_in f dir b' p' name e" for b' p' e using new by (simp add: tlook_empty)
  have np: "\<not> tab_in f dir b p n e" for n e using U4 d by (auto simp: tab_in_def)
  have "tab_ok f lim dir'" unfolding tab_ok_def
  proof (intro conjI allI impI)
    fix b' d1 assume "dblk dir' b' = Some d1"
    then have "blk_ok f d1 \<and> d_max d1 = NR_DENTRY_IN_BLOCK f \<and> b' < lim \<and> b' < npages dir"
      using tab_okD(1) [OF ok, of b' d1] tab_okD(1) [OF ok d] U(1,2) by (auto simp: D split: if_splits)
    then show "blk_ok f d1" "d_max d1 = NR_DENTRY_IN_BLOCK f" "b' < lim" "b' < npages dir'" by (simp_all add: D)
  next
    fix b' p' n e assume "tab_in f dir' b' p' n e"
    then consider "tab_in f dir b' p' n e" | "b' = b" "n = name" "e = e0" using T by blast
    then have "hash_code e = f2fs_dentry_hash n \<and> (\<exists>l < cd. b' \<in> bucket f (i_dir_level dir) l (f2fs_dentry_hash n))"
    proof cases
      case 1
      then show ?thesis using tab_okD(2,3) [OF ok 1] cd(1) by (meson less_le_trans)
    qed (use at in \<open>auto simp: e0_def\<close>)
    then show "hash_code e = f2fs_dentry_hash n" "\<exists>l < i_current_depth dir'. b' \<in> bucket f (i_dir_level dir') l (f2fs_dentry_hash n)" by (simp_all add: D)
  next
    fix b1 p1 n e1 b2 p2 e2 assume "tab_in f dir' b1 p1 n e1" "tab_in f dir' b2 p2 n e2"
    then show "b1 = b2" "p1 = p2" unfolding T using tab_okD(4) [OF ok, of b1 p1 n e1 b2 p2 e2] no by blast+
  qed (use cd tab_okD(6) [OF ok] in \<open>simp_all add: D\<close>)
  moreover have "tlook f dir' n = ((tlook f dir)(name := {(ino, f2fs_type_by_mode mode)})) n" for n
    using no by (auto simp: tlook_def T e0_def)
  ultimately show ?thesis by blast
qed

lemma f2fs_add_regular_entry_spec:
  assumes ok: "tab_ok f lim dir" and bad: "\<forall>b. \<not> bad b \<longrightarrow> b < lim" and name: "name \<noteq> []" and new: "tlook f dir name = {}"
  shows "\<exists>err dir'. f2fs_add_regular_entry f bad dir name ino mode meta = Some (err, dir') \<and> tab_ok f lim dir'
    \<and> tlook f dir' = (if err = None then (tlook f dir)(name := {(ino, f2fs_type_by_mode mode)}) else tlook f dir)
    \<and> i_inline dir' = i_inline dir \<and> i_dir_level dir' = i_dir_level dir \<and> clevel dir' = clevel dir \<and> dir_task dir' = dir_task dir \<and> err \<noteq> Some EAGAIN"
proof -
  let ?h = "f2fs_dentry_hash name" and ?s = "GET_DENTRY_SLOTS f (length name)"
  define level where "level = (if chash dir = ?h then clevel dir else 0)"
  define dir0 where "dir0 = (if chash dir = ?h then dir\<lparr>chash := 0\<rparr> else dir)"
  have s: "0 < ?s" using name by (intro slots_pos) simp
  have ok0: "tab_ok f lim dir0" using ok by (simp add: dir0_def tab_ok_fields)
  have f0: "tab_in f dir0 = tab_in f dir" "i_inline dir0 = i_inline dir" "i_dir_level dir0 = i_dir_level dir" "clevel dir0 = clevel dir" "dir_task dir0 = dir_task dir"
    "i_current_depth dir0 = i_current_depth dir" by (simp_all add: dir0_def)
  have "level \<le> i_current_depth dir0" using tab_okD(6) [OF ok] by (simp add: level_def f0)
  then obtain r dir1 where A: "add_level f bad dir0 ?s ?h level (i_current_depth dir0) = Some (r, dir1)" and g: "grown f lim dir0 dir1" and ne: "r \<noteq> Inl EAGAIN"
    and P: "\<And>b p cd. r = Inr (b, p, cd) \<Longrightarrow> i_current_depth dir0 \<le> cd \<and> cd \<le> MAX_DIR_HASH_DEPTH f \<and> free_place f dir1 b p ?s \<and> (\<exists>l < cd. b \<in> bucket f (i_dir_level dir0) l ?h)"
    using add_level_spec [OF ok0 bad s _ order_refl tab_okD(5) [OF ok0]] by blast
  have look1: "tlook f dir1 = tlook f dir" using tlook_cong [of f dir1 dir] g f0(1) by (simp add: grown_def)
  have g': "tab_ok f lim dir1" "i_inline dir1 = i_inline dir" "i_dir_level dir1 = i_dir_level dir" "clevel dir1 = clevel dir" "dir_task dir1 = dir_task dir"
    "i_current_depth dir1 = i_current_depth dir0" using g f0 by (simp_all add: grown_def)
  have R: "f2fs_add_regular_entry f bad dir name ino mode meta = (case (r, dir1) of (Inl e, dir) \<Rightarrow> Some (Some e, dir)
      | (Inr (b, p, cd), dir) \<Rightarrow> if meta then Some (Some EMETA, dir) else Some (None, (put_entry f dir b p name ino mode)\<lparr>i_current_depth := cd\<rparr>))"
    using A by (simp add: f2fs_add_regular_entry_def level_def dir0_def Let_def split: if_splits)
  show ?thesis
  proof (cases r)
    case (Inr bpc)
    obtain b p cd where bpc: "bpc = (b, p, cd)" by (metis prod_cases3)
    obtain l where l: "l < cd" "b \<in> bucket f (i_dir_level dir1) l ?h" and pl: "i_current_depth dir1 \<le> cd" "cd \<le> MAX_DIR_HASH_DEPTH f" "free_place f dir1 b p ?s"
      using P Inr bpc g'(3,6) f0(3) by auto
    note Q = put_entry_spec [OF g'(1) pl(3) name _ l pl(1,2), where ino = ino and mode = mode]
    have "i_inline (put_entry f dir1 b p name ino mode) = i_inline dir" "i_dir_level (put_entry f dir1 b p name ino mode) = i_dir_level dir"
      "clevel (put_entry f dir1 b p name ino mode) = clevel dir" "dir_task (put_entry f dir1 b p name ino mode) = dir_task dir"
      using g' by (simp_all add: put_entry_def split: option.split)
    then show ?thesis using R Inr bpc Q new look1 g' by (cases meta) simp_all
  qed (use R look1 g' ne in auto)
qed

end
