(* ===== verification/Dir_Map.thy ===== *)
theory Dir_Map
  imports Dir_Table Backed_Map
begin

text \<open>
  A directory as a map from names to inode numbers and types, whether its entries are in the inode or in the hash table: each operation of \<open>src/dir.c\<close> and
  \<open>src/inline.c\<close> keeps the invariant and changes the map at the name it is given only, also when a page cannot be read, the new inode cannot be written or the inline
  entries have to be moved out first.
\<close>

subsection \<open>Entries and the invariant\<close>

definition in_ok :: "dir_fmt \<Rightarrow> f2fs_dentry_ptr \<Rightarrow> bool" where
  "in_ok f d \<longleftrightarrow> blk_ok f d \<and> d_max d \<le> NR_DENTRY_IN_BLOCK f \<and> (\<forall>p n e. blk_in f d p n e \<longrightarrow> hash_code e = f2fs_dentry_hash n \<and> file_type e \<noteq> FT_BAD)
     \<and> (\<forall>p n e p' e'. blk_in f d p n e \<longrightarrow> blk_in f d p' n e' \<longrightarrow> p = p')"

lemma in_okD:
  assumes "in_ok f d"
  shows "blk_ok f d" "blk_in f d p n e \<Longrightarrow> hash_code e = f2fs_dentry_hash n" "blk_in f d p n e \<Longrightarrow> blk_in f d p' n e' \<Longrightarrow> p = p'" "d_max d \<le> NR_DENTRY_IN_BLOCK f"
  using assms unfolding in_ok_def by blast+

definition ilook :: "dir_fmt \<Rightarrow> f2fs_dentry_ptr \<Rightarrow> fname \<Rightarrow> (nat \<times> f2fs_ft) set" where
  "ilook f d n = {(de_ino e, file_type e) |p e. blk_in f d p n e}"

definition dir_in :: "dir_fmt \<Rightarrow> f2fs_dir \<Rightarrow> dloc \<Rightarrow> fname \<Rightarrow> f2fs_dir_entry \<Rightarrow> bool" where
  "dir_in f dir loc n e =
     (case loc of Inline_At p \<Rightarrow> (case i_inline dir of None \<Rightarrow> False | Some d \<Rightarrow> blk_in f d p n e)
      | Block_At b p \<Rightarrow> i_inline dir = None \<and> tab_in f dir b p n e)"

definition dir_ok :: "dir_fmt \<Rightarrow> nat \<Rightarrow> f2fs_dir \<Rightarrow> bool" where
  "dir_ok f lim dir \<longleftrightarrow> tab_ok f lim dir \<and> (\<forall>d. i_inline dir = Some d \<longrightarrow> in_ok f d \<and> dblk dir = Map.empty \<and> clevel dir = 0)"

definition dir_look :: "dir_fmt \<Rightarrow> f2fs_dir \<Rightarrow> fname \<Rightarrow> (nat \<times> f2fs_ft) set" where
  "dir_look f dir n = (case i_inline dir of None \<Rightarrow> tlook f dir n | Some d \<Rightarrow> ilook f d n)"

lemma dir_look_None: "i_inline dir = None \<Longrightarrow> dir_look f dir = tlook f dir"
  and dir_look_Some: "i_inline dir = Some d \<Longrightarrow> dir_look f dir = ilook f d"
  by (simp_all add: dir_look_def fun_eq_iff)

lemma dir_look_in: "dir_look f dir n = {(de_ino e, file_type e) |loc e. dir_in f dir loc n e}"
proof (cases "i_inline dir")
  case None
  then have "dir_in f dir loc n e \<longleftrightarrow> (\<exists>b p. loc = Block_At b p \<and> tab_in f dir b p n e)" for loc e by (auto simp: dir_in_def split: dloc.splits)
  then show ?thesis by (auto simp: dir_look_None [OF None] tlook_def)
next
  case (Some d)
  then have "dir_in f dir loc n e \<longleftrightarrow> (\<exists>p. loc = Inline_At p \<and> blk_in f d p n e)" for loc e by (auto simp: dir_in_def split: dloc.splits)
  then show ?thesis by (auto simp: dir_look_Some [OF Some] ilook_def)
qed

lemma blk_in_name: "blk_in f d p n e \<Longrightarrow> n \<noteq> []"
  by (auto simp: blk_in_def starts_def name_at_def)

lemma dir_in_unique:
  assumes "dir_ok f lim dir" "dir_in f dir loc n e" "dir_in f dir loc' n e'"
  shows "loc' = loc \<and> e' = e"
proof (cases "i_inline dir")
  case None
  then obtain b p b' p' where l: "loc = Block_At b p" "loc' = Block_At b' p'" "tab_in f dir b p n e" "tab_in f dir b' p' n e'"
    using assms(2,3) by (cases loc; cases loc') (auto simp: dir_in_def)
  have "tab_ok f lim dir" using assms(1) by (simp add: dir_ok_def)
  then have "b = b' \<and> p = p'" using tab_okD(4) l(3,4) by blast
  then show ?thesis using l tab_in_det [of f dir b p n e n e'] by simp
next
  case (Some d)
  then obtain p p' where l: "loc = Inline_At p" "loc' = Inline_At p'" "blk_in f d p n e" "blk_in f d p' n e'"
    using assms(2,3) by (cases loc; cases loc') (auto simp: dir_in_def)
  have "in_ok f d" using assms(1) Some by (simp add: dir_ok_def)
  then have "p = p'" using l(3,4) unfolding in_ok_def by blast
  then show ?thesis using l by (auto simp: blk_in_def)
qed

lemma dir_look_single: "dir_ok f lim dir \<Longrightarrow> dir_in f dir loc n e \<Longrightarrow> dir_look f dir n = {(de_ino e, file_type e)}"
  unfolding dir_look_in using dir_in_unique by blast

lemma same_tab_dir:
  assumes "same_tab dir dir'"
  shows "dir_in f dir' = dir_in f dir" "dir_look f dir' = dir_look f dir"
proof -
  show i: "dir_in f dir' = dir_in f dir" using assms same_tab_in [OF assms, of f] by (simp add: dir_in_def fun_eq_iff same_tab_def split: dloc.split)
  show "dir_look f dir' = dir_look f dir" unfolding fun_eq_iff dir_look_in i by simp
qed

lemma type_not_bad [simp]: "f2fs_type_by_mode m \<noteq> FT_BAD"
  by (cases m) simp_all

subsection \<open>Looking up\<close>

lemma f2fs_find_entry_spec:
  assumes ok: "dir_ok f lim dir" and lim: "lim \<le> 4294967292" and mt: "\<And>n m. mt n m \<longleftrightarrow> n = m"
    and r: "f2fs_find_entry f mt bad cur dir name = (de, err, dir')"
  shows "dir_ok f lim dir'" "same_tab dir dir'" "dir_task dir' = (if de = None then Some cur else dir_task dir)"
    "de = Some loc \<Longrightarrow> \<exists>e. dir_in f dir loc name e" "de = None \<Longrightarrow> \<not> err \<Longrightarrow> dir_look f dir name = {}" "de \<noteq> None \<Longrightarrow> \<not> err"
proof -
  have tok: "tab_ok f lim dir" using ok by (simp add: dir_ok_def)
  have "dir_ok f lim dir' \<and> same_tab dir dir' \<and> dir_task dir' = (if de = None then Some cur else dir_task dir)
    \<and> (\<forall>loc. de = Some loc \<longrightarrow> \<not> err \<and> (\<exists>e. dir_in f dir loc name e)) \<and> (de = None \<longrightarrow> \<not> err \<longrightarrow> dir_look f dir name = {})"
  proof (cases "i_inline dir")
    case (Some d)
    let ?r = "fst (f2fs_find_target_dentry f (mt name) (f2fs_dentry_hash name) d)"
    have iok: "in_ok f d" using ok Some by (simp add: dir_ok_def)
    then have bok: "blk_ok f d" and h: "\<And>p n e. blk_in f d p n e \<Longrightarrow> hash_code e = f2fs_dentry_hash n" by (auto simp: in_ok_def)
    have R: "de = map_option Inline_At ?r" "\<not> err" "dir' = (if de = None then dir\<lparr>dir_task := Some cur\<rparr> else dir)"
      using r Some by (auto simp: f2fs_find_entry_def f2fs_find_in_inline_dir_def Let_def)
    have "\<exists>e. dir_in f dir loc name e" if de: "de = Some loc" for loc
    proof -
      obtain p where p: "?r = Some p" "loc = Inline_At p" using de R(1) by auto
      then show ?thesis using f2fs_find_target_dentry_spec(2) [OF bok p(1)] Some by (simp add: dir_in_def blk_in_def mt)
    qed
    moreover have "dir_look f dir name = {}" if "de = None"
    proof -
      have "?r = None" using that R(1) by simp
      then have "\<not> blk_in f d p name e" for p e
        unfolding f2fs_find_target_dentry_spec(1) [OF bok] mt using h [of p name e] by (auto simp: blk_in_def)
      then show ?thesis by (simp add: dir_look_Some [OF Some] ilook_def)
    qed
    moreover have "dir_ok f lim dir'" "same_tab dir dir'" "dir_task dir' = (if de = None then Some cur else dir_task dir)"
      using ok Some R(3) by (simp_all add: dir_ok_def same_tab_def tab_ok_fields)
    ultimately show ?thesis using R(2) by blast
  next
    case None
    note L = dir_look_None [OF None, of f]
    show ?thesis
    proof (cases "npages dir = 0")
      case True
      then have R: "de = None" "dir' = dir\<lparr>dir_task := Some cur\<rparr>" using r None by (simp_all add: f2fs_find_entry_def)
      have "\<not> tab_in f dir b p name e" for b p e using tab_okD(1) [OF tok] True by (auto simp: tab_in_def)
      then show ?thesis using ok R by (simp add: L tlook_empty dir_ok_def same_tab_def tab_ok_fields)
    next
      case False
      obtain q e dir1 where F: "find_levels f (mt name) bad dir name [0..<i_current_depth dir] = (q, e, dir1)" by (metis prod_cases3)
      have R: "de = map_option (\<lambda>(b, p). Block_At b p) q" "err = e" "dir' = (if de = None then dir1\<lparr>dir_task := Some cur\<rparr> else dir1)"
        using r None False F tab_okD(5) [OF tok] by (auto simp: f2fs_find_entry_def Let_def)
      note S = find_levels_spec [OF tok lim _ F]
      have S1: "tab_ok f lim dir1" "same_tab dir dir1" "dir_task dir1 = dir_task dir"
        and S2: "\<And>b p. q = Some (b, p) \<Longrightarrow> \<not> e \<and> (\<exists>n x. tab_in f dir b p n x \<and> hash_code x = f2fs_dentry_hash name \<and> mt name n)"
        and S3: "\<And>b p n x l. q = None \<Longrightarrow> \<not> e \<Longrightarrow> tab_in f dir b p n x \<Longrightarrow> hash_code x = f2fs_dentry_hash name \<Longrightarrow> mt name n \<Longrightarrow> l < i_current_depth dir
          \<Longrightarrow> b \<notin> bucket f (i_dir_level dir) l (f2fs_dentry_hash name)"
        using S by auto
      have "\<not> err \<and> (\<exists>x. dir_in f dir loc name x)" if de: "de = Some loc" for loc
      proof -
        obtain b p where bp: "q = Some (b, p)" "loc = Block_At b p" using de R(1) by auto
        then show ?thesis using S2 [OF bp(1)] None R(2) by (auto simp: dir_in_def mt)
      qed
      moreover have "dir_look f dir name = {}" if n: "de = None" "\<not> err"
      proof -
        have q: "q = None" "\<not> e" using n R(1,2) by auto
        have "\<not> tab_in f dir b p name x" for b p x
        proof
          assume t: "tab_in f dir b p name x"
          then show False using tab_okD(2,3) [OF tok t] S3 [OF q t] by (auto simp: mt)
        qed
        then show ?thesis by (simp add: L tlook_empty)
      qed
      moreover have "i_inline dir1 = None" using S1(2) None by (simp add: same_tab_def)
      then have "dir_ok f lim dir'" "same_tab dir dir'" "dir_task dir' = (if de = None then Some cur else dir_task dir)"
        using S1 R(3) by (simp_all add: dir_ok_def same_tab_def tab_ok_fields)
      ultimately show ?thesis by blast
    qed
  qed
  then show "dir_ok f lim dir'" "same_tab dir dir'" "dir_task dir' = (if de = None then Some cur else dir_task dir)"
    "de = Some loc \<Longrightarrow> \<exists>e. dir_in f dir loc name e" "de = None \<Longrightarrow> \<not> err \<Longrightarrow> dir_look f dir name = {}" "de \<noteq> None \<Longrightarrow> \<not> err" by auto
qed

subsection \<open>Removing and replacing\<close>

text \<open>A table that has lost an entry.\<close>

lemma tab_ok_fewer:
  assumes ok: "tab_ok f lim dir" and blk: "\<And>b d. m b = Some d \<Longrightarrow> blk_ok f d \<and> d_max d = NR_DENTRY_IN_BLOCK f \<and> b < lim \<and> b < npages dir"
    and sub: "\<And>b p n e. tab_in f (dir\<lparr>dblk := m\<rparr>) b p n e \<Longrightarrow> \<exists>e'. tab_in f dir b p n e' \<and> hash_code e = hash_code e'"
  shows "tab_ok f lim (dir\<lparr>dblk := m\<rparr>)"
  unfolding tab_ok_def
proof (intro conjI allI impI)
  fix b p n e assume "tab_in f (dir\<lparr>dblk := m\<rparr>) b p n e"
  then obtain e' where e': "tab_in f dir b p n e'" "hash_code e = hash_code e'" using sub by blast
  then show "hash_code e = f2fs_dentry_hash n" "\<exists>l < i_current_depth (dir\<lparr>dblk := m\<rparr>). b \<in> bucket f (i_dir_level (dir\<lparr>dblk := m\<rparr>)) l (f2fs_dentry_hash n)"
    using tab_okD(2,3) [OF ok e'(1)] by simp_all
next
  fix b p n e b' p' e' assume "tab_in f (dir\<lparr>dblk := m\<rparr>) b p n e" "tab_in f (dir\<lparr>dblk := m\<rparr>) b' p' n e'"
  then obtain e1 e2 where "tab_in f dir b p n e1" "tab_in f dir b' p' n e2" using sub by meson
  then show "b = b'" "p = p'" using tab_okD(4) [OF ok] by blast+
qed (use blk tab_okD(5,6) [OF ok] in simp_all)

lemma tab_delete:
  assumes ok: "tab_ok f lim dir" and e: "tab_in f dir b p name e" and inl: "i_inline dir = None"
  shows "tab_ok f lim (f2fs_delete_entry f dir (Block_At b p) trunc) \<and> tlook f (f2fs_delete_entry f dir (Block_At b p) trunc) = (tlook f dir)(name := {})"
proof -
  obtain d where d: "dblk dir b = Some d" "blk_in f d p name e" using e by (auto simp: tab_in_def)
  have bok: "blk_ok f d" and mx: "d_max d = NR_DENTRY_IN_BLOCK f" and lt: "b < lim" "b < npages dir" using tab_okD(1) [OF ok d(1)] by auto
  let ?d = "delete_slots f d p"
  note D = blk_in_delete [OF bok d(2)]
  define m where "m = (dblk dir)(b := if find_next_bit (d_bitmap ?d) (NR_DENTRY_IN_BLOCK f) 0 = NR_DENTRY_IN_BLOCK f \<and> \<not> trunc then None else Some ?d)"
  have R: "f2fs_delete_entry f dir (Block_At b p) trunc = dir\<lparr>dblk := m\<rparr>" by (simp add: f2fs_delete_entry_def d(1) Let_def m_def)
  have T: "tab_in f (dir\<lparr>dblk := m\<rparr>) b' p' n x \<longleftrightarrow> tab_in f dir b' p' n x \<and> (b' \<noteq> b \<or> p' \<noteq> p)" for b' p' n x
  proof (cases "b' = b")
    case True
    show ?thesis
    proof (cases "find_next_bit (d_bitmap ?d) (NR_DENTRY_IN_BLOCK f) 0 = NR_DENTRY_IN_BLOCK f \<and> \<not> trunc")
      case c: True
      then have "starts ?d = {}" using blk_empty [OF D(1)] mx D(2) by simp
      then have "\<not> blk_in f ?d p' n x" by (simp add: blk_in_def)
      then show ?thesis using True c d(1) D(3) by (auto simp: tab_in_def m_def)
    qed (use True d(1) D(3) in \<open>auto simp: tab_in_def m_def\<close>)
  qed (simp add: tab_in_def m_def)
  have "tab_ok f lim (dir\<lparr>dblk := m\<rparr>)"
  proof (rule tab_ok_fewer [OF ok])
    fix b' d' assume "m b' = Some d'"
    then show "blk_ok f d' \<and> d_max d' = NR_DENTRY_IN_BLOCK f \<and> b' < lim \<and> b' < npages dir"
      using tab_okD(1) [OF ok, of b' d'] D(1,2) mx lt by (auto simp: m_def split: if_splits)
  qed (use T in blast)
  moreover have "tlook f (dir\<lparr>dblk := m\<rparr>) n = ((tlook f dir)(name := {})) n" for n
  proof (cases "n = name")
    case True
    then show ?thesis using tab_okD(4) [OF ok e] by (auto simp: tlook_empty T)
  next
    case False
    then have "tab_in f (dir\<lparr>dblk := m\<rparr>) b' p' n x \<longleftrightarrow> tab_in f dir b' p' n x" for b' p' x using T tab_in_det [OF e] by blast
    then show ?thesis using False by (simp add: tlook_def)
  qed
  ultimately show ?thesis unfolding R by blast
qed

lemma in_delete:
  assumes ok: "in_ok f d" and e: "blk_in f d p name e"
  shows "in_ok f (delete_slots f d p) \<and> ilook f (delete_slots f d p) = (ilook f d)(name := {})"
proof -
  have "blk_ok f d" using ok by (simp add: in_ok_def)
  note D = blk_in_delete [OF this e]
  have u: "q = p" if "blk_in f d q name x" for q x using ok e that unfolding in_ok_def by blast
  have det: "n = name" if "blk_in f d p n x" for n x using e that by (simp add: blk_in_def)
  have "in_ok f (delete_slots f d p)" using ok D(1) unfolding in_ok_def D(2,3) by blast
  moreover have "blk_in f (delete_slots f d p) q n x \<longleftrightarrow> n \<noteq> name \<and> blk_in f d q n x" for q n x unfolding D(3) using u det by blast
  then have "ilook f (delete_slots f d p) n = ((ilook f d)(name := {})) n" for n by (simp add: ilook_def)
  ultimately show ?thesis by blast
qed

lemma f2fs_delete_entry_spec:
  assumes ok: "dir_ok f lim dir" and e: "dir_in f dir loc name e"
  shows "dir_ok f lim (f2fs_delete_entry f dir loc trunc) \<and> dir_look f (f2fs_delete_entry f dir loc trunc) = (dir_look f dir)(name := {})
    \<and> dir_task (f2fs_delete_entry f dir loc trunc) = dir_task dir"
proof (cases loc)
  case (Inline_At p)
  then obtain d where d: "i_inline dir = Some d" "blk_in f d p name e" using e by (auto simp: dir_in_def split: option.splits)
  let ?dir = "dir\<lparr>i_inline := Some (delete_slots f d p)\<rparr>"
  have "f2fs_delete_entry f dir loc trunc = ?dir" using Inline_At d(1) by (simp add: f2fs_delete_entry_def)
  moreover have "in_ok f d" using ok d(1) by (simp add: dir_ok_def)
  moreover have "dir_ok f lim ?dir" using ok d(1) in_delete [OF calculation(2) d(2)] by (simp add: dir_ok_def tab_ok_fields)
  moreover have "dir_look f ?dir = (dir_look f dir)(name := {})"
    using in_delete [OF calculation(2) d(2)] by (simp add: dir_look_Some [of ?dir] dir_look_Some [OF d(1)])
  ultimately show ?thesis by simp
next
  case (Block_At b p)
  then have i: "i_inline dir = None" and t: "tab_in f dir b p name e" using e by (auto simp: dir_in_def)
  have "tab_ok f lim dir" using ok by (simp add: dir_ok_def)
  note T = tab_delete [OF this t i, of trunc]
  have "i_inline (f2fs_delete_entry f dir loc trunc) = None" "dir_task (f2fs_delete_entry f dir loc trunc) = dir_task dir"
    using i Block_At by (simp_all add: f2fs_delete_entry_def Let_def split: option.split)
  then show ?thesis using T Block_At dir_look_None i by (simp add: dir_ok_def)
qed

lemma f2fs_set_link_spec:
  assumes ok: "dir_ok f lim dir" and e: "dir_in f dir loc name e"
  shows "dir_ok f lim (f2fs_set_link dir loc ino mode) \<and> dir_look f (f2fs_set_link dir loc ino mode) = (dir_look f dir)(name := {(ino, f2fs_type_by_mode mode)})
    \<and> dir_task (f2fs_set_link dir loc ino mode) = dir_task dir"
proof (cases loc)
  case (Inline_At p)
  then obtain d where d: "i_inline dir = Some d" "blk_in f d p name e" using e by (auto simp: dir_in_def split: option.splits)
  have iok: "in_ok f d" using ok d(1) by (simp add: dir_ok_def)
  then have bok: "blk_ok f d" by (simp add: in_ok_def)
  define d' where "d' = d\<lparr>d_dentry := (d_dentry d)(p := set_de_type ((d_dentry d p)\<lparr>de_ino := ino\<rparr>) mode)\<rparr>"
  let ?dir = "dir\<lparr>i_inline := Some d'\<rparr>"
  note U = blk_in_set [OF bok d(2), where ino = ino and mode = mode, folded d'_def]
  have u: "q = p" if "blk_in f d q name x" for q x using iok d(2) that unfolding in_ok_def by blast
  have det: "n = name" if "blk_in f d p n x" for n x using d(2) that by (simp add: blk_in_def)
  have sub: "\<exists>e'. blk_in f d q n e' \<and> hash_code x = hash_code e' \<and> (file_type x = file_type e' \<or> file_type x = f2fs_type_by_mode mode)" if "blk_in f d' q n x" for q n x
    using that d(2) unfolding U(3) by (cases "q = p") auto
  have "in_ok f d'" unfolding in_ok_def
  proof (intro conjI allI impI)
    fix q n x assume "blk_in f d' q n x"
    then obtain e' where "blk_in f d q n e'" "hash_code x = hash_code e'" "file_type x = file_type e' \<or> file_type x = f2fs_type_by_mode mode" using sub by blast
    then show "hash_code x = f2fs_dentry_hash n" "file_type x \<noteq> FT_BAD" using iok unfolding in_ok_def by auto
  next
    fix q n x q' x' assume "blk_in f d' q n x" "blk_in f d' q' n x'"
    then show "q = q'" using sub iok unfolding in_ok_def by meson
  qed (use U(1,2) iok in \<open>auto simp: in_ok_def\<close>)
  then have "dir_ok f lim ?dir" using ok d(1) by (simp add: dir_ok_def tab_ok_fields)
  moreover have "blk_in f d' q n x \<longleftrightarrow> (if n = name then q = p \<and> x = e\<lparr>de_ino := ino, file_type := f2fs_type_by_mode mode\<rparr> else blk_in f d q n x)" for q n x
    unfolding U(3) using u [of q x] det [of n x] by metis
  then have "ilook f d' n = ((ilook f d)(name := {(ino, f2fs_type_by_mode mode)})) n" for n by (simp add: ilook_def)
  then have "dir_look f ?dir = (dir_look f dir)(name := {(ino, f2fs_type_by_mode mode)})" by (simp add: dir_look_Some [of ?dir] dir_look_Some [OF d(1)] fun_eq_iff)
  moreover have "f2fs_set_link dir loc ino mode = ?dir" using Inline_At d(1) by (simp add: f2fs_set_link_def d'_def Let_def)
  ultimately show ?thesis by simp
next
  case (Block_At b p)
  then have i: "i_inline dir = None" and t: "tab_in f dir b p name e" using e by (auto simp: dir_in_def)
  have tok: "tab_ok f lim dir" using ok by (simp add: dir_ok_def)
  obtain d where d: "dblk dir b = Some d" "blk_in f d p name e" using t by (auto simp: tab_in_def)
  have bok: "blk_ok f d" using tab_okD(1) [OF tok d(1)] by blast
  define d' where "d' = d\<lparr>d_dentry := (d_dentry d)(p := set_de_type ((d_dentry d p)\<lparr>de_ino := ino\<rparr>) mode)\<rparr>"
  let ?dir = "dir\<lparr>dblk := (dblk dir)(b \<mapsto> d')\<rparr>"
  note U = blk_in_set [OF bok d(2), where ino = ino and mode = mode, folded d'_def]
  have T: "tab_in f ?dir b' p' n x \<longleftrightarrow> (if b' = b \<and> p' = p then n = name \<and> x = e\<lparr>de_ino := ino, file_type := f2fs_type_by_mode mode\<rparr> else tab_in f dir b' p' n x)" for b' p' n x
    using d(1) by (auto simp: tab_in_def U(3))
  have "tab_ok f lim ?dir"
  proof (rule tab_ok_fewer [OF tok])
    fix b' d1 assume "((dblk dir)(b \<mapsto> d')) b' = Some d1"
    then show "blk_ok f d1 \<and> d_max d1 = NR_DENTRY_IN_BLOCK f \<and> b' < lim \<and> b' < npages dir"
      using tab_okD(1) [OF tok, of b' d1] tab_okD(1) [OF tok d(1)] U(1,2) by (auto split: if_splits)
  next
    fix b' p' n x assume "tab_in f ?dir b' p' n x"
    then show "\<exists>e'. tab_in f dir b' p' n e' \<and> hash_code x = hash_code e'" unfolding T using t by (auto split: if_splits)
  qed
  moreover have "tlook f ?dir n = ((tlook f dir)(name := {(ino, f2fs_type_by_mode mode)})) n" for n
  proof (cases "n = name")
    case True
    have "\<not> tab_in f dir b' p' name x" if "\<not> (b' = b \<and> p' = p)" for b' p' x using that tab_okD(4) [OF tok t] by blast
    then have "tab_in f ?dir b' p' name x \<longleftrightarrow> b' = b \<and> p' = p \<and> x = e\<lparr>de_ino := ino, file_type := f2fs_type_by_mode mode\<rparr>" for b' p' x unfolding T by auto
    then show ?thesis using True by (simp add: tlook_def)
  next
    case False
    then have "tab_in f ?dir b' p' n x \<longleftrightarrow> tab_in f dir b' p' n x" for b' p' x using tab_in_det [OF t, of n x] unfolding T by auto
    then show ?thesis using False by (simp add: tlook_def)
  qed
  then have "dir_look f ?dir = (dir_look f dir)(name := {(ino, f2fs_type_by_mode mode)})" by (simp add: dir_look_None i fun_eq_iff)
  moreover have "f2fs_set_link dir loc ino mode = ?dir" using Block_At d(1) by (simp add: f2fs_set_link_def d'_def Let_def)
  ultimately show ?thesis using i by (simp add: dir_ok_def)
qed

subsection \<open>Moving the entries out of the inode\<close>

lemma move_block:
  assumes ok: "in_ok f d"
  defines "dst \<equiv> \<lparr>d_bitmap = (\<lambda>i. i < d_max d \<and> d_bitmap d i), d_dentry = (\<lambda>i. if i < d_max d then d_dentry d i else d_dentry (zero_block f) i),
    d_filename = (\<lambda>a. if a < d_max d * F2FS_SLOT_LEN f then d_filename d a else d_filename (zero_block f) a), d_max = NR_DENTRY_IN_BLOCK f\<rparr>"
  shows "blk_ok f dst" "blk_in f dst p n e \<longleftrightarrow> blk_in f d p n e"
proof -
  have bok: "blk_ok f d" and mx: "d_max d \<le> NR_DENTRY_IN_BLOCK f" using ok by (simp_all add: in_ok_def)
  have st: "starts dst = starts d" using mx by (auto simp: starts_def dst_def)
  have de: "d_dentry dst p = d_dentry d p" if "p < d_max d" for p using that by (simp add: dst_def)
  have lt: "p < d_max d" if "p \<in> starts d" for p using that by (simp add: starts_def)
  have "name_at f dst p = name_at f d p" if p: "p \<in> starts d" for p
  proof -
    have "p * F2FS_SLOT_LEN f + j < d_max d * F2FS_SLOT_LEN f" if "j < name_len (d_dentry d p)" for j
    proof -
      have "(p + slots_at f d p) * F2FS_SLOT_LEN f \<le> d_max d * F2FS_SLOT_LEN f" using blk_okD(1) [OF bok p] by (rule mult_right_mono) simp
      then show ?thesis using that slots_bytes [of "name_len (d_dentry d p)" f] by (simp add: add_mult_distrib)
    qed
    then show ?thesis by (simp add: name_at_def de [OF lt [OF p]]) (simp add: dst_def)
  qed
  then show "blk_in f dst p n e \<longleftrightarrow> blk_in f d p n e" by (auto simp: blk_in_def st de lt)
  show "blk_ok f dst"
  proof (rule blk_okI)
    fix p assume "p \<in> starts dst"
    then have p: "p \<in> starts d" by (simp add: st)
    note B = blk_okD [OF bok]
    have e: "slots_at f dst p = slots_at f d p" by (simp add: de lt [OF p])
    then show "p + slots_at f dst p \<le> d_max dst" using B(1) [OF p] mx by (simp add: dst_def)
    fix q assume "p < q" "q < p + slots_at f dst p"
    then have "d_bitmap d q \<and> name_len (d_dentry d q) = 0" "q < d_max d" using B(1,2) [OF p] e by auto
    then show "d_bitmap dst q \<and> name_len (d_dentry dst q) = 0" by (simp add: dst_def)
  next
    fix q assume "q < d_max dst" "d_bitmap dst q"
    then have "q < d_max d" "d_bitmap d q" by (simp_all add: dst_def)
    then obtain p where "p \<in> starts d" "p \<le> q" "q < p + slots_at f d p" using blk_okD(3) [OF bok] by blast
    then show "\<exists>p \<in> starts dst. p \<le> q \<and> q < p + slots_at f dst p" using de lt by (auto simp: st)
  qed
qed

lemma bucket_0: "2 \<le> MAX_DIR_HASH_DEPTH f \<Longrightarrow> 0 \<in> bucket f 0 0 h"
  by (simp add: bucket_def dir_buckets_def dir_block_index_def bucket_blocks_def u32_wrap_def)

lemma f2fs_move_inline_dirents_spec:
  assumes ok: "dir_ok f lim dir" and d: "i_inline dir = Some d" and dl: "i_dir_level dir = 0" and bad: "\<forall>b. \<not> bad b \<longrightarrow> b < lim" and f: "2 \<le> MAX_DIR_HASH_DEPTH f"
    and r: "f2fs_move_inline_dirents f bad dir d = (err, dir')"
  shows "dir_ok f lim dir' \<and> dir_look f dir' = dir_look f dir \<and> dir_task dir' = dir_task dir \<and> err \<noteq> Some EAGAIN \<and> (err = None \<longrightarrow> i_inline dir' = None)"
proof (cases "bad 0")
  case False
  have iok: "in_ok f d" and em: "dblk dir = Map.empty" and cl: "clevel dir = 0" using ok d by (simp_all add: dir_ok_def)
  define dst where "dst = \<lparr>d_bitmap = (\<lambda>i. i < d_max d \<and> d_bitmap d i), d_dentry = (\<lambda>i. if i < d_max d then d_dentry d i else d_dentry (zero_block f) i),
    d_filename = (\<lambda>a. if a < d_max d * F2FS_SLOT_LEN f then d_filename d a else d_filename (zero_block f) a), d_max = NR_DENTRY_IN_BLOCK f\<rparr>"
  note M = move_block [OF iok, folded dst_def]
  have R: "err = None" "dir' = dir\<lparr>dblk := [0 \<mapsto> dst], i_inline := None, i_current_depth := 1, npages := max (npages dir) 1\<rparr>"
    using r False em by (auto simp: f2fs_move_inline_dirents_def dst_def Let_def)
  have T: "tab_in f dir' b p n e \<longleftrightarrow> b = 0 \<and> blk_in f d p n e" for b p n e by (auto simp: R(2) tab_in_def M(2))
  have "tab_ok f lim dir'" unfolding tab_ok_def T
  proof (intro conjI allI impI)
    fix b p :: nat and n e assume "b = 0 \<and> blk_in f d p n e"
    then show "hash_code e = f2fs_dentry_hash n" "\<exists>l < i_current_depth dir'. b \<in> bucket f (i_dir_level dir') l (f2fs_dentry_hash n)"
      using in_okD(2) [OF iok] dl bucket_0 [OF f] by (auto simp: R(2))
  next
    fix b p b' p' :: nat and n e e' assume "b = 0 \<and> blk_in f d p n e" "b' = 0 \<and> blk_in f d p' n e'"
    then show "b = b'" "p = p'" using iok unfolding in_ok_def by blast+
  next
    fix b x assume "dblk dir' b = Some x"
    then have "b = 0" "x = dst" by (simp_all add: R(2) split: if_splits)
    then show "blk_ok f x" "d_max x = NR_DENTRY_IN_BLOCK f" "b < lim" "b < npages dir'" using M(1) False bad by (auto simp: R(2) dst_def)
  qed (use f in \<open>simp_all add: R(2) cl\<close>)
  moreover have "i_inline dir' = None" "dir_task dir' = dir_task dir" by (simp_all add: R(2))
  moreover have "tlook f dir' = ilook f d" by (simp add: fun_eq_iff tlook_def ilook_def T)
  ultimately show ?thesis using R(1) d by (simp add: dir_ok_def dir_look_None dir_look_Some)
qed (use r ok in \<open>auto simp: f2fs_move_inline_dirents_def\<close>)

lemma mode_type: "t \<noteq> FT_BAD \<Longrightarrow> f2fs_type_by_mode (fake_mode (f2fs_filetype_table t)) = t"
  by (cases t) simp_all

text \<open>The entries in front of a position.\<close>

definition ilook_upto :: "dir_fmt \<Rightarrow> f2fs_dentry_ptr \<Rightarrow> nat \<Rightarrow> fname \<Rightarrow> (nat \<times> f2fs_ft) set" where
  "ilook_upto f d b n = {(de_ino e, file_type e) |p e. blk_in f d p n e \<and> p < b}"

lemma ilook_upto_start:
  assumes "in_ok f d" "b \<in> starts d"
  shows "ilook_upto f d b (name_at f d b) = {}" "ilook_upto f d (b + slots_at f d b) = (ilook_upto f d b)(name_at f d b := {(de_ino (d_dentry d b), file_type (d_dentry d b))})"
proof -
  have u: "p = b" if "blk_in f d p (name_at f d b) e" for p e
    using assms that unfolding in_ok_def by (metis blk_in_def)
  show "ilook_upto f d b (name_at f d b) = {}" using u by (auto simp: ilook_upto_def)
  have bok: "blk_ok f d" using assms(1) by (simp add: in_ok_def)
  have step: "blk_in f d p n e \<and> p < b + slots_at f d b \<longleftrightarrow> blk_in f d p n e \<and> (p < b \<or> p = b)" for p n e
    using blk_okD(2) [OF bok assms(2), of p] start_slots [OF assms(2), of f] by (cases p b rule: linorder_cases) (auto simp: blk_in_def starts_def)
  show "ilook_upto f d (b + slots_at f d b) = (ilook_upto f d b)(name_at f d b := {(de_ino (d_dentry d b), file_type (d_dentry d b))})"
  proof
    fix n
    show "ilook_upto f d (b + slots_at f d b) n = ((ilook_upto f d b)(name_at f d b := {(de_ino (d_dentry d b), file_type (d_dentry d b))})) n"
    proof (cases "n = name_at f d b")
      case True
      then have "blk_in f d p n e \<and> p < b + slots_at f d b \<longleftrightarrow> p = b \<and> e = d_dentry d b" for p e
        unfolding step using u [of p e] assms(2) by (auto simp: blk_in_def)
      then show ?thesis using True by (simp add: ilook_upto_def)
    next
      case False
      then have "blk_in f d p n e \<and> p < b + slots_at f d b \<longleftrightarrow> blk_in f d p n e \<and> p < b" for p e unfolding step by (auto simp: blk_in_def)
      then show ?thesis using False by (simp add: ilook_upto_def)
    qed
  qed
qed

lemma ilook_upto_end: "d_max d \<le> b \<Longrightarrow> ilook_upto f d b = ilook f d"
  by (force simp: ilook_upto_def ilook_def blk_in_def starts_def)

lemma ilook_upto_free: "\<not> d_bitmap d b \<Longrightarrow> ilook_upto f d (b + 1) = ilook_upto f d b"
proof
  fix n assume "\<not> d_bitmap d b"
  then have "blk_in f d p n e \<and> p < b + 1 \<longleftrightarrow> blk_in f d p n e \<and> p < b" for p e by (cases "p = b") (auto simp: blk_in_def starts_def)
  then show "ilook_upto f d (b + 1) n = ilook_upto f d b n" by (simp add: ilook_upto_def)
qed

lemma add_inline_loop_spec:
  assumes "in_ok f d" "boundary f d b" "tab_ok f lim dir" "tlook f dir = ilook_upto f d b" "\<forall>b. \<not> bad b \<longrightarrow> b < lim"
  shows "\<exists>err dir'. add_inline_loop f bad d b dir = Some (err, dir') \<and> err \<noteq> Some EAGAIN \<and> i_inline dir' = i_inline dir \<and> i_dir_level dir' = i_dir_level dir
    \<and> clevel dir' = clevel dir \<and> dir_task dir' = dir_task dir \<and> (if err = None then tab_ok f lim dir' \<and> tlook f dir' = ilook f d else dblk dir' = Map.empty)"
  using assms(2-4)
proof (induction "d_max d - b" arbitrary: b dir rule: less_induct)
  case less
  note E = add_inline_loop.simps [of f bad d b dir]
  have bok: "blk_ok f d" using assms(1) by (simp add: in_ok_def)
  consider "d_max d \<le> b" | "b < d_max d" "\<not> d_bitmap d b" | "b < d_max d" "b \<in> starts d" using boundary_start [OF bok less.prems(1)] by force
  then show ?case
  proof cases
    case 1
    then show ?thesis using less.prems ilook_upto_end [OF 1] unfolding E by simp
  next
    case 2
    have "add_inline_loop f bad d b dir = add_inline_loop f bad d (b + 1) dir" unfolding E using 2 by simp
    moreover have "d_max d - (b + 1) < d_max d - b" using 2(1) by simp
    note less.hyps [OF this boundary_next(1) [OF bok less.prems(1) 2(2)] less.prems(2)]
    ultimately show ?thesis using less.prems(3) ilook_upto_free [OF 2(2)] by simp
  next
    case 3
    let ?e = "d_dentry d b" and ?n = "name_at f d b"
    have n: "d_bitmap d b" "0 < name_len ?e" "blk_in f d b ?n ?e" using 3(2) by (simp_all add: starts_def blk_in_def)
    have tt: "f2fs_type_by_mode (fake_mode (f2fs_get_de_type ?e)) = file_type ?e" using assms(1) n(3) unfolding f2fs_get_de_type_def by (intro mode_type) (auto simp: in_ok_def)
    have new: "tlook f dir ?n = {}" using ilook_upto_start(1) [OF assms(1) 3(2)] less.prems(3) by simp
    obtain err dir1 where A: "f2fs_add_regular_entry f bad dir ?n (de_ino ?e) (fake_mode (f2fs_get_de_type ?e)) False = Some (err, dir1)" "tab_ok f lim dir1"
      "tlook f dir1 = (if err = None then (tlook f dir)(?n := {(de_ino ?e, file_type ?e)}) else tlook f dir)"
      and keep: "i_inline dir1 = i_inline dir" "i_dir_level dir1 = i_dir_level dir" "clevel dir1 = clevel dir" "dir_task dir1 = dir_task dir" "err \<noteq> Some EAGAIN"
      using f2fs_add_regular_entry_spec [OF less.prems(2) assms(5) blk_in_name [OF n(3)] new, of "de_ino ?e" "fake_mode (f2fs_get_de_type ?e)" False] unfolding tt by blast
    show ?thesis
    proof (cases err)
      case None
      let ?b = "b + slots_at f d b"
      have "add_inline_loop f bad d b dir = add_inline_loop f bad d ?b dir1" unfolding E using 3(1) n A(1) None by simp
      moreover have "tlook f dir1 = ilook_upto f d ?b" using A(3) None less.prems(3) ilook_upto_start(2) [OF assms(1) 3(2)] by simp
      moreover have "d_max d - ?b < d_max d - b" using 3 start_slots [OF 3(2), of f] by simp
      note less.hyps [OF this boundary_next(2) [OF bok less.prems(1) 3(2)] A(2) calculation(2)]
      ultimately show ?thesis using keep by simp
    next
      case (Some e)
      then have "add_inline_loop f bad d b dir = Some (Some e, dir1\<lparr>dblk := Map.empty\<rparr>)" unfolding E using 3(1) n A(1) by simp
      then show ?thesis using keep Some by simp
    qed
  qed
qed

lemma f2fs_convert_inline_dir_spec:
  assumes ok: "dir_ok f lim dir" and d: "i_inline dir = Some d" and bad: "\<forall>b. \<not> bad b \<longrightarrow> b < lim" and f: "2 \<le> MAX_DIR_HASH_DEPTH f"
  shows "\<exists>err dir'. f2fs_convert_inline_dir f bad dir d = Some (err, dir') \<and> dir_ok f lim dir' \<and> dir_look f dir' = dir_look f dir \<and> dir_task dir' = dir_task dir
    \<and> err \<noteq> Some EAGAIN \<and> (err = None \<longrightarrow> i_inline dir' = None)"
proof (cases "i_dir_level dir = 0")
  case True
  obtain err dir' where "f2fs_move_inline_dirents f bad dir d = (err, dir')" by fastforce
  then show ?thesis using f2fs_move_inline_dirents_spec [OF ok d True bad f] True by (simp add: f2fs_convert_inline_dir_def)
next
  case False
  have iok: "in_ok f d" and em: "dblk dir = Map.empty" and tok: "tab_ok f lim dir" and cl: "clevel dir = 0" using ok d by (simp_all add: dir_ok_def)
  have "tlook f dir = ilook_upto f d 0" by (simp add: fun_eq_iff tlook_def ilook_upto_def tab_in_def em)
  then obtain err dir1 where A: "add_inline_loop f bad d 0 dir = Some (err, dir1)" "err \<noteq> Some EAGAIN" "i_inline dir1 = i_inline dir" "clevel dir1 = clevel dir" "dir_task dir1 = dir_task dir"
    "if err = None then tab_ok f lim dir1 \<and> tlook f dir1 = ilook f d else dblk dir1 = Map.empty"
    using add_inline_loop_spec [OF iok boundary_0 tok _ bad] by blast
  show ?thesis
  proof (cases err)
    case None
    then have "f2fs_convert_inline_dir f bad dir d = Some (None, dir1\<lparr>i_inline := None\<rparr>)" using False A(1) by (simp add: f2fs_convert_inline_dir_def f2fs_move_rehashed_dirents_def)
    moreover have "tlook f (dir1\<lparr>i_inline := None\<rparr>) = ilook f d" using A(6) None tlook_cong [of f "dir1\<lparr>i_inline := None\<rparr>" dir1] by simp
    ultimately show ?thesis using None A(5,6) d by (auto simp: dir_ok_def dir_look_None dir_look_Some tab_ok_fields)
  next
    case (Some e)
    let ?dir = "dir1\<lparr>i_current_depth := 0, npages := 1\<rparr>"
    have "f2fs_convert_inline_dir f bad dir d = Some (Some e, ?dir)" using False A(1) Some by (simp add: f2fs_convert_inline_dir_def f2fs_move_rehashed_dirents_def)
    moreover have "tab_ok f lim ?dir" using A(4,6) Some cl by (simp add: tab_ok_def tab_in_def)
    moreover have "dir_ok f lim ?dir" using calculation(2) A(3,4,6) Some iok d cl by (simp add: dir_ok_def)
    moreover have "dir_look f ?dir = dir_look f dir" using A(3) d by (simp add: dir_look_Some)
    ultimately show ?thesis using A(2,5) Some by auto
  qed
qed

subsection \<open>Adding\<close>

lemma in_update:
  fixes ino :: nat and mode :: s_ifmt
  assumes ok: "in_ok f d" and name: "name \<noteq> []" and new: "ilook f d name = {}"
    and room: "f2fs_room_for_filename (d_bitmap d) (GET_DENTRY_SLOTS f (length name)) (d_max d) < d_max d"
  defines "d' \<equiv> f2fs_update_dentry f ino mode d name (f2fs_dentry_hash name) (f2fs_room_for_filename (d_bitmap d) (GET_DENTRY_SLOTS f (length name)) (d_max d))"
  shows "in_ok f d' \<and> ilook f d' = (ilook f d)(name := {(ino, f2fs_type_by_mode mode)})"
proof -
  let ?p = "f2fs_room_for_filename (d_bitmap d) (GET_DENTRY_SLOTS f (length name)) (d_max d)"
  define e0 where "e0 = \<lparr>hash_code = f2fs_dentry_hash name, name_len = length name, de_ino = ino, file_type = f2fs_type_by_mode mode\<rparr>"
  have bok: "blk_ok f d" using ok by (simp add: in_ok_def)
  have s: "0 < GET_DENTRY_SLOTS f (length name)" using name by (intro slots_pos) simp
  have P: "?p + GET_DENTRY_SLOTS f (length name) \<le> d_max d" "\<forall>i < GET_DENTRY_SLOTS f (length name). \<not> d_bitmap d (?p + i)"
    using f2fs_room_for_filename_spec(1) [OF s room] by blast+
  note U = blk_in_update(1-3) [OF bok name P, where ino = ino and mode = mode and h = "f2fs_dentry_hash name", folded d'_def e0_def]
  have no: "\<not> blk_in f d q name e" for q e using new by (auto simp: ilook_def)
  have "in_ok f d'" unfolding in_ok_def
  proof (intro conjI allI impI)
    fix q n e assume "blk_in f d' q n e"
    then show "hash_code e = f2fs_dentry_hash n" "file_type e \<noteq> FT_BAD" using ok unfolding U(3) in_ok_def by (auto simp: e0_def)
  next
    fix q n e q' e' assume "blk_in f d' q n e" "blk_in f d' q' n e'"
    then show "q = q'" using ok no unfolding U(3) in_ok_def by blast
  qed (use U(1,2) ok in \<open>simp_all add: in_ok_def\<close>)
  moreover have "ilook f d' n = ((ilook f d)(name := {(ino, f2fs_type_by_mode mode)})) n" for n
    using no by (auto simp: ilook_def U(3) e0_def)
  ultimately show ?thesis by blast
qed

lemma f2fs_add_dentry_spec:
  assumes ok: "dir_ok f lim dir" and bad: "\<forall>b. \<not> bad b \<longrightarrow> b < lim" and f: "2 \<le> MAX_DIR_HASH_DEPTH f" and name: "name \<noteq> []" and new: "dir_look f dir name = {}"
  shows "\<exists>err dir'. f2fs_add_dentry f bad dir name ino mode meta = Some (err, dir') \<and> dir_ok f lim dir' \<and> dir_task dir' = dir_task dir
    \<and> dir_look f dir' = (if err = None then (dir_look f dir)(name := {(ino, f2fs_type_by_mode mode)}) else dir_look f dir)"
proof -
  have reg: "\<exists>err dir'. f2fs_add_regular_entry f bad dir1 name ino mode meta = Some (err, dir') \<and> dir_ok f lim dir' \<and> dir_task dir' = dir_task dir1
    \<and> dir_look f dir' = (if err = None then (dir_look f dir1)(name := {(ino, f2fs_type_by_mode mode)}) else dir_look f dir1)"
    if a: "dir_ok f lim dir1" "i_inline dir1 = None" "dir_look f dir1 name = {}" for dir1
  proof -
    have "tab_ok f lim dir1" "tlook f dir1 name = {}" using a by (simp_all add: dir_ok_def dir_look_None)
    then obtain err dir' where "f2fs_add_regular_entry f bad dir1 name ino mode meta = Some (err, dir')" "tab_ok f lim dir'"
      "tlook f dir' = (if err = None then (tlook f dir1)(name := {(ino, f2fs_type_by_mode mode)}) else tlook f dir1)" "i_inline dir' = i_inline dir1" "dir_task dir' = dir_task dir1"
      using f2fs_add_regular_entry_spec [OF _ bad name] by blast
    then show ?thesis using a(2) by (auto simp: dir_ok_def dir_look_None)
  qed
  show ?thesis
  proof (cases "i_inline dir")
    case None
    then show ?thesis using reg [OF ok None new] by (simp add: f2fs_add_dentry_def)
  next
    case (Some d)
    let ?p = "f2fs_room_for_filename (d_bitmap d) (GET_DENTRY_SLOTS f (length name)) (d_max d)"
    have iok: "in_ok f d" and inew: "ilook f d name = {}" using ok Some new by (simp_all add: dir_ok_def dir_look_Some)
    consider (full) "d_max d \<le> ?p" | (meta) "?p < d_max d" meta | (room) "?p < d_max d" "\<not> meta" by force
    then show ?thesis
    proof cases
      case full
      obtain err dir1 where C: "f2fs_convert_inline_dir f bad dir d = Some (err, dir1)" "dir_ok f lim dir1" "dir_look f dir1 = dir_look f dir" "dir_task dir1 = dir_task dir"
        "err \<noteq> Some EAGAIN" "err = None \<longrightarrow> i_inline dir1 = None" using f2fs_convert_inline_dir_spec [OF ok Some bad f] by blast
      show ?thesis
      proof (cases err)
        case None
        then have "f2fs_add_dentry f bad dir name ino mode meta = f2fs_add_regular_entry f bad dir1 name ino mode meta"
          using Some full C(1) by (simp add: f2fs_add_dentry_def f2fs_add_inline_entry_def Let_def)
        then show ?thesis using reg [of dir1] C(2-4,6) None new by (simp only: simp_thms)
      next
        case (Some e)
        then have "f2fs_add_dentry f bad dir name ino mode meta = Some (err, dir1)"
          using \<open>i_inline dir = Some d\<close> full C(1,5) by (simp add: f2fs_add_dentry_def f2fs_add_inline_entry_def Let_def)
        then show ?thesis using C Some by simp
      qed
    next
      case meta
      then show ?thesis using Some ok by (simp add: f2fs_add_dentry_def f2fs_add_inline_entry_def Let_def)
    next
      case room
      let ?dir = "dir\<lparr>i_inline := Some (f2fs_update_dentry f ino mode d name (f2fs_dentry_hash name) ?p), i_current_depth := 0\<rparr>"
      note U = in_update [OF iok name inew room(1), where ino = ino and mode = mode]
      have "f2fs_add_dentry f bad dir name ino mode meta = Some (None, ?dir)" using Some room by (simp add: f2fs_add_dentry_def f2fs_add_inline_entry_def Let_def)
      moreover have "dir_ok f lim ?dir" using U ok Some by (simp add: dir_ok_def tab_ok_def tab_in_def)
      moreover have "dir_look f ?dir = (dir_look f dir)(name := {(ino, f2fs_type_by_mode mode)})" using U Some by (simp add: dir_look_Some)
      ultimately show ?thesis by simp
    qed
  qed
qed

lemma f2fs_do_add_link_spec:
  assumes ok: "dir_ok f lim dir" and lim: "lim \<le> 4294967292" and mt: "\<And>n m. mt n m \<longleftrightarrow> n = m" and bad: "\<forall>b. \<not> bad b \<longrightarrow> b < lim"
    and f: "2 \<le> MAX_DIR_HASH_DEPTH f" and name: "name \<noteq> []" and task: "dir_task dir = Some cur \<Longrightarrow> dir_look f dir name = {}"
  shows "\<exists>err dir'. f2fs_do_add_link f mt bad cur dir name ino mode meta = Some (err, dir') \<and> dir_ok f lim dir'
    \<and> dir_look f dir' = (if err = None then (dir_look f dir)(name := {(ino, f2fs_type_by_mode mode)}) else dir_look f dir)
    \<and> (dir_look f dir name \<noteq> {} \<longrightarrow> err = Some EEXIST \<or> err = Some EIO)"
proof (cases "dir_task dir = Some cur")
  case True
  then have "f2fs_do_add_link f mt bad cur dir name ino mode meta = f2fs_add_dentry f bad dir name ino mode meta" by (simp add: f2fs_do_add_link_def)
  then show ?thesis using f2fs_add_dentry_spec [OF ok bad f name task [OF True], of ino mode meta] task [OF True] by auto
next
  case False
  obtain de err dir1 where F: "f2fs_find_entry f mt bad cur dir name = (de, err, dir1)" by (metis prod_cases3)
  note S = f2fs_find_entry_spec [OF ok lim mt F]
  let ?dir = "dir1\<lparr>dir_task := None\<rparr>"
  have same: "same_tab dir ?dir" using S(2) by (simp add: same_tab_def)
  have ok1: "dir_ok f lim ?dir" using S(1) by (simp add: dir_ok_def tab_ok_fields)
  note L = same_tab_dir(2) [OF same, of f]
  have R: "f2fs_do_add_link f mt bad cur dir name ino mode meta = (if de \<noteq> None then Some (Some EEXIST, ?dir) else if err then Some (Some EIO, ?dir)
      else f2fs_add_dentry f bad ?dir name ino mode meta)" using False F by (simp add: f2fs_do_add_link_def Let_def)
  show ?thesis
  proof (cases "de \<noteq> None \<or> err")
    case True
    then show ?thesis using R ok1 L by auto
  next
    case False
    then have "dir_look f dir name = {}" using S(5) by blast
    then show ?thesis using R False f2fs_add_dentry_spec [OF ok1 bad f name, of ino mode meta] L by auto
  qed
qed

subsection \<open>What a lookup returns\<close>

text \<open>The result of \<open>f2fs_find_entry\<close> when all pages can be read.\<close>

definition dir_get :: "dir_fmt \<Rightarrow> f2fs_dir \<Rightarrow> fname \<Rightarrow> (nat \<times> f2fs_ft) option" where
  "dir_get f dir name =
     (case fst (f2fs_find_entry f (=) (\<lambda>_. False) 0 dir name) of
        None \<Rightarrow> None
      | Some loc \<Rightarrow> map_option (\<lambda>e. (de_ino e, file_type e)) (entry_of dir loc))"

lemma entry_of_in: "dir_in f dir loc n e \<Longrightarrow> entry_of dir loc = Some e"
  by (auto simp: dir_in_def entry_of_def tab_in_def blk_in_def split: dloc.splits option.splits)

lemma level_loop_no_error: "fst (snd (level_loop f mtch (\<lambda>_. False) h s dir bs room)) = False"
  by (induction f mtch "\<lambda>_ :: nat. False" h s dir bs room rule: level_loop.induct) (auto split: option.split prod.split)

lemma find_levels_no_error: "fst (snd (find_levels f mtch (\<lambda>_. False) dir name ls)) = False"
proof (induction ls arbitrary: dir)
  case (Cons l ls)
  have "\<not> fst (snd (find_in_level f mtch (\<lambda>_. False) dir l name))"
    using level_loop_no_error by (auto simp: find_in_level_def Let_def split: prod.split) (metis fst_conv snd_conv)
  then show ?case using Cons by (auto split: prod.split)
qed simp

lemma find_entry_no_error: "fst (snd (f2fs_find_entry f mt (\<lambda>_. False) cur dir name)) = False"
  using find_levels_no_error [of f "mt name"] by (auto simp: f2fs_find_entry_def Let_def split: option.split prod.split) (metis fst_conv snd_conv)+

lemma dir_look_get:
  assumes ok: "dir_ok f lim dir" and lim: "lim \<le> 4294967292"
  shows "dir_look f dir n = set_option (dir_get f dir n)"
proof -
  obtain de err dir' where F: "f2fs_find_entry f (=) (\<lambda>_. False) 0 dir n = (de, err, dir')" by (metis prod_cases3)
  note S = f2fs_find_entry_spec [OF ok lim _ F]
  have err: "\<not> err" using find_entry_no_error [of f "(=)" 0 dir n] F by simp
  show ?thesis
  proof (cases de)
    case None
    then show ?thesis using S(5) err F by (simp add: dir_get_def)
  next
    case (Some loc)
    then obtain e where e: "dir_in f dir loc n e" using S(4) by blast
    then show ?thesis using dir_look_single [OF ok e] entry_of_in [OF e] Some F by (simp add: dir_get_def)
  qed
qed

lemma set_option_inj: "set_option a = set_option b \<Longrightarrow> a = b"
  by (cases a; cases b) auto

lemma dir_get_map:
  assumes "dir_ok f lim dir" "dir_ok f lim dir'" "lim \<le> 4294967292" "dir_look f dir' = (dir_look f dir)(n := set_option v)"
  shows "dir_get f dir' = (dir_get f dir)(n := v)"
proof
  fix m
  have "set_option (dir_get f dir' m) = set_option (((dir_get f dir)(n := v)) m)"
    using dir_look_get [OF assms(1,3)] dir_look_get [OF assms(2,3)] assms(4) by (metis fun_upd_apply)
  then show "dir_get f dir' m = ((dir_get f dir)(n := v)) m" by (rule set_option_inj)
qed

lemma dir_get_same:
  assumes "dir_ok f lim dir" "dir_ok f lim dir'" "lim \<le> 4294967292" "dir_look f dir' = dir_look f dir"
  shows "dir_get f dir' = dir_get f dir"
  using dir_look_get [OF assms(1,3)] dir_look_get [OF assms(2,3)] assms(4) by (intro ext set_option_inj) metis

subsection \<open>Sequences of operations\<close>

text \<open>
  What the callers in \<open>src/namei.c\<close> do: a lookup, a new link, removing a name that was looked up, and giving a name that was looked up another inode. \<open>bad\<close>: the pages
  that fail, besides those beyond the largest file.
\<close>

datatype dir_op =
    Lookup nat fname "nat \<Rightarrow> bool"
  | Link nat fname nat s_ifmt "nat \<Rightarrow> bool" bool
  | Unlink nat fname "nat \<Rightarrow> bool" bool
  | Set_Link nat fname nat s_ifmt "nat \<Rightarrow> bool"

definition no_page :: "nat \<Rightarrow> (nat \<Rightarrow> bool) \<Rightarrow> nat \<Rightarrow> bool" where
  "no_page lim bad b \<longleftrightarrow> bad b \<or> lim \<le> b"

fun dir_step :: "dir_fmt \<Rightarrow> (fname \<Rightarrow> fname \<Rightarrow> bool) \<Rightarrow> nat \<Rightarrow> f2fs_dir \<Rightarrow> dir_op \<Rightarrow> f2fs_dir" where
  "dir_step f mt lim dir (Lookup cur name bad) = snd (snd (f2fs_find_entry f mt (no_page lim bad) cur dir name))"
| "dir_step f mt lim dir (Link cur name ino mode bad meta) =
     (case f2fs_do_add_link f mt (no_page lim bad) cur dir name ino mode meta of None \<Rightarrow> dir | Some (_, dir) \<Rightarrow> dir)"
| "dir_step f mt lim dir (Unlink cur name bad trunc) =
     (case f2fs_find_entry f mt (no_page lim bad) cur dir name of (None, _, dir) \<Rightarrow> dir | (Some loc, _, dir) \<Rightarrow> f2fs_delete_entry f dir loc trunc)"
| "dir_step f mt lim dir (Set_Link cur name ino mode bad) =
     (case f2fs_find_entry f mt (no_page lim bad) cur dir name of (None, _, dir) \<Rightarrow> dir | (Some loc, _, dir) \<Rightarrow> f2fs_set_link dir loc ino mode)"

text \<open>The change of the map: a link that reports success, and names that were found.\<close>

fun dir_put :: "dir_fmt \<Rightarrow> (fname \<Rightarrow> fname \<Rightarrow> bool) \<Rightarrow> nat \<Rightarrow> f2fs_dir \<Rightarrow> dir_op \<Rightarrow> (fname \<times> (nat \<times> f2fs_ft) option) option" where
  "dir_put f mt lim dir (Lookup cur name bad) = None"
| "dir_put f mt lim dir (Link cur name ino mode bad meta) =
     (case f2fs_do_add_link f mt (no_page lim bad) cur dir name ino mode meta of
        Some (None, _) \<Rightarrow> Some (name, Some (ino, f2fs_type_by_mode mode)) | _ \<Rightarrow> None)"
| "dir_put f mt lim dir (Unlink cur name bad trunc) =
     (if fst (f2fs_find_entry f mt (no_page lim bad) cur dir name) = None then None else Some (name, None))"
| "dir_put f mt lim dir (Set_Link cur name ino mode bad) =
     (if fst (f2fs_find_entry f mt (no_page lim bad) cur dir name) = None then None else Some (name, Some (ino, f2fs_type_by_mode mode)))"

text \<open>A task that is recorded as having missed a name does not link a name that is there.\<close>

fun dir_guard :: "dir_fmt \<Rightarrow> f2fs_dir \<Rightarrow> dir_op \<Rightarrow> bool" where
  "dir_guard f dir (Link cur name ino mode bad meta) \<longleftrightarrow> name \<noteq> [] \<and> (dir_task dir = Some cur \<longrightarrow> dir_get f dir name = None)"
| "dir_guard f dir _ \<longleftrightarrow> True"

definition dir_env :: "dir_fmt \<Rightarrow> (fname \<Rightarrow> fname \<Rightarrow> bool) \<Rightarrow> nat \<Rightarrow> bool" where
  "dir_env f mt lim \<longleftrightarrow> (\<forall>n m. mt n m \<longleftrightarrow> n = m) \<and> 2 \<le> MAX_DIR_HASH_DEPTH f \<and> lim \<le> 4294967292"

lemma dir_step_spec:
  assumes env: "dir_env f mt lim" and ok: "dir_ok f lim dir" and g: "dir_guard f dir op"
  shows "dir_ok f lim (dir_step f mt lim dir op) \<and> dir_get f (dir_step f mt lim dir op) = map_put (dir_get f dir) (dir_put f mt lim dir op)"
proof -
  have lim: "lim \<le> 4294967292" and mt: "\<And>n m. mt n m \<longleftrightarrow> n = m" and mx: "2 \<le> MAX_DIR_HASH_DEPTH f" using env by (simp_all add: dir_env_def)
  have same: "dir_get f dir' = dir_get f dir" if "dir_ok f lim dir'" "dir_look f dir' = dir_look f dir" for dir'
    by (rule dir_get_same [OF ok that(1) lim that(2)])
  have found: "dir_ok f lim dir' \<and> dir_get f dir' = dir_get f dir \<and> (\<forall>loc. de = Some loc \<longrightarrow> (\<exists>e. dir_in f dir' loc name e)) \<and> dir_look f dir' = dir_look f dir"
    if "f2fs_find_entry f mt bad cur dir name = (de, err, dir')" for bad cur name de err dir'
    using f2fs_find_entry_spec(1,2,4) [OF ok lim mt that] same_tab_dir [of dir dir' f] same by auto
  show ?thesis
  proof (cases op)
    case (Lookup cur name bad)
    obtain de err dir' where "f2fs_find_entry f mt (no_page lim bad) cur dir name = (de, err, dir')" by (metis prod_cases3)
    then show ?thesis using found [of "no_page lim bad" cur name de err dir'] Lookup by simp
  next
    case (Link cur name ino mode bad meta)
    have "dir_look f dir name = {}" if "dir_task dir = Some cur" using g that Link dir_look_get [OF ok lim, of name] by simp
    moreover have "name \<noteq> []" using g Link by simp
    moreover have "\<forall>b. \<not> no_page lim bad b \<longrightarrow> b < lim" by (simp add: no_page_def)
    ultimately obtain err dir' where A: "f2fs_do_add_link f mt (no_page lim bad) cur dir name ino mode meta = Some (err, dir')" "dir_ok f lim dir'"
      "dir_look f dir' = (if err = None then (dir_look f dir)(name := {(ino, f2fs_type_by_mode mode)}) else dir_look f dir)"
      using f2fs_do_add_link_spec [OF ok lim mt _ mx, of "no_page lim bad" name cur ino mode meta] by blast
    show ?thesis
    proof (cases err)
      case None
      then show ?thesis using A Link dir_get_map [OF ok A(2) lim, of name "Some (ino, f2fs_type_by_mode mode)"] by simp
    qed (use A Link same in auto)
  next
    case (Unlink cur name bad trunc)
    obtain de err dir' where F: "f2fs_find_entry f mt (no_page lim bad) cur dir name = (de, err, dir')" by (metis prod_cases3)
    note S = found [OF F]
    show ?thesis
    proof (cases de)
      case (Some loc)
      then obtain e where e: "dir_in f dir' loc name e" using S by blast
      have ok': "dir_ok f lim dir'" using S by blast
      note D = f2fs_delete_entry_spec [OF ok' e, of trunc]
      have "dir_get f (f2fs_delete_entry f dir' loc trunc) = (dir_get f dir')(name := None)" using D by (intro dir_get_map [OF ok' _ lim]) auto
      then show ?thesis using D S F Some Unlink by simp
    qed (use S F Unlink in auto)
  next
    case (Set_Link cur name ino mode bad)
    obtain de err dir' where F: "f2fs_find_entry f mt (no_page lim bad) cur dir name = (de, err, dir')" by (metis prod_cases3)
    note S = found [OF F]
    show ?thesis
    proof (cases de)
      case (Some loc)
      then obtain e where e: "dir_in f dir' loc name e" using S by blast
      have ok': "dir_ok f lim dir'" using S by blast
      note D = f2fs_set_link_spec [OF ok' e, of ino mode]
      have "dir_get f (f2fs_set_link dir' loc ino mode) = (dir_get f dir')(name := Some (ino, f2fs_type_by_mode mode))"
        using D by (intro dir_get_map [OF ok' _ lim]) auto
      then show ?thesis using D S F Some Set_Link by simp
    qed (use S F Set_Link in auto)
  qed
qed

interpretation dirmap: backed_map "\<lambda>dir. dir_env f mt lim \<and> dir_ok f lim dir" "dir_get f" "dir_guard f" "dir_step f mt lim" "dir_put f mt lim" for f mt lim
  by unfold_locales (use dir_step_spec in blast)+

end
