(* ===== verification/Dir_Claims.thy ===== *)
theory Dir_Claims
  imports Dir_Map
begin

text \<open>New, empty and listed directories, and what the operations on directories guarantee.\<close>

subsection \<open>Listing\<close>

lemma listing_exact:
  assumes ok: "dir_ok f lim dir" "lim \<le> 4294967292" and d: "distinct locs"
    and sound: "\<And>loc. loc \<in> set locs \<Longrightarrow> \<exists>e. dir_in f dir loc (fst (L loc)) e \<and> snd (L loc) = (de_ino e, f2fs_get_de_type e)"
    and complete: "\<And>loc n e. dir_in f dir loc n e \<Longrightarrow> loc \<in> set locs"
  shows "distinct (map fst (map L locs)) \<and> set (map L locs) = {(n, ino, f2fs_filetype_table t) |n ino t. dir_get f dir n = Some (ino, t)}"
proof
  have "inj_on (fst \<circ> L) (set locs)"
  proof (rule inj_onI)
    fix x y assume "x \<in> set locs" "y \<in> set locs" "(fst \<circ> L) x = (fst \<circ> L) y"
    then show "x = y" using sound dir_in_unique [OF ok(1)] by (metis comp_apply)
  qed
  then show "distinct (map fst (map L locs))" using d by (simp add: distinct_map)
  have get: "dir_get f dir n = Some (ino, t) \<longleftrightarrow> (\<exists>loc e. dir_in f dir loc n e \<and> (ino, t) = (de_ino e, file_type e))" for n ino t
  proof -
    have "dir_get f dir n = Some (ino, t) \<longleftrightarrow> (ino, t) \<in> dir_look f dir n" by (simp add: dir_look_get [OF ok])
    then show ?thesis unfolding dir_look_in by blast
  qed
  show "set (map L locs) = {(n, ino, f2fs_filetype_table t) |n ino t. dir_get f dir n = Some (ino, t)}"
  proof (intro set_eqI iffI)
    fix x assume "x \<in> set (map L locs)"
    then obtain loc where l: "loc \<in> set locs" "x = L loc" by auto
    then obtain e where "dir_in f dir loc (fst x) e" "snd x = (de_ino e, f2fs_get_de_type e)" using sound by blast
    then show "x \<in> {(n, ino, f2fs_filetype_table t) |n ino t. dir_get f dir n = Some (ino, t)}"
      unfolding get f2fs_get_de_type_def by (cases x) auto
  next
    fix x assume "x \<in> {(n, ino, f2fs_filetype_table t) |n ino t. dir_get f dir n = Some (ino, t)}"
    then obtain n loc e where x: "dir_in f dir loc n e" "x = (n, de_ino e, f2fs_get_de_type e)" unfolding get f2fs_get_de_type_def by auto
    then have l: "loc \<in> set locs" using complete by blast
    then obtain e' where e': "dir_in f dir loc (fst (L loc)) e'" "snd (L loc) = (de_ino e', f2fs_get_de_type e')" using sound by blast
    then have "fst (L loc) = n" "e' = e" using x(1) by (auto simp: dir_in_def tab_in_def blk_in_def split: dloc.splits option.splits)
    then have "L loc = x" using x(2) e'(2) by (simp add: prod_eq_iff)
    then show "x \<in> set (map L locs)" using l by force
  qed
qed

definition blk_list :: "dir_fmt \<Rightarrow> f2fs_dir \<Rightarrow> nat \<Rightarrow> (fname \<times> nat \<times> dt_type) list" where
  "blk_list f dir b = (case dblk dir b of None \<Rightarrow> [] | Some d \<Rightarrow> map (listed f d) (sorted_list_of_set (starts d)))"

lemma readdir_loop_lists:
  assumes "tab_ok f lim dir"
  shows "\<exists>pos'. readdir_loop f collect (\<lambda>_. False) dir [n..<m] (n * NR_DENTRY_IN_BLOCK f) c = (False, pos', c @ concat (map (blk_list f dir) [n..<m]))"
proof (induction "m - n" arbitrary: n c)
  case (Suc k)
  then have nm: "[n..<m] = n # [Suc n..<m]" by (simp add: upt_conv_Cons)
  have IH: "\<exists>pos'. readdir_loop f collect (\<lambda>_. False) dir [Suc n..<m] (Suc n * NR_DENTRY_IN_BLOCK f) c = (False, pos', c @ concat (map (blk_list f dir) [Suc n..<m]))" for c
    by (rule Suc(1)) (use Suc(2) in simp)
  show ?case
  proof (cases "dblk dir n")
    case None
    then show ?thesis unfolding nm using IH [of c] by (simp add: blk_list_def)
  next
    case (Some d)
    then have d: "blk_ok f d" "d_max d = NR_DENTRY_IN_BLOCK f" using tab_okD(1) [OF assms] by auto
    obtain pos' where "fill_loop f collect d (n * NR_DENTRY_IN_BLOCK f) 0 (n * NR_DENTRY_IN_BLOCK f) c = (False, pos', c @ map (listed f d) (sorted_list_of_set (starts d)))"
      using fill_loop_lists [OF d(1) boundary_0, of "n * NR_DENTRY_IN_BLOCK f" "n * NR_DENTRY_IN_BLOCK f" c] by auto
    then have "f2fs_fill_dentries f collect d (n * NR_DENTRY_IN_BLOCK f) (n * NR_DENTRY_IN_BLOCK f) c = (False, pos', c @ blk_list f dir n)"
      using d(2) Some by (simp add: f2fs_fill_dentries_def blk_list_def)
    then show ?thesis unfolding nm using IH [of "c @ blk_list f dir n"] Some by simp
  qed
qed simp

text \<open>The places of a table in the order of the blocks.\<close>

definition tab_locs :: "f2fs_dir \<Rightarrow> dloc list" where
  "tab_locs dir = concat (map (\<lambda>b. case dblk dir b of None \<Rightarrow> [] | Some d \<Rightarrow> map (Block_At b) (sorted_list_of_set (starts d))) [0..<npages dir])"

lemma tab_locs_set: "loc \<in> set (tab_locs dir) \<longleftrightarrow> (\<exists>b p d. loc = Block_At b p \<and> b < npages dir \<and> dblk dir b = Some d \<and> p \<in> starts d)"
  by (force simp: tab_locs_def split: option.splits)

lemma tab_locs_distinct: "distinct (tab_locs dir)"
proof -
  have "distinct (concat (map (\<lambda>b. case dblk dir b of None \<Rightarrow> [] | Some d \<Rightarrow> map (Block_At b) (sorted_list_of_set (starts d))) [0..<n]))" for n
    by (induction n) (auto simp: distinct_map inj_on_def split: option.splits)
  then show ?thesis by (simp add: tab_locs_def)
qed

definition loc_listed :: "dir_fmt \<Rightarrow> f2fs_dir \<Rightarrow> dloc \<Rightarrow> fname \<times> nat \<times> dt_type" where
  "loc_listed f dir loc = (case loc of Inline_At p \<Rightarrow> listed f (the (i_inline dir)) p | Block_At b p \<Rightarrow> listed f (the (dblk dir b)) p)"

lemma tab_locs_list: "concat (map (blk_list f dir) [0..<npages dir]) = map (loc_listed f dir) (tab_locs dir)"
  unfolding tab_locs_def map_concat map_map
  by (intro arg_cong [where f = concat] map_cong refl) (auto simp: blk_list_def loc_listed_def split: option.splits)

lemma f2fs_readdir_exact:
  assumes ok: "dir_ok f lim dir" "lim \<le> 4294967292"
  shows "\<exists>pos l. f2fs_readdir f collect (\<lambda>_. False) dir 0 [] = (False, pos, l) \<and> distinct (map fst l)
    \<and> set l = {(n, ino, f2fs_filetype_table t) |n ino t. dir_get f dir n = Some (ino, t)}"
proof (cases "i_inline dir")
  case None
  have tok: "tab_ok f lim dir" using ok by (simp add: dir_ok_def)
  have "\<exists>e. dir_in f dir loc (fst (loc_listed f dir loc)) e \<and> snd (loc_listed f dir loc) = (de_ino e, f2fs_get_de_type e)" if "loc \<in> set (tab_locs dir)" for loc
    using that None unfolding tab_locs_set by (auto simp: dir_in_def tab_in_def blk_in_def loc_listed_def)
  moreover have "loc \<in> set (tab_locs dir)" if l: "dir_in f dir loc n e" for loc n e
  proof -
    obtain b p d where "loc = Block_At b p" "dblk dir b = Some d" "p \<in> starts d" using l None by (cases loc) (auto simp: dir_in_def tab_in_def blk_in_def)
    then show ?thesis unfolding tab_locs_set using tab_okD(1) [OF tok] by blast
  qed
  ultimately have "distinct (map fst (map (loc_listed f dir) (tab_locs dir))) \<and> set (map (loc_listed f dir) (tab_locs dir)) = {(n, ino, f2fs_filetype_table t) |n ino t. dir_get f dir n = Some (ino, t)}"
    by (intro listing_exact [OF ok tab_locs_distinct])
  moreover obtain pos where "f2fs_readdir f collect (\<lambda>_. False) dir 0 [] = (False, pos, map (loc_listed f dir) (tab_locs dir))"
    using readdir_loop_lists [OF tok, of 0 "npages dir" "[]"] None by (auto simp: f2fs_readdir_def tab_locs_list)
  ultimately show ?thesis by blast
next
  case (Some d)
  have bok: "blk_ok f d" using ok Some by (simp add: dir_ok_def in_ok_def)
  let ?locs = "map Inline_At (sorted_list_of_set (starts d))"
  have e: "map (loc_listed f dir) ?locs = map (listed f d) (sorted_list_of_set (starts d))" using Some by (simp add: loc_listed_def)
  have L: "distinct (map fst (map (loc_listed f dir) ?locs)) \<and> set (map (loc_listed f dir) ?locs) = {(n, ino, f2fs_filetype_table t) |n ino t. dir_get f dir n = Some (ino, t)}"
  proof (rule listing_exact [OF ok])
    show "distinct ?locs" by (simp add: distinct_map inj_on_def)
    show "\<exists>e. dir_in f dir loc (fst (loc_listed f dir loc)) e \<and> snd (loc_listed f dir loc) = (de_ino e, f2fs_get_de_type e)" if "loc \<in> set ?locs" for loc
      using that Some by (auto simp: dir_in_def blk_in_def loc_listed_def)
    show "loc \<in> set ?locs" if "dir_in f dir loc n e" for loc n e using that Some by (cases loc) (auto simp: dir_in_def blk_in_def)
  qed
  have "\<exists>pos. f2fs_readdir f collect (\<lambda>_. False) dir 0 [] = (False, pos, map (listed f d) (sorted_list_of_set (starts d)))"
  proof (cases "d_max d = 0")
    case True
    then have "starts d = {}" by (simp add: starts_def)
    then show ?thesis using Some True by (simp add: f2fs_readdir_def)
  next
    case False
    obtain pos' where "fill_loop f collect d 0 0 0 [] = (False, pos', map (listed f d) (sorted_list_of_set (starts d)))"
      using fill_loop_lists [OF bok boundary_0, of 0 0 "[]"] by auto
    then show ?thesis using Some False by (simp add: f2fs_readdir_def f2fs_fill_dentries_def)
  qed
  then show ?thesis using L unfolding e by blast
qed

subsection \<open>New directories\<close>

text \<open>
  The inode of a new directory (\<open>f2fs_new_inode\<close>, \<open>f2fs_alloc_inode\<close>), with \<open>inl\<close> slots for entries in the inode, none if 0, and the level that the volume
  is mounted with.
\<close>

definition new_dir :: "dir_fmt \<Rightarrow> nat \<Rightarrow> nat \<Rightarrow> f2fs_dir" where
  "new_dir f inl dl =
     \<lparr>i_inline = (if inl = 0 then None else Some ((zero_block f)\<lparr>d_max := inl\<rparr>)), dblk = Map.empty, npages = 0, i_current_depth = 1, i_dir_level = dl,
      chash = 0, clevel = 0, dir_task = None\<rparr>"

lemma one_slot: "1 \<le> F2FS_SLOT_LEN_BITS f \<Longrightarrow> n = 1 \<or> n = 2 \<Longrightarrow> GET_DENTRY_SLOTS f n = 1"
proof -
  assume a: "1 \<le> F2FS_SLOT_LEN_BITS f" "n = 1 \<or> n = 2"
  have "(2::nat) ^ 1 \<le> 2 ^ F2FS_SLOT_LEN_BITS f" by (rule power_increasing [OF a(1)]) simp
  then show ?thesis using a(2) by (auto simp: GET_DENTRY_SLOTS_def F2FS_SLOT_LEN_def div_nat_eqI)
qed

lemma dots_hash [simp]: "f2fs_dentry_hash [46] = 0" "f2fs_dentry_hash [46, 46] = 0"
  by (simp_all add: f2fs_dentry_hash_def is_dot_dotdot_def)

lemma make_empty_block:
  fixes ino pino :: nat
  assumes f: "1 \<le> F2FS_SLOT_LEN_BITS f" and d: "blk_ok f d" "\<forall>i. \<not> d_bitmap d i" "2 \<le> d_max d"
  defines "d' \<equiv> f2fs_do_make_empty_dir f ino S_IFDIR pino S_IFDIR d"
  shows "blk_ok f d'" "d_max d' = d_max d"
    "blk_in f d' p n e \<longleftrightarrow> p = 0 \<and> n = [46] \<and> e = \<lparr>hash_code = 0, name_len = 1, de_ino = ino, file_type = F2FS_FT_DIR\<rparr>
       \<or> p = 1 \<and> n = [46, 46] \<and> e = \<lparr>hash_code = 0, name_len = 2, de_ino = pino, file_type = F2FS_FT_DIR\<rparr>"
proof -
  have no: "\<not> blk_in f d p n e" for p n e using d(2) by (simp add: blk_in_def starts_def)
  have s: "GET_DENTRY_SLOTS f 1 = 1" "GET_DENTRY_SLOTS f 2 = 1" using one_slot [OF f] by simp_all
  let ?d1 = "f2fs_update_dentry f ino S_IFDIR d [46] 0 0"
  have b1: "d_bitmap ?d1 q \<longleftrightarrow> q = 0" for q using update_fields(1) [of f ino S_IFDIR d "[46]" 0 0 q] d(2) s by auto
  have "blk_ok f ?d1" "d_max ?d1 = d_max d"
    "\<And>q n e. blk_in f ?d1 q n e \<longleftrightarrow> q = 0 \<and> n = [46] \<and> e = \<lparr>hash_code = 0, name_len = 1, de_ino = ino, file_type = F2FS_FT_DIR\<rparr>"
    using blk_in_update(1-3) [OF d(1), of "[46]" 0] d(2,3) no s by simp_all
  note D1 = this
  have "blk_ok f d'" "d_max d' = d_max ?d1"
    "blk_in f d' p n e \<longleftrightarrow> blk_in f ?d1 p n e \<or> p = 1 \<and> n = [46, 46] \<and> e = \<lparr>hash_code = 0, name_len = 2, de_ino = pino, file_type = F2FS_FT_DIR\<rparr>"
    unfolding d'_def f2fs_do_make_empty_dir_def using blk_in_update(1-3) [OF D1(1), of "[46, 46]" 1] d(3) s D1(2) b1 by (simp_all add: numeral_2_eq_2)
  then show "blk_ok f d'" "d_max d' = d_max d"
    "blk_in f d' p n e \<longleftrightarrow> p = 0 \<and> n = [46] \<and> e = \<lparr>hash_code = 0, name_len = 1, de_ino = ino, file_type = F2FS_FT_DIR\<rparr>
       \<or> p = 1 \<and> n = [46, 46] \<and> e = \<lparr>hash_code = 0, name_len = 2, de_ino = pino, file_type = F2FS_FT_DIR\<rparr>" by (simp_all only: D1(2,3))
qed

definition new_map :: "nat \<Rightarrow> nat \<Rightarrow> fname \<rightharpoonup> nat \<times> f2fs_ft" where
  "new_map ino pino = [[46] \<mapsto> (ino, F2FS_FT_DIR), [46, 46] \<mapsto> (pino, F2FS_FT_DIR)]"

lemma bucket_first: "0 \<in> bucket f dl 0 0"
  by (simp add: bucket_def dir_block_index_def bucket_blocks_def u32_wrap_def)

lemma make_empty_dir_ok:
  fixes ino pino dl :: nat
  assumes f: "1 \<le> F2FS_SLOT_LEN_BITS f" "2 \<le> NR_DENTRY_IN_BLOCK f" "1 \<le> MAX_DIR_HASH_DEPTH f" and inl: "inl = 0 \<or> 2 \<le> inl \<and> inl \<le> NR_DENTRY_IN_BLOCK f" and lim: "0 < lim" "lim \<le> 4294967292"
    and bad: "\<not> bad 0"
  defines "dir \<equiv> snd (make_empty_dir f bad (new_dir f inl dl) ino pino)"
  shows "fst (make_empty_dir f bad (new_dir f inl dl) ino pino) = None" "dir_ok f lim dir" "dir_get f dir = new_map ino pino"
proof -
  show "fst (make_empty_dir f bad (new_dir f inl dl) ino pino) = None" using bad by (simp add: make_empty_dir_def new_dir_def Let_def)
  let ?e0 = "\<lparr>hash_code = 0, name_len = 1, de_ino = ino, file_type = F2FS_FT_DIR\<rparr>" and ?e1 = "\<lparr>hash_code = 0, name_len = 2, de_ino = pino, file_type = F2FS_FT_DIR\<rparr>"
  have "dir_ok f lim dir \<and> (\<forall>n. dir_look f dir n = set_option (new_map ino pino n))"
  proof (cases "inl = 0")
    case False
    let ?z = "(zero_block f)\<lparr>d_max := inl\<rparr>"
    have z: "blk_ok f ?z" "\<forall>i. \<not> d_bitmap ?z i" "2 \<le> d_max ?z" using False inl by (auto simp: blk_ok_def starts_def zero_block_def)
    define d where "d = f2fs_do_make_empty_dir f ino S_IFDIR pino S_IFDIR ?z"
    note M = make_empty_block [OF f(1) z, where ino = ino and pino = pino, folded d_def]
    have D: "i_inline dir = Some d" "dblk dir = Map.empty" "clevel dir = 0" "i_current_depth dir = 1" using False by (simp_all add: dir_def make_empty_dir_def new_dir_def d_def)
    have "in_ok f d" unfolding in_ok_def M(2,3) using M(1) False inl by auto
    then have "dir_ok f lim dir" using D f(3) by (simp add: dir_ok_def tab_ok_def tab_in_def)
    moreover have "dir_look f dir n = set_option (new_map ino pino n)" for n
    proof -
      have "dir_look f dir n = {x. n = [46] \<and> x = (ino, F2FS_FT_DIR) \<or> n = [46, 46] \<and> x = (pino, F2FS_FT_DIR)}" unfolding dir_look_Some [OF D(1)] ilook_def M(3) by force
      then show ?thesis by (auto simp: new_map_def)
    qed
    ultimately show ?thesis by blast
  next
    case True
    let ?z = "zero_block f"
    have z: "blk_ok f ?z" "\<forall>i. \<not> d_bitmap ?z i" "2 \<le> d_max ?z" using f(2) zero_block_ok(1) [of f] by (simp_all add: zero_block_def)
    define d where "d = f2fs_do_make_empty_dir f ino S_IFDIR pino S_IFDIR ?z"
    note M = make_empty_block [OF f(1) z, where ino = ino and pino = pino, folded d_def]
    have D: "i_inline dir = None" "dblk dir = [0 \<mapsto> d]" "clevel dir = 0" "i_current_depth dir = 1" "npages dir = 1" "i_dir_level dir = dl"
      using True bad by (simp_all add: dir_def make_empty_dir_def new_dir_def d_def get_new_data_page_def Let_def)
    have T: "tab_in f dir b p n e \<longleftrightarrow> b = 0 \<and> (p = 0 \<and> n = [46] \<and> e = ?e0 \<or> p = 1 \<and> n = [46, 46] \<and> e = ?e1)" for b p n e by (auto simp: tab_in_def D(2) M(3))
    have "tab_ok f lim dir" unfolding tab_ok_def T
    proof (intro conjI allI impI)
      fix b x assume "dblk dir b = Some x"
      then have "b = 0" "x = d" by (simp_all add: D(2) split: if_splits)
      then show "blk_ok f x" "d_max x = NR_DENTRY_IN_BLOCK f" "b < lim" "b < npages dir" using M(1,2) lim by (simp_all add: D(5) zero_block_ok)
    next
      fix b p :: nat and n :: fname and e assume "b = 0 \<and> (p = 0 \<and> n = [46] \<and> e = ?e0 \<or> p = 1 \<and> n = [46, 46] \<and> e = ?e1)"
      then show "hash_code e = f2fs_dentry_hash n" "\<exists>l < i_current_depth dir. b \<in> bucket f (i_dir_level dir) l (f2fs_dentry_hash n)"
        using bucket_first [of f dl] by (auto simp: D(4,6))
    qed (use f(3) in \<open>auto simp: D\<close>)
    then have "dir_ok f lim dir" using D(1) by (simp add: dir_ok_def)
    moreover have "dir_look f dir n = set_option (new_map ino pino n)" for n
    proof -
      have "dir_look f dir n = {x. n = [46] \<and> x = (ino, F2FS_FT_DIR) \<or> n = [46, 46] \<and> x = (pino, F2FS_FT_DIR)}" unfolding dir_look_None [OF D(1)] tlook_def T by force
      then show ?thesis by (auto simp: new_map_def)
    qed
    ultimately show ?thesis by blast
  qed
  then have ok: "dir_ok f lim dir" and look: "\<And>n. dir_look f dir n = set_option (new_map ino pino n)" by blast+
  show "dir_ok f lim dir" by (rule ok)
  show "dir_get f dir = new_map ino pino" using dir_look_get [OF ok lim(2)] look by (intro ext set_option_inj) simp
qed

subsection \<open>Empty directories\<close>

text \<open>The place of the first slots.\<close>

definition first_loc :: "f2fs_dir \<Rightarrow> nat \<Rightarrow> dloc" where
  "first_loc dir p = (if i_inline dir = None then Block_At 0 p else Inline_At p)"

definition dots :: "dir_fmt \<Rightarrow> f2fs_dir \<Rightarrow> bool" where
  "dots f dir \<longleftrightarrow> (\<exists>e e'. dir_in f dir (first_loc dir 0) [46] e \<and> dir_in f dir (first_loc dir 1) [46, 46] e')"

lemma find_next_bit_from: "find_next_bit bm mx b < mx \<Longrightarrow> b \<le> find_next_bit bm mx b"
proof (cases "b \<le> mx")
  case False
  then show "find_next_bit bm mx b < mx \<Longrightarrow> b \<le> find_next_bit bm mx b" by (simp add: find_next_bit.simps [of bm mx b])
qed (rule find_next_bit_ge)

lemma find_next_bit_free: "find_next_bit bm mx b < mx \<longleftrightarrow> (\<exists>q. b \<le> q \<and> q < mx \<and> bm q)"
proof
  show "find_next_bit bm mx b < mx \<Longrightarrow> \<exists>q. b \<le> q \<and> q < mx \<and> bm q"
    using find_next_bit_set [of bm mx b] find_next_bit_from [of bm mx b] by blast
  assume "\<exists>q. b \<le> q \<and> q < mx \<and> bm q"
  then show "find_next_bit bm mx b < mx" using find_next_bit_hit order_le_less_trans by blast
qed

lemma dots_block:
  assumes f: "1 \<le> F2FS_SLOT_LEN_BITS f" and d: "blk_ok f d" "blk_in f d 0 [46] e" "blk_in f d 1 [46, 46] e'"
  shows "find_next_bit (d_bitmap d) (d_max d) 2 < d_max d \<longleftrightarrow> (\<exists>p n e. blk_in f d p n e \<and> 2 \<le> p)"
proof -
  have l: "name_len (d_dentry d 0) = 1" "name_len (d_dentry d 1) = 2" using d(2,3) by (auto simp: blk_in_def name_at_def dest!: arg_cong [where f = length])
  have s: "slots_at f d 0 = 1" "slots_at f d 1 = 1" using one_slot [OF f] l by simp_all
  have "(\<exists>q. 2 \<le> q \<and> q < d_max d \<and> d_bitmap d q) \<longleftrightarrow> (\<exists>p \<in> starts d. 2 \<le> p)"
  proof
    assume "\<exists>q. 2 \<le> q \<and> q < d_max d \<and> d_bitmap d q"
    then obtain q p where q: "2 \<le> q" "p \<in> starts d" "p \<le> q" "q < p + slots_at f d p" using blk_okD(3) [OF d(1)] by blast
    have "p \<noteq> 0" "p \<noteq> 1" using q s by (intro notI; simp)+
    then show "\<exists>p \<in> starts d. 2 \<le> p" using q(2) by (intro bexI [of _ p]) simp_all
  qed (auto simp: starts_def)
  then show ?thesis unfolding find_next_bit_free by (auto simp: blk_in_def)
qed

lemma empty_loop_spec: "empty_loop f (\<lambda>_. False) dir bs \<longleftrightarrow>
    (\<forall>b \<in> set bs. \<forall>d. dblk dir b = Some d \<longrightarrow> \<not> find_next_bit (d_bitmap d) (NR_DENTRY_IN_BLOCK f) (if b = 0 then 2 else 0) < NR_DENTRY_IN_BLOCK f)"
  by (induction bs) (auto split: option.split)

lemma f2fs_empty_dir_locs:
  assumes f: "1 \<le> F2FS_SLOT_LEN_BITS f" and ok: "dir_ok f lim dir" and dots: "dots f dir"
  shows "f2fs_empty_dir f (\<lambda>_. False) dir \<longleftrightarrow> (\<forall>loc n e. dir_in f dir loc n e \<longrightarrow> loc = first_loc dir 0 \<or> loc = first_loc dir 1)"
proof (cases "i_inline dir")
  case (Some d)
  obtain e e' where "blk_in f d 0 [46] e" "blk_in f d 1 [46, 46] e'" using dots Some by (auto simp: dots_def dir_in_def first_loc_def)
  moreover have "blk_ok f d" using ok Some by (simp add: dir_ok_def in_ok_def)
  ultimately have "f2fs_empty_dir f (\<lambda>_. False) dir \<longleftrightarrow> (\<forall>p n e. blk_in f d p n e \<longrightarrow> p < 2)" using dots_block [OF f] Some by (auto simp: f2fs_empty_dir_def not_less) (meson not_less)+
  moreover have "(\<forall>loc n e. dir_in f dir loc n e \<longrightarrow> loc = first_loc dir 0 \<or> loc = first_loc dir 1) \<longleftrightarrow> (\<forall>p n e. blk_in f d p n e \<longrightarrow> p = 0 \<or> p = 1)"
  proof -
    have "dir_in f dir loc n e \<longleftrightarrow> (\<exists>p. loc = Inline_At p \<and> blk_in f d p n e)" for loc n e using Some by (cases loc) (auto simp: dir_in_def)
    then show ?thesis using Some unfolding first_loc_def by simp blast
  qed
  moreover have "p < 2 \<longleftrightarrow> p = 0 \<or> p = 1" for p :: nat by auto
  ultimately show ?thesis by simp
next
  case None
  obtain d e e' where d: "dblk dir 0 = Some d" "blk_in f d 0 [46] e" "blk_in f d 1 [46, 46] e'" using dots None by (auto simp: dots_def dir_in_def first_loc_def tab_in_def)
  have tok: "tab_ok f lim dir" using ok by (simp add: dir_ok_def)
  note B = tab_okD(1) [OF tok]
  have "(\<not> find_next_bit (d_bitmap x) (NR_DENTRY_IN_BLOCK f) (if b = 0 then 2 else 0) < NR_DENTRY_IN_BLOCK f) \<longleftrightarrow> (\<forall>p n e. blk_in f x p n e \<longrightarrow> b = 0 \<and> p < 2)"
    if x: "dblk dir b = Some x" for b x
  proof (cases "b = 0")
    case True
    then show ?thesis using dots_block [OF f _ d(2,3)] B [OF x] x d(1) by (auto simp: not_less) (meson not_less)+
  next
    case False
    have "starts x = {} \<longleftrightarrow> \<not> find_next_bit (d_bitmap x) (NR_DENTRY_IN_BLOCK f) 0 < NR_DENTRY_IN_BLOCK f"
      using blk_empty [of f x] B [OF x] find_next_bit_le [of "d_bitmap x" "NR_DENTRY_IN_BLOCK f" 0] by auto
    then show ?thesis using False by (auto simp: blk_in_def)
  qed
  then have "f2fs_empty_dir f (\<lambda>_. False) dir \<longleftrightarrow> (\<forall>b < npages dir. \<forall>d. dblk dir b = Some d \<longrightarrow> (\<forall>p n e. blk_in f d p n e \<longrightarrow> b = 0 \<and> p < 2))"
    using None unfolding f2fs_empty_dir_def empty_loop_spec by (simp add: Ball_def)
  also have "\<dots> \<longleftrightarrow> (\<forall>b p n e. tab_in f dir b p n e \<longrightarrow> b = 0 \<and> p < 2)" using B unfolding tab_in_def by blast
  finally have "f2fs_empty_dir f (\<lambda>_. False) dir \<longleftrightarrow> (\<forall>b p n e. tab_in f dir b p n e \<longrightarrow> b = 0 \<and> p < 2)" .
  moreover have "(\<forall>loc n e. dir_in f dir loc n e \<longrightarrow> loc = first_loc dir 0 \<or> loc = first_loc dir 1) \<longleftrightarrow> (\<forall>b p n e. tab_in f dir b p n e \<longrightarrow> b = 0 \<and> (p = 0 \<or> p = 1))"
  proof -
    have "dir_in f dir loc n e \<longleftrightarrow> (\<exists>b p. loc = Block_At b p \<and> tab_in f dir b p n e)" for loc n e using None by (cases loc) (auto simp: dir_in_def)
    then show ?thesis using None unfolding first_loc_def by simp blast
  qed
  moreover have "p < 2 \<longleftrightarrow> p = 0 \<or> p = 1" for p :: nat by auto
  ultimately show ?thesis by simp
qed

lemma f2fs_empty_dir_exact:
  assumes f: "1 \<le> F2FS_SLOT_LEN_BITS f" and ok: "dir_ok f lim dir" "lim \<le> 4294967292" and dots: "dots f dir"
  shows "f2fs_empty_dir f (\<lambda>_. False) dir \<longleftrightarrow> dom (dir_get f dir) = {[46], [46, 46]}"
proof -
  obtain e e' where d: "dir_in f dir (first_loc dir 0) [46] e" "dir_in f dir (first_loc dir 1) [46, 46] e'" using dots by (auto simp: dots_def)
  have dom: "n \<in> dom (dir_get f dir) \<longleftrightarrow> (\<exists>loc e. dir_in f dir loc n e)" for n
  proof -
    have "n \<in> dom (dir_get f dir) \<longleftrightarrow> dir_look f dir n \<noteq> {}" using dir_look_get [OF ok, of n] by (cases "dir_get f dir n") auto
    then show ?thesis unfolding dir_look_in by blast
  qed
  have det: "n = n'" if "dir_in f dir loc n e" "dir_in f dir loc n' e'" for loc n n' e e'
    using that by (auto simp: dir_in_def tab_in_def blk_in_def split: dloc.splits option.splits)
  show ?thesis unfolding f2fs_empty_dir_locs [OF f ok(1) dots]
  proof
    assume a: "\<forall>loc n e. dir_in f dir loc n e \<longrightarrow> loc = first_loc dir 0 \<or> loc = first_loc dir 1"
    show "dom (dir_get f dir) = {[46], [46, 46]}" using d a det dom by blast
  next
    assume a: "dom (dir_get f dir) = {[46], [46, 46]}"
    show "\<forall>loc n e. dir_in f dir loc n e \<longrightarrow> loc = first_loc dir 0 \<or> loc = first_loc dir 1"
    proof (intro allI impI)
      fix loc n x assume i: "dir_in f dir loc n x"
      then have "n = [46] \<or> n = [46, 46]" using dom a by blast
      then show "loc = first_loc dir 0 \<or> loc = first_loc dir 1" using dir_in_unique [OF ok(1) i] d by blast
    qed
  qed
qed

subsection \<open>What the operations guarantee\<close>

text \<open>
  C8. Over any sequence of lookups, new links, removals and replacements, whatever pages fail, a directory keeps its invariant and shows the map from names to inode
  numbers and types that the operations make of the first one: every change that was reported is found by a lookup, nothing else changes.
\<close>

theorem dir_refines_map:
  assumes "dir_env f mt lim" "dir_ok f lim dir" "guarded_run (dir_guard f) (dir_step f mt lim) dir ops"
  shows "dir_ok f lim (foldl (dir_step f mt lim) dir ops)
    \<and> dir_get f (foldl (dir_step f mt lim) dir ops) = map_run (dir_put f mt lim) (dir_step f mt lim) dir (dir_get f dir) ops"
  using dirmap.run_ok [OF conjI [OF assms(1,2)] assms(3)] dirmap.run_look [OF conjI [OF assms(1,2)] assms(3)] by blast

definition small_fmt :: dir_fmt where
  "small_fmt = \<lparr>NR_DENTRY_IN_BLOCK = 4, F2FS_SLOT_LEN_BITS = 1, MAX_DIR_HASH_DEPTH = 4, MAX_DIR_BUCKETS = 2\<rparr>"

definition small_dir :: f2fs_dir where
  "small_dir = snd (make_empty_dir small_fmt (\<lambda>_. False) (new_dir small_fmt 3 0) 3 2)"

lemma small_env: "dir_env small_fmt (=) 100"
  by (simp add: dir_env_def small_fmt_def)

lemma small_dir_ok: "dir_ok small_fmt 100 small_dir" "dir_get small_fmt small_dir = new_map 3 2"
  unfolding small_dir_def by (rule make_empty_dir_ok(2), simp_all add: small_fmt_def) (rule make_empty_dir_ok(3) [where lim = 100], simp_all add: small_fmt_def)

lemma small_dir_task: "dir_task small_dir = None"
  by (simp add: small_dir_def make_empty_dir_def new_dir_def)

definition small_ops :: "dir_op list" where
  "small_ops = [Link 9 [97, 98] 5 S_IFREG (\<lambda>_. False) False, Lookup 9 [99] (\<lambda>_. True), Unlink 9 [97, 98] (\<lambda>b. b = 1) False]"

theorem dir_refines_map_witness:
  "guarded_run (dir_guard small_fmt) (dir_step small_fmt (=) 100) small_dir small_ops
    \<and> dir_get small_fmt (foldl (dir_step small_fmt (=) 100) small_dir small_ops)
        = map_run (dir_put small_fmt (=) 100) (dir_step small_fmt (=) 100) small_dir (new_map 3 2) small_ops"
proof -
  have g: "guarded_run (dir_guard small_fmt) (dir_step small_fmt (=) 100) small_dir small_ops" by (simp add: small_ops_def small_dir_task)
  show ?thesis using dir_refines_map [OF small_env small_dir_ok(1) g] g small_dir_ok(2) by simp
qed

text \<open>
  C10. \<open>f2fs_do_add_link\<close> returns, also when the table grows or the entries of the inode have to be rehashed. A name that is there is refused, a success adds exactly
  the name, and a failure leaves the map as it was.
\<close>

theorem f2fs_do_add_link_returns:
  assumes "dir_env f mt lim" "dir_ok f lim dir" "name \<noteq> []" "dir_task dir = Some cur \<longrightarrow> dir_get f dir name = None"
  shows "\<exists>err dir'. f2fs_do_add_link f mt (no_page lim bad) cur dir name ino mode meta = Some (err, dir') \<and> dir_ok f lim dir'
    \<and> (dir_get f dir name \<noteq> None \<longrightarrow> err = Some EEXIST \<or> err = Some EIO)
    \<and> dir_get f dir' = (if err = None then (dir_get f dir)(name \<mapsto> (ino, f2fs_type_by_mode mode)) else dir_get f dir)"
proof -
  have lim: "lim \<le> 4294967292" and mt: "\<And>n m. mt n m \<longleftrightarrow> n = m" and mx: "2 \<le> MAX_DIR_HASH_DEPTH f" using assms(1) by (simp_all add: dir_env_def)
  note L = dir_look_get [OF assms(2) lim, of name]
  have "\<forall>b. \<not> no_page lim bad b \<longrightarrow> b < lim" by (simp add: no_page_def)
  then obtain err dir' where A: "f2fs_do_add_link f mt (no_page lim bad) cur dir name ino mode meta = Some (err, dir')" "dir_ok f lim dir'"
    "dir_look f dir' = (if err = None then (dir_look f dir)(name := {(ino, f2fs_type_by_mode mode)}) else dir_look f dir)"
    "dir_look f dir name \<noteq> {} \<longrightarrow> err = Some EEXIST \<or> err = Some EIO"
    using f2fs_do_add_link_spec [OF assms(2) lim mt _ mx assms(3), of "no_page lim bad" cur ino mode meta] assms(4) L by auto
  moreover have "dir_get f dir' = (if err = None then (dir_get f dir)(name \<mapsto> (ino, f2fs_type_by_mode mode)) else dir_get f dir)"
    using A(3) dir_get_map [OF assms(2) A(2) lim, of name "Some (ino, f2fs_type_by_mode mode)"] dir_get_same [OF assms(2) A(2) lim] by (cases err) simp_all
  moreover have "dir_get f dir name \<noteq> None \<longrightarrow> dir_look f dir name \<noteq> {}" using L by auto
  ultimately show ?thesis by blast
qed

lemma small_add_ok: "map_option fst (f2fs_do_add_link small_fmt (=) (no_page 100 (\<lambda>_. False)) 9 small_dir [97] 5 S_IFREG False) = Some None"
  by code_simp

theorem f2fs_do_add_link_returns_witness:
  "(\<exists>dir'. f2fs_do_add_link small_fmt (=) (no_page 100 (\<lambda>_. False)) 9 small_dir [97] 5 S_IFREG False = Some (None, dir')
      \<and> dir_get small_fmt dir' = (new_map 3 2)([97] \<mapsto> (5, f2fs_type_by_mode S_IFREG)))
   \<and> (\<exists>err dir'. f2fs_do_add_link small_fmt (=) (no_page 100 (\<lambda>_. False)) 9 small_dir [46, 46] 5 S_IFREG False = Some (err, dir')
      \<and> (err = Some EEXIST \<or> err = Some EIO) \<and> dir_get small_fmt dir' = new_map 3 2)"
proof -
  let ?add = "\<lambda>n. f2fs_do_add_link small_fmt (=) (no_page 100 (\<lambda>_. False)) 9 small_dir n 5 S_IFREG False"
  have T: "\<exists>err dir'. ?add n = Some (err, dir') \<and> (new_map 3 2 n \<noteq> None \<longrightarrow> err = Some EEXIST \<or> err = Some EIO)
      \<and> dir_get small_fmt dir' = (if err = None then (new_map 3 2)(n \<mapsto> (5, f2fs_type_by_mode S_IFREG)) else new_map 3 2)" if "n \<noteq> []" for n
    using f2fs_do_add_link_returns [OF small_env small_dir_ok(1) that, of 9 "\<lambda>_. False" 5 S_IFREG False]
    by (auto simp: small_dir_task small_dir_ok(2))
  have "\<exists>dir'. ?add [97] = Some (None, dir') \<and> dir_get small_fmt dir' = (new_map 3 2)([97] \<mapsto> (5, f2fs_type_by_mode S_IFREG))"
    using T [of "[97]"] small_add_ok by fastforce
  moreover have "new_map 3 2 [46, 46] \<noteq> None" by (simp add: new_map_def)
  ultimately show ?thesis using T [of "[46, 46]"] by fastforce
qed

text \<open>
  C30. \<open>f2fs_readdir\<close> hands every entry of the directory to the caller exactly once: no name twice, and the entries are those that a lookup finds, with their inode
  numbers and types.
\<close>

theorem f2fs_readdir_lists_once:
  assumes "dir_ok f lim dir" "lim \<le> 4294967292"
  shows "\<exists>pos l. f2fs_readdir f collect (\<lambda>_. False) dir 0 [] = (False, pos, l) \<and> distinct (map fst l)
    \<and> set l = {(n, ino, f2fs_filetype_table t) |n ino t. dir_get f dir n = Some (ino, t)}"
  by (rule f2fs_readdir_exact [OF assms])

theorem f2fs_readdir_lists_once_witness:
  "\<exists>pos l. f2fs_readdir small_fmt collect (\<lambda>_. False) small_dir 0 [] = (False, pos, l) \<and> distinct (map fst l) \<and> set l = {([46], 3, DT_DIR), ([46, 46], 2, DT_DIR)}"
proof -
  have "{(n, ino, f2fs_filetype_table t) |n ino t. new_map 3 2 n = Some (ino, t)} = {([46], 3, DT_DIR), ([46, 46], 2, DT_DIR)}"
    by (auto simp: new_map_def split: if_splits)
  then show ?thesis using f2fs_readdir_lists_once [OF small_dir_ok(1)] by (simp add: small_dir_ok(2))
qed

text \<open>
  C31. \<open>f2fs_empty_dir\<close>, which \<open>rmdir\<close> and \<open>rename\<close> ask, is true exactly when the directory has no names besides the two dots, wherever its entries are.
\<close>

theorem f2fs_empty_dir_only_dots:
  assumes "1 \<le> F2FS_SLOT_LEN_BITS f" "dir_ok f lim dir" "lim \<le> 4294967292" "dots f dir"
  shows "f2fs_empty_dir f (\<lambda>_. False) dir \<longleftrightarrow> dom (dir_get f dir) = {[46], [46, 46]}"
  by (rule f2fs_empty_dir_exact [OF assms])

theorem f2fs_empty_dir_only_dots_witness: "dots small_fmt small_dir \<and> f2fs_empty_dir small_fmt (\<lambda>_. False) small_dir"
proof -
  have "i_inline small_dir = Some (f2fs_do_make_empty_dir small_fmt 3 S_IFDIR 2 S_IFDIR ((zero_block small_fmt)\<lparr>d_max := 3\<rparr>))"
    by (simp add: small_dir_def make_empty_dir_def new_dir_def)
  moreover have "blk_ok small_fmt ((zero_block small_fmt)\<lparr>d_max := 3\<rparr>)" by (simp add: blk_ok_def starts_def zero_block_def)
  ultimately have d: "dots small_fmt small_dir"
    using make_empty_block(3) [of small_fmt "(zero_block small_fmt)\<lparr>d_max := 3\<rparr>" 3 2] by (simp add: dots_def first_loc_def dir_in_def small_fmt_def zero_block_def)
  have "dom (dir_get small_fmt small_dir) = {[46], [46, 46]}" by (auto simp: small_dir_ok(2) new_map_def)
  then show ?thesis using d f2fs_empty_dir_only_dots [OF _ small_dir_ok(1) _ d] by (simp add: small_fmt_def)
qed

end
