(* ===== verification/Xattr_Ops.thy ===== *)
theory Xattr_Ops
  imports Bytes
begin

text \<open>
  Extended attributes, from \<open>src/xattr.c\<close> and \<open>src/xattr.h\<close>: a sequence of entries of varying size that starts in the inode and runs on in one block of its own. The model
  works on bytes, as the code does: the buffer both parts are read into is a memory with a size, and a read outside it is the error \<open>X_OUT_OF_BOUNDS\<close>. Page reads and
  allocations that fail are arguments; there is memory for buffers.
\<close>

record xattr_fmt =
  VALID_XATTR_BLOCK_SIZE :: nat
  F2FS_NAME_LEN :: nat

text \<open>An inode: the bytes reserved for attributes in it, the attribute block, if there is one, and the fields \<open>f2fs_setxattr\<close> changes besides;
  \<open>i_acl_mode\<close> is there while \<open>FI_ACL_MODE\<close> is set.\<close>

record xattr_inode =
  inline_xattr_size :: nat
  inline_xattr :: page
  xattr_block :: "page option"
  i_mode :: u16
  i_acl_mode :: "u16 option"
  encrypted :: bool
  need_cp :: bool

text \<open>What fails: reading the inode page or the attribute block, an id or a page for a new block.\<close>

record xattr_io =
  ipage_fails :: bool
  xpage_fails :: bool
  no_nid :: bool
  no_new_page :: bool
  dquot_fails :: bool
  cp_error :: bool

datatype x_err = X_ERANGE | X_ENODATA | X_E2BIG | X_EEXIST | X_ENOSPC | X_EIO | X_EINVAL | X_EACCES | X_ENOMEM | X_EDQUOT | X_OUT_OF_BOUNDS

subsection \<open>Entries\<close>

abbreviation (input) XATTR_HDR_SIZE :: nat where "XATTR_HDR_SIZE \<equiv> 24"
abbreviation (input) F2FS_XATTR_MAGIC :: u32 where "F2FS_XATTR_MAGIC \<equiv> 0xF2F52011"
abbreviation (input) XATTR_PADDING_SIZE :: nat where "XATTR_PADDING_SIZE \<equiv> 4"

definition XATTR_ALIGN :: "nat \<Rightarrow> nat" where
  "XATTR_ALIGN n = (n + 3) div 4 * 4"

definition e_name_index :: "page \<Rightarrow> nat \<Rightarrow> nat" where "e_name_index m a = unat (m a)"
definition e_name_len :: "page \<Rightarrow> nat \<Rightarrow> nat" where "e_name_len m a = unat (m (a + 1))"
definition e_value_size :: "page \<Rightarrow> nat \<Rightarrow> nat" where "e_value_size m a = unat (m (a + 2)) + 256 * unat (m (a + 3))"

definition ENTRY_SIZE :: "page \<Rightarrow> nat \<Rightarrow> nat" where
  "ENTRY_SIZE m a = XATTR_ALIGN (4 + e_name_len m a + e_value_size m a)"

definition XATTR_NEXT_ENTRY :: "page \<Rightarrow> nat \<Rightarrow> nat" where
  "XATTR_NEXT_ENTRY m a = a + ENTRY_SIZE m a"

definition IS_XATTR_LAST_ENTRY :: "page \<Rightarrow> nat \<Rightarrow> bool" where
  "IS_XATTR_LAST_ENTRY m a \<longleftrightarrow> u32_at m a = 0"

definition MIN_OFFSET :: "xattr_fmt \<Rightarrow> xattr_inode \<Rightarrow> nat" where
  "MIN_OFFSET f x = XATTR_ALIGN (inline_xattr_size x + VALID_XATTR_BLOCK_SIZE f)"

definition MAX_VALUE_LEN :: "xattr_fmt \<Rightarrow> xattr_inode \<Rightarrow> nat" where
  "MAX_VALUE_LEN f x = MIN_OFFSET f x - XATTR_HDR_SIZE - 4"

lemma XATTR_ALIGN_ge: "n \<le> XATTR_ALIGN n" "0 < n \<Longrightarrow> 4 \<le> XATTR_ALIGN n"
  by (auto simp: XATTR_ALIGN_def)

lemma NEXT_ENTRY_gt: "a + 4 \<le> XATTR_NEXT_ENTRY m a"
  using XATTR_ALIGN_ge(2) [of "4 + e_name_len m a + e_value_size m a"] by (simp add: XATTR_NEXT_ENTRY_def ENTRY_SIZE_def)

subsection \<open>Searching\<close>

text \<open>The entries are compared by index, length and name; the search is in a buffer of \<open>sz\<close> bytes.\<close>

function find_xattr :: "nat \<Rightarrow> page \<Rightarrow> nat \<Rightarrow> nat \<Rightarrow> u8 list \<Rightarrow> nat option" where
  "find_xattr sz m a index name =
     (if sz < a + 4 then None
      else if IS_XATTR_LAST_ENTRY m a then Some a
      else if e_name_index m a \<noteq> index \<or> e_name_len m a \<noteq> length name then find_xattr sz m (XATTR_NEXT_ENTRY m a) index name
      else if sz < a + 4 + length name then None
      else if mem_read m (a + 4) (length name) = name then Some a
      else find_xattr sz m (XATTR_NEXT_ENTRY m a) index name)"
  by pat_completeness auto
termination
proof (relation "measure (\<lambda>(sz, m, a, index, name). sz - a)", goal_cases)
  case (2 sz m a index name)
  then show ?case using NEXT_ENTRY_gt [of a m] by auto
next
  case (3 sz m a index name)
  then show ?case using NEXT_ENTRY_gt [of a m] by auto
qed simp

declare find_xattr.simps [simp del]

text \<open>The search in the inode stops in front of an entry that is not wholly there.\<close>

datatype inl_find = Found_At nat | Last_At nat

function find_inline_xattr :: "nat \<Rightarrow> nat \<Rightarrow> page \<Rightarrow> nat \<Rightarrow> nat \<Rightarrow> u8 list \<Rightarrow> inl_find option" where
  "find_inline_xattr inline_size sz m a index name =
     (if sz < a + 4 then None
      else if IS_XATTR_LAST_ENTRY m a then Some (Found_At a)
      else if a + 4 > inline_size \<or> XATTR_NEXT_ENTRY m a + 4 > inline_size then Some (Last_At a)
      else if e_name_index m a = index \<and> e_name_len m a = length name \<and> mem_read m (a + 4) (length name) = name then Some (Found_At a)
      else find_inline_xattr inline_size sz m (XATTR_NEXT_ENTRY m a) index name)"
  by pat_completeness auto
termination
proof (relation "measure (\<lambda>(isz, sz, m, a, index, name). sz - a)", goal_cases)
  case (2 isz sz m a index name)
  then show ?case using NEXT_ENTRY_gt [of a m] by auto
qed simp

declare find_inline_xattr.simps [simp del]

subsection \<open>Reading\<close>

text \<open>The buffer: the bytes of the inode, then those of the block, if it is read, then zeros.\<close>

definition read_inline_xattr :: "xattr_inode \<Rightarrow> page" where
  "read_inline_xattr x = (\<lambda>a. if a < inline_xattr_size x then inline_xattr x a else 0)"

definition read_xattr_block :: "xattr_fmt \<Rightarrow> xattr_inode \<Rightarrow> page \<Rightarrow> page" where
  "read_xattr_block f x txattr =
     (case xattr_block x of
        None \<Rightarrow> txattr
      | Some blk \<Rightarrow> (\<lambda>a. if inline_xattr_size x \<le> a \<and> a < inline_xattr_size x + VALID_XATTR_BLOCK_SIZE f then blk (a - inline_xattr_size x) else txattr a))"

definition lookup_all_xattrs :: "xattr_fmt \<Rightarrow> xattr_io \<Rightarrow> xattr_inode \<Rightarrow> nat \<Rightarrow> u8 list \<Rightarrow> x_err + nat \<times> nat \<times> page" where
  "lookup_all_xattrs f io x index name =
     (let size = (if xattr_block x = None then 0 else VALID_XATTR_BLOCK_SIZE f);
          inline_size = inline_xattr_size x;
          sz = inline_size + size + XATTR_PADDING_SIZE;
          check = (\<lambda>m xe. if IS_XATTR_LAST_ENTRY m xe then Inl X_ENODATA else Inr (xe, sz, m));
          search_block = (\<lambda>m cur. if xattr_block x \<noteq> None \<and> xpage_fails io then Inl X_EIO
             else let m = read_xattr_block f x m
                  in case find_xattr sz m cur index name of None \<Rightarrow> Inl X_OUT_OF_BOUNDS | Some xe \<Rightarrow> check m xe)
      in if size = 0 \<and> inline_size = 0 then Inl X_ENODATA
         else if inline_size \<noteq> 0
         then if ipage_fails io then Inl X_EIO
              else let m = read_inline_xattr x
                   in case find_inline_xattr inline_size sz m XATTR_HDR_SIZE index name of
                        None \<Rightarrow> Inl X_OUT_OF_BOUNDS
                      | Some (Found_At xe) \<Rightarrow> check m xe
                      | Some (Last_At last_addr) \<Rightarrow> search_block m last_addr
         else search_block (\<lambda>_. 0) XATTR_HDR_SIZE)"

text \<open>The header is written by whoever first sets an attribute.\<close>

definition init_header :: "page \<Rightarrow> page" where
  "init_header m = (if u32_at m 0 \<noteq> F2FS_XATTR_MAGIC then mem_write m 0 [0x11, 0x20, 0xF5, 0xF2, 1, 0, 0, 0] else m)"

definition read_all_xattrs :: "xattr_fmt \<Rightarrow> xattr_io \<Rightarrow> xattr_inode \<Rightarrow> x_err + page" where
  "read_all_xattrs f io x =
     (if inline_xattr_size x \<noteq> 0 \<and> ipage_fails io \<or> xattr_block x \<noteq> None \<and> xpage_fails io then Inl X_EIO
      else Inr (init_header (read_xattr_block f x (read_inline_xattr x))))"

text \<open>\<open>buffer\<close> is the size of the caller's buffer, if there is one; the results are the size of the value and what is copied.\<close>

definition f2fs_getxattr :: "xattr_fmt \<Rightarrow> xattr_io \<Rightarrow> xattr_inode \<Rightarrow> nat \<Rightarrow> u8 list \<Rightarrow> nat option \<Rightarrow> x_err + nat \<times> u8 list" where
  "f2fs_getxattr f io x index name buffer =
     (if length name > F2FS_NAME_LEN f then Inl X_ERANGE
      else case lookup_all_xattrs f io x index name of
             Inl e \<Rightarrow> Inl e
           | Inr (entry, sz, m) \<Rightarrow>
               (let size = e_value_size m entry
                in case buffer of
                     None \<Rightarrow> Inr (size, [])
                   | Some buffer_size \<Rightarrow>
                       if size > buffer_size then Inl X_ERANGE
                       else if sz < entry + 4 + e_name_len m entry + size then Inl X_OUT_OF_BOUNDS
                       else Inr (size, mem_read m (entry + 4 + e_name_len m entry) size)))"

subsection \<open>Writing\<close>

definition f2fs_truncate_xattr_node :: "xattr_io \<Rightarrow> xattr_inode \<Rightarrow> x_err option \<times> xattr_inode" where
  "f2fs_truncate_xattr_node io x =
     (if xattr_block x = None then (None, x)
      else if xpage_fails io then (Some X_EIO, x)
      else (None, x\<lparr>xattr_block := None\<rparr>))"

definition write_all_xattrs :: "xattr_fmt \<Rightarrow> xattr_io \<Rightarrow> xattr_inode \<Rightarrow> nat \<Rightarrow> page \<Rightarrow> x_err option \<times> xattr_inode" where
  "write_all_xattrs f io x hsize txattr =
     (let inline_size = inline_xattr_size x;
          inl = (\<lambda>a. if a < inline_size then txattr a else inline_xattr x a);
          blk = (\<lambda>old a. if a < VALID_XATTR_BLOCK_SIZE f then txattr (inline_size + a) else old a)
      in if hsize > inline_size \<and> xattr_block x = None \<and> no_nid io then (Some X_ENOSPC, x)
         else if inline_size \<noteq> 0 \<and> ipage_fails io then (Some X_EIO, x)
         else if inline_size \<noteq> 0 \<and> hsize \<le> inline_size
         then (case f2fs_truncate_xattr_node io x of
                 (Some e, x) \<Rightarrow> (Some e, x)
               | (None, x) \<Rightarrow> (None, x\<lparr>inline_xattr := inl\<rparr>))
         else case xattr_block x of
                Some old \<Rightarrow> if xpage_fails io then (Some X_EIO, x) else (None, x\<lparr>inline_xattr := inl, xattr_block := Some (blk old)\<rparr>)
              | None \<Rightarrow> if no_new_page io then (Some X_ENOSPC, x) else (None, x\<lparr>inline_xattr := inl, xattr_block := Some (blk (\<lambda>_. 0))\<rparr>))"

function last_xattr :: "nat \<Rightarrow> page \<Rightarrow> nat \<Rightarrow> nat option" where
  "last_xattr sz m a =
     (if sz < a + 4 then None else if IS_XATTR_LAST_ENTRY m a then Some a else last_xattr sz m (XATTR_NEXT_ENTRY m a))"
  by pat_completeness auto
termination
proof (relation "measure (\<lambda>(sz, m, a). sz - a)", goal_cases)
  case (2 sz m a)
  then show ?case using NEXT_ENTRY_gt [of a m] by auto
qed simp

declare last_xattr.simps [simp del]

definition f2fs_xattr_value_same :: "page \<Rightarrow> nat \<Rightarrow> u8 list \<Rightarrow> bool" where
  "f2fs_xattr_value_same m a value \<longleftrightarrow> e_value_size m a = length value \<and> mem_read m (a + 4 + e_name_len m a) (length value) = value"

definition remove_entry :: "page \<Rightarrow> nat \<Rightarrow> nat \<Rightarrow> page \<times> nat" where
  "remove_entry m here lastp =
     (let next = XATTR_NEXT_ENTRY m here;
          oldsize = ENTRY_SIZE m here;
          m = mem_write m here (mem_read m next (lastp - next));
          lastp = lastp - oldsize
      in (mem_write m lastp (replicate oldsize 0), lastp))"

definition write_entry :: "page \<Rightarrow> nat \<Rightarrow> nat \<Rightarrow> u8 list \<Rightarrow> u8 list \<Rightarrow> page" where
  "write_entry m lastp index name value =
     (let m = mem_write m lastp [of_nat index, of_nat (length name)];
          m = mem_write m (lastp + 4) name;
          m = mem_write m (lastp + 4 + length name) value
      in mem_write m (lastp + 2) [of_nat (length value mod 256), of_nat (length value div 256)])"

text \<open>The end of a successful call: mode, encryption flag and the request for a checkpoint.\<close>

definition F2FS_XATTR_INDEX_ENCRYPTION :: nat where "F2FS_XATTR_INDEX_ENCRYPTION = 9"

definition S_ISDIR :: "u16 \<Rightarrow> bool" where "S_ISDIR mode \<longleftrightarrow> mode AND 0xF000 = 0x4000"

definition setxattr_done :: "nat \<Rightarrow> u8 list \<Rightarrow> xattr_inode \<Rightarrow> xattr_inode" where
  "setxattr_done index name x =
     (let x = (case i_acl_mode x of None \<Rightarrow> x | Some mode \<Rightarrow> x\<lparr>i_mode := mode, i_acl_mode := None\<rparr>);
          x = (if index = F2FS_XATTR_INDEX_ENCRYPTION \<and> name = [99] then x\<lparr>encrypted := True\<rparr> else x)
      in if S_ISDIR (i_mode x) then x\<lparr>need_cp := True\<rparr> else x)"

text \<open>
  The work of \<open>__f2fs_setxattr\<close>. Without a value the attribute is removed. The flags are
  \<open>XATTR_CREATE\<close> and \<open>XATTR_REPLACE\<close>.
\<close>

definition setxattr_body :: "xattr_fmt \<Rightarrow> xattr_io \<Rightarrow> xattr_inode \<Rightarrow> nat \<Rightarrow> u8 list \<Rightarrow> u8 list option \<Rightarrow> bool \<Rightarrow> bool \<Rightarrow> x_err option \<times> xattr_inode" where
  "setxattr_body f io x index name value create repl =
     (let size = (case value of None \<Rightarrow> 0 | Some v \<Rightarrow> length v);
          len = length name;
          sz = inline_xattr_size x + VALID_XATTR_BLOCK_SIZE f + XATTR_PADDING_SIZE
      in if len > F2FS_NAME_LEN f then (Some X_ERANGE, x)
         else if size > MAX_VALUE_LEN f x then (Some X_E2BIG, x)
         else case read_all_xattrs f io x of
                Inl e \<Rightarrow> (Some e, x)
              | Inr m \<Rightarrow>
                  (case find_xattr sz m XATTR_HDR_SIZE index name of
                     None \<Rightarrow> (Some X_OUT_OF_BOUNDS, x)
                   | Some here \<Rightarrow>
                       (let found = (\<not> IS_XATTR_LAST_ENTRY m here)
                        in if found \<and> create then (Some X_EEXIST, x)
                           else if found \<and> (case value of None \<Rightarrow> False | Some v \<Rightarrow> f2fs_xattr_value_same m here v) then (None, x)
                           else if \<not> found \<and> repl then (Some X_ENODATA, x)
                           else case last_xattr sz m here of
                                  None \<Rightarrow> (Some X_OUT_OF_BOUNDS, x)
                                | Some lastp \<Rightarrow>
                                    (let newsize = XATTR_ALIGN (4 + len + size);
                                         free = int (MIN_OFFSET f x) - int lastp + (if found then int (ENTRY_SIZE m here) else 0)
                                     in if value \<noteq> None \<and> free < int newsize then (Some X_E2BIG, x)
                                        else let (m, lastp) = (if found then remove_entry m here lastp else (m, lastp));
                                                 (m, hsize) = (case value of None \<Rightarrow> (m, lastp) | Some v \<Rightarrow> (write_entry m lastp index name v, lastp + newsize))
                                             in case write_all_xattrs f io x hsize m of
                                                  (Some e, x) \<Rightarrow> (Some e, x)
                                                | (None, x) \<Rightarrow> (None, setxattr_done index name x)))))"

text \<open>The call: \<open>dquot_initialize\<close> may fail, and then nothing is done.\<close>

definition f2fs_setxattr :: "xattr_fmt \<Rightarrow> xattr_io \<Rightarrow> xattr_inode \<Rightarrow> nat \<Rightarrow> u8 list \<Rightarrow> u8 list option \<Rightarrow> bool \<Rightarrow> bool \<Rightarrow> x_err option \<times> xattr_inode" where
  "f2fs_setxattr f io x index name value create repl =
     (if dquot_fails io then (Some X_EDQUOT, x) else setxattr_body f io x index name value create repl)"

subsection \<open>Listing\<close>

text \<open>
  The prefix of the names of an index, when they are listed: user attributes if the volume has them, trusted ones for the administrator. The handlers of the
  access control lists belong to the kernel: \<open>acl_prefix\<close>.
\<close>

record xattr_opts =
  opt_xattr_user :: bool
  sys_admin :: bool
  acl_prefix :: "nat \<Rightarrow> u8 list option"

definition f2fs_xattr_handler :: "xattr_opts \<Rightarrow> nat \<Rightarrow> u8 list option" where
  "f2fs_xattr_handler o' index =
     (if index = 1 then (if opt_xattr_user o' then Some (map (of_nat \<circ> of_char) ''user.'') else None)
      else if index = 2 \<or> index = 3 then acl_prefix o' index
      else if index = 4 then (if sys_admin o' then Some (map (of_nat \<circ> of_char) ''trusted.'') else None)
      else if index = 6 then Some (map (of_nat \<circ> of_char) ''security.'')
      else if index = 7 then Some (map (of_nat \<circ> of_char) ''system.advise'')
      else None)"

function list_loop :: "xattr_opts \<Rightarrow> nat \<Rightarrow> page \<Rightarrow> nat \<Rightarrow> nat option \<Rightarrow> u8 list \<Rightarrow> x_err + u8 list" where
  "list_loop o' sz m a buffer out =
     (if sz < a + 4 then Inl X_OUT_OF_BOUNDS
      else if IS_XATTR_LAST_ENTRY m a then Inr out
      else case f2fs_xattr_handler o' (e_name_index m a) of
             None \<Rightarrow> list_loop o' sz m (XATTR_NEXT_ENTRY m a) buffer out
           | Some prefix \<Rightarrow>
               (let item = prefix @ mem_read m (a + 4) (e_name_len m a) @ [0]
                in if (case buffer of None \<Rightarrow> False | Some n \<Rightarrow> length out + length item > n) then Inl X_ERANGE
                   else list_loop o' sz m (XATTR_NEXT_ENTRY m a) buffer (out @ item)))"
  by pat_completeness auto
termination
proof (relation "measure (\<lambda>(o', sz, m, a, buffer, out). sz - a)", goal_cases)
  case (2 o' sz m a buffer out)
  then show ?case using NEXT_ENTRY_gt [of a m] by auto
next
  case (3 o' sz m a buffer out)
  then show ?case using NEXT_ENTRY_gt [of a m] by auto
qed simp

declare list_loop.simps [simp del]

definition f2fs_listxattr :: "xattr_fmt \<Rightarrow> xattr_io \<Rightarrow> xattr_opts \<Rightarrow> xattr_inode \<Rightarrow> nat option \<Rightarrow> x_err + u8 list" where
  "f2fs_listxattr f io o' x buffer =
     (case read_all_xattrs f io x of
        Inl e \<Rightarrow> Inl e
      | Inr m \<Rightarrow> list_loop o' (inline_xattr_size x + VALID_XATTR_BLOCK_SIZE f + XATTR_PADDING_SIZE) m XATTR_HDR_SIZE buffer [])"

end
