(* ===== verification/Xattr_Map.thy ===== *)
theory Xattr_Map
  imports Xattr_Ops Backed_Map
begin

text \<open>
  The bytes of the attributes as a list of entries, and the attributes of an inode as a map from index and name to a value. Searches stay inside the buffer
  and find what the list holds; setting an attribute changes the map there only, whatever fails.
\<close>

subsection \<open>Entries as bytes\<close>

type_synonym xent = "(nat \<times> u8 list) \<times> u8 list"

definition esize :: "xent \<Rightarrow> nat" where
  "esize e = XATTR_ALIGN (4 + length (snd (fst e)) + length (snd e))"

definition enc :: "xent \<Rightarrow> u8 list" where
  "enc e = (case e of ((i, n), v) \<Rightarrow> [of_nat i, of_nat (length n), of_nat (length v mod 256), of_nat (length v div 256)] @ n @ v
     @ replicate (esize e - (4 + length n + length v)) 0)"

definition ent_ok :: "xent \<Rightarrow> bool" where
  "ent_ok e = (case e of ((i, n), v) \<Rightarrow> 0 < i \<and> i < 256 \<and> length n < 256 \<and> length v < 65536)"

abbreviation encs :: "xent list \<Rightarrow> u8 list" where
  "encs es \<equiv> concat (map enc es)"

definition seg :: "page \<Rightarrow> nat \<Rightarrow> xent list \<Rightarrow> bool" where
  "seg m a es \<longleftrightarrow> mem_read m a (length (encs es)) = encs es"

lemma length_enc [simp]: "length (enc e) = esize e"
proof -
  obtain i n v where e: "e = ((i, n), v)" by (metis surj_pair)
  have "4 + length n + length v \<le> esize e" unfolding e esize_def by (simp add: XATTR_ALIGN_ge(1))
  then show ?thesis unfolding e enc_def by simp
qed

lemma esize_ge: "4 + length n + length v \<le> esize ((i, n), v)"
  by (simp add: esize_def XATTR_ALIGN_ge(1))

lemma esize_dvd: "4 dvd esize e"
  by (simp add: esize_def XATTR_ALIGN_def)

lemma encs_dvd: "4 dvd length (encs es)"
  by (induction es) (simp_all add: esize_dvd)

lemma seg_Nil [simp]: "seg m a []"
  by (simp add: seg_def mem_read_def)

lemma seg_Cons: "seg m a (e # es) \<longleftrightarrow> mem_read m a (esize e) = enc e \<and> seg m (a + esize e) es"
  by (simp add: seg_def mem_read_append append_eq_append_conv)

lemma seg_append: "seg m a (es @ es') \<longleftrightarrow> seg m a es \<and> seg m (a + length (encs es)) es'"
  by (simp add: seg_def mem_read_append append_eq_append_conv)

lemma seg_cong: "(\<And>x. a \<le> x \<Longrightarrow> x < a + length (encs es) \<Longrightarrow> m x = m' x) \<Longrightarrow> seg m a es \<longleftrightarrow> seg m' a es"
  unfolding seg_def using mem_read_cong [of a "length (encs es)" m m'] by simp

lemma enc_nth:
  assumes "ent_ok e" and e: "e = ((i, n), v)"
  shows "unat (enc e ! 0) = i" "unat (enc e ! 1) = length n" "unat (enc e ! 2) + 256 * unat (enc e ! 3) = length v"
    "j < length n \<Longrightarrow> enc e ! (4 + j) = n ! j" "j < length v \<Longrightarrow> enc e ! (4 + length n + j) = v ! j"
proof -
  have b: "0 < i" "i < 256" "length n < 256" "length v < 65536" using assms by (auto simp: ent_ok_def)
  have u: "unat (of_nat k :: u8) = k" if "k < 256" for k using that by (simp add: unat_of_nat take_bit_nat_eq_self)
  have d: "length v div 256 < 256" using b(4) by simp
  have h: "enc e ! 0 = of_nat i" "enc e ! 1 = of_nat (length n)" "enc e ! 2 = of_nat (length v mod 256)" "enc e ! 3 = of_nat (length v div 256)"
    by (simp_all add: e enc_def numeral_2_eq_2 numeral_3_eq_3)
  show "unat (enc e ! 0) = i" "unat (enc e ! 1) = length n" unfolding h by (rule u [OF b(2)], rule u [OF b(3)])
  show "unat (enc e ! 2) + 256 * unat (enc e ! 3) = length v" unfolding h u [OF d] using u [of "length v mod 256"] by simp
  show "j < length n \<Longrightarrow> enc e ! (4 + j) = n ! j" "j < length v \<Longrightarrow> enc e ! (4 + length n + j) = v ! j" by (simp_all add: e enc_def nth_append)
qed

lemma entry_fields:
  assumes r: "mem_read m a (esize e) = enc e" and ok: "ent_ok e" and e: "e = ((i, n), v)"
  shows "e_name_index m a = i" "e_name_len m a = length n" "e_value_size m a = length v" "ENTRY_SIZE m a = esize e" "XATTR_NEXT_ENTRY m a = a + esize e"
    "mem_read m (a + 4) (length n) = n" "mem_read m (a + 4 + length n) (length v) = v" "\<not> IS_XATTR_LAST_ENTRY m a"
proof -
  have ge: "4 + length n + length v \<le> esize e" unfolding e by (rule esize_ge)
  have at: "m (a + j) = enc e ! j" if "j < esize e" for j using r that unfolding mem_read_eq_iff by blast
  have b: "m a = enc e ! 0" "m (a + 1) = enc e ! 1" "m (a + 2) = enc e ! 2" "m (a + 3) = enc e ! 3" using at [of 0] at [of 1] at [of 2] at [of 3] ge by simp_all
  note N = enc_nth [OF ok e]
  show f: "e_name_index m a = i" "e_name_len m a = length n" "e_value_size m a = length v"
    using N(1-3) by (simp_all only: e_name_index_def e_name_len_def e_value_size_def b)
  then show s: "ENTRY_SIZE m a = esize e" by (simp add: ENTRY_SIZE_def e esize_def)
  then show "XATTR_NEXT_ENTRY m a = a + esize e" by (simp add: XATTR_NEXT_ENTRY_def)
  show "mem_read m (a + 4) (length n) = n" unfolding mem_read_eq_iff using at N(4) ge by (auto simp: add.assoc)
  show "mem_read m (a + 4 + length n) (length v) = v" unfolding mem_read_eq_iff using at N(5) ge by (auto simp: add.assoc)
  have "0 < i" using ok e by (simp add: ent_ok_def)
  then have "m a \<noteq> 0" using f(1) by (auto simp: e_name_index_def)
  then show "\<not> IS_XATTR_LAST_ENTRY m a" unfolding IS_XATTR_LAST_ENTRY_def by (rule contrapos_nn) (rule u32_at_0D)
qed

subsection \<open>Searching\<close>

text \<open>A list of entries in memory, followed by the zero word that ends it.\<close>

definition ended :: "page \<Rightarrow> nat \<Rightarrow> xent list \<Rightarrow> bool" where
  "ended m a es \<longleftrightarrow> seg m a es \<and> (\<forall>e \<in> set es. ent_ok e) \<and> (\<forall>y \<ge> a + length (encs es). m y = 0)"

abbreviation before :: "nat \<times> u8 list \<Rightarrow> xent list \<Rightarrow> xent list" where
  "before k es \<equiv> takeWhile (\<lambda>e. fst e \<noteq> k) es"

lemma ended_Nil: "ended m a [] \<Longrightarrow> IS_XATTR_LAST_ENTRY m a"
  unfolding IS_XATTR_LAST_ENTRY_def by (rule u32_at_0I) (simp add: ended_def)

lemma ended_Cons: "ended m a (e # es) \<longleftrightarrow> mem_read m a (esize e) = enc e \<and> ent_ok e \<and> ended m (a + esize e) es"
  by (auto simp: ended_def seg_Cons add.assoc)

lemma find_xattr_ended:
  assumes "ended m a es" "a + length (encs es) + 4 \<le> sz"
  shows "find_xattr sz m a i n = Some (a + length (encs (before (i, n) es)))"
  using assms
proof (induction es arbitrary: a)
  case Nil
  then show ?case using ended_Nil by (subst find_xattr.simps) simp
next
  case (Cons e es)
  obtain i' n' v where e: "e = ((i', n'), v)" by (metis surj_pair)
  have E: "mem_read m a (esize e) = enc e" "ent_ok e" "ended m (a + esize e) es" using Cons.prems(1) by (simp_all add: ended_Cons)
  note F = entry_fields [OF E(1,2) e]
  have "4 + length n' \<le> esize e" using esize_ge [of n' v i'] by (simp add: e)
  then have sz: "a + 4 + length n' \<le> sz" using Cons.prems(2) by simp
  show ?case
  proof (cases "(i', n') = (i, n)")
    case True
    then show ?thesis using F sz by (subst find_xattr.simps) (simp add: e)
  next
    case False
    have "find_xattr sz m a i n = find_xattr sz m (a + esize e) i n"
      using F sz False by (subst find_xattr.simps) auto
    moreover have "a + esize e + length (encs es) + 4 \<le> sz" using Cons.prems(2) by simp
    ultimately show ?thesis using Cons.IH [OF E(3)] False by (simp add: e)
  qed
qed

lemma last_xattr_ended:
  assumes "ended m a es" "a + length (encs es) + 4 \<le> sz"
  shows "last_xattr sz m a = Some (a + length (encs es))"
  using assms
proof (induction es arbitrary: a)
  case Nil
  then show ?case using ended_Nil by (subst last_xattr.simps) simp
next
  case (Cons e es)
  obtain i' n' v where e: "e = ((i', n'), v)" by (metis surj_pair)
  have E: "mem_read m a (esize e) = enc e" "ent_ok e" "ended m (a + esize e) es" using Cons.prems(1) by (simp_all add: ended_Cons)
  note F = entry_fields [OF E(1,2) e]
  have "4 \<le> esize e" using esize_ge [of n' v i'] by (simp add: e)
  then have "last_xattr sz m a = last_xattr sz m (a + esize e)" using F Cons.prems(2) by (subst last_xattr.simps) simp
  then show ?case using Cons.IH [OF E(3)] Cons.prems(2) by (simp add: add.assoc)
qed

lemma before_split:
  assumes "k \<in> fst ` set es"
  shows "\<exists>v es2. es = before k es @ (k, v) # es2"
proof -
  have ne: "dropWhile (\<lambda>e. fst e \<noteq> k) es \<noteq> []" using assms by (auto simp: dropWhile_eq_Nil_conv)
  then obtain e es2 where d: "dropWhile (\<lambda>e. fst e \<noteq> k) es = e # es2" by (cases "dropWhile (\<lambda>e. fst e \<noteq> k) es") auto
  then have "fst e = k" using hd_dropWhile [OF ne] by simp
  then have "es = before k es @ (k, snd e) # es2" using takeWhile_dropWhile_id [of "\<lambda>e. fst e \<noteq> k" es] d by (metis prod.collapse)
  then show ?thesis by blast
qed

lemma before_none: "k \<notin> fst ` set es \<Longrightarrow> before k es = es"
  by (rule takeWhile_eq_all_conv [THEN iffD2]) auto

lemma ended_append: "ended m a (es @ es') \<longleftrightarrow> seg m a es \<and> (\<forall>e \<in> set es. ent_ok e) \<and> ended m (a + length (encs es)) es'"
  by (auto simp: ended_def seg_append add.assoc)

lemma found_entry:
  assumes "ended m a es" and p: "p = a + length (encs (before k es))"
  shows "IS_XATTR_LAST_ENTRY m p \<longleftrightarrow> k \<notin> fst ` set es"
    "k \<in> fst ` set es \<Longrightarrow> \<exists>v. map_of es k = Some v \<and> ent_ok (k, v) \<and> mem_read m p (esize (k, v)) = enc (k, v) \<and> p + esize (k, v) \<le> a + length (encs es)"
proof -
  have in': "\<exists>v. map_of es k = Some v \<and> ent_ok (k, v) \<and> mem_read m p (esize (k, v)) = enc (k, v) \<and> p + esize (k, v) \<le> a + length (encs es)"
    if kk: "k \<in> fst ` set es"
  proof -
    obtain v es2 where s: "es = before k es @ (k, v) # es2" using before_split [OF kk] by blast
    have "k \<notin> fst ` set (before k es)" using set_takeWhileD by fastforce
    then have "map_of es k = Some v" by (subst s) (simp add: map_add_def map_of_eq_None_iff [THEN iffD2])
    moreover have "ended m p ((k, v) # es2)" using assms(1) unfolding p by (subst (asm) s) (simp add: ended_append)
    moreover have "length (encs es) = length (encs (before k es)) + esize (k, v) + length (encs es2)" by (subst s) simp
    ultimately show ?thesis using p by (auto simp: ended_Cons)
  qed
  then show "k \<in> fst ` set es \<Longrightarrow> \<exists>v. map_of es k = Some v \<and> ent_ok (k, v) \<and> mem_read m p (esize (k, v)) = enc (k, v) \<and> p + esize (k, v) \<le> a + length (encs es)" .
  show "IS_XATTR_LAST_ENTRY m p \<longleftrightarrow> k \<notin> fst ` set es"
  proof (cases "k \<in> fst ` set es")
    case True
    then obtain v where v: "ent_ok (k, v)" "mem_read m p (esize (k, v)) = enc (k, v)" using in' by blast
    have "(k, v) = ((fst k, snd k), v)" by simp
    then have "\<not> IS_XATTR_LAST_ENTRY m p" by (rule entry_fields(8) [OF v(2,1)])
    then show ?thesis using True by blast
  next
    case False
    then have "ended m p []" using assms by (simp add: before_none ended_def)
    then show ?thesis using False ended_Nil by simp
  qed
qed

text \<open>The search in the inode sees the same entries, up to the one it stops at.\<close>

lemma find_inline_ended:
  assumes "ended m a es" "\<forall>y < isz. m0 y = m y" "a + 4 \<le> isz" "isz \<le> sz"
  shows "(find_inline_xattr isz sz m0 a i n = Some (Found_At (a + length (encs (before (i, n) es))))
      \<and> a + length (encs (before (i, n) es)) + 4 \<le> isz
      \<and> (\<forall>v es2. es = before (i, n) es @ ((i, n), v) # es2 \<longrightarrow> a + length (encs (before (i, n) es)) + esize ((i, n), v) \<le> isz))
    \<or> (\<exists>es1 es2. find_inline_xattr isz sz m0 a i n = Some (Last_At (a + length (encs es1))) \<and> es = es1 @ es2 \<and> (i, n) \<notin> fst ` set es1)"
  using assms(1,3)
proof (induction es arbitrary: a)
  case Nil
  have "IS_XATTR_LAST_ENTRY m0 a" using Nil assms(2) by (simp add: ended_def IS_XATTR_LAST_ENTRY_def u32_at_0I)
  then show ?case using Nil assms(4) by (subst find_inline_xattr.simps) simp
next
  case (Cons e es)
  obtain i' n' v where e: "e = ((i', n'), v)" by (metis surj_pair)
  have E: "mem_read m a (esize e) = enc e" "ent_ok e" "ended m (a + esize e) es" using Cons.prems(1) by (simp_all add: ended_Cons)
  note F = entry_fields [OF E(1,2) e]
  have b: "m0 a = m a" "m0 (a + 1) = m (a + 1)" "m0 (a + 2) = m (a + 2)" "m0 (a + 3) = m (a + 3)" using Cons.prems(2) assms(2) by simp_all
  have F0: "e_name_index m0 a = i'" "e_name_len m0 a = length n'" "XATTR_NEXT_ENTRY m0 a = a + esize e" "\<not> IS_XATTR_LAST_ENTRY m0 a"
    using F(1,2,5,8) by (simp_all only: e_name_index_def e_name_len_def XATTR_NEXT_ENTRY_def ENTRY_SIZE_def e_value_size_def IS_XATTR_LAST_ENTRY_def u32_at_def b not_False_eq_True)
  have ge: "4 + length n' + length v \<le> esize e" using esize_ge [of n' v i'] by (simp add: e)
  show ?case
  proof (cases "isz < a + esize e + 4")
    case True
    then have "find_inline_xattr isz sz m0 a i n = Some (Last_At a)" using F0 Cons.prems(2) assms(4) by (subst find_inline_xattr.simps) simp
    then show ?thesis by (intro disjI2 exI [of _ "[]"] exI [of _ "e # es"]) simp
  next
    case False
    then have nm: "mem_read m0 (a + 4) (length n') = n'" using F(6) ge assms(2) mem_read_cong [of "a + 4" "length n'" m0 m] by simp
    show ?thesis
    proof (cases "(i', n') = (i, n)")
      case True
      then have "find_inline_xattr isz sz m0 a i n = Some (Found_At a)" using F0 nm False Cons.prems(2) assms(4) by (subst find_inline_xattr.simps) simp
      then show ?thesis using True False Cons.prems(2) by (intro disjI1) (auto simp: e)
    next
      case k: False
      have st: "find_inline_xattr isz sz m0 a i n = find_inline_xattr isz sz m0 (a + esize e) i n"
        using F0 nm False k Cons.prems(2) assms(4) by (subst find_inline_xattr.simps) auto
      have "a + esize e + 4 \<le> isz" using False by simp
      from Cons.IH [OF E(3) this] show ?thesis
      proof (elim disjE exE conjE)
        fix es1 es2 assume a: "find_inline_xattr isz sz m0 (a + esize e) i n = Some (Last_At (a + esize e + length (encs es1)))" "es = es1 @ es2" "(i, n) \<notin> fst ` set es1"
        then have "find_inline_xattr isz sz m0 a i n = Some (Last_At (a + length (encs (e # es1)))) \<and> e # es = (e # es1) @ es2 \<and> (i, n) \<notin> fst ` set (e # es1)"
          using k by (auto simp: st e add.assoc)
        then show ?thesis by blast
      next
        assume a: "find_inline_xattr isz sz m0 (a + esize e) i n = Some (Found_At (a + esize e + length (encs (before (i, n) es))))"
          "a + esize e + length (encs (before (i, n) es)) + 4 \<le> isz"
          "\<forall>v es2. es = before (i, n) es @ ((i, n), v) # es2 \<longrightarrow> a + esize e + length (encs (before (i, n) es)) + esize ((i, n), v) \<le> isz"
        then show ?thesis using k by (intro disjI1) (simp add: st e add.assoc)
      qed
    qed
  qed
qed

subsection \<open>The attributes of an inode\<close>

definition xfmt_ok :: "xattr_fmt \<Rightarrow> bool" where
  "xfmt_ok f \<longleftrightarrow> 28 \<le> VALID_XATTR_BLOCK_SIZE f \<and> 4 dvd VALID_XATTR_BLOCK_SIZE f \<and> F2FS_NAME_LEN f < 256"

definition x_mem :: "xattr_fmt \<Rightarrow> xattr_inode \<Rightarrow> page" where
  "x_mem f x = read_xattr_block f x (read_inline_xattr x)"

text \<open>
  The room in the inode is none or at least the header and one word; without a block all entries are in the inode.
\<close>

definition x_inv :: "xattr_fmt \<Rightarrow> xattr_inode \<Rightarrow> xent list \<Rightarrow> bool" where
  "x_inv f x es \<longleftrightarrow> ended (x_mem f x) 24 es \<and> distinct (map fst es) \<and> 24 + length (encs es) \<le> inline_xattr_size x + VALID_XATTR_BLOCK_SIZE f
     \<and> (xattr_block x = None \<longrightarrow> es = [] \<and> inline_xattr_size x = 0 \<or> 24 + length (encs es) \<le> inline_xattr_size x)
     \<and> (inline_xattr_size x = 0 \<or> 28 \<le> inline_xattr_size x) \<and> 4 dvd inline_xattr_size x \<and> inline_xattr_size x + VALID_XATTR_BLOCK_SIZE f < 65536"

lemma x_mem_inline: "y < inline_xattr_size x \<Longrightarrow> read_inline_xattr x y = x_mem f x y"
  by (simp add: x_mem_def read_xattr_block_def split: option.split)

lemma x_mem_above: "inline_xattr_size x + VALID_XATTR_BLOCK_SIZE f \<le> y \<Longrightarrow> x_mem f x y = 0"
  by (simp add: x_mem_def read_xattr_block_def read_inline_xattr_def split: option.split)

lemma map_of_before: "distinct (map fst es) \<Longrightarrow> es = before k es @ (k, v) # es2 \<Longrightarrow> map_of es k = Some v"
  by (metis in_set_conv_decomp map_of_is_SomeI)

lemma lookup_all_xattrs_spec:
  assumes inv: "x_inv f x es"
  shows "lookup_all_xattrs f io x i n = Inl X_EIO \<and> (ipage_fails io \<or> xpage_fails io)
    \<or> lookup_all_xattrs f io x i n = Inl X_ENODATA \<and> map_of es (i, n) = None
    \<or> (\<exists>p sz m v. lookup_all_xattrs f io x i n = Inr (p, sz, m) \<and> map_of es (i, n) = Some v \<and> ent_ok ((i, n), v)
         \<and> mem_read m p (esize ((i, n), v)) = enc ((i, n), v) \<and> p + esize ((i, n), v) \<le> sz)"
proof -
  let ?M = "x_mem f x" and ?isz = "inline_xattr_size x" and ?p = "24 + length (encs (before (i, n) es))"
  let ?sz = "?isz + (if xattr_block x = None then 0 else VALID_XATTR_BLOCK_SIZE f) + 4"
  have E: "ended ?M 24 es" and fit: "24 + length (encs es) \<le> ?isz + VALID_XATTR_BLOCK_SIZE f" and dist: "distinct (map fst es)"
    and none: "xattr_block x = None \<Longrightarrow> es = [] \<and> ?isz = 0 \<or> 24 + length (encs es) \<le> ?isz" and isz: "?isz = 0 \<or> 28 \<le> ?isz" using inv by (auto simp: x_inv_def)
  note F = found_entry [OF E refl, of "(i, n)"]
  have hit: "(if IS_XATTR_LAST_ENTRY ?M ?p then Inl X_ENODATA else Inr (?p, ?sz, ?M)) = Inl X_ENODATA \<and> map_of es (i, n) = None
    \<or> (\<exists>v. (if IS_XATTR_LAST_ENTRY ?M ?p then Inl X_ENODATA else Inr (?p, ?sz, ?M)) = Inr (?p, ?sz, ?M) \<and> map_of es (i, n) = Some v \<and> ent_ok ((i, n), v)
         \<and> mem_read ?M ?p (esize ((i, n), v)) = enc ((i, n), v) \<and> ?p + esize ((i, n), v) \<le> 24 + length (encs es))"
  proof (cases "(i, n) \<in> fst ` set es")
    case True
    then show ?thesis using F by auto
  next
    case False
    then show ?thesis using F(1) by (simp add: map_of_eq_None_iff)
  qed
  show ?thesis
  proof (cases "xattr_block x = None \<and> ?isz = 0")
    case True
    then have "es = []" using none by auto
    then show ?thesis using True by (simp add: lookup_all_xattrs_def Let_def)
  next
    case False
    have ends: "24 + length (encs es) + 4 \<le> ?sz" using False none fit by (cases "xattr_block x = None") auto
    have from_block: "(case find_xattr ?sz ?M cur i n of None \<Rightarrow> Inl X_OUT_OF_BOUNDS | Some xe \<Rightarrow> if IS_XATTR_LAST_ENTRY ?M xe then Inl X_ENODATA else Inr (xe, ?sz, ?M))
        = (if IS_XATTR_LAST_ENTRY ?M ?p then Inl X_ENODATA else Inr (?p, ?sz, ?M))"
      if c: "es = es1 @ es2" "(i, n) \<notin> fst ` set es1" "cur = 24 + length (encs es1)" for cur es1 es2
    proof -
      have "ended ?M cur es2" using E c by (simp add: ended_append)
      then have "find_xattr ?sz ?M cur i n = Some (cur + length (encs (before (i, n) es2)))" using ends c by (intro find_xattr_ended) simp_all
      moreover have "cur + length (encs (before (i, n) es2)) = ?p"
      proof -
        have "before (i, n) es = es1 @ before (i, n) es2" using c(1,2) by (simp add: takeWhile_append) force
        then show ?thesis using c(3) by simp
      qed
      ultimately show ?thesis by simp
    qed
    show ?thesis
    proof (cases "?isz = 0")
      case True
      have M: "read_xattr_block f x (\<lambda>_. 0) = ?M" using True by (simp add: x_mem_def read_inline_xattr_def)
      have "lookup_all_xattrs f io x i n = (if xattr_block x \<noteq> None \<and> xpage_fails io then Inl X_EIO
        else (case find_xattr ?sz ?M 24 i n of None \<Rightarrow> Inl X_OUT_OF_BOUNDS | Some xe \<Rightarrow> if IS_XATTR_LAST_ENTRY ?M xe then Inl X_ENODATA else Inr (xe, ?sz, ?M)))"
        using True False fit by (auto simp: lookup_all_xattrs_def Let_def M cong: option.case_cong if_cong)
      then show ?thesis using from_block [of "[]" es 24] hit ends by (auto split: if_splits)
    next
      case nz: False
      let ?m0 = "read_inline_xattr x"
      have i0: "24 + 4 \<le> ?isz" using isz nz by simp
      have le: "?isz \<le> ?sz" by simp
      have L: "lookup_all_xattrs f io x i n = (if ipage_fails io then Inl X_EIO else
          case find_inline_xattr ?isz ?sz ?m0 24 i n of
            None \<Rightarrow> Inl X_OUT_OF_BOUNDS
          | Some (Found_At xe) \<Rightarrow> if IS_XATTR_LAST_ENTRY ?m0 xe then Inl X_ENODATA else Inr (xe, ?sz, ?m0)
          | Some (Last_At l) \<Rightarrow> if xattr_block x \<noteq> None \<and> xpage_fails io then Inl X_EIO
              else (case find_xattr ?sz ?M l i n of None \<Rightarrow> Inl X_OUT_OF_BOUNDS | Some xe \<Rightarrow> if IS_XATTR_LAST_ENTRY ?M xe then Inl X_ENODATA else Inr (xe, ?sz, ?M)))"
        using nz by (simp add: lookup_all_xattrs_def Let_def x_mem_def split: option.split inl_find.split)
      have "\<forall>y < ?isz. ?m0 y = ?M y" by (simp add: x_mem_inline)
      from find_inline_ended [OF E this i0 le, of i n] show ?thesis
      proof (elim disjE exE conjE)
        fix es1 es2 assume c: "find_inline_xattr ?isz ?sz ?m0 24 i n = Some (Last_At (24 + length (encs es1)))" "es = es1 @ es2" "(i, n) \<notin> fst ` set es1"
        show ?thesis unfolding L c(1) using from_block [OF c(2,3) refl] hit ends by (auto split: if_splits)
      next
        assume c: "find_inline_xattr ?isz ?sz ?m0 24 i n = Some (Found_At ?p)" "?p + 4 \<le> ?isz" "\<forall>v es2. es = before (i, n) es @ ((i, n), v) # es2 \<longrightarrow> ?p + esize ((i, n), v) \<le> ?isz"
        have same: "IS_XATTR_LAST_ENTRY ?m0 ?p = IS_XATTR_LAST_ENTRY ?M ?p" using c(2) by (simp add: IS_XATTR_LAST_ENTRY_def u32_at_def x_mem_inline [of _ x f])
        show ?thesis
        proof (cases "(i, n) \<in> fst ` set es")
          case False
          then show ?thesis unfolding L c(1) using F(1) same by (simp add: map_of_eq_None_iff)
        next
          case True
          obtain v es2 where s: "es = before (i, n) es @ ((i, n), v) # es2" using before_split [OF True] by blast
          have v: "map_of es (i, n) = Some v" by (rule map_of_before [OF dist s])
          then have G: "ent_ok ((i, n), v)" "mem_read ?M ?p (esize ((i, n), v)) = enc ((i, n), v)" using F(2) [OF True] by auto
          have "?p + esize ((i, n), v) \<le> ?isz" using c(3) s by blast
          moreover have "mem_read ?m0 ?p (esize ((i, n), v)) = enc ((i, n), v)"
            using G(2) mem_read_cong [of ?p "esize ((i, n), v)" ?m0 ?M] x_mem_inline [of _ x f] calculation by simp
          ultimately show ?thesis unfolding L c(1) using True F(1) same v G by auto
        qed
      qed
    qed
  qed
qed

text \<open>\<open>f2fs_getxattr\<close> returns the value, its size, or a proper error.\<close>

lemma f2fs_getxattr_spec:
  assumes inv: "x_inv f x es"
  shows "f2fs_getxattr f io x i n buf = (if F2FS_NAME_LEN f < length n then Inl X_ERANGE else
      case map_of es (i, n) of None \<Rightarrow> Inl X_ENODATA
      | Some v \<Rightarrow> (case buf of None \<Rightarrow> Inr (length v, []) | Some b \<Rightarrow> if b < length v then Inl X_ERANGE else Inr (length v, v)))
    \<or> f2fs_getxattr f io x i n buf = Inl X_EIO \<and> (ipage_fails io \<or> xpage_fails io)"
proof (cases "F2FS_NAME_LEN f < length n")
  case False
  from lookup_all_xattrs_spec [OF inv, of io i n] show ?thesis
  proof (elim disjE exE conjE)
    fix p sz m v assume a: "lookup_all_xattrs f io x i n = Inr (p, sz, m)" "map_of es (i, n) = Some v" "ent_ok ((i, n), v)"
      "mem_read m p (esize ((i, n), v)) = enc ((i, n), v)" "p + esize ((i, n), v) \<le> sz"
    note E = entry_fields [OF a(4,3) refl]
    have "\<not> sz < p + 4 + length n + length v" using a(5) esize_ge [of n v i] by simp
    then show ?thesis using False a(1,2) E(2,3,7) by (simp add: f2fs_getxattr_def split: option.split)
  qed (use False in \<open>simp_all add: f2fs_getxattr_def\<close>)
qed (simp add: f2fs_getxattr_def)

subsection \<open>Setting\<close>

lemma remove_entry_ended:
  assumes E: "ended m a (es1 @ e # es2)" and h: "here = a + length (encs es1)" and l: "lastp = here + esize e + length (encs es2)"
  shows "\<exists>m'. remove_entry m here lastp = (m', here + length (encs es2)) \<and> ended m' a (es1 @ es2) \<and> (\<forall>y < a. m' y = m y)"
proof -
  let ?s = "esize e" and ?L = "length (encs es2)"
  obtain i n v where e: "e = ((i, n), v)" by (metis surj_pair)
  have A: "mem_read m here ?s = enc e" "ent_ok e" "seg m (here + ?s) es2" "seg m a es1" and ok: "\<forall>e \<in> set (es1 @ es2). ent_ok e" and z: "\<forall>y \<ge> lastp. m y = 0"
    using E h l by (auto simp: ended_append ended_Cons) (auto simp: ended_def)
  note F = entry_fields [OF A(1,2) e]
  define m' where "m' = mem_write (mem_write m here (mem_read m (here + ?s) ?L)) (here + ?L) (replicate ?s 0)"
  have "lastp - (here + ?s) = ?L" "lastp - ?s = here + ?L" using l by simp_all
  then have R: "remove_entry m here lastp = (m', here + ?L)" using F(4,5) by (simp add: remove_entry_def Let_def m'_def)
  have at: "m' y = (if y < here then m y else if y < here + ?L then m (y + ?s) else 0)" for y
    using z l by (auto simp: m'_def mem_write_def ac_simps)
  have "seg m' a es1" using A(4) h seg_cong [of a es1 m' m] at by simp
  moreover have "mem_read m' here ?L = mem_read m (here + ?s) ?L" by (rule nth_equalityI) (simp_all add: at ac_simps)
  then have "seg m' here es2" using A(3) by (simp add: seg_def)
  ultimately have "ended m' a (es1 @ es2)" using ok at h unfolding ended_append by (auto simp: ended_def)
  moreover have "\<forall>y < a. m' y = m y" using at h by simp
  ultimately show ?thesis using R by blast
qed

lemma nth_four: "4 \<le> j \<Longrightarrow> ([a, b, c, d] @ xs) ! j = xs ! (j - 4)"
  using nth_append_length_plus [of "[a, b, c, d]" xs "j - 4"] by (simp add: numeral_eq_Suc)

lemma write_entry_at:
  "write_entry m l i n v (l + j) = (if j = 0 then of_nat i else if j = 1 then of_nat (length n) else if j = 2 then of_nat (length v mod 256)
     else if j = 3 then of_nat (length v div 256) else if j < 4 + length n then n ! (j - 4) else if j < 4 + length n + length v then v ! (j - 4 - length n) else m (l + j))"
proof -
  have "j = 0 \<or> j = 1 \<or> j = 2 \<or> j = 3 \<or> 4 \<le> j" by linarith
  then show ?thesis by (elim disjE) (auto simp: write_entry_def Let_def mem_write_def)
qed

lemma write_entry_ended:
  assumes E: "ended m a es" and l: "lastp = a + length (encs es)" and ok: "ent_ok ((i, n), v)"
  shows "ended (write_entry m lastp i n v) a (es @ [((i, n), v)])" "y < a \<Longrightarrow> write_entry m lastp i n v y = m y"
proof -
  let ?e = "((i, n), v)" and ?m = "write_entry m lastp i n v"
  let ?k = "4 + length n + length v"
  have z: "\<forall>y \<ge> lastp. m y = 0" and sg: "seg m a es" and oks: "\<forall>e \<in> set es. ent_ok e" using E l by (auto simp: ended_def)
  have low: "?m y = m y" if "y < lastp" for y using that by (simp add: write_entry_def Let_def mem_write_def)
  have high: "?m y = 0" if "lastp + ?k \<le> y" for y using that z by (auto simp: write_entry_def Let_def mem_write_def)
  have mid: "?m (lastp + j) = ([of_nat i, of_nat (length n), of_nat (length v mod 256), of_nat (length v div 256)] @ n @ v) ! j" if j: "j < ?k" for j
  proof -
    consider "j = 0" | "j = 1" | "j = 2" | "j = 3" | "4 \<le> j" "j < 4 + length n" | "4 + length n \<le> j" "j < ?k" using j by linarith
    then show ?thesis
    proof cases
      case 5
      then have "?m (lastp + j) = n ! (j - 4)" by (simp add: write_entry_at)
      moreover have "j - 4 < length n" using 5 by simp
      ultimately show ?thesis unfolding nth_four [OF 5(1)] by (simp add: nth_append)
    next
      case 6
      then have "?m (lastp + j) = v ! (j - 4 - length n)" by (simp add: write_entry_at)
      moreover have "4 \<le> j" "\<not> j - 4 < length n" using 6 by simp_all
      ultimately show ?thesis unfolding nth_four [OF \<open>4 \<le> j\<close>] by (simp add: nth_append)
    qed (use write_entry_at [of m lastp i n v j] in \<open>simp_all add: numeral_2_eq_2 numeral_3_eq_3\<close>)
  qed
  have "mem_read ?m lastp (esize ?e) = enc ?e"
  proof (rule nth_equalityI)
    fix j assume "j < length (mem_read ?m lastp (esize ?e))"
    then have j: "j < esize ?e" by simp
    show "mem_read ?m lastp (esize ?e) ! j = enc ?e ! j"
    proof (cases "j < ?k")
      case True
      have "enc ?e ! j = ([of_nat i, of_nat (length n), of_nat (length v mod 256), of_nat (length v div 256)] @ n @ v) ! j"
        using True nth_append_left [of j "[of_nat i, of_nat (length n), of_nat (length v mod 256), of_nat (length v div 256)] @ n @ v"] by (simp add: enc_def)
      then show ?thesis using j mid [OF True] by simp
    next
      case False
      then have "enc ?e ! j = 0"
        using j nth_append_right [of "[of_nat i, of_nat (length n), of_nat (length v mod 256), of_nat (length v div 256)] @ n @ v" j] by (simp add: enc_def)
      then show ?thesis using j high [of "lastp + j"] False by simp
    qed
  qed simp
  moreover have "seg ?m a es" using sg low l seg_cong [of a es ?m m] by simp
  moreover have "\<forall>y \<ge> lastp + esize ?e. ?m y = 0" using high esize_ge [of n v i] by simp
  ultimately show "ended ?m a (es @ [?e])" using ok oks l by (auto simp: ended_append ended_Cons) (simp add: ended_def)
  show "y < a \<Longrightarrow> ?m y = m y" using low l by simp
qed

lemma write_all_xattrs_spec:
  assumes z: "\<forall>y \<ge> hsize. m y = 0" and fit: "hsize \<le> inline_xattr_size x + VALID_XATTR_BLOCK_SIZE f" and r: "write_all_xattrs f io x hsize m = (err, x')"
  shows "err = None \<longrightarrow> x_mem f x' = m \<and> inline_xattr_size x' = inline_xattr_size x \<and> (xattr_block x' = None \<longrightarrow> hsize \<le> inline_xattr_size x)"
    "err \<noteq> None \<longrightarrow> x' = x \<and> err \<noteq> Some X_OUT_OF_BOUNDS"
proof -
  let ?isz = "inline_xattr_size x" and ?V = "VALID_XATTR_BLOCK_SIZE f"
  let ?inl = "\<lambda>a. if a < ?isz then m a else inline_xattr x a" and ?blk = "\<lambda>old a. if a < ?V then m (?isz + a) else old a"
  have both: "x_mem f y = m" if "inline_xattr_size y = ?isz" "inline_xattr y = ?inl" "xattr_block y = Some (?blk old)" for y old
    using z fit that by (auto simp: x_mem_def read_xattr_block_def read_inline_xattr_def fun_eq_iff not_less)
  have inl: "x_mem f y = m" if "inline_xattr_size y = ?isz" "inline_xattr y = ?inl" "xattr_block y = None" "hsize \<le> ?isz" for y
    using z that by (auto simp: x_mem_def read_xattr_block_def read_inline_xattr_def fun_eq_iff not_less)
  show "err = None \<longrightarrow> x_mem f x' = m \<and> inline_xattr_size x' = ?isz \<and> (xattr_block x' = None \<longrightarrow> hsize \<le> ?isz)"
  proof
    assume err: "err = None"
    show "x_mem f x' = m \<and> inline_xattr_size x' = ?isz \<and> (xattr_block x' = None \<longrightarrow> hsize \<le> ?isz)"
    proof (cases "?isz \<noteq> 0 \<and> hsize \<le> ?isz")
      case True
      then have "x' = x\<lparr>xattr_block := None, inline_xattr := ?inl\<rparr>"
        using r err by (auto simp: write_all_xattrs_def Let_def f2fs_truncate_xattr_node_def split: if_splits option.splits prod.splits)
      then have "inline_xattr_size x' = ?isz" "inline_xattr x' = ?inl" "xattr_block x' = None" by simp_all
      then show ?thesis using inl True by blast
    next
      case False
      then obtain old where "x' = x\<lparr>inline_xattr := ?inl, xattr_block := Some (?blk old)\<rparr>"
        using r err by (auto simp: write_all_xattrs_def Let_def split: if_splits option.splits)
      then have "inline_xattr_size x' = ?isz" "inline_xattr x' = ?inl" "xattr_block x' = Some (?blk old)" by simp_all
      then show ?thesis using both [of x' old] by simp
    qed
  qed
  show "err \<noteq> None \<longrightarrow> x' = x \<and> err \<noteq> Some X_OUT_OF_BOUNDS"
    using r by (auto simp: write_all_xattrs_def Let_def f2fs_truncate_xattr_node_def split: if_splits option.splits prod.splits)
qed

lemma init_header_ended: "ended m 24 es \<Longrightarrow> ended (init_header m) 24 es"
proof -
  assume E: "ended m 24 es"
  have same: "init_header m y = m y" if "24 \<le> y" for y using that by (simp add: init_header_def mem_write_def)
  then have "seg (init_header m) 24 es \<longleftrightarrow> seg m 24 es" by (intro seg_cong) simp
  then show ?thesis using E same by (simp add: ended_def)
qed

lemma done_fields [simp]:
  "inline_xattr_size (setxattr_done i n x) = inline_xattr_size x" "inline_xattr (setxattr_done i n x) = inline_xattr x" "xattr_block (setxattr_done i n x) = xattr_block x"
  by (simp_all add: setxattr_done_def Let_def split: option.split)

lemma x_mem_done [simp]: "x_mem f (setxattr_done i n x) = x_mem f x"
  unfolding x_mem_def read_xattr_block_def read_inline_xattr_def done_fields by (rule refl)

lemma x_inv_done: "x_inv f x es \<Longrightarrow> x_inv f (setxattr_done i n x) es"
  by (simp add: x_inv_def)

lemma MIN_OFFSET_eq: "xfmt_ok f \<Longrightarrow> x_inv f x es \<Longrightarrow> MIN_OFFSET f x = inline_xattr_size x + VALID_XATTR_BLOCK_SIZE f"
proof -
  assume "xfmt_ok f" "x_inv f x es"
  then have "4 dvd inline_xattr_size x + VALID_XATTR_BLOCK_SIZE f" by (simp add: xfmt_ok_def x_inv_def)
  then show ?thesis unfolding MIN_OFFSET_def XATTR_ALIGN_def by auto
qed

text \<open>The old entry, if there is one, is taken out.\<close>

lemma old_entry_removed:
  assumes E: "ended m 24 es" and d: "distinct (map fst es)" and h: "here = 24 + length (encs (before k es))"
  shows "\<exists>m1 es1. (if \<not> IS_XATTR_LAST_ENTRY m here then remove_entry m here (24 + length (encs es)) else (m, 24 + length (encs es))) = (m1, 24 + length (encs es1))
    \<and> ended m1 24 es1 \<and> distinct (map fst es1) \<and> k \<notin> fst ` set es1 \<and> (\<forall>k'. k' \<noteq> k \<longrightarrow> map_of es1 k' = map_of es k')
    \<and> length (encs es) = length (encs es1) + (if \<not> IS_XATTR_LAST_ENTRY m here then ENTRY_SIZE m here else 0)"
proof (cases "k \<in> fst ` set es")
  case False
  then have "IS_XATTR_LAST_ENTRY m here" using found_entry(1) [OF E h] by simp
  then show ?thesis using E d False by auto
next
  case True
  then have L: "\<not> IS_XATTR_LAST_ENTRY m here" using found_entry(1) [OF E h] by simp
  obtain v es2 where s: "es = before k es @ (k, v) # es2" using before_split [OF True] by blast
  let ?b = "before k es"
  have "ended m 24 (?b @ (k, v) # es2)" using E s by simp
  moreover have len: "length (encs es) = length (encs ?b) + esize (k, v) + length (encs es2)" by (subst s) simp
  then have "24 + length (encs es) = here + esize (k, v) + length (encs es2)" using h by simp
  ultimately obtain m1 where R: "remove_entry m here (24 + length (encs es)) = (m1, here + length (encs es2))" "ended m1 24 (?b @ es2)"
    using remove_entry_ended [OF _ h] by blast
  have "distinct (map fst (?b @ (k, v) # es2))" using d s by simp
  then have D: "distinct (map fst (?b @ es2))" "k \<notin> fst ` set (?b @ es2)" by auto
  have "map_of (?b @ es2) k' = map_of es k'" if "k' \<noteq> k" for k' using that by (subst (2) s) (simp add: map_add_def split: option.split)
  moreover have "ended m here ((k, v) # es2)" using \<open>ended m 24 (?b @ (k, v) # es2)\<close> h unfolding ended_append by simp
  then have "mem_read m here (esize (k, v)) = enc (k, v)" "ent_ok (k, v)" by (simp_all add: ended_Cons)
  then have "ENTRY_SIZE m here = esize (k, v)" by (rule entry_fields(4) [where i = "fst k" and n = "snd k" and v = v]) simp
  ultimately show ?thesis using L R D len h by (intro exI [of _ m1] exI [of _ "?b @ es2"]) simp
qed

lemma setxattr_body_spec:
  assumes f: "xfmt_ok f" and inv: "x_inv f x es" and i: "0 < i" "i < 256" and r: "setxattr_body f io x i n value c rp = (err, x')"
  shows "err = None \<longrightarrow> (\<exists>es'. x_inv f x' es' \<and> map_of es' = (map_of es)((i, n) := value))" "err \<noteq> None \<longrightarrow> x' = x \<and> err \<noteq> Some X_OUT_OF_BOUNDS"
    "err \<noteq> None \<longrightarrow> F2FS_NAME_LEN f < length n \<or> MAX_VALUE_LEN f x < (case value of None \<Rightarrow> 0 | Some v \<Rightarrow> length v) \<or> ipage_fails io \<or> xpage_fails io \<or> no_nid io \<or> no_new_page io
       \<or> c \<or> rp \<or> (\<exists>v. value = Some v \<and> inline_xattr_size x + VALID_XATTR_BLOCK_SIZE f < 24 + length (encs es) + esize ((i, n), v))"
proof -
  let ?k = "(i, n)" and ?isz = "inline_xattr_size x" and ?V = "VALID_XATTR_BLOCK_SIZE f"
  let ?size = "case value of None \<Rightarrow> 0 | Some v \<Rightarrow> length v"
  define m where "m = init_header (x_mem f x)"
  define here where "here = 24 + length (encs (before ?k es))"
  have E0: "ended (x_mem f x) 24 es" and dist: "distinct (map fst es)" and fit: "24 + length (encs es) \<le> ?isz + ?V" and small: "?isz + ?V < 65536"
    using inv by (auto simp: x_inv_def)
  have E: "ended m 24 es" unfolding m_def by (rule init_header_ended [OF E0])
  have find: "find_xattr (?isz + ?V + 4) m 24 i n = Some here" unfolding here_def using fit by (intro find_xattr_ended [OF E]) simp
  have last: "last_xattr (?isz + ?V + 4) m here = Some (24 + length (encs es))"
  proof -
    have s: "es = before ?k es @ dropWhile (\<lambda>e. fst e \<noteq> ?k) es" by simp
    let ?d = "dropWhile (\<lambda>e. fst e \<noteq> ?k) es"
    have "ended m here ?d" using E unfolding here_def by (subst (asm) s) (simp only: ended_append)
    moreover have "here + length (encs ?d) = 24 + length (encs es)" unfolding here_def by (subst (3) s) (simp only: map_append concat_append length_append add.assoc)
    ultimately show ?thesis using last_xattr_ended [of m here ?d "?isz + ?V + 4"] fit by simp
  qed
  obtain m1 es1 where R: "(if \<not> IS_XATTR_LAST_ENTRY m here then remove_entry m here (24 + length (encs es)) else (m, 24 + length (encs es))) = (m1, 24 + length (encs es1))"
    "ended m1 24 es1" "distinct (map fst es1)" "?k \<notin> fst ` set es1" "\<forall>k'. k' \<noteq> ?k \<longrightarrow> map_of es1 k' = map_of es k'"
    "length (encs es) = length (encs es1) + (if \<not> IS_XATTR_LAST_ENTRY m here then ENTRY_SIZE m here else 0)"
    using old_entry_removed [OF E dist here_def] by blast
  define newsize where "newsize = XATTR_ALIGN (4 + length n + ?size)"
  define m2 where "m2 = (case value of None \<Rightarrow> m1 | Some v \<Rightarrow> write_entry m1 (24 + length (encs es1)) i n v)"
  define es2 where "es2 = (case value of None \<Rightarrow> es1 | Some v \<Rightarrow> es1 @ [(?k, v)])"
  define hsize where "hsize = (case value of None \<Rightarrow> 24 + length (encs es1) | Some v \<Rightarrow> 24 + length (encs es1) + newsize)"
  have hs: "hsize = 24 + length (encs es2)" by (auto simp: hsize_def es2_def newsize_def esize_def split: option.split)
  define full where "full \<longleftrightarrow> value \<noteq> None \<and> ?isz + ?V < 24 + length (encs es1) + newsize"
  have fullE: "(value \<noteq> None \<and> int (MIN_OFFSET f x) - int (24 + length (encs es)) + (if \<not> IS_XATTR_LAST_ENTRY m here then int (ENTRY_SIZE m here) else 0) < int newsize) \<longleftrightarrow> full"
    unfolding full_def MIN_OFFSET_eq [OF f inv] R(6) by auto
  have S: "setxattr_body f io x i n value c rp = (if F2FS_NAME_LEN f < length n then (Some X_ERANGE, x) else if MAX_VALUE_LEN f x < ?size then (Some X_E2BIG, x)
    else if ?isz \<noteq> 0 \<and> ipage_fails io \<or> xattr_block x \<noteq> None \<and> xpage_fails io then (Some X_EIO, x)
    else if \<not> IS_XATTR_LAST_ENTRY m here \<and> c then (Some X_EEXIST, x)
    else if \<not> IS_XATTR_LAST_ENTRY m here \<and> (case value of None \<Rightarrow> False | Some v \<Rightarrow> f2fs_xattr_value_same m here v) then (None, x)
    else if IS_XATTR_LAST_ENTRY m here \<and> rp then (Some X_ENODATA, x)
    else if full then (Some X_E2BIG, x)
    else case write_all_xattrs f io x hsize m2 of (Some e, x) \<Rightarrow> (Some e, x) | (None, x) \<Rightarrow> (None, setxattr_done i n x))"
  proof -
    have m: "read_all_xattrs f io x = (if ?isz \<noteq> 0 \<and> ipage_fails io \<or> xattr_block x \<noteq> None \<and> xpage_fails io then Inl X_EIO else Inr m)"
      by (simp add: read_all_xattrs_def m_def x_mem_def)
    have w: "(case value of None \<Rightarrow> (m1, 24 + length (encs es1)) | Some v \<Rightarrow> (write_entry m1 (24 + length (encs es1)) i n v, 24 + length (encs es1) + newsize)) = (m2, hsize)"
      by (simp add: m2_def hsize_def split: option.split)
    show ?thesis
      unfolding setxattr_body_def Let_def m newsize_def [symmetric]
      by (cases "?isz \<noteq> 0 \<and> ipage_fails io \<or> xattr_block x \<noteq> None \<and> xpage_fails io")
        (simp_all only: if_True if_False sum.case option.case find last fullE R(1) prod.case w simp_thms)
  qed
  have ok: "ended m2 24 es2 \<and> distinct (map fst es2) \<and> map_of es2 = (map_of es)(?k := value)"
    if a: "\<not> F2FS_NAME_LEN f < length n" "\<not> MAX_VALUE_LEN f x < ?size"
  proof (cases "value")
    case None
    then show ?thesis using R(2-5) by (auto simp: m2_def es2_def fun_eq_iff map_of_eq_None_iff)
  next
    case (Some v)
    have "length v < 65536" using a(2) Some small by (simp add: MAX_VALUE_LEN_def MIN_OFFSET_eq [OF f inv])
    then have "ent_ok (?k, v)" using a(1) f i by (simp add: ent_ok_def xfmt_ok_def)
    then have "ended m2 24 es2" using write_entry_ended(1) [OF R(2) refl] Some by (simp add: m2_def es2_def)
    moreover have "map_of es2 k' = ((map_of es)(?k := value)) k'" for k'
    proof (cases "k' = ?k")
      case False
      then have "map_of es1 k' = map_of es k'" using R(5) by blast
      then show ?thesis using False Some by (simp add: es2_def map_add_def split: option.split)
    qed (use R(4) Some in \<open>simp add: es2_def map_add_def map_of_eq_None_iff [THEN iffD2]\<close>)
    ultimately show ?thesis using R(3,4) Some by (auto simp: es2_def fun_eq_iff)
  qed
  have wr: "hsize \<le> ?isz + ?V" if "\<not> full"
    using that R(6) fit by (cases "value") (auto simp: full_def hsize_def)
  show "err \<noteq> None \<longrightarrow> x' = x \<and> err \<noteq> Some X_OUT_OF_BOUNDS"
  proof (cases "write_all_xattrs f io x hsize m2")
    case (Pair e y)
    have w: "e \<noteq> None \<longrightarrow> y = x \<and> e \<noteq> Some X_OUT_OF_BOUNDS"
      using Pair by (auto simp: write_all_xattrs_def Let_def f2fs_truncate_xattr_node_def split: if_splits option.splits prod.splits)
    show ?thesis using r w unfolding S Pair by (auto split: if_splits option.splits)
  qed
  show "err \<noteq> None \<longrightarrow> F2FS_NAME_LEN f < length n \<or> MAX_VALUE_LEN f x < ?size \<or> ipage_fails io \<or> xpage_fails io \<or> no_nid io \<or> no_new_page io
       \<or> c \<or> rp \<or> (\<exists>v. value = Some v \<and> ?isz + ?V < 24 + length (encs es) + esize (?k, v))"
  proof (cases "write_all_xattrs f io x hsize m2")
    case (Pair e y)
    have w: "e \<noteq> None \<longrightarrow> ipage_fails io \<or> xpage_fails io \<or> no_nid io \<or> no_new_page io"
      using Pair by (auto simp: write_all_xattrs_def Let_def f2fs_truncate_xattr_node_def split: if_splits option.splits prod.splits)
    have "full \<longrightarrow> (\<exists>v. value = Some v \<and> ?isz + ?V < 24 + length (encs es) + esize (?k, v))"
      using R(6) by (auto simp: full_def newsize_def esize_def)
    then show ?thesis using r w unfolding S Pair by (auto split: if_splits option.splits)
  qed
  show "err = None \<longrightarrow> (\<exists>es'. x_inv f x' es' \<and> map_of es' = (map_of es)(?k := value))"
  proof
    assume err: "err = None"
    then consider (same) v where "value = Some v" "f2fs_xattr_value_same m here v" "\<not> IS_XATTR_LAST_ENTRY m here" "x' = x"
      | (wrote) y where "\<not> F2FS_NAME_LEN f < length n" "\<not> MAX_VALUE_LEN f x < ?size" "\<not> full" "write_all_xattrs f io x hsize m2 = (None, y)" "x' = setxattr_done i n y"
      using r unfolding S by (auto split: if_splits option.splits prod.splits)
    then show "\<exists>es'. x_inv f x' es' \<and> map_of es' = (map_of es)(?k := value)"
    proof cases
      case same
      then have "?k \<in> fst ` set es" using found_entry(1) [OF E here_def] by simp
      then obtain v' where v': "map_of es ?k = Some v'" "ent_ok (?k, v')" "mem_read m here (esize (?k, v')) = enc (?k, v')"
        using found_entry(2) [OF E here_def] by blast
      note F = entry_fields [OF v'(3,2) refl]
      have "v = v'" using same(2) F(2,3,7) by (simp add: f2fs_xattr_value_same_def)
      then show ?thesis using inv same v'(1) by (intro exI [of _ es]) (auto simp: fun_eq_iff)
    next
      case wrote
      note O = ok [OF wrote(1,2)]
      have z: "\<forall>y \<ge> hsize. m2 y = 0" using O by (simp add: ended_def hs)
      have W: "x_mem f y = m2" "inline_xattr_size y = ?isz" "xattr_block y = None \<longrightarrow> hsize \<le> ?isz"
        using write_all_xattrs_spec(1) [OF z wr [OF wrote(3)] wrote(4)] by auto
      have "x_inv f y es2" using inv O W wr [OF wrote(3)] by (auto simp: x_inv_def hs)
      then show ?thesis using O wrote(5) x_inv_done by blast
    qed
  qed
qed

lemma f2fs_setxattr_spec:
  assumes f: "xfmt_ok f" and inv: "x_inv f x es" and i: "0 < i" "i < 256" and r: "f2fs_setxattr f io x i n value c rp = (err, x')"
  shows "err = None \<longrightarrow> (\<exists>es'. x_inv f x' es' \<and> map_of es' = (map_of es)((i, n) := value))" "err \<noteq> None \<longrightarrow> x' = x \<and> err \<noteq> Some X_OUT_OF_BOUNDS"
    "err \<noteq> None \<longrightarrow> F2FS_NAME_LEN f < length n \<or> MAX_VALUE_LEN f x < (case value of None \<Rightarrow> 0 | Some v \<Rightarrow> length v) \<or> ipage_fails io \<or> xpage_fails io \<or> no_nid io \<or> no_new_page io
       \<or> dquot_fails io \<or> c \<or> rp \<or> (\<exists>v. value = Some v \<and> inline_xattr_size x + VALID_XATTR_BLOCK_SIZE f < 24 + length (encs es) + esize ((i, n), v))"
proof -
  have "dquot_fails io \<and> err = Some X_EDQUOT \<and> x' = x \<or> \<not> dquot_fails io \<and> setxattr_body f io x i n value c rp = (err, x')"
    using r by (simp add: f2fs_setxattr_def split: if_splits)
  then show "err = None \<longrightarrow> (\<exists>es'. x_inv f x' es' \<and> map_of es' = (map_of es)((i, n) := value))" "err \<noteq> None \<longrightarrow> x' = x \<and> err \<noteq> Some X_OUT_OF_BOUNDS"
    "err \<noteq> None \<longrightarrow> F2FS_NAME_LEN f < length n \<or> MAX_VALUE_LEN f x < (case value of None \<Rightarrow> 0 | Some v \<Rightarrow> length v) \<or> ipage_fails io \<or> xpage_fails io \<or> no_nid io \<or> no_new_page io
       \<or> dquot_fails io \<or> c \<or> rp \<or> (\<exists>v. value = Some v \<and> inline_xattr_size x + VALID_XATTR_BLOCK_SIZE f < 24 + length (encs es) + esize ((i, n), v))"
    using setxattr_body_spec [OF f inv i, of io n "value" c rp err x'] by blast+
qed

end
