(* ===== verification/Acl.thy ===== *)
theory Acl
  imports Xattr_Map
begin

text \<open>
  Access control lists, from \<open>src/acl.c\<close> and \<open>src/acl.h\<close>: their form on the medium, and getting, setting and inheriting them as extended attributes. User and group ids are
  those of the initial name space, where the conversions of the kernel are the identity. \<open>posix_acl_update_mode\<close> of the kernel is the parameter \<open>upd\<close>.
\<close>

subsection \<open>Form on the medium\<close>

record posix_acl_entry =
  e_tag :: u16
  e_perm :: u16
  e_id :: u32

abbreviation (input) ACL_USER_OBJ :: u16 where "ACL_USER_OBJ \<equiv> 1"
abbreviation (input) ACL_USER :: u16 where "ACL_USER \<equiv> 2"
abbreviation (input) ACL_GROUP_OBJ :: u16 where "ACL_GROUP_OBJ \<equiv> 4"
abbreviation (input) ACL_GROUP :: u16 where "ACL_GROUP \<equiv> 8"
abbreviation (input) ACL_MASK :: u16 where "ACL_MASK \<equiv> 16"
abbreviation (input) ACL_OTHER :: u16 where "ACL_OTHER \<equiv> 32"

definition short_tag :: "u16 \<Rightarrow> bool" where
  "short_tag t \<longleftrightarrow> t = ACL_USER_OBJ \<or> t = ACL_GROUP_OBJ \<or> t = ACL_MASK \<or> t = ACL_OTHER"

definition long_tag :: "u16 \<Rightarrow> bool" where
  "long_tag t \<longleftrightarrow> t = ACL_USER \<or> t = ACL_GROUP"

definition f2fs_acl_size :: "nat \<Rightarrow> nat" where
  "f2fs_acl_size cnt = (if cnt \<le> 4 then 4 + cnt * 4 else 4 + 4 * 4 + (cnt - 4) * 8)"

text \<open>\<open>size\<close> is a \<open>size_t\<close>, \<open>s\<close> a \<open>ssize_t\<close> and the result an \<open>int\<close>.\<close>

definition f2fs_acl_count :: "nat \<Rightarrow> int" where
  "f2fs_acl_count sz =
     (let sz = (int sz - 4) mod 18446744073709551616;
          s = (sz - 16 + 9223372036854775808) mod 18446744073709551616 - 9223372036854775808
      in if s < 0 then (if sz mod 4 \<noteq> 0 then - 1 else s32 (sz div 4))
         else if s mod 8 \<noteq> 0 then - 1 else s32 (s div 8 + 4))"

fun from_disk_loop :: "page \<Rightarrow> nat \<Rightarrow> nat \<Rightarrow> nat \<Rightarrow> (posix_acl_entry list \<times> nat) option" where
  "from_disk_loop m fin 0 entry = Some ([], entry)"
| "from_disk_loop m fin (Suc n) entry =
     (if entry > fin then None
      else let tag = u16_at m entry; perm = u16_at m (entry + 2)
           in if short_tag tag
              then map_option (\<lambda>(es, e). (\<lparr>e_tag = tag, e_perm = perm, e_id = 0\<rparr> # es, e)) (from_disk_loop m fin n (entry + 4))
              else if long_tag tag
              then map_option (\<lambda>(es, e). (\<lparr>e_tag = tag, e_perm = perm, e_id = u32_at m (entry + 4)\<rparr> # es, e)) (from_disk_loop m fin n (entry + 8))
              else None)"

text \<open>\<open>Inr None\<close> is the empty list, for which there is no access control list.\<close>

definition f2fs_acl_from_disk :: "page \<Rightarrow> nat \<Rightarrow> x_err + posix_acl_entry list option" where
  "f2fs_acl_from_disk m sz =
     (if u32_at m 0 \<noteq> 1 then Inl X_EINVAL
      else let cnt = f2fs_acl_count sz
           in if cnt < 0 then Inl X_EINVAL
              else if cnt = 0 then Inr None
              else case from_disk_loop m sz (nat cnt) 4 of
                     None \<Rightarrow> Inl X_EINVAL
                   | Some (es, entry) \<Rightarrow> if entry \<noteq> sz then Inl X_EINVAL else Inr (Some es))"

definition acl_entry_bytes :: "posix_acl_entry \<Rightarrow> u8 list" where
  "acl_entry_bytes e = le16 (e_tag e) @ le16 (e_perm e) @ (if long_tag (e_tag e) then le32 (e_id e) else [])"

text \<open>\<open>mem\<close> is the buffer, with what was in it; its first \<open>f2fs_acl_size\<close> bytes are the attribute.\<close>

definition f2fs_acl_to_disk :: "page \<Rightarrow> posix_acl_entry list \<Rightarrow> x_err + u8 list" where
  "f2fs_acl_to_disk mem acl =
     (if \<exists>e \<in> set acl. \<not> short_tag (e_tag e) \<and> \<not> long_tag (e_tag e) then Inl X_EINVAL
      else Inr (mem_read (mem_write mem 0 (le32 1 @ concat (map acl_entry_bytes acl))) 0 (f2fs_acl_size (length acl))))"

subsection \<open>Getting and setting\<close>

datatype acl_type = ACL_TYPE_ACCESS | ACL_TYPE_DEFAULT

definition acl_index :: "acl_type \<Rightarrow> nat" where
  "acl_index t = (case t of ACL_TYPE_ACCESS \<Rightarrow> 2 | ACL_TYPE_DEFAULT \<Rightarrow> 3)"

text \<open>An attribute of size 0 counts as none (\<open>ERR_PTR(0)\<close>).\<close>

definition f2fs_get_acl :: "xattr_fmt \<Rightarrow> xattr_io \<Rightarrow> xattr_inode \<Rightarrow> acl_type \<Rightarrow> x_err + posix_acl_entry list option" where
  "f2fs_get_acl f io x t =
     (case f2fs_getxattr f io x (acl_index t) [] None of
        Inl e \<Rightarrow> if e = X_ENODATA then Inr None else Inl e
      | Inr (n, _) \<Rightarrow>
          if n = 0 then Inr None
          else (case f2fs_getxattr f io x (acl_index t) [] (Some n) of
                  Inl e \<Rightarrow> if e = X_ENODATA then Inr None else Inl e
                | Inr (n, v) \<Rightarrow> if n = 0 then Inr None else f2fs_acl_from_disk (\<lambda>a. if a < length v then v ! a else 0) n))"

text \<open>The second half of \<open>__f2fs_set_acl\<close>: the list in its form on the medium becomes the attribute.\<close>

definition set_it :: "xattr_fmt \<Rightarrow> xattr_io \<Rightarrow> page \<Rightarrow> acl_type \<Rightarrow> xattr_inode \<Rightarrow> posix_acl_entry list option \<Rightarrow> x_err option \<times> xattr_inode" where
  "set_it f io mem t x acl =
     (case (case acl of None \<Rightarrow> Inr None | Some a \<Rightarrow> map_sum id Some (f2fs_acl_to_disk mem a)) of
        Inl e \<Rightarrow> (Some e, x\<lparr>i_acl_mode := None\<rparr>)
      | Inr v \<Rightarrow> (let (err, x) = f2fs_setxattr f io x (acl_index t) [] v False False in (err, x\<lparr>i_acl_mode := None\<rparr>)))"

text \<open>\<open>__f2fs_set_acl\<close>; \<open>new\<close>: the call comes from the set-up of a new inode (\<open>ipage\<close>).\<close>

definition set_acl_body ::
    "xattr_fmt \<Rightarrow> xattr_io \<Rightarrow> (u16 \<Rightarrow> posix_acl_entry list \<Rightarrow> x_err + u16 \<times> posix_acl_entry list option) \<Rightarrow> page \<Rightarrow> xattr_inode \<Rightarrow> acl_type \<Rightarrow> posix_acl_entry list option \<Rightarrow> bool
     \<Rightarrow> x_err option \<times> xattr_inode" where
  "set_acl_body f io upd mem x t acl new =
     (case t of
        ACL_TYPE_ACCESS \<Rightarrow>
          (case acl of
             None \<Rightarrow> set_it f io mem t x None
           | Some a \<Rightarrow>
               if new then set_it f io mem t x acl
               else case upd (i_mode x) a of Inl e \<Rightarrow> (Some e, x) | Inr (mode, acl) \<Rightarrow> set_it f io mem t (x\<lparr>i_acl_mode := Some mode\<rparr>) acl)
      | ACL_TYPE_DEFAULT \<Rightarrow>
          if \<not> S_ISDIR (i_mode x) then (if acl = None then None else Some X_EACCES, x) else set_it f io mem t x acl)"

text \<open>
  Setting a list, from \<open>f2fs_set_acl\<close> (not for a new inode), which refuses after a checkpoint error,
  or directly from the set-up of a new inode.
\<close>

definition f2fs_set_acl ::
    "xattr_fmt \<Rightarrow> xattr_io \<Rightarrow> (u16 \<Rightarrow> posix_acl_entry list \<Rightarrow> x_err + u16 \<times> posix_acl_entry list option) \<Rightarrow> page \<Rightarrow> xattr_inode \<Rightarrow> acl_type \<Rightarrow> posix_acl_entry list option \<Rightarrow> bool
     \<Rightarrow> x_err option \<times> xattr_inode" where
  "f2fs_set_acl f io upd mem x t acl new =
     (if \<not> new \<and> cp_error io then (Some X_EIO, x) else set_acl_body f io upd mem x t acl new)"

lemmas set_acl_defs = f2fs_set_acl_def set_acl_body_def

subsection \<open>Inheriting\<close>

abbreviation (input) S_IRWXO :: u16 where "S_IRWXO \<equiv> 7"
abbreviation (input) S_IRWXG :: u16 where "S_IRWXG \<equiv> 56"
abbreviation (input) S_IRWXU :: u16 where "S_IRWXU \<equiv> 448"
abbreviation (input) S_IRWXUGO :: u16 where "S_IRWXUGO \<equiv> 511"

text \<open>The loop over the entries: the entries changed so far, the mode, the positions of the group and mask entries and whether a plain mode cannot say it.\<close>

fun masq_loop :: "posix_acl_entry list \<Rightarrow> nat \<Rightarrow> posix_acl_entry list \<Rightarrow> u16 \<Rightarrow> nat option \<Rightarrow> nat option \<Rightarrow> bool
    \<Rightarrow> (posix_acl_entry list \<times> u16 \<times> nat option \<times> nat option \<times> bool) option" where
  "masq_loop [] i out mode group_obj mask_obj ne = Some (out, mode, group_obj, mask_obj, ne)"
| "masq_loop (pa # es) i out mode group_obj mask_obj ne =
     (if e_tag pa = ACL_USER_OBJ
      then let perm = e_perm pa AND (drop_bit 6 mode OR NOT S_IRWXO)
           in masq_loop es (i + 1) (out @ [pa\<lparr>e_perm := perm\<rparr>]) (mode AND (push_bit 6 perm OR NOT S_IRWXU)) group_obj mask_obj ne
      else if e_tag pa = ACL_USER \<or> e_tag pa = ACL_GROUP then masq_loop es (i + 1) (out @ [pa]) mode group_obj mask_obj True
      else if e_tag pa = ACL_GROUP_OBJ then masq_loop es (i + 1) (out @ [pa]) mode (Some i) mask_obj ne
      else if e_tag pa = ACL_OTHER
      then let perm = e_perm pa AND (mode OR NOT S_IRWXO)
           in masq_loop es (i + 1) (out @ [pa\<lparr>e_perm := perm\<rparr>]) (mode AND (perm OR NOT S_IRWXO)) group_obj mask_obj ne
      else if e_tag pa = ACL_MASK then masq_loop es (i + 1) (out @ [pa]) mode group_obj (Some i) True
      else None)"

definition f2fs_acl_create_masq :: "posix_acl_entry list \<Rightarrow> u16 \<Rightarrow> (posix_acl_entry list \<times> u16 \<times> bool) option" where
  "f2fs_acl_create_masq acl mode_p =
     (case masq_loop acl 0 [] mode_p None None False of
        None \<Rightarrow> None
      | Some (acl, mode, group_obj, mask_obj, ne) \<Rightarrow>
          (case (case mask_obj of Some i \<Rightarrow> Some i | None \<Rightarrow> group_obj) of
             None \<Rightarrow> None
           | Some i \<Rightarrow>
               (let perm = e_perm (acl ! i) AND (drop_bit 3 mode OR NOT S_IRWXO);
                    mode = mode AND (push_bit 3 perm OR NOT S_IRWXG)
                in Some (acl[i := (acl ! i)\<lparr>e_perm := perm\<rparr>], (mode_p AND NOT S_IRWXUGO) OR mode, ne))))"

text \<open>The results: the mode, the list for new files of the directory and the list of the new file.\<close>

definition f2fs_acl_create :: "xattr_fmt \<Rightarrow> xattr_io \<Rightarrow> bool \<Rightarrow> u16 \<Rightarrow> xattr_inode \<Rightarrow> u16 \<Rightarrow> x_err + u16 \<times> posix_acl_entry list option \<times> posix_acl_entry list option" where
  "f2fs_acl_create f io posixacl umask dir mode =
     (if mode AND 0xF000 = 0xA000 \<or> \<not> posixacl then Inr (mode, None, None)
      else case f2fs_get_acl f io dir ACL_TYPE_DEFAULT of
             Inl e \<Rightarrow> Inl e
           | Inr None \<Rightarrow> Inr (mode AND NOT umask, None, None)
           | Inr (Some p) \<Rightarrow>
               (case f2fs_acl_create_masq p mode of
                  None \<Rightarrow> Inl X_ENOMEM
                | Some (clone, mode, ne) \<Rightarrow> Inr (mode, if S_ISDIR mode then Some p else None, if ne then Some clone else None)))"

definition f2fs_init_acl :: "xattr_fmt \<Rightarrow> xattr_io \<Rightarrow> (u16 \<Rightarrow> posix_acl_entry list \<Rightarrow> x_err + u16 \<times> posix_acl_entry list option) \<Rightarrow> page \<Rightarrow> bool \<Rightarrow> u16 \<Rightarrow> xattr_inode \<Rightarrow> xattr_inode
     \<Rightarrow> x_err option \<times> xattr_inode" where
  "f2fs_init_acl f io upd mem posixacl umask dir x =
     (case f2fs_acl_create f io posixacl umask dir (i_mode x) of
        Inl e \<Rightarrow> (Some e, x)
      | Inr (mode, default_acl, acl) \<Rightarrow>
          (let x = x\<lparr>i_mode := mode\<rparr>;
               (err, x) = (if default_acl = None then (None, x) else f2fs_set_acl f io upd mem x ACL_TYPE_DEFAULT default_acl True)
           in if acl = None \<or> err \<noteq> None then (err, x) else f2fs_set_acl f io upd mem x ACL_TYPE_ACCESS acl True))"

subsection \<open>Round trip\<close>

text \<open>The lists the kernel passes on (\<open>posix_acl_valid\<close>): owner, users, group, groups, mask, others, with a mask as soon as there are users or groups.\<close>

definition acl_valid :: "posix_acl_entry list \<Rightarrow> bool" where
  "acl_valid acl \<longleftrightarrow> (\<exists>u g k. map e_tag acl = [ACL_USER_OBJ] @ replicate u ACL_USER @ [ACL_GROUP_OBJ] @ replicate g ACL_GROUP @ replicate k ACL_MASK @ [ACL_OTHER]
       \<and> k \<le> 1 \<and> (0 < u + g \<longrightarrow> k = 1)) \<and> (\<forall>e \<in> set acl. short_tag (e_tag e) \<longrightarrow> e_id e = 0)"

lemma tags_disjoint: "short_tag t \<Longrightarrow> \<not> long_tag t"
  by (auto simp: short_tag_def long_tag_def)

lemma length_acl_entry_bytes [simp]: "length (acl_entry_bytes e) = (if long_tag (e_tag e) then 8 else 4)"
  by (simp add: acl_entry_bytes_def le16_def le32_def)

lemma acl_valid_size:
  assumes "acl_valid acl"
  shows "\<forall>e \<in> set acl. short_tag (e_tag e) \<or> long_tag (e_tag e)" "3 \<le> length acl"
    "length (concat (map acl_entry_bytes acl)) + 4 = f2fs_acl_size (length acl)"
proof -
  obtain u g k where t: "map e_tag acl = [ACL_USER_OBJ] @ replicate u ACL_USER @ [ACL_GROUP_OBJ] @ replicate g ACL_GROUP @ replicate k ACL_MASK @ [ACL_OTHER]"
    and k: "k \<le> 1" "0 < u + g \<longrightarrow> k = 1" using assms unfolding acl_valid_def by blast
  have "e_tag ` set acl = set (map e_tag acl)" by simp
  then have "\<forall>t \<in> e_tag ` set acl. short_tag t \<or> long_tag t" unfolding t by (auto simp: short_tag_def long_tag_def)
  then show "\<forall>e \<in> set acl. short_tag (e_tag e) \<or> long_tag (e_tag e)" by blast
  have len: "length acl = 3 + u + g + k" using arg_cong [OF t, of length] by simp
  then show "3 \<le> length acl" by simp
  have "length (concat (map acl_entry_bytes acl)) = sum_list (map (\<lambda>t. if long_tag t then 8 else 4) (map e_tag acl))"
    by (simp add: length_concat comp_def)
  also have "\<dots> = 12 + 8 * u + 8 * g + 4 * k"
    unfolding t by (simp add: long_tag_def sum_list_replicate)
  finally show "length (concat (map acl_entry_bytes acl)) + 4 = f2fs_acl_size (length acl)"
    using k by (cases "u + g = 0") (auto simp: len f2fs_acl_size_def)
qed

lemma f2fs_acl_count_size: "3 \<le> n \<Longrightarrow> n < 1000000 \<Longrightarrow> f2fs_acl_count (f2fs_acl_size n) = int n"
  by (cases "n \<le> 4") (auto simp: f2fs_acl_count_def f2fs_acl_size_def Let_def)

lemma from_disk_loop_bytes:
  assumes "mem_read m a (length (concat (map acl_entry_bytes acl))) = concat (map acl_entry_bytes acl)" "a + length (concat (map acl_entry_bytes acl)) \<le> fin"
    "\<forall>e \<in> set acl. (short_tag (e_tag e) \<or> long_tag (e_tag e)) \<and> (short_tag (e_tag e) \<longrightarrow> e_id e = 0)"
  shows "from_disk_loop m fin (length acl) a = Some (acl, a + length (concat (map acl_entry_bytes acl)))"
  using assms
proof (induction acl arbitrary: a)
  case (Cons e acl)
  let ?b = "acl_entry_bytes e"
  have S: "mem_read m a (length ?b) = ?b" "mem_read m (a + length ?b) (length (concat (map acl_entry_bytes acl))) = concat (map acl_entry_bytes acl)"
    using Cons.prems(1) by (simp_all add: mem_read_append append_eq_append_conv)
  have IH: "from_disk_loop m fin (length acl) (a + length ?b) = Some (acl, a + length ?b + length (concat (map acl_entry_bytes acl)))"
    using Cons.prems S(2) by (intro Cons.IH) simp_all
  have b: "mem_read m a 2 = le16 (e_tag e)" "mem_read m (a + 2) 2 = le16 (e_perm e)" "long_tag (e_tag e) \<Longrightarrow> mem_read m (a + 4) 4 = le32 (e_id e)"
    and l: "length ?b = (if long_tag (e_tag e) then 8 else 4)"
  proof -
    show l: "length ?b = (if long_tag (e_tag e) then 8 else 4)" by (simp add: acl_entry_bytes_def le16_def le32_def)
    have le: "length (le16 w) = 2" for w by (simp add: le16_def)
    define k where "k = length ?b - 4"
    have "length ?b = 2 + (2 + k)" using l by (simp add: k_def)
    then have "mem_read m a (2 + (2 + k)) = le16 (e_tag e) @ le16 (e_perm e) @ (if long_tag (e_tag e) then le32 (e_id e) else [])"
      using S(1) by (simp add: acl_entry_bytes_def)
    then have "mem_read m a 2 = le16 (e_tag e) \<and> mem_read m (a + 2) 2 = le16 (e_perm e) \<and> mem_read m (a + 2 + 2) k = (if long_tag (e_tag e) then le32 (e_id e) else [])"
      unfolding mem_read_append by (simp add: le)
    then show "mem_read m a 2 = le16 (e_tag e)" "mem_read m (a + 2) 2 = le16 (e_perm e)" "long_tag (e_tag e) \<Longrightarrow> mem_read m (a + 4) 4 = le32 (e_id e)"
      using l by (simp_all add: k_def numeral_eq_Suc)
  qed
  have f: "u16_at m a = e_tag e" "u16_at m (a + 2) = e_perm e" "long_tag (e_tag e) \<Longrightarrow> u32_at m (a + 4) = e_id e"
    using u16_at_le16 b u32_at_le32 by blast+
  have "\<not> fin < a" using Cons.prems(2) by simp
  then show ?case using IH l f Cons.prems(3) tags_disjoint [of "e_tag e"] by (cases "long_tag (e_tag e)") (auto simp: Let_def)
qed simp

lemma acl_disk_roundtrip:
  assumes v: "acl_valid acl" and n: "length acl < 1000000" and d: "f2fs_acl_to_disk mem acl = Inr bs"
  shows "f2fs_acl_from_disk (\<lambda>a. if a < length bs then bs ! a else 0) (length bs) = Inr (Some acl)"
proof -
  note V = acl_valid_size [OF v]
  let ?c = "concat (map acl_entry_bytes acl)"
  have l4: "length (le32 1) = 4" by (simp add: le32_def)
  then have "length (le32 1 @ ?c) = f2fs_acl_size (length acl)" using V(3) by simp
  moreover have nt: "\<not> (\<exists>e \<in> set acl. \<not> short_tag (e_tag e) \<and> \<not> long_tag (e_tag e))" using V(1) by blast
  ultimately have bs: "bs = le32 1 @ ?c" using d nt mem_write_at [of mem 0 "le32 1 @ ?c"] by (simp add: f2fs_acl_to_disk_def)
  let ?m = "\<lambda>a. if a < length bs then bs ! a else 0"
  have r: "mem_read ?m 0 (length bs) = bs" by (simp add: mem_read_eq_iff)
  then have "mem_read ?m 0 (4 + length ?c) = le32 1 @ ?c" using bs l4 by simp
  then have h: "mem_read ?m 0 4 = le32 1" "mem_read ?m 4 (length ?c) = ?c" using l4 by (simp_all add: mem_read_append append_eq_append_conv)
  have sz: "length bs = f2fs_acl_size (length acl)" using bs l4 V(3) by simp
  have loop: "from_disk_loop ?m (length bs) (length acl) 4 = Some (acl, length bs)"
    using from_disk_loop_bytes [OF h(2), of "length bs"] V(1) v bs l4 by (auto simp: acl_valid_def)
  have "f2fs_acl_count (length bs) = int (length acl)" unfolding sz using V(2) n by (rule f2fs_acl_count_size)
  moreover have "acl \<noteq> []" using V(2) by auto
  ultimately show ?thesis using u32_at_le32 [OF h(1)] loop unfolding f2fs_acl_from_disk_def Let_def by simp
qed

text \<open>
  What lies behind the attribute in memory does not matter: a list that would need bytes at or
  behind its end is refused whatever they are, so \<open>f2fs_get_acl\<close> may put zeros there.
\<close>

lemma from_disk_loop_mono: "from_disk_loop m fin n e = Some (es, e') \<Longrightarrow> e \<le> e'"
proof (induction n arbitrary: e es e')
  case (Suc n)
  then obtain es1 e1 where "from_disk_loop m fin n (e + 4) = Some (es1, e1) \<or> from_disk_loop m fin n (e + 8) = Some (es1, e1)" "e' = e1"
    by (auto simp: Let_def split: if_splits)
  then show ?case using Suc.IH by fastforce
qed simp

lemma from_disk_loop_cong:
  assumes "\<And>a. a < fin \<Longrightarrow> m a = m' a"
  shows "from_disk_loop m fin n e = Some (es, fin) \<Longrightarrow> from_disk_loop m' fin n e = Some (es, fin)"
proof (induction n arbitrary: e es)
  case (Suc n)
  let ?t = "u16_at m e"
  have le: "\<not> fin < e" and r: "short_tag ?t \<and> (\<exists>es1. from_disk_loop m fin n (e + 4) = Some (es1, fin) \<and> es = \<lparr>e_tag = ?t, e_perm = u16_at m (e + 2), e_id = 0\<rparr> # es1)
      \<or> \<not> short_tag ?t \<and> long_tag ?t \<and> (\<exists>es1. from_disk_loop m fin n (e + 8) = Some (es1, fin) \<and> es = \<lparr>e_tag = ?t, e_perm = u16_at m (e + 2), e_id = u32_at m (e + 4)\<rparr> # es1)"
    using Suc.prems by (auto simp: Let_def split: if_splits)
  have w: "u16_at m' e = u16_at m e" "u16_at m' (e + 2) = u16_at m (e + 2)" if "e + 4 \<le> fin"
    using assms that by (auto simp: u16_at_def)
  have d: "u32_at m' (e + 4) = u32_at m (e + 4)" if "e + 8 \<le> fin"
    using assms that by (auto simp: u32_at_def)
  from r show ?case
  proof (elim disjE conjE exE)
    fix es1 assume s: "short_tag ?t" "from_disk_loop m fin n (e + 4) = Some (es1, fin)" "es = \<lparr>e_tag = ?t, e_perm = u16_at m (e + 2), e_id = 0\<rparr> # es1"
    then show ?case using Suc.IH [OF s(2)] from_disk_loop_mono [OF s(2)] w le by (simp add: Let_def)
  next
    fix es1 assume s: "\<not> short_tag ?t" "long_tag ?t" "from_disk_loop m fin n (e + 8) = Some (es1, fin)" "es = \<lparr>e_tag = ?t, e_perm = u16_at m (e + 2), e_id = u32_at m (e + 4)\<rparr> # es1"
    then show ?case using Suc.IH [OF s(3)] from_disk_loop_mono [OF s(3)] w d le by (simp add: Let_def)
  qed
qed simp

lemma f2fs_acl_count_tiny: "0 < sz \<Longrightarrow> sz < 4 \<Longrightarrow> f2fs_acl_count sz = - 1"
proof -
  assume "0 < sz" "sz < 4"
  then have "sz = 1 \<or> sz = 2 \<or> sz = 3" by auto
  moreover have "f2fs_acl_count 1 = - 1" "f2fs_acl_count 2 = - 1" "f2fs_acl_count 3 = - 1" by code_simp+
  ultimately show ?thesis by auto
qed

lemma f2fs_acl_from_disk_cong:
  assumes "0 < sz" and m: "\<And>a. a < sz \<Longrightarrow> m a = m' a"
  shows "f2fs_acl_from_disk m sz = f2fs_acl_from_disk m' sz"
proof (cases "sz < 4")
  case True
  then show ?thesis using assms(1) f2fs_acl_count_tiny [of sz] by (simp add: f2fs_acl_from_disk_def Let_def)
next
  case False
  let ?r = "\<lambda>r. case r of None \<Rightarrow> Inl X_EINVAL | Some (es, entry) \<Rightarrow> if entry \<noteq> sz then Inl X_EINVAL else Inr (Some es)"
  from False have h: "u32_at m 0 = u32_at m' 0" using m by (simp add: u32_at_def)
  have same: "from_disk_loop m sz n 4 = Some (es, sz) \<longleftrightarrow> from_disk_loop m' sz n 4 = Some (es, sz)" for n es
    using from_disk_loop_cong [of sz m m' n 4 es] from_disk_loop_cong [of sz m' m n 4 es] m by auto
  have "?r (from_disk_loop m sz n 4) = ?r (from_disk_loop m' sz n 4)" for n
  proof (cases "\<exists>es. from_disk_loop m sz n 4 = Some (es, sz)")
    case True
    then obtain es where e: "from_disk_loop m sz n 4 = Some (es, sz)" by blast
    show ?thesis unfolding e iffD1 [OF same e] by (rule refl)
  next
    case False
    then have "?r (from_disk_loop m sz n 4) = Inl X_EINVAL" "\<not> (\<exists>es. from_disk_loop m' sz n 4 = Some (es, sz))"
      using same by (auto split: option.split)
    moreover from this(2) have "?r (from_disk_loop m' sz n 4) = Inl X_EINVAL" by (auto split: option.split)
    ultimately show ?thesis by simp
  qed
  then show ?thesis by (simp add: f2fs_acl_from_disk_def h Let_def)
qed

subsection \<open>What a new inode inherits\<close>

text \<open>
  The part of a mode an entry stands for, as its lowest bit: the owner and others have one of
  their own, and the middle one belongs to the mask, or to the group when there is no mask.
\<close>

definition acl_class :: "posix_acl_entry list \<Rightarrow> posix_acl_entry \<Rightarrow> nat option" where
  "acl_class acl e =
     (if e_tag e = ACL_USER_OBJ then Some 6 else if e_tag e = ACL_OTHER then Some 0
      else if e_tag e = ACL_MASK \<or> e_tag e = ACL_GROUP_OBJ \<and> ACL_MASK \<notin> e_tag ` set acl then Some 3 else None)"

definition inherit_entry :: "posix_acl_entry list \<Rightarrow> u16 \<Rightarrow> posix_acl_entry \<Rightarrow> posix_acl_entry" where
  "inherit_entry acl mode e =
     (case acl_class acl e of None \<Rightarrow> e | Some k \<Rightarrow> e\<lparr>e_perm := e_perm e AND (drop_bit k mode OR NOT S_IRWXO)\<rparr>)"

text \<open>
  The mode of the new inode: each of its nine permission bits is kept iff the entry that stands
  for it has the permission, and its other bits are those asked for.
\<close>

definition inherit_mode :: "posix_acl_entry list \<Rightarrow> u16 \<Rightarrow> u16 \<Rightarrow> bool" where
  "inherit_mode acl mode mode' \<longleftrightarrow>
     (\<forall>e \<in> set acl. \<forall>k b. acl_class acl e = Some k \<longrightarrow> b < 3 \<longrightarrow> bit mode' (k + b) = (bit mode (k + b) \<and> bit (e_perm e) b))
     \<and> (\<forall>b \<ge> 9. bit mode' b = bit mode b)"

lemma perm_masks:
  "bit (7 :: u16) n \<longleftrightarrow> n < 3" "bit (56 :: u16) n \<longleftrightarrow> 3 \<le> n \<and> n < 6" "bit (448 :: u16) n \<longleftrightarrow> 6 \<le> n \<and> n < 9" "bit (511 :: u16) n \<longleftrightarrow> n < 9"
proof -
  have m: "(7 :: u16) = mask 3" "(56 :: u16) = push_bit 3 (mask 3)" "(448 :: u16) = push_bit 6 (mask 3)" "(511 :: u16) = mask 9"
    by (simp_all add: mask_eq_exp_minus_1)
  show "bit (7 :: u16) n \<longleftrightarrow> n < 3" unfolding m(1) bit_mask_iff by auto
  show "bit (56 :: u16) n \<longleftrightarrow> 3 \<le> n \<and> n < 6" unfolding m(2) bit_push_bit_iff bit_mask_iff by auto
  show "bit (448 :: u16) n \<longleftrightarrow> 6 \<le> n \<and> n < 9" unfolding m(3) bit_push_bit_iff bit_mask_iff by auto
  show "bit (511 :: u16) n \<longleftrightarrow> n < 9" unfolding m(4) bit_mask_iff by auto
qed

text \<open>One cut of an entry by a mode, and of a mode by an entry, bit by bit.\<close>

lemma entry_cut: "bit (x AND (drop_bit k m OR NOT S_IRWXO)) n \<longleftrightarrow> bit x n \<and> (n < 3 \<longrightarrow> bit (m :: u16) (k + n))"
  by (simp only: bit_and_iff bit_or_iff bit_not_iff bit_drop_bit_eq comp_def perm_masks) (auto simp: not_less dest: bit_imp_le_length)

lemma mode_cut:
  "bit (m AND (push_bit 6 x OR NOT S_IRWXU)) n \<longleftrightarrow> bit (m :: u16) n \<and> (6 \<le> n \<and> n < 9 \<longrightarrow> bit x (n - 6))"
  "bit (m AND (push_bit 3 x OR NOT S_IRWXG)) n \<longleftrightarrow> bit m n \<and> (3 \<le> n \<and> n < 6 \<longrightarrow> bit x (n - 3))"
  "bit (m AND (x OR NOT S_IRWXO)) n \<longleftrightarrow> bit m n \<and> (n < 3 \<longrightarrow> bit x n)"
  "bit ((m AND NOT S_IRWXUGO) OR x) n \<longleftrightarrow> 9 \<le> n \<and> bit m n \<or> bit x n"
  by (simp_all only: bit_and_iff bit_or_iff bit_not_iff bit_push_bit_iff perm_masks) (auto simp: not_less dest: bit_imp_le_length)

lemma cuts:
  fixes mode ow gr ot :: u16
  defines "po \<equiv> ow AND (drop_bit 6 mode OR NOT S_IRWXO)"
  defines "m1 \<equiv> mode AND (push_bit 6 po OR NOT S_IRWXU)"
  defines "pt \<equiv> ot AND (m1 OR NOT S_IRWXO)"
  defines "m2 \<equiv> m1 AND (pt OR NOT S_IRWXO)"
  defines "pg \<equiv> gr AND (drop_bit 3 m2 OR NOT S_IRWXO)"
  defines "m3 \<equiv> (mode AND NOT S_IRWXUGO) OR (m2 AND (push_bit 3 pg OR NOT S_IRWXG))"
  shows "pt = ot AND (mode OR NOT S_IRWXO)" "pg = gr AND (drop_bit 3 mode OR NOT S_IRWXO)"
    "bit m3 n \<longleftrightarrow> bit mode n \<and> (6 \<le> n \<and> n < 9 \<longrightarrow> bit ow (n - 6)) \<and> (3 \<le> n \<and> n < 6 \<longrightarrow> bit gr (n - 3)) \<and> (n < 3 \<longrightarrow> bit ot n)"
proof -
  have po: "bit po n \<longleftrightarrow> bit ow n \<and> (n < 3 \<longrightarrow> bit mode (6 + n))" for n unfolding po_def by (rule entry_cut)
  have m1: "bit m1 n \<longleftrightarrow> bit mode n \<and> (6 \<le> n \<and> n < 9 \<longrightarrow> bit po (n - 6))" for n unfolding m1_def by (rule mode_cut)
  have pt: "bit pt n \<longleftrightarrow> bit ot n \<and> (n < 3 \<longrightarrow> bit m1 n)" for n unfolding pt_def by (rule mode_cut)
  have m2: "bit m2 n \<longleftrightarrow> bit m1 n \<and> (n < 3 \<longrightarrow> bit pt n)" for n unfolding m2_def by (rule mode_cut)
  have pg: "bit pg n \<longleftrightarrow> bit gr n \<and> (n < 3 \<longrightarrow> bit m2 (3 + n))" for n unfolding pg_def by (rule entry_cut)
  have m3: "bit m3 n \<longleftrightarrow> 9 \<le> n \<and> bit mode n \<or> bit m2 n \<and> (3 \<le> n \<and> n < 6 \<longrightarrow> bit pg (n - 3))" for n
    unfolding m3_def by (simp only: mode_cut)
  note b = po m1 pt m2 pg m3
  show "pt = ot AND (mode OR NOT S_IRWXO)" by (rule bit_eqI, simp only: mode_cut b) auto
  show "pg = gr AND (drop_bit 3 mode OR NOT S_IRWXO)" by (rule bit_eqI, simp only: entry_cut b) auto
  show "bit m3 n \<longleftrightarrow> bit mode n \<and> (6 \<le> n \<and> n < 9 \<longrightarrow> bit ow (n - 6)) \<and> (3 \<le> n \<and> n < 6 \<longrightarrow> bit gr (n - 3)) \<and> (n < 3 \<longrightarrow> bit ot n)"
    unfolding b by auto
qed

lemma masq_skip:
  assumes "\<forall>e \<in> set us. long_tag (e_tag e)"
  shows "masq_loop (us @ es) i out mode g k ne = masq_loop es (i + length us) (out @ us) mode g k (ne \<or> us \<noteq> [])"
  using assms by (induction us arbitrary: i out ne) (auto simp: long_tag_def)

lemma acl_valid_parts:
  assumes "acl_valid acl"
  obtains ow us gr gs ms ot where "acl = [ow] @ us @ [gr] @ gs @ ms @ [ot]"
    "e_tag ow = ACL_USER_OBJ" "e_tag gr = ACL_GROUP_OBJ" "e_tag ot = ACL_OTHER"
    "\<forall>e \<in> set us. e_tag e = ACL_USER" "\<forall>e \<in> set gs. e_tag e = ACL_GROUP"
    "ms = [] \<and> us = [] \<and> gs = [] \<or> (\<exists>m. ms = [m] \<and> e_tag m = ACL_MASK)"
proof -
  obtain u g k where t: "map e_tag acl = [ACL_USER_OBJ] @ replicate u ACL_USER @ [ACL_GROUP_OBJ] @ replicate g ACL_GROUP @ replicate k ACL_MASK @ [ACL_OTHER]"
    and k: "k \<le> 1" "0 < u + g \<longrightarrow> k = 1" using assms unfolding acl_valid_def by blast
  note split = map_eq_append_conv [THEN iffD1]
  obtain A r1 where 1: "acl = A @ r1" "map e_tag A = [ACL_USER_OBJ]"
      "map e_tag r1 = replicate u ACL_USER @ [ACL_GROUP_OBJ] @ replicate g ACL_GROUP @ replicate k ACL_MASK @ [ACL_OTHER]" using split [OF t] by metis
  obtain us r2 where 2: "r1 = us @ r2" "map e_tag us = replicate u ACL_USER"
      "map e_tag r2 = [ACL_GROUP_OBJ] @ replicate g ACL_GROUP @ replicate k ACL_MASK @ [ACL_OTHER]" using split [OF 1(3)] by metis
  obtain B r3 where 3: "r2 = B @ r3" "map e_tag B = [ACL_GROUP_OBJ]" "map e_tag r3 = replicate g ACL_GROUP @ replicate k ACL_MASK @ [ACL_OTHER]"
    using split [OF 2(3)] by metis
  obtain gs r4 where 4: "r3 = gs @ r4" "map e_tag gs = replicate g ACL_GROUP" "map e_tag r4 = replicate k ACL_MASK @ [ACL_OTHER]"
    using split [OF 3(3)] by metis
  obtain ms C where 5: "r4 = ms @ C" "map e_tag ms = replicate k ACL_MASK" "map e_tag C = [ACL_OTHER]" using split [OF 4(3)] by metis
  note p = 1(1) [unfolded 2(1) 3(1) 4(1) 5(1)] 1(2) 2(2) 3(2) 4(2) 5(2,3)
  obtain ow gr ot where s: "A = [ow]" "B = [gr]" "C = [ot]" "e_tag ow = ACL_USER_OBJ" "e_tag gr = ACL_GROUP_OBJ" "e_tag ot = ACL_OTHER"
    using p(2,4,7) by auto
  have tags: "\<forall>e \<in> set xs. e_tag e = y" if "map e_tag xs = replicate n y" for xs n y
    using that by (metis imageI in_set_replicate list.set_map)
  have len: "length us = u" "length gs = g" "length ms = k" using p(3,5,6) by (metis length_map length_replicate)+
  have "ms = [] \<and> us = [] \<and> gs = [] \<or> (\<exists>m. ms = [m] \<and> e_tag m = ACL_MASK)"
  proof (cases "k = 1")
    case True
    then obtain m where "ms = [m]" using len(3) by (auto simp: length_Suc_conv)
    then show ?thesis using p(6) True by simp
  next
    case False
    then have "k = 0" using k(1) by simp
    then show ?thesis using k(2) len by simp
  qed
  then show thesis using that [of ow us gr gs ms ot] p(1) s tags [OF p(3)] tags [OF p(5)] by simp
qed

lemma acl_create_masq_exact:
  assumes "acl_valid p"
  shows "\<exists>mode'. f2fs_acl_create_masq p mode = Some (map (inherit_entry p mode) p, mode', 3 < length p) \<and> inherit_mode p mode mode'"
proof -
  obtain ow us gr gs ms ot where p: "p = [ow] @ us @ [gr] @ gs @ ms @ [ot]"
    and t: "e_tag ow = ACL_USER_OBJ" "e_tag gr = ACL_GROUP_OBJ" "e_tag ot = ACL_OTHER"
    and l: "\<forall>e \<in> set us. e_tag e = ACL_USER" "\<forall>e \<in> set gs. e_tag e = ACL_GROUP"
    and ms: "ms = [] \<and> us = [] \<and> gs = [] \<or> (\<exists>m. ms = [m] \<and> e_tag m = ACL_MASK)"
    by (rule acl_valid_parts [OF assms])
  have long: "\<forall>e \<in> set us. long_tag (e_tag e)" "\<forall>e \<in> set gs. long_tag (e_tag e)" using l by (auto simp: long_tag_def)
  define md where "md = (case ms of [] \<Rightarrow> gr | m # _ \<Rightarrow> m)"
  define po where "po = e_perm ow AND (drop_bit 6 mode OR NOT S_IRWXO)"
  define m1 where "m1 = mode AND (push_bit 6 po OR NOT S_IRWXU)"
  define pt where "pt = e_perm ot AND (m1 OR NOT S_IRWXO)"
  define m2 where "m2 = m1 AND (pt OR NOT S_IRWXO)"
  define pg where "pg = e_perm md AND (drop_bit 3 m2 OR NOT S_IRWXO)"
  define m3 where "m3 = (mode AND NOT S_IRWXUGO) OR (m2 AND (push_bit 3 pg OR NOT S_IRWXG))"
  note C = cuts(1) [where ot = "e_perm ot" and mode = mode and ow = "e_perm ow", folded po_def, folded m1_def, folded pt_def]
    cuts(2,3) [where ot = "e_perm ot" and mode = mode and ow = "e_perm ow" and gr = "e_perm md",
      folded po_def, folded m1_def, folded pt_def, folded m2_def, folded pg_def, folded m3_def]
  have cl: "acl_class p ow = Some 6" "acl_class p ot = Some 0" "acl_class p md = Some 3" "ms \<noteq> [] \<longrightarrow> acl_class p gr = None"
      "\<forall>e \<in> set us \<union> set gs. acl_class p e = None"
    using t l ms by (auto simp: acl_class_def p md_def)
  have c: "inherit_entry p mode ow = ow\<lparr>e_perm := po\<rparr>" "inherit_entry p mode ot = ot\<lparr>e_perm := pt\<rparr>"
      "inherit_entry p mode md = md\<lparr>e_perm := pg\<rparr>" "ms \<noteq> [] \<longrightarrow> inherit_entry p mode gr = gr"
      "map (inherit_entry p mode) us = us" "map (inherit_entry p mode) gs = gs"
    using cl C(1,2) by (simp_all add: inherit_entry_def po_def map_idI)
  have loop: "masq_loop p 0 [] mode None None False =
      Some (ow\<lparr>e_perm := po\<rparr> # us @ gr # gs @ ms @ [ot\<lparr>e_perm := pt\<rparr>], m2, Some (length us + 1),
        if ms = [] then None else Some (length us + length gs + 2), 3 < length p)"
    using ms
  proof (elim disjE exE conjE)
    assume "ms = []" "us = []" "gs = []"
    then show ?thesis using t by (simp add: p po_def m1_def pt_def m2_def Let_def)
  next
    fix m assume "ms = [m]" "e_tag m = ACL_MASK"
    then show ?thesis using t long by (simp add: p po_def m1_def pt_def m2_def Let_def masq_skip)
  qed
  have "f2fs_acl_create_masq p mode = Some (map (inherit_entry p mode) p, m3, 3 < length p)"
    using ms
  proof (elim disjE exE conjE)
    assume e: "ms = []" "us = []" "gs = []"
    then have "md = gr" by (simp add: md_def)
    then show ?thesis using c e unfolding f2fs_acl_create_masq_def loop by (simp add: p pg_def m3_def Let_def)
  next
    fix m assume e: "ms = [m]" "e_tag m = ACL_MASK"
    then have "md = m" by (simp add: md_def)
    moreover have "(xs @ y # ys)[length xs := z] = xs @ z # ys" for xs ys and y z :: posix_acl_entry by simp
    moreover have "length us + length gs + 2 = length (ow\<lparr>e_perm := po\<rparr> # us @ gr # gs)" by simp
    ultimately show ?thesis using c e unfolding f2fs_acl_create_masq_def loop
      by (simp add: p pg_def m3_def Let_def nth_append list_update_append)
  qed
  moreover have "inherit_mode p mode m3"
    unfolding inherit_mode_def
  proof (intro conjI ballI allI impI)
    fix e k b assume e: "e \<in> set p" "acl_class p e = Some k" "b < (3 :: nat)"
    have "e = ow \<and> k = 6 \<or> e = ot \<and> k = 0 \<or> e = md \<and> k = 3"
    proof -
      have "e = ow \<or> e \<in> set us \<union> set gs \<or> e = gr \<or> e \<in> set ms \<or> e = ot" using e(1) unfolding p by auto
      moreover have "e = gr \<Longrightarrow> e = md" using e(2) cl(4) by (cases ms) (simp_all add: md_def)
      moreover have "e \<in> set ms \<Longrightarrow> e = md" using ms by (auto simp: md_def)
      ultimately show ?thesis using e(2) cl by fastforce
    qed
    moreover have "bit m3 (6 + b) = (bit mode (6 + b) \<and> bit (e_perm ow) b)" "bit m3 (3 + b) = (bit mode (3 + b) \<and> bit (e_perm md) b)"
        "bit m3 b = (bit mode b \<and> bit (e_perm ot) b)"
      unfolding C(3) using e(3) by simp_all
    ultimately show "bit m3 (k + b) = (bit mode (k + b) \<and> bit (e_perm e) b)" by (elim disjE conjE) (simp_all only: add_0)
  next
    fix b :: nat assume "9 \<le> b"
    then show "bit m3 b = bit mode b" using C(3) [of b] by simp
  qed
  ultimately show ?thesis by blast
qed

end
