(* ===== verification/Xattr_Claims.thy ===== *)
theory Xattr_Claims
  imports Acl
begin

text \<open>What extended attributes and access control lists guarantee.\<close>

subsection \<open>A map from names to values\<close>

text \<open>The value of an attribute, as \<open>f2fs_getxattr\<close> gives it to a caller with a large buffer when no page fails to be read.\<close>

definition io_ok :: xattr_io where
  "io_ok = \<lparr>ipage_fails = False, xpage_fails = False, no_nid = False, no_new_page = False, dquot_fails = False, cp_error = False\<rparr>"

lemma io_ok_simps [simp]: "\<not> dquot_fails io_ok" "\<not> cp_error io_ok"
  by (simp_all add: io_ok_def)

definition xattr_get :: "xattr_fmt \<Rightarrow> xattr_inode \<Rightarrow> nat \<times> u8 list \<Rightarrow> u8 list option" where
  "xattr_get f x k = (case f2fs_getxattr f io_ok x (fst k) (snd k) (Some 65535) of Inl _ \<Rightarrow> None | Inr (_, v) \<Rightarrow> Some v)"

definition x_ok :: "xattr_fmt \<Rightarrow> xattr_inode \<Rightarrow> bool" where
  "x_ok f x \<longleftrightarrow> xfmt_ok f \<and> (\<exists>es. x_inv f x es)"

datatype xattr_op = Set_Xattr xattr_io nat "u8 list" "u8 list option" bool bool

fun xattr_guard :: "xattr_inode \<Rightarrow> xattr_op \<Rightarrow> bool" where
  "xattr_guard x (Set_Xattr io i n value create repl) \<longleftrightarrow> 0 < i \<and> i < 256"

fun xattr_step :: "xattr_fmt \<Rightarrow> xattr_inode \<Rightarrow> xattr_op \<Rightarrow> xattr_inode" where
  "xattr_step f x (Set_Xattr io i n value create repl) = snd (f2fs_setxattr f io x i n value create repl)"

fun xattr_put :: "xattr_fmt \<Rightarrow> xattr_inode \<Rightarrow> xattr_op \<Rightarrow> ((nat \<times> u8 list) \<times> u8 list option) option" where
  "xattr_put f x (Set_Xattr io i n value create repl) =
     (if fst (f2fs_setxattr f io x i n value create repl) = None then Some ((i, n), value) else None)"

lemma x_inv_value: "x_inv f x es \<Longrightarrow> map_of es k = Some v \<Longrightarrow> length v < 65536"
  by (cases k) (auto simp: x_inv_def ended_def ent_ok_def dest!: map_of_SomeD)

lemma xattr_get_map:
  assumes "x_inv f x es"
  shows "xattr_get f x k = (if F2FS_NAME_LEN f < length (snd k) then None else map_of es k)"
  using f2fs_getxattr_spec [OF assms, of io_ok "fst k" "snd k" "Some 65535"] x_inv_value [OF assms, of k]
  by (cases "map_of es k") (auto simp: xattr_get_def io_ok_def not_less)

lemma setxattr_name: "f2fs_setxattr f io x i n value c rp = (None, x') \<Longrightarrow> length n \<le> F2FS_NAME_LEN f"
  by (auto simp: f2fs_setxattr_def setxattr_body_def Let_def split: if_splits)

lemma xattr_step_spec:
  assumes "x_ok f x" "xattr_guard x op"
  shows "x_ok f (xattr_step f x op) \<and> xattr_get f (xattr_step f x op) = map_put (xattr_get f x) (xattr_put f x op)"
proof -
  obtain es where es: "xfmt_ok f" "x_inv f x es" using assms(1) by (auto simp: x_ok_def)
  obtain io i n w c rp where op: "op = Set_Xattr io i n w c rp" by (cases op)
  obtain err x' where r: "f2fs_setxattr f io x i n w c rp = (err, x')" by fastforce
  have i: "0 < i" "i < 256" using assms(2) op by simp_all
  note S = f2fs_setxattr_spec [OF es i r]
  show ?thesis
  proof (cases err)
    case None
    then obtain es' where e: "x_inv f x' es'" "map_of es' = (map_of es)((i, n) := w)" using S(1) by blast
    have "length n \<le> F2FS_NAME_LEN f" using setxattr_name r None by blast
    then have "xattr_get f x' = (xattr_get f x)((i, n) := w)"
      by (intro ext) (simp add: xattr_get_map [OF e(1)] xattr_get_map [OF es(2)] e(2))
    then show ?thesis using r op None e(1) es(1) by (auto simp: x_ok_def)
  qed (use S(2) r op assms(1) in simp)
qed

interpretation xattrs: backed_map "x_ok f" "xattr_get f" xattr_guard "xattr_step f" "xattr_put f" for f
  by unfold_locales (use xattr_step_spec in blast)+

subsection \<open>Access control lists\<close>

lemma x_mem_update [simp]:
  "x_mem f (x\<lparr>i_mode := m\<rparr>) = x_mem f x" "x_mem f (x\<lparr>i_acl_mode := a\<rparr>) = x_mem f x"
  by (simp_all add: x_mem_def read_xattr_block_def read_inline_xattr_def cong: if_cong option.case_cong)

lemma x_inv_update [simp]:
  "x_inv f (x\<lparr>i_mode := m\<rparr>) es \<longleftrightarrow> x_inv f x es" "x_inv f (x\<lparr>i_acl_mode := a\<rparr>) es \<longleftrightarrow> x_inv f x es"
  by (simp_all add: x_inv_def)

text \<open>The list that the attribute of a type stands for.\<close>

definition acl_of :: "u8 list option \<Rightarrow> x_err + posix_acl_entry list option" where
  "acl_of w = (case w of None \<Rightarrow> Inr None | Some v \<Rightarrow> if v = [] then Inr None else f2fs_acl_from_disk (\<lambda>a. if a < length v then v ! a else 0) (length v))"

lemma f2fs_get_acl_spec:
  assumes "x_inv f x es"
  shows "f2fs_get_acl f io x t = acl_of (map_of es (acl_index t, [])) \<or> f2fs_get_acl f io x t = Inl X_EIO \<and> (ipage_fails io \<or> xpage_fails io)"
proof -
  note G = f2fs_getxattr_spec [OF assms, of io "acl_index t" "[]"]
  show ?thesis
  proof (cases "map_of es (acl_index t, [])")
    case None
    then show ?thesis using G [of None] by (auto simp: f2fs_get_acl_def acl_of_def)
  next
    case (Some v)
    then show ?thesis using G [of None] G [of "Some (length v)"] by (auto simp: f2fs_get_acl_def acl_of_def)
  qed
qed

lemma acl_of_disk:
  assumes "acl_valid acl" "f2fs_acl_to_disk mem acl = Inr bs" "length bs < 65536"
  shows "acl_of (Some bs) = Inr (Some acl)"
proof -
  have "length bs = f2fs_acl_size (length acl)" using assms(2) by (auto simp: f2fs_acl_to_disk_def split: if_splits)
  then have "length acl < 1000000" "bs \<noteq> []" using assms(3) by (auto simp: f2fs_acl_size_def split: if_splits)
  then show ?thesis using acl_disk_roundtrip [OF assms(1) _ assms(2)] by (simp add: acl_of_def)
qed

text \<open>
  \<open>posix_acl_update_mode\<close> gives a mode and the list back, or no list when the mode says it all.
\<close>

definition upd_ok :: "(u16 \<Rightarrow> posix_acl_entry list \<Rightarrow> x_err + u16 \<times> posix_acl_entry list option) \<Rightarrow> bool" where
  "upd_ok upd \<longleftrightarrow> (\<forall>m acl m' a. upd m acl = Inr (m', a) \<longrightarrow> a = None \<or> a = Some acl)"

text \<open>The list that a successful call leaves.\<close>

definition kept_acl :: "(u16 \<Rightarrow> posix_acl_entry list \<Rightarrow> x_err + u16 \<times> posix_acl_entry list option) \<Rightarrow> u16 \<Rightarrow> acl_type \<Rightarrow> posix_acl_entry list option \<Rightarrow> bool \<Rightarrow> posix_acl_entry list option" where
  "kept_acl upd mode t acl new =
     (case acl of None \<Rightarrow> None
      | Some a \<Rightarrow> if t = ACL_TYPE_ACCESS \<and> \<not> new then (case upd mode a of Inl _ \<Rightarrow> None | Inr (_, acl') \<Rightarrow> acl') else acl)"

lemma acl_index_bounds [simp]: "0 < acl_index t" "acl_index t < 256"
  by (cases t; simp add: acl_index_def)+

lemma set_it_spec:
  assumes f: "xfmt_ok f" and inv: "x_inv f x es" and v: "\<forall>a. acl = Some a \<longrightarrow> acl_valid a" and r: "set_it f io mem t x acl = (None, x')"
  shows "\<exists>es' w. x_inv f x' es' \<and> map_of es' = (map_of es)((acl_index t, []) := w) \<and> acl_of w = Inr acl \<and> (\<forall>a. acl = Some a \<longrightarrow> map_sum id Some (f2fs_acl_to_disk mem a) = Inr w)"
proof -
  obtain w where w: "(case acl of None \<Rightarrow> Inr None | Some a \<Rightarrow> map_sum id Some (f2fs_acl_to_disk mem a)) = Inr w"
    using r by (auto simp: set_it_def split: sum.splits)
  then obtain y where y: "f2fs_setxattr f io x (acl_index t) [] w False False = (None, y)" "x' = y\<lparr>i_acl_mode := None\<rparr>"
    using r by (auto simp: set_it_def split: prod.splits)
  then obtain es' where e: "x_inv f y es'" "map_of es' = (map_of es)((acl_index t, []) := w)"
    using f2fs_setxattr_spec(1) [OF f inv acl_index_bounds y(1)] by blast
  have "acl_of w = Inr acl"
  proof (cases acl)
    case (Some a)
    then obtain bs where bs: "f2fs_acl_to_disk mem a = Inr bs" "w = Some bs" using w by (cases "f2fs_acl_to_disk mem a") auto
    have "map_of es' (acl_index t, []) = Some bs" using e(2) bs(2) by simp
    then have "length bs < 65536" using x_inv_value e(1) by blast
    then show ?thesis using acl_of_disk [OF _ bs(1)] v Some bs(2) by simp
  qed (use w in \<open>simp add: acl_of_def\<close>)
  moreover have "\<forall>a. acl = Some a \<longrightarrow> map_sum id Some (f2fs_acl_to_disk mem a) = Inr w" using w by auto
  moreover have "x_inv f x' es'" using e(1) y(2) by simp
  ultimately show ?thesis using e(2) by blast
qed

lemma f2fs_set_acl_spec:
  assumes f: "xfmt_ok f" and inv: "x_inv f x es" and v: "\<forall>a. acl = Some a \<longrightarrow> acl_valid a" and u: "upd_ok upd" and d: "t = ACL_TYPE_DEFAULT \<longrightarrow> S_ISDIR (i_mode x)"
    and r: "f2fs_set_acl f io upd mem x t acl new = (None, x')"
  shows "\<exists>es' w. x_inv f x' es' \<and> map_of es' = (map_of es)((acl_index t, []) := w) \<and> acl_of w = Inr (kept_acl upd (i_mode x) t acl new)"
proof (cases "t = ACL_TYPE_ACCESS \<and> acl \<noteq> None \<and> \<not> new")
  case True
  then obtain a where a: "acl = Some a" by auto
  then obtain mode acl' where up: "upd (i_mode x) a = Inr (mode, acl')" "set_it f io mem t (x\<lparr>i_acl_mode := Some mode\<rparr>) acl' = (None, x')"
    using r True by (auto simp: set_acl_defs split: sum.splits if_splits)
  have "acl' = None \<or> acl' = Some a" using u up(1) unfolding upd_ok_def by blast
  then have "\<forall>b. acl' = Some b \<longrightarrow> acl_valid b" using v a by auto
  then show ?thesis using set_it_spec [OF f _ _ up(2), of es] inv up(1) a True by (simp add: kept_acl_def) blast
next
  case False
  then have "set_it f io mem t x acl = (None, x')" using r d by (auto simp: set_acl_defs split: if_splits acl_type.splits option.splits)
  moreover have "kept_acl upd (i_mode x) t acl new = acl" using False by (auto simp: kept_acl_def split: option.split)
  ultimately show ?thesis using set_it_spec [OF f inv v] by metis
qed

subsection \<open>Inheriting\<close>

text \<open>A list with the same entries and no more permissions.\<close>

definition acl_below :: "posix_acl_entry list \<Rightarrow> posix_acl_entry list \<Rightarrow> bool" where
  "acl_below = list_all2 (\<lambda>a b. e_tag a = e_tag b \<and> e_id a = e_id b \<and> e_perm a AND e_perm b = e_perm a)"

lemma and_sub_trans: "(a :: u16) AND b = a \<Longrightarrow> b AND c = b \<Longrightarrow> a AND c = a"
  by (metis and.assoc)

lemma masq_loop_below:
  assumes "masq_loop es i out mode g k ne = Some (out', mode', g', k', ne')" "i = length out" "\<forall>j. g = Some j \<or> k = Some j \<longrightarrow> j < i"
  shows "\<exists>es'. out' = out @ es' \<and> acl_below es' es \<and> mode' AND mode = mode' \<and> (\<forall>j. g' = Some j \<or> k' = Some j \<longrightarrow> j < length out')"
  using assms
proof (induction es i out mode g k ne rule: masq_loop.induct)
  case (1 i out mode g k ne)
  then show ?case by (auto simp: acl_below_def)
next
  case (2 pa es i out mode g k ne)
  have step: ?case
    if r: "masq_loop es (i + 1) (out @ [pb]) m g1 k1 ne1 = Some (out', mode', g', k', ne')"
      and IH: "masq_loop es (i + 1) (out @ [pb]) m g1 k1 ne1 = Some (out', mode', g', k', ne') \<Longrightarrow> i + 1 = length (out @ [pb]) \<Longrightarrow> \<forall>j. g1 = Some j \<or> k1 = Some j \<longrightarrow> j < i + 1
        \<Longrightarrow> \<exists>es'. out' = (out @ [pb]) @ es' \<and> acl_below es' es \<and> mode' AND m = mode' \<and> (\<forall>j. g' = Some j \<or> k' = Some j \<longrightarrow> j < length out')"
      and b: "e_tag pb = e_tag pa" "e_id pb = e_id pa" "e_perm pb AND e_perm pa = e_perm pb" "m AND mode = m" "\<forall>j. g1 = Some j \<or> k1 = Some j \<longrightarrow> j < i + 1" for pb m g1 k1 ne1
  proof -
    obtain es' where "out' = (out @ [pb]) @ es'" "acl_below es' es" "mode' AND m = mode'" "\<forall>j. g' = Some j \<or> k' = Some j \<longrightarrow> j < length out'"
      using IH [OF r] b(5) 2(7) by auto
    then show ?thesis using b and_sub_trans [of mode' m mode] by (intro exI [of _ "pb # es'"]) (simp add: acl_below_def)
  qed
  have sub: "(a AND b) AND a = a AND b" for a b :: u16 by (metis and.commute and.left_idem)
  have gk: "\<forall>j. g = Some j \<or> k = Some j \<longrightarrow> j < i + 1" using 2(8) by auto
  consider "e_tag pa = ACL_USER_OBJ" | "e_tag pa = ACL_USER \<or> e_tag pa = ACL_GROUP" | "e_tag pa = ACL_GROUP_OBJ" | "e_tag pa = ACL_OTHER" | "e_tag pa = ACL_MASK"
    using 2(6) by (auto split: if_splits)
  then show ?case
  proof cases
    case 1
    let ?p = "e_perm pa AND (drop_bit 6 mode OR NOT S_IRWXO)"
    have "masq_loop es (i + 1) (out @ [pa\<lparr>e_perm := ?p\<rparr>]) (mode AND (push_bit 6 ?p OR NOT S_IRWXU)) g k ne = Some (out', mode', g', k', ne')"
      using 2(6) 1 by (simp add: Let_def)
    then show ?thesis by (rule step [OF _ 2(1) [OF 1 refl]]) (use gk sub in simp_all)
  next
    case u: 2
    then have r: "masq_loop es (i + 1) (out @ [pa]) mode g k True = Some (out', mode', g', k', ne')" using 2(6) by auto
    then show ?thesis by (rule step [OF _ 2(2)]) (use u gk in auto)
  next
    case g: 3
    then have r: "masq_loop es (i + 1) (out @ [pa]) mode (Some i) k ne = Some (out', mode', g', k', ne')" using 2(6) by auto
    then show ?thesis by (rule step [OF _ 2(3)]) (use g gk in auto)
  next
    case o: 4
    let ?p = "e_perm pa AND (mode OR NOT S_IRWXO)"
    have "masq_loop es (i + 1) (out @ [pa\<lparr>e_perm := ?p\<rparr>]) (mode AND (?p OR NOT S_IRWXO)) g k ne = Some (out', mode', g', k', ne')"
      using 2(6) o by (simp add: Let_def)
    then show ?thesis by (rule step [OF _ 2(4) [OF _ _ _ o refl]]) (use o gk sub in simp_all)
  next
    case m: 5
    then have r: "masq_loop es (i + 1) (out @ [pa]) mode g (Some i) True = Some (out', mode', g', k', ne')" using 2(6) by auto
    then show ?thesis by (rule step [OF _ 2(5)]) (use m gk in auto)
  qed
qed

lemma f2fs_acl_create_masq_below:
  assumes "f2fs_acl_create_masq acl mode = Some (acl', mode', ne)"
  shows "acl_below acl' acl \<and> mode' AND mode = mode'"
proof -
  obtain acl1 m1 g k where L: "masq_loop acl 0 [] mode None None False = Some (acl1, m1, g, k, ne)"
    and "(case k of Some i \<Rightarrow> Some i | None \<Rightarrow> g) \<noteq> None"
    using assms by (auto simp: f2fs_acl_create_masq_def Let_def split: option.splits)
  then obtain i where i: "(case k of Some i \<Rightarrow> Some i | None \<Rightarrow> g) = Some i" by blast
  define perm where "perm = e_perm (acl1 ! i) AND (drop_bit 3 m1 OR NOT S_IRWXO)"
  have B: "acl_below acl1 acl" "m1 AND mode = m1" "\<forall>j. g = Some j \<or> k = Some j \<longrightarrow> j < length acl1" using masq_loop_below [OF L] by auto
  have il: "i < length acl1" using i B(3) by (auto split: option.splits)
  have R: "acl' = acl1[i := (acl1 ! i)\<lparr>e_perm := perm\<rparr>]" "mode' = (mode AND NOT S_IRWXUGO) OR (m1 AND (push_bit 3 perm OR NOT S_IRWXG))"
    using assms unfolding f2fs_acl_create_masq_def L option.case prod.case i Let_def perm_def [symmetric] by simp_all
  have sub: "(a AND b) AND a = a AND b" for a b :: u16 by (metis and.commute and.left_idem)
  have "acl_below acl' acl1"
    unfolding acl_below_def R(1) by (rule list_all2_all_nthI) (auto simp: nth_list_update perm_def sub il)
  then have "acl_below acl' acl"
    using B(1) unfolding acl_below_def by (rule list_all2_trans [rotated]) (metis and.assoc)
  moreover have "mode' AND mode = mode'"
    unfolding R(2) by (rule bit_eqI) (use arg_cong [OF B(2), of bit] in \<open>auto simp: bit_simps fun_eq_iff\<close>)
  ultimately show ?thesis ..
qed

lemma acl_below_valid: "acl_below a b \<Longrightarrow> acl_valid b \<Longrightarrow> acl_valid a"
proof -
  assume b: "acl_below a b" "acl_valid b"
  then have "map e_tag a = map e_tag b" unfolding acl_below_def by (auto simp: list_all2_conv_all_nth intro: nth_equalityI)
  moreover have "\<forall>e \<in> set a. \<exists>e' \<in> set b. e_tag e = e_tag e' \<and> e_id e = e_id e'"
    using b(1) unfolding acl_below_def by (force simp: list_all2_conv_all_nth in_set_conv_nth)
  ultimately show ?thesis using b(2) unfolding acl_valid_def by metis
qed

lemma setxattr_mode:
  assumes "i_acl_mode x = None"
  shows "i_mode (snd (f2fs_setxattr f io x i n v c r)) = i_mode x" "i_acl_mode (snd (f2fs_setxattr f io x i n v c r)) = None"
proof -
  have d: "i_acl_mode y = None \<Longrightarrow> i_mode (setxattr_done i n y) = i_mode y \<and> i_acl_mode (setxattr_done i n y) = None" for y
    by (simp add: setxattr_done_def Let_def)
  have w: "write_all_xattrs f io x h m = (e, y) \<Longrightarrow> i_mode y = i_mode x \<and> i_acl_mode y = i_acl_mode x" for h m e y
    by (auto simp: write_all_xattrs_def Let_def f2fs_truncate_xattr_node_def split: if_splits option.splits prod.splits)
  have "i_mode (snd (f2fs_setxattr f io x i n v c r)) = i_mode x \<and> i_acl_mode (snd (f2fs_setxattr f io x i n v c r)) = None"
    unfolding f2fs_setxattr_def setxattr_body_def Let_def using assms w d by (auto split: sum.split option.split prod.split)
  then show "i_mode (snd (f2fs_setxattr f io x i n v c r)) = i_mode x" "i_acl_mode (snd (f2fs_setxattr f io x i n v c r)) = None" by simp_all
qed

text \<open>An entry that is there is no larger than the room, so its value passes the size check.\<close>

lemma value_fits:
  assumes f: "xfmt_ok f" and inv: "x_inv f x es" and v: "map_of es (i, n) = Some v"
  shows "length v \<le> MAX_VALUE_LEN f x"
proof -
  have "((i, n), v) \<in> set es" using v by (rule map_of_SomeD)
  then have "esize ((i, n), v) \<le> length (encs es)" unfolding length_concat by (intro member_le_sum_list) (force simp flip: length_enc, simp)
  moreover have "24 + length (encs es) \<le> MIN_OFFSET f x" using inv MIN_OFFSET_eq [OF f inv] by (simp add: x_inv_def)
  ultimately show ?thesis using esize_ge [of n v i] unfolding MAX_VALUE_LEN_def by linarith
qed

lemma f2fs_setxattr_same:
  assumes f: "xfmt_ok f" and inv: "x_inv f x es" and v: "map_of es (i, n) = Some v" and n: "length n \<le> F2FS_NAME_LEN f"
    and io: "\<not> ipage_fails io" "\<not> xpage_fails io" "\<not> dquot_fails io"
  shows "f2fs_setxattr f io x i n (Some v) False r = (None, x)"
proof -
  let ?sz = "inline_xattr_size x + VALID_XATTR_BLOCK_SIZE f + 4"
  define m where "m = init_header (x_mem f x)"
  define here where "here = 24 + length (encs (before (i, n) es))"
  have E: "ended m 24 es" and fit: "24 + length (encs es) + 4 \<le> ?sz" using inv init_header_ended by (auto simp: m_def x_inv_def)
  have k: "(i, n) \<in> fst ` set es" using v by (metis map_of_eq_None_iff option.distinct(1))
  obtain w where w: "map_of es (i, n) = Some w" "ent_ok ((i, n), w)" "mem_read m here (esize ((i, n), w)) = enc ((i, n), w)"
    using found_entry(2) [OF E here_def k] by blast
  then have "f2fs_xattr_value_same m here v" using v entry_fields(2,3,7) [OF w(3,2) refl] by (simp add: f2fs_xattr_value_same_def)
  moreover have "\<not> IS_XATTR_LAST_ENTRY m here" using found_entry(1) [OF E here_def] k by simp
  moreover have "find_xattr ?sz m 24 i n = Some here" unfolding here_def by (rule find_xattr_ended [OF E fit])
  moreover have "read_all_xattrs f io x = Inr m" using io by (simp add: read_all_xattrs_def m_def x_mem_def)
  ultimately show ?thesis using n value_fits [OF f inv v] by (simp add: f2fs_setxattr_def setxattr_body_def Let_def io(3))
qed

lemma setxattr_fits:
  assumes f: "xfmt_ok f" and inv: "x_inv f x es" and i: "0 < i" "i < 256" and n: "length n \<le> F2FS_NAME_LEN f"
    and fit: "24 + length (encs es) + esize ((i, n), v) \<le> inline_xattr_size x + VALID_XATTR_BLOCK_SIZE f"
  shows "fst (f2fs_setxattr f io_ok x i n (Some v) False False) = None"
proof -
  obtain err x' where r: "f2fs_setxattr f io_ok x i n (Some v) False False = (err, x')" by fastforce
  have "length v \<le> MAX_VALUE_LEN f x" using fit esize_ge [of n v i] by (simp add: MAX_VALUE_LEN_def MIN_OFFSET_eq [OF f inv])
  then show ?thesis using f2fs_setxattr_spec(3) [OF f inv i r] r n fit by (auto simp: io_ok_def)
qed

lemma set_it_mode:
  assumes "i_acl_mode x = None" "set_it f io mem t x acl = (err, x')"
  shows "i_mode x' = i_mode x \<and> i_acl_mode x' = None"
  using assms(2) setxattr_mode [OF assms(1)] by (auto simp: set_it_def split: sum.splits prod.splits) (metis snd_conv)+

subsection \<open>What is guaranteed\<close>

text \<open>
  C9. Extended attributes are a map. Over any sequence of calls of \<open>f2fs_setxattr\<close> with any flags and failures, the attributes that \<open>f2fs_getxattr\<close> finds in the
  inode and its block are those of the successful calls, and every other attribute keeps its value when entries are shifted or move between the inode and
  the block. No search and no copy leaves the buffers.
\<close>

theorem xattr_refines_map:
  assumes "x_ok f x" "guarded_run xattr_guard (xattr_step f) x ops"
  shows "x_ok f (foldl (xattr_step f) x ops) \<and> xattr_get f (foldl (xattr_step f) x ops) = map_run (xattr_put f) (xattr_step f) x (xattr_get f x) ops
    \<and> (\<forall>io i n w c r. 0 < i \<longrightarrow> i < 256 \<longrightarrow> fst (f2fs_setxattr f io (foldl (xattr_step f) x ops) i n w c r) \<noteq> Some X_OUT_OF_BOUNDS)
    \<and> (\<forall>io i n buf. f2fs_getxattr f io (foldl (xattr_step f) x ops) i n buf \<noteq> Inl X_OUT_OF_BOUNDS)"
proof (intro conjI allI impI)
  let ?x = "foldl (xattr_step f) x ops"
  show ok: "x_ok f ?x" by (rule xattrs.run_ok [OF assms])
  show "xattr_get f ?x = map_run (xattr_put f) (xattr_step f) x (xattr_get f x) ops" by (rule xattrs.run_look [OF assms])
  obtain es where es: "xfmt_ok f" "x_inv f ?x es" using ok by (auto simp: x_ok_def)
  show "fst (f2fs_setxattr f io ?x i n w c r) \<noteq> Some X_OUT_OF_BOUNDS" if "0 < i" "i < 256" for io i n w c r
  proof (cases "f2fs_setxattr f io ?x i n w c r")
    case (Pair e y)
    then show ?thesis using f2fs_setxattr_spec(2) [OF es that Pair] by auto
  qed
  show "f2fs_getxattr f io ?x i n buf \<noteq> Inl X_OUT_OF_BOUNDS" for io i n buf
    using f2fs_getxattr_spec [OF es(2), of io i n buf] by (auto split: if_splits option.splits)
qed

definition linux_xfmt :: xattr_fmt where
  "linux_xfmt = \<lparr>VALID_XATTR_BLOCK_SIZE = 4072, F2FS_NAME_LEN = 255\<rparr>"

text \<open>A new inode with \<open>s\<close> bytes for attributes.\<close>

definition new_xinode :: "nat \<Rightarrow> u16 \<Rightarrow> xattr_inode" where
  "new_xinode s mode = \<lparr>inline_xattr_size = s, inline_xattr = (\<lambda>_. 0), xattr_block = None, i_mode = mode, i_acl_mode = None, encrypted = False, need_cp = False\<rparr>"

lemma linux_xfmt_ok: "xfmt_ok linux_xfmt"
  by (simp add: xfmt_ok_def linux_xfmt_def)

lemma new_xinode_inv:
  assumes "s = 0 \<or> 28 \<le> s" "4 dvd s" "s < 61464"
  shows "x_inv linux_xfmt (new_xinode s mode) []" "x_ok linux_xfmt (new_xinode s mode)"
proof -
  have "x_mem linux_xfmt (new_xinode s mode) = (\<lambda>_. 0)" by (simp add: x_mem_def read_xattr_block_def read_inline_xattr_def new_xinode_def fun_eq_iff)
  then show "x_inv linux_xfmt (new_xinode s mode) []" using assms by (auto simp: x_inv_def ended_def linux_xfmt_def new_xinode_def)
  then show "x_ok linux_xfmt (new_xinode s mode)" using linux_xfmt_ok by (auto simp: x_ok_def)
qed

definition xattr_sample :: "xattr_op list" where
  "xattr_sample = [Set_Xattr io_ok 1 [97] (Some [1, 2, 3]) False False, Set_Xattr io_ok 1 [98] (Some (replicate 200 7)) True False,
     Set_Xattr io_ok 1 [97] None False False]"

theorem xattr_refines_map_witness:
  "x_ok linux_xfmt (foldl (xattr_step linux_xfmt) (new_xinode 200 0x81A4) xattr_sample)
    \<and> xattr_get linux_xfmt (foldl (xattr_step linux_xfmt) (new_xinode 200 0x81A4) xattr_sample)
      = map_run (xattr_put linux_xfmt) (xattr_step linux_xfmt) (new_xinode 200 0x81A4) (xattr_get linux_xfmt (new_xinode 200 0x81A4)) xattr_sample"
proof -
  have g: "guarded_run xattr_guard (xattr_step linux_xfmt) (new_xinode 200 0x81A4) xattr_sample" by (simp add: xattr_sample_def)
  have "x_ok linux_xfmt (new_xinode 200 0x81A4)" by (rule new_xinode_inv) simp_all
  then show ?thesis using xattr_refines_map [OF _ g] by blast
qed

text \<open>
  C26. What \<open>f2fs_set_acl\<close> stores \<open>f2fs_get_acl\<close> gives back: a list that the kernel passes is coded with short and long entries, its length is found again from the
  size of the attribute, and every entry is the one that was set. When the mode says all that the list says, there is no list afterwards. No other attribute changes.
\<close>

theorem acl_set_get:
  assumes "x_ok f x" "acl_valid acl" "upd_ok upd" "t = ACL_TYPE_DEFAULT \<longrightarrow> S_ISDIR (i_mode x)" "f2fs_set_acl f io upd mem x t (Some acl) new = (None, x')"
  shows "x_ok f x' \<and> f2fs_get_acl f io_ok x' t = Inr (kept_acl upd (i_mode x) t (Some acl) new) \<and> (\<forall>k. k \<noteq> (acl_index t, []) \<longrightarrow> xattr_get f x' k = xattr_get f x k)"
proof -
  obtain es where es: "xfmt_ok f" "x_inv f x es" using assms(1) by (auto simp: x_ok_def)
  have "\<forall>a. Some acl = Some a \<longrightarrow> acl_valid a" using assms(2) by simp
  then obtain es' w where e: "x_inv f x' es'" "map_of es' = (map_of es)((acl_index t, []) := w)" "acl_of w = Inr (kept_acl upd (i_mode x) t (Some acl) new)"
    using f2fs_set_acl_spec [OF es _ assms(3-5)] by blast
  have "f2fs_get_acl f io_ok x' t = acl_of (map_of es' (acl_index t, []))" using f2fs_get_acl_spec [OF e(1), of io_ok t] by (simp add: io_ok_def)
  then show ?thesis using e es by (auto simp: x_ok_def xattr_get_map [OF e(1)] xattr_get_map [OF es(2)])
qed

definition sample_acl :: "posix_acl_entry list" where
  "sample_acl = [\<lparr>e_tag = 1, e_perm = 7, e_id = 0\<rparr>, \<lparr>e_tag = 2, e_perm = 5, e_id = 1000\<rparr>, \<lparr>e_tag = 4, e_perm = 5, e_id = 0\<rparr>, \<lparr>e_tag = 16, e_perm = 5, e_id = 0\<rparr>,
     \<lparr>e_tag = 32, e_perm = 4, e_id = 0\<rparr>]"

definition keep_mode :: "u16 \<Rightarrow> posix_acl_entry list \<Rightarrow> x_err + u16 \<times> posix_acl_entry list option" where
  "keep_mode m acl = Inr (m, Some acl)"

lemma keep_mode_ok: "upd_ok keep_mode"
  by (simp add: upd_ok_def keep_mode_def)

lemma sample_acl_valid: "acl_valid sample_acl"
  unfolding acl_valid_def sample_acl_def by (rule conjI, rule exI [of _ 1], rule exI [of _ 0], rule exI [of _ 1]) (simp_all add: short_tag_def)

lemma first_acl_fits:
  assumes "x_inv linux_xfmt x []" "acl_valid acl" "length acl < 400" "t = ACL_TYPE_DEFAULT \<longrightarrow> S_ISDIR (i_mode x)"
  shows "fst (f2fs_set_acl linux_xfmt io_ok keep_mode mem x t (Some acl) new) = None"
proof -
  have "\<not> (\<exists>e \<in> set acl. \<not> short_tag (e_tag e) \<and> \<not> long_tag (e_tag e))" using acl_valid_size(1) [OF assms(2)] by blast
  then obtain bs where bs: "f2fs_acl_to_disk mem acl = Inr bs" "length bs = f2fs_acl_size (length acl)" unfolding f2fs_acl_to_disk_def by auto
  have "fst (f2fs_setxattr linux_xfmt io_ok y (acl_index t) [] (Some bs) False False) = None" if "x_inv linux_xfmt y []" for y
    using that
  proof (rule setxattr_fits [OF linux_xfmt_ok])
    have "XATTR_ALIGN (4 + length bs) \<le> 4 + length bs + 3" by (simp add: XATTR_ALIGN_def)
    moreover have "f2fs_acl_size (length acl) \<le> 4000" using assms(3) by (auto simp: f2fs_acl_size_def)
    ultimately have "esize ((acl_index t, []), bs) \<le> 4007" unfolding esize_def fst_conv snd_conv list.size(3) add_0_right bs(2) by linarith
    then show "24 + length (encs []) + esize ((acl_index t, []), bs) \<le> inline_xattr_size y + VALID_XATTR_BLOCK_SIZE linux_xfmt" by (simp add: linux_xfmt_def)
  qed (simp_all add: linux_xfmt_def)
  then have "fst (set_it linux_xfmt io_ok mem t y (Some acl)) = None" if "x_inv linux_xfmt y []" for y
    using that by (simp add: set_it_def bs case_prod_beta)
  then show ?thesis using assms(1,4) by (auto simp: set_acl_defs keep_mode_def split: acl_type.split)
qed

definition acl_inode :: xattr_inode where
  "acl_inode = snd (f2fs_set_acl linux_xfmt io_ok keep_mode (\<lambda>_. 0) (new_xinode 200 0x81A4) ACL_TYPE_ACCESS (Some sample_acl) False)"

theorem acl_set_get_witness:
  "acl_valid sample_acl \<and> f2fs_get_acl linux_xfmt io_ok acl_inode ACL_TYPE_ACCESS = Inr (Some sample_acl)"
proof -
  have "x_ok linux_xfmt (new_xinode 200 0x81A4)" by (rule new_xinode_inv) simp_all
  moreover have "f2fs_set_acl linux_xfmt io_ok keep_mode (\<lambda>_. 0) (new_xinode 200 0x81A4) ACL_TYPE_ACCESS (Some sample_acl) False = (None, acl_inode)"
    using first_acl_fits [of "new_xinode 200 0x81A4" sample_acl] new_xinode_inv(1) sample_acl_valid by (simp add: acl_inode_def prod_eq_iff sample_acl_def)
  ultimately have "f2fs_get_acl linux_xfmt io_ok acl_inode ACL_TYPE_ACCESS = Inr (kept_acl keep_mode (i_mode (new_xinode 200 0x81A4)) ACL_TYPE_ACCESS (Some sample_acl) False)"
    using acl_set_get [OF _ sample_acl_valid keep_mode_ok] by simp
  then show ?thesis using sample_acl_valid by (simp add: kept_acl_def keep_mode_def)
qed

text \<open>
  C27. A new inode in a directory with a default list gets its mode and lists from it. In the access list the entries of the owner, of others and of the mask (of the group, if there is no
  mask) keep exactly the permissions that the requested mode has for them too, and the other entries are those of the default list; each permission bit of the new mode is set iff it was
  requested and the entry for it allows it, and the other bits of the mode are as requested. The list is stored exactly when it has more than the three entries a mode can express, and a
  new directory hands the default list on.
\<close>

theorem f2fs_init_acl_inherits:
  assumes "x_ok f dir" "x_ok f x" "f2fs_get_acl f io dir ACL_TYPE_DEFAULT = Inr (Some p)" "acl_valid p" "upd_ok upd" "i_acl_mode x = None"
    "i_mode x AND 0xF000 \<noteq> 0xA000" "f2fs_init_acl f io upd mem True umask dir x = (None, x')"
  shows "(\<forall>e \<in> set p. \<forall>k b. acl_class p e = Some k \<longrightarrow> b < 3 \<longrightarrow>
        bit (e_perm (inherit_entry p (i_mode x) e)) b = (bit (e_perm e) b \<and> bit (i_mode x) (k + b))
        \<and> bit (i_mode x') (k + b) = (bit (i_mode x) (k + b) \<and> bit (e_perm e) b))
    \<and> (\<forall>b \<ge> 9. bit (i_mode x') b = bit (i_mode x) b)
    \<and> f2fs_get_acl f io_ok x' ACL_TYPE_ACCESS =
        (if 3 < length p then Inr (Some (map (inherit_entry p (i_mode x)) p)) else f2fs_get_acl f io_ok x ACL_TYPE_ACCESS)
    \<and> f2fs_get_acl f io_ok x' ACL_TYPE_DEFAULT = (if S_ISDIR (i_mode x') then Inr (Some p) else f2fs_get_acl f io_ok x ACL_TYPE_DEFAULT)"
proof -
  obtain es where es: "xfmt_ok f" "x_inv f x es" using assms(2) by (auto simp: x_ok_def)
  define clone where "clone = map (inherit_entry p (i_mode x)) p"
  define ne where "ne \<longleftrightarrow> 3 < length p"
  obtain mode where M: "f2fs_acl_create_masq p (i_mode x) = Some (clone, mode, ne)" and im: "inherit_mode p (i_mode x) mode"
    using acl_create_masq_exact [OF assms(4), of "i_mode x"] by (auto simp: clone_def ne_def)
  have B: "acl_below clone p" "mode AND i_mode x = mode" using f2fs_acl_create_masq_below [OF M] by auto
  let ?x = "x\<lparr>i_mode := mode\<rparr>"
  let ?one = "if S_ISDIR mode then f2fs_set_acl f io upd mem ?x ACL_TYPE_DEFAULT (Some p) True else (None, ?x)"
  obtain e1 x1 where x1: "?one = (e1, x1)" by fastforce
  have "f2fs_init_acl f io upd mem True umask dir x = (if \<not> ne \<or> e1 \<noteq> None then (e1, x1) else f2fs_set_acl f io upd mem x1 ACL_TYPE_ACCESS (Some clone) True)"
    using assms(3,7) M x1 by (cases "S_ISDIR mode") (auto simp: f2fs_init_acl_def f2fs_acl_create_def)
  then have I: "e1 = None" "(if ne then f2fs_set_acl f io upd mem x1 ACL_TYPE_ACCESS (Some clone) True else (None, x1)) = (None, x')"
    using assms(8) by (auto split: if_splits)
  have v: "\<forall>a. Some p = Some a \<longrightarrow> acl_valid a" "\<forall>a. Some clone = Some a \<longrightarrow> acl_valid a" using assms(4) acl_below_valid [OF B(1)] by simp_all
  obtain es1 w1 where s1: "x_inv f x1 es1" "map_of es1 = (map_of es)((acl_index ACL_TYPE_DEFAULT, []) := w1)"
    "acl_of w1 = (if S_ISDIR mode then Inr (Some p) else acl_of (map_of es (acl_index ACL_TYPE_DEFAULT, [])))"
  proof (cases "S_ISDIR mode")
    case True
    then show ?thesis using f2fs_set_acl_spec [OF es(1) _ v(1) assms(5), of ?x es ACL_TYPE_DEFAULT io mem True x1] es(2) x1 I(1) by (auto simp: kept_acl_def intro: that)
  next
    case False
    then show ?thesis using es(2) x1 I(1) by (intro that [of es "map_of es (acl_index ACL_TYPE_DEFAULT, [])"]) auto
  qed
  obtain es2 w2 where s2: "x_inv f x' es2" "map_of es2 = (map_of es1)((acl_index ACL_TYPE_ACCESS, []) := w2)"
    "acl_of w2 = (if ne then Inr (Some clone) else acl_of (map_of es1 (acl_index ACL_TYPE_ACCESS, [])))"
  proof (cases ne)
    case True
    then show ?thesis using f2fs_set_acl_spec [OF es(1) s1(1) v(2) assms(5), of ACL_TYPE_ACCESS io mem True x'] I(2) by (auto simp: kept_acl_def intro: that)
  next
    case False
    then show ?thesis using s1(1) I(2) by (intro that [of es1 "map_of es1 (acl_index ACL_TYPE_ACCESS, [])"]) auto
  qed
  have "i_mode x1 = mode \<and> i_acl_mode x1 = None"
  proof (cases "S_ISDIR mode")
    case True
    then have "set_it f io mem ACL_TYPE_DEFAULT ?x (Some p) = (e1, x1)" using x1 by (simp add: set_acl_defs)
    then show ?thesis using set_it_mode [of ?x] assms(6) by fastforce
  qed (use x1 assms(6) in auto)
  then have mode: "i_mode x' = mode"
    using I(2) set_it_mode [of x1 f io mem ACL_TYPE_ACCESS "Some clone" None x'] by (cases ne) (simp_all add: set_acl_defs)
  have get: "x_inv f y e \<Longrightarrow> f2fs_get_acl f io_ok y t = acl_of (map_of e (acl_index t, []))" for y e t using f2fs_get_acl_spec [of f y e io_ok t] by (simp add: io_ok_def)
  have "acl_index ACL_TYPE_ACCESS \<noteq> acl_index ACL_TYPE_DEFAULT" by (simp add: acl_index_def)
  then have lists: "f2fs_get_acl f io_ok x' ACL_TYPE_ACCESS = (if ne then Inr (Some clone) else f2fs_get_acl f io_ok x ACL_TYPE_ACCESS)"
      "f2fs_get_acl f io_ok x' ACL_TYPE_DEFAULT = (if S_ISDIR (i_mode x') then Inr (Some p) else f2fs_get_acl f io_ok x ACL_TYPE_DEFAULT)"
    using s1(3) s2(3) unfolding mode get [OF s2(1)] get [OF es(2)] s2(2) s1(2) by simp_all
  have "bit (e_perm (inherit_entry p (i_mode x) e)) b = (bit (e_perm e) b \<and> bit (i_mode x) (k + b))"
    if "acl_class p e = Some k" "b < 3" for e k b
    using that entry_cut [of "e_perm e" k "i_mode x" b] by (simp add: inherit_entry_def)
  with im lists show ?thesis unfolding mode inherit_mode_def clone_def ne_def by simp
qed

definition acl_dir :: xattr_inode where
  "acl_dir = snd (f2fs_set_acl linux_xfmt io_ok keep_mode (\<lambda>_. 0) (new_xinode 200 0x41ED) ACL_TYPE_DEFAULT (Some sample_acl) False)"

lemma acl_dir_ok: "x_ok linux_xfmt acl_dir" "f2fs_get_acl linux_xfmt io_ok acl_dir ACL_TYPE_DEFAULT = Inr (Some sample_acl)"
proof -
  let ?x = "new_xinode 200 0x41ED"
  have d: "S_ISDIR (i_mode ?x)" by (simp add: new_xinode_def S_ISDIR_def)
  have i: "x_inv linux_xfmt ?x []" by (rule new_xinode_inv) simp_all
  have "f2fs_set_acl linux_xfmt io_ok keep_mode (\<lambda>_. 0) ?x ACL_TYPE_DEFAULT (Some sample_acl) False = (None, acl_dir)"
    using first_acl_fits [OF i sample_acl_valid] d by (simp add: acl_dir_def prod_eq_iff sample_acl_def)
  then obtain es w where e: "x_inv linux_xfmt acl_dir es" "map_of es = (map_of [])((acl_index ACL_TYPE_DEFAULT, []) := w)" "acl_of w = Inr (Some sample_acl)"
    using f2fs_set_acl_spec [OF linux_xfmt_ok i _ keep_mode_ok] d sample_acl_valid by (force simp: kept_acl_def)
  then show "x_ok linux_xfmt acl_dir" using linux_xfmt_ok by (auto simp: x_ok_def)
  show "f2fs_get_acl linux_xfmt io_ok acl_dir ACL_TYPE_DEFAULT = Inr (Some sample_acl)"
    using f2fs_get_acl_spec [OF e(1), of io_ok ACL_TYPE_DEFAULT] e(2,3) by (simp add: io_ok_def)
qed

lemma inherit_sample:
  "f2fs_acl_create_masq sample_acl 0x81A4 = Some (map (inherit_entry sample_acl 0x81A4) sample_acl, 0x81A4, True)"
  using acl_create_masq_exact [OF sample_acl_valid, of "0x81A4"]
  by (auto simp: f2fs_acl_create_masq_def sample_acl_def)

theorem f2fs_init_acl_inherits_witness:
  "\<exists>x'. f2fs_init_acl linux_xfmt io_ok keep_mode (\<lambda>_. 0) True 0x12 acl_dir (new_xinode 200 0x81A4) = (None, x')
    \<and> f2fs_get_acl linux_xfmt io_ok x' ACL_TYPE_ACCESS = Inr (Some (map (inherit_entry sample_acl 0x81A4) sample_acl))
    \<and> e_perm (hd sample_acl) = 7 \<and> e_perm (inherit_entry sample_acl 0x81A4 (hd sample_acl)) = 6"
proof -
  let ?x = "new_xinode 200 0x81A4" and ?c = "map (inherit_entry sample_acl 0x81A4) sample_acl"
  note M = inherit_sample
  have c: "acl_valid ?c" "length ?c < 400" using f2fs_acl_create_masq_below [OF M] acl_below_valid sample_acl_valid by (auto simp: sample_acl_def)
  have inv: "x_inv linux_xfmt ?x []" by (rule new_xinode_inv) simp_all
  then have "x_inv linux_xfmt (?x\<lparr>i_mode := 0x81A4\<rparr>) []" by simp
  from first_acl_fits [OF this c, of ACL_TYPE_ACCESS] obtain x' where
    "f2fs_set_acl linux_xfmt io_ok keep_mode (\<lambda>_. 0) (?x\<lparr>i_mode := 0x81A4\<rparr>) ACL_TYPE_ACCESS (Some ?c) True = (None, x')" by (metis acl_type.distinct(1) prod.collapse)
  then have r: "f2fs_init_acl linux_xfmt io_ok keep_mode (\<lambda>_. 0) True 0x12 acl_dir ?x = (None, x')"
    using M by (simp add: f2fs_init_acl_def f2fs_acl_create_def acl_dir_ok new_xinode_def S_ISDIR_def)
  have "x_ok linux_xfmt ?x" by (rule new_xinode_inv) simp_all
  then have "f2fs_get_acl linux_xfmt io_ok x' ACL_TYPE_ACCESS =
      (if 3 < length sample_acl then Inr (Some ?c) else f2fs_get_acl linux_xfmt io_ok ?x ACL_TYPE_ACCESS)"
    using f2fs_init_acl_inherits [OF acl_dir_ok(1) _ acl_dir_ok(2) sample_acl_valid keep_mode_ok _ _ r] by (simp add: new_xinode_def)
  moreover have "3 < length sample_acl" "e_perm (hd sample_acl) = 7" "e_perm (inherit_entry sample_acl 0x81A4 (hd sample_acl)) = 6"
    by (simp_all add: sample_acl_def inherit_entry_def acl_class_def)
  ultimately show ?thesis using r by simp
qed

text \<open>
  C28. Setting the list that is already stored does not set the mode. \<open>__f2fs_set_acl\<close> leaves the new mode in \<open>i_acl_mode\<close> for \<open>f2fs_setxattr\<close>, which returns early when the
  value is the same, and the call succeeds with the mode that was there before.
\<close>

theorem same_acl_loses_mode:
  assumes "x_ok f x" "f2fs_acl_to_disk mem acl = Inr bs" "xattr_get f x (acl_index ACL_TYPE_ACCESS, []) = Some bs" "upd (i_mode x) acl = Inr (mode, Some acl)" "i_acl_mode x = None"
  shows "f2fs_set_acl f io_ok upd mem x ACL_TYPE_ACCESS (Some acl) False = (None, x)"
proof -
  obtain es where es: "xfmt_ok f" "x_inv f x es" using assms(1) by (auto simp: x_ok_def)
  let ?y = "x\<lparr>i_acl_mode := Some mode\<rparr>"
  have inv: "x_inv f ?y es" using es(2) by simp
  have v: "map_of es (acl_index ACL_TYPE_ACCESS, []) = Some bs" using assms(3) by (simp add: xattr_get_map [OF es(2)])
  have "f2fs_setxattr f io_ok ?y (acl_index ACL_TYPE_ACCESS) [] (Some bs) False False = (None, ?y)"
    by (rule f2fs_setxattr_same [OF es(1) inv v]) (simp_all add: io_ok_def)
  then have "set_it f io_ok mem ACL_TYPE_ACCESS ?y (Some acl) = (None, ?y\<lparr>i_acl_mode := None\<rparr>)" using assms(2) by (simp add: set_it_def)
  then show ?thesis using assms(4,5) by (simp add: set_acl_defs)
qed

definition other_mode :: "u16 \<Rightarrow> posix_acl_entry list \<Rightarrow> x_err + u16 \<times> posix_acl_entry list option" where
  "other_mode m acl = Inr (m XOR 0x400, Some acl)"

theorem same_acl_loses_mode_witness:
  "other_mode 0x81A4 sample_acl = Inr (0x85A4, Some sample_acl)
    \<and> f2fs_set_acl linux_xfmt io_ok other_mode (\<lambda>_. 0) (acl_inode\<lparr>i_mode := 0x81A4, i_acl_mode := None\<rparr>) ACL_TYPE_ACCESS (Some sample_acl) False
      = (None, acl_inode\<lparr>i_mode := 0x81A4, i_acl_mode := None\<rparr>)"
proof -
  let ?x = "(new_xinode 200 0x81A4)\<lparr>i_acl_mode := Some 0x81A4\<rparr>"
  have i: "x_inv linux_xfmt (new_xinode 200 0x81A4) []" by (rule new_xinode_inv) simp_all
  have "fst (set_it linux_xfmt io_ok (\<lambda>_. 0) ACL_TYPE_ACCESS ?x (Some sample_acl)) = None"
    using first_acl_fits [OF i sample_acl_valid, of ACL_TYPE_ACCESS "\<lambda>_. 0" False] by (simp add: set_acl_defs keep_mode_def new_xinode_def sample_acl_def)
  then have r: "set_it linux_xfmt io_ok (\<lambda>_. 0) ACL_TYPE_ACCESS ?x (Some sample_acl) = (None, acl_inode)"
    by (simp add: acl_inode_def set_acl_defs keep_mode_def new_xinode_def prod_eq_iff)
  have i': "x_inv linux_xfmt ?x []" using i by simp
  have v: "\<forall>a. Some sample_acl = Some a \<longrightarrow> acl_valid a" using sample_acl_valid by simp
  obtain es w where e: "x_inv linux_xfmt acl_inode es" "map_of es (acl_index ACL_TYPE_ACCESS, []) = w"
    "map_sum id Some (f2fs_acl_to_disk (\<lambda>_. 0) sample_acl) = Inr w"
    using set_it_spec [OF linux_xfmt_ok i' v r] by auto
  then obtain bs where bs: "f2fs_acl_to_disk (\<lambda>_. 0) sample_acl = Inr bs" "w = Some bs" by (cases "f2fs_acl_to_disk (\<lambda>_. 0) sample_acl") auto
  let ?y = "acl_inode\<lparr>i_mode := 0x81A4, i_acl_mode := None\<rparr>"
  have y: "x_inv linux_xfmt ?y es" using e(1) by simp
  have "F2FS_NAME_LEN linux_xfmt = 255" by (simp add: linux_xfmt_def)
  then have "xattr_get linux_xfmt ?y (acl_index ACL_TYPE_ACCESS, []) = Some bs" using e(2) bs(2) by (simp add: xattr_get_map [OF y])
  moreover have "x_ok linux_xfmt ?y" using y linux_xfmt_ok by (auto simp: x_ok_def)
  ultimately show ?thesis using same_acl_loses_mode [OF _ bs(1), of linux_xfmt ?y other_mode "0x85A4"] by (simp add: other_mode_def)
qed

lemma small_inline_get:
  assumes "0 < inline_xattr_size x" "inline_xattr_size x \<le> 24" "length n \<le> F2FS_NAME_LEN f"
  shows "xattr_block x \<noteq> None \<or> inline_xattr_size x = 24 \<longrightarrow> 24 \<le> VALID_XATTR_BLOCK_SIZE f \<longrightarrow> f2fs_getxattr f io_ok x i n buf = Inl X_ENODATA"
    "xattr_block x = None \<longrightarrow> inline_xattr_size x < 24 \<longrightarrow> f2fs_getxattr f io_ok x i n buf = Inl X_OUT_OF_BOUNDS"
proof -
  let ?s = "inline_xattr_size x" and ?m = "read_inline_xattr x"
  have z: "IS_XATTR_LAST_ENTRY ?m 24" unfolding IS_XATTR_LAST_ENTRY_def by (rule u32_at_0I) (use assms(2) in \<open>simp add: read_inline_xattr_def\<close>)
  have f: "find_inline_xattr ?s sz ?m 24 i n = (if sz < 28 then None else Some (Found_At 24))" for sz
    by (subst find_inline_xattr.simps) (simp add: z)
  show "xattr_block x \<noteq> None \<or> ?s = 24 \<longrightarrow> 24 \<le> VALID_XATTR_BLOCK_SIZE f \<longrightarrow> f2fs_getxattr f io_ok x i n buf = Inl X_ENODATA"
    using assms(1,3) z f by (auto simp: f2fs_getxattr_def lookup_all_xattrs_def io_ok_def Let_def)
  show "xattr_block x = None \<longrightarrow> ?s < 24 \<longrightarrow> f2fs_getxattr f io_ok x i n buf = Inl X_OUT_OF_BOUNDS"
    using assms(1,3) f by (auto simp: f2fs_getxattr_def lookup_all_xattrs_def io_ok_def Let_def)
qed

lemma small_inline_set:
  assumes "0 < s" "s \<le> 24" "4 dvd s"
  shows "\<exists>x'. f2fs_setxattr linux_xfmt io_ok (new_xinode s mode) 1 [97] (Some [98]) False False = (None, x') \<and> inline_xattr_size x' = s \<and> xattr_block x' \<noteq> None"
proof -
  define m where "m = init_header (\<lambda>_. 0)"
  have z: "IS_XATTR_LAST_ENTRY m 24" unfolding IS_XATTR_LAST_ENTRY_def by (rule u32_at_0I) (simp add: m_def init_header_def mem_write_def)
  have al: "XATTR_ALIGN 6 = 8" "XATTR_ALIGN (s + 4072) = s + 4072" using assms(3) by (auto simp: XATTR_ALIGN_def)
  have "(\<lambda>a. if a < s then inline_xattr (new_xinode s mode) a else 0) = (\<lambda>_. 0)" by (simp add: new_xinode_def fun_eq_iff)
  then have rd: "read_all_xattrs linux_xfmt io_ok (new_xinode s mode) = Inr m"
    by (simp add: read_all_xattrs_def io_ok_def read_xattr_block_def read_inline_xattr_def new_xinode_def m_def cong: if_cong)
  have f: "find_xattr (4076 + s) m 24 1 [97] = Some 24" "last_xattr (4076 + s) m 24 = Some 24"
    using z by (subst find_xattr.simps last_xattr.simps; simp)+
  have sz: "inline_xattr_size (new_xinode s mode) = s" "xattr_block (new_xinode s mode) = None" "VALID_XATTR_BLOCK_SIZE linux_xfmt = 4072" "F2FS_NAME_LEN linux_xfmt = 255"
    by (simp_all add: new_xinode_def linux_xfmt_def)
  obtain y where y: "write_all_xattrs linux_xfmt io_ok (new_xinode s mode) 32 (write_entry m 24 1 [97] [98]) = (None, y)" "inline_xattr_size y = s" "xattr_block y \<noteq> None"
    using assms(2) by (auto simp: write_all_xattrs_def Let_def io_ok_def sz)
  have "f2fs_setxattr linux_xfmt io_ok (new_xinode s mode) 1 [97] (Some [98]) False False = (None, setxattr_done 1 [97] y)"
    using rd f z y(1) by (simp add: f2fs_setxattr_def setxattr_body_def  Let_def sz MAX_VALUE_LEN_def MIN_OFFSET_def al)
  then show ?thesis using y(2,3) by simp
qed

text \<open>
  C29. The mount option \<open>inline_xattr_size\<close> may give less room than the header takes. Then no attribute is ever found: the search in the inode starts behind the room, in the
  zeros of the buffer, and takes them for the end, so the first attribute of a new inode, which is set with success, is not there afterwards. Before it is set, without a block, the
  search starts behind the buffer itself.
\<close>

theorem small_inline_lost:
  assumes "0 < s" "s \<le> 24" "4 dvd s"
  shows "(\<exists>x'. f2fs_setxattr linux_xfmt io_ok (new_xinode s mode) 1 [97] (Some [98]) False False = (None, x') \<and> (\<forall>buf. f2fs_getxattr linux_xfmt io_ok x' 1 [97] buf = Inl X_ENODATA))
    \<and> (s < 24 \<longrightarrow> (\<forall>buf. f2fs_getxattr linux_xfmt io_ok (new_xinode s mode) 1 [97] buf = Inl X_OUT_OF_BOUNDS))"
proof -
  have n: "length [97 :: u8] \<le> F2FS_NAME_LEN linux_xfmt" "24 \<le> VALID_XATTR_BLOCK_SIZE linux_xfmt" by (simp_all add: linux_xfmt_def)
  obtain x' where x': "f2fs_setxattr linux_xfmt io_ok (new_xinode s mode) 1 [97] (Some [98]) False False = (None, x')" "inline_xattr_size x' = s" "xattr_block x' \<noteq> None"
    using small_inline_set [OF assms] by blast
  have "f2fs_getxattr linux_xfmt io_ok x' 1 [97] buf = Inl X_ENODATA" for buf using small_inline_get(1) [of x', OF _ _ n(1)] x'(2,3) assms n(2) by blast
  moreover have "s < 24 \<longrightarrow> f2fs_getxattr linux_xfmt io_ok (new_xinode s mode) 1 [97] buf = Inl X_OUT_OF_BOUNDS" for buf
    using small_inline_get(2) [of "new_xinode s mode", OF _ _ n(1)] assms by (simp add: new_xinode_def)
  ultimately show ?thesis using x'(1) by blast
qed

theorem small_inline_lost_witness:
  "\<exists>x'. f2fs_setxattr linux_xfmt io_ok (new_xinode 16 0x81A4) 1 [97] (Some [98]) False False = (None, x') \<and> f2fs_getxattr linux_xfmt io_ok x' 1 [97] (Some 10) = Inl X_ENODATA"
  using small_inline_lost [of 16 "0x81A4"] by auto

end
