(* ===== verification/Spec2Isabelle.thy ===== *)
theory Spec2Isabelle
  imports Nvm_Gc Nvm_Store Log_Run Extent_Spec Node_Path Nat_Claims Dir_Claims Xattr_Claims
begin

text \<open>
  A verification development for Hoit-F2FS, an F2FS for hybrid storage: a byte-addressable NVM device in front of an SSD. A table (MPT) maps segments of the
  SSD to segments of the NVM; block I/O to a mapped segment is redirected, segments of the logs get NVM shadows, a background thread moves
  cold segments back and hot segments up, and the checkpoint of the file system also commits the NVM metadata. Below this layer the
  program is F2FS: segments and logs, the segment information table (SIT), the node address table (NAT), the extent cache, node trees and garbage
  collection. The sources are the C files of \<open>src/\<close>.

  \<^bold>\<open>How the code is modelled.\<close> Structures are records with the fields of the source, operations are functions from the state to the state (and result), and
  errors and panics are values: \<open>f2fs_bug_on\<close> and \<open>nvm_debug\<close> assertions set the flag that the code sets (\<open>SBI_NEED_FSCK\<close>) and
  execution goes on as in the code. Unsigned integers that may wrap are words or are wrapped explicitly (\<open>u32_wrap\<close>, \<open>u32_sub\<close>); block and segment numbers
  that the code only compares and indexes with are natural numbers under stated bounds. Loops that may not end are \<open>partial_function (option)\<close>, where \<open>None\<close> is not
  returning, and the theorems show that they return; the others have measures. Locks are left out: an operation is the body the code runs under
  its locks, and interleavings are sequences of operations (\<open>Log_Run\<close>, \<open>Nid_Run\<close>). Code outside \<open>src/\<close> is a parameter: the red-black tree of the kernel
  (\<open>rb_ops\<close> with the shape it may choose), the contents of devices, the formats fixed by the kernel's headers (\<open>disk_fmt\<close>, \<open>nat_fmt\<close>, \<open>node_fmt\<close>), the
  number of pages a bio takes, free memory, and the disk statistics the load measurement reads.

  \<^bold>\<open>Generic theories.\<close>
  \<^item> \<open>Prelude\<close>: bitmaps and their searches (\<open>find_next_bit\<close>, \<open>find_next_zero_bit\<close>), 32-bit arithmetic, list and map lemmas. \<open>Bytes\<close>: little-endian
    encoding of words. \<open>Rev_Bits\<close>: the word-wise searches of \<open>segment.c\<close> in bitmaps with reversed bit order equal the bit-wise ones.
  \<^item> \<open>Backed_Map\<close>: the locale of a store that stands for a map, interpreted on the node address table, on directories and on extended attributes.
  \<^item> \<open>Array_Heap\<close>: heaps in arrays, as the locale \<open>heap_order\<close> over an order; interpreted for the max-heap and the min-heap of \<open>nvm.c\<close>.

  \<^bold>\<open>The NVM layer\<close> (\<open>nvm.h\<close>, \<open>nvm.c\<close>, \<open>gc_nvm.c\<close>).
  \<^item> \<open>Nvm_Mpt\<close>: packed table entries and their flags; round trips, and one flag operation that damages its neighbour. \<open>Nvm_Alloc\<close>: the bitmap of NVM segments,
    \<open>nvm_allocate_segment\<close>, \<open>create_mapping\<close>, \<open>unset_mapping\<close>; the invariant (injective mapping, free counter) over all reachable states, and the abstract mapping as
    the locale \<open>seg_mapping\<close>.
  \<^item> \<open>Geometry\<close>, \<open>Nvm_Redirect\<close>: address arithmetic and the redirection of bios; two bios never meet in NVM unless they were meant for the same block.
  \<^item> \<open>Nvm_Lfu\<close>, \<open>Nvm_Heap\<close>: four-level access counters; the selection of the k coldest or hottest segments is correct.
  \<^item> \<open>Nvm_Store\<close>: the double-buffered tables on the medium, mounting and the NVM part of the checkpoint; the switch is atomic, and the mapping operations mark what they change.
  \<^item> \<open>Nvm_Gc\<close>: moving segments between the devices in runs of bounded bios is invisible to readers.

  \<^bold>\<open>Segments and logs\<close> (\<open>segment.h\<close>, \<open>segment.c\<close>, \<open>gc.c\<close>).
  \<^item> \<open>Seg_State\<close>, \<open>Free_Segs\<close>, \<open>Sit\<close>: the state of the segment manager, the free maps (locale \<open>seg_pool\<close>), validity of blocks, dirty lists; invalidation.
  \<^item> \<open>Victim\<close>: victim selection with its costs and the cyclic search. \<open>Curseg\<close>, \<open>Alloc_Block\<close>: the choice of a segment for a log, LFS and SSR, and
    \<open>f2fs_allocate_data_block\<close>. \<open>Log_Run\<close>: however allocations and invalidations interleave, no block of the last checkpoint is overwritten.

  \<^bold>\<open>Extent cache\<close> (\<open>extent_cache.c\<close>): \<open>Extent_Cache\<close> and \<open>Extent_Update\<close> model search, split, merge, insert and drop on any tree shape the kernel's rebalancing may choose;
  \<open>Extent_Spec\<close> refines them to a map from file blocks to addresses.

  \<^bold>\<open>Nodes\<close> (\<open>node.c\<close>, \<open>node.h\<close>).
  \<^item> \<open>Node_Path\<close>: the paths of file blocks through indirect nodes, and their inverse.
  \<^item> \<open>Nat_Table\<close>: the NAT cache with its clean list and its sets of dirty entries, the journal and the two copies of table blocks. \<open>Nat_Flush\<close>: the flush at a checkpoint.
  \<^item> \<open>Free_Nids\<close>, \<open>Nid_Mount\<close>: free ids, their bitmaps, mounting. \<open>Nid_Safety\<close> and \<open>Nid_Run\<close> prove the invariant that ties them to the table over runs (\<open>nm_step\<close>);
    \<open>Nid_Live\<close> proves when \<open>f2fs_alloc_nid\<close> returns and when it does not; \<open>Nat_Volume\<close> is a small volume for examples.
  \<^item> \<open>Nat_Claims\<close>: the table refines a map (locale \<open>backed_map\<close>, interpreted on the table), the flush is crash safe, ids are handed out once.

  \<^bold>\<open>Directories\<close> (\<open>dir.c\<close>, \<open>hash.c\<close>, the directory part of \<open>inline.c\<close>).
  \<^item> \<open>Name_Hash\<close>: the hash of names. \<open>Dentry_Block\<close>: slots, bitmap and names of one block of entries. \<open>Dir_Ops\<close>: the multi-level hash table and entries in the inode, with
    lookup, insertion, growth, rehashing, removal, replacement and listing.
  \<^item> \<open>Dir_Table\<close>, \<open>Dir_Map\<close>: the invariant, and the refinement to a map from names to inode numbers. \<open>Dir_Claims\<close>: listing, emptiness, and that insertion returns.

  \<^bold>\<open>Extended attributes\<close> (\<open>xattr.c\<close>, \<open>acl.c\<close>).
  \<^item> \<open>Xattr_Ops\<close>: entries as bytes in the inode and its attribute block. \<open>Xattr_Map\<close>: the entries as an association list, kept by every operation. \<open>Acl\<close>: access control
    lists in their form on the medium, and their inheritance.
  \<^item> \<open>Xattr_Claims\<close>: attributes refine a map, lists are read as they were set and inherited without new permissions; two defects of the code are proved.

  \<^bold>\<open>Not modelled.\<close> The VFS glue and page-cache protocols of \<open>file.c\<close>, \<open>data.c\<close>, \<open>inode.c\<close>, \<open>namei.c\<close> and the file part of \<open>inline.c\<close>; option parsing and object set-up of \<open>super.c\<close>;
  discard and flush commands, summaries and the SIT flush of \<open>segment.c\<close>; the garbage collector beyond victim selection; recovery;
  statistics, tracing and sysfs. Concurrency finer than whole operations is not modelled.
\<close>

end
